(* ===== verification/Prelude.thy ===== *)
theory Prelude
  imports Main "HOL-Library.Word"
begin

text \<open>
  Shared vocabulary of the development: the machine integer types of the C sources, the status
  codes of \<^verbatim>\<open>core/include/core_errno.h\<close>, the collections that the component theories fill
  (\<open>kmd_defs\<close>: the operations of a component; \<open>kmd_inv\<close>: the invariants), and the
  generic facts on words, lists and bounded search that several components need.
\<close>

unbundle bit_operations_syntax

named_theorems kmd_defs "operations of the modelled components, for unfolding"
named_theorems kmd_inv "invariants of the modelled components, for unfolding"

section \<open>Machine integers\<close>

type_synonym u8 = "8 word"
type_synonym u16 = "16 word"
type_synonym u32 = "32 word"
type_synonym u64 = "64 word"

text \<open>
  The status codes the core returns. They are \<^verbatim>\<open>int\<close>s in the C code and are only ever
  compared for equality, so a datatype loses nothing.
\<close>

datatype status = S_OK | E_OUTOFMEMORY | E_INVALIDARG | E_FAIL | E_PENDING

text \<open>
  \<^verbatim>\<open>zx_assert\<close> stops the kernel when its condition is false; operations that assert return
  \<open>Panic\<close> there.
\<close>

datatype 'a outcome = Panic | Done 'a

section \<open>Unsigned arithmetic without wrap-around\<close>

lemma unat_add_nowrap:
  "unat (a :: 'w::len word) + unat b < 2 ^ LENGTH('w) \<Longrightarrow> unat (a + b) = unat a + unat b"
  by (simp add: unat_word_ariths)

lemma unat_sub_nowrap:
  "(b :: 'w::len word) \<le> a \<Longrightarrow> unat (a - b) = unat a - unat b"
  by (rule unat_sub)

lemma word_le_unat: "(a :: 'w::len word) \<le> b \<longleftrightarrow> unat a \<le> unat b"
  by (rule word_le_nat_alt)

lemma word_less_unat: "(a :: 'w::len word) < b \<longleftrightarrow> unat a < unat b"
  by (rule word_less_nat_alt)

lemmas word_to_nat = word_le_unat word_less_unat

lemma nat_and_4095: "(n :: nat) AND 4095 = n mod 4096"
proof -
  have "n AND mask 12 = n mod 2 ^ 12"
    by (simp only: take_bit_eq_mask [symmetric] take_bit_eq_mod)
  then show ?thesis by (simp add: mask_eq_exp_minus_1)
qed

section \<open>Half-open intervals of addresses\<close>

text \<open>Two half-open ranges \<open>[s, s + n)\<close> share no address.\<close>

definition disjoint_range :: "nat \<Rightarrow> nat \<Rightarrow> nat \<Rightarrow> nat \<Rightarrow> bool" where
  "disjoint_range s n s' n' \<longleftrightarrow> s + n \<le> s' \<or> s' + n' \<le> s"

lemma disjoint_range_sym: "disjoint_range s n s' n' \<longleftrightarrow> disjoint_range s' n' s n"
  by (auto simp: disjoint_range_def)

lemma disjoint_range_iff:
  "0 < n \<Longrightarrow> 0 < n' \<Longrightarrow> disjoint_range s n s' n' \<longleftrightarrow> {s..<s + n} \<inter> {s'..<s' + n'} = {}"
  by (auto simp: disjoint_range_def)

end
