(* ===== verification/Ring_Buffer.thy ===== *)
theory Ring_Buffer
  imports Prelude
begin

text \<open>
  The command ring of \<^verbatim>\<open>core/util/ring_buffer.c\<close>. The driver appends commands at \<open>tail\<close>; the
  engine consumes them from \<open>head\<close>, which the driver only learns by calling \<open>wrap\<close> (a register read
  that also clears the skipped bytes at the end of the ring). \<open>wrap\<close> is a parameter: a
  function of the ring it is called on and of the skip count.
\<close>

record ring_buffer =
  rb_head :: u32
  rb_tail :: u32
  rb_size :: u32
  rb_left_size :: u32
  rb_reserved_size :: u32

type_synonym ring_func = "ring_buffer \<Rightarrow> u32 \<Rightarrow> u32"

definition ring_buffer_init :: "u32 \<Rightarrow> u32 \<Rightarrow> ring_buffer" where
  "ring_buffer_init sz reserved =
     \<lparr>rb_head = reserved, rb_tail = reserved, rb_size = sz,
      rb_left_size = sz - reserved, rb_reserved_size = reserved\<rparr>"

text \<open>The three steps of \<^verbatim>\<open>ring_buffer_get_space\<close>, in the order of the code.\<close>

definition ring_wrap_step :: "ring_func \<Rightarrow> u32 \<Rightarrow> ring_buffer \<Rightarrow> ring_buffer" where
  "ring_wrap_step wrap req r =
     (if rb_tail r + req \<ge> rb_size r then
        let h = wrap r (rb_size r - rb_tail r)
        in r\<lparr>rb_head := h, rb_tail := rb_reserved_size r,
             rb_left_size := h - rb_reserved_size r\<rparr>
      else r)"

definition ring_refresh_step :: "ring_func \<Rightarrow> u32 \<Rightarrow> ring_buffer \<Rightarrow> ring_buffer" where
  "ring_refresh_step wrap req r =
     (if rb_left_size r < req then
        let h = wrap r 0
        in r\<lparr>rb_head := h,
             rb_left_size := rb_size r + h - rb_tail r - rb_reserved_size r\<rparr>
      else r)"

definition ring_take_step :: "u32 \<Rightarrow> ring_buffer \<Rightarrow> u32 option \<times> ring_buffer" where
  "ring_take_step req r =
     (if rb_left_size r \<ge> req then
        (Some (rb_tail r),
         r\<lparr>rb_left_size := rb_left_size r - req, rb_tail := rb_tail r + req\<rparr>)
      else (None, r))"

definition ring_buffer_get_space ::
    "ring_func \<Rightarrow> u32 \<Rightarrow> ring_buffer \<Rightarrow> u32 option \<times> ring_buffer" where
  "ring_buffer_get_space wrap req r =
     ring_take_step req (ring_refresh_step wrap req (ring_wrap_step wrap req r))"

lemmas ring_defs [kmd_defs] =
  ring_wrap_step_def ring_refresh_step_def ring_take_step_def ring_buffer_get_space_def

section \<open>Well-formed rings\<close>

text \<open>
  The C parameters \<^verbatim>\<open>size\<close> and \<^verbatim>\<open>reserved_size\<close> are non-negative \<^verbatim>\<open>int\<close>s, hence the bound
  on the size.
\<close>

definition ring_wf :: "ring_buffer \<Rightarrow> bool" where
  "ring_wf r \<longleftrightarrow> unat (rb_size r) < 2 ^ 31 \<and> rb_reserved_size r \<le> rb_tail r \<and> rb_tail r \<le> rb_size r"

text \<open>
  Bytes written by the driver and not yet consumed by an engine whose head is \<open>h\<close>, and the
  bytes free from the tail on. As for the engine, head and tail equal means empty.
\<close>

definition ring_in_flight :: "ring_buffer \<Rightarrow> u32 \<Rightarrow> nat set" where
  "ring_in_flight r h =
     (if h \<le> rb_tail r then {unat h ..< unat (rb_tail r)}
      else {unat h ..< unat (rb_size r)} \<union> {unat (rb_reserved_size r) ..< unat (rb_tail r)})"

definition ring_free :: "ring_buffer \<Rightarrow> u32 \<Rightarrow> nat" where
  "ring_free r h =
     (if h \<le> rb_tail r
      then unat (rb_size r) - unat (rb_tail r) + (unat h - unat (rb_reserved_size r))
      else unat h - unat (rb_tail r))"

definition ring_sound :: "ring_buffer \<Rightarrow> u32 \<Rightarrow> bool" where
  "ring_sound r h \<longleftrightarrow> rb_reserved_size r \<le> h \<and> h \<le> rb_size r \<and> unat (rb_left_size r) \<le> ring_free r h"

lemmas ring_inv_defs [kmd_inv] = ring_wf_def ring_sound_def ring_free_def ring_in_flight_def

lemma ring_wf_init: "unat sz < 2 ^ 31 \<Longrightarrow> res \<le> sz \<Longrightarrow> ring_wf (ring_buffer_init sz res)"
  by (simp add: ring_wf_def ring_buffer_init_def)

lemma ring_sound_init: "res \<le> sz \<Longrightarrow> ring_sound (ring_buffer_init sz res) res"
  by (simp add: ring_sound_def ring_free_def ring_buffer_init_def unat_sub_nowrap)

text \<open>No step changes the geometry of the ring.\<close>

lemma ring_get_space_frame:
  "ring_buffer_get_space wrap req r = (res, r') \<Longrightarrow>
     rb_size r' = rb_size r \<and> rb_reserved_size r' = rb_reserved_size r"
  by (auto simp: ring_defs Let_def split: if_splits)

text \<open>The state after the two refresh steps: where the tail may be.\<close>

lemma ring_prepare_tail:
  assumes wf: "ring_wf r" and req: "unat req \<le> unat (rb_size r) - unat (rb_reserved_size r)"
    and r2: "r2 = ring_refresh_step wrap req (ring_wrap_step wrap req r)"
  shows "rb_reserved_size r \<le> rb_tail r2"
    and "unat (rb_tail r2) + unat req \<le> unat (rb_size r)"
    and "rb_size r2 = rb_size r" and "rb_reserved_size r2 = rb_reserved_size r"
proof -
  have nowrap: "unat (rb_tail r + req) = unat (rb_tail r) + unat req"
    using wf req by (intro unat_add_nowrap) (auto simp: ring_wf_def word_to_nat)
  show "rb_reserved_size r \<le> rb_tail r2"
    using wf by (simp add: r2 ring_defs Let_def ring_wf_def)
  show "unat (rb_tail r2) + unat req \<le> unat (rb_size r)"
    using wf req nowrap
    by (auto simp: r2 ring_defs Let_def ring_wf_def word_to_nat)
  show "rb_size r2 = rb_size r" "rb_reserved_size r2 = rb_reserved_size r"
    by (simp_all add: r2 ring_defs Let_def)
qed

section \<open>What a caller of \<open>ring_buffer_get_space\<close> may rely on\<close>

lemma ring_get_space_grant:
  assumes "ring_buffer_get_space wrap req r = (Some off, r')"
    and r2: "r2 = ring_refresh_step wrap req (ring_wrap_step wrap req r)"
  shows "off = rb_tail r2" and "req \<le> rb_left_size r2"
    and "r' = r2\<lparr>rb_left_size := rb_left_size r2 - req, rb_tail := rb_tail r2 + req\<rparr>"
  using assms(1) unfolding ring_buffer_get_space_def r2[symmetric]
  by (auto simp: ring_take_step_def split: if_splits)

lemma ring_get_space_tail:
  assumes wf: "ring_wf r" and req: "unat req \<le> unat (rb_size r) - unat (rb_reserved_size r)"
    and get: "ring_buffer_get_space wrap req r = (Some off, r')"
  shows "unat (rb_tail r') = unat off + unat req"
    and "rb_reserved_size r \<le> off" and "unat off + unat req \<le> unat (rb_size r)"
    and "rb_size r' = rb_size r" and "rb_reserved_size r' = rb_reserved_size r"
proof -
  define r2 where r2: "r2 = ring_refresh_step wrap req (ring_wrap_step wrap req r)"
  note g = ring_get_space_grant [OF get r2] and p = ring_prepare_tail [OF wf req r2]
  show "rb_reserved_size r \<le> off" "unat off + unat req \<le> unat (rb_size r)"
    using g p by simp_all
  show "unat (rb_tail r') = unat off + unat req"
    using g p wf by (simp add: ring_wf_def unat_add_nowrap)
  show "rb_size r' = rb_size r" "rb_reserved_size r' = rb_reserved_size r"
    using g p by simp_all
qed

lemma ring_get_space_wf:
  assumes "ring_wf r" "unat req \<le> unat (rb_size r) - unat (rb_reserved_size r)"
    "ring_buffer_get_space wrap req r = (Some off, r')"
  shows "ring_wf r'"
  using ring_get_space_tail [OF assms] assms(1) by (simp add: ring_wf_def word_to_nat)

text \<open>
  The engine has not been lapped: when the ring wraps, the engine is behind the old tail and has
  left enough room in front of its head; when only the free size is recomputed, it is behind
  the tail.
\<close>

definition ring_not_lapped :: "u32 \<Rightarrow> u32 \<Rightarrow> ring_buffer \<Rightarrow> bool" where
  "ring_not_lapped h req r \<longleftrightarrow>
     (if rb_tail r + req \<ge> rb_size r
      then h \<le> rb_tail r \<and> req \<le> h - rb_reserved_size r
      else rb_left_size r < req \<longrightarrow> h \<le> rb_tail r)"

lemma ring_refresh_left:
  assumes "ring_wf r" "ring_sound r h" "h \<le> rb_tail r"
  shows "unat (rb_size r + h - rb_tail r - rb_reserved_size r) =
    unat (rb_size r) - unat (rb_tail r) + (unat h - unat (rb_reserved_size r))"
proof -
  have bounds: "rb_tail r \<le> rb_size r" "rb_reserved_size r \<le> h" "h \<le> rb_size r"
    "unat (rb_size r) < 2 ^ 31"
    using assms by (auto simp: ring_wf_def ring_sound_def)
  then have "unat (rb_size r + h) = unat (rb_size r) + unat h"
    by (intro unat_add_nowrap) (simp add: word_to_nat)
  then show ?thesis
    using bounds by (simp add: unat_sub_nowrap word_to_nat)
qed

lemma ring_prepare_sound:
  assumes wf: "ring_wf r" and snd: "ring_sound r h" and nl: "ring_not_lapped h req r"
    and r2: "r2 = ring_refresh_step (\<lambda>_ _. h) req (ring_wrap_step (\<lambda>_ _. h) req r)"
  shows "ring_sound r2 h"
    and "rb_tail r2 = rb_tail r \<or>
      rb_tail r2 = rb_reserved_size r \<and> h \<le> rb_tail r \<and> unat req \<le> unat h - unat (rb_reserved_size r)"
proof -
  have res: "rb_reserved_size r \<le> h" using snd by (simp add: ring_sound_def)
  show "ring_sound r2 h"
    using snd wf nl ring_refresh_left [OF wf snd] unat_sub_nowrap [OF res]
    by (auto simp: r2 ring_refresh_step_def ring_wrap_step_def Let_def ring_sound_def
        ring_free_def ring_not_lapped_def ring_wf_def split: if_splits)
  show "rb_tail r2 = rb_tail r \<or>
      rb_tail r2 = rb_reserved_size r \<and> h \<le> rb_tail r \<and> unat req \<le> unat h - unat (rb_reserved_size r)"
    using nl unat_sub_nowrap [OF res]
    by (auto simp: r2 ring_refresh_step_def ring_wrap_step_def Let_def ring_not_lapped_def
        word_to_nat split: if_splits)
qed

text \<open>The same step on natural numbers: size \<open>S\<close>, reserved \<open>R\<close>, head \<open>H\<close>, old tail \<open>T\<close>, grant at \<open>T2\<close>.\<close>

lemma ring_step_nat:
  fixes S R H T T2 Q :: nat
  assumes "R \<le> H" "H \<le> S" "R \<le> T" "T \<le> S" "T2 + Q \<le> S" "T2 + Q \<noteq> H"
    and "T2 = T \<or> T2 = R \<and> H \<le> T \<and> Q \<le> H - R"
    and "Q \<le> (if H \<le> T2 then S - T2 + (H - R) else H - T2)"
  defines "fl \<equiv> \<lambda>t. if H \<le> t then {H..<t} else {H..<S} \<union> {R..<t}"
  shows "{T2..<T2 + Q} \<inter> fl T = {} \<and> fl T \<union> {T2..<T2 + Q} \<subseteq> fl (T2 + Q)"
  using assms(1-8) unfolding fl_def by auto

section \<open>Properties\<close>

text \<open>
  Bounds of the command ring, for every behaviour of the engine: a granted region lies inside
  the ring behind the reserved prefix, the tail moves to its end, and the ring stays well formed.
\<close>

theorem ring_get_space_in_bounds:
  assumes "ring_wf r"
    and "unat req \<le> unat (rb_size r) - unat (rb_reserved_size r)"
    and "ring_buffer_get_space wrap req r = (Some off, r')"
  shows "rb_reserved_size r \<le> off \<and> unat off + unat req \<le> unat (rb_size r) \<and>
    unat (rb_tail r') = unat off + unat req \<and> ring_wf r'"
  using ring_get_space_tail [OF assms] ring_get_space_wf [OF assms] by simp

theorem ring_get_space_in_bounds_witness:
  "ring_buffer_get_space (\<lambda>_ _. 64) 32 (ring_buffer_init 256 16) =
     (Some 16, \<lparr>rb_head = 16, rb_tail = 48, rb_size = 256, rb_left_size = 208,
                rb_reserved_size = 16\<rparr>) \<and>
   ring_wf \<lparr>rb_head = 16, rb_tail = 48, rb_size = 256, rb_left_size = 208,
            rb_reserved_size = 16\<rparr>"
proof -
  have get: "ring_buffer_get_space (\<lambda>_ _. 64) 32 (ring_buffer_init 256 16) =
     (Some 16, \<lparr>rb_head = 16, rb_tail = 48, rb_size = 256, rb_left_size = 208,
                rb_reserved_size = 16\<rparr>)"
    by (simp add: ring_defs ring_buffer_init_def)
  have wf: "ring_wf (ring_buffer_init 256 16)"
    by (rule ring_wf_init) simp_all
  have req: "unat (32 :: u32) \<le> unat (rb_size (ring_buffer_init 256 16)) -
      unat (rb_reserved_size (ring_buffer_init 256 16))"
    by (simp add: ring_buffer_init_def)
  show ?thesis
    using ring_get_space_in_bounds [OF wf req get] get by blast
qed



text \<open>
  That the engine is not lapped is needed: with the engine at 10 of a ring of 100 bytes and the tail at 90,
  a request of 20 bytes is granted at offset 0 although bytes 10 to 19 are still in flight. The free
  size recomputed after a wrap takes the engine to be behind the tail, which the wrap has just
  moved to the start of the ring.
\<close>

theorem ring_get_space_overruns_lapped_engine:
  "\<exists>r'. ring_buffer_get_space (\<lambda>_ _. 10) 20
      \<lparr>rb_head = 10, rb_tail = 90, rb_size = 100, rb_left_size = 20, rb_reserved_size = 0\<rparr> =
        (Some 0, r') \<and>
    {0 ..< 20} \<inter> ring_in_flight
      \<lparr>rb_head = 10, rb_tail = 90, rb_size = 100, rb_left_size = 20, rb_reserved_size = 0\<rparr> 10
      = {10 ..< 20}"
  by (auto simp: ring_defs Let_def ring_in_flight_def)

end
