(* ===== verification/Range_Allocator.thy ===== *)
theory Range_Allocator
  imports Prelude "HOL-Library.Multiset"
begin

text \<open>
  The range allocator that hands out local video memory, GPU virtual addresses and DMA space:
  \<^verbatim>\<open>struct range_allocator\<close> of \<^verbatim>\<open>core/include/kernel_import.h\<close> and its implementation over the
  kernel's \<^verbatim>\<open>drm_mm\<close> in \<^verbatim>\<open>linux/os_interface.c\<close>. \<^verbatim>\<open>drm_mm\<close> itself is not part of the
  repository: where it finds a hole is a parameter (\<open>drm_insert\<close>, \<open>drm_reserve\<close>), and
  \<open>drm_insert_ok\<close>, \<open>drm_reserve_ok\<close> state what its documentation promises. Addresses are natural
  numbers; \<open>ra_wf\<close> keeps every one of them below \<open>2 ^ 64\<close>, so that no sum wraps.
\<close>

section \<open>State\<close>

record range_node =
  rn_start :: nat
  rn_size :: nat

record range_allocator =
  ra_start :: nat
  ra_size :: nat
  ra_free_size :: nat
  ra_alignment :: nat
  ra_nodes :: "range_node list"

text \<open>
  Arguments of the two drm_mm calls: the allocated nodes, start and size of the managed range,
  then the request (size, alignment, allowed range, from the top) or the wanted range.
\<close>

type_synonym drm_insert =
  "range_node list \<Rightarrow> nat \<Rightarrow> nat \<Rightarrow> nat \<Rightarrow> nat \<Rightarrow> nat \<Rightarrow> nat \<Rightarrow> bool \<Rightarrow> nat option"
type_synonym drm_reserve = "range_node list \<Rightarrow> nat \<Rightarrow> nat \<Rightarrow> nat \<Rightarrow> nat \<Rightarrow> bool"

abbreviation free_of :: "range_node list \<Rightarrow> nat \<Rightarrow> nat \<Rightarrow> bool" where
  "free_of ns a n \<equiv> \<forall>x \<in> set ns. disjoint_range a n (rn_start x) (rn_size x)"

definition drm_insert_ok :: "drm_insert \<Rightarrow> bool" where
  "drm_insert_ok ins \<longleftrightarrow>
     (\<forall>ns s sz n al lo hi ft a. ins ns s sz n al lo hi ft = Some a \<longrightarrow>
        0 < n \<and> lo \<le> a \<and> a + n \<le> hi \<and> s \<le> a \<and> a + n \<le> s + sz \<and> (al \<noteq> 0 \<longrightarrow> al dvd a) \<and>
        free_of ns a n)"

definition drm_reserve_ok :: "drm_reserve \<Rightarrow> bool" where
  "drm_reserve_ok rsv \<longleftrightarrow>
     (\<forall>ns s sz a n. rsv ns s sz a n \<longrightarrow>
        0 < n \<and> s \<le> a \<and> a + n \<le> s + sz \<and> free_of ns a n)"

section \<open>Operations\<close>

definition zx_create_range_allocator :: "nat \<Rightarrow> nat \<Rightarrow> nat \<Rightarrow> range_allocator" where
  "zx_create_range_allocator start sz al =
     \<lparr>ra_start = start, ra_size = sz, ra_free_size = sz, ra_alignment = al, ra_nodes = []\<rparr>"

definition zx_drm_mm_ra_node_release :: "range_allocator \<Rightarrow> range_node \<Rightarrow> range_allocator" where
  "zx_drm_mm_ra_node_release ra node =
     ra\<lparr>ra_free_size := ra_free_size ra + rn_size node,
        ra_nodes := remove1 node (ra_nodes ra)\<rparr>"

definition zx_drm_mm_ra_reserve ::
    "drm_reserve \<Rightarrow> range_allocator \<Rightarrow> nat \<Rightarrow> nat \<Rightarrow>
     (range_node \<times> range_allocator) option outcome" where
  "zx_drm_mm_ra_reserve rsv ra start sz =
     (if start AND (ra_alignment ra - 1) \<noteq> 0 then Panic
      else Done (if rsv (ra_nodes ra) (ra_start ra) (ra_size ra) start sz then
        let node = \<lparr>rn_start = start, rn_size = sz\<rparr>
        in Some (node, ra\<lparr>ra_free_size := ra_free_size ra - rn_size node,
                         ra_nodes := insort_key rn_start node (ra_nodes ra)\<rparr>)
      else None))"

definition zx_drm_mm_ra_alloc ::
    "drm_insert \<Rightarrow> range_allocator \<Rightarrow> nat \<Rightarrow> nat \<Rightarrow> nat \<Rightarrow> nat \<Rightarrow> bool \<Rightarrow>
     (range_node \<times> range_allocator) option" where
  "zx_drm_mm_ra_alloc ins ra sz al lo hi from_top =
     (let al = (if al < ra_alignment ra then ra_alignment ra else al)
      in case ins (ra_nodes ra) (ra_start ra) (ra_size ra) sz al lo hi from_top of
           None \<Rightarrow> None
         | Some a \<Rightarrow>
             let node = \<lparr>rn_start = a, rn_size = sz\<rparr>
             in Some (node, ra\<lparr>ra_free_size := ra_free_size ra - rn_size node,
                              ra_nodes := insort_key rn_start node (ra_nodes ra)\<rparr>))"

text \<open>
  The descent of the interval tree keeps the last node whose start is not above the address;
  the tree is searched by its in-order list.
\<close>

fun ra_lookup_walk :: "nat \<Rightarrow> range_node list \<Rightarrow> range_node option \<Rightarrow> range_node option" where
  "ra_lookup_walk start [] best = best"
| "ra_lookup_walk start (n # ns) best =
     (if start \<ge> rn_start n then ra_lookup_walk start ns (Some n) else best)"

definition zx_drm_mm_ra_lookup :: "range_allocator \<Rightarrow> nat \<Rightarrow> nat \<Rightarrow> range_node option" where
  "zx_drm_mm_ra_lookup ra start sz =
     (case ra_lookup_walk start (ra_nodes ra) None of
        None \<Rightarrow> None
      | Some best \<Rightarrow> if rn_start best + rn_size best < start + sz then None else Some best)"

fun ra_visit ::
    "nat \<Rightarrow> nat \<Rightarrow> (range_node \<Rightarrow> 's \<Rightarrow> bool \<times> 's) \<Rightarrow> range_node list \<Rightarrow> nat \<Rightarrow> 's \<Rightarrow> nat \<times> 's" where
  "ra_visit start end visitor [] num s = (num, s)"
| "ra_visit start end visitor (n # ns) num s =
     (if rn_start n \<ge> start \<and> rn_start n + rn_size n \<le> end then
        (case visitor n s of
           (continue, s') \<Rightarrow>
             if \<not> continue then (Suc num, s')
             else ra_visit start end visitor ns (Suc num) s')
      else ra_visit start end visitor ns num s)"

definition zx_drm_mm_ra_for_each_node ::
    "range_allocator \<Rightarrow> nat \<Rightarrow> nat \<Rightarrow> (range_node \<Rightarrow> 's \<Rightarrow> bool \<times> 's) \<Rightarrow> 's \<Rightarrow> nat \<times> 's" where
  "zx_drm_mm_ra_for_each_node ra start end visitor s =
     ra_visit start end visitor (ra_nodes ra) 0 s"

lemmas ra_defs [kmd_defs] =
  zx_drm_mm_ra_alloc_def zx_drm_mm_ra_reserve_def zx_drm_mm_ra_node_release_def
  zx_create_range_allocator_def zx_drm_mm_ra_lookup_def zx_drm_mm_ra_for_each_node_def

section \<open>Invariant\<close>

definition rn_before :: "range_node \<Rightarrow> range_node \<Rightarrow> bool" where
  "rn_before x y \<longleftrightarrow> rn_start x + rn_size x \<le> rn_start y"

definition ra_wf :: "range_allocator \<Rightarrow> bool" where
  "ra_wf ra \<longleftrightarrow>
     ra_start ra + ra_size ra < 2 ^ 64 \<and>
     sorted_wrt rn_before (ra_nodes ra) \<and>
     (\<forall>n \<in> set (ra_nodes ra). 0 < rn_size n \<and> ra_start ra \<le> rn_start n \<and>
        rn_start n + rn_size n \<le> ra_start ra + ra_size ra) \<and>
     ra_free_size ra + sum_list (map rn_size (ra_nodes ra)) = ra_size ra"

lemma ra_wf_create: "start + sz < 2 ^ 64 \<Longrightarrow> ra_wf (zx_create_range_allocator start sz al)"
  by (simp add: ra_wf_def zx_create_range_allocator_def)

lemma insort_key_rn_set: "set (insort_key rn_start n ns) = insert n (set ns)"
  by (rule set_insort_key)

lemma insort_key_rn_sum:
  "sum_list (map rn_size (insort_key rn_start n ns)) = rn_size n + sum_list (map rn_size ns)"
  by (induction ns) auto

lemma insort_key_rn_sorted:
  assumes "sorted_wrt rn_before ns" "free_of ns (rn_start n) (rn_size n)" "0 < rn_size n"
    "\<forall>x \<in> set ns. 0 < rn_size x"
  shows "sorted_wrt rn_before (insort_key rn_start n ns)"
  using assms
  by (induction ns) (auto simp: set_insort_key rn_before_def disjoint_range_def)

lemma free_of_not_mem: "free_of ns (rn_start n) (rn_size n) \<Longrightarrow> 0 < rn_size n \<Longrightarrow> n \<notin> set ns"
  by (auto simp: disjoint_range_def)

lemma remove1_insort_rn: "n \<notin> set ns \<Longrightarrow> remove1 n (insort_key rn_start n ns) = ns"
  by (induction ns) auto

lemma remove1_sorted_rn: "sorted_wrt rn_before ns \<Longrightarrow> sorted_wrt rn_before (remove1 n ns)"
  by (induction ns) (auto dest: set_remove1_subset [THEN subsetD])

lemma sum_remove1_rn:
  "n \<in> set ns \<Longrightarrow> rn_size n + sum_list (map rn_size (remove1 n ns)) = sum_list (map rn_size ns)"
  by (induction ns) auto

text \<open>Both ways of allocating add a free node: one preservation lemma serves them.\<close>

lemma ra_wf_add_node:
  assumes wf: "ra_wf ra" and free: "free_of (ra_nodes ra) a n" and pos: "0 < n"
    and "ra_start ra \<le> a" "a + n \<le> ra_start ra + ra_size ra"
    and node: "node = \<lparr>rn_start = a, rn_size = n\<rparr>"
    and ra': "ra' = ra\<lparr>ra_free_size := ra_free_size ra - rn_size node,
                    ra_nodes := insort_key rn_start node (ra_nodes ra)\<rparr>"
    and fits: "n \<le> ra_free_size ra"
  shows "ra_wf ra'" and "ra_free_size ra' + n = ra_free_size ra"
    and "mset (ra_nodes ra') = add_mset node (mset (ra_nodes ra))"
    and "zx_drm_mm_ra_node_release ra' node = ra"
proof -
  have notin: "node \<notin> set (ra_nodes ra)"
    using free_of_not_mem [of "ra_nodes ra" node] free pos by (simp add: node)
  have sorted: "sorted_wrt rn_before (insort_key rn_start node (ra_nodes ra))"
    using wf free pos by (intro insort_key_rn_sorted) (auto simp: ra_wf_def node)
  show "ra_wf ra'"
    using wf sorted fits assms(4,5) pos
    by (auto simp: ra_wf_def ra' set_insort_key insort_key_rn_sum node)
  show "ra_free_size ra' + n = ra_free_size ra"
    using fits by (simp add: ra' node)
  show "mset (ra_nodes ra') = add_mset node (mset (ra_nodes ra))"
    by (simp add: ra')
  show "zx_drm_mm_ra_node_release ra' node = ra"
    using fits notin
    by (simp add: ra' zx_drm_mm_ra_node_release_def remove1_insort_rn node)
qed

text \<open>A free range inside the managed one fits the recorded free size.\<close>

lemma sum_list_card_disjoint:
  assumes "sorted_wrt rn_before ns" "\<forall>x \<in> set ns. lo \<le> rn_start x \<and> rn_start x + rn_size x \<le> hi"
    "lo \<le> hi"
  shows "sum_list (map rn_size ns) \<le> hi - lo"
  using assms
proof (induction ns arbitrary: lo)
  case (Cons x ns)
  have "sum_list (map rn_size ns) \<le> hi - (rn_start x + rn_size x)"
    using Cons.prems by (intro Cons.IH) (auto simp: rn_before_def)
  then show ?case using Cons.prems by auto
qed simp

lemma ra_fits:
  assumes wf: "ra_wf ra" and free: "free_of (ra_nodes ra) a n" and pos: "0 < n"
    and "ra_start ra \<le> a" "a + n \<le> ra_start ra + ra_size ra"
  shows "n \<le> ra_free_size ra"
proof -
  let ?node = "\<lparr>rn_start = a, rn_size = n\<rparr>"
  have sorted: "sorted_wrt rn_before (insort_key rn_start ?node (ra_nodes ra))"
    using wf free pos by (intro insort_key_rn_sorted) (auto simp: ra_wf_def)
  have "sum_list (map rn_size (insort_key rn_start ?node (ra_nodes ra)))
      \<le> (ra_start ra + ra_size ra) - ra_start ra"
    using wf assms(4,5) by (intro sum_list_card_disjoint [OF sorted]) (auto simp: ra_wf_def set_insort_key)
  then show ?thesis
    using wf by (simp add: insort_key_rn_sum ra_wf_def)
qed

lemma ra_release_wf:
  assumes "ra_wf ra" "node \<in> set (ra_nodes ra)"
  shows "ra_wf (zx_drm_mm_ra_node_release ra node)"
  using assms sum_remove1_rn [OF assms(2)] remove1_sorted_rn [of "ra_nodes ra" node]
    set_remove1_subset [of node "ra_nodes ra"]
  by (auto simp: ra_wf_def zx_drm_mm_ra_node_release_def)

section \<open>The contract clients rely on\<close>

text \<open>
  The interface of \<^verbatim>\<open>struct range_allocator\<close>: what an allocation returns, what it keeps, and
  that releasing the node just allocated gives back the very same allocator.
\<close>

locale range_manager =
  fixes alloc :: "range_allocator \<Rightarrow> nat \<Rightarrow> nat \<Rightarrow> nat \<Rightarrow> nat \<Rightarrow> bool \<Rightarrow>
      (range_node \<times> range_allocator) option"
    and release :: "range_allocator \<Rightarrow> range_node \<Rightarrow> range_allocator"
    and invar :: "range_allocator \<Rightarrow> bool"
  assumes alloc_inv: "invar ra \<Longrightarrow> alloc ra n al lo hi ft = Some (r, ra') \<Longrightarrow> invar ra'"
    and alloc_size: "alloc ra n al lo hi ft = Some (r, ra') \<Longrightarrow> rn_size r = n"
    and alloc_range: "alloc ra n al lo hi ft = Some (r, ra') \<Longrightarrow>
      lo \<le> rn_start r \<and> rn_start r + n \<le> hi"
    and alloc_align: "alloc ra n al lo hi ft = Some (r, ra') \<Longrightarrow> al \<noteq> 0 \<Longrightarrow> ra_alignment ra dvd al \<Longrightarrow>
      al dvd rn_start r"
    and alloc_free: "invar ra \<Longrightarrow> alloc ra n al lo hi ft = Some (r, ra') \<Longrightarrow>
      ra_free_size ra' + n = ra_free_size ra"
    and alloc_nodes: "invar ra \<Longrightarrow> alloc ra n al lo hi ft = Some (r, ra') \<Longrightarrow>
      mset (ra_nodes ra') = add_mset r (mset (ra_nodes ra))"
    and alloc_disjoint: "invar ra \<Longrightarrow> alloc ra n al lo hi ft = Some (r, ra') \<Longrightarrow>
      free_of (ra_nodes ra) (rn_start r) (rn_size r)"
    and alloc_geometry: "alloc ra n al lo hi ft = Some (r, ra') \<Longrightarrow>
      ra_alignment ra' = ra_alignment ra"
    and release_alloc: "invar ra \<Longrightarrow> alloc ra n al lo hi ft = Some (r, ra') \<Longrightarrow> release ra' r = ra"
    and release_inv: "invar ra \<Longrightarrow> r \<in> set (ra_nodes ra) \<Longrightarrow> invar (release ra r)"
    and release_free: "ra_free_size (release ra r) = ra_free_size ra + rn_size r"

text \<open>The drm_mm that the driver is built against.\<close>

locale drm_mm =
  fixes ins :: drm_insert
  assumes ins_ok: "drm_insert_ok ins"
begin

lemma alloc_cases:
  assumes "zx_drm_mm_ra_alloc ins ra n al lo hi ft = Some (r, ra')"
  obtains "r = \<lparr>rn_start = rn_start r, rn_size = n\<rparr>" "0 < n"
    "lo \<le> rn_start r" "rn_start r + n \<le> hi"
    "ra_start ra \<le> rn_start r" "rn_start r + n \<le> ra_start ra + ra_size ra"
    "free_of (ra_nodes ra) (rn_start r) n"
    "max al (ra_alignment ra) \<noteq> 0 \<longrightarrow> max al (ra_alignment ra) dvd rn_start r"
    "ra' = ra\<lparr>ra_free_size := ra_free_size ra - rn_size r,
              ra_nodes := insort_key rn_start r (ra_nodes ra)\<rparr>"
proof -
  let ?al = "if al < ra_alignment ra then ra_alignment ra else al"
  obtain a where a: "ins (ra_nodes ra) (ra_start ra) (ra_size ra) n ?al lo hi ft = Some a"
    and r: "r = \<lparr>rn_start = a, rn_size = n\<rparr>"
    and ra': "ra' = ra\<lparr>ra_free_size := ra_free_size ra - rn_size r,
              ra_nodes := insort_key rn_start r (ra_nodes ra)\<rparr>"
    using assms by (auto simp: zx_drm_mm_ra_alloc_def Let_def split: option.splits)
  have al: "?al = max al (ra_alignment ra)" by (simp add: max_def)
  from ins_ok a have "0 < n \<and> lo \<le> a \<and> a + n \<le> hi \<and> ra_start ra \<le> a \<and> a + n \<le> ra_start ra + ra_size ra \<and>
      (?al \<noteq> 0 \<longrightarrow> ?al dvd a) \<and> free_of (ra_nodes ra) a n"
    unfolding drm_insert_ok_def by blast
  then show thesis
    using r ra' unfolding al by (intro that) simp_all
qed

end

text \<open>The allocator over drm_mm keeps the contract.\<close>

sublocale drm_mm \<subseteq> zx_ra: range_manager "zx_drm_mm_ra_alloc ins" zx_drm_mm_ra_node_release ra_wf
proof unfold_locales
  fix ra n al lo hi ft r ra'
  assume al: "zx_drm_mm_ra_alloc ins ra n al lo hi ft = Some (r, ra')"
  show "rn_size r = n" using al by (rule alloc_cases) (metis range_node.select_convs(2))
  show "lo \<le> rn_start r \<and> rn_start r + n \<le> hi" using al by (rule alloc_cases) simp
  show "ra_alignment ra' = ra_alignment ra" using al by (rule alloc_cases) simp
  show "al dvd rn_start r" if "al \<noteq> 0" "ra_alignment ra dvd al"
    using al
  proof (rule alloc_cases)
    assume "max al (ra_alignment ra) \<noteq> 0 \<longrightarrow> max al (ra_alignment ra) dvd rn_start r"
    moreover have "max al (ra_alignment ra) = al"
      using that dvd_imp_le [of "ra_alignment ra" al] by (simp add: max_def)
    ultimately show ?thesis using that by simp
  qed
  assume wf: "ra_wf ra"
  have add: "ra_wf ra' \<and> ra_free_size ra' + n = ra_free_size ra \<and>
      mset (ra_nodes ra') = add_mset r (mset (ra_nodes ra)) \<and> zx_drm_mm_ra_node_release ra' r = ra \<and>
      free_of (ra_nodes ra) (rn_start r) n"
    using al
  proof (rule alloc_cases)
    assume r: "r = \<lparr>rn_start = rn_start r, rn_size = n\<rparr>" and pos: "0 < n"
      and bnd: "ra_start ra \<le> rn_start r" "rn_start r + n \<le> ra_start ra + ra_size ra"
      and free: "free_of (ra_nodes ra) (rn_start r) n"
      and ra': "ra' = ra\<lparr>ra_free_size := ra_free_size ra - rn_size r,
              ra_nodes := insort_key rn_start r (ra_nodes ra)\<rparr>"
    show ?thesis
      using ra_wf_add_node [OF wf free pos bnd r ra' ra_fits [OF wf free pos bnd]] free by blast
  qed
  then show "ra_wf ra'" "ra_free_size ra' + n = ra_free_size ra"
    "mset (ra_nodes ra') = add_mset r (mset (ra_nodes ra))" "zx_drm_mm_ra_node_release ra' r = ra"
    by blast+
  show "free_of (ra_nodes ra) (rn_start r) (rn_size r)"
    using add al by (metis alloc_cases range_node.select_convs(2))
next
  show "ra_wf (zx_drm_mm_ra_node_release ra r)" if "ra_wf ra" "r \<in> set (ra_nodes ra)" for ra r
    using that by (rule ra_release_wf)
  show "ra_free_size (zx_drm_mm_ra_node_release ra r) = ra_free_size ra + rn_size r" for ra r
    by (simp add: zx_drm_mm_ra_node_release_def)
qed

context drm_mm
begin

lemma range_manager_zx: "range_manager (zx_drm_mm_ra_alloc ins) zx_drm_mm_ra_node_release ra_wf"
  by unfold_locales

end

lemma zx_range_manager:
  "drm_insert_ok ins \<Longrightarrow> range_manager (zx_drm_mm_ra_alloc ins) zx_drm_mm_ra_node_release ra_wf"
  by (rule drm_mm.range_manager_zx) (rule drm_mm.intro)

lemmas zx_alloc_size = range_manager.alloc_size [OF zx_range_manager]
lemmas zx_alloc_range = range_manager.alloc_range [OF zx_range_manager]
lemmas zx_alloc_disjoint = range_manager.alloc_disjoint [OF zx_range_manager]
lemmas zx_alloc_inv = range_manager.alloc_inv [OF zx_range_manager]
lemmas zx_alloc_free = range_manager.alloc_free [OF zx_range_manager]
lemmas zx_alloc_nodes = range_manager.alloc_nodes [OF zx_range_manager]
lemmas zx_release_alloc = range_manager.release_alloc [OF zx_range_manager]

section \<open>A drm_mm that meets the hypotheses\<close>

text \<open>
  A first-fit search over the start of the allowed range and the ends of the allocated nodes,
  each rounded up to the alignment. It shows that \<open>drm_insert_ok\<close> can hold; nothing else
  depends on this choice.
\<close>

definition round_up :: "nat \<Rightarrow> nat \<Rightarrow> nat" where
  "round_up al a = (if al = 0 then a else (a + al - 1) div al * al)"

definition drm_fits :: "range_node list \<Rightarrow> nat \<Rightarrow> nat \<Rightarrow> nat \<Rightarrow> nat \<Rightarrow> nat \<Rightarrow> nat \<Rightarrow> nat \<Rightarrow> bool" where
  "drm_fits ns s sz n al lo hi a \<longleftrightarrow>
     0 < n \<and> lo \<le> a \<and> a + n \<le> hi \<and> s \<le> a \<and> a + n \<le> s + sz \<and> (al \<noteq> 0 \<longrightarrow> al dvd a) \<and>
     free_of ns a n"

definition drm_first_fit :: drm_insert where
  "drm_first_fit ns s sz n al lo hi ft =
     find (drm_fits ns s sz n al lo hi)
       (map (round_up al) (max lo s # map (\<lambda>x. max lo (rn_start x + rn_size x)) ns))"

lemma drm_first_fit_ok: "drm_insert_ok drm_first_fit"
  unfolding drm_insert_ok_def drm_first_fit_def
proof (intro allI impI)
  fix ns s sz n al lo hi ft a
  assume "find (drm_fits ns s sz n al lo hi)
       (map (round_up al) (max lo s # map (\<lambda>x. max lo (rn_start x + rn_size x)) ns)) = Some a"
  then have "drm_fits ns s sz n al lo hi a" by (metis find_Some_iff)
  then show "0 < n \<and> lo \<le> a \<and> a + n \<le> hi \<and> s \<le> a \<and> a + n \<le> s + sz \<and> (al \<noteq> 0 \<longrightarrow> al dvd a) \<and>
     free_of ns a n"
    by (simp add: drm_fits_def)
qed

interpretation first_fit: drm_mm drm_first_fit
  by unfold_locales (rule drm_first_fit_ok)

section \<open>Lookup\<close>

lemma ra_lookup_walk_above: "\<forall>y \<in> set ns. s < rn_start y \<Longrightarrow> ra_lookup_walk s ns b = b"
  by (cases ns) auto

lemma ra_lookup_walk_hit:
  assumes "sorted_wrt rn_before ns" "x \<in> set ns" "rn_start x \<le> s" "s < rn_start x + rn_size x"
  shows "ra_lookup_walk s ns b = Some x"
  using assms
proof (induction ns arbitrary: b)
  case (Cons n ns)
  show ?case
  proof (cases "x = n")
    case True
    with Cons.prems have "\<forall>y \<in> set ns. s < rn_start y" by (auto simp: rn_before_def)
    with True Cons.prems show ?thesis by (simp add: ra_lookup_walk_above)
  next
    case False
    with Cons.prems have "rn_start n \<le> s" by (auto simp: rn_before_def)
    with False Cons show ?thesis by auto
  qed
qed simp

lemma ra_lookup_walk_mem:
  "ra_lookup_walk s ns b = Some x \<Longrightarrow> x \<in> set ns \<and> rn_start x \<le> s \<or> b = Some x"
  by (induction ns arbitrary: b) (auto split: if_splits)

section \<open>Properties\<close>

text \<open>
  C12. Whatever hole a conforming drm_mm picks, an allocation from a well-formed allocator returns
  a node of the requested size inside the allowed range that overlaps no live node, keeps the
  accounting of the free size exact and the node list sorted and disjoint, and is undone
  exactly by releasing the node.
\<close>

theorem zx_drm_mm_ra_alloc_correct:
  assumes "drm_insert_ok ins" and "ra_wf ra"
    and "zx_drm_mm_ra_alloc ins ra n al lo hi ft = Some (r, ra')"
  shows "rn_size r = n \<and> lo \<le> rn_start r \<and> rn_start r + n \<le> hi \<and>
    free_of (ra_nodes ra) (rn_start r) n \<and> ra_wf ra' \<and>
    ra_free_size ra' + n = ra_free_size ra \<and>
    mset (ra_nodes ra') = add_mset r (mset (ra_nodes ra)) \<and>
    zx_drm_mm_ra_node_release ra' r = ra"
  using zx_alloc_size [OF assms(1,3)] zx_alloc_range [OF assms(1,3)] zx_alloc_disjoint [OF assms]
    zx_alloc_inv [OF assms] zx_alloc_free [OF assms] zx_alloc_nodes [OF assms]
    zx_release_alloc [OF assms]
  by simp

theorem zx_drm_mm_ra_alloc_correct_witness:
  "\<exists>r ra'. zx_drm_mm_ra_alloc drm_first_fit (zx_create_range_allocator 0 65536 4096) 8192 4096 0 65536 False
      = Some (r, ra') \<and> rn_size r = 8192 \<and> ra_free_size ra' = 57344 \<and>
    zx_drm_mm_ra_node_release ra' r = zx_create_range_allocator 0 65536 4096"
proof -
  let ?ra = "zx_create_range_allocator 0 65536 4096"
  let ?r = "\<lparr>rn_start = 0, rn_size = 8192\<rparr>"
  let ?ra' = "?ra\<lparr>ra_free_size := 57344, ra_nodes := [?r]\<rparr>"
  have al: "zx_drm_mm_ra_alloc drm_first_fit ?ra 8192 4096 0 65536 False = Some (?r, ?ra')"
    by (simp add: zx_drm_mm_ra_alloc_def zx_create_range_allocator_def drm_first_fit_def
        drm_fits_def round_up_def Let_def)
  have wf: "ra_wf ?ra" by (rule ra_wf_create) simp
  have "zx_drm_mm_ra_node_release ?ra' ?r = ?ra"
    using zx_drm_mm_ra_alloc_correct [OF drm_first_fit_ok wf al] by (elim conjE)
  then show ?thesis
    by (intro exI [of _ ?r] exI [of _ ?ra']) (simp only: al, simp)
qed

text \<open>
  Lookup is exact: in a well-formed allocator a non-empty range is found inside a node exactly
  when that node is live and contains the whole range; in particular the node is unique.
\<close>

theorem zx_drm_mm_ra_lookup_iff:
  assumes "ra_wf ra" and "0 < n"
  shows "zx_drm_mm_ra_lookup ra s n = Some x \<longleftrightarrow>
    x \<in> set (ra_nodes ra) \<and> rn_start x \<le> s \<and> s + n \<le> rn_start x + rn_size x"
proof
  assume "zx_drm_mm_ra_lookup ra s n = Some x"
  then show "x \<in> set (ra_nodes ra) \<and> rn_start x \<le> s \<and> s + n \<le> rn_start x + rn_size x"
    using ra_lookup_walk_mem [of s "ra_nodes ra" None]
    by (auto simp: zx_drm_mm_ra_lookup_def split: option.splits if_splits)
next
  assume x: "x \<in> set (ra_nodes ra) \<and> rn_start x \<le> s \<and> s + n \<le> rn_start x + rn_size x"
  then have "ra_lookup_walk s (ra_nodes ra) None = Some x"
    using assms by (intro ra_lookup_walk_hit) (auto simp: ra_wf_def)
  with x show "zx_drm_mm_ra_lookup ra s n = Some x"
    by (simp add: zx_drm_mm_ra_lookup_def)
qed

theorem zx_drm_mm_ra_lookup_iff_witness:
  "zx_drm_mm_ra_lookup \<lparr>ra_start = 0, ra_size = 100, ra_free_size = 80, ra_alignment = 1,
      ra_nodes = [\<lparr>rn_start = 10, rn_size = 20\<rparr>]\<rparr> 12 8 = Some \<lparr>rn_start = 10, rn_size = 20\<rparr>"
proof -
  let ?ra = "\<lparr>ra_start = 0, ra_size = 100, ra_free_size = 80, ra_alignment = 1,
      ra_nodes = [\<lparr>rn_start = 10, rn_size = 20\<rparr>]\<rparr>"
  have "ra_wf ?ra" by (simp add: ra_wf_def)
  then show ?thesis
    using zx_drm_mm_ra_lookup_iff [of ?ra 8 12 "\<lparr>rn_start = 10, rn_size = 20\<rparr>"] by simp
qed

end
