(* ===== verification/Fb_Memory.thy ===== *)
theory Fb_Memory
  imports Range_Allocator "HOL-Library.Monad_Syntax"
begin

text \<open>
  Local (frame buffer) video memory of \<^verbatim>\<open>core/vidmm/vidmm_allocate.c\<close>: the page allocator
  \<^verbatim>\<open>vidmmi_allocate_fb_page_memory\<close>, which splits a request into chunks of at most 8 MB and halves the
  chunk whenever the range allocator has no hole, and the operations that allocate and release
  the physical memory of an allocation. The range allocator is reached through its interface,
  as in the code: \<open>alloc\<close> and \<open>release\<close> are the function pointers of \<^verbatim>\<open>mem_ra\<close>.
\<close>

section \<open>Allocating pages of a local segment\<close>

record fb_adapter =
  visible_local_memory_size :: nat
  total_local_memory_size :: nat
  page_table_pcie_enable :: bool

record fb_pages_memory =
  range_node_list :: "range_node list"
  fb_pages_size :: nat

definition RESERVE_FOR_PT_BUFFER :: nat where "RESERVE_FOR_PT_BUFFER = 0x1000000"
definition MAX_ONCE_ALLOC_FB_SIZE :: nat where "MAX_ONCE_ALLOC_FB_SIZE = 8 * 1024 * 1024"
definition PRE_ALLOC_RANGE_NODE_LIST_SIZE :: nat where "PRE_ALLOC_RANGE_NODE_LIST_SIZE = 32"

lemma MAX_ONCE_positive: "0 < MAX_ONCE_ALLOC_FB_SIZE div 4096"
  by (simp add: MAX_ONCE_ALLOC_FB_SIZE_def)

type_synonym ra_alloc =
  "range_allocator \<Rightarrow> nat \<Rightarrow> nat \<Rightarrow> nat \<Rightarrow> nat \<Rightarrow> bool \<Rightarrow> (range_node \<times> range_allocator) option"
type_synonym ra_release = "range_allocator \<Rightarrow> range_node \<Rightarrow> range_allocator"

text \<open>The macro \<^verbatim>\<open>TRY_ALLOC\<close>: memory the CPU need not see is first tried outside the visible part.\<close>

definition fb_try_alloc ::
    "ra_alloc \<Rightarrow> fb_adapter \<Rightarrow> bool \<Rightarrow> nat \<Rightarrow> bool \<Rightarrow> range_allocator \<Rightarrow> nat \<Rightarrow>
     (range_node \<times> range_allocator) option" where
  "fb_try_alloc alloc ad cpu_visible al direction ra sz =
     (let first =
        (if \<not> cpu_visible \<and> total_local_memory_size ad > visible_local_memory_size ad
         then alloc ra sz al (visible_local_memory_size ad) (total_local_memory_size ad) direction
         else None)
      in case first of
           Some x \<Rightarrow> Some x
         | None \<Rightarrow> alloc ra sz al 0
             (if cpu_visible then visible_local_memory_size ad else total_local_memory_size ad)
             direction)"

text \<open>One attempt, guarded by the reserve for page tables.\<close>

definition fb_request ::
    "ra_alloc \<Rightarrow> fb_adapter \<Rightarrow> bool \<Rightarrow> nat \<Rightarrow> bool \<Rightarrow> bool \<Rightarrow> range_allocator \<Rightarrow> nat \<Rightarrow>
     (range_node \<times> range_allocator) option" where
  "fb_request alloc ad cpu_visible al direction need_reserve ra sz =
     (let reserved_size = (if page_table_pcie_enable ad then 0 else RESERVE_FOR_PT_BUFFER)
      in if \<not> need_reserve \<or> sz + reserved_size \<le> ra_free_size ra
         then fb_try_alloc alloc ad cpu_visible al direction ra sz else None)"

text \<open>
  The loop over the remaining pages. \<open>cap\<close> is the length of the array that holds the nodes, which
  grows by 32 entries when it is full. \<open>request\<close> is \<open>fb_request\<close> with its fixed arguments; the
  first component of the result is \<open>None\<close> after a failure, when every node has been released again.
\<close>

partial_function (option) fb_page_loop ::
    "(range_allocator \<Rightarrow> nat \<Rightarrow> (range_node \<times> range_allocator) option) \<Rightarrow> ra_release \<Rightarrow>
     nat \<Rightarrow> nat \<Rightarrow> nat \<Rightarrow> range_node list \<Rightarrow> nat \<Rightarrow> range_allocator \<Rightarrow>
     ((range_node list \<times> nat \<times> nat) option \<times> range_allocator) option" where
  "fb_page_loop request release remain_pages alloc_pages cap nodes total_size ra =
     (if remain_pages = 0 then Some (Some (nodes, cap, total_size), ra)
      else let ap = min alloc_pages (min remain_pages (MAX_ONCE_ALLOC_FB_SIZE div 4096))
           in case request ra (ap * 4096) of
                Some (rng, ra') \<Rightarrow>
                  fb_page_loop request release (remain_pages - ap) ap
                    (if length nodes \<ge> cap then cap + PRE_ALLOC_RANGE_NODE_LIST_SIZE else cap)
                    (nodes @ [rng]) (total_size + rn_size rng) ra'
              | None \<Rightarrow>
                  if ap > 1 then
                    fb_page_loop request release remain_pages ((ap + 1) div 2) cap nodes total_size ra
                  else Some (None, fold (\<lambda>r a. release a r) (rev nodes) ra))"

definition vidmmi_allocate_fb_page_memory ::
    "ra_alloc \<Rightarrow> ra_release \<Rightarrow> fb_adapter \<Rightarrow> bool \<Rightarrow> range_allocator \<Rightarrow> nat \<Rightarrow> nat \<Rightarrow> bool \<Rightarrow> bool \<Rightarrow> bool \<Rightarrow>
     bool \<Rightarrow> (fb_pages_memory option \<times> range_allocator) outcome option" where
  "vidmmi_allocate_fb_page_memory alloc release ad local ra sz al direction continuous cpu_visible
     need_reserve =
     (if \<not> local then Some Panic
      else if continuous then
        (case fb_request alloc ad cpu_visible al direction need_reserve ra sz of
           None \<Rightarrow> Some (Done (None, ra))
         | Some (rng, ra') \<Rightarrow>
             Some (Done (Some \<lparr>range_node_list = [rng], fb_pages_size = rn_size rng\<rparr>, ra')))
      else if sz AND 4095 \<noteq> 0 then Some Panic
      else
        map_option
          (\<lambda>(res, ra'). Done
             (map_option (\<lambda>(nodes, cap, total_size).
                 \<lparr>range_node_list = nodes, fb_pages_size = total_size\<rparr>) res, ra'))
          (fb_page_loop
             (fb_request alloc ad cpu_visible (if al < 4096 then 4096 else al) direction need_reserve)
             release (sz div 4096) (MAX_ONCE_ALLOC_FB_SIZE div 4096)
             PRE_ALLOC_RANGE_NODE_LIST_SIZE [] 0 ra))"

section \<open>Correctness over any range allocator that keeps its contract\<close>

abbreviation rn_disjoint :: "range_node \<Rightarrow> range_node \<Rightarrow> bool" where
  "rn_disjoint x y \<equiv> disjoint_range (rn_start x) (rn_size x) (rn_start y) (rn_size y)"

abbreviation nodes_size :: "range_node list \<Rightarrow> nat" where
  "nodes_size ns \<equiv> sum_list (map rn_size ns)"

context range_manager
begin

text \<open>\<open>ra\<close> is \<open>ra0\<close> after allocating \<open>acc\<close>, in this order, and nothing else.\<close>

definition taken :: "range_allocator \<Rightarrow> range_node list \<Rightarrow> range_allocator \<Rightarrow> bool" where
  "taken ra0 acc ra \<longleftrightarrow>
     invar ra \<and> fold (\<lambda>r a. release a r) (rev acc) ra = ra0 \<and>
     mset (ra_nodes ra) = mset acc + mset (ra_nodes ra0) \<and>
     ra_free_size ra + nodes_size acc = ra_free_size ra0 \<and>
     sorted_wrt rn_disjoint acc \<and>
     (\<forall>r \<in> set acc. free_of (ra_nodes ra0) (rn_start r) (rn_size r))"

lemma taken_Nil: "invar ra \<Longrightarrow> taken ra [] ra"
  by (simp add: taken_def)

lemma taken_alloc:
  assumes "taken ra0 acc ra" and al: "alloc ra n al lo hi ft = Some (r, ra')"
  shows "taken ra0 (acc @ [r]) ra'"
proof -
  have invar: "invar ra" and nodes: "set (ra_nodes ra) = set acc \<union> set (ra_nodes ra0)"
    using assms(1) by (auto simp: taken_def dest!: arg_cong [where f = set_mset])
  show ?thesis
    using assms(1) nodes alloc_inv [OF invar al] release_alloc [OF invar al] alloc_nodes [OF invar al]
      alloc_free [OF invar al] alloc_disjoint [OF invar al] alloc_size [OF al]
    by (auto simp: taken_def sorted_wrt_append disjoint_range_sym)
qed

lemma fb_try_alloc_cases:
  assumes "fb_try_alloc alloc ad vis al dir ra n = Some (r, ra')"
  obtains lo hi where "alloc ra n al lo hi dir = Some (r, ra')"
    "hi \<le> (if vis then visible_local_memory_size ad
           else max (visible_local_memory_size ad) (total_local_memory_size ad))"
  using assms
  by (auto simp: fb_try_alloc_def Let_def split: option.splits if_splits)

lemma fb_request_cases:
  assumes "fb_request alloc ad vis al dir need ra n = Some (r, ra')"
  obtains lo hi where "alloc ra n al lo hi dir = Some (r, ra')"
    "hi \<le> (if vis then visible_local_memory_size ad
           else max (visible_local_memory_size ad) (total_local_memory_size ad))"
  using assms by (auto simp: fb_request_def Let_def split: if_splits elim!: fb_try_alloc_cases)

lemma fb_request_taken:
  assumes "taken ra0 acc ra" "fb_request alloc ad vis al dir need ra n = Some (r, ra')"
  shows "taken ra0 (acc @ [r]) ra'" "rn_size r = n"
    "vis \<longrightarrow> rn_start r + rn_size r \<le> visible_local_memory_size ad"
proof -
  obtain lo hi where al: "alloc ra n al lo hi dir = Some (r, ra')"
    and hi: "hi \<le> (if vis then visible_local_memory_size ad
           else max (visible_local_memory_size ad) (total_local_memory_size ad))"
    using assms(2) by (rule fb_request_cases)
  show "taken ra0 (acc @ [r]) ra'" using assms(1) al by (rule taken_alloc)
  show size: "rn_size r = n" using al by (rule alloc_size)
  show "vis \<longrightarrow> rn_start r + rn_size r \<le> visible_local_memory_size ad"
    using alloc_range [OF al] hi size by auto
qed

text \<open>
  The loop from any intermediate state: it returns; on success it has added nodes of exactly the
  remaining size, in chunks of at most 8 MB, and the array is large enough; on failure everything is
  as at the start, and at the point of failure not even one page could be had.
\<close>

definition fb_loop_post where
  "fb_loop_post req vis ad ra0 acc remain cap total_size res ra' \<longleftrightarrow>
     (case res of
        None \<Rightarrow> ra' = ra0 \<and> (\<exists>acc1 ra1. taken ra0 acc1 ra1 \<and> req ra1 4096 = None)
      | Some (nodes, cap', total_size') \<Rightarrow>
          taken ra0 nodes ra' \<and> (\<exists>new. nodes = acc @ new \<and> nodes_size new = remain * 4096 \<and>
            (\<forall>r \<in> set new. 0 < rn_size r \<and> rn_size r \<le> MAX_ONCE_ALLOC_FB_SIZE \<and>
               (vis \<longrightarrow> rn_start r + rn_size r \<le> visible_local_memory_size ad)) \<and>
            total_size' = total_size + remain * 4096 \<and> (length acc \<le> cap \<longrightarrow> length nodes \<le> cap')))"

lemma fb_page_loop_correct:
  assumes "taken ra0 acc ra" "0 < ap"
    and req: "req = fb_request alloc ad vis al dir need"
  shows "\<exists>res ra'. fb_page_loop req release remain ap cap acc total_size ra = Some (res, ra') \<and>
    fb_loop_post req vis ad ra0 acc remain cap total_size res ra'"
  using assms(1,2)
proof (induction "(remain, ap)" arbitrary: remain ap cap acc total_size ra
    rule: wf_induct [OF wf_lex_prod [OF wf_less_than wf_less_than]])
  case 1
  note IH = "1.hyps" [rule_format, OF _ refl]
  define ap' where "ap' = min ap (min remain (MAX_ONCE_ALLOC_FB_SIZE div 4096))"
  show ?case
  proof (cases "remain = 0")
    case True
    then show ?thesis
      using "1.prems" by (auto simp: fb_page_loop.simps fb_loop_post_def)
  next
    case False
    have ap': "0 < ap'" "ap' \<le> ap" "ap' \<le> remain" "ap' * 4096 \<le> MAX_ONCE_ALLOC_FB_SIZE"
      using False "1.prems" by (auto simp: ap'_def MAX_ONCE_ALLOC_FB_SIZE_def)
    show ?thesis
    proof (cases "req ra (ap' * 4096)")
      case None
      show ?thesis
      proof (cases "ap' > 1")
        case True
        have unf: "fb_page_loop req release remain ap cap acc total_size ra =
            fb_page_loop req release remain ((ap' + 1) div 2) cap acc total_size ra"
          using False None True by (subst fb_page_loop.simps) (simp add: ap'_def [symmetric] Let_def)
        have "((remain, (ap' + 1) div 2), (remain, ap)) \<in> less_than <*lex*> less_than"
          using True ap' by auto
        from IH [OF this "1.prems"(1)] True show ?thesis by (simp add: unf)
      next
        case small: False
        then have "ap' = 1" using ap' by simp
        then show ?thesis
          using False None "1.prems"
          by (subst fb_page_loop.simps)
            (auto simp: ap'_def [symmetric] Let_def fb_loop_post_def taken_def)
      qed
    next
      case (Some p)
      obtain r ra1 where p: "p = (r, ra1)" by (cases p)
      let ?cap = "if length acc \<ge> cap then cap + PRE_ALLOC_RANGE_NODE_LIST_SIZE else cap"
      have unf: "fb_page_loop req release remain ap cap acc total_size ra =
          fb_page_loop req release (remain - ap') ap' ?cap (acc @ [r]) (total_size + rn_size r) ra1"
        using False Some by (subst fb_page_loop.simps) (simp add: ap'_def [symmetric] Let_def p)
      note got = fb_request_taken [OF "1.prems"(1) Some [unfolded req p]]
      have "((remain - ap', ap'), (remain, ap)) \<in> less_than <*lex*> less_than"
        using ap' by auto
      from IH [OF this got(1) ap'(1), of ?cap "total_size + rn_size r"]
      obtain res ra' where
        ret: "fb_page_loop req release (remain - ap') ap' ?cap (acc @ [r]) (total_size + rn_size r) ra1
            = Some (res, ra')"
        and post: "fb_loop_post req vis ad ra0 (acc @ [r]) (remain - ap') ?cap
            (total_size + rn_size r) res ra'"
        by blast
      have "fb_loop_post req vis ad ra0 acc remain cap total_size res ra'"
        using post got(2,3) ap'
        by (auto simp: fb_loop_post_def PRE_ALLOC_RANGE_NODE_LIST_SIZE_def diff_mult_distrib
            split: option.splits if_splits)
      then show ?thesis using ret by (simp add: unf)
    qed
  qed
qed

lemma fb_page_memory_nodes:
  assumes invar: "invar ra" and dvd: "sz mod 4096 = 0"
  shows "\<exists>res ra'. vidmmi_allocate_fb_page_memory alloc release ad True ra sz al dir cont vis need
      = Some (Done (res, ra')) \<and>
    (case res of
       None \<Rightarrow> ra' = ra
     | Some fb \<Rightarrow> taken ra (range_node_list fb) ra' \<and> fb_pages_size fb = sz \<and>
         nodes_size (range_node_list fb) = sz \<and>
         (\<forall>r \<in> set (range_node_list fb).
            (\<not> cont \<longrightarrow> rn_size r \<le> MAX_ONCE_ALLOC_FB_SIZE) \<and>
            (vis \<longrightarrow> rn_start r + rn_size r \<le> visible_local_memory_size ad)))"
proof (cases cont)
  case True
  show ?thesis
  proof (cases "fb_request alloc ad vis al dir need ra sz")
    case None
    with True show ?thesis by (simp add: vidmmi_allocate_fb_page_memory_def)
  next
    case (Some p)
    obtain r ra' where p: "p = (r, ra')" by (cases p)
    note got = fb_request_taken [OF taken_Nil [OF invar] Some [unfolded p]]
    from True Some got show ?thesis by (simp add: vidmmi_allocate_fb_page_memory_def p)
  qed
next
  case False
  let ?req = "fb_request alloc ad vis (if al < 4096 then 4096 else al) dir need"
  obtain res ra' where
    ret: "fb_page_loop ?req release (sz div 4096) (MAX_ONCE_ALLOC_FB_SIZE div 4096)
      PRE_ALLOC_RANGE_NODE_LIST_SIZE [] 0 ra = Some (res, ra')"
    and post: "fb_loop_post ?req vis ad ra [] (sz div 4096) PRE_ALLOC_RANGE_NODE_LIST_SIZE 0 res ra'"
    using fb_page_loop_correct [OF taken_Nil [OF invar] _ refl,
        of "MAX_ONCE_ALLOC_FB_SIZE div 4096" ad vis "if al < 4096 then 4096 else al" dir need]
    by (metis MAX_ONCE_positive)
  have "sz div 4096 * 4096 = sz" using dvd by auto
  then show ?thesis
    using False ret post dvd
    by (auto simp: vidmmi_allocate_fb_page_memory_def nat_and_4095 fb_loop_post_def
        split: option.splits)
qed

end

section \<open>Properties of the page allocator\<close>

text \<open>
  C5. Allocating local video memory always returns. It either fails and leaves the range allocator
  exactly as it was, or it returns nodes whose sizes add up to the request, pairwise disjoint and
  disjoint from every node allocated before, none larger than 8 MB unless contiguity was
  asked for, and inside the CPU-visible part when that was asked for; the allocator stays
  well formed and its free size drops by exactly the request.
\<close>

theorem vidmmi_allocate_fb_page_memory_correct:
  assumes "drm_insert_ok ins" and "ra_wf ra" and "sz mod 4096 = 0"
  shows "\<exists>res ra'. vidmmi_allocate_fb_page_memory (zx_drm_mm_ra_alloc ins) zx_drm_mm_ra_node_release
      ad True ra sz al dir cont vis need = Some (Done (res, ra')) \<and>
    (case res of
       None \<Rightarrow> ra' = ra
     | Some fb \<Rightarrow> ra_wf ra' \<and> fb_pages_size fb = sz \<and> nodes_size (range_node_list fb) = sz \<and>
         sorted_wrt rn_disjoint (range_node_list fb) \<and>
         (\<forall>r \<in> set (range_node_list fb). \<forall>n \<in> set (ra_nodes ra). rn_disjoint r n) \<and>
         mset (ra_nodes ra') = mset (range_node_list fb) + mset (ra_nodes ra) \<and>
         ra_free_size ra' + sz = ra_free_size ra \<and>
         (\<forall>r \<in> set (range_node_list fb).
            (\<not> cont \<longrightarrow> rn_size r \<le> MAX_ONCE_ALLOC_FB_SIZE) \<and>
            (vis \<longrightarrow> rn_start r + rn_size r \<le> visible_local_memory_size ad)))"
proof -
  note rm = zx_range_manager [OF assms(1)]
  from range_manager.fb_page_memory_nodes [OF rm, OF assms(2,3), of ad al dir cont vis need]
  obtain res ra' where ret: "vidmmi_allocate_fb_page_memory (zx_drm_mm_ra_alloc ins)
      zx_drm_mm_ra_node_release ad True ra sz al dir cont vis need = Some (Done (res, ra'))"
    and post: "case res of
       None \<Rightarrow> ra' = ra
     | Some fb \<Rightarrow> range_manager.taken zx_drm_mm_ra_node_release ra_wf ra (range_node_list fb) ra' \<and>
         fb_pages_size fb = sz \<and> nodes_size (range_node_list fb) = sz \<and>
         (\<forall>r \<in> set (range_node_list fb).
            (\<not> cont \<longrightarrow> rn_size r \<le> MAX_ONCE_ALLOC_FB_SIZE) \<and>
            (vis \<longrightarrow> rn_start r + rn_size r \<le> visible_local_memory_size ad))"
    by blast
  show ?thesis
    using post unfolding range_manager.taken_def [OF rm]
    by (intro exI [of _ res] exI [of _ ra']) (simp add: ret split: option.splits)
qed

theorem vidmmi_allocate_fb_page_memory_correct_witness:
  "\<exists>res ra'. vidmmi_allocate_fb_page_memory (zx_drm_mm_ra_alloc drm_first_fit)
      zx_drm_mm_ra_node_release
      \<lparr>visible_local_memory_size = 65536, total_local_memory_size = 65536,
       page_table_pcie_enable = True\<rparr>
      True (zx_create_range_allocator 0 65536 4096) 8192 4096 False False True True
      = Some (Done (res, ra')) \<and> (case res of None \<Rightarrow> ra' = zx_create_range_allocator 0 65536 4096
        | Some fb \<Rightarrow> ra_wf ra' \<and> fb_pages_size fb = 8192)"
proof -
  have wf: "ra_wf (zx_create_range_allocator 0 65536 4096)" by (rule ra_wf_create) simp
  have "(8192 :: nat) mod 4096 = 0" by simp
  from vidmmi_allocate_fb_page_memory_correct [OF drm_first_fit_ok wf this,
      of "\<lparr>visible_local_memory_size = 65536, total_local_memory_size = 65536,
       page_table_pcie_enable = True\<rparr>" 4096 False False True True]
  show ?thesis by (auto split: option.splits)
qed

end
