(* ===== verification/Fence.thy ===== *)
theory Fence
  imports Prelude
begin

text \<open>
  Fences of the video scheduler (\<^verbatim>\<open>core/vidsch/vidsch.c\<close>, \<^verbatim>\<open>vidsch_task.c\<close>). Every task sent to
  an engine carries the next 64-bit fence id; the engine writes the id of the last task it finished
  to memory, and the driver copies it into \<open>returned_fence_id\<close> when it polls or takes an interrupt.
  The value the chip layer reads back (\<^verbatim>\<open>chip_func->update_fence_id\<close>) and the clock are
  arguments of the operations. The second part is the bitmap allocator of fence slots.
\<close>

section \<open>Fence counters of one engine\<close>

record sch_mgr =
  last_send_fence_id :: u64
  returned_fence_id :: u64
  uncomplete_task_num :: u32
  returned_timestamp :: u64
  pending_tasks_num :: nat
  handled_tasks_num :: nat

definition vidschi_inc_send_fence_id :: "sch_mgr \<Rightarrow> u64 \<times> sch_mgr" where
  "vidschi_inc_send_fence_id m =
     (let m1 = m\<lparr>last_send_fence_id := last_send_fence_id m + 1\<rparr>;
          m2 = m1\<lparr>uncomplete_task_num := ucast (last_send_fence_id m1 - returned_fence_id m1)\<rparr>
      in (last_send_fence_id m2, m2))"

definition vidschi_update_fence_id :: "u64 \<Rightarrow> u64 \<Rightarrow> sch_mgr \<Rightarrow> bool \<times> u64 \<times> sch_mgr" where
  "vidschi_update_fence_id new_fence now m =
     (let old_fence = returned_fence_id m;
          valid = (new_fence > returned_fence_id m \<and> old_fence \<le> last_send_fence_id m);
          m1 = (if valid then
                  m\<lparr>returned_fence_id := new_fence,
                    uncomplete_task_num := ucast (last_send_fence_id m - new_fence)\<rparr>
                else m);
          curr = (if valid then new_fence else returned_fence_id m);
          m2 = (if curr > old_fence then m1\<lparr>returned_timestamp := now\<rparr> else m1)
      in (valid, curr, m2))"

definition vidsch_is_fence_back :: "u64 \<Rightarrow> u64 \<Rightarrow> sch_mgr \<Rightarrow> u64 \<Rightarrow> bool \<times> sch_mgr" where
  "vidsch_is_fence_back hw now m fence_id =
     (case vidschi_update_fence_id hw now m of
        (_, _, m') \<Rightarrow> (returned_fence_id m' \<ge> fence_id, m'))"

definition vidsch_get_current_returned_fence :: "sch_mgr \<Rightarrow> u64" where
  "vidsch_get_current_returned_fence m = returned_fence_id m"

definition vidschi_is_worker_thread_idle :: "sch_mgr \<Rightarrow> bool" where
  "vidschi_is_worker_thread_idle m \<longleftrightarrow> pending_tasks_num m = handled_tasks_num m"

lemmas fence_defs [kmd_defs] =
  vidschi_inc_send_fence_id_def vidschi_update_fence_id_def vidsch_is_fence_back_def

section \<open>The engine and the driver together\<close>

text \<open>
  One engine: the driver's counters and the fence value in memory. The engine finishes tasks in
  order and never writes an id that was not sent. The driver polls at any time. The 64-bit
  counter does not run over.
\<close>

record fence_sys =
  fs_mgr :: sch_mgr
  fs_hw :: u64

inductive fence_step :: "fence_sys \<Rightarrow> fence_sys \<Rightarrow> bool" where
  send: "last_send_fence_id (fs_mgr s) < - 1 \<Longrightarrow> vidschi_inc_send_fence_id (fs_mgr s) = (f, m') \<Longrightarrow>
     fence_step s (s\<lparr>fs_mgr := m'\<rparr>)"
| complete: "fs_hw s \<le> h \<Longrightarrow> h \<le> last_send_fence_id (fs_mgr s) \<Longrightarrow> fence_step s (s\<lparr>fs_hw := h\<rparr>)"
| poll: "vidsch_is_fence_back (fs_hw s) now (fs_mgr s) f = (b, m') \<Longrightarrow>
     fence_step s (s\<lparr>fs_mgr := m'\<rparr>)"

definition fence_init :: "sch_mgr \<Rightarrow> fence_sys" where
  "fence_init m = \<lparr>fs_mgr = m\<lparr>last_send_fence_id := 0, returned_fence_id := 0, uncomplete_task_num := 0\<rparr>, fs_hw = 0\<rparr>"

inductive fence_reach :: "sch_mgr \<Rightarrow> fence_sys \<Rightarrow> bool" for m where
  init: "fence_reach m (fence_init m)"
| step: "fence_reach m s \<Longrightarrow> fence_step s t \<Longrightarrow> fence_reach m t"

definition fence_inv :: "fence_sys \<Rightarrow> bool" where
  "fence_inv s \<longleftrightarrow>
     returned_fence_id (fs_mgr s) \<le> fs_hw s \<and> fs_hw s \<le> last_send_fence_id (fs_mgr s) \<and>
     uncomplete_task_num (fs_mgr s) =
       ucast (last_send_fence_id (fs_mgr s) - returned_fence_id (fs_mgr s))"

lemma fence_inv_init: "fence_inv (fence_init m)"
  by (simp add: fence_inv_def fence_init_def)

lemma less_max_word_le_inc: "(x :: 'w::len word) < - 1 \<Longrightarrow> x \<le> x + 1"
proof -
  assume "x < - 1"
  then have "x + 1 \<noteq> 0" by (metis add_eq_0_iff2 less_irrefl minus_unique)
  then show ?thesis using unatSuc [of x] by (simp add: word_le_nat_alt add.commute)
qed

lemma update_fence_sent:
  assumes "vidschi_update_fence_id hw now m = (b, c, m')"
  shows "last_send_fence_id m' = last_send_fence_id m"
    and "returned_fence_id m' = (if b then hw else returned_fence_id m)"
    and "b \<longleftrightarrow> returned_fence_id m < hw \<and> returned_fence_id m \<le> last_send_fence_id m"
    and "c = returned_fence_id m'" and "returned_fence_id m \<le> returned_fence_id m'"
    and "b \<Longrightarrow> uncomplete_task_num m' = ucast (last_send_fence_id m' - returned_fence_id m')"
    and "\<not> b \<Longrightarrow> m' = m"
  using assms by (auto simp: vidschi_update_fence_id_def Let_def split: if_splits)

lemma fence_step_inv: "fence_step s t \<Longrightarrow> fence_inv s \<Longrightarrow> fence_inv t"
proof (induction rule: fence_step.induct)
  case (send s f m')
  then have "last_send_fence_id (fs_mgr s) \<le> last_send_fence_id (fs_mgr s) + 1"
    by (intro less_max_word_le_inc)
  with send show ?case
    by (auto simp: fence_inv_def vidschi_inc_send_fence_id_def Let_def)
next
  case (poll s now f b m')
  then obtain b' c where u: "vidschi_update_fence_id (fs_hw s) now (fs_mgr s) = (b', c, m')"
    by (auto simp: vidsch_is_fence_back_def split: prod.splits)
  from poll.prems update_fence_sent [OF u] show ?case
    by (cases b') (auto simp: fence_inv_def)
qed (auto simp: fence_inv_def)

lemma fence_reach_inv: "fence_reach m s \<Longrightarrow> fence_inv s"
  by (induction rule: fence_reach.induct) (auto intro: fence_inv_init fence_step_inv)

section \<open>Submitted tasks\<close>

text \<open>
  The part of \<^verbatim>\<open>task_desc_t\<close> that completion handles: the fence id, the time stamp used by the hang
  detection, and the reference count of the task.
\<close>

record task_desc =
  td_fence_id :: u64
  td_timestamp :: u64
  td_ref_cnt :: nat

text \<open>
  Dropping a reference; the last one releases the task, which counts as handled. The boolean says
  whether the task was released.
\<close>

definition vidsch_task_dec_reference :: "sch_mgr \<Rightarrow> task_desc \<Rightarrow> bool \<times> task_desc \<times> sch_mgr" where
  "vidsch_task_dec_reference m t =
     (let t' = t\<lparr>td_ref_cnt := td_ref_cnt t - 1\<rparr>
      in if td_ref_cnt t' = 0
         then (True, t', m\<lparr>handled_tasks_num := Suc (handled_tasks_num m)\<rparr>)
         else (False, t', m))"

text \<open>
  The loop of \<^verbatim>\<open>vidsch_release_completed_tasks\<close> over \<open>submitted_task_list\<close>: \<open>hw k\<close> is what the engine's fence
  memory holds at the \<open>k\<close>-th check. It returns the uncompleted fence (if the list is not used
  up), the tasks taken off the list, and the tasks left.
\<close>

fun vidsch_release_completed_tasks ::
    "(nat \<Rightarrow> u64) \<Rightarrow> (nat \<Rightarrow> u64) \<Rightarrow> nat \<Rightarrow> sch_mgr \<Rightarrow> task_desc list \<Rightarrow>
     u64 option \<times> task_desc list \<times> task_desc list \<times> sch_mgr" where
  "vidsch_release_completed_tasks hw now k m [] = (None, [], [], m)"
| "vidsch_release_completed_tasks hw now k m (t # ts) =
     (case vidsch_is_fence_back (hw k) (now k) m (td_fence_id t) of
        (False, m') \<Rightarrow>
          (Some (td_fence_id t), [],
           (if td_timestamp t < returned_timestamp m'
            then t\<lparr>td_timestamp := returned_timestamp m'\<rparr> else t) # ts, m')
      | (True, m') \<Rightarrow>
          (case vidsch_task_dec_reference m' t of
             (_, t', m2) \<Rightarrow>
               (case vidsch_release_completed_tasks hw now (Suc k) m2 ts of
                  (u, done_tasks, rest, m3) \<Rightarrow> (u, t' # done_tasks, rest, m3))))"

lemma dec_reference_fences:
  "vidsch_task_dec_reference m t = (b, t', m') \<Longrightarrow>
     returned_fence_id m' = returned_fence_id m \<and> td_fence_id t' = td_fence_id t \<and>
     last_send_fence_id m' = last_send_fence_id m"
  by (auto simp: vidsch_task_dec_reference_def Let_def split: if_splits)

lemma is_fence_back_mono:
  "vidsch_is_fence_back hw now m f = (b, m') \<Longrightarrow>
     returned_fence_id m \<le> returned_fence_id m' \<and> (b \<longleftrightarrow> f \<le> returned_fence_id m')"
  using update_fence_sent(5) [of hw now m]
  by (auto simp: vidsch_is_fence_back_def split: prod.splits)

lemma release_completed_split:
  assumes "vidsch_release_completed_tasks hw now k m ts = (u, ds, rest, m')"
  shows "map td_fence_id ds @ map td_fence_id rest = map td_fence_id ts \<and>
    returned_fence_id m \<le> returned_fence_id m' \<and>
    (\<forall>d \<in> set ds. td_fence_id d \<le> returned_fence_id m') \<and>
    u = (case rest of [] \<Rightarrow> None | t # _ \<Rightarrow> Some (td_fence_id t)) \<and>
    (\<forall>t ts'. rest = t # ts' \<longrightarrow> returned_fence_id m' < td_fence_id t)"
  using assms
proof (induction ts arbitrary: k m u ds rest m')
  case Nil
  then show ?case by simp
next
  case (Cons t ts)
  obtain b m1 where q: "vidsch_is_fence_back (hw k) (now k) m (td_fence_id t) = (b, m1)"
    by (cases "vidsch_is_fence_back (hw k) (now k) m (td_fence_id t)")
  note q' = is_fence_back_mono [OF q]
  show ?case
  proof (cases b)
    case False
    with Cons.prems q q' show ?thesis by (auto split: if_splits)
  next
    case True
    obtain r t' m2 where d: "vidsch_task_dec_reference m1 t = (r, t', m2)"
      by (cases "vidsch_task_dec_reference m1 t")
    obtain u' ds' rest' m3 where
      l: "vidsch_release_completed_tasks hw now (Suc k) m2 ts = (u', ds', rest', m3)"
      by (cases "vidsch_release_completed_tasks hw now (Suc k) m2 ts")
    have eq: "u = u'" "ds = t' # ds'" "rest = rest'" "m' = m3"
      using Cons.prems q True d l by simp_all
    from Cons.IH [OF l] dec_reference_fences [OF d] q' True show ?thesis
      unfolding eq by (auto intro: order_trans)
  qed
qed

section \<open>Fence slots\<close>

text \<open>
  \<^verbatim>\<open>vidsch_fence_buffer_t\<close>: a bitmap over 64-bit slots of reserved memory. The number of slots is
  computed in an \<^verbatim>\<open>unsigned short\<close>.
\<close>

record fence_buffer =
  fb_gpu_va :: u64
  fb_total_num :: u32
  fb_left_num :: u32
  fb_free_start :: nat
  fb_bitmap :: "bool list"
  fb_slots :: "u64 list"

text \<open>The kernel's \<^verbatim>\<open>find_next_zero_bit\<close>: the first zero bit at or after an offset, or the size.\<close>

definition zx_find_next_zero_bit :: "bool list \<Rightarrow> nat \<Rightarrow> nat \<Rightarrow> nat" where
  "zx_find_next_zero_bit bits sz offset =
     (case find (\<lambda>i. \<not> bits ! i) [offset ..< sz] of Some i \<Rightarrow> i | None \<Rightarrow> sz)"

definition vidschi_create_fence_buffer :: "u64 \<Rightarrow> nat \<Rightarrow> fence_buffer" where
  "vidschi_create_fence_buffer gpu_va sz =
     (let total_num = (of_nat (sz div 8) :: u16)
      in \<lparr>fb_gpu_va = gpu_va, fb_total_num = ucast total_num, fb_left_num = ucast total_num,
          fb_free_start = 0, fb_bitmap = replicate (8 * (unat total_num div 8)) False,
          fb_slots = replicate (sz div 8) 0\<rparr>)"

definition vidsch_request_fence_space ::
    "fence_buffer \<Rightarrow> status \<times> (u64 \<times> nat) option \<times> fence_buffer" where
  "vidsch_request_fence_space b =
     (let num = zx_find_next_zero_bit (fb_bitmap b) (unat (fb_total_num b)) (fb_free_start b)
      in if num < unat (fb_total_num b) then
           (S_OK, Some (fb_gpu_va b + push_bit 3 (of_nat num), num),
            b\<lparr>fb_bitmap := (fb_bitmap b)[num := True],
              fb_left_num := fb_left_num b - 1,
              fb_free_start := (num + 1) mod unat (fb_total_num b),
              fb_slots := (fb_slots b)[num := 0]\<rparr>)
         else (E_FAIL, None, b))"

definition vidsch_release_fence_space :: "u64 \<Rightarrow> fence_buffer \<Rightarrow> status \<times> fence_buffer" where
  "vidsch_release_fence_space gpu_addr b =
     (let num = unat (drop_bit 3 (gpu_addr - fb_gpu_va b))
      in (S_OK, b\<lparr>fb_left_num := fb_left_num b + 1, fb_bitmap := (fb_bitmap b)[num := False]\<rparr>))"

definition fence_buffer_wf :: "fence_buffer \<Rightarrow> bool" where
  "fence_buffer_wf b \<longleftrightarrow>
     length (fb_bitmap b) = unat (fb_total_num b) \<and> unat (fb_total_num b) < 2 ^ 16 \<and>
     unat (fb_total_num b) \<le> length (fb_slots b) \<and>
     unat (fb_left_num b) = length (filter Not (fb_bitmap b))"

lemmas fence_buffer_defs [kmd_defs] =
  vidsch_request_fence_space_def vidsch_release_fence_space_def

lemma find_next_zero_bit_lt:
  assumes "zx_find_next_zero_bit bits sz off < sz"
  shows "off \<le> zx_find_next_zero_bit bits sz off" "\<not> bits ! zx_find_next_zero_bit bits sz off"
proof -
  obtain i where i: "find (\<lambda>i. \<not> bits ! i) [off ..< sz] = Some i"
    using assms by (auto simp: zx_find_next_zero_bit_def split: option.splits)
  then have "off \<le> i \<and> \<not> bits ! i" by (auto simp: find_Some_iff)
  with i show "off \<le> zx_find_next_zero_bit bits sz off" "\<not> bits ! zx_find_next_zero_bit bits sz off"
    by (simp_all add: zx_find_next_zero_bit_def)
qed

lemma find_next_zero_bit_none:
  "zx_find_next_zero_bit bits sz off \<ge> sz \<longleftrightarrow> (\<forall>i. off \<le> i \<longrightarrow> i < sz \<longrightarrow> bits ! i)"
  by (auto simp: zx_find_next_zero_bit_def find_None_iff find_Some_iff split: option.splits)

lemma count_zeros_set:
  "i < length bs \<Longrightarrow> \<not> bs ! i \<Longrightarrow>
     Suc (length (filter Not (bs[i := True]))) = length (filter Not bs)"
proof (induction bs arbitrary: i)
  case (Cons x bs)
  then show ?case by (cases i) auto
qed simp

lemma count_zeros_clear:
  "i < length bs \<Longrightarrow> bs ! i \<Longrightarrow>
     length (filter Not (bs[i := False])) = Suc (length (filter Not bs))"
proof (induction bs arbitrary: i)
  case (Cons x bs)
  then show ?case by (cases i) auto
qed simp

lemma fence_slot_address:
  assumes "num < 2 ^ 16"
  shows "unat (drop_bit 3 ((va + push_bit 3 (of_nat num)) - va :: u64)) = num"
proof -
  have "unat (push_bit 3 (of_nat num :: u64)) = num * 8"
    using assms by (simp add: push_bit_eq_mult unat_word_ariths unat_of_nat)
  then show ?thesis by (simp add: drop_bit_eq_div unat_div_distrib)
qed

section \<open>Properties\<close>

text \<open>
  C6. No false completion and no lost one: in every reachable state of an engine, a poll reports a
  fence as back exactly when the engine has written it, the count of uncompleted tasks is the
  difference of the two counters, and what was reported stays below what was sent.
\<close>

theorem vidsch_is_fence_back_exact:
  assumes "fence_reach m0 s"
    and "vidsch_is_fence_back (fs_hw s) now (fs_mgr s) f = (bk, m')"
  shows "(bk \<longleftrightarrow> f \<le> fs_hw s) \<and> returned_fence_id m' = fs_hw s \<and>
    uncomplete_task_num m' = ucast (last_send_fence_id m' - returned_fence_id m') \<and>
    returned_fence_id m' \<le> last_send_fence_id m'"
proof -
  have inv: "fence_inv s" using assms(1) by (rule fence_reach_inv)
  obtain b c where u: "vidschi_update_fence_id (fs_hw s) now (fs_mgr s) = (b, c, m')"
    using assms(2) by (auto simp: vidsch_is_fence_back_def split: prod.splits)
  have bk: "bk \<longleftrightarrow> f \<le> returned_fence_id m'"
    using is_fence_back_mono [OF assms(2)] by simp
  have ret: "returned_fence_id m' = fs_hw s"
    using inv update_fence_sent(2,3) [OF u] by (auto simp: fence_inv_def split: if_splits)
  moreover have "uncomplete_task_num m' = ucast (last_send_fence_id m' - returned_fence_id m')"
    using inv update_fence_sent(6,7) [OF u] by (cases b) (auto simp: fence_inv_def)
  ultimately show ?thesis
    using bk inv update_fence_sent(1) [OF u] by (simp add: fence_inv_def)
qed

definition fence_example_mgr :: sch_mgr where
  "fence_example_mgr = \<lparr>last_send_fence_id = 0, returned_fence_id = 0, uncomplete_task_num = 0,
     returned_timestamp = 0, pending_tasks_num = 0, handled_tasks_num = 0\<rparr>"

theorem vidsch_is_fence_back_exact_witness:
  "fst (vidsch_is_fence_back 1 5 (fence_example_mgr\<lparr>last_send_fence_id := 1,
      uncomplete_task_num := 1\<rparr>) 1)"
proof -
  let ?m = "fence_example_mgr\<lparr>last_send_fence_id := 1, uncomplete_task_num := 1\<rparr>"
  let ?m' = "?m\<lparr>returned_fence_id := 1, uncomplete_task_num := 0, returned_timestamp := 5\<rparr>"
  have i: "fence_reach fence_example_mgr \<lparr>fs_mgr = fence_example_mgr, fs_hw = 0\<rparr>"
    using fence_reach.init [of fence_example_mgr] by (simp add: fence_init_def fence_example_mgr_def)
  have s: "fence_step \<lparr>fs_mgr = fence_example_mgr, fs_hw = 0\<rparr> \<lparr>fs_mgr = ?m, fs_hw = 0\<rparr>"
    using fence_step.send [of "\<lparr>fs_mgr = fence_example_mgr, fs_hw = 0\<rparr>" 1 ?m]
    by (simp add: fence_example_mgr_def vidschi_inc_send_fence_id_def word_gt_0)
  have c: "fence_step \<lparr>fs_mgr = ?m, fs_hw = 0\<rparr> \<lparr>fs_mgr = ?m, fs_hw = 1\<rparr>"
    using fence_step.complete [of "\<lparr>fs_mgr = ?m, fs_hw = 0\<rparr>" 1]
    by (simp add: fence_example_mgr_def)
  have reach: "fence_reach fence_example_mgr \<lparr>fs_mgr = ?m, fs_hw = 1\<rparr>"
    by (rule fence_reach.step [OF fence_reach.step [OF i s] c])
  have q: "vidsch_is_fence_back (fs_hw \<lparr>fs_mgr = ?m, fs_hw = 1\<rparr>) 5
      (fs_mgr \<lparr>fs_mgr = ?m, fs_hw = 1\<rparr>) 1 = (True, ?m')"
    by (simp add: fence_defs fence_example_mgr_def Let_def)
  show ?thesis
    using vidsch_is_fence_back_exact [OF reach q] q by simp
qed

text \<open>
  A chip that reports an id beyond the last one sent is believed: the test that should reject
  it compares the old id, not the new one, with the last sent id. The uncompleted count
  then wraps around.
\<close>

theorem vidschi_update_fence_id_accepts_unsent:
  "vidschi_update_fence_id 9 7 (fence_example_mgr\<lparr>last_send_fence_id := 3\<rparr>) =
     (True, 9, fence_example_mgr\<lparr>last_send_fence_id := 3, returned_fence_id := 9,
        uncomplete_task_num := - 6, returned_timestamp := 7\<rparr>)"
  by (simp add: vidschi_update_fence_id_def fence_example_mgr_def Let_def)

text \<open>
  C17. Completion keeps submission order: whatever the engine reports at each check, the tasks taken
  off the submitted list are a prefix of it, each with its fence back; the first task left, if
  any, is not back and is the one reported as uncompleted; no task is lost or duplicated.
\<close>

theorem vidsch_release_completed_tasks_prefix:
  assumes "vidsch_release_completed_tasks hw now k m ts = (u, ds, rest, m')"
  shows "map td_fence_id ts = map td_fence_id ds @ map td_fence_id rest \<and>
    (\<forall>d \<in> set ds. td_fence_id d \<le> returned_fence_id m') \<and>
    (case rest of [] \<Rightarrow> u = None
     | t # _ \<Rightarrow> u = Some (td_fence_id t) \<and> returned_fence_id m' < td_fence_id t)"
  using release_completed_split [OF assms] by (auto split: list.splits)

theorem vidsch_release_completed_tasks_prefix_witness:
  "case vidsch_release_completed_tasks (\<lambda>_. 2) (\<lambda>_. 9) 0 (fence_example_mgr\<lparr>last_send_fence_id := 3\<rparr>)
      [\<lparr>td_fence_id = 1, td_timestamp = 0, td_ref_cnt = 1\<rparr>,
       \<lparr>td_fence_id = 2, td_timestamp = 0, td_ref_cnt = 2\<rparr>,
       \<lparr>td_fence_id = 3, td_timestamp = 0, td_ref_cnt = 1\<rparr>] of
     (u, ds, rest, m') \<Rightarrow> u = Some 3 \<and> map td_fence_id ds = [1, 2] \<and> map td_fence_id rest = [3]"
proof -
  let ?ts = "[\<lparr>td_fence_id = 1, td_timestamp = 0, td_ref_cnt = 1\<rparr>,
       \<lparr>td_fence_id = 2, td_timestamp = 0, td_ref_cnt = 2\<rparr>,
       \<lparr>td_fence_id = 3, td_timestamp = 0, td_ref_cnt = 1\<rparr>]"
  let ?m = "fence_example_mgr\<lparr>last_send_fence_id := 3\<rparr>"
  obtain u ds rest m' where
    r: "vidsch_release_completed_tasks (\<lambda>_. 2) (\<lambda>_. 9) 0 ?m ?ts = (u, ds, rest, m')"
    by (cases "vidsch_release_completed_tasks (\<lambda>_. 2) (\<lambda>_. 9) 0 ?m ?ts")
  from r have "map td_fence_id rest = [3]"
    by (auto simp: fence_defs vidsch_task_dec_reference_def fence_example_mgr_def Let_def)
  with vidsch_release_completed_tasks_prefix [OF r] r show ?thesis
    by (auto split: list.splits)
qed

text \<open>
  A granted fence slot was free, lies inside the buffer, is zeroed and marked used; the count of
  free slots stays exact; and releasing the returned address frees exactly this slot again.
\<close>

theorem vidsch_request_fence_space_correct:
  assumes wf: "fence_buffer_wf b"
    and req: "vidsch_request_fence_space b = (st, Some (addr, num), b')"
  shows "st = S_OK \<and> num < length (fb_bitmap b) \<and> \<not> fb_bitmap b ! num \<and>
    fb_bitmap b' = (fb_bitmap b)[num := True] \<and> fb_slots b' ! num = 0 \<and> fence_buffer_wf b' \<and>
    fence_buffer_wf (snd (vidsch_release_fence_space addr b')) \<and>
    fb_bitmap (snd (vidsch_release_fence_space addr b')) = fb_bitmap b"
proof -
  define n where "n = zx_find_next_zero_bit (fb_bitmap b) (unat (fb_total_num b)) (fb_free_start b)"
  have n: "n < unat (fb_total_num b)" "num = n" "addr = fb_gpu_va b + push_bit 3 (of_nat n)"
    "st = S_OK" and b': "b' = b\<lparr>fb_bitmap := (fb_bitmap b)[n := True],
              fb_left_num := fb_left_num b - 1,
              fb_free_start := (n + 1) mod unat (fb_total_num b),
              fb_slots := (fb_slots b)[n := 0]\<rparr>"
    using req by (auto simp: vidsch_request_fence_space_def n_def Let_def split: if_splits)
  have zero: "\<not> fb_bitmap b ! n"
    using find_next_zero_bit_lt(2) n(1) unfolding n_def by blast
  have len: "n < length (fb_bitmap b)" "n < length (fb_slots b)" "n < 2 ^ 16"
    using wf n(1) by (auto simp: fence_buffer_wf_def)
  have cnt: "Suc (length (filter Not ((fb_bitmap b)[n := True]))) = unat (fb_left_num b)"
    using count_zeros_set [OF len(1) zero] wf by (simp add: fence_buffer_wf_def)
  then have left: "unat (fb_left_num b - 1) = length (filter Not ((fb_bitmap b)[n := True]))"
    using unat_sub_nowrap [of 1 "fb_left_num b"] by (simp add: word_le_unat)
  have wf': "fence_buffer_wf b'"
    using wf left by (simp add: fence_buffer_wf_def b')
  have slot: "unat (drop_bit 3 (addr - fb_gpu_va b')) = n"
    using fence_slot_address [OF len(3), of "fb_gpu_va b"] by (simp add: n(3) b')
  have upd: "(fb_bitmap b)[n := False] = fb_bitmap b"
    using zero len(1) by (simp add: list_update_same_conv)
  have rel: "snd (vidsch_release_fence_space addr b') =
      b'\<lparr>fb_left_num := fb_left_num b, fb_bitmap := fb_bitmap b\<rparr>"
    using slot upd by (simp add: vidsch_release_fence_space_def Let_def b')
  have wfr: "fence_buffer_wf (snd (vidsch_release_fence_space addr b'))"
    using wf unfolding rel by (simp add: fence_buffer_wf_def b')
  have bits: "fb_bitmap (snd (vidsch_release_fence_space addr b')) = fb_bitmap b"
    unfolding rel by simp
  have "fb_bitmap b' = (fb_bitmap b)[num := True]" "fb_slots b' ! num = 0"
    using len n(2) by (simp_all add: b')
  with wf' wfr bits zero len(1) show ?thesis
    unfolding n(2,4) by blast
qed

theorem vidsch_request_fence_space_correct_witness:
  "vidsch_request_fence_space (vidschi_create_fence_buffer 4096 64) =
     (S_OK, Some (4096, 0), (vidschi_create_fence_buffer 4096 64)
        \<lparr>fb_bitmap := (replicate 8 False)[0 := True], fb_left_num := 7, fb_free_start := 1,
         fb_slots := (replicate 8 0)[0 := 0]\<rparr>) \<and>
   fence_buffer_wf (vidschi_create_fence_buffer 4096 64)"
proof -
  let ?b = "vidschi_create_fence_buffer 4096 64"
  have wf: "fence_buffer_wf ?b"
    by (simp add: fence_buffer_wf_def vidschi_create_fence_buffer_def)
  have req: "vidsch_request_fence_space ?b =
     (S_OK, Some (4096, 0), ?b
        \<lparr>fb_bitmap := (replicate 8 False)[0 := True], fb_left_num := 7, fb_free_start := 1,
         fb_slots := (replicate 8 0)[0 := 0]\<rparr>)"
    by (simp add: vidsch_request_fence_space_def vidschi_create_fence_buffer_def
        zx_find_next_zero_bit_def upt_conv_Cons)
  show ?thesis
    using vidsch_request_fence_space_correct [OF wf req] req wf by (elim conjE) (intro conjI)
qed

text \<open>
  The search for a slot does not wrap: with two slots of which the first was released again and
  the second is in use, a request fails although a slot is free.
\<close>

theorem vidsch_request_fence_space_misses_free_slot:
  "\<exists>b. fence_buffer_wf b \<and> fb_left_num b = 1 \<and> \<not> fb_bitmap b ! 0 \<and>
     fst (vidsch_request_fence_space b) = E_FAIL"
proof -
  let ?b = "\<lparr>fb_gpu_va = 0, fb_total_num = 2, fb_left_num = 1, fb_free_start = 1,
     fb_bitmap = [False, True], fb_slots = [0, 0]\<rparr>"
  have "fence_buffer_wf ?b" "fst (vidsch_request_fence_space ?b) = E_FAIL"
    by (simp_all add: fence_buffer_wf_def vidsch_request_fence_space_def zx_find_next_zero_bit_def
        upt_rec)
  then show ?thesis by (intro exI [of _ ?b]) simp
qed

end
