(* ===== verification/Task_Queue.thy ===== *)
theory Task_Queue
  imports Prelude
begin

text \<open>
  Software task queues of the scheduler: \<^verbatim>\<open>core/vidsch/vidsch_task_queue.c\<close>, the queues a context
  takes (\<^verbatim>\<open>vidsch_init_task_queue\<close> and \<^verbatim>\<open>vidsch_deinit_task_queue\<close> of \<^verbatim>\<open>core/vidsch/vidsch.c\<close>) and the
  submission loops of \<^verbatim>\<open>core/vidsch/vidsch_workerthread.c\<close>. Queues are shared objects, so they live
  in a store indexed by their id. A scheduler has two pools, the one of the render queues
  (\<^verbatim>\<open>task_queue_list\<close>) and, on engine 0, the one of the page table queue (\<^verbatim>\<open>page_table_set_pool\<close>);
  a pool holds the list of its queues and, per priority, the list of the active queues that the
  worker thread visits. \<^verbatim>\<open>zx_get_nsecs\<close> reads the clock \<open>clk\<close>, whose readings are numbered by
  \<open>qs_ticks\<close>. The results show that no queued task is lost to the worker thread, that it
  submits by priority and first-in first-out, and that page table updates go ahead of rendering.
\<close>

section \<open>State\<close>

datatype task_type = task_render | task_paging | task_vm_update | task_page_table_set | task_vm_prepare

record task =
  tk_id :: nat
  tk_type :: task_type

datatype pool_id = task_queue_list | page_table_set_pool

record task_queue =
  tq_priority :: int
  tq_refcount :: int
  tq_active :: bool
  tq_last_active :: u64
  tq_task_list :: "task list"
  tq_task_num :: nat
  tq_max_num :: nat
  tq_sema :: nat
  tq_pool :: "pool_id option"

type_synonym queue_store = "nat \<rightharpoonup> task_queue"

record queue_pool =
  qp_queue_num :: nat
  qp_max_priority :: nat
  qp_queue_list :: "nat list"
  qp_active_list :: "nat \<Rightarrow> nat list"

record queue_state =
  qs_store :: queue_store
  qs_pools :: "pool_id \<rightharpoonup> queue_pool"
  qs_next_id :: nat
  qs_current :: u64
  qs_ticks :: nat

text \<open>
  A call that sleeps on the semaphore of a full queue \<open>Blocks\<close>; one that dereferences a freed queue
  or the null pool of a queue outside every pool \<open>Faults\<close>.
\<close>

datatype 'a call = Blocks | Faults | Returns 'a

abbreviation upd_queue :: "nat \<Rightarrow> task_queue \<Rightarrow> queue_state \<Rightarrow> queue_state" where
  "upd_queue i q s \<equiv> s\<lparr>qs_store := (qs_store s)(i \<mapsto> q)\<rparr>"

definition upd_pool :: "pool_id \<Rightarrow> (queue_pool \<Rightarrow> queue_pool) \<Rightarrow> queue_state \<Rightarrow> queue_state" where
  "upd_pool pid f s = s\<lparr>qs_pools := (qs_pools s)(pid := map_option f (qs_pools s pid))\<rparr>"

definition active_add :: "int \<Rightarrow> nat \<Rightarrow> queue_pool \<Rightarrow> queue_pool" where
  "active_add prio i p =
     p\<lparr>qp_active_list := (qp_active_list p)(nat prio := qp_active_list p (nat prio) @ [i])\<rparr>"

text \<open>\<^verbatim>\<open>list_del(&q->active_link)\<close>: the link is on the list of the queue's priority.\<close>

definition active_del :: "int \<Rightarrow> nat \<Rightarrow> queue_pool \<Rightarrow> queue_pool" where
  "active_del prio i p =
     p\<lparr>qp_active_list := (qp_active_list p)(nat prio := remove1 i (qp_active_list p (nat prio)))\<rparr>"

definition active_of :: "pool_id \<Rightarrow> nat \<Rightarrow> queue_state \<Rightarrow> nat list" where
  "active_of pid k s = (case qs_pools s pid of None \<Rightarrow> [] | Some p \<Rightarrow> qp_active_list p k)"

definition zx_get_nsecs :: "(nat \<Rightarrow> u64) \<Rightarrow> queue_state \<Rightarrow> queue_state" where
  "zx_get_nsecs clk s = s\<lparr>qs_current := clk (qs_ticks s), qs_ticks := Suc (qs_ticks s)\<rparr>"

section \<open>Queues\<close>

definition vidsch_task_queue_alloc :: "nat \<Rightarrow> int \<Rightarrow> queue_state \<Rightarrow> nat \<times> queue_state" where
  "vidsch_task_queue_alloc max_num priority s =
     (let i = qs_next_id s
      in (i, s\<lparr>qs_store := (qs_store s)(i \<mapsto>
               \<lparr>tq_priority = priority, tq_refcount = 1, tq_active = False, tq_last_active = 0,
                tq_task_list = [], tq_task_num = 0, tq_max_num = max_num, tq_sema = max_num,
                tq_pool = None\<rparr>),
             qs_next_id := Suc i\<rparr>))"

definition vidsch_task_queue_get :: "nat \<Rightarrow> queue_state \<Rightarrow> queue_state call" where
  "vidsch_task_queue_get i s =
     (case qs_store s i of
        None \<Rightarrow> Faults
      | Some q \<Rightarrow> Returns (upd_queue i (q\<lparr>tq_refcount := tq_refcount q + 1\<rparr>) s))"

definition vidsch_task_queue_release :: "nat \<Rightarrow> queue_state \<Rightarrow> queue_state call" where
  "vidsch_task_queue_release i s =
     (case qs_store s i of
        None \<Rightarrow> Faults
      | Some q \<Rightarrow>
          if tq_refcount q - 1 = 0 then Returns (s\<lparr>qs_store := (qs_store s)(i := None)\<rparr>)
          else Returns (upd_queue i (q\<lparr>tq_refcount := tq_refcount q - 1\<rparr>) s))"

definition vidsch_task_queue_try_deactive :: "nat \<Rightarrow> u64 \<Rightarrow> queue_state \<Rightarrow> queue_state" where
  "vidsch_task_queue_try_deactive i current s =
     (case qs_store s i of
        None \<Rightarrow> s
      | Some q \<Rightarrow>
          if tq_task_list q = [] \<and> current - tq_last_active q > 2000000000 \<and> tq_active q then
            (let s1 = upd_queue i (q\<lparr>tq_active := False\<rparr>) s
             in case tq_pool q of
                  None \<Rightarrow> s1
                | Some pid \<Rightarrow> upd_pool pid (active_del (tq_priority q) i) s1)
          else s)"

definition vidsch_task_queue_add :: "nat \<Rightarrow> task \<Rightarrow> queue_state \<Rightarrow> queue_state call" where
  "vidsch_task_queue_add i t s =
     (case qs_store s i of
        None \<Rightarrow> Faults
      | Some q \<Rightarrow>
          if tq_sema q = 0 then Blocks
          else
            let q1 = q\<lparr>tq_sema := tq_sema q - 1, tq_task_list := tq_task_list q @ [t],
                       tq_task_num := tq_task_num q + 1\<rparr>
            in if tq_active q1 then Returns (upd_queue i q1 s)
               else (case tq_pool q1 of
                       None \<Rightarrow> Faults
                     | Some pid \<Rightarrow>
                         Returns (upd_pool pid (active_add (tq_priority q1) i)
                           (upd_queue i (q1\<lparr>tq_active := True\<rparr>) s))))"

section \<open>Pools\<close>

definition vidsch_task_queue_pool_alloc :: "nat \<Rightarrow> queue_pool" where
  "vidsch_task_queue_pool_alloc max_priority =
     \<lparr>qp_queue_num = 0, qp_max_priority = max_priority, qp_queue_list = [],
      qp_active_list = (\<lambda>_. [])\<rparr>"

definition clamp_priority :: "nat \<Rightarrow> int \<Rightarrow> int" where
  "clamp_priority max_priority prio =
     (if prio < 0 then 0 else if prio > int max_priority then int max_priority else prio)"

definition vidsch_task_queue_pool_add :: "pool_id \<Rightarrow> nat \<Rightarrow> queue_state \<Rightarrow> queue_state call" where
  "vidsch_task_queue_pool_add pid i s =
     (case (qs_pools s pid, qs_store s i) of
        (Some p, Some q) \<Rightarrow>
          Returns (upd_pool pid (\<lambda>p. p\<lparr>qp_queue_list := qp_queue_list p @ [i],
                                      qp_queue_num := qp_queue_num p + 1\<rparr>)
            (upd_queue i (q\<lparr>tq_refcount := tq_refcount q + 1,
                            tq_priority := clamp_priority (qp_max_priority p) (tq_priority q),
                            tq_pool := Some pid\<rparr>) s))
      | _ \<Rightarrow> Faults)"

definition vidsch_task_queue_pool_remove :: "pool_id \<Rightarrow> nat \<Rightarrow> queue_state \<Rightarrow> queue_state call" where
  "vidsch_task_queue_pool_remove pid i s =
     (case (qs_pools s pid, qs_store s i) of
        (Some p, Some q) \<Rightarrow>
          let s1 = upd_pool pid (\<lambda>p. p\<lparr>qp_queue_list := remove1 i (qp_queue_list p),
                                     qp_queue_num := qp_queue_num p - 1\<rparr>) s;
              s2 = (if tq_active q then upd_pool pid (active_del (tq_priority q) i) s1 else s1)
          in Returns (upd_queue i (q\<lparr>tq_active := False, tq_pool := None\<rparr>) s2)
      | _ \<Rightarrow> Faults)"

text \<open>Releasing a pool drops the pool's reference of each of its queues, then the pool itself.\<close>

fun pool_release_loop :: "pool_id \<Rightarrow> nat list \<Rightarrow> queue_state \<Rightarrow> queue_state call" where
  "pool_release_loop pid [] s = Returns (s\<lparr>qs_pools := (qs_pools s)(pid := None)\<rparr>)"
| "pool_release_loop pid (i # is) s =
     (case vidsch_task_queue_release i (upd_pool pid (\<lambda>p. p\<lparr>qp_queue_list := is\<rparr>) s) of
        Returns s' \<Rightarrow> pool_release_loop pid is s'
      | Blocks \<Rightarrow> Blocks
      | Faults \<Rightarrow> Faults)"

definition vidsch_task_queue_pool_release :: "pool_id \<Rightarrow> queue_state \<Rightarrow> queue_state call" where
  "vidsch_task_queue_pool_release pid s =
     (case qs_pools s pid of
        None \<Rightarrow> Faults
      | Some p \<Rightarrow> pool_release_loop pid (qp_queue_list p) s)"

section \<open>The queues of a context\<close>

record queue_context =
  cx_priority :: int
  cx_task_queue :: "nat option"
  cx_page_table_set_task_queue :: "nat option"

text \<open>The first queue of the pool with the context's priority.\<close>

fun find_queue :: "queue_state \<Rightarrow> int \<Rightarrow> nat list \<Rightarrow> nat option" where
  "find_queue s prio [] = None"
| "find_queue s prio (i # is) =
     (case qs_store s i of
        Some q \<Rightarrow> if tq_priority q = prio then Some i else find_queue s prio is
      | None \<Rightarrow> find_queue s prio is)"

definition vidsch_init_page_table_set_task_queue ::
    "queue_context \<Rightarrow> queue_state \<Rightarrow> (queue_context \<times> queue_state) call" where
  "vidsch_init_page_table_set_task_queue cx s =
     (case qs_pools s page_table_set_pool of
        None \<Rightarrow> Returns (cx, s)
      | Some p \<Rightarrow>
          (case find_queue s (cx_priority cx) (qp_queue_list p) of
             None \<Rightarrow> Returns (cx, s)
           | Some i \<Rightarrow>
               (case vidsch_task_queue_get i s of
                  Returns s1 \<Rightarrow> Returns (cx\<lparr>cx_page_table_set_task_queue := Some i\<rparr>, s1)
                | Blocks \<Rightarrow> Blocks | Faults \<Rightarrow> Faults)))"

definition vidsch_init_task_queue ::
    "bool \<Rightarrow> queue_context \<Rightarrow> queue_state \<Rightarrow> (queue_context \<times> queue_state) call" where
  "vidsch_init_task_queue engine_schedule cx s =
     (if engine_schedule then
        (case qs_pools s task_queue_list of
           None \<Rightarrow> Faults
         | Some p \<Rightarrow>
             (case find_queue s (cx_priority cx) (qp_queue_list p) of
                None \<Rightarrow> Returns (cx, s)
              | Some i \<Rightarrow>
                  (case vidsch_task_queue_get i s of
                     Returns s1 \<Rightarrow> Returns (cx\<lparr>cx_task_queue := Some i\<rparr>, s1)
                   | Blocks \<Rightarrow> Blocks | Faults \<Rightarrow> Faults)))
      else
        (case vidsch_task_queue_alloc 32 (cx_priority cx) s of
           (i, s1) \<Rightarrow>
             (case vidsch_task_queue_pool_add task_queue_list i s1 of
                Returns s2 \<Rightarrow> Returns (cx\<lparr>cx_task_queue := Some i\<rparr>, s2)
              | Blocks \<Rightarrow> Blocks | Faults \<Rightarrow> Faults)))"

definition release_opt :: "nat option \<Rightarrow> queue_state \<Rightarrow> queue_state call" where
  "release_opt qi s = (case qi of None \<Rightarrow> Returns s | Some i \<Rightarrow> vidsch_task_queue_release i s)"

definition vidsch_deinit_task_queue ::
    "bool \<Rightarrow> queue_context \<Rightarrow> queue_state \<Rightarrow> (queue_context \<times> queue_state) call" where
  "vidsch_deinit_task_queue engine_schedule cx s =
     (let r1 = (case cx_task_queue cx of
                  None \<Rightarrow> Returns s
                | Some i \<Rightarrow>
                    (case (if engine_schedule then Returns s
                           else case map_option tq_pool (qs_store s i) of
                                  None \<Rightarrow> Faults
                                | Some None \<Rightarrow> Returns s
                                | Some (Some pid) \<Rightarrow> vidsch_task_queue_pool_remove pid i s) of
                       Returns s1 \<Rightarrow> vidsch_task_queue_release i s1
                     | Blocks \<Rightarrow> Blocks | Faults \<Rightarrow> Faults))
      in case r1 of
           Returns s2 \<Rightarrow>
             (case release_opt (cx_page_table_set_task_queue cx) s2 of
                Returns s3 \<Rightarrow>
                  Returns (cx\<lparr>cx_task_queue := None, cx_page_table_set_task_queue := None\<rparr>, s3)
              | Blocks \<Rightarrow> Blocks | Faults \<Rightarrow> Faults)
         | Blocks \<Rightarrow> Blocks | Faults \<Rightarrow> Faults)"

section \<open>The worker thread\<close>

text \<open>
  Put a queue back after a pass that took \<open>task_num\<close> tasks off and left \<open>rest\<close>: the
  tail that both submission routines share. Tasks added meanwhile stay behind \<open>rest\<close>.
\<close>

definition returned_queue :: "task list \<Rightarrow> nat \<Rightarrow> u64 \<Rightarrow> task_queue \<Rightarrow> task_queue" where
  "returned_queue rest task_num current q =
     (let q1 = q\<lparr>tq_task_list := rest @ tq_task_list q, tq_task_num := tq_task_num q - task_num,
                 tq_sema := tq_sema q + task_num\<rparr>
      in if task_num > 0 \<or> tq_task_list q1 \<noteq> [] then q1\<lparr>tq_last_active := current\<rparr> else q1)"

definition requeue :: "nat \<Rightarrow> task list \<Rightarrow> nat \<Rightarrow> queue_state \<Rightarrow> queue_state" where
  "requeue i rest task_num s =
     (case qs_store s i of
        None \<Rightarrow> s
      | Some q \<Rightarrow>
          vidsch_task_queue_try_deactive i (qs_current s)
            (upd_queue i (returned_queue rest task_num (qs_current s) q) s))"

definition splice_tasks :: "nat \<Rightarrow> queue_state \<Rightarrow> task list \<times> queue_state" where
  "splice_tasks i s =
     (case qs_store s i of
        None \<Rightarrow> ([], s)
      | Some q \<Rightarrow> (tq_task_list q, upd_queue i (q\<lparr>tq_task_list := []\<rparr>) s))"

fun for_queues ::
    "(nat \<Rightarrow> queue_state \<Rightarrow> task list \<times> queue_state) \<Rightarrow> nat list \<Rightarrow> queue_state \<Rightarrow> task list \<times> queue_state" where
  "for_queues visit [] s = ([], s)"
| "for_queues visit (i # is) s =
     (case visit i s of
        (sub, s1) \<Rightarrow> (case for_queues visit is s1 of (sub', s2) \<Rightarrow> (sub @ sub', s2)))"

fun submit_page_table_loop :: "task list \<Rightarrow> task list \<times> nat" where
  "submit_page_table_loop [] = ([], 0)"
| "submit_page_table_loop (t # ts) =
     (case submit_page_table_loop ts of
        (sub, n) \<Rightarrow>
          (case tk_type t of
             task_vm_prepare \<Rightarrow> (t # sub, Suc n)
           | task_page_table_set \<Rightarrow> (t # sub, Suc n)
           | _ \<Rightarrow> (sub, Suc n)))"

definition vidschi_try_submit_page_table_task_queue ::
    "(nat \<Rightarrow> u64) \<Rightarrow> nat \<Rightarrow> queue_state \<Rightarrow> task list \<times> queue_state" where
  "vidschi_try_submit_page_table_task_queue clk i s =
     (case splice_tasks i (zx_get_nsecs clk s) of
        (ts, s1) \<Rightarrow>
          (case submit_page_table_loop ts of (sub, n) \<Rightarrow> (sub, requeue i [] n s1)))"

text \<open>Priorities \<open>k\<close> to \<open>k + n - 1\<close>, upwards.\<close>

fun page_table_priorities ::
    "(nat \<Rightarrow> u64) \<Rightarrow> nat \<Rightarrow> nat \<Rightarrow> queue_state \<Rightarrow> task list \<times> queue_state" where
  "page_table_priorities clk k 0 s = ([], s)"
| "page_table_priorities clk k (Suc n) s =
     (case for_queues (vidschi_try_submit_page_table_task_queue clk)
             (active_of page_table_set_pool k s) s of
        (sub, s1) \<Rightarrow>
          (case page_table_priorities clk (Suc k) n s1 of (sub', s2) \<Rightarrow> (sub @ sub', s2)))"

definition vidschi_schedule_page_table_set_task ::
    "(nat \<Rightarrow> u64) \<Rightarrow> queue_state \<Rightarrow> task list \<times> queue_state" where
  "vidschi_schedule_page_table_set_task clk s =
     (case qs_pools s page_table_set_pool of
        None \<Rightarrow> ([], s)
      | Some p \<Rightarrow> page_table_priorities clk 0 (Suc (qp_max_priority p)) (zx_get_nsecs clk s))"

text \<open>
  One pass over the tasks spliced from a render queue. \<open>can_prepare\<close> is the answer of
  \<^verbatim>\<open>vidschi_can_prepare_dma_task\<close> for a task; a round asks at most once per task, so a
  predicate loses nothing. The result is the tasks sent to the engine (page table tasks
  included), the number of tasks taken off (an unknown type is only reported), the tasks left,
  and the state.
\<close>

fun submit_loop ::
    "(nat \<Rightarrow> u64) \<Rightarrow> (task \<Rightarrow> bool) \<Rightarrow> task list \<Rightarrow> queue_state
     \<Rightarrow> task list \<times> nat \<times> task list \<times> queue_state" where
  "submit_loop clk can_prepare [] s = ([], 0, [], s)"
| "submit_loop clk can_prepare (t # ts) s =
     (case vidschi_schedule_page_table_set_task clk s of
        (sub0, s0) \<Rightarrow>
          (if tk_type t = task_render \<and> \<not> can_prepare t then (sub0, 0, t # ts, s0)
           else (case submit_loop clk can_prepare ts s0 of
                   (sub, n, rest, s1) \<Rightarrow>
                     (sub0 @ (if tk_type t = task_render then [t] else []) @ sub, Suc n, rest, s1))))"

definition vidschi_try_submit_task_queue ::
    "(nat \<Rightarrow> u64) \<Rightarrow> (task \<Rightarrow> bool) \<Rightarrow> nat \<Rightarrow> queue_state \<Rightarrow> task list \<times> queue_state" where
  "vidschi_try_submit_task_queue clk can_prepare i s =
     (case splice_tasks i s of
        (ts, s1) \<Rightarrow>
          (case submit_loop clk can_prepare ts s1 of
             (sub, n, rest, s2) \<Rightarrow> (sub, requeue i rest n s2)))"

text \<open>From the highest priority down to 0; \<open>Suc k\<close> visits priority \<open>k\<close>.\<close>

fun schedule_priorities ::
    "(nat \<Rightarrow> u64) \<Rightarrow> (task \<Rightarrow> bool) \<Rightarrow> nat \<Rightarrow> queue_state \<Rightarrow> task list \<times> queue_state" where
  "schedule_priorities clk can_prepare 0 s = ([], s)"
| "schedule_priorities clk can_prepare (Suc k) s =
     (case vidschi_schedule_page_table_set_task clk s of
        (sub0, s0) \<Rightarrow>
          (case for_queues (vidschi_try_submit_task_queue clk can_prepare)
                  (active_of task_queue_list k s0) s0 of
             (sub, s1) \<Rightarrow>
               (case schedule_priorities clk can_prepare k s1 of
                  (sub', s2) \<Rightarrow> (sub0 @ sub @ sub', s2))))"

definition vidschi_schedule ::
    "(nat \<Rightarrow> u64) \<Rightarrow> (task \<Rightarrow> bool) \<Rightarrow> queue_state \<Rightarrow> task list \<times> queue_state" where
  "vidschi_schedule clk can_prepare s =
     (case qs_pools s task_queue_list of
        None \<Rightarrow> ([], s)
      | Some p \<Rightarrow> schedule_priorities clk can_prepare (Suc (qp_max_priority p)) (zx_get_nsecs clk s))"

section \<open>Invariant\<close>

text \<open>
  Links: the active lists hold exactly the active queues of the pool at their priority, once each;
  priorities are within the pool's range; the queue list and its length are exact.
\<close>

definition pool_ok :: "queue_state \<Rightarrow> pool_id \<Rightarrow> queue_pool \<Rightarrow> bool" where
  [kmd_inv]: "pool_ok s pid p \<longleftrightarrow>
     distinct (qp_queue_list p) \<and> qp_queue_num p = length (qp_queue_list p) \<and>
     (\<forall>i. i \<in> set (qp_queue_list p) \<longleftrightarrow> (\<exists>q. qs_store s i = Some q \<and> tq_pool q = Some pid)) \<and>
     (\<forall>k. distinct (qp_active_list p k)) \<and>
     (\<forall>k i. i \<in> set (qp_active_list p k) \<longleftrightarrow>
        (\<exists>q. qs_store s i = Some q \<and> tq_pool q = Some pid \<and> tq_active q \<and> tq_priority q = int k)) \<and>
     (\<forall>i q. qs_store s i = Some q \<longrightarrow> tq_pool q = Some pid \<longrightarrow>
        0 \<le> tq_priority q \<and> tq_priority q \<le> int (qp_max_priority p))"

definition links_ok :: "queue_state \<Rightarrow> bool" where
  [kmd_inv]: "links_ok s \<longleftrightarrow>
     (\<forall>pid p. qs_pools s pid = Some p \<longrightarrow> pool_ok s pid p) \<and>
     (\<forall>i q. qs_store s i = Some q \<longrightarrow>
        i < qs_next_id s \<and> (tq_active q \<longrightarrow> tq_pool q \<noteq> None) \<and>
        (\<forall>pid. tq_pool q = Some pid \<longrightarrow> qs_pools s pid \<noteq> None))"

text \<open>
  Counts: \<open>task_num\<close> is the length of the task list, the semaphore counts the free slots, and a
  queue of a pool that holds a task is active.
\<close>

definition queue_ok :: "task_queue \<Rightarrow> bool" where
  [kmd_inv]: "queue_ok q \<longleftrightarrow>
     tq_task_num q = length (tq_task_list q) \<and> tq_sema q + length (tq_task_list q) = tq_max_num q \<and>
     (tq_task_list q \<noteq> [] \<longrightarrow> tq_pool q \<noteq> None \<longrightarrow> tq_active q)"

definition queues_ok :: "nat set \<Rightarrow> queue_state \<Rightarrow> bool" where
  [kmd_inv]: "queues_ok X s \<longleftrightarrow> (\<forall>i\<in>X. \<forall>q. qs_store s i = Some q \<longrightarrow> queue_ok q)"

definition queue_inv :: "queue_state \<Rightarrow> bool" where
  "queue_inv s \<longleftrightarrow> links_ok s \<and> queues_ok UNIV s"

text \<open>\<open>s'\<close> differs from \<open>s\<close> at most in the queues \<open>X\<close> and the active lists that hold one of them.\<close>

definition touches :: "nat set \<Rightarrow> queue_state \<Rightarrow> queue_state \<Rightarrow> bool" where
  "touches X s s' \<longleftrightarrow>
     (\<forall>j. j \<notin> X \<longrightarrow> qs_store s' j = qs_store s j) \<and>
     (\<forall>pid k. set (active_of pid k s) \<inter> X = {} \<longrightarrow> active_of pid k s' = active_of pid k s) \<and>
     (\<forall>j. map_option (\<lambda>q. (tq_pool q, tq_priority q, tq_refcount q)) (qs_store s' j) =
          map_option (\<lambda>q. (tq_pool q, tq_priority q, tq_refcount q)) (qs_store s j)) \<and>
     (\<forall>pid. map_option (\<lambda>p. (qp_max_priority p, qp_queue_list p)) (qs_pools s' pid) =
            map_option (\<lambda>p. (qp_max_priority p, qp_queue_list p)) (qs_pools s pid))"

lemma touches_refl [simp]: "touches X s s"
  by (simp add: touches_def)

lemma touches_trans: "touches X s s1 \<Longrightarrow> touches X s1 s2 \<Longrightarrow> touches X s s2"
  by (simp add: touches_def)

lemma touches_mono: "touches X s s' \<Longrightarrow> X \<subseteq> Y \<Longrightarrow> touches Y s s'"
  unfolding touches_def by (meson disjoint_iff subsetD)

lemma touches_store: "touches X s s' \<Longrightarrow> j \<notin> X \<Longrightarrow> qs_store s' j = qs_store s j"
  by (simp add: touches_def)

lemma touches_active:
  "touches X s s' \<Longrightarrow> set (active_of pid k s) \<inter> X = {} \<Longrightarrow> active_of pid k s' = active_of pid k s"
  by (simp add: touches_def)

lemma active_of_iff:
  assumes "links_ok s"
  shows "i \<in> set (active_of pid k s) \<longleftrightarrow>
    (\<exists>q. qs_store s i = Some q \<and> tq_pool q = Some pid \<and> tq_active q \<and> tq_priority q = int k)"
proof (cases "qs_pools s pid")
  case None
  then show ?thesis using assms by (fastforce simp: active_of_def links_ok_def)
next
  case (Some p)
  then show ?thesis using assms by (simp add: active_of_def links_ok_def pool_ok_def)
qed

lemma distinct_active_of: "links_ok s \<Longrightarrow> distinct (active_of pid k s)"
  by (auto simp: active_of_def links_ok_def pool_ok_def split: option.splits)

lemma links_ok_get_nsecs [simp]: "links_ok (zx_get_nsecs clk s) \<longleftrightarrow> links_ok s"
  by (simp add: links_ok_def pool_ok_def zx_get_nsecs_def)

lemma get_nsecs_simps [simp]:
  "qs_store (zx_get_nsecs clk s) = qs_store s"
  "qs_pools (zx_get_nsecs clk s) = qs_pools s"
  "active_of pid k (zx_get_nsecs clk s) = active_of pid k s"
  "queues_ok X (zx_get_nsecs clk s) \<longleftrightarrow> queues_ok X s"
  "touches X s (zx_get_nsecs clk s)"
  by (auto simp: zx_get_nsecs_def queues_ok_def touches_def active_of_def)

text \<open>A change of a queue that keeps its links.\<close>

lemma upd_queue_links:
  assumes "qs_store s i = Some q" "tq_active q' = tq_active q" "tq_pool q' = tq_pool q"
    "tq_priority q' = tq_priority q" "links_ok s"
  shows "links_ok (upd_queue i q' s)"
  using assms unfolding links_ok_def pool_ok_def by (simp split: if_splits)

lemma upd_queue_touches:
  assumes "qs_store s i = Some q" "tq_pool q' = tq_pool q" "tq_priority q' = tq_priority q"
    "tq_refcount q' = tq_refcount q"
  shows "touches {i} s (upd_queue i q' s)"
  using assms by (auto simp: touches_def active_of_def)

lemma upd_pool_simps [simp]:
  "qs_store (upd_pool pid f s) = qs_store s"
  "qs_next_id (upd_pool pid f s) = qs_next_id s"
  "qs_current (upd_pool pid f s) = qs_current s"
  "qs_ticks (upd_pool pid f s) = qs_ticks s"
  "qs_pools (upd_pool pid f s) = (qs_pools s)(pid := map_option f (qs_pools s pid))"
  by (simp_all add: upd_pool_def)

lemma active_del_simps [simp]:
  "qp_queue_list (active_del k i p) = qp_queue_list p"
  "qp_queue_num (active_del k i p) = qp_queue_num p"
  "qp_max_priority (active_del k i p) = qp_max_priority p"
  "qp_active_list (active_del k i p) =
     (qp_active_list p)(nat k := remove1 i (qp_active_list p (nat k)))"
  by (simp_all add: active_del_def)

lemma active_add_simps [simp]:
  "qp_queue_list (active_add k i p) = qp_queue_list p"
  "qp_queue_num (active_add k i p) = qp_queue_num p"
  "qp_max_priority (active_add k i p) = qp_max_priority p"
  "qp_active_list (active_add k i p) = (qp_active_list p)(nat k := qp_active_list p (nat k) @ [i])"
  by (simp_all add: active_add_def)

text \<open>
  The link invariant is established pool by pool: a change of queue \<open>i\<close> only matters to the
  lists through its pool, activity and priority.
\<close>

lemma pool_ok_other:
  assumes "pool_ok s pid p" "qs_store s i = Some q" "tq_pool q \<noteq> Some pid"
    "qs_store s' = (qs_store s)(i \<mapsto> q')" "tq_pool q' \<noteq> Some pid"
  shows "pool_ok s' pid p"
  using assms unfolding pool_ok_def by auto

lemma pool_ok_deactivate:
  assumes "pool_ok s pid p" "qs_store s i = Some q" "tq_pool q = Some pid" "tq_active q"
    "qs_store s' = (qs_store s)(i \<mapsto> q\<lparr>tq_active := False\<rparr>)"
  shows "pool_ok s' pid (active_del (tq_priority q) i p)"
  using assms unfolding pool_ok_def by (auto simp: distinct_remove1)

lemma pool_ok_activate:
  assumes "pool_ok s pid p" "qs_store s i = Some q" "tq_pool q = Some pid" "\<not> tq_active q"
    "qs_store s' = (qs_store s)(i \<mapsto> q')" "tq_active q'" "tq_pool q' = Some pid"
    "tq_priority q' = tq_priority q"
  shows "pool_ok s' pid (active_add (tq_priority q) i p)"
  using assms unfolding pool_ok_def by auto

lemma links_ok_pool: "links_ok s \<Longrightarrow> qs_pools s pid = Some p \<Longrightarrow> pool_ok s pid p"
  by (simp add: links_ok_def)

lemma links_ok_queue:
  assumes "links_ok s" "qs_store s i = Some q"
  shows "i < qs_next_id s" "tq_active q \<Longrightarrow> tq_pool q \<noteq> None"
    "tq_pool q = Some pid \<Longrightarrow> qs_pools s pid \<noteq> None"
  using assms unfolding links_ok_def by blast+

lemma links_okI:
  assumes "\<And>pid p. qs_pools s pid = Some p \<Longrightarrow> pool_ok s pid p"
    and "\<And>i q. qs_store s i = Some q \<Longrightarrow> i < qs_next_id s"
    and "\<And>i q. qs_store s i = Some q \<Longrightarrow> tq_active q \<Longrightarrow> tq_pool q \<noteq> None"
    and "\<And>i q pid. qs_store s i = Some q \<Longrightarrow> tq_pool q = Some pid \<Longrightarrow> qs_pools s pid \<noteq> None"
  shows "links_ok s"
  using assms unfolding links_ok_def by blast

lemma deactivate_links:
  assumes l: "links_ok s" and q: "qs_store s i = Some q" "tq_pool q = Some pid" "tq_active q"
  shows "links_ok (upd_pool pid (active_del (tq_priority q) i) (upd_queue i (q\<lparr>tq_active := False\<rparr>) s))"
    (is "links_ok ?s'")
proof (rule links_okI)
  fix pid' p' assume p': "qs_pools ?s' pid' = Some p'"
  show "pool_ok ?s' pid' p'"
  proof (cases "pid' = pid")
    case True
    with p' obtain p where "qs_pools s pid = Some p" "p' = active_del (tq_priority q) i p"
      by auto
    with True show ?thesis
      using pool_ok_deactivate [OF links_ok_pool [OF l] q] by simp
  next
    case False
    with p' have "qs_pools s pid' = Some p'" by simp
    then show ?thesis
      using False q by (intro pool_ok_other [OF links_ok_pool [OF l] q(1)]) auto
  qed
qed (use links_ok_queue [OF l] q in \<open>auto split: if_splits\<close>)

lemma activate_links:
  assumes l: "links_ok s" and q: "qs_store s i = Some q" "tq_pool q = Some pid" "\<not> tq_active q"
    and q': "tq_active q'" "tq_pool q' = Some pid" "tq_priority q' = tq_priority q"
  shows "links_ok (upd_pool pid (active_add (tq_priority q) i) (upd_queue i q' s))"
    (is "links_ok ?s'")
proof (rule links_okI)
  fix pid' p' assume p': "qs_pools ?s' pid' = Some p'"
  show "pool_ok ?s' pid' p'"
  proof (cases "pid' = pid")
    case True
    with p' obtain p where "qs_pools s pid = Some p" "p' = active_add (tq_priority q) i p"
      by auto
    with True show ?thesis
      using pool_ok_activate [OF links_ok_pool [OF l] q, where q' = q'] q' by simp
  next
    case False
    with p' have "qs_pools s pid' = Some p'" by simp
    then show ?thesis
      using False q q' by (intro pool_ok_other [OF links_ok_pool [OF l] q(1)]) auto
  qed
qed (use links_ok_queue [OF l] q q' in \<open>auto split: if_splits\<close>)

section \<open>The submission steps\<close>

lemma try_deactive_links:
  assumes "links_ok s" shows "links_ok (vidsch_task_queue_try_deactive i c s)"
proof (cases "qs_store s i")
  case None
  then show ?thesis using assms by (simp add: vidsch_task_queue_try_deactive_def)
next
  case (Some q)
  show ?thesis
  proof (cases "tq_pool q")
    case None
    then have "\<not> tq_active q" using links_ok_queue(2) [OF assms Some] by auto
    then show ?thesis using assms Some by (simp add: vidsch_task_queue_try_deactive_def)
  next
    case pid: (Some pid)
    then show ?thesis
      using deactivate_links [OF assms Some pid] assms Some
      by (simp add: vidsch_task_queue_try_deactive_def)
  qed
qed

lemma try_deactive_touches: "touches {i} s (vidsch_task_queue_try_deactive i c s)"
  by (auto simp: vidsch_task_queue_try_deactive_def Let_def touches_def active_of_def remove1_idem
      option.map_comp comp_def split: option.splits)

lemma try_deactive_store:
  "qs_store s i = Some q \<Longrightarrow>
   \<exists>a. qs_store (vidsch_task_queue_try_deactive i c s) i = Some (q\<lparr>tq_active := a\<rparr>) \<and>
       (tq_task_list q \<noteq> [] \<longrightarrow> a = tq_active q)"
  by (auto simp: vidsch_task_queue_try_deactive_def Let_def split: option.splits intro: exI [of _ "tq_active q"])

lemma splice_tasks_props:
  assumes "links_ok s" "splice_tasks i s = (ts, s1)"
  shows "links_ok s1" "touches {i} s s1"
  using assms upd_queue_links upd_queue_touches
  by (auto simp: splice_tasks_def split: option.splits)

lemma returned_queue_simps [simp]:
  "tq_task_list (returned_queue rest n c q) = rest @ tq_task_list q"
  "tq_task_num (returned_queue rest n c q) = tq_task_num q - n"
  "tq_sema (returned_queue rest n c q) = tq_sema q + n"
  "tq_max_num (returned_queue rest n c q) = tq_max_num q"
  "tq_pool (returned_queue rest n c q) = tq_pool q"
  "tq_active (returned_queue rest n c q) = tq_active q"
  "tq_priority (returned_queue rest n c q) = tq_priority q"
  "tq_refcount (returned_queue rest n c q) = tq_refcount q"
  by (simp_all add: returned_queue_def Let_def)

lemma requeue_links: "links_ok s \<Longrightarrow> links_ok (requeue i rest n s)"
  by (auto simp: requeue_def intro!: try_deactive_links split: option.splits
      intro: upd_queue_links)

lemma requeue_touches: "touches {i} s (requeue i rest n s)"
  by (auto simp: requeue_def split: option.splits
      intro: touches_trans [OF upd_queue_touches try_deactive_touches])

lemma requeue_store:
  assumes "qs_store s i = Some q"
  shows "\<exists>q'. qs_store (requeue i rest n s) i = Some q' \<and>
     tq_task_list q' = rest @ tq_task_list q \<and> tq_task_num q' = tq_task_num q - n \<and>
     tq_sema q' = tq_sema q + n \<and> tq_max_num q' = tq_max_num q \<and> tq_pool q' = tq_pool q \<and>
     (tq_task_list q' \<noteq> [] \<longrightarrow> tq_active q' = tq_active q)"
  using assms
    try_deactive_store [of "upd_queue i (returned_queue rest n (qs_current s) q) s" i
      "returned_queue rest n (qs_current s) q" "qs_current s"]
  by (auto simp: requeue_def)

text \<open>
  A pass over one queue that takes \<open>n\<close> tasks off the front, keeping the counts exact: the common
  argument for both pools. The steps in between (\<open>s1\<close> to \<open>s2\<close>) do not touch queue \<open>i\<close>.
\<close>

lemma pass_queues_ok:
  assumes sp: "splice_tasks i s = (ts, s1)"
    and same: "qs_store s2 i = qs_store s1 i" and ts: "n = length pre" "ts = pre @ rest"
    and ok: "queues_ok X s" "queues_ok (X - {i}) s2"
  shows "queues_ok X (requeue i rest n s2)"
  unfolding queues_ok_def
proof (intro ballI allI impI)
  fix j qj assume j: "j \<in> X" "qs_store (requeue i rest n s2) j = Some qj"
  have t: "touches {i} s2 (requeue i rest n s2)" by (rule requeue_touches)
  show "queue_ok qj"
  proof (cases "j = i")
    case False
    then show ?thesis using j ok(2) touches_store [OF t, of j] by (auto simp: queues_ok_def)
  next
    case True
    show ?thesis
    proof (cases "qs_store s i")
      case None
      then have "qs_store s2 i = None" using sp same by (simp add: splice_tasks_def)
      then show ?thesis using True j(2) by (simp add: requeue_def)
    next
      case (Some q)
      then have s2: "qs_store s2 i = Some (q\<lparr>tq_task_list := []\<rparr>)" "ts = tq_task_list q"
        using sp same by (auto simp: splice_tasks_def)
      then have len: "length (tq_task_list q) = n + length rest"
        using ts by (metis length_append)
      have "queue_ok q" using ok(1) j(1) True Some by (auto simp: queues_ok_def)
      moreover have "rest \<noteq> [] \<Longrightarrow> tq_task_list q \<noteq> []" using len by auto
      ultimately show ?thesis
        using requeue_store [OF s2(1), of rest n] j(2) True len by (auto simp: queue_ok_def)
    qed
  qed
qed

section \<open>Visiting the queues of a pool\<close>

definition tasks_of :: "nat \<Rightarrow> queue_state \<Rightarrow> task list" where
  "tasks_of i s = (case qs_store s i of None \<Rightarrow> [] | Some q \<Rightarrow> tq_task_list q)"

fun members :: "pool_id option \<Rightarrow> queue_state \<Rightarrow> nat set" where
  "members None s = {}"
| "members (Some pid) s = {i. \<exists>q. qs_store s i = Some q \<and> tq_pool q = Some pid}"

lemma members_touches: "touches X s s' \<Longrightarrow> members pid s' = members pid s"
proof (cases pid)
  case (Some p)
  assume "touches X s s'"
  then have "map_option (\<lambda>q. (tq_pool q, tq_priority q, tq_refcount q)) (qs_store s' j) =
      map_option (\<lambda>q. (tq_pool q, tq_priority q, tq_refcount q)) (qs_store s j)" for j
    by (simp add: touches_def)
  from arg_cong [where f = "map_option fst", OF this]
  have "map_option tq_pool (qs_store s' j) = map_option tq_pool (qs_store s j)" for j
    by (simp add: option.map_comp comp_def)
  then have "map_option tq_pool (qs_store s' j) = Some pid \<longleftrightarrow>
      map_option tq_pool (qs_store s j) = Some pid" for j
    by simp
  then show ?thesis using Some by simp
qed simp

lemma members_inter: "pid \<noteq> pid' \<Longrightarrow> members pid s \<inter> members pid' s = {}"
  by (cases pid; cases pid') auto

lemma active_of_members: "links_ok s \<Longrightarrow> set (active_of pid k s) \<subseteq> members (Some pid) s"
  by (auto simp: active_of_iff)

lemma tasks_of_touches: "touches X s s' \<Longrightarrow> j \<notin> X \<Longrightarrow> tasks_of j s' = tasks_of j s"
  by (simp add: tasks_of_def touches_store)

text \<open>
  The contract of a submission routine: on a queue of its pool it sends the tasks \<open>sent\<close> in order
  (among tasks of the kind \<open>mine\<close>), leaves the tasks \<open>left\<close>, and touches no other queue but those of
  a side pool. Both submission routines of the worker thread are instances.
\<close>

locale queue_visit =
  fixes visit :: "nat \<Rightarrow> queue_state \<Rightarrow> task list \<times> queue_state"
    and pid :: pool_id and side :: "pool_id option"
    and mine :: "task \<Rightarrow> bool" and sent left :: "task list \<Rightarrow> task list"
  assumes side: "side \<noteq> Some pid"
    and visit_links: "links_ok s \<Longrightarrow> i \<in> members (Some pid) s \<Longrightarrow> visit i s = (sub, s') \<Longrightarrow> links_ok s'"
    and visit_touches: "links_ok s \<Longrightarrow> i \<in> members (Some pid) s \<Longrightarrow> visit i s = (sub, s') \<Longrightarrow>
      touches ({i} \<union> members side s) s s'"
    and visit_queues_ok: "links_ok s \<Longrightarrow> i \<in> members (Some pid) s \<Longrightarrow> visit i s = (sub, s') \<Longrightarrow>
      queues_ok X s \<Longrightarrow> queues_ok X s'"
    and visit_sent: "links_ok s \<Longrightarrow> i \<in> members (Some pid) s \<Longrightarrow> visit i s = (sub, s') \<Longrightarrow>
      filter mine sub = sent (tasks_of i s)"
    and visit_left: "links_ok s \<Longrightarrow> i \<in> members (Some pid) s \<Longrightarrow> visit i s = (sub, s') \<Longrightarrow>
      tasks_of i s' = left (tasks_of i s)"
begin

lemma for_queues_correct:
  assumes "links_ok s" "distinct is" "set is \<subseteq> members (Some pid) s"
    "for_queues visit is s = (sub, s')"
  shows "links_ok s' \<and> touches (set is \<union> members side s) s s' \<and> (queues_ok X s \<longrightarrow> queues_ok X s') \<and>
    filter mine sub = concat (map (\<lambda>i. sent (tasks_of i s)) is) \<and>
    (\<forall>i\<in>set is. tasks_of i s' = left (tasks_of i s))"
  using assms
proof (induction "is" arbitrary: s sub)
  case Nil
  then show ?case by simp
next
  case (Cons i "is")
  obtain sub1 s1 where v: "visit i s = (sub1, s1)" by force
  obtain sub2 where f: "for_queues visit is s1 = (sub2, s')" and sub: "sub = sub1 @ sub2"
    using Cons.prems(4) v by (auto split: prod.splits)
  have i: "i \<in> members (Some pid) s" using Cons.prems(3) by simp
  note st = visit_links [OF Cons.prems(1) i v] visit_touches [OF Cons.prems(1) i v]
  have m: "members side s1 = members side s" "members (Some pid) s1 = members (Some pid) s"
    using members_touches [OF st(2)] by auto
  have IH: "links_ok s'" "touches (set is \<union> members side s1) s1 s'" "queues_ok X s1 \<Longrightarrow> queues_ok X s'"
      "filter mine sub2 = concat (map (\<lambda>i. sent (tasks_of i s1)) is)"
      "\<forall>j\<in>set is. tasks_of j s' = left (tasks_of j s1)"
    using Cons.IH [OF st(1) _ _ f] Cons.prems m by auto
  have disj: "members side s \<inter> members (Some pid) s = {}" using side by (rule members_inter)
  have same: "tasks_of j s1 = tasks_of j s" if "j \<in> set is" for j
    using that Cons.prems(2,3) disj by (intro tasks_of_touches [OF st(2)]) auto
  have lefti: "tasks_of i s' = left (tasks_of i s)"
    using Cons.prems(2) disj i m visit_left [OF Cons.prems(1) i v]
    by (subst tasks_of_touches [OF IH(2)]) auto
  have "touches (set (i # is) \<union> members side s) s s'"
    using IH(2) st(2) m by (auto intro: touches_trans touches_mono)
  moreover have "filter mine sub = concat (map (\<lambda>i. sent (tasks_of i s)) (i # is))"
    using IH(4) same visit_sent [OF Cons.prems(1) i v] by (simp add: sub cong: map_cong)
  ultimately show ?case
    using IH lefti same visit_queues_ok [OF Cons.prems(1) i v] by auto
qed

end

subsection \<open>The page table pool\<close>

definition is_page_table :: "task \<Rightarrow> bool" where
  "is_page_table t \<longleftrightarrow> tk_type t = task_vm_prepare \<or> tk_type t = task_page_table_set"

lemma submit_page_table_loop_eq:
  "submit_page_table_loop ts = (filter is_page_table ts, length ts)"
  by (induction ts) (auto simp: is_page_table_def split: task_type.split)

lemma page_table_visit:
  assumes "links_ok s" "vidschi_try_submit_page_table_task_queue clk i s = (sub, s')"
  shows "links_ok s'" "touches {i} s s'" "queues_ok X s \<Longrightarrow> queues_ok X s'"
    "sub = filter is_page_table (tasks_of i s)" "tasks_of i s' = []"
proof -
  let ?s0 = "zx_get_nsecs clk s"
  obtain ts s1 where sp: "splice_tasks i ?s0 = (ts, s1)" by force
  have s': "s' = requeue i [] (length ts) s1" and sub: "sub = filter is_page_table ts"
    using assms(2) sp by (auto simp: vidschi_try_submit_page_table_task_queue_def submit_page_table_loop_eq)
  have l0: "links_ok ?s0" using assms(1) by simp
  note p1 = splice_tasks_props [OF l0 sp]
  show "links_ok s'" using p1(1) by (simp add: s' requeue_links)
  show "touches {i} s s'"
    using p1(2) requeue_touches [of i s1] by (metis get_nsecs_simps(5) s' touches_trans)
  show "sub = filter is_page_table (tasks_of i s)"
    using sp sub by (auto simp: splice_tasks_def tasks_of_def split: option.splits)
  show "tasks_of i s' = []"
  proof (cases "qs_store s1 i")
    case None
    then show ?thesis by (simp add: s' requeue_def tasks_of_def)
  next
    case (Some q)
    then show ?thesis
      using requeue_store [OF Some, of "[]" "length ts"] sp
      by (auto simp: s' tasks_of_def splice_tasks_def split: option.splits)
  qed
  show "queues_ok X s'" if "queues_ok X s"
    unfolding s'
  proof (rule pass_queues_ok [OF sp])
    show "queues_ok X ?s0" using that by simp
    show "queues_ok (X - {i}) s1"
      using that touches_store [OF p1(2)] by (auto simp: queues_ok_def)
  qed auto
qed

interpretation page_table: queue_visit "vidschi_try_submit_page_table_task_queue clk"
    page_table_set_pool None "\<lambda>_. True" "filter is_page_table" "\<lambda>_. []" for clk
proof (unfold_locales, goal_cases)
  case 1
  then show ?case by simp
next
  case (2 s i sub s')
  show ?case by (rule page_table_visit(1) [OF 2(1,3)])
next
  case (3 s i sub s')
  then show ?case using page_table_visit(2) [OF 3(1,3)] by simp
next
  case (4 s i sub s' X)
  show ?case by (rule page_table_visit(3) [OF 4(1,3,4)])
next
  case (5 s i sub s')
  then show ?case using page_table_visit(4) [OF 5(1,3)] by simp
next
  case (6 s i sub s')
  show ?case by (rule page_table_visit(5) [OF 6(1,3)])
qed

text \<open>The page table tasks a round sends: by priority upwards, queue by queue, first-in first-out.\<close>

definition page_table_log :: "nat \<Rightarrow> nat \<Rightarrow> queue_state \<Rightarrow> task list" where
  "page_table_log k n s =
     concat (map (\<lambda>j. concat (map (\<lambda>i. filter is_page_table (tasks_of i s))
       (active_of page_table_set_pool j s))) [k..<k + n])"

lemma page_table_priorities_correct:
  assumes "links_ok s" "page_table_priorities clk k n s = (sub, s')"
  shows "links_ok s' \<and> touches (members (Some page_table_set_pool) s) s s' \<and>
    (queues_ok X s \<longrightarrow> queues_ok X s') \<and> sub = page_table_log k n s \<and>
    (\<forall>j\<in>{k..<k + n}. \<forall>i\<in>set (active_of page_table_set_pool j s). tasks_of i s' = []) \<and>
    (\<forall>i. tasks_of i s = [] \<longrightarrow> tasks_of i s' = [])"
  using assms
proof (induction n arbitrary: k s sub)
  case 0
  then show ?case by (simp add: page_table_log_def)
next
  case (Suc n)
  let ?P = "page_table_set_pool"
  let ?is = "active_of ?P k s"
  obtain sub1 s1 where v: "for_queues (vidschi_try_submit_page_table_task_queue clk) ?is s = (sub1, s1)"
    by force
  obtain sub2 where f: "page_table_priorities clk (Suc k) n s1 = (sub2, s')" and sub: "sub = sub1 @ sub2"
    using Suc.prems(2) v by (auto split: prod.splits)
  note step = page_table.for_queues_correct [OF Suc.prems(1) distinct_active_of [OF Suc.prems(1)]
      active_of_members [OF Suc.prems(1)] v]
  have l1: "links_ok s1" and t1: "touches (set ?is) s s1" and o1: "queues_ok X s \<Longrightarrow> queues_ok X s1"
    and sub1: "sub1 = concat (map (\<lambda>i. filter is_page_table (tasks_of i s)) ?is)"
    and left1: "\<And>i. i \<in> set ?is \<Longrightarrow> tasks_of i s1 = []"
    using step by auto
  have other: "active_of ?P j s1 = active_of ?P j s" if "j \<noteq> k" for j
    using that by (intro touches_active [OF t1]) (auto simp: active_of_iff [OF Suc.prems(1)])
  have empty1: "tasks_of i s1 = []" if "tasks_of i s = []" for i
    using that left1 tasks_of_touches [OF t1] by metis
  have IH: "links_ok s'" "touches (members (Some ?P) s1) s1 s'" "queues_ok X s1 \<Longrightarrow> queues_ok X s'"
      "sub2 = page_table_log (Suc k) n s1"
      "\<And>j i. j \<in> {Suc k..<Suc k + n} \<Longrightarrow> i \<in> set (active_of ?P j s1) \<Longrightarrow> tasks_of i s' = []"
      "\<And>i. tasks_of i s1 = [] \<Longrightarrow> tasks_of i s' = []"
    using Suc.IH [OF l1 f] by blast+
  have "tasks_of i s1 = tasks_of i s" if "i \<in> set (active_of ?P j s)" "j \<noteq> k" for i j
    using that by (intro tasks_of_touches [OF t1]) (auto simp: active_of_iff [OF Suc.prems(1)])
  then have "page_table_log (Suc k) n s1 = page_table_log (Suc k) n s"
    unfolding page_table_log_def by (intro arg_cong [where f = concat] map_cong) (auto simp: other)
  then have "sub = page_table_log k (Suc n) s"
    using IH(4) by (simp add: sub sub1 page_table_log_def upt_conv_Cons del: upt_Suc)
  moreover have "touches (members (Some ?P) s) s s'"
    using t1 IH(2) active_of_members [OF Suc.prems(1)] members_touches [OF t1]
    by (metis touches_mono touches_trans)
  moreover have "tasks_of i s' = []" if "j \<in> {k..<k + Suc n}" "i \<in> set (active_of ?P j s)" for i j
    using that IH(5) [of j i] IH(6) left1 other by (cases "j = k") auto
  ultimately show ?case using IH o1 empty1 by blast
qed

definition all_page_table_log :: "queue_state \<Rightarrow> task list" where
  "all_page_table_log s =
     (case qs_pools s page_table_set_pool of
        None \<Rightarrow> []
      | Some p \<Rightarrow> page_table_log 0 (Suc (qp_max_priority p)) s)"

definition drained :: "queue_state \<Rightarrow> bool" where
  "drained s \<longleftrightarrow> (\<forall>i\<in>members (Some page_table_set_pool) s. tasks_of i s = [])"

lemma all_page_table_log_drained:
  assumes "links_ok s" "drained s" shows "all_page_table_log s = []"
proof -
  have "filter is_page_table (tasks_of i s) = []" if "i \<in> set (active_of page_table_set_pool j s)" for i j
    using that assms(2) active_of_members [OF assms(1), of page_table_set_pool j]
    unfolding drained_def by (metis filter.simps(1) subsetD)
  then show ?thesis
    by (simp add: all_page_table_log_def page_table_log_def split: option.splits)
qed

lemma page_table_log_get_nsecs [simp]: "page_table_log k n (zx_get_nsecs clk s) = page_table_log k n s"
  by (simp add: page_table_log_def tasks_of_def)

lemma tasks_of_get_nsecs [simp]: "tasks_of i (zx_get_nsecs clk s) = tasks_of i s"
  by (simp add: tasks_of_def)

lemma members_get_nsecs [simp]: "members pid (zx_get_nsecs clk s) = members pid s"
  by (rule members_touches) (rule get_nsecs_simps)

lemma member_on_active_list:
  assumes "links_ok s" "queues_ok UNIV s" "i \<in> members (Some pid) s" "tasks_of i s \<noteq> []"
    "qs_pools s pid = Some p"
  shows "\<exists>k\<le>qp_max_priority p. i \<in> set (active_of pid k s)"
proof -
  obtain q where q: "qs_store s i = Some q" "tq_pool q = Some pid" using assms(3) by auto
  then have "tq_active q" using assms(2,4) by (auto simp: queues_ok_def queue_ok_def tasks_of_def)
  moreover have "0 \<le> tq_priority q" "tq_priority q \<le> int (qp_max_priority p)"
    using links_ok_pool [OF assms(1,5)] q by (auto simp: pool_ok_def)
  ultimately show ?thesis
    using q by (intro exI [of _ "nat (tq_priority q)"]) (auto simp: active_of_iff [OF assms(1)])
qed

lemma schedule_page_table_correct:
  assumes "links_ok s" "vidschi_schedule_page_table_set_task clk s = (sub, s')"
  shows "links_ok s'" "touches (members (Some page_table_set_pool) s) s s'"
    "queues_ok X s \<Longrightarrow> queues_ok X s'" "sub = all_page_table_log s"
    "queues_ok UNIV s \<Longrightarrow> drained s'" "drained s \<Longrightarrow> drained s'"
proof -
  let ?P = page_table_set_pool
  have all: "links_ok s' \<and> touches (members (Some ?P) s) s s' \<and> (queues_ok X s \<longrightarrow> queues_ok X s') \<and>
      sub = all_page_table_log s \<and> (queues_ok UNIV s \<longrightarrow> drained s') \<and> (drained s \<longrightarrow> drained s')"
  proof (cases "qs_pools s ?P")
    case None
    then have "members (Some ?P) s = {}"
      using links_ok_queue(3) [OF assms(1)] by fastforce
    then show ?thesis
      using None assms
      by (auto simp: vidschi_schedule_page_table_set_task_def all_page_table_log_def drained_def)
  next
    case (Some p)
    let ?s0 = "zx_get_nsecs clk s"
    have v: "page_table_priorities clk 0 (Suc (qp_max_priority p)) ?s0 = (sub, s')"
      using Some assms(2) by (simp add: vidschi_schedule_page_table_set_task_def)
    have l0: "links_ok ?s0" using assms(1) by simp
    have r: "links_ok s'" "touches (members (Some ?P) s) ?s0 s'" "queues_ok X s \<longrightarrow> queues_ok X s'"
        "sub = page_table_log 0 (Suc (qp_max_priority p)) s"
        "\<And>j i. j \<le> qp_max_priority p \<Longrightarrow> i \<in> set (active_of ?P j s) \<Longrightarrow> tasks_of i s' = []"
        "\<And>i. tasks_of i s = [] \<Longrightarrow> tasks_of i s' = []"
      using page_table_priorities_correct [OF l0 v, of X] by auto
    have m: "members (Some ?P) s' = members (Some ?P) s"
      using members_touches [OF r(2), of "Some ?P"] by simp
    have "drained s'" if "queues_ok UNIV s"
      unfolding drained_def m
      using member_on_active_list [OF assms(1) that _ _ Some] r(5,6) by blast
    moreover have "touches (members (Some ?P) s) s s'"
      using r(2) by (rule touches_trans [OF get_nsecs_simps(5)])
    moreover have "drained s'" if "drained s"
      using that r(6) unfolding drained_def m by blast
    ultimately show ?thesis using r Some by (auto simp: all_page_table_log_def)
  qed
  then show "links_ok s'" "touches (members (Some ?P) s) s s'" "queues_ok X s \<Longrightarrow> queues_ok X s'"
      "sub = all_page_table_log s" "queues_ok UNIV s \<Longrightarrow> drained s'" "drained s \<Longrightarrow> drained s'"
    by blast+
qed

subsection \<open>The render pool\<close>

definition is_render :: "task \<Rightarrow> bool" where
  "is_render t \<longleftrightarrow> tk_type t = task_render"

text \<open>A task leaves its queue unless it is a rendering task the engine cannot take yet.\<close>

definition leaves :: "(task \<Rightarrow> bool) \<Rightarrow> task \<Rightarrow> bool" where
  "leaves can_prepare t \<longleftrightarrow> (is_render t \<longrightarrow> can_prepare t)"

definition sendable :: "(task \<Rightarrow> bool) \<Rightarrow> task list \<Rightarrow> task list" where
  "sendable can_prepare ts = filter is_render (takeWhile (leaves can_prepare) ts)"

lemma not_render_page_table_log: "filter is_render (all_page_table_log s) = []"
  by (auto simp: all_page_table_log_def page_table_log_def filter_empty_conv is_render_def
      is_page_table_def split: option.splits)

lemma submit_loop_correct:
  assumes "links_ok s" "submit_loop clk can_prepare ts s = (sub, n, rest, s')"
  shows "links_ok s' \<and> touches (members (Some page_table_set_pool) s) s s' \<and>
    (queues_ok X s \<longrightarrow> queues_ok X s') \<and> filter is_render sub = sendable can_prepare ts \<and>
    n = length (takeWhile (leaves can_prepare) ts) \<and> rest = dropWhile (leaves can_prepare) ts \<and>
    (drained s \<longrightarrow> drained s' \<and> (\<forall>t\<in>set sub. is_render t))"
  using assms
proof (induction ts arbitrary: s sub n)
  case Nil
  then show ?case by (simp add: sendable_def)
next
  case (Cons t ts)
  let ?P = "Some page_table_set_pool"
  obtain sub0 s0 where v: "vidschi_schedule_page_table_set_task clk s = (sub0, s0)" by force
  note pt = schedule_page_table_correct [OF Cons.prems(1) v]
  have m: "members ?P s0 = members ?P s" using pt(2) by (rule members_touches)
  show ?case
  proof (cases "leaves can_prepare t")
    case False
    then show ?thesis
      using Cons.prems(2) v pt all_page_table_log_drained [OF Cons.prems(1)] not_render_page_table_log
      by (auto simp: leaves_def is_render_def [of t] sendable_def)
  next
    case True
    obtain sub1 n1 where f: "submit_loop clk can_prepare ts s0 = (sub1, n1, rest, s')"
        and sub: "sub = sub0 @ (if is_render t then [t] else []) @ sub1" "n = Suc n1"
      using Cons.prems(2) v True
      by (auto simp: leaves_def is_render_def split: prod.splits if_splits)
    have IH: "links_ok s'" "touches (members ?P s0) s0 s'" "queues_ok X s0 \<longrightarrow> queues_ok X s'"
        "filter is_render sub1 = sendable can_prepare ts"
        "n1 = length (takeWhile (leaves can_prepare) ts)" "rest = dropWhile (leaves can_prepare) ts"
        "drained s0 \<longrightarrow> drained s' \<and> (\<forall>t\<in>set sub1. is_render t)"
      using Cons.IH [OF pt(1) f] by simp_all
    have "touches (members ?P s) s s'" using pt(2) IH(2) m by (simp add: touches_trans)
    moreover have "filter is_render sub = sendable can_prepare (t # ts)"
      using True IH(4) pt(4) not_render_page_table_log by (simp add: sub sendable_def)
    moreover have "drained s' \<and> (\<forall>t\<in>set sub. is_render t)" if "drained s"
      using that IH(7) pt(4,6) all_page_table_log_drained [OF Cons.prems(1)] by (auto simp: sub)
    ultimately show ?thesis using IH(1,3,5,6) pt(3) [of X] True by (simp add: sub(2) del: members.simps)
  qed
qed

lemma render_visit:
  assumes l: "links_ok s" and i: "i \<in> members (Some task_queue_list) s"
    and r: "vidschi_try_submit_task_queue clk can_prepare i s = (sub, s')"
  shows "links_ok s'" "touches ({i} \<union> members (Some page_table_set_pool) s) s s'"
    "queues_ok X s \<Longrightarrow> queues_ok X s'"
    "filter is_render sub = sendable can_prepare (tasks_of i s)"
    "tasks_of i s' = dropWhile (leaves can_prepare) (tasks_of i s)"
    "drained s \<Longrightarrow> drained s' \<and> (\<forall>t\<in>set sub. is_render t)"
proof -
  let ?P = "Some page_table_set_pool"
  obtain q where q: "qs_store s i = Some q" using i by auto
  define s1 where "s1 = upd_queue i (q\<lparr>tq_task_list := []\<rparr>) s"
  have sp: "splice_tasks i s = (tq_task_list q, s1)" using q by (simp add: splice_tasks_def s1_def)
  have ts: "tasks_of i s = tq_task_list q" using q by (simp add: tasks_of_def)
  obtain n rest s2 where f: "submit_loop clk can_prepare (tq_task_list q) s1 = (sub, n, rest, s2)"
      and s': "s' = requeue i rest n s2"
    using r sp by (auto simp: vidschi_try_submit_task_queue_def split: prod.splits)
  note p1 = splice_tasks_props [OF l sp]
  have m1: "members pid s1 = members pid s" for pid using p1(2) by (rule members_touches)
  have iP: "i \<notin> members ?P s" using i members_inter [of "Some task_queue_list" ?P s] by auto
  note p2 = submit_loop_correct [OF p1(1) f]
  have t2: "touches (members ?P s) s1 s2" using p2 m1 by simp
  have same: "qs_store s2 i = qs_store s1 i" using t2 iP by (rule touches_store)
  have m2: "members pid s2 = members pid s" for pid
    using members_touches [OF t2] m1 by simp
  show l': "links_ok s'" using p2 by (simp add: s' requeue_links)
  show t': "touches ({i} \<union> members ?P s) s s'"
    using p1(2) t2 requeue_touches [of i s2 rest n] unfolding s'
    by (meson Un_upper1 Un_upper2 touches_mono touches_trans)
  show "filter is_render sub = sendable can_prepare (tasks_of i s)" using p2 ts by simp
  show "queues_ok X s'" if ok: "queues_ok X s"
    unfolding s'
  proof (rule pass_queues_ok [OF sp same _ _ ok])
    show "tq_task_list q = takeWhile (leaves can_prepare) (tq_task_list q) @ rest" using p2 by simp
    show "queues_ok (X - {i}) s2"
      using ok touches_store [OF p1(2)] submit_loop_correct [OF p1(1) f, of "X - {i}"]
      by (auto simp: queues_ok_def)
  qed (use p2 in simp)
  show left: "tasks_of i s' = dropWhile (leaves can_prepare) (tasks_of i s)"
  proof -
    have "rest = dropWhile (leaves can_prepare) (tq_task_list q)" using p2 by simp
    then show ?thesis
      using requeue_store [of s2 i "q\<lparr>tq_task_list := []\<rparr>" rest n] same
      unfolding ts s' by (auto simp: s1_def tasks_of_def)
  qed
  show "drained s' \<and> (\<forall>t\<in>set sub. is_render t)" if d: "drained s"
  proof -
    have keep: "tasks_of j s1 = tasks_of j s" "tasks_of j s' = tasks_of j s2"
      if "j \<in> members ?P s" for j
    proof -
      have "j \<notin> {i}" using that iP by auto
      then show "tasks_of j s1 = tasks_of j s" "tasks_of j s' = tasks_of j s2"
        unfolding s' by (auto intro: tasks_of_touches [OF p1(2)] tasks_of_touches [OF requeue_touches])
    qed
    have "drained s1" using d keep unfolding drained_def m1 by metis
    then have "drained s2" "\<forall>t\<in>set sub. is_render t" using p2 by simp_all
    moreover have "members ?P s' = members ?P s" using t' by (rule members_touches)
    ultimately show ?thesis using keep m2 unfolding drained_def by metis
  qed
qed

interpretation render: queue_visit "vidschi_try_submit_task_queue clk can_prepare"
    task_queue_list "Some page_table_set_pool" is_render "sendable can_prepare"
    "dropWhile (leaves can_prepare)" for clk can_prepare
proof (unfold_locales, goal_cases)
  case 1
  then show ?case by simp
next
  case (2 s i sub s')
  show ?case by (rule render_visit(1) [OF 2])
next
  case (3 s i sub s')
  show ?case by (rule render_visit(2) [OF 3])
next
  case (4 s i sub s' X)
  show ?case by (rule render_visit(3) [OF 4])
next
  case (5 s i sub s')
  show ?case by (rule render_visit(4) [OF 5])
next
  case (6 s i sub s')
  show ?case by (rule render_visit(5) [OF 6])
qed

text \<open>The rendering tasks a round sends: by priority downwards, queue by queue, first-in first-out.\<close>

fun render_log :: "(task \<Rightarrow> bool) \<Rightarrow> nat \<Rightarrow> queue_state \<Rightarrow> task list" where
  "render_log can_prepare 0 s = []"
| "render_log can_prepare (Suc k) s =
     concat (map (\<lambda>i. sendable can_prepare (tasks_of i s)) (active_of task_queue_list k s)) @
     render_log can_prepare k s"

lemma render_log_cong:
  assumes "\<And>j. j < k \<Longrightarrow> active_of task_queue_list j s' = active_of task_queue_list j s"
    and "\<And>j i. j < k \<Longrightarrow> i \<in> set (active_of task_queue_list j s) \<Longrightarrow> tasks_of i s' = tasks_of i s"
  shows "render_log can_prepare k s' = render_log can_prepare k s"
  using assms
proof (induction k)
  case (Suc k)
  have "map (\<lambda>i. sendable can_prepare (tasks_of i s')) (active_of task_queue_list k s) =
      map (\<lambda>i. sendable can_prepare (tasks_of i s)) (active_of task_queue_list k s)"
    using Suc.prems(2) [of k] by simp
  moreover have "render_log can_prepare k s' = render_log can_prepare k s"
    using Suc.prems less_SucI by (intro Suc.IH) blast+
  ultimately show ?case using Suc.prems(1) [of k] by (simp del: map_eq_conv)
qed simp

lemma active_disjoint:
  assumes "links_ok s" "pid \<noteq> pid' \<or> k \<noteq> k'"
  shows "set (active_of pid k s) \<inter> set (active_of pid' k' s) = {}"
  using assms by (auto simp: active_of_iff)

lemma active_members_disjoint:
  "links_ok s \<Longrightarrow> pid \<noteq> pid' \<Longrightarrow> set (active_of pid k s) \<inter> members (Some pid') s = {}"
  by (auto simp: active_of_iff)

lemma render_log_touches_page_table:
  assumes "links_ok s" "touches (members (Some page_table_set_pool) s) s s'"
  shows "render_log can_prepare k s' = render_log can_prepare k s"
    "active_of task_queue_list j s' = active_of task_queue_list j s"
    "i \<in> set (active_of task_queue_list j s) \<Longrightarrow> tasks_of i s' = tasks_of i s"
proof -
  note d = active_members_disjoint [OF assms(1), of task_queue_list page_table_set_pool]
  show a: "active_of task_queue_list j s' = active_of task_queue_list j s" for j
    using d by (intro touches_active [OF assms(2)]) simp
  show t: "tasks_of i s' = tasks_of i s" if "i \<in> set (active_of task_queue_list j s)" for i j
    using d [of j] that by (intro tasks_of_touches [OF assms(2)]) auto
  show "render_log can_prepare k s' = render_log can_prepare k s"
    using a t by (intro render_log_cong)
qed

lemma for_queues_drained:
  assumes "links_ok s" "set is \<subseteq> members (Some task_queue_list) s" "drained s"
    "for_queues (vidschi_try_submit_task_queue clk can_prepare) is s = (sub, s')"
  shows "drained s' \<and> (\<forall>t\<in>set sub. is_render t)"
  using assms
proof (induction "is" arbitrary: s sub)
  case (Cons i "is")
  obtain sub1 s1 where v: "vidschi_try_submit_task_queue clk can_prepare i s = (sub1, s1)" by force
  obtain sub2 where f: "for_queues (vidschi_try_submit_task_queue clk can_prepare) is s1 = (sub2, s')"
      and sub: "sub = sub1 @ sub2"
    using Cons.prems(4) v by (auto split: prod.splits)
  have i: "i \<in> members (Some task_queue_list) s" using Cons.prems(2) by simp
  note st = render_visit [OF Cons.prems(1) i v]
  have "set is \<subseteq> members (Some task_queue_list) s1"
    using Cons.prems(2) members_touches [OF st(2)] by simp
  then show ?case
    using Cons.IH [OF st(1) _ _ f] st(6) [OF Cons.prems(3)] by (auto simp: sub)
qed simp

lemma schedule_priorities_correct:
  assumes "links_ok s" "schedule_priorities clk can_prepare k s = (sub, s')"
  shows "links_ok s' \<and> (queues_ok X s \<longrightarrow> queues_ok X s') \<and>
    filter is_render sub = render_log can_prepare k s \<and>
    (drained s \<longrightarrow> drained s' \<and> (\<forall>t\<in>set sub. is_render t))"
  using assms
proof (induction k arbitrary: s sub)
  case 0
  then show ?case by simp
next
  case (Suc k)
  let ?M = "task_queue_list"
  obtain sub0 s0 where v: "vidschi_schedule_page_table_set_task clk s = (sub0, s0)" by force
  note pt = schedule_page_table_correct [OF Suc.prems(1) v]
  let ?is = "active_of ?M k s0"
  obtain sub1 s1 where f: "for_queues (vidschi_try_submit_task_queue clk can_prepare) ?is s0 = (sub1, s1)"
    by force
  obtain sub2 where g: "schedule_priorities clk can_prepare k s1 = (sub2, s')"
      and sub: "sub = sub0 @ sub1 @ sub2"
    using Suc.prems(2) v f by (auto split: prod.splits)
  note fq = render.for_queues_correct [OF pt(1) distinct_active_of [OF pt(1)] active_of_members [OF pt(1)] f]
  have l1: "links_ok s1" and t1: "touches (set ?is \<union> members (Some page_table_set_pool) s0) s0 s1"
    and o1: "queues_ok X s0 \<Longrightarrow> queues_ok X s1"
    and sub1: "filter is_render sub1 = concat (map (\<lambda>i. sendable can_prepare (tasks_of i s0)) ?is)"
    using fq by simp_all
  have IH: "links_ok s'" "queues_ok X s1 \<Longrightarrow> queues_ok X s'"
      "filter is_render sub2 = render_log can_prepare k s1"
      "drained s1 \<Longrightarrow> drained s' \<and> (\<forall>t\<in>set sub2. is_render t)"
    using Suc.IH [OF l1 g] by simp_all
  have disj: "set (active_of ?M j s0) \<inter> (set ?is \<union> members (Some page_table_set_pool) s0) = {}"
    if "j < k" for j
    using that active_disjoint [OF pt(1), of ?M ?M j k]
      active_members_disjoint [OF pt(1), of ?M page_table_set_pool j] by auto
  have "render_log can_prepare k s1 = render_log can_prepare k s0"
    using disj by (intro render_log_cong touches_active [OF t1] tasks_of_touches [OF t1]) auto
  moreover have "filter is_render sub0 = []" using pt(4) not_render_page_table_log by simp
  ultimately have "filter is_render sub = render_log can_prepare (Suc k) s0"
    using IH(3) sub1 by (simp add: sub)
  then have "filter is_render sub = render_log can_prepare (Suc k) s"
    using render_log_touches_page_table(1) [OF Suc.prems(1) pt(2)] by simp
  moreover have "drained s' \<and> (\<forall>t\<in>set sub. is_render t)" if "drained s"
    using that IH(4) pt(4,6) all_page_table_log_drained [OF Suc.prems(1)]
      for_queues_drained [OF pt(1) active_of_members [OF pt(1)] _ f] by (auto simp: sub)
  ultimately show ?case using IH(1,2) o1 pt(3) [of X] by blast
qed

lemma schedule_inv:
  assumes "queue_inv s" "vidschi_schedule clk can_prepare s = (sub, s')"
  shows "queue_inv s'"
proof (cases "qs_pools s task_queue_list")
  case None
  then show ?thesis using assms by (simp add: vidschi_schedule_def)
next
  case (Some p)
  then have v: "schedule_priorities clk can_prepare (Suc (qp_max_priority p)) (zx_get_nsecs clk s) = (sub, s')"
    using assms(2) by (simp add: vidschi_schedule_def)
  show ?thesis
    using schedule_priorities_correct [OF _ v, of UNIV] assms(1) by (simp add: queue_inv_def)
qed

lemma schedule_split:
  assumes inv: "queue_inv s" and p: "qs_pools s task_queue_list = Some p"
    and r: "vidschi_schedule clk can_prepare s = (sub, s')"
  shows "\<exists>rest. sub = all_page_table_log s @ rest \<and> (\<forall>t\<in>set rest. is_render t) \<and>
    filter is_render sub = render_log can_prepare (Suc (qp_max_priority p)) s"
proof -
  let ?s0 = "zx_get_nsecs clk s" and ?k = "qp_max_priority p" and ?M = "task_queue_list"
  have l: "links_ok ?s0" and o: "queues_ok UNIV ?s0" using inv by (simp_all add: queue_inv_def)
  obtain sub0 s1 where v: "vidschi_schedule_page_table_set_task clk ?s0 = (sub0, s1)" by force
  note pt = schedule_page_table_correct [OF l v]
  obtain sub1 s2 where f: "for_queues (vidschi_try_submit_task_queue clk can_prepare) (active_of ?M ?k s1) s1 = (sub1, s2)"
    by force
  obtain sub2 where g: "schedule_priorities clk can_prepare ?k s2 = (sub2, s')"
      and sub: "sub = sub0 @ sub1 @ sub2"
    using r p v f by (auto simp: vidschi_schedule_def split: prod.splits)
  have l2: "links_ok s2"
    using render.for_queues_correct [OF pt(1) distinct_active_of [OF pt(1)] active_of_members [OF pt(1)] f]
    by blast
  have d1: "drained s1" using pt(5) o .
  have d2: "drained s2 \<and> (\<forall>t\<in>set sub1. is_render t)"
    by (rule for_queues_drained [OF pt(1) active_of_members [OF pt(1)] d1 f])
  have d3: "\<forall>t\<in>set sub2. is_render t"
    using schedule_priorities_correct [OF l2 g] d2 by blast
  have all: "schedule_priorities clk can_prepare (Suc ?k) ?s0 = (sub, s')"
    using r p by (simp add: vidschi_schedule_def)
  have "render_log can_prepare (Suc ?k) ?s0 = render_log can_prepare (Suc ?k) s"
    by (rule render_log_cong) simp_all
  then have "filter is_render sub = render_log can_prepare (Suc ?k) s"
    using schedule_priorities_correct [OF l all] by metis
  moreover have "all_page_table_log ?s0 = all_page_table_log s"
    by (simp add: all_page_table_log_def split: option.split)
  ultimately show ?thesis using d2 d3 pt(4) by (auto simp: sub)
qed

section \<open>Steps of the scheduler's queues\<close>

text \<open>The queues of an engine's scheduler (\<^verbatim>\<open>vidsch_create\<close>): one render queue per priority.\<close>

definition create_queue :: "pool_id \<Rightarrow> int \<Rightarrow> queue_state \<Rightarrow> queue_state call" where
  "create_queue pid k s =
     (case vidsch_task_queue_alloc 32 k s of
        (i, s1) \<Rightarrow>
          (case vidsch_task_queue_pool_add pid i s1 of
             Returns s2 \<Rightarrow> vidsch_task_queue_release i s2
           | Blocks \<Rightarrow> Blocks | Faults \<Rightarrow> Faults))"

fun create_queues :: "int list \<Rightarrow> queue_state \<Rightarrow> queue_state call" where
  "create_queues [] s = Returns s"
| "create_queues (k # ks) s =
     (case create_queue task_queue_list k s of
        Returns s' \<Rightarrow> create_queues ks s'
      | Blocks \<Rightarrow> Blocks | Faults \<Rightarrow> Faults)"

definition ZX_CONTEXT_PRIO_LOW :: nat where [simp]: "ZX_CONTEXT_PRIO_LOW = 0"

definition ZX_CONTEXT_PRIO_MAX :: nat where [simp]: "ZX_CONTEXT_PRIO_MAX = 3"

definition create_pools :: "nat \<Rightarrow> queue_state call" where
  "create_pools engine =
     (let s0 = \<lparr>qs_store = Map.empty,
                qs_pools = [task_queue_list \<mapsto> vidsch_task_queue_pool_alloc ZX_CONTEXT_PRIO_MAX],
                qs_next_id = 0, qs_current = 0, qs_ticks = 0\<rparr>
      in if engine = 0 then
           create_queue page_table_set_pool (int ZX_CONTEXT_PRIO_LOW)
             (s0\<lparr>qs_pools := (qs_pools s0)(page_table_set_pool \<mapsto>
                   vidsch_task_queue_pool_alloc ZX_CONTEXT_PRIO_LOW)\<rparr>)
         else Returns s0)"

definition vidsch_create_queues :: "nat \<Rightarrow> bool \<Rightarrow> queue_state call" where
  "vidsch_create_queues engine engine_schedule =
     (case create_pools engine of
        Returns s1 \<Rightarrow> if engine_schedule then create_queues (map int [0..<Suc ZX_CONTEXT_PRIO_MAX]) s1
                      else Returns s1
      | Blocks \<Rightarrow> Blocks | Faults \<Rightarrow> Faults)"

text \<open>
  The operations in any order, under the discipline of their callers: only an unpooled, empty queue
  enters a pool, a queue leaves the pool it is in, and the last reference of a queue is
  dropped when no pool holds it.
\<close>

inductive queue_step :: "queue_state \<Rightarrow> queue_state \<Rightarrow> bool" where
  step_alloc: "vidsch_task_queue_alloc max_num prio s = (i, s') \<Longrightarrow> queue_step s s'"
| step_get: "vidsch_task_queue_get i s = Returns s' \<Longrightarrow> queue_step s s'"
| step_release: "vidsch_task_queue_release i s = Returns s' \<Longrightarrow> qs_store s i = Some q \<Longrightarrow>
    tq_refcount q \<noteq> 1 \<or> tq_pool q = None \<Longrightarrow> queue_step s s'"
| step_pool_add: "vidsch_task_queue_pool_add pid i s = Returns s' \<Longrightarrow> qs_store s i = Some q \<Longrightarrow>
    tq_pool q = None \<Longrightarrow> tq_task_list q = [] \<Longrightarrow> queue_step s s'"
| step_pool_remove: "vidsch_task_queue_pool_remove pid i s = Returns s' \<Longrightarrow> qs_store s i = Some q \<Longrightarrow>
    tq_pool q = Some pid \<Longrightarrow> queue_step s s'"
| step_add: "vidsch_task_queue_add i t s = Returns s' \<Longrightarrow> queue_step s s'"
| step_deactive: "queue_step s (vidsch_task_queue_try_deactive i c s)"
| step_schedule: "vidschi_schedule clk can_prepare s = (sub, s') \<Longrightarrow> queue_step s s'"

inductive queue_reach :: "queue_state \<Rightarrow> bool" where
  reach_create: "vidsch_create_queues engine engine_schedule = Returns s \<Longrightarrow> queue_reach s"
| reach_step: "queue_reach s \<Longrightarrow> queue_step s s' \<Longrightarrow> queue_reach s'"

lemma links_ok_alloc:
  assumes "links_ok s" "vidsch_task_queue_alloc n k s = (i, s')"
  shows "links_ok s'"
proof -
  have fresh: "qs_store s (qs_next_id s) = None"
    using links_ok_queue(1) [OF assms(1), of "qs_next_id s"] by fastforce
  show ?thesis
  proof (rule links_okI)
    fix pid p assume "qs_pools s' pid = Some p"
    then have "pool_ok s pid p"
      using assms by (auto simp: vidsch_task_queue_alloc_def Let_def intro: links_ok_pool)
    then show "pool_ok s' pid p"
      using assms(2) fresh
      by (auto simp: vidsch_task_queue_alloc_def Let_def pool_ok_def split: if_splits)
  qed (use links_ok_queue [OF assms(1)] assms(2) in
      \<open>auto simp: vidsch_task_queue_alloc_def Let_def less_Suc_eq split: if_splits\<close>)
qed

lemma clamp_priority_bounds [simp]:
  "0 \<le> clamp_priority m k" "clamp_priority m k \<le> int m"
  by (simp_all add: clamp_priority_def)

lemma links_ok_pool_add:
  assumes l: "links_ok s" and r: "vidsch_task_queue_pool_add pid i s = Returns s'"
    and q: "qs_store s i = Some q" "tq_pool q = None"
  shows "links_ok s'"
proof -
  obtain p where p: "qs_pools s pid = Some p" using r q
    by (auto simp: vidsch_task_queue_pool_add_def split: option.splits)
  have na: "\<not> tq_active q" using links_ok_queue(2) [OF l q(1)] q(2) by auto
  have pools: "qs_pools s' = (qs_pools s)(pid \<mapsto>
      p\<lparr>qp_queue_list := qp_queue_list p @ [i], qp_queue_num := qp_queue_num p + 1\<rparr>)"
    using r q p by (auto simp: vidsch_task_queue_pool_add_def)
  obtain q' where st: "qs_store s' = (qs_store s)(i \<mapsto> q')" "tq_pool q' = Some pid" "\<not> tq_active q'"
      "0 \<le> tq_priority q'" "tq_priority q' \<le> int (qp_max_priority p)" "qs_next_id s' = qs_next_id s"
    using r q p na by (auto simp: vidsch_task_queue_pool_add_def)
  show ?thesis
  proof (rule links_okI)
    fix pid' p' assume p': "qs_pools s' pid' = Some p'"
    show "pool_ok s' pid' p'"
    proof (cases "pid' = pid")
      case True
      then show ?thesis
        using p' pools links_ok_pool [OF l p] q st by (auto simp: pool_ok_def split: if_splits)
    next
      case False
      then have "qs_pools s pid' = Some p'" using p' pools by simp
      then show ?thesis
        using False q st by (intro pool_ok_other [OF links_ok_pool [OF l] q(1) _ st(1)]) auto
    qed
  qed (use links_ok_queue [OF l] st q pools in \<open>auto split: if_splits\<close>)
qed

lemma active_del_queue_list:
  "active_del k i (p\<lparr>qp_queue_list := xs, qp_queue_num := n\<rparr>) =
   (active_del k i p)\<lparr>qp_queue_list := xs, qp_queue_num := n\<rparr>"
  by (cases p) (simp add: active_del_def)

lemma pool_ok_unlink:
  assumes ok: "pool_ok s pid p" and q: "qs_store s i = Some q" "tq_pool q = Some pid" "\<not> tq_active q"
    and s': "qs_store s' = (qs_store s)(i \<mapsto> q')" "tq_pool q' = None"
  shows "pool_ok s' pid (p\<lparr>qp_queue_list := remove1 i (qp_queue_list p),
    qp_queue_num := qp_queue_num p - 1\<rparr>)"
proof -
  have "i \<in> set (qp_queue_list p)" using ok q by (auto simp: pool_ok_def)
  then show ?thesis
    using ok q s' by (auto simp: pool_ok_def length_remove1 distinct_remove1 split: if_splits)
qed

lemma links_ok_pool_remove:
  assumes l: "links_ok s" and r: "vidsch_task_queue_pool_remove pid i s = Returns s'"
    and q: "qs_store s i = Some q" "tq_pool q = Some pid"
  shows "links_ok s'"
proof -
  obtain p where p: "qs_pools s pid = Some p" using r q
    by (auto simp: vidsch_task_queue_pool_remove_def split: option.splits)
  have st: "qs_store s' = (qs_store s)(i \<mapsto> q\<lparr>tq_active := False, tq_pool := None\<rparr>)"
    "qs_next_id s' = qs_next_id s"
    using r q p by (auto simp: vidsch_task_queue_pool_remove_def Let_def)
  have pools: "qs_pools s' = (qs_pools s)(pid \<mapsto>
      (if tq_active q then active_del (tq_priority q) i else id)
        (p\<lparr>qp_queue_list := remove1 i (qp_queue_list p), qp_queue_num := qp_queue_num p - 1\<rparr>))"
    using r q p by (auto simp: vidsch_task_queue_pool_remove_def Let_def)
  note ok = links_ok_pool [OF l p]
  show ?thesis
  proof (rule links_okI)
    fix pid' p' assume p': "qs_pools s' pid' = Some p'"
    show "pool_ok s' pid' p'"
    proof (cases "pid' = pid")
      case True
      show ?thesis
      proof (cases "tq_active q")
        case False
        then show ?thesis
          using p' True pools st(1) by (auto intro: pool_ok_unlink [OF ok q False, simplified])
      next
        case act: True
        let ?m = "upd_queue i (q\<lparr>tq_active := False\<rparr>) s"
        have "pool_ok ?m pid (active_del (tq_priority q) i p)"
          by (rule pool_ok_deactivate [OF ok q act]) simp
        from pool_ok_unlink [OF this, of i "q\<lparr>tq_active := False\<rparr>" s' "q\<lparr>tq_active := False, tq_pool := None\<rparr>"]
        show ?thesis using p' True pools st(1) act q by (auto simp: active_del_queue_list)
      qed
    next
      case False
      then show ?thesis
        using p' pools l q st by (intro pool_ok_other [OF links_ok_pool [OF l] q(1)]) auto
    qed
  qed (use links_ok_queue [OF l] st q pools in \<open>auto split: if_splits\<close>)
qed

lemma links_ok_release:
  assumes l: "links_ok s" and q: "qs_store s i = Some q" and r: "vidsch_task_queue_release i s = Returns s'"
    and free: "tq_refcount q \<noteq> 1 \<or> tq_pool q = None"
  shows "links_ok s'"
proof (cases "tq_refcount q = 1")
  case False
  then show ?thesis
    using r q l by (auto simp: vidsch_task_queue_release_def intro: upd_queue_links)
next
  case True
  then have s': "s' = s\<lparr>qs_store := (qs_store s)(i := None)\<rparr>" and u: "tq_pool q = None"
    using r q free by (auto simp: vidsch_task_queue_release_def)
  show ?thesis
  proof (rule links_okI)
    fix pid p assume "qs_pools s' pid = Some p"
    then have "pool_ok s pid p" using l by (simp add: s' links_ok_pool)
    then show "pool_ok s' pid p" using q u by (auto simp: s' pool_ok_def)
  qed (use links_ok_queue [OF l] in \<open>auto simp: s' split: if_splits\<close>)
qed

lemma queues_ok_upd:
  "queues_ok X s \<Longrightarrow> qs_store s' = (qs_store s)(i \<mapsto> q') \<Longrightarrow> queue_ok q' \<Longrightarrow> queues_ok X s'"
  by (auto simp: queues_ok_def)

lemma queues_ok_queue: "queues_ok UNIV s \<Longrightarrow> qs_store s i = Some q \<Longrightarrow> queue_ok q"
  by (simp add: queues_ok_def)

lemma add_inv:
  assumes inv: "queue_inv s" and r: "vidsch_task_queue_add i t s = Returns s'"
  shows "queue_inv s'"
proof -
  have l: "links_ok s" and ok: "queues_ok UNIV s" using inv by (simp_all add: queue_inv_def)
  obtain q where q: "qs_store s i = Some q" "tq_sema q \<noteq> 0"
    using r by (auto simp: vidsch_task_queue_add_def split: option.splits if_splits)
  define q1 where "q1 = q\<lparr>tq_sema := tq_sema q - 1, tq_task_list := tq_task_list q @ [t],
      tq_task_num := tq_task_num q + 1\<rparr>"
  have okq: "queue_ok q" using ok q(1) by (rule queues_ok_queue)
  have ok1: "queue_ok q1" if "tq_active q"
    using okq q(2) that by (simp add: q1_def queue_ok_def)
  have ok2: "queue_ok (q1\<lparr>tq_active := True\<rparr>)"
    using okq q(2) by (simp add: q1_def queue_ok_def)
  show ?thesis
  proof (cases "tq_active q")
    case True
    then have s': "s' = upd_queue i q1 s"
      using r q by (auto simp: vidsch_task_queue_add_def q1_def)
    have "links_ok s'" using l q unfolding s' by (rule_tac upd_queue_links) (auto simp: q1_def)
    moreover have "queues_ok UNIV s'"
      by (rule queues_ok_upd [OF ok _ ok1 [OF True]]) (simp add: s')
    ultimately show ?thesis by (simp add: queue_inv_def)
  next
    case False
    then obtain pid where pid: "tq_pool q = Some pid" and
        s': "s' = upd_pool pid (active_add (tq_priority q) i) (upd_queue i (q1\<lparr>tq_active := True\<rparr>) s)"
      using r q by (auto simp: vidsch_task_queue_add_def q1_def Let_def split: option.splits)
    have "links_ok s'"
      unfolding s' by (rule activate_links [OF l q(1) pid False]) (simp_all add: q1_def pid)
    moreover have "queues_ok UNIV s'"
      by (rule queues_ok_upd [OF ok _ ok2]) (simp add: s')
    ultimately show ?thesis by (simp add: queue_inv_def)
  qed
qed

lemma try_deactive_queues_ok:
  assumes "queues_ok X s" shows "queues_ok X (vidsch_task_queue_try_deactive i c s)"
  unfolding queues_ok_def
proof (intro ballI allI impI)
  fix j q assume j: "j \<in> X" "qs_store (vidsch_task_queue_try_deactive i c s) j = Some q"
  show "queue_ok q"
  proof (cases "j = i \<and> qs_store s i \<noteq> None")
    case True
    then obtain q0 where q0: "qs_store s i = Some q0" by auto
    then have "queue_ok q0" using assms j True by (auto simp: queues_ok_def)
    then show ?thesis using try_deactive_store [OF q0, of c] j True by (auto simp: queue_ok_def)
  next
    case False
    then have "qs_store s j = Some q"
      using j touches_store [OF try_deactive_touches [of i s c], of j]
      by (cases "j = i") (auto simp: vidsch_task_queue_try_deactive_def)
    then show ?thesis using assms j(1) by (auto simp: queues_ok_def)
  qed
qed

lemma queue_step_inv: "queue_step s s' \<Longrightarrow> queue_inv s \<Longrightarrow> queue_inv s'"
proof (induction rule: queue_step.induct)
  case (step_alloc n k s i s')
  have "queues_ok UNIV s'" if "queues_ok UNIV s"
    using that step_alloc
    by (intro queues_ok_upd [OF that]) (auto simp: vidsch_task_queue_alloc_def Let_def queue_ok_def)
  then show ?case using links_ok_alloc [OF _ step_alloc.hyps] step_alloc.prems by (simp add: queue_inv_def)
next
  case (step_get i s s')
  then obtain q where q: "qs_store s i = Some q" "s' = upd_queue i (q\<lparr>tq_refcount := tq_refcount q + 1\<rparr>) s"
    by (auto simp: vidsch_task_queue_get_def split: option.splits)
  have "queues_ok UNIV s'" if "queues_ok UNIV s"
    using q queues_ok_queue [OF that q(1)] by (intro queues_ok_upd [OF that, of _ i "q\<lparr>tq_refcount := tq_refcount q + 1\<rparr>"]) (auto simp: queue_ok_def)
  then show ?case using step_get.prems q by (auto simp: queue_inv_def intro: upd_queue_links)
next
  case (step_release i s s' q)
  have "queues_ok UNIV s'" if "queues_ok UNIV s"
  proof (cases "tq_refcount q = 1")
    case True
    then show ?thesis
      using step_release that by (auto simp: vidsch_task_queue_release_def queues_ok_def split: if_splits)
  next
    case False
    then show ?thesis
      using step_release queues_ok_queue [OF that step_release.hyps(2)]
      by (intro queues_ok_upd [OF that, of _ i "q\<lparr>tq_refcount := tq_refcount q - 1\<rparr>"])
        (auto simp: vidsch_task_queue_release_def queue_ok_def)
  qed
  then show ?case
    using links_ok_release [OF _ step_release.hyps(2,1,3)] step_release.prems by (simp add: queue_inv_def)
next
  case (step_pool_add pid i s s' q)
  have "queues_ok UNIV s'" if "queues_ok UNIV s"
    using step_pool_add queues_ok_queue [OF that step_pool_add.hyps(2)]
    by (auto simp: vidsch_task_queue_pool_add_def queue_ok_def split: option.splits
        intro!: queues_ok_upd [OF that])
  then show ?case
    using links_ok_pool_add [OF _ step_pool_add.hyps(1,2,3)] step_pool_add.prems by (simp add: queue_inv_def)
next
  case (step_pool_remove pid i s s' q)
  have "queues_ok UNIV s'" if "queues_ok UNIV s"
  proof (rule queues_ok_upd [OF that])
    show "qs_store s' = (qs_store s)(i \<mapsto> q\<lparr>tq_active := False, tq_pool := None\<rparr>)"
      using step_pool_remove.hyps
      by (auto simp: vidsch_task_queue_pool_remove_def Let_def split: option.splits)
    show "queue_ok (q\<lparr>tq_active := False, tq_pool := None\<rparr>)"
      using queues_ok_queue [OF that step_pool_remove.hyps(2)] by (simp add: queue_ok_def)
  qed
  then show ?case
    using links_ok_pool_remove [OF _ step_pool_remove.hyps] step_pool_remove.prems by (simp add: queue_inv_def)
next
  case (step_add i t s s')
  then show ?case using add_inv by blast
next
  case (step_deactive s i c)
  then show ?case by (simp add: queue_inv_def try_deactive_links try_deactive_queues_ok)
next
  case (step_schedule clk can_prepare s sub s')
  then show ?case using schedule_inv by blast
qed

lemma queue_inv_pools_only:
  assumes "\<And>pid p. qs_pools s pid = Some p \<Longrightarrow> \<exists>m. p = vidsch_task_queue_pool_alloc m"
    and "qs_store s = Map.empty"
  shows "queue_inv s"
  using assms
  by (fastforce simp: queue_inv_def links_ok_def pool_ok_def queues_ok_def vidsch_task_queue_pool_alloc_def)

lemma create_queue_inv:
  assumes inv: "queue_inv s" and r: "create_queue pid k s = Returns s'"
  shows "queue_inv s'"
proof -
  obtain i s1 where a: "vidsch_task_queue_alloc 32 k s = (i, s1)" by force
  obtain s2 where b: "vidsch_task_queue_pool_add pid i s1 = Returns s2"
      and c: "vidsch_task_queue_release i s2 = Returns s'"
    using r a by (auto simp: create_queue_def split: call.splits)
  obtain q1 where q1: "qs_store s1 i = Some q1" "tq_pool q1 = None" "tq_task_list q1 = []" "tq_refcount q1 = 1"
    using a by (auto simp: vidsch_task_queue_alloc_def Let_def)
  obtain q2 where q2: "qs_store s2 i = Some q2" "tq_refcount q2 = 2"
    using b q1 by (auto simp: vidsch_task_queue_pool_add_def split: option.splits)
  have "queue_step s s1" "queue_step s1 s2" "queue_step s2 s'"
    using step_alloc [OF a] step_pool_add [OF b q1(1-3)] step_release [OF c q2(1)] q2(2) by auto
  then show ?thesis using inv queue_step_inv by blast
qed

lemma create_queues_inv: "queue_inv s \<Longrightarrow> create_queues ks s = Returns s' \<Longrightarrow> queue_inv s'"
  by (induction ks arbitrary: s) (auto split: call.splits intro: create_queue_inv)

lemma create_pools_inv:
  assumes "create_pools engine = Returns s" shows "queue_inv s"
proof (cases "engine = 0")
  case True
  show ?thesis
    using assms unfolding create_pools_def Let_def if_P [OF True]
    by (rule create_queue_inv [rotated]) (rule queue_inv_pools_only; auto split: if_splits)
next
  case False
  then show ?thesis
    using assms by (auto simp: create_pools_def Let_def split: if_splits intro!: queue_inv_pools_only)
qed

lemma vidsch_create_queues_inv: "vidsch_create_queues engine engine_schedule = Returns s \<Longrightarrow> queue_inv s"
  unfolding vidsch_create_queues_def
  by (auto split: call.splits if_splits intro: create_pools_inv create_queues_inv simp del: upt_Suc)

lemma queue_reach_inv: "queue_reach s \<Longrightarrow> queue_inv s"
  by (induction rule: queue_reach.induct) (auto intro: vidsch_create_queues_inv queue_step_inv)

lemma count_list_distinct: "distinct xs \<Longrightarrow> x \<in> set xs \<Longrightarrow> count_list xs x = 1"
  by (induction xs) auto

text \<open>A sample state: one queue of priority 2 with one rendering task.\<close>

definition sample_task :: task where
  "sample_task = \<lparr>tk_id = 7, tk_type = task_render\<rparr>"

definition sample_queue :: task_queue where
  "sample_queue = \<lparr>tq_priority = 2, tq_refcount = 2, tq_active = True, tq_last_active = 0,
     tq_task_list = [sample_task], tq_task_num = 1, tq_max_num = 32, tq_sema = 31,
     tq_pool = Some task_queue_list\<rparr>"

definition sample_pool :: queue_pool where
  "sample_pool = \<lparr>qp_queue_num = 1, qp_max_priority = 3, qp_queue_list = [0],
     qp_active_list = (\<lambda>_. [])(2 := [0])\<rparr>"

definition sample_queues :: queue_state where
  "sample_queues = \<lparr>qs_store = [0 \<mapsto> sample_queue], qs_pools = [task_queue_list \<mapsto> sample_pool],
     qs_next_id = 1, qs_current = 0, qs_ticks = 0\<rparr>"

lemma sample_queues_reach: "queue_reach sample_queues"
proof -
  let ?s0 = "\<lparr>qs_store = Map.empty, qs_pools = [task_queue_list \<mapsto> vidsch_task_queue_pool_alloc 3],
    qs_next_id = 0, qs_current = 0, qs_ticks = 0\<rparr>"
  obtain s1 where s1: "vidsch_task_queue_alloc 32 2 ?s0 = (0, s1)"
    by (simp add: vidsch_task_queue_alloc_def)
  obtain s2 where s2: "vidsch_task_queue_pool_add task_queue_list 0 s1 = Returns s2"
    using s1 by (auto simp: vidsch_task_queue_alloc_def vidsch_task_queue_pool_add_def Let_def)
  have s3: "vidsch_task_queue_add 0 sample_task s2 = Returns sample_queues"
    using s1 s2
    by (auto simp: vidsch_task_queue_alloc_def vidsch_task_queue_pool_add_def Let_def clamp_priority_def
        vidsch_task_queue_add_def vidsch_task_queue_pool_alloc_def upd_pool_def active_add_def
        sample_queues_def sample_queue_def sample_pool_def)
  have "queue_reach ?s0"
    by (rule reach_create [of 1 False]) (simp add: vidsch_create_queues_def create_pools_def)
  then have "queue_reach s1" using step_alloc [OF s1] by (rule reach_step)
  moreover obtain q where "qs_store s1 0 = Some q" "tq_pool q = None" "tq_task_list q = []"
    using s1 by (auto simp: vidsch_task_queue_alloc_def Let_def)
  ultimately have "queue_reach s2" using reach_step step_pool_add [OF s2] by blast
  then show ?thesis using step_add [OF s3] by (rule reach_step)
qed

lemmas sample_defs = sample_queues_def sample_queue_def sample_pool_def sample_task_def

section \<open>Properties\<close>

text \<open>
  C4. No queued task is lost to the worker thread: in every state reachable from the creation of
  the queues by any sequence of the queue operations, a queue of a pool that holds a task
  stands exactly once on the active list of its priority, which is one of those the worker
  thread visits; and its task count and the room left on its semaphore are exact, so it never
  holds more than its maximum.
\<close>

theorem queue_task_not_lost:
  assumes "queue_reach s" "qs_store s i = Some q" "tq_pool q = Some pid" "tq_task_list q \<noteq> []"
  shows "\<exists>p. qs_pools s pid = Some p \<and> tq_priority q \<in> {0..int (qp_max_priority p)} \<and>
      count_list (qp_active_list p (nat (tq_priority q))) i = 1 \<and>
      tq_task_num q = length (tq_task_list q) \<and>
      tq_sema q + length (tq_task_list q) = tq_max_num q"
proof -
  have l: "links_ok s" and ok: "queue_ok q"
    using queue_reach_inv [OF assms(1)] assms(2) by (auto simp: queue_inv_def intro: queues_ok_queue)
  obtain p where p: "qs_pools s pid = Some p"
    using links_ok_queue(3) [OF l assms(2,3)] by auto
  note pok = links_ok_pool [OF l p]
  have act: "tq_active q" using ok assms(3,4) by (simp add: queue_ok_def)
  have prio: "0 \<le> tq_priority q" "tq_priority q \<le> int (qp_max_priority p)"
    using pok assms(2,3) by (auto simp: pool_ok_def)
  have "i \<in> set (qp_active_list p (nat (tq_priority q)))" "distinct (qp_active_list p (nat (tq_priority q)))"
    using pok assms(2,3) act prio by (auto simp: pool_ok_def)
  then have "count_list (qp_active_list p (nat (tq_priority q))) i = 1"
    by (simp add: count_list_distinct)
  then show ?thesis using p prio ok by (simp add: queue_ok_def)
qed

theorem queue_task_not_lost_witness:
  "\<exists>p. qs_pools sample_queues task_queue_list = Some p \<and> count_list (qp_active_list p 2) 0 = 1"
  using queue_task_not_lost [OF sample_queues_reach, of 0 sample_queue task_queue_list]
  by (auto simp: sample_defs)

text \<open>
  C9. One round of the worker thread, from any reachable state: the page table updates queued
  at its start are sent first, all of them and in queue order; after them only rendering is
  sent, and the rendering tasks are, from the highest priority to the lowest and queue by queue,
  the longest prefix of each active queue that the engine can take, in first-in first-out order.
\<close>

theorem vidschi_schedule_order:
  assumes "queue_reach s" "qs_pools s task_queue_list = Some p"
    "vidschi_schedule clk can_prepare s = (sub, s')"
  shows "\<exists>rest. sub = all_page_table_log s @ rest \<and> (\<forall>t\<in>set rest. is_render t) \<and>
    rest = render_log can_prepare (Suc (qp_max_priority p)) s"
proof -
  obtain rest where r: "sub = all_page_table_log s @ rest" "\<forall>t\<in>set rest. is_render t"
      "filter is_render sub = render_log can_prepare (Suc (qp_max_priority p)) s"
    using schedule_split [OF queue_reach_inv [OF assms(1)] assms(2,3)] by blast
  have "filter is_render rest = rest" using r(2) by (simp add: filter_id_conv)
  then show ?thesis using r not_render_page_table_log by auto
qed

theorem vidschi_schedule_order_witness:
  "fst (vidschi_schedule (\<lambda>_. 5) (\<lambda>_. True) sample_queues) = [sample_task]"
proof -
  obtain sub s' where r: "vidschi_schedule (\<lambda>_. 5) (\<lambda>_. True) sample_queues = (sub, s')" by force
  have "sub = all_page_table_log sample_queues @ render_log (\<lambda>_. True) (Suc 3) sample_queues"
    using vidschi_schedule_order [OF sample_queues_reach _ r, of sample_pool] by (auto simp: sample_defs)
  then have "sub = [sample_task]"
    by (simp add: all_page_table_log_def numeral_3_eq_3 active_of_def tasks_of_def sendable_def
        leaves_def is_render_def sample_defs)
  then show ?thesis by (simp add: r)
qed

text \<open>
  A context of a shared scheduler returns what it took: after \<open>vidsch_init_task_queue\<close> and
  \<open>vidsch_deinit_task_queue\<close> the queues, their reference counts and the pools are as before.
\<close>

theorem context_queue_roundtrip:
  assumes "vidsch_init_task_queue True cx s = Returns (cx1, s1)"
    "cx_task_queue cx = None" "cx_page_table_set_task_queue cx = None"
    "\<forall>i q. qs_store s i = Some q \<longrightarrow> 0 < tq_refcount q"
  shows "vidsch_deinit_task_queue True cx1 s1 = Returns (cx, s)"
proof -
  obtain p where p: "qs_pools s task_queue_list = Some p"
    using assms(1) by (auto simp: vidsch_init_task_queue_def split: option.splits)
  show ?thesis
  proof (cases "find_queue s (cx_priority cx) (qp_queue_list p)")
    case None
    then show ?thesis
      using assms p by (cases cx) (auto simp: vidsch_init_task_queue_def vidsch_deinit_task_queue_def release_opt_def)
  next
    case (Some i)
    then obtain q where q: "qs_store s i = Some q" "cx1 = cx\<lparr>cx_task_queue := Some i\<rparr>"
        "s1 = upd_queue i (q\<lparr>tq_refcount := tq_refcount q + 1\<rparr>) s"
      using assms(1) p
      by (auto simp: vidsch_init_task_queue_def vidsch_task_queue_get_def split: option.splits)
    have "(qs_store s)(i \<mapsto> q) = qs_store s" "tq_refcount q \<noteq> 0" using q(1) assms(4) by fastforce+
    then show ?thesis
      using q assms(2,3)
      by (cases cx) (auto simp: vidsch_deinit_task_queue_def vidsch_task_queue_release_def release_opt_def)
  qed
qed

theorem context_queue_roundtrip_witness:
  "\<exists>cx1 s1. vidsch_init_task_queue True
       \<lparr>cx_priority = 2, cx_task_queue = None, cx_page_table_set_task_queue = None\<rparr> sample_queues =
         Returns (cx1, s1) \<and> cx_task_queue cx1 = Some 0 \<and>
     vidsch_deinit_task_queue True cx1 s1 =
       Returns (\<lparr>cx_priority = 2, cx_task_queue = None, cx_page_table_set_task_queue = None\<rparr>, sample_queues)"
proof -
  let ?cx = "\<lparr>cx_priority = 2, cx_task_queue = None, cx_page_table_set_task_queue = None\<rparr>"
  obtain cx1 s1 where r: "vidsch_init_task_queue True ?cx sample_queues = Returns (cx1, s1)" "cx_task_queue cx1 = Some 0"
    by (auto simp: vidsch_init_task_queue_def vidsch_task_queue_get_def sample_defs)
  have "\<forall>i q. qs_store sample_queues i = Some q \<longrightarrow> 0 < tq_refcount q"
    by (auto simp: sample_defs split: if_splits)
  then show ?thesis using context_queue_roundtrip [OF r(1)] r by auto
qed

text \<open>
  A scheduler with a queue per context (\<open>engine_schedule\<close> false) never frees that queue: the pool
  takes a reference in \<open>vidsch_task_queue_pool_add\<close> that \<open>vidsch_task_queue_pool_remove\<close> does not give
  back, so after \<open>vidsch_deinit_task_queue\<close> the queue is still allocated, outside every pool
  and with no context that could release it.
\<close>

theorem context_queue_leaks:
  assumes "vidsch_init_task_queue False cx s = Returns (cx1, s1)"
    "cx_page_table_set_task_queue cx = None"
  shows "\<exists>cx2 s2 q. vidsch_deinit_task_queue False cx1 s1 = Returns (cx2, s2) \<and>
    qs_store s2 (qs_next_id s) = Some q \<and> tq_refcount q = 1 \<and> tq_pool q = None \<and>
    cx_task_queue cx2 = None"
proof -
  obtain p where p: "qs_pools s task_queue_list = Some p"
    using assms(1) by (auto simp: vidsch_init_task_queue_def vidsch_task_queue_alloc_def Let_def
        vidsch_task_queue_pool_add_def split: option.splits)
  show ?thesis
    using assms p
    by (auto simp: vidsch_init_task_queue_def vidsch_task_queue_alloc_def Let_def
        vidsch_task_queue_pool_add_def vidsch_deinit_task_queue_def vidsch_task_queue_pool_remove_def
        vidsch_task_queue_release_def release_opt_def)
qed


theorem context_queue_leaks_witness:
  "\<exists>cx1 s1 cx2 s2. vidsch_init_task_queue False
       \<lparr>cx_priority = 1, cx_task_queue = None, cx_page_table_set_task_queue = None\<rparr> sample_queues =
         Returns (cx1, s1) \<and>
     vidsch_deinit_task_queue False cx1 s1 = Returns (cx2, s2) \<and> qs_store s2 1 \<noteq> None"
proof -
  let ?cx = "\<lparr>cx_priority = 1, cx_task_queue = None, cx_page_table_set_task_queue = None\<rparr>"
  obtain cx1 s1 where r: "vidsch_init_task_queue False ?cx sample_queues = Returns (cx1, s1)"
    by (auto simp: vidsch_init_task_queue_def vidsch_task_queue_alloc_def Let_def
        vidsch_task_queue_pool_add_def sample_defs)
  have "qs_next_id sample_queues = 1" by (simp add: sample_defs)
  then show ?thesis using context_queue_leaks [OF r] r by fastforce
qed

end
