(* ===== verification/Linked_List.thy ===== *)
theory Linked_List
  imports Prelude
begin

text \<open>
  The intrusive circular lists of \<^verbatim>\<open>core/util/list.h\<close> that every component of the core links its
  objects with. The store has one function per field of \<^verbatim>\<open>struct list_head\<close>, so an assignment to
  \<^verbatim>\<open>item->next\<close> is a function update at \<open>item\<close>; the null pointer is address 0. The
  operations are transcribed assignment by assignment, and a ring of pointers is related to the
  HOL list of its entries. The other theories of the development use HOL lists for these objects;
  the refinement results here are what justifies that, including the traversal that deletes
  the entry it stands on.
\<close>

section \<open>Operations\<close>

type_synonym addr = nat

record list_heap =
  prev :: "addr \<Rightarrow> addr"
  nxt :: "addr \<Rightarrow> addr"

definition set_prev :: "addr \<Rightarrow> addr \<Rightarrow> list_heap \<Rightarrow> list_heap" where
  "set_prev a v h = h\<lparr>prev := (prev h)(a := v)\<rparr>"

definition set_next :: "addr \<Rightarrow> addr \<Rightarrow> list_heap \<Rightarrow> list_heap" where
  "set_next a v h = h\<lparr>nxt := (nxt h)(a := v)\<rparr>"

definition list_init_head :: "addr \<Rightarrow> list_heap \<Rightarrow> list_heap" where
  "list_init_head item h = set_next item item (set_prev item item h)"

definition list_add :: "addr \<Rightarrow> addr \<Rightarrow> list_heap \<Rightarrow> list_heap" where
  "list_add item lst h =
     (let h1 = set_prev item lst h;
          h2 = set_next item (nxt h1 lst) h1;
          h3 = set_prev (nxt h2 lst) item h2
      in set_next lst item h3)"

definition list_add_tail :: "addr \<Rightarrow> addr \<Rightarrow> list_heap \<Rightarrow> list_heap" where
  "list_add_tail item lst h =
     (let h1 = set_next item lst h;
          h2 = set_prev item (prev h1 lst) h1;
          h3 = set_next (prev h2 lst) item h2
      in set_prev lst item h3)"

definition list_replace :: "addr \<Rightarrow> addr \<Rightarrow> list_heap \<Rightarrow> list_heap" where
  "list_replace old to h =
     (let h1 = set_prev to (prev h old) h;
          h2 = set_next to (nxt h1 old) h1;
          h3 = set_prev (nxt h2 old) to h2
      in set_next (prev h3 old) to h3)"

definition list_del :: "addr \<Rightarrow> list_heap \<Rightarrow> list_heap" where
  "list_del item h =
     (let h1 = set_next (prev h item) (nxt h item) h;
          h2 = set_prev (nxt h1 item) (prev h1 item) h1
      in set_next item 0 (set_prev item 0 h2))"

definition list_del_init :: "addr \<Rightarrow> list_heap \<Rightarrow> list_heap" where
  "list_del_init item h =
     (let h1 = set_next (prev h item) (nxt h item) h;
          h2 = set_prev (nxt h1 item) (prev h1 item) h1
      in set_prev item item (set_next item item h2))"

definition list_empty :: "addr \<Rightarrow> list_heap \<Rightarrow> bool" where
  "list_empty item h \<longleftrightarrow> nxt h item = item"

definition list_del_entry :: "addr \<Rightarrow> list_heap \<Rightarrow> list_heap" where
  "list_del_entry e h =
     (let p = prev h e; n = nxt h e in set_next p n (set_prev n p h))"

definition list_move :: "addr \<Rightarrow> addr \<Rightarrow> list_heap \<Rightarrow> list_heap" where
  "list_move e head h = list_add e head (list_del_entry e h)"

definition list_move_tail :: "addr \<Rightarrow> addr \<Rightarrow> list_heap \<Rightarrow> list_heap" where
  "list_move_tail e head h = list_add_tail e head (list_del_entry e h)"

definition list_is_last :: "addr \<Rightarrow> addr \<Rightarrow> list_heap \<Rightarrow> bool" where
  "list_is_last e head h \<longleftrightarrow> nxt h e = head"

definition list_splice_between :: "addr \<Rightarrow> addr \<Rightarrow> addr \<Rightarrow> list_heap \<Rightarrow> list_heap" where
  "list_splice_between lst p n h =
     (let first = nxt h lst; last_e = prev h lst;
          h1 = set_prev first p h;
          h2 = set_next p first h1;
          h3 = set_next last_e n h2
      in set_prev n last_e h3)"

definition list_splice :: "addr \<Rightarrow> addr \<Rightarrow> list_heap \<Rightarrow> list_heap" where
  "list_splice lst head h =
     (if \<not> list_empty lst h then list_splice_between lst head (nxt h head) h else h)"

definition list_splice_tail :: "addr \<Rightarrow> addr \<Rightarrow> list_heap \<Rightarrow> list_heap" where
  "list_splice_tail lst head h =
     (if \<not> list_empty lst h then list_splice_between lst (prev h head) head h else h)"

definition list_splice_init :: "addr \<Rightarrow> addr \<Rightarrow> list_heap \<Rightarrow> list_heap" where
  "list_splice_init lst head h =
     (if \<not> list_empty lst h
      then list_init_head lst (list_splice_between lst head (nxt h head) h) else h)"

definition list_splice_tail_init :: "addr \<Rightarrow> addr \<Rightarrow> list_heap \<Rightarrow> list_heap" where
  "list_splice_tail_init lst head h =
     (if \<not> list_empty lst h
      then list_init_head lst (list_splice_between lst (prev h head) head h) else h)"

definition list_first_entry :: "addr \<Rightarrow> list_heap \<Rightarrow> addr" where
  "list_first_entry head h = nxt h head"

definition list_first_entry_or_null :: "addr \<Rightarrow> list_heap \<Rightarrow> addr" where
  "list_first_entry_or_null head h = (if \<not> list_empty head h then list_first_entry head h else 0)"

text \<open>
  The deletion-safe traversal macro, with the loop body as a function on the store; \<open>None\<close> is a
  traversal that does not end. The result is the visited entries in order and the final store.
\<close>

partial_function (option) for_each_entry_safe ::
    "addr \<Rightarrow> (addr \<Rightarrow> list_heap \<Rightarrow> list_heap) \<Rightarrow> addr \<Rightarrow> addr \<Rightarrow> list_heap
     \<Rightarrow> (addr list \<times> list_heap) option" where
  "for_each_entry_safe head body pos storage h =
     (if pos = head then Some ([], h)
      else let h' = body pos h
           in Option.bind (for_each_entry_safe head body storage (nxt h' storage) h')
                (\<lambda>(seen, h''). Some (pos # seen, h'')))"

definition list_for_each_entry_safe ::
    "addr \<Rightarrow> (addr \<Rightarrow> list_heap \<Rightarrow> list_heap) \<Rightarrow> list_heap \<Rightarrow> (addr list \<times> list_heap) option" where
  "list_for_each_entry_safe head body h =
     for_each_entry_safe head body (nxt h head) (nxt h (nxt h head)) h"

section \<open>Rings\<close>

text \<open>From \<open>a\<close> through \<open>xs\<close> to \<open>b\<close>: every \<^verbatim>\<open>next\<close> link and the matching \<^verbatim>\<open>prev\<close> link.\<close>

fun chain :: "list_heap \<Rightarrow> addr \<Rightarrow> addr list \<Rightarrow> addr \<Rightarrow> bool" where
  "chain h a [] b \<longleftrightarrow> nxt h a = b \<and> prev h b = a"
| "chain h a (x # xs) b \<longleftrightarrow> nxt h a = x \<and> prev h x = a \<and> chain h x xs b"

definition ring :: "list_heap \<Rightarrow> addr \<Rightarrow> addr list \<Rightarrow> bool" where
  "ring h head xs \<longleftrightarrow> chain h head xs head \<and> distinct (head # xs)"

lemma set_simps [simp]:
  "prev (set_prev a v h) = (prev h)(a := v)" "nxt (set_prev a v h) = nxt h"
  "nxt (set_next a v h) = (nxt h)(a := v)" "prev (set_next a v h) = prev h"
  by (simp_all add: set_prev_def set_next_def)

lemma chain_append [simp]: "chain h a (xs @ y # ys) b \<longleftrightarrow> chain h a xs y \<and> chain h y ys b"
  by (induction xs arbitrary: a) auto

lemma chain_cong:
  assumes "\<And>x. x \<in> insert a (set xs) \<Longrightarrow> nxt h' x = nxt h x"
    and "\<And>x. x \<in> insert b (set xs) \<Longrightarrow> prev h' x = prev h x"
  shows "chain h' a xs b \<longleftrightarrow> chain h a xs b"
  using assms by (induction xs arbitrary: a) auto

lemma chain_first: "chain h a xs b \<Longrightarrow> nxt h a = hd (xs @ [b])"
  by (cases xs) auto

lemma chain_last: "chain h a xs b \<Longrightarrow> prev h b = last (a # xs)"
  by (induction xs arbitrary: a) auto

text \<open>Replacing the outgoing link of the first and the incoming link of the last entry.\<close>

lemma chain_redirect:
  assumes "chain h a xs b" "xs \<noteq> []"
    and "nxt h' a' = hd xs" "prev h' (hd xs) = a'" "nxt h' (last xs) = b'" "prev h' b' = last xs"
    and "\<And>x. x \<in> set (butlast xs) \<Longrightarrow> nxt h' x = nxt h x"
    and "\<And>x. x \<in> set (tl xs) \<Longrightarrow> prev h' x = prev h x"
  shows "chain h' a' xs b'"
  using assms
proof (induction xs arbitrary: a a')
  case (Cons x xs)
  show ?case
  proof (cases xs)
    case Nil
    then show ?thesis using Cons.prems by simp
  next
    case (Cons y ys)
    have "chain h' x xs b'"
      using Cons.prems Cons by (intro Cons.IH [of x x]) (auto simp: list.set_sel)
    then show ?thesis using Cons.prems by simp
  qed
qed simp

section \<open>Each operation on rings\<close>

lemma ring_init [simp]: "ring (list_init_head a h) a []"
  by (simp add: ring_def list_init_head_def)

lemma ring_empty: "ring h head xs \<Longrightarrow> list_empty head h \<longleftrightarrow> xs = []"
  by (cases xs) (auto simp: ring_def list_empty_def)

lemma ring_first: "ring h head (x # xs) \<Longrightarrow> list_first_entry head h = x"
  by (simp add: ring_def list_first_entry_def)

lemma ring_cong:
  assumes "\<And>x. x \<in> insert head (set xs) \<Longrightarrow> nxt h' x = nxt h x \<and> prev h' x = prev h x"
  shows "ring h' head xs \<longleftrightarrow> ring h head xs"
  unfolding ring_def using chain_cong [of head xs h' h head] assms by auto

lemma ring_init_other:
  assumes "ring h head xs" "a \<notin> set (head # xs)"
  shows "ring (list_init_head a h) head xs"
proof -
  have "ring (list_init_head a h) head xs = ring h head xs"
    by (rule ring_cong) (use assms(2) in \<open>auto simp: list_init_head_def\<close>)
  then show ?thesis using assms(1) by simp
qed

lemma ring_add_tail:
  assumes r: "ring h head xs" and new: "item \<notin> set (head # xs)"
  shows "ring (list_add_tail item head h) head (xs @ [item])"
proof (cases xs rule: rev_cases)
  case Nil
  then show ?thesis using assms by (auto simp: ring_def list_add_tail_def)
next
  case (snoc ys l)
  let ?h = "list_add_tail item head h"
  have p: "prev h head = l" using r snoc by (simp add: ring_def)
  have "chain ?h head ys l = chain h head ys l"
    using r new snoc p by (intro chain_cong) (auto simp: list_add_tail_def ring_def)
  then show ?thesis
    using r new snoc p by (auto simp: ring_def list_add_tail_def)
qed

lemma ring_add:
  assumes r: "ring h head xs" and new: "item \<notin> set (head # xs)"
  shows "ring (list_add item head h) head (item # xs)"
proof (cases xs)
  case Nil
  then show ?thesis using assms by (auto simp: ring_def list_add_def)
next
  case (Cons y ys)
  let ?h = "list_add item head h"
  have n: "nxt h head = y" using r Cons by (simp add: ring_def)
  have "chain ?h y ys head = chain h y ys head"
    using r new Cons n by (intro chain_cong) (auto simp: list_add_def ring_def)
  then show ?thesis
    using r new Cons n by (auto simp: ring_def list_add_def)
qed

text \<open>Both deletions unlink the entry from its neighbours; they differ in what the entry keeps.\<close>

lemma ring_unlink:
  assumes r: "ring h head (xs @ x # ys)"
    and n: "\<And>y. y \<noteq> x \<Longrightarrow> nxt h' y = (if y = prev h x then nxt h x else nxt h y)"
    and p: "\<And>y. y \<noteq> x \<Longrightarrow> prev h' y = (if y = nxt h x then prev h x else prev h y)"
  shows "ring h' head (xs @ ys)"
proof -
  have c: "chain h head xs x" "chain h x ys head" "distinct (head # xs @ x # ys)"
    using r by (auto simp: ring_def)
  have pl: "prev h x = last (head # xs)" "nxt h x = hd (ys @ [head])"
    using chain_last [OF c(1)] chain_first [OF c(2)] by auto
  have pin: "prev h x \<in> insert head (set xs)"
    using last_in_set [of "head # xs"] unfolding pl(1) by (simp del: last.simps)
  have keep: "chain h' a zs b = chain h a zs b"
    if "x \<notin> insert a (insert b (set zs))" "prev h x \<notin> insert a (set zs)" "nxt h x \<notin> insert b (set zs)"
    for a zs b
    using that n p by (intro chain_cong; metis insert_iff)
  show ?thesis
  proof (cases ys)
    case Nil
    show ?thesis
    proof (cases xs rule: rev_cases)
      case Nil
      then show ?thesis using \<open>ys = []\<close> c pl n [of head] p [of head] by (auto simp: ring_def)
    next
      case (snoc zs l)
      have "chain h' head zs l = chain h head zs l"
        using c pl snoc \<open>ys = []\<close> by (intro keep) auto
      then show ?thesis
        using \<open>ys = []\<close> snoc c pl n [of l] p [of head] by (auto simp: ring_def)
    qed
  next
    case (Cons y zs)
    have tail: "chain h' y zs head = chain h y zs head"
      using c pl(2) pin Cons by (intro keep) auto
    show ?thesis
    proof (cases xs rule: rev_cases)
      case Nil
      then show ?thesis using Cons c pl n [of head] p [of y] tail by (auto simp: ring_def)
    next
      case (snoc ws l)
      have "chain h' head ws l = chain h head ws l"
        using c pl snoc Cons by (intro keep) auto
      then show ?thesis
        using Cons snoc c pl n [of l] p [of y] tail by (auto simp: ring_def)
    qed
  qed
qed

lemma ring_del: "ring h head (xs @ x # ys) \<Longrightarrow> ring (list_del x h) head (xs @ ys)"
  by (rule ring_unlink [of h]) (auto simp: list_del_def Let_def ring_def)

lemma ring_del_init:
  "ring h head (xs @ x # ys) \<Longrightarrow> ring (list_del_init x h) head (xs @ ys) \<and> ring (list_del_init x h) x []"
  by (intro conjI; (rule ring_unlink [of h])?) (auto simp: list_del_init_def Let_def ring_def)

lemma ring_del_entry: "ring h head (xs @ x # ys) \<Longrightarrow> ring (list_del_entry x h) head (xs @ ys)"
  by (rule ring_unlink [of h]) (auto simp: list_del_entry_def Let_def ring_def)

lemma split_ring:
  assumes "ring h head xs" "x \<in> set xs"
  obtains ys zs where "xs = ys @ x # zs" "remove1 x xs = ys @ zs" "x \<notin> set ys"
proof -
  obtain ys zs where s: "xs = ys @ x # zs" using assms(2) by (meson split_list)
  then have "x \<notin> set ys" using assms(1) by (auto simp: ring_def)
  then show ?thesis using that s by (simp add: remove1_append)
qed

lemma ring_del_remove1: "ring h head xs \<Longrightarrow> x \<in> set xs \<Longrightarrow> ring (list_del x h) head (remove1 x xs)"
  by (metis ring_del split_ring)

lemma ring_move_tail:
  assumes "ring h head xs" "x \<in> set xs"
  shows "ring (list_move_tail x head h) head (remove1 x xs @ [x])"
proof -
  obtain ys zs where s: "xs = ys @ x # zs" "remove1 x xs = ys @ zs" using assms by (rule split_ring)
  have "ring (list_del_entry x h) head (ys @ zs)" using assms(1) s(1) ring_del_entry by simp
  then show ?thesis
    using assms(1) s unfolding list_move_tail_def by (intro ring_add_tail) (auto simp: ring_def)
qed

lemma ring_move:
  assumes "ring h head xs" "x \<in> set xs"
  shows "ring (list_move x head h) head (x # remove1 x xs)"
proof -
  obtain ys zs where s: "xs = ys @ x # zs" "remove1 x xs = ys @ zs" using assms by (rule split_ring)
  have "ring (list_del_entry x h) head (ys @ zs)" using assms(1) s(1) ring_del_entry by simp
  then show ?thesis
    using assms(1) s unfolding list_move_def by (intro ring_add) (auto simp: ring_def)
qed

lemma ring_is_last: "ring h head xs \<Longrightarrow> x \<in> set xs \<Longrightarrow> list_is_last x head h \<longleftrightarrow> x = last xs"
proof -
  assume r: "ring h head xs" "x \<in> set xs"
  then obtain ys zs where s: "xs = ys @ x # zs" by (meson split_list)
  then have "chain h x zs head" "head \<notin> set zs" "x \<notin> set zs" using r by (auto simp: ring_def)
  then show ?thesis
    using chain_first [of h x zs head] s by (cases zs) (auto simp: list_is_last_def)
qed

lemma ring_replace:
  assumes r: "ring h head (xs @ x # ys)" and new: "to \<notin> set (head # xs @ x # ys)"
  shows "ring (list_replace x to h) head (xs @ to # ys)"
proof -
  let ?h = "list_replace x to h"
  have c: "chain h head xs x" "chain h x ys head" "distinct (head # xs @ x # ys)"
    using r by (auto simp: ring_def)
  have pl: "prev h x = last (head # xs)" "nxt h x = hd (ys @ [head])"
    using chain_last [OF c(1)] chain_first [OF c(2)] by auto
  have front: "chain ?h head xs to"
  proof (cases xs rule: rev_cases)
    case Nil
    then show ?thesis using c pl new by (cases ys) (auto simp: list_replace_def Let_def)
  next
    case (snoc us l)
    have "chain ?h head us l = chain h head us l"
      using c pl snoc new by (intro chain_cong) (cases ys; auto simp: list_replace_def Let_def)+
    then show ?thesis using c pl snoc new by (cases ys) (auto simp: list_replace_def Let_def)
  qed
  have rear: "chain ?h to ys head"
  proof (cases ys)
    case Nil
    then show ?thesis using pl new c by (cases xs rule: rev_cases) (auto simp: list_replace_def Let_def)
  next
    case (Cons y ws)
    have "chain ?h y ws head = chain h y ws head"
      using c pl Cons new
      by (intro chain_cong) (cases xs rule: rev_cases; auto simp: list_replace_def Let_def)+
    then show ?thesis
      using c pl Cons new by (cases xs rule: rev_cases) (auto simp: list_replace_def Let_def)
  qed
  show ?thesis using front rear c(3) new by (auto simp: ring_def)
qed

text \<open>
  Splicing puts the entries of a nonempty list between two neighbours of another; both
  splices and their variants that reinitialise the emptied head follow.
\<close>

lemma chain_entries_between:
  assumes "chain h lst ys lst" "ys \<noteq> []" "distinct ys"
    "p \<notin> set ys" "n \<notin> set ys" "lst \<notin> set ys"
  shows "chain (list_splice_between lst p n h) p ys n"
proof -
  have f: "nxt h lst = hd ys" "prev h lst = last ys"
    using chain_first [OF assms(1)] chain_last [OF assms(1)] assms(2) by auto
  have b: "x \<noteq> last ys" if "x \<in> set (butlast ys)" for x
    using that assms(2,3) by (metis append_butlast_last_id distinct_append disjoint_iff list.set_intros(1))
  have t: "x \<noteq> hd ys" if "x \<in> set (tl ys)" for x
    using that assms(2,3) by (metis distinct.simps(2) list.collapse)
  show ?thesis
    using f assms b t
    by (intro chain_redirect [OF assms(1,2)])
      (auto simp: list_splice_between_def Let_def dest: in_set_butlastD list.set_sel(2) [rotated])
qed

lemma splice_between_other:
  assumes "chain h lst ys lst" "ys \<noteq> []"
    "a \<notin> set ys" "a \<noteq> p" shows "nxt (list_splice_between lst p n h) a = nxt h a"
proof -
  have "prev h lst = last ys" using chain_last [OF assms(1)] assms(2) by simp
  then show ?thesis using assms(2-4) last_in_set by (fastforce simp: list_splice_between_def Let_def)
qed

lemma splice_between_other':
  assumes "chain h lst ys lst" "ys \<noteq> []"
    "a \<notin> set ys" "a \<noteq> n" shows "prev (list_splice_between lst p n h) a = prev h a"
proof -
  have "nxt h lst = hd ys" using chain_first [OF assms(1)] assms(2) by simp
  then show ?thesis using assms(2-4) hd_in_set by (fastforce simp: list_splice_between_def Let_def)
qed

lemma ring_splice_between:
  assumes r: "ring h head (xs @ zs)" and l: "ring h lst ys" "ys \<noteq> []"
    and d: "set (lst # ys) \<inter> set (head # xs @ zs) = {}"
    and p: "p = last (head # xs)" and n: "n = hd (zs @ [head])"
  shows "ring (list_splice_between lst p n h) head (xs @ ys @ zs)"
proof -
  let ?h = "list_splice_between lst p n h"
  have lc: "chain h lst ys lst" "distinct ys" "lst \<notin> set ys" using l by (auto simp: ring_def)
  have pin: "p \<in> insert head (set xs)" using last_in_set [of "head # xs"] unfolding p by (simp del: last.simps)
  have nin: "n \<in> insert head (set zs)" using hd_in_set [of "zs @ [head]"] unfolding n by auto
  have mid: "chain ?h p ys n"
    using lc l(2) d pin nin by (intro chain_entries_between) auto
  note other = splice_between_other [OF lc(1) l(2)] splice_between_other' [OF lc(1) l(2)]
  have dist: "distinct (head # xs @ zs)" using r by (simp add: ring_def)
  have front: "chain ?h head us p" if "xs = us @ [p]" for us
  proof -
    have "chain h head us p" using r that by (cases zs) (auto simp: ring_def)
    moreover have "chain ?h head us p = chain h head us p"
      using d dist that nin by (intro chain_cong other) auto
    ultimately show ?thesis by simp
  qed
  have rear: "chain ?h n ws head" if "zs = n # ws" for ws
  proof -
    have "chain h n ws head" using r that by (simp add: ring_def)
    moreover have "chain ?h n ws head = chain h n ws head"
      using d dist that pin by (intro chain_cong other) auto
    ultimately show ?thesis by simp
  qed
  have "chain ?h head (xs @ ys @ zs) head"
  proof (cases xs rule: rev_cases)
    case Nil
    then have "p = head" using p by simp
    then show ?thesis using Nil mid rear n by (cases zs) auto
  next
    case (snoc us l)
    then have "l = p" using p by simp
    then show ?thesis using snoc mid front rear n by (cases zs) auto
  qed
  moreover have "distinct (head # xs @ ys @ zs)" using dist d lc by auto
  ultimately show ?thesis by (simp add: ring_def)
qed

lemma ring_splice:
  assumes "ring h head xs" "ring h lst ys" "set (lst # ys) \<inter> set (head # xs) = {}"
  shows "ring (list_splice lst head h) head (ys @ xs)" "ring (list_splice_tail lst head h) head (xs @ ys)"
    "ring (list_splice_init lst head h) head (ys @ xs)" "ring (list_splice_init lst head h) lst []"
    "ring (list_splice_tail_init lst head h) head (xs @ ys)" "ring (list_splice_tail_init lst head h) lst []"
proof -
  have p: "prev h head = last (head # xs)" and n: "nxt h head = hd (xs @ [head])"
    using assms(1) chain_last chain_first by (auto simp: ring_def)
  have front: "ring (list_splice_between lst head (nxt h head) h) head (ys @ xs)" if "ys \<noteq> []"
    using ring_splice_between [of h head "[]" xs lst ys] assms that n by simp
  have rear: "ring (list_splice_between lst (prev h head) head h) head (xs @ ys)" if "ys \<noteq> []"
    using ring_splice_between [of h head xs "[]" lst ys] assms that p by simp
  note e = ring_empty [OF assms(2)]
  show "ring (list_splice lst head h) head (ys @ xs)" "ring (list_splice_tail lst head h) head (xs @ ys)"
    using front rear e assms(1) by (auto simp: list_splice_def list_splice_tail_def)
  have "lst \<notin> set ys" using assms(2) by (simp add: ring_def)
  then show "ring (list_splice_init lst head h) head (ys @ xs)" "ring (list_splice_tail_init lst head h) head (xs @ ys)"
    using front rear e assms ring_init_other by (auto simp: list_splice_init_def list_splice_tail_init_def)
  show "ring (list_splice_init lst head h) lst []" "ring (list_splice_tail_init lst head h) lst []"
    using e assms(2) by (auto simp: list_splice_init_def list_splice_tail_init_def)
qed

section \<open>Traversal\<close>

text \<open>
  The contract of a loop body: standing on entry \<open>x\<close> it keeps the ring but for \<open>x\<close> itself, which it
  may unlink. Under it the safe traversal ends, visits every entry once and in order, and leaves the
  entries that were kept.
\<close>

locale ring_body =
  fixes head :: addr and body :: "addr \<Rightarrow> list_heap \<Rightarrow> list_heap" and keep :: "addr \<Rightarrow> bool"
  assumes body_ring: "ring h head (ds @ x # xs) \<Longrightarrow> ring (body x h) head (ds @ (if keep x then [x] else []) @ xs)"
begin

lemma for_each_entry_safe_visits:
  "ring h head (ds @ xs) \<Longrightarrow>
   \<exists>h'. for_each_entry_safe head body (hd (xs @ [head])) (nxt h (hd (xs @ [head]))) h = Some (xs, h') \<and>
        ring h' head (ds @ filter keep xs)"
proof (induction xs arbitrary: ds h)
  case Nil
  then show ?case by (auto simp: for_each_entry_safe.simps [of head body head])
next
  case (Cons x xs)
  let ?h1 = "body x h"
  have "x \<noteq> head" using Cons.prems by (auto simp: ring_def)
  have nx: "nxt h x = hd (xs @ [head])"
    using Cons.prems chain_first [of h x xs head] by (auto simp: ring_def)
  have r1: "ring ?h1 head ((ds @ (if keep x then [x] else [])) @ xs)"
    using body_ring [OF Cons.prems] by simp
  obtain h' where "for_each_entry_safe head body (hd (xs @ [head])) (nxt ?h1 (hd (xs @ [head]))) ?h1 = Some (xs, h')"
      "ring h' head ((ds @ (if keep x then [x] else [])) @ filter keep xs)"
    using Cons.IH [OF r1] by blast
  then show ?case
    using \<open>x \<noteq> head\<close> nx
    by (auto simp: for_each_entry_safe.simps [of head body x] Let_def split: if_splits)
qed

lemma list_for_each_entry_safe_visits:
  assumes "ring h head xs"
  shows "\<exists>h'. list_for_each_entry_safe head body h = Some (xs, h') \<and> ring h' head (filter keep xs)"
proof -
  have "nxt h head = hd (xs @ [head])" using assms chain_first [of h head xs head] by (simp add: ring_def)
  then show ?thesis
    using for_each_entry_safe_visits [of h "[]" xs] assms by (simp add: list_for_each_entry_safe_def)
qed

end

definition del_if :: "(addr \<Rightarrow> bool) \<Rightarrow> addr \<Rightarrow> list_heap \<Rightarrow> list_heap" where
  "del_if P x h = (if P x then list_del x h else h)"

interpretation purge: ring_body head "del_if P" "\<lambda>x. \<not> P x" for head P
  by unfold_locales (simp add: del_if_def ring_del)

text \<open>
  Emptying a list from the front, the loop \<^verbatim>\<open>while (!list_empty(..)) { .. = list_first_entry(..);
  list_del(..); }\<close> of the scheduler and the memory manager.
\<close>

partial_function (option) list_drain :: "addr \<Rightarrow> list_heap \<Rightarrow> (addr list \<times> list_heap) option" where
  "list_drain head h =
     (if list_empty head h then Some ([], h)
      else let x = list_first_entry head h
           in Option.bind (list_drain head (list_del x h)) (\<lambda>(seen, h'). Some (x # seen, h')))"

lemma list_drain_ring: "ring h head xs \<Longrightarrow> \<exists>h'. list_drain head h = Some (xs, h') \<and> ring h' head []"
proof (induction xs arbitrary: h)
  case Nil
  then show ?case by (auto simp: list_drain.simps [of head h] ring_empty)
next
  case (Cons x xs)
  have "ring (list_del x h) head xs" using ring_del [of h head "[]" x xs] Cons.prems by simp
  then obtain h' where "list_drain head (list_del x h) = Some (xs, h')" "ring h' head []"
    using Cons.IH by blast
  then show ?case
    using Cons.prems by (auto simp: list_drain.simps [of head h] ring_empty ring_first Let_def)
qed

lemma ring_add_all:
  "ring h head xs \<Longrightarrow> distinct ys \<Longrightarrow> set ys \<inter> set (head # xs) = {} \<Longrightarrow>
   ring (fold (\<lambda>x. list_add_tail x head) ys h) head (xs @ ys)"
proof (induction ys arbitrary: h xs)
  case (Cons y ys)
  have "ring (list_add_tail y head h) head (xs @ [y])"
    using Cons.prems by (intro ring_add_tail) auto
  from Cons.IH [OF this] show ?case using Cons.prems by auto
qed simp

section \<open>Properties\<close>

text \<open>
  C10. The pointer operations implement the list operations: inserting at the head or the tail, replacing,
  deleting, and moving to the head or the tail turn a ring of \<open>xs\<close> into a ring of the corresponding list;
  the empty test and the last test decide what they say.
\<close>

theorem list_ops_refine:
  assumes "ring h head xs"
  shows "(item \<notin> set (head # xs) \<longrightarrow>
      (\<forall>ys x zs. xs = ys @ x # zs \<longrightarrow> ring (list_replace x item h) head (ys @ item # zs)) \<and>
      ring (list_add item head h) head (item # xs) \<and> ring (list_add_tail item head h) head (xs @ [item])) \<and>
    (x \<in> set xs \<longrightarrow>
      ring (list_del x h) head (remove1 x xs) \<and> ring (list_del_init x h) head (remove1 x xs) \<and>
      ring (list_del_init x h) x [] \<and>
      ring (list_move x head h) head (x # remove1 x xs) \<and>
      ring (list_move_tail x head h) head (remove1 x xs @ [x]) \<and>
      (list_is_last x head h \<longleftrightarrow> x = last xs)) \<and>
    (list_empty head h \<longleftrightarrow> xs = []) \<and>
    list_first_entry_or_null head h = (if xs = [] then 0 else hd xs)"
proof (intro conjI impI)
  show "ring (list_add item head h) head (item # xs)" "ring (list_add_tail item head h) head (xs @ [item])"
    if "item \<notin> set (head # xs)"
    using ring_add [OF assms that] ring_add_tail [OF assms that] by blast+
  show "\<forall>ys x zs. xs = ys @ x # zs \<longrightarrow> ring (list_replace x item h) head (ys @ item # zs)"
    if "item \<notin> set (head # xs)"
    using that assms ring_replace by blast
  show "list_empty head h \<longleftrightarrow> xs = []" using assms by (rule ring_empty)
  show "list_first_entry_or_null head h = (if xs = [] then 0 else hd xs)"
    using assms ring_empty [OF assms] ring_first by (cases xs) (auto simp: list_first_entry_or_null_def)
  assume x: "x \<in> set xs"
  show "ring (list_del x h) head (remove1 x xs)" using assms x by (rule ring_del_remove1)
  obtain ys zs where s: "xs = ys @ x # zs" "remove1 x xs = ys @ zs" using assms x by (rule split_ring)
  show "ring (list_del_init x h) head (remove1 x xs)" "ring (list_del_init x h) x []"
    using ring_del_init [of h head ys x zs] assms s by simp_all
  show "ring (list_move x head h) head (x # remove1 x xs)" using assms x by (rule ring_move)
  show "ring (list_move_tail x head h) head (remove1 x xs @ [x])" using assms x by (rule ring_move_tail)
  show "list_is_last x head h \<longleftrightarrow> x = last xs" using assms x by (rule ring_is_last)
qed

text \<open>A store with the ring \<open>1\<close>, \<open>2\<close>, \<open>3\<close> around head \<open>9\<close>, for the concrete instances.\<close>

definition sample_heap :: list_heap where
  "sample_heap = fold (\<lambda>x. list_add_tail x 9) [1, 2, 3]
     (list_init_head 9 \<lparr>prev = \<lambda>_. 0, nxt = \<lambda>_. 0\<rparr>)"

lemma sample_ring: "ring sample_heap 9 [1, 2, 3]"
  unfolding sample_heap_def using ring_add_all [of _ 9 "[]" "[1, 2, 3]"] by simp

theorem list_ops_refine_witness:
  "ring (list_add_tail 5 9 sample_heap) 9 [1, 2, 3, 5] \<and> ring (list_move_tail 1 9 sample_heap) 9 [2, 3, 1]"
  using list_ops_refine [OF sample_ring, of 5 1] by simp

text \<open>
  Splicing the list at \<open>lst\<close> into the list at \<open>head\<close> puts its entries, in order, at the front
  (or, for the tail variants, at the end), and the initialising variants leave \<open>lst\<close> empty.
\<close>

theorem list_splice_refine:
  assumes "ring h head xs" "ring h lst ys" "set (lst # ys) \<inter> set (head # xs) = {}"
  shows "ring (list_splice lst head h) head (ys @ xs) \<and>
    ring (list_splice_tail lst head h) head (xs @ ys) \<and>
    ring (list_splice_init lst head h) head (ys @ xs) \<and> ring (list_splice_init lst head h) lst [] \<and>
    ring (list_splice_tail_init lst head h) head (xs @ ys) \<and>
    ring (list_splice_tail_init lst head h) lst []"
  using ring_splice [OF assms] by blast

theorem list_splice_refine_witness:
  "ring (list_splice_tail_init 8 9 (list_init_head 8 sample_heap)) 9 [1, 2, 3]"
proof -
  have "ring (list_init_head 8 sample_heap) 9 [1, 2, 3]"
    using ring_init_other [OF sample_ring, of 8] by simp
  then show ?thesis
    using list_splice_refine [of "list_init_head 8 sample_heap" 9 "[1, 2, 3]" 8 "[]"] by simp
qed

text \<open>
  C16. The deletion-safe traversal ends and visits every entry exactly once and in order, even when its
  body deletes the entry it stands on; afterwards the list holds the entries not deleted.
\<close>

theorem list_for_each_entry_safe_correct:
  assumes "ring h head xs"
  shows "\<exists>h'. list_for_each_entry_safe head (del_if P) h = Some (xs, h') \<and>
    ring h' head (filter (\<lambda>x. \<not> P x) xs)"
  using assms by (rule purge.list_for_each_entry_safe_visits)

theorem list_for_each_entry_safe_correct_witness:
  "\<exists>h'. list_for_each_entry_safe 9 (del_if even) sample_heap = Some ([1, 2, 3], h') \<and> ring h' 9 [1, 3]"
  using list_for_each_entry_safe_correct [OF sample_ring, of even] by simp

text \<open>
  Queue discipline: entries added at the tail of an initialised list leave the front in the
  order they came, and the emptying loop ends with the empty list.
\<close>

theorem list_fifo:
  assumes "distinct ys" "head \<notin> set ys"
  shows "\<exists>h'. list_drain head (fold (\<lambda>x. list_add_tail x head) ys (list_init_head head h)) = Some (ys, h') \<and>
    ring h' head []"
proof (rule list_drain_ring)
  show "ring (fold (\<lambda>x. list_add_tail x head) ys (list_init_head head h)) head ys"
    using ring_add_all [of "list_init_head head h" head "[]" ys] assms by simp
qed

theorem list_fifo_witness: "\<exists>h'. list_drain 9 sample_heap = Some ([1, 2, 3], h')"
  unfolding sample_heap_def
  using list_fifo [of "[1, 2, 3]" 9 "\<lparr>prev = \<lambda>_. 0, nxt = \<lambda>_. 0\<rparr>"] by auto

end
