(* ===== verification/Bit_Util.thy ===== *)
theory Bit_Util
  imports Prelude
begin

text \<open>
  Integer utilities of \<^verbatim>\<open>core/util/util.h\<close>, \<^verbatim>\<open>core/util/util.c\<close> and \<^verbatim>\<open>core/util/bit_op.h\<close>: powers of two
  and logarithms, bit scans of 32 and 64 bit masks, and the table driven CRC. Shifts to the
  right are \<open>drop_bit\<close>, shifts to the left \<open>push_bit\<close>. The results relate the scans to the
  lowest and highest set bit, the logarithms to each other and to the power they round
  up to, and the CRC table to the bit by bit division.
\<close>

section \<open>Logarithms (\<^verbatim>\<open>util.h\<close>, \<^verbatim>\<open>util.c\<close>)\<close>

definition util_IsPow2 :: "u32 \<Rightarrow> bool" where
  "util_IsPow2 v \<longleftrightarrow> v AND (v - 1) = 0"

lemma unat_drop: "unat (drop_bit n (v :: 'w::len word)) = unat v div 2 ^ n"
  unfolding unat_drop_bit_eq by (rule drop_bit_eq_div)

lemma unat_drop_less: "(v :: u32) \<noteq> 0 \<Longrightarrow> 0 < n \<Longrightarrow> unat (drop_bit n v) < unat v"
  unfolding unat_drop by (rule div_less_dividend) (auto simp: unat_gt_0 intro: one_less_power [where a = "2::nat", simplified])

function nearest_by4 :: "u32 \<Rightarrow> u32 \<Rightarrow> u32 \<times> u32" where
  "nearest_by4 v result =
     (if v AND 0xFFFFFFF0 \<noteq> 0 then nearest_by4 (drop_bit 4 v) (result + 4) else (v, result))"
  by pat_completeness auto
termination
  by (relation "measure (\<lambda>(v, _). unat v)") (auto intro!: unat_drop_less)

function nearest_by1 :: "u32 \<Rightarrow> u32 \<Rightarrow> u32" where
  "nearest_by1 v result = (if v \<noteq> 0 then nearest_by1 (drop_bit 1 v) (result + 1) else result)"
  by pat_completeness auto
termination
  by (relation "measure (\<lambda>(v, _). unat v)") (auto intro!: unat_drop_less)

declare nearest_by4.simps [simp del] nearest_by1.simps [simp del]

definition util_NearestLog2 :: "u32 \<Rightarrow> u32" where
  "util_NearestLog2 v =
     (case nearest_by4 v 0xFFFFFFFF of
        (w, result) \<Rightarrow>
          let result = nearest_by1 w result
          in if \<not> util_IsPow2 v then result + 1 else result)"

text \<open>
  The \<^verbatim>\<open>do ... while\<close> of \<^verbatim>\<open>util_log2\<close>; it need not end, so \<open>None\<close> is an endless loop. The
  result is the last \<open>d\<close> and \<open>iter\<close>.
\<close>

partial_function (option) log2_loop :: "u32 \<Rightarrow> u32 \<Rightarrow> u32 \<Rightarrow> (u32 \<times> u32) option" where
  "log2_loop s d iter =
     (let d' = d * 2; iter' = iter + 1
      in if d' < s then log2_loop s d' iter' else Some (d', iter'))"

definition util_log2 :: "u32 \<Rightarrow> u32 option" where
  "util_log2 s =
     (if s = 1 then Some 0 else if s = 2 then Some 1 else if s = 4 then Some 2
      else if s = 8 then Some 3 else if s = 16 then Some 4 else if s = 32 then Some 5
      else if s = 64 then Some 6 else if s = 128 then Some 7 else if s = 256 then Some 8
      else if s = 512 then Some 9 else if s = 1024 then Some 10
      else (case log2_loop s 1 (- 1) of
              None \<Rightarrow> None
            | Some (d, iter) \<Rightarrow> Some (iter + (if push_bit 1 s \<noteq> d then 1 else 0))))"

section \<open>Bit positions (\<^verbatim>\<open>util.h\<close>, \<^verbatim>\<open>bit_op.h\<close>)\<close>

function msb_loop :: "u32 \<Rightarrow> u32 \<Rightarrow> u32" where
  "msb_loop num msbpos = (if num > 1 then msb_loop (drop_bit 1 num) (msbpos + 1) else msbpos)"
  by pat_completeness auto
termination
  by (relation "measure (\<lambda>(v, _). unat v)") (auto intro!: unat_drop_less)

declare msb_loop.simps [simp del]

definition util_get_msb_position :: "u32 \<Rightarrow> u32 outcome" where
  "util_get_msb_position num = (if num > 0 then Done (msb_loop num 0) else Panic)"

text \<open>The \<^verbatim>\<open>for\<close> loop with its \<^verbatim>\<open>break\<close>: the first index of 0, ..., 31 whose bit is set, else 32.\<close>

definition lsb_loop :: "u32 \<Rightarrow> nat" where
  "lsb_loop data = length (takeWhile (\<lambda>i. data AND push_bit i 1 = 0) [0..<32])"

definition util_get_lsb_position :: "u32 \<Rightarrow> nat outcome" where
  "util_get_lsb_position data = (if data > 0 then Done (lsb_loop data) else Panic)"

text \<open>
  \<^verbatim>\<open>__builtin_ffs\<close> (one plus the index of the least significant set bit, 0 for 0) and
  \<^verbatim>\<open>__builtin_clz\<close> (number of leading zeros of a nonzero mask) as the portable branches use them.
\<close>

definition builtin_ffs :: "u32 \<Rightarrow> nat" where
  "builtin_ffs m = (if m = 0 then 0 else Suc (length (takeWhile (\<lambda>i. \<not> bit m i) [0..<32])))"

definition builtin_clz :: "u32 \<Rightarrow> nat" where
  "builtin_clz m = length (takeWhile (\<lambda>i. \<not> bit m i) (rev [0..<32]))"

text \<open>The scans return \<open>None\<close> where the C code returns 0 and leaves \<^verbatim>\<open>*Index\<close> alone.\<close>

definition BitScanForward :: "u32 \<Rightarrow> nat option" where
  "BitScanForward m = (if m = 0 then None else Some (builtin_ffs m - 1))"

definition BitScanReverse :: "u32 \<Rightarrow> nat option" where
  "BitScanReverse m = (if m = 0 then None else Some (31 - builtin_clz m))"

definition mask_0 :: "u64 \<Rightarrow> u32" where
  "mask_0 m = ucast m"

definition mask_1 :: "u64 \<Rightarrow> u32" where
  "mask_1 m = ucast (drop_bit 32 m)"

definition BitScanForward_64 :: "u64 \<Rightarrow> nat option" where
  "BitScanForward_64 m =
     (if mask_0 m \<noteq> 0 then BitScanForward (mask_0 m)
      else (case BitScanForward (mask_1 m) of Some i \<Rightarrow> Some (i + 32) | None \<Rightarrow> None))"

definition BitScanReverse_64 :: "u64 \<Rightarrow> nat option" where
  "BitScanReverse_64 m =
     (if mask_1 m \<noteq> 0 then (case BitScanReverse (mask_1 m) of Some i \<Rightarrow> Some (i + 32) | None \<Rightarrow> None)
      else BitScanReverse (mask_0 m))"

definition bittestandreset :: "u32 \<Rightarrow> nat \<Rightarrow> bool \<times> u32" where
  "bittestandreset a b = (let c = a AND NOT (push_bit b 1) in (a \<noteq> c, c))"

definition bittestandreset_64 :: "u64 \<Rightarrow> nat \<Rightarrow> bool \<times> u64" where
  "bittestandreset_64 a b =
     (if b < 32 then (case bittestandreset (mask_0 a) b of
                        (c, lo) \<Rightarrow> (c, push_bit 32 (ucast (mask_1 a)) OR ucast lo))
      else (case bittestandreset (mask_1 a) (b - 32) of
              (c, hi) \<Rightarrow> (c, push_bit 32 (ucast hi) OR ucast (mask_0 a))))"

section \<open>CRC (\<^verbatim>\<open>util_crc32\<close>)\<close>

definition crc_poly :: u32 where
  "crc_poly = 0x04C11DB7"

definition crc_shift :: "u32 \<Rightarrow> u32" where
  "crc_shift crc = push_bit 1 crc XOR (if crc AND 0x80000000 \<noteq> 0 then crc_poly else 0)"

text \<open>One entry of the table: eight shifts of \<^verbatim>\<open>i << 24\<close>.\<close>

definition crc_entry :: "nat \<Rightarrow> u32" where
  "crc_entry i = (crc_shift ^^ 8) (push_bit 24 (of_nat i))"

definition crc_table :: "u32 list" where
  "crc_table = map crc_entry [0..<256]"

definition util_crc32 :: "u8 list \<Rightarrow> u32" where
  "util_crc32 buf =
     fold (\<lambda>p crc. push_bit 8 crc XOR
            crc_table ! unat ((drop_bit 24 crc XOR ucast p) AND 0xFF :: u32)) buf 0xFFFFFFFF"

section \<open>The position of the highest bit\<close>

text \<open>\<open>L\<close> is the number of significant bits of \<open>n\<close>.\<close>

definition width_of :: "nat \<Rightarrow> nat \<Rightarrow> bool" where
  "width_of n L \<longleftrightarrow> n < 2 ^ L \<and> (0 < L \<longrightarrow> 2 ^ (L - 1) \<le> n)"

lemma width_of_0 [simp]: "width_of 0 L \<longleftrightarrow> L = 0"
  by (auto simp: width_of_def)

lemma width_of_unique:
  assumes "width_of n L" "width_of n L'" shows "L = L'"
proof -
  have "\<not> L < L'" if "width_of n L" "width_of n L'" for L L'
  proof
    assume "L < L'"
    then have "(2::nat) ^ L \<le> 2 ^ (L' - 1)" by (intro power_increasing) auto
    then show False using that \<open>L < L'\<close> unfolding width_of_def by linarith
  qed
  then show ?thesis using assms by (meson linorder_neqE_nat)
qed

lemma width_of_shift:
  assumes "n div 2 ^ k \<noteq> 0" "width_of (n div 2 ^ k) L"
  shows "width_of n (L + k)"
proof -
  have "0 < L" using assms by (cases L) (auto simp: width_of_def)
  have "n < 2 ^ L * 2 ^ k" using assms(2) by (simp add: width_of_def div_less_iff_less_mult)
  moreover have "2 ^ (L - 1) * 2 ^ k \<le> n"
    using assms(2) \<open>0 < L\<close> by (simp add: width_of_def less_eq_div_iff_mult_less_eq)
  moreover have "L + k - 1 = (L - 1) + k" using \<open>0 < L\<close> by simp
  ultimately show ?thesis by (simp add: width_of_def power_add)
qed

lemma nearest_by1_width: "\<exists>L. nearest_by1 v r = r + of_nat L \<and> width_of (unat v) L"
proof (induction v r rule: nearest_by1.induct)
  case (1 v r)
  show ?case
  proof (cases "v = 0")
    case True
    then show ?thesis by (intro exI [of _ 0]) (simp add: nearest_by1.simps)
  next
    case False
    then obtain L where L: "nearest_by1 (drop_bit 1 v) (r + 1) = r + 1 + of_nat L"
        "width_of (unat v div 2) L"
      using 1 by (auto simp: unat_drop)
    have "width_of (unat v) (Suc L)"
    proof (cases "unat v div 2 = 0")
      case True
      then have "unat v < 2" by (simp add: div_eq_0_iff)
      moreover have "unat v \<noteq> 0" using False by (simp add: unat_eq_zero)
      ultimately have "unat v = 1" by simp
      then show ?thesis using L(2) by (simp add: width_of_def)
    next
      case nz: False
      then show ?thesis using width_of_shift [of "unat v" 1 L] L(2) by simp
    qed
    then show ?thesis
      using L(1) False by (intro exI [of _ "Suc L"]) (simp add: nearest_by1.simps [of v])
  qed
qed

lemma mask_high_nibbles:
  assumes "(v :: u32) AND 0xFFFFFFF0 \<noteq> 0" shows "unat v div 16 \<noteq> 0"
proof
  assume "unat v div 16 = 0"
  then have "unat v < 2 ^ 4" by (simp add: div_eq_0_iff)
  then have "take_bit 4 v = v"
    by (metis take_bit_nat_eq_self unsigned_take_bit_eq word_unat_eq_iff)
  then have "v AND mask 4 = v" by (simp only: take_bit_eq_mask)
  moreover have "(0xFFFFFFF0 :: u32) = NOT (mask 4)" by (simp add: mask_eq_exp_minus_1)
  ultimately have "v AND 0xFFFFFFF0 = (v AND mask 4) AND NOT (mask 4)" by simp
  also have "\<dots> = 0" by (simp only: and.assoc bit.conj_cancel_right and_zero_eq)
  finally show False using assms by simp
qed

lemma nearest_by4_width:
  assumes "nearest_by4 v r = (w, r')"
  shows "\<exists>k. r' = r + of_nat (4 * k) \<and> w = drop_bit (4 * k) v \<and> (v \<noteq> 0 \<longrightarrow> w \<noteq> 0)"
  using assms
proof (induction v r rule: nearest_by4.induct)
  case (1 v r)
  show ?case
  proof (cases "v AND 0xFFFFFFF0 \<noteq> 0")
    case False
    then show ?thesis using 1(2) by (intro exI [of _ 0]) (simp add: nearest_by4.simps)
  next
    case True
    then obtain k where k: "r' = r + 4 + of_nat (4 * k)" "w = drop_bit (4 * k) (drop_bit 4 v)"
        "drop_bit 4 v \<noteq> 0 \<longrightarrow> w \<noteq> 0"
      using 1 by (auto simp: nearest_by4.simps [of v])
    have "unat (drop_bit 4 v) \<noteq> 0" using mask_high_nibbles [OF True] by (simp add: unat_drop)
    then have "w \<noteq> 0" using k(3) by auto
    then show ?thesis
      using k by (intro exI [of _ "Suc k"]) (simp add: drop_bit_drop_bit ac_simps)
  qed
qed

lemma util_IsPow2_iff:
  assumes "width_of (unat v) (Suc k)" shows "util_IsPow2 v \<longleftrightarrow> unat v = 2 ^ k"
proof -
  let ?n = "unat v"
  have n: "2 ^ k \<le> ?n" "?n < 2 * 2 ^ k" using assms by (auto simp: width_of_def)
  have "v \<noteq> 0" using n(1) by (metis not_one_le_zero one_le_numeral one_le_power order_trans unat_0)
  then have u1: "unat (v - 1) = ?n - 1" by (simp add: unat_minus_one)
  have "util_IsPow2 v \<longleftrightarrow> unat (v AND (v - 1)) = 0"
    by (simp only: util_IsPow2_def unat_eq_zero)
  also have "unat (v AND (v - 1)) = ?n AND (?n - 1)" by (simp add: unsigned_and_eq u1)
  also have "?n AND (?n - 1) = 0 \<longleftrightarrow> ?n = 2 ^ k"
  proof
    assume "?n = 2 ^ k"
    moreover have "(2::nat) ^ k AND (2 ^ k - 1) = 0"
      by (metis mask_eq_exp_minus_1 and.commute take_bit_eq_mask take_bit_of_exp less_irrefl of_bool_eq(1) mult_zero_left and.commute)
    ultimately show "?n AND (?n - 1) = 0" by simp
  next
    assume 0: "?n AND (?n - 1) = 0"
    show "?n = 2 ^ k"
    proof (rule ccontr)
      assume "?n \<noteq> 2 ^ k"
      then have m: "2 ^ k \<le> ?n - 1" "?n - 1 < 2 * 2 ^ k" using n by auto
      have one: "m div 2 ^ k = 1" if "2 ^ k \<le> m" "m < 2 * 2 ^ k" for m :: nat
        using that by (simp add: div_nat_eqI)
      have "bit (?n AND (?n - 1)) k"
        unfolding bit_and_iff using one [OF n] one [OF m] by (simp add: bit_iff_odd)
      then show False using 0 by simp
    qed
  qed
  finally show ?thesis .
qed

lemma width_of_exists: "n \<noteq> 0 \<Longrightarrow> \<exists>k. width_of n (Suc k)"
proof -
  assume "n \<noteq> 0"
  define L where "L = (LEAST L. n < 2 ^ L)"
  have ex: "n < 2 ^ L" unfolding L_def by (rule LeastI [of _ n]) simp
  then have "L \<noteq> 0" using \<open>n \<noteq> 0\<close> by (auto intro: ccontr)
  have "\<not> n < 2 ^ (L - 1)" using \<open>L \<noteq> 0\<close> not_less_Least [of "L - 1" "\<lambda>L. n < 2 ^ L"] by (simp add: L_def)
  then have "width_of n (Suc (L - 1))" using ex \<open>L \<noteq> 0\<close> by (simp add: width_of_def)
  then show ?thesis ..
qed

lemma width_bound: "width_of (unat (v :: u32)) (Suc k) \<Longrightarrow> k < 32"
proof (rule ccontr)
  assume "width_of (unat v) (Suc k)" "\<not> k < 32"
  then have "(2::nat) ^ 32 \<le> 2 ^ k" "2 ^ k \<le> unat v"
    by (auto simp: width_of_def intro!: power_increasing simp del: power_numeral)
  then show False using unsigned_less [of v, where 'a = nat] by simp
qed

text \<open>What the first loop leaves, counted by the second: the width of the argument.\<close>

lemma nearest_loops:
  assumes "v \<noteq> 0" "width_of (unat v) (Suc k)" "nearest_by4 v (- 1) = (w, r)"
  shows "nearest_by1 w r = of_nat k"
proof -
  obtain j where j: "r = - 1 + of_nat (4 * j)" "w = drop_bit (4 * j) v" "w \<noteq> 0"
    using nearest_by4_width [OF assms(3)] assms(1) by auto
  obtain L where L: "nearest_by1 w r = r + of_nat L" "width_of (unat w) L"
    using nearest_by1_width by blast
  have "unat w \<noteq> 0" using j(3) by (simp add: unat_eq_zero)
  then have "width_of (unat v) (L + 4 * j)"
    using L(2) j(2) by (intro width_of_shift) (simp_all add: unat_drop)
  then have "L + 4 * j = Suc k" using assms(2) width_of_unique by blast
  then have "(of_nat (4 * j) :: u32) + of_nat L = of_nat (Suc k)"
    by (metis add.commute of_nat_add)
  then have "- 1 + of_nat (4 * j) + of_nat L = (of_nat k :: u32)" by (simp add: algebra_simps)
  then show ?thesis using L(1) unfolding j(1) by simp
qed

lemma util_NearestLog2_width:
  assumes "width_of (unat v) (Suc k)"
  shows "util_NearestLog2 v = of_nat (if unat v = 2 ^ k then k else Suc k)"
proof -
  have "v \<noteq> 0" using assms by auto
  obtain w r where wr: "nearest_by4 v (- 1) = (w, r)" by force
  have m1: "(0xFFFFFFFF :: u32) = - 1" by simp
  show ?thesis
    using nearest_loops [OF \<open>v \<noteq> 0\<close> assms wr] util_IsPow2_iff [OF assms]
    unfolding util_NearestLog2_def m1 wr by (simp add: Let_def)
qed

definition ceil_log2 :: "nat \<Rightarrow> nat \<Rightarrow> bool" where
  "ceil_log2 n r \<longleftrightarrow> n \<le> 2 ^ r \<and> (\<forall>m. n \<le> 2 ^ m \<longrightarrow> r \<le> m)"

lemma ceil_log2_width:
  assumes "width_of n (Suc k)"
  shows "ceil_log2 n (if n = 2 ^ k then k else Suc k)"
proof -
  have n: "2 ^ k \<le> n" "n < 2 ^ Suc k" using assms by (auto simp: width_of_def)
  have "k \<le> m" if "n \<le> 2 ^ m" for m
    using order_trans [OF n(1) that] by simp
  moreover have "Suc k \<le> m" if "n \<le> 2 ^ m" "n \<noteq> 2 ^ k" for m
  proof -
    have "(2::nat) ^ k < 2 ^ m" using that n(1) by linarith
    then show ?thesis by (metis power_strict_increasing_iff one_less_numeral_iff semiring_norm(76) Suc_leI)
  qed
  ultimately show ?thesis using n by (auto simp: ceil_log2_def)
qed

lemma ceil_log2I:
  assumes "0 < m" "2 ^ (m - 1) < n" "n \<le> 2 ^ m" shows "ceil_log2 n m"
  unfolding ceil_log2_def
proof (intro conjI allI impI)
  fix k assume "n \<le> 2 ^ k"
  with assms(2) have "(2::nat) ^ (m - 1) < 2 ^ k" by (rule less_le_trans)
  then have "m - 1 < k" by (rule power_less_imp_less_exp [rotated]) simp
  then show "m \<le> k" by simp
qed (rule assms)

lemma ceil_log2_unique: "ceil_log2 n r \<Longrightarrow> ceil_log2 n r' \<Longrightarrow> r = r'"
  by (meson ceil_log2_def le_antisym)

lemma util_NearestLog2_ceil:
  assumes "v \<noteq> 0"
  shows "ceil_log2 (unat v) (unat (util_NearestLog2 v))" "unat (util_NearestLog2 v) \<le> 32"
proof -
  have "unat v \<noteq> 0" using assms by (simp add: unat_eq_zero)
  then obtain k where k: "width_of (unat v) (Suc k)" using width_of_exists by blast
  have b: "k < 32" using k by (rule width_bound)
  have "unat (of_nat (if unat v = 2 ^ k then k else Suc k) :: u32) = (if unat v = 2 ^ k then k else Suc k)"
    using b by (simp add: unat_of_nat)
  then show "ceil_log2 (unat v) (unat (util_NearestLog2 v))" "unat (util_NearestLog2 v) \<le> 32"
    using util_NearestLog2_width [OF k] ceil_log2_width [OF k] b by (auto split: if_splits)
qed

section \<open>The loop of \<^verbatim>\<open>util_log2\<close>\<close>

lemma word_exp_unat: "k < 32 \<Longrightarrow> unat (2 ^ k :: u32) = 2 ^ k"
proof -
  assume k: "k < 32"
  have "unat (of_nat (2 ^ k) :: u32) = 2 ^ k"
    unfolding unat_of_nat using power_strict_increasing [OF k, of "2::nat"] by (intro mod_less) simp
  then show ?thesis by simp
qed

lemma word_exp_le: "(2 ^ k :: u32) \<le> 2 ^ 31"
proof (cases "k < 32")
  case True
  then have "(2::nat) ^ k \<le> 2 ^ 31" by (intro power_increasing) auto
  then show ?thesis using True by (simp add: word_le_unat word_exp_unat)
next
  case False
  then have "(2 ^ k :: u32) = 0" by (simp add: exp_eq_zero_iff)
  then show ?thesis by (simp only: word_zero_le)
qed

text \<open>Whatever the loop returns is a power of two that is not below its argument.\<close>

lemma log2_loop_result:
  assumes "log2_loop s d iter = Some r"
  shows "(\<exists>k. d = 2 ^ k) \<longrightarrow> s \<le> fst r \<and> (\<exists>k. fst r = 2 ^ k)"
proof (rule log2_loop.raw_induct [OF _ assms], intro impI)
  fix f :: "u32 \<Rightarrow> u32 \<Rightarrow> u32 \<Rightarrow> (u32 \<times> u32) option" and s d iter r
  assume IH: "\<And>s d iter r. f s d iter = Some r \<Longrightarrow>
      (\<exists>k. d = 2 ^ k) \<longrightarrow> s \<le> fst r \<and> (\<exists>k. fst r = 2 ^ k)"
    and r: "(let d' = d * 2; iter' = iter + 1
      in if d' < s then f s d' iter' else Some (d', iter')) = Some r"
    and "\<exists>k. d = 2 ^ k"
  then obtain k where k: "d * 2 = 2 ^ Suc k" by (auto simp: mult.commute)
  show "s \<le> fst r \<and> (\<exists>k. fst r = 2 ^ k)"
  proof (cases "d * 2 < s")
    case True
    then show ?thesis using IH [of s "d * 2" "iter + 1" r] r k by (auto simp: Let_def simp del: power_Suc)
  next
    case False
    then have "r = (d * 2, iter + 1)" using r by (simp add: Let_def)
    then show ?thesis using False k by (metis fst_conv not_less)
  qed
qed

lemma log2_loop_endless: "2 ^ 31 < s \<Longrightarrow> log2_loop s 1 (- 1) = None"
proof (rule ccontr)
  assume s: "2 ^ 31 < s" and "log2_loop s 1 (- 1) \<noteq> None"
  then obtain r where r: "log2_loop s 1 (- 1) = Some r" by auto
  have "s \<le> fst r \<and> (\<exists>k. fst r = 2 ^ k)"
    by (rule log2_loop_result [OF r, THEN mp]) (rule exI [of _ 0], simp)
  then obtain k where "s \<le> 2 ^ k" by auto
  then show False using s word_exp_le [of k] by (meson leD order_trans)
qed

lemma log2_loop_returns:
  assumes "s \<le> 2 ^ 31" "k < 31" "2 ^ k < unat s"
  shows "\<exists>m. k < m \<and> m < 32 \<and> 2 ^ (m - 1) < unat s \<and> unat s \<le> 2 ^ m \<and>
    log2_loop s (2 ^ k) (of_nat k - 1) = Some (2 ^ m, of_nat m - 1)"
  using assms(2,3)
proof (induction "31 - k" arbitrary: k)
  case 0
  then show ?case by simp
next
  case (Suc n)
  have d: "(2 ^ k :: u32) * 2 = 2 ^ Suc k" "(of_nat k - 1 :: u32) + 1 = of_nat (Suc k) - 1"
    by (simp_all add: mult.commute)
  show ?case
  proof (cases "2 ^ Suc k < s")
    case False
    then have "unat s \<le> 2 ^ Suc k"
      using Suc.prems(1) word_exp_unat [of "Suc k"] by (simp add: word_le_unat not_less)
    then show ?thesis
      using False Suc.prems
      by (intro exI [of _ "Suc k"]) (simp add: log2_loop.simps [of s "2 ^ k"] Let_def d(1) del: power_Suc)
  next
    case True
    then have lt: "2 ^ Suc k < unat s" using Suc.prems(1) word_exp_unat [of "Suc k"] by (simp add: word_less_unat)
    have "Suc k < 31"
    proof (rule ccontr)
      assume "\<not> Suc k < 31"
      then have "Suc k = 31" using Suc.prems(1) by simp
      then show False using True assms(1) by simp
    qed
    moreover have "n = 31 - Suc k" using Suc.hyps(2) by simp
    ultimately obtain m where "Suc k < m" "m < 32" "2 ^ (m - 1) < unat s" "unat s \<le> 2 ^ m"
        "log2_loop s (2 ^ Suc k) (of_nat (Suc k) - 1) = Some (2 ^ m, of_nat m - 1)"
      using Suc.hyps(1) [OF _ _ lt] by blast
    then show ?thesis
      using True by (intro exI [of _ m]) (simp add: log2_loop.simps [of s "2 ^ k"] Let_def d(1) del: power_Suc)
  qed
qed

lemma util_NearestLog2_eqI:
  assumes "v \<noteq> 0" "ceil_log2 (unat v) m" shows "util_NearestLog2 v = of_nat m"
proof -
  have "m = unat (util_NearestLog2 v)"
    using util_NearestLog2_ceil(1) [OF assms(1)] assms(2) by (rule ceil_log2_unique [rotated])
  then show ?thesis by simp
qed

lemma util_NearestLog2_exp: "k < 32 \<Longrightarrow> util_NearestLog2 (2 ^ k) = of_nat k"
  by (rule util_NearestLog2_eqI) (auto simp: word_exp_unat ceil_log2_def exp_eq_zero_iff)

section \<open>Bit scans\<close>

definition lowest_bit :: "'w::len word \<Rightarrow> nat \<Rightarrow> bool" where
  "lowest_bit m i \<longleftrightarrow> bit m i \<and> (\<forall>j<i. \<not> bit m j)"

definition highest_bit :: "'w::len word \<Rightarrow> nat \<Rightarrow> bool" where
  "highest_bit m i \<longleftrightarrow> bit m i \<and> (\<forall>j>i. \<not> bit m j)"

lemma lowest_bit_unique: "lowest_bit m i \<Longrightarrow> lowest_bit m j \<Longrightarrow> i = j"
  unfolding lowest_bit_def by (metis linorder_neqE_nat)

lemma highest_bit_unique: "highest_bit m i \<Longrightarrow> highest_bit m j \<Longrightarrow> i = j"
  unfolding highest_bit_def by (metis linorder_neqE_nat)

lemma first_index:
  assumes "\<exists>j<n. P j"
  defines "i \<equiv> length (takeWhile (\<lambda>j. \<not> P j) [0..<n])"
  shows "i < n" "P i" "\<And>j. j < i \<Longrightarrow> \<not> P j"
proof -
  have "dropWhile (\<lambda>j. \<not> P j) [0..<n] \<noteq> []" using assms(1) by (auto simp: dropWhile_eq_Nil_conv)
  then have "0 < length (dropWhile (\<lambda>j. \<not> P j) [0..<n])" using length_greater_0_conv by blast
  then have "length (takeWhile (\<lambda>j. \<not> P j) [0..<n]) < length [0..<n]"
    using length_append [of "takeWhile (\<lambda>j. \<not> P j) [0..<n]" "dropWhile (\<lambda>j. \<not> P j) [0..<n]"]
    unfolding takeWhile_dropWhile_id by linarith
  then show i: "i < n" by (simp add: i_def)
  then show "P i"
    using nth_length_takeWhile [of "\<lambda>j. \<not> P j" "[0..<n]"] by (simp add: i_def)
  show "\<not> P j" if "j < i" for j
    using set_takeWhileD nth_mem [of j "takeWhile (\<lambda>j. \<not> P j) [0..<n]"] that i
      takeWhile_nth [of j "\<lambda>j. \<not> P j" "[0..<n]"]
    by (fastforce simp: i_def)
qed

lemma first_index_rev:
  assumes "\<exists>j<n. P j"
  defines "i \<equiv> n - 1 - length (takeWhile (\<lambda>j. \<not> P j) (rev [0..<n]))"
  shows "i < n" "P i" "\<And>j. j < n \<Longrightarrow> i < j \<Longrightarrow> \<not> P j"
proof -
  have e: "takeWhile (\<lambda>j. \<not> P j) (rev [0..<n]) = map (\<lambda>k. n - 1 - k) (takeWhile (\<lambda>k. \<not> P (n - 1 - k)) [0..<n])"
  proof -
    have "rev [0..<n] = map (\<lambda>k. n - 1 - k) [0..<n]"
      by (rule nth_equalityI) (auto simp: rev_nth)
    then show ?thesis by (simp add: takeWhile_map comp_def)
  qed
  define l where "l = length (takeWhile (\<lambda>k. \<not> P (n - 1 - k)) [0..<n])"
  have il: "i = n - 1 - l" by (simp add: i_def e l_def)
  obtain j where j: "j < n" "P j" using assms(1) by blast
  then have "\<exists>k<n. P (n - 1 - k)" by (intro exI [of _ "n - 1 - j"]) auto
  from first_index [OF this] have l: "l < n" "P (n - 1 - l)" "\<And>k. k < l \<Longrightarrow> \<not> P (n - 1 - k)"
    by (auto simp: l_def)
  show "i < n" "P i" using l il by auto
  show "\<not> P j" if "j < n" "i < j" for j
    using l(3) [of "n - 1 - j"] that il l(1) by auto
qed

lemma word_nonzero_bit: "(m :: u32) \<noteq> 0 \<longleftrightarrow> (\<exists>j<32. bit m j)"
proof -
  have "m = 0 \<longleftrightarrow> (\<forall>j<32. \<not> bit m j)"
    by (auto intro!: bit_word_eqI)
  then show ?thesis by blast
qed

lemma bit_u32_less: "bit (m :: u32) j \<Longrightarrow> j < 32"
  using bit_imp_le_length [of m j] by simp

lemma BitScanForward_lowest:
  assumes "m \<noteq> 0" shows "\<exists>i. BitScanForward m = Some i \<and> lowest_bit m i"
proof -
  have ex: "\<exists>j<32. bit m j" using assms by (simp only: word_nonzero_bit)
  note first = first_index [OF ex]
  have "BitScanForward m = Some (length (takeWhile (\<lambda>i. \<not> bit m i) [0..<32]))"
    unfolding BitScanForward_def builtin_ffs_def if_not_P [OF assms] diff_Suc_1 ..
  then show ?thesis unfolding lowest_bit_def using first(2,3) by blast
qed

lemma BitScanReverse_highest:
  assumes "m \<noteq> 0" shows "\<exists>i. BitScanReverse m = Some i \<and> highest_bit m i"
proof -
  have ex: "\<exists>j<32. bit m j" using assms by (simp only: word_nonzero_bit)
  note first = first_index_rev [OF ex]
  have "(31::nat) = 32 - 1" by simp
  then have "BitScanReverse m = Some (32 - 1 - length (takeWhile (\<lambda>i. \<not> bit m i) (rev [0..<32])))"
    unfolding BitScanReverse_def builtin_clz_def if_not_P [OF assms] by (simp only:)
  then show ?thesis unfolding highest_bit_def using first(2,3) bit_u32_less by blast
qed

lemma bit_mask_0: "bit (mask_0 m) i \<longleftrightarrow> i < 32 \<and> bit m i"
  by (auto simp: mask_0_def bit_ucast_iff)

lemma bit_mask_1: "bit (mask_1 m) i \<longleftrightarrow> i < 32 \<and> bit m (i + 32)"
  by (auto simp: mask_1_def bit_ucast_iff bit_drop_bit_eq add.commute)

lemma bit_u64_less: "bit (m :: u64) j \<Longrightarrow> j < 64"
  using bit_imp_le_length [of m j] by simp

lemma masks_zero: "mask_0 m = 0 \<Longrightarrow> mask_1 m = 0 \<Longrightarrow> m = 0"
proof (rule bit_word_eqI)
  fix i assume z: "mask_0 m = 0" "mask_1 m = 0" and "i < LENGTH(64)"
  then have "\<not> bit m i" if "i < 32" for i using bit_mask_0 [of m i] z that by simp
  moreover have "\<not> bit m i" if "\<not> i < 32"
    using bit_mask_1 [of m "i - 32"] z that \<open>i < LENGTH(64)\<close> by simp
  ultimately show "bit m i = bit 0 i" by auto
qed

lemma lowest_mask_0: "lowest_bit (mask_0 m) i \<Longrightarrow> lowest_bit m i"
  using bit_u32_less [of "mask_0 m" i] by (auto simp: lowest_bit_def bit_mask_0)

lemma lowest_mask_1: "mask_0 m = 0 \<Longrightarrow> lowest_bit (mask_1 m) i \<Longrightarrow> lowest_bit m (i + 32)"
proof -
  assume z: "mask_0 m = 0" and l: "lowest_bit (mask_1 m) i"
  have "\<not> bit m j" if "j < i + 32" for j
  proof (cases "j < 32")
    case True
    then show ?thesis using z bit_mask_0 [of m j] by simp
  next
    case False
    then have "\<not> bit (mask_1 m) (j - 32)" using l that by (auto simp: lowest_bit_def)
    moreover have "j - 32 < 32" using l that bit_u32_less [of "mask_1 m" i] by (auto simp: lowest_bit_def)
    ultimately show ?thesis using False by (simp add: bit_mask_1)
  qed
  then show ?thesis using l by (auto simp: lowest_bit_def bit_mask_1)
qed

lemma highest_mask_1: "highest_bit (mask_1 m) i \<Longrightarrow> highest_bit m (i + 32)"
proof -
  assume l: "highest_bit (mask_1 m) i"
  have "\<not> bit m j" if "i + 32 < j" for j
  proof
    assume "bit m j"
    then have "bit (mask_1 m) (j - 32)" using that bit_u64_less [of m j] by (simp add: bit_mask_1)
    then show False using l that by (auto simp: highest_bit_def)
  qed
  then show ?thesis using l by (auto simp: highest_bit_def bit_mask_1)
qed

lemma highest_mask_0: "mask_1 m = 0 \<Longrightarrow> highest_bit (mask_0 m) i \<Longrightarrow> highest_bit m i"
proof -
  assume z: "mask_1 m = 0" and l: "highest_bit (mask_0 m) i"
  have "\<not> bit m j" if "i < j" for j
  proof
    assume b: "bit m j"
    then have "bit (mask_0 m) j \<or> bit (mask_1 m) (j - 32)"
      using bit_u64_less [of m j] by (auto simp: bit_mask_0 bit_mask_1)
    then show False using l that z by (auto simp: highest_bit_def)
  qed
  then show ?thesis using l by (auto simp: highest_bit_def bit_mask_0)
qed

text \<open>The position that \<open>util_get_msb_position\<close> counts is the highest set bit.\<close>

lemma msb_loop_width:
  "v \<noteq> 0 \<Longrightarrow> \<exists>k. msb_loop v p = p + of_nat k \<and> width_of (unat v) (Suc k)"
proof (induction v p rule: msb_loop.induct)
  case (1 v p)
  show ?case
  proof (cases "v > 1")
    case False
    moreover have "unat v \<noteq> 0" using 1(2) by (simp add: unat_eq_zero)
    ultimately have "unat v = unat (1 :: u32)" by (simp add: word_less_unat)
    then have "v = 1" by (simp only: word_unat_eq_iff)
    then show ?thesis by (intro exI [of _ 0]) (simp add: msb_loop.simps width_of_def)
  next
    case True
    then have "2 \<le> unat v" by (simp add: word_less_unat)
    then have nz: "unat v div 2 ^ 1 \<noteq> 0" by (auto simp: div_eq_0_iff)
    then have "drop_bit 1 v \<noteq> 0" using unat_drop [of 1 v] by (metis unat_0)
    then obtain k where k: "msb_loop (drop_bit 1 v) (p + 1) = p + 1 + of_nat k"
        "width_of (unat v div 2 ^ 1) (Suc k)"
      using 1(1) [OF True] unat_drop [of 1 v] by auto
    show ?thesis
      using k(1) True width_of_shift [OF nz k(2)]
      by (intro exI [of _ "Suc k"]) (simp add: msb_loop.simps [of v])
  qed
qed

lemma width_highest_bit:
  assumes "width_of (unat (v :: u32)) (Suc k)" shows "highest_bit v k"
proof -
  have bit: "bit v j \<longleftrightarrow> odd (unat v div 2 ^ j)" for j
    by (metis bit_iff_odd bit_unsigned_iff bit_imp_possible_bit possible_bit_nat)
  have n: "2 ^ k \<le> unat v" "unat v < 2 * 2 ^ k" using assms by (auto simp: width_of_def)
  then have "unat v div 2 ^ k = 1" by (simp add: div_nat_eqI)
  moreover have "unat v div 2 ^ j = 0" if "k < j" for j
  proof -
    have "(2::nat) ^ Suc k \<le> 2 ^ j" using that by (intro power_increasing) auto
    then show ?thesis using n by simp
  qed
  ultimately show ?thesis by (simp add: highest_bit_def bit)
qed

lemma util_get_msb_position_highest:
  assumes "v \<noteq> 0"
  shows "\<exists>i<32. util_get_msb_position v = Done (of_nat i) \<and> highest_bit v i"
proof -
  obtain k where k: "msb_loop v 0 = of_nat k" "width_of (unat v) (Suc k)"
    using msb_loop_width [OF assms, of 0] by auto
  have "v > 0" using assms by (simp add: word_gt_0)
  then show ?thesis
    using k width_bound [OF k(2)] width_highest_bit [OF k(2)] by (auto simp: util_get_msb_position_def)
qed

section \<open>CRC: the table is the bitwise division\<close>

text \<open>The bit by bit reference: feed a byte at the top, then shift eight times.\<close>

definition crc_bitwise :: "u8 list \<Rightarrow> u32" where
  "crc_bitwise buf = fold (\<lambda>p crc. (crc_shift ^^ 8) (crc XOR push_bit 24 (ucast p))) buf 0xFFFFFFFF"

lemma crc_shift_bit31: "crc_shift c = push_bit 1 c XOR (if bit c 31 then crc_poly else 0)"
proof -
  have "(0x80000000 :: u32) = push_bit 31 1" by simp
  then have "c AND 0x80000000 \<noteq> 0 \<longleftrightarrow> bit c 31"
    by (simp only: bit_iff_and_push_bit_not_eq_0)
  then show ?thesis by (simp add: crc_shift_def)
qed

lemma crc_shift_xor: "crc_shift (a XOR b) = crc_shift a XOR crc_shift b"
  unfolding crc_shift_bit31 push_bit_xor bit_xor_iff
  by (auto simp: ac_simps xor_self_eq)

lemma crc_shift_pow_xor: "(crc_shift ^^ n) (a XOR b) = (crc_shift ^^ n) a XOR (crc_shift ^^ n) b"
  by (induction n arbitrary: a b) (simp_all add: crc_shift_xor)

text \<open>A value whose top bits are clear is only shifted.\<close>

lemma crc_shift_low: "(\<forall>i\<ge>32 - n. \<not> bit c i) \<Longrightarrow> (crc_shift ^^ n) c = push_bit n c"
proof (induction n arbitrary: c)
  case (Suc n)
  have "\<not> bit c 31" using Suc.prems by simp
  then have s: "crc_shift c = push_bit 1 c" by (simp add: crc_shift_bit31)
  have "\<forall>i\<ge>32 - n. \<not> bit (push_bit 1 c) i"
  proof (intro allI impI)
    fix i assume "32 - n \<le> i"
    then have "\<not> bit c (i - 1)" using Suc.prems by simp
    then show "\<not> bit (push_bit 1 c) i" unfolding bit_push_bit_iff by simp
  qed
  then have "(crc_shift ^^ n) (push_bit 1 c) = push_bit n (push_bit 1 c)" by (rule Suc.IH)
  then show ?case by (simp only: funpow_Suc_right comp_apply s push_bit_push_bit add.commute plus_1_eq_Suc)
qed simp

lemma crc_split:
  "(c :: u32) XOR push_bit 24 (ucast (p :: u8)) =
   push_bit 24 ((drop_bit 24 c XOR ucast p) AND 0xFF) XOR take_bit 24 c"
proof -
  have ff: "(0xFF :: u32) = mask 8" by (simp add: mask_eq_exp_minus_1)
  have len: "bit (ucast p :: u32) i \<longleftrightarrow> i < 8 \<and> bit p i" for i
    using bit_imp_le_length [of p i] by (auto simp: bit_ucast_iff)
  show ?thesis
    unfolding ff
    by (rule bit_word_eqI)
      (auto simp: bit_xor_iff bit_push_bit_iff bit_and_iff bit_drop_bit_eq bit_take_bit_iff bit_mask_iff len)
qed

lemma crc_table_step:
  "push_bit 8 crc XOR crc_table ! unat ((drop_bit 24 crc XOR ucast (p :: u8)) AND 0xFF :: u32) =
   (crc_shift ^^ 8) (crc XOR push_bit 24 (ucast p))"
proof -
  let ?b = "(drop_bit 24 crc XOR ucast p) AND 0xFF :: u32"
  have "?b \<le> 0xFF" by (rule word_and_le1)
  then have b: "unat ?b < 256" by (simp add: word_le_unat)
  have entry: "crc_table ! unat ?b = (crc_shift ^^ 8) (push_bit 24 ?b)"
    using b by (simp add: crc_table_def crc_entry_def del: upt_rec_numeral)
  have "(crc_shift ^^ 8) (take_bit 24 crc) = push_bit 8 (take_bit 24 crc)"
    by (rule crc_shift_low) (auto simp: bit_take_bit_iff)
  also have "\<dots> = push_bit 8 crc"
    by (rule bit_word_eqI) (auto simp: bit_push_bit_iff bit_take_bit_iff)
  finally show ?thesis
    unfolding crc_split crc_shift_pow_xor entry by (simp only: xor.commute)
qed

section \<open>Properties\<close>

text \<open>
  \<open>util_NearestLog2\<close> of a nonzero value is the least exponent whose power of two is not
  below the value, and 0 gives \<^verbatim>\<open>0xFFFFFFFF\<close>.
\<close>

theorem util_NearestLog2_correct:
  "(v \<noteq> 0 \<longrightarrow> ceil_log2 (unat v) (unat (util_NearestLog2 v))) \<and> util_NearestLog2 0 = 0xFFFFFFFF"
proof -
  have "util_NearestLog2 0 = 0xFFFFFFFF"
    by (simp add: util_NearestLog2_def nearest_by4.simps nearest_by1.simps util_IsPow2_def)
  then show ?thesis using util_NearestLog2_ceil(1) by blast
qed

theorem util_NearestLog2_correct_witness: "util_NearestLog2 5 = 3"
proof -
  have "ceil_log2 5 (unat (util_NearestLog2 5))" using util_NearestLog2_correct [of 5] by simp
  moreover have "3 \<le> m" if "(5::nat) \<le> 2 ^ m" for m
    using that by (rule_tac ccontr) (auto simp: not_le numeral_3_eq_3 less_Suc_eq)
  then have "ceil_log2 5 3" by (simp add: ceil_log2_def)
  ultimately have "unat (util_NearestLog2 5) = unat (3 :: u32)" using ceil_log2_unique by simp
  then show ?thesis by (simp only: word_unat_eq_iff)
qed

text \<open>
  \<open>util_log2\<close> ends for every argument from 1 to \<open>2 ^ 31\<close>, where its switch and its loop agree with
  \<open>util_NearestLog2\<close>: both round the logarithm up.
\<close>

theorem util_log2_eq_NearestLog2:
  assumes "s \<noteq> 0" "s \<le> 2 ^ 31"
  shows "util_log2 s = Some (util_NearestLog2 s)"
proof (cases "\<exists>k\<in>{0..10}. s = 2 ^ k")
  case True
  then obtain k where k: "k \<le> 10" "s = 2 ^ k" by auto
  from k(1) have "k = 0 \<or> k = 1 \<or> k = 2 \<or> k = 3 \<or> k = 4 \<or> k = 5 \<or> k = 6 \<or> k = 7 \<or> k = 8 \<or> k = 9 \<or> k = 10"
    by arith
  moreover have "util_NearestLog2 s = of_nat k" using util_NearestLog2_exp [of k] k by simp
  ultimately show ?thesis unfolding k(2) by (elim disjE) (simp_all add: util_log2_def)
next
  case False
  then have ne: "s \<noteq> 2 ^ k" if "k \<le> 10" for k using that by simp
  then have other: "util_log2 s = (case log2_loop s 1 (- 1) of None \<Rightarrow> None
      | Some (d, iter) \<Rightarrow> Some (iter + (if push_bit 1 s \<noteq> d then 1 else 0)))"
    using ne [of 0] ne [of 1] ne [of 2] ne [of 3] ne [of 4] ne [of 5] ne [of 6] ne [of 7] ne [of 8]
      ne [of 9] ne [of 10] by (simp add: util_log2_def)
  have "s \<noteq> 1" using ne [of 0] by simp
  then have "2 ^ 0 < unat s"
    using assms(1) by (metis One_nat_def less_one linorder_neqE_nat power_0 unat_1 unat_eq_zero word_unat_eq_iff)
  then obtain m where m: "0 < m" "m < 32" "2 ^ (m - 1) < unat s" "unat s \<le> 2 ^ m"
      "log2_loop s (2 ^ 0) (of_nat 0 - 1) = Some (2 ^ m, of_nat m - 1)"
    using log2_loop_returns [OF assms(2), of 0] by auto
  have "push_bit 1 s \<noteq> 2 ^ m"
  proof
    assume e: "push_bit 1 s = 2 ^ m"
    have "unat (push_bit 1 s) = unat s * 2 mod 2 ^ 32" by (simp add: unat_word_ariths)
    then have mod: "unat s * 2 mod 2 ^ 32 = 2 ^ m" using m(2) by (simp only: e word_exp_unat)
    have "unat s \<le> 2 ^ 31" using assms(2) by (simp add: word_le_unat)
    moreover have "unat s \<noteq> 2 ^ 31" using mod by (intro notI) simp
    ultimately have "unat s * 2 = 2 ^ m" using mod by simp
    moreover have "(2::nat) ^ m = 2 ^ (m - 1) * 2" using m(1) by (cases m) auto
    ultimately show False using m(3) by simp
  qed
  moreover have "ceil_log2 (unat s) m"
    using m by (intro ceil_log2I) auto
  ultimately show ?thesis
    using util_NearestLog2_eqI [OF assms(1)] m(5) by (simp add: other)
qed

theorem util_log2_eq_NearestLog2_witness: "util_log2 3000 = Some (util_NearestLog2 3000)"
  by (rule util_log2_eq_NearestLog2) (simp_all add: word_le_unat)

text \<open>
  \<open>util_log2\<close> of an argument above \<open>2 ^ 31\<close> never returns: the power of two it doubles wraps to 0.
\<close>

theorem util_log2_endless: "2 ^ 31 < s \<Longrightarrow> util_log2 s = None"
proof -
  assume s: "2 ^ 31 < s"
  have "s \<noteq> 2 ^ k" for k using s word_exp_le [of k] by (auto simp: not_less)
  from this [of 0] this [of 1] this [of 2] this [of 3] this [of 4] this [of 5] this [of 6] this [of 7]
    this [of 8] this [of 9] this [of 10]
  show ?thesis using log2_loop_endless [OF s] by (simp add: util_log2_def)
qed

theorem util_log2_endless_witness: "util_log2 0x80000001 = None"
  by (rule util_log2_endless) (simp add: word_less_unat)

text \<open>
  The 64 bit scans, built from two 32 bit scans, find the lowest and the highest set bit of the
  whole mask, and report failure for the empty mask only.
\<close>

theorem BitScan_64_correct:
  "(BitScanForward_64 m = Some i \<longleftrightarrow> lowest_bit m i) \<and>
   (BitScanReverse_64 m = Some i \<longleftrightarrow> highest_bit m i) \<and>
   (BitScanForward_64 m = None \<longleftrightarrow> m = 0) \<and> (BitScanReverse_64 m = None \<longleftrightarrow> m = 0)"
proof (cases "m = 0")
  case True
  then show ?thesis
    by (auto simp: BitScanForward_64_def BitScanReverse_64_def BitScanForward_def BitScanReverse_def
        mask_0_def mask_1_def lowest_bit_def highest_bit_def)
next
  case False
  have "\<exists>j. BitScanForward_64 m = Some j \<and> lowest_bit m j"
  proof (cases "mask_0 m = 0")
    case True
    then have "mask_1 m \<noteq> 0" using False masks_zero by blast
    from BitScanForward_lowest [OF this] show ?thesis
      using True lowest_mask_1 [OF True] by (auto simp: BitScanForward_64_def)
  next
    case nz: False
    from BitScanForward_lowest [OF this] show ?thesis
      using nz lowest_mask_0 by (auto simp: BitScanForward_64_def)
  qed
  moreover have "\<exists>j. BitScanReverse_64 m = Some j \<and> highest_bit m j"
  proof (cases "mask_1 m = 0")
    case True
    then have "mask_0 m \<noteq> 0" using False masks_zero by blast
    from BitScanReverse_highest [OF this] show ?thesis
      using True highest_mask_0 [OF True] by (auto simp: BitScanReverse_64_def)
  next
    case nz: False
    from BitScanReverse_highest [OF this] show ?thesis
      using nz highest_mask_1 by (auto simp: BitScanReverse_64_def)
  qed
  ultimately show ?thesis
    using False lowest_bit_unique highest_bit_unique by (metis option.distinct(1) option.inject)
qed

text \<open>
  C18. The table driven \<open>util_crc32\<close> is the bit by bit CRC of the same polynomial, for every buffer.
\<close>

theorem util_crc32_bitwise: "util_crc32 buf = crc_bitwise buf"
  unfolding util_crc32_def crc_bitwise_def crc_table_step ..

end
