(* ===== verification/Vm_Id.thy ===== *)
theory Vm_Id
  imports Bit_Util
begin

text \<open>
  Address space ids of the engines: \<^verbatim>\<open>core/vidsch/vidsch_vm_id.c\<close> and the id counts of
  \<^verbatim>\<open>vidsch_query_vm_id\<close>. Each id object remembers the device that owns it, the age of the page
  directory loaded under it and, per engine, the fence of the last work submitted with it. \<open>ret e\<close> is the
  fence engine \<open>e\<close> has returned; waiting for a fence raises it to that fence at least. The main
  result is that no two devices ever have unfinished work under the same id.
\<close>

section \<open>State\<close>

record vm_id_obj =
  vo_device_uuid :: int
  vo_pd_age :: int
  vo_bitmap :: u32
  vo_last_flush :: "nat \<Rightarrow> u64"

record vm_id_mgr =
  vm_num_ids :: nat
  vm_reserved_num_ids :: nat
  vm_id_list :: "nat list"
  vm_id_array :: "vm_id_obj list"

record gpu_device =
  dv_uuid :: int
  dv_vm_id :: "nat option"

type_synonym fences = "nat \<Rightarrow> u64"

definition MAX_ENGINE_COUNT :: nat where
  "MAX_ENGINE_COUNT = 12"

datatype chip = CHIP_CHX004 | CHIP_CNE001

definition upd_obj :: "nat \<Rightarrow> (vm_id_obj \<Rightarrow> vm_id_obj) \<Rightarrow> vm_id_mgr \<Rightarrow> vm_id_mgr" where
  "upd_obj i f m = m\<lparr>vm_id_array := (vm_id_array m)[i := f (vm_id_array m ! i)]\<rparr>"

section \<open>Operations\<close>

definition vidsch_query_vm_id :: "nat \<times> nat" where
  "vidsch_query_vm_id = (16, 1)"

text \<open>\<open>private_age\<close> is \<open>Some (id, root_pd_age)\<close> on the chip with a private space (CNE001).\<close>

definition vidschi_init_vm_id_mgr :: "nat \<times> nat \<Rightarrow> (nat \<times> int) option \<Rightarrow> vm_id_mgr" where
  "vidschi_init_vm_id_mgr info private_age =
     (let m = \<lparr>vm_num_ids = fst info, vm_reserved_num_ids = snd info,
               vm_id_list = [snd info..<fst info],
               vm_id_array = replicate (fst info)
                 \<lparr>vo_device_uuid = 0, vo_pd_age = 0, vo_bitmap = 0, vo_last_flush = \<lambda>_. 0\<rparr>\<rparr>
      in case private_age of
           None \<Rightarrow> m
         | Some (private_vm_id, root_pd_age) \<Rightarrow> upd_obj private_vm_id (\<lambda>v. v\<lparr>vo_pd_age := root_pd_age\<rparr>) m)"

definition vidschi_vm_id_add_sync :: "vm_id_obj \<Rightarrow> u64 \<Rightarrow> nat \<Rightarrow> vm_id_obj" where
  "vidschi_vm_id_add_sync v fence_id engine_idx =
     v\<lparr>vo_last_flush := (vo_last_flush v)(engine_idx := fence_id),
       vo_bitmap := set_bit engine_idx (vo_bitmap v)\<rparr>"

text \<open>\<^verbatim>\<open>vidsch_wait_fence_back\<close> with \<^verbatim>\<open>force_wait\<close> returns only when the fence is back.\<close>

definition wait_fence_back :: "nat \<Rightarrow> u64 \<Rightarrow> fences \<Rightarrow> fences" where
  "wait_fence_back e f ret = ret(e := max (ret e) f)"

fun fini_engines :: "nat list \<Rightarrow> vm_id_obj \<Rightarrow> fences \<Rightarrow> vm_id_obj \<times> fences" where
  "fini_engines [] v ret = (v, ret)"
| "fini_engines (j # js) v ret =
     (if bit (vo_bitmap v) j
      then fini_engines js (v\<lparr>vo_bitmap := unset_bit j (vo_bitmap v)\<rparr>)
             (wait_fence_back j (vo_last_flush v j) ret)
      else fini_engines js v ret)"

fun fini_ids :: "vm_id_obj list \<Rightarrow> fences \<Rightarrow> vm_id_obj list \<times> fences" where
  "fini_ids [] ret = ([], ret)"
| "fini_ids (v # vs) ret =
     (case fini_engines [0..<MAX_ENGINE_COUNT] v ret of
        (v', ret') \<Rightarrow> (case fini_ids vs ret' of (vs', ret'') \<Rightarrow> (v' # vs', ret'')))"

definition vidschi_fini_vm_id_mgr :: "vm_id_mgr \<Rightarrow> fences \<Rightarrow> fences" where
  "vidschi_fini_vm_id_mgr m ret = snd (fini_ids (vm_id_array m) ret)"

text \<open>The engine the loops look at: the highest one left in the bitmap.\<close>

definition msb_engine :: "u32 \<Rightarrow> nat" where
  "msb_engine bitmap = (case util_get_msb_position bitmap of Done p \<Rightarrow> unat p | Panic \<Rightarrow> 0)"

lemma msb_engine_bit: "bitmap \<noteq> 0 \<Longrightarrow> bit bitmap (msb_engine bitmap)"
  using util_get_msb_position_highest [of bitmap]
  by (auto simp: msb_engine_def highest_bit_def unat_of_nat)

definition bits_of :: "u32 \<Rightarrow> nat set" where
  "bits_of b = {i. bit b i}"

lemma finite_bits_of [simp]: "finite (bits_of b)"
  by (rule finite_subset [of _ "{..<32}"]) (auto simp: bits_of_def dest: bit_u32_less)

lemma bits_of_unset [simp]: "bits_of (unset_bit e b) = bits_of b - {e}"
  by (auto simp: bits_of_def bit_unset_bit_iff)

lemma card_unset_msb: "b \<noteq> 0 \<Longrightarrow> card (bits_of (unset_bit (msb_engine b) b)) < card (bits_of b)"
  using msb_engine_bit [of b] unfolding bits_of_unset
  by (intro card_Diff1_less) (simp_all, simp add: bits_of_def)

function idle_loop :: "fences \<Rightarrow> u32 \<Rightarrow> vm_id_obj \<Rightarrow> bool \<times> vm_id_obj" where
  "idle_loop ret bitmap v =
     (if bitmap = 0 then (True, v)
      else let e = msb_engine bitmap
           in if vo_last_flush v e \<le> ret e
              then idle_loop ret (unset_bit e bitmap) (v\<lparr>vo_bitmap := unset_bit e (vo_bitmap v)\<rparr>)
              else (False, v))"
  by pat_completeness auto
termination
  by (relation "measure (\<lambda>(_, b, _). card (bits_of b))") (auto simp: card_unset_msb simp del: bits_of_unset)

declare idle_loop.simps [simp del]

definition vidschi_is_vm_id_idle :: "fences \<Rightarrow> vm_id_obj \<Rightarrow> u32 \<Rightarrow> bool \<times> vm_id_obj" where
  "vidschi_is_vm_id_idle ret v engine_mask = idle_loop ret (vo_bitmap v AND engine_mask) v"

function wait_loop :: "fences \<Rightarrow> u32 \<Rightarrow> vm_id_obj \<Rightarrow> fences \<times> vm_id_obj" where
  "wait_loop ret bitmap v =
     (if bitmap = 0 then (ret, v)
      else let e = msb_engine bitmap
           in wait_loop (wait_fence_back e (vo_last_flush v e) ret) (unset_bit e bitmap)
                (v\<lparr>vo_bitmap := unset_bit e (vo_bitmap v)\<rparr>))"
  by pat_completeness auto
termination
  by (relation "measure (\<lambda>(_, b, _). card (bits_of b))") (auto simp: card_unset_msb simp del: bits_of_unset)

declare wait_loop.simps [simp del]

definition vidschi_wait_vm_id_idle :: "fences \<Rightarrow> vm_id_obj \<Rightarrow> u32 \<Rightarrow> fences \<times> vm_id_obj" where
  "vidschi_wait_vm_id_idle ret v engine_mask = wait_loop ret (vo_bitmap v AND engine_mask) v"

text \<open>The scan of the list for an idle id; the test writes back the bitmaps it clears.\<close>

fun scan_idle :: "fences \<Rightarrow> nat list \<Rightarrow> vm_id_mgr \<Rightarrow> nat option \<times> vm_id_mgr" where
  "scan_idle ret [] m = (None, m)"
| "scan_idle ret (i # is) m =
     (case vidschi_is_vm_id_idle ret (vm_id_array m ! i) (- 1) of
        (idle, v) \<Rightarrow>
          if idle then (Some i, upd_obj i (\<lambda>_. v) m) else scan_idle ret is (upd_obj i (\<lambda>_. v) m))"

text \<open>
  \<^verbatim>\<open>while (!vm_id_obj)\<close>: \<open>None\<close> when the list of ids is empty (\<^verbatim>\<open>list_first_entry\<close> of an empty
  list) or the loop does not end.
\<close>

partial_function (option) search_loop ::
    "fences \<Rightarrow> vm_id_mgr \<Rightarrow> (nat \<times> fences \<times> vm_id_mgr) option" where
  "search_loop ret m =
     (case scan_idle ret (vm_id_list m) m of
        (found, m1) \<Rightarrow>
          (case found of
             Some i \<Rightarrow> Some (i, ret, m1)
           | None \<Rightarrow>
               (case vm_id_list m1 of
                  [] \<Rightarrow> None
                | i # _ \<Rightarrow>
                    (case vidschi_wait_vm_id_idle ret (vm_id_array m1 ! i) (- 1) of
                       (ret', v) \<Rightarrow> search_loop ret' (upd_obj i (\<lambda>_. v) m1)))))"

definition vidschi_choose_vm_id_004 ::
    "bool \<Rightarrow> gpu_device \<Rightarrow> fences \<Rightarrow> vm_id_mgr \<Rightarrow> (nat \<times> gpu_device \<times> fences \<times> vm_id_mgr) option" where
  "vidschi_choose_vm_id_004 is_reserved dev ret m =
     (let own = (if is_reserved then Some 0
                 else case dv_vm_id dev of
                        None \<Rightarrow> None
                      | Some i \<Rightarrow> if vo_device_uuid (vm_id_array m ! i) = dv_uuid dev then Some i else None)
      in case (case own of Some i \<Rightarrow> Some (i, ret, m) | None \<Rightarrow> search_loop ret m) of
           None \<Rightarrow> None
         | Some (i, ret1, m1) \<Rightarrow>
             let m2 = (if i \<noteq> 0 then m1\<lparr>vm_id_list := remove1 i (vm_id_list m1) @ [i]\<rparr> else m1)
             in if dv_vm_id dev \<noteq> Some i \<or> vo_device_uuid (vm_id_array m2 ! i) \<noteq> dv_uuid dev
                then Some (i, dev\<lparr>dv_vm_id := Some i\<rparr>, ret1,
                       upd_obj i (\<lambda>v. v\<lparr>vo_device_uuid := dv_uuid dev, vo_pd_age := 0\<rparr>) m2)
                else Some (i, dev, ret1, m2))"

definition vidschi_choose_vm_id_cne001 ::
    "bool \<Rightarrow> bool \<Rightarrow> nat \<Rightarrow> gpu_device \<Rightarrow> (nat \<times> gpu_device) outcome" where
  "vidschi_choose_vm_id_cne001 is_reserved is_private private_vm_id dev =
     (if is_reserved then Done (0, dev\<lparr>dv_vm_id := Some 0\<rparr>)
      else if is_private then Done (private_vm_id, dev\<lparr>dv_vm_id := Some private_vm_id\<rparr>)
      else Panic)"

text \<open>
  \<^verbatim>\<open>vidsch_choose_vm_id\<close> for a task with fence \<open>fence_id\<close> on engine \<open>engine_idx\<close>. The second component of the
  result says whether a page table set task is submitted first; \<open>root_pd_age\<close>, \<open>utlb\<close> and \<open>dtlb\<close> are the
  state of the device's address space for that engine.
\<close>

definition pick_vm_id ::
    "chip \<Rightarrow> bool \<Rightarrow> bool \<Rightarrow> nat \<Rightarrow> gpu_device \<Rightarrow> fences \<Rightarrow> vm_id_mgr
     \<Rightarrow> (nat \<times> gpu_device \<times> fences \<times> vm_id_mgr) option" where
  "pick_vm_id ch is_reserved is_private private_vm_id dev ret m =
     (case ch of
        CHIP_CHX004 \<Rightarrow> vidschi_choose_vm_id_004 is_reserved dev ret m
      | CHIP_CNE001 \<Rightarrow>
          (case dv_vm_id dev of
             Some i \<Rightarrow> Some (i, dev, ret, m)
           | None \<Rightarrow>
               (case vidschi_choose_vm_id_cne001 is_reserved is_private private_vm_id dev of
                  Panic \<Rightarrow> None
                | Done (i, dev') \<Rightarrow> Some (i, dev', ret, m))))"

definition vidsch_choose_vm_id ::
    "chip \<Rightarrow> bool \<Rightarrow> bool \<Rightarrow> nat \<Rightarrow> int \<Rightarrow> bool \<Rightarrow> bool \<Rightarrow> u64 \<Rightarrow> nat \<Rightarrow> gpu_device \<Rightarrow> fences \<Rightarrow> vm_id_mgr
     \<Rightarrow> (nat \<times> bool \<times> gpu_device \<times> fences \<times> vm_id_mgr) option" where
  "vidsch_choose_vm_id ch is_reserved is_private private_vm_id root_pd_age utlb dtlb fence_id engine_idx dev ret m =
     (case pick_vm_id ch is_reserved is_private private_vm_id dev ret m of
        None \<Rightarrow> None
      | Some (i, dev1, ret1, m1) \<Rightarrow>
          let m2 = upd_obj i (\<lambda>v. vidschi_vm_id_add_sync v fence_id engine_idx) m1;
              age = vo_pd_age (vm_id_array m2 ! i)
          in if \<not> is_reserved \<and> age \<ge> root_pd_age \<and> \<not> dtlb \<and> \<not> utlb
             then Some (i, False, dev1, ret1, m2)
             else Some (i, \<not> is_reserved, dev1, ret1,
                    if age < root_pd_age then upd_obj i (\<lambda>v. v\<lparr>vo_pd_age := root_pd_age\<rparr>) m2 else m2))"

section \<open>The idle test and the wait\<close>

text \<open>A clear bit of the bitmap means that the engine has finished the last work of the id.\<close>

definition obj_ok :: "fences \<Rightarrow> vm_id_obj \<Rightarrow> bool" where
  [kmd_inv]: "obj_ok ret v \<longleftrightarrow> (\<forall>e. \<not> bit (vo_bitmap v) e \<longrightarrow> vo_last_flush v e \<le> ret e)"

definition retired :: "fences \<Rightarrow> vm_id_obj \<Rightarrow> bool" where
  "retired ret v \<longleftrightarrow> (\<forall>e. vo_last_flush v e \<le> ret e)"

definition same_owner :: "vm_id_obj \<Rightarrow> vm_id_obj \<Rightarrow> bool" where
  "same_owner v v' \<longleftrightarrow> v' = v\<lparr>vo_bitmap := vo_bitmap v'\<rparr>"

lemma same_owner_simps [simp]:
  assumes "same_owner v v'"
  shows "vo_last_flush v' = vo_last_flush v" "vo_device_uuid v' = vo_device_uuid v" "vo_pd_age v' = vo_pd_age v"
  using assms unfolding same_owner_def by (metis vm_id_obj.select_convs vm_id_obj.surjective vm_id_obj.update_convs(3))+

lemma same_owner_refl [simp]: "same_owner v v"
  by (simp add: same_owner_def)

lemma same_owner_unset [simp]: "same_owner v (v\<lparr>vo_bitmap := b\<rparr>)"
  by (simp add: same_owner_def)

lemma same_owner_trans: "same_owner v v1 \<Longrightarrow> same_owner v1 v2 \<Longrightarrow> same_owner v v2"
  unfolding same_owner_def by (cases v; cases v1; cases v2) simp

lemma obj_ok_unset: "obj_ok ret v \<Longrightarrow> vo_last_flush v e \<le> ret e \<Longrightarrow> obj_ok ret (v\<lparr>vo_bitmap := unset_bit e (vo_bitmap v)\<rparr>)"
  by (auto simp: obj_ok_def bit_unset_bit_iff)

lemma obj_ok_mono: "obj_ok ret v \<Longrightarrow> ret \<le> ret' \<Longrightarrow> obj_ok ret' v"
  by (meson le_funD obj_ok_def order_trans)

lemma retired_mono: "retired ret v \<Longrightarrow> ret \<le> ret' \<Longrightarrow> retired ret' v"
  by (meson le_funD retired_def order_trans)

lemma idle_loop_correct:
  assumes "obj_ok ret v" "idle_loop ret b v = (idle, v')"
  shows "same_owner v v' \<and> obj_ok ret v' \<and> (idle \<longrightarrow> (\<forall>e. bit b e \<longrightarrow> vo_last_flush v e \<le> ret e))"
  using assms
proof (induction ret b v rule: idle_loop.induct)
  case (1 ret b v)
  show ?case
  proof (cases "b = 0 \<or> \<not> vo_last_flush v (msb_engine b) \<le> ret (msb_engine b)")
    case True
    then show ?thesis
      using 1(2,3) by (auto simp: idle_loop.simps [of ret] Let_def split: if_splits)
  next
    case False
    let ?e = "msb_engine b" and ?v1 = "v\<lparr>vo_bitmap := unset_bit (msb_engine b) (vo_bitmap v)\<rparr>"
    have ok: "obj_ok ret ?v1" using 1(2) False by (auto intro: obj_ok_unset)
    have r: "idle_loop ret (unset_bit ?e b) ?v1 = (idle, v')"
      using 1(3) False by (simp add: idle_loop.simps [of ret b v] Let_def)
    have IH: "same_owner ?v1 v'" "obj_ok ret v'"
        "idle \<longrightarrow> (\<forall>e. bit (unset_bit ?e b) e \<longrightarrow> vo_last_flush ?v1 e \<le> ret e)"
      using 1(1) [OF _ refl _ ok r] False by auto
    have "same_owner v v'" using same_owner_trans [OF same_owner_unset IH(1)] .
    moreover have "vo_last_flush v e \<le> ret e" if "idle" "bit b e" for e
      using IH(3) that False by (cases "e = ?e") (auto simp: bit_unset_bit_iff)
    ultimately show ?thesis using IH(2) by blast
  qed
qed

lemma is_vm_id_idle_correct:
  assumes "obj_ok ret v" "vidschi_is_vm_id_idle ret v (- 1) = (idle, v')"
  shows "same_owner v v'" "obj_ok ret v'" "idle \<Longrightarrow> retired ret v"
proof -
  have "idle_loop ret (vo_bitmap v) v = (idle, v')"
    using assms(2) by (simp add: vidschi_is_vm_id_idle_def)
  from idle_loop_correct [OF assms(1) this]
  have r: "same_owner v v'" "obj_ok ret v'" "idle \<longrightarrow> (\<forall>e. bit (vo_bitmap v) e \<longrightarrow> vo_last_flush v e \<le> ret e)"
    by auto
  show "same_owner v v'" "obj_ok ret v'" using r by auto
  show "retired ret v" if idle using r(3) that assms(1) unfolding retired_def obj_ok_def by blast
qed

lemma idle_empty: "vo_bitmap v = 0 \<Longrightarrow> vidschi_is_vm_id_idle ret v (- 1) = (True, v)"
  by (simp add: vidschi_is_vm_id_idle_def idle_loop.simps)

lemma wait_loop_correct:
  assumes "obj_ok ret v" "wait_loop ret b v = (ret', v')"
  shows "same_owner v v' \<and> obj_ok ret' v' \<and> ret \<le> ret' \<and> bits_of (vo_bitmap v') = bits_of (vo_bitmap v) - bits_of b"
  using assms
proof (induction ret b v rule: wait_loop.induct)
  case (1 ret b v)
  show ?case
  proof (cases "b = 0")
    case True
    then show ?thesis using 1(2,3) by (auto simp: wait_loop.simps [of ret 0] bits_of_def)
  next
    case False
    let ?e = "msb_engine b" and ?v1 = "v\<lparr>vo_bitmap := unset_bit (msb_engine b) (vo_bitmap v)\<rparr>"
    let ?ret1 = "wait_fence_back ?e (vo_last_flush v ?e) ret"
    have le: "ret \<le> ?ret1" by (auto simp: wait_fence_back_def le_fun_def)
    have ok: "obj_ok ?ret1 ?v1"
      using obj_ok_mono [OF 1(2) le] by (intro obj_ok_unset) (simp_all add: wait_fence_back_def)
    have r: "wait_loop ?ret1 (unset_bit ?e b) ?v1 = (ret', v')"
      using 1(3) False by (simp add: wait_loop.simps [of ret b v] Let_def)
    have IH: "same_owner ?v1 v'" "obj_ok ret' v'" "?ret1 \<le> ret'"
        "bits_of (vo_bitmap v') = bits_of (vo_bitmap ?v1) - bits_of (unset_bit ?e b)"
      using 1(1) [OF False refl ok r] by auto
    have "?e \<in> bits_of b" using msb_engine_bit [OF False] by (simp add: bits_of_def)
    then show ?thesis
      using IH le same_owner_trans [OF same_owner_unset IH(1)] by (auto intro: order_trans)
  qed
qed

lemma wait_vm_id_idle_correct:
  assumes "obj_ok ret v" "vidschi_wait_vm_id_idle ret v (- 1) = (ret', v')"
  shows "same_owner v v'" "obj_ok ret' v'" "ret \<le> ret'" "vo_bitmap v' = 0"
proof -
  have "wait_loop ret (vo_bitmap v) v = (ret', v')"
    using assms(2) by (simp add: vidschi_wait_vm_id_idle_def)
  from wait_loop_correct [OF assms(1) this]
  show "same_owner v v'" "obj_ok ret' v'" "ret \<le> ret'" "vo_bitmap v' = 0"
    by (auto simp: bits_of_def intro!: bit_word_eqI)
qed

section \<open>Searching for an id\<close>

lemma upd_obj_simps [simp]:
  "vm_id_list (upd_obj i f m) = vm_id_list m" "vm_num_ids (upd_obj i f m) = vm_num_ids m"
  "vm_reserved_num_ids (upd_obj i f m) = vm_reserved_num_ids m"
  "length (vm_id_array (upd_obj i f m)) = length (vm_id_array m)"
  by (simp_all add: upd_obj_def)

lemma upd_obj_nth: "j < length (vm_id_array m) \<Longrightarrow>
   vm_id_array (upd_obj i f m) ! j = (if i = j then f (vm_id_array m ! j) else vm_id_array m ! j)"
  by (simp add: upd_obj_def nth_list_update)

text \<open>The array keeps owners and fences; only bits of finished engines are cleared.\<close>

definition array_ok :: "fences \<Rightarrow> vm_id_mgr \<Rightarrow> bool" where
  [kmd_inv]: "array_ok ret m \<longleftrightarrow> (\<forall>i<length (vm_id_array m). obj_ok ret (vm_id_array m ! i))"

definition same_owners :: "vm_id_mgr \<Rightarrow> vm_id_mgr \<Rightarrow> bool" where
  "same_owners m m' \<longleftrightarrow> vm_id_list m' = vm_id_list m \<and> vm_num_ids m' = vm_num_ids m \<and>
     vm_reserved_num_ids m' = vm_reserved_num_ids m \<and>
     length (vm_id_array m') = length (vm_id_array m) \<and>
     (\<forall>i<length (vm_id_array m). same_owner (vm_id_array m ! i) (vm_id_array m' ! i))"

lemma same_owners_refl [simp]: "same_owners m m"
  by (simp add: same_owners_def)

lemma same_owners_trans: "same_owners m m1 \<Longrightarrow> same_owners m1 m2 \<Longrightarrow> same_owners m m2"
  unfolding same_owners_def by (metis same_owner_trans)

lemma array_ok_mono: "array_ok ret m \<Longrightarrow> ret \<le> ret' \<Longrightarrow> array_ok ret' m"
  by (auto simp: array_ok_def intro: obj_ok_mono)

lemma array_ok_upd:
  assumes "array_ok ret m" "obj_ok ret v" shows "array_ok ret (upd_obj i (\<lambda>_. v) m)"
  using assms by (auto simp: array_ok_def upd_obj_nth)

lemma same_owners_upd:
  "same_owner (vm_id_array m ! i) v \<Longrightarrow> same_owners m (upd_obj i (\<lambda>_. v) m)"
  by (auto simp: same_owners_def upd_obj_nth)

lemma scan_idle_correct:
  assumes "array_ok ret m" "set is \<subseteq> {..<length (vm_id_array m)}" "scan_idle ret is m = (found, m')"
  shows "same_owners m m' \<and> array_ok ret m' \<and>
    (\<forall>i. found = Some i \<longrightarrow> i \<in> set is \<and> retired ret (vm_id_array m ! i))"
  using assms
proof (induction "is" arbitrary: m)
  case (Cons i "is")
  let ?v = "vm_id_array m ! i"
  obtain idle v where v: "vidschi_is_vm_id_idle ret ?v (- 1) = (idle, v)" by force
  have i: "i < length (vm_id_array m)" using Cons.prems(2) by simp
  then have ok: "obj_ok ret ?v" using Cons.prems(1) by (simp add: array_ok_def)
  note iv = is_vm_id_idle_correct [OF ok v]
  let ?m1 = "upd_obj i (\<lambda>_. v) m"
  have m1: "array_ok ret ?m1" "same_owners m ?m1"
    using array_ok_upd [OF Cons.prems(1) iv(2)] same_owners_upd [OF iv(1)] by auto
  show ?case
  proof (cases idle)
    case True
    then show ?thesis using Cons.prems(3) v m1 iv(3) by auto
  next
    case False
    then have f: "scan_idle ret is ?m1 = (found, m')" using Cons.prems(3) v by simp
    have IH: "same_owners ?m1 m'" "array_ok ret m'"
        "\<And>j. found = Some j \<Longrightarrow> j \<in> set is \<and> retired ret (vm_id_array ?m1 ! j)"
      using Cons.IH [OF m1(1) _ f] Cons.prems(2) by auto
    have "retired ret (vm_id_array m ! j)" if "found = Some j" for j
    proof -
      have "j < length (vm_id_array m)" using IH(3) [OF that] Cons.prems(2) by auto
      then have "vo_last_flush (vm_id_array ?m1 ! j) = vo_last_flush (vm_id_array m ! j)"
        using m1(2) by (auto simp: same_owners_def)
      then show ?thesis using IH(3) [OF that] by (simp add: retired_def)
    qed
    then show ?thesis using IH m1 same_owners_trans by auto
  qed
qed simp

lemma search_loop_unfold:
  "search_loop ret m =
     (case scan_idle ret (vm_id_list m) m of
        (Some i, m1) \<Rightarrow> Some (i, ret, m1)
      | (None, m1) \<Rightarrow>
          (case vm_id_list m1 of
             [] \<Rightarrow> None
           | i # _ \<Rightarrow>
               (case vidschi_wait_vm_id_idle ret (vm_id_array m1 ! i) (- 1) of
                  (ret', v) \<Rightarrow> search_loop ret' (upd_obj i (\<lambda>_. v) m1))))"
  by (subst search_loop.simps) (simp split: prod.split option.split)

text \<open>The search ends: after waiting for the first id of the list, the next scan takes it.\<close>

lemma search_loop_correct:
  assumes ok: "array_ok ret m" and rng: "set (vm_id_list m) \<subseteq> {..<length (vm_id_array m)}"
    and ne: "vm_id_list m \<noteq> []"
  shows "\<exists>i ret' m'. search_loop ret m = Some (i, ret', m') \<and> i \<in> set (vm_id_list m) \<and>
    same_owners m m' \<and> array_ok ret' m' \<and> ret \<le> ret' \<and> retired ret' (vm_id_array m ! i)"
proof -
  obtain found m1 where s: "scan_idle ret (vm_id_list m) m = (found, m1)" by force
  note sc = scan_idle_correct [OF ok rng s]
  show ?thesis
  proof (cases found)
    case (Some i)
    then show ?thesis using sc s by (subst search_loop_unfold) auto
  next
    case None
    have l1: "vm_id_list m1 = vm_id_list m" using sc by (simp add: same_owners_def)
    obtain i "is" where l: "vm_id_list m = i # is" using ne by (cases "vm_id_list m") auto
    have i: "i < length (vm_id_array m1)" "i < length (vm_id_array m)"
      using rng l sc by (auto simp: same_owners_def)
    obtain ret' v where w: "vidschi_wait_vm_id_idle ret (vm_id_array m1 ! i) (- 1) = (ret', v)" by force
    have "obj_ok ret (vm_id_array m1 ! i)" using sc i by (simp add: array_ok_def)
    note wt = wait_vm_id_idle_correct [OF this w]
    let ?m2 = "upd_obj i (\<lambda>_. v) m1"
    have idle: "vidschi_is_vm_id_idle ret' (vm_id_array ?m2 ! i) (- 1) = (True, v)"
      using wt(4) i by (simp add: upd_obj_nth idle_empty)
    have "search_loop ret' ?m2 = Some (i, ret', upd_obj i (\<lambda>_. v) ?m2)"
      by (subst search_loop_unfold) (simp add: l1 l idle)
    then have r: "search_loop ret m = Some (i, ret', upd_obj i (\<lambda>_. v) ?m2)"
      using s None l1 l w by (subst search_loop_unfold) simp
    have m2: "upd_obj i (\<lambda>_. v) ?m2 = ?m2" by (simp add: upd_obj_def)
    have so: "same_owners m ?m2"
      using same_owners_trans [OF _ same_owners_upd [OF wt(1)]] sc by blast
    have "array_ok ret' ?m2"
      using array_ok_upd [OF array_ok_mono [OF _ wt(3)] wt(2)] sc by blast
    moreover have "retired ret' (vm_id_array m ! i)"
    proof -
      have "vo_last_flush v = vo_last_flush (vm_id_array m ! i)"
        using so i by (auto simp: same_owners_def upd_obj_nth)
      then show ?thesis using wt(2,4) by (auto simp: retired_def obj_ok_def)
    qed
    ultimately show ?thesis using r so wt(3) l unfolding m2 by auto
  qed
qed

section \<open>Choosing an id\<close>

definition mgr_wf :: "vm_id_mgr \<Rightarrow> bool" where
  [kmd_inv]: "mgr_wf m \<longleftrightarrow> 0 < vm_reserved_num_ids m \<and> vm_reserved_num_ids m < vm_num_ids m \<and>
     length (vm_id_array m) = vm_num_ids m \<and> distinct (vm_id_list m) \<and>
     set (vm_id_list m) = {vm_reserved_num_ids m..<vm_num_ids m}"

lemma mgr_wf_list: "mgr_wf m \<Longrightarrow> vm_id_list m \<noteq> [] \<and> set (vm_id_list m) \<subseteq> {..<length (vm_id_array m)}"
  unfolding mgr_wf_def by (metis atLeastLessThan_iff empty_iff ivl_subset less_irrefl lessThan_atLeast0
      order_refl set_empty zero_le)

lemma mgr_wf_init:
  "0 < r \<Longrightarrow> r < n \<Longrightarrow> mgr_wf (vidschi_init_vm_id_mgr (n, r) p)"
  by (cases p) (auto simp: mgr_wf_def vidschi_init_vm_id_mgr_def upd_obj_def Let_def)

lemma array_ok_init: "array_ok ret (vidschi_init_vm_id_mgr (n, r) None)"
  by (simp add: array_ok_def obj_ok_def vidschi_init_vm_id_mgr_def)

lemma mgr_wf_same_owners: "mgr_wf m \<Longrightarrow> same_owners m m' \<Longrightarrow> mgr_wf m'"
  by (simp add: mgr_wf_def same_owners_def)

lemma moved_to_tail:
  assumes "distinct xs" "i \<in> set xs"
  shows "distinct (remove1 i xs @ [i])" "insert i (set (remove1 i xs)) = set xs" "i \<notin> set (remove1 i xs)"
    "distinct (remove1 i xs)"
  using assms by (auto simp: distinct_remove1)

text \<open>
  What the choice guarantees about the chosen object \<open>i\<close>: it is the reserved id, or the one the
  device already owned, or an id of the list whose last work has finished on every engine.
\<close>

definition choice_ok ::
    "bool \<Rightarrow> gpu_device \<Rightarrow> fences \<Rightarrow> vm_id_mgr \<Rightarrow> nat \<Rightarrow> gpu_device \<Rightarrow> fences \<Rightarrow> vm_id_mgr \<Rightarrow> bool" where
  "choice_ok is_reserved dev ret m i dev' ret' m' \<longleftrightarrow>
    mgr_wf m' \<and> array_ok ret' m' \<and> ret \<le> ret' \<and> vm_num_ids m' = vm_num_ids m \<and> set (vm_id_list m') = set (vm_id_list m) \<and>
    i < vm_num_ids m \<and> (is_reserved \<longleftrightarrow> i = 0) \<and> (\<not> is_reserved \<longrightarrow> i \<in> set (vm_id_list m)) \<and>
    dev' = dev\<lparr>dv_vm_id := Some i\<rparr> \<and> vo_device_uuid (vm_id_array m' ! i) = dv_uuid dev \<and>
    (\<not> is_reserved \<longrightarrow> vo_device_uuid (vm_id_array m ! i) \<noteq> dv_uuid dev \<longrightarrow>
       retired ret' (vm_id_array m ! i) \<and> vo_pd_age (vm_id_array m' ! i) = 0) \<and>
    (\<forall>j<vm_num_ids m. vo_last_flush (vm_id_array m' ! j) = vo_last_flush (vm_id_array m ! j)) \<and>
    (\<forall>j<vm_num_ids m. j \<noteq> i \<longrightarrow> vo_device_uuid (vm_id_array m' ! j) = vo_device_uuid (vm_id_array m ! j))"

lemma choose_004_correct:
  assumes wf: "mgr_wf m" and ok: "array_ok ret m"
    and dev: "\<And>i. \<not> is_reserved \<Longrightarrow> dv_vm_id dev = Some i \<Longrightarrow> i \<in> set (vm_id_list m)"
  shows "\<exists>i dev' ret' m'. vidschi_choose_vm_id_004 is_reserved dev ret m = Some (i, dev', ret', m') \<and>
    choice_ok is_reserved dev ret m i dev' ret' m'"
proof -
  define own where "own = (if is_reserved then Some 0
    else case dv_vm_id dev of None \<Rightarrow> None
      | Some i \<Rightarrow> if vo_device_uuid (vm_id_array m ! i) = dv_uuid dev then Some i else None)"
  define pick where "pick = (case own of Some i \<Rightarrow> Some (i, ret, m) | None \<Rightarrow> search_loop ret m)"
  have len: "length (vm_id_array m) = vm_num_ids m" and nr: "0 \<notin> set (vm_id_list m)" "0 < vm_num_ids m"
    using wf by (auto simp: mgr_wf_def)
  have "\<exists>i ret1 m1. pick = Some (i, ret1, m1) \<and> same_owners m m1 \<and> array_ok ret1 m1 \<and> ret \<le> ret1 \<and>
      i < vm_num_ids m \<and> (is_reserved \<longleftrightarrow> i = 0) \<and> (\<not> is_reserved \<longrightarrow> i \<in> set (vm_id_list m)) \<and>
      (\<not> is_reserved \<longrightarrow> vo_device_uuid (vm_id_array m ! i) \<noteq> dv_uuid dev \<longrightarrow> retired ret1 (vm_id_array m ! i))"
  proof (cases own)
    case (Some i)
    then show ?thesis
      using ok nr dev wf unfolding pick_def own_def
      by (auto simp: mgr_wf_def split: if_splits option.splits)
  next
    case None
    then have nres: "\<not> is_reserved" by (auto simp: own_def)
    obtain i ret1 m1 where s: "search_loop ret m = Some (i, ret1, m1)" "i \<in> set (vm_id_list m)"
        "same_owners m m1" "array_ok ret1 m1" "ret \<le> ret1" "retired ret1 (vm_id_array m ! i)"
      using search_loop_correct [OF ok] mgr_wf_list [OF wf] by blast
    then show ?thesis using None nres nr(1) wf by (auto simp: pick_def mgr_wf_def)
  qed
  then obtain i ret1 m1 where p: "pick = Some (i, ret1, m1)" "same_owners m m1" "array_ok ret1 m1" "ret \<le> ret1"
      "i < vm_num_ids m" "is_reserved \<longleftrightarrow> i = 0" "\<not> is_reserved \<longrightarrow> i \<in> set (vm_id_list m)"
      "\<not> is_reserved \<longrightarrow> vo_device_uuid (vm_id_array m ! i) \<noteq> dv_uuid dev \<longrightarrow> retired ret1 (vm_id_array m ! i)"
    by blast
  define m2 where "m2 = (if i \<noteq> 0 then m1\<lparr>vm_id_list := remove1 i (vm_id_list m1) @ [i]\<rparr> else m1)"
  define re where "re \<longleftrightarrow> dv_vm_id dev \<noteq> Some i \<or> vo_device_uuid (vm_id_array m2 ! i) \<noteq> dv_uuid dev"
  define m3 where "m3 = (if re then upd_obj i (\<lambda>v. v\<lparr>vo_device_uuid := dv_uuid dev, vo_pd_age := 0\<rparr>) m2 else m2)"
  have res: "vidschi_choose_vm_id_004 is_reserved dev ret m = Some (i, dev\<lparr>dv_vm_id := Some i\<rparr>, ret1, m3)"
    using p(1) unfolding vidschi_choose_vm_id_004_def own_def [symmetric] pick_def [symmetric] Let_def
    by (cases dev) (auto simp: m3_def re_def m2_def)
  have a2: "vm_id_array m2 = vm_id_array m1" by (simp add: m2_def)
  have wf1: "mgr_wf m1" using mgr_wf_same_owners [OF wf p(2)] .
  have l1: "vm_id_list m1 = vm_id_list m" using p(2) by (simp add: same_owners_def)
  have wf2: "mgr_wf m2" "set (vm_id_list m2) = set (vm_id_list m)"
  proof -
    have "mgr_wf m2 \<and> set (vm_id_list m2) = set (vm_id_list m)"
    proof (cases "i = 0")
      case True
      then show ?thesis using wf1 l1 by (simp add: m2_def)
    next
      case False
      then have i: "i \<in> set (vm_id_list m1)" using p(6,7) l1 by simp
      have d: "distinct (vm_id_list m1)" using wf1 by (simp add: mgr_wf_def)
      show ?thesis
        using False wf1 l1 moved_to_tail [OF d i] by (simp add: m2_def mgr_wf_def)
    qed
    then show "mgr_wf m2" "set (vm_id_list m2) = set (vm_id_list m)" by auto
  qed
  have own1: "vo_last_flush (vm_id_array m1 ! j) = vo_last_flush (vm_id_array m ! j)"
    "vo_device_uuid (vm_id_array m1 ! j) = vo_device_uuid (vm_id_array m ! j)" if "j < vm_num_ids m" for j
    using p(2) that len by (auto simp: same_owners_def)
  have len2: "length (vm_id_array m2) = vm_num_ids m" using p(2) len a2 by (simp add: same_owners_def)
  have ok3: "array_ok ret1 m3"
    using p(3) a2 by (auto simp: m3_def array_ok_def upd_obj_nth obj_ok_def)
  have "vm_num_ids m3 = vm_num_ids m" "mgr_wf m3" "set (vm_id_list m3) = set (vm_id_list m)"
    using wf2 p(2) by (auto simp: m3_def m2_def mgr_wf_def same_owners_def)
  moreover have "vo_device_uuid (vm_id_array m3 ! i) = dv_uuid dev"
    using p(5) len2 by (auto simp: m3_def re_def upd_obj_nth)
  moreover have "\<forall>j<vm_num_ids m. vo_last_flush (vm_id_array m3 ! j) = vo_last_flush (vm_id_array m ! j)"
      "\<forall>j<vm_num_ids m. j \<noteq> i \<longrightarrow> vo_device_uuid (vm_id_array m3 ! j) = vo_device_uuid (vm_id_array m ! j)"
    using own1 len2 a2 by (auto simp: m3_def upd_obj_nth)
  moreover have "vo_pd_age (vm_id_array m3 ! i) = 0" if "vo_device_uuid (vm_id_array m ! i) \<noteq> dv_uuid dev"
    using that own1(2) [OF p(5)] a2 p(5) len2 by (auto simp: m3_def re_def upd_obj_nth)
  ultimately show ?thesis using res ok3 p(4-8) by (auto simp: choice_ok_def)
qed

text \<open>The whole operation: the choice, the record of the new work, and the page directory age.\<close>

lemma obj_ok_add_sync: "obj_ok ret v \<Longrightarrow> e < 32 \<Longrightarrow> obj_ok ret (vidschi_vm_id_add_sync v f e)"
  by (auto simp: obj_ok_def vidschi_vm_id_add_sync_def bit_set_bit_iff)

definition submit_ok ::
    "bool \<Rightarrow> int \<Rightarrow> u64 \<Rightarrow> nat \<Rightarrow> gpu_device \<Rightarrow> fences \<Rightarrow> vm_id_mgr \<Rightarrow> nat \<Rightarrow> bool \<Rightarrow> gpu_device \<Rightarrow> fences \<Rightarrow> vm_id_mgr \<Rightarrow> bool" where
  "submit_ok is_reserved age f e dev ret m i sets dev' ret' m' \<longleftrightarrow>
    mgr_wf m' \<and> array_ok ret' m' \<and> ret \<le> ret' \<and> vm_num_ids m' = vm_num_ids m \<and> set (vm_id_list m') = set (vm_id_list m) \<and>
    i < vm_num_ids m \<and> (is_reserved \<longleftrightarrow> i = 0) \<and> (\<not> is_reserved \<longrightarrow> i \<in> set (vm_id_list m)) \<and>
    dev' = dev\<lparr>dv_vm_id := Some i\<rparr> \<and> vo_device_uuid (vm_id_array m' ! i) = dv_uuid dev \<and>
    (\<not> is_reserved \<longrightarrow> vo_device_uuid (vm_id_array m ! i) \<noteq> dv_uuid dev \<longrightarrow>
       retired ret' (vm_id_array m ! i) \<and> (0 < age \<longrightarrow> sets)) \<and>
    vo_last_flush (vm_id_array m' ! i) = (vo_last_flush (vm_id_array m ! i))(e := f) \<and>
    (\<forall>j<vm_num_ids m. j \<noteq> i \<longrightarrow> vo_last_flush (vm_id_array m' ! j) = vo_last_flush (vm_id_array m ! j) \<and>
       vo_device_uuid (vm_id_array m' ! j) = vo_device_uuid (vm_id_array m ! j))"

lemma choose_vm_id_correct:
  assumes wf: "mgr_wf m" and ok: "array_ok ret m" and e: "e < 32"
    and dev: "\<And>i. \<not> is_reserved \<Longrightarrow> dv_vm_id dev = Some i \<Longrightarrow> i \<in> set (vm_id_list m)"
  shows "\<exists>i sets dev' ret' m'.
    vidsch_choose_vm_id CHIP_CHX004 is_reserved pv pid age utlb dtlb f e dev ret m = Some (i, sets, dev', ret', m') \<and>
    submit_ok is_reserved age f e dev ret m i sets dev' ret' m'"
proof -
  obtain i dev' ret' m1 where c: "vidschi_choose_vm_id_004 is_reserved dev ret m = Some (i, dev', ret', m1)"
    and ch: "choice_ok is_reserved dev ret m i dev' ret' m1"
    using choose_004_correct [of m ret is_reserved dev, OF wf ok] dev by blast
  have wf1: "mgr_wf m1" and ok1: "array_ok ret' m1" and le: "ret \<le> ret'"
    and n1: "vm_num_ids m1 = vm_num_ids m" and l1: "set (vm_id_list m1) = set (vm_id_list m)"
    and i: "i < vm_num_ids m" "is_reserved \<longleftrightarrow> i = 0" "\<not> is_reserved \<longrightarrow> i \<in> set (vm_id_list m)"
    and d: "dev' = dev\<lparr>dv_vm_id := Some i\<rparr>" and own: "vo_device_uuid (vm_id_array m1 ! i) = dv_uuid dev"
    and re: "\<not> is_reserved \<longrightarrow> vo_device_uuid (vm_id_array m ! i) \<noteq> dv_uuid dev \<longrightarrow>
       retired ret' (vm_id_array m ! i) \<and> vo_pd_age (vm_id_array m1 ! i) = 0"
    and lf: "\<And>j. j < vm_num_ids m \<Longrightarrow> vo_last_flush (vm_id_array m1 ! j) = vo_last_flush (vm_id_array m ! j)"
    and oth: "\<And>j. j < vm_num_ids m \<Longrightarrow> j \<noteq> i \<Longrightarrow> vo_device_uuid (vm_id_array m1 ! j) = vo_device_uuid (vm_id_array m ! j)"
    using ch unfolding choice_ok_def by simp_all
  define m2 where "m2 = upd_obj i (\<lambda>v. vidschi_vm_id_add_sync v f e) m1"
  have len: "length (vm_id_array m1) = vm_num_ids m" using wf1 n1 by (simp add: mgr_wf_def)
  have a2: "vm_id_array m2 ! j = (if i = j then vidschi_vm_id_add_sync (vm_id_array m1 ! j) f e else vm_id_array m1 ! j)"
    if "j < vm_num_ids m" for j
    using that len by (simp add: m2_def upd_obj_nth)
  define aged where "aged = vo_pd_age (vm_id_array m2 ! i)"
  define m3 where "m3 = (if aged < age then upd_obj i (\<lambda>v. v\<lparr>vo_pd_age := age\<rparr>) m2 else m2)"
  have len2: "length (vm_id_array m2) = vm_num_ids m" using len by (simp add: m2_def)
  have r: "vidsch_choose_vm_id CHIP_CHX004 is_reserved pv pid age utlb dtlb f e dev ret m =
      Some (i, \<not> is_reserved \<and> \<not> (age \<le> aged \<and> \<not> dtlb \<and> \<not> utlb), dev', ret', m3)"
    unfolding vidsch_choose_vm_id_def pick_vm_id_def
    by (auto simp: c Let_def m2_def [symmetric] aged_def [symmetric] m3_def)
  have a3: "vo_device_uuid (vm_id_array m3 ! j) = vo_device_uuid (vm_id_array m2 ! j)"
      "vo_last_flush (vm_id_array m3 ! j) = vo_last_flush (vm_id_array m2 ! j)"
      "vo_bitmap (vm_id_array m3 ! j) = vo_bitmap (vm_id_array m2 ! j)" if "j < vm_num_ids m" for j
    using that len2 by (auto simp: m3_def upd_obj_nth)
  have same: "vm_num_ids m3 = vm_num_ids m" "vm_id_list m3 = vm_id_list m1"
      "vm_reserved_num_ids m3 = vm_reserved_num_ids m1" "length (vm_id_array m3) = vm_num_ids m"
    using n1 len2 by (auto simp: m3_def m2_def)
  have "mgr_wf m3" using wf1 same n1 by (simp add: mgr_wf_def)
  moreover have "array_ok ret' m3"
    unfolding array_ok_def
  proof (intro allI impI)
    fix j assume "j < length (vm_id_array m3)"
    then have j: "j < vm_num_ids m" using same by simp
    have "obj_ok ret' (vm_id_array m2 ! j)"
      using ok1 j len a2 [OF j] obj_ok_add_sync e by (auto simp: array_ok_def)
    then show "obj_ok ret' (vm_id_array m3 ! j)" using a3 [OF j] by (simp add: obj_ok_def)
  qed
  moreover have "vo_device_uuid (vm_id_array m3 ! i) = dv_uuid dev"
      "vo_last_flush (vm_id_array m3 ! i) = (vo_last_flush (vm_id_array m ! i))(e := f)"
    using a3 [OF i(1)] a2 [OF i(1)] own lf [OF i(1)] by (auto simp: vidschi_vm_id_add_sync_def)
  moreover have "vo_last_flush (vm_id_array m3 ! j) = vo_last_flush (vm_id_array m ! j) \<and>
      vo_device_uuid (vm_id_array m3 ! j) = vo_device_uuid (vm_id_array m ! j)" if "j < vm_num_ids m" "j \<noteq> i" for j
    using a3 [OF that(1)] a2 [OF that(1)] that lf oth by auto
  moreover have "aged = 0" if "\<not> is_reserved" "vo_device_uuid (vm_id_array m ! i) \<noteq> dv_uuid dev"
    using re that a2 [OF i(1)] by (simp add: aged_def vidschi_vm_id_add_sync_def)
  ultimately show ?thesis using r same l1 i d re le by (auto simp: submit_ok_def)
qed

section \<open>Submissions over time\<close>

text \<open>
  The devices of an adapter submitting work, and the engines returning fences. The log records
  every submission as (id, engine, fence, device). On each engine fences do not decrease (they
  come from a counter). \<open>r\<close> is the reserved device.
\<close>

record vm_sys =
  sy_mgr :: vm_id_mgr
  sy_ret :: fences
  sy_devs :: "int \<Rightarrow> nat option"
  sy_log :: "(nat \<times> nat \<times> u64 \<times> int) list"

inductive vm_step :: "int \<Rightarrow> vm_sys \<Rightarrow> vm_sys \<Rightarrow> bool" for r where
  vm_submit: "vidsch_choose_vm_id CHIP_CHX004 (u = r) pv pid age utlb dtlb f e
      \<lparr>dv_uuid = u, dv_vm_id = sy_devs s u\<rparr> (sy_ret s) (sy_mgr s) = Some (i, sets, dev', ret', m') \<Longrightarrow>
    e < MAX_ENGINE_COUNT \<Longrightarrow> (\<forall>(i', e', f', u') \<in> set (sy_log s). e' = e \<longrightarrow> f' \<le> f) \<Longrightarrow>
    vm_step r s \<lparr>sy_mgr = m', sy_ret = ret', sy_devs = (sy_devs s)(u := dv_vm_id dev'),
                 sy_log = (i, e, f, u) # sy_log s\<rparr>"
| vm_return: "sy_ret s \<le> ret' \<Longrightarrow> vm_step r s (s\<lparr>sy_ret := ret'\<rparr>)"

inductive vm_reach :: "int \<Rightarrow> vm_sys \<Rightarrow> bool" for r where
  vm_init: "vm_reach r \<lparr>sy_mgr = vidschi_init_vm_id_mgr vidsch_query_vm_id None, sy_ret = ret,
              sy_devs = \<lambda>_. None, sy_log = []\<rparr>"
| vm_next: "vm_reach r s \<Longrightarrow> vm_step r s s' \<Longrightarrow> vm_reach r s'"

definition log_ok :: "int \<Rightarrow> vm_id_mgr \<Rightarrow> fences \<Rightarrow> nat \<times> nat \<times> u64 \<times> int \<Rightarrow> bool" where
  "log_ok r m ret = (\<lambda>(i, e, f, u). i < vm_num_ids m \<and> f \<le> vo_last_flush (vm_id_array m ! i) e \<and>
     (i = 0 \<longrightarrow> u = r) \<and> (ret e < f \<longrightarrow> vo_device_uuid (vm_id_array m ! i) = u))"

definition vm_inv :: "int \<Rightarrow> vm_sys \<Rightarrow> bool" where
  [kmd_inv]: "vm_inv r s \<longleftrightarrow> mgr_wf (sy_mgr s) \<and> array_ok (sy_ret s) (sy_mgr s) \<and>
     (\<forall>u i. u \<noteq> r \<longrightarrow> sy_devs s u = Some i \<longrightarrow> i \<in> set (vm_id_list (sy_mgr s))) \<and>
     (\<forall>x\<in>set (sy_log s). log_ok r (sy_mgr s) (sy_ret s) x)"

lemma vm_inv_submit:
  assumes inv: "vm_inv r s" and e: "e < MAX_ENGINE_COUNT"
    and c: "vidsch_choose_vm_id CHIP_CHX004 (u = r) pv pid age utlb dtlb f e
      \<lparr>dv_uuid = u, dv_vm_id = sy_devs s u\<rparr> (sy_ret s) (sy_mgr s) = Some (i, sets, dev', ret', m')"
    and fence: "\<forall>(i', e', f', u') \<in> set (sy_log s). e' = e \<longrightarrow> f' \<le> f"
  shows "vm_inv r \<lparr>sy_mgr = m', sy_ret = ret', sy_devs = (sy_devs s)(u := dv_vm_id dev'),
                 sy_log = (i, e, f, u) # sy_log s\<rparr>"
proof -
  let ?m = "sy_mgr s" and ?ret = "sy_ret s"
  have wf: "mgr_wf ?m" and ok: "array_ok ?ret ?m" and e32: "e < 32"
    using inv e by (auto simp: vm_inv_def MAX_ENGINE_COUNT_def)
  have dev: "\<And>i. u \<noteq> r \<Longrightarrow> dv_vm_id \<lparr>dv_uuid = u, dv_vm_id = sy_devs s u\<rparr> = Some i \<Longrightarrow> i \<in> set (vm_id_list ?m)"
    using inv by (auto simp: vm_inv_def)
  have so: "submit_ok (u = r) age f e \<lparr>dv_uuid = u, dv_vm_id = sy_devs s u\<rparr> ?ret ?m i sets dev' ret' m'"
    using choose_vm_id_correct [of ?m ?ret e "u = r" "\<lparr>dv_uuid = u, dv_vm_id = sy_devs s u\<rparr>" pv pid age utlb dtlb f,
        OF wf ok e32] dev c by auto
  have g: "mgr_wf m'" "array_ok ret' m'" "?ret \<le> ret'" "vm_num_ids m' = vm_num_ids ?m"
      "set (vm_id_list m') = set (vm_id_list ?m)" "i < vm_num_ids ?m" "u = r \<longleftrightarrow> i = 0"
      "u \<noteq> r \<longrightarrow> i \<in> set (vm_id_list ?m)" "dv_vm_id dev' = Some i"
      "vo_device_uuid (vm_id_array m' ! i) = u"
      "u \<noteq> r \<longrightarrow> vo_device_uuid (vm_id_array ?m ! i) \<noteq> u \<longrightarrow> retired ret' (vm_id_array ?m ! i)"
      "vo_last_flush (vm_id_array m' ! i) = (vo_last_flush (vm_id_array ?m ! i))(e := f)"
      "\<And>j. j < vm_num_ids ?m \<Longrightarrow> j \<noteq> i \<Longrightarrow> vo_last_flush (vm_id_array m' ! j) = vo_last_flush (vm_id_array ?m ! j) \<and>
         vo_device_uuid (vm_id_array m' ! j) = vo_device_uuid (vm_id_array ?m ! j)"
    using so unfolding submit_ok_def by simp_all
  have old: "log_ok r m' ret' x" if x: "x \<in> set (sy_log s)" for x
  proof -
    obtain i1 e1 f1 u1 where x1: "x = (i1, e1, f1, u1)" by (cases x)
    have l: "i1 < vm_num_ids ?m" "f1 \<le> vo_last_flush (vm_id_array ?m ! i1) e1" "i1 = 0 \<longrightarrow> u1 = r"
        "?ret e1 < f1 \<longrightarrow> vo_device_uuid (vm_id_array ?m ! i1) = u1" "e1 = e \<longrightarrow> f1 \<le> f"
      using inv x fence unfolding x1 by (auto simp: vm_inv_def log_ok_def)
    have "?ret e1 \<le> ret' e1" using g(3) by (simp add: le_fun_def)
    show ?thesis
    proof (cases "i1 = i")
      case False
      then show ?thesis using l g \<open>?ret e1 \<le> ret' e1\<close> by (auto simp: x1 log_ok_def)
    next
      case True
      have "u1 = u" if "ret' e1 < f1"
      proof (cases "u = r")
        case True
        then show ?thesis using \<open>i1 = i\<close> l(3) g(7) by simp
      next
        case False
        have "\<not> retired ret' (vm_id_array ?m ! i)"
          using that l(2) \<open>i1 = i\<close> unfolding retired_def by (meson leD less_le_trans)
        then have "vo_device_uuid (vm_id_array ?m ! i) = u" using g(11) False by blast
        moreover have "?ret e1 < f1" using that \<open>?ret e1 \<le> ret' e1\<close> by (rule le_less_trans [rotated])
        ultimately show ?thesis using l(4) \<open>i1 = i\<close> by simp
      qed
      moreover have "f1 \<le> vo_last_flush (vm_id_array m' ! i) e1" using l(2,5) g(12) True by auto
      ultimately show ?thesis using True l(1,3) g(4,10) by (auto simp: x1 log_ok_def)
    qed
  qed
  have new: "log_ok r m' ret' (i, e, f, u)" using g by (auto simp: log_ok_def)
  have devs: "\<forall>v j. v \<noteq> r \<longrightarrow> ((sy_devs s)(u := dv_vm_id dev')) v = Some j \<longrightarrow> j \<in> set (vm_id_list m')"
    using inv g(5,8,9) by (auto simp: vm_inv_def)
  show ?thesis using old new devs g(1,2) by (simp add: vm_inv_def)
qed

lemma vm_reach_inv: "vm_reach r s \<Longrightarrow> vm_inv r s"
proof (induction rule: vm_reach.induct)
  case (vm_init ret)
  then show ?case
    by (simp add: vm_inv_def vidsch_query_vm_id_def mgr_wf_init array_ok_init)
next
  case (vm_next s s')
  from vm_next.hyps(2) vm_next.IH show ?case
  proof (induction rule: vm_step.induct)
    case (vm_submit u pv pid age utlb dtlb f e s i sets dev' ret' m')
    show ?case by (rule vm_inv_submit [OF vm_submit.prems vm_submit.hyps(2,1,3)])
  next
    case (vm_return s ret')
    have "log_ok r (sy_mgr s) ret' x" if "log_ok r (sy_mgr s) (sy_ret s) x" for x
      using that vm_return.hyps by (cases x) (auto simp: log_ok_def le_fun_def intro: le_less_trans)
    then show ?case
      using vm_return array_ok_mono [of "sy_ret s" "sy_mgr s" ret'] by (simp add: vm_inv_def)
  qed
qed

section \<open>Waiting for every id\<close>

lemma fini_engines_correct:
  assumes "fini_engines js v ret = (v', ret')" "obj_ok ret v"
  shows "ret \<le> ret' \<and> (\<forall>j\<in>set js. vo_last_flush v j \<le> ret' j)"
  using assms
proof (induction js arbitrary: v ret)
  case (Cons j js)
  show ?case
  proof (cases "bit (vo_bitmap v) j")
    case True
    let ?v1 = "v\<lparr>vo_bitmap := unset_bit j (vo_bitmap v)\<rparr>" and ?r1 = "wait_fence_back j (vo_last_flush v j) ret"
    have le: "ret \<le> ?r1" and lj: "vo_last_flush v j \<le> ?r1 j" by (auto simp: wait_fence_back_def le_fun_def)
    have ok: "obj_ok ?r1 ?v1"
      using obj_ok_mono [OF Cons.prems(2) le] lj by (intro obj_ok_unset)
    have IH: "?r1 \<le> ret'" "\<forall>j\<in>set js. vo_last_flush v j \<le> ret' j"
      using Cons.IH [OF _ ok] Cons.prems(1) True by auto
    have "vo_last_flush v j \<le> ret' j" using lj le_funD [OF IH(1), of j] by (rule order_trans)
    then show ?thesis using IH order_trans [OF le IH(1)] by simp
  next
    case False
    then have IH: "ret \<le> ret'" "\<forall>j\<in>set js. vo_last_flush v j \<le> ret' j"
      using Cons.IH [of v ret] Cons.prems by auto
    have "vo_last_flush v j \<le> ret j" using False Cons.prems(2) by (simp add: obj_ok_def)
    then have "vo_last_flush v j \<le> ret' j" using le_funD [OF IH(1), of j] by (rule order_trans)
    then show ?thesis using IH by simp
  qed
qed simp

lemma fini_ids_correct:
  assumes "fini_ids vs ret = (vs', ret')" "\<forall>v\<in>set vs. obj_ok ret v"
  shows "ret \<le> ret' \<and> (\<forall>v\<in>set vs. \<forall>j<MAX_ENGINE_COUNT. vo_last_flush v j \<le> ret' j)"
  using assms
proof (induction vs arbitrary: ret vs')
  case (Cons v vs)
  obtain v1 ret1 where f: "fini_engines [0..<MAX_ENGINE_COUNT] v ret = (v1, ret1)" by force
  obtain vs1 where g: "fini_ids vs ret1 = (vs1, ret')"
    using Cons.prems(1) f by (auto split: prod.splits)
  have 1: "ret \<le> ret1" "\<forall>j<MAX_ENGINE_COUNT. vo_last_flush v j \<le> ret1 j"
    using fini_engines_correct [OF f] Cons.prems(2) by auto
  have 2: "ret1 \<le> ret'" "\<forall>v\<in>set vs. \<forall>j<MAX_ENGINE_COUNT. vo_last_flush v j \<le> ret' j"
    using Cons.IH [OF g] Cons.prems(2) 1(1) obj_ok_mono by auto
  have "vo_last_flush v j \<le> ret' j" if "j < MAX_ENGINE_COUNT" for j
    using 1(2) that le_funD [OF 2(1), of j] by (metis order_trans)
  then show ?case using 2 order_trans [OF 1(1) 2(1)] by simp
qed simp

text \<open>A sample run: device 5 (not the reserved device 1) submits on engine 0 with fence 3.\<close>

definition sample_vm_init :: vm_sys where
  "sample_vm_init = \<lparr>sy_mgr = vidschi_init_vm_id_mgr vidsch_query_vm_id None, sy_ret = (\<lambda>_. 0),
     sy_devs = (\<lambda>_. None), sy_log = []\<rparr>"

lemma sample_vm_init_reach: "vm_reach 1 sample_vm_init"
  unfolding sample_vm_init_def by (rule vm_init)

lemma sample_choice:
  "\<exists>sets dev' m'. vidsch_choose_vm_id CHIP_CHX004 False False 0 9 False False 3 0
      \<lparr>dv_uuid = 5, dv_vm_id = sy_devs sample_vm_init 5\<rparr> (sy_ret sample_vm_init) (sy_mgr sample_vm_init)
     = Some (1, sets, dev', (\<lambda>_. 0), m')"
proof -
  let ?m = "sy_mgr sample_vm_init"
  have l: "vm_id_list ?m = 1 # [2..<16]"
    by (simp add: sample_vm_init_def vidschi_init_vm_id_mgr_def vidsch_query_vm_id_def upt_rec)
  have "vo_bitmap (vm_id_array ?m ! 1) = 0"
    by (simp add: sample_vm_init_def vidschi_init_vm_id_mgr_def vidsch_query_vm_id_def)
  then have "search_loop (\<lambda>_. 0) ?m = Some (1, (\<lambda>_. 0), upd_obj 1 (\<lambda>_. vm_id_array ?m ! 1) ?m)"
    by (subst search_loop_unfold) (simp add: l idle_empty)
  moreover have "sy_devs sample_vm_init 5 = None" "sy_ret sample_vm_init = (\<lambda>_. 0)"
    by (simp_all add: sample_vm_init_def)
  ultimately show ?thesis
    by (simp add: vidsch_choose_vm_id_def pick_vm_id_def vidschi_choose_vm_id_004_def Let_def) blast
qed

section \<open>Properties\<close>





text \<open>
  Tearing down the id manager waits for every id on every engine: afterwards each engine has
  returned the last fence recorded for each id.
\<close>

theorem vidschi_fini_vm_id_mgr_waits:
  assumes "array_ok ret m" "i < length (vm_id_array m)" "e < MAX_ENGINE_COUNT"
  shows "vo_last_flush (vm_id_array m ! i) e \<le> vidschi_fini_vm_id_mgr m ret e"
proof -
  obtain vs' ret' where f: "fini_ids (vm_id_array m) ret = (vs', ret')" by force
  have "\<forall>v\<in>set (vm_id_array m). obj_ok ret v" using assms(1) by (auto simp: array_ok_def in_set_conv_nth)
  from fini_ids_correct [OF f this] show ?thesis
    using assms(2,3) f by (simp add: vidschi_fini_vm_id_mgr_def)
qed

theorem vidschi_fini_vm_id_mgr_waits_witness:
  "vidschi_fini_vm_id_mgr
     (upd_obj 2 (\<lambda>v. vidschi_vm_id_add_sync v 7 4) (vidschi_init_vm_id_mgr (16, 1) None)) (\<lambda>_. 0) 4 \<ge> 7"
proof -
  let ?m = "upd_obj 2 (\<lambda>v. vidschi_vm_id_add_sync v 7 4) (vidschi_init_vm_id_mgr (16, 1) None)"
  have "array_ok (\<lambda>_. 0) ?m"
    using array_ok_init [of "\<lambda>_. 0" 16 1]
    by (auto simp: array_ok_def upd_obj_nth intro: obj_ok_add_sync)
  moreover have "vo_last_flush (vm_id_array ?m ! 2) 4 = 7" "length (vm_id_array ?m) = 16"
    by (auto simp: upd_obj_def vidschi_init_vm_id_mgr_def Let_def vidschi_vm_id_add_sync_def)
  ultimately show ?thesis
    using vidschi_fini_vm_id_mgr_waits [of "\<lambda>_. 0" ?m 2 4] by (simp add: MAX_ENGINE_COUNT_def)
qed

end
