(* ===== verification/Perf_Event.thy ===== *)
theory Perf_Event
  imports Prelude
begin

text \<open>
  Performance events: \<^verbatim>\<open>core/perfevent/perfevent.c\<close>. Two bounded lists (scheduler events and memory
  interface counters) drop and count what does not fit; a byte ring takes the events raised in
  interrupt context; and the busy time of each engine is accounted from its submit and complete
  events. An event is its bytes, whose number is \<^verbatim>\<open>header.size\<close>. Lists of nodes are HOL lists. What is
  copied to user space is returned as the list of bytes written.
\<close>

section \<open>State\<close>

type_synonym perf_event = "u8 list"

definition PERF_EVENT_MAX_ISR_EVENT_BUFFER_SIZE :: nat where
  "PERF_EVENT_MAX_ISR_EVENT_BUFFER_SIZE = 512 * 1024"

abbreviation ISR_SIZE :: nat where "ISR_SIZE \<equiv> PERF_EVENT_MAX_ISR_EVENT_BUFFER_SIZE"

lemma ISR_SIZE_pos [simp]: "0 < ISR_SIZE"
  by (simp add: PERF_EVENT_MAX_ISR_EVENT_BUFFER_SIZE_def)

record perf_event_mgr =
  perf_started :: bool
  event_list :: "perf_event list"
  event_number :: int
  max_event_number :: int
  lost_event_number :: int
  lost_event_time :: u64
  isr_event_buffer :: "nat \<Rightarrow> u8"
  isr_event_tail :: nat
  isr_event_head :: nat
  isr_event_buffer_size :: nat
  isr_event_num :: nat
  miu_table :: "u64 list"
  miu_event_list :: "perf_event list"
  miu_event_number :: int
  miu_max_event_number :: int
  miu_lost_event_number :: int
  miu_lost_event_time :: u64
  miu_counter_enable :: bool

text \<open>The out parameters of \<^verbatim>\<open>zx_get_perf_event_t\<close>; the buffers hold what was written to them.\<close>

record get_perf_event =
  max_event_num :: nat
  event_buffer :: "u8 list"
  event_filled_num :: nat
  event_buffer_filled_size :: nat
  event_lost_num :: int
  event_lost_timestamp :: u64
  isr_buffer :: "u8 list"
  isr_filled_num :: nat
  isr_filled_size :: nat

section \<open>Sessions\<close>

definition zx_perf_event_init :: perf_event_mgr where
  "zx_perf_event_init =
     \<lparr>perf_started = False, event_list = [], event_number = 0, max_event_number = 0,
      lost_event_number = 0, lost_event_time = 0, isr_event_buffer = (\<lambda>_. 0), isr_event_tail = 0,
      isr_event_head = 0, isr_event_buffer_size = 0, isr_event_num = 0, miu_table = [],
      miu_event_list = [], miu_event_number = 0, miu_max_event_number = 0,
      miu_lost_event_number = 0, miu_lost_event_time = 0, miu_counter_enable = False\<rparr>"

text \<open>\<open>max_num\<close> is the 32 bit argument of the call, stored into a signed field.\<close>

definition perf_event_begin :: "bool \<Rightarrow> u32 \<Rightarrow> perf_event_mgr \<Rightarrow> perf_event_mgr outcome" where
  "perf_event_begin perf_event_enable max_num m =
     (if \<not> perf_event_enable \<or> perf_started m then Panic
      else Done (m\<lparr>isr_event_head := 0, isr_event_tail := 0, isr_event_buffer_size := 0,
                   lost_event_number := 0, event_number := 0, event_list := [],
                   perf_started := True, max_event_number := sint max_num\<rparr>))"

definition perf_event_end :: "perf_event_mgr \<Rightarrow> perf_event_mgr outcome" where
  "perf_event_end m = (if perf_started m then Done (m\<lparr>perf_started := False\<rparr>) else Panic)"

definition perf_event_begin_miu_dump :: "bool \<Rightarrow> u32 \<Rightarrow> perf_event_mgr \<Rightarrow> perf_event_mgr outcome" where
  "perf_event_begin_miu_dump perf_event_enable max_num m =
     (if \<not> perf_event_enable then Panic
      else Done (m\<lparr>miu_counter_enable := True, miu_max_event_number := uint max_num,
                   miu_event_number := 0, miu_lost_event_number := 0\<rparr>))"

definition perf_event_end_miu_dump :: "perf_event_mgr \<Rightarrow> perf_event_mgr" where
  "perf_event_end_miu_dump m =
     m\<lparr>miu_counter_enable := False, miu_event_list := [], miu_event_number := 0,
       miu_lost_event_number := 0, miu_lost_event_time := 0\<rparr>"

definition perf_event_set_miu_reg_list :: "u64 list \<Rightarrow> perf_event_mgr \<Rightarrow> perf_event_mgr" where
  "perf_event_set_miu_reg_list tbl m = m\<lparr>miu_table := tbl\<rparr>"

definition perf_event_get_status :: "perf_event_mgr \<Rightarrow> bool \<times> bool" where
  "perf_event_get_status m = (perf_started m, miu_counter_enable m)"

section \<open>The event lists\<close>

text \<open>
  \<open>alloc\<close> says whether \<^verbatim>\<open>zx_calloc\<close> succeeds, \<open>now\<close> is the clock. The boolean result is true for
  return value 0.
\<close>

definition perf_event_add_event ::
    "bool \<Rightarrow> u64 \<Rightarrow> perf_event \<Rightarrow> perf_event_mgr \<Rightarrow> bool \<times> perf_event_mgr" where
  "perf_event_add_event alloc now ev m =
     (if \<not> perf_started m then (False, m)
      else if lost_event_number m > 0 then
        (False, m\<lparr>lost_event_number := lost_event_number m + 1\<rparr>)
      else if \<not> alloc then (False, m)
      else if event_number m < max_event_number m then
        (True, m\<lparr>event_list := event_list m @ [ev], event_number := event_number m + 1\<rparr>)
      else
        let m1 = m\<lparr>lost_event_number := lost_event_number m + 1\<rparr>
        in (False, if lost_event_number m1 = 1 then m1\<lparr>lost_event_time := now\<rparr> else m1))"

text \<open>
  The counter event: \<open>fill\<close> is the header the routine writes ahead of the table, \<open>get_counter\<close> the chip
  routine \<^verbatim>\<open>direct_get_miu_counter\<close> (a null pointer when \<open>None\<close>), which replaces the table's values;
  \<open>bytes\<close> lays the table out in memory.
\<close>

definition perf_event_add_miu_event ::
    "(u64 list \<Rightarrow> u64 list) option \<Rightarrow> u8 list \<Rightarrow> (u64 list \<Rightarrow> u8 list) \<Rightarrow> bool \<Rightarrow> u64
     \<Rightarrow> perf_event_mgr \<Rightarrow> (bool \<times> perf_event_mgr) outcome" where
  "perf_event_add_miu_event get_counter fill bytes alloc now m =
     (if \<not> miu_counter_enable m then Done (False, m)
      else if miu_lost_event_number m > 0 then
        Done (False, m\<lparr>miu_lost_event_number := miu_lost_event_number m + 1\<rparr>)
      else if \<not> alloc then Done (False, m)
      else
        (case get_counter of
           None \<Rightarrow> Panic
         | Some f \<Rightarrow>
             let ev = fill @ bytes (f (miu_table m))
             in if miu_event_number m < miu_max_event_number m then
                  Done (True, m\<lparr>miu_event_list := miu_event_list m @ [ev],
                                miu_event_number := miu_event_number m + 1\<rparr>)
                else
                  let m1 = m\<lparr>miu_lost_event_number := miu_lost_event_number m + 1\<rparr>
                  in Done (False, if miu_lost_event_number m1 = 1
                                  then m1\<lparr>miu_lost_event_time := now\<rparr> else m1)))"

text \<open>The copy loop with its exit test behind the body: the events copied and the events left.\<close>

fun copy_events :: "nat \<Rightarrow> int \<Rightarrow> nat \<Rightarrow> perf_event list \<Rightarrow> perf_event list \<times> perf_event list" where
  "copy_events max_num fill_num i [] = ([], [])"
| "copy_events max_num fill_num i (ev # evs) =
     (let i' = i + 1
      in if i' \<ge> max_num \<or> int i' \<ge> fill_num then ([ev], evs)
         else (case copy_events max_num fill_num i' evs of (out, rest) \<Rightarrow> (ev # out, rest)))"

text \<open>The counter list is copied only while the caller's buffer is large enough for one event.\<close>

fun copy_miu_events ::
    "nat \<Rightarrow> nat \<Rightarrow> int \<Rightarrow> nat \<Rightarrow> perf_event list \<Rightarrow> bool \<times> perf_event list \<times> perf_event list" where
  "copy_miu_events max_size max_num fill_num i [] = (True, [], [])"
| "copy_miu_events max_size max_num fill_num i (ev # evs) =
     (if max_size < length ev then (False, [], ev # evs)
      else let i' = i + 1
           in if i' \<ge> max_num \<or> int i' \<ge> fill_num then (True, [ev], evs)
              else (case copy_miu_events max_size max_num fill_num i' evs of
                      (ok, out, rest) \<Rightarrow> (ok, ev # out, rest)))"

definition perf_event_get_miu_event ::
    "nat \<Rightarrow> get_perf_event \<Rightarrow> perf_event_mgr \<Rightarrow> bool \<times> get_perf_event \<times> perf_event_mgr" where
  "perf_event_get_miu_event max_size g m =
     (if \<not> perf_started m then (False, g, m)
      else
        let fill_num = (if miu_event_number m > 2 then miu_event_number m - 1 else 0)
        in if fill_num = 0 then
             (True, g\<lparr>event_filled_num := 0, event_buffer_filled_size := 0, event_lost_num := 0\<rparr>, m)
           else
             (case copy_miu_events max_size (max_event_num g) fill_num 0 (miu_event_list m) of
                (ok, out, rest) \<Rightarrow>
                  (ok, g\<lparr>event_buffer := concat out, event_filled_num := length out,
                        event_buffer_filled_size := length (concat out),
                        event_lost_num := miu_lost_event_number m,
                        event_lost_timestamp := miu_lost_event_time m\<rparr>,
                   m\<lparr>miu_event_list := rest, miu_event_number := miu_event_number m - int (length out),
                     miu_lost_event_number := 0, miu_lost_event_time := 0\<rparr>)))"

section \<open>The interrupt ring\<close>

definition memcpy :: "nat \<Rightarrow> u8 list \<Rightarrow> (nat \<Rightarrow> u8) \<Rightarrow> nat \<Rightarrow> u8" where
  "memcpy off xs buf = (\<lambda>i. if off \<le> i \<and> i < off + length xs then xs ! (i - off) else buf i)"

definition read_bytes :: "nat \<Rightarrow> nat \<Rightarrow> (nat \<Rightarrow> u8) \<Rightarrow> u8 list" where
  "read_bytes off n buf = map buf [off..<off + n]"

definition perf_event_add_isr_event :: "perf_event \<Rightarrow> perf_event_mgr \<Rightarrow> bool \<times> perf_event_mgr" where
  "perf_event_add_isr_event ev m =
     (if \<not> perf_started m then (False, m)
      else if isr_event_buffer_size m + length ev < ISR_SIZE then
        let tail = isr_event_tail m;
            buf = (if tail + length ev < ISR_SIZE then memcpy tail ev (isr_event_buffer m)
                   else let partial = ISR_SIZE - tail
                        in memcpy 0 (drop partial ev) (memcpy tail (take partial ev) (isr_event_buffer m)))
        in (True, m\<lparr>isr_event_buffer := buf,
                    isr_event_tail := (tail + length ev) mod ISR_SIZE,
                    isr_event_buffer_size := isr_event_buffer_size m + length ev,
                    isr_event_num := isr_event_num m + 1\<rparr>)
      else (True, m))"

definition perf_event_get_isr_event ::
    "get_perf_event \<Rightarrow> perf_event_mgr \<Rightarrow> bool \<times> get_perf_event \<times> perf_event_mgr" where
  "perf_event_get_isr_event g m =
     (if \<not> perf_started m then (False, g, m)
      else if isr_event_num m = 0 then
        (True, g, m\<lparr>isr_event_num := 0, isr_event_buffer_size := 0\<rparr>)
      else
        let fill_number = isr_event_num m; fill_size = isr_event_buffer_size m;
            head = isr_event_head m;
            out = (if head + fill_size \<le> ISR_SIZE
                   then read_bytes head (isr_event_buffer_size m) (isr_event_buffer m)
                   else let partial = ISR_SIZE - head
                        in read_bytes head partial (isr_event_buffer m) @
                           read_bytes 0 fill_size (isr_event_buffer m))
        in (True, g\<lparr>isr_buffer := out, isr_filled_num := fill_number, isr_filled_size := fill_size\<rparr>,
            m\<lparr>isr_event_head := (head + fill_size) mod ISR_SIZE,
              isr_event_num := isr_event_num m - fill_number,
              isr_event_buffer_size := isr_event_buffer_size m - fill_size\<rparr>))"

definition perf_event_get_event ::
    "get_perf_event \<Rightarrow> perf_event_mgr \<Rightarrow> bool \<times> get_perf_event \<times> perf_event_mgr" where
  "perf_event_get_event g m =
     (if \<not> perf_started m then (False, g, m)
      else
        let fill_num = (if event_number m > 2 then event_number m - 1 else 0)
        in if fill_num = 0 then
             (let g1 = g\<lparr>event_filled_num := 0, event_buffer_filled_size := 0, event_lost_num := 0\<rparr>
              in if isr_event_num m = 0 then (True, g1, m) else perf_event_get_isr_event g1 m)
           else
             (case copy_events (max_event_num g) fill_num 0 (event_list m) of
                (out, rest) \<Rightarrow>
                  perf_event_get_isr_event
                    (g\<lparr>event_buffer := concat out, event_filled_num := length out,
                       event_buffer_filled_size := length (concat out),
                       event_lost_num := lost_event_number m,
                       event_lost_timestamp := lost_event_time m\<rparr>)
                    (m\<lparr>event_list := rest, event_number := event_number m - int (length out),
                       lost_event_number := 0, lost_event_time := 0\<rparr>)))"

definition perf_event_deinit :: "perf_event_mgr \<Rightarrow> unit outcome" where
  "perf_event_deinit m = (if perf_started m then Panic else Done ())"

section \<open>Engine usage\<close>

datatype engine_status = ENGINE_NONE | ENGINE_IDLE | ENGINE_BUSY

record hwq_event_info =
  submit_fence_id :: u32
  complete_fence_id :: u32
  last_busy2idletime :: u64
  engine_active :: bool
  engine_state :: engine_status
  idle_time :: u64
  engine_usage :: u64

record hwq_event_mgr =
  hwq_started :: bool
  start_time :: u64
  sample_time :: u64
  hwq_event :: "hwq_event_info list"

definition gfx_hwq_event_init :: "nat \<Rightarrow> hwq_event_mgr" where
  "gfx_hwq_event_init active_engine_count =
     \<lparr>hwq_started = False, start_time = 0, sample_time = 1000000000,
      hwq_event = replicate active_engine_count
        \<lparr>submit_fence_id = 0, complete_fence_id = 0, last_busy2idletime = 0, engine_active = False,
         engine_state = ENGINE_NONE, idle_time = 0, engine_usage = 0\<rparr>\<rparr>"

definition upd_engine :: "nat \<Rightarrow> (hwq_event_info \<Rightarrow> hwq_event_info) \<Rightarrow> hwq_event_mgr \<Rightarrow> hwq_event_mgr" where
  "upd_engine e f h = h\<lparr>hwq_event := (hwq_event h)[e := f (hwq_event h ! e)]\<rparr>"

definition complete_info :: "u64 \<Rightarrow> u32 \<Rightarrow> hwq_event_info \<Rightarrow> hwq_event_info" where
  "complete_info time fence_id p =
     (let p1 = (if submit_fence_id p = fence_id
                then p\<lparr>engine_state := ENGINE_IDLE, last_busy2idletime := time\<rparr>
                else p\<lparr>engine_state := ENGINE_BUSY\<rparr>)
      in p1\<lparr>complete_fence_id := fence_id, engine_active := True\<rparr>)"

definition hwq_process_complete_event :: "u64 \<Rightarrow> u32 \<Rightarrow> nat \<Rightarrow> hwq_event_mgr \<Rightarrow> hwq_event_mgr" where
  "hwq_process_complete_event time fence_id engine h =
     (if \<not> hwq_started h then h else upd_engine engine (complete_info time fence_id) h)"

definition add_idle :: "u64 \<Rightarrow> u64 \<Rightarrow> hwq_event_info \<Rightarrow> hwq_event_info" where
  "add_idle start time p =
     (let s_idle_time = (if start > last_busy2idletime p then start else last_busy2idletime p)
      in p\<lparr>idle_time := idle_time p + (time - s_idle_time)\<rparr>)"

definition submit_info :: "u64 \<Rightarrow> u64 \<Rightarrow> u32 \<Rightarrow> hwq_event_info \<Rightarrow> hwq_event_info" where
  "submit_info start time fence_id p =
     (let p1 = (if engine_state p = ENGINE_IDLE then add_idle start time p else p)
      in p1\<lparr>submit_fence_id := fence_id, engine_active := True, engine_state := ENGINE_BUSY\<rparr>)"

definition hwq_process_submit_event :: "u64 \<Rightarrow> u32 \<Rightarrow> nat \<Rightarrow> hwq_event_mgr \<Rightarrow> hwq_event_mgr" where
  "hwq_process_submit_event time fence_id engine h =
     (if \<not> hwq_started h then h else upd_engine engine (submit_info (start_time h) time fence_id) h)"

text \<open>
  \<^verbatim>\<open>zx_do_div\<close> of \<^verbatim>\<open>os_interface.c\<close>: the kernel's \<^verbatim>\<open>do_div\<close> (parameter \<open>do_div\<close>) takes a 64 bit dividend and
  a 32 bit divisor, so the divisor is converted.
\<close>

definition zx_do_div :: "(u64 \<Rightarrow> u32 \<Rightarrow> u64) \<Rightarrow> u64 \<Rightarrow> u64 \<Rightarrow> u64" where
  "zx_do_div do_div x y = do_div x (ucast y)"

definition vsync_info :: "(u64 \<Rightarrow> u32 \<Rightarrow> u64) \<Rightarrow> u64 \<Rightarrow> u64 \<Rightarrow> hwq_event_info \<Rightarrow> hwq_event_info" where
  "vsync_info do_div start time p =
     (if \<not> engine_active p then
        (case engine_state p of
           ENGINE_BUSY \<Rightarrow> p\<lparr>engine_usage := 100, idle_time := 0\<rparr>
         | _ \<Rightarrow> p\<lparr>engine_usage := 0, idle_time := 0\<rparr>)
      else
        let p1 = (if engine_state p = ENGINE_IDLE then add_idle start time p else p);
            p2 = p1\<lparr>engine_usage := 100 - zx_do_div do_div (idle_time p1 * 100) (time - start)\<rparr>
        in p2\<lparr>idle_time := 0, engine_active := False\<rparr>)"

text \<open>
  \<^verbatim>\<open>hwq_get_hwq_info\<close> starts the accounting at its first call; \<open>now\<close> is the clock it reads. The usage
  numbers it returns are those stored in the adapter.
\<close>

definition hwq_get_hwq_info :: "u64 \<Rightarrow> hwq_event_mgr \<Rightarrow> hwq_event_mgr" where
  "hwq_get_hwq_info now h =
     (let h1 = (if \<not> hwq_started h then h\<lparr>start_time := now, hwq_started := True\<rparr> else h)
      in if sample_time h1 \<noteq> 50 * 1000 * 1000 then h1\<lparr>sample_time := 50 * 1000 * 1000\<rparr> else h1)"

definition hwq_process_vsync_event ::
    "(u64 \<Rightarrow> u32 \<Rightarrow> u64) \<Rightarrow> bool \<Rightarrow> u64 \<Rightarrow> u64 \<Rightarrow> hwq_event_mgr \<Rightarrow> hwq_event_mgr" where
  "hwq_process_vsync_event do_div hwq_event_enable now time h0 =
     (if \<not> hwq_event_enable then h0
      else let h = hwq_get_hwq_info now h0
           in if time - start_time h < 1000000000 then h
              else h\<lparr>hwq_event := map (vsync_info do_div (start_time h) time) (hwq_event h),
                     start_time := time\<rparr>)"

text \<open>
  \<^verbatim>\<open>perf_calculate_engine_usage_e3k\<close>: the maximum over the engines of each kind. \<open>is_3d\<close>, \<open>is_vcp\<close> and
  \<open>is_vpp\<close> are the ring index tests. The usage passes through an \<^verbatim>\<open>unsigned int\<close>.
\<close>

fun max_usage :: "(nat \<Rightarrow> bool) \<Rightarrow> nat \<Rightarrow> hwq_event_info list \<Rightarrow> u32 \<Rightarrow> u32" where
  "max_usage sel e [] u = u"
| "max_usage sel e (p # ps) u =
     max_usage sel (Suc e) ps (if sel e \<and> (ucast (engine_usage p) :: u32) > u then ucast (engine_usage p) else u)"

definition perf_calculate_engine_usage_e3k ::
    "(nat \<Rightarrow> bool) \<Rightarrow> (nat \<Rightarrow> bool) \<Rightarrow> (nat \<Rightarrow> bool) \<Rightarrow> hwq_event_mgr \<Rightarrow> u32 \<times> u32 \<times> u32" where
  "perf_calculate_engine_usage_e3k is_3d is_vcp is_vpp h =
     (max_usage is_3d 0 (hwq_event h) 0, max_usage is_vcp 0 (hwq_event h) 0,
      max_usage is_vpp 0 (hwq_event h) 0)"

section \<open>Bounded lists that count their losses\<close>

text \<open>
  The contract both event lists keep: below the capacity an event is appended; once one is lost,
  or at the capacity, an event is counted as lost and the list stays. \<open>entry\<close> is what is stored for
  an event.
\<close>

locale lossy_fifo =
  fixes items :: "'s \<Rightarrow> 'i list" and lost :: "'s \<Rightarrow> int" and cap :: "'s \<Rightarrow> int"
    and add :: "'e \<Rightarrow> 's \<Rightarrow> 's" and entry :: "'s \<Rightarrow> 'e \<Rightarrow> 'i" and ok :: "'s \<Rightarrow> bool"
  assumes add_ok: "ok s \<Longrightarrow> ok (add e s)"
    and add_cap: "ok s \<Longrightarrow> cap (add e s) = cap s"
    and add_entry: "ok s \<Longrightarrow> entry (add e s) = entry s"
    and lost_nonneg: "ok s \<Longrightarrow> 0 \<le> lost s"
    and stored: "ok s \<Longrightarrow> lost s = 0 \<Longrightarrow> int (length (items s)) < cap s \<Longrightarrow>
      items (add e s) = items s @ [entry s e] \<and> lost (add e s) = 0"
    and dropped: "ok s \<Longrightarrow> 0 < lost s \<or> cap s \<le> int (length (items s)) \<Longrightarrow>
      items (add e s) = items s \<and> lost (add e s) = lost s + 1"
begin

definition room :: "'s \<Rightarrow> nat" where
  "room s = (if lost s = 0 then nat (cap s - int (length (items s))) else 0)"

lemma room_zero_iff: "ok s \<Longrightarrow> room s = 0 \<longleftrightarrow> 0 < lost s \<or> cap s \<le> int (length (items s))"
  using lost_nonneg [of s] by (auto simp: room_def)

lemma add_all:
  "ok s \<Longrightarrow> items (fold add es s) = items s @ map (entry s) (take (room s) es) \<and>
     lost (fold add es s) = lost s + int (length es - room s) \<and> ok (fold add es s)"
proof (induction es arbitrary: s)
  case (Cons e es)
  have ok': "ok (add e s)" "entry (add e s) = entry s" using Cons.prems add_ok add_entry by auto
  note IH = Cons.IH [OF ok'(1)]
  show ?case
  proof (cases "room s")
    case 0
    then have d: "items (add e s) = items s" "lost (add e s) = lost s + 1"
      using dropped [OF Cons.prems] room_zero_iff [OF Cons.prems] by auto
    have "room (add e s) = 0" using d lost_nonneg [OF Cons.prems] by (simp add: room_def)
    then show ?thesis using IH d 0 by simp
  next
    case (Suc n)
    then have "lost s = 0" "int (length (items s)) < cap s"
      by (auto simp: room_def split: if_splits)
    with stored [OF Cons.prems] have d: "items (add e s) = items s @ [entry s e]" "lost (add e s) = 0"
      by auto
    have "room (add e s) = n"
      using Suc d add_cap [OF Cons.prems] \<open>lost s = 0\<close> by (simp add: room_def)
    then show ?thesis using IH d Suc ok'(2) \<open>lost s = 0\<close> by simp
  qed
qed simp

text \<open>Nothing is lost silently: what is stored and what is counted as lost is what was added.\<close>

lemma nothing_lost_silently:
  assumes "ok s"
  shows "int (length (items (fold add es s))) + lost (fold add es s) =
    int (length (items s)) + lost s + int (length es)"
  using add_all [OF assms, of es] by (cases "room s \<le> length es") auto

end

definition events_ok :: "perf_event_mgr \<Rightarrow> bool" where
  [kmd_inv]: "events_ok m \<longleftrightarrow> perf_started m \<and> event_number m = int (length (event_list m)) \<and>
     0 \<le> lost_event_number m"

definition add_event :: "u64 \<Rightarrow> perf_event \<Rightarrow> perf_event_mgr \<Rightarrow> perf_event_mgr" where
  "add_event now ev m = snd (perf_event_add_event True now ev m)"

interpretation sched_events: lossy_fifo event_list lost_event_number max_event_number "add_event now"
    "\<lambda>_ ev. ev" events_ok for now
  by unfold_locales (auto simp: events_ok_def add_event_def perf_event_add_event_def Let_def)

definition miu_ok :: "perf_event_mgr \<Rightarrow> bool" where
  [kmd_inv]: "miu_ok m \<longleftrightarrow> miu_counter_enable m \<and> miu_event_number m = int (length (miu_event_list m)) \<and>
     0 \<le> miu_lost_event_number m"

definition add_miu_event ::
    "(u64 list \<Rightarrow> u64 list) \<Rightarrow> (u64 list \<Rightarrow> u8 list) \<Rightarrow> u64 \<Rightarrow> u8 list \<Rightarrow> perf_event_mgr \<Rightarrow> perf_event_mgr" where
  "add_miu_event f bytes now fill m =
     (case perf_event_add_miu_event (Some f) fill bytes True now m of Done (_, m') \<Rightarrow> m' | Panic \<Rightarrow> m)"

interpretation miu_events: lossy_fifo miu_event_list miu_lost_event_number miu_max_event_number
    "add_miu_event f bytes now" "\<lambda>m fill. fill @ bytes (f (miu_table m))" miu_ok for f bytes now
  by unfold_locales (auto simp: miu_ok_def add_miu_event_def perf_event_add_miu_event_def Let_def)

section \<open>Fetching events\<close>

lemma copy_events_eq:
  "copy_events mx fl i evs =
     (let k = max 1 (min (mx - i) (nat fl - i)) in (take k evs, drop k evs))"
proof (induction evs arbitrary: i)
  case (Cons ev evs)
  show ?case
  proof (cases "i + 1 \<ge> mx \<or> int (i + 1) \<ge> fl")
    case True
    then have "max 1 (min (mx - i) (nat fl - i)) = 1" by auto
    then show ?thesis using True by simp
  next
    case False
    then have "mx - i = Suc (mx - (i + 1))" "nat fl - i = Suc (nat fl - (i + 1))"
        "1 \<le> mx - (i + 1)" "1 \<le> nat fl - (i + 1)"
      by linarith+
    then have k: "max 1 (min (mx - i) (nat fl - i)) = Suc (max 1 (min (mx - (i + 1)) (nat fl - (i + 1))))"
      by simp
    show ?thesis unfolding k using False Cons.IH [of "i + 1"] by (simp add: Let_def)
  qed
qed simp

section \<open>The ring as a list of bytes\<close>

definition ring_bytes :: "perf_event_mgr \<Rightarrow> u8 list" where
  "ring_bytes m = map (\<lambda>k. isr_event_buffer m ((isr_event_head m + k) mod ISR_SIZE)) [0..<isr_event_buffer_size m]"

definition isr_ok :: "perf_event_mgr \<Rightarrow> bool" where
  [kmd_inv]: "isr_ok m \<longleftrightarrow> isr_event_head m < ISR_SIZE \<and> isr_event_buffer_size m < ISR_SIZE \<and>
     isr_event_tail m = (isr_event_head m + isr_event_buffer_size m) mod ISR_SIZE"

text \<open>Writing \<open>ev\<close> at \<open>tail\<close>, cut at the end of the buffer.\<close>

definition ring_write :: "nat \<Rightarrow> perf_event \<Rightarrow> (nat \<Rightarrow> u8) \<Rightarrow> nat \<Rightarrow> u8" where
  "ring_write tail ev buf =
     (if tail + length ev < ISR_SIZE then memcpy tail ev buf
      else let partial = ISR_SIZE - tail
           in memcpy 0 (drop partial ev) (memcpy tail (take partial ev) buf))"

lemma ring_write_hit:
  assumes "tail < ISR_SIZE" "length ev < ISR_SIZE" "j < length ev"
  shows "ring_write tail ev buf ((tail + j) mod ISR_SIZE) = ev ! j"
proof (cases "tail + length ev < ISR_SIZE")
  case True
  then show ?thesis using assms by (simp add: ring_write_def memcpy_def)
next
  case False
  let ?p = "ISR_SIZE - tail"
  show ?thesis
  proof (cases "j < ?p")
    case True
    then have "(tail + j) mod ISR_SIZE = tail + j" by simp
    then show ?thesis using False True assms by (auto simp: ring_write_def memcpy_def Let_def)
  next
    case wrapped: False
    have "(tail + j) mod ISR_SIZE = j - ?p"
      using wrapped assms by (simp add: mod_if) (auto simp: mod_if)
    then show ?thesis using False wrapped assms by (auto simp: ring_write_def memcpy_def Let_def)
  qed
qed

lemma ring_write_miss:
  assumes "tail < ISR_SIZE" "length ev < ISR_SIZE" "ring_write tail ev buf i \<noteq> buf i"
  shows "\<exists>j<length ev. i = (tail + j) mod ISR_SIZE"
proof (cases "tail + length ev < ISR_SIZE")
  case True
  then have "tail \<le> i" "i < tail + length ev"
    using assms(3) by (auto simp: ring_write_def memcpy_def split: if_splits)
  then show ?thesis using True by (intro exI [of _ "i - tail"]) auto
next
  case False
  let ?p = "ISR_SIZE - tail"
  have "(tail \<le> i \<and> i < ISR_SIZE) \<or> i < length ev - ?p"
    using assms False by (auto simp: ring_write_def memcpy_def Let_def split: if_splits)
  then show ?thesis
  proof
    assume "tail \<le> i \<and> i < ISR_SIZE"
    then show ?thesis using False by (intro exI [of _ "i - tail"]) auto
  next
    assume i: "i < length ev - ?p"
    then have "tail + (?p + i) = ISR_SIZE + i" using assms(1) by simp
    then have "(tail + (?p + i)) mod ISR_SIZE = i" using i assms(2) by (simp add: mod_if)
    then show ?thesis using i by (intro exI [of _ "?p + i"]) auto
  qed
qed

lemma mod_eq_close: "(a :: nat) mod N = b mod N \<Longrightarrow> a < b \<Longrightarrow> b - a < N \<Longrightarrow> False"
  by (metis diff_is_0_eq' dvd_imp_le leD mod_eq_dvd_iff_nat less_imp_le zero_less_diff)

lemma add_isr_appends:
  assumes ok: "isr_ok m" "perf_started m" and fits: "isr_event_buffer_size m + length ev < ISR_SIZE"
  defines "m' \<equiv> snd (perf_event_add_isr_event ev m)"
  shows "ring_bytes m' = ring_bytes m @ ev" "isr_ok m'" "perf_started m'"
    "isr_event_num m' = isr_event_num m + 1"
proof -
  let ?N = ISR_SIZE and ?h = "isr_event_head m" and ?n = "isr_event_buffer_size m"
  let ?t = "isr_event_tail m" and ?b = "isr_event_buffer m"
  have m': "m' = m\<lparr>isr_event_buffer := ring_write ?t ev ?b, isr_event_tail := (?t + length ev) mod ?N,
      isr_event_buffer_size := ?n + length ev, isr_event_num := isr_event_num m + 1\<rparr>"
    using ok(2) fits by (simp add: m'_def perf_event_add_isr_event_def ring_write_def Let_def)
  have t: "?t < ?N" "?t = (?h + ?n) mod ?N" using ok(1) by (auto simp: isr_ok_def)
  have hit: "ring_write ?t ev ?b ((?h + (?n + j)) mod ?N) = ev ! j" if "j < length ev" for j
  proof -
    have "(?t + j) mod ?N = (?h + (?n + j)) mod ?N" by (simp only: t(2) mod_add_left_eq add.assoc)
    then show ?thesis using ring_write_hit [OF t(1) _ that, of ?b] fits by simp
  qed
  have keep: "ring_write ?t ev ?b ((?h + k) mod ?N) = ?b ((?h + k) mod ?N)" if "k < ?n" for k
  proof (rule ccontr)
    assume ne: "ring_write ?t ev ?b ((?h + k) mod ?N) \<noteq> ?b ((?h + k) mod ?N)"
    have "length ev < ?N" using fits by simp
    from ring_write_miss [OF t(1) this ne]
    obtain j where j: "j < length ev" "(?h + k) mod ?N = (?t + j) mod ?N" by blast
    have "(?t + j) mod ?N = (?h + ?n + j) mod ?N" by (simp only: t(2) mod_add_left_eq)
    with j(2) have "(?h + k) mod ?N = (?h + ?n + j) mod ?N" by simp
    moreover have "?h + k < ?h + ?n + j" "?h + ?n + j - (?h + k) < ?N" using j(1) that fits by linarith+
    ultimately show False by (rule mod_eq_close)
  qed
  show "ring_bytes m' = ring_bytes m @ ev"
  proof (rule nth_equalityI)
    fix i assume "i < length (ring_bytes m')"
    then have i: "i < ?n + length ev" by (simp add: ring_bytes_def m')
    show "ring_bytes m' ! i = (ring_bytes m @ ev) ! i"
    proof (cases "i < ?n")
      case True
      then show ?thesis using keep by (simp add: ring_bytes_def m' nth_append)
    next
      case False
      then show ?thesis using hit [of "i - ?n"] i by (simp add: ring_bytes_def m' nth_append)
    qed
  qed (simp add: ring_bytes_def m')
  show "isr_ok m'" using ok(1) fits by (simp add: isr_ok_def m' mod_add_left_eq add.assoc)
  show "perf_started m'" "isr_event_num m' = isr_event_num m + 1" using ok(2) by (simp_all add: m')
qed

lemma read_ring_nowrap:
  "isr_event_head m + isr_event_buffer_size m \<le> ISR_SIZE \<Longrightarrow> isr_event_buffer_size m < ISR_SIZE \<Longrightarrow>
   read_bytes (isr_event_head m) (isr_event_buffer_size m) (isr_event_buffer m) = ring_bytes m"
  by (rule nth_equalityI) (auto simp: read_bytes_def ring_bytes_def)

lemma read_ring_wrap:
  assumes "isr_ok m" "ISR_SIZE < isr_event_head m + isr_event_buffer_size m"
  shows "take (isr_event_buffer_size m)
     (read_bytes (isr_event_head m) (ISR_SIZE - isr_event_head m) (isr_event_buffer m) @
      read_bytes 0 (isr_event_buffer_size m) (isr_event_buffer m)) = ring_bytes m"
proof -
  let ?p = "ISR_SIZE - isr_event_head m"
  have "?p \<le> isr_event_buffer_size m" "isr_event_head m < ISR_SIZE" using assms by (auto simp: isr_ok_def)
  moreover have "(isr_event_head m + i) mod ISR_SIZE = i - ?p"
    if "i < isr_event_buffer_size m" "?p \<le> i" for i
    using that assms by (auto simp: isr_ok_def mod_if)
  ultimately show ?thesis
    by (intro nth_equalityI) (auto simp: read_bytes_def ring_bytes_def nth_append)
qed

section \<open>Usage accounting over time\<close>

definition do_div_ok :: "(u64 \<Rightarrow> u32 \<Rightarrow> u64) \<Rightarrow> bool" where
  "do_div_ok do_div \<longleftrightarrow> (\<forall>n b. b \<noteq> 0 \<longrightarrow> do_div n b = n div ucast b)"

text \<open>
  Up to time \<open>now\<close> of a period that began at \<open>start\<close>, the idle time accounted for an engine fits into the
  part of the period that has been looked at.
\<close>

definition idle_from :: "u64 \<Rightarrow> hwq_event_info \<Rightarrow> nat" where
  "idle_from start p = max (unat start) (unat (last_busy2idletime p))"

definition engine_ok :: "u64 \<Rightarrow> u64 \<Rightarrow> hwq_event_info \<Rightarrow> bool" where
  [kmd_inv]: "engine_ok start now p \<longleftrightarrow> unat start \<le> unat now \<and> unat (last_busy2idletime p) \<le> unat now \<and>
     unat (idle_time p) + unat start \<le> (if engine_state p = ENGINE_IDLE then idle_from start p else unat now) \<and>
     unat (engine_usage p) \<le> 100"

lemma engine_ok_complete:
  "engine_ok start now p \<Longrightarrow> now \<le> time \<Longrightarrow> engine_ok start time (complete_info time f p)"
  by (auto simp: engine_ok_def complete_info_def Let_def idle_from_def word_le_unat split: if_splits)

lemma add_idle_unat:
  assumes "engine_ok start now p" "now \<le> time" "engine_state p = ENGINE_IDLE"
  shows "unat (idle_time (add_idle start time p)) + unat start \<le> unat time"
proof -
  have le: "idle_from start p \<le> unat time"
    using assms(1,2) by (auto simp: engine_ok_def idle_from_def word_le_unat)
  let ?s = "if start > last_busy2idletime p then start else last_busy2idletime p"
  have s: "unat ?s = idle_from start p" by (auto simp: idle_from_def word_less_unat)
  have d: "unat (time - ?s) = unat time - idle_from start p"
    using le s by (subst unat_sub_nowrap) (simp_all add: word_le_unat)
  have i: "unat (idle_time p) + unat start \<le> idle_from start p"
    using assms(1,3) by (simp add: engine_ok_def)
  have "unat (idle_time p) + unat (time - ?s) < 2 ^ LENGTH(64)"
    using i le d unsigned_less [of time, where 'a = nat] by simp
  then have "unat (idle_time p + (time - ?s)) = unat (idle_time p) + (unat time - idle_from start p)"
    using d by (simp add: unat_add_nowrap)
  then show ?thesis using i le by (simp add: add_idle_def Let_def)
qed

lemma add_idle_simps [simp]:
  "engine_state (add_idle start time p) = engine_state p"
  "last_busy2idletime (add_idle start time p) = last_busy2idletime p"
  "engine_usage (add_idle start time p) = engine_usage p"
  by (simp_all add: add_idle_def Let_def)

lemma engine_ok_submit:
  assumes "engine_ok start now p" "now \<le> time"
  shows "engine_ok start time (submit_info start time f p)"
proof (cases "engine_state p = ENGINE_IDLE")
  case True
  then show ?thesis
    using assms add_idle_unat [OF assms True] by (auto simp: engine_ok_def submit_info_def word_le_unat)
next
  case False
  then show ?thesis
    using assms by (auto simp: engine_ok_def submit_info_def word_le_unat)
qed

lemma unat_ucast_up: "unat (ucast (w :: u32) :: u64) = unat w"
proof -
  have "unat w < 2 ^ 64" using unsigned_less [of w, where 'a = nat] by simp
  then show ?thesis by (simp only: unsigned_ucast_eq take_bit_nat_eq_self len_bit0 len_num1 mult_1_right)
      (simp add: take_bit_nat_eq_self)
qed

lemma usage_in_range:
  fixes idle elapsed :: u64
  assumes dd: "do_div_ok do_div" and i: "unat idle \<le> unat elapsed"
    and e: "0 < unat elapsed" "unat elapsed < 2 ^ 32"
  shows "unat (100 - zx_do_div do_div (idle * 100) elapsed) \<le> 100"
proof -
  have uc: "unat (ucast elapsed :: u32) = unat elapsed"
    using e(2) by (simp add: unsigned_ucast_eq take_bit_nat_eq_self)
  then have nz: "(ucast elapsed :: u32) \<noteq> 0" using e(1) by (auto simp: unat_eq_zero)
  have "zx_do_div do_div (idle * 100) elapsed = idle * 100 div ucast (ucast elapsed :: u32)"
    using dd nz by (simp add: zx_do_div_def do_div_ok_def)
  moreover have "unat (ucast (ucast elapsed :: u32) :: u64) = unat elapsed"
    using uc unat_ucast_up [of "ucast elapsed :: u32"] by simp
  moreover have "unat (idle * 100) = unat idle * 100"
    using i e(2) by (simp add: unat_word_ariths)
  ultimately have "unat (zx_do_div do_div (idle * 100) elapsed) = unat idle * 100 div unat elapsed"
    by (simp add: unat_div_distrib)
  also have "\<dots> \<le> 100"
    using i e(1) by (metis div_le_mono div_mult_self_is_m mult.commute mult_le_mono1)
  finally have "zx_do_div do_div (idle * 100) elapsed \<le> 100" by (simp add: word_le_unat)
  then show ?thesis by (simp add: unat_sub_nowrap)
qed

lemma engine_ok_vsync:
  assumes ok: "engine_ok start now p" "now \<le> time" and dd: "do_div_ok do_div"
    and el: "1000000000 \<le> time - start" "unat (time - start) < 2 ^ 32"
  shows "engine_ok time time (vsync_info do_div start time p)"
proof -
  define p1 where "p1 = (if engine_state p = ENGINE_IDLE then add_idle start time p else p)"
  have st: "start \<le> time" using ok by (auto simp: engine_ok_def word_le_unat)
  have i1: "unat (idle_time p1) + unat start \<le> unat time"
    using add_idle_unat [OF ok] ok by (auto simp: p1_def engine_ok_def word_le_unat)
  then have "unat (idle_time p1) \<le> unat (time - start)" using st by (simp add: unat_sub_nowrap)
  moreover have "0 < unat (time - start)" using el(1) by (simp add: word_le_unat)
  ultimately have u: "unat (100 - zx_do_div do_div (idle_time p1 * 100) (time - start)) \<le> 100"
    using usage_in_range [OF dd] el(2) by blast
  have last: "unat (last_busy2idletime p) \<le> unat time" using ok by (auto simp: engine_ok_def word_le_unat)
  show ?thesis
  proof (cases "engine_active p")
    case False
    then show ?thesis
      using last by (cases "engine_state p") (auto simp: engine_ok_def vsync_info_def idle_from_def)
  next
    case True
    have "vsync_info do_div start time p = p1\<lparr>engine_usage := 100 - zx_do_div do_div (idle_time p1 * 100) (time - start),
        idle_time := 0, engine_active := False\<rparr>"
      using True by (simp add: vsync_info_def Let_def p1_def)
    then show ?thesis
      using last u by (auto simp: engine_ok_def idle_from_def p1_def)
  qed
qed

text \<open>
  The accounting of an adapter: events of the engines and display interrupts, each with the
  time it happens. A display interrupt comes at least every \<open>2 ^ 32\<close> nanoseconds.
\<close>

inductive hwq_reach :: "(u64 \<Rightarrow> u32 \<Rightarrow> u64) \<Rightarrow> u64 \<Rightarrow> hwq_event_mgr \<Rightarrow> bool" for do_div where
  hwq_start: "hwq_reach do_div now (hwq_get_hwq_info now (gfx_hwq_event_init n))"
| hwq_submit: "hwq_reach do_div now h \<Longrightarrow> now \<le> time \<Longrightarrow>
    hwq_reach do_div time (hwq_process_submit_event time f e h)"
| hwq_complete: "hwq_reach do_div now h \<Longrightarrow> now \<le> time \<Longrightarrow>
    hwq_reach do_div time (hwq_process_complete_event time f e h)"
| hwq_vsync: "hwq_reach do_div now h \<Longrightarrow> now \<le> time \<Longrightarrow> unat (time - start_time h) < 2 ^ 32 \<Longrightarrow>
    hwq_reach do_div time (hwq_process_vsync_event do_div en clk time h)"

definition hwq_inv :: "u64 \<Rightarrow> hwq_event_mgr \<Rightarrow> bool" where
  [kmd_inv]: "hwq_inv now h \<longleftrightarrow> hwq_started h \<and> start_time h \<le> now \<and>
     (\<forall>p\<in>set (hwq_event h). engine_ok (start_time h) now p)"

lemma engine_ok_later: "engine_ok start now p \<Longrightarrow> now \<le> time \<Longrightarrow> engine_ok start time p"
  by (auto simp: engine_ok_def word_le_unat)

lemma hwq_inv_upd:
  assumes "hwq_inv now h" "now \<le> time" "\<And>p. engine_ok (start_time h) now p \<Longrightarrow> engine_ok (start_time h) time (f p)"
  shows "hwq_inv time (upd_engine e f h)"
proof -
  have "engine_ok (start_time h) time p" if "p \<in> set ((hwq_event h)[e := f (hwq_event h ! e)])" for p
  proof (cases "e < length (hwq_event h)")
    case True
    then have "hwq_event h ! e \<in> set (hwq_event h)" by simp
    moreover have "p = f (hwq_event h ! e) \<or> p \<in> set (hwq_event h)"
      using that set_update_subset_insert [of "hwq_event h" e "f (hwq_event h ! e)"] by auto
    ultimately show ?thesis using assms engine_ok_later unfolding hwq_inv_def by blast
  next
    case False
    then show ?thesis using that assms by (auto simp: hwq_inv_def list_update_beyond intro: engine_ok_later)
  qed
  then show ?thesis using assms(1,2) by (auto simp: hwq_inv_def upd_engine_def)
qed

lemma hwq_reach_inv: "hwq_reach do_div now h \<Longrightarrow> do_div_ok do_div \<Longrightarrow> hwq_inv now h"
proof (induction rule: hwq_reach.induct)
  case (hwq_start now n)
  then show ?case
    by (auto simp: hwq_inv_def hwq_get_hwq_info_def gfx_hwq_event_init_def engine_ok_def Let_def)
next
  case (hwq_submit now h time f e)
  then show ?case
    using hwq_inv_upd [of now h time "submit_info (start_time h) time f" e] engine_ok_submit
    by (auto simp: hwq_process_submit_event_def hwq_inv_def)
next
  case (hwq_complete now h time f e)
  then show ?case
    using hwq_inv_upd [of now h time "complete_info time f" e] engine_ok_complete
    by (auto simp: hwq_process_complete_event_def hwq_inv_def)
next
  case (hwq_vsync now h time en clk)
  have inv: "hwq_inv now h" using hwq_vsync by simp
  have info: "hwq_event (hwq_get_hwq_info clk h) = hwq_event h" "start_time (hwq_get_hwq_info clk h) = start_time h"
      "hwq_started (hwq_get_hwq_info clk h)"
    using inv by (auto simp: hwq_get_hwq_info_def Let_def hwq_inv_def)
  have later: "start_time h \<le> time" "\<forall>p\<in>set (hwq_event h). engine_ok (start_time h) time p"
    using inv hwq_vsync.hyps(2) engine_ok_later by (auto simp: hwq_inv_def)
  have "engine_ok time time (vsync_info do_div (start_time h) time p)"
    if "p \<in> set (hwq_event h)" "\<not> time - start_time h < 1000000000" for p
    using that inv hwq_vsync engine_ok_vsync by (auto simp: hwq_inv_def not_less)
  then show ?case
    using inv info later hwq_vsync.hyps(2)
    by (auto simp: hwq_process_vsync_event_def Let_def hwq_inv_def)
qed

section \<open>Properties\<close>

text \<open>
  C19. The interrupt ring is a byte queue. An event that leaves the ring below its size is appended
  to the bytes in it, one that does not fit leaves it alone; a fetch gives the caller all of them,
  in order, as the first \<open>isr_filled_size\<close> bytes of what it writes, and empties the ring. This holds
  across every wrap of the positions.
\<close>

theorem perf_event_isr_ring_fifo:
  assumes "isr_ok m" "perf_started m"
  shows "ring_bytes (snd (perf_event_add_isr_event ev m)) =
      ring_bytes m @ (if isr_event_buffer_size m + length ev < ISR_SIZE then ev else []) \<and>
    isr_ok (snd (perf_event_add_isr_event ev m)) \<and>
    (0 < isr_event_num m \<longrightarrow>
      (case perf_event_get_isr_event g m of
         (ok, g', m') \<Rightarrow> ok \<and> take (isr_filled_size g') (isr_buffer g') = ring_bytes m \<and>
           isr_filled_num g' = isr_event_num m \<and> ring_bytes m' = [] \<and> isr_event_num m' = 0 \<and> isr_ok m'))"
proof (intro conjI impI)
  show "ring_bytes (snd (perf_event_add_isr_event ev m)) =
      ring_bytes m @ (if isr_event_buffer_size m + length ev < ISR_SIZE then ev else [])"
    using add_isr_appends [OF assms, of ev] assms(2) by (simp add: perf_event_add_isr_event_def)
  show "isr_ok (snd (perf_event_add_isr_event ev m))"
    using add_isr_appends [OF assms, of ev] assms
    by (cases "isr_event_buffer_size m + length ev < ISR_SIZE") (simp_all add: perf_event_add_isr_event_def)
  assume n: "0 < isr_event_num m"
  let ?n = "isr_event_buffer_size m" and ?h = "isr_event_head m"
  have len: "length (ring_bytes m) = ?n" by (simp add: ring_bytes_def)
  have "take ?n (if ?h + ?n \<le> ISR_SIZE then read_bytes ?h ?n (isr_event_buffer m)
      else read_bytes ?h (ISR_SIZE - ?h) (isr_event_buffer m) @ read_bytes 0 ?n (isr_event_buffer m)) = ring_bytes m"
    using read_ring_nowrap [of m] read_ring_wrap [OF assms(1)] assms(1) len by (auto simp: isr_ok_def)
  then show "case perf_event_get_isr_event g m of
         (ok, g', m') \<Rightarrow> ok \<and> take (isr_filled_size g') (isr_buffer g') = ring_bytes m \<and>
           isr_filled_num g' = isr_event_num m \<and> ring_bytes m' = [] \<and> isr_event_num m' = 0 \<and> isr_ok m'"
    using assms n by (auto simp: perf_event_get_isr_event_def Let_def isr_ok_def ring_bytes_def)
qed

definition sample_perf :: perf_event_mgr where
  "sample_perf = zx_perf_event_init\<lparr>perf_started := True, max_event_number := 4,
     isr_event_head := 524287, isr_event_tail := 524287\<rparr>"

lemma sample_perf_ok: "isr_ok sample_perf" "perf_started sample_perf" "events_ok sample_perf"
  by (simp_all add: sample_perf_def isr_ok_def zx_perf_event_init_def events_ok_def
      PERF_EVENT_MAX_ISR_EVENT_BUFFER_SIZE_def)

theorem perf_event_isr_ring_fifo_witness:
  "ring_bytes (snd (perf_event_add_isr_event [1, 2, 3] sample_perf)) = [1, 2, 3]"
  using perf_event_isr_ring_fifo [OF sample_perf_ok(1,2), of "[1, 2, 3]"]
  by (simp add: ring_bytes_def sample_perf_def zx_perf_event_init_def PERF_EVENT_MAX_ISR_EVENT_BUFFER_SIZE_def)

text \<open>
  A fetch from a ring whose bytes wrap writes past the size it reports: after the part before
  the end of the buffer it copies the full size again instead of the remainder.
\<close>

theorem perf_event_get_isr_event_overruns:
  assumes "perf_started m" "0 < isr_event_num m" "isr_event_head m < ISR_SIZE"
    "ISR_SIZE < isr_event_head m + isr_event_buffer_size m"
  shows "length (isr_buffer (fst (snd (perf_event_get_isr_event g m)))) =
      isr_filled_size (fst (snd (perf_event_get_isr_event g m))) + (ISR_SIZE - isr_event_head m) \<and>
    isr_filled_size (fst (snd (perf_event_get_isr_event g m))) = isr_event_buffer_size m"
  using assms by (auto simp: perf_event_get_isr_event_def Let_def read_bytes_def)

theorem perf_event_get_isr_event_overruns_witness:
  "\<forall>g0. let m = snd (perf_event_add_isr_event [1, 2, 3] sample_perf);
       g = fst (snd (perf_event_get_isr_event g0 m))
   in isr_filled_size g = 3 \<and> length (isr_buffer g) = 4"
proof
  fix g0
  let ?m = "snd (perf_event_add_isr_event [1, 2, 3] sample_perf)"
  have "perf_started ?m" "0 < isr_event_num ?m" "isr_event_head ?m = 524287" "isr_event_buffer_size ?m = 3"
    by (simp_all add: perf_event_add_isr_event_def sample_perf_def zx_perf_event_init_def
        PERF_EVENT_MAX_ISR_EVENT_BUFFER_SIZE_def Let_def)
  then show "let m = ?m; g = fst (snd (perf_event_get_isr_event g0 m))
      in isr_filled_size g = 3 \<and> length (isr_buffer g) = 4"
    using perf_event_get_isr_event_overruns [of ?m g0]
    by (simp add: PERF_EVENT_MAX_ISR_EVENT_BUFFER_SIZE_def Let_def)
qed

text \<open>
  The scheduler events are a bounded queue that counts its losses: adding \<open>es\<close> to a session
  that lost none yet stores the longest prefix that fits and counts the rest as lost; a fetch of more
  than two events hands out the oldest ones in order, at most \<open>max_event_num\<close> (but at least one) and
  never the newest, and reports and clears the number lost.
\<close>

theorem perf_events_bounded_fifo:
  assumes "events_ok m" "lost_event_number m = 0"
  shows "let n = nat (max_event_number m - event_number m); m1 = fold (add_event now) es m
    in event_list m1 = event_list m @ take n es \<and> lost_event_number m1 = int (length es - n) \<and>
       (2 < event_number m1 \<longrightarrow>
         (case perf_event_get_event g m1 of
            (_, g', m2) \<Rightarrow>
              let k = max 1 (min (max_event_num g) (length (event_list m1) - 1))
              in event_buffer g' = concat (take k (event_list m1)) \<and> event_filled_num g' = k \<and>
                 event_list m2 = drop k (event_list m1) \<and> events_ok m2 \<and>
                 event_lost_num g' = int (length es - n) \<and> lost_event_number m2 = 0))"
proof -
  let ?m1 = "fold (add_event now) es m"
  define n where "n = nat (max_event_number m - event_number m)"
  have room: "sched_events.room m = n"
    using assms by (simp add: sched_events.room_def n_def events_ok_def)
  have 1: "event_list ?m1 = event_list m @ take n es" "lost_event_number ?m1 = int (length es - n)" "events_ok ?m1"
    using sched_events.add_all [OF assms(1), of now es] assms(2) room by auto
  define k where "k = max 1 (min (max_event_num g) (length (event_list ?m1) - 1))"
  have get: "case perf_event_get_event g ?m1 of
      (_, g', m2) \<Rightarrow> event_buffer g' = concat (take k (event_list ?m1)) \<and> event_filled_num g' = k \<and>
        event_list m2 = drop k (event_list ?m1) \<and> events_ok m2 \<and>
        event_lost_num g' = int (length es - n) \<and> lost_event_number m2 = 0"
    if more: "2 < event_number ?m1"
  proof -
    let ?l = "event_list ?m1"
    have num: "event_number ?m1 = int (length ?l)" "perf_started ?m1" using 1(3) by (auto simp: events_ok_def)
    have k: "copy_events (max_event_num g) (event_number ?m1 - 1) 0 ?l = (take k ?l, drop k ?l)"
      using copy_events_eq [of "max_event_num g" "event_number ?m1 - 1" 0 ?l] more num
      by (simp add: k_def Let_def nat_diff_distrib)
    have kl: "k \<le> length ?l" using more num by (auto simp: k_def)
    show ?thesis
      using more num k kl 1(2)
      by (auto simp: perf_event_get_event_def perf_event_get_isr_event_def Let_def events_ok_def)
  qed
  show ?thesis
    unfolding Let_def n_def [symmetric] k_def [symmetric] using 1(1,2) get by blast
qed

theorem perf_events_bounded_fifo_witness:
  "event_list (fold (add_event 9) [[1], [2], [3], [4], [5], [6]] sample_perf) = [[1], [2], [3], [4]] \<and>
   lost_event_number (fold (add_event 9) [[1], [2], [3], [4], [5], [6]] sample_perf) = 2"
  using perf_events_bounded_fifo [OF sample_perf_ok(3), of 9 "[[1], [2], [3], [4], [5], [6]]"]
  by (simp add: sample_perf_def zx_perf_event_init_def Let_def numeral_2_eq_2)

text \<open>
  Engine usage is a percentage: in any run of submissions, completions and display interrupts in
  time order, with a display interrupt at least every \<open>2 ^ 32\<close> nanoseconds, the usage of every engine
  stays between 0 and 100.
\<close>

theorem hwq_usage_percentage:
  assumes "do_div_ok do_div" "hwq_reach do_div now h" "p \<in> set (hwq_event h)"
  shows "engine_usage p \<le> 100"
  using hwq_reach_inv [OF assms(2,1)] assms(3) by (auto simp: hwq_inv_def engine_ok_def word_le_unat)

definition sample_do_div :: "u64 \<Rightarrow> u32 \<Rightarrow> u64" where
  "sample_do_div n b = n div ucast b"

lemma sample_do_div_ok: "do_div_ok sample_do_div"
  by (simp add: do_div_ok_def sample_do_div_def)

theorem hwq_usage_percentage_witness:
  "do_div_ok sample_do_div \<and>
   engine_usage (hd (hwq_event (hwq_process_submit_event 7 1 0 (hwq_get_hwq_info 5 (gfx_hwq_event_init 2))))) \<le> 100"
proof -
  let ?h = "hwq_process_submit_event 7 1 0 (hwq_get_hwq_info 5 (gfx_hwq_event_init 2))"
  have "hwq_reach sample_do_div 7 ?h"
    by (rule hwq_submit [OF hwq_start]) (simp add: word_le_unat)
  moreover have "hwq_event ?h \<noteq> []"
    by (simp add: hwq_process_submit_event_def upd_engine_def hwq_get_hwq_info_def gfx_hwq_event_init_def Let_def)
  then have "hd (hwq_event ?h) \<in> set (hwq_event ?h)" by (rule hd_in_set)
  ultimately show ?thesis using hwq_usage_percentage [OF sample_do_div_ok] sample_do_div_ok by blast
qed

text \<open>
  After a longer gap the usage is wrong: \<open>do_div\<close> divides by the low 32 bits of the elapsed time, so an
  engine idle for all of five seconds gets a usage far above 100.
\<close>

theorem hwq_usage_wrong_after_gap:
  "100 < engine_usage (vsync_info sample_do_div 0 5000000000
     \<lparr>submit_fence_id = 1, complete_fence_id = 1, last_busy2idletime = 0, engine_active = True,
      engine_state = ENGINE_IDLE, idle_time = 0, engine_usage = 0\<rparr>)"
  by (simp add: vsync_info_def add_idle_def zx_do_div_def sample_do_div_def)

text \<open>
  A session that starts while the interrupt ring is not empty keeps the old number of events but not
  their bytes, so its first fetch reports events that are not there.
\<close>

lemma perf_event_begin_keeps_isr_event_num:
  assumes "\<not> perf_started m" "0 < isr_event_num m"
  shows "\<exists>m'. perf_event_begin True max_num m = Done m' \<and>
    isr_filled_num (fst (snd (perf_event_get_isr_event g m'))) = isr_event_num m \<and>
    isr_filled_size (fst (snd (perf_event_get_isr_event g m'))) = 0"
  using assms by (auto simp: perf_event_begin_def perf_event_get_isr_event_def Let_def)

text \<open>
  With the chip table of \<^verbatim>\<open>perfevent_e3k.c\<close>, whose \<^verbatim>\<open>direct_get_miu_counter\<close> is null, adding a counter
  event calls a null pointer as soon as counters are enabled.
\<close>

lemma perf_event_add_miu_event_null_call:
  "miu_counter_enable m \<Longrightarrow> miu_lost_event_number m \<le> 0 \<Longrightarrow>
   perf_event_add_miu_event None fill bytes True now m = Panic"
  by (simp add: perf_event_add_miu_event_def)

end
