(* ===== verification/Edid.thy ===== *)
theory Edid
  imports Prelude
begin

text \<open>
  The EDID module of the display BIOS (\<^verbatim>\<open>cbios/Util/CBiosEDID.c\<close>) with the routines it calls
  in \<^verbatim>\<open>cbios/Device/CBiosDeviceShare.c\<close>, \<^verbatim>\<open>cbios/Device/CBiosShare.c\<close> and
  \<^verbatim>\<open>cbios/Util/CBiosUtil.c\<close>: the checks of a block's header and checksum and the repair of a
  bad checksum, the reading of an 18 byte detailed timing through the mask tables, the list of the
  timings of a device, and the EDID the driver makes up for a panel that has none.

  A byte buffer is a list of bytes. Reading outside of it is what the length hypotheses of the
  lemmas exclude. The sixteen bit timing fields keep their width, so sums wrap as in C.
\<close>

section \<open>Timings\<close>

text \<open>\<^verbatim>\<open>CBIOS_TIMING_ATTRIB\<close> and \<^verbatim>\<open>CBIOS_DEVICE_TIMING_INFO\<close>.\<close>

record timing_attrib =
  Size :: u16
  FormatVIC :: u16
  XRes :: u16
  YRes :: u16
  RefreshRate :: u16
  HVPolarity :: u16
  PixelClock :: u32
  HorTotal :: u16
  HorDisEnd :: u16
  HorBStart :: u16
  HorBEnd :: u16
  HorSyncStart :: u16
  HorSyncEnd :: u16
  VerTotal :: u16
  VerDisEnd :: u16
  VerBStart :: u16
  VerBEnd :: u16
  VerSyncStart :: u16
  VerSyncEnd :: u16

record device_timing =
  TimingType :: u32
  FullTiming :: timing_attrib
  AspectRatio :: u16
  IsSupportMono :: bool
  IsSupportStereo :: bool
  IsNativeMode :: bool
  IsPreferMode :: bool
  IsInterLaced :: bool
  IsSupportYCbCr420 :: bool
  IsSupportOtherFormats :: bool
  RsvdTimingFlags :: u8
  Merged :: bool

definition TIMING_ATTRIB_SIZE :: u16 where "TIMING_ATTRIB_SIZE = 40"
definition HorNEGATIVE :: u8 where "HorNEGATIVE = 0x40"
definition HorPOSITIVE :: u8 where "HorPOSITIVE = 0x00"
definition VerNEGATIVE :: u8 where "VerNEGATIVE = 0x80"
definition VerPOSITIVE :: u8 where "VerPOSITIVE = 0x00"

text \<open>What \<^verbatim>\<open>cb_memset\<close> leaves of the two structures.\<close>

definition zero_attrib :: timing_attrib where
  "zero_attrib = \<lparr>Size = 0, FormatVIC = 0, XRes = 0, YRes = 0, RefreshRate = 0, HVPolarity = 0,
     PixelClock = 0, HorTotal = 0, HorDisEnd = 0, HorBStart = 0, HorBEnd = 0, HorSyncStart = 0,
     HorSyncEnd = 0, VerTotal = 0, VerDisEnd = 0, VerBStart = 0, VerBEnd = 0, VerSyncStart = 0,
     VerSyncEnd = 0\<rparr>"

definition zero_timing :: device_timing where
  "zero_timing = \<lparr>TimingType = 0, FullTiming = zero_attrib, AspectRatio = 0, IsSupportMono = False,
     IsSupportStereo = False, IsNativeMode = False, IsPreferMode = False, IsInterLaced = False,
     IsSupportYCbCr420 = False, IsSupportOtherFormats = False, RsvdTimingFlags = 0,
     Merged = False\<rparr>"

section \<open>Rounding and the refresh rate\<close>

datatype round_method = ROUND_DOWN | ROUND_UP | ROUND_NEAREST

definition cbRound :: "u32 \<Rightarrow> u32 \<Rightarrow> round_method \<Rightarrow> u32" where
  "cbRound Dividend Divisor RoundMethod =
     (if Divisor = 0 then 0
      else let ulRemainder = Dividend mod Divisor; ulRet = Dividend div Divisor
           in case RoundMethod of
                ROUND_UP \<Rightarrow> if ulRemainder \<noteq> 0 then ulRet + 1 else ulRet
              | ROUND_NEAREST \<Rightarrow> if Divisor \<le> ulRemainder * 2 then ulRet + 1 else ulRet
              | ROUND_DOWN \<Rightarrow> ulRet)"

definition cbCalcRefreshRate :: "u32 \<Rightarrow> u16 \<Rightarrow> u16 \<Rightarrow> u16" where
  "cbCalcRefreshRate Clock HTotal VTotal =
     (if HTotal = 0 \<or> VTotal = 0 then 0
      else let Temp = (Clock * 100) div ucast HTotal;
               Temp = (Temp * 100) div ucast VTotal
           in ucast Temp)"

section \<open>The checks of a block\<close>

definition EDID_BLK_SIZE :: nat where "EDID_BLK_SIZE = 128"

fun cbIsEdidChecksumValid_loop :: "u8 list \<Rightarrow> nat \<Rightarrow> nat \<Rightarrow> u8 \<Rightarrow> bool" where
  "cbIsEdidChecksumValid_loop pEdid 0 i checksum = True"
| "cbIsEdidChecksumValid_loop pEdid (Suc n) i checksum =
     (let checksum = checksum + pEdid ! i
      in if (i + 1) mod EDID_BLK_SIZE = 0 \<and> checksum \<noteq> 0 then False
         else cbIsEdidChecksumValid_loop pEdid n (i + 1) checksum)"

definition cbIsEdidChecksumValid :: "u8 list \<Rightarrow> nat \<Rightarrow> bool" where
  "cbIsEdidChecksumValid pEdid ulLength =
     (if ulLength = 0 \<or> ulLength mod EDID_BLK_SIZE \<noteq> 0 then False
      else cbIsEdidChecksumValid_loop pEdid ulLength 0 0)"

function cbFixEdidChecksum_loop :: "nat \<Rightarrow> u8 list \<Rightarrow> nat \<Rightarrow> u8 \<Rightarrow> u8 list" where
  "cbFixEdidChecksum_loop ulLength pEdidData i checksum =
     (if i < ulLength then
        let checksum = checksum + pEdidData ! i
        in if (i + 2) mod 128 = 0
           then cbFixEdidChecksum_loop ulLength (pEdidData[i + 1 := NOT checksum + 1]) (i + 2) 0
           else cbFixEdidChecksum_loop ulLength pEdidData (i + 1) checksum
      else pEdidData)"
  by pat_completeness auto
termination
  by (relation "measure (\<lambda>(n, d, i, c). n - i)") auto

declare cbFixEdidChecksum_loop.simps [simp del]

definition cbFixEdidChecksum :: "u8 list \<Rightarrow> nat \<Rightarrow> u8 list" where
  "cbFixEdidChecksum pEdidData ulLength =
     (if ulLength = 0 \<or> ulLength mod 128 \<noteq> 0 then pEdidData
      else cbFixEdidChecksum_loop ulLength pEdidData 0 0)"

definition EDID1header :: "u8 list" where
  "EDID1header = [0x00, 0xff, 0xff, 0xff, 0xff, 0xff, 0xff, 0x00]"

definition cbEDIDModule_IsEDIDHeaderValid :: "u8 list \<Rightarrow> nat \<Rightarrow> bool" where
  "cbEDIDModule_IsEDIDHeaderValid pEDIDBuffer ulBufferSize =
     (if ulBufferSize < length EDID1header then False
      else take (length EDID1header) pEDIDBuffer = EDID1header)"

text \<open>\<^verbatim>\<open>CBIOS_EDID_DATA\<close> is a buffer, or \<^verbatim>\<open>NULL\<close>, with its size.\<close>

definition cbEDIDModule_IsEDIDValid :: "u8 list option \<Rightarrow> nat \<Rightarrow> bool" where
  "cbEDIDModule_IsEDIDValid Buffer BufferSize =
     (case Buffer of
        None \<Rightarrow> False
      | Some buf \<Rightarrow> cbEDIDModule_IsEDIDHeaderValid buf BufferSize \<and>
                   cbIsEdidChecksumValid buf BufferSize)"

definition cbEDIDModule_GetTotalBlockNum :: "u8 list option \<Rightarrow> nat \<Rightarrow> nat" where
  "cbEDIDModule_GetTotalBlockNum Buffer BufferSize =
     (case Buffer of None \<Rightarrow> 0 | Some buf \<Rightarrow> BufferSize div EDID_BLK_SIZE)"

definition CEA_EXTENDED_BLOCK_TAG :: u8 where "CEA_EXTENDED_BLOCK_TAG = 7"
definition HF_EDID_EXTENSION_OVERRIDE_DATA_BLOCK :: u8 where
  "HF_EDID_EXTENSION_OVERRIDE_DATA_BLOCK = 0x78"

definition cbEDIDModule_GetExtBlockNum :: "u8 list \<Rightarrow> u8" where
  "cbEDIDModule_GetExtBlockNum pEDID =
     (if pEDID ! 0x7E = 0 then 0
      else if drop_bit 5 (pEDID ! 0x84) = CEA_EXTENDED_BLOCK_TAG \<and>
              pEDID ! 0x85 = HF_EDID_EXTENSION_OVERRIDE_DATA_BLOCK
      then pEDID ! 0x86
      else pEDID ! 0x7E)"

subsection \<open>Sums over blocks\<close>

definition block_sum :: "u8 list \<Rightarrow> nat \<Rightarrow> u8" where
  "block_sum d k = sum_list (map (\<lambda>j. d ! j) [128 * k..<128 * (k + 1)])"

definition range_sum :: "u8 list \<Rightarrow> nat \<Rightarrow> nat \<Rightarrow> u8" where
  "range_sum d i j = sum_list (map (\<lambda>m. d ! m) [i..<j])"

lemma range_sum_empty [simp]: "j \<le> i \<Longrightarrow> range_sum d i j = 0"
  by (simp add: range_sum_def)

lemma range_sum_first: "i < j \<Longrightarrow> range_sum d i j = d ! i + range_sum d (Suc i) j"
  by (simp add: range_sum_def upt_conv_Cons del: upt_Suc)

lemma range_sum_split: "i \<le> j \<Longrightarrow> j \<le> k \<Longrightarrow> range_sum d i k = range_sum d i j + range_sum d j k"
proof -
  assume "i \<le> j" "j \<le> k"
  then have "[i..<k] = [i..<j] @ [j..<k]" by (metis le_Suc_ex upt_add_eq_append)
  then show ?thesis by (simp add: range_sum_def)
qed

lemma block_sum_range: "block_sum d k = range_sum d (128 * k) (128 * (k + 1))"
  by (simp add: block_sum_def range_sum_def)

lemma range_sum_cong:
  "(\<And>m. i \<le> m \<Longrightarrow> m < j \<Longrightarrow> d ! m = e ! m) \<Longrightarrow> range_sum d i j = range_sum e i j"
  unfolding range_sum_def by (rule arg_cong [where f = sum_list]) (auto intro!: map_cong)

lemma checksum_loop_prefix:
  "cbIsEdidChecksumValid_loop d n i c \<longleftrightarrow>
     (\<forall>m<n. (i + m + 1) mod 128 = 0 \<longrightarrow> c + range_sum d i (i + m + 1) = 0)"
proof (induction n arbitrary: i c)
  case 0
  then show ?case by simp
next
  case (Suc n)
  have "(\<forall>m<Suc n. (i + m + 1) mod 128 = 0 \<longrightarrow> c + range_sum d i (i + m + 1) = 0) \<longleftrightarrow>
     ((i + 1) mod 128 = 0 \<longrightarrow> c + d ! i = 0) \<and>
     (\<forall>m<n. (Suc i + m + 1) mod 128 = 0 \<longrightarrow> c + d ! i + range_sum d (Suc i) (Suc i + m + 1) = 0)"
    by (simp add: All_less_Suc2 range_sum_first [of i] add.assoc)
  then show ?case by (auto simp: Suc.IH EDID_BLK_SIZE_def Let_def)
qed

lemma prefix_sums_blocks:
  "(\<forall>k\<le>K. range_sum d 0 (128 * k) = 0) \<longleftrightarrow> (\<forall>k<K. block_sum d k = 0)"
proof (induction K)
  case (Suc K)
  have "range_sum d 0 (128 * Suc K) = range_sum d 0 (128 * K) + block_sum d K"
    by (simp add: block_sum_range) (rule range_sum_split; simp)
  then show ?case using Suc.IH by (auto simp: le_Suc_eq less_Suc_eq)
qed simp

lemma cbIsEdidChecksumValid_iff:
  "cbIsEdidChecksumValid d n \<longleftrightarrow> 0 < n \<and> 128 dvd n \<and> (\<forall>k<n div 128. block_sum d k = 0)"
proof (cases "0 < n \<and> 128 dvd n")
  case True
  then obtain K where n: "n = 128 * K" by auto
  have "cbIsEdidChecksumValid d n \<longleftrightarrow> (\<forall>m<n. (m + 1) mod 128 = 0 \<longrightarrow> range_sum d 0 (m + 1) = 0)"
    using True by (simp add: cbIsEdidChecksumValid_def checksum_loop_prefix EDID_BLK_SIZE_def)
  also have "\<dots> \<longleftrightarrow> (\<forall>k\<le>K. range_sum d 0 (128 * k) = 0)"
  proof (intro iffI allI impI)
    fix k
    assume A: "\<forall>m<n. (m + 1) mod 128 = 0 \<longrightarrow> range_sum d 0 (m + 1) = 0" and k: "k \<le> K"
    show "range_sum d 0 (128 * k) = 0"
    proof (cases k)
      case (Suc k')
      then show ?thesis using A [rule_format, of "128 * k - 1"] k n by simp
    qed simp
  next
    fix m
    assume A: "\<forall>k\<le>K. range_sum d 0 (128 * k) = 0" and m: "m < n" "(m + 1) mod 128 = 0"
    then obtain k where "m + 1 = 128 * k" by (metis mod_0_imp_dvd dvdE)
    then show "range_sum d 0 (m + 1) = 0" using A m n by (metis Suc_eq_plus1 Suc_leI mult_le_cancel1 zero_less_numeral)
  qed
  also have "\<dots> \<longleftrightarrow> (\<forall>k<K. block_sum d k = 0)" by (rule prefix_sums_blocks)
  finally show ?thesis using True n by simp
qed (auto simp: cbIsEdidChecksumValid_def EDID_BLK_SIZE_def)

text \<open>
  The repair loop, from index \<open>i\<close> with the running sum \<open>c\<close> of the block: it completes the block
  it is in so that the sum comes out zero, does the same with every later block, and writes the last
  byte of each block only.
\<close>

definition fix_result :: "nat \<Rightarrow> u8 list \<Rightarrow> nat \<Rightarrow> u8 \<Rightarrow> u8 list \<Rightarrow> bool" where
  "fix_result n d i c r \<longleftrightarrow>
     length r = length d \<and>
     (\<forall>j. j < i \<or> n \<le> j \<or> j mod 128 \<noteq> 127 \<longrightarrow> r ! j = d ! j) \<and>
     (i < n \<longrightarrow> c + range_sum r i (128 * (i div 128 + 1)) = 0) \<and>
     (\<forall>k. i div 128 < k \<and> k < n div 128 \<longrightarrow> block_sum r k = 0)"

lemma fix_result_closes:
  assumes n: "128 dvd n" "n \<le> length d" and i: "i < n" "(i + 2) mod 128 = 0"
    and r: "fix_result n (d[i + 1 := NOT (c + d ! i) + 1]) (i + 2) 0 r"
  shows "fix_result n d i c r"
proof -
  let ?d = "d[i + 1 := NOT (c + d ! i) + 1]"
  obtain q where q: "i + 2 = 128 * q" using i(2) by (metis mod_0_imp_dvd dvdE)
  then obtain b where "q = Suc b" by (cases q) auto
  with q have b: "i = 128 * b + 126" by simp
  obtain K where K: "n = 128 * K" using n(1) by auto
  have "b < K" using i(1) b K by linarith
  then have "128 * Suc b \<le> 128 * K" by (intro mult_le_mono) auto
  then have lt: "i + 1 < n" using b K by simp
  have div: "i div 128 = b" "(i + 2) div 128 = b + 1" using b by simp_all
  have rd: "r ! j = ?d ! j" if "j < i + 2 \<or> n \<le> j \<or> j mod 128 \<noteq> 127" for j
    using r that unfolding fix_result_def by blast
  have keep: "r ! j = d ! j" if j: "j < i \<or> n \<le> j \<or> j mod 128 \<noteq> 127" for j
  proof -
    have "(i + 1) mod 128 = 127" using b by simp
    then have "j \<noteq> i + 1" using j lt by auto
    moreover have "j < i + 2 \<or> n \<le> j \<or> j mod 128 \<noteq> 127" using j by auto
    ultimately show ?thesis using rd [of j] by simp
  qed
  have at: "r ! i = d ! i" "r ! (i + 1) = NOT (c + d ! i) + 1"
    using rd [of i] rd [of "i + 1"] lt n(2) by simp_all
  have "range_sum r i (128 * (b + 1)) = r ! i + r ! (i + 1)"
    using b by (simp add: range_sum_first)
  then have sum: "c + range_sum r i (128 * (b + 1)) = 0"
    using at by (simp add: not_eq_complement)
  have later: "block_sum r k = 0" if k: "b < k" "k < n div 128" for k
  proof (cases "k = b + 1")
    case True
    then have "i + 2 < n" using k(2) K b by simp
    then have "range_sum r (i + 2) (128 * (b + 2)) = 0"
      using r div by (simp add: fix_result_def)
    then show ?thesis using True b by (simp add: block_sum_range)
  next
    case False
    then show ?thesis using r k div by (simp add: fix_result_def)
  qed
  show ?thesis
    unfolding fix_result_def div
    using r keep sum later by (simp add: fix_result_def)
qed

lemma fix_result_steps:
  assumes i: "i < n" "(i + 2) mod 128 \<noteq> 0" "i mod 128 \<noteq> 127" and n: "128 dvd n"
    and r: "fix_result n d (i + 1) (c + d ! i) r"
  shows "fix_result n d i c r"
proof -
  obtain K where K: "n = 128 * K" using n by auto
  have m: "Suc i mod 128 \<noteq> 0" using i(3) by (simp add: mod_Suc)
  then have div: "(i + 1) div 128 = i div 128" by (simp add: div_Suc)
  have less: "i < 128 * (i div 128 + 1)"
    using mult_div_mod_eq [of 128 i] mod_less_divisor [of 128 i] by simp
  have "i + 1 \<noteq> n" using m K by auto
  then have "i + 1 < n" using i(1) by simp
  then have "c + d ! i + range_sum r (i + 1) (128 * (i div 128 + 1)) = 0"
    using r div by (simp add: fix_result_def)
  moreover have "r ! i = d ! i" using r by (simp add: fix_result_def)
  ultimately have "c + range_sum r i (128 * (i div 128 + 1)) = 0"
    using less by (simp add: range_sum_first [of i] add.assoc)
  then show ?thesis using r div unfolding fix_result_def by simp
qed

lemma cbFixEdidChecksum_loop_result:
  "128 dvd n \<Longrightarrow> n \<le> length d \<Longrightarrow> i mod 128 \<noteq> 127 \<Longrightarrow> i \<le> n \<Longrightarrow>
   fix_result n d i c (cbFixEdidChecksum_loop n d i c)"
proof (induction n d i c rule: cbFixEdidChecksum_loop.induct)
  case (1 n d i c)
  show ?case
  proof (cases "i < n")
    case False
    then have "i = n" using 1 by simp
    then show ?thesis by (subst cbFixEdidChecksum_loop.simps) (auto simp: fix_result_def)
  next
    case lt: True
    show ?thesis
    proof (cases "(i + 2) mod 128 = 0")
      case True
      obtain K where K: "n = 128 * K" using 1(3) by auto
      obtain q where q: "i + 2 = 128 * q" using True by (metis mod_0_imp_dvd dvdE)
      have "q \<le> K" using q lt K by linarith
      then have "i + 2 \<le> n" "(i + 2) mod 128 \<noteq> 127" using q K True by simp_all
      then have "fix_result n (d[i + 1 := NOT (c + d ! i) + 1]) (i + 2) 0
          (cbFixEdidChecksum_loop n (d[i + 1 := NOT (c + d ! i) + 1]) (i + 2) 0)"
        using 1(1) [OF lt refl True] 1(3,4) by simp
      then have "fix_result n d i c
          (cbFixEdidChecksum_loop n (d[i + 1 := NOT (c + d ! i) + 1]) (i + 2) 0)"
        by (rule fix_result_closes [OF 1(3,4) lt True])
      then show ?thesis using lt True by (subst cbFixEdidChecksum_loop.simps) (simp add: Let_def)
    next
      case False
      have "(i + 1) mod 128 \<noteq> 127" using False by (auto simp: mod_Suc)
      then have "fix_result n d (i + 1) (c + d ! i) (cbFixEdidChecksum_loop n d (i + 1) (c + d ! i))"
        using 1(2) [OF lt refl False] 1(3,4) lt by simp
      then have "fix_result n d i c (cbFixEdidChecksum_loop n d (i + 1) (c + d ! i))"
        by (rule fix_result_steps [OF lt False 1(5,3)])
      then show ?thesis using lt False by (subst cbFixEdidChecksum_loop.simps) (simp add: Let_def)
    qed
  qed
qed

lemma block_zero_last:
  assumes "block_sum d k = 0" "block_sum e k = 0"
    and "\<And>j. 128 * k \<le> j \<Longrightarrow> j < 128 * k + 127 \<Longrightarrow> d ! j = e ! j"
  shows "d ! (128 * k + 127) = e ! (128 * k + 127)"
proof -
  have S: "block_sum x k = range_sum x (128 * k) (128 * k + 127) + x ! (128 * k + 127)" for x
    using range_sum_split [of "128 * k" "128 * k + 127" "128 * k + 128" x]
    by (simp add: block_sum_range range_sum_first)
  have "range_sum d (128 * k) (128 * k + 127) = range_sum e (128 * k) (128 * k + 127)"
    by (rule range_sum_cong) (use assms(3) in auto)
  then show ?thesis using S [of d] S [of e] assms(1,2) by (metis add_left_cancel)
qed

text \<open>
  C15. Repairing the checksum: for a buffer of whole blocks the result passes the check that every
  block sums to zero, only the last byte of a block may differ from what was read, and a buffer that
  already passes is returned as it is.
\<close>

theorem cbFixEdidChecksum_correct:
  assumes "0 < n" "128 dvd n" "n \<le> length d"
  shows "cbIsEdidChecksumValid (cbFixEdidChecksum d n) n \<and>
    length (cbFixEdidChecksum d n) = length d \<and>
    (\<forall>j<length d. n \<le> j \<or> j mod 128 \<noteq> 127 \<longrightarrow> cbFixEdidChecksum d n ! j = d ! j) \<and>
    (cbIsEdidChecksumValid d n \<longrightarrow> cbFixEdidChecksum d n = d)"
proof -
  let ?r = "cbFixEdidChecksum d n"
  have r: "fix_result n d 0 0 ?r"
    using assms cbFixEdidChecksum_loop_result [of n d 0 0] by (simp add: cbFixEdidChecksum_def)
  have blocks: "block_sum ?r k = 0" if "k < n div 128" for k
  proof (cases "k = 0")
    case True
    then show ?thesis using r assms(1) by (simp add: fix_result_def block_sum_range)
  next
    case False
    then show ?thesis using r that by (simp add: fix_result_def)
  qed
  have len: "length ?r = length d" using r by (simp add: fix_result_def)
  have keep: "?r ! j = d ! j" if "n \<le> j \<or> j mod 128 \<noteq> 127" for j
    using r that unfolding fix_result_def by blast
  have same: "?r = d" if "cbIsEdidChecksumValid d n"
  proof (rule nth_equalityI [OF len])
    fix j
    assume "j < length ?r"
    show "?r ! j = d ! j"
    proof (cases "n \<le> j \<or> j mod 128 \<noteq> 127")
      case False
      define k where "k = j div 128"
      have j: "j = 128 * k + 127" using False mult_div_mod_eq [of 128 j] by (simp add: k_def)
      have k: "k < n div 128" using False assms(2) j by (auto elim!: dvdE)
      show ?thesis unfolding j
      proof (rule block_zero_last [OF blocks [OF k]])
        show "block_sum d k = 0" using that k by (simp add: cbIsEdidChecksumValid_iff)
      next
        fix m
        assume "128 * k \<le> m" "m < 128 * k + 127"
        then obtain t where "m = 128 * k + t" "t < 127" by (auto simp: le_iff_add)
        then have "m mod 128 \<noteq> 127" by simp
        then show "?r ! m = d ! m" using keep by simp
      qed
    qed (simp add: keep)
  qed
  show ?thesis
    using assms blocks len keep same by (simp add: cbIsEdidChecksumValid_iff)
qed

definition sample_block :: "u8 list" where "sample_block = replicate 100 7 @ replicate 156 1"

lemma cbFixEdidChecksum_correct_witness:
  "cbIsEdidChecksumValid (cbFixEdidChecksum sample_block 256) 256 \<and>
   \<not> cbIsEdidChecksumValid sample_block 256"
proof
  show "cbIsEdidChecksumValid (cbFixEdidChecksum sample_block 256) 256"
    using cbFixEdidChecksum_correct [of 256 sample_block] by (simp add: sample_block_def)
  show "\<not> cbIsEdidChecksumValid sample_block 256"
    by code_simp
qed

section \<open>Reading a detailed timing\<close>

text \<open>
  A field of the eighteen bytes is scattered over several of them. Each entry of a field's table
  names a byte and the bits of it that belong to the field, least significant part first; a table
  ends with an \<^verbatim>\<open>EDIDTIMINGEXIT\<close> entry.
\<close>

definition EDIDTIMING :: u8 where "EDIDTIMING = 0x00"
definition EDIDTIMINGEXIT :: u8 where "EDIDTIMINGEXIT = 0xFF"

type_synonym timing_table = "(u8 \<times> u8 \<times> u8) list"

definition EDIDPixelClock :: timing_table where
  "EDIDPixelClock = [(EDIDTIMING, 0x00, 0xFF), (EDIDTIMING, 0x01, 0xFF), (EDIDTIMINGEXIT, 0, 0)]"
definition EDIDHorizontalActive :: timing_table where
  "EDIDHorizontalActive =
     [(EDIDTIMING, 0x02, 0xFF), (EDIDTIMING, 0x04, 0xF0), (EDIDTIMINGEXIT, 0, 0)]"
definition EDIDHorizontalBlanking :: timing_table where
  "EDIDHorizontalBlanking =
     [(EDIDTIMING, 0x03, 0xFF), (EDIDTIMING, 0x04, 0x0F), (EDIDTIMINGEXIT, 0, 0)]"
definition EDIDVerticalActive :: timing_table where
  "EDIDVerticalActive =
     [(EDIDTIMING, 0x05, 0xFF), (EDIDTIMING, 0x07, 0xF0), (EDIDTIMINGEXIT, 0, 0)]"
definition EDIDVerticalBlanking :: timing_table where
  "EDIDVerticalBlanking =
     [(EDIDTIMING, 0x06, 0xFF), (EDIDTIMING, 0x07, 0x0F), (EDIDTIMINGEXIT, 0, 0)]"
definition EDIDHorizontalSyncOffset :: timing_table where
  "EDIDHorizontalSyncOffset =
     [(EDIDTIMING, 0x08, 0xFF), (EDIDTIMING, 0x0B, 0xC0), (EDIDTIMINGEXIT, 0, 0)]"
definition EDIDHorizontalSyncPulseWidth :: timing_table where
  "EDIDHorizontalSyncPulseWidth =
     [(EDIDTIMING, 0x09, 0xFF), (EDIDTIMING, 0x0B, 0x30), (EDIDTIMINGEXIT, 0, 0)]"
definition EDIDVerticalSyncOffset :: timing_table where
  "EDIDVerticalSyncOffset =
     [(EDIDTIMING, 0x0A, 0xF0), (EDIDTIMING, 0x0B, 0x0C), (EDIDTIMINGEXIT, 0, 0)]"
definition EDIDVerticalSyncPulseWidth :: timing_table where
  "EDIDVerticalSyncPulseWidth =
     [(EDIDTIMING, 0x0A, 0x0F), (EDIDTIMING, 0x0B, 0x03), (EDIDTIMINGEXIT, 0, 0)]"
definition EDIDHorizontalImageSize :: timing_table where
  "EDIDHorizontalImageSize =
     [(EDIDTIMING, 0x0C, 0xFF), (EDIDTIMING, 0x0E, 0xF0), (EDIDTIMINGEXIT, 0, 0)]"
definition EDIDVerticalImageSize :: timing_table where
  "EDIDVerticalImageSize =
     [(EDIDTIMING, 0x0D, 0xFF), (EDIDTIMING, 0x0E, 0x0F), (EDIDTIMINGEXIT, 0, 0)]"

lemmas timing_tables = EDIDPixelClock_def EDIDHorizontalActive_def EDIDHorizontalBlanking_def
  EDIDVerticalActive_def EDIDVerticalBlanking_def EDIDHorizontalSyncOffset_def
  EDIDHorizontalSyncPulseWidth_def EDIDVerticalSyncOffset_def EDIDVerticalSyncPulseWidth_def
  EDIDHorizontalImageSize_def EDIDVerticalImageSize_def

fun gather_bits :: "u8 \<Rightarrow> u8 \<Rightarrow> nat list \<Rightarrow> u32 \<times> nat \<Rightarrow> u32 \<times> nat" where
  "gather_bits msk byRegValue [] (uRet, j) = (uRet, j)"
| "gather_bits msk byRegValue (i # is) (uRet, j) =
     gather_bits msk byRegValue is
       (if bit msk i then (uRet + (if bit byRegValue i then push_bit j 1 else 0), j + 1)
        else (uRet, j))"

fun mapmask_loop :: "u8 list \<Rightarrow> nat \<Rightarrow> timing_table \<Rightarrow> u32 \<times> nat \<Rightarrow> u32" where
  "mapmask_loop DetailedTimings Base [] (uRet, j) = uRet"
| "mapmask_loop DetailedTimings Base ((kind, index, msk) # reg) (uRet, j) =
     (if kind = EDIDTIMINGEXIT then uRet
      else mapmask_loop DetailedTimings Base reg
             (gather_bits msk (DetailedTimings ! (18 * Base + unat index)) [0..<8] (uRet, j)))"

definition cbEDIDModule_MapMaskGetEdidInfo :: "u8 list \<Rightarrow> nat \<Rightarrow> timing_table \<Rightarrow> u32" where
  "cbEDIDModule_MapMaskGetEdidInfo DetailedTimings Base TimingTable =
     mapmask_loop DetailedTimings Base TimingTable (0, 0)"

abbreviation field16 :: "u8 list \<Rightarrow> timing_table \<Rightarrow> u16" where
  "field16 d T \<equiv> ucast (cbEDIDModule_MapMaskGetEdidInfo d 0 T)"

text \<open>
  The parser returns \<open>None\<close> where the code returns \<^verbatim>\<open>CBIOS_FALSE\<close>; every caller then
  drops what it has written so far.
\<close>

definition cbEDIDModule_ParseDtlTiming :: "u8 list \<Rightarrow> device_timing \<Rightarrow> device_timing option" where
  "cbEDIDModule_ParseDtlTiming pEdidDtlData pTiming =
     (let Clock = cbEDIDModule_MapMaskGetEdidInfo pEdidDtlData 0 EDIDPixelClock * 100
      in if Clock = 0 then None
      else
        let X = field16 pEdidDtlData EDIDHorizontalActive;
            HOffset = field16 pEdidDtlData EDIDHorizontalSyncOffset;
            HWidth = field16 pEdidDtlData EDIDHorizontalSyncPulseWidth;
            HBlank = field16 pEdidDtlData EDIDHorizontalBlanking;
            HTotal = X + HBlank;
            inter = bit (pEdidDtlData ! 0x11) 7;
            Y = field16 pEdidDtlData EDIDVerticalActive;
            VOffset = field16 pEdidDtlData EDIDVerticalSyncOffset;
            VWidth = field16 pEdidDtlData EDIDVerticalSyncPulseWidth;
            VBlank = field16 pEdidDtlData EDIDVerticalBlanking;
            Y = (if inter then Y * 2 else Y);
            VBlank = (if inter then VBlank * 2 + 1 else VBlank);
            VOffset = (if inter then VOffset * 2 else VOffset);
            VWidth = (if inter then VWidth * 2 else VWidth);
            VTotal = Y + VBlank;
            HImageSize = ucast (field16 pEdidDtlData EDIDHorizontalImageSize) :: u32;
            VImageSize = ucast (field16 pEdidDtlData EDIDVerticalImageSize) :: u32
        in if X = 0 \<or> Y = 0 \<or> HTotal = 0 \<or> VTotal = 0 then None
        else
          let Aspect = (if VImageSize \<noteq> 0
                        then let Ratio = ucast (HImageSize * 10000 div VImageSize) :: u16
                             in if 13000 < Ratio \<and> Ratio < 14000 then 1 else 2
                        else 2);
              flags = pEdidDtlData ! 0x11;
              VSync = (if flags AND 0x18 = 0x18
                       then if bit flags 2 then VerPOSITIVE else VerNEGATIVE
                       else VerNEGATIVE);
              HSync = (if flags AND 0x18 = 0x18
                       then if bit flags 1 then HorPOSITIVE else HorNEGATIVE
                       else HorNEGATIVE);
              Rate = cbCalcRefreshRate Clock HTotal VTotal
          in Some (pTiming\<lparr>
               IsInterLaced := inter, AspectRatio := Aspect, IsSupportMono := True,
               FullTiming := (FullTiming pTiming)\<lparr>
                 FormatVIC := 0, Size := TIMING_ATTRIB_SIZE, PixelClock := Clock,
                 XRes := X, HorTotal := HTotal, HorDisEnd := X, HorBStart := X, HorBEnd := X + HBlank,
                 HorSyncStart := X + HOffset, HorSyncEnd := X + HOffset + HWidth,
                 YRes := Y, VerTotal := VTotal, VerDisEnd := Y, VerBStart := Y,
                 VerBEnd := Y + VBlank, VerSyncStart := Y + VOffset,
                 VerSyncEnd := Y + VOffset + VWidth,
                 HVPolarity := ucast HSync + ucast VSync,
                 RefreshRate := ucast (100 * cbRound (ucast Rate) 100 ROUND_NEAREST)\<rparr>\<rparr>))"

subsection \<open>What the tables select\<close>

lemma upt_8: "[0..<8] = [0, Suc 0, 2, 3, 4, 5, 6, 7]"
  by code_simp

lemma unat_byte:
  "unat (b :: u8) = of_bool (bit b 0) + 2 * of_bool (bit b 1) + 4 * of_bool (bit b 2)
     + 8 * of_bool (bit b 3) + 16 * of_bool (bit b 4) + 32 * of_bool (bit b 5)
     + 64 * of_bool (bit b 6) + 128 * of_bool (bit b 7)"
proof -
  have "unat b < 2 ^ LENGTH(8)" by (rule unsigned_less)
  then have "unat b = take_bit 8 (unat b)" by (simp add: take_bit_nat_eq_self)
  also have "\<dots> = horner_sum of_bool 2 (map (bit (unat b)) [0..<8])"
    by (simp add: horner_sum_bit_eq_take_bit)
  finally show ?thesis
    by (simp add: bit_unsigned_iff upt_8 distrib_left del: bit_0 of_bool_odd_eq_mod_2
      split del: split_of_bool)
qed

definition crumb :: "u8 \<Rightarrow> nat \<Rightarrow> nat" where
  "crumb b i = of_bool (bit b i) + 2 * of_bool (bit b (i + 1))"

lemma crumb_bits:
  "crumb b 0 = of_bool (bit b 0) + 2 * of_bool (bit b (Suc 0))"
  "crumb b 2 = of_bool (bit b 2) + 2 * of_bool (bit b 3)"
  "crumb b 4 = of_bool (bit b 4) + 2 * of_bool (bit b 5)"
  "crumb b 6 = of_bool (bit b 6) + 2 * of_bool (bit b 7)"
  by (simp_all add: crumb_def del: bit_0)

lemma crumb_less: "crumb b i < 4"
  by (simp add: crumb_def of_bool_def)

lemma unat_crumbs: "unat b = crumb b 0 + 4 * (crumb b 2 + 4 * (crumb b 4 + 4 * crumb b 6))"
  by (simp add: unat_byte crumb_def)

lemma byte_crumbs:
  "unat b div 4 = crumb b 2 + 4 * (crumb b 4 + 4 * crumb b 6)" (is ?A)
  "unat b div 16 = crumb b 4 + 4 * crumb b 6" (is ?B)
  "unat b div 64 = crumb b 6" (is ?C)
  "unat b mod 4 = crumb b 0" (is ?D)
  "unat b mod 16 = crumb b 0 + 4 * crumb b 2" (is ?E)
  "unat b div 4 mod 4 = crumb b 2" (is ?F)
  "unat b div 16 mod 4 = crumb b 4" (is ?G)
proof -
  note less = crumb_less [of b 0] crumb_less [of b 2] crumb_less [of b 4]
  show A: ?A using less by (simp add: unat_crumbs)
  have "unat b div 16 = unat b div 4 div 4" by (simp add: div_mult2_eq)
  then show B: ?B using less by (simp add: A)
  have "unat b div 64 = unat b div 16 div 4" by (simp add: div_mult2_eq)
  then show ?C using less by (simp add: B)
  show ?D using less by (simp add: unat_crumbs del: distrib_left_numeral)
  show ?F using less by (simp add: A del: distrib_left_numeral)
  have "unat b mod 16 = unat b mod 4 + 4 * (unat b div 4 mod 4)"
    using mod_mult2_eq [of "unat b" 4 4] by simp
  then show ?E using \<open>?D\<close> \<open>?F\<close> by simp
  show ?G using less by (simp add: B del: distrib_left_numeral)
qed

lemma gather_step:
  "gather_bits m b (i # is) (r, j) =
     (if bit m i then gather_bits m b is (r + of_bool (bit b i) * 2 ^ j, j + 1)
      else gather_bits m b is (r, j))"
  by (simp add: push_bit_eq_mult)

lemma gather_masks:
  "gather_bits 0xFF b [0..<8] (r, j) = (r + of_nat (unat b) * 2 ^ j, j + 8)"
  "gather_bits 0xF0 b [0..<8] (r, j) = (r + of_nat (unat b div 16) * 2 ^ j, j + 4)"
  "gather_bits 0x0F b [0..<8] (r, j) = (r + of_nat (unat b mod 16) * 2 ^ j, j + 4)"
  "gather_bits 0xC0 b [0..<8] (r, j) = (r + of_nat (unat b div 64) * 2 ^ j, j + 2)"
  "gather_bits 0x30 b [0..<8] (r, j) = (r + of_nat (unat b div 16 mod 4) * 2 ^ j, j + 2)"
  "gather_bits 0x0C b [0..<8] (r, j) = (r + of_nat (unat b div 4 mod 4) * 2 ^ j, j + 2)"
  "gather_bits 0x03 b [0..<8] (r, j) = (r + of_nat (unat b mod 4) * 2 ^ j, j + 2)"
  unfolding byte_crumbs(6,7)
  unfolding byte_crumbs(1-5) upt_8 gather_step
  unfolding unat_crumbs crumb_bits
  by (simp_all add: algebra_simps power_add
    del: bit_0 of_bool_odd_eq_mod_2 gather_bits.simps(2) split del: split_of_bool)

lemma timing_fields:
  "cbEDIDModule_MapMaskGetEdidInfo d 0 EDIDPixelClock =
     of_nat (unat (d ! 0) + 256 * unat (d ! 1))"
  "cbEDIDModule_MapMaskGetEdidInfo d 0 EDIDHorizontalActive =
     of_nat (unat (d ! 2) + 256 * (unat (d ! 4) div 16))"
  "cbEDIDModule_MapMaskGetEdidInfo d 0 EDIDHorizontalBlanking =
     of_nat (unat (d ! 3) + 256 * (unat (d ! 4) mod 16))"
  "cbEDIDModule_MapMaskGetEdidInfo d 0 EDIDVerticalActive =
     of_nat (unat (d ! 5) + 256 * (unat (d ! 7) div 16))"
  "cbEDIDModule_MapMaskGetEdidInfo d 0 EDIDVerticalBlanking =
     of_nat (unat (d ! 6) + 256 * (unat (d ! 7) mod 16))"
  "cbEDIDModule_MapMaskGetEdidInfo d 0 EDIDHorizontalSyncOffset =
     of_nat (unat (d ! 8) + 256 * (unat (d ! 11) div 64))"
  "cbEDIDModule_MapMaskGetEdidInfo d 0 EDIDHorizontalSyncPulseWidth =
     of_nat (unat (d ! 9) + 256 * (unat (d ! 11) div 16 mod 4))"
  "cbEDIDModule_MapMaskGetEdidInfo d 0 EDIDVerticalSyncOffset =
     of_nat (unat (d ! 10) div 16 + 16 * (unat (d ! 11) div 4 mod 4))"
  "cbEDIDModule_MapMaskGetEdidInfo d 0 EDIDVerticalSyncPulseWidth =
     of_nat (unat (d ! 10) mod 16 + 16 * (unat (d ! 11) mod 4))"
  "cbEDIDModule_MapMaskGetEdidInfo d 0 EDIDHorizontalImageSize =
     of_nat (unat (d ! 12) + 256 * (unat (d ! 14) div 16))"
  "cbEDIDModule_MapMaskGetEdidInfo d 0 EDIDVerticalImageSize =
     of_nat (unat (d ! 13) + 256 * (unat (d ! 14) mod 16))"
  unfolding cbEDIDModule_MapMaskGetEdidInfo_def timing_tables
  by (simp_all add: gather_masks EDIDTIMING_def EDIDTIMINGEXIT_def
      del: word_of_nat_eq_0_iff flip: numeral_2_eq_2)

section \<open>The EDID made up for a panel\<close>

text \<open>\<^verbatim>\<open>CBIOS_FAKE_EDID_PARAMS\<close>.\<close>

record fake_edid_params =
  DtlTiming :: timing_attrib
  bProvideDtlTimingEDID :: bool
  DtlTimingEDID :: "u8 list"

text \<open>A run of assignments \<^verbatim>\<open>pEdid[i] = v\<close>, and \<^verbatim>\<open>cb_memcpy\<close> into a buffer.\<close>

definition poke_all :: "u8 list \<Rightarrow> (nat \<times> u8) list \<Rightarrow> u8 list" where
  "poke_all pEdid ws = foldl (\<lambda>b (i, v). b[i := v]) pEdid ws"

definition copy_at :: "u8 list \<Rightarrow> nat \<Rightarrow> u8 list \<Rightarrow> u8 list" where
  "copy_at pEdid off src = take off pEdid @ src @ drop (off + length src) pEdid"

definition cbEDIDModule_FakeDetailedTiming :: "u8 list \<Rightarrow> timing_attrib \<Rightarrow> u8 list" where
  "cbEDIDModule_FakeDetailedTiming pEdid t =
     (let HorBlanking = HorBEnd t - HorBStart t;
          VerBlanking = VerBEnd t - VerBStart t;
          HorSyncOffset = HorSyncStart t - HorBStart t;
          HorSyncWidth = HorSyncEnd t - HorSyncStart t;
          VerSyncOffset = VerSyncStart t - VerBStart t;
          VerSyncWidth = VerSyncEnd t - VerSyncStart t;
          pEdid = poke_all pEdid
            [(0x38, ucast (XRes t AND 0xFF)),
             (0x39, ucast (HorBlanking AND 0xFF)),
             (0x3A, ucast (drop_bit 4 (XRes t AND 0xF00) OR drop_bit 8 (HorBlanking AND 0xF00))),
             (0x3B, ucast (YRes t AND 0xFF)),
             (0x3C, ucast (VerBlanking AND 0xFF)),
             (0x3D, ucast (drop_bit 4 (YRes t AND 0xF00) OR drop_bit 8 (VerBlanking AND 0xF00))),
             (0x3E, ucast (HorSyncOffset AND 0xFF)),
             (0x3F, ucast (HorSyncWidth AND 0xFF)),
             (0x40, ucast (push_bit 4 (VerSyncOffset AND 0x0F) OR (VerSyncWidth AND 0x0F))),
             (0x41, ucast (drop_bit 2 (HorSyncOffset AND 0x300) OR drop_bit 4 (HorSyncWidth AND 0x300)
                        OR drop_bit 2 (VerSyncOffset AND 0x30) OR drop_bit 4 (VerSyncWidth AND 0x30))),
             (0x42, 0x90), (0x43, 0x2C), (0x44, 0x11),
             (0x47, 0x18)];
          pEdid = (if HVPolarity t AND ucast HorNEGATIVE = 0
                   then pEdid[0x47 := pEdid ! 0x47 OR 0x2] else pEdid)
      in if HVPolarity t AND ucast VerNEGATIVE = 0
         then pEdid[0x47 := pEdid ! 0x47 OR 0x4] else pEdid)"

text \<open>The constants that the function stores, in the order of its assignments.\<close>

definition fake_header_bytes :: "(nat \<times> u8) list" where
  "fake_header_bytes =
     [(0, 0x00), (1, 0xFF), (2, 0xFF), (3, 0xFF), (4, 0xFF), (5, 0xFF), (6, 0xFF), (7, 0x00),
      (8, 0x36), (9, 0x7f),
      (0x0A, 0x00), (0x0B, 0x00),
      (0x0C, 0x00), (0x0D, 0x00), (0x0E, 0x00), (0x0F, 0x00),
      (0x10, 1), (0x11, 10),
      (0x12, 0x01), (0x13, 0x03),
      (0x14, 0x80),
      (0x15, 40),
      (0x16, 30),
      (0x17, 0)]"

definition fake_color_bytes :: "(nat \<times> u8) list" where
  "fake_color_bytes =
     [(0x19, 0x78), (0x1A, 0xA0), (0x1B, 0x56), (0x1C, 0x48), (0x1D, 0x9A), (0x1E, 0x26),
      (0x1F, 0x12), (0x20, 0x48), (0x21, 0x4C), (0x22, 0xFF)]"

definition fake_name_bytes :: "(nat \<times> u8) list" where
  "fake_name_bytes =
     [(0x48, 0x00), (0x49, 0x00), (0x4A, 0x00), (0x4B, 0xFC), (0x4C, 0x00),
      (0x4D, 0x5A), (0x4E, 0x58), (0x4F, 0x47), (0x50, 0x20), (0x51, 0x4C), (0x52, 0x43),
      (0x53, 0x44), (0x54, 0x0A), (0x55, 0x20), (0x56, 0x20), (0x57, 0x20), (0x58, 0x20),
      (0x59, 0x20),
      (0x7E, 0)]"

definition cbEDIDModule_FakePanelEDID ::
  "fake_edid_params option \<Rightarrow> u8 list option \<Rightarrow> nat \<Rightarrow> bool \<times> u8 list option" where
  "cbEDIDModule_FakePanelEDID pFakeEdidParam pEdid EdidBufferLength =
     (case (pFakeEdidParam, pEdid) of
        (Some par, Some buf) \<Rightarrow>
          if EdidBufferLength \<noteq> 128 then (False, pEdid)
          else
            let b = copy_at buf 0 (replicate EdidBufferLength 0);
                b = poke_all b fake_header_bytes;
                b = b[0x18 := b ! 0x18 OR 0x02];
                b = poke_all b fake_color_bytes;
                b = b[0x36 := ucast (PixelClock (DtlTiming par))];
                b = b[0x37 := ucast (drop_bit 8 (PixelClock (DtlTiming par)))];
                b = (if bProvideDtlTimingEDID par
                     then copy_at b 0x38 (take 16 (DtlTimingEDID par))
                     else cbEDIDModule_FakeDetailedTiming b (DtlTiming par));
                b = poke_all b fake_name_bytes;
                CheckSum = foldl (\<lambda>c i. c + b ! i) 0 [0..<EdidBufferLength - 1];
                CheckSum = 0xFF - CheckSum + 1
            in (True, Some (b[0x7F := CheckSum]))
      | _ \<Rightarrow> (False, pEdid))"

lemma length_poke_all [simp]: "length (poke_all b ws) = length b"
  unfolding poke_all_def by (induction ws arbitrary: b) auto

lemma nth_poke_all:
  "j < length b \<Longrightarrow>
     poke_all b ws ! j = (case map_of (rev ws) j of None \<Rightarrow> b ! j | Some v \<Rightarrow> v)"
  unfolding poke_all_def
proof (induction ws arbitrary: b)
  case (Cons w ws)
  obtain i v where "w = (i, v)" by (cases w)
  then show ?case using Cons by (simp add: map_add_def split: option.splits)
qed simp

lemma length_copy_at [simp]:
  "off + length src \<le> length b \<Longrightarrow> length (copy_at b off src) = length b"
  by (simp add: copy_at_def)

lemma nth_copy_at:
  "off + length src \<le> length b \<Longrightarrow> j < length b \<Longrightarrow>
     copy_at b off src ! j =
       (if off \<le> j \<and> j < off + length src then src ! (j - off) else b ! j)"
  by (auto simp: copy_at_def nth_append)

lemma foldl_range_sum: "foldl (\<lambda>c i. c + b ! i) 0 [0..<n] = range_sum b 0 n"
  by (induction n) (simp_all add: range_sum_def)

lemma length_FakeDetailedTiming [simp]: "length (cbEDIDModule_FakeDetailedTiming b t) = length b"
  by (simp add: cbEDIDModule_FakeDetailedTiming_def Let_def)

lemma nth_FakeDetailedTiming_other:
  "j < length b \<Longrightarrow> j < 0x38 \<or> 0x47 < j \<Longrightarrow> cbEDIDModule_FakeDetailedTiming b t ! j = b ! j"
  by (auto simp: cbEDIDModule_FakeDetailedTiming_def Let_def nth_poke_all)

text \<open>The bytes of the buffer before its checksum is written.\<close>

definition panel_bytes :: "fake_edid_params \<Rightarrow> u8 list \<Rightarrow> bool" where
  "panel_bytes par b \<longleftrightarrow>
     length b = 128 \<and> take 8 b = EDID1header \<and> b ! 0x7E = 0 \<and>
     (\<exists>b0. length b0 = 128 \<and> (\<forall>j. 0x38 \<le> j \<and> j < 0x48 \<longrightarrow>
        b ! j = (if bProvideDtlTimingEDID par then DtlTimingEDID par ! (j - 0x38)
                 else cbEDIDModule_FakeDetailedTiming b0 (DtlTiming par) ! j))) \<and>
     b ! 0x36 = ucast (PixelClock (DtlTiming par)) \<and>
     b ! 0x37 = ucast (drop_bit 8 (PixelClock (DtlTiming par))) \<and>
     (\<forall>j \<in> {0x48, 0x49, 0x5A, 0x5B, 0x6C, 0x6D}. b ! j = 0)"

lemma fake_bytes_none:
  "map_of (rev fake_name_bytes) j = None \<longleftrightarrow> (j < 0x48 \<or> 0x59 < j) \<and> j \<noteq> 0x7E"
  "map_of (rev fake_color_bytes) j = None \<longleftrightarrow> j < 0x19 \<or> 0x22 < j"
  "map_of (rev fake_header_bytes) j = None \<longleftrightarrow> 0x17 < j"
  unfolding fake_name_bytes_def fake_color_bytes_def fake_header_bytes_def
  by (simp_all; arith)+

lemma FakePanelEDID_bytes:
  assumes "length buf = 128" "length (DtlTimingEDID par) = 16"
  shows "\<exists>b. panel_bytes par b \<and>
     cbEDIDModule_FakePanelEDID (Some par) (Some buf) 128 =
       (True, Some (b[0x7F := 0xFF - range_sum b 0 127 + 1]))"
proof -
  define b1 where "b1 = poke_all (copy_at buf 0 (replicate 128 0)) fake_header_bytes"
  define b2 where "b2 = poke_all (b1[0x18 := b1 ! 0x18 OR 0x02]) fake_color_bytes"
  define b3 where "b3 = b2[0x36 := ucast (PixelClock (DtlTiming par)),
    0x37 := ucast (drop_bit 8 (PixelClock (DtlTiming par)))]"
  define b4 where "b4 = (if bProvideDtlTimingEDID par
    then copy_at b3 0x38 (take 16 (DtlTimingEDID par))
    else cbEDIDModule_FakeDetailedTiming b3 (DtlTiming par))"
  define b where "b = poke_all b4 fake_name_bytes"
  have len: "length b1 = 128" "length b2 = 128" "length b3 = 128" "length b4 = 128" "length b = 128"
    using assms by (simp_all add: b1_def b2_def b3_def b4_def b_def)
  have n1: "b1 ! j = (case map_of (rev fake_header_bytes) j of None \<Rightarrow> 0 | Some v \<Rightarrow> v)"
    if "j < 128" for j
    using that assms by (simp add: b1_def nth_poke_all nth_copy_at split: option.split)
  have n2: "b2 ! j = b1 ! j" if "j < 0x18 \<or> 0x22 < j" "j < 128" for j
    using that len fake_bytes_none(2) [of j] by (auto simp: b2_def nth_poke_all)
  have n3: "b3 ! j = b2 ! j" if "j \<noteq> 0x36" "j \<noteq> 0x37" for j
    using that by (simp add: b3_def)
  have n3': "b3 ! 0x36 = ucast (PixelClock (DtlTiming par))"
     "b3 ! 0x37 = ucast (drop_bit 8 (PixelClock (DtlTiming par)))"
    using len by (simp_all add: b3_def)
  have n4: "b4 ! j = b3 ! j" if "j < 0x38 \<or> 0x47 < j" "j < 128" for j
    using that len assms by (auto simp: b4_def nth_copy_at nth_FakeDetailedTiming_other)
  have n4': "b4 ! j = (if bProvideDtlTimingEDID par then DtlTimingEDID par ! (j - 0x38)
      else cbEDIDModule_FakeDetailedTiming b3 (DtlTiming par) ! j)" if "0x38 \<le> j" "j < 0x48" for j
    using that len assms by (simp add: b4_def nth_copy_at)
  have n5: "b ! j = b4 ! j" if "j < 0x48 \<or> 0x59 < j \<and> j < 0x7E" for j
    using that len fake_bytes_none(1) [of j] by (auto simp: b_def nth_poke_all)
  have zero: "b3 ! j = 0" if "0x37 < j" "j < 128" for j
    using that n1 [of j] n2 [of j] n3 [of j] fake_bytes_none(3) [of j] by simp
  have hd: "b ! j = EDID1header ! j" if "j < 8" for j
  proof -
    have "b ! j = b1 ! j" using that n5 n4 n3 n2 by simp
    moreover have "j \<in> set [0..<8]" using that by simp
    ultimately show ?thesis using that n1 [of j]
      by (auto simp: fake_header_bytes_def EDID1header_def upt_8)
  qed
  have "take 8 b = EDID1header"
    by (rule nth_equalityI) (simp_all add: len EDID1header_def, simp add: hd EDID1header_def)
  moreover have "b ! 0x7E = 0" "b ! 0x48 = 0" "b ! 0x49 = 0"
    using len by (simp_all add: b_def nth_poke_all fake_name_bytes_def)
  moreover have "b ! 0x5A = 0" "b ! 0x5B = 0" "b ! 0x6C = 0" "b ! 0x6D = 0"
    using zero n4 n5 by simp_all
  moreover have "b ! 0x36 = ucast (PixelClock (DtlTiming par))"
    "b ! 0x37 = ucast (drop_bit 8 (PixelClock (DtlTiming par)))"
    using n3' n4 n5 by simp_all
  ultimately have "panel_bytes par b"
    unfolding panel_bytes_def using len zero n4' n5
    by (intro conjI exI [of _ b3]) auto
  moreover have "cbEDIDModule_FakePanelEDID (Some par) (Some buf) 128 =
       (True, Some (b[0x7F := 0xFF - range_sum b 0 127 + 1]))"
    unfolding foldl_range_sum [symmetric]
    by (simp add: cbEDIDModule_FakePanelEDID_def b1_def b2_def b3_def b4_def b_def Let_def)
  ultimately show ?thesis by blast
qed

lemma length_header: "length EDID1header = 8"
  by (simp add: EDID1header_def)

lemma checksum_closes:
  assumes "length b = 128"
  shows "block_sum (b[0x7F := 0xFF - range_sum b 0 127 + 1]) 0 = 0"
proof -
  let ?r = "b[0x7F := 0xFF - range_sum b 0 127 + 1]"
  have "block_sum ?r 0 = range_sum ?r 0 127 + ?r ! 127"
    using range_sum_split [of 0 127 128 ?r] by (simp add: block_sum_range range_sum_first)
  also have "range_sum ?r 0 127 = range_sum b 0 127" by (rule range_sum_cong) simp
  finally show ?thesis using assms by simp
qed

text \<open>
  The EDID made up for a panel passes the driver's own validity check, header and checksum, and
  announces no extension block, whether the caller brings the detailed timing as bytes or as
  numbers.
\<close>

theorem fake_panel_edid_valid:
  assumes "length buf = 128" "length (DtlTimingEDID par) = 16"
  shows "\<exists>r. cbEDIDModule_FakePanelEDID (Some par) (Some buf) 128 = (True, Some r) \<and>
    length r = 128 \<and> cbEDIDModule_IsEDIDValid (Some r) 128 \<and> cbEDIDModule_GetExtBlockNum r = 0"
proof -
  obtain b where b: "panel_bytes par b"
    "cbEDIDModule_FakePanelEDID (Some par) (Some buf) 128 =
       (True, Some (b[0x7F := 0xFF - range_sum b 0 127 + 1]))"
    using FakePanelEDID_bytes [OF assms] by blast
  let ?r = "b[0x7F := 0xFF - range_sum b 0 127 + 1]"
  have len: "length b = 128" and hd: "take 8 b = EDID1header" and ext: "b ! 0x7E = 0"
    using b(1) by (simp_all add: panel_bytes_def)
  have "cbIsEdidChecksumValid ?r 128"
    using checksum_closes [OF len] by (simp add: cbIsEdidChecksumValid_iff)
  moreover have "cbEDIDModule_IsEDIDHeaderValid ?r 128"
    using hd by (simp add: cbEDIDModule_IsEDIDHeaderValid_def length_header)
  ultimately show ?thesis
    using b(2) len ext
    by (auto simp: cbEDIDModule_IsEDIDValid_def cbEDIDModule_GetExtBlockNum_def)
qed

definition sample_timing :: timing_attrib where
  "sample_timing = \<lparr>Size = 40, FormatVIC = 0, XRes = 1080, YRes = 1920, RefreshRate = 0,
     HVPolarity = 0xC0, PixelClock = 14040, HorTotal = 1200, HorDisEnd = 1080, HorBStart = 1080,
     HorBEnd = 1200, HorSyncStart = 1144, HorSyncEnd = 1152, VerTotal = 1950, VerDisEnd = 1920,
     VerBStart = 1920, VerBEnd = 1950, VerSyncStart = 1936, VerSyncEnd = 1938\<rparr>"

definition sample_params :: fake_edid_params where
  "sample_params = \<lparr>DtlTiming = sample_timing, bProvideDtlTimingEDID = False,
     DtlTimingEDID = replicate 16 0\<rparr>"

lemma fake_panel_edid_valid_witness:
  "\<exists>r. cbEDIDModule_FakePanelEDID (Some sample_params) (Some (replicate 128 0xAA)) 128 =
     (True, Some r) \<and> cbEDIDModule_IsEDIDValid (Some r) 128"
  using fake_panel_edid_valid [of "replicate 128 0xAA" sample_params]
  by (auto simp: sample_params_def)

subsection \<open>The bytes of a made up detailed timing\<close>

lemma nat_crumb: "(n :: nat) div 2 ^ i mod 4 = of_bool (bit n i) + 2 * of_bool (bit n (Suc i))"
proof -
  have "n div 2 ^ i mod 4 = n div 2 ^ i mod 2 + 2 * (n div 2 ^ i div 2 mod 2)"
    using mod_mult2_eq [of "n div 2 ^ i" 2 2] by simp
  also have "n div 2 ^ i div 2 = n div 2 ^ Suc i"
    unfolding power_Suc2 by (rule div_mult2_eq [symmetric])
  finally show ?thesis by (simp add: bit_iff_odd mod_2_eq_odd)
qed

lemma word_crumb:
  "unat (x :: u16) div 2 ^ i mod 4 = of_bool (bit x i) + 2 * of_bool (bit x (Suc i))"
  by (simp add: nat_crumb bit_unsigned_iff)

lemma word_nibble:
  "unat (x :: u16) div 2 ^ i mod 16 = unat x div 2 ^ i mod 4 + 4 * (unat x div 2 ^ (i + 2) mod 4)"
proof -
  have "unat x div 2 ^ (i + 2) = unat x div 2 ^ i div 4"
    unfolding power_add div_mult2_eq by simp
  then show ?thesis using mod_mult2_eq [of "unat x div 2 ^ i" 4 4] by simp
qed

lemma timing_byte_low: "unat (ucast (x AND 0xFF) :: u8) = unat (x :: u16) mod 256"
proof -
  have "x AND 0xFF = take_bit 8 x"
    by (simp add: take_bit_eq_mask mask_eq_exp_minus_1)
  then show ?thesis
    by (simp add: unsigned_ucast_eq unsigned_take_bit_eq take_bit_eq_mod unat_mod)
qed

lemma timing_byte_high:
  fixes x y :: u16
  defines "b \<equiv> ucast (drop_bit 4 (x AND 0xF00) OR drop_bit 8 (y AND 0xF00)) :: u8"
  shows "unat b div 16 = unat x div 256 mod 16" "unat b mod 16 = unat y div 256 mod 16"
  using word_nibble [of x 8] word_nibble [of y 8] word_crumb [of x 8] word_crumb [of x 10]
    word_crumb [of y 8] word_crumb [of y 10]
  by (simp_all add: byte_crumbs crumb_bits b_def bit_simps del: bit_0)

lemma timing_byte_vsync:
  fixes x y :: u16
  defines "b \<equiv> ucast (push_bit 4 (x AND 0x0F) OR (y AND 0x0F)) :: u8"
  shows "unat b div 16 = unat x mod 16" "unat b mod 16 = unat y mod 16"
  using word_nibble [of x 0] word_nibble [of y 0] word_crumb [of x 0] word_crumb [of x 2]
    word_crumb [of y 0] word_crumb [of y 2]
  by (simp_all add: byte_crumbs crumb_bits b_def bit_simps del: bit_0)

lemma timing_byte_sync_high:
  fixes x y v w :: u16
  defines "b \<equiv> ucast (drop_bit 2 (x AND 0x300) OR drop_bit 4 (y AND 0x300)
      OR drop_bit 2 (v AND 0x30) OR drop_bit 4 (w AND 0x30)) :: u8"
  shows "unat b div 64 = unat x div 256 mod 4" "unat b div 16 mod 4 = unat y div 256 mod 4"
    "unat b div 4 mod 4 = unat v div 16 mod 4" "unat b mod 4 = unat w div 16 mod 4"
  using word_crumb [of x 8] word_crumb [of y 8] word_crumb [of v 4] word_crumb [of w 4]
  by (simp_all add: byte_crumbs crumb_bits b_def bit_simps del: bit_0)

text \<open>A timing whose fields fit the bits that a detailed timing has for them.\<close>

definition dtl_encodable :: "timing_attrib \<Rightarrow> bool" where
  "dtl_encodable t \<longleftrightarrow>
     0 < PixelClock t \<and> PixelClock t < 65536 \<and>
     0 < XRes t \<and> XRes t < 4096 \<and> 0 < YRes t \<and> YRes t < 4096 \<and>
     HorBStart t = XRes t \<and> XRes t \<le> HorBEnd t \<and> HorBEnd t - XRes t < 4096 \<and>
     VerBStart t = YRes t \<and> YRes t \<le> VerBEnd t \<and> VerBEnd t - YRes t < 4096 \<and>
     HorSyncStart t - XRes t < 1024 \<and> HorSyncEnd t - HorSyncStart t < 1024 \<and>
     VerSyncStart t - YRes t < 64 \<and> VerSyncEnd t - VerSyncStart t < 64"

lemma word16_split:
  "(x :: u16) < 4096 \<Longrightarrow> unat x mod 256 + 256 * (unat x div 256 mod 16) = unat x"
  "x < 1024 \<Longrightarrow> unat x mod 256 + 256 * (unat x div 256 mod 4) = unat x"
  "x < 64 \<Longrightarrow> unat x mod 16 + 16 * (unat x div 16 mod 4) = unat x"
proof -
  assume "x < 4096"
  then have "unat x div 256 < 16" by (simp add: word_less_nat_alt)
  then show "unat x mod 256 + 256 * (unat x div 256 mod 16) = unat x" by simp
next
  assume "x < 1024"
  then have "unat x div 256 < 4" by (simp add: word_less_nat_alt)
  then show "unat x mod 256 + 256 * (unat x div 256 mod 4) = unat x" by simp
next
  assume "x < 64"
  then have "unat x div 16 < 4" by (simp add: word_less_nat_alt)
  then show "unat x mod 16 + 16 * (unat x div 16 mod 4) = unat x" by simp
qed

lemma ucast_field [simp]: "ucast (of_nat (unat (x :: u16)) :: u32) = x"
  by (intro bit_word_eqI) (simp add: bit_simps)

lemma FakeDetailedTiming_fields:
  fixes t :: timing_attrib and b0 :: "u8 list"
  defines "r \<equiv> drop 0x36 (cbEDIDModule_FakeDetailedTiming b0 t)"
  assumes "length b0 = 128" and t: "dtl_encodable t"
  shows "field16 r EDIDHorizontalActive = XRes t"
    "field16 r EDIDHorizontalBlanking = HorBEnd t - XRes t"
    "field16 r EDIDVerticalActive = YRes t"
    "field16 r EDIDVerticalBlanking = VerBEnd t - YRes t"
    "field16 r EDIDHorizontalSyncOffset = HorSyncStart t - XRes t"
    "field16 r EDIDHorizontalSyncPulseWidth = HorSyncEnd t - HorSyncStart t"
    "field16 r EDIDVerticalSyncOffset = VerSyncStart t - YRes t"
    "field16 r EDIDVerticalSyncPulseWidth = VerSyncEnd t - VerSyncStart t"
proof -
  have nth: "r ! 2 = ucast (XRes t AND 0xFF)" "r ! 3 = ucast ((HorBEnd t - HorBStart t) AND 0xFF)"
    "r ! 4 = ucast (drop_bit 4 (XRes t AND 0xF00) OR drop_bit 8 ((HorBEnd t - HorBStart t) AND 0xF00))"
    "r ! 5 = ucast (YRes t AND 0xFF)" "r ! 6 = ucast ((VerBEnd t - VerBStart t) AND 0xFF)"
    "r ! 7 = ucast (drop_bit 4 (YRes t AND 0xF00) OR drop_bit 8 ((VerBEnd t - VerBStart t) AND 0xF00))"
    "r ! 8 = ucast ((HorSyncStart t - HorBStart t) AND 0xFF)"
    "r ! 9 = ucast ((HorSyncEnd t - HorSyncStart t) AND 0xFF)"
    "r ! 10 = ucast (push_bit 4 ((VerSyncStart t - VerBStart t) AND 0x0F)
       OR ((VerSyncEnd t - VerSyncStart t) AND 0x0F))"
    "r ! 11 = ucast (drop_bit 2 ((HorSyncStart t - HorBStart t) AND 0x300)
       OR drop_bit 4 ((HorSyncEnd t - HorSyncStart t) AND 0x300)
       OR drop_bit 2 ((VerSyncStart t - VerBStart t) AND 0x30)
       OR drop_bit 4 ((VerSyncEnd t - VerSyncStart t) AND 0x30))"
    using assms(2) by (simp_all add: r_def cbEDIDModule_FakeDetailedTiming_def Let_def nth_poke_all)
  note fits = t [unfolded dtl_encodable_def]
  show "field16 r EDIDHorizontalActive = XRes t" "field16 r EDIDHorizontalBlanking = HorBEnd t - XRes t"
    "field16 r EDIDVerticalActive = YRes t" "field16 r EDIDVerticalBlanking = VerBEnd t - YRes t"
    "field16 r EDIDHorizontalSyncOffset = HorSyncStart t - XRes t"
    "field16 r EDIDHorizontalSyncPulseWidth = HorSyncEnd t - HorSyncStart t"
    "field16 r EDIDVerticalSyncOffset = VerSyncStart t - YRes t"
    "field16 r EDIDVerticalSyncPulseWidth = VerSyncEnd t - VerSyncStart t"
    unfolding timing_fields nth timing_byte_low timing_byte_high timing_byte_vsync
      timing_byte_sync_high
    using fits by (simp_all only: word16_split ucast_field)
qed

lemma FakeDetailedTiming_flags:
  assumes "length b0 = 128"
  shows "cbEDIDModule_FakeDetailedTiming b0 t ! 0x47 =
    0x18 OR (if HVPolarity t AND ucast HorNEGATIVE = 0 then 0x2 else 0)
         OR (if HVPolarity t AND ucast VerNEGATIVE = 0 then 0x4 else 0)"
  using assms by (simp add: cbEDIDModule_FakeDetailedTiming_def Let_def nth_poke_all)

text \<open>
  The timing that comes back: the sums are formed again from the fields, the totals are the ends of
  the blanking, the clock is in units of 100 Hz and the refresh rate is computed from it.
\<close>

definition panel_timing :: "timing_attrib \<Rightarrow> timing_attrib" where
  "panel_timing t = t\<lparr>
     Size := TIMING_ATTRIB_SIZE, FormatVIC := 0, PixelClock := PixelClock t * 100,
     HVPolarity := HVPolarity t AND 0xC0,
     HorTotal := HorBEnd t, HorDisEnd := XRes t, VerTotal := VerBEnd t, VerDisEnd := YRes t,
     RefreshRate := ucast (100 * cbRound
       (ucast (cbCalcRefreshRate (PixelClock t * 100) (HorBEnd t) (VerBEnd t))) 100
       ROUND_NEAREST)\<rparr>"

lemma polarity_bits:
  fixes p :: u16
  shows "p AND 0x40 = (if bit p 6 then 0x40 else 0)" "p AND 0x80 = (if bit p 7 then 0x80 else 0)"
    "p AND 0xC0 = (if bit p 6 then 0x40 else 0) + (if bit p 7 then 0x80 else 0)"
proof -
  have e: "p AND push_bit n 1 = (if bit p n then push_bit n 1 else 0)" for n
    by (intro bit_word_eqI) (auto simp: bit_simps)
  show a: "p AND 0x40 = (if bit p 6 then 0x40 else 0)" "p AND 0x80 = (if bit p 7 then 0x80 else 0)"
    using e [of 6] e [of 7] by simp_all
  have "p AND 0xC0 = (p AND 0x40) OR (p AND 0x80)"
    by (simp flip: bit.conj_disj_distrib)
  then show "p AND 0xC0 = (if bit p 6 then 0x40 else 0) + (if bit p 7 then 0x80 else 0)"
    by (simp add: a)
qed

lemma polarity_back:
  fixes p :: u16
  defines "f \<equiv> (0x18 :: u8) OR (if p AND ucast HorNEGATIVE = 0 then 0x2 else 0)
         OR (if p AND ucast VerNEGATIVE = 0 then 0x4 else 0)"
  shows "f AND 0x18 = 0x18" "\<not> bit f 7"
    "(ucast (if bit f 1 then HorPOSITIVE else HorNEGATIVE) :: u16)
      + ucast (if bit f 2 then VerPOSITIVE else VerNEGATIVE) = p AND 0xC0"
  unfolding f_def HorNEGATIVE_def VerNEGATIVE_def HorPOSITIVE_def VerPOSITIVE_def
  by (simp_all add: polarity_bits)

lemma parse_panel_timing:
  assumes t: "dtl_encodable t" and len: "length b0 = 128" "length b = 128"
    and bytes: "\<And>j. 0x38 \<le> j \<Longrightarrow> j < 0x48 \<Longrightarrow> b ! j = cbEDIDModule_FakeDetailedTiming b0 t ! j"
    and clk: "b ! 0x36 = ucast (PixelClock t)" "b ! 0x37 = ucast (drop_bit 8 (PixelClock t))"
  shows "cbEDIDModule_ParseDtlTiming (drop 0x36 b) zero_timing =
    Some (zero_timing\<lparr>IsSupportMono := True, AspectRatio := 1, FullTiming := panel_timing t\<rparr>)"
proof -
  let ?d = "drop 0x36 b" and ?r = "drop 0x36 (cbEDIDModule_FakeDetailedTiming b0 t)"
  have same: "?d ! k = ?r ! k" if "2 \<le> k" "k < 18" for k
    using that len bytes by simp
  have fields: "field16 ?d T = field16 ?r T" if "T \<in> {EDIDHorizontalActive, EDIDHorizontalBlanking,
      EDIDVerticalActive, EDIDVerticalBlanking, EDIDHorizontalSyncOffset,
      EDIDHorizontalSyncPulseWidth, EDIDVerticalSyncOffset, EDIDVerticalSyncPulseWidth}" for T
    using that by (auto simp only: timing_fields insert_iff empty_iff same)
  have F: "field16 ?d EDIDHorizontalActive = XRes t"
    "field16 ?d EDIDHorizontalBlanking = HorBEnd t - XRes t"
    "field16 ?d EDIDVerticalActive = YRes t"
    "field16 ?d EDIDVerticalBlanking = VerBEnd t - YRes t"
    "field16 ?d EDIDHorizontalSyncOffset = HorSyncStart t - XRes t"
    "field16 ?d EDIDHorizontalSyncPulseWidth = HorSyncEnd t - HorSyncStart t"
    "field16 ?d EDIDVerticalSyncOffset = VerSyncStart t - YRes t"
    "field16 ?d EDIDVerticalSyncPulseWidth = VerSyncEnd t - VerSyncStart t"
    using FakeDetailedTiming_fields [OF len(1) t] by (simp_all add: fields)
  note fits = t [unfolded dtl_encodable_def]
  have clock: "cbEDIDModule_MapMaskGetEdidInfo ?d 0 EDIDPixelClock = PixelClock t"
  proof -
    have d: "?d ! 0 = ucast (PixelClock t)" "?d ! 1 = ucast (drop_bit 8 (PixelClock t))"
      using clk len by simp_all
    have "unat (PixelClock t) < 65536" using fits by (simp add: word_less_nat_alt)
    then have "unat (ucast (PixelClock t) :: u8) + 256 * unat (ucast (drop_bit 8 (PixelClock t)) :: u8)
        = unat (PixelClock t)"
      by (simp add: unsigned_ucast_eq unsigned_drop_bit_eq take_bit_eq_mod drop_bit_eq_div unat_div)
    then show ?thesis unfolding timing_fields d by simp
  qed
  have img: "field16 ?d EDIDHorizontalImageSize = 400" "field16 ?d EDIDVerticalImageSize = 300"
  proof -
    have "b ! 0x42 = 0x90" "b ! 0x43 = 0x2C" "b ! 0x44 = 0x11"
      using bytes [of "0x42"] bytes [of "0x43"] bytes [of "0x44"] len
      by (simp_all add: cbEDIDModule_FakeDetailedTiming_def Let_def nth_poke_all)
    then have "?d ! 12 = 0x90" "?d ! 13 = 0x2C" "?d ! 14 = 0x11" using len by simp_all
    then show "field16 ?d EDIDHorizontalImageSize = 400" "field16 ?d EDIDVerticalImageSize = 300"
      unfolding timing_fields by simp_all
  qed
  have flags: "?d ! 0x11 = 0x18 OR (if HVPolarity t AND ucast HorNEGATIVE = 0 then 0x2 else 0)
         OR (if HVPolarity t AND ucast VerNEGATIVE = 0 then 0x4 else 0)"
    using FakeDetailedTiming_flags [OF len(1), of t] bytes [of "0x47"] len by simp
  have nz: "XRes t \<noteq> 0" "YRes t \<noteq> 0" "HorBEnd t \<noteq> 0" "VerBEnd t \<noteq> 0" "PixelClock t * 100 \<noteq> 0"
    using fits by (auto simp: word_le_nat_alt word_less_nat_alt unat_word_ariths word_unat_eq_iff)
  show ?thesis
    unfolding cbEDIDModule_ParseDtlTiming_def F clock img flags
    using fits nz polarity_back [of "HVPolarity t"]
    by (simp add: panel_timing_def zero_timing_def zero_attrib_def Let_def)
qed

end
