(* ===== verification/Cea_Table.thy ===== *)
theory Cea_Table
  imports Edid
begin

text \<open>
  The CEA-861 video formats of \<^verbatim>\<open>cbios/Util/CBiosEDID.c\<close>: the table of their timings and the
  table of what the driver supports of them, checked against what each promises of the other. A
  format is named by its video identification code, which is one more than its index in both tables.
\<close>

section \<open>The tables\<close>

definition row :: "u16 \<Rightarrow> u16 \<Rightarrow> u16 \<Rightarrow> u16 \<Rightarrow> u16 \<Rightarrow> u32 \<Rightarrow> u16 \<Rightarrow> u16 \<Rightarrow> u16 \<Rightarrow> u16 \<Rightarrow> u16 \<Rightarrow> u16
    \<Rightarrow> u16 \<Rightarrow> u16 \<Rightarrow> u16 \<Rightarrow> u16 \<Rightarrow> u16 \<Rightarrow> u16 \<Rightarrow> timing_attrib" where
  "row vic x y rate pol clk ht hde hbs hbe hss hse vt vde vbs vbe vss vse =
     \<lparr>Size = TIMING_ATTRIB_SIZE, FormatVIC = vic, XRes = x, YRes = y, RefreshRate = rate,
      HVPolarity = pol, PixelClock = clk, HorTotal = ht, HorDisEnd = hde, HorBStart = hbs,
      HorBEnd = hbe, HorSyncStart = hss, HorSyncEnd = hse, VerTotal = vt, VerDisEnd = vde,
      VerBStart = vbs, VerBEnd = vbe, VerSyncStart = vss, VerSyncEnd = vse\<rparr>"

definition HDMIFormatTimingTbl :: "timing_attrib list" where
  "HDMIFormatTimingTbl =
    [
     row 1 640 480 6000 192 252000 800 640 640 800 656 752 525 480 480 525 490 492,
     row 2 720 480 6000 192 270270 858 720 720 858 736 798 525 480 480 525 489 495,
     row 3 720 480 6000 192 270270 858 720 720 858 736 798 525 480 480 525 489 495,
     row 4 1280 720 6000 0 742500 1650 1280 1280 1650 1390 1430 750 720 720 750 725 730,
     row 5 1920 1080 6000 0 742500 2200 1920 1920 2200 2008 2052 1125 1080 1080 1125 1084 1094,
     row 6 720 480 6000 192 270270 858 720 720 858 739 801 525 480 480 525 488 494,
     row 7 720 480 6000 192 270270 858 720 720 858 739 801 525 480 480 525 488 494,
     row 8 720 240 6000 192 270270 858 720 858 858 739 801 262 240 240 262 244 247,
     row 9 720 240 6000 192 270270 858 720 858 858 739 801 262 240 240 262 244 247,
     row 10 2880 480 6000 192 540540 3432 2880 2880 3432 2956 3204 525 480 480 525 488 494,
     row 11 2880 480 6000 192 540540 3432 2880 2880 3432 2956 3204 525 480 480 525 488 494,
     row 12 2880 240 6000 192 540540 3432 2880 2880 3432 2956 3204 262 240 240 262 244 247,
     row 13 2880 240 6000 192 540540 3432 2880 2880 3432 2956 3204 263 240 240 263 245 248,
     row 14 1440 480 6000 192 540540 1716 1440 1440 1716 1472 1596 525 480 480 525 490 496,
     row 15 1440 480 6000 192 540540 1716 1440 1440 1716 1472 1596 525 480 480 525 490 496,
     row 16 1920 1080 6000 0 1485000 2200 1920 1920 2200 2008 2052 1125 1080 1080 1125 1084 1089,
     row 17 720 576 5000 192 270000 864 720 720 864 732 796 625 576 576 625 581 586,
     row 18 720 576 5000 192 270000 864 720 720 864 732 796 625 576 576 625 581 586,
     row 19 1280 720 5000 0 742500 1980 1280 1280 1980 1720 1760 750 720 720 750 725 730,
     row 20 1920 1080 5000 0 742500 2640 1920 1920 2640 2448 2492 1125 1080 1080 1125 1084 1094,
     row 21 720 576 5000 192 270000 864 720 720 864 732 795 625 576 576 625 580 586,
     row 22 720 576 5000 192 270000 864 720 720 864 732 795 625 576 576 625 580 586,
     row 23 720 288 5000 192 270000 864 720 720 864 732 795 312 288 288 312 290 293,
     row 24 720 288 5000 192 270000 864 720 720 864 732 795 312 288 288 312 290 293,
     row 25 2880 576 5000 192 540000 3456 2880 2880 3456 2928 3180 625 576 576 625 580 586,
     row 26 2880 576 5000 192 540000 3456 2880 2880 3456 2928 3180 625 576 576 625 580 586,
     row 27 2880 288 5000 192 540000 3456 2880 2880 3456 2928 3180 312 288 288 312 290 293,
     row 28 2880 288 5000 192 540000 3456 2880 2880 3456 2928 3180 313 288 288 313 291 294,
     row 29 1440 576 5000 192 540000 1728 1440 1440 1728 1464 1592 625 576 576 625 581 586,
     row 30 1440 576 5000 192 540000 1728 1440 1440 1728 1464 1592 625 576 576 625 581 586,
     row 31 1920 1080 5000 0 1485000 2640 1920 1920 2640 2448 2492 1125 1080 1080 1125 1084 1089,
     row 32 1920 1080 2400 0 742500 2750 1920 1920 2750 2558 2602 1125 1080 1080 1125 1084 1089,
     row 33 1920 1080 2500 0 742500 2640 1920 1920 2640 2448 2492 1125 1080 1080 1125 1084 1089,
     row 34 1920 1080 3000 0 742500 2200 1920 1920 2200 2008 2052 1125 1080 1080 1125 1084 1089,
     row 35 2880 480 6000 192 1081080 3432 2880 2880 3432 2944 3192 525 480 480 525 489 495,
     row 36 2880 480 6000 192 1081080 3432 2880 2880 3432 2944 3192 525 480 480 525 489 495,
     row 37 2880 576 5000 192 1080000 3456 2880 2880 3456 2928 3184 625 576 576 625 581 586,
     row 38 2880 576 5000 192 1080000 3456 2880 2880 3456 2928 3184 625 576 576 625 581 586,
     row 39 1920 1080 5000 0 720000 2304 1920 1920 2304 1952 2120 1250 1080 1080 1250 1126 1136,
     row 40 1920 1080 10000 0 1485000 2640 1920 1920 2640 2448 2492 1125 1080 1080 1125 1084 1094,
     row 41 1280 720 10000 0 1485000 1980 1280 1280 1980 1720 1760 750 720 720 750 725 730,
     row 42 720 576 10000 192 540000 864 720 720 864 732 796 625 576 576 625 581 586,
     row 43 720 576 10000 192 540000 864 720 720 864 732 796 625 576 576 625 581 586,
     row 44 720 576 10000 192 540000 864 720 720 864 732 795 625 576 576 625 580 586,
     row 45 720 576 10000 192 540000 864 720 720 864 732 795 625 576 576 625 580 586,
     row 46 1920 1080 10000 0 1485000 2200 1920 1920 2200 2008 2052 1125 1080 1080 1125 1084 1094,
     row 47 1280 720 12000 0 1485000 1650 1280 1280 1650 1390 1430 750 720 720 750 725 730,
     row 48 720 480 12000 192 540540 858 720 720 858 736 798 525 480 480 525 489 495,
     row 49 720 480 12000 192 540540 858 720 720 858 736 798 525 480 480 525 489 495,
     row 50 720 480 12000 192 540540 858 720 720 858 739 801 525 480 480 525 488 494,
     row 51 720 480 12000 192 540540 858 720 720 858 739 801 525 480 480 525 488 494,
     row 52 720 576 20000 192 1080000 864 720 720 864 732 796 625 576 576 625 581 586,
     row 53 720 576 20000 192 1080000 864 720 720 864 732 796 625 576 576 625 581 586,
     row 54 720 576 20000 192 1080000 864 720 720 864 732 795 625 576 576 625 580 586,
     row 55 720 576 20000 192 1080000 864 720 720 864 732 795 625 576 576 625 580 586,
     row 56 720 480 24000 192 1081080 858 720 720 858 736 798 525 480 480 525 489 495,
     row 57 720 480 24000 192 1081080 858 720 720 858 736 798 525 480 480 525 489 495,
     row 58 720 480 24000 192 1081080 858 720 720 858 739 801 525 480 480 525 488 494,
     row 59 720 480 24000 192 1081080 858 720 720 858 739 801 525 480 480 525 488 494,
     row 60 1280 720 2400 0 594000 3300 1280 1280 3300 3040 3080 750 720 720 750 725 730,
     row 61 1280 720 2500 0 742500 3960 1280 1280 3960 3700 3740 750 720 720 750 725 730,
     row 62 1280 720 3000 0 742500 3300 1280 1280 3300 3040 3080 750 720 720 750 725 730,
     row 63 1920 1080 12000 0 2970000 2200 1920 1920 2200 2008 2052 1125 1080 1080 1125 1084 1089,
     row 64 1920 1080 10000 0 2970000 2640 1920 1920 2640 2448 2492 1125 1080 1080 1125 1084 1089,
     row 65 1280 720 2400 0 594000 3300 1280 1280 3300 3040 3080 750 720 720 750 725 730,
     row 66 1280 720 2500 0 742500 3960 1280 1280 3960 3700 3740 750 720 720 750 725 730,
     row 67 1280 720 3000 0 742500 3300 1280 1280 3300 3040 3080 750 720 720 750 725 730,
     row 68 1280 720 5000 0 742500 1980 1280 1280 1980 1720 1760 750 720 720 750 725 730,
     row 69 1280 720 6000 0 742500 1650 1280 1280 1650 1390 1430 750 720 720 750 725 730,
     row 70 1280 720 10000 0 1485000 1980 1280 1280 1980 1720 1760 750 720 720 750 725 730,
     row 71 1280 720 12000 0 1485000 1650 1280 1280 1650 1390 1430 750 720 720 750 725 730,
     row 72 1920 1080 2400 0 742500 2750 1920 1920 2750 2558 2602 1125 1080 1080 1125 1084 1089,
     row 73 1920 1080 2500 0 742500 2640 1920 1920 2640 2448 2492 1125 1080 1080 1125 1084 1089,
     row 74 1920 1080 3000 0 741760 2200 1920 1920 2200 2008 2052 1125 1080 1080 1125 1084 1089,
     row 75 1920 1080 5000 0 1485000 2640 1920 1920 2640 2448 2492 1125 1080 1080 1125 1084 1089,
     row 76 1920 1080 6000 0 1485000 2200 1920 1920 2200 2008 2052 1125 1080 1080 1125 1084 1089,
     row 77 1920 1080 12000 0 2970000 2640 1920 1920 2640 2448 2492 1125 1080 1080 1125 1084 1089,
     row 78 1920 1080 12000 0 2970000 2200 1920 1920 2200 2008 2052 1125 1080 1080 1125 1084 1089,
     row 79 1680 720 2400 0 594000 3300 1680 1680 3300 3040 3080 750 720 720 750 725 730,
     row 80 1680 720 2500 0 594000 3168 1680 1680 3168 2908 2948 750 720 720 750 725 730,
     row 81 1680 720 3000 0 594000 2640 1680 1680 2640 2380 2420 750 720 720 750 725 730,
     row 82 1680 720 5000 0 825000 2200 1680 1680 2200 1940 1980 750 720 720 750 725 730,
     row 83 1680 720 6000 0 990000 2200 1680 1680 2200 1940 1980 750 720 720 750 725 730,
     row 84 1680 720 10000 0 1650000 2000 1680 1680 2000 1740 1780 825 720 720 825 725 730,
     row 85 1680 720 12000 0 1980000 2000 1680 1680 2000 1740 1780 825 720 720 825 725 730,
     row 86 2560 1080 2400 0 990000 3750 2560 2560 3750 3558 3602 1100 1080 1080 1100 1084 1089,
     row 87 2560 1080 2500 0 900000 3200 2560 2560 3200 3008 3052 1125 1080 1080 1125 1084 1089,
     row 88 2560 1080 3000 0 1188000 3520 2560 2560 3520 3328 3372 1125 1080 1080 1125 1084 1089,
     row 89 2560 1080 5000 0 1856250 3300 2560 2560 3300 3108 3152 1125 1080 1080 1125 1084 1089,
     row 90 2560 1080 6000 0 1980000 3000 2560 2560 3000 2808 2852 1100 1080 1080 1100 1084 1089,
     row 91 2560 1080 10000 0 3712500 2970 2560 2560 2970 2778 2822 1250 1080 1080 1250 1084 1089,
     row 92 2560 1080 12000 0 4950000 3300 2560 2560 3300 3108 3152 1250 1080 1080 1250 1084 1089,
     row 93 3840 2160 2400 0 2970000 5500 3840 3840 5500 5116 5204 2250 2160 2160 2250 2168 2178,
     row 94 3840 2160 2500 0 2970000 5280 3840 3840 5280 4896 4984 2250 2160 2160 2250 2168 2178,
     row 95 3840 2160 3000 0 2970000 4400 3840 3840 4400 4016 4104 2250 2160 2160 2250 2168 2178,
     row 96 3840 2160 5000 0 5940000 5280 3840 3840 5280 4896 4984 2250 2160 2160 2250 2168 2178,
     row 97 3840 2160 6000 0 5940000 4400 3840 3840 4400 4016 4104 2250 2160 2160 2250 2168 2178,
     row 98 4096 2160 2400 0 2970000 5500 4096 4096 5500 5116 5204 2250 2160 2160 2250 2168 2178,
     row 99 4096 2160 2500 0 2970000 5280 4096 4096 5280 5064 5152 2250 2160 2160 2250 2168 2178,
     row 100 4096 2160 3000 0 2970000 4400 4096 4096 4400 4184 4272 2250 2160 2160 2250 2168 2178,
     row 101 4096 2160 5000 0 5940000 5280 4096 4096 5280 5064 5152 2250 2160 2160 2250 2168 2178,
     row 102 4096 2160 6000 0 5940000 4400 4096 4096 4400 4184 4272 2250 2160 2160 2250 2168 2178,
     row 103 3840 2160 2400 0 2970000 5500 3840 3840 5500 5116 5204 2250 2160 2160 2250 2168 2178,
     row 104 3840 2160 2500 0 2970000 5280 3840 3840 5280 4896 4984 2250 2160 2160 2250 2168 2178,
     row 105 3840 2160 3000 0 2970000 4400 3840 3840 4400 4016 4104 2250 2160 2160 2250 2168 2178,
     row 106 3840 2160 5000 0 5940000 5280 3840 3840 5280 4896 4984 2250 2160 2160 2250 2168 2178,
     row 107 3840 2160 6000 0 5940000 4400 3840 3840 4400 4016 4104 2250 2160 2160 2250 2168 2178,
     row 108 3840 2160 3000 0 2970000 4400 3840 3840 4400 4016 4104 2250 2160 2160 2250 2168 2178,
     row 109 3840 2160 2500 0 2970000 5280 3840 3840 5280 4896 4984 2250 2160 2160 2250 2168 2178,
     row 110 3840 2160 2400 0 2970000 5500 3840 3840 5500 5116 5204 2250 2160 2160 2250 2168 2178,
     row 111 4096 2160 2400 0 2970000 5500 4096 4096 5500 5116 5204 2250 2160 2160 2250 2168 2178
    ]"

text \<open>\<^verbatim>\<open>CBIOS_HDMI_FORMAT_MTX\<close>: the code, the aspect ratio (1 for 4:3, 2 for 16:9, 3 for 64:27,
  4 for 256:135), whether the format is interlaced, and whether the driver offers it.\<close>

type_synonym hdmi_format_mtx = "u16 \<times> u8 \<times> u8 \<times> u8"

definition CEAVideoFormatTable :: "hdmi_format_mtx list" where
  "CEAVideoFormatTable =
    [
     (1, 1, 0, 1), (2, 1, 0, 1), (3, 2, 0, 1), (4, 2, 0, 1), (5, 2, 1, 1), (6, 1, 1, 0),
     (7, 2, 1, 0), (8, 1, 0, 0), (9, 2, 0, 0), (10, 1, 1, 0), (11, 2, 1, 0), (12, 1, 0, 0),
     (13, 2, 0, 0), (14, 1, 0, 0), (15, 2, 0, 0), (16, 2, 0, 1), (17, 1, 0, 1), (18, 2, 0, 1),
     (19, 2, 0, 1), (20, 2, 1, 1), (21, 1, 1, 0), (22, 2, 1, 0), (23, 1, 0, 0), (24, 2, 0, 0),
     (25, 1, 1, 0), (26, 2, 1, 0), (27, 1, 0, 0), (28, 2, 0, 0), (29, 1, 0, 0), (30, 2, 0, 0),
     (31, 2, 0, 1), (32, 2, 0, 1), (33, 2, 0, 1), (34, 2, 0, 1), (35, 1, 0, 0), (36, 2, 0, 0),
     (37, 1, 0, 0), (38, 2, 0, 0), (39, 2, 1, 0), (40, 2, 1, 0), (41, 2, 0, 1), (42, 1, 0, 1),
     (43, 2, 0, 1), (44, 1, 1, 0), (45, 2, 1, 0), (46, 2, 1, 0), (47, 2, 0, 1), (48, 1, 0, 1),
     (49, 2, 0, 1), (50, 1, 1, 0), (51, 2, 1, 0), (52, 1, 0, 1), (53, 2, 0, 1), (54, 1, 1, 0),
     (55, 2, 1, 0), (56, 1, 0, 1), (57, 2, 0, 1), (58, 1, 1, 0), (59, 2, 1, 0), (60, 2, 0, 1),
     (61, 2, 0, 1), (62, 2, 0, 1), (63, 2, 0, 1), (64, 2, 0, 1), (65, 3, 0, 1), (66, 3, 0, 1),
     (67, 3, 0, 1), (68, 3, 0, 1), (69, 3, 0, 1), (70, 3, 0, 1), (71, 3, 0, 1), (72, 3, 0, 1),
     (73, 3, 0, 1), (74, 3, 0, 1), (75, 3, 0, 1), (76, 3, 0, 1), (77, 3, 0, 1), (78, 3, 0, 1),
     (79, 3, 0, 0), (80, 3, 0, 0), (81, 3, 0, 0), (82, 3, 0, 0), (83, 3, 0, 0), (84, 3, 0, 0),
     (85, 3, 0, 0), (86, 3, 0, 1), (87, 3, 0, 1), (88, 3, 0, 1), (89, 3, 0, 1), (90, 3, 0, 1),
     (91, 3, 0, 1), (92, 3, 0, 1), (93, 2, 0, 1), (94, 2, 0, 1), (95, 2, 0, 1), (96, 2, 0, 1),
     (97, 2, 0, 1), (98, 4, 0, 1), (99, 4, 0, 1), (100, 4, 0, 1), (101, 4, 0, 1), (102, 4, 0, 1),
     (103, 3, 0, 1), (104, 3, 0, 1), (105, 3, 0, 1), (106, 3, 0, 1), (107, 3, 0, 1),
     (108, 2, 0, 1), (109, 2, 0, 1), (110, 2, 0, 1), (111, 2, 0, 1)
    ]"

definition CBIOS_HDMI_NORMAL_VIC_COUNTS :: nat where "CBIOS_HDMI_NORMAL_VIC_COUNTS = 107"
definition CBIOS_HDMIFORMATCOUNTS :: nat where
  "CBIOS_HDMIFORMATCOUNTS = CBIOS_HDMI_NORMAL_VIC_COUNTS + 4"

abbreviation cea_aspect :: "hdmi_format_mtx \<Rightarrow> u8" where "cea_aspect m \<equiv> fst (snd m)"
abbreviation cea_interlace :: "hdmi_format_mtx \<Rightarrow> u8" where "cea_interlace m \<equiv> fst (snd (snd m))"
abbreviation cea_supported :: "hdmi_format_mtx \<Rightarrow> u8" where "cea_supported m \<equiv> snd (snd (snd m))"

lemma length_HDMIFormatTimingTbl: "length HDMIFormatTimingTbl = 111"
  by (simp add: HDMIFormatTimingTbl_def)

lemma length_CEAVideoFormatTable: "length CEAVideoFormatTable = 111"
  by (simp add: CEAVideoFormatTable_def)

section \<open>What the timing table promises\<close>

text \<open>
  A line runs from the active pixels through the blanking, with the sync pulse inside the blanking,
  and a frame does the same in lines.
\<close>

definition geometry_ok :: "timing_attrib \<Rightarrow> bool" where
  "geometry_ok t \<longleftrightarrow>
     XRes t = HorDisEnd t \<and> XRes t = HorBStart t \<and> XRes t \<le> HorSyncStart t \<and>
     HorSyncStart t < HorSyncEnd t \<and> HorSyncEnd t \<le> HorBEnd t \<and> HorBEnd t = HorTotal t \<and>
     YRes t = VerDisEnd t \<and> YRes t = VerBStart t \<and> YRes t \<le> VerSyncStart t \<and>
     VerSyncStart t < VerSyncEnd t \<and> VerSyncEnd t \<le> VerBEnd t \<and> VerBEnd t = VerTotal t"

text \<open>
  The refresh rate, in hundredths of a Hertz, is the clock over the size of a frame, within half a
  percent. An interlaced format shows two fields per frame; the formats of 720 pixels a line that the
  standard sends double-clocked show each at half the rate the clock would allow.
\<close>

definition rate_ok :: "nat \<Rightarrow> nat \<Rightarrow> timing_attrib \<Rightarrow> bool" where
  "rate_ok field_count repetition t \<longleftrightarrow>
     (let shown = unat (HorTotal t) * unat (VerTotal t) * unat (RefreshRate t) * repetition;
          clock = unat (PixelClock t) * 10000 * field_count
      in clock * 1000 \<le> shown * 1005 \<and> shown * 995 \<le> clock * 1000)"

definition field_count :: "hdmi_format_mtx \<Rightarrow> nat" where
  "field_count m = (if cea_interlace m = 0 then 1 else 2)"

definition double_clocked :: "nat list" where
  "double_clocked = [6, 7, 8, 9, 21, 22, 23, 24, 44, 45, 50, 51, 54, 55, 58, 59]"

definition cea_rows :: "(nat \<times> timing_attrib \<times> hdmi_format_mtx) list" where
  "cea_rows = zip [1..<112] (zip HDMIFormatTimingTbl CEAVideoFormatTable)"

definition row_rate_ok :: "nat \<times> timing_attrib \<times> hdmi_format_mtx \<Rightarrow> bool" where
  "row_rate_ok = (\<lambda>(vic, t, m).
     rate_ok (field_count m) (if vic \<in> set double_clocked then 2 else 1) t)"

definition row_code_ok :: "nat \<times> timing_attrib \<times> hdmi_format_mtx \<Rightarrow> bool" where
  "row_code_ok = (\<lambda>(vic, t, m). FormatVIC t = of_nat vic \<and> fst m = of_nat vic)"

lemma rows_codes: "filter (\<lambda>r. \<not> row_code_ok r) cea_rows = []"
  unfolding cea_rows_def HDMIFormatTimingTbl_def CEAVideoFormatTable_def
  by (simp add: upt_conv_Cons row_code_ok_def row_def)

lemma rows_geometry: "map fst (filter (\<lambda>(vic, t, m). \<not> geometry_ok t) cea_rows) = [8, 9]"
  unfolding cea_rows_def HDMIFormatTimingTbl_def CEAVideoFormatTable_def
  by (simp add: upt_conv_Cons row_def geometry_ok_def)

lemma rows_rates: "map fst (filter (\<lambda>r. \<not> row_rate_ok r) cea_rows) = [46, 77]"
  unfolding cea_rows_def HDMIFormatTimingTbl_def CEAVideoFormatTable_def
  by (simp add: upt_conv_Cons row_def row_rate_ok_def rate_ok_def field_count_def double_clocked_def Let_def)

text \<open>
  Every format of the table stands at the index its code says, with the same code in the table of
  supported formats; its geometry is in order except for the unsupported codes 8 and 9, whose blanking
  starts at the end of the line; and its refresh rate is what its clock gives except for code 46, where
  the table says 100 Hz, and code 77, where it says 120 Hz. Code 77 is offered to the user.
\<close>

theorem cea_table_consistent:
  "filter (\<lambda>r. \<not> row_code_ok r) cea_rows = [] \<and>
   map fst (filter (\<lambda>(vic, t, m). \<not> geometry_ok t) cea_rows) = [8, 9] \<and>
   map fst (filter (\<lambda>r. \<not> row_rate_ok r) cea_rows) = [46, 77] \<and>
   cea_supported (CEAVideoFormatTable ! 76) = 1 \<and>
   RefreshRate (HDMIFormatTimingTbl ! 76) = 12000"
proof -
  have "cea_supported (CEAVideoFormatTable ! 76) = 1 \<and> RefreshRate (HDMIFormatTimingTbl ! 76) = 12000"
    by (simp add: CEAVideoFormatTable_def HDMIFormatTimingTbl_def row_def)
  then show ?thesis using rows_codes rows_geometry rows_rates by blast
qed

end
