(* ===== verification/Cea_Format.thy ===== *)
theory Cea_Format
  imports Cea_Table
begin

text \<open>
  The routines of \<^verbatim>\<open>cbios/Util/CBiosEDID.c\<close> that scale and match the refresh rate of a CEA-861
  format and that decode the short video descriptors of an extension block.
\<close>

section \<open>Fractional refresh rates\<close>

definition cbGetCEAFractRRClock :: "u32 \<Rightarrow> u32" where
  "cbGetCEAFractRRClock OriClock = cbRound (OriClock * 100) 1001 ROUND_NEAREST * 10"

definition cbGetCEAFractRefrate :: "u32 \<Rightarrow> u32" where
  "cbGetCEAFractRefrate OriRefrate =
     (if OriRefrate mod 600 \<noteq> 0 then 0 else cbRound (OriRefrate * 1000) 1001 ROUND_NEAREST)"

definition cbIsCeaNTSCCompatMode :: "timing_attrib \<Rightarrow> bool" where
  "cbIsCeaNTSCCompatMode t \<longleftrightarrow> FormatVIC t \<noteq> 0 \<and> (YRes t = 240 \<or> YRes t = 480)"

text \<open>
  The refresh rate and clock of the mode that differs by a factor of 1000/1001; \<open>None\<close> where the
  code returns \<^verbatim>\<open>CBIOS_FALSE\<close>. A null output pointer drops that component.
\<close>

definition cbEdidModule_IsEquivalentModeExist :: "u16 \<Rightarrow> (u32 \<times> u32) option" where
  "cbEdidModule_IsEquivalentModeExist VIC =
     (let t = HDMIFormatTimingTbl ! (unat VIC - 1)
      in if VIC = 0 \<or> cbGetCEAFractRefrate (ucast (RefreshRate t)) = 0 then None
         else if cbIsCeaNTSCCompatMode t then Some (ucast (RefreshRate t), PixelClock t)
         else Some (cbGetCEAFractRefrate (ucast (RefreshRate t)),
                    cbGetCEAFractRRClock (PixelClock t)))"

definition cbGetDiff :: "u16 \<Rightarrow> u16 \<Rightarrow> u32" where
  "cbGetDiff a b = (if b < a then ucast a - ucast b else ucast b - ucast a)"

definition cbEdidModule_IsRefreshInCEARange :: "u16 \<Rightarrow> u16 \<Rightarrow> (u16 \<times> u32) option" where
  "cbEdidModule_IsRefreshInCEARange RefrashRate VIC =
     (if VIC = 0 \<or> CBIOS_HDMIFORMATCOUNTS < unat VIC \<or> RefrashRate = 0 then None
      else
        let t = HDMIFormatTimingTbl ! (unat VIC - 1);
            FractRefRate = ucast (cbGetCEAFractRefrate (ucast (RefreshRate t))) :: u16;
            IntRefRate = RefreshRate t;
            RefValue = (if FractRefRate = 0 \<or>
                           (ucast FractRefRate + ucast IntRefRate) div 2 < (ucast RefrashRate :: u32)
                        then IntRefRate else FractRefRate)
        in if RefValue = 0 then None
           else if cbGetDiff RefrashRate RefValue * 1000 div ucast RefValue \<le> 5
           then Some (if RefValue = IntRefRate then IntRefRate else FractRefRate,
                      if RefValue = IntRefRate then PixelClock t
                      else cbGetCEAFractRRClock (PixelClock t))
           else None)"

lemma nearest_div:
  assumes "0 < (d :: nat)"
  shows "(2 * n + d) div (2 * d) = (if d \<le> 2 * (n mod d) then n div d + 1 else n div d)"
proof -
  obtain q r where n: "n = d * q + r" and r: "r < d"
    using assms by (metis mult_div_mod_eq mod_less_divisor)
  have e: "2 * n + d = (2 * r + d) + q * (2 * d)" by (simp add: n algebra_simps)
  have "(2 * n + d) div (2 * d) = (2 * r + d) div (2 * d) + q"
    unfolding e using assms by (simp add: div_mult_self1)
  also have "(2 * r + d) div (2 * d) = (if d \<le> 2 * r then 1 else 0)"
    using r by (auto intro: div_nat_eqI)
  finally show ?thesis using r assms by (simp add: n)
qed

lemma cbRound_nearest:
  assumes "0 < unat d" "unat n < 2 ^ 31" "unat d < 2 ^ 31"
  shows "unat (cbRound n d ROUND_NEAREST) = (2 * unat n + unat d) div (2 * unat d)"
proof -
  let ?q = "unat n div unat d" and ?r = "unat n mod unat d"
  have r: "?r < unat d" using assms(1) by simp
  have q: "?q < 2 ^ 31" using assms(2) by (meson div_le_dividend le_less_trans)
  have dm: "d \<noteq> 0" using assms(1) by auto
  have cmp: "d \<le> n mod d * 2 \<longleftrightarrow> unat d \<le> 2 * ?r"
    using r assms(3) by (simp add: word_le_nat_alt unat_word_ariths unat_mod mult.commute)
  show ?thesis unfolding nearest_div [OF assms(1)] cbRound_def using dm cmp q
    by (simp add: Let_def unat_word_ariths unat_div)
qed

text \<open>The reference: a rate or clock scaled by 1000/1001, to the nearest unit.\<close>

definition ntsc :: "nat \<Rightarrow> nat" where "ntsc r = (2000 * r + 1001) div 2002"

lemma cbGetCEAFractRefrate_ntsc:
  "unat (cbGetCEAFractRefrate (ucast (r :: u16))) = (if 600 dvd unat r then ntsc (unat r) else 0)"
proof -
  have r: "unat r < 65536" using unsigned_less [where 'a = nat, of r] by simp
  have u: "unat (ucast r * 1000 :: u32) = 1000 * unat r"
    using r by (simp add: unat_word_ariths unsigned_ucast_eq take_bit_nat_eq_self)
  have m: "(ucast r :: u32) mod 600 = 0 \<longleftrightarrow> 600 dvd unat r"
    using r by (simp add: word_unat_eq_iff unat_mod unsigned_ucast_eq take_bit_nat_eq_self mod_eq_0_iff_dvd)
  show ?thesis
    using cbRound_nearest [of 1001 "ucast r * 1000"] r
    by (simp add: cbGetCEAFractRefrate_def m u ntsc_def)
qed

lemma ntsc_less: "600 dvd r \<Longrightarrow> 0 < r \<Longrightarrow> 0 < ntsc r \<and> ntsc r < r"
  by (auto simp: ntsc_def elim!: dvdE)

lemma unat_u16_u32 [simp]: "unat (ucast (r :: u16) :: u32) = unat r"
  using unsigned_less [where 'a = nat, of r]
  by (simp add: unsigned_ucast_eq take_bit_nat_eq_self)

lemma unat_cbGetDiff:
  "unat (cbGetDiff a b) = (if unat b < unat a then unat a - unat b else unat b - unat a)"
  by (simp add: cbGetDiff_def word_less_nat_alt unat_sub word_le_nat_alt)

lemma within_range_iff:
  assumes "v \<noteq> 0"
  shows "cbGetDiff r v * 1000 div ucast v \<le> 5 \<longleftrightarrow> unat (cbGetDiff r v) * 1000 < 6 * unat v"
proof -
  have r: "unat r < 65536" "unat v < 65536"
    using unsigned_less [where 'a = nat, of r] unsigned_less [where 'a = nat, of v] by simp_all
  have v: "0 < unat v" using assms by (simp add: unat_gt_0)
  have d: "unat (cbGetDiff r v) < 65536" using r by (auto simp: unat_cbGetDiff)
  have "unat (cbGetDiff r v * 1000 div ucast v) = unat (cbGetDiff r v) * 1000 div unat v"
    using d by (simp add: unat_div unat_word_ariths)
  then have "cbGetDiff r v * 1000 div ucast v \<le> 5 \<longleftrightarrow> unat (cbGetDiff r v) * 1000 div unat v < 6"
    by (simp add: word_le_nat_alt) arith
  then show ?thesis using v by (simp add: div_less_iff_less_mult)
qed

text \<open>The two rates a format may be shown at, with their clocks, the nominal one first.\<close>

definition cea_rates :: "timing_attrib \<Rightarrow> (nat \<times> u32) list" where
  "cea_rates t =
     (unat (RefreshRate t), PixelClock t) #
     (if 600 dvd unat (RefreshRate t) \<and> RefreshRate t \<noteq> 0
      then [(ntsc (unat (RefreshRate t)), cbGetCEAFractRRClock (PixelClock t))] else [])"

definition close_to :: "nat \<Rightarrow> nat \<Rightarrow> bool" where
  "close_to r v \<longleftrightarrow> (if v < r then r - v else v - r) * 1000 < 6 * v"

lemma fract_u16:
  "unat (ucast (cbGetCEAFractRefrate (ucast (r :: u16))) :: u16) =
     (if 600 dvd unat r \<and> r \<noteq> 0 then ntsc (unat r) else 0)"
proof -
  have r: "unat r < 65536" using unsigned_less [where 'a = nat, of r] by simp
  have "unat (cbGetCEAFractRefrate (ucast r)) = (if 600 dvd unat r \<and> r \<noteq> 0 then ntsc (unat r) else 0)"
    by (auto simp: cbGetCEAFractRefrate_ntsc ntsc_def)
  moreover have "ntsc (unat r) < 65536" if "600 dvd unat r" "r \<noteq> 0"
    using ntsc_less [OF that(1)] that(2) r by (simp add: unat_gt_0)
  ultimately show ?thesis
    by (simp add: unsigned_ucast_eq take_bit_nat_eq_self)
qed

lemma unat_mean: "unat ((ucast (a :: u16) + ucast (b :: u16) :: u32) div 2) = (unat a + unat b) div 2"
proof -
  have "unat a < 65536" "unat b < 65536"
    using unsigned_less [where 'a = nat, of a] unsigned_less [where 'a = nat, of b] by simp_all
  then show ?thesis by (simp add: unat_div unat_word_ariths)
qed

lemma mean_less: "unat a < unat b \<Longrightarrow> (ucast (a :: u16) + ucast (b :: u16) :: u32) div 2 < ucast b"
  by (simp add: word_less_nat_alt unat_mean)

lemma mean_not_less:
  "unat a < unat b \<Longrightarrow> \<not> (ucast (a :: u16) + ucast (b :: u16) :: u32) div 2 < ucast a"
  by (simp add: word_less_nat_alt unat_mean)

text \<open>The rate that a measured rate is compared with.\<close>

definition ref_value :: "u16 \<Rightarrow> timing_attrib \<Rightarrow> u16" where
  "ref_value r t =
     (let f = ucast (cbGetCEAFractRefrate (ucast (RefreshRate t))) :: u16
      in if f = 0 \<or> (ucast f + ucast (RefreshRate t)) div 2 < (ucast r :: u32)
         then RefreshRate t else f)"

lemma ref_value_cases:
  "ref_value r t = RefreshRate t \<or>
     600 dvd unat (RefreshRate t) \<and> RefreshRate t \<noteq> 0 \<and>
     unat (ref_value r t) = ntsc (unat (RefreshRate t))"
proof -
  define f where "f = (ucast (cbGetCEAFractRefrate (ucast (RefreshRate t))) :: u16)"
  have f: "unat f = (if 600 dvd unat (RefreshRate t) \<and> RefreshRate t \<noteq> 0
      then ntsc (unat (RefreshRate t)) else 0)"
    unfolding f_def by (rule fract_u16)
  have "ref_value r t = RefreshRate t \<or> ref_value r t = f \<and> unat f \<noteq> 0"
    unfolding ref_value_def Let_def f_def [symmetric] by (simp add: unat_eq_0)
  then show ?thesis using f by (auto split: if_splits)
qed

lemma IsRefreshInCEARange_ref:
  assumes "VIC \<noteq> 0" "unat VIC \<le> 111" "ref_value r (HDMIFormatTimingTbl ! (unat VIC - 1)) \<noteq> 0"
  shows "cbEdidModule_IsRefreshInCEARange r VIC =
    (let t = HDMIFormatTimingTbl ! (unat VIC - 1); v = ref_value r t
     in if r \<noteq> 0 \<and> close_to (unat r) (unat v)
        then Some (v, if v = RefreshRate t then PixelClock t
                      else cbGetCEAFractRRClock (PixelClock t))
        else None)"
proof -
  define t where "t = HDMIFormatTimingTbl ! (unat VIC - 1)"
  define v where "v = ref_value r t"
  define f where "f = (ucast (cbGetCEAFractRefrate (ucast (RefreshRate t))) :: u16)"
  have v: "v = (if f = 0 \<or> (ucast f + ucast (RefreshRate t)) div 2 < (ucast r :: u32)
      then RefreshRate t else f)"
    by (simp add: v_def ref_value_def f_def Let_def)
  have v0: "v \<noteq> 0" using assms(3) by (simp add: v_def t_def)
  have "cbEdidModule_IsRefreshInCEARange r VIC =
    (if r = 0 then None
     else if cbGetDiff r v * 1000 div ucast v \<le> 5
     then Some (if v = RefreshRate t then RefreshRate t else f,
                if v = RefreshRate t then PixelClock t else cbGetCEAFractRRClock (PixelClock t))
     else None)"
    using assms(1,2) v0
    unfolding cbEdidModule_IsRefreshInCEARange_def Let_def t_def [symmetric] f_def [symmetric]
      v [symmetric] CBIOS_HDMIFORMATCOUNTS_def CBIOS_HDMI_NORMAL_VIC_COUNTS_def
    by simp
  moreover have "v \<noteq> RefreshRate t \<Longrightarrow> v = f" using v by (simp split: if_splits)
  moreover have "cbGetDiff r v * 1000 div ucast v \<le> 5 \<longleftrightarrow> close_to (unat r) (unat v)"
    unfolding within_range_iff [OF v0] close_to_def unat_cbGetDiff by simp
  ultimately show ?thesis
    unfolding t_def [symmetric] v_def [symmetric] Let_def by simp
qed

lemma ref_value_self:
  assumes "RefreshRate t \<noteq> 0"
  shows "ref_value (RefreshRate t) t = RefreshRate t"
proof -
  define f where "f = (ucast (cbGetCEAFractRefrate (ucast (RefreshRate t))) :: u16)"
  have f: "unat f = (if 600 dvd unat (RefreshRate t) \<and> RefreshRate t \<noteq> 0
      then ntsc (unat (RefreshRate t)) else 0)"
    unfolding f_def by (rule fract_u16)
  have "unat f = 0 \<or> unat f < unat (RefreshRate t)"
    using f ntsc_less [of "unat (RefreshRate t)"] assms by (simp add: unat_gt_0)
  then have "f = 0 \<or> unat f < unat (RefreshRate t)" by (simp only: unat_eq_0)
  then show ?thesis
    unfolding ref_value_def Let_def f_def [symmetric] by (auto simp: mean_less)
qed

lemma ref_value_fract:
  assumes "600 dvd unat (RefreshRate t)" "RefreshRate t \<noteq> 0"
  shows "ref_value (of_nat (ntsc (unat (RefreshRate t)))) t = of_nat (ntsc (unat (RefreshRate t)))"
proof -
  define f where "f = (ucast (cbGetCEAFractRefrate (ucast (RefreshRate t))) :: u16)"
  have f: "unat f = ntsc (unat (RefreshRate t))"
    unfolding f_def using fract_u16 [of "RefreshRate t"] assms by simp
  have pos: "0 < unat f" and less: "unat f < unat (RefreshRate t)"
    using ntsc_less [OF assms(1)] assms(2) unfolding f by (simp_all add: unat_gt_0)
  have again: "of_nat (ntsc (unat (RefreshRate t))) = f" unfolding f [symmetric] by simp
  have "f \<noteq> 0" using pos by auto
  then show ?thesis
    unfolding ref_value_def Let_def f_def [symmetric] again using mean_not_less [OF less] by simp
qed

text \<open>
  Matching a measured refresh rate to a format: an answer is one of the format's two rates with
  that rate's clock, and the measured rate lies within 0.6 percent of it; and the nominal and the
  fractional rate themselves are always recognised as what they are.
\<close>

theorem cea_refresh_match:
  assumes vic: "VIC \<noteq> 0" "unat VIC \<le> 111" and rate: "RefreshRate t \<noteq> 0"
    and t: "t = HDMIFormatTimingTbl ! (unat VIC - 1)"
  shows "(\<forall>r r' c. cbEdidModule_IsRefreshInCEARange r VIC = Some (r', c) \<longrightarrow>
      (unat r', c) \<in> set (cea_rates t) \<and> close_to (unat r) (unat r')) \<and>
    (\<forall>(v, c) \<in> set (cea_rates t).
      cbEdidModule_IsRefreshInCEARange (of_nat v) VIC = Some (of_nat v, c))"
proof (intro conjI allI impI)
  fix r r' c
  assume some: "cbEdidModule_IsRefreshInCEARange r VIC = Some (r', c)"
  have v0: "ref_value r t \<noteq> 0"
    using ref_value_cases [of r t] rate ntsc_less [of "unat (RefreshRate t)"]
    by (auto simp: unat_gt_0)
  note range = IsRefreshInCEARange_ref [OF vic, of r, folded t, OF v0]
  show "(unat r', c) \<in> set (cea_rates t)"
    using some ref_value_cases [of r t] unfolding range
    by (auto simp: cea_rates_def Let_def split: if_splits)
  show "close_to (unat r) (unat r')"
    using some unfolding range by (auto simp: Let_def split: if_splits)
next
  show "\<forall>(v, c) \<in> set (cea_rates t).
      cbEdidModule_IsRefreshInCEARange (of_nat v) VIC = Some (of_nat v, c)"
  proof (clarify)
    fix v c
    assume "(v, c) \<in> set (cea_rates t)"
    then consider "v = unat (RefreshRate t)" "c = PixelClock t"
      | "600 dvd unat (RefreshRate t)" "v = ntsc (unat (RefreshRate t))"
        "c = cbGetCEAFractRRClock (PixelClock t)"
      by (auto simp: cea_rates_def split: if_splits)
    then show "cbEdidModule_IsRefreshInCEARange (of_nat v) VIC = Some (of_nat v, c)"
    proof cases
      case 1
      then show ?thesis
        using IsRefreshInCEARange_ref [OF vic, of "RefreshRate t", folded t] ref_value_self [OF rate]
          rate by (simp add: close_to_def Let_def unat_gt_0)
    next
      case 2
      have b: "v < 65536" "0 < v" "v < unat (RefreshRate t)"
        using ntsc_less [OF 2(1)] rate 2(2) unsigned_less [where 'a = nat, of "RefreshRate t"]
        by (simp_all add: unat_gt_0)
      then have u: "unat (of_nat v :: u16) = v" by (simp add: unat_of_nat)
      then have "of_nat v \<noteq> (0 :: u16)" "of_nat v \<noteq> RefreshRate t" using b by auto
      note u = u this
      show ?thesis
        using IsRefreshInCEARange_ref [OF vic, of "of_nat v", folded t] ref_value_fract [OF 2(1) rate]
          2 u b(2) by (simp add: close_to_def Let_def)
    qed
  qed
qed

lemma cea_refresh_match_witness:
  "cbEdidModule_IsRefreshInCEARange 6000 16 = Some (6000, 1485000) \<and>
   cbEdidModule_IsRefreshInCEARange 5994 16 = Some (5994, 1483520)"
proof -
  let ?t = "HDMIFormatTimingTbl ! 15"
  have row: "RefreshRate ?t = 6000" "PixelClock ?t = 1485000"
    by (simp_all add: HDMIFormatTimingTbl_def row_def)
  have clk: "cbGetCEAFractRRClock 1485000 = 1483520" by code_simp
  have rates: "cea_rates ?t = [(6000, 1485000), (5994, 1483520)]"
    unfolding cea_rates_def row clk by (simp add: ntsc_def)
  have "\<forall>(v, c) \<in> set (cea_rates ?t).
      cbEdidModule_IsRefreshInCEARange (of_nat v) 16 = Some (of_nat v, c)"
    by (rule cea_refresh_match [of 16 ?t, THEN conjunct2]) (simp_all add: row)
  then show ?thesis unfolding rates by simp
qed

section \<open>Short video descriptors\<close>

text \<open>
  The result, the format code and the native flag. A reserved descriptor leaves the code as the
  caller passed it.
\<close>

definition cbEDIDModule_GetFmtIdxFromSVD :: "u8 \<Rightarrow> u8 \<Rightarrow> bool \<times> u8 \<times> bool" where
  "cbEDIDModule_GetFmtIdxFromSVD SVD FormatIdx =
     (let (ok, idx, native) =
        (if 1 \<le> SVD \<and> SVD \<le> 64 then (True, SVD AND 0x7F, False)
         else if 65 \<le> SVD \<and> SVD \<le> 127 then (True, SVD, False)
         else if 129 \<le> SVD \<and> SVD \<le> 192 then (True, SVD AND 0x7F, True)
         else if 193 \<le> SVD \<and> SVD \<le> 253 then (True, SVD, False)
         else (False, FormatIdx, False))
      in (if idx = 0 \<or> CBIOS_HDMI_NORMAL_VIC_COUNTS < unat idx then False else ok, idx, native))"

lemma and_7F: "unat ((x :: u8) AND 0x7F) = unat x mod 128"
proof -
  have "x AND 0x7F = take_bit 7 x" by (simp add: take_bit_eq_mask mask_eq_exp_minus_1)
  then show ?thesis by (simp add: unsigned_take_bit_eq take_bit_eq_mod unat_mod)
qed

text \<open>
  Decoding a short video descriptor: it is accepted exactly when it is a format code of the table,
  plain for codes up to 107 or with the native bit for codes up to 64; the code it yields then always
  indexes both tables, so the rest of the parser never reads past them.
\<close>

theorem svd_decodes_to_table_index:
  "(case cbEDIDModule_GetFmtIdxFromSVD svd idx of (ok, fmt, native) \<Rightarrow>
     (ok \<longleftrightarrow> 1 \<le> unat svd \<and> unat svd \<le> 107 \<or> 129 \<le> unat svd \<and> unat svd \<le> 192) \<and>
     (if ok then unat fmt = (if native then unat svd - 128 else unat svd) \<and>
                 (native \<longleftrightarrow> 128 < unat svd) \<and>
                 unat fmt - 1 < length HDMIFormatTimingTbl \<and>
                 unat fmt - 1 < length CEAVideoFormatTable
      else True))"
proof -
  have b: "unat svd < 256" using unsigned_less [where 'a = nat, of svd] by simp
  have m1: "unat (svd AND 0x7F) = unat svd" if "unat svd < 128" using that by (simp add: and_7F)
  have m2: "unat (svd AND 0x7F) = unat svd - 128" if "128 \<le> unat svd"
    using that b by (simp add: and_7F mod_if)
  show ?thesis
    using b m1 m2
    by (auto simp: cbEDIDModule_GetFmtIdxFromSVD_def CBIOS_HDMI_NORMAL_VIC_COUNTS_def word_le_nat_alt
        length_HDMIFormatTimingTbl length_CEAVideoFormatTable word_unat_eq_iff Let_def)
qed

end
