(* ===== verification/Cea_Vendor.thy ===== *)
theory Cea_Vendor
  imports Edid
begin

text \<open>
  The two data blocks of a CEA extension that say what an HDMI sink can do
  (\<^verbatim>\<open>cbEDIDModule_ParseHDMIVSDB\<close> and \<^verbatim>\<open>cbEDIDModule_ParseHFSCDS\<close> of \<^verbatim>\<open>cbios/Util/CBiosEDID.c\<close>).

  A parser moves a pointer over the bytes of the block and counts what it has consumed; the pointer is
  always one byte, the tag, ahead of the count, so the count alone is kept. Every \<^verbatim>\<open>goto VSDB_DONE\<close> is
  the left side of a sum: a stage either ends the block or hands its state on.
\<close>

section \<open>The HDMI vendor specific data block\<close>

definition VENDOR_SPECIFIC_DATA_BLOCK_TAG :: u8 where "VENDOR_SPECIFIC_DATA_BLOCK_TAG = 3"
definition CBIOS_HDMI_EXTENED_VIC_COUNTS :: u8 where "CBIOS_HDMI_EXTENED_VIC_COUNTS = 4"
definition MAX_HDMI_VIC_LEN :: nat where "MAX_HDMI_VIC_LEN = 7"
definition MAX_HDMI_3D_LEN :: nat where "MAX_HDMI_3D_LEN = 31"

record hdmi_3d_format =
  HDMI3DStructure :: u8
  HDMI2DVICOrder :: u8
  HDMI3DDetail :: u8

record hdmi_vsdb =
  VSDBLength :: u8
  VSDBTag :: u8
  RegistrationID :: "u8 \<times> u8 \<times> u8"
  SourcePhyAddr :: u16
  SupportCaps :: u8
  MaxTMDSClock :: u16
  PresentFlags :: u8
  VideoLatency :: u8
  AudioLatency :: u8
  InterlacedVideoLatency :: u8
  InterlacedAudioLatency :: u8
  HDMI3DPresentFlags :: u8
  HDMI3DLen :: u8
  HDMIVICLen :: u8
  HDMIVIC :: "u8 list"
  HDMI3DStructAll :: u16
  HDMI3DMask :: u16
  HDMI3DForamt :: "hdmi_3d_format list"
  HDMI3DFormatCount :: u32

text \<open>The bit fields of the flag bytes.\<close>

definition HDMIVideoPresent :: "hdmi_vsdb \<Rightarrow> bool" where "HDMIVideoPresent v = bit (PresentFlags v) 5"
definition ILatencyFieldsPresent :: "hdmi_vsdb \<Rightarrow> bool" where "ILatencyFieldsPresent v = bit (PresentFlags v) 6"
definition LatencyFieldsPresent :: "hdmi_vsdb \<Rightarrow> bool" where "LatencyFieldsPresent v = bit (PresentFlags v) 7"
definition HDMI3DMultiPresent :: "hdmi_vsdb \<Rightarrow> u8" where
  "HDMI3DMultiPresent v = drop_bit 5 (HDMI3DPresentFlags v) AND 0x3"

definition zero_3d_format :: hdmi_3d_format where
  "zero_3d_format = \<lparr>HDMI3DStructure = 0, HDMI2DVICOrder = 0, HDMI3DDetail = 0\<rparr>"

definition zero_vsdb :: hdmi_vsdb where
  "zero_vsdb = \<lparr>VSDBLength = 0, VSDBTag = 0, RegistrationID = (0, 0, 0), SourcePhyAddr = 0, SupportCaps = 0,
     MaxTMDSClock = 0, PresentFlags = 0, VideoLatency = 0, AudioLatency = 0, InterlacedVideoLatency = 0,
     InterlacedAudioLatency = 0, HDMI3DPresentFlags = 0, HDMI3DLen = 0, HDMIVICLen = 0,
     HDMIVIC = replicate MAX_HDMI_VIC_LEN 0, HDMI3DStructAll = 0, HDMI3DMask = 0,
     HDMI3DForamt = replicate MAX_HDMI_3D_LEN zero_3d_format, HDMI3DFormatCount = 0\<rparr>"

text \<open>\<^verbatim>\<open>PayloadLen += n; if (PayloadLen >= VSDBLength) goto VSDB_DONE\<close>.\<close>

type_synonym vsdb_state = "hdmi_vsdb \<times> nat"

definition paid :: "nat \<Rightarrow> vsdb_state \<Rightarrow> hdmi_vsdb + vsdb_state" where
  "paid n = (\<lambda>(v, len). if unat (VSDBLength v) \<le> len + n then Inl v else Inr (v, len + n))"

fun and_then :: "'d + 'a \<Rightarrow> ('a \<Rightarrow> 'd + 'b) \<Rightarrow> 'd + 'b" where
  "and_then (Inl v) f = Inl v"
| "and_then (Inr s) f = f s"

definition be16 :: "u8 \<Rightarrow> u8 \<Rightarrow> u16" where "be16 dataHigh dataLow = push_bit 8 (ucast dataHigh) OR ucast dataLow"

definition vsdb_header :: "u8 list \<Rightarrow> hdmi_vsdb \<Rightarrow> hdmi_vsdb + vsdb_state" where
  "vsdb_header d v = paid 5 (v\<lparr>RegistrationID := (d ! 1, d ! 2, d ! 3), SourcePhyAddr := be16 (d ! 4) (d ! 5)\<rparr>, 0)"

definition vsdb_caps :: "u8 list \<Rightarrow> vsdb_state \<Rightarrow> hdmi_vsdb + vsdb_state" where
  "vsdb_caps d = (\<lambda>(v, n). paid 1 (v\<lparr>SupportCaps := d ! (1 + n)\<rparr>, n))"

definition vsdb_clock :: "u8 list \<Rightarrow> vsdb_state \<Rightarrow> hdmi_vsdb + vsdb_state" where
  "vsdb_clock d = (\<lambda>(v, n). paid 1 (v\<lparr>MaxTMDSClock := ucast (d ! (1 + n)) * 5\<rparr>, n))"

definition vsdb_flags :: "u8 list \<Rightarrow> vsdb_state \<Rightarrow> hdmi_vsdb + vsdb_state" where
  "vsdb_flags d = (\<lambda>(v, n). paid 1 (v\<lparr>PresentFlags := d ! (1 + n)\<rparr>, n))"

definition vsdb_latency :: "u8 list \<Rightarrow> vsdb_state \<Rightarrow> hdmi_vsdb + vsdb_state" where
  "vsdb_latency d = (\<lambda>(v, n).
     if LatencyFieldsPresent v
     then paid 2 (v\<lparr>VideoLatency := d ! (1 + n), AudioLatency := d ! (2 + n)\<rparr>, n)
     else Inr (v\<lparr>VideoLatency := 0, AudioLatency := 0\<rparr>, n))"

definition vsdb_ilatency :: "u8 list \<Rightarrow> vsdb_state \<Rightarrow> hdmi_vsdb + vsdb_state" where
  "vsdb_ilatency d = (\<lambda>(v, n).
     if ILatencyFieldsPresent v
     then paid 2 (v\<lparr>InterlacedVideoLatency := d ! (1 + n), InterlacedAudioLatency := d ! (2 + n)\<rparr>, n)
     else Inr (v\<lparr>InterlacedVideoLatency := 0, InterlacedAudioLatency := 0\<rparr>, n))"

definition video_flags :: "u8 list \<Rightarrow> vsdb_state \<Rightarrow> hdmi_vsdb + vsdb_state" where
  "video_flags d = (\<lambda>(v, n). paid 1 (v\<lparr>HDMI3DPresentFlags := d ! (1 + n)\<rparr>, n))"

definition video_lens :: "u8 list \<Rightarrow> vsdb_state \<Rightarrow> hdmi_vsdb + vsdb_state" where
  "video_lens d = (\<lambda>(v, n).
     paid 1 (v\<lparr>HDMI3DLen := d ! (1 + n) AND 0x1F, HDMIVICLen := drop_bit 5 (d ! (1 + n)) AND 0x07\<rparr>, n))"

text \<open>The loop over the extended formats: what is recorded, and how many.\<close>

fun vic_loop :: "u8 list \<Rightarrow> u8 list \<times> nat \<Rightarrow> u8 list \<times> nat" where
  "vic_loop [] s = s"
| "vic_loop (b # bs) (vics, ExtVICCnt) =
     vic_loop bs (if 1 \<le> b \<and> b \<le> CBIOS_HDMI_EXTENED_VIC_COUNTS then (vics[ExtVICCnt := b], ExtVICCnt + 1)
                  else (vics, ExtVICCnt))"

definition video_vics :: "u8 list \<Rightarrow> vsdb_state \<Rightarrow> hdmi_vsdb + vsdb_state" where
  "video_vics d = (\<lambda>(v, n).
     let len = unat (HDMIVICLen v);
         (vics, ExtVICCnt) = vic_loop (map (\<lambda>i. d ! (1 + n + i)) [0..<len]) (HDMIVIC v, 0)
     in paid len (v\<lparr>HDMIVIC := vics, HDMIVICLen := of_nat ExtVICCnt\<rparr>, n))"

text \<open>The masks over the first sixteen formats, and what is left of the length of the 3D part.\<close>

definition video_all :: "u8 list \<Rightarrow> vsdb_state \<Rightarrow> hdmi_vsdb + (vsdb_state \<times> u32)" where
  "video_all d = (\<lambda>(v, n).
     let HDMI3DFormatLength = ucast (HDMI3DLen v)
     in if HDMI3DMultiPresent v = 0x01 then
          and_then (paid 2 (v\<lparr>HDMI3DStructAll := be16 (d ! (1 + n)) (d ! (2 + n)), HDMI3DMask := 0xFFFF\<rparr>, n))
            (\<lambda>s. Inr (s, HDMI3DFormatLength - 2))
        else if HDMI3DMultiPresent v = 0x02 then
          and_then (paid 4 (v\<lparr>HDMI3DStructAll := be16 (d ! (1 + n)) (d ! (2 + n)),
                            HDMI3DMask := be16 (d ! (3 + n)) (d ! (4 + n))\<rparr>, n))
            (\<lambda>s. Inr (s, HDMI3DFormatLength - 4))
        else Inr ((v\<lparr>HDMI3DStructAll := 0, HDMI3DMask := 0xFFFF\<rparr>, n), HDMI3DFormatLength))"

function formats_loop :: "u8 list \<Rightarrow> nat \<Rightarrow> nat \<Rightarrow> nat \<Rightarrow> hdmi_3d_format list \<times> nat \<Rightarrow> hdmi_3d_format list \<times> nat" where
  "formats_loop d pos i len (fs, cnt) =
     (if i < len then
        let f = (fs ! cnt)\<lparr>HDMI2DVICOrder := drop_bit 4 (d ! pos) AND 0x0F, HDMI3DStructure := d ! pos AND 0x0F\<rparr>
        in if 0x08 \<le> HDMI3DStructure f then
             formats_loop d (pos + 2) (i + 2) len
               (fs[cnt := f\<lparr>HDMI3DDetail := drop_bit 4 (d ! (pos + 1)) AND 0x0F\<rparr>], cnt + 1)
           else formats_loop d (pos + 1) (i + 1) len (fs[cnt := f], cnt + 1)
      else (fs, cnt))"
  by pat_completeness auto
termination
  by (relation "measure (\<lambda>(d, pos, i, len, s). len - i)") auto

declare formats_loop.simps [simp del]

definition video_formats :: "u8 list \<Rightarrow> vsdb_state \<times> u32 \<Rightarrow> hdmi_vsdb + vsdb_state" where
  "video_formats d = (\<lambda>((v, n), HDMI3DFormatLength).
     if ucast (HDMI3DLen v) < HDMI3DFormatLength then Inr (v, n)
     else
       let (fs, cnt) = formats_loop d (1 + n) 0 (unat HDMI3DFormatLength) (HDMI3DForamt v, 0)
       in paid (unat HDMI3DFormatLength) (v\<lparr>HDMI3DForamt := fs, HDMI3DFormatCount := of_nat cnt\<rparr>, n))"

definition vsdb_video :: "u8 list \<Rightarrow> vsdb_state \<Rightarrow> hdmi_vsdb + vsdb_state" where
  "vsdb_video d s =
     (if HDMIVideoPresent (fst s)
      then and_then (and_then (and_then (and_then (video_flags d s) (video_lens d)) (video_vics d)) (video_all d))
             (video_formats d)
      else Inr s)"

definition vsdb_body :: "u8 list \<Rightarrow> hdmi_vsdb \<Rightarrow> hdmi_vsdb + vsdb_state" where
  "vsdb_body d v =
     and_then (and_then (and_then (and_then (and_then (and_then (vsdb_header d v) (vsdb_caps d)) (vsdb_clock d))
       (vsdb_flags d)) (vsdb_latency d)) (vsdb_ilatency d)) (vsdb_video d)"

definition reached :: "hdmi_vsdb + vsdb_state \<Rightarrow> hdmi_vsdb" where
  "reached r = (case r of Inl v \<Rightarrow> v | Inr (v, n) \<Rightarrow> v)"

definition cbEDIDModule_ParseHDMIVSDB :: "u8 list option \<Rightarrow> hdmi_vsdb option \<Rightarrow> nat \<times> hdmi_vsdb option" where
  "cbEDIDModule_ParseHDMIVSDB pVSDBDataInEDID pVSDBData =
     (case (pVSDBDataInEDID, pVSDBData) of
        (Some d, Some old) \<Rightarrow>
          let v = zero_vsdb\<lparr>HDMI3DMask := 0xFFFF, VSDBLength := d ! 0 AND 0x1F, VSDBTag := drop_bit 5 (d ! 0)\<rparr>;
              v = (if VSDBTag v \<noteq> VENDOR_SPECIFIC_DATA_BLOCK_TAG \<or> VSDBLength v < 5 then v\<lparr>VSDBLength := 0\<rparr>
                   else reached (vsdb_body d v))
          in (unat (VSDBLength v) + 1, Some v)
      | _ \<Rightarrow> (0, pVSDBData))"


section \<open>Whatever the block says\<close>

text \<open>
  The record as its declaration has it: the arrays keep their lengths, their counters stay within them,
  and no code is recorded beyond those the driver has timings for.
\<close>

definition vsdb_shape :: "hdmi_vsdb \<Rightarrow> bool" where
  "vsdb_shape v \<longleftrightarrow> length (HDMIVIC v) = MAX_HDMI_VIC_LEN \<and> length (HDMI3DForamt v) = MAX_HDMI_3D_LEN \<and>
     HDMIVICLen v \<le> 7 \<and> HDMI3DLen v \<le> 31 \<and> HDMI3DFormatCount v \<le> 31 \<and>
     (\<forall>b \<in> set (HDMIVIC v). b \<le> CBIOS_HDMI_EXTENED_VIC_COUNTS)"

lemma vic_loop_props:
  assumes "cnt + length bs \<le> length vics" "\<forall>b \<in> set vics. b \<le> CBIOS_HDMI_EXTENED_VIC_COUNTS"
    "vic_loop bs (vics, cnt) = (vics', cnt')"
  shows "length vics' = length vics \<and> cnt' \<le> cnt + length bs \<and> (\<forall>b \<in> set vics'. b \<le> CBIOS_HDMI_EXTENED_VIC_COUNTS)"
  using assms
proof (induction bs arbitrary: vics cnt)
  case (Cons b bs)
  show ?case
  proof (cases "1 \<le> b \<and> b \<le> CBIOS_HDMI_EXTENED_VIC_COUNTS")
    case True
    then have "\<forall>b \<in> set (vics[cnt := b]). b \<le> CBIOS_HDMI_EXTENED_VIC_COUNTS"
      using Cons.prems(2) set_update_subset_insert [of vics cnt b] by auto
    then show ?thesis using Cons.IH [of "cnt + 1" "vics[cnt := b]"] Cons.prems True by auto
  next
    case False
    then show ?thesis using Cons.IH [of cnt vics] Cons.prems by auto
  qed
qed simp

lemma formats_loop_props:
  "formats_loop d pos i len s = (fs', cnt') \<Longrightarrow> snd s + (len - i) \<le> length (fst s) \<Longrightarrow>
     length fs' = length (fst s) \<and> cnt' \<le> snd s + (len - i)"
proof (induction d pos i len s arbitrary: fs' cnt' rule: formats_loop.induct)
  case (1 d pos i len fs cnt)
  show ?case
  proof (cases "i < len")
    case False
    then show ?thesis using "1.prems" by (simp add: formats_loop.simps)
  next
    case True
    define f where "f = (fs ! cnt)\<lparr>HDMI2DVICOrder := drop_bit 4 (d ! pos) AND 0x0F, HDMI3DStructure := d ! pos AND 0x0F\<rparr>"
    show ?thesis
    proof (cases "0x08 \<le> HDMI3DStructure f")
      case detail: True
      have "formats_loop d (pos + 2) (i + 2) len (fs[cnt := f\<lparr>HDMI3DDetail := drop_bit 4 (d ! (pos + 1)) AND 0x0F\<rparr>], cnt + 1) = (fs', cnt')"
        using "1.prems"(1) True detail by (simp add: formats_loop.simps [of d pos] Let_def f_def)
      note ih = "1.IH"(1) [OF True f_def detail this, unfolded fst_conv snd_conv length_list_update]
      have "cnt + 1 + (len - (i + 2)) \<le> cnt + (len - i)" using True by arith
      then show ?thesis using ih "1.prems"(2) unfolding fst_conv snd_conv by linarith
    next
      case short: False
      have "formats_loop d (pos + 1) (i + 1) len (fs[cnt := f], cnt + 1) = (fs', cnt')"
        using "1.prems"(1) True short by (simp add: formats_loop.simps [of d pos] Let_def f_def)
      note ih = "1.IH"(2) [OF True f_def short this, unfolded fst_conv snd_conv length_list_update]
      have "cnt + 1 + (len - (i + 1)) \<le> cnt + (len - i)" using True by arith
      then show ?thesis using ih "1.prems"(2) unfolding fst_conv snd_conv by linarith
    qed
  qed
qed

text \<open>A stage keeps the shape, whether it ends the block or not.\<close>

definition shaped :: "hdmi_vsdb + vsdb_state \<Rightarrow> bool" where "shaped r \<longleftrightarrow> vsdb_shape (reached r)"

lemma shaped_paid [simp]: "shaped (paid n (v, len)) = vsdb_shape v"
  by (simp add: shaped_def paid_def reached_def)

lemma shaped_Inr [simp]: "shaped (Inr (v, n)) = vsdb_shape v"
  by (simp add: shaped_def reached_def)

lemma shaped_and_then: "shaped a \<Longrightarrow> (\<And>v n. vsdb_shape v \<Longrightarrow> shaped (f (v, n))) \<Longrightarrow> shaped (and_then a f)"
  by (cases a) (auto simp: shaped_def reached_def)

lemma and_7: "(x :: u8) AND 7 \<le> 7" and and_31: "(x :: u8) AND 31 \<le> 31"
  by (rule word_and_le1)+

lemma shaped_vics: "vsdb_shape v \<Longrightarrow> shaped (video_vics d (v, n))"
proof -
  assume v: "vsdb_shape v"
  define len where "len = unat (HDMIVICLen v)"
  have len: "len \<le> 7" using v by (simp add: len_def vsdb_shape_def word_le_nat_alt)
  obtain vics cnt where loop: "vic_loop (map (\<lambda>i. d ! (1 + n + i)) [0..<len]) (HDMIVIC v, 0) = (vics, cnt)"
    by (cases "vic_loop (map (\<lambda>i. d ! (1 + n + i)) [0..<len]) (HDMIVIC v, 0)")
  have p: "length vics = 7" "cnt \<le> 7" "\<forall>b \<in> set vics. b \<le> CBIOS_HDMI_EXTENED_VIC_COUNTS"
    using vic_loop_props [OF _ _ loop] v len by (auto simp: vsdb_shape_def MAX_HDMI_VIC_LEN_def)
  have "(of_nat cnt :: u8) \<le> 7" using p(2) by (simp add: word_le_nat_alt unat_of_nat)
  then show ?thesis
    using v p by (simp add: video_vics_def Let_def len_def [symmetric] loop [simplified] vsdb_shape_def MAX_HDMI_VIC_LEN_def)
qed

lemma shaped_formats: "vsdb_shape v \<Longrightarrow> shaped (video_formats d ((v, n), len))"
proof -
  assume v: "vsdb_shape v"
  show ?thesis
  proof (cases "ucast (HDMI3DLen v) < len")
    case True
    then show ?thesis using v by (simp add: video_formats_def)
  next
    case False
    then have "unat len \<le> unat (HDMI3DLen v)"
      by (simp add: word_less_nat_alt unsigned_ucast_eq take_bit_nat_eq_self unsigned_less less_trans [OF unsigned_less])
    then have len: "unat len \<le> 31" using v by (simp add: vsdb_shape_def word_le_nat_alt)
    obtain fs cnt where loop: "formats_loop d (1 + n) 0 (unat len) (HDMI3DForamt v, 0) = (fs, cnt)"
      by (cases "formats_loop d (1 + n) 0 (unat len) (HDMI3DForamt v, 0)")
    have p: "length fs = 31" "cnt \<le> 31"
      using formats_loop_props [OF loop] v len by (auto simp: vsdb_shape_def MAX_HDMI_3D_LEN_def)
    have "(of_nat cnt :: u32) \<le> 31" using p(2) by (simp add: word_le_nat_alt unat_of_nat)
    then show ?thesis
      using v p False loop [simplified] by (simp add: video_formats_def Let_def vsdb_shape_def MAX_HDMI_3D_LEN_def)
  qed
qed

lemma shaped_all:
  assumes v: "vsdb_shape v"
  shows "shaped (and_then (video_all d (v, n)) (video_formats d))"
proof -
  have "shaped (and_then (and_then (paid k (w, m)) (\<lambda>s. Inr (s, len))) (video_formats d))" if "vsdb_shape w" for k w m len
    using that shaped_formats by (auto simp: paid_def shaped_def reached_def)
  then show ?thesis
    using v shaped_formats by (auto simp: video_all_def Let_def vsdb_shape_def)
qed

lemma and_then_assoc: "and_then (and_then a f) g = and_then a (\<lambda>s. and_then (f s) g)"
  by (cases a) auto

lemma shaped_video: "vsdb_shape v \<Longrightarrow> shaped (vsdb_video d (v, n))"
  unfolding vsdb_video_def and_then_assoc
  by (auto simp: video_flags_def video_lens_def vsdb_shape_def and_7 and_31
      intro!: shaped_and_then shaped_vics shaped_all)

lemma shaped_body: "vsdb_shape v \<Longrightarrow> shaped (vsdb_body d v)"
  unfolding vsdb_body_def
  by (auto simp: vsdb_header_def vsdb_caps_def vsdb_clock_def vsdb_flags_def vsdb_latency_def vsdb_ilatency_def
      vsdb_shape_def intro!: shaped_and_then shaped_video)


text \<open>The length of the block is not changed by what is read from it.\<close>

definition len_is :: "u8 \<Rightarrow> hdmi_vsdb + vsdb_state \<Rightarrow> bool" where "len_is l r \<longleftrightarrow> VSDBLength (reached r) = l"

lemma len_is_paid [simp]: "len_is l (paid n (v, len)) \<longleftrightarrow> VSDBLength v = l"
  by (simp add: len_is_def paid_def reached_def)

lemma len_is_Inr [simp]: "len_is l (Inr (v, n)) \<longleftrightarrow> VSDBLength v = l"
  by (simp add: len_is_def reached_def)

lemma len_is_and_then: "len_is l a \<Longrightarrow> (\<And>v n. VSDBLength v = l \<Longrightarrow> len_is l (f (v, n))) \<Longrightarrow> len_is l (and_then a f)"
  by (cases a) (auto simp: len_is_def reached_def)

lemma len_is_all: "VSDBLength v = l \<Longrightarrow> len_is l (and_then (video_all d (v, n)) (video_formats d))"
proof -
  assume v: "VSDBLength v = l"
  have fmt: "len_is l (video_formats d ((w, m), k))" if "VSDBLength w = l" for w m k
    using that by (auto simp: video_formats_def split: prod.split)
  then have "len_is l (and_then (and_then (paid k (w, m)) (\<lambda>s. Inr (s, len))) (video_formats d))" if "VSDBLength w = l" for k w m len
    using that by (auto simp: paid_def len_is_def reached_def)
  then show ?thesis using v fmt by (auto simp: video_all_def Let_def)
qed

lemma len_is_video: "VSDBLength v = l \<Longrightarrow> len_is l (vsdb_video d (v, n))"
  unfolding vsdb_video_def and_then_assoc
  by (auto simp: video_flags_def video_lens_def video_vics_def Let_def split: prod.split
      intro!: len_is_and_then len_is_all)

lemma body_length: "VSDBLength (reached (vsdb_body d v)) = VSDBLength v"
proof -
  have "len_is (VSDBLength v) (vsdb_body d v)"
    unfolding vsdb_body_def
    by (auto simp: vsdb_header_def vsdb_caps_def vsdb_clock_def vsdb_flags_def vsdb_latency_def vsdb_ilatency_def
        intro!: len_is_and_then len_is_video)
  then show ?thesis by (simp add: len_is_def)
qed

lemma vsdb_start_shape: "vsdb_shape (zero_vsdb\<lparr>HDMI3DMask := m, VSDBLength := l, VSDBTag := t\<rparr>)"
  by (simp add: vsdb_shape_def zero_vsdb_def)

lemma cbEDIDModule_ParseHDMIVSDB_spec:
  "\<exists>v. cbEDIDModule_ParseHDMIVSDB (Some d) (Some old) =
      (if drop_bit 5 (d ! 0) = VENDOR_SPECIFIC_DATA_BLOCK_TAG \<and> 5 \<le> d ! 0 AND 0x1F
       then unat (d ! 0 AND 0x1F) + 1 else 1, Some v) \<and> vsdb_shape v"
proof -
  let ?w = "zero_vsdb\<lparr>HDMI3DMask := 0xFFFF, VSDBLength := d ! 0 AND 0x1F, VSDBTag := drop_bit 5 (d ! 0)\<rparr>"
  have "vsdb_shape (reached (vsdb_body d ?w))"
    using shaped_body [OF vsdb_start_shape] by (simp add: shaped_def)
  moreover have "vsdb_shape (?w\<lparr>VSDBLength := 0\<rparr>)"
    by (simp add: vsdb_shape_def zero_vsdb_def)
  ultimately show ?thesis
    using body_length [of d ?w] by (auto simp: cbEDIDModule_ParseHDMIVSDB_def Let_def not_less not_le)
qed

text \<open>
  C35. The decoded vendor block, for any bytes at all: the counters stay within their arrays, no code
  beyond the four extended formats is recorded, and the returned length is that of the block, or one
  byte when the tag is wrong or the block too short.
\<close>

theorem cbEDIDModule_ParseHDMIVSDB_bounds:
  "\<exists>v. cbEDIDModule_ParseHDMIVSDB (Some d) (Some old) =
      (if drop_bit 5 (d ! 0) = VENDOR_SPECIFIC_DATA_BLOCK_TAG \<and> 5 \<le> d ! 0 AND 0x1F
       then unat (d ! 0 AND 0x1F) + 1 else 1, Some v) \<and> vsdb_shape v"
  by (rule cbEDIDModule_ParseHDMIVSDB_spec)

section \<open>Reading back what a sink says\<close>

text \<open>
  The block as the specification of HDMI lays it out; a sink fills the record \<open>v\<close>. The first five bytes
  are always there, the next three when the length reaches them, and the rest as the flags say.
\<close>

definition format_bytes :: "hdmi_3d_format \<Rightarrow> u8 list" where
  "format_bytes f = (push_bit 4 (HDMI2DVICOrder f) OR HDMI3DStructure f) #
     (if 8 \<le> HDMI3DStructure f then [push_bit 4 (HDMI3DDetail f)] else [])"

definition be_bytes :: "u16 \<Rightarrow> u8 list" where "be_bytes w = [ucast (drop_bit 8 w), ucast w]"

definition multi_bytes :: "hdmi_vsdb \<Rightarrow> u8 list" where
  "multi_bytes v = (if HDMI3DMultiPresent v = 1 then be_bytes (HDMI3DStructAll v)
     else if HDMI3DMultiPresent v = 2 then be_bytes (HDMI3DStructAll v) @ be_bytes (HDMI3DMask v) else [])"

definition list_bytes :: "hdmi_vsdb \<Rightarrow> u8 list" where
  "list_bytes v = concat (map format_bytes (take (unat (HDMI3DFormatCount v)) (HDMI3DForamt v)))"

definition video_bytes :: "hdmi_vsdb \<Rightarrow> u8 list" where
  "video_bytes v = (if HDMIVideoPresent v
     then HDMI3DPresentFlags v # (push_bit 5 (HDMIVICLen v) OR HDMI3DLen v) #
       take (unat (HDMIVICLen v)) (HDMIVIC v) @ multi_bytes v @ list_bytes v
     else [])"

definition latency_bytes :: "hdmi_vsdb \<Rightarrow> u8 list" where
  "latency_bytes v = (if LatencyFieldsPresent v then [VideoLatency v, AudioLatency v] else [])"

definition ilatency_bytes :: "hdmi_vsdb \<Rightarrow> u8 list" where
  "ilatency_bytes v = (if ILatencyFieldsPresent v then [InterlacedVideoLatency v, InterlacedAudioLatency v] else [])"

definition header_bytes :: "hdmi_vsdb \<Rightarrow> u8 list" where
  "header_bytes v = (case RegistrationID v of (a, b, c) \<Rightarrow> [a, b, c]) @ be_bytes (SourcePhyAddr v)"

definition vsdb_payload :: "hdmi_vsdb \<Rightarrow> u8 list" where
  "vsdb_payload v = header_bytes v @
     (if 5 < VSDBLength v then [SupportCaps v] else []) @
     (if 6 < VSDBLength v then [ucast (MaxTMDSClock v div 5)] else []) @
     (if 7 < VSDBLength v then PresentFlags v # latency_bytes v @ ilatency_bytes v @ video_bytes v else [])"

text \<open>Fields that the block has no room for are zero, as the sink cannot say anything about them.\<close>

definition format_valid :: "hdmi_3d_format \<Rightarrow> bool" where
  "format_valid f \<longleftrightarrow> HDMI3DStructure f < 16 \<and> HDMI2DVICOrder f < 16 \<and> HDMI3DDetail f < 16 \<and>
     (HDMI3DStructure f < 8 \<longrightarrow> HDMI3DDetail f = 0)"

definition no_video :: "hdmi_vsdb \<Rightarrow> hdmi_vsdb" where
  "no_video v = v\<lparr>HDMI3DPresentFlags := 0, HDMI3DLen := 0, HDMIVICLen := 0, HDMIVIC := HDMIVIC zero_vsdb,
     HDMI3DStructAll := 0, HDMI3DMask := 0xFFFF, HDMI3DForamt := HDMI3DForamt zero_vsdb, HDMI3DFormatCount := 0\<rparr>"

definition video_valid :: "hdmi_vsdb \<Rightarrow> bool" where
  "video_valid v \<longleftrightarrow>
     (if HDMIVideoPresent v then
        vsdb_shape v \<and>
        (\<forall>b \<in> set (take (unat (HDMIVICLen v)) (HDMIVIC v)). 1 \<le> b) \<and>
        (\<forall>b \<in> set (drop (unat (HDMIVICLen v)) (HDMIVIC v)). b = 0) \<and>
        (\<forall>f \<in> set (take (unat (HDMI3DFormatCount v)) (HDMI3DForamt v)). format_valid f) \<and>
        (\<forall>f \<in> set (drop (unat (HDMI3DFormatCount v)) (HDMI3DForamt v)). f = zero_3d_format) \<and>
        (HDMI3DMultiPresent v \<notin> {1, 2} \<longrightarrow> HDMI3DStructAll v = 0) \<and>
        (HDMI3DMultiPresent v \<noteq> 2 \<longrightarrow> HDMI3DMask v = 0xFFFF) \<and>
        unat (HDMI3DLen v) = length (multi_bytes v @ list_bytes v)
      else no_video v = v)"

definition vsdb_valid :: "hdmi_vsdb \<Rightarrow> bool" where
  "vsdb_valid v \<longleftrightarrow>
     VSDBTag v = VENDOR_SPECIFIC_DATA_BLOCK_TAG \<and> 5 \<le> VSDBLength v \<and> VSDBLength v \<le> 31 \<and>
     length (vsdb_payload v) \<le> unat (VSDBLength v) \<and>
     (VSDBLength v \<le> 5 \<longrightarrow> SupportCaps v = 0) \<and>
     (VSDBLength v \<le> 6 \<longrightarrow> MaxTMDSClock v = 0) \<and> (\<exists>b :: u8. MaxTMDSClock v = ucast b * 5) \<and>
     (VSDBLength v \<le> 7 \<longrightarrow> PresentFlags v = 0) \<and>
     (\<not> LatencyFieldsPresent v \<longrightarrow> VideoLatency v = 0 \<and> AudioLatency v = 0) \<and>
     (\<not> ILatencyFieldsPresent v \<longrightarrow> InterlacedVideoLatency v = 0 \<and> InterlacedAudioLatency v = 0) \<and>
     video_valid v"

text \<open>Looking at the bytes behind the count.\<close>

lemma drop_step: "drop k d = b # r \<Longrightarrow> d ! k = b \<and> drop (Suc k) d = r"
  by (metis Cons_nth_drop_Suc drop_eq_Nil2 linorder_le_less_linear list.distinct(1) list.inject)

lemma drop_steps:
  assumes "drop k d = bs @ r"
  shows "i < length bs \<Longrightarrow> d ! (k + i) = bs ! i" "drop (k + length bs) d = r"
proof -
  have len: "length bs \<le> length d - k" using assms by (metis le_add1 length_append length_drop)
  show "drop (k + length bs) d = r" using assms by (metis add.commute append_eq_conv_conj drop_drop)
  show "d ! (k + i) = bs ! i" if "i < length bs"
  proof -
    have "drop k d ! i = d ! (k + i)" using that len by (intro nth_drop) linarith
    then show ?thesis using assms that by (simp add: nth_append)
  qed
qed

lemma reached_paid:
  "reached (and_then (paid k (v, n)) f) = (if unat (VSDBLength v) \<le> n + k then v else reached (f (v, n + k)))"
  by (simp add: paid_def reached_def)

lemma low_bits: "(x :: 'w::len word) < 2 ^ n \<Longrightarrow> bit x i \<Longrightarrow> i < n"
  by (metis bit_and_iff bit_mask_iff less_mask_eq)

lemma split_byte:
  assumes "(a :: u8) < 2 ^ m" "b < 2 ^ k"
  shows "(push_bit k a OR b) AND mask k = b" "k + m = 8 \<Longrightarrow> drop_bit k (push_bit k a OR b) = a"
proof -
  show "(push_bit k a OR b) AND mask k = b"
    using low_bits [OF assms(2)]
    by (intro bit_word_eqI) (auto simp: bit_simps)
  show "drop_bit k (push_bit k a OR b) = a" if "k + m = 8"
    using low_bits [OF assms(1)] low_bits [OF assms(2)] that
    by (intro bit_word_eqI) (auto simp: bit_simps, fastforce+)
qed

lemmas nibbles = split_byte [of _ 4 _ 4, simplified, unfolded mask_eq_exp_minus_1, simplified]

lemma take_Suc_update: "n < length xs \<Longrightarrow> take (Suc n) (xs[n := x]) = take n xs @ [x]"
  by (simp add: take_Suc_conv_app_nth)

lemma nth_of_drop: "n < length xs \<Longrightarrow> \<forall>x \<in> set (drop n xs). x = z \<Longrightarrow> xs ! n = z"
  by (metis Cons_nth_drop_Suc list.set_intros(1))

lemma formats_loop_encoded:
  "drop pos d = concat (map format_bytes gs) @ r \<Longrightarrow> \<forall>f \<in> set gs. format_valid f \<Longrightarrow>
   cnt + length gs \<le> length acc \<Longrightarrow> \<forall>f \<in> set (drop cnt acc). f = zero_3d_format \<Longrightarrow>
   len = i + length (concat (map format_bytes gs)) \<Longrightarrow>
   formats_loop d pos i len (acc, cnt) = (take cnt acc @ gs @ drop (cnt + length gs) acc, cnt + length gs)"
proof (induction gs arbitrary: pos i cnt acc)
  case Nil
  then show ?case by (simp add: formats_loop.simps [of d pos])
next
  case (Cons g gs)
  define tail where "tail = concat (map format_bytes gs)"
  have g: "format_valid g" and cnt: "cnt < length acc" using Cons.prems by simp_all
  have z: "acc ! cnt = zero_3d_format" using Cons.prems(4) cnt by (intro nth_of_drop)
  let ?b = "push_bit 4 (HDMI2DVICOrder g) OR HDMI3DStructure g"
  have nib: "?b AND 15 = HDMI3DStructure g" "drop_bit 4 ?b AND 15 = HDMI2DVICOrder g"
    using nibbles [of "HDMI2DVICOrder g" "HDMI3DStructure g"] g less_mask_eq [of "HDMI2DVICOrder g" 4]
    by (simp_all add: format_valid_def mask_eq_exp_minus_1)
  have d: "drop pos d = format_bytes g @ tail @ r" using Cons.prems(1) by (simp add: tail_def)
  then have b: "d ! pos = ?b" by (auto simp: format_bytes_def dest: drop_step)
  have upd: "\<forall>f \<in> set (drop (cnt + 1) (acc[cnt := g])). f = zero_3d_format"
    using Cons.prems(4) set_drop_subset_set_drop [of cnt "cnt + 1" acc] by auto
  have ih: "formats_loop d (pos + k) (i + k) len (acc[cnt := g], cnt + 1) =
      (take (cnt + 1) (acc[cnt := g]) @ gs @ drop (cnt + 1 + length gs) (acc[cnt := g]), cnt + 1 + length gs)"
    if "k = length (format_bytes g)" for k
    using drop_steps(2) [OF d] Cons.prems that
    by (intro Cons.IH upd) (simp_all add: tail_def)
  have res: "formats_loop d (pos + k) (i + k) len (acc[cnt := g], cnt + 1) =
      (take cnt acc @ (g # gs) @ drop (cnt + length (g # gs)) acc, cnt + length (g # gs))"
    if "k = length (format_bytes g)" for k
    using ih [OF that] cnt by (simp add: take_Suc_update)
  have lt: "i < len" using Cons.prems(5) by (simp add: format_bytes_def)
  have f: "(acc ! cnt)\<lparr>HDMI2DVICOrder := drop_bit 4 (d ! pos) AND 0x0F, HDMI3DStructure := d ! pos AND 0x0F\<rparr> =
      g\<lparr>HDMI3DDetail := 0\<rparr>"
    unfolding z b nib by (simp add: zero_3d_format_def)
  show ?case
  proof (cases "8 \<le> HDMI3DStructure g")
    case True
    then have "drop pos d = ?b # push_bit 4 (HDMI3DDetail g) # tail @ r" using d by (simp add: format_bytes_def)
    then have "d ! (pos + 1) = push_bit 4 (HDMI3DDetail g)" by (auto dest!: drop_step)
    moreover have "drop_bit 4 (push_bit 4 (HDMI3DDetail g)) AND 15 = HDMI3DDetail g"
      using split_byte(2) [of "HDMI3DDetail g" 4 0 4] less_mask_eq [of "HDMI3DDetail g" 4] g
      by (simp add: format_valid_def mask_eq_exp_minus_1)
    ultimately have det: "drop_bit 4 (d ! (pos + 1)) AND 0x0F = HDMI3DDetail g" by simp
    have "formats_loop d pos i len (acc, cnt) = formats_loop d (pos + 2) (i + 2) len (acc[cnt := g], cnt + 1)"
      unfolding formats_loop.simps [of d pos i] if_P [OF lt] Let_def f det using True by simp
    then show ?thesis using res [of 2] True by (simp add: format_bytes_def)
  next
    case False
    then have "g\<lparr>HDMI3DDetail := 0\<rparr> = g" using g by (simp add: format_valid_def)
    then have "formats_loop d pos i len (acc, cnt) = formats_loop d (pos + 1) (i + 1) len (acc[cnt := g], cnt + 1)"
      unfolding formats_loop.simps [of d pos i] if_P [OF lt] Let_def f using False by simp
    then show ?thesis using res [of 1] False by (simp add: format_bytes_def)
  qed
qed

lemma vic_loop_encoded:
  "\<forall>b \<in> set bs. 1 \<le> b \<and> b \<le> CBIOS_HDMI_EXTENED_VIC_COUNTS \<Longrightarrow> cnt + length bs \<le> length acc \<Longrightarrow>
   vic_loop bs (acc, cnt) = (take cnt acc @ bs @ drop (cnt + length bs) acc, cnt + length bs)"
proof (induction bs arbitrary: acc cnt)
  case (Cons b bs)
  then have "vic_loop bs (acc[cnt := b], cnt + 1) =
      (take (cnt + 1) (acc[cnt := b]) @ bs @ drop (cnt + 1 + length bs) (acc[cnt := b]), cnt + 1 + length bs)"
    by (intro Cons.IH) simp_all
  then show ?case using Cons.prems by (simp add: take_Suc_update)
qed simp

text \<open>The record before each part of the video section has been read.\<close>

definition pre_formats :: "hdmi_vsdb \<Rightarrow> hdmi_vsdb" where
  "pre_formats v = v\<lparr>HDMI3DForamt := HDMI3DForamt zero_vsdb, HDMI3DFormatCount := 0\<rparr>"
definition pre_all :: "hdmi_vsdb \<Rightarrow> hdmi_vsdb" where
  "pre_all v = (pre_formats v)\<lparr>HDMI3DStructAll := 0, HDMI3DMask := 0xFFFF\<rparr>"
definition pre_vics :: "hdmi_vsdb \<Rightarrow> hdmi_vsdb" where "pre_vics v = (pre_all v)\<lparr>HDMIVIC := HDMIVIC zero_vsdb\<rparr>"

lemmas pre_defs = pre_formats_def pre_all_def pre_vics_def

lemma replicate_zeros: "\<forall>x \<in> set xs. x = z \<Longrightarrow> xs = replicate (length xs) z"
  by (metis replicate_length_same)

lemma append_zeros: "\<forall>x \<in> set (drop n xs). x = z \<Longrightarrow> length xs = k \<Longrightarrow> take n xs @ drop n (replicate k z) = xs"
  using replicate_zeros [of "drop n xs" z] by (metis append_take_drop_id drop_replicate length_drop)

lemma pre_formats_id: "video_valid v \<Longrightarrow> HDMIVideoPresent v \<Longrightarrow> list_bytes v = [] \<Longrightarrow> pre_formats v = v"
proof -
  assume v: "video_valid v" "HDMIVideoPresent v" "list_bytes v = []"
  have len: "length (HDMI3DForamt v) = 31" using v(1,2) by (simp add: video_valid_def vsdb_shape_def MAX_HDMI_3D_LEN_def)
  have "take (unat (HDMI3DFormatCount v)) (HDMI3DForamt v) = []"
    using v(3) by (simp add: list_bytes_def format_bytes_def)
  then have c: "HDMI3DFormatCount v = 0" using len by (auto simp: unat_eq_0)
  then have "HDMI3DForamt v = replicate 31 zero_3d_format"
    using v(1,2) len replicate_zeros [of "HDMI3DForamt v" zero_3d_format] by (simp add: video_valid_def)
  then show ?thesis using c by (cases v) (simp add: pre_formats_def zero_vsdb_def MAX_HDMI_3D_LEN_def)
qed

lemma pre_all_id:
  assumes v: "video_valid v" "HDMIVideoPresent v" and nil: "multi_bytes v = []" "list_bytes v = []"
  shows "pre_all v = v"
proof -
  have "HDMI3DMultiPresent v \<notin> {1, 2}" using nil(1) by (auto simp: multi_bytes_def be_bytes_def split: if_splits)
  then have "HDMI3DStructAll v = 0" "HDMI3DMask v = 0xFFFF" using v by (auto simp: video_valid_def)
  then show ?thesis using pre_formats_id [OF v nil(2)] unfolding pre_all_def by simp
qed

lemma pre_vics_id:
  assumes v: "video_valid v" "HDMIVideoPresent v" and nil: "HDMIVICLen v = 0" "multi_bytes v = []" "list_bytes v = []"
  shows "pre_vics v = v"
proof -
  have "HDMIVIC v = replicate 7 0"
    using v nil(1) replicate_zeros [of "HDMIVIC v" 0] by (simp add: video_valid_def vsdb_shape_def MAX_HDMI_VIC_LEN_def)
  then show ?thesis using pre_all_id [OF v nil(2,3)] unfolding pre_vics_def by (simp add: zero_vsdb_def MAX_HDMI_VIC_LEN_def)
qed

lemma formats_read:
  assumes v: "video_valid v" "HDMIVideoPresent v" and d: "drop (1 + n) d = list_bytes v @ r"
    and len: "len = of_nat (length (list_bytes v))"
  shows "reached (video_formats d ((pre_formats v, n), len)) = v"
proof -
  define gs where "gs = take (unat (HDMI3DFormatCount v)) (HDMI3DForamt v)"
  have shape: "length (HDMI3DForamt v) = 31" "unat (HDMI3DFormatCount v) \<le> 31" "unat (HDMI3DLen v) \<le> 31"
    using v by (simp_all add: video_valid_def vsdb_shape_def MAX_HDMI_3D_LEN_def word_le_nat_alt)
  have gs: "length gs = unat (HDMI3DFormatCount v)" "\<forall>f \<in> set gs. format_valid f"
    using v shape by (simp_all add: gs_def video_valid_def)
  have bytes: "list_bytes v = concat (map format_bytes gs)" by (simp add: list_bytes_def gs_def)
  have le: "length (list_bytes v) \<le> unat (HDMI3DLen v)" using v by (simp add: video_valid_def)
  have u: "unat len = length (list_bytes v)" using le shape len by (simp add: unat_of_nat)
  have "\<not> (ucast (HDMI3DLen v) :: u32) < len"
    using le u by (simp add: word_less_nat_alt unsigned_ucast_eq take_bit_nat_eq_self unsigned_less less_trans [OF unsigned_less])
  moreover have "formats_loop d (1 + n) 0 (unat len) (HDMI3DForamt (pre_formats v), 0) = (HDMI3DForamt v, unat (HDMI3DFormatCount v))"
  proof -
    have "formats_loop d (1 + n) 0 (unat len) (replicate 31 zero_3d_format, 0) =
        (take 0 (replicate 31 zero_3d_format) @ gs @ drop (0 + length gs) (replicate 31 zero_3d_format), 0 + length gs)"
      using gs shape u by (intro formats_loop_encoded [where r = r] d [unfolded bytes]) (simp_all add: bytes)
    moreover have "gs @ drop (length gs) (replicate 31 zero_3d_format) = HDMI3DForamt v"
      unfolding gs(1) unfolding gs_def using v shape by (intro append_zeros) (simp_all add: video_valid_def)
    ultimately show ?thesis using gs(1) by (simp add: pre_formats_def zero_vsdb_def MAX_HDMI_3D_LEN_def)
  qed
  ultimately show ?thesis
    by (simp add: video_formats_def pre_formats_def paid_def reached_def)
qed

lemma be16_bytes: "be16 (ucast (drop_bit 8 w)) (ucast w) = w"
  unfolding be16_def by (intro bit_word_eqI) (auto simp: bit_simps)

lemma all_read:
  assumes v: "video_valid v" "HDMIVideoPresent v" and d: "drop (1 + n) d = multi_bytes v @ list_bytes v @ r"
    and fit: "n + length (multi_bytes v @ list_bytes v) \<le> unat (VSDBLength v)"
  shows "reached (and_then (video_all d (pre_all v, n)) (video_formats d)) = v"
proof -
  have lens: "(ucast (HDMI3DLen v) :: u32) = of_nat (length (multi_bytes v) + length (list_bytes v))"
  proof -
    have "(ucast (HDMI3DLen v) :: u32) = of_nat (unat (HDMI3DLen v))" by simp
    also have "unat (HDMI3DLen v) = length (multi_bytes v) + length (list_bytes v)"
      using v by (simp add: video_valid_def)
    finally show ?thesis .
  qed
  note steps = drop_steps [OF d]
  have read: "reached (video_formats d ((pre_formats v, n + length (multi_bytes v)), of_nat (length (list_bytes v)))) = v"
    using steps(2) by (intro formats_read [OF v, where r = r]) (simp_all add: add.assoc)
  have stop: "pre_formats v = v" if "unat (VSDBLength v) \<le> n + length (multi_bytes v)"
    using fit that by (intro pre_formats_id v) (simp flip: length_0_conv)
  consider (one) "HDMI3DMultiPresent v = 1" | (two) "HDMI3DMultiPresent v = 2" | (none) "HDMI3DMultiPresent v \<notin> {1, 2}" by blast
  then show ?thesis
  proof cases
    case one
    then have m: "multi_bytes v = be_bytes (HDMI3DStructAll v)" "HDMI3DMask v = 0xFFFF" "length (multi_bytes v) = 2"
      using v by (auto simp: multi_bytes_def be_bytes_def video_valid_def)
    have w: "be16 (d ! (1 + n)) (d ! (2 + n)) = HDMI3DStructAll v"
      using steps(1) [of 0] steps(1) [of 1] m by (simp add: be_bytes_def be16_bytes)
    have "(pre_all v)\<lparr>HDMI3DStructAll := HDMI3DStructAll v, HDMI3DMask := 0xFFFF\<rparr> = pre_formats v"
      using m(2) by (simp add: pre_all_def pre_formats_def)
    moreover have "HDMI3DMultiPresent (pre_all v) = 1" using one by (simp add: HDMI3DMultiPresent_def pre_defs)
    ultimately have "video_all d (pre_all v, n) =
        and_then (paid 2 (pre_formats v, n)) (\<lambda>s. Inr (s, of_nat (length (list_bytes v))))"
      using lens m(3) by (simp add: video_all_def w [simplified] pre_defs)
    then show ?thesis using read stop m(3) by (simp add: and_then_assoc reached_paid pre_formats_def)
  next
    case two
    then have m: "multi_bytes v = be_bytes (HDMI3DStructAll v) @ be_bytes (HDMI3DMask v)" "length (multi_bytes v) = 4"
      by (auto simp: multi_bytes_def be_bytes_def)
    have w: "be16 (d ! (1 + n)) (d ! (2 + n)) = HDMI3DStructAll v" "be16 (d ! (3 + n)) (d ! (4 + n)) = HDMI3DMask v"
    proof -
      have n: "d ! (3 + n) = d ! (1 + n + 2)" "d ! (4 + n) = d ! (1 + n + 3)" by (simp_all add: numeral_eq_Suc)
      show "be16 (d ! (1 + n)) (d ! (2 + n)) = HDMI3DStructAll v" "be16 (d ! (3 + n)) (d ! (4 + n)) = HDMI3DMask v"
        using steps(1) [of 0] steps(1) [of 1] steps(1) [of 2] steps(1) [of 3] m(2) unfolding n
        by (simp_all add: m(1) be_bytes_def be16_bytes numeral_3_eq_3)
    qed
    have "(pre_all v)\<lparr>HDMI3DStructAll := HDMI3DStructAll v, HDMI3DMask := HDMI3DMask v\<rparr> = pre_formats v"
      by (simp add: pre_all_def pre_formats_def)
    moreover have "HDMI3DMultiPresent (pre_all v) = 2" using two by (simp add: HDMI3DMultiPresent_def pre_defs)
    ultimately have "video_all d (pre_all v, n) =
        and_then (paid 4 (pre_formats v, n)) (\<lambda>s. Inr (s, of_nat (length (list_bytes v))))"
      using lens m(2) by (simp add: video_all_def w [simplified] pre_defs)
    then show ?thesis using read stop m(2) by (simp add: and_then_assoc reached_paid pre_formats_def)
  next
    case none
    then have m: "multi_bytes v = []" "HDMI3DStructAll v = 0" "HDMI3DMask v = 0xFFFF"
      using v by (auto simp: multi_bytes_def video_valid_def)
    have "(pre_all v)\<lparr>HDMI3DStructAll := 0, HDMI3DMask := 0xFFFF\<rparr> = pre_formats v"
      using m by (simp add: pre_all_def pre_formats_def)
    moreover have "HDMI3DMultiPresent (pre_all v) = HDMI3DMultiPresent v" by (simp add: HDMI3DMultiPresent_def pre_defs)
    ultimately have "video_all d (pre_all v, n) = Inr ((pre_formats v, n), of_nat (length (list_bytes v)))"
      using lens m(1) none by (simp add: video_all_def pre_defs)
    then show ?thesis using read m(1) by simp
  qed
qed

lemma vics_read:
  assumes v: "video_valid v" "HDMIVideoPresent v"
    and d: "drop (1 + n) d = take (unat (HDMIVICLen v)) (HDMIVIC v) @ multi_bytes v @ list_bytes v @ r"
    and fit: "n + unat (HDMIVICLen v) + length (multi_bytes v @ list_bytes v) \<le> unat (VSDBLength v)"
  shows "reached (and_then (and_then (video_vics d (pre_vics v, n)) (video_all d)) (video_formats d)) = v"
proof -
  define k where "k = unat (HDMIVICLen v)"
  have shape: "length (HDMIVIC v) = 7" "k \<le> 7"
    using v by (simp_all add: video_valid_def vsdb_shape_def MAX_HDMI_VIC_LEN_def word_le_nat_alt k_def)
  have kv: "of_nat k = HDMIVICLen v" by (simp add: k_def)
  define vs where "vs = take k (HDMIVIC v)"
  have lvs: "length vs = k" using shape by (simp add: vs_def)
  note steps = drop_steps [OF d, folded k_def vs_def, unfolded lvs]
  have read: "map (\<lambda>i. d ! (1 + n + i)) [0..<k] = vs"
    using steps(1) lvs by (intro nth_equalityI) simp_all
  have "\<forall>b \<in> set vs. 1 \<le> b \<and> b \<le> CBIOS_HDMI_EXTENED_VIC_COUNTS"
    using v in_set_takeD [of _ k "HDMIVIC v"] by (auto simp: video_valid_def vsdb_shape_def vs_def k_def)
  then have "vic_loop vs (replicate 7 0, 0) = (take 0 (replicate 7 0) @ vs @ drop (0 + length vs) (replicate 7 0), 0 + length vs)"
    using lvs shape by (intro vic_loop_encoded) simp_all
  moreover have "vs @ drop k (replicate 7 0) = HDMIVIC v"
    unfolding vs_def using v shape by (intro append_zeros) (simp_all add: video_valid_def k_def)
  ultimately have loop: "vic_loop vs (HDMIVIC (pre_vics v), 0) = (HDMIVIC v, k)"
    using lvs by (simp add: pre_vics_def zero_vsdb_def MAX_HDMI_VIC_LEN_def)
  have eq: "video_vics d (pre_vics v, n) = paid k (pre_all v, n)"
  proof -
    have len: "unat (HDMIVICLen (pre_vics v)) = k" by (simp add: pre_defs k_def)
    have "(pre_vics v)\<lparr>HDMIVIC := HDMIVIC v, HDMIVICLen := of_nat k\<rparr> = pre_all v"
      unfolding kv by (simp add: pre_defs)
    then show ?thesis unfolding video_vics_def prod.case len Let_def read loop by simp
  qed
  have rest: "drop (1 + (n + k)) d = multi_bytes v @ list_bytes v @ r" using steps(2) by (simp add: add.assoc)
  have go: "reached (and_then (video_all d (pre_all v, n + k)) (video_formats d)) = v"
    using fit by (intro all_read [OF v rest]) (simp add: k_def)
  have stop: "pre_all v = v" if "unat (VSDBLength v) \<le> n + k"
    using fit that by (intro pre_all_id v) (simp_all add: k_def flip: length_0_conv)
  show ?thesis
    unfolding eq and_then_assoc reached_paid using go stop by (simp add: pre_defs)
qed

lemma no_video_cases: "video_valid v \<Longrightarrow> video_bytes v = [] \<Longrightarrow> no_video v = v"
  by (simp add: video_valid_def video_bytes_def split: if_splits)

lemma video_flags_same [simp]: "HDMIVideoPresent (no_video v) = HDMIVideoPresent v"
  by (simp add: HDMIVideoPresent_def no_video_def)

lemma video_read:
  assumes v: "video_valid v" and d: "drop (1 + n) d = video_bytes v @ r"
    and fit: "n + length (video_bytes v) \<le> unat (VSDBLength v)"
  shows "reached (vsdb_video d (no_video v, n)) = v"
proof (cases "HDMIVideoPresent v")
  case False
  then show ?thesis using v by (simp add: vsdb_video_def reached_def video_valid_def)
next
  case True
  have small: "HDMIVICLen v < 2 ^ 3" "HDMI3DLen v < 2 ^ 5"
    using v True by (simp_all add: video_valid_def vsdb_shape_def word_le_nat_alt word_less_nat_alt)
  let ?b = "push_bit 5 (HDMIVICLen v) OR HDMI3DLen v"
  let ?rest = "take (unat (HDMIVICLen v)) (HDMIVIC v) @ multi_bytes v @ list_bytes v @ r"
  have d: "drop (1 + n) d = HDMI3DPresentFlags v # ?b # ?rest" using d True by (simp add: video_bytes_def)
  note s1 = drop_step [OF d]
  note s2 = drop_step [OF conjunct2 [OF s1]]
  have k: "length (take (unat (HDMIVICLen v)) (HDMIVIC v)) = unat (HDMIVICLen v)"
    using v True by (simp add: video_valid_def vsdb_shape_def MAX_HDMI_VIC_LEN_def word_le_nat_alt)
  have fit': "n + 2 + unat (HDMIVICLen v) + length (multi_bytes v @ list_bytes v) \<le> unat (VSDBLength v)"
    using fit True k by (simp add: video_bytes_def)
  have go: "reached (and_then (and_then (video_vics d (pre_vics v, n + 2)) (video_all d)) (video_formats d)) = v"
    using s2 fit' by (intro vics_read [OF v True, where r = r]) simp_all
  have stop: "pre_vics v = v" if "unat (VSDBLength v) \<le> n + 2"
    using fit' that by (intro pre_vics_id v True) (simp_all flip: length_0_conv add: unat_eq_0 [symmetric])
  have seven: "(7 :: u8) = mask 3" and ty: "(31 :: u8) = mask 5" by (simp_all add: mask_eq_exp_minus_1)
  have b: "?b AND 31 = HDMI3DLen v" "drop_bit 5 ?b AND 7 = HDMIVICLen v"
    using split_byte [OF small] less_mask_eq [OF small(1)] unfolding seven ty by simp_all
  have lens: "video_lens d ((no_video v)\<lparr>HDMI3DPresentFlags := HDMI3DPresentFlags v\<rparr>, n + 1) = paid 1 (pre_vics v, n + 1)"
  proof -
    have n: "d ! (1 + (n + 1)) = ?b" using s2 by simp
    have "(no_video v)\<lparr>HDMI3DPresentFlags := HDMI3DPresentFlags v, HDMI3DLen := HDMI3DLen v, HDMIVICLen := HDMIVICLen v\<rparr> = pre_vics v"
      by (rule hdmi_vsdb.equality) (simp_all add: no_video_def pre_defs)
    then show ?thesis unfolding video_lens_def prod.case n b by simp
  qed
  have flags: "video_flags d (no_video v, n) = paid 1 ((no_video v)\<lparr>HDMI3DPresentFlags := HDMI3DPresentFlags v\<rparr>, n)"
    using s1 by (simp add: video_flags_def)
  have more: "\<not> unat (VSDBLength v) \<le> n + 1" using fit' by linarith
  have len: "VSDBLength (no_video v) = VSDBLength v" "VSDBLength (pre_vics v) = VSDBLength v"
    by (simp_all add: no_video_def pre_defs)
  have "vsdb_video d (no_video v, n) =
      and_then (paid 1 ((no_video v)\<lparr>HDMI3DPresentFlags := HDMI3DPresentFlags v\<rparr>, n))
        (\<lambda>s. and_then (video_lens d s) (\<lambda>s. and_then (and_then (video_vics d s) (video_all d)) (video_formats d)))"
    using True by (simp add: vsdb_video_def flags and_then_assoc)
  then have "reached (vsdb_video d (no_video v, n)) =
      reached (and_then (paid 1 (pre_vics v, n + 1)) (\<lambda>s. and_then (and_then (video_vics d s) (video_all d)) (video_formats d)))"
    using more len(1) by (simp add: reached_paid lens [simplified])
  then show ?thesis using go stop len(2) by (simp add: reached_paid)
qed

text \<open>The record before the latencies of interlaced and of progressive video have been read.\<close>

definition pre_ilat :: "hdmi_vsdb \<Rightarrow> hdmi_vsdb" where
  "pre_ilat v = (no_video v)\<lparr>InterlacedVideoLatency := 0, InterlacedAudioLatency := 0\<rparr>"
definition pre_lat :: "hdmi_vsdb \<Rightarrow> hdmi_vsdb" where
  "pre_lat v = (pre_ilat v)\<lparr>VideoLatency := 0, AudioLatency := 0\<rparr>"

lemma ilatency_read:
  assumes v: "video_valid v" and zero: "\<not> ILatencyFieldsPresent v \<longrightarrow> InterlacedVideoLatency v = 0 \<and> InterlacedAudioLatency v = 0"
    and d: "drop (1 + n) d = ilatency_bytes v @ video_bytes v @ r"
    and fit: "n + length (ilatency_bytes v @ video_bytes v) \<le> unat (VSDBLength v)"
  shows "reached (and_then (vsdb_ilatency d (pre_ilat v, n)) (vsdb_video d)) = v"
proof -
  have flag: "ILatencyFieldsPresent (pre_ilat v) = ILatencyFieldsPresent v"
    by (simp add: ILatencyFieldsPresent_def pre_ilat_def no_video_def)
  have same: "(pre_ilat v)\<lparr>InterlacedVideoLatency := InterlacedVideoLatency v, InterlacedAudioLatency := InterlacedAudioLatency v\<rparr> = no_video v"
    by (rule hdmi_vsdb.equality) (simp_all add: pre_ilat_def no_video_def)
  have len: "VSDBLength (no_video v) = VSDBLength v" by (simp add: no_video_def)
  show ?thesis
  proof (cases "ILatencyFieldsPresent v")
    case True
    then have bytes: "drop (1 + n) d = InterlacedVideoLatency v # InterlacedAudioLatency v # video_bytes v @ r"
      "n + 2 + length (video_bytes v) \<le> unat (VSDBLength v)"
      using d fit by (simp_all add: ilatency_bytes_def)
    note s1 = drop_step [OF bytes(1)]
    note s2 = drop_step [OF conjunct2 [OF s1]]
    have "vsdb_ilatency d (pre_ilat v, n) = paid 2 (no_video v, n)"
      using True s1 s2 flag by (simp add: vsdb_ilatency_def same)
    moreover have "reached (vsdb_video d (no_video v, n + 2)) = v"
      using s2 bytes(2) by (intro video_read [OF v, where r = r]) simp_all
    moreover have "no_video v = v" if "unat (VSDBLength v) \<le> n + 2"
      using bytes(2) that by (intro no_video_cases v) (simp flip: length_0_conv)
    ultimately show ?thesis by (simp add: reached_paid len)
  next
    case False
    then have "vsdb_ilatency d (pre_ilat v, n) = Inr (no_video v, n)"
      using flag same zero by (simp add: vsdb_ilatency_def)
    then show ?thesis
      using False d fit by (simp add: ilatency_bytes_def video_read [OF v, where r = r])
  qed
qed

lemma latency_read:
  assumes v: "video_valid v" and zero: "\<not> ILatencyFieldsPresent v \<longrightarrow> InterlacedVideoLatency v = 0 \<and> InterlacedAudioLatency v = 0"
    "\<not> LatencyFieldsPresent v \<longrightarrow> VideoLatency v = 0 \<and> AudioLatency v = 0"
    and d: "drop (1 + n) d = latency_bytes v @ ilatency_bytes v @ video_bytes v @ r"
    and fit: "n + length (latency_bytes v @ ilatency_bytes v @ video_bytes v) \<le> unat (VSDBLength v)"
  shows "reached (and_then (and_then (vsdb_latency d (pre_lat v, n)) (vsdb_ilatency d)) (vsdb_video d)) = v"
proof -
  have flag: "LatencyFieldsPresent (pre_lat v) = LatencyFieldsPresent v"
    by (simp add: LatencyFieldsPresent_def pre_lat_def pre_ilat_def no_video_def)
  have same: "(pre_lat v)\<lparr>VideoLatency := VideoLatency v, AudioLatency := AudioLatency v\<rparr> = pre_ilat v"
    by (rule hdmi_vsdb.equality) (simp_all add: pre_lat_def pre_ilat_def no_video_def)
  have len: "VSDBLength (pre_ilat v) = VSDBLength v" by (simp add: pre_ilat_def no_video_def)
  show ?thesis
  proof (cases "LatencyFieldsPresent v")
    case True
    then have bytes: "drop (1 + n) d = VideoLatency v # AudioLatency v # ilatency_bytes v @ video_bytes v @ r"
      "n + 2 + length (ilatency_bytes v @ video_bytes v) \<le> unat (VSDBLength v)"
      using d fit by (simp_all add: latency_bytes_def)
    note s1 = drop_step [OF bytes(1)]
    note s2 = drop_step [OF conjunct2 [OF s1]]
    have "vsdb_latency d (pre_lat v, n) = paid 2 (pre_ilat v, n)"
      using True s1 s2 flag by (simp add: vsdb_latency_def same)
    moreover have "reached (and_then (vsdb_ilatency d (pre_ilat v, n + 2)) (vsdb_video d)) = v"
      using s2 bytes(2) by (intro ilatency_read [OF v zero(1), where r = r]) simp_all
    moreover have "pre_ilat v = v" if "unat (VSDBLength v) \<le> n + 2"
    proof -
      have nil: "ilatency_bytes v = []" "video_bytes v = []" using bytes(2) that by (simp_all flip: length_0_conv)
      then have "\<not> ILatencyFieldsPresent v" by (simp add: ilatency_bytes_def split: if_splits)
      then show ?thesis using no_video_cases [OF v nil(2)] zero(1) by (simp add: pre_ilat_def)
    qed
    ultimately show ?thesis by (simp add: and_then_assoc reached_paid len)
  next
    case False
    then have "vsdb_latency d (pre_lat v, n) = Inr (pre_ilat v, n)"
      using flag same zero by (simp add: vsdb_latency_def)
    then show ?thesis
      using False d fit by (simp add: latency_bytes_def ilatency_read [OF v zero(1), where r = r])
  qed
qed

definition pre_flags :: "hdmi_vsdb \<Rightarrow> hdmi_vsdb" where "pre_flags v = (pre_lat v)\<lparr>PresentFlags := 0\<rparr>"
definition pre_clock :: "hdmi_vsdb \<Rightarrow> hdmi_vsdb" where "pre_clock v = (pre_flags v)\<lparr>MaxTMDSClock := 0\<rparr>"
definition pre_caps :: "hdmi_vsdb \<Rightarrow> hdmi_vsdb" where "pre_caps v = (pre_clock v)\<lparr>SupportCaps := 0\<rparr>"

lemma pre_lat_id:
  assumes v: "vsdb_valid v" and nil: "latency_bytes v = []" "ilatency_bytes v = []" "video_bytes v = []"
  shows "pre_lat v = v"
proof -
  have "\<not> LatencyFieldsPresent v" "\<not> ILatencyFieldsPresent v"
    using nil by (simp_all add: latency_bytes_def ilatency_bytes_def split: if_splits)
  then show ?thesis
    using v no_video_cases [OF _ nil(3)] by (simp add: pre_lat_def pre_ilat_def vsdb_valid_def)
qed

lemma no_flags:
  assumes "PresentFlags v = 0"
  shows "latency_bytes v = []" "ilatency_bytes v = []" "video_bytes v = []"
  using assms by (simp_all add: latency_bytes_def ilatency_bytes_def video_bytes_def HDMIVideoPresent_def
      ILatencyFieldsPresent_def LatencyFieldsPresent_def)

lemma pre_flags_id: "vsdb_valid v \<Longrightarrow> VSDBLength v \<le> 7 \<Longrightarrow> pre_flags v = v"
  using pre_lat_id [of v] no_flags [of v] by (simp add: pre_flags_def vsdb_valid_def)

lemma pre_clock_id:
  assumes v: "vsdb_valid v" and L: "VSDBLength v \<le> 6"
  shows "pre_clock v = v"
proof -
  have "MaxTMDSClock v = 0" using assms by (simp add: vsdb_valid_def)
  moreover have "pre_flags v = v" using L by (intro pre_flags_id v) (simp add: word_le_nat_alt)
  ultimately show ?thesis by (simp add: pre_clock_def)
qed

lemma pre_caps_id:
  assumes v: "vsdb_valid v" and L: "VSDBLength v \<le> 5"
  shows "pre_caps v = v"
proof -
  have "SupportCaps v = 0" using assms by (simp add: vsdb_valid_def)
  moreover have "pre_clock v = v" using L by (intro pre_clock_id v) (simp add: word_le_nat_alt)
  ultimately show ?thesis by (simp add: pre_caps_def)
qed

lemma pre_lengths [simp]: "VSDBLength (pre_lat v) = VSDBLength v" "VSDBLength (pre_flags v) = VSDBLength v"
  "VSDBLength (pre_clock v) = VSDBLength v" "VSDBLength (pre_caps v) = VSDBLength v"
  by (simp_all add: pre_caps_def pre_clock_def pre_flags_def pre_lat_def pre_ilat_def no_video_def)

text \<open>The clock is kept in MHz and written in fifths of that.\<close>

lemma clock_byte: "(ucast (ucast ((ucast (b :: u8) * 5 :: u16) div 5) :: u8) :: u16) = ucast b"
proof -
  have u: "unat (ucast b :: u16) = unat b"
    using unsigned_less [where 'a = nat, of b] by (simp add: unsigned_ucast_eq take_bit_nat_eq_self)
  have "unat (ucast b * 5 :: u16) = unat b * 5"
    using unsigned_less [where 'a = nat, of b] by (simp add: unat_word_ariths u)
  then have "unat ((ucast b * 5 :: u16) div 5) = unat b" by (simp add: unat_div)
  then have "(ucast b * 5 :: u16) div 5 = ucast b" using u by (metis word_unat_eq_iff)
  moreover have "(ucast (ucast b :: u16) :: u8) = b" by (intro bit_word_eqI) (auto simp: bit_simps)
  ultimately show ?thesis by simp
qed

lemma body_read:
  assumes v: "vsdb_valid v" and d: "d = t # vsdb_payload v @ r"
  shows "reached (vsdb_body d (zero_vsdb\<lparr>HDMI3DMask := 0xFFFF, VSDBLength := VSDBLength v, VSDBTag := VSDBTag v\<rparr>)) = v"
proof -
  let ?L = "unat (VSDBLength v)"
  have L: "?L > 5 \<longleftrightarrow> 5 < VSDBLength v" "?L > 6 \<longleftrightarrow> 6 < VSDBLength v" "?L > 7 \<longleftrightarrow> 7 < VSDBLength v"
    by (simp_all add: word_less_nat_alt)
  have fit: "length (vsdb_payload v) \<le> ?L" and vid: "video_valid v"
    and zero: "\<not> ILatencyFieldsPresent v \<longrightarrow> InterlacedVideoLatency v = 0 \<and> InterlacedAudioLatency v = 0"
      "\<not> LatencyFieldsPresent v \<longrightarrow> VideoLatency v = 0 \<and> AudioLatency v = 0"
    using v by (simp_all add: vsdb_valid_def)
  obtain i1 i2 i3 where id: "RegistrationID v = (i1, i2, i3)" by (cases "RegistrationID v")
  have head: "header_bytes v = [i1, i2, i3, ucast (drop_bit 8 (SourcePhyAddr v)), ucast (SourcePhyAddr v)]"
    by (simp add: header_bytes_def id be_bytes_def)
  let ?w = "zero_vsdb\<lparr>HDMI3DMask := 0xFFFF, VSDBLength := VSDBLength v, VSDBTag := VSDBTag v\<rparr>"
  have "?w\<lparr>RegistrationID := RegistrationID v, SourcePhyAddr := SourcePhyAddr v\<rparr> = pre_caps v"
    by (rule hdmi_vsdb.equality)
      (simp_all add: pre_caps_def pre_clock_def pre_flags_def pre_lat_def pre_ilat_def no_video_def zero_vsdb_def)
  moreover have "d ! 1 = i1" "d ! 2 = i2" "d ! 3 = i3" "be16 (d ! 4) (d ! 5) = SourcePhyAddr v"
    by (simp_all add: d vsdb_payload_def head be16_bytes)
  ultimately have header: "vsdb_header d ?w = paid 5 (pre_caps v, 0)"
    by (simp add: vsdb_header_def id)
  have caps: "vsdb_caps d (pre_caps v, 5) = paid 1 (pre_clock v, 5)" if "5 < VSDBLength v"
  proof -
    have "d ! (1 + 5) = SupportCaps v" using that by (simp add: d vsdb_payload_def head)
    moreover have "(pre_caps v)\<lparr>SupportCaps := SupportCaps v\<rparr> = pre_clock v"
      by (rule hdmi_vsdb.equality) (simp_all add: pre_caps_def pre_clock_def pre_flags_def pre_lat_def pre_ilat_def no_video_def)
    ultimately show ?thesis unfolding vsdb_caps_def prod.case by simp
  qed
  have clock: "vsdb_clock d (pre_clock v, 6) = paid 1 (pre_flags v, 6)" if "6 < VSDBLength v"
  proof -
    have five: "5 < VSDBLength v" using that by (simp add: word_less_nat_alt)
    obtain b :: u8 where b: "MaxTMDSClock v = ucast b * 5" using v by (auto simp: vsdb_valid_def)
    have "d ! (1 + 6) = ucast (MaxTMDSClock v div 5)" using that five by (simp add: d vsdb_payload_def head)
    then have "ucast (d ! (1 + 6)) * 5 = MaxTMDSClock v" unfolding b by (simp only: clock_byte)
    moreover have "(pre_clock v)\<lparr>MaxTMDSClock := MaxTMDSClock v\<rparr> = pre_flags v"
      by (rule hdmi_vsdb.equality) (simp_all add: pre_clock_def pre_flags_def pre_lat_def pre_ilat_def no_video_def)
    ultimately show ?thesis unfolding vsdb_clock_def prod.case by simp
  qed
  have long: "vsdb_flags d (pre_flags v, 7) = paid 1 (pre_lat v, 7)"
    "drop (1 + 8) d = latency_bytes v @ ilatency_bytes v @ video_bytes v @ r"
    "8 + length (latency_bytes v @ ilatency_bytes v @ video_bytes v) \<le> ?L" if "7 < VSDBLength v"
  proof -
    have "5 < VSDBLength v" "6 < VSDBLength v" using that by (simp_all add: word_less_nat_alt)
    then have p: "d = t # header_bytes v @ SupportCaps v # ucast (MaxTMDSClock v div 5) # PresentFlags v #
        latency_bytes v @ ilatency_bytes v @ video_bytes v @ r"
      "length (vsdb_payload v) = 8 + length (latency_bytes v @ ilatency_bytes v @ video_bytes v)"
      using that by (simp_all add: d vsdb_payload_def head)
    then show "drop (1 + 8) d = latency_bytes v @ ilatency_bytes v @ video_bytes v @ r"
      "8 + length (latency_bytes v @ ilatency_bytes v @ video_bytes v) \<le> ?L"
      using fit by (simp_all add: head)
    have "d ! (1 + 7) = PresentFlags v" using p(1) by (simp add: head)
    moreover have "(pre_flags v)\<lparr>PresentFlags := PresentFlags v\<rparr> = pre_lat v"
      by (rule hdmi_vsdb.equality) (simp_all add: pre_flags_def pre_lat_def pre_ilat_def no_video_def)
    ultimately show "vsdb_flags d (pre_flags v, 7) = paid 1 (pre_lat v, 7)" unfolding vsdb_flags_def prod.case by simp
  qed
  have tail: "reached (and_then (and_then (vsdb_latency d (pre_lat v, 8)) (vsdb_ilatency d)) (vsdb_video d)) = v"
    if "7 < VSDBLength v"
    using long(2,3) [OF that] by (intro latency_read [OF vid zero, where r = r])
  have stop: "pre_lat v = v" if "7 < VSDBLength v" "?L \<le> 8"
    using long(3) [OF that(1)] that(2) by (intro pre_lat_id v) (simp_all flip: length_0_conv)
  have body: "reached (vsdb_body d ?w) = (if ?L \<le> 5 then pre_caps v else reached (and_then (and_then (and_then (and_then
      (and_then (vsdb_caps d (pre_caps v, 5)) (vsdb_clock d)) (vsdb_flags d)) (vsdb_latency d)) (vsdb_ilatency d)) (vsdb_video d)))"
    unfolding vsdb_body_def header and_then_assoc reached_paid by simp
  consider "?L \<le> 5" | "?L = 6" | "?L = 7" | "7 < ?L" by linarith
  then show ?thesis
  proof cases
    case 1
    then have "VSDBLength v \<le> 5" by (simp add: word_le_nat_alt)
    then show ?thesis using body 1 pre_caps_id [OF v] by simp
  next
    case 2
    then have "VSDBLength v \<le> 6" "5 < VSDBLength v" by (simp_all add: word_le_nat_alt word_less_nat_alt)
    then show ?thesis using body 2 pre_clock_id [OF v] by (simp add: caps and_then_assoc reached_paid [simplified])
  next
    case 3
    then have "VSDBLength v \<le> 7" "5 < VSDBLength v" "6 < VSDBLength v" by (simp_all add: word_le_nat_alt word_less_nat_alt)
    then show ?thesis using body 3 pre_flags_id [OF v]
      by (simp add: caps clock and_then_assoc reached_paid [where k = 1, simplified])
  next
    case 4
    then have l: "7 < VSDBLength v" "5 < VSDBLength v" "6 < VSDBLength v" by (simp_all add: word_less_nat_alt)
    then show ?thesis using body 4 stop tail
      by (simp add: caps clock long(1) and_then_assoc reached_paid [where k = 1, simplified])
  qed
qed

text \<open>
  C34. What an HDMI sink says about itself in its vendor block is what the driver records, whatever
  follows the block in memory: addresses, capabilities, clock, latencies, the extended formats and the
  3D formats, in every combination of present and absent parts, and the returned length leads to the
  next block.
\<close>

theorem cbEDIDModule_ParseHDMIVSDB_roundtrip:
  assumes v: "vsdb_valid v"
  shows "cbEDIDModule_ParseHDMIVSDB (Some ((push_bit 5 (VSDBTag v) OR VSDBLength v) # vsdb_payload v @ r)) (Some old) =
    (unat (VSDBLength v) + 1, Some v)"
proof -
  have small: "VSDBTag v < 2 ^ 3" "VSDBLength v < 2 ^ 5" and tag: "VSDBTag v = 3" "\<not> VSDBLength v < 5"
    using v by (simp_all add: vsdb_valid_def VENDOR_SPECIFIC_DATA_BLOCK_TAG_def word_less_nat_alt word_le_nat_alt)
  have ty: "(0x1F :: u8) = mask 5" by (simp add: mask_eq_exp_minus_1)
  have b: "(push_bit 5 (VSDBTag v) OR VSDBLength v) AND 0x1F = VSDBLength v"
    "drop_bit 5 (push_bit 5 (VSDBTag v) OR VSDBLength v) = VSDBTag v"
    using split_byte [OF small] unfolding ty by simp_all
  show ?thesis
    unfolding cbEDIDModule_ParseHDMIVSDB_def prod.case option.case nth_Cons_0 b Let_def
    using tag body_read [OF v refl] by (simp add: VENDOR_SPECIFIC_DATA_BLOCK_TAG_def)
qed

definition sample_vsdb :: hdmi_vsdb where
  "sample_vsdb = zero_vsdb\<lparr>VSDBLength := 17, VSDBTag := 3, RegistrationID := (0x03, 0x0C, 0x00), SourcePhyAddr := 0x1000,
     SupportCaps := 0xB8, MaxTMDSClock := 300, PresentFlags := 0xA0, VideoLatency := 5, AudioLatency := 7,
     HDMI3DPresentFlags := 0xA0, HDMI3DLen := 3, HDMIVICLen := 2, HDMIVIC := [1, 3, 0, 0, 0, 0, 0],
     HDMI3DStructAll := 0x0101, HDMI3DMask := 0xFFFF,
     HDMI3DForamt := \<lparr>HDMI3DStructure = 6, HDMI2DVICOrder = 2, HDMI3DDetail = 0\<rparr> # replicate 30 zero_3d_format,
     HDMI3DFormatCount := 1\<rparr>"

lemma cbEDIDModule_ParseHDMIVSDB_roundtrip_witness:
  "cbEDIDModule_ParseHDMIVSDB (Some (0x71 # vsdb_payload sample_vsdb @ [9, 9])) (Some zero_vsdb) = (18, Some sample_vsdb) \<and>
   vsdb_payload sample_vsdb = [0x03, 0x0C, 0x00, 0x10, 0x00, 0xB8, 60, 0xA0, 5, 7, 0xA0, 0x43, 1, 3, 0x01, 0x01, 0x26]"
proof -
  have p: "vsdb_payload sample_vsdb = [0x03, 0x0C, 0x00, 0x10, 0x00, 0xB8, 60, 0xA0, 5, 7, 0xA0, 0x43, 1, 3, 0x01, 0x01, 0x26]"
    by code_simp
  have "video_valid sample_vsdb \<and> VSDBTag sample_vsdb = VENDOR_SPECIFIC_DATA_BLOCK_TAG \<and> LatencyFieldsPresent sample_vsdb \<and>
      \<not> ILatencyFieldsPresent sample_vsdb \<and> InterlacedVideoLatency sample_vsdb = 0 \<and> InterlacedAudioLatency sample_vsdb = 0"
    by code_simp
  moreover have "VSDBLength sample_vsdb = 17" "MaxTMDSClock sample_vsdb = ucast (60 :: u8) * 5" by (simp_all add: sample_vsdb_def)
  ultimately have "vsdb_valid sample_vsdb"
    unfolding vsdb_valid_def p by (auto simp: word_le_nat_alt intro: exI [of _ "60 :: u8"])
  moreover have "push_bit 5 (VSDBTag sample_vsdb) OR VSDBLength sample_vsdb = 0x71" "unat (VSDBLength sample_vsdb) = 17"
    by (simp_all add: sample_vsdb_def)
  ultimately show ?thesis
    using cbEDIDModule_ParseHDMIVSDB_roundtrip [of sample_vsdb "[9, 9]" zero_vsdb] p by simp
qed

section \<open>Blocks that are too short for what they announce\<close>

lemmas vsdb_stages = vsdb_body_def vsdb_header_def vsdb_caps_def vsdb_clock_def vsdb_flags_def vsdb_latency_def
  vsdb_ilatency_def vsdb_video_def video_flags_def video_lens_def paid_def reached_def

text \<open>
  A block that ends with the byte of the lengths: the number of extended formats it announces is
  kept, although no format has been read, so each of them has the code zero.
\<close>

theorem vsdb_vics_announced_only:
  assumes d: "d ! 0 = 0x6A" "bit (d ! 8) 5" "\<not> bit (d ! 8) 6" "\<not> bit (d ! 8) 7"
  shows "\<exists>v. cbEDIDModule_ParseHDMIVSDB (Some d) (Some old) = (11, Some v) \<and>
    HDMIVICLen v = drop_bit 5 (d ! 10) AND 7 \<and> HDMIVIC v = replicate 7 0"
proof -
  have "(d ! 0) AND 0x1F = 10" "drop_bit 5 (d ! 0) = 3" by (simp_all add: d(1))
  then show ?thesis
    using d(2-4)
    by (simp add: cbEDIDModule_ParseHDMIVSDB_def VENDOR_SPECIFIC_DATA_BLOCK_TAG_def vsdb_stages LatencyFieldsPresent_def
        ILatencyFieldsPresent_def HDMIVideoPresent_def zero_vsdb_def MAX_HDMI_VIC_LEN_def del: bit_0)
qed

lemma vsdb_vics_announced_only_witness:
  "\<exists>v. cbEDIDModule_ParseHDMIVSDB (Some [0x6A, 0x03, 0x0C, 0, 0x10, 0, 0xB8, 60, 0x20, 0, 0x60]) (Some zero_vsdb) = (11, Some v) \<and>
    HDMIVICLen v = 3 \<and> HDMIVIC v = replicate 7 0"
  using vsdb_vics_announced_only [of "[0x6A, 0x03, 0x0C, 0, 0x10, 0, 0xB8, 60, 0x20, 0, 0x60]" zero_vsdb] by simp

text \<open>
  A block of eleven payload bytes that announces two extended formats and holds one: the second is
  taken from the byte behind the block, which belongs to the next block or lies behind the buffer.
\<close>

theorem vsdb_vics_read_past_block:
  assumes d: "d ! 0 = 0x6B" "bit (d ! 8) 5" "\<not> bit (d ! 8) 6" "\<not> bit (d ! 8) 7" "d ! 10 = 0x40" "d ! 11 = 1"
    and behind: "d ! 12 = x" "1 \<le> x" "x \<le> 4"
  shows "\<exists>v. cbEDIDModule_ParseHDMIVSDB (Some d) (Some old) = (12, Some v) \<and> HDMIVICLen v = 2 \<and> take 2 (HDMIVIC v) = [1, x]"
proof -
  have "(d ! 0) AND 0x1F = 11" "drop_bit 5 (d ! 0) = 3" by (simp_all add: d(1))
  moreover have "video_vics d (w, 10) = Inl (w\<lparr>HDMIVIC := [1, x, 0, 0, 0, 0, 0], HDMIVICLen := 2\<rparr>)"
    if w: "HDMIVICLen w = 2" "HDMIVIC w = replicate 7 0" "VSDBLength w = 11" for w
  proof -
    have m: "map (\<lambda>i. d ! (1 + 10 + i)) [0..<2] = [1, x]" using d(6) behind(1) by (simp add: upt_rec)
    have two: "unat (2 :: u8) = 2" by simp
    have "(1 :: u8) \<le> 4" by simp
    then have loop: "vic_loop [1, x] (replicate 7 0, 0) = ([1, x, 0, 0, 0, 0, 0], 2)"
      using behind(2,3) by (simp add: CBIOS_HDMI_EXTENED_VIC_COUNTS_def numeral_eq_Suc)
    show ?thesis unfolding video_vics_def prod.case w two m Let_def loop by (simp add: paid_def w)
  qed
  ultimately show ?thesis
    using d(2-5)
    by (simp add: cbEDIDModule_ParseHDMIVSDB_def VENDOR_SPECIFIC_DATA_BLOCK_TAG_def vsdb_stages LatencyFieldsPresent_def
        ILatencyFieldsPresent_def HDMIVideoPresent_def zero_vsdb_def MAX_HDMI_VIC_LEN_def del: bit_0)
qed

lemma vsdb_vics_read_past_block_witness:
  "\<exists>v. cbEDIDModule_ParseHDMIVSDB (Some ([0x6B, 0x03, 0x0C, 0, 0x10, 0, 0xB8, 60, 0x20, 0, 0x40, 1] @ [4])) (Some zero_vsdb) =
    (12, Some v) \<and> HDMIVICLen v = 2 \<and> take 2 (HDMIVIC v) = [1, 4]"
  by (rule vsdb_vics_read_past_block) simp_all

section \<open>The capabilities of an HDMI Forum sink\<close>

definition HF_SINK_CAPABILITY_DATA_BLOCK :: u8 where "HF_SINK_CAPABILITY_DATA_BLOCK = 0x79"

text \<open>\<open>IEEEOUI\<close> are the three bytes of the union; the extended tag is the first of them.\<close>

record hf_scds =
  ScdsLength :: u8
  CTATag :: u8
  IEEEOUI :: "u8 \<times> u8 \<times> u8"
  ScdsVersion :: u8
  MaxTMDSCharacterRate :: u16
  ScdsCaps :: u16

definition zero_scds :: hf_scds where
  "zero_scds = \<lparr>ScdsLength = 0, CTATag = 0, IEEEOUI = (0, 0, 0), ScdsVersion = 0, MaxTMDSCharacterRate = 0, ScdsCaps = 0\<rparr>"

definition scds_body :: "u8 list \<Rightarrow> hf_scds \<Rightarrow> hf_scds" where
  "scds_body d v =
     (let v = v\<lparr>ScdsVersion := d ! 4, MaxTMDSCharacterRate := ucast (d ! 5) * 5, ScdsCaps := be16 (d ! 7) (d ! 6)\<rparr>
      in if 340 < MaxTMDSCharacterRate v then v\<lparr>ScdsCaps := set_bit 7 (ScdsCaps v)\<rparr> else v)"

definition cbEDIDModule_ParseHFSCDS :: "u8 list option \<Rightarrow> hf_scds option \<Rightarrow> nat \<times> hf_scds option" where
  "cbEDIDModule_ParseHFSCDS pSCDSDataInEDID pSCDSData =
     (case (pSCDSDataInEDID, pSCDSData) of
        (Some d, Some old) \<Rightarrow>
          let v = zero_scds\<lparr>ScdsLength := d ! 0 AND 0x1F, CTATag := drop_bit 5 (d ! 0)\<rparr>;
              v = (if CTATag v = VENDOR_SPECIFIC_DATA_BLOCK_TAG \<and> 7 \<le> ScdsLength v then v\<lparr>IEEEOUI := (d ! 1, d ! 2, d ! 3)\<rparr>
                   else if CTATag v = CEA_EXTENDED_BLOCK_TAG \<and> d ! 1 = HF_SINK_CAPABILITY_DATA_BLOCK \<and> 7 \<le> ScdsLength v
                   then v\<lparr>IEEEOUI := (d ! 1, 0, 0)\<rparr>
                   else v\<lparr>ScdsLength := 0\<rparr>);
              v = (if ScdsLength v \<noteq> 0 then scds_body d v else v)
          in (unat (ScdsLength v) + 1, Some v)
      | _ \<Rightarrow> (0, pSCDSData))"

text \<open>The two blocks that can carry the structure, with \<open>n\<close> payload bytes.\<close>

definition scds_tag :: "bool \<Rightarrow> u8" where
  "scds_tag vsdb = (if vsdb then VENDOR_SPECIFIC_DATA_BLOCK_TAG else CEA_EXTENDED_BLOCK_TAG)"

text \<open>
  The capability structure of the HDMI Forum reads the same from either of the two blocks that can
  carry it: its version, the rate in MHz, and its flag bits, to which a rate beyond 340 MHz adds that the
  status channel is there; a block too short or of another kind leaves everything zero and returns one byte.
\<close>

theorem cbEDIDModule_ParseHFSCDS_correct:
  assumes d: "d ! 0 = push_bit 5 (scds_tag vsdb) OR n" "n < 32" "vsdb \<or> d ! 1 = HF_SINK_CAPABILITY_DATA_BLOCK"
    and r: "cbEDIDModule_ParseHFSCDS (Some d) (Some old) = (len, Some v)"
  shows "if n < 7 then len = 1 \<and> ScdsVersion v = 0 \<and> MaxTMDSCharacterRate v = 0 \<and> ScdsCaps v = 0
    else len = unat n + 1 \<and> ScdsVersion v = d ! 4 \<and> unat (MaxTMDSCharacterRate v) = 5 * unat (d ! 5) \<and>
      (\<forall>i < 16. bit (ScdsCaps v) i \<longleftrightarrow> (if i < 8 then bit (d ! 6) i else bit (d ! 7) (i - 8)) \<or> i = 7 \<and> 68 < d ! 5)"
proof -
  have small: "scds_tag vsdb < 2 ^ 3" "n < 2 ^ 5"
    using d(2) by (simp_all add: scds_tag_def VENDOR_SPECIFIC_DATA_BLOCK_TAG_def CEA_EXTENDED_BLOCK_TAG_def)
  have ty: "(0x1F :: u8) = mask 5" by (simp add: mask_eq_exp_minus_1)
  have b: "d ! 0 AND 0x1F = n" "drop_bit 5 (d ! 0) = scds_tag vsdb"
    unfolding d(1) ty using split_byte [OF small] by simp_all
  have rate: "unat (ucast (d ! 5) * 5 :: u16) = 5 * unat (d ! 5)"
    using unsigned_less [where 'a = nat, of "d ! 5"]
    by (simp add: unat_word_ariths unsigned_ucast_eq take_bit_nat_eq_self)
  have over: "(340 :: u16) < ucast (d ! 5) * 5 \<longleftrightarrow> 68 < d ! 5" by (auto simp: word_less_nat_alt rate)
  have bits: "bit (be16 (d ! 7) (d ! 6)) i \<longleftrightarrow> (if i < 8 then bit (d ! 6) i else bit (d ! 7) (i - 8))" if "i < 16" for i
    using that by (auto simp: be16_def bit_simps dest: bit_imp_le_length)
  show ?thesis
  proof (cases "n < 7")
    case True
    then have "\<not> 7 \<le> n" by simp
    then have "cbEDIDModule_ParseHFSCDS (Some d) (Some old) = (1, Some (zero_scds\<lparr>ScdsLength := 0, CTATag := scds_tag vsdb\<rparr>))"
      by (simp add: cbEDIDModule_ParseHFSCDS_def b Let_def zero_scds_def)
    then show ?thesis using r True by (auto simp: zero_scds_def)
  next
    case False
    then have n: "7 \<le> n" by simp
    then have nz: "n \<noteq> 0" by (auto simp: word_le_nat_alt)
    define w where "w = zero_scds\<lparr>ScdsLength := n, CTATag := scds_tag vsdb,
        IEEEOUI := (if vsdb then (d ! 1, d ! 2, d ! 3) else (d ! 1, 0, 0))\<rparr>"
    have "cbEDIDModule_ParseHFSCDS (Some d) (Some old) = (unat (ScdsLength (scds_body d w)) + 1, Some (scds_body d w))"
      using n nz d(3) by (cases vsdb)
        (simp_all add: cbEDIDModule_ParseHFSCDS_def b Let_def w_def scds_tag_def VENDOR_SPECIFIC_DATA_BLOCK_TAG_def
          CEA_EXTENDED_BLOCK_TAG_def HF_SINK_CAPABILITY_DATA_BLOCK_def)
    then have "v = scds_body d w" "len = unat n + 1" using r by (auto simp: scds_body_def w_def Let_def zero_scds_def)
    then show ?thesis
      using False bits by (auto simp: scds_body_def Let_def over rate bit_set_bit_iff)
  qed
qed

lemma cbEDIDModule_ParseHFSCDS_correct_witness:
  "\<exists>v. cbEDIDModule_ParseHFSCDS (Some [0xE7, 0x79, 0, 0, 1, 120, 0x40, 0x07]) (Some zero_scds) = (8, Some v) \<and>
     unat (MaxTMDSCharacterRate v) = 600 \<and> bit (ScdsCaps v) 7"
proof -
  let ?d = "[0xE7, 0x79, 0, 0, 1, 120, 0x40, 0x07] :: u8 list"
  obtain len v where r: "cbEDIDModule_ParseHFSCDS (Some ?d) (Some zero_scds) = (len, Some v)"
    by (simp add: cbEDIDModule_ParseHFSCDS_def Let_def)
  have "if (7 :: u8) < 7 then len = 1 \<and> ScdsVersion v = 0 \<and> MaxTMDSCharacterRate v = 0 \<and> ScdsCaps v = 0
    else len = unat (7 :: u8) + 1 \<and> ScdsVersion v = ?d ! 4 \<and> unat (MaxTMDSCharacterRate v) = 5 * unat (?d ! 5) \<and>
      (\<forall>i < 16. bit (ScdsCaps v) i \<longleftrightarrow> (if i < 8 then bit (?d ! 6) i else bit (?d ! 7) (i - 8)) \<or> i = 7 \<and> 68 < ?d ! 5)"
    by (rule cbEDIDModule_ParseHFSCDS_correct [OF _ _ _ r, of False])
      (simp_all add: scds_tag_def CEA_EXTENDED_BLOCK_TAG_def HF_SINK_CAPABILITY_DATA_BLOCK_def)
  then show ?thesis using r by auto
qed

end
