(* ===== verification/Cea_Audio.thy ===== *)
theory Cea_Audio
  imports Edid
begin

text \<open>
  The audio formats of an HDMI sink (\<^verbatim>\<open>cbEDIDModule_GetHDMIAudioFormat\<close>, \<^verbatim>\<open>cbEDIDPatchHDMIAudio\<close>,
  \<^verbatim>\<open>cbEDIDModule_SADPatch\<close> and the descriptors of 3D audio in \<^verbatim>\<open>cbEDIDModule_ParseCEAExtBlock\<close>,
  all in \<^verbatim>\<open>cbios/Util/CBiosEDID.c\<close>). The fields that only some formats have share one word, as in the
  union of the source.
\<close>

section \<open>Data\<close>

definition CBIOS_HDMI_AUDIO_FORMAT_COUNTS :: u32 where "CBIOS_HDMI_AUDIO_FORMAT_COUNTS = 16"
definition CBIOS_AUDIO_FORMAT_LPCM :: u32 where "CBIOS_AUDIO_FORMAT_LPCM = 1"
definition CBIOS_AUDIO_FORMAT_HE_AAC :: u32 where "CBIOS_AUDIO_FORMAT_HE_AAC = 15"
definition CBIOS_AUDIO_FORMAT_HE_AAC_V2 :: u32 where "CBIOS_AUDIO_FORMAT_HE_AAC_V2 = 16"
definition CBIOS_AUDIO_FORMAT_MPEG_SURROUND :: u32 where "CBIOS_AUDIO_FORMAT_MPEG_SURROUND = 17"

record hdmi_audio_info =
  Format :: u32
  MaxChannelNum :: u32
  SampleRateUnit :: u32
  AudioUnit :: u32

definition zero_audio :: hdmi_audio_info where
  "zero_audio = \<lparr>Format = 0, MaxChannelNum = 0, SampleRateUnit = 0, AudioUnit = 0\<rparr>"

text \<open>\<^verbatim>\<open>BD_16bit = b\<close> and its like: one bit of the shared word.\<close>

definition put_bit :: "nat \<Rightarrow> bool \<Rightarrow> u32 \<Rightarrow> u32" where
  "put_bit n b w = (if b then set_bit n w else unset_bit n w)"

text \<open>The third byte of a descriptor, which means something else for every kind of format.\<close>

definition audio_detail :: "u32 \<Rightarrow> u8 \<Rightarrow> hdmi_audio_info \<Rightarrow> hdmi_audio_info" where
  "audio_detail AudioFormatCode x a =
     (if AudioFormatCode = 1 then
        a\<lparr>AudioUnit := put_bit 2 (bit x 2) (put_bit 1 (bit x 1) (put_bit 0 (bit x 0) (AudioUnit a)))\<rparr>
      else if AudioFormatCode \<le> 8 then a\<lparr>AudioUnit := ucast x * 8\<rparr>
      else if AudioFormatCode \<le> 13 then a\<lparr>AudioUnit := ucast x\<rparr>
      else if AudioFormatCode = 14 then a\<lparr>AudioUnit := (AudioUnit a AND NOT 7) OR (ucast x AND 7)\<rparr>
      else if drop_bit 3 x = 1 then a\<lparr>Format := CBIOS_AUDIO_FORMAT_HE_AAC\<rparr>
      else if drop_bit 3 x = 2 then a\<lparr>Format := CBIOS_AUDIO_FORMAT_HE_AAC_V2\<rparr>
      else if drop_bit 3 x = 3 then a\<lparr>Format := CBIOS_AUDIO_FORMAT_MPEG_SURROUND\<rparr>
      else a)"

section \<open>Reading the descriptors of an audio data block\<close>

definition sad_code :: "u8 \<Rightarrow> u32" where "sad_code x = ucast (drop_bit 3 x AND 0xF)"

text \<open>One descriptor written over a slot.\<close>

definition sad_fill :: "u8 \<Rightarrow> u8 \<Rightarrow> u8 \<Rightarrow> hdmi_audio_info \<Rightarrow> hdmi_audio_info" where
  "sad_fill x y z a =
     (let a = (if sad_code x < 15 then a\<lparr>Format := sad_code x\<rparr> else a);
          a = a\<lparr>MaxChannelNum := ucast (x AND 0x7) + 1, SampleRateUnit := ucast (y AND 0x7F)\<rparr>
      in audio_detail (sad_code x) z a)"

definition audio_step :: "u8 list \<Rightarrow> nat \<Rightarrow> hdmi_audio_info list \<times> u32 \<Rightarrow> hdmi_audio_info list \<times> u32" where
  "audio_step d j = (\<lambda>(fs, num).
     if CBIOS_HDMI_AUDIO_FORMAT_COUNTS \<le> num then (fs, num)
     else if 0 < sad_code (d ! (1 + j * 3)) \<and> sad_code (d ! (1 + j * 3)) < 16 then
       (fs[unat num := sad_fill (d ! (1 + j * 3)) (d ! (2 + j * 3)) (d ! (3 + j * 3)) (fs ! unat num)], num + 1)
     else (fs, num))"

text \<open>The formats, how many they are, and how many were added. A round behind the \<^verbatim>\<open>break\<close> does nothing.\<close>

definition read_audio_formats :: "u8 list \<Rightarrow> hdmi_audio_info list \<times> u32 \<Rightarrow> (hdmi_audio_info list \<times> u32) \<times> u32" where
  "read_audio_formats d s =
     (let PayloadLength = unat (d ! 0 AND 0x1F);
          s' = fold (audio_step d) [0..<PayloadLength div 3] s
      in (s', snd s' - snd s))"

section \<open>Patches\<close>

fun find_lpcm :: "hdmi_audio_info list \<Rightarrow> nat \<Rightarrow> nat \<Rightarrow> bool \<times> nat" where
  "find_lpcm fs i 0 = (False, i)"
| "find_lpcm fs i (Suc n) = (if Format (fs ! i) = CBIOS_AUDIO_FORMAT_LPCM then (True, i) else find_lpcm fs (i + 1) n)"

text \<open>A sink with basic audio gets an entry for two channels of linear PCM when it lists none.\<close>

definition patch_audio_formats :: "bool \<Rightarrow> hdmi_audio_info list \<times> u32 \<Rightarrow> hdmi_audio_info list \<times> u32" where
  "patch_audio_formats IsCEA861Audio = (\<lambda>(fs, num).
     if \<not> IsCEA861Audio then (fs, num)
     else
       let (PcmSupport, i) = find_lpcm fs 0 (unat num)
       in if PcmSupport then (fs, num)
          else
            let (i, num) = (if unat CBIOS_HDMI_AUDIO_FORMAT_COUNTS \<le> i
                            then (unat CBIOS_HDMI_AUDIO_FORMAT_COUNTS - 1, num) else (i, num + 1))
            in (fs[i := (fs ! i)\<lparr>Format := CBIOS_AUDIO_FORMAT_LPCM, MaxChannelNum := 2, SampleRateUnit := 7,
                  AudioUnit := put_bit 0 True (AudioUnit (fs ! i))\<rparr>], num))"

text \<open>Taking 24 bit samples back, in the raw descriptors and in the decoded ones.\<close>

definition sad_patch_raw :: "u8 \<times> u8 \<times> u8 \<Rightarrow> u8 \<times> u8 \<times> u8" where
  "sad_patch_raw = (\<lambda>(x, y, z).
     if drop_bit 3 x AND 0xF = 1 \<and> drop_bit 2 z AND 1 \<noteq> 0 then (x, y, z AND 0xFB) else (x, y, z))"

definition sad_patch_format :: "hdmi_audio_info \<Rightarrow> hdmi_audio_info" where
  "sad_patch_format a = (if Format a = CBIOS_AUDIO_FORMAT_LPCM then a\<lparr>AudioUnit := put_bit 2 False (AudioUnit a)\<rparr> else a)"

definition patch_sads :: "(u8 \<times> u8 \<times> u8) list \<Rightarrow> u8 \<Rightarrow> hdmi_audio_info list \<times> u32 \<Rightarrow>
    (u8 \<times> u8 \<times> u8) list \<times> (hdmi_audio_info list \<times> u32)" where
  "patch_sads sads SADCnt = (\<lambda>(fs, num).
     (fold (\<lambda>i s. s[i := sad_patch_raw (s ! i)]) [0..<unat SADCnt] sads,
      (fold (\<lambda>i s. s[i := sad_patch_format (s ! i)]) [0..<unat num] fs, num)))"

section \<open>3D audio\<close>

text \<open>
  A descriptor of 3D audio is four bytes long. Its format goes into the slot even for the extended
  code 15, which the third byte may then overwrite.
\<close>

definition audio_3d_fill :: "u8 \<Rightarrow> u8 \<Rightarrow> u8 \<Rightarrow> u8 \<Rightarrow> hdmi_audio_info \<Rightarrow> hdmi_audio_info" where
  "audio_3d_fill w x y z a =
     (let code = ucast (w AND 0xF)
      in audio_detail code z
           (a\<lparr>Format := code, MaxChannelNum := ucast (x AND 0x1F) + 1, SampleRateUnit := ucast (y AND 0x7F)\<rparr>))"

record hdmi_3d_audio =
  MaxStreamCount :: u8
  SupportsMSNonMixed :: u8
  NumHDMI3DAD :: u8
  HDMI3DAudioDesc :: "hdmi_audio_info list"

definition audio_3d_block :: "u8 list \<Rightarrow> hdmi_3d_audio \<Rightarrow> hdmi_3d_audio" where
  "audio_3d_block d a =
     (let a = a\<lparr>MaxStreamCount := d ! 2 AND 0x3, SupportsMSNonMixed := drop_bit 2 (d ! 2) AND 0x1, NumHDMI3DAD := d ! 3 AND 0x7\<rparr>
      in a\<lparr>HDMI3DAudioDesc := fold (\<lambda>i s. s[i := audio_3d_fill (d ! (4 + i * 4)) (d ! (5 + i * 4)) (d ! (6 + i * 4)) (d ! (7 + i * 4)) (s ! i)])
             [0..<unat (NumHDMI3DAD a)] (HDMI3DAudioDesc a)\<rparr>)"

section \<open>What ends up in the list\<close>

text \<open>A list of formats as the array holds it: the formats, then untouched slots.\<close>

definition listing :: "hdmi_audio_info list \<Rightarrow> hdmi_audio_info list \<times> u32" where
  "listing as = (as @ replicate (16 - length as) zero_audio, of_nat (length as))"

text \<open>The formats an audio data block describes.\<close>

definition block_sads :: "u8 list \<Rightarrow> (u8 \<times> u8 \<times> u8) list" where
  "block_sads d = map (\<lambda>j. (d ! (1 + j * 3), d ! (2 + j * 3), d ! (3 + j * 3))) [0..<unat (d ! 0 AND 0x1F) div 3]"

definition sads_infos :: "(u8 \<times> u8 \<times> u8) list \<Rightarrow> hdmi_audio_info list" where
  "sads_infos sads = map (\<lambda>(x, y, z). sad_fill x y z zero_audio) (filter (\<lambda>(x, y, z). sad_code x \<noteq> 0) sads)"

lemma sad_code_less: "sad_code x < 16"
proof -
  have "drop_bit 3 x AND 0xF \<le> (0xF :: u8)" by (rule word_and_le1)
  then show ?thesis
    by (simp add: sad_code_def word_less_nat_alt word_le_nat_alt unsigned_ucast_eq take_bit_nat_eq_self
        order.strict_trans1 [of _ 15])
qed

lemma listing_count: "length as \<le> 16 \<Longrightarrow> unat (snd (listing as)) = length as"
  by (simp add: listing_def unat_of_nat)

lemma audio_step_listing:
  assumes len: "length as \<le> 16"
  shows "audio_step d j (listing as) = listing (take 16 (as @ sads_infos [(d ! (1 + j * 3), d ! (2 + j * 3), d ! (3 + j * 3))]))"
proof (cases "length as = 16")
  case True
  then show ?thesis by (simp add: audio_step_def listing_def CBIOS_HDMI_AUDIO_FORMAT_COUNTS_def)
next
  case False
  then have less: "length as < 16" using len by simp
  then have full: "\<not> (16 :: u32) \<le> of_nat (length as)" by (simp add: word_le_nat_alt unat_of_nat)
  have u: "unat (of_nat (length as) :: u32) = length as" using less by (simp add: unat_of_nat)
  obtain k where k: "16 - length as = Suc k" using less by (metis Suc_diff_Suc)
  then have k': "16 - Suc (length as) = k" by simp
  show ?thesis
    using full u k k' less sad_code_less [of "d ! (1 + j * 3)"]
    by (auto simp: audio_step_def listing_def CBIOS_HDMI_AUDIO_FORMAT_COUNTS_def sads_infos_def list_update_append
        nth_append word_gt_0)
qed

lemma sads_infos_append: "sads_infos (xs @ ys) = sads_infos xs @ sads_infos ys"
  by (simp add: sads_infos_def)

lemma take_take_append: "take n (take n xs @ ys) = take n (xs @ ys)"
  by (simp add: min_def)

lemma audio_steps_listing:
  assumes len: "length as \<le> 16"
  shows "fold (audio_step d) [0..<n] (listing as) =
    listing (take 16 (as @ sads_infos (map (\<lambda>j. (d ! (1 + j * 3), d ! (2 + j * 3), d ! (3 + j * 3))) [0..<n])))"
proof (induction n)
  case 0
  then show ?case using len by (simp add: sads_infos_def)
next
  case (Suc n)
  then show ?case
    by (simp add: audio_step_listing sads_infos_append take_take_append del: take_append)
qed

lemma read_listing:
  "length as \<le> 16 \<Longrightarrow> fst (read_audio_formats d (listing as)) = listing (take 16 (as @ sads_infos (block_sads d)))"
  by (simp add: read_audio_formats_def Let_def audio_steps_listing block_sads_def)

lemma find_lpcm_spec:
  "fst (find_lpcm fs i n) \<longleftrightarrow> (\<exists>k < n. Format (fs ! (i + k)) = CBIOS_AUDIO_FORMAT_LPCM)"
  "\<not> fst (find_lpcm fs i n) \<Longrightarrow> snd (find_lpcm fs i n) = i + n"
proof (induction n arbitrary: i)
  case (Suc n)
  {
    case 1
    have "(\<exists>k < Suc n. Format (fs ! (i + k)) = CBIOS_AUDIO_FORMAT_LPCM) \<longleftrightarrow>
        Format (fs ! i) = CBIOS_AUDIO_FORMAT_LPCM \<or> (\<exists>k < n. Format (fs ! (i + 1 + k)) = CBIOS_AUDIO_FORMAT_LPCM)"
      by (simp add: Ex_less_Suc2)
    then show ?case using Suc.IH(1) [of "i + 1"] by simp
  next
    case 2
    then show ?case using Suc.IH(2) [of "i + 1"] by (simp split: if_splits)
  }
qed simp_all

definition has_lpcm :: "hdmi_audio_info list \<Rightarrow> bool" where
  "has_lpcm as \<longleftrightarrow> (\<exists>a \<in> set as. Format a = CBIOS_AUDIO_FORMAT_LPCM)"

text \<open>Two channels of linear PCM with 16 bits at 32, 44.1 and 48 kHz, over what a slot held.\<close>

definition basic_pcm :: "hdmi_audio_info \<Rightarrow> hdmi_audio_info" where
  "basic_pcm a = \<lparr>Format = CBIOS_AUDIO_FORMAT_LPCM, MaxChannelNum = 2, SampleRateUnit = 7, AudioUnit = set_bit 0 (AudioUnit a)\<rparr>"

definition patched :: "bool \<Rightarrow> hdmi_audio_info list \<Rightarrow> hdmi_audio_info list" where
  "patched basic as = (if \<not> basic \<or> has_lpcm as then as
     else if length as < 16 then as @ [basic_pcm zero_audio] else butlast as @ [basic_pcm (last as)])"

lemma patch_listing:
  assumes len: "length as \<le> 16"
  shows "patch_audio_formats basic (listing as) = listing (patched basic as)"
proof (cases "basic")
  case basic: True
  obtain pcm i where find: "find_lpcm (as @ replicate (16 - length as) zero_audio) 0 (length as) = (pcm, i)"
    by (cases "find_lpcm (as @ replicate (16 - length as) zero_audio) 0 (length as)")
  have "pcm \<longleftrightarrow> (\<exists>k < length as. Format ((as @ replicate (16 - length as) zero_audio) ! k) = CBIOS_AUDIO_FORMAT_LPCM)"
    using find_lpcm_spec(1) [of "as @ replicate (16 - length as) zero_audio" 0 "length as", unfolded find] by simp
  then have pcm: "pcm \<longleftrightarrow> has_lpcm as"
    unfolding has_lpcm_def by (simp add: nth_append cong: conj_cong) (metis in_set_conv_nth)
  have i: "\<not> pcm \<Longrightarrow> i = length as"
    using find_lpcm_spec(2) [of "as @ replicate (16 - length as) zero_audio" 0 "length as", unfolded find] by simp
  have u: "unat (of_nat (length as) :: u32) = length as" using len by (simp add: unat_of_nat)
  show ?thesis
  proof (cases "pcm")
    case True
    then show ?thesis using pcm find u by (simp add: patch_audio_formats_def listing_def patched_def)
  next
    case none: False
    show ?thesis
    proof (cases "length as = 16")
      case True
      obtain bs b where as: "as = bs @ [b]" using True by (cases as rule: rev_cases) auto
      have bs: "length bs = 15" using True as by simp
      have lst: "listing as = (bs @ [b], 16)" using bs by (simp add: listing_def as)
      have "find_lpcm (bs @ [b]) 0 16 = (False, 16)" using find none i True by (simp add: as bs)
      then have "patch_audio_formats basic (bs @ [b], 16) = (bs @ [basic_pcm b], 16)"
        using basic bs by (simp add: patch_audio_formats_def CBIOS_HDMI_AUDIO_FORMAT_COUNTS_def nth_append
            list_update_append put_bit_def basic_pcm_def)
      moreover have "patched basic as = bs @ [basic_pcm b]"
        using basic none pcm True by (simp add: patched_def as)
      moreover have "listing (bs @ [basic_pcm b]) = (bs @ [basic_pcm b], 16)" by (simp add: listing_def bs)
      ultimately show ?thesis by (simp add: lst)
    next
      case False
      then have less: "length as < 16" using len by simp
      obtain k where k: "16 - length as = Suc k" using less by (metis Suc_diff_Suc)
      then have k': "16 - Suc (length as) = k" by simp
      show ?thesis
        using less basic none pcm i find u k k'
        by (simp add: patch_audio_formats_def listing_def patched_def CBIOS_HDMI_AUDIO_FORMAT_COUNTS_def nth_append
            put_bit_def basic_pcm_def list_update_append)
    qed
  qed
qed (simp add: patch_audio_formats_def listing_def patched_def)


lemma patched_props:
  assumes "length as \<le> 16"
  shows "length (patched basic as) \<le> 16" "basic \<Longrightarrow> has_lpcm (patched basic as)" "has_lpcm as \<Longrightarrow> patched basic as = as"
  using assms by (auto simp: patched_def has_lpcm_def basic_pcm_def)

text \<open>
  A sink with basic audio that describes sixteen formats, none of them linear PCM: the entry that is
  turned into linear PCM keeps the bits of the word it shares with the format it replaces, so that it
  claims 20 and 24 bit samples whenever the bit rate or value of that format has these bits.
\<close>

theorem patched_keeps_bits:
  assumes "length as = 16" "\<not> has_lpcm as" "n < 32"
  shows "Format (last (patched True as)) = CBIOS_AUDIO_FORMAT_LPCM \<and>
    (bit (AudioUnit (last (patched True as))) n \<longleftrightarrow> n = 0 \<or> bit (AudioUnit (last as)) n)"
  using assms by (auto simp: patched_def basic_pcm_def bit_set_bit_iff)

lemma patched_keeps_bits_witness:
  "bit (AudioUnit (last (patched True (replicate 15 (sad_fill 0x57 0x7F 0x06 zero_audio) @ [sad_fill 0x57 0x7F 0x06 zero_audio])))) 2"
proof -
  let ?as = "replicate 15 (sad_fill 0x57 0x7F 0x06 zero_audio) @ [sad_fill 0x57 0x7F 0x06 zero_audio]"
  have f: "Format (sad_fill 0x57 0x7F 0x06 zero_audio) = 10" "AudioUnit (sad_fill 0x57 0x7F 0x06 zero_audio) = 6"
    by code_simp+
  then have "\<not> has_lpcm ?as" by (simp add: has_lpcm_def CBIOS_AUDIO_FORMAT_LPCM_def)
  then show ?thesis using patched_keeps_bits [of ?as 2] f by simp
qed

section \<open>Taking 24 bits back\<close>

lemma fold_update: "n \<le> length xs \<Longrightarrow> fold (\<lambda>i s. s[i := f (s ! i)]) [0..<n] xs = map f (take n xs) @ drop n xs"
proof (induction n)
  case (Suc n)
  then have ih: "fold (\<lambda>i s. s[i := f (s ! i)]) [0..<n] xs = map f (take n xs) @ drop n xs" by simp
  have n: "length (map f (take n xs)) = n" using Suc.prems by simp
  obtain x where x: "drop n xs = x # drop (Suc n) xs" "xs ! n = x" using Suc.prems by (metis Cons_nth_drop_Suc Suc_le_eq)
  then have "(map f (take n xs) @ drop n xs)[n := f ((map f (take n xs) @ drop n xs) ! n)] = map f (take n xs) @ f x # drop (Suc n) xs"
    using n by (simp add: nth_append list_update_append)
  then show ?case using ih x Suc.prems by (simp add: take_Suc_conv_app_nth)
qed simp

text \<open>Nothing but the bit for 24 bit samples of linear PCM is taken out.\<close>

definition without_24bit :: "u8 \<times> u8 \<times> u8 \<Rightarrow> u8 \<times> u8 \<times> u8 \<Rightarrow> bool" where
  "without_24bit s s' \<longleftrightarrow> (case (s, s') of ((x, y, z), (x', y', z')) \<Rightarrow>
     x' = x \<and> y' = y \<and> (if drop_bit 3 x AND 0xF = 1 then z' AND 4 = 0 \<and> z' OR 4 = z OR 4 else z' = z))"

lemma sad_patch_raw_spec: "without_24bit s (sad_patch_raw s)"
proof -
  obtain x y z where s: "s = (x, y, z)" by (cases s)
  have clr: "(z AND 0xFB) AND 4 = 0" by (simp add: and.assoc)
  have full: "4 OR 0xFB = (- 1 :: u8)" by simp
  have keep: "(z AND 0xFB) OR 4 = z OR 4"
    unfolding or.commute [of _ 4] bit.disj_conj_distrib full by (rule and.right_neutral)
  have bit2: "drop_bit 2 z AND 1 \<noteq> 0 \<longleftrightarrow> z AND 4 \<noteq> 0"
    using bit_iff_and_push_bit_not_eq_0 [of z 2] by (simp add: and_one_eq bit_iff_odd_drop_bit flip: odd_iff_mod_2_eq_one)
  show ?thesis using clr keep bit2 by (auto simp: s sad_patch_raw_def without_24bit_def)
qed

text \<open>
  The patch for audio tests: every recorded descriptor of linear PCM, raw or decoded, loses the offer
  of 24 bit samples and nothing else; other descriptors and the slots behind the counts are untouched.
\<close>

theorem cbEDIDModule_SADPatch_correct:
  assumes "unat n \<le> length sads" "unat num \<le> length fs"
    and r: "patch_sads sads n (fs, num) = (sads', fs', num')"
  shows "num' = num \<and> length sads' = length sads \<and> length fs' = length fs \<and>
    (\<forall>i < length sads. if i < unat n then without_24bit (sads ! i) (sads' ! i) else sads' ! i = sads ! i) \<and>
    (\<forall>i < length fs. if i < unat num \<and> Format (fs ! i) = CBIOS_AUDIO_FORMAT_LPCM
       then fs' ! i = (fs ! i)\<lparr>AudioUnit := unset_bit 2 (AudioUnit (fs ! i))\<rparr> else fs' ! i = fs ! i)"
proof -
  have "sads' = map sad_patch_raw (take (unat n) sads) @ drop (unat n) sads"
    "fs' = map sad_patch_format (take (unat num) fs) @ drop (unat num) fs" "num' = num"
    using r assms(1,2) by (auto simp: patch_sads_def fold_update)
  then show ?thesis
    using assms(1,2) sad_patch_raw_spec by (auto simp: nth_append sad_patch_format_def put_bit_def)
qed

lemma cbEDIDModule_SADPatch_correct_witness:
  "\<exists>s fs'. patch_sads [(0x09, 0x07, 0x07), (0x11, 0x07, 0x07)] 2 ([sad_fill 0x09 0x07 0x07 zero_audio], 1) = (s, fs', 1) \<and>
     without_24bit (0x09, 0x07, 0x07) (s ! 0) \<and> \<not> bit (AudioUnit (fs' ! 0)) 2"
proof -
  let ?s = "[(0x09, 0x07, 0x07), (0x11, 0x07, 0x07)] :: (u8 \<times> u8 \<times> u8) list" and ?fs = "[sad_fill 0x09 0x07 0x07 zero_audio]"
  obtain s fs' num' where r: "patch_sads ?s 2 (?fs, 1) = (s, fs', num')" by (cases "patch_sads ?s 2 (?fs, 1)")
  have "Format (?fs ! 0) = CBIOS_AUDIO_FORMAT_LPCM" by code_simp
  moreover have u: "unat (2 :: u8) = 2" "unat (1 :: u32) = 1" by simp_all
  ultimately have "num' = 1" "without_24bit (?s ! 0) (s ! 0)" "fs' ! 0 = (?fs ! 0)\<lparr>AudioUnit := unset_bit 2 (AudioUnit (?fs ! 0))\<rparr>"
    using cbEDIDModule_SADPatch_correct [OF _ _ r] by auto
  then show ?thesis using r by (auto simp: bit_unset_bit_iff)
qed

end
