(* ===== verification/Monitor_Attrib.thy ===== *)
theory Monitor_Attrib
  imports Cea_Vendor Cea_Audio
begin

text \<open>
  What the driver knows about a monitor apart from its timings (\<^verbatim>\<open>CBIOS_MONITOR_MISC_ATTRIB\<close>), and the
  first pass over an EDID that collects it: \<^verbatim>\<open>cbEDIDModule_GetMonitorAttrib\<close> and the functions it calls,
  in \<^verbatim>\<open>cbios/Util/CBiosEDID.c\<close> and \<^verbatim>\<open>cbios/Device/CBiosShare.c\<close>.

  The array of extended data blocks is indexed by their tags, and every tag is used through one member of
  the union; the record has a field for each of these members.
\<close>

section \<open>State\<close>

definition MAX_SVD_COUNT :: nat where "MAX_SVD_COUNT = 31"
definition CBIOS_EDID_MAX_BLK_CNT :: nat where "CBIOS_EDID_MAX_BLK_CNT = 8"
definition MAX_SVR_LEN :: nat where "MAX_SVR_LEN = 31"
definition MAX_HDMI_3D_AUDIO_DESC_NUM :: nat where "MAX_HDMI_3D_AUDIO_DESC_NUM = 8"

record cea_svd_data =
  SVDCount :: u8
  SVD :: "u8 list"

record chromaticity =
  Red :: "u16 \<times> u16"
  Green :: "u16 \<times> u16"
  Blue :: "u16 \<times> u16"
  White :: "u16 \<times> u16"

record mrl =
  bSupportFreeSync :: bool
  MrlFlags :: u8
  MinVerRate :: u16
  MaxVerRate :: u16
  MinHorRate :: u16
  MaxHorRate :: u16
  MaxPixelClock :: u16

datatype info_frame = HDMISpecific | HFSpecific | AVI | SourceProductDesc | Audio | MpegSource | NTSCVBI

text \<open>The support bit and the priority, which is a bit field of one bit.\<close>

record info_frame_caps =
  bSupport :: bool
  Priority :: bool

record monitor_attrib =
  IsCEA861Monitor :: bool
  IsCEA861RGB :: bool
  IsCEA861YCbCr422 :: bool
  IsCEA861YCbCr444 :: bool
  IsCEA861Audio :: bool
  IsCEA861UnderScan :: bool
  IsCEA861HDMI :: bool
  NativeFormatNum :: u32
  CeaTag :: u8
  RevisionNumber :: u8
  OffsetOfDetailedTimingBlock :: u8
  VSDBData :: hdmi_vsdb
  HFSCDSData :: hf_scds
  SVDData :: "cea_svd_data list"
  VideoCapabilityData :: u8
  ColorimetryData :: "u8 \<times> u8"
  HDRStaticMetaData :: "u8 list"
  HDMIAudioData :: hdmi_3d_audio
  bStereoViewSupport :: bool
  StereoViewType :: u32
  ManufactureName :: "u8 list"
  ProductCode :: "u8 list"
  MonitorName :: "u8 list"
  MonitorID :: "u8 list"
  Alphanumeric :: "u8 list"
  SAD_Count :: u8
  CEA_SADs :: "(u8 \<times> u8 \<times> u8) list"
  SpeakerAllocationData :: u8
  MonitorHorSize :: u16
  MonitorVerSize :: u16
  NumOfAdditionalVSIFs :: u8
  InfoFrameSupCaps :: "info_frame \<Rightarrow> info_frame_caps"
  ShortVideoRef :: "(u8 \<times> u8) list"
  Chromaticity :: chromaticity
  MRLData :: mrl

text \<open>After \<^verbatim>\<open>cb_memset\<close>.\<close>

definition zero_mrl :: mrl where
  "zero_mrl = \<lparr>bSupportFreeSync = False, MrlFlags = 0, MinVerRate = 0, MaxVerRate = 0, MinHorRate = 0, MaxHorRate = 0,
     MaxPixelClock = 0\<rparr>"

definition zero_monitor :: monitor_attrib where
  "zero_monitor =
     \<lparr>IsCEA861Monitor = False, IsCEA861RGB = False, IsCEA861YCbCr422 = False, IsCEA861YCbCr444 = False,
      IsCEA861Audio = False, IsCEA861UnderScan = False, IsCEA861HDMI = False, NativeFormatNum = 0, CeaTag = 0,
      RevisionNumber = 0, OffsetOfDetailedTimingBlock = 0, VSDBData = zero_vsdb, HFSCDSData = zero_scds,
      SVDData = replicate (CBIOS_EDID_MAX_BLK_CNT - 1) \<lparr>SVDCount = 0, SVD = replicate MAX_SVD_COUNT 0\<rparr>,
      VideoCapabilityData = 0, ColorimetryData = (0, 0), HDRStaticMetaData = replicate 5 0,
      HDMIAudioData = \<lparr>MaxStreamCount = 0, SupportsMSNonMixed = 0, NumHDMI3DAD = 0,
        HDMI3DAudioDesc = replicate MAX_HDMI_3D_AUDIO_DESC_NUM zero_audio\<rparr>,
      bStereoViewSupport = False, StereoViewType = 0, ManufactureName = [0, 0], ProductCode = [0, 0],
      MonitorName = replicate 16 0, MonitorID = replicate 8 0, Alphanumeric = replicate 13 0, SAD_Count = 0,
      CEA_SADs = replicate 15 (0, 0, 0), SpeakerAllocationData = 0, MonitorHorSize = 0, MonitorVerSize = 0,
      NumOfAdditionalVSIFs = 0, InfoFrameSupCaps = (\<lambda>f. \<lparr>bSupport = False, Priority = False\<rparr>),
      ShortVideoRef = replicate MAX_SVR_LEN (0, 0),
      Chromaticity = \<lparr>Red = (0, 0), Green = (0, 0), Blue = (0, 0), White = (0, 0)\<rparr>, MRLData = zero_mrl\<rparr>"

section \<open>Strings\<close>

text \<open>
  \<^verbatim>\<open>cbItoA\<close> writes the digits from the last to the first, fills up, and turns them around in place.
\<close>

definition digit_chars :: "u8 list" where
  "digit_chars = [0x30, 0x31, 0x32, 0x33, 0x34, 0x35, 0x36, 0x37, 0x38, 0x39] @ map (\<lambda>k. 0x41 + of_nat k) [0..<26]"

function itoa_loop :: "nat \<Rightarrow> nat \<Rightarrow> nat \<Rightarrow> u8 list \<Rightarrow> u8 list" where
  "itoa_loop ulValue byRadix ulLength pStr =
     (let pStr = pStr @ [digit_chars ! (ulValue mod byRadix)]; ulValue' = ulValue div byRadix
      in if 2 \<le> byRadix \<and> ulValue' \<noteq> 0 \<and> (length pStr < ulLength \<or> ulLength = 0)
         then itoa_loop ulValue' byRadix ulLength pStr else pStr)"
  by pat_completeness auto
termination
proof (relation "measure fst")
  fix v r n :: nat and s s' :: "u8 list" and v'
  assume "v' = v div r" "2 \<le> r \<and> v' \<noteq> 0 \<and> (length s' < n \<or> n = 0)"
  then have "0 < v" "1 < r" by (auto intro: gr0I)
  then show "((v', r, n, s'), (v, r, n, s)) \<in> measure fst" using \<open>v' = v div r\<close> by simp
qed simp

declare itoa_loop.simps [simp del]

definition cbItoA :: "u32 \<Rightarrow> u8 list \<Rightarrow> u8 \<Rightarrow> nat \<Rightarrow> bool \<times> u8 list" where
  "cbItoA ulValue pStr byRadix ulLength =
     (if byRadix < 2 \<or> 36 < byRadix then (False, pStr)
      else
        let ds = itoa_loop (unat ulValue) (unat byRadix) ulLength [];
            ds = ds @ replicate (ulLength - length ds) 0x30
        in (True, rev ds @ 0 # drop (length ds + 1) pStr))"

definition cbStrCat :: "u8 list \<Rightarrow> u8 list \<Rightarrow> u8 list" where
  "cbStrCat pStrDst pStrSrc =
     (let dst = takeWhile (\<lambda>c. c \<noteq> 0) pStrDst; src = takeWhile (\<lambda>c. c \<noteq> 0) pStrSrc
      in dst @ src @ 0 # drop (length dst + length src + 1) pStrDst)"

section \<open>The monitor id\<close>

definition MONITORIDINDEX :: nat where "MONITORIDINDEX = 0x08"

text \<open>\<open>0ABC..Z[/]^_\<close>, for the five bits of a letter.\<close>

definition id_chars :: "u8 list" where
  "id_chars = 0x30 # map (\<lambda>k. 0x41 + of_nat k) [0..<26] @ [0x5B, 0x2F, 0x5D, 0x5E, 0x5F]"

definition cbEDIDModule_GetMonitorID :: "u8 list \<Rightarrow> u8 list \<Rightarrow> bool \<times> u8 list" where
  "cbEDIDModule_GetMonitorID pEDID pMonitorID =
     (let d = drop MONITORIDINDEX pEDID;
          m = pMonitorID[0 := id_chars ! unat (drop_bit 2 (d ! 0) AND 0x1F),
                1 := id_chars ! unat ((drop_bit 5 (d ! 1) AND 0x07) OR (push_bit 3 (d ! 0) AND 0x18)),
                2 := id_chars ! unat (d ! 1 AND 0x1F), 3 := 0]
      in case cbItoA (ucast (d ! 3)) [0, 0, 0] 16 2 of
           (False, ProductID) \<Rightarrow> (False, m)
         | (True, ProductID) \<Rightarrow>
             let m = cbStrCat m ProductID
             in case cbItoA (ucast (d ! 2)) ProductID 16 2 of
                  (False, ProductID) \<Rightarrow> (False, m)
                | (True, ProductID) \<Rightarrow> (True, cbStrCat m ProductID))"

section \<open>The descriptors of the base block\<close>

definition DETAILED_TIMINGS_INDEX :: nat where "DETAILED_TIMINGS_INDEX = 0x36"

definition be10 :: "u8 \<Rightarrow> u8 \<Rightarrow> u16" where "be10 high low2 = push_bit 2 (ucast high) OR ucast low2"

definition cbEDIDModule_GetChromaticity :: "u8 list \<Rightarrow> chromaticity" where
  "cbEDIDModule_GetChromaticity e =
     \<lparr>Red = (be10 (e ! 0x1B) (drop_bit 6 (e ! 0x19 AND 0xC0)), be10 (e ! 0x1C) (drop_bit 4 (e ! 0x19 AND 0x30))),
      Green = (be10 (e ! 0x1D) (drop_bit 2 (e ! 0x19 AND 0x0C)), be10 (e ! 0x1E) (e ! 0x19 AND 0x03)),
      Blue = (be10 (e ! 0x1F) (drop_bit 6 (e ! 0x1A AND 0xC0)), be10 (e ! 0x20) (drop_bit 4 (e ! 0x1A AND 0x30))),
      White = (be10 (e ! 0x21) (drop_bit 2 (e ! 0x1A AND 0x0C)), be10 (e ! 0x22) (e ! 0x1A AND 0x03))\<rparr>"

definition stereo_type :: "u8 \<Rightarrow> u32 option" where
  "stereo_type byte17 =
     (if byte17 = 0x20 then Some 1 else if byte17 = 0x40 then Some 2 else if byte17 = 0x21 then Some 3
      else if byte17 = 0x41 then Some 4 else if byte17 = 0x60 then Some 5 else if byte17 = 0x61 then Some 6 else None)"

definition scan_stereo :: "u8 list \<Rightarrow> monitor_attrib \<Rightarrow> monitor_attrib" where
  "scan_stereo p a =
     (let byte17 = p ! 0x11 AND 0x61
      in if p ! 0 \<noteq> 0 \<and> p ! 1 \<noteq> 0 \<and> byte17 \<noteq> 0
         then a\<lparr>bStereoViewSupport := True,
                StereoViewType := (case stereo_type byte17 of Some t \<Rightarrow> t | None \<Rightarrow> StereoViewType a)\<rparr>
         else a)"

text \<open>Thirteen characters, or as many as come before a line feed.\<close>

definition copy_text :: "u8 list \<Rightarrow> u8 list \<Rightarrow> u8 list" where
  "copy_text p dst = (let bs = takeWhile (\<lambda>b. b \<noteq> 0x0A) (map (\<lambda>j. p ! (5 + j)) [0..<13]) in bs @ drop (length bs) dst)"

definition scan_name :: "u8 list \<Rightarrow> monitor_attrib \<Rightarrow> monitor_attrib" where
  "scan_name p a =
     (if p ! 0 = 0 \<and> p ! 1 = 0 \<and> p ! 2 = 0 \<and> p ! 3 = 0xFC \<and> p ! 4 = 0
      then a\<lparr>MonitorName := copy_text p (MonitorName a)\<rparr> else a)"

definition scan_alpha :: "u8 list \<Rightarrow> monitor_attrib \<Rightarrow> monitor_attrib" where
  "scan_alpha p a =
     (if p ! 0 = 0 \<and> p ! 1 = 0 \<and> p ! 2 = 0 \<and> p ! 3 = 0xFE \<and> p ! 4 = 0
      then a\<lparr>Alphanumeric := copy_text p (Alphanumeric a)\<rparr> else a)"

definition range_limits :: "u8 list \<Rightarrow> mrl \<Rightarrow> mrl" where
  "range_limits p m =
     (let m = m\<lparr>MrlFlags := p ! 4, MinVerRate := ucast (p ! 5), MaxVerRate := ucast (p ! 6), MinHorRate := ucast (p ! 7),
                MaxHorRate := ucast (p ! 8), MaxPixelClock := ucast (p ! 9) * 10\<rparr>;
          m = (if MrlFlags m AND 0x3 = 0x2 then m\<lparr>MaxVerRate := MaxVerRate m + 255\<rparr>
               else if MrlFlags m AND 0x3 = 0x3 then m\<lparr>MaxVerRate := MaxVerRate m + 255, MinVerRate := MinVerRate m + 255\<rparr>
               else m);
          m = (if MrlFlags m AND 0xC = 0x8 then m\<lparr>MaxHorRate := MaxHorRate m + 255\<rparr>
               else if MrlFlags m AND 0xC = 0xC then m\<lparr>MaxHorRate := MaxHorRate m + 255, MinHorRate := MinHorRate m + 255\<rparr>
               else m)
      in if MinVerRate m < MaxVerRate m then m\<lparr>bSupportFreeSync := True\<rparr> else m)"

definition scan_range :: "u8 list \<Rightarrow> monitor_attrib \<Rightarrow> monitor_attrib" where
  "scan_range p a =
     (if p ! 0 = 0 \<and> p ! 1 = 0 \<and> p ! 2 = 0 \<and> p ! 3 = 0xFD then a\<lparr>MRLData := range_limits p (MRLData a)\<rparr> else a)"

definition scan_descriptor :: "u8 list \<Rightarrow> nat \<Rightarrow> monitor_attrib \<Rightarrow> monitor_attrib" where
  "scan_descriptor e i a =
     (let p = drop (DETAILED_TIMINGS_INDEX + i * 18) e in scan_alpha p (scan_range p (scan_name p (scan_stereo p a))))"

definition cbEDIDModule_GetMonitorSize :: "u8 list \<Rightarrow> monitor_attrib \<Rightarrow> monitor_attrib" where
  "cbEDIDModule_GetMonitorSize e a =
     (let d = drop DETAILED_TIMINGS_INDEX e; h = field16 d EDIDHorizontalImageSize; v = field16 d EDIDVerticalImageSize
      in if h \<noteq> 0 \<and> v \<noteq> 0 then a\<lparr>MonitorHorSize := h, MonitorVerSize := v\<rparr> else a)"

text \<open>\<^verbatim>\<open>CEA861MonitorCaps = 0\<close>, and the colour formats a digital monitor of version 1.4 names.\<close>

definition base_caps :: "u8 list \<Rightarrow> monitor_attrib \<Rightarrow> monitor_attrib" where
  "base_caps e a =
     (let a = a\<lparr>IsCEA861Monitor := False, IsCEA861RGB := False, IsCEA861YCbCr422 := False, IsCEA861YCbCr444 := False,
                IsCEA861Audio := False, IsCEA861UnderScan := False, IsCEA861HDMI := False\<rparr>;
          f = e ! 0x18 AND 0x18
      in if e ! 0x12 = 1 \<and> e ! 0x13 = 4 \<and> bit (e ! 0x14) 7
         then a\<lparr>IsCEA861RGB := True, IsCEA861YCbCr444 := (f = 0x08 \<or> f = 0x18), IsCEA861YCbCr422 := (f = 0x10 \<or> f = 0x18)\<rparr>
         else a)"

section \<open>The data blocks of an extension\<close>

definition CEA_TAG :: u8 where "CEA_TAG = 0x02"
definition AUDIO_DATA_BLOCK_TAG :: u8 where "AUDIO_DATA_BLOCK_TAG = 1"
definition VIDEO_DATA_BLOCK_TAG :: u8 where "VIDEO_DATA_BLOCK_TAG = 2"
definition SPEAKER_ALLOCATION_DATA_BLOCK_TAG :: u8 where "SPEAKER_ALLOCATION_DATA_BLOCK_TAG = 4"

definition block_tag :: "u8 list \<Rightarrow> nat \<Rightarrow> u8" where "block_tag b i = drop_bit 5 (b ! i) AND 0x07"
definition block_len :: "u8 list \<Rightarrow> nat \<Rightarrow> nat" where "block_len b i = unat (b ! i AND 0x1F)"

text \<open>\<open>(CBIOS_U8) SADCnt\<close>, \<open>bIsHDMIDevice\<close> and the attributes, which the loop updates.\<close>

type_synonym attrib_state = "u8 \<times> bool \<times> monitor_attrib"

definition attrib_audio :: "u8 list \<Rightarrow> nat \<Rightarrow> attrib_state \<Rightarrow> attrib_state" where
  "attrib_audio b i = (\<lambda>(SADCnt, hdmi, a).
     let SADCnt = SADCnt + of_nat (block_len b i div 3);
         SADCnt = (if 15 < SADCnt then 15 else SADCnt);
         old = unat (SAD_Count a);
         a = (if SAD_Count a < SADCnt
              then a\<lparr>CEA_SADs := take old (CEA_SADs a) @
                       map (\<lambda>k. (b ! (i + 1 + 3 * k), b ! (i + 2 + 3 * k), b ! (i + 3 + 3 * k))) [0..<unat SADCnt - old] @
                       drop (unat SADCnt) (CEA_SADs a)\<rparr>
              else a)
     in (SADCnt, hdmi, a\<lparr>SAD_Count := SADCnt\<rparr>))"

text \<open>One data block: what it does to the state, and how far the index moves.\<close>

definition attrib_block :: "u8 list \<Rightarrow> nat \<Rightarrow> attrib_state \<Rightarrow> attrib_state" where
  "attrib_block b i = (\<lambda>(SADCnt, hdmi, a).
     if block_tag b i = VENDOR_SPECIFIC_DATA_BLOCK_TAG
     then (SADCnt, hdmi \<or> b ! (i + 1) = 0x03 \<and> b ! (i + 2) = 0x0C \<and> b ! (i + 3) = 0x00, a)
     else if block_tag b i = AUDIO_DATA_BLOCK_TAG then attrib_audio b i (SADCnt, hdmi, a)
     else if block_tag b i = SPEAKER_ALLOCATION_DATA_BLOCK_TAG
     then (SADCnt, hdmi, a\<lparr>SpeakerAllocationData := b ! (i + 1)\<rparr>)
     else (SADCnt, hdmi, a))"

definition attrib_next :: "u8 list \<Rightarrow> nat \<Rightarrow> nat" where
  "attrib_next b i = (if block_tag b i = SPEAKER_ALLOCATION_DATA_BLOCK_TAG then i + 4 else i + 1 + block_len b i)"

function attrib_blocks :: "u8 list \<Rightarrow> nat \<Rightarrow> nat \<Rightarrow> attrib_state \<Rightarrow> attrib_state" where
  "attrib_blocks b off i s =
     (if i < off then attrib_blocks b off (attrib_next b i) (attrib_block b i s) else s)"
  by pat_completeness auto
termination
  by (relation "measure (\<lambda>(b, off, i, s). off - i)") (auto simp: attrib_next_def)

declare attrib_blocks.simps [simp del]

definition attrib_extension :: "u8 list \<Rightarrow> nat \<Rightarrow> attrib_state \<Rightarrow> attrib_state" where
  "attrib_extension e BlockIndex = (\<lambda>(SADCnt, hdmi, a).
     let b = drop (BlockIndex * 128) e
     in if b ! 0 \<noteq> CEA_TAG \<or> b ! 1 = 0 then (SADCnt, hdmi, a)
        else
          let a = a\<lparr>IsCEA861Monitor := True, IsCEA861RGB := True, CeaTag := b ! 0, RevisionNumber := b ! 1,
                    OffsetOfDetailedTimingBlock := b ! 2, NativeFormatNum := ucast (b ! 3 AND 0x0F),
                    IsCEA861UnderScan := bit (b ! 3) 7, IsCEA861Audio := bit (b ! 3) 6,
                    IsCEA861YCbCr444 := bit (b ! 3) 5, IsCEA861YCbCr422 := bit (b ! 3) 4\<rparr>;
              (SADCnt, hdmi, a) = attrib_blocks b (unat (OffsetOfDetailedTimingBlock a)) 4 (SADCnt, hdmi, a)
          in (SADCnt, hdmi,
              if hdmi \<and> (IsCEA861UnderScan a \<or> IsCEA861Audio a \<or> IsCEA861YCbCr422 a \<or> IsCEA861YCbCr444 a)
              then a\<lparr>IsCEA861HDMI := True\<rparr> else a))"

text \<open>\<open>None\<close> is the return with \<^verbatim>\<open>CBIOS_ER_EDID_INVALID\<close>, which leaves the attributes as they are.\<close>

definition cbEDIDModule_GetMonitorAttrib :: "u8 list option \<Rightarrow> nat \<Rightarrow> monitor_attrib \<Rightarrow> monitor_attrib option" where
  "cbEDIDModule_GetMonitorAttrib Buffer BufferSize a =
     (if \<not> cbEDIDModule_IsEDIDValid Buffer BufferSize then None
      else
        let e = the Buffer;
            a = a\<lparr>ManufactureName := [e ! 0x08, e ! 0x09], ProductCode := [e ! 0x0A, e ! 0x0B],
                  Chromaticity := cbEDIDModule_GetChromaticity e, MonitorID := snd (cbEDIDModule_GetMonitorID e (MonitorID a))\<rparr>;
            a = fold (scan_descriptor e) [0..<4] a;
            a = base_caps e (cbEDIDModule_GetMonitorSize e a);
            (SADCnt, hdmi, a) = fold (attrib_extension e) [1..<cbEDIDModule_GetTotalBlockNum Buffer BufferSize] (0, False, a)
        in Some a)"

section \<open>The id of a monitor\<close>

text \<open>Two hexadecimal digits.\<close>

definition hex2 :: "u8 \<Rightarrow> u8 list" where
  "hex2 b = [digit_chars ! (unat b div 16), digit_chars ! (unat b mod 16)]"

lemma itoa_byte: "rev (let ds = itoa_loop (unat b) 16 2 [] in ds @ replicate (2 - length ds) 0x30) = hex2 (b :: u8)"
proof -
  have b: "unat b < 256" using unsigned_less [where 'a = nat, of b] by simp
  then have "unat b div 16 < 16" by (simp add: less_mult_imp_div_less)
  then have d: "unat b div 16 mod 16 = unat b div 16" by simp
  have zero: "digit_chars ! 0 = 0x30" by (simp add: digit_chars_def)
  show ?thesis
  proof (cases "unat b div 16 = 0")
    case True
    then show ?thesis
      using zero by (simp add: itoa_loop.simps [of "unat b"] hex2_def numeral_2_eq_2)
  next
    case False
    then have "itoa_loop (unat b) 16 2 [] = [digit_chars ! (unat b mod 16), digit_chars ! (unat b div 16)]"
      using d by (simp add: itoa_loop.simps [of "unat b"] itoa_loop.simps [of "unat b div 16"])
    then show ?thesis by (simp add: hex2_def)
  qed
qed

lemma cbItoA_byte:
  "length s = 3 \<Longrightarrow> cbItoA (ucast (b :: u8)) s 16 2 = (True, hex2 b @ [0])"
  using itoa_byte [of b] unfolding Let_def
  by (simp add: cbItoA_def Let_def unsigned_ucast_eq hex2_def take_bit_nat_eq_self less_trans [OF unsigned_less])

lemma digit_chars_props: "length digit_chars = 36" "distinct digit_chars" "0 \<notin> set digit_chars"
  by code_simp+

lemma id_chars_props: "length id_chars = 32" "distinct id_chars" "0 \<notin> set id_chars"
  by code_simp+

lemma hex2_nonzero: "0 \<notin> set (hex2 b)" "length (hex2 b) = 2"
proof -
  have "unat b < 256" using unsigned_less [where 'a = nat, of b] by simp
  then have "unat b div 16 < 36" "unat b mod 16 < 36" by (simp_all add: less_mult_imp_div_less)
  then have "hex2 b ! 0 \<in> set digit_chars" "hex2 b ! 1 \<in> set digit_chars"
    using digit_chars_props(1) by (auto simp: hex2_def)
  then show "0 \<notin> set (hex2 b)" using digit_chars_props(3) by (auto simp: hex2_def)
qed (simp add: hex2_def)

lemma cbStrCat_text:
  "0 \<notin> set xs \<Longrightarrow> 0 \<notin> set ys \<Longrightarrow> cbStrCat (xs @ 0 # r) (ys @ 0 # q) = xs @ ys @ 0 # drop (length ys) r"
proof -
  assume "0 \<notin> set xs" "0 \<notin> set ys"
  then have "takeWhile (\<lambda>c. c \<noteq> 0) (xs @ 0 # r) = xs" "takeWhile (\<lambda>c. c \<noteq> 0) (ys @ 0 # q) = ys"
    by (subst takeWhile_append2; auto)+
  then show ?thesis by (simp add: cbStrCat_def Let_def)
qed

text \<open>The three letters of the manufacturer.\<close>

definition id_letters :: "u8 \<Rightarrow> u8 \<Rightarrow> u8 list" where
  "id_letters b c = [id_chars ! unat (drop_bit 2 b AND 0x1F), id_chars ! unat ((drop_bit 5 c AND 0x07) OR (push_bit 3 b AND 0x18)),
     id_chars ! unat (c AND 0x1F)]"

lemma five_bits: "unat (x AND 0x1F :: u8) < 32" "unat ((x AND 0x07) OR (y AND 0x18) :: u8) < 32"
proof -
  show "unat (x AND 0x1F) < 32" using word_and_le1 [of x "0x1F"] by (simp add: word_le_nat_alt)
  have "(x AND 0x07) OR (y AND 0x18) = ((x AND 0x07) OR (y AND 0x18)) AND 0x1F"
    by (simp add: bit.conj_disj_distrib2 and.assoc)
  then show "unat ((x AND 0x07) OR (y AND 0x18)) < 32"
    using word_and_le1 [of "(x AND 0x07) OR (y AND 0x18)" "0x1F"] by (simp add: word_le_nat_alt)
qed

lemma id_letters_nonzero: "0 \<notin> set (id_letters b c)" "length (id_letters b c) = 3"
proof -
  have "x \<in> set id_chars" if "x \<in> set (id_letters b c)" for x
    using that five_bits id_chars_props(1) by (auto simp: id_letters_def)
  then show "0 \<notin> set (id_letters b c)" using id_chars_props(3) by blast
qed (simp add: id_letters_def)

lemma GetMonitorID_text:
  assumes m: "length m = 8"
  shows "cbEDIDModule_GetMonitorID e m = (True, id_letters (drop 8 e ! 0) (drop 8 e ! 1) @ hex2 (drop 8 e ! 3) @ hex2 (drop 8 e ! 2) @ [0])"
proof -
  let ?d = "drop 8 e"
  obtain m0 m1 m2 m3 m4 m5 m6 m7 where mm: "m = [m0, m1, m2, m3, m4, m5, m6, m7]"
    using m by (auto simp: numeral_eq_Suc length_Suc_conv)
  define l where "l = id_letters (?d ! 0) (?d ! 1)"
  note l0 = id_letters_nonzero [of "?d ! 0" "?d ! 1", folded l_def]
  have upd: "m[0 := id_chars ! unat (drop_bit 2 (?d ! 0) AND 0x1F),
      1 := id_chars ! unat ((drop_bit 5 (?d ! 1) AND 0x07) OR (push_bit 3 (?d ! 0) AND 0x18)),
      2 := id_chars ! unat (?d ! 1 AND 0x1F), 3 := 0] = l @ 0 # [m4, m5, m6, m7]"
    by (simp add: mm l_def id_letters_def)
  have i1: "cbItoA (ucast (?d ! 3)) [0, 0, 0] 16 2 = (True, hex2 (?d ! 3) @ [0])" by (rule cbItoA_byte) simp
  have i2: "cbItoA (ucast (?d ! 2)) (hex2 (?d ! 3) @ [0]) 16 2 = (True, hex2 (?d ! 2) @ [0])"
    by (rule cbItoA_byte) (simp add: hex2_nonzero)
  have c1: "cbStrCat (l @ 0 # [m4, m5, m6, m7]) (hex2 (?d ! 3) @ [0]) = (l @ hex2 (?d ! 3)) @ 0 # [m6, m7]"
    using cbStrCat_text [of l "hex2 (?d ! 3)" "[m4, m5, m6, m7]" "[]"] l0 hex2_nonzero [of "?d ! 3"] by simp
  have c2: "cbStrCat ((l @ hex2 (?d ! 3)) @ 0 # [m6, m7]) (hex2 (?d ! 2) @ [0]) = l @ hex2 (?d ! 3) @ hex2 (?d ! 2) @ [0]"
    using cbStrCat_text [of "l @ hex2 (?d ! 3)" "hex2 (?d ! 2)" "[m6, m7]" "[]"] l0 hex2_nonzero [of "?d ! 3"] hex2_nonzero [of "?d ! 2"] by simp
  show ?thesis
    unfolding cbEDIDModule_GetMonitorID_def MONITORIDINDEX_def Let_def upd i1 prod.case bool.case c1 i2 c2 by (simp add: l_def)
qed

lemma nth_chars_eq:
  "unat a < 32 \<Longrightarrow> unat b < 32 \<Longrightarrow> id_chars ! unat a = id_chars ! unat b \<longleftrightarrow> a = (b :: u8)"
  using nth_eq_iff_index_eq [OF id_chars_props(2), of "unat a" "unat b"] id_chars_props(1) by (metis word_unat_eq_iff)

lemma hex2_inj: "hex2 a = hex2 b \<longleftrightarrow> a = b"
proof
  assume eq: "hex2 a = hex2 b"
  have less: "unat a < 256" "unat b < 256"
    using unsigned_less [where 'a = nat, of a] unsigned_less [where 'a = nat, of b] by simp_all
  then have "unat a div 16 < 36" "unat b div 16 < 36" "unat a mod 16 < 36" "unat b mod 16 < 36"
    by (simp_all add: less_mult_imp_div_less)
  then have "unat a div 16 = unat b div 16" "unat a mod 16 = unat b mod 16"
    using eq nth_eq_iff_index_eq [OF digit_chars_props(2)] digit_chars_props(1) by (simp_all add: hex2_def)
  then show "a = b" by (metis div_mult_mod_eq word_unat_eq_iff)
qed simp

lemma byte_eq: "(a :: u8) = b \<longleftrightarrow> (\<forall>n \<in> {0, 1, 2, 3, 4, 5, 6, 7}. bit a n = bit b n)"
proof
  assume eq: "\<forall>n \<in> {0, 1, 2, 3, 4, 5, 6, 7}. bit a n = bit b n"
  show "a = b"
  proof (rule bit_word_eqI)
    fix n assume "n < LENGTH(8)"
    then have "n \<in> {0, 1, 2, 3, 4, 5, 6, 7}" by auto
    then show "bit a n = bit b n" using eq by blast
  qed
qed simp

lemma id_letters_inj: "id_letters b c = id_letters b' c' \<longleftrightarrow> b AND 0x7F = b' AND 0x7F \<and> c = c'"
proof -
  have "id_letters b c = id_letters b' c' \<longleftrightarrow> drop_bit 2 b AND 0x1F = drop_bit 2 b' AND 0x1F \<and>
      (drop_bit 5 c AND 0x07) OR (push_bit 3 b AND 0x18) = (drop_bit 5 c' AND 0x07) OR (push_bit 3 b' AND 0x18) \<and>
      c AND 0x1F = c' AND 0x1F"
    by (simp add: id_letters_def nth_chars_eq five_bits)
  also have "\<dots> \<longleftrightarrow> b AND 0x7F = b' AND 0x7F \<and> c = c'"
    unfolding byte_eq by (simp add: bit_simps del: bit_0) (unfold numeral_2_eq_2 numeral_3_eq_3, intro iffI; elim conjE; intro conjI; assumption)
  finally show ?thesis .
qed

text \<open>
  The id of a monitor: three letters and four hexadecimal digits, ended by a zero, whatever was in
  the buffer; two descriptions get the same id exactly when the fifteen bits of the manufacturer and the
  sixteen of the product agree, so that comparing ids is comparing products.
\<close>

theorem cbEDIDModule_GetMonitorID_identifies:
  assumes e: "11 < length e" "11 < length e'" and m: "length m = 8" "length m' = 8"
  shows "fst (cbEDIDModule_GetMonitorID e m) \<and> length (snd (cbEDIDModule_GetMonitorID e m)) = 8 \<and>
    last (snd (cbEDIDModule_GetMonitorID e m)) = 0 \<and> 0 \<notin> set (butlast (snd (cbEDIDModule_GetMonitorID e m))) \<and>
    (snd (cbEDIDModule_GetMonitorID e m) = snd (cbEDIDModule_GetMonitorID e' m') \<longleftrightarrow>
       e ! 8 AND 0x7F = e' ! 8 AND 0x7F \<and> e ! 9 = e' ! 9 \<and> e ! 10 = e' ! 10 \<and> e ! 11 = e' ! 11)"
proof -
  have nth: "drop 8 x ! 0 = x ! 8" "drop 8 x ! 1 = x ! 9" "drop 8 x ! 2 = x ! 10" "drop 8 x ! 3 = x ! 11"
    if "11 < length x" for x :: "u8 list"
    using that by simp_all
  note t = GetMonitorID_text [OF m(1), of e, unfolded nth [OF e(1)]] GetMonitorID_text [OF m(2), of e', unfolded nth [OF e(2)]]
  have "id_letters a b @ hex2 c @ hex2 d @ [0] = id_letters a' b' @ hex2 c' @ hex2 d' @ [0] \<longleftrightarrow>
      id_letters a b = id_letters a' b' \<and> hex2 c = hex2 c' \<and> hex2 d = hex2 d'" for a b c d a' b' c' d'
    by (simp add: id_letters_nonzero hex2_nonzero)
  then show ?thesis
    using id_letters_nonzero hex2_nonzero unfolding t
    by (auto simp: butlast_append id_letters_inj hex2_inj)
qed

lemma cbEDIDModule_GetMonitorID_identifies_witness:
  "snd (cbEDIDModule_GetMonitorID (replicate 8 0 @ [0x0E, 0x77, 0x73, 0x14]) (replicate 8 0)) \<noteq>
   snd (cbEDIDModule_GetMonitorID (replicate 8 0 @ [0x0E, 0x77, 0x34, 0x14]) (replicate 8 0))"
  using cbEDIDModule_GetMonitorID_identifies [of "replicate 8 0 @ [0x0E, 0x77, 0x73, 0x14]"
      "replicate 8 0 @ [0x0E, 0x77, 0x34, 0x14]" "replicate 8 0" "replicate 8 0"]
  by (simp add: nth_append)

section \<open>Walking over the data blocks\<close>

text \<open>Where the data blocks start, as the extension lays them out: one after the other, each as long as it says.\<close>

function block_starts :: "u8 list \<Rightarrow> nat \<Rightarrow> nat \<Rightarrow> nat list" where
  "block_starts b off i = (if i < off then i # block_starts b off (i + 1 + block_len b i) else [])"
  by pat_completeness auto
termination
  by (relation "measure (\<lambda>(b, off, i). off - i)") auto

declare block_starts.simps [simp del]

definition speaker_blocks_ok :: "u8 list \<Rightarrow> nat list \<Rightarrow> bool" where
  "speaker_blocks_ok b ss \<longleftrightarrow> (\<forall>i \<in> set ss. block_tag b i = SPEAKER_ALLOCATION_DATA_BLOCK_TAG \<longrightarrow> block_len b i = 3)"

lemma attrib_blocks_fold:
  "speaker_blocks_ok b (block_starts b off i) \<Longrightarrow> attrib_blocks b off i s = fold (attrib_block b) (block_starts b off i) s"
proof (induction b off i arbitrary: s rule: block_starts.induct)
  case (1 b off i)
  show ?case
  proof (cases "i < off")
    case True
    then have starts: "block_starts b off i = i # block_starts b off (i + 1 + block_len b i)"
      by (simp add: block_starts.simps [of b off i])
    then have "attrib_next b i = i + 1 + block_len b i"
      using "1.prems" by (simp add: speaker_blocks_ok_def attrib_next_def)
    then show ?thesis
      using "1.IH" [OF True, of "attrib_block b i s"] "1.prems" True starts
      by (simp add: attrib_blocks.simps [of b off i] speaker_blocks_ok_def)
  next
    case False
    then show ?thesis by (simp add: attrib_blocks.simps [of b off i] block_starts.simps [of b off i])
  qed
qed

text \<open>The short audio descriptors of a block as they stand there, and the vendor blocks of HDMI.\<close>

definition raw_sads :: "u8 list \<Rightarrow> nat \<Rightarrow> (u8 \<times> u8 \<times> u8) list" where
  "raw_sads b i = (if block_tag b i = AUDIO_DATA_BLOCK_TAG
     then map (\<lambda>k. (b ! (i + 1 + 3 * k), b ! (i + 2 + 3 * k), b ! (i + 3 + 3 * k))) [0..<block_len b i div 3] else [])"

definition hdmi_block :: "u8 list \<Rightarrow> nat \<Rightarrow> bool" where
  "hdmi_block b i \<longleftrightarrow> block_tag b i = VENDOR_SPECIFIC_DATA_BLOCK_TAG \<and> b ! (i + 1) = 0x03 \<and> b ! (i + 2) = 0x0C \<and> b ! (i + 3) = 0x00"

text \<open>What has been collected: the first fifteen descriptors so far, and whether HDMI was seen.\<close>

definition collected :: "(u8 \<times> u8 \<times> u8) list \<Rightarrow> bool \<Rightarrow> attrib_state \<Rightarrow> bool" where
  "collected sads h = (\<lambda>(cnt, hdmi, a). let l = take 15 sads in
     hdmi = h \<and> cnt = of_nat (length l) \<and> SAD_Count a = cnt \<and> length (CEA_SADs a) = 15 \<and> take (length l) (CEA_SADs a) = l)"

lemma block_len_less: "block_len b i < 32"
  using word_and_le1 [of "b ! i" "0x1F"] by (simp add: block_len_def word_le_nat_alt)

lemma collected_audio:
  assumes c: "collected sads h (cnt, hdmi, a)" and tag: "block_tag b i = AUDIO_DATA_BLOCK_TAG"
  shows "collected (sads @ raw_sads b i) h (attrib_audio b i (cnt, hdmi, a))"
proof -
  define l where "l = take 15 sads"
  define n where "n = length l"
  define k where "k = block_len b i div 3"
  define f where "f = (\<lambda>k. (b ! (i + 1 + 3 * k), b ! (i + 2 + 3 * k), b ! (i + 3 + 3 * k)))"
  define m where "m = min 15 (n + k)"
  have n: "n \<le> 15" by (simp add: n_def l_def)
  have k: "k \<le> 10" using block_len_less [of b i] by (simp add: k_def)
  have st: "hdmi = h" "cnt = of_nat n" "SAD_Count a = of_nat n" "length (CEA_SADs a) = 15" "take n (CEA_SADs a) = l"
    using c by (simp_all add: collected_def l_def n_def)
  have raw: "raw_sads b i = map f [0..<k]" using tag by (simp add: raw_sads_def f_def k_def)
  have l': "take 15 (sads @ raw_sads b i) = l @ map f [0..<m - n]"
  proof -
    have "take 15 (sads @ raw_sads b i) = l @ take (15 - n) (raw_sads b i)"
      by (cases "length sads \<le> 15") (simp_all add: l_def n_def)
    also have "take (15 - n) (raw_sads b i) = map f [0..<m - n]"
      unfolding raw m_def by (cases "15 - n \<le> k") (simp_all add: take_map min_def)
    finally show ?thesis .
  qed
  have m: "n \<le> m" "m \<le> 15" by (simp_all add: m_def n)
  have sum: "unat (of_nat n + of_nat k :: u8) = n + k" using n k by (simp add: unat_word_ariths unat_of_nat)
  have cnt': "(if 15 < (of_nat n + of_nat k :: u8) then 15 else of_nat n + of_nat k) = (of_nat m :: u8)"
  proof (cases "15 < n + k")
    case True
    then show ?thesis by (simp add: word_less_nat_alt sum m_def)
  next
    case False
    then show ?thesis by (simp add: word_less_nat_alt sum m_def min_absorb2)
  qed
  have u: "unat (of_nat m :: u8) = m" "unat (of_nat n :: u8) = n" using m n by (simp_all add: unat_of_nat)
  have less: "(of_nat n :: u8) < of_nat m \<longleftrightarrow> n < m" by (simp add: word_less_nat_alt u)
  let ?a = "if n < m then a\<lparr>CEA_SADs := take n (CEA_SADs a) @ map f [0..<m - n] @ drop m (CEA_SADs a)\<rparr> else a"
  have res: "attrib_audio b i (cnt, hdmi, a) = (of_nat m, h, ?a\<lparr>SAD_Count := of_nat m\<rparr>)"
    unfolding attrib_audio_def prod.case st k_def [symmetric] Let_def cnt' u less f_def ..
  have "take m (CEA_SADs ?a) = l @ map f [0..<m - n]" "length (CEA_SADs ?a) = 15"
    using st(4,5) m n by (auto simp: n_def)
  moreover have "length (l @ map f [0..<m - n]) = m" using m by (simp add: n_def [symmetric])
  ultimately show ?thesis by (simp add: res collected_def Let_def l' del: take_append)
qed

lemma collected_block:
  assumes c: "collected sads h s"
  shows "collected (sads @ raw_sads b i) (h \<or> hdmi_block b i) (attrib_block b i s)"
proof -
  obtain cnt hdmi a where s: "s = (cnt, hdmi, a)" by (cases s)
  consider "block_tag b i = AUDIO_DATA_BLOCK_TAG" | "block_tag b i = VENDOR_SPECIFIC_DATA_BLOCK_TAG"
    | "block_tag b i \<noteq> AUDIO_DATA_BLOCK_TAG" "block_tag b i \<noteq> VENDOR_SPECIFIC_DATA_BLOCK_TAG" by blast
  then show ?thesis
  proof cases
    case 1
    then show ?thesis using collected_audio [OF c [unfolded s] 1]
      by (simp add: s attrib_block_def hdmi_block_def AUDIO_DATA_BLOCK_TAG_def VENDOR_SPECIFIC_DATA_BLOCK_TAG_def)
  next
    case 2
    then show ?thesis using c
      by (simp add: s attrib_block_def hdmi_block_def raw_sads_def AUDIO_DATA_BLOCK_TAG_def VENDOR_SPECIFIC_DATA_BLOCK_TAG_def
          collected_def Let_def)
  next
    case 3
    then show ?thesis using c by (simp add: s attrib_block_def hdmi_block_def raw_sads_def collected_def Let_def)
  qed
qed

lemma collected_blocks:
  "collected sads h s \<Longrightarrow>
   collected (sads @ concat (map (raw_sads b) ss)) (h \<or> (\<exists>i \<in> set ss. hdmi_block b i)) (fold (attrib_block b) ss s)"
proof (induction ss arbitrary: sads h s)
  case (Cons i ss)
  then show ?case using Cons.IH [OF collected_block [OF Cons.prems]] by (simp add: disj_assoc)
qed simp

text \<open>The flags of an extension are not touched by its data blocks.\<close>

definition caps :: "monitor_attrib \<Rightarrow> bool \<times> bool \<times> bool \<times> bool \<times> bool" where
  "caps a = (IsCEA861HDMI a, IsCEA861UnderScan a, IsCEA861Audio a, IsCEA861YCbCr422 a, IsCEA861YCbCr444 a)"

lemma caps_blocks: "caps (snd (snd (fold (attrib_block b) ss s))) = caps (snd (snd s))"
proof (induction ss arbitrary: s)
  case (Cons i ss)
  have "caps (snd (snd (attrib_block b i s))) = caps (snd (snd s))"
    by (cases s) (simp add: attrib_block_def attrib_audio_def caps_def Let_def)
  then show ?case using Cons.IH by simp
qed simp

section \<open>What the first pass collects\<close>

text \<open>The extension blocks of the CEA kind, and what each of them says.\<close>

abbreviation ext_block :: "u8 list \<Rightarrow> nat \<Rightarrow> u8 list" where "ext_block e k \<equiv> drop (k * 128) e"

definition is_cea :: "u8 list \<Rightarrow> bool" where "is_cea b \<longleftrightarrow> b ! 0 = CEA_TAG \<and> b ! 1 \<noteq> 0"
definition starts :: "u8 list \<Rightarrow> nat list" where "starts b = block_starts b (unat (b ! 2)) 4"
definition ext_sads :: "u8 list \<Rightarrow> (u8 \<times> u8 \<times> u8) list" where
  "ext_sads b = (if is_cea b then concat (map (raw_sads b) (starts b)) else [])"
definition ext_hdmi :: "u8 list \<Rightarrow> bool" where "ext_hdmi b \<longleftrightarrow> is_cea b \<and> (\<exists>i \<in> set (starts b). hdmi_block b i)"
definition ext_flags :: "u8 list \<Rightarrow> bool" where "ext_flags b \<longleftrightarrow> is_cea b \<and> (\<exists>n \<in> {4..7}. bit (b ! 3) n)"

lemma extension_step:
  assumes c: "collected sads h s" and sp: "speaker_blocks_ok (ext_block e k) (starts (ext_block e k))"
  shows "collected (sads @ ext_sads (ext_block e k)) (h \<or> ext_hdmi (ext_block e k)) (attrib_extension e k s) \<and>
    (IsCEA861HDMI (snd (snd (attrib_extension e k s))) \<longleftrightarrow>
       IsCEA861HDMI (snd (snd s)) \<or> (h \<or> ext_hdmi (ext_block e k)) \<and> ext_flags (ext_block e k))"
proof -
  obtain cnt hdmi a where s: "s = (cnt, hdmi, a)" by (cases s)
  let ?b = "ext_block e k"
  show ?thesis
  proof (cases "is_cea ?b")
    case False
    then show ?thesis
      using c by (auto simp: s attrib_extension_def Let_def is_cea_def ext_sads_def ext_hdmi_def ext_flags_def)
  next
    case True
    define a1 where "a1 = a\<lparr>IsCEA861Monitor := True, IsCEA861RGB := True, CeaTag := ?b ! 0, RevisionNumber := ?b ! 1,
                    OffsetOfDetailedTimingBlock := ?b ! 2, NativeFormatNum := ucast (?b ! 3 AND 0x0F),
                    IsCEA861UnderScan := bit (?b ! 3) 7, IsCEA861Audio := bit (?b ! 3) 6,
                    IsCEA861YCbCr444 := bit (?b ! 3) 5, IsCEA861YCbCr422 := bit (?b ! 3) 4\<rparr>"
    obtain cnt2 hdmi2 a2 where f: "fold (attrib_block ?b) (starts ?b) (cnt, hdmi, a1) = (cnt2, hdmi2, a2)"
      by (cases "fold (attrib_block ?b) (starts ?b) (cnt, hdmi, a1)")
    have run: "attrib_blocks ?b (unat (OffsetOfDetailedTimingBlock a1)) 4 (cnt, hdmi, a1) = (cnt2, hdmi2, a2)"
      using attrib_blocks_fold [of ?b "unat (?b ! 2)" 4] sp f by (simp add: starts_def a1_def)
    have c1: "collected sads h (cnt, hdmi, a1)" using c by (simp add: s collected_def a1_def Let_def)
    have c2: "collected (sads @ ext_sads ?b) (h \<or> ext_hdmi ?b) (cnt2, hdmi2, a2)"
      using collected_blocks [OF c1, of ?b "starts ?b"] True by (simp add: f ext_sads_def ext_hdmi_def)
    then have h2: "hdmi2 \<longleftrightarrow> h \<or> ext_hdmi ?b" by (simp add: collected_def Let_def)
    have caps2: "caps a2 = caps a1" using caps_blocks [of ?b "starts ?b" "(cnt, hdmi, a1)"] f by simp
    let ?on = "hdmi2 \<and> (IsCEA861UnderScan a2 \<or> IsCEA861Audio a2 \<or> IsCEA861YCbCr422 a2 \<or> IsCEA861YCbCr444 a2)"
    have res: "attrib_extension e k s = (cnt2, hdmi2, if ?on then a2\<lparr>IsCEA861HDMI := True\<rparr> else a2)"
      using True run unfolding is_cea_def s attrib_extension_def prod.case Let_def a1_def [symmetric] by simp
    have flags: "?on \<longleftrightarrow> hdmi2 \<and> ext_flags ?b"
    proof -
      have four: "{4..7} = {4, 5, 6, 7 :: nat}" by auto
      show ?thesis using caps2 True unfolding ext_flags_def four by (auto simp: caps_def a1_def)
    qed
    have "collected (sads @ ext_sads ?b) (h \<or> ext_hdmi ?b) (attrib_extension e k s)"
      unfolding res using c2 by (simp add: collected_def Let_def)
    moreover have "IsCEA861HDMI a2 = IsCEA861HDMI a" using caps2 by (simp add: caps_def a1_def)
    moreover have "IsCEA861HDMI (snd (snd (attrib_extension e k s))) \<longleftrightarrow> IsCEA861HDMI a2 \<or> ?on"
      unfolding res by (auto split: if_splits)
    then have "IsCEA861HDMI (snd (snd (attrib_extension e k s))) \<longleftrightarrow> IsCEA861HDMI a2 \<or> (h \<or> ext_hdmi ?b) \<and> ext_flags ?b"
      unfolding flags unfolding h2 .
    ultimately show ?thesis by (simp add: s)
  qed
qed

lemma descriptor_keeps:
  "CEA_SADs (scan_descriptor e i a) = CEA_SADs a \<and> SAD_Count (scan_descriptor e i a) = SAD_Count a"
  by (simp add: scan_descriptor_def scan_alpha_def scan_range_def scan_name_def scan_stereo_def Let_def)

lemma descriptors_keep:
  "CEA_SADs (fold (scan_descriptor e) is a) = CEA_SADs a \<and> SAD_Count (fold (scan_descriptor e) is a) = SAD_Count a"
  by (induction "is" arbitrary: a) (simp_all add: descriptor_keeps)

lemma extensions_run:
  assumes c: "collected [] False (0, False, a)" and h: "\<not> IsCEA861HDMI a"
    and sp: "\<forall>k \<in> {1..<n}. is_cea (ext_block e k) \<longrightarrow> speaker_blocks_ok (ext_block e k) (starts (ext_block e k))"
  shows "collected (concat (map (\<lambda>k. ext_sads (ext_block e k)) [1..<n])) (\<exists>k \<in> {1..<n}. ext_hdmi (ext_block e k))
      (fold (attrib_extension e) [1..<n] (0, False, a)) \<and>
    (IsCEA861HDMI (snd (snd (fold (attrib_extension e) [1..<n] (0, False, a)))) \<longleftrightarrow>
       (\<exists>k \<in> {1..<n}. ext_flags (ext_block e k) \<and> (\<exists>j \<in> {1..k}. ext_hdmi (ext_block e j))))"
  using sp
proof (induction n)
  case (Suc n)
  show ?case
  proof (cases "n = 0")
    case True
    then show ?thesis using c h by simp
  next
    case False
    then have up: "[1..<Suc n] = [1..<n] @ [n]" "{1..<Suc n} = insert n {1..<n}" by auto
    let ?s = "fold (attrib_extension e) [1..<n] (0, False, a)"
    have ih: "collected (concat (map (\<lambda>k. ext_sads (ext_block e k)) [1..<n])) (\<exists>k \<in> {1..<n}. ext_hdmi (ext_block e k)) ?s"
      "IsCEA861HDMI (snd (snd ?s)) \<longleftrightarrow> (\<exists>k \<in> {1..<n}. ext_flags (ext_block e k) \<and> (\<exists>j \<in> {1..k}. ext_hdmi (ext_block e j)))"
      using Suc.IH Suc.prems up(2) by blast+
    show ?thesis
    proof (cases "is_cea (ext_block e n)")
      case True
      then have "speaker_blocks_ok (ext_block e n) (starts (ext_block e n))" using Suc.prems False by simp
      note step = extension_step [OF ih(1) this]
      have hd: "(\<exists>k \<in> {1..<n}. ext_hdmi (ext_block e k)) \<or> ext_hdmi (ext_block e n) \<longleftrightarrow> (\<exists>j \<in> {1..n}. ext_hdmi (ext_block e j))"
      proof -
        have "{1..n} = insert n {1..<n}" using False by auto
        then show ?thesis by auto
      qed
      have ex: "(\<exists>k \<in> {1..<Suc n}. P k) \<longleftrightarrow> (\<exists>k \<in> {1..<n}. P k) \<or> P n" for P using up(2) by auto
      show ?thesis
        unfolding ex up(1) using step ih(2) hd by simp blast
    next
      case no: False
      then have "attrib_extension e n ?s = ?s"
        by (auto simp: attrib_extension_def is_cea_def Let_def split: prod.split)
      then show ?thesis
        using ih no unfolding up by (simp add: ext_sads_def ext_hdmi_def ext_flags_def)
    qed
  qed
qed (use c h in simp)

text \<open>
  C37. The first pass over a valid EDID, from cleared attributes: of all short audio descriptors of all
  CEA extensions the first fifteen are kept, in their order, and counted; and the monitor is taken for
  an HDMI sink exactly when some extension offers underscan, audio or a YCbCr format and it or an
  earlier one has the vendor block of HDMI.
\<close>

theorem cbEDIDModule_GetMonitorAttrib_collects:
  assumes valid: "cbEDIDModule_IsEDIDValid (Some e) bsize"
    and start: "SAD_Count a = 0" "length (CEA_SADs a) = 15"
    and sp: "\<forall>k \<in> {1..<bsize div 128}. is_cea (ext_block e k) \<longrightarrow> speaker_blocks_ok (ext_block e k) (starts (ext_block e k))"
  shows "\<exists>a'. cbEDIDModule_GetMonitorAttrib (Some e) bsize a = Some a' \<and>
    (let sads = concat (map (\<lambda>k. ext_sads (ext_block e k)) [1..<bsize div 128])
     in unat (SAD_Count a') = min 15 (length sads) \<and> take (unat (SAD_Count a')) (CEA_SADs a') = take 15 sads) \<and>
    (IsCEA861HDMI a' \<longleftrightarrow>
       (\<exists>k \<in> {1..<bsize div 128}. ext_flags (ext_block e k) \<and> (\<exists>j \<in> {1..k}. ext_hdmi (ext_block e j))))"
proof -
  define b where "b = base_caps e (cbEDIDModule_GetMonitorSize e (fold (scan_descriptor e) [0..<4]
      (a\<lparr>ManufactureName := [e ! 0x08, e ! 0x09], ProductCode := [e ! 0x0A, e ! 0x0B],
         Chromaticity := cbEDIDModule_GetChromaticity e, MonitorID := snd (cbEDIDModule_GetMonitorID e (MonitorID a))\<rparr>)))"
  have b: "SAD_Count b = 0" "length (CEA_SADs b) = 15" "\<not> IsCEA861HDMI b"
    using start by (simp_all add: b_def base_caps_def cbEDIDModule_GetMonitorSize_def Let_def descriptors_keep)
  then have c: "collected [] False (0, False, b)" by (simp add: collected_def)
  note run = extensions_run [OF c b(3) sp]
  obtain cnt hdmi a' where f: "fold (attrib_extension e) [1..<bsize div 128] (0, False, b) = (cnt, hdmi, a')"
    by (cases "fold (attrib_extension e) [1..<bsize div 128] (0, False, b)")
  have total: "cbEDIDModule_GetTotalBlockNum (Some e) bsize = bsize div 128"
    by (simp add: cbEDIDModule_GetTotalBlockNum_def EDID_BLK_SIZE_def)
  have res: "cbEDIDModule_GetMonitorAttrib (Some e) bsize a = Some a'"
    using valid f unfolding cbEDIDModule_GetMonitorAttrib_def total Let_def option.sel b_def by simp
  define sads where "sads = concat (map (\<lambda>k. ext_sads (ext_block e k)) [1..<bsize div 128])"
  define m where "m = min 15 (length sads)"
  have col: "SAD_Count a' = of_nat m" "take m (CEA_SADs a') = take 15 sads"
    using run unfolding f sads_def [symmetric] by (simp_all add: collected_def Let_def m_def min.commute)
  have "m \<le> 15" by (simp add: m_def)
  then have "unat (SAD_Count a') = m" unfolding col by (simp add: unat_of_nat)
  moreover have "IsCEA861HDMI a' \<longleftrightarrow>
      (\<exists>k \<in> {1..<bsize div 128}. ext_flags (ext_block e k) \<and> (\<exists>j \<in> {1..k}. ext_hdmi (ext_block e j)))"
    using run unfolding f by simp
  ultimately show ?thesis
    unfolding Let_def sads_def [symmetric] m_def [symmetric] using res col(2) by (intro exI [of _ a']) simp
qed

definition sample_hdmi_edid :: "u8 list" where
  "sample_hdmi_edid = EDID1header @ replicate 118 0 @ [1, 5] @
     [2, 3, 14, 0x40, 0x23, 0x09, 0x07, 0x07, 0x65, 0x03, 0x0C, 0x00, 0x10, 0x00] @ replicate 113 0 @ [0xEF]"

lemma sample_hdmi_edid_valid: "cbEDIDModule_IsEDIDValid (Some sample_hdmi_edid) 256"
  by code_simp

lemma cbEDIDModule_GetMonitorAttrib_collects_witness:
  "\<exists>a. cbEDIDModule_GetMonitorAttrib (Some sample_hdmi_edid) 256 zero_monitor = Some a \<and>
     unat (SAD_Count a) = 1 \<and> take 1 (CEA_SADs a) = [(0x09, 0x07, 0x07)] \<and> IsCEA861HDMI a"
proof -
  have one: "(256 :: nat) div 128 = 2" "[1..<2] = [1]" "{1..<2} = {1 :: nat}" by (auto simp: upt_rec)
  have b: "is_cea (ext_block sample_hdmi_edid 1)" "speaker_blocks_ok (ext_block sample_hdmi_edid 1) (starts (ext_block sample_hdmi_edid 1))"
    "ext_sads (ext_block sample_hdmi_edid 1) = [(0x09, 0x07, 0x07)]"
    "ext_hdmi (ext_block sample_hdmi_edid 1)" "bit (ext_block sample_hdmi_edid 1 ! 3) 6"
    by code_simp+
  then have flags: "ext_flags (ext_block sample_hdmi_edid 1)" unfolding ext_flags_def by (auto intro!: bexI [of _ 6])
  show ?thesis
    using cbEDIDModule_GetMonitorAttrib_collects [OF sample_hdmi_edid_valid, of zero_monitor] b flags
    unfolding one Let_def by (auto simp: zero_monitor_def)
qed

end
