(* ===== verification/Edid_List.thy ===== *)
theory Edid_List
  imports Cea_Format Monitor_Attrib
begin

text \<open>
  The list of timings that the EDID module builds for a device (\<^verbatim>\<open>pDeviceTimingList\<close> of
  \<^verbatim>\<open>cbios/Util/CBiosEDID.c\<close>): how it grows, what is kept out of it, and the three readers that
  fill it, from the detailed timings of the base block and of an extension block and from the short
  video descriptors.

  The kernel's memory pool is a parameter: \<open>pool n\<close> is the block that a request for \<open>n\<close> bytes
  returns, read as timings, or \<open>None\<close>. The readers take one such function per round of their loop, since
  the pool may answer differently each time.
\<close>

section \<open>State\<close>

definition MAX_DEVICE_TIMING_NUM :: u32 where "MAX_DEVICE_TIMING_NUM = 48"

text \<open>The size of \<^verbatim>\<open>CBIOS_DEVICE_TIMING_INFO\<close> in bytes.\<close>

definition TIMING_INFO_SIZE :: u32 where "TIMING_INFO_SIZE = 48"

record edid_struct =
  Version :: u8
  NativeNumUsed :: u8
  Attribute :: monitor_attrib
  HDAudioFormatNum :: u32
  HDAudioFormat :: "hdmi_audio_info list"
  TimingNum :: u32
  TimingArraySize :: u32
  pDeviceTimingList :: "device_timing list option"

type_synonym pool = "u32 \<Rightarrow> device_timing list option"

text \<open>The timings recorded so far.\<close>

definition timings :: "edid_struct \<Rightarrow> device_timing list" where
  "timings st = (case pDeviceTimingList st of None \<Rightarrow> [] | Some l \<Rightarrow> take (unat (TimingNum st)) l)"

section \<open>Operations\<close>

definition CBIOS_DTL_TIMING :: u32 where "CBIOS_DTL_TIMING = 0x0004"
definition CBIOS_DTD_TIMING :: u32 where "CBIOS_DTD_TIMING = 0x0008"
definition CBIOS_SVD_TIMING :: u32 where "CBIOS_SVD_TIMING = 0x0010"

text \<open>The three parts of adding: make sure there is an array, make it larger, store.\<close>

definition ensure_array :: "pool \<Rightarrow> edid_struct \<Rightarrow> edid_struct" where
  "ensure_array pool st =
     (case pDeviceTimingList st of
        Some l \<Rightarrow> st
      | None \<Rightarrow>
          let new = pool (MAX_DEVICE_TIMING_NUM * TIMING_INFO_SIZE)
          in st\<lparr>TimingNum := 0, pDeviceTimingList := new,
                TimingArraySize := (if new = None then 0 else MAX_DEVICE_TIMING_NUM)\<rparr>)"

definition grow_array :: "pool \<Rightarrow> edid_struct \<Rightarrow> edid_struct" where
  "grow_array pool st =
     (case pDeviceTimingList st of
        None \<Rightarrow> st
      | Some old \<Rightarrow>
          if TimingArraySize st \<le> TimingNum st then
            let NewSize = TimingArraySize st + MAX_DEVICE_TIMING_NUM div 2
            in case pool (NewSize * TIMING_INFO_SIZE) of
                 None \<Rightarrow> st
               | Some new \<Rightarrow>
                   let n = unat (TimingArraySize st)
                   in st\<lparr>pDeviceTimingList := Some (take n old @ drop n new),
                         TimingArraySize := NewSize\<rparr>
          else st)"

definition cbEDIDModule_AddDeviceTiming ::
  "pool \<Rightarrow> edid_struct \<Rightarrow> device_timing \<Rightarrow> bool \<times> edid_struct" where
  "cbEDIDModule_AddDeviceTiming pool st pTiming =
     (let st = grow_array pool (ensure_array pool st)
      in case pDeviceTimingList st of
           None \<Rightarrow> (False, st)
         | Some l \<Rightarrow>
             if TimingNum st < TimingArraySize st
             then (True, st\<lparr>pDeviceTimingList := Some (l[unat (TimingNum st) := pTiming]),
                            TimingNum := TimingNum st + 1\<rparr>)
             else (False, st))"

fun cbStrnCmp_loop :: "u8 list \<Rightarrow> u8 list \<Rightarrow> nat \<Rightarrow> nat \<Rightarrow> int" where
  "cbStrnCmp_loop pStr1 pStr2 i 0 = 0"
| "cbStrnCmp_loop pStr1 pStr2 i (Suc n) =
     (if pStr1 ! i = 0 \<or> pStr2 ! i = 0 \<or> pStr1 ! i \<noteq> pStr2 ! i
      then uint (pStr1 ! i) - uint (pStr2 ! i)
      else cbStrnCmp_loop pStr1 pStr2 (i + 1) n)"

definition cbStrnCmp :: "u8 list \<Rightarrow> u8 list \<Rightarrow> nat \<Rightarrow> int" where
  "cbStrnCmp pStr1 pStr2 Lenth = cbStrnCmp_loop pStr1 pStr2 0 Lenth"

definition cbEDIDModule_MatchTiming ::
  "device_timing \<Rightarrow> u32 \<Rightarrow> u32 \<Rightarrow> u32 \<Rightarrow> u32 \<Rightarrow> bool" where
  "cbEDIDModule_MatchTiming pTiming XResolution YResolution Rate InterlaceFlag \<longleftrightarrow>
     ucast (XRes (FullTiming pTiming)) = XResolution \<and>
     ucast (YRes (FullTiming pTiming)) = YResolution \<and>
     (IsInterLaced pTiming \<longleftrightarrow> InterlaceFlag \<noteq> 0) \<and>
     Rate - 50 \<le> ucast (RefreshRate (FullTiming pTiming)) \<and>
     ucast (RefreshRate (FullTiming pTiming)) \<le> Rate + 50"

definition CBIOS_MIN_PIXEL_CLK :: u32 where "CBIOS_MIN_PIXEL_CLK = 200000"
definition CBIOS_MIN_TIMING_X :: u16 where "CBIOS_MIN_TIMING_X = 640"
definition CBIOS_MIN_TIMING_Y :: u16 where "CBIOS_MIN_TIMING_Y = 480"

text \<open>\<open>BNQ7949\<close>, \<open>BenQ EL2870U\<close>, \<open>AUO44B5\<close> and \<open>B145QAN01.K \<close> in ASCII.\<close>

definition STR_BNQ7949 :: "u8 list" where
  "STR_BNQ7949 = [0x42, 0x4E, 0x51, 0x37, 0x39, 0x34, 0x39, 0]"
definition STR_BenQ_EL2870U :: "u8 list" where
  "STR_BenQ_EL2870U =
     [0x42, 0x65, 0x6E, 0x51, 0x20, 0x45, 0x4C, 0x32, 0x38, 0x37, 0x30, 0x55, 0]"
definition STR_AUO44B5 :: "u8 list" where
  "STR_AUO44B5 = [0x41, 0x55, 0x4F, 0x34, 0x34, 0x42, 0x35, 0]"
definition STR_B145QAN01_K :: "u8 list" where
  "STR_B145QAN01_K =
     [0x42, 0x31, 0x34, 0x35, 0x51, 0x41, 0x4E, 0x30, 0x31, 0x2E, 0x4B, 0x20, 0]"

definition cbEDIDModule_ValidateTiming :: "edid_struct \<Rightarrow> device_timing \<Rightarrow> bool" where
  "cbEDIDModule_ValidateTiming st pTiming =
     (if PixelClock (FullTiming pTiming) < CBIOS_MIN_PIXEL_CLK \<or>
         XRes (FullTiming pTiming) < CBIOS_MIN_TIMING_X \<or>
         YRes (FullTiming pTiming) < CBIOS_MIN_TIMING_Y
      then False
      else if pTiming \<in> set (timings st) then False
      else if TimingType pTiming = CBIOS_DTD_TIMING \<and>
              cbStrnCmp (MonitorID (Attribute st)) STR_BNQ7949 7 = 0 \<and>
              cbStrnCmp (MonitorName (Attribute st)) STR_BenQ_EL2870U 12 = 0 \<and>
              cbEDIDModule_MatchTiming pTiming 3840 2160 3000 0
      then False
      else True)"

text \<open>\<^verbatim>\<open>TmpTiming.IsNativeMode = 1; NativeNumUsed++\<close>, guarded.\<close>

definition take_native :: "edid_struct \<Rightarrow> device_timing \<Rightarrow> device_timing \<times> edid_struct" where
  "take_native st t =
     (if ucast (NativeNumUsed st) < NativeFormatNum (Attribute st)
      then (t\<lparr>IsNativeMode := True\<rparr>, st\<lparr>NativeNumUsed := NativeNumUsed st + 1\<rparr>)
      else (t, st))"

text \<open>One round of \<^verbatim>\<open>cbEDIDModule_GetDetailedMode\<close>, and its loop over the four descriptors.\<close>

definition detailed_step ::
  "pool \<Rightarrow> u8 list \<Rightarrow> nat \<Rightarrow> edid_struct \<times> u32 \<Rightarrow> edid_struct \<times> u32" where
  "detailed_step pool pEDID i = (\<lambda>(st, ulNumOfDtlMode).
     case cbEDIDModule_ParseDtlTiming (drop (0x36 + 18 * i) pEDID) zero_timing of
       None \<Rightarrow> (st, ulNumOfDtlMode)
     | Some t \<Rightarrow>
         let (t, st) = take_native st (t\<lparr>TimingType := CBIOS_DTL_TIMING\<rparr>)
         in if \<not> cbEDIDModule_ValidateTiming st t then (st, ulNumOfDtlMode)
            else
              let t = (if i = 0 then
                         t\<lparr>IsPreferMode :=
                             \<not> (cbStrnCmp (MonitorID (Attribute st)) STR_AUO44B5 7 = 0 \<and>
                                cbStrnCmp (MonitorName (Attribute st)) STR_B145QAN01_K 12 = 0)\<rparr>
                       else t);
                  (ok, st) = cbEDIDModule_AddDeviceTiming pool st t
              in (st, if ok then ulNumOfDtlMode + 1 else ulNumOfDtlMode))"

fun detailed_loop ::
  "(nat \<Rightarrow> pool) \<Rightarrow> u8 list \<Rightarrow> nat list \<Rightarrow> edid_struct \<times> u32 \<Rightarrow> edid_struct \<times> u32" where
  "detailed_loop pool pEDID [] s = s"
| "detailed_loop pool pEDID (i # is) s =
     (if 128 \<le> 0x36 + 18 * i + 18 then s
      else detailed_loop pool pEDID is (detailed_step (pool i) pEDID i s))"

definition cbEDIDModule_GetDetailedMode ::
  "(nat \<Rightarrow> pool) \<Rightarrow> u8 list \<Rightarrow> edid_struct \<Rightarrow> edid_struct \<times> u32" where
  "cbEDIDModule_GetDetailedMode pool pEDID st = detailed_loop pool pEDID [0, 1, 2, 3] (st, 0)"

text \<open>The same for the detailed timings of a CEA extension block, from its offset byte on.\<close>

definition cea_detailed_step ::
  "pool \<Rightarrow> device_timing \<Rightarrow> edid_struct \<times> u32 \<Rightarrow> edid_struct \<times> u32" where
  "cea_detailed_step pool t = (\<lambda>(st, ulNumMode).
     let (t, st) = take_native st (t\<lparr>TimingType := CBIOS_DTD_TIMING\<rparr>)
     in if \<not> cbEDIDModule_ValidateTiming st t then (st, ulNumMode)
        else let (ok, st) = cbEDIDModule_AddDeviceTiming pool st t
             in (st, if ok then ulNumMode + 1 else ulNumMode))"

function cea_detailed_loop ::
  "(nat \<Rightarrow> pool) \<Rightarrow> u8 list \<Rightarrow> nat \<Rightarrow> edid_struct \<times> u32 \<Rightarrow> edid_struct \<times> u32" where
  "cea_detailed_loop pool pEdidBlock i s =
     (if i + 18 < EDID_BLK_SIZE then
        case cbEDIDModule_ParseDtlTiming (drop i pEdidBlock) zero_timing of
          None \<Rightarrow> s
        | Some t \<Rightarrow> cea_detailed_loop pool pEdidBlock (i + 18) (cea_detailed_step (pool i) t s)
      else s)"
  by pat_completeness auto
termination
  by (relation "measure (\<lambda>(pool, b, i, s). EDID_BLK_SIZE - i)") auto

declare cea_detailed_loop.simps [simp del]

definition cbEDIDModule_GetCEADetailedMode ::
  "(nat \<Rightarrow> pool) \<Rightarrow> u8 list \<Rightarrow> u8 \<Rightarrow> edid_struct \<Rightarrow> edid_struct \<times> u32" where
  "cbEDIDModule_GetCEADetailedMode pool pEdidBlock DtlOffset st =
     cea_detailed_loop pool pEdidBlock (unat DtlOffset) (st, 0)"

text \<open>Looking a format up by its code, and by the numbers of its timing.\<close>

fun find_from :: "('a \<Rightarrow> bool) \<Rightarrow> 'a list \<Rightarrow> nat \<Rightarrow> nat option" where
  "find_from P [] index = None"
| "find_from P (x # xs) index = (if P x then Some index else find_from P xs (index + 1))"

definition cbEDIDModule_isSvdFormatExist :: "edid_struct \<Rightarrow> u16 \<Rightarrow> nat option" where
  "cbEDIDModule_isSvdFormatExist st FmtVIC =
     (if pDeviceTimingList st = None \<or> TimingNum st = 0 \<or> FmtVIC = 0 then None
      else find_from (\<lambda>t. FormatVIC (FullTiming t) = FmtVIC) (timings st) 0)"

definition same_svd_timing :: "device_timing \<Rightarrow> device_timing \<Rightarrow> bool" where
  "same_svd_timing svd t \<longleftrightarrow>
     (if FormatVIC (FullTiming t) \<noteq> 0 then False
      else
        let tempTiming = (FullTiming t)\<lparr>
              FormatVIC := FormatVIC (FullTiming svd), RefreshRate := RefreshRate (FullTiming svd),
              HorSyncStart := HorSyncStart (FullTiming svd), HorSyncEnd := HorSyncEnd (FullTiming svd),
              VerSyncStart := VerSyncStart (FullTiming svd), VerSyncEnd := VerSyncEnd (FullTiming svd)\<rparr>
        in tempTiming = FullTiming svd \<and> AspectRatio t = AspectRatio svd \<and>
           IsInterLaced t = IsInterLaced svd)"

definition cbEDIDModule_hasSameSvdTiming :: "edid_struct \<Rightarrow> device_timing \<Rightarrow> nat option" where
  "cbEDIDModule_hasSameSvdTiming st pSvdTiming =
     (if pDeviceTimingList st = None \<or> TimingNum st = 0 then None
      else find_from (same_svd_timing pSvdTiming) (timings st) 0)"

text \<open>The timing of a format as the tables give it.\<close>

definition svd_timing :: "u16 \<Rightarrow> bool \<Rightarrow> device_timing" where
  "svd_timing FmtVic bNative =
     (let t = HDMIFormatTimingTbl ! (unat FmtVic - 1); m = CEAVideoFormatTable ! (unat FmtVic - 1)
      in zero_timing\<lparr>TimingType := CBIOS_SVD_TIMING,
           FullTiming :=
             (if cbIsCeaNTSCCompatMode t
              then t\<lparr>RefreshRate := ucast (cbGetCEAFractRefrate (ucast (RefreshRate t))),
                     PixelClock := cbGetCEAFractRRClock (PixelClock t)\<rparr>
              else t),
           AspectRatio := ucast (cea_aspect m),
           IsNativeMode := bNative,
           IsInterLaced := bit (cea_interlace m) 0\<rparr>)"

text \<open>\<^verbatim>\<open>pDeviceTimingList[Index]\<close> updated in place.\<close>

definition upd_timing :: "nat \<Rightarrow> (device_timing \<Rightarrow> device_timing) \<Rightarrow> edid_struct \<Rightarrow> edid_struct" where
  "upd_timing Index f st =
     st\<lparr>pDeviceTimingList := map_option (\<lambda>l. l[Index := f (l ! Index)]) (pDeviceTimingList st)\<rparr>"

text \<open>The result and \<open>*AddedIndex\<close>, where it is written.\<close>

definition cbEDIDModule_AddSvdFormat ::
  "pool \<Rightarrow> edid_struct \<Rightarrow> u16 \<Rightarrow> bool \<Rightarrow> bool \<times> edid_struct \<times> u32 option" where
  "cbEDIDModule_AddSvdFormat pool st FmtVic bNative =
     (if cea_supported (CEAVideoFormatTable ! (unat FmtVic - 1)) = 0 then (False, st, None)
      else case cbEDIDModule_isSvdFormatExist st FmtVic of
        Some Index \<Rightarrow> (True, st, Some (of_nat Index))
      | None \<Rightarrow>
          let t = svd_timing FmtVic bNative
          in case cbEDIDModule_hasSameSvdTiming st t of
               Some Index \<Rightarrow>
                 (True,
                  upd_timing Index (\<lambda>e. e\<lparr>
                    FullTiming := (FullTiming e)\<lparr>RefreshRate := RefreshRate (FullTiming t),
                                                 FormatVIC := FmtVic\<rparr>,
                    IsNativeMode := (if IsNativeMode t then True else IsNativeMode e)\<rparr>) st,
                  Some (of_nat Index))
             | None \<Rightarrow>
                 let (bAdded, st) = cbEDIDModule_AddDeviceTiming pool st t
                 in (bAdded, st, if bAdded then Some (TimingNum st - 1) else None))"

definition svd_step :: "pool \<Rightarrow> u8 \<Rightarrow> edid_struct \<Rightarrow> edid_struct" where
  "svd_step pool svd st =
     (case cbEDIDModule_GetFmtIdxFromSVD svd 0 of
        (Status, VIC, IsNative) \<Rightarrow>
          if \<not> Status then st
          else fst (snd (cbEDIDModule_AddSvdFormat pool st (ucast VIC) IsNative)))"

fun svd_loop :: "(nat \<Rightarrow> pool) \<Rightarrow> u8 list \<Rightarrow> nat \<Rightarrow> nat \<Rightarrow> edid_struct \<Rightarrow> edid_struct" where
  "svd_loop pool d j 0 st = st"
| "svd_loop pool d j (Suc n) st = svd_loop pool d (j + 1) n (svd_step (pool j) (d ! (1 + j)) st)"

definition cbEDIDModule_GetSVDMode ::
  "(nat \<Rightarrow> pool) \<Rightarrow> u8 list \<Rightarrow> edid_struct \<Rightarrow> nat \<Rightarrow> edid_struct" where
  "cbEDIDModule_GetSVDMode pool pSVDDataInEDID st BlockIndex =
     (let PayloadLength = unat (pSVDDataInEDID ! 0 AND 0x1F);
          a = Attribute st;
          e = SVDData a ! (BlockIndex - 1);
          n = min PayloadLength MAX_SVD_COUNT;
          e = e\<lparr>SVDCount := of_nat PayloadLength,
                SVD := take n (drop 1 pSVDDataInEDID) @ drop n (SVD e)\<rparr>;
          st = st\<lparr>Attribute := a\<lparr>SVDData := (SVDData a)[BlockIndex - 1 := e]\<rparr>\<rparr>
      in svd_loop pool pSVDDataInEDID 0 PayloadLength st)"

section \<open>Adding a timing\<close>

text \<open>What is asked of the pool: a block holds as many timings as were asked for.\<close>

definition pool_ok :: "pool \<Rightarrow> bool" where
  "pool_ok pool \<longleftrightarrow> (\<forall>n l. pool n = Some l \<longrightarrow> 48 * length l = unat n)"

definition pool_gives :: "pool \<Rightarrow> bool" where
  "pool_gives pool \<longleftrightarrow> (\<forall>n. 48 dvd unat n \<longrightarrow> pool n \<noteq> None)"

text \<open>
  The array is as long as its recorded size and never holds more timings than that. The budget \<open>b\<close>
  bounds how often it may have grown, so that its size in bytes stays far from wrapping around.
\<close>

definition edid_ok :: "nat \<Rightarrow> edid_struct \<Rightarrow> bool" where
  [kmd_inv]: "edid_ok b st \<longleftrightarrow>
     (case pDeviceTimingList st of
        None \<Rightarrow> TimingNum st = 0
      | Some l \<Rightarrow> length l = unat (TimingArraySize st) \<and> TimingNum st \<le> TimingArraySize st \<and>
                  unat (TimingArraySize st) \<le> 48 + 24 * b)"

lemma edid_ok_mono: "edid_ok b st \<Longrightarrow> b \<le> c \<Longrightarrow> edid_ok c st"
  by (auto simp: edid_ok_def split: option.splits)

lemma length_timings: "edid_ok b st \<Longrightarrow> length (timings st) = unat (TimingNum st)"
  by (auto simp: edid_ok_def timings_def word_le_nat_alt split: option.splits)

lemma pool_okD: "pool_ok pool \<Longrightarrow> pool n = Some l \<Longrightarrow> length l = unat n div 48"
  unfolding pool_ok_def by (metis nonzero_mult_div_cancel_left zero_neq_numeral)

lemma ensure_array_ok:
  assumes "edid_ok b st" "pool_ok pool"
  shows "edid_ok b (ensure_array pool st)" "timings (ensure_array pool st) = timings st"
    "TimingNum (ensure_array pool st) = TimingNum st"
    "pool_gives pool \<Longrightarrow> pDeviceTimingList (ensure_array pool st) \<noteq> None"
  using assms pool_okD [OF assms(2), of 2304] spec [of _ "2304 :: u32"]
  unfolding pool_gives_def
  by (auto simp: ensure_array_def edid_ok_def timings_def Let_def
      MAX_DEVICE_TIMING_NUM_def TIMING_INFO_SIZE_def split: option.splits)

lemma new_size:
  assumes "unat (n :: u32) \<le> 48 + 24 * b" "b < 2 ^ 20"
  shows "unat (n + 24) = unat n + 24" "unat ((n + 24) * 48) = (unat n + 24) * 48" "n < n + 24"
proof -
  show a: "unat (n + 24) = unat n + 24" using assms by (simp add: unat_word_ariths)
  then show "unat ((n + 24) * 48) = (unat n + 24) * 48"
    using assms by (simp add: unat_word_ariths)
  show "n < n + 24" by (simp add: word_less_nat_alt a)
qed

lemma grow_array_ok:
  assumes ok: "edid_ok b st" "pool_ok pool" and b: "b < 2 ^ 20"
  shows "edid_ok (Suc b) (grow_array pool st)" "timings (grow_array pool st) = timings st"
    "TimingNum (grow_array pool st) = TimingNum st"
    "pDeviceTimingList (grow_array pool st) = None \<longleftrightarrow> pDeviceTimingList st = None"
    "pool_gives pool \<and> pDeviceTimingList st \<noteq> None \<longrightarrow>
       TimingNum (grow_array pool st) < TimingArraySize (grow_array pool st)"
proof -
  show "pDeviceTimingList (grow_array pool st) = None \<longleftrightarrow> pDeviceTimingList st = None"
    "TimingNum (grow_array pool st) = TimingNum st"
    by (auto simp: grow_array_def Let_def split: option.splits)
  have "edid_ok (Suc b) (grow_array pool st) \<and> timings (grow_array pool st) = timings st \<and>
    (pool_gives pool \<and> pDeviceTimingList st \<noteq> None \<longrightarrow>
       TimingNum (grow_array pool st) < TimingArraySize (grow_array pool st))"
  proof (cases "pDeviceTimingList st")
    case (Some old)
    then have len: "length old = unat (TimingArraySize st)" "TimingNum st \<le> TimingArraySize st"
      "unat (TimingArraySize st) \<le> 48 + 24 * b"
      using ok(1) by (simp_all add: edid_ok_def)
    note size = new_size [OF len(3) b]
    let ?new = "pool ((TimingArraySize st + 24) * 48)"
    have eq: "grow_array pool st =
      (if TimingArraySize st \<le> TimingNum st then
         case ?new of None \<Rightarrow> st
         | Some new \<Rightarrow> st\<lparr>pDeviceTimingList := Some (take (unat (TimingArraySize st)) old @
              drop (unat (TimingArraySize st)) new), TimingArraySize := TimingArraySize st + 24\<rparr>
       else st)"
      using Some
      by (simp add: grow_array_def Let_def MAX_DEVICE_TIMING_NUM_def TIMING_INFO_SIZE_def
          split: option.split)
    have new: "length new = unat (TimingArraySize st) + 24" if "?new = Some new" for new
      using pool_okD [OF ok(2) that] size by simp
    have give: "?new \<noteq> None" if "pool_gives pool"
      using that size(2) unfolding pool_gives_def by simp
    have less: "TimingNum st < TimingArraySize st + 24" using len(2) size(3) by (rule order.strict_trans1)
    have "edid_ok (Suc b) (grow_array pool st)"
      unfolding eq using len Some new size less
      by (auto simp: edid_ok_def split: option.splits)
    moreover have "timings (grow_array pool st) = timings st"
      unfolding eq using len Some by (auto simp: timings_def word_le_nat_alt split: option.splits)
    moreover have "pool_gives pool \<longrightarrow>
       TimingNum (grow_array pool st) < TimingArraySize (grow_array pool st)"
      unfolding eq using less using give by (auto split: option.splits)
    ultimately show ?thesis by blast
  qed (use ok in \<open>auto simp: grow_array_def edid_ok_def timings_def\<close>)
  then show "edid_ok (Suc b) (grow_array pool st)" "timings (grow_array pool st) = timings st"
    "pool_gives pool \<and> pDeviceTimingList st \<noteq> None \<longrightarrow>
       TimingNum (grow_array pool st) < TimingArraySize (grow_array pool st)" by blast+
qed

lemma AddDeviceTiming_spec:
  assumes ok: "edid_ok b st" "pool_ok pool" and b: "b < 2 ^ 20"
    and add: "cbEDIDModule_AddDeviceTiming pool st t = (added, st')"
  shows "edid_ok (Suc b) st'" "timings st' = (if added then timings st @ [t] else timings st)"
    "TimingNum st' = (if added then TimingNum st + 1 else TimingNum st)"
    "Attribute st' = Attribute st" "NativeNumUsed st' = NativeNumUsed st"
    "pool_gives pool \<Longrightarrow> added"
proof -
  define e where "e = ensure_array pool st"
  define g where "g = grow_array pool e"
  note E = ensure_array_ok [OF ok, folded e_def]
  note G = grow_array_ok [OF E(1) ok(2) b, folded g_def]
  have keep: "Attribute g = Attribute st" "NativeNumUsed g = NativeNumUsed st"
    by (auto simp: g_def e_def grow_array_def ensure_array_def Let_def split: option.splits)
  have res: "(added, st') = (case pDeviceTimingList g of None \<Rightarrow> (False, g)
     | Some l \<Rightarrow> if TimingNum g < TimingArraySize g
         then (True, g\<lparr>pDeviceTimingList := Some (l[unat (TimingNum g) := t]),
                       TimingNum := TimingNum g + 1\<rparr>)
         else (False, g))"
    using add unfolding cbEDIDModule_AddDeviceTiming_def Let_def e_def [symmetric] g_def [symmetric]
    by simp
  have inc: "unat (TimingNum g + 1) = unat (TimingNum g) + 1"
    if "TimingNum g < TimingArraySize g"
    using that unsigned_less [where 'a = nat, of "TimingArraySize g"]
    by (simp add: word_less_nat_alt unat_word_ariths)
  show "edid_ok (Suc b) st'"
    using res G(1) inc by (auto simp: edid_ok_def word_le_nat_alt word_less_nat_alt split: option.splits if_splits)
  show "TimingNum st' = (if added then TimingNum st + 1 else TimingNum st)"
    "Attribute st' = Attribute st" "NativeNumUsed st' = NativeNumUsed st"
    using res G(3) E(3) keep by (auto split: option.splits if_splits)
  show "added" if "pool_gives pool"
    using res G(4) G(5) E(4) that by (auto split: option.splits if_splits)
  show "timings st' = (if added then timings st @ [t] else timings st)"
  proof (cases added)
    case True
    then obtain l where l: "pDeviceTimingList g = Some l" "TimingNum g < TimingArraySize g"
      "st' = g\<lparr>pDeviceTimingList := Some (l[unat (TimingNum g) := t]), TimingNum := TimingNum g + 1\<rparr>"
      using res by (auto split: option.splits if_splits)
    have "unat (TimingNum g) < length l"
      using l G(1) by (simp add: edid_ok_def word_less_nat_alt)
    then have "timings st' = timings g @ [t]"
      using l inc by (simp add: timings_def take_Suc_conv_app_nth)
    then show ?thesis using True G(2) E(2) by simp
  next
    case False
    then have "st' = g" using res by (auto split: option.splits if_splits)
    then show ?thesis using False G(2) E(2) by simp
  qed
qed

section \<open>Readers of detailed timings\<close>

text \<open>A timing the display can use at all.\<close>

definition usable :: "device_timing \<Rightarrow> bool" where
  "usable t \<longleftrightarrow> CBIOS_MIN_PIXEL_CLK \<le> PixelClock (FullTiming t) \<and>
     CBIOS_MIN_TIMING_X \<le> XRes (FullTiming t) \<and> CBIOS_MIN_TIMING_Y \<le> YRes (FullTiming t)"

text \<open>
  What a round of a reader promises: from a list in order it leaves a list in order that starts with
  the old timings, every new one has the property \<open>P\<close>, and the count goes up by the number of new ones.
\<close>

definition extends :: "(device_timing \<Rightarrow> bool) \<Rightarrow> edid_struct \<times> u32 \<Rightarrow> edid_struct \<times> u32 \<Rightarrow> nat \<Rightarrow> bool" where
  "extends P s s' n \<longleftrightarrow>
     (\<exists>ts. timings (fst s') = timings (fst s) @ ts \<and> length ts \<le> n \<and> (\<forall>t\<in>set ts. P t) \<and>
           snd s' = snd s + of_nat (length ts))"

lemma extends_refl: "extends P s s 0"
  by (simp add: extends_def)

lemma extends_trans: "extends P s t m \<Longrightarrow> extends P t u n \<Longrightarrow> extends P s u (m + n)"
proof -
  assume "extends P s t m" "extends P t u n"
  then obtain ts us where "timings (fst t) = timings (fst s) @ ts" "length ts \<le> m"
    "\<forall>t\<in>set ts. P t" "snd t = snd s + of_nat (length ts)"
    "timings (fst u) = timings (fst t) @ us" "length us \<le> n"
    "\<forall>t\<in>set us. P t" "snd u = snd t + of_nat (length us)"
    unfolding extends_def by blast
  then show "extends P s u (m + n)"
    unfolding extends_def by (intro exI [of _ "ts @ us"]) (auto simp: add.assoc)
qed

locale timing_reader =
  fixes step :: "'i \<Rightarrow> edid_struct \<times> u32 \<Rightarrow> edid_struct \<times> u32" and P :: "device_timing \<Rightarrow> bool"
  assumes step_ok: "edid_ok b (fst s) \<Longrightarrow> b < 2 ^ 20 \<Longrightarrow> edid_ok (Suc b) (fst (step i s))"
    and step_extends: "edid_ok b (fst s) \<Longrightarrow> b < 2 ^ 20 \<Longrightarrow> extends P s (step i s) 1"
begin

lemma run_ok:
  "edid_ok b (fst s) \<Longrightarrow> b + length is \<le> 2 ^ 20 \<Longrightarrow> edid_ok (b + length is) (fst (fold step is s))"
proof (induction "is" arbitrary: b s)
  case (Cons i "is")
  then have "edid_ok (Suc b) (fst (step i s))" by (intro step_ok) auto
  then show ?case using Cons.IH [of "Suc b" "step i s"] Cons.prems(2) by simp
qed simp

lemma run_extends:
  "edid_ok b (fst s) \<Longrightarrow> b + length is \<le> 2 ^ 20 \<Longrightarrow> extends P s (fold step is s) (length is)"
proof (induction "is" arbitrary: b s)
  case (Cons i "is")
  then have "edid_ok (Suc b) (fst (step i s))" by (intro step_ok) auto
  then have "extends P (step i s) (fold step is (step i s)) (length is)"
    using Cons.IH [of "Suc b" "step i s"] Cons.prems(2) by simp
  moreover have "extends P s (step i s) 1" using Cons.prems by (intro step_extends [of b]) auto
  ultimately show ?case using extends_trans [of P s "step i s" 1] by simp
qed (simp add: extends_refl)

text \<open>What the round of an item puts into the list is there at the end.\<close>

lemma run_serves:
  assumes serve: "\<And>b s. edid_ok b (fst s) \<Longrightarrow> b < 2 ^ 20 \<Longrightarrow> \<exists>t \<in> set (timings (fst (step i s))). Q t"
    and i: "i \<in> set is" and ok: "edid_ok b (fst s)" "b + length is \<le> 2 ^ 20"
  shows "\<exists>t \<in> set (timings (fst (fold step is s))). Q t"
  using i ok
proof (induction "is" arbitrary: b s)
  case (Cons j js)
  have b: "b < 2 ^ 20" using Cons.prems by simp
  have st: "edid_ok (Suc b) (fst (step j s))" "Suc b + length js \<le> 2 ^ 20"
    using step_ok [OF Cons.prems(2) b] Cons.prems(3) by simp_all
  show ?case
  proof (cases "i \<in> set js")
    case True
    then show ?thesis using Cons.IH [OF True st] by simp
  next
    case False
    then have "j = i" using Cons.prems(1) by simp
    then obtain t where "t \<in> set (timings (fst (step j s)))" "Q t" using serve [OF Cons.prems(2) b] by blast
    then show ?thesis using run_extends [OF st] by (auto simp: extends_def)
  qed
qed simp

end

text \<open>Both readers add a parsed timing the same way, up to the mark on the preferred one.\<close>

definition offer :: "pool \<Rightarrow> (edid_struct \<Rightarrow> device_timing \<Rightarrow> device_timing) \<Rightarrow>
    device_timing \<Rightarrow> edid_struct \<times> u32 \<Rightarrow> edid_struct \<times> u32" where
  "offer pool mark t = (\<lambda>(st, n).
     let (t, st) = take_native st t
     in if \<not> cbEDIDModule_ValidateTiming st t then (st, n)
        else let (ok, st) = cbEDIDModule_AddDeviceTiming pool st (mark st t)
             in (st, if ok then n + 1 else n))"

lemma take_native_keeps:
  "take_native st t = (t', st') \<Longrightarrow> edid_ok b st' = edid_ok b st \<and> timings st' = timings st \<and>
     FullTiming t' = FullTiming t \<and> Attribute st' = Attribute st"
  by (auto simp: take_native_def edid_ok_def timings_def split: if_splits option.splits)

lemma offer_spec:
  assumes ok: "edid_ok b (fst s)" "pool_ok pool" and b: "b < 2 ^ 20"
    and mark: "\<And>st t. FullTiming (mark st t) = FullTiming t"
  shows "edid_ok (Suc b) (fst (offer pool mark t s)) \<and> extends usable s (offer pool mark t s) 1"
proof -
  obtain st n where s: "s = (st, n)" by (cases s)
  obtain t1 st1 where tn: "take_native st t = (t1, st1)" by (cases "take_native st t")
  note keep = take_native_keeps [OF tn, of b]
  show ?thesis
  proof (cases "cbEDIDModule_ValidateTiming st1 t1")
    case False
    then have "offer pool mark t s = (st1, n)" by (simp add: offer_def s tn)
    then show ?thesis using ok(1) keep edid_ok_mono [of b st1 "Suc b"]
      by (auto simp: extends_def s)
  next
    case True
    obtain added st2 where add: "cbEDIDModule_AddDeviceTiming pool st1 (mark st1 t1) = (added, st2)"
      by (cases "cbEDIDModule_AddDeviceTiming pool st1 (mark st1 t1)")
    have "edid_ok b st1" using ok(1) keep by (simp add: s)
    note A = AddDeviceTiming_spec [OF this ok(2) b add]
    have "usable t1"
      using True by (auto simp: cbEDIDModule_ValidateTiming_def usable_def split: if_splits)
    then have "usable (mark st1 t1)" by (simp add: usable_def mark)
    moreover have "offer pool mark t s = (st2, if added then n + 1 else n)"
      using True add by (simp add: offer_def s tn)
    ultimately show ?thesis
      using A(1,2) keep by (auto simp: extends_def s intro: exI [of _ "[mark st1 t1]"])
  qed
qed

definition mark_first :: "nat \<Rightarrow> edid_struct \<Rightarrow> device_timing \<Rightarrow> device_timing" where
  "mark_first i st t =
     (if i = 0 then
        t\<lparr>IsPreferMode :=
            \<not> (cbStrnCmp (MonitorID (Attribute st)) STR_AUO44B5 7 = 0 \<and>
               cbStrnCmp (MonitorName (Attribute st)) STR_B145QAN01_K 12 = 0)\<rparr>
      else t)"

lemma detailed_step_offer:
  "detailed_step pool pEDID i s =
     (case cbEDIDModule_ParseDtlTiming (drop (0x36 + 18 * i) pEDID) zero_timing of
        None \<Rightarrow> s
      | Some t \<Rightarrow> offer pool (mark_first i) (t\<lparr>TimingType := CBIOS_DTL_TIMING\<rparr>) s)"
  by (auto simp: detailed_step_def offer_def mark_first_def Let_def split: option.splits prod.splits)

lemma cea_detailed_step_offer:
  "cea_detailed_step pool t s = offer pool (\<lambda>st t. t) (t\<lparr>TimingType := CBIOS_DTD_TIMING\<rparr>) s"
  by (auto simp: cea_detailed_step_def offer_def Let_def split: prod.splits)

text \<open>
  A memory pool in order makes both steps readers. The pool of a round that is not in order is
  replaced by one that always fails, so that the interpretation needs no condition.
\<close>

definition sound_pool :: "pool \<Rightarrow> pool" where
  "sound_pool pool n =
     (case pool n of None \<Rightarrow> None | Some l \<Rightarrow> if 48 * length l = unat n then Some l else None)"

lemma sound_pool_ok: "pool_ok (sound_pool pool)"
  by (auto simp: sound_pool_def pool_ok_def split: option.splits if_splits)

lemma sound_pool_id: "pool_ok pool \<Longrightarrow> sound_pool pool = pool"
  by (rule ext) (auto simp: sound_pool_def pool_ok_def split: option.splits)

interpretation base: timing_reader "\<lambda>(pool, pEDID, i). detailed_step (sound_pool pool) pEDID i" usable
proof
  fix b and s :: "edid_struct \<times> u32" and i :: "pool \<times> u8 list \<times> nat"
  assume b: "edid_ok b (fst s)" "b < 2 ^ 20"
  obtain pool e k where i: "i = (pool, e, k)" by (cases i)
  have "edid_ok (Suc b) (fst (detailed_step (sound_pool pool) e k s)) \<and>
      extends usable s (detailed_step (sound_pool pool) e k s) 1"
  proof (cases "cbEDIDModule_ParseDtlTiming (drop (0x36 + 18 * k) e) zero_timing")
    case None
    then show ?thesis using b edid_ok_mono [of b "fst s" "Suc b"]
      by (simp add: detailed_step_offer extends_def)
  next
    case (Some t)
    then show ?thesis
      using offer_spec [OF b(1) sound_pool_ok b(2), of "mark_first k"]
      by (simp add: detailed_step_offer mark_first_def)
  qed
  then show "edid_ok (Suc b) (fst ((\<lambda>(pool, pEDID, i). detailed_step (sound_pool pool) pEDID i) i s))"
    "extends usable s ((\<lambda>(pool, pEDID, i). detailed_step (sound_pool pool) pEDID i) i s) 1"
    by (simp_all add: i)
qed

interpretation cea: timing_reader "\<lambda>(pool, t). cea_detailed_step (sound_pool pool) t" usable
proof
  fix b and s :: "edid_struct \<times> u32" and i :: "pool \<times> device_timing"
  assume b: "edid_ok b (fst s)" "b < 2 ^ 20"
  obtain pool t where i: "i = (pool, t)" by (cases i)
  show "edid_ok (Suc b) (fst ((\<lambda>(pool, t). cea_detailed_step (sound_pool pool) t) i s))"
    "extends usable s ((\<lambda>(pool, t). cea_detailed_step (sound_pool pool) t) i s) 1"
    using offer_spec [OF b(1) sound_pool_ok b(2), of "\<lambda>st t. t"]
    by (simp_all add: i cea_detailed_step_offer)
qed

lemma detailed_loop_fold:
  assumes "\<And>i. pool_ok (pool i)"
  shows "cbEDIDModule_GetDetailedMode pool e st =
    fold (\<lambda>(pool, pEDID, i). detailed_step (sound_pool pool) pEDID i)
      (map (\<lambda>i. (pool i, e, i)) [0, 1, 2, 3]) (st, 0)"
  by (simp add: cbEDIDModule_GetDetailedMode_def sound_pool_id assms)

lemma cea_detailed_loop_fold:
  "\<forall>i. pool_ok (pool i) \<Longrightarrow> \<exists>is. cea_detailed_loop pool e i s =
      fold (\<lambda>(pool, t). cea_detailed_step (sound_pool pool) t) is s \<and> 18 * length is + i \<le> max i 128"
proof (induction pool e i s rule: cea_detailed_loop.induct)
  case (1 pool e i s)
  show ?case
  proof (cases "i + 18 < EDID_BLK_SIZE")
    case False
    then show ?thesis by (intro exI [of _ "[]"]) (simp add: cea_detailed_loop.simps)
  next
    case lt: True
    show ?thesis
    proof (cases "cbEDIDModule_ParseDtlTiming (drop i e) zero_timing")
      case None
      then show ?thesis by (intro exI [of _ "[]"]) (simp add: cea_detailed_loop.simps)
    next
      case (Some t)
      then obtain "is" where "is":
        "cea_detailed_loop pool e (i + 18) (cea_detailed_step (pool i) t s) =
          fold (\<lambda>(pool, t). cea_detailed_step (sound_pool pool) t) is (cea_detailed_step (pool i) t s)"
        "18 * length is + (i + 18) \<le> max (i + 18) 128"
        using "1.IH" [OF lt Some "1.prems"] by blast
      then show ?thesis
        using lt Some "1.prems"
        by (intro exI [of _ "(pool i, t) # is"])
          (simp add: cea_detailed_loop.simps [of pool e i] sound_pool_id EDID_BLK_SIZE_def)
    qed
  qed
qed

text \<open>
  Reading the detailed timings of the base block and then those of an extension block, with any
  pool that hands out whole blocks or fails: the list stays within its array and in order, it starts
  with what was there, at most four and then seven timings are added to it, each is one a display can
  use, and the two results count exactly what was added.
\<close>

theorem detailed_readers_extend:
  assumes "edid_ok b st" "b < 2 ^ 19" "\<And>i. pool_ok (pool i)" "\<And>i. pool_ok (pool' i)"
    and base: "cbEDIDModule_GetDetailedMode pool e st = (st1, n1)"
    and cea: "cbEDIDModule_GetCEADetailedMode pool' e' off st1 = (st2, n2)"
  shows "\<exists>ts us. edid_ok (b + 11) st2 \<and> timings st2 = timings st @ ts @ us \<and>
    length ts \<le> 4 \<and> length us \<le> 7 \<and> n1 = of_nat (length ts) \<and> n2 = of_nat (length us) \<and>
    (\<forall>t\<in>set (ts @ us). usable t)"
proof -
  let ?bs = "map (\<lambda>i. (pool i, e, i)) [0, 1, 2, 3]"
  have len: "length ?bs = 4" by simp
  have "edid_ok (b + length ?bs) (fst (st1, n1))" "extends usable (st, 0) (st1, n1) (length ?bs)"
    using base.run_ok [of b "(st, 0)" ?bs] base.run_extends [of b "(st, 0)" ?bs] assms(1,2)
    unfolding detailed_loop_fold [OF assms(3), symmetric] base by simp_all
  then have 1: "edid_ok (b + 4) st1" "extends usable (st, 0) (st1, n1) 4" unfolding len by simp_all
  obtain rs where rs:
    "(st2, n2) = fold (\<lambda>(pool, t). cea_detailed_step (sound_pool pool) t) rs (st1, 0)"
    "18 * length rs + unat off \<le> max (unat off) 128"
    using cea_detailed_loop_fold [of pool' e' "unat off" "(st1, 0)"] cea assms(4)
    by (auto simp: cbEDIDModule_GetCEADetailedMode_def)
  have len: "length rs \<le> 7" using rs(2) by (simp split: if_splits add: max_def)
  have 2: "edid_ok (b + 4 + length rs) st2" "extends usable (st1, 0) (st2, n2) (length rs)"
    using cea.run_ok [of "b + 4" "(st1, 0)" rs] cea.run_extends [of "b + 4" "(st1, 0)" rs]
      1(1) assms(2) len unfolding rs(1) [symmetric] by simp_all
  obtain ts where ts: "timings st1 = timings st @ ts" "length ts \<le> 4" "n1 = of_nat (length ts)"
    "\<forall>t\<in>set ts. usable t" using 1(2) by (auto simp: extends_def)
  obtain us where us: "timings st2 = timings st1 @ us" "length us \<le> length rs"
    "n2 = of_nat (length us)" "\<forall>t\<in>set us. usable t" using 2(2) by (auto simp: extends_def)
  have "edid_ok (b + 11) st2" using edid_ok_mono [OF 2(1)] len by simp
  then show ?thesis using ts us len by (intro exI [of _ ts] exI [of _ us]) auto
qed

definition empty_edid_struct :: edid_struct where
  "empty_edid_struct =
     \<lparr>Version = 0, NativeNumUsed = 0, Attribute = zero_monitor, HDAudioFormatNum = 0,
      HDAudioFormat = replicate (unat CBIOS_HDMI_AUDIO_FORMAT_COUNTS) zero_audio,
      TimingNum = 0, TimingArraySize = 0, pDeviceTimingList = None\<rparr>"

definition sample_pool :: pool where
  "sample_pool n = (if unat n mod 48 = 0 then Some (replicate (unat n div 48) zero_timing) else None)"

lemma sample_pool_ok: "pool_ok sample_pool"
  by (auto simp: pool_ok_def sample_pool_def)

lemma detailed_readers_extend_witness:
  "\<exists>ts us. timings (fst (cbEDIDModule_GetCEADetailedMode (\<lambda>i. sample_pool) (replicate 128 0) 4
       (fst (cbEDIDModule_GetDetailedMode (\<lambda>i. sample_pool) (replicate 128 0) empty_edid_struct)))) =
     ts @ us \<and> length ts \<le> 4 \<and> length us \<le> 7"
proof -
  let ?p = "\<lambda>i :: nat. sample_pool" and ?e = "replicate 128 (0 :: u8)"
  obtain st1 n1 where 1: "cbEDIDModule_GetDetailedMode ?p ?e empty_edid_struct = (st1, n1)"
    by (cases "cbEDIDModule_GetDetailedMode ?p ?e empty_edid_struct")
  obtain st2 n2 where 2: "cbEDIDModule_GetCEADetailedMode ?p ?e 4 st1 = (st2, n2)"
    by (cases "cbEDIDModule_GetCEADetailedMode ?p ?e 4 st1")
  have "edid_ok 0 empty_edid_struct" "timings empty_edid_struct = []"
    by (simp_all add: edid_ok_def empty_edid_struct_def timings_def)
  then obtain ts us where "timings st2 = ts @ us" "length ts \<le> 4" "length us \<le> 7"
    using detailed_readers_extend [OF _ _ sample_pool_ok sample_pool_ok 1 2, of 0] by auto
  then show ?thesis unfolding 1 fst_conv 2 by blast
qed

section \<open>From a panel's numbers to its mode and back\<close>

lemma parse_no_clock:
  "d ! 0 = 0 \<Longrightarrow> d ! 1 = 0 \<Longrightarrow> cbEDIDModule_ParseDtlTiming d t = None"
  by (simp add: cbEDIDModule_ParseDtlTiming_def timing_fields)

lemma offer_first:
  assumes "edid_ok 0 st" "timings st = []" "TimingNum st = 0" "pool_ok pool" "pool_gives pool"
    and u: "usable t" "TimingType t = CBIOS_DTL_TIMING"
    and mark: "\<And>st t. FullTiming (mark st t) = FullTiming t"
  obtains st' where "offer pool mark t (st, 0) = (st', 1)"
    "timings st' = [mark (snd (take_native st t)) (fst (take_native st t))]"
    "Attribute st' = Attribute st"
proof -
  obtain t1 st1 where tn: "take_native st t = (t1, st1)" by (cases "take_native st t")
  note keep = take_native_keeps [OF tn, of 0]
  have "TimingType t1 = CBIOS_DTL_TIMING"
    using tn u(2) by (auto simp: take_native_def split: if_splits)
  then have "cbEDIDModule_ValidateTiming st1 t1"
    using u(1) keep assms(2)
    by (auto simp: cbEDIDModule_ValidateTiming_def usable_def CBIOS_DTL_TIMING_def
        CBIOS_DTD_TIMING_def)
  moreover obtain added st2 where
    add: "cbEDIDModule_AddDeviceTiming pool st1 (mark st1 t1) = (added, st2)"
    by (cases "cbEDIDModule_AddDeviceTiming pool st1 (mark st1 t1)")
  have ok1: "edid_ok 0 st1" using assms(1) keep by simp
  note A = AddDeviceTiming_spec [OF ok1 assms(4) _ add]
  have added using A(6) assms(5) by simp
  ultimately have "offer pool mark t (st, 0) = (st2, 1)" "timings st2 = [mark st1 t1]"
    "Attribute st2 = Attribute st"
    using A(2,4) keep assms(2) add by (simp_all add: offer_def tn)
  then show thesis using that tn by simp
qed

text \<open>
  C11. A panel without an EDID: the driver writes the panel's numbers into a block and parses that
  block like any other. For numbers that fit the block's fields and a mode that is usable at all, the
  parser finds exactly one timing, which is not interlaced and carries the panel's resolution,
  blanking, sync positions and polarity unchanged, with the clock in its own unit.
\<close>

theorem fake_panel_edid_roundtrip:
  assumes buf: "length buf = 128" "length (DtlTimingEDID par) = 16" "\<not> bProvideDtlTimingEDID par"
    and t: "dtl_encodable t" "DtlTiming par = t"
    and use: "2000 \<le> PixelClock t" "640 \<le> XRes t" "480 \<le> YRes t"
    and st: "pDeviceTimingList st = None" "TimingNum st = 0"
    and pool: "\<And>i. pool_ok (pool i)" "\<And>i. pool_gives (pool i)"
  shows "\<exists>r st' dt. cbEDIDModule_FakePanelEDID (Some par) (Some buf) 128 = (True, Some r) \<and>
    cbEDIDModule_GetDetailedMode pool r st = (st', 1) \<and> timings st' = [dt] \<and>
    FullTiming dt = panel_timing t \<and> \<not> IsInterLaced dt \<and> TimingType dt = CBIOS_DTL_TIMING"
proof -
  obtain b where b: "panel_bytes par b" "cbEDIDModule_FakePanelEDID (Some par) (Some buf) 128 =
       (True, Some (b[0x7F := 0xFF - range_sum b 0 127 + 1]))"
    using FakePanelEDID_bytes [OF buf(1,2)] by blast
  define r where "r = b[0x7F := 0xFF - range_sum b 0 127 + 1]"
  have len: "length r = 128" and zeros: "\<forall>j \<in> {0x48, 0x49, 0x5A, 0x5B, 0x6C, 0x6D}. r ! j = 0"
    and clk: "r ! 0x36 = ucast (PixelClock t)" "r ! 0x37 = ucast (drop_bit 8 (PixelClock t))"
    using b(1) t(2) by (auto simp: panel_bytes_def r_def)
  obtain b0 where b0: "length b0 = 128"
    "\<And>j. 0x38 \<le> j \<Longrightarrow> j < 0x48 \<Longrightarrow> r ! j = cbEDIDModule_FakeDetailedTiming b0 t ! j"
    using b(1) t(2) buf(3) by (auto simp: panel_bytes_def r_def)
  let ?dt = "zero_timing\<lparr>IsSupportMono := True, AspectRatio := 1, FullTiming := panel_timing t\<rparr>"
  have parse: "cbEDIDModule_ParseDtlTiming (drop 0x36 r) zero_timing = Some ?dt"
    by (rule parse_panel_timing [OF t(1) b0(1) len b0(2) clk])
  have none: "cbEDIDModule_ParseDtlTiming (drop (0x36 + 18 * i) r) zero_timing = None"
    if "i \<in> {1, 2, 3}" for i
    using that zeros len by (auto intro: parse_no_clock)
  have clock: "PixelClock (panel_timing t) = PixelClock t * 100" "XRes (panel_timing t) = XRes t"
    "YRes (panel_timing t) = YRes t" by (simp_all add: panel_timing_def)
  have "200000 \<le> PixelClock t * 100"
    using use(1) t(1) by (simp add: dtl_encodable_def word_le_nat_alt word_less_nat_alt unat_word_ariths)
  then have "usable ?dt"
    using use clock by (simp add: usable_def CBIOS_MIN_PIXEL_CLK_def CBIOS_MIN_TIMING_X_def
        CBIOS_MIN_TIMING_Y_def)
  then have u: "usable (?dt\<lparr>TimingType := CBIOS_DTL_TIMING\<rparr>)" by (simp add: usable_def)
  have st0: "edid_ok 0 st" "timings st = []" using st by (simp_all add: edid_ok_def timings_def)
  obtain st' where st': "offer (pool 0) (mark_first 0) (?dt\<lparr>TimingType := CBIOS_DTL_TIMING\<rparr>) (st, 0) = (st', 1)"
    "timings st' = [mark_first 0 (snd (take_native st (?dt\<lparr>TimingType := CBIOS_DTL_TIMING\<rparr>)))
       (fst (take_native st (?dt\<lparr>TimingType := CBIOS_DTL_TIMING\<rparr>)))]"
    by (rule offer_first [OF st0 st(2) pool(1) pool(2) u, of "mark_first 0"])
      (simp_all add: mark_first_def)
  have "cbEDIDModule_GetDetailedMode pool r st = (st', 1)"
    using parse none [of 1] none [of 2] none [of 3] st'(1)
    by (simp add: cbEDIDModule_GetDetailedMode_def detailed_step_offer)
  then show ?thesis
    using b(2) st'(2) unfolding r_def [symmetric]
    by (intro exI [of _ r] exI [of _ st']) (auto simp: take_native_def mark_first_def zero_timing_def)
qed

lemma fake_panel_edid_roundtrip_witness:
  "\<exists>r st' dt. cbEDIDModule_FakePanelEDID (Some sample_params) (Some (replicate 128 0)) 128 =
      (True, Some r) \<and>
    cbEDIDModule_GetDetailedMode (\<lambda>i. sample_pool) r empty_edid_struct = (st', 1) \<and>
    timings st' = [dt] \<and> XRes (FullTiming dt) = 1080 \<and> PixelClock (FullTiming dt) = 1404000"
proof -
  have enc: "dtl_encodable sample_timing" by (simp add: dtl_encodable_def sample_timing_def)
  have panel: "XRes (panel_timing sample_timing) = 1080"
    "PixelClock (panel_timing sample_timing) = 1404000"
    by (simp_all add: panel_timing_def sample_timing_def)
  have gives: "pool_gives sample_pool" by (auto simp: pool_gives_def sample_pool_def)
  have "\<exists>r st' dt. cbEDIDModule_FakePanelEDID (Some sample_params) (Some (replicate 128 0)) 128 =
      (True, Some r) \<and> cbEDIDModule_GetDetailedMode (\<lambda>i. sample_pool) r empty_edid_struct = (st', 1) \<and>
      timings st' = [dt] \<and> FullTiming dt = panel_timing sample_timing \<and> \<not> IsInterLaced dt \<and>
      TimingType dt = CBIOS_DTL_TIMING"
    by (rule fake_panel_edid_roundtrip [OF _ _ _ enc _ _ _ _ _ _ sample_pool_ok gives])
      (simp_all add: sample_params_def sample_timing_def empty_edid_struct_def)
  then show ?thesis using panel by metis
qed

end
