(* ===== verification/Edid_Svd.thy ===== *)
theory Edid_Svd
  imports Edid_List
begin

text \<open>
  The short video descriptors of an extension block (\<^verbatim>\<open>cbEDIDModule_AddSvdFormat\<close> and
  \<^verbatim>\<open>cbEDIDModule_GetSVDMode\<close>, defined in the theory of the timing list): whatever the block says,
  the list names every format once, and every format the driver supports is named.
\<close>

lemma find_from_None: "find_from P xs n = None \<longleftrightarrow> (\<forall>x\<in>set xs. \<not> P x)"
  by (induction xs arbitrary: n) auto

lemma find_from_Some: "find_from P xs n = Some k \<Longrightarrow> n \<le> k \<and> k < n + length xs \<and> P (xs ! (k - n))"
proof (induction xs arbitrary: n)
  case (Cons x xs)
  show ?case
  proof (cases "P x")
    case False
    then have "n + 1 \<le> k \<and> k < n + 1 + length xs \<and> P (xs ! (k - (n + 1)))"
      using Cons.prems by (intro Cons.IH) simp
    then show ?thesis by (auto simp: nth_Cons')
  qed (use Cons.prems in simp)
qed simp

abbreviation vic :: "device_timing \<Rightarrow> u16" where "vic t \<equiv> FormatVIC (FullTiming t)"

text \<open>No two timings carry the same format code.\<close>

definition formats_once :: "device_timing list \<Rightarrow> bool" where
  "formats_once ts \<longleftrightarrow>
     (\<forall>i < length ts. \<forall>j < length ts. vic (ts ! i) \<noteq> 0 \<and> vic (ts ! i) = vic (ts ! j) \<longrightarrow> i = j)"

lemma fresh_nth: "vic t \<notin> vic ` set ts \<Longrightarrow> i < length ts \<Longrightarrow> vic (ts ! i) \<noteq> vic t"
  by (metis image_eqI nth_mem)

lemma formats_once_update:
  assumes once: "formats_once ts" and fresh: "vic t \<notin> vic ` set ts"
  shows "formats_once (ts[i := t])"
  unfolding formats_once_def
proof (intro allI impI)
  fix a b
  assume len: "a < length (ts[i := t])" "b < length (ts[i := t])"
    and eq: "vic (ts[i := t] ! a) \<noteq> 0 \<and> vic (ts[i := t] ! a) = vic (ts[i := t] ! b)"
  note ne = fresh_nth [OF fresh, of a] fresh_nth [OF fresh, of b]
  show "a = b"
    using len eq ne once
    by (cases "a = i"; cases "b = i") (auto simp: formats_once_def)
qed

lemma formats_once_append:
  "formats_once ts \<Longrightarrow> vic t \<notin> vic ` set ts \<Longrightarrow> formats_once (ts @ [t])"
  using fresh_nth [of t ts] unfolding formats_once_def
  by (auto simp: nth_append less_Suc_eq)

lemma table_code:
  assumes "1 \<le> v" "v \<le> 111"
  shows "FormatVIC (HDMIFormatTimingTbl ! (v - 1)) = of_nat v"
proof -
  have "v - 1 < length cea_rows"
    using assms by (simp add: cea_rows_def length_HDMIFormatTimingTbl length_CEAVideoFormatTable
        del: upt_Suc)
  then have "cea_rows ! (v - 1) \<in> set cea_rows" by (rule nth_mem)
  moreover have "cea_rows ! (v - 1) =
      (v, HDMIFormatTimingTbl ! (v - 1), CEAVideoFormatTable ! (v - 1))"
    using assms by (auto simp: cea_rows_def length_HDMIFormatTimingTbl length_CEAVideoFormatTable
        simp del: upt_Suc)
  moreover have "\<forall>r \<in> set cea_rows. row_code_ok r"
    using rows_codes by (simp add: filter_empty_conv)
  ultimately show ?thesis by (auto simp: row_code_ok_def)
qed

lemma svd_timing_vic:
  "1 \<le> unat v \<Longrightarrow> unat v \<le> 111 \<Longrightarrow> vic (svd_timing v n) = v"
  using table_code [of "unat v"] by (simp add: svd_timing_def Let_def)

lemma timings_upd:
  "edid_ok b st \<Longrightarrow> i < length (timings st) \<Longrightarrow>
     timings (upd_timing i f st) = (timings st)[i := f (timings st ! i)]"
  by (auto simp: timings_def upd_timing_def edid_ok_def take_update_swap split: option.splits)

lemma upd_keeps: "edid_ok b st \<Longrightarrow> edid_ok b (upd_timing i f st)"
  by (auto simp: upd_timing_def edid_ok_def split: option.splits)

text \<open>What one descriptor does to a list in order.\<close>

definition names :: "edid_struct \<Rightarrow> u16 set" where "names st = vic ` set (timings st) - {0}"

lemma AddSvdFormat_spec:
  assumes ok: "edid_ok b st" "pool_ok pool" "b < 2 ^ 20" and once: "formats_once (timings st)"
    and v: "1 \<le> unat v" "unat v \<le> 111"
    and res: "cbEDIDModule_AddSvdFormat pool st v native = (added, st', idx)"
  shows "edid_ok (Suc b) st' \<and> formats_once (timings st') \<and>
    names st' = (if added then insert v (names st) else names st) \<and>
    (pool_gives pool \<longrightarrow> (added \<longleftrightarrow> cea_supported (CEAVideoFormatTable ! (unat v - 1)) \<noteq> 0))"
proof -
  have v0: "v \<noteq> 0" using v(1) by auto
  note mono = edid_ok_mono [OF ok(1), of "Suc b", simplified]
  show ?thesis
  proof (cases "cea_supported (CEAVideoFormatTable ! (unat v - 1)) = 0")
    case True
    then show ?thesis using res mono once by (simp add: cbEDIDModule_AddSvdFormat_def)
  next
    case sup: False
    show ?thesis
    proof (cases "cbEDIDModule_isSvdFormatExist st v")
      case (Some k)
      then have "find_from (\<lambda>t. vic t = v) (timings st) 0 = Some k"
        by (simp add: cbEDIDModule_isSvdFormatExist_def split: if_splits)
      then have "v \<in> names st"
        using find_from_Some [of "\<lambda>t. vic t = v" "timings st" 0 k] v0 by (force simp: names_def)
      then show ?thesis
        using res sup Some mono once by (auto simp: cbEDIDModule_AddSvdFormat_def)
    next
      case None
      then have new: "v \<notin> vic ` set (timings st)"
        using v0 find_from_None [of "\<lambda>t. vic t = v" "timings st" 0] ok(1)
        by (auto simp: cbEDIDModule_isSvdFormatExist_def timings_def edid_ok_def
            split: if_splits option.splits)
      let ?t = "svd_timing v native"
      show ?thesis
      proof (cases "cbEDIDModule_hasSameSvdTiming st ?t")
        case (Some k)
        let ?f = "\<lambda>e. e\<lparr>FullTiming := (FullTiming e)\<lparr>RefreshRate := RefreshRate (FullTiming ?t),
            FormatVIC := v\<rparr>, IsNativeMode := (if IsNativeMode ?t then True else IsNativeMode e)\<rparr>"
        have "find_from (same_svd_timing ?t) (timings st) 0 = Some k"
          using Some by (simp add: cbEDIDModule_hasSameSvdTiming_def split: if_splits)
        then have k: "k < length (timings st)" "vic (timings st ! k) = 0"
          using find_from_Some [of "same_svd_timing ?t" "timings st" 0 k]
          by (auto simp: same_svd_timing_def split: if_splits)
        have st': "st' = upd_timing k ?f st" "added"
          using res sup None Some by (simp_all add: cbEDIDModule_AddSvdFormat_def Let_def)
        have ts: "timings st' = (timings st)[k := ?f (timings st ! k)]"
          unfolding st'(1) by (rule timings_upd [OF ok(1) k(1)])
        have "formats_once (timings st')"
          unfolding ts using new by (intro formats_once_update once) simp
        moreover have "names st' = insert v (names st)"
        proof -
          have "vic ` set (timings st') = set ((map vic (timings st))[k := v])"
            unfolding ts by (simp add: map_update flip: set_map)
          also have "\<dots> - {0} = insert v (set (map vic (timings st)) - {0})"
          proof -
            have "map vic (timings st) ! k = 0" "k < length (map vic (timings st))"
              using k by simp_all
            then show ?thesis using v0
              by (auto simp: set_conv_nth nth_list_update split: if_splits)
          qed
          finally show ?thesis by (simp add: names_def)
        qed
        ultimately show ?thesis
          using st' sup upd_keeps [OF mono] by simp
      next
        case None2: None
        obtain a s2 where add: "cbEDIDModule_AddDeviceTiming pool st ?t = (a, s2)"
          by (cases "cbEDIDModule_AddDeviceTiming pool st ?t")
        note A = AddDeviceTiming_spec [OF ok add]
        have st': "st' = s2" "added = a"
          using res sup None None2 add by (simp_all add: cbEDIDModule_AddSvdFormat_def Let_def)
        have "vic ?t = v" by (rule svd_timing_vic [OF v])
        moreover from this have "formats_once (timings st @ [?t])"
          using new by (intro formats_once_append once) simp
        ultimately show ?thesis
          using A once v0 sup unfolding st' by (auto simp: names_def)
      qed
    qed
  qed
qed

section \<open>A data block of descriptors\<close>

text \<open>The formats a block asks for that the driver supports.\<close>

definition wanted_by :: "u8 \<Rightarrow> u16 set" where
  "wanted_by svd =
     {ucast fmt |fmt native. cbEDIDModule_GetFmtIdxFromSVD svd 0 = (True, fmt, native) \<and>
        cea_supported (CEAVideoFormatTable ! (unat fmt - 1)) \<noteq> 0}"

definition wanted :: "u8 list \<Rightarrow> u16 set" where
  "wanted svds = (\<Union>svd\<in>set svds. wanted_by svd)"

lemma svd_fmt_range:
  assumes "cbEDIDModule_GetFmtIdxFromSVD svd 0 = (True, fmt, native)"
  shows "1 \<le> unat (ucast fmt :: u16)" "unat (ucast fmt :: u16) \<le> 111" "unat (ucast fmt :: u16) = unat fmt"
proof -
  have "1 \<le> unat fmt" "unat fmt \<le> 107"
    using assms by (auto simp: cbEDIDModule_GetFmtIdxFromSVD_def CBIOS_HDMI_NORMAL_VIC_COUNTS_def
        Let_def unat_eq_0 Suc_le_eq unat_gt_0 split: if_splits prod.splits)
  moreover have "unat (ucast fmt :: u16) = unat fmt"
    using unsigned_less [where 'a = nat, of fmt]
    by (simp add: unsigned_ucast_eq take_bit_nat_eq_self)
  ultimately show "1 \<le> unat (ucast fmt :: u16)" "unat (ucast fmt :: u16) \<le> 111"
    "unat (ucast fmt :: u16) = unat fmt" by simp_all
qed

lemma svd_step_spec:
  assumes ok: "edid_ok b st" "pool_ok pool" "pool_gives pool" "b < 2 ^ 20"
    and once: "formats_once (timings st)"
  shows "edid_ok (Suc b) (svd_step pool svd st) \<and> formats_once (timings (svd_step pool svd st)) \<and>
    names (svd_step pool svd st) = names st \<union> wanted [svd]"
proof -
  obtain status fmt native where dec: "cbEDIDModule_GetFmtIdxFromSVD svd 0 = (status, fmt, native)"
    by (cases "cbEDIDModule_GetFmtIdxFromSVD svd 0")
  show ?thesis
  proof (cases status)
    case False
    then show ?thesis
      using dec once edid_ok_mono [OF ok(1), of "Suc b"] by (auto simp: svd_step_def wanted_def wanted_by_def)
  next
    case True
    obtain added st' idx where add: "cbEDIDModule_AddSvdFormat pool st (ucast fmt) native = (added, st', idx)"
      by (cases "cbEDIDModule_AddSvdFormat pool st (ucast fmt) native")
    note r = svd_fmt_range [OF dec [unfolded eqTrueI [OF True]]]
    note S = AddSvdFormat_spec [OF ok(1,2,4) once r(1,2) add]
    have "svd_step pool svd st = st'" using True dec add by (simp add: svd_step_def)
    then show ?thesis using S True dec r(3) ok(3) by (auto simp: wanted_def wanted_by_def)
  qed
qed

lemma wanted_Cons: "wanted (s # ss) = wanted [s] \<union> wanted ss"
  by (auto simp: wanted_def)

lemma svd_loop_spec:
  "edid_ok b st \<Longrightarrow> \<forall>i. pool_ok (pool i) \<and> pool_gives (pool i) \<Longrightarrow> b + n \<le> 2 ^ 20 \<Longrightarrow>
   formats_once (timings st) \<Longrightarrow>
   edid_ok (b + n) (svd_loop pool d j n st) \<and> formats_once (timings (svd_loop pool d j n st)) \<and>
   names (svd_loop pool d j n st) = names st \<union> wanted (map (\<lambda>i. d ! (1 + i)) [j..<j + n])"
proof (induction n arbitrary: b j st)
  case 0
  then show ?case by (simp add: wanted_def)
next
  case (Suc n)
  let ?st = "svd_step (pool j) (d ! (1 + j)) st"
  have step: "edid_ok (Suc b) ?st \<and> formats_once (timings ?st) \<and> names ?st = names st \<union> wanted [d ! (1 + j)]"
    using Suc.prems by (intro svd_step_spec) auto
  have "map (\<lambda>i. d ! (1 + i)) [j..<j + Suc n] =
      d ! (1 + j) # map (\<lambda>i. d ! (1 + i)) [j + 1..<j + 1 + n]"
    by (simp add: upt_conv_Cons del: upt_Suc)
  then show ?case
    using Suc.IH [of "Suc b" ?st "j + 1"] step Suc.prems
      wanted_Cons [of "d ! (1 + j)" "map (\<lambda>i. d ! (1 + i)) [j + 1..<j + 1 + n]"]
    by (simp add: Un_assoc)
qed

lemma map_nth_upt: "n < length d \<Longrightarrow> map (\<lambda>i. d ! (1 + i)) [0..<n] = take n (drop 1 d)"
  by (rule nth_equalityI) auto

text \<open>
  Reading a data block of short video descriptors: the list stays in order, it names no format
  twice, and the formats it names are those it named before together with exactly the ones the block
  asks for and the driver supports, however often and in whatever order the block repeats them.
\<close>

theorem svd_formats_listed_once:
  assumes st: "edid_ok b st" "b < 2 ^ 19" "formats_once (timings st)"
    and pool: "\<And>i. pool_ok (pool i)" "\<And>i. pool_gives (pool i)"
    and block: "unat (d ! 0 AND 0x1F) < length d"
    and r: "r = cbEDIDModule_GetSVDMode pool d st BlockIndex"
  shows "edid_ok (b + 31) r \<and> formats_once (timings r) \<and>
    names r = names st \<union> wanted (take (unat (d ! 0 AND 0x1F)) (drop 1 d))"
proof -
  let ?n = "unat (d ! 0 AND 0x1F)"
  have n: "?n \<le> 31"
    using word_and_le1 [of "d ! 0" "0x1F"] by (simp add: word_le_nat_alt)
  obtain a where r': "r = svd_loop pool d 0 ?n (st\<lparr>Attribute := a\<rparr>)"
    using r by (simp add: cbEDIDModule_GetSVDMode_def Let_def)
  have "edid_ok b (st\<lparr>Attribute := a\<rparr>)" "timings (st\<lparr>Attribute := a\<rparr>) = timings st"
    using st(1) by (auto simp: edid_ok_def timings_def split: option.splits)
  then have "edid_ok (b + ?n) r \<and> formats_once (timings r) \<and>
      names r = names st \<union> wanted (map (\<lambda>i. d ! (1 + i)) [0..<0 + ?n])"
    using svd_loop_spec [of b "st\<lparr>Attribute := a\<rparr>" pool ?n d 0] st pool n
    unfolding r' names_def by simp
  then show ?thesis
    using map_nth_upt [OF block] edid_ok_mono [of "b + ?n" r "b + 31"] n by simp
qed

lemma svd_formats_listed_once_witness:
  "names (cbEDIDModule_GetSVDMode (\<lambda>i. sample_pool) [0x42, 0x90, 16] empty_edid_struct 1) = {16}"
proof -
  have gives: "pool_gives sample_pool" by (auto simp: pool_gives_def sample_pool_def)
  have sup: "cea_supported (CEAVideoFormatTable ! 15) = 1" by (simp add: CEAVideoFormatTable_def)
  have dec: "cbEDIDModule_GetFmtIdxFromSVD 0x90 0 = (True, 16, True)"
    "cbEDIDModule_GetFmtIdxFromSVD 16 0 = (True, 16, False)"
    by (simp_all add: cbEDIDModule_GetFmtIdxFromSVD_def CBIOS_HDMI_NORMAL_VIC_COUNTS_def)
  have "wanted_by 0x90 = {16}" "wanted_by 16 = {16}"
    using sup by (auto simp: wanted_by_def dec intro: exI [of _ "16 :: u8"])
  then have "wanted [0x90, 16] = {16}" by (simp add: wanted_def)
  moreover have "names empty_edid_struct = {}" "formats_once (timings empty_edid_struct)"
    "edid_ok 0 empty_edid_struct"
    by (simp_all add: names_def formats_once_def timings_def empty_edid_struct_def edid_ok_def)
  ultimately show ?thesis
    using svd_formats_listed_once [OF _ _ _ sample_pool_ok gives _ refl, of 0 empty_edid_struct
        "[0x42, 0x90, 16]" 1] by simp
qed

end
