(* ===== verification/Page_Table.thy ===== *)
theory Page_Table
  imports Prelude
begin

text \<open>
  The page tables of a GPU address space, first part: \<^verbatim>\<open>core/vidmm/vidmm_vm.c\<close> up to the creation of
  directories. A table (\<^verbatim>\<open>vidmm_vm_pt_t\<close>) has a buffer in segment memory that the engine reads, a
  bitmap of the entries in use and an array of the tables below it, so the pointers of the driver
  form a tree and \<open>vm_pt\<close> is that tree; \<^verbatim>\<open>parent\<close> is the position in it. A buffer is named by its GPU
  address, 0 is the null pointer. What the segment memory returns is a parameter (\<open>pt_env\<close>), as is
  whether the kernel finds memory for bitmaps and arrays and can map a buffer for the CPU.
\<close>

section \<open>Chip description and index arithmetic\<close>

text \<open>
  The fields of \<^verbatim>\<open>vidmm_chip_vm_info_t\<close> and of \<^verbatim>\<open>adapter_t\<close> that the page tables depend on. The bits
  and masks are those of 4 KB pages.
\<close>

record vm_chip =
  pt_levels_num :: nat
  pt_bits_array :: "nat list"
  pt_bits_mask :: "nat list"
  pt_local_enable :: bool
  pt_pcie_enable :: bool
  cpu_update_pte :: bool
  resume_age :: nat
  is_cne001 :: bool

definition vidmm_query_chip_vm_info_e3k :: "vm_chip \<Rightarrow> vm_chip" where
  "vidmm_query_chip_vm_info_e3k c =
     c \<lparr> pt_levels_num := 3, pt_bits_array := [8, 10, 10],
         pt_bits_mask := [0xFF00000, 0xFFC00, 0x3FF] \<rparr>"

definition vidmmi_vm_leaf_pd_level :: "vm_chip \<Rightarrow> nat" where
  "vidmmi_vm_leaf_pd_level c = pt_levels_num c - 2"

definition vidmmi_vm_pt_bits_count :: "vm_chip \<Rightarrow> nat \<Rightarrow> nat" where
  "vidmmi_vm_pt_bits_count c level = pt_bits_array c ! level"

definition vidmmi_vm_pt_addr_mask :: "vm_chip \<Rightarrow> nat \<Rightarrow> nat" where
  "vidmmi_vm_pt_addr_mask c level = pt_bits_mask c ! level"

definition vidmmi_vm_accum_pd_bits_count :: "vm_chip \<Rightarrow> nat \<Rightarrow> nat" where
  "vidmmi_vm_accum_pd_bits_count c level =
     sum_list (map (vidmmi_vm_pt_bits_count c) [level + 1..<pt_levels_num c])"

definition vidmmi_vm_pt_num_entries :: "vm_chip \<Rightarrow> nat \<Rightarrow> nat" where
  "vidmmi_vm_pt_num_entries c level = 2 ^ vidmmi_vm_pt_bits_count c level"

definition GPU_PTE_SIZE :: nat where "GPU_PTE_SIZE = 4"

definition vidmmi_vm_pt_buffer_size :: "vm_chip \<Rightarrow> nat \<Rightarrow> nat" where
  "vidmmi_vm_pt_buffer_size c level = vidmmi_vm_pt_num_entries c level * GPU_PTE_SIZE"

section \<open>Tables\<close>

text \<open>\<^verbatim>\<open>vidmm_vm_pt_t\<close>. \<open>pt_addr\<close> is the buffer the directory above was last told about.\<close>

datatype vm_pt = Vm_Pt
  (pt_buffer: nat) (pt_addr: nat) (pt_bitmap: "bool list option") (pt_entries: "vm_pt list option")
  (pt_age: nat)

definition calloc_pt :: vm_pt where
  "calloc_pt = Vm_Pt 0 0 None None 0"

fun set_bitmap :: "bool list option \<Rightarrow> vm_pt \<Rightarrow> vm_pt" where
  "set_bitmap bm (Vm_Pt b a _ es g) = Vm_Pt b a bm es g"

fun set_entries :: "vm_pt list option \<Rightarrow> vm_pt \<Rightarrow> vm_pt" where
  "set_entries es (Vm_Pt b a bm _ g) = Vm_Pt b a bm es g"

fun set_buffer :: "nat \<Rightarrow> vm_pt \<Rightarrow> vm_pt" where
  "set_buffer b (Vm_Pt _ a bm es g) = Vm_Pt b a bm es g"

fun set_age :: "nat \<Rightarrow> vm_pt \<Rightarrow> vm_pt" where
  "set_age g (Vm_Pt b a bm es _) = Vm_Pt b a bm es g"

fun set_addr :: "nat \<Rightarrow> vm_pt \<Rightarrow> vm_pt" where
  "set_addr a (Vm_Pt b _ bm es g) = Vm_Pt b a bm es g"

text \<open>
  The bits \<open>s..e\<close> of a bitmap are set or cleared one by one; a null bitmap is left alone. A bit past
  the end of the array would be a write outside of it; the callers stay inside.
\<close>

definition bitmap_write :: "bool list \<Rightarrow> nat \<Rightarrow> nat \<Rightarrow> bool \<Rightarrow> bool list" where
  "bitmap_write bm s e v = fold (\<lambda>i bm. bm[i := v]) [s..<Suc e] bm"

definition vidmmi_vm_pt_update_bitmap :: "vm_pt \<Rightarrow> nat \<Rightarrow> nat \<Rightarrow> bool \<Rightarrow> vm_pt" where
  "vidmmi_vm_pt_update_bitmap pt s e v =
     (case pt_bitmap pt of None \<Rightarrow> pt | Some bm \<Rightarrow> set_bitmap (Some (bitmap_write bm s e v)) pt)"

text \<open>\<open>Panic\<close> is the failed assertion that there is a bitmap.\<close>

definition vidmmi_vm_pt_check_bitmap :: "vm_pt \<Rightarrow> nat \<Rightarrow> nat \<Rightarrow> bool outcome" where
  "vidmmi_vm_pt_check_bitmap pt s e =
     (case pt_bitmap pt of None \<Rightarrow> Panic
      | Some bm \<Rightarrow> Done (s \<le> e \<and> list_all (\<lambda>i. bm ! i) [s..<Suc e]))"

section \<open>Segment memory\<close>

text \<open>
  What the engine finds in a table: nothing, the buffer of the table below, or a page of an
  allocation.
\<close>

datatype hw_pte = Hw_Invalid | Hw_Table nat | Hw_Page nat nat

text \<open>
  \<open>tables_live\<close> are the buffers that exist, \<open>tables_mem\<close> is what they hold. \<open>heap_tick\<close> counts the
  attempts to make a table and indexes the answers of \<open>pt_env\<close>.
\<close>

record pt_heap =
  tables_live :: "nat list"
  tables_mem :: "nat \<Rightarrow> nat \<Rightarrow> hw_pte"
  heap_tick :: nat

record pt_env =
  create_local :: "nat list \<Rightarrow> nat \<Rightarrow> nat"
  create_pcie :: "nat list \<Rightarrow> nat \<Rightarrow> nat"
  map_works :: "nat \<Rightarrow> bool"
  lock_works :: "nat \<Rightarrow> bool"
  bitmap_works :: "nat \<Rightarrow> bool"
  entries_works :: "nat \<Rightarrow> bool"

definition tick :: "pt_heap \<Rightarrow> pt_heap" where
  "tick h = h \<lparr> heap_tick := Suc (heap_tick h) \<rparr>"

definition vidmm_destroy_table :: "nat \<Rightarrow> pt_heap \<Rightarrow> pt_heap" where
  "vidmm_destroy_table b h = h \<lparr> tables_live := removeAll b (tables_live h) \<rparr>"

definition zero_table :: "nat \<Rightarrow> pt_heap \<Rightarrow> pt_heap" where
  "zero_table b h = h \<lparr> tables_mem := (tables_mem h)(b := (\<lambda>_. Hw_Invalid)) \<rparr>"

text \<open>Local memory first, then memory of the host, as far as each is enabled.\<close>

definition create_table :: "vm_chip \<Rightarrow> pt_env \<Rightarrow> pt_heap \<Rightarrow> nat" where
  "create_table c env h =
     (let b = (if pt_local_enable c then create_local env (tables_live h) (heap_tick h) else 0)
      in if b = 0 \<and> pt_pcie_enable c then create_pcie env (tables_live h) (heap_tick h) else b)"

text \<open>
  The body of the loop for an entry without a buffer. On the error paths behind the creation the
  buffer is destroyed, but the entry keeps pointing to it.
\<close>

definition alloc_entry ::
    "vm_chip \<Rightarrow> pt_env \<Rightarrow> nat \<Rightarrow> vm_pt \<Rightarrow> pt_heap \<Rightarrow> vm_pt \<times> pt_heap \<times> status" where
  "alloc_entry c env level pt h =
     (if pt_buffer pt \<noteq> 0 then (pt, h, S_OK)
      else
        let b = create_table c env h;
            t = heap_tick h;
            pt1 = set_buffer b (set_age (resume_age c) pt);
            h1 = tick h
        in if b = 0 then (pt1, h1, E_OUTOFMEMORY)
           else
             let h2 = h1 \<lparr> tables_live := b # tables_live h1 \<rparr>
             in if \<not> map_works env t then (pt1, vidmm_destroy_table b h2, E_FAIL)
                else
                  let h3 = (if lock_works env t then zero_table b h2 else h2)
                  in if cpu_update_pte c \<and> \<not> lock_works env t
                     then (pt1, vidmm_destroy_table b h3, E_FAIL)
                     else if pt_bitmap pt1 = None
                     then if bitmap_works env t
                          then (set_bitmap
                                  (Some (replicate (vidmmi_vm_pt_num_entries c level) False)) pt1,
                                h3, S_OK)
                          else (pt1, vidmm_destroy_table b h3, E_OUTOFMEMORY)
                     else (pt1, h3, S_OK))"

text \<open>
  The root of a private address space, in \<^verbatim>\<open>vidmm_vm_init_vma_space\<close>: the bitmap, a buffer, its mapping
  and its address. The bitmap is asserted to exist (\<open>Panic\<close>), a failed mapping destroys the buffer.
\<close>

definition vidmm_vm_init_vma_space :: "vm_chip \<Rightarrow> pt_env \<Rightarrow> pt_heap \<Rightarrow> vm_pt \<times> pt_heap \<times> status outcome" where
  "vidmm_vm_init_vma_space c env h =
     (if \<not> bitmap_works env (heap_tick h) then (calloc_pt, h, Panic)
      else
        let bm = Some (replicate (vidmmi_vm_pt_num_entries c 0) False);
            b = create_table c env h;
            h1 = tick h
        in if b = 0 then (Vm_Pt 0 0 bm None 0, h1, Done E_OUTOFMEMORY)
           else
             let h2 = h1 \<lparr> tables_live := b # tables_live h1 \<rparr>
             in if \<not> map_works env (heap_tick h)
                then (Vm_Pt b 0 bm None 0, vidmm_destroy_table b h2, Done E_FAIL)
                else (Vm_Pt b b bm None 0, h2, Done S_OK))"

section \<open>Creating the directories of a range\<close>

text \<open>
  The loop of \<^verbatim>\<open>vidmm_vm_alloc_pd\<close> over the entries \<open>i\<close> from \<open>from\<close> to \<open>till\<close>. \<open>sub\<close> is the recursive
  call for the level below, \<open>None\<close> when that level is the last one. The result has the entries, the
  heap and the status.
\<close>

primrec pd_loop ::
    "vm_chip \<Rightarrow> pt_env \<Rightarrow> nat \<Rightarrow>
     (vm_pt \<Rightarrow> nat \<Rightarrow> nat \<Rightarrow> pt_heap \<Rightarrow> vm_pt \<times> pt_heap \<times> status outcome) option \<Rightarrow>
     nat \<Rightarrow> nat \<Rightarrow> nat \<Rightarrow> nat \<Rightarrow> nat \<Rightarrow> nat list \<Rightarrow> vm_pt list \<Rightarrow> pt_heap \<Rightarrow>
     vm_pt list \<times> pt_heap \<times> status outcome" where
  "pd_loop c env level sub shift from till saddr eaddr [] es h = (es, h, Done S_OK)"
| "pd_loop c env level sub shift from till saddr eaddr (i # is) es h =
     (case alloc_entry c env level (es ! i) h of (entry, h1, r) \<Rightarrow>
        if r \<noteq> S_OK then (es[i := entry], h1, Done r)
        else case sub of
            None \<Rightarrow> pd_loop c env level sub shift from till saddr eaddr is (es[i := entry]) h1
          | Some f \<Rightarrow>
              (case f entry (if i = from then saddr else 0) (if i = till then eaddr else 2 ^ shift - 1) h1
               of (entry', h2, r') \<Rightarrow>
                 if r' \<noteq> Done S_OK then (es[i := entry'], h2, r')
                 else pd_loop c env level sub shift from till saddr eaddr is (es[i := entry']) h2))"

text \<open>One directory of \<^verbatim>\<open>vidmm_vm_alloc_pd\<close> at \<open>level\<close>, for the pages \<open>saddr..eaddr\<close> below it.\<close>

definition alloc_dir ::
    "vm_chip \<Rightarrow> pt_env \<Rightarrow>
     (vm_pt \<Rightarrow> nat \<Rightarrow> nat \<Rightarrow> pt_heap \<Rightarrow> vm_pt \<times> pt_heap \<times> status outcome) option \<Rightarrow>
     nat \<Rightarrow> vm_pt \<Rightarrow> nat \<Rightarrow> nat \<Rightarrow> pt_heap \<Rightarrow> vm_pt \<times> pt_heap \<times> status outcome" where
  "alloc_dir c env sub level parent saddr eaddr h =
     (let shift = vidmmi_vm_accum_pd_bits_count c level;
          n = vidmmi_vm_pt_num_entries c level;
          (found, h1) =
            (case pt_entries parent of
               Some es \<Rightarrow> (Some es, h)
             | None \<Rightarrow> (if entries_works env (heap_tick h) then Some (replicate n calloc_pt) else None,
                        tick h))
      in case found of
           None \<Rightarrow> (parent, h1, Done E_OUTOFMEMORY)
         | Some es \<Rightarrow>
             let parent1 = set_entries (Some es) parent;
                 from = saddr div 2 ^ shift;
                 till = eaddr div 2 ^ shift
             in if from \<ge> n \<or> till \<ge> n then (parent1, h1, Done E_INVALIDARG)
                else case vidmmi_vm_pt_check_bitmap parent1 from till of
                    Panic \<Rightarrow> (parent1, h1, Panic)
                  | Done exist \<Rightarrow>
                      let parent2 = (if exist then parent1
                                     else vidmmi_vm_pt_update_bitmap parent1 from till True)
                      in case pd_loop c env (level + 1) sub shift from till
                                (saddr mod 2 ^ shift) (eaddr mod 2 ^ shift) [from..<Suc till] es h1
                         of (es', h2, r) \<Rightarrow> (set_entries (Some es') parent2, h2, r))"

text \<open>
  \<^verbatim>\<open>vidmm_vm_alloc_pd\<close> without the update of the private space of CNE001
  (\<^verbatim>\<open>update_private_vma = 0\<close>). The recursion is on the number of directory levels below this one.
\<close>

primrec alloc_pd ::
    "vm_chip \<Rightarrow> pt_env \<Rightarrow> nat \<Rightarrow> vm_pt \<Rightarrow> nat \<Rightarrow> nat \<Rightarrow> pt_heap \<Rightarrow>
     vm_pt \<times> pt_heap \<times> status outcome" where
  "alloc_pd c env 0 parent saddr eaddr h =
     alloc_dir c env None (vidmmi_vm_leaf_pd_level c) parent saddr eaddr h"
| "alloc_pd c env (Suc n) parent saddr eaddr h =
     alloc_dir c env (Some (alloc_pd c env n)) (vidmmi_vm_leaf_pd_level c - Suc n) parent saddr eaddr h"

definition vidmm_vm_alloc_pd ::
    "vm_chip \<Rightarrow> pt_env \<Rightarrow> vm_pt \<Rightarrow> nat \<Rightarrow> nat \<Rightarrow> pt_heap \<Rightarrow> vm_pt \<times> pt_heap \<times> status outcome" where
  "vidmm_vm_alloc_pd c env root saddr eaddr h =
     alloc_pd c env (vidmmi_vm_leaf_pd_level c) root saddr eaddr h"

section \<open>Finding the table of a page\<close>

text \<open>
  \<^verbatim>\<open>vidmmi_vm_get_pt_entry\<close>: the result is the path of indices to the table and the table, so the last
  index is \<^verbatim>\<open>pt_index\<close>. The index is inside the array because the mask of a level has as many bits as
  the array needs; the test for it makes the walk total.
\<close>

function pt_walk :: "vm_chip \<Rightarrow> nat \<Rightarrow> nat list \<Rightarrow> vm_pt \<Rightarrow> nat \<Rightarrow> (nat list \<times> vm_pt) option" where
  "pt_walk c level path (Vm_Pt b a bm None g) addr =
     (if level \<noteq> 2 then None else Some (path, Vm_Pt b a bm None g))"
| "pt_walk c level path (Vm_Pt b a bm (Some es) g) addr =
     (if b = 0 then None
      else
        let idx = (addr AND vidmmi_vm_pt_addr_mask c level) div 2 ^ vidmmi_vm_accum_pd_bits_count c level
        in if idx < length es then pt_walk c (level + 1) (path @ [idx]) (es ! idx) addr else None)"
  by pat_completeness auto
termination
proof (relation "measure (\<lambda>(c, level, path, pt, addr). size pt)", goal_cases)
  case (2 c level path b a bm es g addr idx)
  then have "size (es ! idx) \<le> size_list size es"
    by (intro size_list_estimation') auto
  then show ?case by simp
qed simp

definition vidmmi_vm_get_pt_entry :: "vm_chip \<Rightarrow> vm_pt \<Rightarrow> nat \<Rightarrow> (nat list \<times> vm_pt) option" where
  "vidmmi_vm_get_pt_entry c root start_addr = pt_walk c 0 [] root start_addr"

section \<open>Shape, positions and growth of a tree\<close>

text \<open>
  The shape of a table at \<open>level\<close> with \<open>n\<close> levels below: an entry without a buffer is as it was
  allocated, one with a buffer has a bitmap of the right length, and every child with a buffer has
  its bit set.
\<close>

primrec pt_shape :: "vm_chip \<Rightarrow> nat \<Rightarrow> nat \<Rightarrow> vm_pt \<Rightarrow> bool" where
  "pt_shape c 0 level pt \<longleftrightarrow>
     pt_entries pt = None \<and>
     (if pt_buffer pt = 0 then pt_bitmap pt = None \<and> pt_addr pt = 0
      else \<exists>bm. pt_bitmap pt = Some bm \<and> length bm = vidmmi_vm_pt_num_entries c level)"
| "pt_shape c (Suc n) level pt \<longleftrightarrow>
     (if pt_buffer pt = 0 then pt_bitmap pt = None \<and> pt_entries pt = None \<and> pt_addr pt = 0
      else \<exists>bm. pt_bitmap pt = Some bm \<and> length bm = vidmmi_vm_pt_num_entries c level \<and>
           (\<forall>es. pt_entries pt = Some es \<longrightarrow>
              length es = vidmmi_vm_pt_num_entries c level \<and>
              (\<forall>i < length es. pt_shape c n (level + 1) (es ! i)) \<and>
              (\<forall>i < length es. pt_buffer (es ! i) \<noteq> 0 \<longrightarrow> bm ! i)))"

fun pt_at :: "vm_pt \<Rightarrow> nat list \<Rightarrow> vm_pt option" where
  "pt_at pt [] = Some pt"
| "pt_at pt (i # is) =
     (case pt_entries pt of None \<Rightarrow> None
      | Some es \<Rightarrow> if i < length es then pt_at (es ! i) is else None)"

text \<open>
  What is known at a position: the buffer, the address the directory above holds, the age, and at
  depth \<open>d\<close>, where the tables of pages are, the bitmap. Positions without a buffer have no view.
\<close>

definition pt_view ::
    "nat \<Rightarrow> vm_pt \<Rightarrow> nat list \<Rightarrow> (nat \<times> nat \<times> nat \<times> bool list option) option" where
  "pt_view d pt p =
     (case pt_at pt p of None \<Rightarrow> None
      | Some e \<Rightarrow> if pt_buffer e = 0 then None
          else Some (pt_buffer e, pt_addr e, pt_age e, if length p = d then pt_bitmap e else None))"

definition es_view ::
    "nat \<Rightarrow> vm_pt list \<Rightarrow> nat list \<Rightarrow> (nat \<times> nat \<times> nat \<times> bool list option) option" where
  "es_view d es p =
     (case p of [] \<Rightarrow> None | i # q \<Rightarrow> if i < length es then pt_view d (es ! i) q else None)"

lemma pt_view_Cons:
  "pt_view (Suc d) pt (i # q) = (case pt_entries pt of None \<Rightarrow> None | Some es \<Rightarrow> es_view d es (i # q))"
  by (auto simp: pt_view_def es_view_def split: option.splits)

lemma pt_view_Nil:
  "pt_view d pt [] =
     (if pt_buffer pt = 0 then None
      else Some (pt_buffer pt, pt_addr pt, pt_age pt, if d = 0 then pt_bitmap pt else None))"
  by (simp add: pt_view_def)

lemma es_view_update:
  "i < length es \<Longrightarrow>
   es_view d (es[i := e]) p = (if \<exists>q. p = i # q then pt_view d e (tl p) else es_view d es p)"
  by (cases p) (auto simp: es_view_def nth_list_update)

text \<open>
  A tree grows: what has a buffer keeps it, a new buffer is one the heap did not have before, no two
  positions share one, and a new table is empty, in the driver and in memory.
\<close>

definition grows ::
    "pt_env \<Rightarrow> (nat list \<Rightarrow> (nat \<times> nat \<times> nat \<times> bool list option) option) \<Rightarrow>
     pt_heap \<Rightarrow> (nat list \<Rightarrow> (nat \<times> nat \<times> nat \<times> bool list option) option) \<Rightarrow> pt_heap \<Rightarrow> bool" where
  "grows env f h f' h' \<longleftrightarrow>
     set (tables_live h) \<subseteq> set (tables_live h') \<and>
     (\<forall>p v. f p = Some v \<longrightarrow> f' p = Some v) \<and>
     (\<forall>p b a g m. f p = None \<and> f' p = Some (b, a, g, m) \<longrightarrow>
        b \<noteq> 0 \<and> b \<in> set (tables_live h') \<and> b \<notin> set (tables_live h) \<and> a = 0 \<and>
        (\<forall>bm. m = Some bm \<longrightarrow> True \<notin> set bm)) \<and>
     (\<forall>p q b v w. f p = None \<and> f q = None \<and> f' p = Some (b, v) \<and> f' q = Some (b, w) \<longrightarrow> p = q) \<and>
     (\<forall>b \<in> set (tables_live h). tables_mem h' b = tables_mem h b) \<and>
     ((\<forall>t. lock_works env t) \<longrightarrow>
        (\<forall>b \<in> set (tables_live h'). b \<notin> set (tables_live h) \<longrightarrow> tables_mem h' b = (\<lambda>_. Hw_Invalid)))"

lemma grows_live: "grows env f h f' h' \<Longrightarrow> set (tables_live h) \<subseteq> set (tables_live h')"
  unfolding grows_def by blast

lemma grows_keep: "grows env f h f' h' \<Longrightarrow> f p = Some v \<Longrightarrow> f' p = Some v"
  unfolding grows_def by blast

lemma grows_new:
  "grows env f h f' h' \<Longrightarrow> f p = None \<Longrightarrow> f' p = Some (b, a, g, m) \<Longrightarrow>
   b \<noteq> 0 \<and> b \<in> set (tables_live h') \<and> b \<notin> set (tables_live h) \<and> a = 0 \<and>
   (\<forall>bm. m = Some bm \<longrightarrow> True \<notin> set bm)"
  unfolding grows_def by blast

lemma grows_inj:
  "grows env f h f' h' \<Longrightarrow> f p = None \<Longrightarrow> f q = None \<Longrightarrow> f' p = Some (b, v) \<Longrightarrow>
   f' q = Some (b, w) \<Longrightarrow> p = q"
  unfolding grows_def by blast

lemma grows_mem:
  "grows env f h f' h' \<Longrightarrow> b \<in> set (tables_live h) \<Longrightarrow> tables_mem h' b = tables_mem h b"
  unfolding grows_def by blast

lemma grows_zero:
  "grows env f h f' h' \<Longrightarrow> \<forall>t. lock_works env t \<Longrightarrow> b \<in> set (tables_live h') \<Longrightarrow>
   b \<notin> set (tables_live h) \<Longrightarrow> tables_mem h' b = (\<lambda>_. Hw_Invalid)"
  unfolding grows_def by blast

lemma growsI:
  assumes "set (tables_live h) \<subseteq> set (tables_live h')"
    and "\<And>p v. f p = Some v \<Longrightarrow> f' p = Some v"
    and "\<And>p b a g m. f p = None \<Longrightarrow> f' p = Some (b, a, g, m) \<Longrightarrow>
        b \<noteq> 0 \<and> b \<in> set (tables_live h') \<and> b \<notin> set (tables_live h) \<and> a = 0 \<and>
        (\<forall>bm. m = Some bm \<longrightarrow> True \<notin> set bm)"
    and "\<And>p q b v w. f p = None \<Longrightarrow> f q = None \<Longrightarrow> f' p = Some (b, v) \<Longrightarrow> f' q = Some (b, w) \<Longrightarrow> p = q"
    and "\<And>b. b \<in> set (tables_live h) \<Longrightarrow> tables_mem h' b = tables_mem h b"
    and "\<And>b. \<forall>t. lock_works env t \<Longrightarrow> b \<in> set (tables_live h') \<Longrightarrow> b \<notin> set (tables_live h) \<Longrightarrow>
        tables_mem h' b = (\<lambda>_. Hw_Invalid)"
  shows "grows env f h f' h'"
  unfolding grows_def using assms by blast

text \<open>Growth at the positions \<open>r\<close> maps to is growth everywhere else unchanged.\<close>

lemma grows_embed:
  assumes g: "grows env f h f' h'" and inj: "inj r"
    and here: "\<And>p. F (r p) = f p" "\<And>p. F' (r p) = f' p"
    and other: "\<And>x. x \<notin> range r \<Longrightarrow> F' x = F x"
  shows "grows env F h F' h'"
proof (rule growsI)
  fix x v assume a: "F x = Some v"
  show "F' x = Some v"
  proof (cases "x \<in> range r")
    case True
    then obtain p where x: "x = r p" by blast
    show ?thesis using grows_keep [OF g, of p v] a by (simp add: x here)
  qed (simp add: other a)
next
  fix x b a g' m assume a: "F x = None" "F' x = Some (b, a, g', m)"
  then obtain p where x: "x = r p" using other by fastforce
  show "b \<noteq> 0 \<and> b \<in> set (tables_live h') \<and> b \<notin> set (tables_live h) \<and> a = 0 \<and>
        (\<forall>bm. m = Some bm \<longrightarrow> True \<notin> set bm)"
    using grows_new [OF g, of p] a by (simp add: x here)
next
  fix x y b v w assume a: "F x = None" "F y = None" "F' x = Some (b, v)" "F' y = Some (b, w)"
  obtain p where x: "x = r p" using a other by fastforce
  obtain q where y: "y = r q" using a other by fastforce
  show "x = y" using grows_inj [OF g, of p q] a by (simp add: x y here)
qed (use grows_live [OF g] grows_mem [OF g] grows_zero [OF g] in auto)

lemma grows_refl: "tables_live h' = tables_live h \<Longrightarrow> tables_mem h' = tables_mem h \<Longrightarrow>
    grows env f h f h'"
  by (auto simp: grows_def)

lemma grows_trans:
  assumes 1: "grows env f h f' h'" and 2: "grows env f' h' f'' h''"
  shows "grows env f h f'' h''"
proof -
  have old: "f' p = None \<or> f' p = Some v" if "f'' p = Some v" for p v
    using grows_keep [OF 2, of p] that by (cases "f' p") auto
  have in': "b \<in> set (tables_live h')" if "f p = None" "f' p = Some (b, v)" for p b v
    using grows_new [OF 1, of p] that by (cases v) auto
  have out': "b \<notin> set (tables_live h')" if "f' p = None" "f'' p = Some (b, v)" for p b v
    using grows_new [OF 2, of p] that by (cases v) auto
  show ?thesis
  proof (rule growsI)
    show "set (tables_live h) \<subseteq> set (tables_live h'')" using grows_live [OF 1] grows_live [OF 2] by blast
  next
    fix p v assume "f p = Some v"
    then show "f'' p = Some v" by (blast intro: grows_keep [OF 1] grows_keep [OF 2])
  next
    fix p b a g m assume a: "f p = None" "f'' p = Some (b, a, g, m)"
    show "b \<noteq> 0 \<and> b \<in> set (tables_live h'') \<and> b \<notin> set (tables_live h) \<and> a = 0 \<and>
        (\<forall>bm. m = Some bm \<longrightarrow> True \<notin> set bm)"
      using old [OF a(2)] grows_new [OF 1 a(1), of b a g m] grows_new [OF 2 _ a(2)]
        grows_live [OF 1] grows_live [OF 2] by blast
  next
    fix p q b v w assume a: "f p = None" "f q = None" "f'' p = Some (b, v)" "f'' q = Some (b, w)"
    from old [OF a(3)] old [OF a(4)] show "p = q"
    proof (elim disjE)
      assume "f' p = None" "f' q = None"
      then show ?thesis using grows_inj [OF 2] a by blast
    next
      assume "f' p = Some (b, v)" "f' q = Some (b, w)"
      then show ?thesis using grows_inj [OF 1] a by blast
    next
      assume "f' p = None" "f' q = Some (b, w)"
      then show ?thesis using in' out' a by blast
    next
      assume "f' p = Some (b, v)" "f' q = None"
      then show ?thesis using in' out' a by blast
    qed
  next
    fix b assume "b \<in> set (tables_live h)"
    then show "tables_mem h'' b = tables_mem h b"
      using grows_mem [OF 1] grows_mem [OF 2] grows_live [OF 1] by (metis subsetD)
  next
    fix b assume "\<forall>t. lock_works env t" "b \<in> set (tables_live h'')" "b \<notin> set (tables_live h)"
    then show "tables_mem h'' b = (\<lambda>_. Hw_Invalid)"
      using grows_zero [OF 1, of b] grows_zero [OF 2, of b] grows_mem [OF 2, of b] by metis
  qed
qed

text \<open>Growing one child is growing the array, and growing the array is growing the directory.\<close>

lemma grows_child:
  assumes "grows env (pt_view d (es ! i)) h (pt_view d e) h'" and "i < length es"
  shows "grows env (es_view d es) h (es_view d (es[i := e])) h'"
  by (rule grows_embed [OF assms(1), of "Cons i"])
     (use assms(2) in \<open>auto simp: es_view_update image_iff\<close>, simp_all add: es_view_def)

lemma grows_dir:
  assumes "grows env (es_view d es) h (es_view d es') h'"
    and "pt_entries pt = Some es \<or> pt_entries pt = None \<and> (\<forall>p. es_view d es p = None)"
    and "pt_entries pt' = Some es'"
    and "pt_buffer pt' = pt_buffer pt" "pt_addr pt' = pt_addr pt" "pt_age pt' = pt_age pt"
  shows "grows env (pt_view (Suc d) pt) h (pt_view (Suc d) pt') h'"
proof -
  have nil: "pt_view (Suc d) pt' [] = pt_view (Suc d) pt []"
    using assms(4-6) by (simp add: pt_view_Nil)
  have v: "pt_view (Suc d) pt' (i # q) = es_view d es' (i # q)" for i q
    using assms(3) by (simp add: pt_view_Cons)
  have v0: "pt_view (Suc d) pt (i # q) = es_view d es (i # q)" for i q
    using assms(2) by (auto simp: pt_view_Cons)
  have e: "es_view d es [] = None" "es_view d es' [] = None" by (simp_all add: es_view_def)
  show ?thesis
  proof (rule growsI)
    show "set (tables_live h) \<subseteq> set (tables_live h')" by (rule grows_live [OF assms(1)])
  next
    fix p w assume "pt_view (Suc d) pt p = Some w"
    then show "pt_view (Suc d) pt' p = Some w"
      using grows_keep [OF assms(1), of p w] nil v v0 by (cases p) auto
  next
    fix p b a g m assume a: "pt_view (Suc d) pt p = None" "pt_view (Suc d) pt' p = Some (b, a, g, m)"
    then obtain i q where p: "p = i # q" using nil by (cases p) auto
    show "b \<noteq> 0 \<and> b \<in> set (tables_live h') \<and> b \<notin> set (tables_live h) \<and> a = 0 \<and>
        (\<forall>bm. m = Some bm \<longrightarrow> True \<notin> set bm)"
      using grows_new [OF assms(1), of p b a g m] a by (simp add: p v v0)
  next
    fix p q b x w
    assume a: "pt_view (Suc d) pt p = None" "pt_view (Suc d) pt q = None"
      "pt_view (Suc d) pt' p = Some (b, x)" "pt_view (Suc d) pt' q = Some (b, w)"
    obtain i p' where p: "p = i # p'" using nil a by (cases p) auto
    obtain j q' where q: "q = j # q'" using nil a by (cases q) auto
    show "p = q" using grows_inj [OF assms(1), of p q b x w] a by (simp add: p q v v0)
  qed (use grows_mem [OF assms(1)] grows_zero [OF assms(1)] in auto)
qed

section \<open>What creating directories does\<close>

text \<open>The segment memory hands out only buffers that are not in use.\<close>

definition env_fresh :: "pt_env \<Rightarrow> bool" where
  "env_fresh env \<longleftrightarrow>
     (\<forall>live t. (create_local env live t = 0 \<or> create_local env live t \<notin> set live) \<and>
               (create_pcie env live t = 0 \<or> create_pcie env live t \<notin> set live))"

text \<open>Nothing fails behind the creation of a buffer.\<close>

definition env_clean :: "pt_env \<Rightarrow> bool" where
  "env_clean env \<longleftrightarrow> (\<forall>t. map_works env t \<and> lock_works env t \<and> bitmap_works env t)"

lemma create_table_fresh:
  "env_fresh env \<Longrightarrow> create_table c env h \<noteq> 0 \<Longrightarrow> create_table c env h \<notin> set (tables_live h)"
  unfolding create_table_def env_fresh_def Let_def by (metis (full_types))

lemma pt_view_fresh:
  "pt_view n (Vm_Pt b a bm None g) p =
     (if p = [] \<and> b \<noteq> 0 then Some (b, a, g, if n = 0 then bm else None) else None)"
  by (cases p) (auto simp: pt_view_def)

lemma pt_shape_empty:
  "pt_shape c n l pt \<Longrightarrow> pt_buffer pt = 0 \<Longrightarrow> pt = Vm_Pt 0 0 None None (pt_age pt)"
  by (cases pt; cases n) auto

lemma alloc_entry_ok:
  assumes run: "alloc_entry c env l pt h = (pt', h', r)"
    and shape: "pt_shape c n l pt" and fresh: "env_fresh env" and "r = S_OK \<or> env_clean env"
  shows "pt_shape c n l pt'" "grows env (pt_view n pt) h (pt_view n pt') h'"
    "r = S_OK \<Longrightarrow> pt_buffer pt' \<noteq> 0"
proof -
  have "pt_shape c n l pt' \<and> grows env (pt_view n pt) h (pt_view n pt') h' \<and>
      (r = S_OK \<longrightarrow> pt_buffer pt' \<noteq> 0)"
  proof (cases "pt_buffer pt = 0")
    case False
    then have "pt' = pt \<and> h' = h \<and> r = S_OK" using run by (simp add: alloc_entry_def)
    then show ?thesis using shape False by (simp add: grows_refl)
  next
    case True
    define b where "b = create_table c env h"
    have pt: "pt = Vm_Pt 0 0 None None (pt_age pt)" by (rule pt_shape_empty [OF shape True])
    have v0: "pt_view n pt p = None" for p by (subst pt) (simp add: pt_view_fresh)
    have e: "set_buffer b (set_age (resume_age c) pt) = Vm_Pt b 0 None None (resume_age c)" for b
      by (subst pt) simp
    show ?thesis
    proof (cases "b = 0")
      case True
      then have "pt' = Vm_Pt 0 0 None None (resume_age c) \<and> h' = tick h \<and> r = E_OUTOFMEMORY"
        using run \<open>pt_buffer pt = 0\<close> by (simp add: alloc_entry_def Let_def e b_def [symmetric])
      moreover have "pt_shape c n l (Vm_Pt 0 0 None None (resume_age c))" by (cases n) auto
      moreover have "grows env (pt_view n pt) h (pt_view n (Vm_Pt 0 0 None None (resume_age c))) (tick h)"
        by (rule growsI) (simp_all add: v0 pt_view_fresh tick_def)
      ultimately show ?thesis by simp
    next
      case False
      then have nb: "b \<notin> set (tables_live h)" using create_table_fresh [OF fresh] by (simp add: b_def)
      have ok: "map_works env (heap_tick h)" "bitmap_works env (heap_tick h)" "r = S_OK"
        using run assms(4) \<open>pt_buffer pt = 0\<close> False
        by (auto simp: alloc_entry_def Let_def e b_def [symmetric] env_clean_def split: if_splits)
      define bm where "bm = Some (replicate (vidmmi_vm_pt_num_entries c l) False)"
      have res: "pt' = Vm_Pt b 0 bm None (resume_age c)"
        "tables_live h' = b # tables_live h"
        "tables_mem h' = (if lock_works env (heap_tick h)
                          then (tables_mem h)(b := (\<lambda>_. Hw_Invalid)) else tables_mem h)"
        using run ok \<open>pt_buffer pt = 0\<close> False
        by (auto simp: alloc_entry_def Let_def e b_def [symmetric] bm_def tick_def zero_table_def
              split: if_splits)
      have "pt_shape c n l pt'" using False by (cases n) (auto simp: res bm_def)
      moreover have "grows env (pt_view n pt) h (pt_view n pt') h'"
        using False nb by (intro growsI) (auto simp: v0 res pt_view_fresh bm_def split: if_splits)
      ultimately show ?thesis using False by (simp add: res)
    qed
  qed
  then show "pt_shape c n l pt'" "grows env (pt_view n pt) h (pt_view n pt') h'"
    "r = S_OK \<Longrightarrow> pt_buffer pt' \<noteq> 0" by blast+
qed

text \<open>The position of the table of page \<open>p\<close> below a directory at \<open>level\<close> with \<open>n\<close> levels below.\<close>

primrec lpath :: "vm_chip \<Rightarrow> nat \<Rightarrow> nat \<Rightarrow> nat \<Rightarrow> nat list" where
  "lpath c 0 level p = []"
| "lpath c (Suc n) level p =
     p div 2 ^ vidmmi_vm_accum_pd_bits_count c level #
     lpath c n (level + 1) (p mod 2 ^ vidmmi_vm_accum_pd_bits_count c level)"

text \<open>
  The contract of creating the directories of a range in a table: the shape is kept, the tree
  grows, and on success every page of the range has its table.
\<close>

definition alloc_contract ::
    "vm_chip \<Rightarrow> pt_env \<Rightarrow> nat \<Rightarrow> nat \<Rightarrow> vm_pt \<Rightarrow> nat \<Rightarrow> nat \<Rightarrow> pt_heap \<Rightarrow>
     vm_pt \<times> pt_heap \<times> status outcome \<Rightarrow> bool" where
  "alloc_contract c env level n pt s e h res \<longleftrightarrow>
     (case res of (pt', h', r) \<Rightarrow>
        r = Done S_OK \<or> env_clean env \<longrightarrow>
        pt_shape c n level pt' \<and> pt_buffer pt' = pt_buffer pt \<and>
        grows env (pt_view n pt) h (pt_view n pt') h' \<and> r \<noteq> Panic \<and>
        (r = Done S_OK \<longrightarrow> (\<forall>p. s \<le> p \<and> p \<le> e \<longrightarrow> pt_view n pt' (lpath c n level p) \<noteq> None)))"

definition sub_good ::
    "vm_chip \<Rightarrow> pt_env \<Rightarrow> nat \<Rightarrow> nat \<Rightarrow>
     (vm_pt \<Rightarrow> nat \<Rightarrow> nat \<Rightarrow> pt_heap \<Rightarrow> vm_pt \<times> pt_heap \<times> status outcome) option \<Rightarrow> bool" where
  "sub_good c env level n sub \<longleftrightarrow>
     (case sub of None \<Rightarrow> n = 0
      | Some f \<Rightarrow> \<forall>pt s e h. pt_shape c n level pt \<and> pt_buffer pt \<noteq> 0 \<longrightarrow>
          alloc_contract c env level n pt s e h (f pt s e h))"

lemma pd_loop_ok:
  assumes "pd_loop c env level sub shift from till s e is es h = (es', h', r)"
    and "set is \<subseteq> {..<length es}" "distinct is" "\<forall>i < length es. pt_shape c n level (es ! i)"
    and sub: "sub_good c env level n sub" and fresh: "env_fresh env"
    and "r = Done S_OK \<or> env_clean env"
  shows "length es' = length es \<and> (\<forall>i < length es. pt_shape c n level (es' ! i)) \<and>
     grows env (es_view n es) h (es_view n es') h' \<and> r \<noteq> Panic \<and>
     (\<forall>i < length es. i \<notin> set is \<longrightarrow> es' ! i = es ! i) \<and>
     (r = Done S_OK \<longrightarrow>
        (\<forall>i \<in> set is. \<forall>q. (if i = from then s else 0) \<le> q \<and>
             q \<le> (if i = till then e else 2 ^ shift - 1) \<longrightarrow>
           pt_view n (es' ! i) (lpath c n level q) \<noteq> None))"
  using assms(1-4,7)
proof (induction "is" arbitrary: es h)
  case Nil
  then show ?case by (auto simp: grows_refl)
next
  case (Cons i "is")
  have i: "i < length es" "i \<notin> set is" and iss: "set is \<subseteq> {..<length es}" "distinct is"
    using Cons.prems(2,3) by auto
  obtain e1 h1 r1 where e1: "alloc_entry c env level (es ! i) h = (e1, h1, r1)"
    by (metis prod_cases3)
  have r1: "r1 = S_OK \<or> env_clean env"
    using Cons.prems(1,5) e1 by (auto split: if_splits)
  note entry = alloc_entry_ok [OF e1 _ fresh r1]
  have shape_i: "pt_shape c n level (es ! i)" using Cons.prems(4) i by blast
  have g1: "grows env (es_view n es) h (es_view n (es[i := e1])) h1"
    by (rule grows_child [OF entry(2) [OF shape_i] i(1)])
  show ?case
  proof (cases "r1 = S_OK")
    case False
    then have "es' = es[i := e1]" "h' = h1" "r = Done r1" using Cons.prems(1) e1 by simp_all
    then show ?thesis
      using Cons.prems(4) entry(1) [OF shape_i] g1 False i(1) by (auto simp: nth_list_update)
  next
    case ok: True
    have b1: "pt_buffer e1 \<noteq> 0" using entry(3) shape_i ok by blast
    have rest: "length es' = length es \<and> (\<forall>j < length es. pt_shape c n level (es' ! j)) \<and>
       grows env (es_view n es) h (es_view n es') h' \<and> r \<noteq> Panic \<and>
       (\<forall>j < length es. j \<notin> set (i # is) \<longrightarrow> es' ! j = es ! j) \<and> es' ! i = e2 \<and>
       (r = Done S_OK \<longrightarrow>
          (\<forall>j \<in> set is. \<forall>q. (if j = from then s else 0) \<le> q \<and>
               q \<le> (if j = till then e else 2 ^ shift - 1) \<longrightarrow>
             pt_view n (es' ! j) (lpath c n level q) \<noteq> None))"
      if run: "pd_loop c env level sub shift from till s e is (es[i := e2]) h2 = (es', h', r)"
        and sh: "pt_shape c n level e2" and g: "grows env (es_view n es) h (es_view n (es[i := e2])) h2"
      for e2 h2
    proof -
      have "\<forall>j < length (es[i := e2]). pt_shape c n level (es[i := e2] ! j)"
        using Cons.prems(4) sh i(1) by (simp add: nth_list_update)
      from Cons.IH [OF run _ iss(2) this Cons.prems(5)] show ?thesis
        using i iss grows_trans [OF g] by simp
    qed
    show ?thesis
    proof (cases sub)
      case None
      then have n: "n = 0" using sub by (simp add: sub_good_def)
      have "pd_loop c env level sub shift from till s e is (es[i := e1]) h1 = (es', h', r)"
        using Cons.prems(1) e1 ok None by simp
      from rest [OF this entry(1) [OF shape_i] g1] show ?thesis
        using b1 by (auto simp: n pt_view_Nil)
    next
      case (Some f)
      define lo where "lo = (if i = from then s else 0)"
      define hi where "hi = (if i = till then e else 2 ^ shift - 1)"
      obtain e2 h2 r2 where e2: "f e1 lo hi h1 = (e2, h2, r2)" by (metis prod_cases3)
      have step: "(if r2 \<noteq> Done S_OK then (es[i := e2], h2, r2)
          else pd_loop c env level sub shift from till s e is (es[i := e2]) h2) = (es', h', r)"
        using Cons.prems(1) e1 ok Some e2 by (auto simp: lo_def hi_def split: if_splits)
      have r2: "r2 = Done S_OK \<or> env_clean env" using step Cons.prems(5) by (auto split: if_splits)
      have "alloc_contract c env level n e1 lo hi h1 (e2, h2, r2)"
        using sub entry(1) [OF shape_i] b1 unfolding sub_good_def Some by (simp flip: e2)
      then have con: "pt_shape c n level e2" "pt_buffer e2 = pt_buffer e1"
        "grows env (pt_view n e1) h1 (pt_view n e2) h2" "r2 \<noteq> Panic"
        "r2 = Done S_OK \<Longrightarrow> lo \<le> p \<Longrightarrow> p \<le> hi \<Longrightarrow> pt_view n e2 (lpath c n level p) \<noteq> None" for p
        using r2 by (auto simp: alloc_contract_def)
      have "grows env (es_view n (es[i := e1])) h1 (es_view n ((es[i := e1])[i := e2])) h2"
        by (rule grows_child) (use con(3) i in simp_all)
      then have g2: "grows env (es_view n es) h (es_view n (es[i := e2])) h2"
        using grows_trans [OF g1] by simp
      show ?thesis
      proof (cases "r2 = Done S_OK")
        case False
        then show ?thesis using step con g2 Cons.prems(4) i by (auto simp: nth_list_update)
      next
        case True
        then have "pd_loop c env level sub shift from till s e is (es[i := e2]) h2 = (es', h', r)"
          using step by simp
        from rest [OF this con(1) g2] con(5) [OF True] show ?thesis
          by (simp add: lo_def hi_def)
      qed
    qed
  qed
qed

lemma fold_update_nth:
  "i < length bm \<Longrightarrow>
   length (fold (\<lambda>i bm. bm[i := v]) is bm) = length bm \<and>
   fold (\<lambda>i bm. bm[i := v]) is bm ! i = (if i \<in> set is then v else bm ! i)"
  by (induction "is" arbitrary: bm) (auto simp: nth_list_update)

lemma length_bitmap_write [simp]: "length (bitmap_write bm s e v) = length bm"
proof (cases "bm = []")
  case True
  have "fold (\<lambda>i bm. bm[i := v]) is [] = []" for "is" by (induction "is") auto
  then show ?thesis by (simp add: True bitmap_write_def)
next
  case False
  then show ?thesis unfolding bitmap_write_def using fold_update_nth [of 0 bm v] by blast
qed

lemma bitmap_write_nth:
  "i < length bm \<Longrightarrow> bitmap_write bm s e v ! i = (if s \<le> i \<and> i \<le> e then v else bm ! i)"
  using fold_update_nth [of i bm v "[s..<Suc e]"] by (auto simp: bitmap_write_def)

lemma set_fields [simp]:
  "pt_buffer (set_entries es pt) = pt_buffer pt" "pt_addr (set_entries es pt) = pt_addr pt"
  "pt_age (set_entries es pt) = pt_age pt" "pt_bitmap (set_entries es pt) = pt_bitmap pt"
  "pt_entries (set_entries es pt) = es"
  "pt_buffer (set_bitmap bm pt) = pt_buffer pt" "pt_addr (set_bitmap bm pt) = pt_addr pt"
  "pt_age (set_bitmap bm pt) = pt_age pt" "pt_bitmap (set_bitmap bm pt) = bm"
  "pt_entries (set_bitmap bm pt) = pt_entries pt"
  by (cases pt; simp)+

lemma pt_shape_calloc: "pt_shape c n l calloc_pt"
  by (cases n) (auto simp: calloc_pt_def)

lemma pt_buffer_calloc: "pt_buffer calloc_pt = 0"
  by (simp add: calloc_pt_def)

lemma es_view_calloc: "es_view d (replicate m calloc_pt) p = None"
  by (auto simp: es_view_def calloc_pt_def pt_view_fresh split: list.splits)

lemma page_interval:
  fixes k s e p :: nat
  assumes "s \<le> p" "p \<le> e" and i: "i = p div 2 ^ k"
  shows "(if i = s div 2 ^ k then s mod 2 ^ k else 0) \<le> p mod 2 ^ k"
    "p mod 2 ^ k \<le> (if i = e div 2 ^ k then e mod 2 ^ k else 2 ^ k - 1)"
    "s div 2 ^ k \<le> i" "i \<le> e div 2 ^ k"
proof -
  have le: "s div 2 ^ k * 2 ^ k + s mod 2 ^ k \<le> p div 2 ^ k * 2 ^ k + p mod 2 ^ k"
    "p div 2 ^ k * 2 ^ k + p mod 2 ^ k \<le> e div 2 ^ k * 2 ^ k + e mod 2 ^ k"
    using assms(1,2) by (simp_all only: div_mult_mod_eq)
  have "p mod 2 ^ k < 2 ^ k" by simp
  then have "p mod 2 ^ k \<le> 2 ^ k - 1" by linarith
  then show "(if i = s div 2 ^ k then s mod 2 ^ k else 0) \<le> p mod 2 ^ k"
    "p mod 2 ^ k \<le> (if i = e div 2 ^ k then e mod 2 ^ k else 2 ^ k - 1)"
    using le by (auto simp: i)
  show "s div 2 ^ k \<le> i" "i \<le> e div 2 ^ k" using assms by (simp_all add: div_le_mono)
qed

text \<open>The directory found or made by \<open>alloc_dir\<close>, before its children are visited.\<close>

lemma alloc_dir_ok:
  assumes shape: "pt_shape c (Suc n) level pt" and b: "pt_buffer pt \<noteq> 0"
    and sub: "sub_good c env (level + 1) n sub" and fresh: "env_fresh env"
  shows "alloc_contract c env level (Suc n) pt s e h (alloc_dir c env sub level pt s e h)"
proof -
  let ?N = "vidmmi_vm_pt_num_entries c level" and ?k = "vidmmi_vm_accum_pd_bits_count c level"
  obtain bm where bm: "pt_bitmap pt = Some bm" "length bm = ?N"
    and es0: "\<And>es. pt_entries pt = Some es \<Longrightarrow> length es = ?N \<and>
         (\<forall>i < length es. pt_shape c n (level + 1) (es ! i)) \<and>
         (\<forall>i < length es. pt_buffer (es ! i) \<noteq> 0 \<longrightarrow> bm ! i)"
    using shape b by auto
  define found where "found = (case pt_entries pt of Some es \<Rightarrow> (Some es, h)
     | None \<Rightarrow> (if entries_works env (heap_tick h) then Some (replicate ?N calloc_pt) else None, tick h))"
  obtain fo h1 where fo: "found = (fo, h1)" by fastforce
  have h1: "tables_live h1 = tables_live h" "tables_mem h1 = tables_mem h"
    using fo by (auto simp: found_def tick_def split: option.splits)
  show ?thesis
  proof (cases fo)
    case None
    then have "alloc_dir c env sub level pt s e h = (pt, h1, Done E_OUTOFMEMORY)"
      using fo by (simp add: alloc_dir_def Let_def found_def [symmetric])
    then show ?thesis using shape h1 by (simp add: alloc_contract_def grows_refl del: pt_shape.simps)
  next
    case (Some es)
    have es: "length es = ?N" "\<forall>i < length es. pt_shape c n (level + 1) (es ! i)"
      "\<forall>i < length es. pt_buffer (es ! i) \<noteq> 0 \<longrightarrow> bm ! i"
      "pt_entries pt = Some es \<or> pt_entries pt = None \<and> (\<forall>p. es_view n es p = None)"
      using fo Some es0
      by (auto simp: found_def pt_shape_calloc es_view_calloc pt_buffer_calloc split: option.splits if_splits)
    define fr till where "fr = s div 2 ^ ?k" and "till = e div 2 ^ ?k"
    have dir: "pt_shape c (Suc n) level pt' \<and> grows env (pt_view (Suc n) pt) h (pt_view (Suc n) pt') h'"
      if "pt_buffer pt' = pt_buffer pt" "pt_addr pt' = pt_addr pt" "pt_age pt' = pt_age pt"
        "pt_bitmap pt' = Some bm'" "pt_entries pt' = Some es'" "length bm' = ?N" "length es' = ?N"
        "\<forall>i < ?N. pt_shape c n (level + 1) (es' ! i)"
        "\<forall>i < ?N. pt_buffer (es' ! i) \<noteq> 0 \<longrightarrow> bm' ! i"
        "grows env (es_view n es) h1 (es_view n es') h'" for pt' bm' es' h'
    proof -
      have "grows env (es_view n es) h (es_view n es') h'"
        using grows_trans [OF grows_refl that(10)] h1 by blast
      then show ?thesis using grows_dir [of env n es h es' h' pt pt'] that es b by simp
    qed
    show ?thesis
    proof (cases "fr \<ge> ?N \<or> till \<ge> ?N")
      case True
      then have "alloc_dir c env sub level pt s e h =
          (set_entries (Some es) pt, h1, Done E_INVALIDARG)"
        using fo Some by (simp add: alloc_dir_def Let_def found_def [symmetric] fr_def till_def)
      then show ?thesis
        using dir [of "set_entries (Some es) pt" bm es h1] es bm
        by (simp add: alloc_contract_def grows_refl del: pt_shape.simps)
    next
      case False
      define exist where "exist = (fr \<le> till \<and> list_all (\<lambda>i. bm ! i) [fr..<Suc till])"
      define bm' where "bm' = (if exist then bm else bitmap_write bm fr till True)"
      obtain es' h' r where run: "pd_loop c env (level + 1) sub ?k fr till (s mod 2 ^ ?k)
          (e mod 2 ^ ?k) [fr..<Suc till] es h1 = (es', h', r)" by (metis prod_cases3)
      define pt' where "pt' = set_entries (Some es')
          (if exist then set_entries (Some es) pt else set_bitmap (Some bm') (set_entries (Some es) pt))"
      have res: "alloc_dir c env sub level pt s e h = (pt', h', r)"
        using fo Some False run bm
        by (auto simp: alloc_dir_def Let_def found_def [symmetric] fr_def till_def
              vidmmi_vm_pt_check_bitmap_def vidmmi_vm_pt_update_bitmap_def exist_def bm'_def pt'_def)
      have pt': "pt_buffer pt' = pt_buffer pt" "pt_addr pt' = pt_addr pt" "pt_age pt' = pt_age pt"
        "pt_bitmap pt' = Some bm'" "pt_entries pt' = Some es'"
        by (simp_all add: pt'_def bm'_def bm)
      have bm'_len: "length bm' = ?N" by (simp add: bm'_def bm)
      have bit: "bm' ! i" if "i < ?N" "fr \<le> i \<and> i \<le> till \<or> bm ! i" for i
        using that bm by (auto simp: bm'_def bitmap_write_nth exist_def list_all_iff simp del: upt_Suc)
      show ?thesis
        unfolding res alloc_contract_def prod.case
      proof (intro impI)
        assume r: "r = Done S_OK \<or> env_clean env"
        have range: "set [fr..<Suc till] \<subseteq> {..<length es}" using False es by auto
        note loop = pd_loop_ok [OF run range distinct_upt es(2) sub fresh r]
        have "pt_buffer (es' ! i) \<noteq> 0 \<longrightarrow> bm' ! i" if "i < ?N" for i
          using loop es that bit by (cases "i \<in> set [fr..<Suc till]") auto
        then have d: "pt_shape c (Suc n) level pt' \<and>
            grows env (pt_view (Suc n) pt) h (pt_view (Suc n) pt') h'"
          using loop es by (intro dir [OF pt' bm'_len]) auto
        have "pt_view (Suc n) pt' (lpath c (Suc n) level p) \<noteq> None"
          if ok: "r = Done S_OK" and "s \<le> p" "p \<le> e" for p
        proof -
          let ?i = "p div 2 ^ ?k"
          note iv = page_interval [OF that(2,3) refl, of ?k, folded fr_def till_def]
          have "pt_view n (es' ! ?i) (lpath c n (level + 1) (p mod 2 ^ ?k)) \<noteq> None"
            using loop ok iv by (simp del: upt_Suc)
          then show ?thesis
            using loop iv False es by (simp add: pt_view_Cons es_view_def pt')
        qed
        with d show "pt_shape c (Suc n) level pt' \<and> pt_buffer pt' = pt_buffer pt \<and>
            grows env (pt_view (Suc n) pt) h (pt_view (Suc n) pt') h' \<and> r \<noteq> Panic \<and>
            (r = Done S_OK \<longrightarrow>
               (\<forall>p. s \<le> p \<and> p \<le> e \<longrightarrow> pt_view (Suc n) pt' (lpath c (Suc n) level p) \<noteq> None))"
          using loop pt'(1) by blast
      qed
    qed
  qed
qed

lemma alloc_pd_ok:
  assumes "env_fresh env" "n \<le> vidmmi_vm_leaf_pd_level c"
    "pt_shape c (Suc n) (vidmmi_vm_leaf_pd_level c - n) pt" "pt_buffer pt \<noteq> 0"
  shows "alloc_contract c env (vidmmi_vm_leaf_pd_level c - n) (Suc n) pt s e h (alloc_pd c env n pt s e h)"
  using assms(2-)
proof (induction n arbitrary: pt s e h)
  case 0
  then show ?case by (simp add: alloc_dir_ok sub_good_def assms(1) del: pt_shape.simps)
next
  case (Suc n)
  let ?l = "vidmmi_vm_leaf_pd_level c"
  have l: "?l - Suc n + 1 = ?l - n" using Suc.prems(1) by simp
  have "sub_good c env (?l - Suc n + 1) (Suc n) (Some (alloc_pd c env n))"
    unfolding sub_good_def l using Suc by (simp del: pt_shape.simps)
  from alloc_dir_ok [OF Suc.prems(2,3) this assms(1)] show ?case by simp
qed

section \<open>Creating directories succeeds when there is memory\<close>

definition env_perfect :: "vm_chip \<Rightarrow> pt_env \<Rightarrow> bool" where
  "env_perfect c env \<longleftrightarrow>
     env_clean env \<and> (\<forall>t. entries_works env t) \<and> (\<forall>h. create_table c env h \<noteq> 0)"

lemma alloc_entry_succeeds:
  "env_perfect c env \<Longrightarrow> alloc_entry c env l pt h = (pt', h', r) \<Longrightarrow> r = S_OK"
  by (auto simp: alloc_entry_def env_perfect_def env_clean_def Let_def split: if_splits)
    (metis less_numeral_extra(3))

lemma pd_loop_succeeds:
  assumes perfect: "env_perfect c env" and fresh: "env_fresh env"
    and sub: "\<And>f pt lo hi h. sub = Some f \<Longrightarrow> pt_shape c n level pt \<Longrightarrow> pt_buffer pt \<noteq> 0 \<Longrightarrow>
        lo < 2 ^ shift \<Longrightarrow> hi < 2 ^ shift \<Longrightarrow> snd (snd (f pt lo hi h)) = Done S_OK"
    and "s < 2 ^ shift" "e < 2 ^ shift"
    and "distinct is" "set is \<subseteq> {..<length es}" "\<forall>i \<in> set is. pt_shape c n level (es ! i)"
  shows "snd (snd (pd_loop c env level sub shift from till s e is es h)) = Done S_OK"
  using assms(6-)
proof (induction "is" arbitrary: es h)
  case (Cons i "is")
  obtain e1 h1 r1 where e1: "alloc_entry c env level (es ! i) h = (e1, h1, r1)" by (metis prod_cases3)
  have r1: "r1 = S_OK" by (rule alloc_entry_succeeds [OF perfect e1])
  have sh: "pt_shape c n level e1" and b1: "pt_buffer e1 \<noteq> 0"
    using alloc_entry_ok [OF e1 _ fresh, of n] Cons.prems(3) r1 by simp_all
  have keep: "\<forall>j \<in> set is. pt_shape c n level (es[i := x] ! j)" for x
  proof
    fix j assume j: "j \<in> set is"
    then have "j \<noteq> i" using Cons.prems(1) by auto
    then show "pt_shape c n level (es[i := x] ! j)" using Cons.prems(3) j by simp
  qed
  have next': "snd (snd (pd_loop c env level sub shift from till s e is (es[i := x]) h2)) = Done S_OK"
    for x h2 using Cons.IH [OF _ _ keep] Cons.prems by simp
  show ?case
  proof (cases sub)
    case None
    then show ?thesis using e1 r1 next' by simp
  next
    case (Some f)
    have "snd (snd (f e1 (if i = from then s else 0) (if i = till then e else 2 ^ shift - 1) h1)) = Done S_OK"
      by (rule sub [OF Some sh b1]) (use assms(4,5) in auto)
    then obtain e2 h2 where "f e1 (if i = from then s else 0) (if i = till then e else 2 ^ shift - 1) h1 =
        (e2, h2, Done S_OK)" by (metis prod.collapse)
    then show ?thesis using e1 r1 next' Some by simp
  qed
qed simp

lemma alloc_dir_succeeds:
  assumes perfect: "env_perfect c env" and fresh: "env_fresh env"
    and shape: "pt_shape c (Suc n) level pt" and b: "pt_buffer pt \<noteq> 0"
    and k: "k = vidmmi_vm_accum_pd_bits_count c level"
    and sub: "\<And>f pt lo hi h. sub = Some f \<Longrightarrow> pt_shape c n (level + 1) pt \<Longrightarrow> pt_buffer pt \<noteq> 0 \<Longrightarrow>
        lo < 2 ^ k \<Longrightarrow> hi < 2 ^ k \<Longrightarrow> snd (snd (f pt lo hi h)) = Done S_OK"
    and "s div 2 ^ k < vidmmi_vm_pt_num_entries c level"
    and "e div 2 ^ k < vidmmi_vm_pt_num_entries c level"
  shows "snd (snd (alloc_dir c env sub level pt s e h)) = Done S_OK"
proof -
  let ?N = "vidmmi_vm_pt_num_entries c level"
  obtain bm where bm: "pt_bitmap pt = Some bm" using shape b by auto
  obtain es h1 where found: "(case pt_entries pt of Some es \<Rightarrow> (Some es, h)
     | None \<Rightarrow> (if entries_works env (heap_tick h) then Some (replicate ?N calloc_pt) else None, tick h))
       = (Some es, h1)"
    using perfect by (cases "pt_entries pt") (auto simp: env_perfect_def)
  have es: "length es = ?N" "\<forall>i < ?N. pt_shape c n (level + 1) (es ! i)"
    using found shape b
    by (auto simp: pt_shape_calloc split: option.splits if_splits)
  define fr till where "fr = s div 2 ^ k" and "till = e div 2 ^ k"
  have in_range: "set [fr..<Suc till] \<subseteq> {..<length es}"
    "\<forall>i \<in> set [fr..<Suc till]. pt_shape c n (level + 1) (es ! i)"
    using assms(7,8) es by (auto simp: fr_def till_def)
  have mods: "s mod 2 ^ k < 2 ^ k" "e mod 2 ^ k < 2 ^ k" by simp_all
  have "snd (snd (pd_loop c env (level + 1) sub k fr till (s mod 2 ^ k) (e mod 2 ^ k)
      [fr..<Suc till] es h1)) = Done S_OK"
    by (rule pd_loop_succeeds [where n = n]) (use perfect fresh sub mods in_range in simp_all)
  then obtain es' h' where run: "pd_loop c env (level + 1) sub k fr till (s mod 2 ^ k) (e mod 2 ^ k)
      [fr..<Suc till] es h1 = (es', h', Done S_OK)" by (metis prod.collapse)
  show ?thesis
    using found run assms(7,8) bm
    by (simp add: alloc_dir_def Let_def k [symmetric] vidmmi_vm_pt_check_bitmap_def fr_def till_def
          del: upt_Suc)
qed

text \<open>The bits a directory at \<open>level\<close> and the levels below it translate.\<close>

lemma accum_step:
  assumes "level + 1 < pt_levels_num c"
  shows "vidmmi_vm_accum_pd_bits_count c level =
     vidmmi_vm_pt_bits_count c (level + 1) + vidmmi_vm_accum_pd_bits_count c (level + 1)"
proof -
  have "[level + 1..<pt_levels_num c] = (level + 1) # [level + 2..<pt_levels_num c]"
    using assms by (simp add: upt_conv_Cons)
  then show ?thesis by (simp add: vidmmi_vm_accum_pd_bits_count_def)
qed

lemma alloc_pd_succeeds:
  assumes "env_perfect c env" "env_fresh env" "2 \<le> pt_levels_num c"
    and "n \<le> vidmmi_vm_leaf_pd_level c" and lv: "level = vidmmi_vm_leaf_pd_level c - n"
    and "pt_shape c (Suc n) level pt" "pt_buffer pt \<noteq> 0"
    and "s < 2 ^ (vidmmi_vm_pt_bits_count c level + vidmmi_vm_accum_pd_bits_count c level)"
    and "e < 2 ^ (vidmmi_vm_pt_bits_count c level + vidmmi_vm_accum_pd_bits_count c level)"
  shows "snd (snd (alloc_pd c env n pt s e h)) = Done S_OK"
  using assms(4-)
proof (induction n arbitrary: level pt s e h)
  case 0
  have "snd (snd (alloc_dir c env None level pt s e h)) = Done S_OK"
    by (rule alloc_dir_succeeds [OF assms(1,2) 0(3,4) refl])
       (use 0(5,6) in \<open>simp_all add: vidmmi_vm_pt_num_entries_def less_mult_imp_div_less power_add\<close>)
  then show ?case using 0(2) by simp
next
  case (Suc n)
  have lt: "level + 1 < pt_levels_num c" and l: "level + 1 = vidmmi_vm_leaf_pd_level c - n"
    using Suc.prems(1,2) assms(3) by (auto simp: vidmmi_vm_leaf_pd_level_def)
  have "snd (snd (alloc_dir c env (Some (alloc_pd c env n)) level pt s e h)) = Done S_OK"
    by (rule alloc_dir_succeeds [OF assms(1,2) Suc.prems(3,4) refl])
       (use Suc.prems(1,5,6) Suc.IH [OF _ l] accum_step [OF lt] in
         \<open>auto simp: vidmmi_vm_pt_num_entries_def less_mult_imp_div_less power_add\<close>)
  then show ?case using Suc.prems(2) by simp
qed

section \<open>The tables of the chip\<close>

lemma e3k_levels [simp]:
  "pt_levels_num (vidmm_query_chip_vm_info_e3k c) = 3"
  "vidmmi_vm_leaf_pd_level (vidmm_query_chip_vm_info_e3k c) = 1"
  by (simp_all add: vidmm_query_chip_vm_info_e3k_def vidmmi_vm_leaf_pd_level_def)

lemma e3k_bits [simp]:
  "vidmmi_vm_pt_bits_count (vidmm_query_chip_vm_info_e3k c) 0 = 8"
  "vidmmi_vm_pt_bits_count (vidmm_query_chip_vm_info_e3k c) (Suc 0) = 10"
  "vidmmi_vm_pt_bits_count (vidmm_query_chip_vm_info_e3k c) 2 = 10"
  "vidmmi_vm_pt_bits_count (vidmm_query_chip_vm_info_e3k c) (Suc (Suc 0)) = 10"
  by (simp_all add: vidmm_query_chip_vm_info_e3k_def vidmmi_vm_pt_bits_count_def)

lemma e3k_shift [simp]:
  "vidmmi_vm_accum_pd_bits_count (vidmm_query_chip_vm_info_e3k c) 0 = 20"
  "vidmmi_vm_accum_pd_bits_count (vidmm_query_chip_vm_info_e3k c) (Suc 0) = 10"
  "vidmmi_vm_accum_pd_bits_count (vidmm_query_chip_vm_info_e3k c) 2 = 0"
  by (simp_all add: vidmmi_vm_accum_pd_bits_count_def upt_rec)

lemma and_shifted_mask: "((p :: nat) AND (mask k * 2 ^ s)) div 2 ^ s = p div 2 ^ s mod 2 ^ k"
proof -
  have "(p AND push_bit s (mask k)) = push_bit s (take_bit k (drop_bit s p))"
    by (rule bit_eqI) (auto simp: bit_simps)
  then show ?thesis by (simp add: push_bit_eq_mult drop_bit_eq_div take_bit_eq_mod)
qed

lemma e3k_index:
  "(p AND vidmmi_vm_pt_addr_mask (vidmm_query_chip_vm_info_e3k c) 0) div 2 ^ 20 = p div 2 ^ 20 mod 2 ^ 8"
  "(p AND vidmmi_vm_pt_addr_mask (vidmm_query_chip_vm_info_e3k c) (Suc 0)) div 2 ^ 10 =
   p div 2 ^ 10 mod 2 ^ 10"
  using and_shifted_mask [of p 8 20] and_shifted_mask [of p 10 10]
  by (simp_all add: vidmm_query_chip_vm_info_e3k_def vidmmi_vm_pt_addr_mask_def mask_eq_exp_minus_1)

lemmas e3k_index_simps [simp] = e3k_index [simplified]

lemma e3k_lpath:
  "lpath (vidmm_query_chip_vm_info_e3k c) 2 0 p = [p div 2 ^ 20, p mod 2 ^ 20 div 2 ^ 10]"
  by (simp add: numeral_2_eq_2)

text \<open>Every buffer of the tree exists, and no two tables of the tree share one.\<close>

definition pt_owned :: "nat \<Rightarrow> vm_pt \<Rightarrow> pt_heap \<Rightarrow> bool" where
  "pt_owned d pt h \<longleftrightarrow>
     (\<forall>p b v. pt_view d pt p = Some (b, v) \<longrightarrow> b \<in> set (tables_live h)) \<and>
     (\<forall>p q b v w. pt_view d pt p = Some (b, v) \<and> pt_view d pt q = Some (b, w) \<longrightarrow> p = q)"

lemma pt_owned_live: "pt_owned d pt h \<Longrightarrow> pt_view d pt p = Some (b, v) \<Longrightarrow> b \<in> set (tables_live h)"
  unfolding pt_owned_def by blast

lemma pt_owned_inj:
  "pt_owned d pt h \<Longrightarrow> pt_view d pt p = Some (b, v) \<Longrightarrow> pt_view d pt q = Some (b, w) \<Longrightarrow> p = q"
  unfolding pt_owned_def by blast

lemma pt_owned_grows:
  assumes own: "pt_owned d pt h" and g: "grows env (pt_view d pt) h (pt_view d pt') h'"
  shows "pt_owned d pt' h'"
proof -
  have live: "b \<in> set (tables_live h') \<and> (b \<in> set (tables_live h) \<longleftrightarrow> pt_view d pt p \<noteq> None)"
    if "pt_view d pt' p = Some (b, v)" for p b v
  proof (cases "pt_view d pt p")
    case None
    then show ?thesis using grows_new [OF g None, of b] that by (cases v) auto
  next
    case (Some u)
    then have "u = (b, v)" using grows_keep [OF g Some] that by simp
    then show ?thesis using pt_owned_live [OF own] Some grows_live [OF g] by blast
  qed
  have old: "pt_view d pt p = Some (b, v)"
    if "pt_view d pt' p = Some (b, v)" "b \<in> set (tables_live h)" for p b v
    using live [OF that(1)] that grows_keep [OF g, of p] by fastforce
  have "p = q" if p: "pt_view d pt' p = Some (b, v)" and q: "pt_view d pt' q = Some (b, w)" for p q b v w
  proof (cases "b \<in> set (tables_live h)")
    case True
    then show ?thesis using pt_owned_inj [OF own old [OF p] old [OF q]] by blast
  next
    case False
    then show ?thesis using grows_inj [OF g _ _ p q] live [OF p] live [OF q] by blast
  qed
  then show ?thesis using live unfolding pt_owned_def by blast
qed

text \<open>The walk finds what is at the position of the page.\<close>

lemma pt_shape_leaf: "pt_shape c 0 l pt \<Longrightarrow> pt_entries pt = None" by simp

lemma pt_shape_child:
  "pt_shape c (Suc n) l pt \<Longrightarrow> pt_buffer pt \<noteq> 0 \<Longrightarrow> pt_entries pt = Some es \<Longrightarrow> i < length es \<Longrightarrow>
   pt_shape c n (l + 1) (es ! i)"
  by auto

lemma e3k_two: "(2 :: nat) = Suc 1" by simp

lemma get_pt_entry_view:
  assumes c: "c = vidmm_query_chip_vm_info_e3k c0" and shape: "pt_shape c 2 0 root"
    and p: "p < 2 ^ 28"
  shows "(\<exists>leaf. vidmmi_vm_get_pt_entry c root p = Some (lpath c 2 0 p, leaf) \<and>
            pt_buffer leaf \<noteq> 0 \<and>
            pt_view 2 root (lpath c 2 0 p) =
              Some (pt_buffer leaf, pt_addr leaf, pt_age leaf, pt_bitmap leaf)) \<or>
         pt_view 2 root (lpath c 2 0 p) = None \<and>
         (\<forall>path leaf. vidmmi_vm_get_pt_entry c root p = Some (path, leaf) \<longrightarrow> pt_buffer leaf = 0)"
proof -
  define i j where "i = p div 2 ^ 20" and "j = p mod 2 ^ 20 div 2 ^ 10"
  have i0: "p div 2 ^ 20 mod 2 ^ 8 = i" using p by (simp add: i_def)
  have i1: "p div 2 ^ 10 mod 2 ^ 10 = j"
    using mod_mult2_eq [of p "2 ^ 10" "2 ^ 10"] by (simp add: power_add [symmetric] j_def)
  have path: "lpath c 2 0 p = [i, j]" by (simp add: c e3k_lpath i_def j_def)
  obtain b a bm eso g where root: "root = Vm_Pt b a bm eso g" by (cases root)
  show ?thesis
  proof (cases "b = 0 \<or> eso = None")
    case True
    then show ?thesis
      using shape by (auto simp: root path vidmmi_vm_get_pt_entry_def pt_view_def numeral_2_eq_2
            split: if_splits option.splits)
  next
    case False
    then obtain es where es: "eso = Some es" by auto
    show ?thesis
    proof (cases "i < length es")
      case False
      then show ?thesis using i0 \<open>\<not> (b = 0 \<or> eso = None)\<close>
        by (auto simp: root es c path [unfolded c] vidmmi_vm_get_pt_entry_def pt_view_def Let_def)
    next
      case True
      have shape1: "pt_shape c 1 1 (es ! i)"
        using pt_shape_child [of c 1 0 root es i] shape True \<open>\<not> (b = 0 \<or> eso = None)\<close>
        unfolding e3k_two by (simp add: root es)
      obtain b1 a1 bm1 eso1 g1 where dir: "es ! i = Vm_Pt b1 a1 bm1 eso1 g1" by (cases "es ! i")
      have walk0: "vidmmi_vm_get_pt_entry c root p = pt_walk c 1 [i] (es ! i) p"
        using False True i0 by (simp add: root es c vidmmi_vm_get_pt_entry_def Let_def)
      have view0: "pt_view 2 root (lpath c 2 0 p) = pt_view 1 (es ! i) [j]"
        using True by (auto simp: path pt_view_def root es split: option.splits)
      show ?thesis
      proof (cases "b1 = 0 \<or> eso1 = None")
        case True
        then show ?thesis using shape1 unfolding walk0 view0 dir
          by (auto simp: pt_view_def split: if_splits)
      next
        case False
        then obtain es1 where es1: "eso1 = Some es1" by auto
        have walk1: "pt_walk c 1 [i] (es ! i) p =
            (if j < length es1 then pt_walk c (1 + 1) [i, j] (es1 ! j) p else None)"
          using False i1 unfolding dir es1 by (simp add: c Let_def)
        show ?thesis
        proof (cases "j < length es1")
          case False
          then show ?thesis unfolding walk0 view0 walk1 unfolding dir es1 by (simp add: pt_view_def)
        next
          case True
          then have "pt_shape c 0 (1 + 1) (es1 ! j)"
            using pt_shape_child [of c 0 1 "es ! i" es1 j] shape1 \<open>\<not> (b1 = 0 \<or> eso1 = None)\<close>
            unfolding dir es1 One_nat_def by (simp del: pt_shape.simps)
          then obtain b2 a2 bm2 g2 where leaf: "es1 ! j = Vm_Pt b2 a2 bm2 None g2"
            by (cases "es1 ! j") auto
          show ?thesis unfolding walk0 view0 walk1 unfolding dir es1 leaf using True
            by (auto simp: pt_view_def path leaf)
        qed
      qed
    qed
  qed
qed

text \<open>Two pages have the same table exactly when they lie in the same block of 1024 pages.\<close>

lemma e3k_lpath_eq:
  "lpath (vidmm_query_chip_vm_info_e3k c) 2 0 p = lpath (vidmm_query_chip_vm_info_e3k c) 2 0 q \<longleftrightarrow>
   p div 2 ^ 10 = q div 2 ^ 10"
proof -
  have d: "x div 2 ^ 20 = x div 2 ^ 10 div 2 ^ 10" "x mod 2 ^ 20 div 2 ^ 10 = x div 2 ^ 10 mod 2 ^ 10" for x :: nat
    using mod_mult2_eq [of x "2 ^ 10" "2 ^ 10"] by (simp_all add: div_mult2_eq [symmetric] power_add [symmetric])
  show ?thesis unfolding e3k_lpath d by (metis div_mult_mod_eq list.inject)
qed

text \<open>The invariant of an address space: the shape of its tree, and whose buffers are whose.\<close>

definition vma_ok :: "vm_chip \<Rightarrow> vm_pt \<Rightarrow> pt_heap \<Rightarrow> bool" where
  "vma_ok c root h \<longleftrightarrow> pt_shape c 2 0 root \<and> pt_buffer root \<noteq> 0 \<and> pt_owned 2 root h"

text \<open>The table of a page as its users test for it: found, and with a buffer.\<close>

definition found_table :: "vm_chip \<Rightarrow> vm_pt \<Rightarrow> nat \<Rightarrow> vm_pt option" where
  "found_table c root p =
     (case vidmmi_vm_get_pt_entry c root p of None \<Rightarrow> None
      | Some (path, leaf) \<Rightarrow> if pt_buffer leaf = 0 then None else Some leaf)"

lemma found_table_view:
  assumes "c = vidmm_query_chip_vm_info_e3k c0" "pt_shape c 2 0 root" "p < 2 ^ 28"
  shows "pt_view 2 root (lpath c 2 0 p) =
     map_option (\<lambda>leaf. (pt_buffer leaf, pt_addr leaf, pt_age leaf, pt_bitmap leaf)) (found_table c root p)"
  using get_pt_entry_view [OF assms]
  by (cases "vidmmi_vm_get_pt_entry c root p") (auto simp: found_table_def)

lemma pt_walk_leaf: "pt_walk c l path pt p = Some (path', leaf) \<Longrightarrow> pt_entries leaf = None"
  by (induction c l path pt p rule: pt_walk.induct) (auto simp: Let_def split: if_splits)

lemma found_table_leaf:
  "found_table c root p = Some leaf \<Longrightarrow> pt_entries leaf = None \<and> pt_buffer leaf \<noteq> 0"
  by (auto simp: found_table_def vidmmi_vm_get_pt_entry_def dest: pt_walk_leaf
      split: option.splits if_splits)

lemma found_table_eqI:
  assumes "found_table c root p = Some l" "found_table c' root' q = Some l'"
    "pt_buffer l = pt_buffer l'" "pt_addr l = pt_addr l'" "pt_age l = pt_age l'" "pt_bitmap l = pt_bitmap l'"
  shows "l = l'"
  using assms found_table_leaf [OF assms(1)] found_table_leaf [OF assms(2)]
  by (cases l; cases l') simp

lemma found_table_block:
  assumes c: "c = vidmm_query_chip_vm_info_e3k c0" and ok: "vma_ok c root h" and "p < 2 ^ 28" "q < 2 ^ 28"
    and l: "found_table c root p = Some l" "found_table c root q = Some l'"
  shows "pt_buffer l = pt_buffer l' \<longleftrightarrow> p div 2 ^ 10 = q div 2 ^ 10"
proof -
  have shape: "pt_shape c 2 0 root" and own: "pt_owned 2 root h" using ok by (simp_all add: vma_ok_def)
  have v: "pt_view 2 root (lpath c 2 0 p) = Some (pt_buffer l, pt_addr l, pt_age l, pt_bitmap l)"
    "pt_view 2 root (lpath c 2 0 q) = Some (pt_buffer l', pt_addr l', pt_age l', pt_bitmap l')"
    using found_table_view [OF c shape] assms(3-) by simp_all
  have "lpath c 2 0 p = lpath c 2 0 q" if "pt_buffer l = pt_buffer l'"
    by (rule pt_owned_inj [OF own v(1)]) (use v(2) that in simp)
  moreover have "pt_buffer l = pt_buffer l'" if "lpath c 2 0 p = lpath c 2 0 q"
    using v that by simp
  ultimately have "pt_buffer l = pt_buffer l' \<longleftrightarrow> lpath c 2 0 p = lpath c 2 0 q" by blast
  then show ?thesis by (simp add: c e3k_lpath_eq)
qed

text \<open>The steps of the property below, for growth in general.\<close>

lemma found_table_grows:
  assumes c: "c = vidmm_query_chip_vm_info_e3k c0" and "pt_shape c 2 0 root" "pt_shape c 2 0 root'"
    and g: "grows env (pt_view 2 root) h (pt_view 2 root') h'" and p: "p < 2 ^ 28"
  shows "found_table c root p = Some l \<Longrightarrow> found_table c root' p = Some l"
    "found_table c root p = None \<Longrightarrow> found_table c root' p = Some l \<Longrightarrow>
       pt_buffer l \<notin> set (tables_live h) \<and> (\<forall>bm. pt_bitmap l = Some bm \<longrightarrow> True \<notin> set bm)"
proof -
  note v = found_table_view [OF c _ p]
  show "found_table c root' p = Some l" if l: "found_table c root p = Some l"
  proof -
    have "pt_view 2 root' (lpath c 2 0 p) = Some (pt_buffer l, pt_addr l, pt_age l, pt_bitmap l)"
      using grows_keep [OF g] v [OF assms(2)] l by simp
    then obtain l' where "found_table c root' p = Some l'" "pt_buffer l' = pt_buffer l"
      "pt_addr l' = pt_addr l" "pt_age l' = pt_age l" "pt_bitmap l' = pt_bitmap l"
      using v [OF assms(3)] by (cases "found_table c root' p") auto
    then show ?thesis using found_table_eqI [OF _ l] by metis
  qed
  show "pt_buffer l \<notin> set (tables_live h) \<and> (\<forall>bm. pt_bitmap l = Some bm \<longrightarrow> True \<notin> set bm)"
    if "found_table c root p = None" "found_table c root' p = Some l"
    using grows_new [OF g] v [OF assms(2)] v [OF assms(3)] that by simp
qed

lemma vidmm_vm_alloc_pd_contract:
  assumes "c = vidmm_query_chip_vm_info_e3k c0" "env_fresh env" "vma_ok c root h"
  shows "alloc_contract c env 0 2 root s e h (vidmm_vm_alloc_pd c env root s e h)"
  using alloc_pd_ok [of env 1 c root s e h] assms
  unfolding vma_ok_def vidmm_vm_alloc_pd_def e3k_two by (simp del: pt_shape.simps)


text \<open>A new address space satisfies the invariant.\<close>

lemma init_vma_space_ok:
  assumes "vidmm_vm_init_vma_space c env h = (root, h', Done S_OK)" "env_fresh env"
  shows "vma_ok c root h'"
proof -
  have b: "create_table c env h \<noteq> 0"
    and root: "root = Vm_Pt (create_table c env h) (create_table c env h)
         (Some (replicate (vidmmi_vm_pt_num_entries c 0) False)) None 0"
    and h': "tables_live h' = create_table c env h # tables_live h"
    using assms(1)
    by (auto simp: vidmm_vm_init_vma_space_def Let_def tick_def split: if_splits)
  have "pt_shape c (Suc 1) 0 root" using b by (simp add: root)
  then show ?thesis
    using b by (auto simp: vma_ok_def pt_owned_def pt_view_fresh root h' e3k_two split: if_splits)
qed

text \<open>A machine with memory to spare, for the instances below: every buffer lies above all others.\<close>

definition ample_env :: pt_env where
  "ample_env = \<lparr> create_local = (\<lambda>live t. Suc (sum_list live)), create_pcie = (\<lambda>live t. 0),
     map_works = (\<lambda>t. True), lock_works = (\<lambda>t. True), bitmap_works = (\<lambda>t. True),
     entries_works = (\<lambda>t. True) \<rparr>"

definition ample_chip :: vm_chip where
  "ample_chip = vidmm_query_chip_vm_info_e3k \<lparr> pt_levels_num = 0, pt_bits_array = [], pt_bits_mask = [],
     pt_local_enable = True, pt_pcie_enable = False, cpu_update_pte = False, resume_age = 0,
     is_cne001 = False \<rparr>"

definition empty_heap :: pt_heap where
  "empty_heap = \<lparr> tables_live = [], tables_mem = (\<lambda>_ _. Hw_Invalid), heap_tick = 0 \<rparr>"

lemma ample_env_ok: "env_fresh ample_env" "env_perfect ample_chip ample_env"
proof -
  have "Suc (sum_list live) \<notin> set live" for live :: "nat list"
    using member_le_sum_list [of "Suc (sum_list live)" live] by auto
  then show "env_fresh ample_env" by (simp add: env_fresh_def ample_env_def)
  show "env_perfect ample_chip ample_env"
    by (simp add: env_perfect_def env_clean_def ample_env_def ample_chip_def create_table_def
          vidmm_query_chip_vm_info_e3k_def)
qed

definition ample_root :: vm_pt where
  "ample_root = Vm_Pt 1 1 (Some (replicate (vidmmi_vm_pt_num_entries ample_chip 0) False)) None 0"

definition ample_heap :: pt_heap where
  "ample_heap = \<lparr> tables_live = [1], tables_mem = (\<lambda>_ _. Hw_Invalid), heap_tick = 1 \<rparr>"

lemma ample_init: "vidmm_vm_init_vma_space ample_chip ample_env empty_heap = (ample_root, ample_heap, Done S_OK)"
proof -
  have b: "create_table ample_chip ample_env empty_heap = 1"
    by (simp add: create_table_def ample_chip_def ample_env_def empty_heap_def
          vidmm_query_chip_vm_info_e3k_def)
  show ?thesis
    unfolding vidmm_vm_init_vma_space_def Let_def b
    by (simp add: ample_env_def empty_heap_def ample_root_def ample_heap_def tick_def)
qed

lemma ample_vma_ok: "vma_ok ample_chip ample_root ample_heap"
  by (rule init_vma_space_ok [OF ample_init ample_env_ok(1)])

lemma ample_chip_e3k: "ample_chip = vidmm_query_chip_vm_info_e3k ample_chip"
  by (simp add: ample_chip_def vidmm_query_chip_vm_info_e3k_def)

lemma e3k_alloc_in_range:
  assumes "c = vidmm_query_chip_vm_info_e3k c0" "env_fresh env" "env_perfect c env" "vma_ok c root h"
    "s < 2 ^ 28" "e < 2 ^ 28"
  shows "snd (snd (vidmm_vm_alloc_pd c env root s e h)) = Done S_OK"
proof -
  have "snd (snd (alloc_pd c env 1 root s e h)) = Done S_OK"
    by (rule alloc_pd_succeeds [where level = 0])
       (use assms in \<open>simp_all add: vma_ok_def e3k_two del: pt_shape.simps\<close>)
  then show ?thesis by (simp add: vidmm_vm_alloc_pd_def assms(1))
qed

text \<open>
  C23. With memory to spare, creating the page directories of a range succeeds for every range inside
  the 40 bit address space, whatever was mapped before, and is refused with the right error for a
  range that leaves it.
\<close>

theorem vidmm_vm_alloc_pd_succeeds:
  assumes c: "c = vidmm_query_chip_vm_info_e3k c0" and "env_fresh env" "env_perfect c env"
    and ok: "vma_ok c root h"
  shows "snd (snd (vidmm_vm_alloc_pd c env root s e h)) =
     (if s < 2 ^ 28 \<and> e < 2 ^ 28 then Done S_OK else Done E_INVALIDARG)"
proof (cases "s < 2 ^ 28 \<and> e < 2 ^ 28")
  case True
  then show ?thesis using e3k_alloc_in_range [OF assms] by simp
next
  case False
  then have "256 \<le> s div 2 ^ 20 \<or> 256 \<le> e div 2 ^ 20" by auto
  moreover have "\<forall>t. entries_works env t" using assms(3) by (simp add: env_perfect_def)
  ultimately show ?thesis using False
    by (auto simp: vidmm_vm_alloc_pd_def c alloc_dir_def Let_def vidmmi_vm_pt_num_entries_def
          split: option.splits)
qed

theorem vidmm_vm_alloc_pd_succeeds_witness:
  "snd (snd (vidmm_vm_alloc_pd ample_chip ample_env ample_root 5 3000 ample_heap)) = Done S_OK"
  using vidmm_vm_alloc_pd_succeeds [OF ample_chip_e3k ample_env_ok ample_vma_ok, of 5 3000] by simp

lemma ample_alloc:
  obtains root' h' where
    "vidmm_vm_alloc_pd ample_chip ample_env ample_root 5 3000 ample_heap = (root', h', Done S_OK)"
  using e3k_alloc_in_range [OF ample_chip_e3k ample_env_ok ample_vma_ok, of 5 3000] that
  by (cases "vidmm_vm_alloc_pd ample_chip ample_env ample_root 5 3000 ample_heap") auto


text \<open>
  C24. When a buffer has been created and cannot be used, because it cannot be mapped or there is no
  memory for its bitmap, it is destroyed but the entry keeps pointing to it. The next attempt takes
  the entry for one that has its table, succeeds, and hands out a table whose memory is gone.
\<close>

theorem alloc_entry_dangling:
  assumes "pt_buffer pt = 0" "pt_bitmap pt = None" "env_fresh env" "create_table c env h \<noteq> 0"
    and "\<not> map_works env (heap_tick h) \<or> \<not> bitmap_works env (heap_tick h)"
    and "distinct (tables_live h)"
  shows "\<exists>pt' h' r. alloc_entry c env level pt h = (pt', h', r) \<and> r \<noteq> S_OK \<and>
     pt_buffer pt' \<noteq> 0 \<and> pt_buffer pt' \<notin> set (tables_live h') \<and>
     (\<forall>env' h''. alloc_entry c env' level pt' h'' = (pt', h'', S_OK))"
proof -
  have "create_table c env h \<notin> set (tables_live h)"
    using create_table_fresh [OF assms(3,4)] .
  moreover have "pt_buffer (set_buffer b (set_age g pt)) = b" "pt_bitmap (set_buffer b (set_age g pt)) = None"
    for b g using assms(2) by (cases pt; simp)+
  ultimately show ?thesis using assms
    by (auto simp: alloc_entry_def Let_def tick_def vidmm_destroy_table_def zero_table_def)
qed

theorem alloc_entry_dangling_witness:
  "\<exists>pt' h' r. alloc_entry ample_chip (ample_env \<lparr> map_works := \<lambda>_. False \<rparr>) 1 calloc_pt ample_heap =
       (pt', h', r) \<and> r \<noteq> S_OK \<and> pt_buffer pt' \<notin> set (tables_live h')"
proof -
  let ?env = "ample_env \<lparr> map_works := \<lambda>_. False \<rparr>"
  have "env_fresh ?env" using ample_env_ok(1) by (simp add: env_fresh_def)
  moreover have "create_table ample_chip ?env ample_heap \<noteq> 0"
    by (simp add: create_table_def ample_chip_def ample_env_def ample_heap_def
          vidmm_query_chip_vm_info_e3k_def)
  ultimately show ?thesis
    using alloc_entry_dangling [of calloc_pt ?env ample_chip ample_heap 1]
    by (fastforce simp: calloc_pt_def ample_heap_def)
qed

end
