(* ===== verification/Page_Map.thy ===== *)
theory Page_Map
  imports Page_Table
begin

text \<open>
  The page tables of a GPU address space, second part: mapping a range
  (\<^verbatim>\<open>vidmm_vm_update_mapping\<close> of \<^verbatim>\<open>core/vidmm/vidmm_vm.c\<close>). The directories are created, the engine is
  told about those it does not know, and the entries of the pages are written. The writes go through
  the function pointer \<^verbatim>\<open>update_ptes\<close> of the chip; a call of it is a value of \<open>pte_update\<close>, and \<open>execute\<close>
  says what the engine's memory holds when the calls have been carried out in order.
\<close>

section \<open>Calls of the chip function\<close>

datatype pt_entity = Seg_Memory nat | Allocation nat

text \<open>\<^verbatim>\<open>vidmm_vm_update_ptes_arg_t\<close>; \<open>upd_dst\<close> is the buffer that is written to.\<close>

record pte_update =
  upd_level :: nat
  upd_dst :: nat
  upd_offset :: nat
  upd_npte :: nat
  upd_entity :: pt_entity
  upd_fill_va :: nat
  upd_start_va :: nat
  upd_entity_offset :: nat

text \<open>Entry \<open>i\<close> of a call: the table below, or the page of the allocation counted from its start.\<close>

definition update_cell :: "pte_update \<Rightarrow> nat \<Rightarrow> hw_pte" where
  "update_cell u i =
     (case upd_entity u of
        Seg_Memory b \<Rightarrow> Hw_Table b
      | Allocation a \<Rightarrow>
          Hw_Page a ((upd_fill_va u - upd_start_va u) div 4096 + upd_entity_offset u div 4096 + i))"

definition apply_update :: "pte_update \<Rightarrow> (nat \<Rightarrow> nat \<Rightarrow> hw_pte) \<Rightarrow> nat \<Rightarrow> nat \<Rightarrow> hw_pte" where
  "apply_update u mem =
     (\<lambda>b k. if b = upd_dst u \<and> upd_offset u \<le> k \<and> k < upd_offset u + upd_npte u
            then update_cell u (k - upd_offset u) else mem b k)"

definition execute :: "pte_update list \<Rightarrow> (nat \<Rightarrow> nat \<Rightarrow> hw_pte) \<Rightarrow> nat \<Rightarrow> nat \<Rightarrow> hw_pte" where
  "execute us mem = fold apply_update us mem"

section \<open>Telling the engine about the directories\<close>

definition bit_set :: "bool list option \<Rightarrow> nat \<Rightarrow> bool" where
  "bit_set bm i = (case bm of None \<Rightarrow> False | Some m \<Rightarrow> i < length m \<and> m ! i)"

definition pd_update :: "nat \<Rightarrow> nat \<Rightarrow> nat \<Rightarrow> nat \<Rightarrow> nat \<Rightarrow> pte_update" where
  "pd_update level va dst i b =
     \<lparr> upd_level = level, upd_dst = dst, upd_offset = i, upd_npte = 1, upd_entity = Seg_Memory b,
       upd_fill_va = 0, upd_start_va = va, upd_entity_offset = 0 \<rparr>"

text \<open>
  \<^verbatim>\<open>vidmmi_vm_update_level\<close>: the entries whose bit is set, in order; one without a buffer is skipped,
  one the engine knows already is only descended into. The address and the age of an entry are set
  before the code descends; nothing below reads them.
\<close>

function vidmmi_vm_update_level ::
    "vm_chip \<Rightarrow> nat \<Rightarrow> nat \<Rightarrow> vm_pt \<Rightarrow> vm_pt \<times> pte_update list" where
  "vidmmi_vm_update_level c level start_va (Vm_Pt b a bm None g) = (Vm_Pt b a bm None g, [])"
| "vidmmi_vm_update_level c level start_va (Vm_Pt b a bm (Some es) g) =
     (let res = map (\<lambda>(i, e).
            if bit_set bm i \<and> pt_buffer e \<noteq> 0 then
              let gpu_va = start_va + i * 2 ^ (vidmmi_vm_accum_pd_bits_count c level + 12);
                  (e', us) = vidmmi_vm_update_level c (level + 1) gpu_va e
              in if pt_addr e = pt_buffer e \<and> pt_age e \<ge> resume_age c then (e', us)
                 else (set_age (resume_age c) (set_addr (pt_buffer e) e'),
                       pd_update level gpu_va b i (pt_buffer e) # us)
            else (e, [])) (enumerate 0 es)
      in (Vm_Pt b a bm (Some (map fst res)) g, concat (map snd res)))"
  by pat_completeness auto
termination
proof (relation "measure (\<lambda>(c, level, va, pt). size pt)", goal_cases)
  case (2 c level start_va b a bm es g x i e gpu_va)
  then have "e \<in> set es" by (metis enumerate_eq_zip in_set_zipE)
  then have "size e \<le> size_list size es" by (intro size_list_estimation') auto
  then show ?case by simp
qed simp

definition vidmm_vm_update_pd :: "vm_chip \<Rightarrow> vm_pt \<Rightarrow> vm_pt \<times> pte_update list" where
  "vidmm_vm_update_pd c root = vidmmi_vm_update_level c 0 0 root"

section \<open>Writing the entries of a range\<close>

text \<open>A change of the table at a position.\<close>

fun map_at :: "nat list \<Rightarrow> (vm_pt \<Rightarrow> vm_pt) \<Rightarrow> vm_pt \<Rightarrow> vm_pt" where
  "map_at [] f pt = f pt"
| "map_at (i # is) f (Vm_Pt b a bm None g) = Vm_Pt b a bm None g"
| "map_at (i # is) f (Vm_Pt b a bm (Some es) g) = Vm_Pt b a bm (Some (es[i := map_at is f (es ! i)])) g"

text \<open>
  How many entries of a table of \<open>2 ^ k\<close> entries the pages from \<open>s\<close> take: up to \<open>e\<close>, or up to the end of
  the table. The code compares what is left of both addresses when the mask of the table, a 32 bit
  number, is cleared.
\<close>

definition pt_chunk32 :: "nat \<Rightarrow> nat \<Rightarrow> nat \<Rightarrow> nat" where
  "pt_chunk32 k s e =
     (if s mod 2 ^ 32 div 2 ^ k = e mod 2 ^ 32 div 2 ^ k then e - s + 1 else 2 ^ k - s mod 2 ^ k)"

text \<open>The same with a 64 bit mask.\<close>

definition pt_chunk64 :: "nat \<Rightarrow> nat \<Rightarrow> nat \<Rightarrow> nat" where
  "pt_chunk64 k s e = (if s div 2 ^ k = e div 2 ^ k then e - s + 1 else 2 ^ k - s mod 2 ^ k)"

lemma pt_chunk32_positive: "0 < pt_chunk32 k s e"
  by (simp add: pt_chunk32_def)

text \<open>The loop of \<^verbatim>\<open>vidmm_vm_update_ptes\<close>; the addresses are in bytes.\<close>

function update_ptes_loop ::
    "vm_chip \<Rightarrow> nat \<Rightarrow> nat \<Rightarrow> nat \<Rightarrow> nat \<Rightarrow> nat \<Rightarrow> vm_pt \<Rightarrow> pte_update list \<Rightarrow>
     vm_pt \<times> pte_update list \<times> status" where
  "update_ptes_loop c alloc entity_offset vm_va start_addr end_addr root us =
     (if start_addr < end_addr then
        let s = start_addr div 4096;
            e = end_addr div 4096;
            level = pt_levels_num c - 1;
            k = vidmmi_vm_pt_bits_count c level
        in case vidmmi_vm_get_pt_entry c root s of
             None \<Rightarrow> (root, us, E_FAIL)
           | Some (path, pt) \<Rightarrow>
               if pt_buffer pt = 0 then (root, us, E_FAIL)
               else
                 let off = s mod 2 ^ k;
                     n = pt_chunk64 k s e;
                     u = \<lparr> upd_level = level, upd_dst = pt_buffer pt, upd_offset = off, upd_npte = n,
                           upd_entity = Allocation alloc, upd_fill_va = s * 4096,
                           upd_start_va = vm_va, upd_entity_offset = entity_offset \<rparr>
                 in update_ptes_loop c alloc entity_offset vm_va ((s + pt_chunk32 k s e) * 4096) end_addr
                      (map_at path (\<lambda>pt. vidmmi_vm_pt_update_bitmap pt off (off + n - 1) True) root)
                      (us @ [u])
      else (root, us, S_OK))"
  by pat_completeness auto
termination
proof (relation "measure (\<lambda>(c, alloc, eo, va, s, e, root, us). e - s)", goal_cases)
  case (2 c alloc entity_offset vm_va start_addr end_addr root us s e level k path pt off n u)
  have "start_addr < (s + pt_chunk32 k s e) * 4096"
    using pt_chunk32_positive [of k s e] 2(2) by (simp add: div_mult_mod_eq [symmetric])
  then show ?case using 2(1) by simp
qed simp

definition vidmm_vm_update_ptes ::
    "vm_chip \<Rightarrow> nat \<Rightarrow> nat \<Rightarrow> nat \<Rightarrow> nat \<Rightarrow> vm_pt \<Rightarrow> vm_pt \<times> pte_update list \<times> status" where
  "vidmm_vm_update_ptes c alloc entity_offset start_addr end_addr root =
     update_ptes_loop c alloc entity_offset start_addr start_addr end_addr root []"

section \<open>Mapping a node\<close>

text \<open>
  \<^verbatim>\<open>vidmm_vm_update_mapping\<close> for a node of the addresses \<open>[offset, offset + len)\<close>: the tree, the heap,
  the calls, how the age of the root directory changes, and the status.
\<close>

definition vidmm_vm_update_mapping ::
    "vm_chip \<Rightarrow> pt_env \<Rightarrow> nat \<Rightarrow> nat \<Rightarrow> nat \<Rightarrow> nat \<Rightarrow> vm_pt \<Rightarrow> pt_heap \<Rightarrow> int \<Rightarrow>
     vm_pt \<times> pt_heap \<times> pte_update list \<times> int \<times> status outcome" where
  "vidmm_vm_update_mapping c env alloc entity_offset offset len root h root_pd_age =
     (let start_addr = offset; end_addr = offset + len - 1
      in if is_cne001 c
         then case vidmm_vm_update_ptes c alloc entity_offset start_addr end_addr root of
                (root', us, r) \<Rightarrow> (root', h, us, root_pd_age, Done r)
         else case vidmm_vm_alloc_pd c env root (start_addr div 4096) (end_addr div 4096) h of
             (root1, h1, r1) \<Rightarrow>
               if r1 \<noteq> Done S_OK then (root1, h1, [], root_pd_age, r1)
               else case vidmm_vm_update_pd c root1 of
                   (root2, us2) \<Rightarrow>
                     let root_pd_dirty = (\<exists>u \<in> set us2. upd_level u = 0);
                         age = (if root_pd_dirty then root_pd_age + 1 else root_pd_age)
                     in case vidmm_vm_update_ptes c alloc entity_offset start_addr end_addr root2 of
                          (root3, us3, r3) \<Rightarrow> (root3, h1, us2 @ us3, age, Done r3))"

section \<open>What telling the engine does\<close>

lemma pt_view_empty: "pt_shape c n l pt \<Longrightarrow> pt_buffer pt = 0 \<Longrightarrow> pt_view n pt p = None"
  by (subst pt_shape_empty) (assumption, assumption, simp add: pt_view_fresh)

lemma pt_view_child:
  "pt_entries pt = Some es \<Longrightarrow> i < length es \<Longrightarrow> pt_view (Suc n) pt (i # q) = pt_view n (es ! i) q"
  by (simp add: pt_view_Cons es_view_def)

lemma pt_view_no_child: "pt_entries pt = None \<Longrightarrow> pt_view n pt (i # q) = None"
  by (simp add: pt_view_def)

text \<open>What an entry looks like once the engine knows it, and the calls that tell the engine.\<close>

definition told :: "vm_chip \<Rightarrow> nat \<times> nat \<times> nat \<times> bool list option \<Rightarrow> nat \<times> nat \<times> nat \<times> bool list option" where
  "told c v = (case v of (b, a, g, m) \<Rightarrow>
     if a = b \<and> resume_age c \<le> g then (b, a, g, m) else (b, b, resume_age c, m))"

definition pd_call :: "vm_chip \<Rightarrow> nat \<Rightarrow> nat \<Rightarrow> vm_pt \<Rightarrow> pte_update \<Rightarrow> bool" where
  "pd_call c n l pt u \<longleftrightarrow>
     (\<exists>p i b v b' a g m. pt_view n pt p = Some (b, v) \<and> pt_view n pt (p @ [i]) = Some (b', a, g, m) \<and>
        \<not> (a = b' \<and> resume_age c \<le> g) \<and>
        upd_dst u = b \<and> upd_offset u = i \<and> upd_npte u = 1 \<and> upd_entity u = Seg_Memory b' \<and>
        upd_level u = l + length p)"

definition update_level_spec :: "vm_chip \<Rightarrow> nat \<Rightarrow> nat \<Rightarrow> vm_pt \<Rightarrow> vm_pt \<times> pte_update list \<Rightarrow> bool" where
  "update_level_spec c n l pt res \<longleftrightarrow>
     (case res of (pt', us) \<Rightarrow>
        pt_shape c n l pt' \<and> pt_buffer pt' = pt_buffer pt \<and> pt_addr pt' = pt_addr pt \<and>
        pt_age pt' = pt_age pt \<and> pt_bitmap pt' = pt_bitmap pt \<and>
        (\<forall>p. p \<noteq> [] \<longrightarrow> pt_view n pt' p = map_option (told c) (pt_view n pt p)) \<and>
        (\<forall>u \<in> set us. pd_call c n l pt u) \<and>
        (\<forall>p i b v b' a g m. pt_view n pt p = Some (b, v) \<and> pt_view n pt (p @ [i]) = Some (b', a, g, m) \<and>
           \<not> (a = b' \<and> resume_age c \<le> g) \<longrightarrow>
           (\<exists>u \<in> set us. upd_dst u = b \<and> upd_offset u = i)))"

lemma set_age_addr:
  "pt_buffer (set_age g (set_addr a pt)) = pt_buffer pt"
  "pt_addr (set_age g (set_addr a pt)) = a" "pt_age (set_age g (set_addr a pt)) = g"
  "pt_bitmap (set_age g (set_addr a pt)) = pt_bitmap pt"
  "pt_entries (set_age g (set_addr a pt)) = pt_entries pt"
  by (cases pt; simp)+

lemma pt_shape_set_age_addr:
  "pt_shape c n l pt \<Longrightarrow> pt_buffer pt \<noteq> 0 \<Longrightarrow> pt_shape c n l (set_age g (set_addr a pt))"
  by (cases n) (auto simp: set_age_addr)

lemma pt_view_set_age_addr:
  "p \<noteq> [] \<Longrightarrow> pt_view n (set_age g (set_addr a pt)) p = pt_view n pt p"
  by (cases p) (auto simp: pt_view_def set_age_addr)

lemma update_level_ok:
  "pt_shape c n l pt \<Longrightarrow> update_level_spec c n l pt (vidmmi_vm_update_level c l va pt)"
proof (induction n arbitrary: l va pt)
  case 0
  then obtain b a bm g where pt: "pt = Vm_Pt b a bm None g" by (cases pt) auto
  show ?case
    using 0 by (auto simp: update_level_spec_def pt pt_view_fresh)
next
  case (Suc n)
  obtain b a bmo eso g where pt: "pt = Vm_Pt b a bmo eso g" by (cases pt)
  show ?case
  proof (cases eso)
    case None
    then show ?thesis
      using Suc.prems by (auto simp: update_level_spec_def pt pt_view_fresh)
  next
    case (Some es)
    have b: "b \<noteq> 0" and sh: "\<And>i. i < length es \<Longrightarrow> pt_shape c n (l + 1) (es ! i)"
      and len: "length es = vidmmi_vm_pt_num_entries c l"
      and bit: "\<And>i. i < length es \<Longrightarrow> pt_buffer (es ! i) \<noteq> 0 \<Longrightarrow> bit_set bmo i"
      using Suc.prems by (auto simp: pt Some bit_set_def split: if_splits)
    define gva where "gva i = va + i * 2 ^ (vidmmi_vm_accum_pd_bits_count c l + 12)" for i
    define sub where "sub i = vidmmi_vm_update_level c (l + 1) (gva i) (es ! i)" for i
    define known where "known i \<longleftrightarrow> pt_addr (es ! i) = pt_buffer (es ! i) \<and> resume_age c \<le> pt_age (es ! i)" for i
    define res where "res i =
      (if pt_buffer (es ! i) \<noteq> 0 then
         (if known i then sub i
          else (set_age (resume_age c) (set_addr (pt_buffer (es ! i)) (fst (sub i))),
                pd_update l (gva i) b i (pt_buffer (es ! i)) # snd (sub i)))
       else (es ! i, []))" for i
    have run: "vidmmi_vm_update_level c l va pt =
        (Vm_Pt b a bmo (Some (map (fst \<circ> res) [0..<length es])) g, concat (map (snd \<circ> res) [0..<length es]))"
    proof -
      have "enumerate 0 es = map (\<lambda>i. (i, es ! i)) [0..<length es]"
        by (rule nth_equalityI) (simp_all add: nth_enumerate_eq)
      then show ?thesis
        unfolding pt Some
        by (auto simp: Let_def res_def sub_def gva_def known_def bit case_prod_beta o_def
              intro!: arg_cong [where f = concat] map_cong)
    qed
    have spec: "update_level_spec c n (l + 1) (es ! i) (sub i)" if "i < length es" for i
      unfolding sub_def by (rule Suc.IH [OF sh [OF that]])
    have sub: "pt_shape c n (l + 1) (fst (sub i))" "pt_buffer (fst (sub i)) = pt_buffer (es ! i)"
      "pt_addr (fst (sub i)) = pt_addr (es ! i)" "pt_age (fst (sub i)) = pt_age (es ! i)"
      "pt_bitmap (fst (sub i)) = pt_bitmap (es ! i)"
      "\<And>p. p \<noteq> [] \<Longrightarrow> pt_view n (fst (sub i)) p = map_option (told c) (pt_view n (es ! i) p)"
      "\<And>u. u \<in> set (snd (sub i)) \<Longrightarrow> pd_call c n (l + 1) (es ! i) u"
      "\<And>p j b v b' a g m. pt_view n (es ! i) p = Some (b, v) \<Longrightarrow>
         pt_view n (es ! i) (p @ [j]) = Some (b', a, g, m) \<Longrightarrow> \<not> (a = b' \<and> resume_age c \<le> g) \<Longrightarrow>
         \<exists>u \<in> set (snd (sub i)). upd_dst u = b \<and> upd_offset u = j"
      if "i < length es" for i
      using spec [OF that] unfolding update_level_spec_def case_prod_beta by blast+
    have res: "pt_shape c n (l + 1) (fst (res i))" "pt_buffer (fst (res i)) = pt_buffer (es ! i)"
      if "i < length es" for i
      using sub [OF that] sh [OF that] by (auto simp: res_def set_age_addr pt_shape_set_age_addr)
    have view: "pt_view n (fst (res i)) q = map_option (told c) (pt_view n (es ! i) q)" if i: "i < length es" for i q
    proof (cases "pt_buffer (es ! i) = 0")
      case True
      then show ?thesis using pt_view_empty [OF sh [OF i] True] by (simp add: res_def)
    next
      case False
      then show ?thesis
        using sub(2-6) [OF i]
        by (cases "q = []") (auto simp: res_def pt_view_set_age_addr pt_view_Nil set_age_addr told_def known_def)
    qed
    let ?pt' = "Vm_Pt b a bmo (Some (map (fst \<circ> res) [0..<length es])) g"
    let ?us = "concat (map (snd \<circ> res) [0..<length es])"
    have child: "pt_view (Suc n) pt (i # q) = (if i < length es then pt_view n (es ! i) q else None)" for i q
      by (simp add: pt Some pt_view_Cons es_view_def)
    have root: "pt_view (Suc n) pt [] = Some (b, a, g, None)" using b by (simp add: pt pt_view_Nil)
    have own: "pt_view n (es ! i) [] = Some (pt_buffer (es ! i), pt_addr (es ! i), pt_age (es ! i),
        if n = 0 then pt_bitmap (es ! i) else None)" if "pt_buffer (es ! i) \<noteq> 0" for i
      using that by (simp add: pt_view_Nil)
    have 1: "pt_shape c (Suc n) l ?pt'"
      using Suc.prems len res by (auto simp: pt Some split: if_splits)
    have child': "pt_view (Suc n) ?pt' (i # q) = (if i < length es then pt_view n (fst (res i)) q else None)" for i q
      by (simp add: pt_view_Cons es_view_def)
    have 2: "pt_view (Suc n) ?pt' p = map_option (told c) (pt_view (Suc n) pt p)" if "p \<noteq> []" for p
      using that view by (cases p) (auto simp: child child')
    have 3: "pd_call c (Suc n) l pt u" if mem: "u \<in> set ?us" for u
    proof -
      obtain i where i: "i < length es" and u: "u \<in> set (snd (res i))" using mem by auto
      have nb: "pt_buffer (es ! i) \<noteq> 0" using u by (auto simp: res_def split: if_splits)
      from u consider "u \<in> set (snd (sub i))" | "\<not> known i" "u = pd_update l (gva i) b i (pt_buffer (es ! i))"
        using nb by (auto simp: res_def split: if_splits)
      then show ?thesis
      proof cases
        case 1
        from sub(7) [OF i 1] obtain p j b1 v b' a' g' m where
          "pt_view n (es ! i) p = Some (b1, v)" "pt_view n (es ! i) (p @ [j]) = Some (b', a', g', m)"
          "\<not> (a' = b' \<and> resume_age c \<le> g')" "upd_dst u = b1" "upd_offset u = j" "upd_npte u = 1"
          "upd_entity u = Seg_Memory b'" "upd_level u = l + 1 + length p"
          unfolding pd_call_def by blast
        then show ?thesis
          unfolding pd_call_def
          by (intro exI [of _ "i # p"] exI [of _ j] exI [of _ b1] exI [of _ v] exI [of _ b'] exI [of _ a']
                exI [of _ g'] exI [of _ m]) (simp add: child i)
      next
        case 2
        then show ?thesis
          unfolding pd_call_def
          by (intro exI [of _ "[]"] exI [of _ i] exI [of _ b] exI [of _ "(a, g, None)"]
                exI [of _ "pt_buffer (es ! i)"] exI [of _ "pt_addr (es ! i)"] exI [of _ "pt_age (es ! i)"]
                exI [of _ "if n = 0 then pt_bitmap (es ! i) else None"])
             (simp add: child i root own nb pd_update_def known_def)
      qed
    qed
    have 4: "\<exists>u \<in> set ?us. upd_dst u = b1 \<and> upd_offset u = j"
      if p: "pt_view (Suc n) pt p = Some (b1, v)" and q: "pt_view (Suc n) pt (p @ [j]) = Some (b', a', g', m)"
        and nk: "\<not> (a' = b' \<and> resume_age c \<le> g')" for p j b1 v b' a' g' m
    proof (cases p)
      case Nil
      have j: "j < length es" using q Nil child by (auto split: if_splits)
      have nb: "pt_buffer (es ! j) \<noteq> 0" using q Nil child j by (auto simp: pt_view_Nil split: if_splits)
      then have "(b', a', g', m) = (pt_buffer (es ! j), pt_addr (es ! j), pt_age (es ! j),
          if n = 0 then pt_bitmap (es ! j) else None)" using q Nil child j own by simp
      then have "pd_update l (gva j) b j b' \<in> set (snd (res j))"
        using nb nk by (auto simp: res_def known_def)
      then show ?thesis using j p Nil root by (force simp: pd_update_def)
    next
      case (Cons i p')
      have i: "i < length es" using p Cons child by (auto split: if_splits)
      have nb: "pt_buffer (es ! i) \<noteq> 0"
        using p Cons child i pt_view_empty [OF sh [OF i]] by fastforce
      have "\<exists>u \<in> set (snd (sub i)). upd_dst u = b1 \<and> upd_offset u = j"
        by (rule sub(8) [OF i _ _ nk, where p = p']) (use p q Cons child i in auto)
      then obtain u where u: "u \<in> set (snd (sub i))" "upd_dst u = b1" "upd_offset u = j" by blast
      have "u \<in> set (snd (res i))" using u nb by (simp add: res_def)
      then show ?thesis using i u by force
    qed
    show ?thesis
      unfolding run update_level_spec_def prod.case using 1 2 3 4 unfolding pt vm_pt.sel by blast
  qed
qed

section \<open>Carrying out the calls\<close>

lemma execute_Nil [simp]: "execute [] mem = mem"
  by (simp add: execute_def)

lemma execute_append: "execute (us @ vs) mem = execute vs (execute us mem)"
  by (simp add: execute_def)

lemma execute_other:
  "(\<And>u. u \<in> set us \<Longrightarrow> \<not> (upd_dst u = b \<and> upd_offset u \<le> k \<and> k < upd_offset u + upd_npte u)) \<Longrightarrow>
   execute us mem b k = mem b k"
proof (induction us rule: rev_induct)
  case (snoc u us)
  have "execute [u] m b k = m b k" for m
    using snoc.prems [of u] by (auto simp: execute_def apply_update_def)
  then show ?case using snoc by (simp add: execute_append)
qed simp

text \<open>Calls for single entries that agree on what they write where can be carried out in any order.\<close>

lemma execute_single:
  assumes "\<And>u. u \<in> set us \<Longrightarrow> upd_npte u = 1"
    and "\<And>u. u \<in> set us \<Longrightarrow> upd_dst u = b \<Longrightarrow> upd_offset u = k \<Longrightarrow> upd_entity u = Seg_Memory x"
    and "\<exists>u \<in> set us. upd_dst u = b \<and> upd_offset u = k"
  shows "execute us mem b k = Hw_Table x"
  using assms
proof (induction us rule: rev_induct)
  case (snoc u us)
  show ?case
  proof (cases "upd_dst u = b \<and> upd_offset u = k")
    case True
    then have "upd_entity u = Seg_Memory x" "upd_npte u = 1" using snoc.prems by simp_all
    then show ?thesis using True
      by (simp add: execute_append execute_def apply_update_def update_cell_def)
  next
    case False
    then have ex: "\<exists>u \<in> set us. upd_dst u = b \<and> upd_offset u = k" using snoc.prems(3) by auto
    have "upd_npte u = 1" using snoc.prems(1) by simp
    then have "execute [u] m b k = m b k" for m using False
      by (auto simp: execute_def apply_update_def)
    then show ?thesis using snoc.IH [OF _ _ ex] snoc.prems by (simp add: execute_append)
  qed
qed simp

text \<open>
  The engine knows the tree: whatever entry the driver takes for known is in the engine's memory.
\<close>

definition pd_known :: "vm_chip \<Rightarrow> nat \<Rightarrow> vm_pt \<Rightarrow> (nat \<Rightarrow> nat \<Rightarrow> hw_pte) \<Rightarrow> bool" where
  "pd_known c n pt mem \<longleftrightarrow>
     (\<forall>p i b v b' g m. pt_view n pt p = Some (b, v) \<and> pt_view n pt (p @ [i]) = Some (b', b', g, m) \<and>
        resume_age c \<le> g \<longrightarrow> mem b i = Hw_Table b')"

lemma pt_shape_parent:
  "pt_shape c n l pt \<Longrightarrow> pt_view n pt (p @ [i]) \<noteq> None \<Longrightarrow> pt_view n pt p \<noteq> None"
proof (induction p arbitrary: n l pt)
  case Nil
  then show ?case
    by (cases n; cases "pt_buffer pt = 0") (auto simp: pt_view_Nil pt_view_def split: option.splits)
next
  case (Cons j p)
  show ?case
  proof (cases n)
    case 0
    then show ?thesis using Cons.prems by (simp add: pt_view_def)
  next
    case (Suc m)
    have nb: "pt_buffer pt \<noteq> 0"
    proof
      assume "pt_buffer pt = 0"
      then have "pt_view n pt ((j # p) @ [i]) = None" by (rule pt_view_empty [OF Cons.prems(1)])
      then show False using Cons.prems(2) by simp
    qed
    obtain es where es: "pt_entries pt = Some es"
      using Cons.prems(2) by (cases "pt_entries pt") (auto simp: pt_view_def)
    have j: "j < length es" using Cons.prems(2) by (auto simp: pt_view_def es split: if_splits)
    have "pt_shape c m (l + 1) (es ! j)"
      using Cons.prems(1) nb es j unfolding Suc by auto
    then show ?thesis
      using Cons.IH [of m "l + 1" "es ! j"] Cons.prems(2) pt_view_child [OF es j] by (simp add: Suc)
  qed
qed

lemma pd_known_grows:
  assumes known: "pd_known c n pt (tables_mem h)" and shape: "pt_shape c n l pt" and own: "pt_owned n pt h"
    and g: "grows env (pt_view n pt) h (pt_view n pt') h'"
  shows "pd_known c n pt' (tables_mem h')"
  unfolding pd_known_def
proof (intro allI impI)
  fix p i b v b' ag m
  assume a: "pt_view n pt' p = Some (b, v) \<and> pt_view n pt' (p @ [i]) = Some (b', b', ag, m) \<and> resume_age c \<le> ag"
  have old: "pt_view n pt (p @ [i]) = Some (b', b', ag, m)"
  proof (cases "pt_view n pt (p @ [i])")
    case None
    then show ?thesis using grows_new [OF g None, of b' b' ag m] a by auto
  next
    case (Some w)
    then show ?thesis using grows_keep [OF g Some] a by simp
  qed
  then obtain b0 v0 where p: "pt_view n pt p = Some (b0, v0)"
    using pt_shape_parent [OF shape, of p i] by auto
  then have "b0 = b" using grows_keep [OF g p] a by simp
  then have "tables_mem h b i = Hw_Table b'" using known old p a unfolding pd_known_def by blast
  moreover have "tables_mem h' b = tables_mem h b"
    using grows_mem [OF g] pt_owned_live [OF own] p \<open>b0 = b\<close> by blast
  ultimately show "tables_mem h' b i = Hw_Table b'" by simp
qed

lemma told_buffer: "told c (b, v) = (b', a, g, m) \<Longrightarrow> b' = b \<and> a = b \<and> resume_age c \<le> g"
  by (cases v) (auto simp: told_def split: if_splits)

lemma told_Some: "told c (b, a, g, m) = (b, b, if a = b \<and> resume_age c \<le> g then g else resume_age c, m)"
  by (simp add: told_def)

text \<open>
  After the calls every directory entry of the tree is in the engine's memory, and no other entry
  has changed.
\<close>

lemma update_level_execute:
  assumes shape: "pt_shape c n l pt" and own: "pt_owned n pt h" and known: "pd_known c n pt mem"
    and run: "vidmmi_vm_update_level c l va pt = (pt', us)"
  shows "pt_view n pt p = Some (b, v) \<Longrightarrow> pt_view n pt (p @ [i]) = Some (b', a, g, m) \<Longrightarrow>
      execute us mem b i = Hw_Table b'"
    and "(\<And>p v w. pt_view n pt p = Some (b, v) \<Longrightarrow> pt_view n pt (p @ [k]) \<noteq> Some w) \<Longrightarrow>
      execute us mem b k = mem b k"
proof -
  have spec: "\<And>u. u \<in> set us \<Longrightarrow> pd_call c n l pt u"
    "\<And>p i b v b' a g m. pt_view n pt p = Some (b, v) \<Longrightarrow> pt_view n pt (p @ [i]) = Some (b', a, g, m) \<Longrightarrow>
       \<not> (a = b' \<and> resume_age c \<le> g) \<Longrightarrow> \<exists>u \<in> set us. upd_dst u = b \<and> upd_offset u = i"
    using update_level_ok [OF shape, of va] unfolding run update_level_spec_def prod.case by blast+
  have one: "upd_npte u = 1" if "u \<in> set us" for u using spec(1) [OF that] by (auto simp: pd_call_def)
  have ent: "upd_entity u = Seg_Memory b'"
    if u: "u \<in> set us" "upd_dst u = b" "upd_offset u = i" and p: "pt_view n pt p = Some (b, v)"
      and q: "pt_view n pt (p @ [i]) = Some (b', a, g, m)" for u b i b' a g m p v
  proof -
    obtain p' x y z where 1: "pt_view n pt p' = Some (b, x)" "pt_view n pt (p' @ [i]) = Some (y, z)"
      "upd_entity u = Seg_Memory y"
      using spec(1) [OF u(1)] u(2,3) unfolding pd_call_def by blast
    have "p' = p" by (rule pt_owned_inj [OF own 1(1) p])
    then show ?thesis using 1 q by simp
  qed
  show "execute us mem b i = Hw_Table b'"
    if p: "pt_view n pt p = Some (b, v)" and q: "pt_view n pt (p @ [i]) = Some (b', a, g, m)"
  proof (cases "\<exists>u \<in> set us. upd_dst u = b \<and> upd_offset u = i")
    case True
    show ?thesis by (rule execute_single [OF one ent [OF _ _ _ p q] True])
  next
    case False
    then have "a = b' \<and> resume_age c \<le> g" using spec(2) [OF p q] by blast
    then have "mem b i = Hw_Table b'" using known p q unfolding pd_known_def by blast
    moreover have "execute us mem b i = mem b i"
      by (rule execute_other) (use False one in force)
    ultimately show ?thesis by simp
  qed
  show "execute us mem b k = mem b k"
    if none: "\<And>p v w. pt_view n pt p = Some (b, v) \<Longrightarrow> pt_view n pt (p @ [k]) \<noteq> Some w"
  proof (rule execute_other)
    fix u assume u: "u \<in> set us"
    obtain p i b0 v w where 1: "pt_view n pt p = Some (b0, v)" "pt_view n pt (p @ [i]) = Some w"
      "upd_dst u = b0" "upd_offset u = i"
      using spec(1) [OF u] unfolding pd_call_def by blast
    have "\<not> (b0 = b \<and> i = k)" using none [of p v w] 1 by auto
    then show "\<not> (upd_dst u = b \<and> upd_offset u \<le> k \<and> k < upd_offset u + upd_npte u)"
      using 1 one [OF u] by auto
  qed
qed

section \<open>Changing the bitmap of one table\<close>

lemma pt_shape_entries: "pt_shape c n l pt \<Longrightarrow> pt_entries pt = Some es \<Longrightarrow> pt_buffer pt \<noteq> 0"
  by (cases n) (auto split: if_splits)

lemma pt_at_leaf:
  "pt_shape c n l root \<Longrightarrow> pt_at root p = Some e \<Longrightarrow> length p = n \<Longrightarrow> pt_shape c 0 (l + n) e"
proof (induction n arbitrary: l root p)
  case (Suc n)
  obtain i q where p: "p = i # q" using Suc.prems(3) by (cases p) auto
  obtain es where es: "pt_entries root = Some es" "i < length es" "pt_at (es ! i) q = Some e"
    using Suc.prems(2) by (auto simp: p split: option.splits if_splits)
  have "pt_buffer root \<noteq> 0" by (rule pt_shape_entries [OF Suc.prems(1) es(1)])
  then have "pt_shape c n (l + 1) (es ! i)" using pt_shape_child [OF Suc.prems(1) _ es(1,2)] by blast
  from Suc.IH [OF this es(3)] show ?case using Suc.prems(3) p by simp
qed (simp del: pt_shape.simps)

lemma map_at_at:
  assumes "pt_shape c n l root" "pt_at root path = Some e" "length path = n"
    and "pt_entries (f e) = None"
  shows "pt_at (map_at path f root) q = (if q = path then Some (f e) else pt_at root q) \<or>
     pt_at root q \<noteq> None \<and> length q < n \<and>
     (\<exists>x. pt_at (map_at path f root) q = Some x \<and> pt_buffer x = pt_buffer (the (pt_at root q)) \<and>
          pt_addr x = pt_addr (the (pt_at root q)) \<and> pt_age x = pt_age (the (pt_at root q)) \<and>
          pt_bitmap x = pt_bitmap (the (pt_at root q)))"
  using assms(1-3)
proof (induction n arbitrary: l root path q)
  case 0
  then show ?case using assms(4) by (cases q) auto
next
  case (Suc n)
  obtain i p where path: "path = i # p" using Suc.prems(3) by (cases path) auto
  obtain es where es: "pt_entries root = Some es" "i < length es" "pt_at (es ! i) p = Some e"
    using Suc.prems(2) by (auto simp: path split: option.splits if_splits)
  obtain b a bm g where root: "root = Vm_Pt b a bm (Some es) g" using es(1) by (cases root) auto
  have "pt_buffer root \<noteq> 0" by (rule pt_shape_entries [OF Suc.prems(1) es(1)])
  then have sh: "pt_shape c n (l + 1) (es ! i)" using pt_shape_child [OF Suc.prems(1) _ es(1,2)] by blast
  show ?case
  proof (cases q)
    case Nil
    then show ?thesis by (simp add: path root)
  next
    case (Cons j q')
    show ?thesis
    proof (cases "j = i")
      case True
      then show ?thesis
        using Suc.IH [OF sh es(3), of q'] Suc.prems(3) es(2) by (auto simp: path root Cons)
    next
      case False
      then show ?thesis by (simp add: path root Cons)
    qed
  qed
qed

lemma map_at_shape:
  assumes "pt_shape c n l root" "pt_at root path = Some e" "length path = n"
    and "pt_shape c 0 (l + n) (f e)" "pt_buffer (f e) = pt_buffer e"
  shows "pt_shape c n l (map_at path f root) \<and> pt_buffer (map_at path f root) = pt_buffer root"
  using assms(1-4)
proof (induction n arbitrary: l root path)
  case 0
  then show ?case using assms(5) by auto
next
  case (Suc n)
  obtain i p where path: "path = i # p" using Suc.prems(3) by (cases path) auto
  obtain es where es: "pt_entries root = Some es" "i < length es" "pt_at (es ! i) p = Some e"
    using Suc.prems(2) by (auto simp: path split: option.splits if_splits)
  obtain b a bm g where root: "root = Vm_Pt b a bm (Some es) g" using es(1) by (cases root) auto
  have nb: "pt_buffer root \<noteq> 0" by (rule pt_shape_entries [OF Suc.prems(1) es(1)])
  then have sh: "pt_shape c n (l + 1) (es ! i)" using pt_shape_child [OF Suc.prems(1) _ es(1,2)] by blast
  have sub: "pt_shape c n (l + 1) (map_at p f (es ! i)) \<and> pt_buffer (map_at p f (es ! i)) = pt_buffer (es ! i)"
    using Suc.IH [OF sh es(3)] Suc.prems(3,4) path by simp
  then have "\<forall>j < length es. pt_shape c n (l + 1) (es[i := map_at p f (es ! i)] ! j) \<and>
      pt_buffer (es[i := map_at p f (es ! i)] ! j) = pt_buffer (es ! j)"
    using Suc.prems(1) nb es by (auto simp: nth_list_update)
  then show ?case using Suc.prems(1) nb by (auto simp: path root)
qed

lemma map_at_view:
  assumes "pt_shape c n l root" "pt_at root path = Some e" "length path = n"
    and f: "pt_entries (f e) = None" "pt_buffer (f e) = pt_buffer e" "pt_addr (f e) = pt_addr e"
      "pt_age (f e) = pt_age e"
  shows "pt_view n (map_at path f root) q =
     (if q = path \<and> pt_buffer e \<noteq> 0 then Some (pt_buffer e, pt_addr e, pt_age e, pt_bitmap (f e))
      else pt_view n root q)"
  using map_at_at [where f = f, OF assms(1-3) f(1), of q] assms(2,3) f by (auto simp: pt_view_def)

text \<open>The walk finds the very table of the tree.\<close>

lemma found_table_at:
  assumes c: "c = vidmm_query_chip_vm_info_e3k c0" and shape: "pt_shape c 2 0 root" and p: "p < 2 ^ 28"
    and l: "found_table c root p = Some t"
  shows "vidmmi_vm_get_pt_entry c root p = Some (lpath c 2 0 p, t)" "pt_buffer t \<noteq> 0"
    "pt_at root (lpath c 2 0 p) = Some t" "pt_shape c 0 2 t"
proof -
  obtain path where e: "vidmmi_vm_get_pt_entry c root p = Some (path, t)" and b: "pt_buffer t \<noteq> 0"
    using l by (auto simp: found_table_def split: option.splits if_splits)
  have path: "path = lpath c 2 0 p"
    and v: "pt_view 2 root (lpath c 2 0 p) = Some (pt_buffer t, pt_addr t, pt_age t, pt_bitmap t)"
    using get_pt_entry_view [OF c shape p] e b by auto
  have len: "length (lpath c 2 0 p) = 2" by (simp add: c e3k_lpath)
  obtain u where u: "pt_at root (lpath c 2 0 p) = Some u" "pt_buffer u = pt_buffer t"
    "pt_addr u = pt_addr t" "pt_age u = pt_age t" "pt_bitmap u = pt_bitmap t"
    using v len by (auto simp: pt_view_def split: option.splits if_splits)
  have s: "pt_shape c 0 2 u" using pt_at_leaf [OF shape u(1) len] by (simp only: add_0)
  then have "pt_entries u = None" by simp
  moreover have "pt_entries t = None" using found_table_leaf [OF l] by simp
  ultimately have "u = t" using u by (cases u; cases t) simp
  then show "vidmmi_vm_get_pt_entry c root p = Some (lpath c 2 0 p, t)" "pt_buffer t \<noteq> 0"
    "pt_at root (lpath c 2 0 p) = Some t" "pt_shape c 0 2 t"
    using e b path u(1) s by simp_all
qed

text \<open>A page is in use when the bit of its entry is set.\<close>

definition page_used :: "vm_chip \<Rightarrow> vm_pt \<Rightarrow> nat \<Rightarrow> bool" where
  "page_used c root p =
     (case found_table c root p of None \<Rightarrow> False | Some t \<Rightarrow> bit_set (pt_bitmap t) (p mod 2 ^ 10))"

text \<open>Two trees that differ in the bitmaps of page tables only.\<close>

definition same_tables :: "vm_pt \<Rightarrow> vm_pt \<Rightarrow> bool" where
  "same_tables root root' \<longleftrightarrow>
     (\<forall>p. map_option (\<lambda>(b, a, g, m). (b, a, g)) (pt_view 2 root' p) =
          map_option (\<lambda>(b, a, g, m). (b, a, g)) (pt_view 2 root p))"

lemma same_tables_trans: "same_tables r r' \<Longrightarrow> same_tables r' r'' \<Longrightarrow> same_tables r r''"
  by (simp add: same_tables_def)

lemma same_tables_view:
  "same_tables root root' \<Longrightarrow> pt_view 2 root' p = Some (b, a, g, m) \<Longrightarrow>
   \<exists>m'. pt_view 2 root p = Some (b, a, g, m')"
  unfolding same_tables_def by (drule spec [of _ p]) (cases "pt_view 2 root p"; auto)

lemma same_tables_view':
  "same_tables root root' \<Longrightarrow> pt_view 2 root p = Some (b, a, g, m) \<Longrightarrow>
   \<exists>m'. pt_view 2 root' p = Some (b, a, g, m')"
  unfolding same_tables_def by (drule spec [of _ p]) (cases "pt_view 2 root' p"; auto)

lemma same_tables_owned:
  assumes st: "same_tables root root'" and own: "pt_owned 2 root h"
  shows "pt_owned 2 root' h"
proof -
  have v: "\<exists>w. pt_view 2 root p = Some (b, w)" if "pt_view 2 root' p = Some (b, v)" for p b v
    using same_tables_view [OF st, of p b] that by (cases v) blast
  show ?thesis
    unfolding pt_owned_def
  proof (intro conjI allI impI)
    fix p b x assume "pt_view 2 root' p = Some (b, x)"
    then show "b \<in> set (tables_live h)" using v pt_owned_live [OF own] by metis
  next
    fix p q b x y assume "pt_view 2 root' p = Some (b, x) \<and> pt_view 2 root' q = Some (b, y)"
    then show "p = q" using v pt_owned_inj [OF own] by metis
  qed
qed

lemma same_tables_found:
  assumes c: "c = vidmm_query_chip_vm_info_e3k c0" and "pt_shape c 2 0 root" "pt_shape c 2 0 root'"
    and st: "same_tables root root'" and p: "p < 2 ^ 28"
  shows "map_option pt_buffer (found_table c root' p) = map_option pt_buffer (found_table c root p)"
proof -
  have "map_option (\<lambda>(b, a, g, m). (b, a, g)) (pt_view 2 root' (lpath c 2 0 p)) =
        map_option (\<lambda>(b, a, g, m). (b, a, g)) (pt_view 2 root (lpath c 2 0 p))"
    using st by (simp add: same_tables_def)
  then show ?thesis
    unfolding found_table_view [OF c assms(2) p] found_table_view [OF c assms(3) p]
    by (cases "found_table c root p"; cases "found_table c root' p") auto
qed

lemma page_used_view:
  assumes c: "c = vidmm_query_chip_vm_info_e3k c0" and "pt_shape c 2 0 root" "p < 2 ^ 28"
  shows "page_used c root p =
     (case pt_view 2 root (lpath c 2 0 p) of None \<Rightarrow> False | Some (b, a, g, m) \<Rightarrow> bit_set m (p mod 2 ^ 10))"
  unfolding found_table_view [OF assms] page_used_def by (cases "found_table c root p") auto

lemma update_bitmap_fields [simp]:
  "pt_buffer (vidmmi_vm_pt_update_bitmap pt s e v) = pt_buffer pt"
  "pt_addr (vidmmi_vm_pt_update_bitmap pt s e v) = pt_addr pt"
  "pt_age (vidmmi_vm_pt_update_bitmap pt s e v) = pt_age pt"
  "pt_entries (vidmmi_vm_pt_update_bitmap pt s e v) = pt_entries pt"
  by (auto simp: vidmmi_vm_pt_update_bitmap_def split: option.splits)

lemma update_bitmap_shape:
  "pt_shape c 0 l pt \<Longrightarrow> pt_shape c 0 l (vidmmi_vm_pt_update_bitmap pt s e v)"
  by (auto simp: vidmmi_vm_pt_update_bitmap_def split: option.splits if_splits)

lemma update_bitmap_bit:
  assumes "pt_bitmap pt = Some bm" "i < length bm"
  shows "bit_set (pt_bitmap (vidmmi_vm_pt_update_bitmap pt s e v)) i \<longleftrightarrow>
     (if s \<le> i \<and> i \<le> e then v else bit_set (pt_bitmap pt) i)"
  using assms by (simp add: vidmmi_vm_pt_update_bitmap_def bit_set_def bitmap_write_nth)

text \<open>Changing the bits of the entries \<open>off..off + n - 1\<close> of the table of page \<open>s\<close>.\<close>

lemma table_bits_step:
  assumes c: "c = vidmm_query_chip_vm_info_e3k c0" and ok: "vma_ok c root h" and s: "s < 2 ^ 28"
    and t: "found_table c root s = Some t"
    and root1: "root1 = map_at (lpath c 2 0 s) (\<lambda>pt. vidmmi_vm_pt_update_bitmap pt lo hi v) root"
  shows "vma_ok c root1 h" "same_tables root root1"
    "\<And>p. p < 2 ^ 28 \<Longrightarrow> page_used c root1 p \<longleftrightarrow>
       (if p div 2 ^ 10 = s div 2 ^ 10 \<and> lo \<le> p mod 2 ^ 10 \<and> p mod 2 ^ 10 \<le> hi then v
        else page_used c root p)"
    "\<And>p. pt_view 2 root1 p =
       (if p = lpath c 2 0 s
        then Some (pt_buffer t, pt_addr t, pt_age t, pt_bitmap (vidmmi_vm_pt_update_bitmap t lo hi v))
        else pt_view 2 root p)"
proof -
  have shape: "pt_shape c 2 0 root" and nb: "pt_buffer root \<noteq> 0" and own: "pt_owned 2 root h"
    using ok by (simp_all add: vma_ok_def)
  note at = found_table_at [OF c shape s t]
  have len: "length (lpath c 2 0 s) = 2" by (simp add: c e3k_lpath)
  obtain bm where bm: "pt_bitmap t = Some bm" "length bm = 2 ^ 10"
    using at(2,4) by (auto simp: vidmmi_vm_pt_num_entries_def c)
  have none: "pt_entries (vidmmi_vm_pt_update_bitmap t lo hi v) = None" using at(4) by simp
  show view: "pt_view 2 root1 p =
       (if p = lpath c 2 0 s
        then Some (pt_buffer t, pt_addr t, pt_age t, pt_bitmap (vidmmi_vm_pt_update_bitmap t lo hi v))
        else pt_view 2 root p)" for p
    unfolding root1 by (subst map_at_view [where f = "\<lambda>pt. vidmmi_vm_pt_update_bitmap pt lo hi v", OF shape at(3) len none]) (use at(2) in auto)
  have "pt_shape c 2 0 root1 \<and> pt_buffer root1 = pt_buffer root"
    unfolding root1
    by (rule map_at_shape [OF shape at(3) len]) (use update_bitmap_shape [OF at(4)] in \<open>simp_all only: add_0 update_bitmap_fields\<close>)
  then have shape1: "pt_shape c 2 0 root1" and nb1: "pt_buffer root1 = pt_buffer root" by blast+
  have here: "pt_view 2 root (lpath c 2 0 s) = Some (pt_buffer t, pt_addr t, pt_age t, pt_bitmap t)"
    using found_table_view [OF c shape s] t by simp
  show st: "same_tables root root1" unfolding same_tables_def view using here by simp
  show "vma_ok c root1 h" using shape1 nb nb1 same_tables_owned [OF st own] by (simp add: vma_ok_def)
  show "page_used c root1 p \<longleftrightarrow>
       (if p div 2 ^ 10 = s div 2 ^ 10 \<and> lo \<le> p mod 2 ^ 10 \<and> p mod 2 ^ 10 \<le> hi then v
        else page_used c root p)" if p: "p < 2 ^ 28" for p
  proof (cases "p div 2 ^ 10 = s div 2 ^ 10")
    case True
    then have "lpath c 2 0 p = lpath c 2 0 s" by (simp add: c e3k_lpath_eq)
    then show ?thesis
      unfolding page_used_view [OF c shape1 p] page_used_view [OF c shape p] view
      using True here update_bitmap_bit [OF bm(1), of "p mod 2 ^ 10" lo hi v] bm(2) by simp
  next
    case False
    then have "lpath c 2 0 p \<noteq> lpath c 2 0 s" by (simp add: c e3k_lpath_eq)
    then show ?thesis
      unfolding page_used_view [OF c shape1 p] page_used_view [OF c shape p] view using False by simp
  qed
qed

lemma block_index:
  assumes "s mod 2 ^ k + i < 2 ^ k"
  shows "(s + i) div 2 ^ k = (s :: nat) div 2 ^ k" "(s + i) mod 2 ^ k = s mod 2 ^ k + i"
proof -
  have e: "s + i = (s mod 2 ^ k + i) + s div 2 ^ k * 2 ^ k" by (metis add.assoc add.commute div_mult_mod_eq)
  show "(s + i) div 2 ^ k = s div 2 ^ k" by (subst e) (use assms in simp)
  show "(s + i) mod 2 ^ k = s mod 2 ^ k + i" by (subst e) (use assms in simp)
qed

lemma chunk_facts:
  assumes "s \<le> e" "e < 2 ^ 28"
  defines "n \<equiv> pt_chunk32 10 s e"
  shows "pt_chunk64 10 s e = n" "0 < n" "s mod 2 ^ 10 + n \<le> 2 ^ 10" "s + n \<le> e + 1"
    "\<And>p. s \<le> p \<Longrightarrow> p < s + n \<Longrightarrow> p div 2 ^ 10 = s div 2 ^ 10 \<and> p mod 2 ^ 10 = s mod 2 ^ 10 + (p - s)"
    "\<And>p. p div 2 ^ 10 = s div 2 ^ 10 \<Longrightarrow> s mod 2 ^ 10 \<le> p mod 2 ^ 10 \<Longrightarrow>
       p mod 2 ^ 10 \<le> s mod 2 ^ 10 + n - 1 \<Longrightarrow> s \<le> p \<and> p < s + n"
proof -
  have m: "s mod 2 ^ 32 = s" "e mod 2 ^ 32 = e" using assms by simp_all
  show "pt_chunk64 10 s e = n" unfolding n_def pt_chunk32_def pt_chunk64_def m ..
  show n0: "0 < n" unfolding n_def by (rule pt_chunk32_positive)
  have s: "s = s div 2 ^ 10 * 2 ^ 10 + s mod 2 ^ 10" and e: "e = e div 2 ^ 10 * 2 ^ 10 + e mod 2 ^ 10"
    by (simp_all only: div_mult_mod_eq)
  have lt: "s mod 2 ^ 10 < 2 ^ 10" "e mod 2 ^ 10 < 2 ^ 10" by simp_all
  have both: "s mod 2 ^ 10 + n \<le> 2 ^ 10 \<and> s + n \<le> e + 1"
  proof (cases "s div 2 ^ 10 = e div 2 ^ 10")
    case True
    then have n: "n = e - s + 1" unfolding n_def pt_chunk32_def m by simp
    have "s div 2 ^ 10 * 2 ^ 10 = e div 2 ^ 10 * 2 ^ 10" using True by simp
    then have "s + e mod 2 ^ 10 = e + s mod 2 ^ 10" using s e by linarith
    then have "s mod 2 ^ 10 + n = e mod 2 ^ 10 + 1" using n assms(1) by linarith
    then show ?thesis using n lt assms(1) by linarith
  next
    case False
    then have n: "n = 2 ^ 10 - s mod 2 ^ 10" unfolding n_def pt_chunk32_def m by simp
    have "s div 2 ^ 10 < e div 2 ^ 10" using False div_le_mono [OF assms(1), of "2 ^ 10"] by simp
    then have "s div 2 ^ 10 * 2 ^ 10 + 2 ^ 10 \<le> e div 2 ^ 10 * 2 ^ 10" by simp
    then show ?thesis using n s e lt by linarith
  qed
  then show le: "s mod 2 ^ 10 + n \<le> 2 ^ 10" and "s + n \<le> e + 1" by blast+
  show "p div 2 ^ 10 = s div 2 ^ 10 \<and> p mod 2 ^ 10 = s mod 2 ^ 10 + (p - s)" if "s \<le> p" "p < s + n" for p
    using block_index [of s 10 "p - s"] le that by simp
  show "s \<le> p \<and> p < s + n"
    if "p div 2 ^ 10 = s div 2 ^ 10" "s mod 2 ^ 10 \<le> p mod 2 ^ 10" "p mod 2 ^ 10 \<le> s mod 2 ^ 10 + n - 1" for p
  proof -
    have "p = p div 2 ^ 10 * 2 ^ 10 + p mod 2 ^ 10" by (simp only: div_mult_mod_eq)
    moreover have "p div 2 ^ 10 * 2 ^ 10 = s div 2 ^ 10 * 2 ^ 10" using that(1) by simp
    ultimately have "s + p mod 2 ^ 10 = p + s mod 2 ^ 10" using s by linarith
    then show ?thesis using that(2,3) n0 by linarith
  qed
qed

declare update_ptes_loop.simps [simp del]

section \<open>What writing the entries of a range does\<close>

text \<open>
  The result of writing the pages \<open>s..e\<close> of an allocation whose node starts at page \<open>v\<close>: the bits of
  these pages are set, and in memory their entries, and only theirs, are those of the allocation.
\<close>

definition ptes_written ::
    "vm_chip \<Rightarrow> nat \<Rightarrow> nat \<Rightarrow> nat \<Rightarrow> nat \<Rightarrow> nat \<Rightarrow> vm_pt \<Rightarrow> pt_heap \<Rightarrow> vm_pt \<Rightarrow> pte_update list \<Rightarrow> bool" where
  "ptes_written c alloc eo v s e root h root' us \<longleftrightarrow>
     vma_ok c root' h \<and> same_tables root root' \<and>
     (\<forall>p < 2 ^ 28. page_used c root' p \<longleftrightarrow> s \<le> p \<and> p \<le> e \<or> page_used c root p) \<and>
     (\<forall>mem p t. s \<le> p \<and> p \<le> e \<and> found_table c root p = Some t \<longrightarrow>
        execute us mem (pt_buffer t) (p mod 2 ^ 10) = Hw_Page alloc (p - v + eo div 4096)) \<and>
     (\<forall>mem b k. (\<nexists>p t. s \<le> p \<and> p \<le> e \<and> found_table c root p = Some t \<and> pt_buffer t = b \<and> p mod 2 ^ 10 = k) \<longrightarrow>
        execute us mem b k = mem b k)"

lemma update_ptes_loop_done:
  "\<not> start_addr < end_addr \<Longrightarrow>
   update_ptes_loop c alloc eo va start_addr end_addr root us = (root, us, S_OK)"
  by (subst update_ptes_loop.simps) simp

text \<open>The call for \<open>n\<close> pages from page \<open>s\<close> of a node that starts at page \<open>v\<close>, and one round of the loop.\<close>

definition page_call :: "nat \<Rightarrow> nat \<Rightarrow> nat \<Rightarrow> nat \<Rightarrow> nat \<Rightarrow> nat \<Rightarrow> pte_update" where
  "page_call alloc eo v s n b =
     \<lparr> upd_level = 2, upd_dst = b, upd_offset = s mod 2 ^ 10, upd_npte = n, upd_entity = Allocation alloc,
       upd_fill_va = s * 4096, upd_start_va = v * 4096, upd_entity_offset = eo \<rparr>"

lemma update_ptes_loop_step:
  assumes c: "c = vidmm_query_chip_vm_info_e3k c0" and le: "s \<le> e" and e: "e < 2 ^ 28" and shape: "pt_shape c 2 0 root"
    and t: "found_table c root s = Some t"
  defines "n \<equiv> pt_chunk32 10 s e"
  shows "update_ptes_loop c alloc eo (v * 4096) (s * 4096) (e * 4096 + 4095) root us =
    update_ptes_loop c alloc eo (v * 4096) ((s + n) * 4096) (e * 4096 + 4095)
      (map_at (lpath c 2 0 s) (\<lambda>pt. vidmmi_vm_pt_update_bitmap pt (s mod 2 ^ 10) (s mod 2 ^ 10 + n - 1) True) root)
      (us @ [page_call alloc eo v s n (pt_buffer t)])"
proof -
  have s: "s < 2 ^ 28" using le e by simp
  note at = found_table_at [OF c shape s t] and chunk = chunk_facts [OF le e, folded n_def]
  have "s * 4096 < e * 4096 + 4095" "s * 4096 div 4096 = s" "(e * 4096 + 4095) div 4096 = e" using le by simp_all
  moreover have "pt_levels_num c - 1 = 2" "vidmmi_vm_pt_bits_count c 2 = 10" by (simp_all add: c)
  ultimately show ?thesis
    by (subst update_ptes_loop.simps)
       (simp only: if_True Let_def at(1,2) option.case prod.case if_False chunk(1) n_def [symmetric] page_call_def)
qed

lemma update_ptes_loop_ok:
  assumes c: "c = vidmm_query_chip_vm_info_e3k c0" and "e < 2 ^ 28" "v \<le> s" "s \<le> e + 1"
    and "vma_ok c root h" "\<And>p. s \<le> p \<Longrightarrow> p \<le> e \<Longrightarrow> found_table c root p \<noteq> None"
  shows "\<exists>root' new. update_ptes_loop c alloc eo (v * 4096) (s * 4096) (e * 4096 + 4095) root us =
      (root', us @ new, S_OK) \<and> ptes_written c alloc eo v s e root h root' new"
  using assms(3-)
proof (induction "e + 1 - s" arbitrary: s root us rule: less_induct)
  case less
  show ?case
  proof (cases "s \<le> e")
    case False
    then have "\<not> s * 4096 < e * 4096 + 4095" by simp
    from update_ptes_loop_done [OF this] show ?thesis
      using False less.prems(3) by (auto simp: ptes_written_def same_tables_def)
  next
    case True
    then have s: "s < 2 ^ 28" using assms(2) by simp
    have shape: "pt_shape c 2 0 root" using less.prems(3) by (simp add: vma_ok_def)
    obtain t where t: "found_table c root s = Some t" using less.prems(4) [of s] True by auto
    note at = found_table_at [OF c shape s t]
    define n where "n = pt_chunk32 10 s e"
    note chunk = chunk_facts [OF True assms(2), folded n_def]
    define off where "off = s mod 2 ^ 10"
    define root1 where
      "root1 = map_at (lpath c 2 0 s) (\<lambda>pt. vidmmi_vm_pt_update_bitmap pt off (off + n - 1) True) root"
    define u where "u = page_call alloc eo v s n (pt_buffer t)"
    have step: "update_ptes_loop c alloc eo (v * 4096) (s * 4096) (e * 4096 + 4095) root us =
        update_ptes_loop c alloc eo (v * 4096) ((s + n) * 4096) (e * 4096 + 4095) root1 (us @ [u])"
      using update_ptes_loop_step [OF c True assms(2) shape t] by (simp only: n_def root1_def off_def u_def)
    note bits = table_bits_step [OF c less.prems(3) s t root1_def]
    have shape1: "pt_shape c 2 0 root1" using bits(1) by (simp add: vma_ok_def)
    have found: "map_option pt_buffer (found_table c root1 p) = map_option pt_buffer (found_table c root p)"
      if "p < 2 ^ 28" for p by (rule same_tables_found [OF c shape shape1 bits(2) that])
    have "found_table c root1 p \<noteq> None" if "s + n \<le> p" "p \<le> e" for p
      using found [of p] less.prems(4) [of p] that assms(2) by auto
    moreover have "e + 1 - (s + n) < e + 1 - s" using chunk(2) True by linarith
    moreover have "v \<le> s + n" using less.prems(1) by simp
    ultimately obtain root' new where rest:
      "update_ptes_loop c alloc eo (v * 4096) ((s + n) * 4096) (e * 4096 + 4095) root1 (us @ [u]) =
       (root', (us @ [u]) @ new, S_OK)"
      "ptes_written c alloc eo v (s + n) e root1 h root' new"
      using less.hyps [of "s + n" root1 "us @ [u]"] bits(1) chunk(4) by blast
    have here: "execute [u] mem b k = (if b = pt_buffer t \<and> off \<le> k \<and> k < off + n
        then Hw_Page alloc (s - v + eo div 4096 + (k - off)) else mem b k)" for mem b k
      by (auto simp: execute_def apply_update_def update_cell_def u_def page_call_def off_def diff_mult_distrib [symmetric])
    have block: "pt_buffer l = pt_buffer l' \<longleftrightarrow> p div 2 ^ 10 = q div 2 ^ 10"
      if "found_table c root p = Some l" "found_table c root q = Some l'" "p \<le> e" "q \<le> e" for p q l l'
      by (rule found_table_block [OF c less.prems(3) _ _ that(1,2)]) (use that assms(2) in auto)
    have same_page: "p = q"
      if "found_table c root p = Some l" "found_table c root q = Some l'" "p \<le> e" "q \<le> e"
        "pt_buffer l = pt_buffer l'" "p mod 2 ^ 10 = q mod 2 ^ 10" for p q l l'
      using block [OF that(1-4)] that(5,6) by (metis div_mult_mod_eq)
    have written: "execute ([u] @ new) mem (pt_buffer l) (p mod 2 ^ 10) = Hw_Page alloc (p - v + eo div 4096)"
      if p: "s \<le> p" "p \<le> e" and l: "found_table c root p = Some l" for mem p l
    proof (cases "p < s + n")
      case p': True
      have pi: "p div 2 ^ 10 = s div 2 ^ 10" "p mod 2 ^ 10 = off + (p - s)"
        using chunk(5) [OF p(1) p'] by (simp_all add: off_def)
      have b: "pt_buffer l = pt_buffer t" using block [OF l t] p True pi by simp
      have "execute new (execute [u] mem) (pt_buffer l) (p mod 2 ^ 10) = execute [u] mem (pt_buffer l) (p mod 2 ^ 10)"
      proof -
        have "\<nexists>q t'. s + n \<le> q \<and> q \<le> e \<and> found_table c root1 q = Some t' \<and>
            pt_buffer t' = pt_buffer l \<and> q mod 2 ^ 10 = p mod 2 ^ 10"
        proof
          assume "\<exists>q t'. s + n \<le> q \<and> q \<le> e \<and> found_table c root1 q = Some t' \<and>
            pt_buffer t' = pt_buffer l \<and> q mod 2 ^ 10 = p mod 2 ^ 10"
          then obtain q t' where q: "s + n \<le> q" "q \<le> e" "found_table c root1 q = Some t'"
            "pt_buffer t' = pt_buffer l" "q mod 2 ^ 10 = p mod 2 ^ 10" by blast
          obtain t0 where "found_table c root q = Some t0" "pt_buffer t0 = pt_buffer l"
            using found [of q] q assms(2) by (cases "found_table c root q") auto
          then have "q = p" using same_page [OF _ l] q p by blast
          then show False using q p' by simp
        qed
        then show ?thesis using rest(2) unfolding ptes_written_def by blast
      qed
      also have "\<dots> = Hw_Page alloc (p - v + eo div 4096)"
      proof -
        have "off \<le> p mod 2 ^ 10 \<and> p mod 2 ^ 10 < off + n" using pi p p' by linarith
        moreover have "s - v + eo div 4096 + (p mod 2 ^ 10 - off) = p - v + eo div 4096"
          using pi p less.prems(1) by linarith
        ultimately show ?thesis by (simp only: here b) simp
      qed
      finally show ?thesis by (simp only: execute_append)
    next
      case False
      obtain l1 where "found_table c root1 p = Some l1" "pt_buffer l1 = pt_buffer l"
        using found [of p] l p assms(2) by (cases "found_table c root1 p") auto
      then have "execute new (execute [u] mem) (pt_buffer l) (p mod 2 ^ 10) = Hw_Page alloc (p - v + eo div 4096)"
        using rest(2) False p unfolding ptes_written_def by (metis not_less)
      then show ?thesis by (simp only: execute_append)
    qed
    have kept: "execute ([u] @ new) mem b k = mem b k"
      if none: "\<nexists>p l. s \<le> p \<and> p \<le> e \<and> found_table c root p = Some l \<and> pt_buffer l = b \<and> p mod 2 ^ 10 = k"
      for mem b k
    proof -
      have "\<not> (b = pt_buffer t \<and> off \<le> k \<and> k < off + n)"
      proof
        assume k: "b = pt_buffer t \<and> off \<le> k \<and> k < off + n"
        define p where "p = s + (k - off)"
        have p: "s \<le> p" "p < s + n" "p \<le> e" using k chunk(4) by (auto simp: p_def)
        then have pi: "p div 2 ^ 10 = s div 2 ^ 10" "p mod 2 ^ 10 = k"
          using chunk(5) [OF p(1,2)] k by (simp_all add: off_def p_def)
        obtain l where l: "found_table c root p = Some l" using less.prems(4) [OF p(1,3)] by auto
        then have "pt_buffer l = b" using block [OF l t p(3) True] pi k by simp
        then show False using none p pi l by blast
      qed
      then have 1: "execute [u] mem b k = mem b k" by (auto simp: here)
      have "\<nexists>p l. s + n \<le> p \<and> p \<le> e \<and> found_table c root1 p = Some l \<and> pt_buffer l = b \<and> p mod 2 ^ 10 = k"
      proof
        assume "\<exists>p l. s + n \<le> p \<and> p \<le> e \<and> found_table c root1 p = Some l \<and> pt_buffer l = b \<and> p mod 2 ^ 10 = k"
        then obtain p l where p: "s + n \<le> p" "p \<le> e" "found_table c root1 p = Some l" "pt_buffer l = b"
          "p mod 2 ^ 10 = k" by blast
        obtain l0 where "found_table c root p = Some l0" "pt_buffer l0 = b"
          using found [of p] p assms(2) by (cases "found_table c root p") auto
        moreover have "s \<le> p" using p(1) by linarith
        ultimately show False using none p(2,5) by blast
      qed
      then have "execute new (execute [u] mem) b k = execute [u] mem b k"
        using rest(2) unfolding ptes_written_def by blast
      then show ?thesis using 1 by (simp only: execute_append)
    qed
    have used: "page_used c root' p \<longleftrightarrow> s \<le> p \<and> p \<le> e \<or> page_used c root p" if p: "p < 2 ^ 28" for p
    proof -
      have "page_used c root' p \<longleftrightarrow> s + n \<le> p \<and> p \<le> e \<or> page_used c root1 p"
        using rest(2) p unfolding ptes_written_def by blast
      moreover have "page_used c root1 p \<longleftrightarrow> s \<le> p \<and> p < s + n \<or> page_used c root p"
      proof (cases "s \<le> p \<and> p < s + n")
        case True
        then have "p div 2 ^ 10 = s div 2 ^ 10" and m: "p mod 2 ^ 10 = off + (p - s)"
          using chunk(5) [of p] by (simp_all add: off_def)
        moreover have "off \<le> p mod 2 ^ 10" "p mod 2 ^ 10 \<le> off + n - 1"
          using m True by linarith+
        ultimately have "p div 2 ^ 10 = s div 2 ^ 10" "off \<le> p mod 2 ^ 10" "p mod 2 ^ 10 \<le> off + n - 1"
          by blast+
        then show ?thesis using bits(3) [OF p] True by simp
      next
        case False
        then show ?thesis using bits(3) [OF p] chunk(6) [of p] by (auto simp only: off_def if_False split: if_splits)
      qed
      moreover have "s \<le> p \<and> p \<le> e \<longleftrightarrow> s \<le> p \<and> p < s + n \<or> s + n \<le> p \<and> p \<le> e"
        using chunk(4) by linarith
      ultimately show ?thesis by blast
    qed
    have "ptes_written c alloc eo v s e root h root' ([u] @ new)"
      unfolding ptes_written_def
      using rest(2) bits(2) used written kept same_tables_trans
      unfolding ptes_written_def by blast
    then show ?thesis using step rest(1) by auto
  qed
qed

section \<open>The walk of the engine\<close>

text \<open>
  The engine starts at the root buffer and follows one index per level; the last index selects the
  entry of the page.
\<close>

fun hw_walk :: "(nat \<Rightarrow> nat \<Rightarrow> hw_pte) \<Rightarrow> nat \<Rightarrow> nat list \<Rightarrow> hw_pte" where
  "hw_walk mem b [] = Hw_Table b"
| "hw_walk mem b [i] = mem b i"
| "hw_walk mem b (i # is) = (case mem b i of Hw_Table b' \<Rightarrow> hw_walk mem b' is | _ \<Rightarrow> Hw_Invalid)"

definition hw_translate :: "vm_chip \<Rightarrow> (nat \<Rightarrow> nat \<Rightarrow> hw_pte) \<Rightarrow> nat \<Rightarrow> nat \<Rightarrow> hw_pte" where
  "hw_translate c mem b p = hw_walk mem b (lpath c 2 0 p @ [p mod 2 ^ vidmmi_vm_pt_bits_count c 2])"

text \<open>Every entry of a directory of the tree is in memory.\<close>

definition pd_all :: "vm_pt \<Rightarrow> (nat \<Rightarrow> nat \<Rightarrow> hw_pte) \<Rightarrow> bool" where
  "pd_all root mem \<longleftrightarrow>
     (\<forall>p i b v b' w. pt_view 2 root p = Some (b, v) \<and> pt_view 2 root (p @ [i]) = Some (b', w) \<longrightarrow>
        mem b i = Hw_Table b')"

lemma pd_allD:
  "pd_all root mem \<Longrightarrow> pt_view 2 root p = Some (b, v) \<Longrightarrow> pt_view 2 root (p @ [i]) = Some (b', w) \<Longrightarrow>
   mem b i = Hw_Table b'"
  unfolding pd_all_def by blast

lemma pd_all_known: "pd_all root mem \<Longrightarrow> pd_known c 2 root mem"
  unfolding pd_all_def pd_known_def by blast

lemma hw_translate_found:
  assumes c: "c = vidmm_query_chip_vm_info_e3k c0" and ok: "vma_ok c root h" and all: "pd_all root mem"
    and p: "p < 2 ^ 28" and t: "found_table c root p = Some t"
  shows "hw_translate c mem (pt_buffer root) p = mem (pt_buffer t) (p mod 2 ^ 10)"
proof -
  have shape: "pt_shape c 2 0 root" and nb: "pt_buffer root \<noteq> 0" using ok by (simp_all add: vma_ok_def)
  obtain i j where path: "lpath c 2 0 p = [i, j]" by (simp add: c e3k_lpath)
  have v2: "pt_view 2 root ([i] @ [j]) = Some (pt_buffer t, pt_addr t, pt_age t, pt_bitmap t)"
    using found_table_view [OF c shape p] t path by simp
  obtain b1 w where v1: "pt_view 2 root ([] @ [i]) = Some (b1, w)"
    using pt_shape_parent [OF shape, of "[i]" j] v2 by auto
  have v0: "pt_view 2 root [] = Some (pt_buffer root, pt_addr root, pt_age root, None)"
    using nb by (simp add: pt_view_Nil)
  have "mem (pt_buffer root) i = Hw_Table b1" by (rule pd_allD [OF all v0 v1])
  moreover have "pt_view 2 root [i] = Some (b1, w)" using v1 by simp
  then have "mem b1 j = Hw_Table (pt_buffer t)" by (rule pd_allD [OF all _ v2])
  ultimately have "hw_walk mem (pt_buffer root) ([i, j] @ [p mod 2 ^ 10]) = mem (pt_buffer t) (p mod 2 ^ 10)"
    by simp
  then show ?thesis unfolding hw_translate_def path by (simp add: c)
qed

lemma pt_at_shape:
  "pt_shape c (length p + m) l root \<Longrightarrow> pt_at root p = Some e \<Longrightarrow> pt_shape c m (l + length p) e"
proof (induction p arbitrary: l root)
  case (Cons i p)
  obtain es where es: "pt_entries root = Some es" "i < length es" "pt_at (es ! i) p = Some e"
    using Cons.prems(2) by (auto split: option.splits if_splits)
  have shape: "pt_shape c (Suc (length p + m)) l root" using Cons.prems(1) by simp
  have "pt_shape c (length p + m) (l + 1) (es ! i)"
    by (rule pt_shape_child [OF shape pt_shape_entries [OF shape es(1)] es(1,2)])
  from Cons.IH [OF this es(3)] show ?case by simp
qed (simp del: pt_shape.simps)

lemma pt_at_parent: "pt_at root (p @ q) = Some e \<Longrightarrow> \<exists>d. pt_at root p = Some d \<and> pt_at d q = Some e"
  by (induction p arbitrary: root) (auto split: option.splits if_splits)

text \<open>A table of pages is no directory.\<close>

lemma pt_view_depth:
  assumes "pt_shape c 2 0 root" "pt_view 2 root p \<noteq> None"
  shows "length p \<le> 2"
proof (rule ccontr)
  assume n: "\<not> length p \<le> 2"
  then obtain i j k q where p: "p = i # j # k # q"
    by (metis One_nat_def Suc_1 le_SucI length_Cons list.exhaust list.size(3) not_less_eq_eq zero_le)
  obtain e where e: "pt_at root (i # j # k # q) = Some e" using assms(2) by (auto simp: pt_view_def p split: option.splits)
  then obtain x where x: "pt_at root [i, j] = Some x" "pt_at x (k # q) = Some e"
    by (auto split: option.splits if_splits)
  have "pt_shape c 0 (0 + 2) x" by (rule pt_at_leaf [OF assms(1) x(1)]) simp
  then show False using x(2) by auto
qed

lemma ptes_written_dirs:
  assumes c: "c = vidmm_query_chip_vm_info_e3k c0" and ok: "vma_ok c root h" and e: "e < 2 ^ 28"
    and w: "ptes_written c alloc eo v s e root h root' us" and all: "pd_all root mem"
  shows "pd_all root' (execute us mem)"
  unfolding pd_all_def
proof (intro allI impI)
  fix p i b x b' y
  assume a: "pt_view 2 root' p = Some (b, x) \<and> pt_view 2 root' (p @ [i]) = Some (b', y)"
  have shape: "pt_shape c 2 0 root" and own: "pt_owned 2 root h" using ok by (simp_all add: vma_ok_def)
  have st: "same_tables root root'" using w by (simp add: ptes_written_def)
  obtain x' where p: "pt_view 2 root p = Some (b, x')" using same_tables_view [OF st, of p b] a by (cases x) blast
  obtain y' where q: "pt_view 2 root (p @ [i]) = Some (b', y')"
    using same_tables_view [OF st, of "p @ [i]" b'] a by (cases y) blast
  have "length p < 2" using pt_view_depth [OF shape, of "p @ [i]"] q by simp
  have "\<nexists>r t. s \<le> r \<and> r \<le> e \<and> found_table c root r = Some t \<and> pt_buffer t = b \<and> r mod 2 ^ 10 = i"
  proof
    assume "\<exists>r t. s \<le> r \<and> r \<le> e \<and> found_table c root r = Some t \<and> pt_buffer t = b \<and> r mod 2 ^ 10 = i"
    then obtain r t where r: "r \<le> e" "found_table c root r = Some t" "pt_buffer t = b" by blast
    have "pt_view 2 root (lpath c 2 0 r) = Some (b, pt_addr t, pt_age t, pt_bitmap t)"
      using found_table_view [OF c shape, of r] r e by simp
    then have "lpath c 2 0 r = p" by (rule pt_owned_inj [OF own _ p])
    then show False using \<open>length p < 2\<close> by (auto simp: c e3k_lpath)
  qed
  then have "execute us mem b i = mem b i" using w unfolding ptes_written_def by blast
  then show "execute us mem b i = Hw_Table b'" using pd_allD [OF all p q] by simp
qed

text \<open>Telling the engine about the directories of a tree, for the tree of the chip.\<close>

lemma update_pd_ok:
  assumes c: "c = vidmm_query_chip_vm_info_e3k c0" and ok: "vma_ok c root h" and known: "pd_known c 2 root mem"
    and run: "vidmm_vm_update_pd c root = (root', us)"
  shows "vma_ok c root' h" "pd_all root' (execute us mem)" "pt_buffer root' = pt_buffer root"
    "\<And>p. p < 2 ^ 28 \<Longrightarrow> map_option (\<lambda>t. (pt_buffer t, pt_bitmap t)) (found_table c root' p) =
        map_option (\<lambda>t. (pt_buffer t, pt_bitmap t)) (found_table c root p)"
    "\<And>p t k. p < 2 ^ 28 \<Longrightarrow> found_table c root p = Some t \<Longrightarrow>
        execute us mem (pt_buffer t) k = mem (pt_buffer t) k"
    "\<And>i. pt_view 2 root' [i] \<noteq> None \<longleftrightarrow> pt_view 2 root [i] \<noteq> None"
    "\<And>i b a g m. pt_view 2 root [i] = Some (b, a, g, m) \<Longrightarrow> a \<noteq> b \<Longrightarrow> \<exists>u \<in> set us. upd_level u = 0"
proof -
  have shape: "pt_shape c 2 0 root" and nb: "pt_buffer root \<noteq> 0" and own: "pt_owned 2 root h"
    using ok by (simp_all add: vma_ok_def)
  have run': "vidmmi_vm_update_level c 0 0 root = (root', us)" using run by (simp add: vidmm_vm_update_pd_def)
  have spec: "pt_shape c 2 0 root'" "pt_buffer root' = pt_buffer root" "pt_addr root' = pt_addr root"
    "pt_age root' = pt_age root"
    "\<And>p. p \<noteq> [] \<Longrightarrow> pt_view 2 root' p = map_option (told c) (pt_view 2 root p)"
    "\<And>u. u \<in> set us \<Longrightarrow> pd_call c 2 0 root u"
    "\<And>p i b v b' a g m. pt_view 2 root p = Some (b, v) \<Longrightarrow> pt_view 2 root (p @ [i]) = Some (b', a, g, m) \<Longrightarrow>
       \<not> (a = b' \<and> resume_age c \<le> g) \<Longrightarrow> \<exists>u \<in> set us. upd_dst u = b \<and> upd_offset u = i"
    using update_level_ok [OF shape, of 0] unfolding run' update_level_spec_def prod.case by blast+
  have root_view: "pt_view 2 root' [] = pt_view 2 root []" using spec(2-4) by (simp add: pt_view_Nil)
  have view: "\<exists>w. pt_view 2 root p = Some (b, w)" if told: "pt_view 2 root' p = Some (b, v)" for p b v
  proof (cases "p = []")
    case True
    then have "pt_view 2 root p = Some (b, v)" using told root_view by simp
    then show ?thesis by blast
  next
    case False
    then obtain x y where x: "pt_view 2 root p = Some (x, y)" "told c (x, y) = (b, v)"
      using spec(5) [OF False] told by (cases "pt_view 2 root p") auto
    then show ?thesis using told_buffer [of c x y b] by (cases v; cases y) auto
  qed
  have own': "pt_owned 2 root' h"
    unfolding pt_owned_def
  proof (intro conjI allI impI)
    fix p b x assume "pt_view 2 root' p = Some (b, x)"
    then show "b \<in> set (tables_live h)" using view pt_owned_live [OF own] by metis
  next
    fix p q b x y assume "pt_view 2 root' p = Some (b, x) \<and> pt_view 2 root' q = Some (b, y)"
    then show "p = q" using view pt_owned_inj [OF own] by metis
  qed
  show "pt_buffer root' = pt_buffer root" by (rule spec(2))
  show ok': "vma_ok c root' h" using own' spec(1,2) nb by (simp add: vma_ok_def)
  note exec = update_level_execute [OF shape own known run']
  show "pd_all root' (execute us mem)"
    unfolding pd_all_def
  proof (intro allI impI)
    fix p i b v b' w
    assume "pt_view 2 root' p = Some (b, v) \<and> pt_view 2 root' (p @ [i]) = Some (b', w)"
    then obtain x y where "pt_view 2 root p = Some (b, x)" "pt_view 2 root (p @ [i]) = Some (b', y)"
      using view by blast
    then show "execute us mem b i = Hw_Table b'" using exec(1) by (cases y) blast
  qed
  show "map_option (\<lambda>t. (pt_buffer t, pt_bitmap t)) (found_table c root' p) =
        map_option (\<lambda>t. (pt_buffer t, pt_bitmap t)) (found_table c root p)" if p: "p < 2 ^ 28" for p
  proof -
    have "lpath c 2 0 p \<noteq> []" by (simp add: c e3k_lpath)
    from spec(5) [OF this] show ?thesis
      unfolding found_table_view [OF c shape p] found_table_view [OF c spec(1) p]
      by (cases "found_table c root p"; cases "found_table c root' p") (auto simp: told_def split: if_splits)
  qed
  show "execute us mem (pt_buffer t) k = mem (pt_buffer t) k"
    if p: "p < 2 ^ 28" and t: "found_table c root p = Some t" for p t k
  proof (rule exec(2))
    fix q v w assume q: "pt_view 2 root q = Some (pt_buffer t, v)"
    have "pt_view 2 root (lpath c 2 0 p) = Some (pt_buffer t, pt_addr t, pt_age t, pt_bitmap t)"
      using found_table_view [OF c shape p] t by simp
    then have "lpath c 2 0 p = q" by (rule pt_owned_inj [OF own _ q])
    then have "length q = 2" by (auto simp: c e3k_lpath)
    then show "pt_view 2 root (q @ [k]) \<noteq> Some w"
      using pt_view_depth [OF shape, of "q @ [k]"] by (cases w) auto
  qed
  show "pt_view 2 root' [i] \<noteq> None \<longleftrightarrow> pt_view 2 root [i] \<noteq> None" for i using spec(5) [of "[i]"] by simp
  show "\<exists>u \<in> set us. upd_level u = 0" if i: "pt_view 2 root [i] = Some (b, a, g, m)" and ne: "a \<noteq> b" for i b a g m
  proof -
    have v0: "pt_view 2 root [] = Some (pt_buffer root, pt_addr root, pt_age root, None)"
      using nb by (simp add: pt_view_Nil)
    obtain u where u: "u \<in> set us" "upd_dst u = pt_buffer root"
      using spec(7) [OF v0, of i b a g m] i ne by auto
    obtain p b' x where p: "pt_view 2 root p = Some (b', x)" "upd_dst u = b'" "upd_level u = 0 + length p"
      using spec(6) [OF u(1)] unfolding pd_call_def by blast
    then have "upd_level u = 0" using pt_owned_inj [OF own v0, of p x] u(2) by simp
    then show ?thesis using u by blast
  qed
qed

text \<open>The first step of mapping, with what the later ones need of it.\<close>

lemma vidmm_vm_alloc_pd_spec:
  assumes c: "c = vidmm_query_chip_vm_info_e3k c0" and fresh: "env_fresh env" and ok: "vma_ok c root h"
    and run: "vidmm_vm_alloc_pd c env root s e h = (root', h', Done S_OK)"
  shows "vma_ok c root' h'" "grows env (pt_view 2 root) h (pt_view 2 root') h'"
    "\<And>p. s \<le> p \<Longrightarrow> p \<le> e \<Longrightarrow> p < 2 ^ 28 \<Longrightarrow> found_table c root' p \<noteq> None"
    "\<And>p t. p < 2 ^ 28 \<Longrightarrow> found_table c root p = Some t \<Longrightarrow> found_table c root' p = Some t"
    "\<And>p t. p < 2 ^ 28 \<Longrightarrow> found_table c root p = None \<Longrightarrow> found_table c root' p = Some t \<Longrightarrow>
       pt_buffer t \<notin> set (tables_live h) \<and> pt_buffer t \<in> set (tables_live h')"
    "\<And>p. p < 2 ^ 28 \<Longrightarrow> found_table c root p = None \<Longrightarrow> \<not> page_used c root' p"
proof -
  have shape: "pt_shape c 2 0 root" using ok by (simp add: vma_ok_def)
  have con: "pt_shape c 2 0 root'" "pt_buffer root' = pt_buffer root"
    "grows env (pt_view 2 root) h (pt_view 2 root') h'"
    "\<And>p. s \<le> p \<Longrightarrow> p \<le> e \<Longrightarrow> pt_view 2 root' (lpath c 2 0 p) \<noteq> None"
    using vidmm_vm_alloc_pd_contract [OF c fresh ok, of s e] run by (simp_all add: alloc_contract_def)
  show ok': "vma_ok c root' h'" using ok con pt_owned_grows by (auto simp: vma_ok_def)
  show "grows env (pt_view 2 root) h (pt_view 2 root') h'" by (rule con(3))
  have own': "pt_owned 2 root' h'" using ok' by (simp add: vma_ok_def)
  show "found_table c root' p \<noteq> None" if "s \<le> p" "p \<le> e" "p < 2 ^ 28" for p
    using con(4) [OF that(1,2)] found_table_view [OF c con(1) that(3)] by auto
  note grow = found_table_grows [OF c shape con(1,3)]
  show "found_table c root' p = Some t" if "p < 2 ^ 28" "found_table c root p = Some t" for p t
    using grow(1) that by blast
  show "pt_buffer t \<notin> set (tables_live h) \<and> pt_buffer t \<in> set (tables_live h')"
    if "p < 2 ^ 28" "found_table c root p = None" "found_table c root' p = Some t" for p t
    using grow(2) that pt_owned_live [OF own'] found_table_view [OF c con(1) that(1)] by simp
  show "\<not> page_used c root' p" if p: "p < 2 ^ 28" "found_table c root p = None" for p
  proof (cases "found_table c root' p")
    case (Some t)
    have "\<forall>bm. pt_bitmap t = Some bm \<longrightarrow> True \<notin> set bm" using grow(2) [OF p Some] by blast
    then show ?thesis using Some by (auto simp: page_used_def bit_set_def split: option.splits) (metis nth_mem)
  qed (simp add: page_used_def)
qed

lemma ptes_written_outside:
  assumes c: "c = vidmm_query_chip_vm_info_e3k c0" and ok: "vma_ok c root h" and e: "e < 2 ^ 28"
    and w: "ptes_written c alloc eo v s e root h root' us"
    and p: "p < 2 ^ 28" "\<not> (s \<le> p \<and> p \<le> e)" and t: "found_table c root p = Some t"
  shows "execute us mem (pt_buffer t) (p mod 2 ^ 10) = mem (pt_buffer t) (p mod 2 ^ 10)"
proof -
  have "\<nexists>q x. s \<le> q \<and> q \<le> e \<and> found_table c root q = Some x \<and> pt_buffer x = pt_buffer t \<and> q mod 2 ^ 10 = p mod 2 ^ 10"
  proof
    assume "\<exists>q x. s \<le> q \<and> q \<le> e \<and> found_table c root q = Some x \<and> pt_buffer x = pt_buffer t \<and> q mod 2 ^ 10 = p mod 2 ^ 10"
    then obtain q x where q: "s \<le> q" "q \<le> e" "found_table c root q = Some x" "pt_buffer x = pt_buffer t"
      "q mod 2 ^ 10 = p mod 2 ^ 10" by blast
    have "q < 2 ^ 28" using q(2) e by simp
    then have "q div 2 ^ 10 = p div 2 ^ 10"
      using found_table_block [OF c ok _ p(1) q(3) t] q(4) by simp
    then have "q = p" using q(5) by (metis div_mult_mod_eq)
    then show False using p(2) q by simp
  qed
  then show ?thesis using w unfolding ptes_written_def by blast
qed

text \<open>The pages of an aligned node.\<close>

lemma node_pages:
  assumes "4096 dvd offset" "4096 dvd len" "0 < (len :: nat)" "offset + len \<le> 2 ^ 40"
  obtains s e where "offset = s * 4096" "offset div 4096 = s" "(offset + len - 1) div 4096 = e"
    "offset + len - 1 = e * 4096 + 4095" "(offset + len) div 4096 = e + 1" "e + 1 = s + len div 4096"
    "s \<le> e" "e < 2 ^ 28"
proof -
  obtain o' l' where ol: "offset = 4096 * o'" "len = 4096 * l'" using assms(1,2) by (auto elim!: dvdE)
  have "offset + len - 1 = (o' + l' - 1) * 4096 + 4095" using assms(3) by (simp add: ol algebra_simps)
  then show ?thesis using assms(3,4) by (intro that [of o' "o' + l' - 1"]) (simp_all add: ol)
qed

text \<open>After the directories have been created nothing fails any more.\<close>

lemma update_mapping_steps:
  assumes c: "c = vidmm_query_chip_vm_info_e3k c0" and cne: "\<not> is_cne001 c" and fresh: "env_fresh env"
    and ok: "vma_ok c root h" and known: "pd_known c 2 root (tables_mem h)"
    and node: "offset = s * 4096" "(offset + len - 1) div 4096 = e" "offset + len - 1 = e * 4096 + 4095"
      "s \<le> e" "e < 2 ^ 28"
    and alloc: "vidmm_vm_alloc_pd c env root s e h = (root1, h1, Done S_OK)"
  obtains root2 us2 root3 us3 where "vidmm_vm_update_pd c root1 = (root2, us2)"
    "ptes_written c alloc eo s s e root2 h1 root3 us3" "pd_known c 2 root1 (tables_mem h1)"
    "vidmm_vm_update_mapping c env alloc eo offset len root h age =
       (root3, h1, us2 @ us3, if \<exists>u \<in> set us2. upd_level u = 0 then age + 1 else age, Done S_OK)"
    "update_ptes_loop c alloc eo (s * 4096) (s * 4096) (e * 4096 + 4095) root2 [] = (root3, us3, S_OK)"
proof -
  have shape: "pt_shape c 2 0 root" and own: "pt_owned 2 root h" using ok by (simp_all add: vma_ok_def)
  note step1 = vidmm_vm_alloc_pd_spec [OF c fresh ok alloc]
  have known1: "pd_known c 2 root1 (tables_mem h1)" by (rule pd_known_grows [OF known shape own step1(2)])
  obtain root2 us2 where r2: "vidmm_vm_update_pd c root1 = (root2, us2)" by fastforce
  note step2 = update_pd_ok [OF c step1(1) known1 r2]
  have tables: "found_table c root2 p \<noteq> None" if "s \<le> p" "p \<le> e" for p
    using step2(4) [of p] step1(3) [of p] that node(5) by fastforce
  have loop: "vidmm_vm_update_ptes c alloc eo offset (offset + len - 1) root2 =
      update_ptes_loop c alloc eo (s * 4096) (s * 4096) (e * 4096 + 4095) root2 []"
    unfolding vidmm_vm_update_ptes_def node(3) unfolding node(1) ..
  have le: "s \<le> e + 1" using node(4) by simp
  obtain us3 root3 where r3: "vidmm_vm_update_ptes c alloc eo offset (offset + len - 1) root2 = (root3, us3, S_OK)"
    and written: "ptes_written c alloc eo s s e root2 h1 root3 us3"
    using update_ptes_loop_ok [OF c node(5) order.refl le step2(1) tables, where alloc = alloc and eo = eo and us = "[]"]
    unfolding loop by auto
  have "offset div 4096 = s" using node(1) by simp
  then have "vidmm_vm_update_mapping c env alloc eo offset len root h age =
       (root3, h1, us2 @ us3, if \<exists>u \<in> set us2. upd_level u = 0 then age + 1 else age, Done S_OK)"
    using alloc r2 r3 cne node(2) by (simp add: vidmm_vm_update_mapping_def Let_def)
  moreover have "update_ptes_loop c alloc eo (s * 4096) (s * 4096) (e * 4096 + 4095) root2 [] = (root3, us3, S_OK)"
    using r3 unfolding loop .
  ultimately show ?thesis using that r2 written known1 by blast
qed

section \<open>The calls that mapping makes\<close>

text \<open>
  A call writes into a table that exists, inside of it; it names either one table below or pages of
  the allocation that belong to the node.
\<close>

definition mapping_call :: "nat \<Rightarrow> nat \<Rightarrow> nat \<Rightarrow> nat \<Rightarrow> nat set \<Rightarrow> pte_update \<Rightarrow> bool" where
  "mapping_call alloc eo s e B u \<longleftrightarrow>
     upd_dst u \<in> B \<and> 0 < upd_npte u \<and> upd_offset u + upd_npte u \<le> 2 ^ 10 \<and>
     (case upd_entity u of
        Seg_Memory b \<Rightarrow> b \<in> B \<and> upd_level u < 2 \<and> upd_npte u = 1
      | Allocation y \<Rightarrow> y = alloc \<and> upd_level u = 2 \<and> upd_start_va u = s * 4096 \<and> upd_entity_offset u = eo \<and>
          (\<exists>k. upd_fill_va u = (s + k) * 4096 \<and> s + k + upd_npte u \<le> e + 1))"

definition tree_tables :: "vm_pt \<Rightarrow> nat set" where
  "tree_tables root = {b. \<exists>p v. pt_view 2 root p = Some (b, v)}"

lemma tree_tablesI: "pt_view 2 root p = Some (b, v) \<Longrightarrow> b \<in> tree_tables root"
  unfolding tree_tables_def by blast

lemma tree_tables_live: "pt_owned 2 root h \<Longrightarrow> tree_tables root \<subseteq> set (tables_live h)"
  using pt_owned_live unfolding tree_tables_def by blast

lemma same_tables_tree: "same_tables root root' \<Longrightarrow> tree_tables root' = tree_tables root"
  using same_tables_view same_tables_view' by (fastforce simp: tree_tables_def)

lemma update_pd_tree:
  assumes "pt_shape c 2 0 root" "vidmm_vm_update_pd c root = (root', us)"
  shows "tree_tables root' = tree_tables root"
proof -
  have "vidmmi_vm_update_level c 0 0 root = (root', us)" using assms(2) by (simp add: vidmm_vm_update_pd_def)
  then have spec: "pt_buffer root' = pt_buffer root"
    "\<And>p. p \<noteq> [] \<Longrightarrow> pt_view 2 root' p = map_option (told c) (pt_view 2 root p)"
    using update_level_ok [OF assms(1), of 0] by (simp_all add: update_level_spec_def)
  have "(\<exists>v. pt_view 2 root' p = Some (b, v)) \<longleftrightarrow> (\<exists>v. pt_view 2 root p = Some (b, v))" for p b
    using spec(1) spec(2) [of p] by (cases "p = []"; cases "pt_view 2 root p") (auto simp: pt_view_Nil told_Some)
  then show ?thesis by (simp add: tree_tables_def)
qed

lemma pt_view_index:
  assumes c: "c = vidmm_query_chip_vm_info_e3k c0" and shape: "pt_shape c 2 0 root"
    and v: "pt_view 2 root (p @ [i]) = Some v"
  shows "length p < 2" "i < 2 ^ 10"
proof -
  show len: "length p < 2" using pt_view_depth [OF shape, of "p @ [i]"] v by simp
  obtain x where "pt_at root (p @ [i]) = Some x" using v by (auto simp: pt_view_def split: option.splits)
  then obtain d where d: "pt_at root p = Some d" "pt_at d [i] = Some x" using pt_at_parent [of root p "[i]"] by blast
  have "length p + Suc (1 - length p) = 2" using len by simp
  then have "pt_shape c (length p + Suc (1 - length p)) 0 root" using shape by (simp only:)
  from pt_at_shape [OF this d(1)] have "pt_shape c (Suc (1 - length p)) (length p) d" by (simp del: pt_shape.simps)
  then have "\<forall>es. pt_entries d = Some es \<longrightarrow> length es = vidmmi_vm_pt_num_entries c (length p)"
    by (auto split: if_splits)
  moreover have "vidmmi_vm_pt_num_entries c (length p) \<le> 2 ^ 10"
    using len by (cases "length p") (auto simp: c vidmmi_vm_pt_num_entries_def less_Suc_eq)
  ultimately show "i < 2 ^ 10" using d(2) by (auto split: option.splits if_splits)
qed

lemma update_pd_calls:
  assumes c: "c = vidmm_query_chip_vm_info_e3k c0" and ok: "vma_ok c root h"
    and run: "vidmm_vm_update_pd c root = (root', us)" and u: "u \<in> set us"
  shows "mapping_call alloc eo s e (tree_tables root) u"
proof -
  have shape: "pt_shape c 2 0 root" using ok by (simp add: vma_ok_def)
  have "vidmmi_vm_update_level c 0 0 root = (root', us)" using run by (simp add: vidmm_vm_update_pd_def)
  then have "pd_call c 2 0 root u"
    using update_level_ok [OF shape, of 0] u by (simp add: update_level_spec_def)
  then obtain p i b v b' w where p: "pt_view 2 root p = Some (b, v)" "pt_view 2 root (p @ [i]) = Some (b', w)"
    "upd_dst u = b" "upd_offset u = i" "upd_npte u = 1" "upd_entity u = Seg_Memory b'" "upd_level u = length p"
    unfolding pd_call_def by auto
  then show ?thesis
    using pt_view_index [OF c shape p(2)] tree_tablesI [OF p(1)] tree_tablesI [OF p(2)]
    by (simp add: mapping_call_def)
qed

lemma update_ptes_calls:
  assumes c: "c = vidmm_query_chip_vm_info_e3k c0" and e: "e < 2 ^ 28"
  shows "\<lbrakk>v \<le> s; s \<le> e + 1; vma_ok c root h; tree_tables root = B; \<And>p. s \<le> p \<Longrightarrow> p \<le> e \<Longrightarrow> found_table c root p \<noteq> None;
     \<forall>u \<in> set us. mapping_call alloc eo v e B u;
     update_ptes_loop c alloc eo (v * 4096) (s * 4096) (e * 4096 + 4095) root us = (root', us', r); u \<in> set us'\<rbrakk> \<Longrightarrow>
   mapping_call alloc eo v e B u"
proof (induction "e + 1 - s" arbitrary: s root us rule: less_induct)
  case less
  show ?case
  proof (cases "s \<le> e")
    case False
    then have "\<not> s * 4096 < e * 4096 + 4095" by simp
    from update_ptes_loop_done [OF this] show ?thesis using less.prems(6-8) by simp
  next
    case True
    then have s: "s < 2 ^ 28" using e by simp
    have shape: "pt_shape c 2 0 root" using less.prems(3) by (simp add: vma_ok_def)
    obtain t where t: "found_table c root s = Some t" using less.prems(5) [of s] True by auto
    define n where "n = pt_chunk32 10 s e"
    note chunk = chunk_facts [OF True e, folded n_def] and step = update_ptes_loop_step [OF c True e shape t, folded n_def]
    define root1 where
      "root1 = map_at (lpath c 2 0 s) (\<lambda>pt. vidmmi_vm_pt_update_bitmap pt (s mod 2 ^ 10) (s mod 2 ^ 10 + n - 1) True) root"
    note bits = table_bits_step [OF c less.prems(3) s t root1_def]
    have shape1: "pt_shape c 2 0 root1" using bits(1) by (simp add: vma_ok_def)
    have tables: "found_table c root1 p \<noteq> None" if "s + n \<le> p" "p \<le> e" for p
      using same_tables_found [OF c shape shape1 bits(2), of p] less.prems(5) [of p] that e by auto
    have "pt_buffer t \<in> B"
      using found_table_view [OF c shape s] t tree_tablesI [of root "lpath c 2 0 s"] less.prems(4) by auto
    moreover have "\<exists>k. s = v + k" using less.prems(1) le_Suc_ex by blast
    ultimately have call: "mapping_call alloc eo v e B (page_call alloc eo v s n (pt_buffer t))"
      using chunk(2-4) by (auto simp: mapping_call_def page_call_def)
    have run: "update_ptes_loop c alloc eo (v * 4096) ((s + n) * 4096) (e * 4096 + 4095) root1
        (us @ [page_call alloc eo v s n (pt_buffer t)]) = (root', us', r)"
      using less.prems(7) unfolding step root1_def [symmetric] .
    show ?thesis
      by (rule less.hyps [OF _ _ _ bits(1) _ tables _ run less.prems(8)])
         (use chunk(2,4) True less.prems(1,4,6) call same_tables_tree [OF bits(2)] in auto)
  qed
qed

text \<open>A run of \<^verbatim>\<open>vidmm_vm_update_mapping\<close> that succeeds, taken apart.\<close>

lemma update_mapping_run:
  assumes c: "c = vidmm_query_chip_vm_info_e3k c0" and cne: "\<not> is_cne001 c" and fresh: "env_fresh env"
    and ok: "vma_ok c root h" and known: "pd_known c 2 root (tables_mem h)"
    and range: "4096 dvd offset" "4096 dvd len" "0 < len" "offset + len \<le> 2 ^ 40"
    and run: "vidmm_vm_update_mapping c env alloc eo offset len root h age = (root', h', us, age', Done S_OK)"
  obtains s e root1 root2 us2 us3 where
    "offset = s * 4096" "offset div 4096 = s" "(offset + len) div 4096 = e + 1" "e + 1 = s + len div 4096" "s \<le> e" "e < 2 ^ 28"
    "vidmm_vm_alloc_pd c env root s e h = (root1, h', Done S_OK)" "vidmm_vm_update_pd c root1 = (root2, us2)"
    "update_ptes_loop c alloc eo (s * 4096) (s * 4096) (e * 4096 + 4095) root2 [] = (root', us3, S_OK)"
    "ptes_written c alloc eo s s e root2 h' root' us3" "pd_known c 2 root1 (tables_mem h')" "us = us2 @ us3"
    "age' = (if \<exists>u \<in> set us2. upd_level u = 0 then age + 1 else age)"
proof -
  obtain s e where node: "offset = s * 4096" "offset div 4096 = s" "(offset + len - 1) div 4096 = e"
    "offset + len - 1 = e * 4096 + 4095" "(offset + len) div 4096 = e + 1" "e + 1 = s + len div 4096"
    "s \<le> e" "e < 2 ^ 28"
    using node_pages [OF range] .
  obtain root1 h1 r1 where r1: "vidmm_vm_alloc_pd c env root s e h = (root1, h1, r1)" by (metis prod_cases3)
  have "r1 = Done S_OK"
    using run r1 cne node(2,3)
    by (auto simp: vidmm_vm_update_mapping_def Let_def split: if_splits prod.splits)
  note alloc = r1 [unfolded this]
  obtain root2 us2 root3 us3 where steps: "vidmm_vm_update_pd c root1 = (root2, us2)"
    "ptes_written c alloc eo s s e root2 h1 root3 us3" "pd_known c 2 root1 (tables_mem h1)"
    "vidmm_vm_update_mapping c env alloc eo offset len root h age =
       (root3, h1, us2 @ us3, if \<exists>u \<in> set us2. upd_level u = 0 then age + 1 else age, Done S_OK)"
    "update_ptes_loop c alloc eo (s * 4096) (s * 4096) (e * 4096 + 4095) root2 [] = (root3, us3, S_OK)"
    by (rule update_mapping_steps [OF c cne fresh ok known node(1,3,4,7,8) alloc])
  then have "root' = root3" "h' = h1" "us = us2 @ us3"
    "age' = (if \<exists>u \<in> set us2. upd_level u = 0 then age + 1 else age)" using run by simp_all
  then show ?thesis using that node alloc steps by simp
qed

text \<open>
  What such a run leaves behind, for whoever carries the calls out: the engine knows every directory,
  and the entry of every page of the node is its page of the allocation.
\<close>

lemma update_mapping_entries:
  assumes c: "c = vidmm_query_chip_vm_info_e3k c0" and cne: "\<not> is_cne001 c" and fresh: "env_fresh env"
    and ok: "vma_ok c root h" and known: "pd_known c 2 root (tables_mem h)"
    and range: "4096 dvd offset" "4096 dvd len" "0 < len" "offset + len \<le> 2 ^ 40"
    and run: "vidmm_vm_update_mapping c env alloc eo offset len root h age = (root', h', us, age', Done S_OK)"
  shows "vma_ok c root' h'" "pd_all root' (execute us (tables_mem h'))"
    "\<And>i. i < len div 4096 \<Longrightarrow> \<exists>t. found_table c root' (offset div 4096 + i) = Some t \<and>
       execute us (tables_mem h') (pt_buffer t) ((offset div 4096 + i) mod 2 ^ 10) = Hw_Page alloc (i + eo div 4096)"
    "\<And>u. u \<in> set us \<Longrightarrow>
       mapping_call alloc eo (offset div 4096) (offset div 4096 + len div 4096 - 1) (tree_tables root') u"
proof -
  obtain s e root1 root2 us2 us3 where node: "offset div 4096 = s" "e + 1 = s + len div 4096" "s \<le> e" "e < 2 ^ 28"
    and alloc: "vidmm_vm_alloc_pd c env root s e h = (root1, h', Done S_OK)"
    and r2: "vidmm_vm_update_pd c root1 = (root2, us2)"
    and r3: "update_ptes_loop c alloc eo (s * 4096) (s * 4096) (e * 4096 + 4095) root2 [] = (root', us3, S_OK)"
    and written: "ptes_written c alloc eo s s e root2 h' root' us3"
    and known1: "pd_known c 2 root1 (tables_mem h')" and us: "us = us2 @ us3"
    by (rule update_mapping_run [OF assms])
  note step1 = vidmm_vm_alloc_pd_spec [OF c fresh ok alloc]
  note step2 = update_pd_ok [OF c step1(1) known1 r2]
  have mem: "execute us (tables_mem h') = execute us3 (execute us2 (tables_mem h'))" by (simp add: us execute_append)
  show "pd_all root' (execute us (tables_mem h'))"
    unfolding mem by (rule ptes_written_dirs [OF c step2(1) node(4) written step2(2)])
  show ok3: "vma_ok c root' h'" using written by (simp add: ptes_written_def)
  have st: "same_tables root2 root'" using written by (simp add: ptes_written_def)
  have shape: "pt_shape c 2 0 root2" "pt_shape c 2 0 root'" using ok3 step2(1) by (simp_all add: vma_ok_def)
  have tables: "found_table c root2 p \<noteq> None" if "s \<le> p" "p \<le> e" for p
    using step2(4) [of p] step1(3) [of p] that node(4) by fastforce
  show "\<exists>t. found_table c root' (offset div 4096 + i) = Some t \<and>
       execute us (tables_mem h') (pt_buffer t) ((offset div 4096 + i) mod 2 ^ 10) = Hw_Page alloc (i + eo div 4096)"
    if i: "i < len div 4096" for i
  proof -
    have p: "s \<le> s + i" "s + i \<le> e" "s + i < 2 ^ 28" using i node(2,4) by simp_all
    obtain t2 where t2: "found_table c root2 (s + i) = Some t2" using tables [OF p(1,2)] by auto
    obtain t3 where t3: "found_table c root' (s + i) = Some t3" "pt_buffer t3 = pt_buffer t2"
      using same_tables_found [OF c shape st p(3)] t2 by auto
    have "execute us3 (execute us2 (tables_mem h')) (pt_buffer t2) ((s + i) mod 2 ^ 10) =
        Hw_Page alloc (s + i - s + eo div 4096)"
      using written p t2 unfolding ptes_written_def by blast
    then show ?thesis unfolding node(1) mem using t3 by simp
  qed
  show "mapping_call alloc eo (offset div 4096) (offset div 4096 + len div 4096 - 1) (tree_tables root') u"
    if u: "u \<in> set us" for u
  proof -
    have e: "s + len div 4096 - 1 = e" using node(2) by simp
    show ?thesis
    proof (cases "u \<in> set us2")
      case True
      have "tree_tables root' = tree_tables root1"
        using same_tables_tree [OF st] update_pd_tree [OF _ r2] step1(1) by (simp add: vma_ok_def del: pt_shape.simps)
      then show ?thesis unfolding node(1) e using update_pd_calls [OF c step1(1) r2 True] by simp
    next
      case False
      then have "u \<in> set us3" using u us by simp
      then show ?thesis
        unfolding node(1) e
        by (intro update_ptes_calls [OF c node(4) order.refl _ step2(1) _ tables _ r3])
           (use node(3) same_tables_tree [OF st] in simp_all)
    qed
  qed
qed



end
