(* ===== verification/Page_Release.thy ===== *)
theory Page_Release
  imports Page_Map
begin

text \<open>
  The page tables of a GPU address space, third part: releasing a range and taking an address space
  down (\<^verbatim>\<open>vidmmi_vm_release_pt\<close> and \<^verbatim>\<open>vidmm_vm_release_pd\<close> of \<^verbatim>\<open>core/vidmm/vidmm_vm.c\<close>). Releasing
  clears the bits of the pages and frees a table when its last bit is cleared. It is the CPU that
  does this; the engine's memory is not written.
\<close>

section \<open>Releasing a range\<close>

text \<open>The entry of a table that has been freed.\<close>

fun free_pt :: "vm_pt \<Rightarrow> vm_pt" where
  "free_pt (Vm_Pt b a bm es g) = Vm_Pt 0 0 None es g"

text \<open>
  The part of one table. \<open>path\<close> is the position of the table, \<open>s\<close> the first page, \<open>n\<close> the number of
  pages in this table.
\<close>

definition release_table ::
    "vm_chip \<Rightarrow> nat list \<Rightarrow> vm_pt \<Rightarrow> nat \<Rightarrow> nat \<Rightarrow> vm_pt \<Rightarrow> pt_heap \<Rightarrow> vm_pt \<times> pt_heap" where
  "release_table c path entry s n root h =
     (let level = vidmmi_vm_leaf_pd_level c;
          off = s mod vidmmi_vm_pt_num_entries c (level + 1);
          parent_offset = (s div 2 ^ vidmmi_vm_accum_pd_bits_count c level) mod
                          vidmmi_vm_pt_num_entries c level;
          entry' = vidmmi_vm_pt_update_bitmap entry off (off + n - 1) False;
          root1 = map_at path (\<lambda>_. entry') root
      in if (\<exists>bm. pt_bitmap entry' = Some bm \<and> list_ex id bm) then (root1, h)
         else if is_cne001 c then (root1, h)
         else (map_at (butlast path)
                 (\<lambda>pt. vidmmi_vm_pt_update_bitmap pt parent_offset parent_offset False)
                 (map_at path free_pt root1),
               vidmm_destroy_table (pt_buffer entry) h))"

function release_pt_loop :: "vm_chip \<Rightarrow> nat \<Rightarrow> nat \<Rightarrow> vm_pt \<Rightarrow> pt_heap \<Rightarrow> vm_pt \<times> pt_heap" where
  "release_pt_loop c start_addr end_addr root h =
     (if start_addr < end_addr then
        let s = start_addr div 4096;
            e = end_addr div 4096;
            k = vidmmi_vm_pt_bits_count c (vidmmi_vm_leaf_pd_level c + 1);
            (root1, h1) =
              (case vidmmi_vm_get_pt_entry c root s of
                 None \<Rightarrow> (root, h)
               | Some (path, entry) \<Rightarrow>
                   if pt_buffer entry = 0 then (root, h)
                   else release_table c path entry s (pt_chunk64 k s e) root h)
        in release_pt_loop c ((s + pt_chunk32 k s e) * 4096) end_addr root1 h1
      else (root, h))"
  by pat_completeness auto
termination
proof (relation "measure (\<lambda>(c, s, e, root, h). e - s)", goal_cases)
  case (2 c start_addr end_addr root h s e k x root1 h1)
  have "start_addr < (s + pt_chunk32 k s e) * 4096"
    using pt_chunk32_positive [of k s e] 2(2) by (simp add: div_mult_mod_eq [symmetric])
  then show ?case using 2(1) by simp
qed simp

declare release_pt_loop.simps [simp del]

text \<open>\<^verbatim>\<open>vidmmi_vm_release_pt\<close>, which always returns success.\<close>

definition vidmmi_vm_release_pt :: "vm_chip \<Rightarrow> nat \<Rightarrow> nat \<Rightarrow> vm_pt \<Rightarrow> pt_heap \<Rightarrow> vm_pt \<times> pt_heap" where
  "vidmmi_vm_release_pt c start_addr end_addr root h = release_pt_loop c start_addr end_addr root h"

section \<open>Changing a table anywhere in the tree\<close>

definition pt_fields :: "vm_pt \<Rightarrow> nat \<times> nat \<times> nat \<times> bool list option" where
  "pt_fields pt = (pt_buffer pt, pt_addr pt, pt_age pt, pt_bitmap pt)"

lemma pt_view_fields:
  "map_option pt_fields (pt_at pt p) = map_option pt_fields (pt_at pt' p) \<Longrightarrow>
   pt_view d pt p = pt_view d pt' p"
  by (cases "pt_at pt p"; cases "pt_at pt' p") (auto simp: pt_view_def pt_fields_def)

lemma pt_at_map_at:
  "pt_at root path = Some e \<Longrightarrow> pt_at (map_at path f root) (path @ r) = pt_at (f e) r"
proof (induction path arbitrary: root)
  case (Cons i path)
  obtain es where es: "pt_entries root = Some es" "i < length es" "pt_at (es ! i) path = Some e"
    using Cons.prems by (auto split: option.splits if_splits)
  then show ?case using Cons.IH [OF es(3)] by (cases root) auto
qed simp

lemma pt_at_map_at_other:
  "pt_at root path = Some e \<Longrightarrow> \<nexists>r. q = path @ r \<Longrightarrow>
   map_option pt_fields (pt_at (map_at path f root) q) = map_option pt_fields (pt_at root q)"
proof (induction path arbitrary: root q)
  case (Cons i path)
  obtain es where es: "pt_entries root = Some es" "i < length es" "pt_at (es ! i) path = Some e"
    using Cons.prems(1) by (auto split: option.splits if_splits)
  obtain b a bm g where root: "root = Vm_Pt b a bm (Some es) g" using es(1) by (cases root) auto
  show ?case
  proof (cases q)
    case Nil
    then show ?thesis by (simp add: root pt_fields_def)
  next
    case (Cons j q')
    show ?thesis
    proof (cases "j = i")
      case True
      then have "\<nexists>r. q' = path @ r" using Cons.prems(2) Cons by simp
      then show ?thesis using Cons.IH [OF es(3)] es(2) True by (simp add: root Cons)
    next
      case False
      then show ?thesis by (simp add: root Cons)
    qed
  qed
qed simp

text \<open>A change that makes no new table keeps the shape above it.\<close>

lemma map_at_shape_below:
  assumes "pt_shape c (length path + m) l root" "pt_at root path = Some e"
    and "pt_shape c m (l + length path) (f e)" "pt_buffer (f e) \<noteq> 0 \<Longrightarrow> pt_buffer e \<noteq> 0"
  shows "pt_shape c (length path + m) l (map_at path f root)"
    "pt_buffer (map_at path f root) \<noteq> 0 \<Longrightarrow> pt_buffer root \<noteq> 0"
    "path \<noteq> [] \<Longrightarrow> pt_buffer (map_at path f root) = pt_buffer root"
proof -
  have "pt_shape c (length path + m) l (map_at path f root) \<and>
     (pt_buffer (map_at path f root) \<noteq> 0 \<longrightarrow> pt_buffer root \<noteq> 0) \<and>
     (path \<noteq> [] \<longrightarrow> pt_buffer (map_at path f root) = pt_buffer root)"
    using assms(1-3)
  proof (induction path arbitrary: l root)
    case Nil
    then show ?case using assms(4) by auto
  next
    case (Cons i path)
    obtain es where es: "pt_entries root = Some es" "i < length es" "pt_at (es ! i) path = Some e"
      using Cons.prems(2) by (auto split: option.splits if_splits)
    obtain b a bm g where root: "root = Vm_Pt b a bm (Some es) g" using es(1) by (cases root) auto
    have shape: "pt_shape c (Suc (length path + m)) l root" using Cons.prems(1) by simp
    have nb: "pt_buffer root \<noteq> 0" by (rule pt_shape_entries [OF shape es(1)])
    have sh: "pt_shape c (length path + m) (l + 1) (es ! i)" by (rule pt_shape_child [OF shape nb es(1,2)])
    have sub: "pt_shape c (length path + m) (l + 1) (map_at path f (es ! i)) \<and>
        (pt_buffer (map_at path f (es ! i)) \<noteq> 0 \<longrightarrow> pt_buffer (es ! i) \<noteq> 0)"
      using Cons.IH [OF sh es(3)] Cons.prems(3) by simp
    then have "\<forall>j < length es. pt_shape c (length path + m) (l + 1) (es[i := map_at path f (es ! i)] ! j) \<and>
        (pt_buffer (es[i := map_at path f (es ! i)] ! j) \<noteq> 0 \<longrightarrow> pt_buffer (es ! j) \<noteq> 0)"
      using shape nb es by (auto simp: nth_list_update)
    then show ?case using shape nb by (auto simp: root)
  qed
  then show "pt_shape c (length path + m) l (map_at path f root)"
    "pt_buffer (map_at path f root) \<noteq> 0 \<Longrightarrow> pt_buffer root \<noteq> 0"
    "path \<noteq> [] \<Longrightarrow> pt_buffer (map_at path f root) = pt_buffer root" by blast+
qed

lemma map_at_id: "map_at path (\<lambda>x. x) root = root"
proof (induction path arbitrary: root)
  case (Cons i path)
  obtain b a bm eso g where root: "root = Vm_Pt b a bm eso g" by (cases root)
  show ?case using Cons by (cases eso) (simp_all add: root)
qed simp

lemma map_at_cong:
  "pt_at root path = Some e \<Longrightarrow> f e = g e \<Longrightarrow> map_at path f root = map_at path g root"
proof (induction path arbitrary: root)
  case (Cons i path)
  obtain es where es: "pt_entries root = Some es" "i < length es" "pt_at (es ! i) path = Some e"
    using Cons.prems(1) by (auto split: option.splits if_splits)
  then show ?case using Cons.IH [OF es(3) Cons.prems(2)] by (cases root) auto
qed simp

lemma clear_dead_bit_shape:
  assumes "pt_shape c (Suc m) l d" "pt_at d [j] = Some x" "pt_buffer x = 0"
  shows "pt_shape c (Suc m) l (vidmmi_vm_pt_update_bitmap d j j False)"
proof -
  obtain es where es: "pt_entries d = Some es" "j < length es" "es ! j = x"
    using assms(2) by (auto split: option.splits if_splits)
  have nb: "pt_buffer d \<noteq> 0" by (rule pt_shape_entries [OF assms(1) es(1)])
  then obtain bm where bm: "pt_bitmap d = Some bm" "length bm = vidmmi_vm_pt_num_entries c l"
    "length es = vidmmi_vm_pt_num_entries c l" "\<forall>i < length es. pt_shape c m (l + 1) (es ! i)"
    "\<forall>i < length es. pt_buffer (es ! i) \<noteq> 0 \<longrightarrow> bm ! i"
    using assms(1) es(1) by auto
  have "pt_bitmap (vidmmi_vm_pt_update_bitmap d j j False) = Some (bitmap_write bm j j False)"
    by (simp add: vidmmi_vm_pt_update_bitmap_def bm)
  moreover have "bitmap_write bm j j False ! i" if "i < length es" "pt_buffer (es ! i) \<noteq> 0" for i
    using that bm es assms(3) by (auto simp: bitmap_write_nth)
  ultimately show ?thesis using nb bm es by simp
qed

lemma free_pt_fields [simp]:
  "pt_buffer (free_pt pt) = 0" "pt_addr (free_pt pt) = 0" "pt_bitmap (free_pt pt) = None"
  "pt_entries (free_pt pt) = pt_entries pt"
  by (cases pt; simp)+

text \<open>Freeing a table takes it out of the tree and changes nothing else.\<close>

lemma free_table_step:
  assumes c: "c = vidmm_query_chip_vm_info_e3k c0" and shape: "pt_shape c 2 0 root" and nb: "pt_buffer root \<noteq> 0"
    and at: "pt_at root [i, j] = Some t"
    and root': "root' = map_at [i] (\<lambda>pt. vidmmi_vm_pt_update_bitmap pt j j False) (map_at [i, j] free_pt root)"
  shows "pt_shape c 2 0 root'" "pt_buffer root' = pt_buffer root"
    "pt_view 2 root' q = (if q = [i, j] then None else pt_view 2 root q)"
proof -
  let ?r = "map_at [i, j] free_pt root"
  have leaf: "pt_shape c 0 (0 + 2) t" using pt_at_leaf [OF shape at] by simp
  have r_shape: "pt_shape c (length [i, j] + 0) 0 ?r" "pt_buffer ?r = pt_buffer root"
  proof -
    have sh: "pt_shape c (length [i, j] + 0) 0 root" using shape by (simp add: numeral_2_eq_2 del: pt_shape.simps)
    have fr: "pt_shape c 0 (0 + length [i, j]) (free_pt t)" using leaf by simp
    show "pt_shape c (length [i, j] + 0) 0 ?r" "pt_buffer ?r = pt_buffer root"
      using map_at_shape_below [where f = free_pt, OF sh at fr] by simp_all
  qed
  have at_r: "pt_at ?r [i, j] = Some (free_pt t)"
    using pt_at_map_at [OF at, of free_pt "[]"] by simp
  then obtain d where d: "pt_at ?r [i] = Some d" "pt_at d [j] = Some (free_pt t)"
    using pt_at_parent [of ?r "[i]" "[j]"] by auto
  have d_shape: "pt_shape c (Suc 0) (0 + length [i]) d"
    by (rule pt_at_shape [OF _ d(1)]) (use r_shape(1) in \<open>simp del: pt_shape.simps\<close>)
  have f_shape: "pt_shape c (Suc 0) (0 + length [i]) (vidmmi_vm_pt_update_bitmap d j j False)"
    by (rule clear_dead_bit_shape [OF d_shape d(2)]) simp
  have "pt_shape c (length [i] + Suc 0) 0 root'" "pt_buffer root' = pt_buffer ?r"
    unfolding root'
    by (rule map_at_shape_below [where f = "\<lambda>pt. vidmmi_vm_pt_update_bitmap pt j j False", OF _ d(1) f_shape]; use r_shape(1) in \<open>simp del: pt_shape.simps\<close>)+
  then show "pt_shape c 2 0 root'" "pt_buffer root' = pt_buffer root"
    using r_shape(2) by (simp_all add: numeral_2_eq_2 del: pt_shape.simps)
  have v1: "pt_view 2 ?r q = (if q = [i, j] then None else pt_view 2 root q)" for q
  proof (cases "\<exists>r. q = [i, j] @ r")
    case True
    then obtain r where q: "q = [i, j] @ r" by blast
    have e: "pt_entries t = None" using leaf by simp
    show ?thesis
    proof (cases r)
      case Nil
      then show ?thesis using at_r by (simp add: q pt_view_def)
    next
      case (Cons k r')
      have "pt_at root q = None"
      proof (cases "pt_at root q")
        case (Some x)
        then show ?thesis using pt_at_parent [of root "[i, j]" "k # r'" x] at e by (simp add: q Cons)
      qed
      moreover have "pt_at ?r q = None" using pt_at_map_at [OF at, of free_pt r] e by (simp add: q Cons)
      ultimately show ?thesis by (simp add: pt_view_def q Cons)
    qed
  next
    case False
    then show ?thesis using pt_view_fields [OF pt_at_map_at_other [OF at False]] by auto
  qed
  have "pt_view 2 root' q = pt_view 2 ?r q"
  proof (cases "\<exists>r. q = [i] @ r")
    case True
    then obtain r where q: "q = [i] @ r" by blast
    have "pt_at root' q = pt_at (vidmmi_vm_pt_update_bitmap d j j False) r"
      unfolding root' q by (rule pt_at_map_at [OF d(1)])
    moreover have "pt_at ?r q = pt_at d r"
      using pt_at_map_at [OF d(1), of "\<lambda>x. x" r] map_at_id [of "[i]" ?r] by (simp add: q)
    ultimately show ?thesis by (cases r) (auto simp: pt_view_def q)
  next
    case False
    then show ?thesis unfolding root' by (rule pt_view_fields [OF pt_at_map_at_other [OF d(1)]])
  qed
  with v1 show "pt_view 2 root' q = (if q = [i, j] then None else pt_view 2 root q)" by simp
qed

section \<open>What releasing a range does\<close>

text \<open>The body of the loop: the table of page \<open>s\<close>, if there is one.\<close>

definition release_step :: "vm_chip \<Rightarrow> nat \<Rightarrow> nat \<Rightarrow> vm_pt \<Rightarrow> pt_heap \<Rightarrow> vm_pt \<times> pt_heap" where
  "release_step c s n root h =
     (case found_table c root s of None \<Rightarrow> (root, h)
      | Some t \<Rightarrow> release_table c (lpath c 2 0 s) t s n root h)"

text \<open>
  Releasing the pages \<open>s..e\<close>: they are no longer in use, the others as before; a table is gone exactly
  when a page of it was released and none of it is in use any more, otherwise it is where it was; and
  exactly the buffers of the tables that are gone have been given back.
\<close>

definition pt_released ::
    "vm_chip \<Rightarrow> nat \<Rightarrow> nat \<Rightarrow> vm_pt \<Rightarrow> pt_heap \<Rightarrow> vm_pt \<Rightarrow> pt_heap \<Rightarrow> bool" where
  "pt_released c s e root h root' h' \<longleftrightarrow>
     vma_ok c root' h' \<and> tables_mem h' = tables_mem h \<and>
     pt_buffer root' = pt_buffer root \<and>
     (\<forall>p < 2 ^ 28. page_used c root' p \<longleftrightarrow> page_used c root p \<and> \<not> (s \<le> p \<and> p \<le> e)) \<and>
     (\<forall>p < 2 ^ 28. found_table c root p = None \<longrightarrow> found_table c root' p = None) \<and>
     (\<forall>p t. p < 2 ^ 28 \<and> found_table c root p = Some t \<longrightarrow>
        (found_table c root' p = None \<longleftrightarrow>
           (\<exists>q. s \<le> q \<and> q \<le> e \<and> q div 2 ^ 10 = p div 2 ^ 10) \<and>
           (\<forall>q < 2 ^ 28. q div 2 ^ 10 = p div 2 ^ 10 \<longrightarrow> \<not> page_used c root' q)) \<and>
        (\<forall>t'. found_table c root' p = Some t' \<longrightarrow> pt_buffer t' = pt_buffer t)) \<and>
     set (tables_live h') = set (tables_live h) -
       {pt_buffer t | p t. p < 2 ^ 28 \<and> found_table c root p = Some t \<and> found_table c root' p = None}"

lemma pt_releasedI:
  assumes "vma_ok c root' h'" "tables_mem h' = tables_mem h"
    "pt_buffer root' = pt_buffer root"
    "\<And>p. p < 2 ^ 28 \<Longrightarrow> page_used c root' p \<longleftrightarrow> page_used c root p \<and> \<not> (s \<le> p \<and> p \<le> e)"
    "\<And>p. p < 2 ^ 28 \<Longrightarrow> found_table c root p = None \<Longrightarrow> found_table c root' p = None"
    "\<And>p t. p < 2 ^ 28 \<Longrightarrow> found_table c root p = Some t \<Longrightarrow> found_table c root' p = None \<longleftrightarrow>
       (\<exists>q. s \<le> q \<and> q \<le> e \<and> q div 2 ^ 10 = p div 2 ^ 10) \<and>
       (\<forall>q < 2 ^ 28. q div 2 ^ 10 = p div 2 ^ 10 \<longrightarrow> \<not> page_used c root' q)"
    "\<And>p t t'. p < 2 ^ 28 \<Longrightarrow> found_table c root p = Some t \<Longrightarrow> found_table c root' p = Some t' \<Longrightarrow>
       pt_buffer t' = pt_buffer t"
    "set (tables_live h') = set (tables_live h) -
       {pt_buffer t | p t. p < 2 ^ 28 \<and> found_table c root p = Some t \<and> found_table c root' p = None}"
  shows "pt_released c s e root h root' h'"
  unfolding pt_released_def using assms by blast

lemma page_used_block:
  assumes "p div 2 ^ 10 = q div 2 ^ 10" "found_table c root p = found_table c root q"
  shows "page_used c root p \<longleftrightarrow> (case found_table c root q of None \<Rightarrow> False
     | Some t \<Rightarrow> bit_set (pt_bitmap t) (p mod 2 ^ 10))"
  using assms(2) by (simp add: page_used_def)

lemma found_table_same_block:
  assumes "c = vidmm_query_chip_vm_info_e3k c0" "pt_shape c 2 0 root" "p < 2 ^ 28" "q < 2 ^ 28"
    "p div 2 ^ 10 = q div 2 ^ 10"
  shows "found_table c root p = found_table c root q"
proof -
  have l: "lpath c 2 0 p = lpath c 2 0 q" using assms(1,5) by (simp add: e3k_lpath_eq)
  show ?thesis
  proof (cases "found_table c root p")
    case None
    then have "pt_view 2 root (lpath c 2 0 p) = None" using found_table_view [OF assms(1,2,3)] by simp
    then show ?thesis using found_table_view [OF assms(1,2,4)] l None by simp
  next
    case (Some t)
    have "pt_at root (lpath c 2 0 p) = Some t" by (rule found_table_at(3) [OF assms(1-3) Some])
    moreover have "found_table c root q \<noteq> None"
      using found_table_view [OF assms(1,2,3)] found_table_view [OF assms(1,2,4)] l Some by auto
    then obtain t' where t': "found_table c root q = Some t'" by auto
    moreover have "pt_at root (lpath c 2 0 q) = Some t'" by (rule found_table_at(3) [OF assms(1,2,4) t'])
    ultimately show ?thesis using l Some by simp
  qed
qed

lemma found_table_same_view:
  assumes c: "c = vidmm_query_chip_vm_info_e3k c0" and s: "pt_shape c 2 0 root" "pt_shape c 2 0 root'"
    and p: "p < 2 ^ 28" and v: "pt_view 2 root' (lpath c 2 0 p) = pt_view 2 root (lpath c 2 0 p)"
  shows "found_table c root' p = found_table c root p"
proof -
  note e = found_table_view [OF c s(2) p] found_table_view [OF c s(1) p]
  show ?thesis
  proof (cases "found_table c root p")
    case None
    then show ?thesis using v e by simp
  next
    case (Some t)
    then obtain t' where t': "found_table c root' p = Some t'" using v e by (cases "found_table c root' p") simp_all
    have "t' = t" by (rule found_table_eqI [OF t' Some]) (use v e Some t' in simp_all)
    then show ?thesis using Some t' by simp
  qed
qed

lemma list_ex_bits: "length bm = m \<Longrightarrow> list_ex id bm \<longleftrightarrow> (\<exists>k < m. bit_set (Some bm) k)"
  by (auto simp: list_ex_length bit_set_def)

lemma release_table_e3k:
  assumes c: "c = vidmm_query_chip_vm_info_e3k c0" and cne: "\<not> is_cne001 c" and s: "s < 2 ^ 28"
    and at: "pt_at root (lpath c 2 0 s) = Some t"
    and bm: "pt_bitmap (vidmmi_vm_pt_update_bitmap t (s mod 2 ^ 10) (s mod 2 ^ 10 + n - 1) False) = Some bm"
    and root1: "root1 = map_at (lpath c 2 0 s)
       (\<lambda>pt. vidmmi_vm_pt_update_bitmap pt (s mod 2 ^ 10) (s mod 2 ^ 10 + n - 1) False) root"
    and ij: "lpath c 2 0 s = [i, j]"
  shows "release_table c (lpath c 2 0 s) t s n root h =
     (if list_ex id bm then (root1, h)
      else (map_at [i] (\<lambda>pt. vidmmi_vm_pt_update_bitmap pt j j False) (map_at [i, j] free_pt root1),
            vidmm_destroy_table (pt_buffer t) h))"
proof -
  have j: "(s div 2 ^ 10) mod 2 ^ 10 = j"
    using ij mod_mult2_eq [of s "2 ^ 10" "2 ^ 10"] by (simp add: c e3k_lpath power_add [symmetric])
  have r: "map_at (lpath c 2 0 s) (\<lambda>_. vidmmi_vm_pt_update_bitmap t (s mod 2 ^ 10) (s mod 2 ^ 10 + n - 1) False) root = root1"
    unfolding root1 by (rule map_at_cong [OF at]) simp
  have N: "vidmmi_vm_pt_num_entries c (1 + 1) = 2 ^ 10" "vidmmi_vm_pt_num_entries c 1 = 2 ^ 10"
    "vidmmi_vm_accum_pd_bits_count c 1 = 10" "vidmmi_vm_leaf_pd_level c = 1"
    by (simp_all add: c vidmmi_vm_pt_num_entries_def)
  show ?thesis
    unfolding release_table_def Let_def N j r bm using cne by (simp add: ij)
qed

lemma release_step_ok:
  assumes c: "c = vidmm_query_chip_vm_info_e3k c0" and cne: "\<not> is_cne001 c" and ok: "vma_ok c root h"
    and n: "0 < n" "s mod 2 ^ 10 + n \<le> 2 ^ 10" "s + n \<le> 2 ^ 28"
    and run: "release_step c s n root h = (root', h')"
  shows "pt_released c s (s + n - 1) root h root' h'"
proof -
  have s: "s < 2 ^ 28" using n by simp
  have shape: "pt_shape c 2 0 root" and nb: "pt_buffer root \<noteq> 0" and own: "pt_owned 2 root h"
    using ok by (simp_all add: vma_ok_def)
  have in_block: "p div 2 ^ 10 = s div 2 ^ 10 \<and> p mod 2 ^ 10 = s mod 2 ^ 10 + (p - s)"
    if "s \<le> p" "p \<le> s + n - 1" for p
    using block_index [of s 10 "p - s"] n that by simp
  have block_in: "s \<le> p \<and> p \<le> s + n - 1 \<longleftrightarrow> s mod 2 ^ 10 \<le> p mod 2 ^ 10 \<and> p mod 2 ^ 10 \<le> s mod 2 ^ 10 + n - 1"
    if "p div 2 ^ 10 = s div 2 ^ 10" for p
  proof -
    have "p = p div 2 ^ 10 * 2 ^ 10 + p mod 2 ^ 10" "s = s div 2 ^ 10 * 2 ^ 10 + s mod 2 ^ 10"
      by (simp_all only: div_mult_mod_eq)
    moreover have "p div 2 ^ 10 * 2 ^ 10 = s div 2 ^ 10 * 2 ^ 10" using that by simp
    ultimately have "p + s mod 2 ^ 10 = s + p mod 2 ^ 10" by linarith
    then show ?thesis using n(1) by linarith
  qed
  have block_lt: "p < 2 ^ 28" if "p div 2 ^ 10 = s div 2 ^ 10" for p
  proof -
    have "s div 2 ^ 10 < 2 ^ 18" using s by simp
    then have "p div 2 ^ 10 < 2 ^ 18" using that by simp
    then show ?thesis by simp
  qed
  have touched: "(\<exists>q. s \<le> q \<and> q \<le> s + n - 1 \<and> q div 2 ^ 10 = p div 2 ^ 10) \<longleftrightarrow> p div 2 ^ 10 = s div 2 ^ 10" for p
  proof
    assume "\<exists>q. s \<le> q \<and> q \<le> s + n - 1 \<and> q div 2 ^ 10 = p div 2 ^ 10"
    then show "p div 2 ^ 10 = s div 2 ^ 10" using in_block by metis
  next
    assume "p div 2 ^ 10 = s div 2 ^ 10"
    then show "\<exists>q. s \<le> q \<and> q \<le> s + n - 1 \<and> q div 2 ^ 10 = p div 2 ^ 10"
      using n(1) by (intro exI [of _ s]) simp
  qed
  show ?thesis
  proof (cases "found_table c root s")
    case None
    then have "root' = root" "h' = h" using run by (simp_all add: release_step_def)
    have "found_table c root p = None" if "p div 2 ^ 10 = s div 2 ^ 10" for p
      using found_table_same_block [OF c shape block_lt [OF that] s that] None by simp
    then have none: "p div 2 ^ 10 = s div 2 ^ 10 \<Longrightarrow> found_table c root p = None \<and> \<not> page_used c root p" for p
      by (simp add: page_used_def)
    show ?thesis
      unfolding \<open>root' = root\<close> \<open>h' = h\<close>
    proof (rule pt_releasedI)
      fix p :: nat assume "p < 2 ^ 28"
      show "page_used c root p \<longleftrightarrow> page_used c root p \<and> \<not> (s \<le> p \<and> p \<le> s + n - 1)"
        using none in_block by blast
    next
      fix p t assume "found_table c root p = Some t"
      then have "p div 2 ^ 10 \<noteq> s div 2 ^ 10" using none [of p] by auto
      then show "found_table c root p = None \<longleftrightarrow>
         (\<exists>q. s \<le> q \<and> q \<le> s + n - 1 \<and> q div 2 ^ 10 = p div 2 ^ 10) \<and>
         (\<forall>q < 2 ^ 28. q div 2 ^ 10 = p div 2 ^ 10 \<longrightarrow> \<not> page_used c root q)"
        using \<open>found_table c root p = Some t\<close> unfolding touched by simp
    qed (use ok in auto)
  next
    case (Some t)
    note at = found_table_at [OF c shape s Some]
    obtain i j where ij: "lpath c 2 0 s = [i, j]" by (simp add: c e3k_lpath)
    define hi where "hi = s mod 2 ^ 10 + n - 1"
    define root1 where "root1 = map_at (lpath c 2 0 s) (\<lambda>pt. vidmmi_vm_pt_update_bitmap pt (s mod 2 ^ 10) hi False) root"
    obtain bm0 where bm0: "pt_bitmap t = Some bm0" "length bm0 = 2 ^ 10"
      using at(2,4) by (auto simp: vidmmi_vm_pt_num_entries_def c)
    define bm where "bm = bitmap_write bm0 (s mod 2 ^ 10) hi False"
    have bm: "pt_bitmap (vidmmi_vm_pt_update_bitmap t (s mod 2 ^ 10) hi False) = Some bm" "length bm = 2 ^ 10"
      by (simp_all add: vidmmi_vm_pt_update_bitmap_def bm0 bm_def)
    have run': "(root', h') = (if list_ex id bm then (root1, h)
      else (map_at [i] (\<lambda>pt. vidmmi_vm_pt_update_bitmap pt j j False) (map_at [i, j] free_pt root1),
            vidmm_destroy_table (pt_buffer t) h))"
      using release_table_e3k [OF c cne s at(3) bm(1) [unfolded hi_def] root1_def [unfolded hi_def] ij, of h] run Some
      by (simp add: release_step_def)
    note bits = table_bits_step [OF c ok s Some root1_def]
    have shape1: "pt_shape c 2 0 root1" and nb1: "pt_buffer root1 \<noteq> 0" using bits(1) by (simp_all add: vma_ok_def)
    have buf1: "pt_buffer root1 = pt_buffer root"
      using bits(4) [of "[]"] ij nb nb1 by (simp add: pt_view_Nil)
    have used1: "page_used c root1 p \<longleftrightarrow> page_used c root p \<and> \<not> (s \<le> p \<and> p \<le> s + n - 1)" if "p < 2 ^ 28" for p
      using bits(3) [OF that] block_in [of p] in_block [of p] by (auto simp: hi_def)
    have found1: "map_option pt_buffer (found_table c root1 p) = map_option pt_buffer (found_table c root p)"
      if "p < 2 ^ 28" for p by (rule same_tables_found [OF c shape shape1 bits(2) that])
    obtain t1 where t1: "found_table c root1 s = Some t1" "pt_buffer t1 = pt_buffer t" using found1 [OF s] Some by auto
    have t1_bm: "pt_bitmap t1 = Some bm"
      using found_table_view [OF c shape1 s] t1(1) bits(4) [of "lpath c 2 0 s"] bm(1) by simp
    have block1: "found_table c root1 p = Some t1" if "p div 2 ^ 10 = s div 2 ^ 10" for p
      using found_table_same_block [OF c shape1 block_lt [OF that] s that] t1 by simp
    have any: "list_ex id bm \<longleftrightarrow> (\<exists>q < 2 ^ 28. q div 2 ^ 10 = s div 2 ^ 10 \<and> page_used c root1 q)"
    proof
      assume "list_ex id bm"
      then obtain k where k: "k < 2 ^ 10" "bit_set (Some bm) k" using list_ex_bits [OF bm(2)] by blast
      define q where "q = s div 2 ^ 10 * 2 ^ 10 + k"
      have "q div 2 ^ 10 = s div 2 ^ 10 \<and> q mod 2 ^ 10 = k" using k(1) by (simp add: q_def)
      then show "\<exists>q < 2 ^ 28. q div 2 ^ 10 = s div 2 ^ 10 \<and> page_used c root1 q"
        using block1 [of q] block_lt [of q] t1_bm k(2) by (auto simp: page_used_def)
    next
      assume "\<exists>q < 2 ^ 28. q div 2 ^ 10 = s div 2 ^ 10 \<and> page_used c root1 q"
      then obtain q where q: "q div 2 ^ 10 = s div 2 ^ 10" "page_used c root1 q" by blast
      have "bit_set (Some bm) (q mod 2 ^ 10)" using q block1 [OF q(1)] t1_bm by (simp add: page_used_def)
      then show "list_ex id bm" using list_ex_bits [OF bm(2)] by (metis mod_less_divisor zero_less_numeral zero_less_power)
    qed
    show ?thesis
    proof (cases "list_ex id bm")
      case True
      then have res: "root' = root1" "h' = h" using run' by simp_all
      show ?thesis
        unfolding res
      proof (rule pt_releasedI)
        fix p t assume p: "p < 2 ^ 28" "found_table c root p = Some t"
        then have some: "found_table c root1 p \<noteq> None" using found1 [OF p(1)] by auto
        have "\<exists>q < 2 ^ 28. q div 2 ^ 10 = p div 2 ^ 10 \<and> page_used c root1 q" if "p div 2 ^ 10 = s div 2 ^ 10"
          using any True that by simp
        then show "found_table c root1 p = None \<longleftrightarrow>
           (\<exists>q. s \<le> q \<and> q \<le> s + n - 1 \<and> q div 2 ^ 10 = p div 2 ^ 10) \<and>
           (\<forall>q < 2 ^ 28. q div 2 ^ 10 = p div 2 ^ 10 \<longrightarrow> \<not> page_used c root1 q)"
          using some unfolding touched by blast
      next
        fix p t t' assume "p < 2 ^ 28" "found_table c root p = Some t" "found_table c root1 p = Some t'"
        then show "pt_buffer t' = pt_buffer t" using found1 [of p] by simp
      next
        fix p assume "p < 2 ^ 28" "found_table c root p = None"
        then show "found_table c root1 p = None" using found1 [of p] by simp
      next
        have "\<not> (found_table c root p = Some x \<and> found_table c root1 p = None)" if "p < 2 ^ 28" for p x
          using found1 [OF that] by auto
        then have "{pt_buffer x | p x. p < 2 ^ 28 \<and> found_table c root p = Some x \<and> found_table c root1 p = None} = {}"
          by blast
        then show "set (tables_live h) = set (tables_live h) -
          {pt_buffer x | p x. p < 2 ^ 28 \<and> found_table c root p = Some x \<and> found_table c root1 p = None}"
          by (simp only: Diff_empty)
      qed (use bits(1) buf1 used1 in auto)
    next
      case False
      then have root': "root' = map_at [i] (\<lambda>pt. vidmmi_vm_pt_update_bitmap pt j j False) (map_at [i, j] free_pt root1)"
        and h': "h' = vidmm_destroy_table (pt_buffer t) h" using run' by simp_all
      have at1: "pt_at root1 [i, j] = Some t1" using found_table_at(3) [OF c shape1 s t1(1)] ij by simp
      note free = free_table_step [OF c shape1 nb1 at1 root']
      have live: "set (tables_live h') = set (tables_live h) - {pt_buffer t}"
        by (simp add: h' vidmm_destroy_table_def)
      have own1: "pt_owned 2 root1 h" using bits(1) by (simp add: vma_ok_def)
      have v_t: "pt_view 2 root1 [i, j] = Some (pt_buffer t, pt_addr t1, pt_age t1, pt_bitmap t1)"
        using found_table_view [OF c shape1 s] t1 ij by simp
      have own': "pt_owned 2 root' h'"
        unfolding pt_owned_def
      proof (intro conjI allI impI)
        fix p b v assume v: "pt_view 2 root' p = Some (b, v)"
        then have p: "p \<noteq> [i, j]" "pt_view 2 root1 p = Some (b, v)" using free(3) [of p] by (auto split: if_splits)
        then have "b \<noteq> pt_buffer t" using pt_owned_inj [OF own1 p(2)] v_t by blast
        then show "b \<in> set (tables_live h')" using pt_owned_live [OF own1 p(2)] live by simp
      next
        fix p q b v w assume "pt_view 2 root' p = Some (b, v) \<and> pt_view 2 root' q = Some (b, w)"
        then have "pt_view 2 root1 p = Some (b, v)" "pt_view 2 root1 q = Some (b, w)"
          unfolding free(3) by (simp_all split: if_splits)
        then show "p = q" by (rule pt_owned_inj [OF own1])
      qed
      have found: "found_table c root' p = (if p div 2 ^ 10 = s div 2 ^ 10 then None else found_table c root1 p)"
        if p: "p < 2 ^ 28" for p
      proof -
        have ip: "lpath c 2 0 p = [i, j] \<longleftrightarrow> p div 2 ^ 10 = s div 2 ^ 10"
          unfolding ij [symmetric] by (simp add: c e3k_lpath_eq)
        show ?thesis
        proof (cases "p div 2 ^ 10 = s div 2 ^ 10")
          case True
          then show ?thesis using found_table_view [OF c free(1) p] free(3) [of "[i, j]"] ip by simp
        next
          case False
          then have "pt_view 2 root' (lpath c 2 0 p) = pt_view 2 root1 (lpath c 2 0 p)"
            using free(3) [of "lpath c 2 0 p"] ip by simp
          then have "found_table c root' p = found_table c root1 p"
            by (rule found_table_same_view [OF c shape1 free(1) p])
          then show ?thesis using False by simp
        qed
      qed
      have unused: "\<not> page_used c root1 p" if "p < 2 ^ 28" "p div 2 ^ 10 = s div 2 ^ 10" for p
        using any False that by blast
      have used: "page_used c root' p \<longleftrightarrow> page_used c root1 p" if "p < 2 ^ 28" for p
        using found [OF that] unused [OF that] by (auto simp: page_used_def)
      show ?thesis
      proof (rule pt_releasedI)
        show "vma_ok c root' h'" using free(1,2) nb1 own' by (simp add: vma_ok_def)
      next
        fix p x assume p: "p < 2 ^ 28" "found_table c root p = Some x"
        then have "found_table c root1 p \<noteq> None" using found1 [OF p(1)] by auto
        then have "found_table c root' p = None \<longleftrightarrow> p div 2 ^ 10 = s div 2 ^ 10" using found [OF p(1)] by simp
        moreover have "\<forall>q < 2 ^ 28. q div 2 ^ 10 = p div 2 ^ 10 \<longrightarrow> \<not> page_used c root' q"
          if "p div 2 ^ 10 = s div 2 ^ 10" using unused used that by simp
        ultimately show "found_table c root' p = None \<longleftrightarrow>
           (\<exists>q. s \<le> q \<and> q \<le> s + n - 1 \<and> q div 2 ^ 10 = p div 2 ^ 10) \<and>
           (\<forall>q < 2 ^ 28. q div 2 ^ 10 = p div 2 ^ 10 \<longrightarrow> \<not> page_used c root' q)"
          unfolding touched by blast
      next
        fix p x x' assume "p < 2 ^ 28" "found_table c root p = Some x" "found_table c root' p = Some x'"
        then show "pt_buffer x' = pt_buffer x" using found1 [of p] found [of p] by (auto split: if_splits)
      next
        fix p assume "p < 2 ^ 28" "found_table c root p = None"
        then show "found_table c root' p = None" using found1 [of p] found [of p] by (auto split: if_splits)
      next
        have "{pt_buffer x | p x. p < 2 ^ 28 \<and> found_table c root p = Some x \<and> found_table c root' p = None} = {pt_buffer t}"
        proof (intro equalityI subsetI)
          fix b assume "b \<in> {pt_buffer x | p x. p < 2 ^ 28 \<and> found_table c root p = Some x \<and> found_table c root' p = None}"
          then obtain p x where p: "p < 2 ^ 28" "found_table c root p = Some x" "found_table c root' p = None" "b = pt_buffer x"
            by blast
          then have "p div 2 ^ 10 = s div 2 ^ 10" using found [of p] found1 [of p] by (auto split: if_splits)
          then show "b \<in> {pt_buffer t}" using found_table_same_block [OF c shape p(1) s] p Some by simp
        next
          fix b assume "b \<in> {pt_buffer t}"
          then show "b \<in> {pt_buffer x | p x. p < 2 ^ 28 \<and> found_table c root p = Some x \<and> found_table c root' p = None}"
            using Some s found [OF s] by auto
        qed
        then show "set (tables_live h') = set (tables_live h) -
          {pt_buffer x | p x. p < 2 ^ 28 \<and> found_table c root p = Some x \<and> found_table c root' p = None}"
          using live by simp
      qed (use buf1 free(2) used used1 in \<open>auto simp: h' vidmm_destroy_table_def\<close>)
    qed
  qed
qed

lemma pt_released_refl: "vma_ok c root h \<Longrightarrow> pt_released c (Suc e) e root h root h"
  by (rule pt_releasedI) auto

lemma pt_released_none: "pt_released c s e root h root' h' \<Longrightarrow> p < 2 ^ 28 \<Longrightarrow>
    found_table c root p = None \<Longrightarrow> found_table c root' p = None"
  and pt_released_used: "pt_released c s e root h root' h' \<Longrightarrow> p < 2 ^ 28 \<Longrightarrow>
    page_used c root' p \<longleftrightarrow> page_used c root p \<and> \<not> (s \<le> p \<and> p \<le> e)"
  and pt_released_gone: "pt_released c s e root h root' h' \<Longrightarrow> p < 2 ^ 28 \<Longrightarrow>
    found_table c root p = Some t \<Longrightarrow> found_table c root' p = None \<longleftrightarrow>
       (\<exists>q. s \<le> q \<and> q \<le> e \<and> q div 2 ^ 10 = p div 2 ^ 10) \<and>
       (\<forall>q < 2 ^ 28. q div 2 ^ 10 = p div 2 ^ 10 \<longrightarrow> \<not> page_used c root' q)"
  and pt_released_kept: "pt_released c s e root h root' h' \<Longrightarrow> p < 2 ^ 28 \<Longrightarrow>
    found_table c root p = Some t \<Longrightarrow> found_table c root' p = Some t' \<Longrightarrow> pt_buffer t' = pt_buffer t"
  and pt_released_live: "pt_released c s e root h root' h' \<Longrightarrow>
    set (tables_live h') = set (tables_live h) -
       {pt_buffer t | p t. p < 2 ^ 28 \<and> found_table c root p = Some t \<and> found_table c root' p = None}"
  unfolding pt_released_def by blast+

lemma pt_released_trans:
  assumes one: "pt_released c s m root h root1 h1" and two: "pt_released c (Suc m) e root1 h1 root2 h2"
    and m: "s \<le> m" "m \<le> e"
  shows "pt_released c s e root h root2 h2"
proof (rule pt_releasedI)
  show "vma_ok c root2 h2" "tables_mem h2 = tables_mem h" "pt_buffer root2 = pt_buffer root"
    using one two by (simp_all add: pt_released_def)
next
  fix p :: nat assume p: "p < 2 ^ 28"
  have split: "s \<le> p \<and> p \<le> e \<longleftrightarrow> (s \<le> p \<and> p \<le> m) \<or> (Suc m \<le> p \<and> p \<le> e)" for p using m by auto
  show "page_used c root2 p \<longleftrightarrow> page_used c root p \<and> \<not> (s \<le> p \<and> p \<le> e)"
    using pt_released_used [OF one p] pt_released_used [OF two p] split [of p] by blast
  show "found_table c root2 p = None" if "found_table c root p = None"
    by (rule pt_released_none [OF two p pt_released_none [OF one p that]])
  show "found_table c root2 p = None \<longleftrightarrow>
       (\<exists>q. s \<le> q \<and> q \<le> e \<and> q div 2 ^ 10 = p div 2 ^ 10) \<and>
       (\<forall>q < 2 ^ 28. q div 2 ^ 10 = p div 2 ^ 10 \<longrightarrow> \<not> page_used c root2 q)"
    if t: "found_table c root p = Some t" for t
  proof (cases "found_table c root1 p")
    case None
    then obtain q where q: "s \<le> q" "q \<le> m" "q div 2 ^ 10 = p div 2 ^ 10"
      and unused: "\<forall>q < 2 ^ 28. q div 2 ^ 10 = p div 2 ^ 10 \<longrightarrow> \<not> page_used c root1 q"
      using pt_released_gone [OF one p t] by blast
    have "\<forall>q < 2 ^ 28. q div 2 ^ 10 = p div 2 ^ 10 \<longrightarrow> \<not> page_used c root2 q"
      using unused pt_released_used [OF two] by simp
    moreover have "\<exists>q. s \<le> q \<and> q \<le> e \<and> q div 2 ^ 10 = p div 2 ^ 10" using q m(2) by (intro exI [of _ q]) simp
    ultimately show ?thesis using pt_released_none [OF two p None] by simp
  next
    case (Some t1)
    let ?hit = "\<lambda>s e. \<exists>q. s \<le> q \<and> q \<le> e \<and> q div 2 ^ 10 = p div 2 ^ 10"
    let ?unused = "\<lambda>r. \<forall>q < 2 ^ 28. q div 2 ^ 10 = p div 2 ^ 10 \<longrightarrow> \<not> page_used c r q"
    have hit: "?hit s e \<longleftrightarrow> ?hit s m \<or> ?hit (Suc m) e" using split by (intro iffI; elim exE disjE; metis)
    have "\<not> (?hit s m \<and> ?unused root1)" using pt_released_gone [OF one p t] Some by simp
    moreover have "?unused root1" if "\<not> ?hit (Suc m) e" "?unused root2"
    proof (intro allI impI notI)
      fix q assume q: "q < 2 ^ 28" "q div 2 ^ 10 = p div 2 ^ 10" "page_used c root1 q"
      have "\<not> (Suc m \<le> q \<and> q \<le> e)" using that(1) q(2) by blast
      then have "page_used c root2 q" using pt_released_used [OF two q(1)] q(3) by simp
      then show False using that(2) q(1,2) by blast
    qed
    ultimately show ?thesis unfolding pt_released_gone [OF two p Some] hit by blast
  qed
  show "pt_buffer t2 = pt_buffer t" if t: "found_table c root p = Some t" "found_table c root2 p = Some t2" for t t2
  proof -
    obtain t1 where t1: "found_table c root1 p = Some t1"
      using pt_released_none [OF two p] t(2) by (cases "found_table c root1 p") auto
    show ?thesis using pt_released_kept [OF one p t(1) t1] pt_released_kept [OF two p t1 t(2)] by simp
  qed
next
  let ?gone = "\<lambda>r r'. {pt_buffer t | p t. p < 2 ^ 28 \<and> found_table c r p = Some t \<and> found_table c r' p = None}"
  have "b \<in> ?gone root root2 \<longleftrightarrow> b \<in> ?gone root root1 \<or> b \<in> ?gone root1 root2" for b
  proof
    assume "b \<in> ?gone root root2"
    then obtain p t where p: "p < 2 ^ 28" "found_table c root p = Some t" "found_table c root2 p = None" "b = pt_buffer t"
      by blast
    then show "b \<in> ?gone root root1 \<or> b \<in> ?gone root1 root2"
    proof (cases "found_table c root1 p")
      case (Some t1)
      then have "b = pt_buffer t1" using pt_released_kept [OF one p(1,2)] p(4) by simp
      then show ?thesis using p Some by blast
    qed (use p in blast)
  next
    assume "b \<in> ?gone root root1 \<or> b \<in> ?gone root1 root2"
    then show "b \<in> ?gone root root2"
    proof
      assume "b \<in> ?gone root root1"
      then show ?thesis using pt_released_none [OF two] by blast
    next
      assume "b \<in> ?gone root1 root2"
      then obtain p t1 where p: "p < 2 ^ 28" "found_table c root1 p = Some t1" "found_table c root2 p = None" "b = pt_buffer t1"
        by blast
      then obtain t where t: "found_table c root p = Some t"
        using pt_released_none [OF one p(1)] by (cases "found_table c root p") auto
      then have "b = pt_buffer t" using pt_released_kept [OF one p(1) t p(2)] p(4) by simp
      then show ?thesis using p t by blast
    qed
  qed
  then have "?gone root root2 = ?gone root root1 \<union> ?gone root1 root2" by (intro set_eqI) (simp only: Un_iff)
  then show "set (tables_live h2) = set (tables_live h) -
      {pt_buffer t | p t. p < 2 ^ 28 \<and> found_table c root p = Some t \<and> found_table c root2 p = None}"
    using pt_released_live [OF one] pt_released_live [OF two] by (simp only: Diff_Un [symmetric] Diff_Diff_Int set_diff_eq) blast
qed

lemma release_body_step:
  assumes "c = vidmm_query_chip_vm_info_e3k c0" "pt_shape c 2 0 root" "s < 2 ^ 28"
  shows "(case vidmmi_vm_get_pt_entry c root s of None \<Rightarrow> (root, h)
      | Some (path, entry) \<Rightarrow> if pt_buffer entry = 0 then (root, h) else release_table c path entry s n root h) =
    release_step c s n root h"
proof (cases "found_table c root s")
  case None
  then show ?thesis by (auto simp: release_step_def found_table_def split: option.splits if_splits)
next
  case (Some t)
  then show ?thesis using found_table_at(1,2) [OF assms Some] by (simp add: release_step_def)
qed

lemma release_loop_ok:
  assumes c: "c = vidmm_query_chip_vm_info_e3k c0" and cne: "\<not> is_cne001 c" and e: "e < 2 ^ 28"
  shows "vma_ok c root h \<Longrightarrow> s \<le> e + 1 \<Longrightarrow>
    release_pt_loop c (s * 4096) (e * 4096 + 4095) root h = (root', h') \<Longrightarrow> pt_released c s e root h root' h'"
proof (induction "e + 1 - s" arbitrary: s root h rule: less_induct)
  case less
  show ?case
  proof (cases "s \<le> e")
    case False
    then have "\<not> s * 4096 < e * 4096 + 4095" and s: "s = Suc e" using less.prems(2) by simp_all
    then have "root' = root" "h' = h" using less.prems(3) by (subst (asm) release_pt_loop.simps; simp)+
    then show ?thesis unfolding s using pt_released_refl [OF less.prems(1)] by simp
  next
    case True
    then have s: "s < 2 ^ 28" using e by simp
    have shape: "pt_shape c 2 0 root" using less.prems(1) by (simp add: vma_ok_def)
    define n where "n = pt_chunk32 10 s e"
    note chunk = chunk_facts [OF True e, folded n_def]
    obtain root1 h1 where one: "release_step c s n root h = (root1, h1)" by fastforce
    have step: "release_pt_loop c (s * 4096) (e * 4096 + 4095) root h =
        release_pt_loop c ((s + n) * 4096) (e * 4096 + 4095) root1 h1"
    proof -
      have "s * 4096 < e * 4096 + 4095" "s * 4096 div 4096 = s" "(e * 4096 + 4095) div 4096 = e"
        using True by simp_all
      moreover have "vidmmi_vm_pt_bits_count c (vidmmi_vm_leaf_pd_level c + 1) = 10" by (simp add: c)
      ultimately show ?thesis
        by (subst release_pt_loop.simps)
           (simp only: if_True Let_def chunk(1) n_def [symmetric] release_body_step [OF c shape s] one prod.case)
    qed
    have ok: "pt_released c s (s + n - 1) root h root1 h1"
      by (rule release_step_ok [OF c cne less.prems(1) chunk(2,3) _ one]) (use chunk(4) e in linarith)
    then have ok1: "vma_ok c root1 h1" by (simp add: pt_released_def)
    have "pt_released c (s + n) e root1 h1 root' h'"
      by (rule less.hyps [OF _ ok1]) (use chunk(2,4) True less.prems(3) step in simp_all)
    then have "pt_released c (Suc (s + n - 1)) e root1 h1 root' h'" using chunk(2) by simp
    from pt_released_trans [OF ok this] show ?thesis using chunk(2,4) by simp
  qed
qed

text \<open>
  C21. Releasing a range (\<^verbatim>\<open>vidmmi_vm_release_pt\<close>): exactly its pages stop being in use. A table is gone
  afterwards exactly when a page of it was in the range and no page of it is in use any more; the
  others are the tables they were. Exactly the buffers of the tables that are gone have been given
  back, each of them once, and the address space keeps its invariant. The loop covers the range
  whatever the alignment of its ends to the tables.
\<close>

theorem vidmmi_vm_release_pt_correct:
  assumes "c = vidmm_query_chip_vm_info_e3k c0" "\<not> is_cne001 c" and ok: "vma_ok c root h"
    and "4096 dvd start" "4096 dvd len" "0 < len" "start + len \<le> 2 ^ 40"
    and run: "vidmmi_vm_release_pt c start (start + len - 1) root h = (root', h')"
  shows "vma_ok c root' h' \<and>
    (\<forall>p < 2 ^ 28. page_used c root' p \<longleftrightarrow>
       page_used c root p \<and> \<not> (start div 4096 \<le> p \<and> p < (start + len) div 4096)) \<and>
    (\<forall>p t. p < 2 ^ 28 \<and> found_table c root p = Some t \<longrightarrow>
       (found_table c root' p = None \<longleftrightarrow>
          (\<exists>q. start div 4096 \<le> q \<and> q < (start + len) div 4096 \<and> q div 2 ^ 10 = p div 2 ^ 10) \<and>
          (\<forall>q < 2 ^ 28. q div 2 ^ 10 = p div 2 ^ 10 \<longrightarrow> \<not> page_used c root' q)) \<and>
       (\<forall>t'. found_table c root' p = Some t' \<longrightarrow> pt_buffer t' = pt_buffer t)) \<and>
    set (tables_live h') = set (tables_live h) -
      {pt_buffer t | p t. p < 2 ^ 28 \<and> found_table c root p = Some t \<and> found_table c root' p = None}"
proof -
  obtain s where s: "start = 4096 * s" using assms(4) by blast
  obtain n where n: "len = 4096 * n" using assms(5) by blast
  obtain e where e: "s + n = Suc e" using assms(6) n by (cases "s + n") auto
  have le: "s \<le> e + 1" and lt: "e < 2 ^ 28" using e assms(7) s n by simp_all
  have last: "start + len - 1 = e * 4096 + 4095" using e s n assms(6) by simp
  have pages: "start div 4096 = s" "(start + len) div 4096 = Suc e" using e s n by simp_all
  have loop: "release_pt_loop c (s * 4096) (e * 4096 + 4095) root h = (root', h')"
    using run unfolding vidmmi_vm_release_pt_def last unfolding s by (simp add: mult.commute)
  from release_loop_ok [OF assms(1,2) lt ok le loop] show ?thesis
    unfolding pages less_Suc_eq_le pt_released_def by blast
qed

lemma ample_no_tables: "p < 2 ^ 28 \<Longrightarrow> found_table ample_chip ample_root p = None"
proof -
  assume p: "p < 2 ^ 28"
  have "pt_view 2 ample_root (q @ [i]) = None" for q i by (simp add: ample_root_def pt_view_fresh)
  moreover obtain q i where "lpath ample_chip 2 0 p = q @ [i]"
    using e3k_lpath [of ample_chip p] unfolding ample_chip_e3k [symmetric] by (metis append_Cons append_Nil)
  ultimately show ?thesis
    using found_table_view [OF ample_chip_e3k _ p, of ample_root] ample_vma_ok
    by (simp add: vma_ok_def del: pt_shape.simps)
qed

theorem vidmmi_vm_release_pt_correct_witness:
  "\<exists>root h root' h' t.
     vidmm_vm_alloc_pd ample_chip ample_env ample_root 5 3004 ample_heap = (root, h, Done S_OK) \<and>
     vidmmi_vm_release_pt ample_chip (5 * 4096) (5 * 4096 + 2000 * 4096 - 1) root h = (root', h') \<and>
     found_table ample_chip root 1030 = Some t \<and> found_table ample_chip root' 1030 = None \<and>
     pt_buffer t \<in> set (tables_live h) \<and> pt_buffer t \<notin> set (tables_live h') \<and>
     found_table ample_chip root' 3004 \<noteq> None"
proof -
  note c = ample_chip_e3k
  have cne: "\<not> is_cne001 ample_chip" by (simp add: ample_chip_def vidmm_query_chip_vm_info_e3k_def)
  obtain root h where alloc: "vidmm_vm_alloc_pd ample_chip ample_env ample_root 5 3004 ample_heap =
      (root, h, Done S_OK)"
    using e3k_alloc_in_range [OF c ample_env_ok ample_vma_ok, of 5 3004]
    by (cases "vidmm_vm_alloc_pd ample_chip ample_env ample_root 5 3004 ample_heap") auto
  note step = vidmm_vm_alloc_pd_spec [OF c ample_env_ok(1) ample_vma_ok alloc]
  have shape: "pt_shape ample_chip 2 0 root" and own: "pt_owned 2 root h" using step(1) by (simp_all add: vma_ok_def)
  have unused: "\<not> page_used ample_chip root p" if "p < 2 ^ 28" for p
    by (rule step(6) [OF that ample_no_tables [OF that]])
  obtain t where t: "found_table ample_chip root 1030 = Some t" using step(3) [of 1030] by auto
  obtain u where u: "found_table ample_chip root 3004 = Some u" using step(3) [of 3004] by auto
  obtain root' h' where run:
    "vidmmi_vm_release_pt ample_chip (5 * 4096) (5 * 4096 + 2000 * 4096 - 1) root h = (root', h')" by fastforce
  from vidmmi_vm_release_pt_correct [OF c cne step(1) _ _ _ _ run]
  have gone: "\<And>p t. p < 2 ^ 28 \<Longrightarrow> found_table ample_chip root p = Some t \<Longrightarrow>
       found_table ample_chip root' p = None \<longleftrightarrow>
          (\<exists>q. 5 \<le> q \<and> q < 2005 \<and> q div 2 ^ 10 = p div 2 ^ 10) \<and>
          (\<forall>q < 2 ^ 28. q div 2 ^ 10 = p div 2 ^ 10 \<longrightarrow> \<not> page_used ample_chip root' q)"
    and used: "\<And>p. p < 2 ^ 28 \<Longrightarrow> page_used ample_chip root' p \<Longrightarrow> page_used ample_chip root p"
    and live: "set (tables_live h') = set (tables_live h) -
      {pt_buffer t | p t. p < 2 ^ 28 \<and> found_table ample_chip root p = Some t \<and> found_table ample_chip root' p = None}"
    by simp_all
  have t': "found_table ample_chip root' 1030 = None"
  proof -
    have "\<exists>q. 5 \<le> q \<and> q < 2005 \<and> q div 2 ^ 10 = (1030 :: nat) div 2 ^ 10" by (rule exI [of _ 1030]) simp
    moreover have "\<forall>q < 2 ^ 28. q div 2 ^ 10 = 1030 div 2 ^ 10 \<longrightarrow> \<not> page_used ample_chip root' q"
      using unused used by blast
    ultimately show ?thesis using gone [OF _ t] by simp
  qed
  have "pt_buffer t \<in> set (tables_live h)"
    using pt_owned_live [OF own] found_table_view [OF c shape, of 1030] t by auto
  moreover have "pt_buffer t \<notin> set (tables_live h')" unfolding live using t t' by force
  moreover have "found_table ample_chip root' 3004 \<noteq> None"
  proof -
    have "\<not> (5 \<le> q \<and> q < 2005 \<and> q div 2 ^ 10 = (3004 :: nat) div 2 ^ 10)" for q :: nat by auto
    then show ?thesis using gone [OF _ u] by simp
  qed
  ultimately show ?thesis using alloc run t t' by blast
qed

section \<open>Taking an address space down\<close>

text \<open>
  The entries whose bit is set, in the order of \<^verbatim>\<open>zx_find_first_bit\<close> and \<^verbatim>\<open>zx_find_next_bit\<close>; the loops
  do not change the bitmap they follow.
\<close>

definition bit_children :: "vm_pt \<Rightarrow> vm_pt list" where
  "bit_children pt =
     (case (pt_entries pt, pt_bitmap pt) of
        (Some es, Some bm) \<Rightarrow> map ((!) es) (filter (\<lambda>i. bm ! i \<and> i < length es) [0..<length bm])
      | _ \<Rightarrow> [])"

definition destroy_pt :: "vm_pt \<Rightarrow> pt_heap \<Rightarrow> pt_heap" where
  "destroy_pt pt h = (if pt_buffer pt = 0 then h else vidmm_destroy_table (pt_buffer pt) h)"

text \<open>
  \<^verbatim>\<open>vidmm_vm_release_pd\<close>. Only on the CNE001 are the tables of pages released here; on the other chips
  releasing the ranges has done it.
\<close>

definition vidmm_vm_release_pd :: "vm_chip \<Rightarrow> vm_pt \<Rightarrow> pt_heap \<Rightarrow> vm_pt \<times> pt_heap" where
  "vidmm_vm_release_pd c root h =
     (if pt_buffer root = 0 then (root, h)
      else
        let h1 = fold (\<lambda>entry h. destroy_pt entry
                   (if is_cne001 c then fold destroy_pt (bit_children entry) h else h)) (bit_children root) h
        in (Vm_Pt 0 (pt_addr root) None None (pt_age root), vidmm_destroy_table (pt_buffer root) h1))"

lemma destroy_pt_live:
  "set (tables_live (destroy_pt pt h)) = set (tables_live h) - {b. b \<noteq> 0 \<and> b = pt_buffer pt}"
  by (auto simp: destroy_pt_def vidmm_destroy_table_def)

lemma fold_destroy_pt_live:
  "set (tables_live (fold destroy_pt es h)) = set (tables_live h) - {b. b \<noteq> 0 \<and> (\<exists>e \<in> set es. b = pt_buffer e)}"
  by (induction es arbitrary: h) (auto simp: destroy_pt_live)

lemma release_dirs_live:
  "set (tables_live (fold (\<lambda>entry h. destroy_pt entry
      (if cne then fold destroy_pt (bit_children entry) h else h)) es h)) =
   set (tables_live h) -
     {b. b \<noteq> 0 \<and> (\<exists>e \<in> set es. b = pt_buffer e \<or> cne \<and> (\<exists>x \<in> set (bit_children e). b = pt_buffer x))}"
proof (induction es arbitrary: h)
  case (Cons e es)
  show ?case
    unfolding fold_Cons comp_def Cons.IH destroy_pt_live
    by (cases cne) (auto simp: fold_destroy_pt_live)
qed simp

text \<open>In a well-shaped tree the entries with a set bit include all that have a buffer.\<close>

lemma bit_children_at:
  assumes "pt_shape c (Suc n) l pt" "pt_buffer x \<noteq> 0"
  shows "x \<in> set (bit_children pt) \<longleftrightarrow> pt_at pt [i] = Some x \<or> (\<exists>i. pt_at pt [i] = Some x)"
proof (cases "pt_entries pt")
  case None
  then show ?thesis by (simp add: bit_children_def)
next
  case (Some es)
  have nb: "pt_buffer pt \<noteq> 0" by (rule pt_shape_entries [OF assms(1) Some])
  then obtain bm where bm: "pt_bitmap pt = Some bm" "length es = length bm"
    "\<forall>i < length es. pt_buffer (es ! i) \<noteq> 0 \<longrightarrow> bm ! i"
    using assms(1) Some by auto
  have "x \<in> set (bit_children pt) \<longleftrightarrow> (\<exists>i < length es. bm ! i \<and> es ! i = x)"
    by (auto simp: bit_children_def Some bm)
  also have "\<dots> \<longleftrightarrow> (\<exists>i < length es. es ! i = x)" using bm(3) assms(2) by auto
  finally show ?thesis by (auto simp: Some)
qed

text \<open>The positions of an address space: the root, its directories and their tables.\<close>

lemma pt_view_positions:
  assumes c: "c = vidmm_query_chip_vm_info_e3k c0" and shape: "pt_shape c 2 0 root"
    and v: "pt_view 2 root q = Some v"
  shows "q = [] \<or> (\<exists>i. q = [i]) \<or> (\<exists>p < 2 ^ 28. q = lpath c 2 0 p)"
proof -
  obtain x where x: "pt_at root q = Some x" using v by (auto simp: pt_view_def split: option.splits)
  consider "q = []" | i where "q = [i]" | i j r where "q = [i, j] @ r"
    by (metis append_Cons append_Nil list.exhaust)
  then show ?thesis
  proof cases
    case (3 i j r)
    obtain es d where i: "pt_entries root = Some es" "i < length es" "es ! i = d" "pt_at d (j # r) = Some x"
      using x 3 by (auto split: option.splits if_splits)
    obtain fs t where j: "pt_entries d = Some fs" "j < length fs" "fs ! j = t" "pt_at t r = Some x"
      using i(4) by (auto split: option.splits if_splits)
    have root: "pt_shape c (length [i] + 1) 0 root" "pt_shape c (length [i, j] + 0) 0 root"
      using shape by (simp_all add: numeral_2_eq_2 del: pt_shape.simps)
    have sd: "pt_shape c 1 (0 + length [i]) d" by (rule pt_at_shape [OF root(1)]) (use i in simp)
    have st: "pt_shape c 0 (0 + length [i, j]) t" by (rule pt_at_shape [OF root(2)]) (use i j in simp)
    have "r = []" using st j(4) by (cases r) auto
    have "length es = 2 ^ 8" "length fs = 2 ^ 10"
      using shape sd i(1) j(1) by (auto simp: numeral_2_eq_2 c vidmmi_vm_pt_num_entries_def split: if_splits)
    then have lt: "i < 2 ^ 8" "j < 2 ^ 10" using i(2) j(2) by simp_all
    have "lpath c 2 0 (i * 2 ^ 20 + j * 2 ^ 10) = [i, j]"
      using lt by (simp add: c e3k_lpath)
    then show ?thesis using 3 \<open>r = []\<close> lt by (intro disjI2 exI [of _ "i * 2 ^ 20 + j * 2 ^ 10"]) simp
  qed auto
qed

lemma release_pd_buffers:
  assumes shape: "pt_shape c 2 0 root" and nb: "pt_buffer root \<noteq> 0"
    and pos: "\<And>q v. pt_view 2 root q = Some v \<Longrightarrow> length q \<le> 2"
  shows "insert (pt_buffer root) {b. b \<noteq> 0 \<and> (\<exists>e \<in> set (bit_children root).
      b = pt_buffer e \<or> cne \<and> (\<exists>x \<in> set (bit_children e). b = pt_buffer x))} =
    {b. \<exists>p v. pt_view 2 root p = Some (b, v) \<and> (length p < 2 \<or> cne)}" (is "?l = ?r")
proof -
  have root: "pt_shape c (Suc 1) 0 root" using shape by (simp add: numeral_2_eq_2 del: pt_shape.simps)
  have view: "(\<exists>v. pt_view 2 root q = Some (b, v)) \<longleftrightarrow> (\<exists>x. pt_at root q = Some x \<and> b = pt_buffer x \<and> b \<noteq> 0)" for q b
    by (auto simp: pt_view_def split: option.splits)
  have child: "e \<in> set (bit_children root) \<longleftrightarrow> (\<exists>i. pt_at root [i] = Some e)" if "pt_buffer e \<noteq> 0" for e
    using bit_children_at [OF root that] by blast
  have d_shape: "pt_shape c (Suc 0) 1 e" if e: "e \<in> set (bit_children root)" for e
  proof -
    obtain es i where "pt_entries root = Some es" "i < length es" "es ! i = e"
      using e unfolding bit_children_def by (auto split: option.splits) (metis)
    then have "pt_at root [i] = Some e" by simp
    then show ?thesis using pt_at_shape [of c "[i]" 1 0 root e] root by (simp del: pt_shape.simps)
  qed
  have grand: "(\<exists>e \<in> set (bit_children root). x \<in> set (bit_children e)) \<longleftrightarrow> (\<exists>i j. pt_at root [i, j] = Some x)"
    if x: "pt_buffer x \<noteq> 0" for x
  proof
    assume "\<exists>e \<in> set (bit_children root). x \<in> set (bit_children e)"
    then obtain e where e: "e \<in> set (bit_children root)" "x \<in> set (bit_children e)" by blast
    then obtain es where es: "pt_entries e = Some es" unfolding bit_children_def by (cases "pt_entries e") auto
    have "pt_buffer e \<noteq> 0" by (rule pt_shape_entries [OF d_shape [OF e(1)] es])
    then obtain i where "pt_at root [i] = Some e" using child e(1) by blast
    moreover obtain j where "pt_at e [j] = Some x" using bit_children_at [OF d_shape [OF e(1)] x] e(2) by blast
    ultimately have "pt_at root [i, j] = Some x"
      by (cases "pt_entries root"; cases "pt_entries e") (auto split: if_splits)
    then show "\<exists>i j. pt_at root [i, j] = Some x" by blast
  next
    assume "\<exists>i j. pt_at root [i, j] = Some x"
    then obtain i j e where e: "pt_at root [i] = Some e" "pt_at e [j] = Some x"
      using pt_at_parent [of root "[i]" "[j]" x for i j] by fastforce
    have sh: "pt_shape c (Suc 0) 1 e"
      using pt_at_shape [of c "[i]" 1 0 root e] root e(1) by (simp del: pt_shape.simps)
    then have "pt_buffer e \<noteq> 0" using e(2) by (auto split: option.splits if_splits)
    then have "e \<in> set (bit_children root)" using child e(1) by blast
    moreover have "x \<in> set (bit_children e)" using bit_children_at [OF sh x] e(2) by blast
    ultimately show "\<exists>e \<in> set (bit_children root). x \<in> set (bit_children e)" by blast
  qed
  show ?thesis
  proof (rule set_eqI)
    fix b
    have "b \<in> ?l \<longleftrightarrow> b = pt_buffer root \<or> b \<noteq> 0 \<and> (\<exists>e i. pt_at root [i] = Some e \<and> b = pt_buffer e) \<or>
        b \<noteq> 0 \<and> cne \<and> (\<exists>x i j. pt_at root [i, j] = Some x \<and> b = pt_buffer x)"
      proof (cases "b = 0")
      case False
      have "(\<exists>e \<in> set (bit_children root). b = pt_buffer e) \<longleftrightarrow> (\<exists>e i. pt_at root [i] = Some e \<and> b = pt_buffer e)"
        using child False by metis
      moreover have "(\<exists>e \<in> set (bit_children root). \<exists>x \<in> set (bit_children e). b = pt_buffer x) \<longleftrightarrow>
          (\<exists>x i j. pt_at root [i, j] = Some x \<and> b = pt_buffer x)"
        using grand False by metis
      ultimately show ?thesis using False by (simp only: insert_iff mem_Collect_eq bex_disj_distrib conj_disj_distribL) blast
    qed (use nb in simp)
    also have "\<dots> \<longleftrightarrow> (\<exists>v. pt_view 2 root [] = Some (b, v)) \<or> (\<exists>i v. pt_view 2 root [i] = Some (b, v)) \<or>
        cne \<and> (\<exists>i j v. pt_view 2 root [i, j] = Some (b, v))"
      unfolding view using nb by auto
    also have "\<dots> \<longleftrightarrow> b \<in> ?r"
    proof -
      have q: "q = [] \<or> (\<exists>i. q = [i]) \<or> (\<exists>i j. q = [i, j])" if "length q \<le> 2" for q :: "nat list"
        using that by (cases q rule: remdups_adj.cases) auto
      show ?thesis
      proof (intro iffI; elim disjE conjE exE CollectE)
        fix p v assume v: "pt_view 2 root p = Some (b, v)" and p: "length p < 2"
        from p have "p = [] \<or> (\<exists>i. p = [i])" by (cases p rule: remdups_adj.cases) auto
        then show "(\<exists>v. pt_view 2 root [] = Some (b, v)) \<or> (\<exists>i v. pt_view 2 root [i] = Some (b, v)) \<or>
          cne \<and> (\<exists>i j v. pt_view 2 root [i, j] = Some (b, v))" using v by blast
      next
        fix p v assume v: "pt_view 2 root p = Some (b, v)" and cne
        then show "(\<exists>v. pt_view 2 root [] = Some (b, v)) \<or> (\<exists>i v. pt_view 2 root [i] = Some (b, v)) \<or>
          cne \<and> (\<exists>i j v. pt_view 2 root [i, j] = Some (b, v))" using q [OF pos [OF v]] by blast
      next
        fix v assume "pt_view 2 root [] = Some (b, v)"
        then show "b \<in> ?r" by (intro CollectI exI [of _ "[]"] exI [of _ v]) simp
      next
        fix i v assume "pt_view 2 root [i] = Some (b, v)"
        then show "b \<in> ?r" by (intro CollectI exI [of _ "[i]"] exI [of _ v]) simp
      next
        fix i j v assume "pt_view 2 root [i, j] = Some (b, v)" cne
        then show "b \<in> ?r" by (intro CollectI exI [of _ "[i, j]"] exI [of _ v]) simp
      qed
    qed
    finally show "b \<in> ?l \<longleftrightarrow> b \<in> ?r" .
  qed
qed

text \<open>
  C22. Taking the page tables down (\<^verbatim>\<open>vidmm_vm_release_pd\<close>): the root is left empty, and the buffers given
  back are the root's, those of all directories and, on the CNE001 alone, those of all tables of pages.
  So nothing is left of an address space whose ranges have all been released before, and on the other
  chips every table a page still has would stay allocated.
\<close>

theorem vidmm_vm_release_pd_correct:
  assumes c: "c = vidmm_query_chip_vm_info_e3k c0" and ok: "vma_ok c root h"
    and run: "vidmm_vm_release_pd c root h = (root', h')"
  shows "pt_buffer root' = 0 \<and> pt_bitmap root' = None \<and> pt_entries root' = None \<and>
    set (tables_live h') = set (tables_live h) -
      {b. \<exists>p v. pt_view 2 root p = Some (b, v) \<and> (length p < 2 \<or> is_cne001 c)} \<and>
    ((\<forall>p < 2 ^ 28. found_table c root p = None) \<longrightarrow>
       set (tables_live h') \<inter> {b. \<exists>p v. pt_view 2 root p = Some (b, v)} = {}) \<and>
    (\<not> is_cne001 c \<longrightarrow> (\<forall>p < 2 ^ 28. \<forall>t. found_table c root p = Some t \<longrightarrow> pt_buffer t \<in> set (tables_live h')))"
proof -
  have shape: "pt_shape c 2 0 root" and nb: "pt_buffer root \<noteq> 0" and own: "pt_owned 2 root h"
    using ok by (simp_all add: vma_ok_def)
  let ?given = "{b. \<exists>p v. pt_view 2 root p = Some (b, v) \<and> (length p < 2 \<or> is_cne001 c)}"
  note pos = pt_view_positions [OF c shape]
  have len: "length q \<le> 2" if "pt_view 2 root q = Some v" for q v using pos [OF that] by (auto simp: c e3k_lpath)
  have h': "h' = vidmm_destroy_table (pt_buffer root) (fold (\<lambda>entry h. destroy_pt entry
      (if is_cne001 c then fold destroy_pt (bit_children entry) h else h)) (bit_children root) h)"
    and root': "root' = Vm_Pt 0 (pt_addr root) None None (pt_age root)"
    using run nb by (simp_all add: vidmm_vm_release_pd_def)
  have live: "set (tables_live h') = set (tables_live h) - ?given"
  proof -
    have "set (tables_live h') = set (tables_live h) - {b. b \<noteq> 0 \<and> (\<exists>e \<in> set (bit_children root).
        b = pt_buffer e \<or> is_cne001 c \<and> (\<exists>x \<in> set (bit_children e). b = pt_buffer x))} - {pt_buffer root}"
      unfolding h' by (simp only: release_dirs_live [symmetric]) (simp add: vidmm_destroy_table_def)
    also have "\<dots> = set (tables_live h) - ?given"
    proof -
      have R: "insert (pt_buffer root) {b. b \<noteq> 0 \<and> (\<exists>e \<in> set (bit_children root).
        b = pt_buffer e \<or> is_cne001 c \<and> (\<exists>x \<in> set (bit_children e). b = pt_buffer x))} = ?given"
        by (rule release_pd_buffers [OF shape nb len])
      show ?thesis unfolding R [symmetric] by (rule Diff_insert [symmetric])
    qed
    finally show ?thesis .
  qed
  have "set (tables_live h') \<inter> {b. \<exists>p v. pt_view 2 root p = Some (b, v)} = {}"
    if none: "\<forall>p < 2 ^ 28. found_table c root p = None"
  proof -
    have "b \<in> ?given" if v: "pt_view 2 root q = Some (b, v)" for q b v
    proof -
      have "\<not> (\<exists>p < 2 ^ 28. q = lpath c 2 0 p)" using v none found_table_view [OF c shape] by auto
      then have "length q < 2" using pos [OF v] by auto
      then show ?thesis using v by blast
    qed
    then show ?thesis unfolding live by blast
  qed
  moreover have "pt_buffer t \<in> set (tables_live h')"
    if cne: "\<not> is_cne001 c" and p: "p < 2 ^ 28" and t: "found_table c root p = Some t" for p t
  proof -
    have v: "pt_view 2 root (lpath c 2 0 p) = Some (pt_buffer t, pt_addr t, pt_age t, pt_bitmap t)"
      using found_table_view [OF c shape p] t by simp
    have "pt_buffer t \<notin> ?given"
    proof
      assume "pt_buffer t \<in> ?given"
      then obtain q w where "pt_view 2 root q = Some (pt_buffer t, w)" "length q < 2" using cne by blast
      moreover from this have "lpath c 2 0 p = q" by (intro pt_owned_inj [OF own v])
      moreover have "length (lpath c 2 0 p) = 2" by (simp add: c e3k_lpath)
      ultimately show False by simp
    qed
    then show ?thesis unfolding live using pt_owned_live [OF own v] by blast
  qed
  ultimately show ?thesis using live root' by simp
qed

theorem vidmm_vm_release_pd_correct_witness:
  "\<exists>root h root' h' t.
     vidmm_vm_alloc_pd ample_chip ample_env ample_root 5 3004 ample_heap = (root, h, Done S_OK) \<and>
     vidmm_vm_release_pd ample_chip root h = (root', h') \<and> pt_buffer root' = 0 \<and>
     pt_buffer root \<in> set (tables_live h) \<and> pt_buffer root \<notin> set (tables_live h') \<and>
     found_table ample_chip root 1030 = Some t \<and> pt_buffer t \<in> set (tables_live h')"
proof -
  note c = ample_chip_e3k
  have cne: "\<not> is_cne001 ample_chip" by (simp add: ample_chip_def vidmm_query_chip_vm_info_e3k_def)
  obtain root h where alloc: "vidmm_vm_alloc_pd ample_chip ample_env ample_root 5 3004 ample_heap =
      (root, h, Done S_OK)"
    using e3k_alloc_in_range [OF c ample_env_ok ample_vma_ok, of 5 3004]
    by (cases "vidmm_vm_alloc_pd ample_chip ample_env ample_root 5 3004 ample_heap") auto
  note step = vidmm_vm_alloc_pd_spec [OF c ample_env_ok(1) ample_vma_ok alloc]
  have own: "pt_owned 2 root h" and nb: "pt_buffer root \<noteq> 0" using step(1) by (simp_all add: vma_ok_def)
  obtain t where t: "found_table ample_chip root 1030 = Some t" using step(3) [of 1030] by auto
  obtain root' h' where run: "vidmm_vm_release_pd ample_chip root h = (root', h')" by fastforce
  note main = vidmm_vm_release_pd_correct [OF c step(1) run]
  obtain v where v: "pt_view 2 root [] = Some (pt_buffer root, v)" using nb by (simp add: pt_view_Nil)
  have "pt_buffer root \<in> {b. \<exists>p v. pt_view 2 root p = Some (b, v) \<and> (length p < 2 \<or> is_cne001 ample_chip)}"
    using v by (intro CollectI exI [of _ "[]"] exI [of _ v]) simp
  then have "pt_buffer root \<notin> set (tables_live h')" using main by blast
  moreover have "pt_buffer t \<in> set (tables_live h')" 
  proof -
    have "(1030 :: nat) < 2 ^ 28" by simp
    then show ?thesis using main cne t by blast
  qed
  ultimately show ?thesis using alloc run t main pt_owned_live [OF own v] by blast
qed

end
