(* ===== verification/Pte_E3k.thy ===== *)
theory Pte_E3k
  imports Page_Map
begin

text \<open>
  The page table entries of the chip: \<^verbatim>\<open>vidmm_update_ptes_e3k\<close> of \<^verbatim>\<open>core/e3k/vidmm/vidmm_e3k.c\<close>, which
  turns a call of \<open>Page_Map\<close> into the words that the engine copies into a table, with what it reads:
  the lists of pages of system memory (\<^verbatim>\<open>linux/os_interface.c\<close>), the chunks of local memory, and the
  dirty ranges that say which translations the engine has to forget. The register part of the command
  is not modelled; of it only the range of entries matters, which is the word behind its header.
\<close>

section \<open>Pages of system memory\<close>

text \<open>
  An entry of the kernel's scatter list and the list of an allocation, \<^verbatim>\<open>struct os_pages_memory\<close>. \<open>sh\<close> is
  \<^verbatim>\<open>PAGE_SHIFT\<close> of the kernel.
\<close>

record scatterlist =
  sg_offset :: nat
  sg_length :: nat
  sg_dma_len :: nat
  sg_phys :: u64
  sg_dma_address :: u64

record os_pages_memory =
  st_sgl :: "scatterlist list"
  has_dma_map :: bool

definition sg_page_cnt :: "nat \<Rightarrow> bool \<Rightarrow> scatterlist \<Rightarrow> nat" where
  "sg_page_cnt sh dma sg = (sg_offset sg + (if dma then sg_dma_len sg else sg_length sg) + (2 ^ sh - 1)) div 2 ^ sh"

definition sg_addr :: "bool \<Rightarrow> scatterlist \<Rightarrow> u64" where
  "sg_addr dma sg = (if dma then sg_dma_address sg else sg_phys sg)"

text \<open>A shift of a C \<^verbatim>\<open>int\<close>, converted to a 64 bit address.\<close>

definition int_shl :: "nat \<Rightarrow> nat \<Rightarrow> u64" where
  "int_shl n sh = scast (push_bit sh (word_of_nat n :: u32))"

text \<open>The same of an \<^verbatim>\<open>unsigned int\<close>.\<close>

definition uint_shl :: "nat \<Rightarrow> nat \<Rightarrow> u64" where
  "uint_shl n sh = ucast (push_bit sh (word_of_nat n :: u32))"

fun page_phys_walk :: "nat \<Rightarrow> bool \<Rightarrow> nat \<Rightarrow> scatterlist list \<Rightarrow> nat \<Rightarrow> u64" where
  "page_phys_walk sh dma page_start [] page_num = 0"
| "page_phys_walk sh dma page_start (sg # sgs) page_num =
     (if page_num < page_start + sg_page_cnt sh dma sg
      then sg_addr dma sg + int_shl (page_num - page_start) sh
      else page_phys_walk sh dma (page_start + sg_page_cnt sh dma sg) sgs page_num)"

definition zx_get_page_phys_address :: "nat \<Rightarrow> os_pages_memory \<Rightarrow> nat \<Rightarrow> u64" where
  "zx_get_page_phys_address sh m page_num = page_phys_walk sh (has_dma_map m) 0 (st_sgl m) page_num"

text \<open>The same pages as a list, and the bound under which no shift overflows.\<close>

definition os_page_list :: "nat \<Rightarrow> os_pages_memory \<Rightarrow> u64 list" where
  "os_page_list sh m = concat (map (\<lambda>sg. map (\<lambda>k. sg_addr (has_dma_map m) sg + word_of_nat (k * 2 ^ sh))
     [0..<sg_page_cnt sh (has_dma_map m) sg]) (st_sgl m))"

definition os_pages_small :: "nat \<Rightarrow> os_pages_memory \<Rightarrow> bool" where
  "os_pages_small sh m \<longleftrightarrow> (\<forall>sg \<in> set (st_sgl m). sg_page_cnt sh (has_dma_map m) sg * 2 ^ sh \<le> 2 ^ 31)"

lemma int_shl_small: "n * 2 ^ sh < 2 ^ 31 \<Longrightarrow> int_shl n sh = word_of_nat (n * 2 ^ sh)"
proof -
  assume n: "n * 2 ^ sh < 2 ^ 31"
  have p: "push_bit sh (word_of_nat n :: u32) = word_of_nat (n * 2 ^ sh)"
    by (simp add: push_bit_eq_mult)
  define x where "x = n * 2 ^ sh"
  have x: "x < 2 ^ 31" using n by (simp add: x_def)
  have "(word_of_nat x :: u32) = word_of_int (int x)" by simp
  then have "sint (word_of_nat x :: u32) = signed_take_bit 31 (int x)" by (simp only: sint_sbintrunc') simp
  also have "\<dots> = int x" using x by (intro signed_take_bit_int_eq_self) simp_all
  finally have "(scast (word_of_nat x :: u32) :: u64) = word_of_nat x"
    by (simp only: scast_eq) simp
  then show ?thesis unfolding int_shl_def p x_def .
qed

lemma uint_shl_small: "n * 2 ^ sh < 2 ^ 32 \<Longrightarrow> uint_shl n sh = word_of_nat (n * 2 ^ sh)"
proof -
  assume n: "n * 2 ^ sh < 2 ^ 32"
  define x where "x = n * 2 ^ sh"
  have p: "push_bit sh (word_of_nat n :: u32) = word_of_nat x" by (simp add: push_bit_eq_mult x_def)
  have "x < 2 ^ 32" using n by (simp add: x_def)
  then have "unat (word_of_nat x :: u32) = x" by (simp add: unat_of_nat)
  moreover have "(ucast w :: u64) = word_of_nat (unat w)" for w :: u32 by transfer simp
  ultimately have "(ucast (word_of_nat x :: u32) :: u64) = word_of_nat x" by (simp only:)
  then show ?thesis unfolding uint_shl_def p x_def .
qed

lemma uint_shl_0 [simp]: "uint_shl 0 sh = 0"
  by (simp add: uint_shl_def)

lemma page_phys_walk_list:
  assumes "\<forall>sg \<in> set sgs. sg_page_cnt sh dma sg * 2 ^ sh \<le> 2 ^ 31" "start \<le> n"
  defines "ps \<equiv> concat (map (\<lambda>sg. map (\<lambda>k. sg_addr dma sg + word_of_nat (k * 2 ^ sh)) [0..<sg_page_cnt sh dma sg]) sgs)"
  shows "page_phys_walk sh dma start sgs n = (if n - start < length ps then ps ! (n - start) else 0)"
  using assms(1,2) unfolding ps_def
proof (induction sgs arbitrary: start)
  case (Cons sg sgs)
  show ?case
  proof (cases "n < start + sg_page_cnt sh dma sg")
    case True
    then have k: "n - start < sg_page_cnt sh dma sg" using Cons.prems(2) by simp
    have "(n - start) * 2 ^ sh < sg_page_cnt sh dma sg * 2 ^ sh" using k by simp
    also have "\<dots> \<le> 2 ^ 31" using Cons.prems(1) by simp
    finally show ?thesis using k True int_shl_small [of "n - start" sh] by (simp add: nth_append)
  next
    case False
    have "page_phys_walk sh dma (start + sg_page_cnt sh dma sg) sgs n = (let
        ps = concat (map (\<lambda>sg. map (\<lambda>k. sg_addr dma sg + word_of_nat (k * 2 ^ sh)) [0..<sg_page_cnt sh dma sg]) sgs);
        m = n - (start + sg_page_cnt sh dma sg) in if m < length ps then ps ! m else 0)"
      unfolding Let_def by (rule Cons.IH) (use Cons.prems False in auto)
    then show ?thesis using False Cons.prems(2) by (auto simp: nth_append Let_def diff_diff_left)
  qed
qed simp

lemma zx_get_page_phys_address_list:
  "os_pages_small sh m \<Longrightarrow> zx_get_page_phys_address sh m n =
     (if n < length (os_page_list sh m) then os_page_list sh m ! n else 0)"
  using page_phys_walk_list [of "st_sgl m" sh "has_dma_map m" 0 n]
  by (simp add: zx_get_page_phys_address_def os_pages_small_def os_page_list_def)

section \<open>Entries\<close>

text \<open>\<^verbatim>\<open>vidsch_get_pte_value\<close>: where the bridge needs it, unsnooped addresses above the low memory are moved down.\<close>

record pte_adapter =
  nonsnoop_patch_enable :: bool
  low_top_address :: u64
  os_page_shift :: nat

definition vidsch_get_pte_value :: "pte_adapter \<Rightarrow> bool \<Rightarrow> u64 \<Rightarrow> u64" where
  "vidsch_get_pte_value a snoop phy_addr =
     (if nonsnoop_patch_enable a \<and> \<not> snoop then
        let p = drop_bit 12 phy_addr; low = drop_bit 12 (low_top_address a)
        in push_bit 12 (if p > low then p - (0x100000 - low) else p)
      else phy_addr)"

text \<open>
  The entries of the three levels, \<^verbatim>\<open>PTE_L1_t\<close>, \<^verbatim>\<open>PTE_L2_t\<close> and \<^verbatim>\<open>PTE_L3_t\<close> for pages of 4 KB: the valid
  bit, three flags and the page number, of 27 bits on the second level and of 28 bits on the others.
\<close>

definition pte_bits :: "nat \<Rightarrow> bool \<Rightarrow> bool \<Rightarrow> bool \<Rightarrow> u64 \<Rightarrow> u32" where
  "pte_bits n ns snoop seg addr =
     1 OR push_bit 1 (of_bool ns) OR push_bit 2 (of_bool snoop) OR push_bit 3 (of_bool seg) OR
     push_bit 4 (take_bit n (ucast addr))"

definition PTE_L1 :: "bool \<Rightarrow> bool \<Rightarrow> bool \<Rightarrow> u64 \<Rightarrow> u32" where "PTE_L1 = pte_bits 28"
definition PTE_L2 :: "bool \<Rightarrow> bool \<Rightarrow> bool \<Rightarrow> u64 \<Rightarrow> u32" where "PTE_L2 = pte_bits 27"
definition PTE_L3 :: "bool \<Rightarrow> bool \<Rightarrow> bool \<Rightarrow> u64 \<Rightarrow> u32" where "PTE_L3 = pte_bits 28"

text \<open>How the engine reads an entry.\<close>

definition pte_valid :: "u32 \<Rightarrow> bool" where "pte_valid w = bit w 0"

definition pte_address :: "u32 \<Rightarrow> u64" where "pte_address w = push_bit 12 (ucast (drop_bit 4 w))"

lemma pte_bits_valid: "pte_valid (pte_bits n ns snoop seg addr)"
  by (simp add: pte_valid_def pte_bits_def bit_simps)

lemma pte_bits_address:
  assumes "n \<le> 28"
  shows "pte_address (pte_bits n ns snoop seg (drop_bit 12 pa)) = take_bit (12 + n) (push_bit 12 (drop_bit 12 pa))"
proof (rule bit_word_eqI)
  fix k assume "k < LENGTH(64)"
  then show "bit (pte_address (pte_bits n ns snoop seg (drop_bit 12 pa))) k \<longleftrightarrow>
      bit (take_bit (12 + n) (push_bit 12 (drop_bit 12 pa))) k"
    using assms by (auto simp: pte_address_def pte_bits_def bit_simps not_le)
qed

section \<open>Chunks of local memory\<close>

text \<open>
  Start and size of the chunks, \<^verbatim>\<open>range_node_list\<close>. The first loop skips \<open>start\<close> pages: it enters every
  chunk with \<^verbatim>\<open>current_page = 0\<close>, and a chunk it does not skip whole is where it ends. \<open>None\<close> is a read
  past the list.
\<close>

fun skip_nodes :: "nat \<Rightarrow> nat \<Rightarrow> nat \<Rightarrow> (u64 \<times> nat) list \<Rightarrow> ((u64 \<times> nat) list \<times> nat) option" where
  "skip_nodes sh skipped start [] = (if skipped < start then None else Some ([], 0))"
| "skip_nodes sh skipped start ((st, sz) # ns) =
     (if skipped < start then
        let this_skip = min (sz div 2 ^ sh) (start - skipped)
        in if this_skip = sz div 2 ^ sh then skip_nodes sh (skipped + this_skip) start ns
           else Some ((st, sz) # ns, this_skip)
      else Some ((st, sz) # ns, 0))"

text \<open>The second loop takes the next \<open>n\<close> pages.\<close>

fun take_node_pages :: "nat \<Rightarrow> (u64 \<times> nat) list \<Rightarrow> nat \<Rightarrow> nat \<Rightarrow> u64 list option" where
  "take_node_pages sh ns cp 0 = Some []"
| "take_node_pages sh [] cp (Suc n) = None"
| "take_node_pages sh ((st, sz) # ns) cp (Suc n) =
     map_option (\<lambda>pas. (st + int_shl cp sh) # pas)
       (if cp + 1 = sz div 2 ^ sh then take_node_pages sh ns 0 n
        else take_node_pages sh ((st, sz) # ns) (cp + 1) n)"

definition fb_page_list :: "nat \<Rightarrow> (u64 \<times> nat) list \<Rightarrow> u64 list" where
  "fb_page_list sh ns = concat (map (\<lambda>(st, sz). map (\<lambda>k. st + word_of_nat (k * 2 ^ sh)) [0..<sz div 2 ^ sh]) ns)"

text \<open>The chunks are as \<open>Fb_Memory\<close> makes them: none is empty, none reaches 2 GB.\<close>

definition fb_nodes_ok :: "nat \<Rightarrow> (u64 \<times> nat) list \<Rightarrow> bool" where
  "fb_nodes_ok sh ns \<longleftrightarrow> (\<forall>(st, sz) \<in> set ns. 2 ^ sh \<le> sz \<and> sz \<le> 2 ^ 31)"

lemma fb_page_list_Cons:
  "fb_page_list sh ((st, sz) # ns) = map (\<lambda>k. st + word_of_nat (k * 2 ^ sh)) [0..<sz div 2 ^ sh] @ fb_page_list sh ns"
  by (simp add: fb_page_list_def)

lemma take_node_pages_list:
  assumes "fb_nodes_ok sh ns" "ns \<noteq> [] \<Longrightarrow> cp < snd (hd ns) div 2 ^ sh" "ns = [] \<Longrightarrow> cp = 0"
  shows "take_node_pages sh ns cp n =
     (if cp + n \<le> length (fb_page_list sh ns) then Some (take n (drop cp (fb_page_list sh ns))) else None)"
  using assms
proof (induction sh ns cp n rule: take_node_pages.induct)
  case (1 sh ns cp)
  have "cp \<le> length (fb_page_list sh ns)" using 1(2,3) by (cases ns) (auto simp: fb_page_list_Cons)
  then show ?case by simp
next
  case (2 sh cp n)
  then show ?case by (simp add: fb_page_list_def)
next
  case (3 sh st sz ns cp n)
  have cp: "cp < sz div 2 ^ sh" using "3.prems"(2) by simp
  have ok: "fb_nodes_ok sh ns" "2 ^ sh \<le> sz" "sz \<le> 2 ^ 31" using "3.prems"(1) by (auto simp: fb_nodes_ok_def)
  have "cp * 2 ^ sh < sz div 2 ^ sh * 2 ^ sh" using cp by simp
  also have "\<dots> \<le> 2 ^ 31" using ok(3) div_times_less_eq_dividend [of sz "2 ^ sh"] by linarith
  finally have shl: "int_shl cp sh = word_of_nat (cp * 2 ^ sh)" by (rule int_shl_small)
  let ?ps = "fb_page_list sh ((st, sz) # ns)"
  have len: "length ?ps = sz div 2 ^ sh + length (fb_page_list sh ns)" by (simp add: fb_page_list_Cons)
  have nth: "?ps ! cp = st + int_shl cp sh" using cp shl by (simp add: fb_page_list_Cons nth_append)
  have first: "take (Suc n) (drop cp ?ps) = (st + int_shl cp sh) # take n (drop (Suc cp) ?ps)"
    using nth cp len by (simp add: Cons_nth_drop_Suc [symmetric])
  show ?case
  proof (cases "cp + 1 = sz div 2 ^ sh")
    case True
    have drop: "drop (Suc cp) ?ps = fb_page_list sh ns" using True by (simp add: fb_page_list_Cons)
    have "ns \<noteq> [] \<Longrightarrow> 0 < snd (hd ns) div 2 ^ sh"
      using ok(1) by (cases ns) (auto simp: fb_nodes_ok_def div_greater_zero_iff)
    from "3.IH"(1) [OF True ok(1) this] show ?thesis
      using True len unfolding first drop by simp
  next
    case False
    then have "cp + 1 < sz div 2 ^ sh" using cp by simp
    from "3.IH"(2) [OF False "3.prems"(1)] this show ?thesis
      using False len unfolding first by simp
  qed
qed

lemma skip_nodes_list:
  assumes "fb_nodes_ok sh ns" "skipped \<le> start"
  shows "case skip_nodes sh skipped start ns of
      None \<Rightarrow> length (fb_page_list sh ns) < start - skipped
    | Some (ns', cp) \<Rightarrow> fb_nodes_ok sh ns' \<and> (ns' \<noteq> [] \<longrightarrow> cp < snd (hd ns') div 2 ^ sh) \<and> (ns' = [] \<longrightarrow> cp = 0) \<and>
        start - skipped \<le> length (fb_page_list sh ns) \<and>
        drop cp (fb_page_list sh ns') = drop (start - skipped) (fb_page_list sh ns)"
  using assms
proof (induction sh skipped start ns rule: skip_nodes.induct)
  case (1 sh skipped start)
  then show ?case by (auto simp: fb_page_list_def)
next
  case (2 sh skipped start st sz ns)
  have ok: "fb_nodes_ok sh ns" "0 < sz div 2 ^ sh" using "2.prems"(1) by (auto simp: fb_nodes_ok_def div_greater_zero_iff)
  show ?case
  proof (cases "skipped < start")
    case False
    then show ?thesis using "2.prems" ok(2) by simp
  next
    case True
    define this_skip where "this_skip = min (sz div 2 ^ sh) (start - skipped)"
    show ?thesis
    proof (cases "this_skip = sz div 2 ^ sh")
      case whole: True
      have le: "skipped + this_skip \<le> start" using True by (simp add: this_skip_def)
      have step: "skip_nodes sh skipped start ((st, sz) # ns) = skip_nodes sh (skipped + this_skip) start ns"
        using True whole by (simp add: this_skip_def [symmetric] Let_def)
      have "length (map (\<lambda>k. st + word_of_nat (k * 2 ^ sh)) [0..<sz div 2 ^ sh]) = this_skip" using whole by simp
      moreover have "start - skipped = this_skip + (start - (skipped + this_skip))" using le by simp
      ultimately have "drop (start - skipped) (fb_page_list sh ((st, sz) # ns)) =
          drop (start - (skipped + this_skip)) (fb_page_list sh ns)"
        "length (fb_page_list sh ((st, sz) # ns)) = this_skip + length (fb_page_list sh ns)"
        by (simp_all add: fb_page_list_Cons)
      then show ?thesis
        using "2.IH" [OF True this_skip_def whole ok(1) le] le unfolding step by (auto split: option.splits)
    next
      case part: False
      then have t: "this_skip = start - skipped" "this_skip < sz div 2 ^ sh" by (auto simp: this_skip_def min_def split: if_splits)
      have "skip_nodes sh skipped start ((st, sz) # ns) = Some ((st, sz) # ns, this_skip)"
        using True part by (simp add: this_skip_def [symmetric] Let_def)
      then show ?thesis using t "2.prems" by (simp add: fb_page_list_Cons)
    qed
  qed
qed

section \<open>Dirty ranges\<close>

text \<open>
  \<^verbatim>\<open>gart_dirty_t\<close>: while it is dirty it stands for the addresses that agree with \<open>dirty_addr\<close> outside of
  \<open>dirty_mask\<close>.
\<close>

record gart_dirty =
  dirty :: bool
  dirty_addr :: u64
  dirty_mask :: u64

definition dirty_add :: "u64 \<Rightarrow> u64 \<Rightarrow> gart_dirty \<Rightarrow> gart_dirty" where
  "dirty_add va msk d =
     (if dirty d then
        let m = dirty_mask d OR msk OR (dirty_addr d XOR (va AND NOT msk))
        in \<lparr> dirty = True, dirty_addr = dirty_addr d AND NOT m, dirty_mask = m \<rparr>
      else \<lparr> dirty = True, dirty_addr = va AND NOT msk, dirty_mask = msk \<rparr>)"

text \<open>The mask that a loop over offsets from \<open>va\<close> collects.\<close>

definition range_mask :: "u64 \<Rightarrow> u64 list \<Rightarrow> u64" where
  "range_mask va offs = fold (\<lambda>x msk. msk OR (va XOR (va + x))) offs 0"

definition clear_dirty :: "gart_dirty \<Rightarrow> gart_dirty" where
  "clear_dirty d = (if dirty d then \<lparr> dirty = False, dirty_addr = 0, dirty_mask = 0 \<rparr> else d)"

definition dirty_covers :: "gart_dirty \<Rightarrow> u64 \<Rightarrow> bool" where
  "dirty_covers d x \<longleftrightarrow> dirty d \<and> x AND NOT (dirty_mask d) = dirty_addr d"

lemma range_mask_agree:
  assumes "x \<in> set offs"
  shows "(va + x) AND NOT (range_mask va offs) = va AND NOT (range_mask va offs)"
proof -
  have mono: "bit m k \<Longrightarrow> bit (fold (\<lambda>x msk. msk OR (va XOR (va + x))) offs m) k" for m k offs
    by (induction offs arbitrary: m) (simp_all add: bit_simps)
  have "bit (va XOR (va + x)) k \<Longrightarrow> bit (fold (\<lambda>x msk. msk OR (va XOR (va + x))) offs m) k" for m k
    using assms
  proof (induction offs arbitrary: m)
    case (Cons y offs)
    then show ?case by (cases "y = x") (auto simp: bit_simps intro: mono)
  qed simp
  then have "bit (va XOR (va + x)) k \<Longrightarrow> bit (range_mask va offs) k" for k by (simp add: range_mask_def)
  then show ?thesis by (intro bit_word_eqI) (auto simp: bit_simps)
qed

lemma dirty_add_covers:
  "dirty_covers d x \<or> x AND NOT msk = va AND NOT msk \<Longrightarrow> dirty_covers (dirty_add va msk d) x"
  unfolding dirty_covers_def dirty_add_def Let_def
  by (auto simp: bit_eq_iff bit_simps)

lemma dirty_add_range:
  assumes "x \<in> set offs"
  shows "dirty_covers (dirty_add va (range_mask va offs) d) (va + x)"
  by (rule dirty_add_covers, rule disjI2, rule range_mask_agree [OF assms])

section \<open>Forgetting translations\<close>

text \<open>
  \<^verbatim>\<open>engine_invalidate_tlb_command_e3k\<close>: the registers that make the engine forget the translations of a
  dirty range, first those of a directory (\<open>0x1a\<close> and \<open>14\<close>), then those of pages (\<open>0x10\<close> and \<open>4\<close>). A cache
  line holds 16 translations. By the description of the registers the engine drops what agrees with the
  address register, in units of 4 KB, under the mask register.
\<close>

definition pt_inv_regs :: "nat \<Rightarrow> nat \<Rightarrow> gart_dirty \<Rightarrow> (u32 \<times> u32) option" where
  "pt_inv_regs tlb_shift field_shift d =
     (if dirty d then
        Some (take_bit 28 (ucast (push_bit field_shift (drop_bit tlb_shift (dirty_addr d)))),
              take_bit 28 (ucast (push_bit field_shift (drop_bit tlb_shift (NOT (dirty_mask d))))))
      else None)"

definition engine_invalidate_tlb_command_e3k :: "gart_dirty \<times> gart_dirty \<Rightarrow> (u32 \<times> u32) option \<times> (u32 \<times> u32) option" where
  "engine_invalidate_tlb_command_e3k dirties =
     (case dirties of (utlb, dtlb) \<Rightarrow> (pt_inv_regs 0x1a 14 utlb, pt_inv_regs 0x10 4 dtlb))"

definition tlb_dropped :: "(u32 \<times> u32) option \<Rightarrow> u64 \<Rightarrow> bool" where
  "tlb_dropped regs va =
     (case regs of None \<Rightarrow> False
      | Some (addr, msk) \<Rightarrow> ucast (drop_bit 12 va) AND msk = addr AND msk)"

lemma pt_inv_regs_drop:
  assumes "dirty_covers d va" "tlb_shift = field_shift + 12"
  shows "tlb_dropped (pt_inv_regs tlb_shift field_shift d) va"
proof -
  have d: "dirty d" and e: "dirty_addr d = va AND NOT (dirty_mask d)"
    using assms(1) by (simp_all add: dirty_covers_def)
  have va: "bit (dirty_addr d) k \<longleftrightarrow> bit va k \<and> \<not> bit (dirty_mask d) k \<and> k < 64" for k
    unfolding e by (auto simp: bit_simps dest: bit_imp_le_length)
  show ?thesis
    by (simp add: tlb_dropped_def pt_inv_regs_def d assms(2), rule bit_word_eqI)
       (auto simp: bit_simps va ac_simps)
qed

section \<open>The chip function\<close>

record segment_memory =
  sm_security :: bool
  sm_snoop :: bool
  sm_local :: bool
  sm_pages :: os_pages_memory
  sm_start :: u64

record alloc_memory =
  al_secured :: bool
  al_snoop :: bool
  al_local :: bool
  al_pages :: os_pages_memory
  al_nodes :: "(u64 \<times> nat) list"

text \<open>An entry of a directory: the page \<open>i\<close> of the table below.\<close>

definition pde_value :: "pte_adapter \<Rightarrow> (bool \<Rightarrow> bool \<Rightarrow> bool \<Rightarrow> u64 \<Rightarrow> u32) \<Rightarrow> segment_memory \<Rightarrow> nat \<Rightarrow> u32" where
  "pde_value a pte sm i =
     (let pte_pa = (if sm_local sm then sm_start sm + uint_shl i 12
                    else vidsch_get_pte_value a (sm_snoop sm)
                           (zx_get_page_phys_address (os_page_shift a) (sm_pages sm) i))
      in pte (\<not> sm_security sm) (sm_snoop sm) (sm_local sm) (drop_bit 12 pte_pa))"

text \<open>The pages a table of pages is filled with, counted in pages of the memory they lie in.\<close>

definition entity_pages ::
    "pte_adapter \<Rightarrow> (nat \<Rightarrow> segment_memory) \<Rightarrow> (nat \<Rightarrow> alloc_memory) \<Rightarrow> pt_entity \<Rightarrow> nat \<Rightarrow> nat \<Rightarrow> u64 list option" where
  "entity_pages a sm al e start n =
     (case e of
        Allocation x \<Rightarrow>
          if al_local (al x)
          then Option.bind (skip_nodes 12 0 start (al_nodes (al x)))
                 (\<lambda>(ns, cp). take_node_pages 12 ns cp n)
          else Some (map (\<lambda>i. zx_get_page_phys_address (os_page_shift a) (al_pages (al x)) (i + start)) [0..<n])
      | Seg_Memory b \<Rightarrow>
          if sm_local (sm b)
          then Some (map (\<lambda>i. sm_start (sm b) + uint_shl (i + start) 12) [0..<n])
          else Some (map (\<lambda>i. zx_get_page_phys_address (os_page_shift a) (sm_pages (sm b)) (i + start)) [0..<n]))"

definition entity_flags :: "(nat \<Rightarrow> segment_memory) \<Rightarrow> (nat \<Rightarrow> alloc_memory) \<Rightarrow> pt_entity \<Rightarrow> bool \<times> bool \<times> bool" where
  "entity_flags sm al e =
     (case e of
        Allocation x \<Rightarrow> (\<not> al_secured (al x), al_snoop (al x), al_local (al x))
      | Seg_Memory b \<Rightarrow> (\<not> sm_security (sm b), sm_snoop (sm b), sm_local (sm b)))"

text \<open>A page of the memory is \<open>2 ^ (sh - 12)\<close> pages of the engine.\<close>

definition pt_values :: "pte_adapter \<Rightarrow> bool \<times> bool \<times> bool \<Rightarrow> nat \<Rightarrow> u64 list \<Rightarrow> u32 list" where
  "pt_values a flags sh pas =
     (case flags of (ns, snoop, seg) \<Rightarrow>
        concat (map (\<lambda>pa. map (\<lambda>j. PTE_L3 ns snoop seg
          (drop_bit 12 (vidsch_get_pte_value a snoop (pa + word_of_nat (j * 4096))))) [0..<2 ^ (sh - 12)]) pas))"

text \<open>
  \<^verbatim>\<open>vidmm_update_ptes_e3k\<close> when the engine writes the table: the words behind the register part of the
  command, and the dirty ranges of the two translation caches of the engine. \<open>None\<close> is the use of a null
  pointer or a read past the chunks.
\<close>

definition vidmm_update_ptes_e3k ::
    "pte_adapter \<Rightarrow> (nat \<Rightarrow> segment_memory) \<Rightarrow> (nat \<Rightarrow> alloc_memory) \<Rightarrow> pte_update \<Rightarrow>
     gart_dirty \<times> gart_dirty \<Rightarrow> (u32 list \<times> gart_dirty \<times> gart_dirty) option" where
  "vidmm_update_ptes_e3k a sm al u dirties =
     (let (utlb, dtlb) = dirties;
          left = upd_offset u; right = left + upd_npte u - 1;
          head = [word_of_nat left OR push_bit 16 (word_of_nat right), 0]
      in if upd_level u = 0 then
           (case upd_entity u of Allocation x \<Rightarrow> None
            | Seg_Memory b \<Rightarrow> Some (head @ map (pde_value a PTE_L1 (sm b)) [0..<upd_npte u], utlb, dtlb))
         else if upd_level u = 1 then
           (case upd_entity u of Allocation x \<Rightarrow> None
            | Seg_Memory b \<Rightarrow>
                let va = word_of_nat (upd_start_va u);
                    msk = range_mask va (map (\<lambda>i. word_of_nat (i * 4194304)) [0..<upd_npte u])
                in Some (head @ map (pde_value a PTE_L2 (sm b)) [0..<upd_npte u], dirty_add va msk utlb, dtlb))
         else if upd_level u = 2 then
           let flags = entity_flags sm al (upd_entity u);
               sh = (if snd (snd flags) then 12 else os_page_shift a);
               start = (upd_fill_va u - upd_start_va u) div 2 ^ sh + upd_entity_offset u div 2 ^ sh;
               n = upd_npte u div 2 ^ (sh - 12);
               va = word_of_nat (upd_fill_va u);
               msk = range_mask va (concat (map (\<lambda>i. map (\<lambda>j. uint_shl i sh + word_of_nat (j * 4096)) [0..<2 ^ (sh - 12)]) [0..<n]))
           in map_option (\<lambda>pas. (head @ pt_values a flags sh pas, utlb, dirty_add va msk dtlb))
                (entity_pages a sm al (upd_entity u) start n)
         else Some (head, utlb, dtlb))"


section \<open>Which pages the entries name\<close>

text \<open>The pages of 4 KB of an allocation, and how many there are.\<close>

definition alloc_page_count :: "pte_adapter \<Rightarrow> alloc_memory \<Rightarrow> nat" where
  "alloc_page_count a x =
     (if al_local x then length (fb_page_list 12 (al_nodes x))
      else length (os_page_list (os_page_shift a) (al_pages x)) * 2 ^ (os_page_shift a - 12))"

definition alloc_page :: "pte_adapter \<Rightarrow> alloc_memory \<Rightarrow> nat \<Rightarrow> u64" where
  "alloc_page a x k =
     (if al_local x then fb_page_list 12 (al_nodes x) ! k
      else let m = 2 ^ (os_page_shift a - 12)
           in os_page_list (os_page_shift a) (al_pages x) ! (k div m) + word_of_nat (k mod m * 4096))"

definition alloc_memory_ok :: "pte_adapter \<Rightarrow> alloc_memory \<Rightarrow> bool" where
  "alloc_memory_ok a x \<longleftrightarrow>
     (if al_local x then fb_nodes_ok 12 (al_nodes x)
      else 12 \<le> os_page_shift a \<and> os_pages_small (os_page_shift a) (al_pages x))"

text \<open>What lies in whole pages of the memory, so that a call does not start or end inside of one.\<close>

definition page_aligned :: "pte_adapter \<Rightarrow> alloc_memory \<Rightarrow> nat \<Rightarrow> bool" where
  "page_aligned a x v \<longleftrightarrow> (if al_local x then 4096 dvd v else 2 ^ os_page_shift a dvd v)"

definition page_entry :: "pte_adapter \<Rightarrow> alloc_memory \<Rightarrow> nat \<Rightarrow> u32" where
  "page_entry a x k = PTE_L3 (\<not> al_secured x) (al_snoop x) (al_local x)
     (drop_bit 12 (vidsch_get_pte_value a (al_snoop x) (alloc_page a x k)))"

lemma concat_map_rows:
  "concat (map (\<lambda>i. map (\<lambda>j. f (i * m + j)) [0..<m]) [0..<n]) = map f [0..<n * m]"
proof (induction n)
  case (Suc n)
  have "[0..<Suc n * m] = [0..<n * m] @ map (\<lambda>j. n * m + j) [0..<m]"
    using upt_add_eq_append [of 0 "n * m" m] by (simp add: map_add_upt add.commute)
  then show ?case using Suc by simp
qed simp

lemma entity_pages_alloc:
  assumes ok: "alloc_memory_ok a x" and al: "al y = x"
    and sh: "sh = (if al_local x then 12 else os_page_shift a)"
    and fit: "(start + n) * 2 ^ (sh - 12) \<le> alloc_page_count a x"
  shows "entity_pages a sm al (Allocation y) start n =
     Some (map (\<lambda>i. alloc_page a x ((start + i) * 2 ^ (sh - 12))) [0..<n])"
proof (cases "al_local x")
  case True
  let ?ps = "fb_page_list 12 (al_nodes x)"
  have nodes: "fb_nodes_ok 12 (al_nodes x)" and len: "start + n \<le> length ?ps"
    using ok fit True sh by (simp_all add: alloc_memory_ok_def alloc_page_count_def)
  obtain ns cp where skip: "skip_nodes 12 0 start (al_nodes x) = Some (ns, cp)"
    "fb_nodes_ok 12 ns" "ns \<noteq> [] \<longrightarrow> cp < snd (hd ns) div 2 ^ 12" "ns = [] \<longrightarrow> cp = 0"
    "drop cp (fb_page_list 12 ns) = drop start ?ps"
    using skip_nodes_list [OF nodes, of 0 start] len by (auto split: option.splits)
  have "length (drop cp (fb_page_list 12 ns)) = length ?ps - start" using skip(5) by simp
  moreover have "cp \<le> length (fb_page_list 12 ns)"
    using skip(3,4) by (cases ns) (auto simp: fb_page_list_Cons)
  ultimately have "cp + n \<le> length (fb_page_list 12 ns)" using len by simp
  then have "take_node_pages 12 ns cp n = Some (take n (drop start ?ps))"
    using take_node_pages_list [of 12 ns cp n] skip(2-5) by simp
  moreover have "take n (drop start ?ps) = map (\<lambda>i. ?ps ! (start + i)) [0..<n]"
    using len by (intro nth_equalityI) simp_all
  ultimately show ?thesis
    using skip(1) True al sh by (simp add: entity_pages_def alloc_page_def)
next
  case False
  let ?ps = "os_page_list (os_page_shift a) (al_pages x)"
  have small: "os_pages_small (os_page_shift a) (al_pages x)" using ok False by (simp add: alloc_memory_ok_def)
  have "start + i < length ?ps" if "i < n" for i
  proof -
    have "start + n \<le> length ?ps" using fit False sh by (simp add: alloc_page_count_def)
    then show ?thesis using that by simp
  qed
  then show ?thesis
    using False al sh by (simp add: entity_pages_def alloc_page_def zx_get_page_phys_address_list [OF small] add.commute)
qed

lemma pt_values_alloc:
  assumes ok: "alloc_memory_ok a x" and sh: "sh = (if al_local x then 12 else os_page_shift a)"
  shows "pt_values a (\<not> al_secured x, al_snoop x, al_local x) sh
      (map (\<lambda>i. alloc_page a x ((start + i) * 2 ^ (sh - 12))) [0..<n]) =
    map (\<lambda>i. page_entry a x (start * 2 ^ (sh - 12) + i)) [0..<n * 2 ^ (sh - 12)]"
proof -
  let ?m = "2 ^ (sh - 12) :: nat"
  have page: "alloc_page a x ((start + i) * ?m) + word_of_nat (j * 4096) = alloc_page a x (start * ?m + (i * ?m + j))"
    if "j < ?m" for i j
  proof -
    have "start * ?m + (i * ?m + j) = (start + i) * ?m + j" by (simp add: add_mult_distrib)
    moreover have "((start + i) * ?m + j) div ?m = start + i" "((start + i) * ?m + j) mod ?m = j" using that by simp_all
    ultimately show ?thesis using that sh by (auto simp: alloc_page_def Let_def split: if_splits)
  qed
  have row: "map (\<lambda>j. PTE_L3 (\<not> al_secured x) (al_snoop x) (al_local x) (drop_bit 12
        (vidsch_get_pte_value a (al_snoop x) (alloc_page a x ((start + i) * ?m) + word_of_nat (j * 4096))))) [0..<?m] =
      map (\<lambda>j. page_entry a x (start * ?m + (i * ?m + j))) [0..<?m]" for i
    by (rule map_cong [OF refl]) (simp add: page [simplified] page_entry_def)
  show ?thesis
    unfolding pt_values_def prod.case map_map comp_def row
    by (rule concat_map_rows [of "\<lambda>i. page_entry a x (start * ?m + i)"])
qed

end
