(* ===== verification/Page_Phys.thy ===== *)
theory Page_Phys
  imports Pte_E3k
begin

text \<open>
  What the engine finds in memory once it has carried out the calls that mapping makes. \<open>Page_Map\<close> says
  what every call means, \<open>Pte_E3k\<close> which words the driver sends for it; here the words are shown to
  stand for the meaning, so that the walk of the engine over the words ends at the physical page.
\<close>

section \<open>What the engine reads back\<close>

text \<open>
  The memory of the tables, by the device address of a table, and the copy command, whose first word
  holds the first and the last entry that are written.
\<close>

definition engine_copy :: "u64 \<Rightarrow> u32 list \<Rightarrow> (u64 \<Rightarrow> nat \<Rightarrow> u32) \<Rightarrow> u64 \<Rightarrow> nat \<Rightarrow> u32" where
  "engine_copy dst ws mem =
     (let left = unat (take_bit 16 (ws ! 0)); right = unat (drop_bit 16 (ws ! 0))
      in (\<lambda>t k. if t = dst \<and> left \<le> k \<and> k \<le> right then ws ! (2 + (k - left)) else mem t k))"

fun engine_walk :: "(u64 \<Rightarrow> nat \<Rightarrow> u32) \<Rightarrow> u64 \<Rightarrow> nat list \<Rightarrow> u64 option" where
  "engine_walk mem t [] = Some t"
| "engine_walk mem t (i # is) =
     (if pte_valid (mem t i) then engine_walk mem (pte_address (mem t i)) is else None)"

text \<open>Where a table lies, and a page of an allocation, for the device.\<close>

definition table_address :: "pte_adapter \<Rightarrow> segment_memory \<Rightarrow> u64" where
  "table_address a s = push_bit 12 (drop_bit 12
     (if sm_local s then sm_start s
      else vidsch_get_pte_value a (sm_snoop s) (zx_get_page_phys_address (os_page_shift a) (sm_pages s) 0)))"

definition page_address :: "pte_adapter \<Rightarrow> alloc_memory \<Rightarrow> nat \<Rightarrow> u64" where
  "page_address a x k = push_bit 12 (drop_bit 12 (vidsch_get_pte_value a (al_snoop x) (alloc_page a x k)))"

text \<open>A word stands for an entry of \<open>Page_Map\<close>.\<close>

definition cell_rel :: "pte_adapter \<Rightarrow> (nat \<Rightarrow> segment_memory) \<Rightarrow> (nat \<Rightarrow> alloc_memory) \<Rightarrow> hw_pte \<Rightarrow> u32 \<Rightarrow> bool" where
  "cell_rel a sm al e w =
     (case e of
        Hw_Invalid \<Rightarrow> \<not> pte_valid w
      | Hw_Table b \<Rightarrow> pte_valid w \<and> pte_address w = table_address a (sm b)
      | Hw_Page y k \<Rightarrow> pte_valid w \<and> pte_address w = page_address a (al y) k)"

definition memory_rel ::
    "pte_adapter \<Rightarrow> (nat \<Rightarrow> segment_memory) \<Rightarrow> (nat \<Rightarrow> alloc_memory) \<Rightarrow> nat set \<Rightarrow>
     (nat \<Rightarrow> nat \<Rightarrow> hw_pte) \<Rightarrow> (u64 \<Rightarrow> nat \<Rightarrow> u32) \<Rightarrow> bool" where
  "memory_rel a sm al B mem words \<longleftrightarrow>
     (\<forall>b \<in> B. \<forall>k. cell_rel a sm al (mem b k) (words (table_address a (sm b)) k))"

text \<open>The calls the driver makes.\<close>

definition update_ok ::
    "pte_adapter \<Rightarrow> (nat \<Rightarrow> segment_memory) \<Rightarrow> (nat \<Rightarrow> alloc_memory) \<Rightarrow> nat set \<Rightarrow> pte_update \<Rightarrow> bool" where
  "update_ok a sm al B u \<longleftrightarrow>
     upd_dst u \<in> B \<and> 0 < upd_npte u \<and> upd_offset u + upd_npte u \<le> 2 ^ 16 \<and>
     (case upd_entity u of
        Seg_Memory b \<Rightarrow> upd_level u < 2 \<and> upd_npte u = 1 \<and> table_address a (sm b) < 2 ^ 39
      | Allocation y \<Rightarrow>
          upd_level u = 2 \<and> alloc_memory_ok a (al y) \<and> page_aligned a (al y) (upd_fill_va u - upd_start_va u) \<and>
          page_aligned a (al y) (upd_entity_offset u) \<and> page_aligned a (al y) (upd_npte u * 4096) \<and>
          (upd_fill_va u - upd_start_va u) div 4096 + upd_entity_offset u div 4096 + upd_npte u \<le> alloc_page_count a (al y) \<and>
          (\<forall>k < alloc_page_count a (al y). page_address a (al y) k < 2 ^ 40))"

lemma pte_address_in_range:
  assumes "n \<le> 28" "push_bit 12 (drop_bit 12 pa) < (2 :: u64) ^ (12 + n)"
  shows "pte_address (pte_bits n ns snoop seg (drop_bit 12 pa)) = push_bit 12 (drop_bit 12 pa)"
proof -
  have "take_bit (12 + n) (push_bit 12 (drop_bit 12 pa)) = push_bit 12 (drop_bit 12 pa)"
    using assms less_mask_eq [of "push_bit 12 (drop_bit 12 pa)" "12 + n"] by (simp add: take_bit_eq_mask)
  then show ?thesis by (simp add: pte_bits_address [OF assms(1)])
qed

lemma pde_value_address:
  assumes "table_address a s < 2 ^ 39"
  shows "pte_address (pde_value a PTE_L1 s 0) = table_address a s" "pte_address (pde_value a PTE_L2 s 0) = table_address a s"
    "pte_valid (pde_value a PTE_L1 s 0)" "pte_valid (pde_value a PTE_L2 s 0)"
proof -
  have "table_address a s < 2 ^ 40" by (rule less_le_trans [OF assms]) simp
  then have lt: "table_address a s < 2 ^ (12 + 28)" "table_address a s < 2 ^ (12 + 27)"
    using assms by simp_all
  show "pte_address (pde_value a PTE_L1 s 0) = table_address a s"
    using pte_address_in_range [OF _ lt(1) [unfolded table_address_def]]
    by (cases "sm_local s") (simp_all add: pde_value_def Let_def PTE_L1_def table_address_def)
  show "pte_address (pde_value a PTE_L2 s 0) = table_address a s"
    using pte_address_in_range [OF _ lt(2) [unfolded table_address_def]]
    by (cases "sm_local s") (simp_all add: pde_value_def Let_def PTE_L2_def table_address_def)
  show "pte_valid (pde_value a PTE_L1 s 0)" "pte_valid (pde_value a PTE_L2 s 0)"
    by (simp_all add: pde_value_def Let_def PTE_L1_def PTE_L2_def pte_bits_valid)
qed

lemma page_entry_address:
  assumes "page_address a x k < 2 ^ 40"
  shows "pte_valid (page_entry a x k)" "pte_address (page_entry a x k) = page_address a x k"
proof -
  have lt: "page_address a x k < 2 ^ (12 + 28)" using assms by simp
  show "pte_valid (page_entry a x k)" by (simp add: page_entry_def PTE_L3_def pte_bits_valid)
  show "pte_address (page_entry a x k) = page_address a x k"
    using pte_address_in_range [OF _ lt [unfolded page_address_def]]
    by (simp add: page_entry_def PTE_L3_def page_address_def)
qed

lemma page_shift_split: "12 \<le> sh \<Longrightarrow> (2 :: nat) ^ sh = 4096 * 2 ^ (sh - 12)"
proof -
  assume "12 \<le> sh"
  then have "(2 :: nat) ^ sh = 2 ^ 12 * 2 ^ (sh - 12)" by (simp only: power_add [symmetric]) simp
  then show ?thesis by simp
qed

lemma shift_div: "12 \<le> sh \<Longrightarrow> 2 ^ sh dvd v \<Longrightarrow> v div 2 ^ sh * 2 ^ (sh - 12) = v div (4096 :: nat)"
proof -
  assume sh: "12 \<le> sh" and "2 ^ sh dvd v"
  then obtain q where v: "v = 2 ^ sh * q" by blast
  show ?thesis unfolding v using page_shift_split [OF sh] by simp
qed

text \<open>A call of the driver writes one word per entry, each standing for what the call means.\<close>

lemma update_words:
  assumes ok: "update_ok a sm al B u"
  obtains ws d' where
    "vidmm_update_ptes_e3k a sm al u d =
       Some ((word_of_nat (upd_offset u) OR push_bit 16 (word_of_nat (upd_offset u + upd_npte u - 1))) # 0 # ws, d')"
    "length ws = upd_npte u" "\<And>i. i < upd_npte u \<Longrightarrow> cell_rel a sm al (update_cell u i) (ws ! i)"
proof (cases "upd_entity u")
  case (Seg_Memory b)
  have lv: "upd_level u = 0 \<or> upd_level u = 1" and n: "upd_npte u = 1" and t: "table_address a (sm b) < 2 ^ 39"
    using ok Seg_Memory by (auto simp: update_ok_def)
  obtain utlb dtlb where d: "d = (utlb, dtlb)" by (cases d)
  have "\<exists>w d'. vidmm_update_ptes_e3k a sm al u d =
      Some ([word_of_nat (upd_offset u) OR push_bit 16 (word_of_nat (upd_offset u + upd_npte u - 1)), 0, w], d') \<and>
      cell_rel a sm al (Hw_Table b) w"
    using lv
  proof
    assume "upd_level u = 0"
    then show ?thesis
      using pde_value_address [OF t] Seg_Memory n by (auto simp: vidmm_update_ptes_e3k_def Let_def d cell_rel_def)
  next
    assume "upd_level u = 1"
    then show ?thesis
      using pde_value_address [OF t] Seg_Memory n by (auto simp: vidmm_update_ptes_e3k_def Let_def d cell_rel_def)
  qed
  then obtain w d' where w: "vidmm_update_ptes_e3k a sm al u d =
      Some ([word_of_nat (upd_offset u) OR push_bit 16 (word_of_nat (upd_offset u + upd_npte u - 1)), 0, w], d')"
      "cell_rel a sm al (Hw_Table b) w" by blast
  show ?thesis
    by (rule that [of "[w]" d']) (use w n Seg_Memory in \<open>simp_all add: update_cell_def\<close>)
next
  case (Allocation y)
  define x where "x = al y"
  define sh where "sh = (if al_local x then 12 else os_page_shift a)"
  define start where "start = (upd_fill_va u - upd_start_va u) div 2 ^ sh + upd_entity_offset u div 2 ^ sh"
  define n where "n = upd_npte u div 2 ^ (sh - 12)"
  have lv: "upd_level u = 2" and mem: "alloc_memory_ok a x"
    and al: "2 ^ sh dvd upd_fill_va u - upd_start_va u" "2 ^ sh dvd upd_entity_offset u" "2 ^ sh dvd upd_npte u * 4096"
    and fit: "(upd_fill_va u - upd_start_va u) div 4096 + upd_entity_offset u div 4096 + upd_npte u \<le> alloc_page_count a x"
    and small: "\<And>k. k < alloc_page_count a x \<Longrightarrow> page_address a x k < 2 ^ 40"
    using ok Allocation by (auto simp: update_ok_def page_aligned_def x_def sh_def split: if_splits)
  have sh12: "12 \<le> sh" using mem by (simp add: sh_def alloc_memory_ok_def split: if_splits)
  have start: "start * 2 ^ (sh - 12) = (upd_fill_va u - upd_start_va u) div 4096 + upd_entity_offset u div 4096"
    using shift_div [OF sh12 al(1)] shift_div [OF sh12 al(2)] by (simp add: start_def add_mult_distrib)
  have "2 ^ (sh - 12) dvd upd_npte u"
    using al(3) unfolding page_shift_split [OF sh12] by (simp add: mult.commute)
  then have n: "n * 2 ^ (sh - 12) = upd_npte u" by (simp add: n_def)
  have "entity_pages a sm al (Allocation y) start n =
      Some (map (\<lambda>i. alloc_page a x ((start + i) * 2 ^ (sh - 12))) [0..<n])"
    by (rule entity_pages_alloc [where al = al, OF mem x_def [symmetric] sh_def]) (use fit start n in \<open>simp add: add_mult_distrib\<close>)
  note words = this pt_values_alloc [OF mem sh_def, of start n]
  define ws where "ws = map (\<lambda>i. page_entry a x (start * 2 ^ (sh - 12) + i)) [0..<upd_npte u]"
  obtain utlb dtlb where d: "d = (utlb, dtlb)" by (cases d)
  have flags: "entity_flags sm al (Allocation y) = (\<not> al_secured x, al_snoop x, al_local x)"
    by (simp add: entity_flags_def x_def)
  obtain d' where run: "vidmm_update_ptes_e3k a sm al u d =
       Some ((word_of_nat (upd_offset u) OR push_bit 16 (word_of_nat (upd_offset u + upd_npte u - 1))) # 0 # ws, d')"
    unfolding vidmm_update_ptes_e3k_def Let_def d prod.case lv Allocation flags snd_conv sh_def [symmetric]
      start_def [symmetric] n_def [symmetric] words option.map n ws_def [symmetric]
    by simp
  show ?thesis
  proof (rule that [OF run])
    show "cell_rel a sm al (update_cell u i) (ws ! i)" if i: "i < upd_npte u" for i
    proof -
      have "start * 2 ^ (sh - 12) + i < alloc_page_count a x" using fit start i by simp
      from page_entry_address [OF small [OF this]] show ?thesis
        using i Allocation by (simp add: cell_rel_def update_cell_def ws_def start x_def [symmetric] add.assoc)
    qed
  qed (simp add: ws_def)
qed

section \<open>Carrying the calls out\<close>

lemma entry_range_word:
  assumes "l < 2 ^ 16" "r < 2 ^ 16"
  defines "w \<equiv> (word_of_nat l OR push_bit 16 (word_of_nat r) :: u32)"
  shows "unat (take_bit 16 w) = l" "unat (drop_bit 16 w) = r"
proof -
  have small: "\<not> bit x k" if "x < 2 ^ 16" "16 \<le> k" for x k :: nat
  proof -
    have "x < 2 ^ k" by (rule less_le_trans [OF that(1) power_increasing [OF that(2)]]) simp
    then show ?thesis by (simp add: bit_iff_odd)
  qed
  note bl = small [OF assms(1)] and br = small [OF assms(2)]
  have "take_bit 16 w = word_of_nat l"
    by (rule bit_word_eqI) (auto simp: w_def bit_simps bl intro: ccontr [of "_ < 16"])
  then show "unat (take_bit 16 w) = l" using assms(1) by (simp add: unat_of_nat)
  have "drop_bit 16 w = word_of_nat r"
  proof (rule bit_word_eqI)
    fix n assume "n < LENGTH(32)"
    then show "bit (drop_bit 16 w) n \<longleftrightarrow> bit (word_of_nat r :: u32) n"
      using bl [of "16 + n"] br [of n] by (cases "n < 16") (auto simp: w_def bit_simps)
  qed
  then show "unat (drop_bit 16 w) = r" using assms(2) by (simp add: unat_of_nat)
qed

text \<open>One call, as the engine carries it out, is the call of \<open>Page_Map\<close>.\<close>

lemma engine_copy_rel:
  assumes rel: "memory_rel a sm al B mem words" and ok: "update_ok a sm al B u"
    and inj: "inj_on (\<lambda>b. table_address a (sm b)) B"
  obtains ws d' where "vidmm_update_ptes_e3k a sm al u d = Some (ws, d')"
    "memory_rel a sm al B (apply_update u mem) (engine_copy (table_address a (sm (upd_dst u))) ws words)"
proof -
  obtain es d' where run: "vidmm_update_ptes_e3k a sm al u d =
       Some ((word_of_nat (upd_offset u) OR push_bit 16 (word_of_nat (upd_offset u + upd_npte u - 1))) # 0 # es, d')"
    and len: "length es = upd_npte u" and cell: "\<And>i. i < upd_npte u \<Longrightarrow> cell_rel a sm al (update_cell u i) (es ! i)"
    by (rule update_words [where d = d, OF ok]) (rule that)
  define w where "w = (word_of_nat (upd_offset u) OR push_bit 16 (word_of_nat (upd_offset u + upd_npte u - 1)) :: u32)"
  have B: "upd_dst u \<in> B" and n: "0 < upd_npte u" "upd_offset u + upd_npte u \<le> 2 ^ 16" using ok by (simp_all add: update_ok_def)
  have range: "unat (take_bit 16 w) = upd_offset u" "unat (drop_bit 16 w) = upd_offset u + upd_npte u - 1"
    unfolding w_def using n by (intro entry_range_word; simp)+
  have copy: "engine_copy dst (w # 0 # es) words t k =
      (if t = dst \<and> upd_offset u \<le> k \<and> k < upd_offset u + upd_npte u then es ! (k - upd_offset u) else words t k)" for dst t k
    using n(1) by (auto simp: engine_copy_def Let_def range)
  have "cell_rel a sm al (apply_update u mem b k)
      (engine_copy (table_address a (sm (upd_dst u))) (w # 0 # es) words (table_address a (sm b)) k)" if b: "b \<in> B" for b k
  proof (cases "b = upd_dst u \<and> upd_offset u \<le> k \<and> k < upd_offset u + upd_npte u")
    case True
    then have "k - upd_offset u < upd_npte u" by arith
    from cell [OF this] show ?thesis using True
      by (simp add: copy apply_update_def)
  next
    case False
    then have "\<not> (table_address a (sm b) = table_address a (sm (upd_dst u)) \<and> upd_offset u \<le> k \<and> k < upd_offset u + upd_npte u)"
      using inj_onD [OF inj _ b B] by auto
    then show ?thesis using False rel b by (auto simp: copy apply_update_def memory_rel_def)
  qed
  then show ?thesis using that [OF run [folded w_def]] by (simp add: memory_rel_def)
qed

text \<open>The calls in order, on the memory and the dirty ranges.\<close>

fun engine_run ::
    "pte_adapter \<Rightarrow> (nat \<Rightarrow> segment_memory) \<Rightarrow> (nat \<Rightarrow> alloc_memory) \<Rightarrow> pte_update list \<Rightarrow>
     (u64 \<Rightarrow> nat \<Rightarrow> u32) \<times> gart_dirty \<times> gart_dirty \<Rightarrow> ((u64 \<Rightarrow> nat \<Rightarrow> u32) \<times> gart_dirty \<times> gart_dirty) option" where
  "engine_run a sm al [] s = Some s"
| "engine_run a sm al (u # us) (words, d) =
     (case vidmm_update_ptes_e3k a sm al u d of None \<Rightarrow> None
      | Some (ws, d') \<Rightarrow> engine_run a sm al us (engine_copy (table_address a (sm (upd_dst u))) ws words, d'))"

lemma engine_run_rel:
  assumes inj: "inj_on (\<lambda>b. table_address a (sm b)) B"
  shows "memory_rel a sm al B mem words \<Longrightarrow> \<forall>u \<in> set us. update_ok a sm al B u \<Longrightarrow>
    \<exists>words' d'. engine_run a sm al us (words, d) = Some (words', d') \<and> memory_rel a sm al B (execute us mem) words'"
proof (induction us arbitrary: mem words d)
  case Nil
  then show ?case by (simp add: execute_def)
next
  case (Cons u us)
  obtain ws d' where "vidmm_update_ptes_e3k a sm al u d = Some (ws, d')"
    "memory_rel a sm al B (apply_update u mem) (engine_copy (table_address a (sm (upd_dst u))) ws words)"
    by (rule engine_copy_rel [OF Cons.prems(1) _ inj]) (use Cons.prems(2) in auto)
  with Cons.IH [OF this(2)] Cons.prems(2) show ?case by (simp add: execute_def)
qed

text \<open>The walk of the engine over the words follows the tree.\<close>

lemma engine_walk_found:
  assumes c: "c = vidmm_query_chip_vm_info_e3k c0" and ok: "vma_ok c root h" and all: "pd_all root mem"
    and rel: "memory_rel a sm al (tree_tables root) mem words"
    and p: "p < 2 ^ 28" and t: "found_table c root p = Some t" and e: "mem (pt_buffer t) (p mod 2 ^ 10) = Hw_Page y k"
  shows "engine_walk words (table_address a (sm (pt_buffer root))) (lpath c 2 0 p @ [p mod 2 ^ 10]) =
    Some (page_address a (al y) k)"
proof -
  have shape: "pt_shape c 2 0 root" and nb: "pt_buffer root \<noteq> 0" using ok by (simp_all add: vma_ok_def)
  have cell: "cell_rel a sm al (mem b i) (words (table_address a (sm b)) i)" if "pt_view 2 root q = Some (b, v)" for q b v i
    using rel tree_tablesI [OF that] by (simp add: memory_rel_def)
  obtain i j where path: "lpath c 2 0 p = [i, j]" by (simp add: c e3k_lpath)
  have v2: "pt_view 2 root ([i] @ [j]) = Some (pt_buffer t, pt_addr t, pt_age t, pt_bitmap t)"
    using found_table_view [OF c shape p] t path by simp
  obtain b1 w where v1: "pt_view 2 root ([] @ [i]) = Some (b1, w)"
    using pt_shape_parent [OF shape, of "[i]" j] v2 by auto
  have v0: "pt_view 2 root [] = Some (pt_buffer root, pt_addr root, pt_age root, None)"
    using nb by (simp add: pt_view_Nil)
  have m0: "mem (pt_buffer root) i = Hw_Table b1" by (rule pd_allD [OF all v0 v1])
  have v1': "pt_view 2 root [i] = Some (b1, w)" using v1 by simp
  have m1: "mem b1 j = Hw_Table (pt_buffer t)" by (rule pd_allD [OF all v1' v2])
  show ?thesis
    using cell [OF v0, of i] cell [OF v1', of j] cell [OF v2, of "p mod 2 ^ 10"]
    unfolding m0 m1 e path by (simp add: cell_rel_def)
qed

section \<open>Mapping an allocation\<close>

lemma mapping_call_ok:
  assumes call: "mapping_call y eo s e B u" and sh: "os_page_shift a = 12" and mem: "alloc_memory_ok a (al y)"
    and eo: "4096 dvd eo" and fit: "e + 1 - s + eo div 4096 \<le> alloc_page_count a (al y)"
    and pages: "\<And>k. k < alloc_page_count a (al y) \<Longrightarrow> page_address a (al y) k < 2 ^ 40"
    and tables: "\<And>b. b \<in> B \<Longrightarrow> table_address a (sm b) < 2 ^ 39"
  shows "update_ok a sm al B u"
proof -
  have off: "upd_dst u \<in> B" "0 < upd_npte u" "upd_offset u + upd_npte u \<le> 2 ^ 16"
    using call by (auto simp: mapping_call_def)
  show ?thesis
  proof (cases "upd_entity u")
    case (Seg_Memory b)
    then show ?thesis using off call tables by (simp add: update_ok_def mapping_call_def)
  next
    case (Allocation z)
    then obtain k where u: "z = y" "upd_level u = 2" "upd_start_va u = s * 4096" "upd_entity_offset u = eo"
      "upd_fill_va u = (s + k) * 4096" "s + k + upd_npte u \<le> e + 1"
      using call by (auto simp: mapping_call_def)
    have fill: "upd_fill_va u - upd_start_va u = k * 4096" using u(3,5) by (simp add: add_mult_distrib)
    have al: "page_aligned a (al y) v \<longleftrightarrow> 4096 dvd v" for v using sh by (simp add: page_aligned_def)
    have "k + eo div 4096 + upd_npte u \<le> alloc_page_count a (al y)" using u(6) fit by linarith
    then show ?thesis
      using off mem eo pages unfolding update_ok_def Allocation u(1,2,4) fill by (simp add: al)
  qed
qed


text \<open>For the instance: tables lie one after the other, in the order of some numbering.\<close>

lemma tree_tables_numbering:
  assumes c: "c = vidmm_query_chip_vm_info_e3k c0" and shape: "pt_shape c 2 0 root"
  obtains f :: "nat \<Rightarrow> nat" where "inj_on f (tree_tables root)" "\<And>b. b \<in> tree_tables root \<Longrightarrow> f b < 2 ^ 27"
proof -
  let ?Q = "{q. set q \<subseteq> {..<2 ^ 10 :: nat} \<and> length q \<le> 2}"
  have fin: "finite ?Q" by (rule finite_lists_length_le) simp
  have "card ?Q = (\<Sum>i\<le>2. (2 ^ 10) ^ i)" using card_lists_length_le [of "{..<2 ^ 10 :: nat}" 2] by simp
  also have "{..2 :: nat} = {0, 1, 2}" by auto
  also have "(\<Sum>i\<in>{0, 1, 2 :: nat}. (2 ^ 10) ^ i) \<le> (2 :: nat) ^ 27" by simp
  finally have card: "card ?Q \<le> 2 ^ 27" .
  have "q \<in> ?Q" if "pt_view 2 root q = Some v" for q v
    using that
  proof (induction q arbitrary: v rule: rev_induct)
    case (snoc i q)
    have "pt_view 2 root q \<noteq> None" by (rule pt_shape_parent [OF shape, of q i]) (use snoc.prems in simp)
    then show ?case using snoc.IH pt_view_index [OF c shape snoc.prems] by auto
  qed simp
  then have sub: "tree_tables root \<subseteq> (\<lambda>q. fst (the (pt_view 2 root q))) ` ?Q"
    by (force simp: tree_tables_def image_iff)
  then have T: "finite (tree_tables root)" "card (tree_tables root) \<le> 2 ^ 27"
    using fin finite_subset surj_card_le [OF fin sub] card by (blast, linarith)
  obtain f where "bij_betw f (tree_tables root) {0..<card (tree_tables root)}"
    using ex_bij_betw_finite_nat [OF T(1)] by blast
  then have "inj_on f (tree_tables root)" "\<And>b. b \<in> tree_tables root \<Longrightarrow> f b < card (tree_tables root)"
    using bij_betw_imp_inj_on bij_betwE by fastforce+
  then show ?thesis using that T(2) by fastforce
qed

definition table_at_number :: "nat \<Rightarrow> segment_memory" where
  "table_at_number n = \<lparr> sm_security = False, sm_snoop = False, sm_local = True,
     sm_pages = \<lparr> st_sgl = [], has_dma_map = False \<rparr>, sm_start = word_of_nat (n * 4096) \<rparr>"

lemma table_at_number_address:
  assumes "n < 2 ^ 27"
  shows "unat (table_address a (table_at_number n)) = n * 4096" "table_address a (table_at_number n) < 2 ^ 39"
proof -
  define m where "m = n * 4096"
  have lt: "m < 2 ^ 64" using assms by (simp add: m_def)
  have w: "word_of_nat m = push_bit 12 (word_of_nat n :: u64)" by (simp add: m_def push_bit_eq_mult)
  have "push_bit 12 (drop_bit 12 (push_bit 12 x)) = push_bit 12 x" for x :: u64
    by (rule bit_word_eqI) (auto simp: bit_simps)
  then have "table_address a (table_at_number n) = word_of_nat m"
    by (simp only: table_address_def table_at_number_def m_def [symmetric] w) simp
  then have u: "unat (table_address a (table_at_number n)) = m" using lt by (simp add: unat_of_nat)
  then show "unat (table_address a (table_at_number n)) = n * 4096" by (simp add: m_def)
  have "n * 4096 < 2 ^ 39" using assms by simp
  then show "table_address a (table_at_number n) < 2 ^ 39" by (simp add: word_less_nat_alt u m_def)
qed

lemma table_at_number_inj:
  assumes "m < 2 ^ 27" "n < 2 ^ 27" "table_address a (table_at_number m) = table_address a (table_at_number n)"
  shows "m = n"
proof -
  have "m * 4096 = n * 4096"
    unfolding table_at_number_address(1) [OF assms(1), of a, symmetric] table_at_number_address(1) [OF assms(2), of a, symmetric]
    by (simp only: assms(3))
  then show ?thesis by simp
qed

definition local_chunk :: alloc_memory where
  "local_chunk = \<lparr> al_secured = False, al_snoop = False, al_local = True,
     al_pages = \<lparr> st_sgl = [], has_dma_map = False \<rparr>, al_nodes = [(0x10000000, 0x800000), (0x40000000, 0x1800000)] \<rparr>"

definition plain_adapter :: pte_adapter where
  "plain_adapter = \<lparr> nonsnoop_patch_enable = False, low_top_address = 0, os_page_shift = 12 \<rparr>"

lemma local_chunk_pages:
  "alloc_memory_ok plain_adapter local_chunk" "alloc_page_count plain_adapter local_chunk = 8192"
  "k < 8192 \<Longrightarrow> page_address plain_adapter local_chunk k =
     (if k < 2048 then 0x10000000 + word_of_nat (k * 4096) else 0x40000000 + word_of_nat ((k - 2048) * 4096))"
  "k < 8192 \<Longrightarrow> page_address plain_adapter local_chunk k < 2 ^ 40"
proof -
  have ns: "al_nodes local_chunk = [(0x10000000, 0x800000), (0x40000000, 0x1800000)]" "al_local local_chunk"
    by (simp_all add: local_chunk_def)
  show "alloc_memory_ok plain_adapter local_chunk" by (simp add: alloc_memory_ok_def fb_nodes_ok_def ns)
  show "alloc_page_count plain_adapter local_chunk = 8192"
    by (simp add: alloc_page_count_def fb_page_list_def ns)
  have aligned: "push_bit 12 (drop_bit 12 (push_bit 12 x)) = push_bit 12 x" for x :: u64
    by (rule bit_word_eqI) (auto simp: bit_simps)
  have list: "fb_page_list 12 (al_nodes local_chunk) ! k =
      (if k < 2048 then 0x10000000 + word_of_nat (k * 4096) else 0x40000000 + word_of_nat ((k - 2048) * 4096))"
    if "k < 8192" for k
    using that by (simp add: fb_page_list_def ns nth_append del: upt_rec_numeral)
  have shifted: "fb_page_list 12 (al_nodes local_chunk) ! k =
      push_bit 12 (if k < 2048 then 0x10000 + word_of_nat k else 0x40000 + word_of_nat (k - 2048))" if "k < 8192" for k
    unfolding list [OF that] by (simp add: push_bit_eq_mult algebra_simps)
  show page: "page_address plain_adapter local_chunk k =
     (if k < 2048 then 0x10000000 + word_of_nat (k * 4096) else 0x40000000 + word_of_nat ((k - 2048) * 4096))"
    if k: "k < 8192" for k
  proof -
    have "alloc_page plain_adapter local_chunk k = fb_page_list 12 (al_nodes local_chunk) ! k"
      by (simp add: alloc_page_def ns(2))
    then have "page_address plain_adapter local_chunk k =
        push_bit 12 (drop_bit 12 (fb_page_list 12 (al_nodes local_chunk) ! k))"
      by (simp add: page_address_def vidsch_get_pte_value_def plain_adapter_def)
    also have "\<dots> = fb_page_list 12 (al_nodes local_chunk) ! k" unfolding shifted [OF k] by (rule aligned)
    finally show ?thesis by (simp only: list [OF k])
  qed
  have unat_at: "unat (word_of_nat b + word_of_nat m :: u64) = b + m" if "b + m < 2 ^ 64" for b m
    unfolding of_nat_add [symmetric] using that by (simp only: unat_of_nat) simp
  show "page_address plain_adapter local_chunk k < 2 ^ 40" if k: "k < 8192" for k
  proof -
    have "unat (page_address plain_adapter local_chunk k) < 2 ^ 40"
    proof (cases "k < 2048")
      case True
      then have "unat (page_address plain_adapter local_chunk k) = 0x10000000 + k * 4096"
        using unat_at [of "0x10000000" "k * 4096"] k by (simp add: page)
      then show ?thesis using True by simp
    next
      case False
      then have "unat (page_address plain_adapter local_chunk k) = 0x40000000 + (k - 2048) * 4096"
        using unat_at [of "0x40000000" "(k - 2048) * 4096"] k by (simp add: page)
      then show ?thesis using k by simp
    qed
    then show ?thesis by (simp add: word_less_nat_alt)
  qed
qed

section \<open>Forgetting translations\<close>

text \<open>What a call leaves dirty.\<close>

lemma update_dirty_kept:
  assumes "vidmm_update_ptes_e3k a sm al u (utlb, dtlb) = Some (ws, utlb', dtlb')"
  shows "dirty_covers utlb x \<Longrightarrow> dirty_covers utlb' x" "dirty_covers dtlb x \<Longrightarrow> dirty_covers dtlb' x"
  using assms by (auto simp: vidmm_update_ptes_e3k_def Let_def dirty_add_covers split: if_splits pt_entity.splits)

lemma update_dirty_pages:
  assumes run: "vidmm_update_ptes_e3k a sm al u (utlb, dtlb) = Some (ws, utlb', dtlb')"
    and ok: "update_ok a sm al B u" and lv: "upd_level u = 2" and i: "i < upd_npte u"
  shows "dirty_covers dtlb' (word_of_nat (upd_fill_va u + i * 4096))"
proof -
  obtain y where y: "upd_entity u = Allocation y"
    using ok lv by (auto simp: update_ok_def split: pt_entity.splits)
  define x where "x = al y"
  define sh where "sh = (if al_local x then 12 else os_page_shift a)"
  define m where "m = (2 :: nat) ^ (sh - 12)"
  have sh12: "12 \<le> sh" and al: "2 ^ sh dvd upd_npte u * 4096" and small: "upd_npte u \<le> 2 ^ 16"
    using ok by (auto simp: update_ok_def y page_aligned_def alloc_memory_ok_def x_def sh_def split: if_splits)
  have split: "2 ^ sh = 4096 * m" unfolding m_def by (rule page_shift_split [OF sh12])
  have "m dvd upd_npte u" using al unfolding split by (simp add: mult.commute)
  then have n: "upd_npte u div m * m = upd_npte u" by simp
  have "0 < m" by (simp add: m_def)
  define q r where "q = i div m" and "r = i mod m"
  have qr: "i = q * m + r" "r < m" using \<open>0 < m\<close> by (simp_all add: q_def r_def)
  have q: "q < upd_npte u div m" using i n \<open>0 < m\<close> by (simp add: q_def less_mult_imp_div_less)
  have "q * 2 ^ sh \<le> i * 4096" using qr(1) by (simp add: split)
  moreover have "i * 4096 < 2 ^ 32" using i small by simp
  ultimately have "q * 2 ^ sh < 2 ^ 32" by simp
  then have off: "uint_shl q sh + word_of_nat (r * 4096) = word_of_nat (i * 4096)"
    by (simp add: uint_shl_small qr(1) split add_mult_distrib)
  define offs where "offs = concat (map (\<lambda>i. map (\<lambda>j. uint_shl i sh + word_of_nat (j * 4096)) [0..<m]) [0..<upd_npte u div m])"
  have "word_of_nat (i * 4096) \<in> set offs"
    unfolding off [symmetric] offs_def using q qr(2) by (auto intro!: bexI [of _ q] imageI)
  moreover have "dtlb' = dirty_add (word_of_nat (upd_fill_va u)) (range_mask (word_of_nat (upd_fill_va u)) offs) dtlb"
    using run unfolding offs_def m_def sh_def x_def
    by (auto simp: vidmm_update_ptes_e3k_def Let_def lv y entity_flags_def)
  ultimately show ?thesis using dirty_add_range [of "word_of_nat (i * 4096)" offs "word_of_nat (upd_fill_va u)" dtlb] by simp
qed

lemma update_dirty_directory:
  assumes run: "vidmm_update_ptes_e3k a sm al u (utlb, dtlb) = Some (ws, utlb', dtlb')"
    and lv: "upd_level u = 1" and i: "i < upd_npte u"
  shows "dirty_covers utlb' (word_of_nat (upd_start_va u + i * 4194304))"
proof -
  have "dirty_covers (dirty_add va (range_mask va (map (\<lambda>i. word_of_nat (i * 4194304)) [0..<upd_npte u])) utlb)
      (va + word_of_nat (i * 4194304))" for va
    by (rule dirty_add_range) (use i in simp)
  then show ?thesis using run lv
    by (auto simp: vidmm_update_ptes_e3k_def Let_def split: pt_entity.splits)
qed


definition four_page_call :: pte_update where
  "four_page_call = \<lparr> upd_level = 2, upd_dst = 5, upd_offset = 5, upd_npte = 4, upd_entity = Allocation 7,
     upd_fill_va = 0x5000, upd_start_va = 0x5000, upd_entity_offset = 0x2000 \<rparr>"


section \<open>Addresses of local pages\<close>

lemma take_bit_word_diff:
  assumes "take_bit 52 (p - d) = take_bit 52 (p :: u64)"
  shows "take_bit 52 d = 0"
proof -
  have "take_bit 52 (uint p - uint d) = take_bit 52 (uint p)"
    using arg_cong [OF assms, of uint] by (simp add: unsigned_take_bit_eq uint_word_arith_bintrs)
  then have "take_bit 52 (uint p - (uint p - uint d)) = 0"
    using take_bit_diff [of 52 "uint p" "uint p - uint d"] by simp
  then have "uint (take_bit 52 d) = uint 0" by (simp add: unsigned_take_bit_eq)
  then show ?thesis by (rule word_uint_eqI)
qed

text \<open>
  Pages of local memory are named by their own address as long as the patch for unsnooped addresses
  is off, or the memory is snooped, or the page lies below the low memory. Otherwise, though local
  addresses do not pass the bridge, the third level names a page that is not the page of the allocation,
  while the two levels above and the shared table leave local addresses alone.
\<close>

theorem local_page_address:
  assumes "al_local x" and "drop_bit 12 (low_top_address a) < 0x100000"
  shows "(page_address a x k = push_bit 12 (drop_bit 12 (alloc_page a x k)) \<longleftrightarrow>
     \<not> nonsnoop_patch_enable a \<or> al_snoop x \<or> drop_bit 12 (alloc_page a x k) \<le> drop_bit 12 (low_top_address a)) \<and>
    (sm_local s \<longrightarrow> table_address a s = push_bit 12 (drop_bit 12 (sm_start s)))"
proof -
  let ?p = "drop_bit 12 (alloc_page a x k)" and ?low = "drop_bit 12 (low_top_address a)"
  have moved: "push_bit 12 (drop_bit 12 (push_bit 12 (?p - (0x100000 - ?low)))) \<noteq> push_bit 12 ?p"
  proof
    assume e: "push_bit 12 (drop_bit 12 (push_bit 12 (?p - (0x100000 - ?low)))) = push_bit 12 ?p"
    have "take_bit 52 (?p - (0x100000 - ?low)) = take_bit 52 ?p"
    proof (rule bit_word_eqI)
      fix k assume "k < LENGTH(64)"
      then show "bit (take_bit 52 (?p - (0x100000 - ?low))) k \<longleftrightarrow> bit (take_bit 52 ?p) k"
        using arg_cong [OF e, of "\<lambda>w. bit w (k + 12)"] by (auto simp: bit_simps)
    qed
    then have "take_bit 52 (0x100000 - ?low) = 0" by (rule take_bit_word_diff)
    moreover have d: "unat (0x100000 - ?low) = 0x100000 - unat ?low"
      using unat_sub [of ?low "0x100000"] assms(2) by simp
    moreover have "take_bit 52 (unat (0x100000 - ?low)) = unat (0x100000 - ?low)"
      unfolding d by (rule take_bit_nat_eq_self) simp
    moreover have "unat (take_bit 52 (0x100000 - ?low)) = take_bit 52 (unat (0x100000 - ?low))"
      by (rule unsigned_take_bit_eq)
    ultimately have "unat (0x100000 - ?low) = 0" by (simp only: unsigned_0)
    then show False using assms(2) by (simp add: d word_less_nat_alt)
  qed
  have same: "push_bit 12 (drop_bit 12 (push_bit 12 ?p)) = push_bit 12 ?p"
    by (rule bit_word_eqI) (auto simp: bit_simps)
  have "page_address a x k = push_bit 12 ?p \<longleftrightarrow>
    \<not> nonsnoop_patch_enable a \<or> al_snoop x \<or> ?p \<le> ?low"
    using moved same by (auto simp: page_address_def vidsch_get_pte_value_def Let_def not_le not_less)
  then show ?thesis by (simp add: table_address_def)
qed

definition patched_adapter :: pte_adapter where
  "patched_adapter = \<lparr> nonsnoop_patch_enable = True, low_top_address = 0x20000000, os_page_shift = 12 \<rparr>"

theorem local_page_address_witness:
  "page_address patched_adapter local_chunk 2048 \<noteq> 0x40000000 \<and> page_address patched_adapter local_chunk 0 = 0x10000000"
proof -
  have list: "alloc_page patched_adapter local_chunk 2048 = 0x40000000" "alloc_page patched_adapter local_chunk 0 = 0x10000000"
    by (simp_all add: alloc_page_def fb_page_list_def local_chunk_def nth_append del: upt_rec_numeral)
  have low: "drop_bit 12 (low_top_address patched_adapter) < 0x100000" by (simp add: patched_adapter_def)
  show ?thesis
    using local_page_address [OF _ low, of local_chunk 2048] local_page_address [OF _ low, of local_chunk 0]
    unfolding list by (simp add: local_chunk_def patched_adapter_def)
qed


end
