(* ===== verification/Gart.thy ===== *)
theory Gart
  imports Page_Phys
begin

text \<open>
  The shared address space of \<^verbatim>\<open>core/e3k/vidmm/vidmm_e3k.c\<close>, which every address space id sees below its
  own: a page table in one piece of local memory that \<^verbatim>\<open>vidmm_init_shared_pt_e3k\<close> lays out,
  \<^verbatim>\<open>vidmm_map_shared_buffer_e3k\<close> fills by the processor and \<^verbatim>\<open>enginei_mmio_invalidate_tlb_e3k\<close>
  (\<^verbatim>\<open>vidsch_engine_setup_e3k.c\<close>) announces, and that survives a power cycle by \<^verbatim>\<open>vidmm_save_e3k\<close> and
  \<^verbatim>\<open>vidmm_restore_e3k\<close>. Sizes and addresses that the driver chooses are naturals; what is xored is a word.
\<close>

section \<open>Filling the last level\<close>

text \<open>
  The variables of the loops: the table of the last level, the index and the address of the next entry and
  the mask of the addresses seen so far.
\<close>

record gart_fill =
  gf_table :: "nat \<Rightarrow> u32"
  gf_pte_start :: nat
  gf_curr_va :: u64
  gf_mask :: u64

definition gart_put :: "u64 \<Rightarrow> u32 \<Rightarrow> gart_fill \<Rightarrow> gart_fill" where
  "gart_put gpu_va w s = s\<lparr> gf_table := (gf_table s)(gf_pte_start s := w),
     gf_pte_start := gf_pte_start s + 1,
     gf_mask := gf_mask s OR (gpu_va XOR gf_curr_va s),
     gf_curr_va := gf_curr_va s + 4096 \<rparr>"

text \<open>Local memory: whole chunks are skipped, then entries are written chunk by chunk.\<close>

fun skip_ranges :: "nat \<Rightarrow> nat \<Rightarrow> (u64 \<times> nat) list \<Rightarrow> nat \<times> (u64 \<times> nat) list" where
  "skip_ranges skip_size offset [] = (skip_size, [])"
| "skip_ranges skip_size offset ((st, sz) # ns) =
     (if skip_size + sz \<le> offset then skip_ranges (skip_size + sz) offset ns else (skip_size, (st, sz) # ns))"

definition local_entry :: "u64 \<Rightarrow> u32" where
  "local_entry pa = PTE_L3 True False True (drop_bit 12 pa)"

fun fill_ranges :: "u64 \<Rightarrow> (u64 \<times> nat) list \<Rightarrow> nat \<Rightarrow> nat \<Rightarrow> gart_fill \<Rightarrow> gart_fill option" where
  "fill_ranges gpu_va [] range_offset sz s = (if sz = 0 then Some s else None)"
| "fill_ranges gpu_va ((st, n) # ns) range_offset sz s =
     (if sz = 0 then Some s
      else let range_size = min (n - range_offset) sz
           in fill_ranges gpu_va ns 0 (sz - range_size)
                (fold (\<lambda>i. gart_put gpu_va (local_entry (st + word_of_nat range_offset + int_shl i 12)))
                   [0..<range_size div 4096] s))"

definition vidmmi_map_shared_buffer_local_e3k ::
    "(u64 \<times> nat) list \<Rightarrow> nat \<Rightarrow> nat \<Rightarrow> nat \<Rightarrow> (nat \<Rightarrow> u32) \<Rightarrow> ((nat \<Rightarrow> u32) \<times> u64) option" where
  "vidmmi_map_shared_buffer_local_e3k ns offset sz gpu_va table =
     (case skip_ranges 0 offset ns of (skip_size, ns') \<Rightarrow>
        map_option (\<lambda>s. (gf_table s, gf_mask s))
          (fill_ranges (word_of_nat gpu_va) ns' (offset - skip_size) sz
             \<lparr> gf_table = table, gf_pte_start = gpu_va div 4096, gf_curr_va = word_of_nat gpu_va, gf_mask = 0 \<rparr>))"

text \<open>
  System memory: the callback gets a run of pages of the kernel, and tells whether the walk over the
  scatter list ends. \<open>m\<close> pages of the engine make a page of the kernel.
\<close>

definition system_entry :: "pte_adapter \<Rightarrow> bool \<Rightarrow> u64 \<Rightarrow> u32" where
  "system_entry a snoop pa = PTE_L3 True snoop False (drop_bit 12 (vidsch_get_pte_value a snoop pa))"

definition vidmmi_fill_gart_pcie_e3k ::
    "pte_adapter \<Rightarrow> bool \<Rightarrow> u64 \<Rightarrow> nat \<Rightarrow> nat \<Rightarrow> nat \<Rightarrow> nat \<Rightarrow> u64 \<Rightarrow> gart_fill \<Rightarrow> gart_fill \<times> bool" where
  "vidmmi_fill_gart_pcie_e3k a snoop gpu_va start stop page_start page_cnt dma_addr s =
     (let gpu_start = page_start * 2 ^ (os_page_shift a - 12);
          gpu_end = (page_start + page_cnt) * 2 ^ (os_page_shift a - 12)
      in if gpu_end \<le> start then (s, False)
         else if stop \<le> gpu_start then (s, True)
         else (fold (\<lambda>i. gart_put gpu_va (system_entry a snoop (dma_addr + uint_shl (i - gpu_start) 12)))
                 [max gpu_start start..<min gpu_end stop] s, False))"

fun zx_pages_memory_for_each_continues ::
    "nat \<Rightarrow> bool \<Rightarrow> (nat \<Rightarrow> nat \<Rightarrow> u64 \<Rightarrow> 's \<Rightarrow> 's \<times> bool) \<Rightarrow> nat \<Rightarrow> scatterlist list \<Rightarrow> 's \<Rightarrow> 's" where
  "zx_pages_memory_for_each_continues sh dma cb page_start [] s = s"
| "zx_pages_memory_for_each_continues sh dma cb page_start (sg # sgs) s =
     (case cb page_start (sg_page_cnt sh dma sg) (sg_addr dma sg) s of (s', ends) \<Rightarrow>
        if ends then s' else zx_pages_memory_for_each_continues sh dma cb (page_start + sg_page_cnt sh dma sg) sgs s')"

definition vidmmi_map_shared_buffer_pcie_e3k ::
    "pte_adapter \<Rightarrow> os_pages_memory \<Rightarrow> bool \<Rightarrow> nat \<Rightarrow> nat \<Rightarrow> nat \<Rightarrow> (nat \<Rightarrow> u32) \<Rightarrow> (nat \<Rightarrow> u32) \<times> u64" where
  "vidmmi_map_shared_buffer_pcie_e3k a pages snoop offset sz gpu_va table =
     (let s = zx_pages_memory_for_each_continues (os_page_shift a) (has_dma_map pages)
                (vidmmi_fill_gart_pcie_e3k a snoop (word_of_nat gpu_va) (offset div 4096) ((offset + sz) div 4096))
                0 (st_sgl pages)
                \<lparr> gf_table = table, gf_pte_start = gpu_va div 4096, gf_curr_va = word_of_nat gpu_va, gf_mask = 0 \<rparr>
      in (gf_table s, gf_mask s))"

text \<open>A run of entries, written one after the other.\<close>

definition put_all :: "u64 \<Rightarrow> u32 list \<Rightarrow> gart_fill \<Rightarrow> gart_fill" where
  "put_all gpu_va ws s = fold (gart_put gpu_va) ws s"

lemma put_all_append: "put_all gpu_va (ws @ ws') s = put_all gpu_va ws' (put_all gpu_va ws s)"
  by (simp add: put_all_def)

lemma put_all_map: "fold (\<lambda>i. gart_put gpu_va (f i)) xs s = put_all gpu_va (map f xs) s"
  by (simp add: put_all_def fold_map comp_def)

lemma put_all_table:
  "gf_table (put_all gpu_va ws s) k =
     (if gf_pte_start s \<le> k \<and> k < gf_pte_start s + length ws then ws ! (k - gf_pte_start s) else gf_table s k)"
proof (induction ws arbitrary: s)
  case (Cons w ws)
  have "put_all gpu_va (w # ws) s = put_all gpu_va ws (gart_put gpu_va w s)" by (simp add: put_all_def)
  then show ?case
    using Cons.IH [of "gart_put gpu_va w s"] by (auto simp: gart_put_def nth_Cons' Suc_diff_le not_le less_Suc_eq)
qed (auto simp: put_all_def)

lemma put_all_mask:
  "gf_mask (put_all gpu_va ws s) =
     fold (\<lambda>i msk. msk OR (gpu_va XOR (gf_curr_va s + word_of_nat (i * 4096)))) [0..<length ws] (gf_mask s)"
proof (induction ws arbitrary: s)
  case (Cons w ws)
  have "[0..<length (w # ws)] = 0 # map Suc [0..<length ws]" by (simp add: map_Suc_upt upt_conv_Cons del: upt_Suc)
  moreover have "put_all gpu_va (w # ws) s = put_all gpu_va ws (gart_put gpu_va w s)" by (simp add: put_all_def)
  ultimately show ?case
    using Cons.IH [of "gart_put gpu_va w s"] by (simp add: gart_put_def fold_map comp_def add.assoc)
qed (auto simp: put_all_def)

section \<open>The entries a buffer gets\<close>

text \<open>Chunks of whole pages, as \<open>Fb_Memory\<close> makes them.\<close>

definition gart_nodes_ok :: "(u64 \<times> nat) list \<Rightarrow> bool" where
  "gart_nodes_ok ns \<longleftrightarrow> (\<forall>(st, sz) \<in> set ns. 4096 dvd sz \<and> 0 < sz \<and> sz \<le> 2 ^ 31)"

lemma gart_nodes_ok_Cons [simp]:
  "gart_nodes_ok ((st, sz) # ns) \<longleftrightarrow> 4096 dvd sz \<and> 0 < sz \<and> sz \<le> 2 ^ 31 \<and> gart_nodes_ok ns"
  by (auto simp: gart_nodes_ok_def)

lemma fb_page_list_4k: "fb_page_list 12 ((st, sz) # ns) =
    map (\<lambda>k. st + word_of_nat (k * 4096)) [0..<sz div 4096] @ fb_page_list 12 ns"
  by (simp add: fb_page_list_Cons)

lemma fill_ranges_pages:
  assumes "gart_nodes_ok ns" "4096 dvd ro" "4096 dvd sz" "ns \<noteq> [] \<Longrightarrow> ro < snd (hd ns)"
  shows "fill_ranges gpu_va ns ro sz s = (let ps = drop (ro div 4096) (fb_page_list 12 ns) in
     if sz div 4096 \<le> length ps then Some (put_all gpu_va (map local_entry (take (sz div 4096) ps)) s) else None)"
  using assms
proof (induction ns arbitrary: ro sz s)
  case Nil
  then show ?case by (auto simp: fb_page_list_def put_all_def dvd_div_eq_0_iff)
next
  case (Cons node ns)
  obtain st n where node: "node = (st, n)" by (cases node)
  obtain N R Z where NRZ: "n = 4096 * N" "ro = 4096 * R" "sz = 4096 * Z"
    using Cons.prems(1-3) unfolding node by (auto elim!: dvdE)
  have R: "R < N" and n: "n \<le> 2 ^ 31" using Cons.prems unfolding node NRZ by simp_all
  show ?case
  proof (cases "Z = 0")
    case True
    then show ?thesis by (simp add: node NRZ put_all_def)
  next
    case False
    have pos: "ns \<noteq> [] \<Longrightarrow> 0 < snd (hd ns)" using Cons.prems(1) by (cases ns) (auto simp: node)
    define pas where "pas = map (\<lambda>i. st + word_of_nat ro + int_shl i 12) [0..<min (N - R) Z]"
    have rs: "min (n - ro) sz = 4096 * min (N - R) Z" by (simp add: NRZ diff_mult_distrib2 min_mult_distrib_left)
    have "st + word_of_nat ro + int_shl i 12 = st + word_of_nat ((R + i) * 4096)" if i: "i < min (N - R) Z" for i
    proof -
      have "i * 2 ^ 12 < 2 ^ 31" using i n NRZ(1) R by simp linarith
      from int_shl_small [OF this] show ?thesis by (simp add: NRZ(2) algebra_simps)
    qed
    then have pas: "pas = take Z (drop R (map (\<lambda>k. st + word_of_nat (k * 4096)) [0..<N]))"
      using R by (intro nth_equalityI) (auto simp: pas_def less_diff_conv add.commute)
    have sz: "sz - 4096 * min (N - R) Z = 4096 * (Z - (N - R))" by (simp add: NRZ(3) min_def diff_mult_distrib2)
    have "fill_ranges gpu_va (node # ns) ro sz s =
        fill_ranges gpu_va ns 0 (4096 * (Z - (N - R))) (put_all gpu_va (map local_entry pas) s)"
      using False by (simp add: node rs sz Let_def pas_def put_all_map comp_def) (simp add: NRZ(3))
    also have "\<dots> = (if Z - (N - R) \<le> length (fb_page_list 12 ns)
        then Some (put_all gpu_va (map local_entry (take (Z - (N - R)) (fb_page_list 12 ns))) (put_all gpu_va (map local_entry pas) s))
        else None)"
      by (subst Cons.IH) (use Cons.prems(1) pos in \<open>simp_all add: node Let_def\<close>)
    also have "\<dots> = (let ps = drop R (fb_page_list 12 (node # ns)) in
        if Z \<le> length ps then Some (put_all gpu_va (map local_entry (take Z ps)) s) else None)"
      using R by (auto simp: node fb_page_list_4k NRZ(1) pas put_all_append Let_def)
    finally show ?thesis by (simp add: NRZ(2,3))
  qed
qed

lemma skip_ranges_pages:
  assumes "gart_nodes_ok ns" "4096 dvd skip" "skip \<le> offset" "4096 dvd offset" "skip_ranges skip offset ns = (skip', ns')"
  shows "gart_nodes_ok ns' \<and> 4096 dvd skip' \<and> skip' \<le> offset \<and> (ns' \<noteq> [] \<longrightarrow> offset - skip' < snd (hd ns')) \<and>
    drop ((offset - skip') div 4096) (fb_page_list 12 ns') = drop ((offset - skip) div 4096) (fb_page_list 12 ns)"
  using assms
proof (induction ns arbitrary: skip)
  case (Cons node ns)
  obtain st n where node: "node = (st, n)" by (cases node)
  show ?case
  proof (cases "skip + n \<le> offset")
    case True
    have n: "4096 dvd n" using Cons.prems(1) by (simp add: node)
    have "(offset - skip) div 4096 = n div 4096 + (offset - (skip + n)) div 4096"
      using n Cons.prems(2,4) True by (auto elim!: dvdE)
    then have drop: "drop ((offset - skip) div 4096) (fb_page_list 12 (node # ns)) =
        drop ((offset - (skip + n)) div 4096) (fb_page_list 12 ns)" by (simp add: node fb_page_list_4k)
    have rest: "skip_ranges (skip + n) offset ns = (skip', ns')" using Cons.prems(5) True by (simp add: node)
    show ?thesis unfolding drop
      by (rule Cons.IH [OF _ _ True Cons.prems(4) rest]) (use Cons.prems(1,2) n in \<open>simp_all add: node\<close>)
  next
    case False
    then show ?thesis using Cons.prems by (auto simp: node)
  qed
qed auto

lemma map_shared_buffer_local_pages:
  assumes nodes: "gart_nodes_ok ns" and al: "4096 dvd offset" "4096 dvd sz"
  shows "vidmmi_map_shared_buffer_local_e3k ns offset sz gpu_va table =
     (let ps = drop (offset div 4096) (fb_page_list 12 ns);
          s = put_all (word_of_nat gpu_va) (map local_entry (take (sz div 4096) ps))
                \<lparr> gf_table = table, gf_pte_start = gpu_va div 4096, gf_curr_va = word_of_nat gpu_va, gf_mask = 0 \<rparr>
      in if sz div 4096 \<le> length ps then Some (gf_table s, gf_mask s) else None)"
proof -
  obtain skip ns' where skip: "skip_ranges 0 offset ns = (skip, ns')" by (cases "skip_ranges 0 offset ns")
  have s: "gart_nodes_ok ns'" "4096 dvd skip" "skip \<le> offset" "ns' \<noteq> [] \<longrightarrow> offset - skip < snd (hd ns')"
    "drop ((offset - skip) div 4096) (fb_page_list 12 ns') = drop (offset div 4096) (fb_page_list 12 ns)"
    using skip_ranges_pages [OF nodes _ _ al(1) skip] by simp_all
  have "4096 dvd offset - skip" using al(1) s(2) by simp
  from fill_ranges_pages [OF s(1) this al(2)] s(4) show ?thesis
    by (simp add: vidmmi_map_shared_buffer_local_e3k_def skip s(5) Let_def)
qed

text \<open>The pages of 4 KB of a scatter list.\<close>

definition gpu_row :: "pte_adapter \<Rightarrow> bool \<Rightarrow> scatterlist \<Rightarrow> u64 list" where
  "gpu_row a dma sg = map (\<lambda>k. sg_addr dma sg + word_of_nat (k * 4096))
     [0..<sg_page_cnt (os_page_shift a) dma sg * 2 ^ (os_page_shift a - 12)]"

definition gpu_pages :: "pte_adapter \<Rightarrow> bool \<Rightarrow> scatterlist list \<Rightarrow> u64 list" where
  "gpu_pages a dma sgs = concat (map (gpu_row a dma) sgs)"

lemma fill_gart_pages:
  assumes sh: "12 \<le> os_page_shift a"
    and small: "\<forall>sg \<in> set sgs. sg_page_cnt (os_page_shift a) dma sg * 2 ^ os_page_shift a \<le> 2 ^ 31"
  defines "m \<equiv> 2 ^ (os_page_shift a - 12)"
  shows "zx_pages_memory_for_each_continues (os_page_shift a) dma
       (vidmmi_fill_gart_pcie_e3k a snoop gpu_va start stop) page_start sgs s =
     put_all gpu_va (map (system_entry a snoop) (take (stop - max (page_start * m) start)
       (drop (start - page_start * m) (gpu_pages a dma sgs)))) s"
  using small
proof (induction sgs arbitrary: page_start s)
  case Nil
  then show ?case by (simp add: gpu_pages_def put_all_def)
next
  case (Cons sg sgs)
  define cnt where "cnt = sg_page_cnt (os_page_shift a) dma sg"
  define gs L where "gs = page_start * m" and "L = cnt * m"
  let ?rest = "gpu_pages a dma sgs"
  have pages: "gpu_pages a dma (sg # sgs) = gpu_row a dma sg @ ?rest" by (simp add: gpu_pages_def)
  have len: "length (gpu_row a dma sg) = L" by (simp add: gpu_row_def L_def cnt_def m_def)
  have ge: "(page_start + cnt) * m = gs + L" by (simp add: gs_def L_def add_mult_distrib)
  have "L * 4096 = cnt * 2 ^ os_page_shift a" by (simp add: L_def m_def page_shift_split [OF sh])
  then have L: "L * 4096 \<le> 2 ^ 31" using Cons.prems by (simp add: cnt_def)
  have IH: "zx_pages_memory_for_each_continues (os_page_shift a) dma
       (vidmmi_fill_gart_pcie_e3k a snoop gpu_va start stop) (page_start + cnt) sgs s' =
     put_all gpu_va (map (system_entry a snoop) (take (stop - max (gs + L) start) (drop (start - (gs + L)) ?rest))) s'" for s'
    using Cons.IH [of "page_start + cnt" s'] Cons.prems by (simp add: ge)
  have step: "zx_pages_memory_for_each_continues (os_page_shift a) dma
       (vidmmi_fill_gart_pcie_e3k a snoop gpu_va start stop) page_start (sg # sgs) s =
     (if gs + L \<le> start then put_all gpu_va (map (system_entry a snoop) (take (stop - max (gs + L) start) (drop (start - (gs + L)) ?rest))) s
      else if stop \<le> gs then s
      else put_all gpu_va (map (system_entry a snoop) (take (stop - max (gs + L) start) (drop (start - (gs + L)) ?rest)))
        (put_all gpu_va (map (\<lambda>i. system_entry a snoop (sg_addr dma sg + uint_shl (i - gs) 12)) [max gs start..<min (gs + L) stop]) s))"
    by (simp add: vidmmi_fill_gart_pcie_e3k_def Let_def cnt_def [symmetric] m_def [symmetric] gs_def [symmetric] ge put_all_map IH)
  consider "gs + L \<le> start" | "start < gs + L" "stop \<le> gs" | "start < gs + L" "gs < stop" by linarith
  then show ?case
  proof cases
    case 1
    then show ?thesis unfolding step gs_def [symmetric] by (simp add: pages len max_absorb2)
  next
    case 2
    then show ?thesis unfolding step gs_def [symmetric] by (simp add: put_all_def)
  next
    case 3
    have row: "sg_addr dma sg + uint_shl (i - gs) 12 = gpu_row a dma sg ! (i - gs)" if "gs \<le> i" "i < gs + L" for i
    proof -
      have i: "i - gs < L" using that by simp
      then have "(i - gs) * 2 ^ 12 < 2 ^ 32" using L by simp
      from uint_shl_small [OF this] show ?thesis using i by (simp add: gpu_row_def L_def cnt_def m_def)
    qed
    have row: "map (\<lambda>i. sg_addr dma sg + uint_shl (i - gs) 12) [max gs start..<min (gs + L) stop] =
        take (stop - max gs start) (drop (start - gs) (gpu_row a dma sg))"
    proof (intro nth_equalityI)
      fix j assume "j < length (map (\<lambda>i. sg_addr dma sg + uint_shl (i - gs) 12) [max gs start..<min (gs + L) stop])"
      then have j: "max gs start + j < gs + L" "max gs start + j < stop" by simp_all
      moreover have "max gs start + j - gs = start - gs + j" by (simp add: max_def)
      ultimately show "map (\<lambda>i. sg_addr dma sg + uint_shl (i - gs) 12) [max gs start..<min (gs + L) stop] ! j =
          take (stop - max gs start) (drop (start - gs) (gpu_row a dma sg)) ! j"
        using row [of "max gs start + j"] nth_upt [of "max gs start" j "min (gs + L) stop"] by (simp add: len)
    qed (auto simp: len max_def)
    have "take (stop - max gs start) (drop (start - gs) (gpu_pages a dma (sg # sgs))) =
        take (stop - max gs start) (drop (start - gs) (gpu_row a dma sg)) @ take (stop - max (gs + L) start) ?rest"
      using 3 by (simp add: pages len max_def)
    then show ?thesis
      using 3 unfolding step gs_def [symmetric]
      by (simp add: put_all_append row [symmetric] comp_def)
  qed
qed

lemma gpu_pages_alloc:
  assumes sh: "12 \<le> os_page_shift a" and x: "\<not> al_local x"
  shows "gpu_pages a (has_dma_map (al_pages x)) (st_sgl (al_pages x)) = map (alloc_page a x) [0..<alloc_page_count a x]"
proof -
  define sh m dma where "sh = os_page_shift a" and "m = (2 :: nat) ^ (os_page_shift a - 12)" and "dma = has_dma_map (al_pages x)"
  have m: "0 < m" by (simp add: m_def)
  have split: "(2 :: nat) ^ sh = 4096 * m" unfolding sh_def m_def by (rule page_shift_split [OF sh])
  have rows: "concat (map (gpu_row a dma) sgs) = concat (map (\<lambda>pa. map (\<lambda>j. pa + word_of_nat (j * 4096)) [0..<m])
      (concat (map (\<lambda>sg. map (\<lambda>k. sg_addr dma sg + word_of_nat (k * 2 ^ sh)) [0..<sg_page_cnt sh dma sg]) sgs)))" for sgs
  proof (induction sgs)
    case (Cons sg sgs)
    have "gpu_row a dma sg = concat (map (\<lambda>i. map (\<lambda>j. sg_addr dma sg + word_of_nat ((i * m + j) * 4096)) [0..<m])
        [0..<sg_page_cnt sh dma sg])"
      unfolding gpu_row_def sh_def m_def by (rule concat_map_rows [symmetric])
    also have "\<dots> = concat (map (\<lambda>pa. map (\<lambda>j. pa + word_of_nat (j * 4096)) [0..<m])
        (map (\<lambda>k. sg_addr dma sg + word_of_nat (k * 2 ^ sh)) [0..<sg_page_cnt sh dma sg]))"
      unfolding split by (simp add: comp_def algebra_simps)
    finally show ?case using Cons by simp
  qed simp
  have nth: "concat (map (\<lambda>pa. map (\<lambda>j. pa + word_of_nat (j * 4096)) [0..<m]) ps) =
      map (\<lambda>k. ps ! (k div m) + word_of_nat (k mod m * 4096)) [0..<length ps * m]" for ps :: "u64 list"
  proof -
    have "map (\<lambda>k. ps ! (k div m) + word_of_nat (k mod m * 4096)) [0..<length ps * m] =
        concat (map (\<lambda>i. map (\<lambda>j. ps ! ((i * m + j) div m) + word_of_nat ((i * m + j) mod m * 4096)) [0..<m]) [0..<length ps])"
      by (rule concat_map_rows [symmetric])
    also have "\<dots> = concat (map (\<lambda>i. map (\<lambda>j. ps ! i + word_of_nat (j * 4096)) [0..<m]) [0..<length ps])"
      using m by (intro arg_cong [where f = concat] map_cong refl) simp
    also have "\<dots> = concat (map (\<lambda>pa. map (\<lambda>j. pa + word_of_nat (j * 4096)) [0..<m]) (map ((!) ps) [0..<length ps]))"
      by (simp add: comp_def)
    finally show ?thesis by (simp add: map_nth)
  qed
  show ?thesis
    unfolding gpu_pages_def rows [unfolded dma_def] nth
    using x by (simp add: alloc_page_count_def alloc_page_def [abs_def] os_page_list_def sh_def m_def Let_def dma_def)
qed

section \<open>Mapping a buffer\<close>

text \<open>
  The part of the adapter that the shared space needs. The page table is one buffer of words in local
  memory, at \<open>sh_base\<close> for the device; \<open>sh_level3\<close> is the index of the first entry of the last level. Each of
  the 16 address space ids has 256 registers for the first level.
\<close>

record share_space =
  sp_cover_local :: bool
  sp_offset :: nat
  sp_local_size :: nat
  sp_size :: nat

record share_pt =
  sh_words :: "nat \<Rightarrow> u32"
  sh_base :: u64
  sh_level3 :: nat
  sh_ttbr :: "nat \<Rightarrow> nat \<Rightarrow> u32"
  sh_dirty :: gart_dirty
  sh_backup :: "(nat \<Rightarrow> u32) option"

definition level3_table :: "share_pt \<Rightarrow> nat \<Rightarrow> u32" where
  "level3_table st k = sh_words st (sh_level3 st + k)"

definition set_level3 :: "(nat \<Rightarrow> u32) \<Rightarrow> share_pt \<Rightarrow> share_pt" where
  "set_level3 table st =
     st\<lparr> sh_words := (\<lambda>k. if sh_level3 st \<le> k then table (k - sh_level3 st) else sh_words st k) \<rparr>"

datatype share_buffer = Share_Allocation alloc_memory | Share_Segment segment_memory

text \<open>\<open>None\<close> is a failed assertion, which stops the kernel, or a read past the chunks.\<close>

definition vidmm_map_shared_buffer_e3k ::
    "pte_adapter \<Rightarrow> share_space \<Rightarrow> share_buffer \<Rightarrow> nat \<Rightarrow> nat \<Rightarrow> nat \<Rightarrow> share_pt \<Rightarrow> share_pt option" where
  "vidmm_map_shared_buffer_e3k a sp buffer off sz gpu_va st =
     (if \<not> sp_cover_local sp then Some st
      else if sp_offset sp \<le> gpu_va \<and> gpu_va < sp_offset sp + sp_local_size sp then Some st
      else if \<not> (sp_local_size sp \<le> gpu_va \<and> gpu_va \<le> sp_size sp) then None
      else map_option (\<lambda>(table, msk). (set_level3 table st)\<lparr> sh_dirty := dirty_add (word_of_nat gpu_va) msk (sh_dirty st) \<rparr>)
        (case buffer of
           Share_Allocation x \<Rightarrow>
             if al_local x
             then vidmmi_map_shared_buffer_local_e3k (al_nodes x) off sz gpu_va (level3_table st)
             else Some (vidmmi_map_shared_buffer_pcie_e3k a (al_pages x) (al_snoop x) off sz gpu_va (level3_table st))
         | Share_Segment s \<Rightarrow>
             if sm_local s then Some (level3_table st, 0)
             else Some (vidmmi_map_shared_buffer_pcie_e3k a (sm_pages s) (sm_snoop s) off sz gpu_va (level3_table st))))"

text \<open>Telling the engine, and forgetting what was dirty.\<close>

definition enginei_mmio_invalidate_tlb_e3k :: "share_pt \<Rightarrow> share_pt \<times> (u32 \<times> u32) option" where
  "enginei_mmio_invalidate_tlb_e3k st =
     (if dirty (sh_dirty st)
      then (st\<lparr> sh_dirty := \<lparr> dirty = False, dirty_addr = 0, dirty_mask = 0 \<rparr> \<rparr>, pt_inv_regs 0x10 4 (sh_dirty st))
      else (st, None))"

section \<open>What mapping writes\<close>

definition share_memory_ok :: "pte_adapter \<Rightarrow> alloc_memory \<Rightarrow> bool" where
  "share_memory_ok a x \<longleftrightarrow>
     (if al_local x then gart_nodes_ok (al_nodes x)
      else 12 \<le> os_page_shift a \<and> os_pages_small (os_page_shift a) (al_pages x))"

definition share_entry :: "pte_adapter \<Rightarrow> alloc_memory \<Rightarrow> nat \<Rightarrow> u32" where
  "share_entry a x k =
     (if al_local x then local_entry (alloc_page a x k) else system_entry a (al_snoop x) (alloc_page a x k))"

text \<open>The address the entry holds; local pages are never moved.\<close>

definition share_page :: "pte_adapter \<Rightarrow> alloc_memory \<Rightarrow> nat \<Rightarrow> u64" where
  "share_page a x k =
     (if al_local x then push_bit 12 (drop_bit 12 (alloc_page a x k)) else page_address a x k)"

lemma share_entry_address:
  assumes "share_page a x k < 2 ^ 40"
  shows "pte_valid (share_entry a x k)" "pte_address (share_entry a x k) = share_page a x k"
proof -
  have lt: "share_page a x k < 2 ^ (12 + 28)" using assms by simp
  show "pte_valid (share_entry a x k)"
    by (simp add: share_entry_def local_entry_def system_entry_def PTE_L3_def pte_bits_valid)
  show "pte_address (share_entry a x k) = share_page a x k"
    using pte_address_in_range [of 28] lt
    by (auto simp: share_entry_def share_page_def local_entry_def system_entry_def PTE_L3_def page_address_def)
qed

lemma map_shared_buffer_pages:
  fixes gpu_va :: nat
  assumes ok: "share_memory_ok a x" and al: "4096 dvd off" "4096 dvd sz"
    and fit: "off + sz \<le> alloc_page_count a x * 4096"
  defines "V \<equiv> gpu_va div 4096" and "K \<equiv> off div 4096" and "n \<equiv> sz div 4096"
  shows "(if al_local x
      then vidmmi_map_shared_buffer_local_e3k (al_nodes x) off sz gpu_va table
      else Some (vidmmi_map_shared_buffer_pcie_e3k a (al_pages x) (al_snoop x) off sz gpu_va table)) =
    Some (\<lambda>k. if V \<le> k \<and> k < V + n then share_entry a x (K + (k - V)) else table k,
      range_mask (word_of_nat gpu_va) (map (\<lambda>i. word_of_nat (i * 4096)) [0..<n]))"
proof -
  define s0 where "s0 = \<lparr> gf_table = table, gf_pte_start = V, gf_curr_va = word_of_nat gpu_va, gf_mask = 0 \<rparr>"
  define ws where "ws = map (share_entry a x) [K..<K + n]"
  have res: "gf_table (put_all va ws s0) = (\<lambda>k. if V \<le> k \<and> k < V + n then share_entry a x (K + (k - V)) else table k)"
    "gf_mask (put_all (word_of_nat gpu_va) ws s0) = range_mask (word_of_nat gpu_va) (map (\<lambda>i. word_of_nat (i * 4096)) [0..<n])" for va
    by (rule ext, auto simp: put_all_table s0_def ws_def less_diff_conv2)
       (simp add: put_all_mask s0_def ws_def range_mask_def fold_map comp_def)
  have Kn: "off = K * 4096" "sz = n * 4096" using al by (simp_all add: K_def n_def)
  have count: "K + n \<le> alloc_page_count a x" using fit by (simp add: Kn)
  have slice: "map f (take n (drop K (map g [0..<N]))) = map (\<lambda>k. f (g k)) [K..<K + n]" if "K + n \<le> N"
    for f :: "u64 \<Rightarrow> u32" and g :: "nat \<Rightarrow> u64" and N
    using that by (simp add: take_map drop_map comp_def)
  show ?thesis
  proof (cases "al_local x")
    case True
    have "fb_page_list 12 (al_nodes x) = map (alloc_page a x) [0..<alloc_page_count a x]"
      using True by (intro nth_equalityI) (simp_all add: alloc_page_def alloc_page_count_def)
    then have "map local_entry (take n (drop K (fb_page_list 12 (al_nodes x)))) = ws"
      using slice [OF count, of local_entry "alloc_page a x"] True by (simp add: ws_def share_entry_def)
    moreover have "n \<le> length (drop K (fb_page_list 12 (al_nodes x)))"
      using count True by (simp add: alloc_page_count_def)
    ultimately show ?thesis
      using map_shared_buffer_local_pages [of "al_nodes x" off sz gpu_va table] ok al True
      by (simp add: share_memory_ok_def Let_def K_def [symmetric] n_def [symmetric] V_def [symmetric] s0_def [symmetric] res)
  next
    case False
    have sh: "12 \<le> os_page_shift a" and small: "os_pages_small (os_page_shift a) (al_pages x)"
      using ok False by (simp_all add: share_memory_ok_def)
    have "off + sz = (K + n) * 4096" by (simp add: Kn)
    then have d: "(off + sz) div 4096 - K = n" by simp
    have "zx_pages_memory_for_each_continues (os_page_shift a) (has_dma_map (al_pages x))
        (vidmmi_fill_gart_pcie_e3k a (al_snoop x) (word_of_nat gpu_va) K ((off + sz) div 4096)) 0 (st_sgl (al_pages x)) s0 =
      put_all (word_of_nat gpu_va) (map (system_entry a (al_snoop x)) (take ((off + sz) div 4096 - max (0 * 2 ^ (os_page_shift a - 12)) K)
        (drop (K - 0 * 2 ^ (os_page_shift a - 12)) (gpu_pages a (has_dma_map (al_pages x)) (st_sgl (al_pages x)))))) s0"
      by (rule fill_gart_pages [OF sh]) (use small in \<open>simp add: os_pages_small_def\<close>)
    also have "\<dots> = put_all (word_of_nat gpu_va) ws s0"
      unfolding gpu_pages_alloc [OF sh False] mult_0 max_0L diff_zero d slice [OF count]
      using False by (simp add: ws_def share_entry_def [abs_def])
    finally have run: "zx_pages_memory_for_each_continues (os_page_shift a) (has_dma_map (al_pages x))
        (vidmmi_fill_gart_pcie_e3k a (al_snoop x) (word_of_nat gpu_va) K ((off + sz) div 4096)) 0 (st_sgl (al_pages x)) s0 =
      put_all (word_of_nat gpu_va) ws s0" .
    then show ?thesis using False
      unfolding vidmmi_map_shared_buffer_pcie_e3k_def Let_def K_def [symmetric] V_def [symmetric] s0_def [symmetric]
      by (simp only: run res if_False)
  qed
qed

section \<open>Laying the table out\<close>

text \<open>
  The buffer holds one page for the first level, then the pages of the second level, then those of the
  last, which maps local memory onto itself. The register of the first level has an address of 24 bits.
\<close>

definition ttbr_value :: "u64 \<Rightarrow> u32" where
  "ttbr_value pa = pte_bits 24 True False True (drop_bit 12 pa)"

definition ceil_1024 :: "nat \<Rightarrow> nat" where
  "ceil_1024 n = n div 1024 + (if n mod 1024 \<noteq> 0 then 1 else 0)"

definition write_entries :: "nat \<Rightarrow> nat \<Rightarrow> (nat \<Rightarrow> u32) \<Rightarrow> (nat \<Rightarrow> u32) \<Rightarrow> nat \<Rightarrow> u32" where
  "write_entries first n value words = fold (\<lambda>i ws. ws(first + i := value i)) [0..<n] words"

text \<open>
  \<open>created\<close> is the address of the buffer if it could be created, \<open>mapped\<close> whether the processor can reach
  it. The 16 ids are given the same entries.
\<close>

definition vidmm_init_shared_pt_e3k ::
    "share_space \<Rightarrow> u64 option \<Rightarrow> bool \<Rightarrow> share_pt \<Rightarrow> (share_pt \<times> status) option" where
  "vidmm_init_shared_pt_e3k sp created mapped st =
     (if \<not> sp_cover_local sp then Some (st, S_OK)
      else if sp_size sp < sp_local_size sp then None
      else let level3_entries_local = sp_local_size sp div 4096;
               level3_entries_pcie = (sp_size sp - sp_local_size sp) div 4096;
               level2_entries = ceil_1024 (level3_entries_local + level3_entries_pcie);
               level1_entries = ceil_1024 level2_entries;
               level2_offset = 1 * 4096;
               level3_offset = level2_offset + level1_entries * 4096
           in case created of None \<Rightarrow> Some (st, E_FAIL)
              | Some base \<Rightarrow>
                  if \<not> mapped then Some (st, E_FAIL)
                  else
                    let ws3 = write_entries (level3_offset div 4) level3_entries_local
                                (\<lambda>i. PTE_L3 True False True (word_of_nat i)) (\<lambda>_. 0);
                        ws2 = write_entries (level2_offset div 4) level2_entries
                                (\<lambda>i. PTE_L2 True False True (drop_bit 12 (base + word_of_nat level3_offset + uint_shl i 12))) ws3;
                        ttbr = (\<lambda>i. ttbr_value (base + word_of_nat level2_offset + uint_shl i 12))
                    in Some (st\<lparr> sh_words := write_entries 0 level1_entries ttbr ws2,
                                  sh_base := base,
                                  sh_level3 := level3_offset div 4,
                                  sh_ttbr := (\<lambda>pid. if pid < 16 then write_entries 0 level1_entries ttbr (sh_ttbr st pid)
                                                   else sh_ttbr st pid),
                                  sh_dirty := (sh_dirty st)\<lparr> dirty := True \<rparr> \<rparr>, S_OK))"

text \<open>
  The walk of the engine in the shared space: the register of the id, then two tables of the buffer.
\<close>

definition share_walk :: "share_pt \<Rightarrow> nat \<Rightarrow> nat \<Rightarrow> u64 option" where
  "share_walk st pid p =
     (let e = sh_ttbr st pid (p div 2 ^ 20)
      in if pte_valid e
         then engine_walk (\<lambda>t k. sh_words st (unat (t - sh_base st) div 4 + k)) (pte_address e)
                [p div 2 ^ 10 mod 2 ^ 10, p mod 2 ^ 10]
         else None)"

text \<open>Sizes as \<^verbatim>\<open>vidmm_query_chip_vm_info_e3k\<close> makes them, and a buffer that the registers can name.\<close>

definition share_fits :: "share_space \<Rightarrow> u64 \<Rightarrow> bool" where
  "share_fits sp base \<longleftrightarrow> sp_cover_local sp \<and>
     2 ^ 32 dvd sp_size sp \<and> sp_size sp \<le> 2 ^ 40 \<and> 4096 dvd sp_local_size sp \<and> sp_local_size sp \<le> sp_size sp \<and>
     4096 dvd unat base \<and> unat base + (1 + sp_size sp div 2 ^ 32 + sp_size sp div 2 ^ 22) * 4096 \<le> 2 ^ 36"

text \<open>The page \<open>m\<close> of the buffer.\<close>

definition buffer_page :: "u64 \<Rightarrow> nat \<Rightarrow> u64" where
  "buffer_page base m = base + word_of_nat (m * 4096)"

definition share_ok :: "share_space \<Rightarrow> share_pt \<Rightarrow> bool" where
  "share_ok sp st \<longleftrightarrow> share_fits sp (sh_base st) \<and> sh_level3 st = (1 + sp_size sp div 2 ^ 32) * 1024 \<and>
     (\<forall>i < sp_size sp div 2 ^ 32. sh_words st i = ttbr_value (buffer_page (sh_base st) (1 + i))) \<and>
     (\<forall>pid < 16. \<forall>i < sp_size sp div 2 ^ 32. sh_ttbr st pid i = ttbr_value (buffer_page (sh_base st) (1 + i))) \<and>
     (\<forall>j < sp_size sp div 2 ^ 22. sh_words st (1024 + j) =
        PTE_L2 True False True (drop_bit 12 (buffer_page (sh_base st) (1 + sp_size sp div 2 ^ 32 + j))))"

lemma write_entries_at:
  "write_entries first n value words k = (if first \<le> k \<and> k < first + n then value (k - first) else words k)"
  unfolding write_entries_def by (induction n) auto

lemma word_page_aligned: "push_bit 12 (drop_bit 12 (word_of_nat (4096 * m) :: u64)) = word_of_nat (4096 * m)"
proof -
  have "(word_of_nat (4096 * m) :: u64) = push_bit 12 (word_of_nat m)" by (simp add: push_bit_eq_mult mult.commute)
  moreover have "push_bit 12 (drop_bit 12 (push_bit 12 x)) = push_bit 12 x" for x :: u64
    by (rule bit_word_eqI) (auto simp: bit_simps)
  ultimately show ?thesis by (simp only:)
qed

lemma buffer_page_address:
  assumes fit: "share_fits sp base" and m: "m < 1 + sp_size sp div 2 ^ 32 + sp_size sp div 2 ^ 22"
  shows "push_bit 12 (drop_bit 12 (buffer_page base m)) = buffer_page base m" "buffer_page base m < 2 ^ 36"
    "unat (buffer_page base m - base) div 4 = m * 1024"
proof -
  obtain q where q: "unat base = 4096 * q" using fit by (auto simp: share_fits_def elim!: dvdE)
  define pages where "pages = 1 + sp_size sp div 2 ^ 32 + sp_size sp div 2 ^ 22"
  have "4096 * q + pages * 4096 \<le> 2 ^ 36" "m < pages" using fit m by (simp_all only: share_fits_def q pages_def)
  then have upper: "(q + m) * 4096 < 2 ^ 36" by simp
  have "base = word_of_nat (unat base)" by simp
  then have base: "base = word_of_nat (4096 * q)" by (simp only: q)
  have page: "buffer_page base m = word_of_nat (4096 * (q + m))"
    unfolding buffer_page_def base of_nat_add [symmetric] by (simp add: algebra_simps)
  show "push_bit 12 (drop_bit 12 (buffer_page base m)) = buffer_page base m"
    unfolding page by (rule word_page_aligned)
  define x where "x = 4096 * (q + m)"
  have "x < 2 ^ 36" using upper by (simp add: x_def mult.commute)
  then have "unat (word_of_nat x :: u64) = x" by (simp add: unat_of_nat)
  then show "buffer_page base m < 2 ^ 36"
    using \<open>x < 2 ^ 36\<close> unfolding page x_def [symmetric] by (simp add: word_less_nat_alt)
  define y where "y = m * 4096"
  have "y < 2 ^ 36" using upper by (simp add: y_def)
  then have "unat (word_of_nat y :: u64) = y" by (simp add: unat_of_nat)
  moreover have "buffer_page base m - base = word_of_nat y" by (simp add: buffer_page_def y_def)
  ultimately show "unat (buffer_page base m - base) div 4 = m * 1024" by (simp add: y_def)
qed

section \<open>The walk in the shared space\<close>

lemma ttbr_value_address:
  assumes "share_fits sp base" "m < 1 + sp_size sp div 2 ^ 32 + sp_size sp div 2 ^ 22"
  shows "pte_valid (ttbr_value (buffer_page base m))" "pte_address (ttbr_value (buffer_page base m)) = buffer_page base m"
  using pte_address_in_range [of 24 "buffer_page base m"] buffer_page_address(1,2) [OF assms]
  by (simp_all add: ttbr_value_def pte_bits_valid)

lemma level2_value_address:
  assumes "share_fits sp base" "m < 1 + sp_size sp div 2 ^ 32 + sp_size sp div 2 ^ 22"
  shows "pte_valid (PTE_L2 True False True (drop_bit 12 (buffer_page base m)))"
    "pte_address (PTE_L2 True False True (drop_bit 12 (buffer_page base m))) = buffer_page base m"
proof -
  have "buffer_page base m < 2 ^ (12 + 27)" by (rule less_trans [OF buffer_page_address(2) [OF assms]]) simp
  then show "pte_valid (PTE_L2 True False True (drop_bit 12 (buffer_page base m)))"
    "pte_address (PTE_L2 True False True (drop_bit 12 (buffer_page base m))) = buffer_page base m"
    using pte_address_in_range [of 27 "buffer_page base m"] buffer_page_address(1) [OF assms]
    by (simp_all add: PTE_L2_def pte_bits_valid)
qed

text \<open>Every id sees the last level, and nothing else matters.\<close>

lemma share_walk_level3:
  assumes ok: "share_ok sp st" and pid: "pid < 16" and p: "p < sp_size sp div 4096"
  shows "share_walk st pid p =
    (if pte_valid (level3_table st p) then Some (pte_address (level3_table st p)) else None)"
proof -
  obtain n where n: "sp_size sp = n * 2 ^ 32" using ok by (auto simp: share_ok_def share_fits_def elim!: dvdE)
  have fit: "share_fits sp (sh_base st)" using ok by (simp add: share_ok_def)
  have sizes: "sp_size sp div 4096 = n * 2 ^ 20" "sp_size sp div 2 ^ 22 = n * 2 ^ 10" "sp_size sp div 2 ^ 32 = n"
    by (simp_all add: n)
  define i j where "i = p div 2 ^ 20" and "j = p div 2 ^ 10"
  have lt: "i < n" "j < n * 2 ^ 10" using p unfolding sizes i_def j_def by (simp_all add: less_mult_imp_div_less)
  have ij: "i * 1024 + j mod 2 ^ 10 = j" "j * 1024 + p mod 2 ^ 10 = p"
    by (simp_all add: i_def j_def div_mult2_eq [of p "2 ^ 10" "2 ^ 10", simplified])
  have m: "1 + i < 1 + sp_size sp div 2 ^ 32 + sp_size sp div 2 ^ 22"
    "1 + n + j < 1 + sp_size sp div 2 ^ 32 + sp_size sp div 2 ^ 22" unfolding sizes using lt by simp_all
  have e1: "sh_ttbr st pid i = ttbr_value (buffer_page (sh_base st) (1 + i))"
    and e2: "sh_words st (1024 + j) = PTE_L2 True False True (drop_bit 12 (buffer_page (sh_base st) (1 + n + j)))"
    and l3: "sh_level3 st = (1 + n) * 1024"
    using ok pid lt unfolding share_ok_def sizes by simp_all
  have "(1 + i) * 1024 + j mod 2 ^ 10 = 1024 + j" "(1 + n + j) * 1024 + p mod 2 ^ 10 = sh_level3 st + p"
    using ij by (simp_all add: l3 add_mult_distrib)
  then show ?thesis
    unfolding share_walk_def Let_def i_def [symmetric] j_def [symmetric] e1
    by (simp only: ttbr_value_address [OF fit m(1)] engine_walk.simps buffer_page_address(3) [OF fit m(1)] e2
        level2_value_address [OF fit m(2)] buffer_page_address(3) [OF fit m(2)] level3_table_def simp_thms if_True)
qed

text \<open>The table that initialisation leaves.\<close>

lemma init_shared_pt_table:
  assumes fit: "share_fits sp base" and run: "vidmm_init_shared_pt_e3k sp (Some base) True st = Some (st', r)"
  shows "r = S_OK" "share_ok sp st'"
    "level3_table st' k = (if k < sp_local_size sp div 4096 then PTE_L3 True False True (word_of_nat k) else 0)"
proof -
  obtain n where n: "sp_size sp = n * 2 ^ 32" using fit by (auto simp: share_fits_def elim!: dvdE)
  obtain L where L: "sp_local_size sp = 4096 * L" using fit by (auto simp: share_fits_def elim!: dvdE)
  have LS: "L \<le> n * 2 ^ 20" "n \<le> 2 ^ 8" "sp_cover_local sp" using fit by (simp_all add: share_fits_def n L)
  have sizes: "sp_size sp div 4096 = n * 2 ^ 20" "sp_size sp div 2 ^ 22 = n * 2 ^ 10" "sp_size sp div 2 ^ 32 = n"
    "sp_local_size sp div 4096 = L"
    by (simp_all add: n L)
  have "(sp_size sp - sp_local_size sp) div 4096 = (4096 * (n * 2 ^ 20 - L)) div 4096"
    unfolding n L diff_mult_distrib2 by simp
  also have "\<dots> = n * 2 ^ 20 - L" by simp
  finally have "(sp_size sp - sp_local_size sp) div 4096 = n * 2 ^ 20 - L" .
  then have counts: "ceil_1024 (sp_local_size sp div 4096 + (sp_size sp - sp_local_size sp) div 4096) = n * 1024"
    "ceil_1024 (n * 1024) = n"
    using LS by (simp_all add: sizes ceil_1024_def)
  define ttbr where "ttbr = (\<lambda>i. ttbr_value (base + word_of_nat (1 * 4096) + uint_shl i 12))"
  define dirs where "dirs = (\<lambda>i. PTE_L2 True False True (drop_bit 12 (base + word_of_nat (1 * 4096 + n * 4096) + uint_shl i 12)))"
  define pages where "pages = (\<lambda>i. PTE_L3 True False True (word_of_nat i))"
  have st': "st' = st\<lparr> sh_words := write_entries 0 n ttbr (write_entries (1 * 4096 div 4) (n * 1024) dirs
        (write_entries ((1 * 4096 + n * 4096) div 4) L pages (\<lambda>_. 0))),
      sh_base := base, sh_level3 := (1 * 4096 + n * 4096) div 4,
      sh_ttbr := (\<lambda>pid. if pid < 16 then write_entries 0 n ttbr (sh_ttbr st pid) else sh_ttbr st pid),
      sh_dirty := (sh_dirty st)\<lparr> dirty := True \<rparr> \<rparr>" and r: "r = S_OK"
    using run LS(1,3) unfolding vidmm_init_shared_pt_e3k_def Let_def counts ttbr_def dirs_def pages_def
    by (auto simp: sizes n L)
  show "r = S_OK" by (rule r)
  have shl: "uint_shl i 12 = word_of_nat (i * 4096)" if "i < 2 ^ 18" for i
    using uint_shl_small [of i 12] that by simp
  have page: "ttbr i = ttbr_value (buffer_page base (1 + i))" if "i < n" for i
    using that LS(2) shl [of i] by (simp add: ttbr_def buffer_page_def algebra_simps)
  have dir: "dirs j = PTE_L2 True False True (drop_bit 12 (buffer_page base (1 + n + j)))" if "j < n * 1024" for j
    using that LS(2) shl [of j] by (simp add: dirs_def buffer_page_def algebra_simps)
  have idx: "1 * 4096 div 4 = (1024 :: nat)" "(1 * 4096 + n * 4096) div 4 = (1 + n) * 1024" by simp_all
  show "share_ok sp st'"
    using fit page dir LS(2) unfolding share_ok_def sizes st' idx
    by (simp add: write_entries_at)
  show "level3_table st' k = (if k < sp_local_size sp div 4096 then PTE_L3 True False True (word_of_nat k) else 0)"
    using LS(2) unfolding sizes st' idx level3_table_def
    by (auto simp: write_entries_at pages_def)
qed

lemma identity_entry:
  assumes p: "p < 2 ^ 28"
  shows "pte_valid (PTE_L3 True False True (word_of_nat p))"
    "pte_address (PTE_L3 True False True (word_of_nat p)) = word_of_nat (p * 4096)"
proof -
  define x where "x = 4096 * p"
  have x: "x < 2 ^ 40" using p by (simp add: x_def)
  then have u: "unat (word_of_nat x :: u64) = x" by (simp add: unat_of_nat)
  have "unat (drop_bit 12 (word_of_nat x :: u64)) = x div 4096" unfolding unat_drop_bit_eq u by (simp add: drop_bit_eq_div)
  then have drop: "drop_bit 12 (word_of_nat x :: u64) = word_of_nat p"
    using p by (intro word_unat_eq_iff [THEN iffD2]) (simp add: x_def unat_of_nat)
  have "(word_of_nat x :: u64) < 2 ^ (12 + 28)" using x by (simp add: word_less_nat_alt u)
  then have "pte_address (pte_bits 28 True False True (drop_bit 12 (word_of_nat x))) = word_of_nat x"
    using pte_address_in_range [of 28 "word_of_nat x"] word_page_aligned [of p] by (simp only: x_def)
  then show "pte_address (PTE_L3 True False True (word_of_nat p)) = word_of_nat (p * 4096)"
    unfolding drop PTE_L3_def by (simp add: x_def mult.commute)
  show "pte_valid (PTE_L3 True False True (word_of_nat p))" by (simp add: PTE_L3_def pte_bits_valid)
qed

section \<open>What the driver promises\<close>

text \<open>
  C26. The shared page table. When the buffer can be created, every id finds local memory at its own
  addresses in the shared space, and nothing behind it; otherwise nothing is changed and the call fails.
\<close>

theorem vidmm_init_shared_pt_correct:
  assumes fit: "share_fits sp base" and buffer: "created = None \<or> created = Some base"
    and run: "vidmm_init_shared_pt_e3k sp created mapped st = Some (st', r)"
  shows "if created = None \<or> \<not> mapped then st' = st \<and> r = E_FAIL
    else r = S_OK \<and> share_ok sp st' \<and> (\<forall>pid < 16. \<forall>p < sp_size sp div 4096.
      share_walk st' pid p = (if p < sp_local_size sp div 4096 then Some (word_of_nat (p * 4096)) else None))"
proof (cases "created = None \<or> \<not> mapped")
  case True
  then show ?thesis using run fit by (auto simp: vidmm_init_shared_pt_e3k_def share_fits_def Let_def split: option.splits)
next
  case False
  then have b: "created = Some base" "mapped" using buffer by auto
  have run': "vidmm_init_shared_pt_e3k sp (Some base) True st = Some (st', r)" using run b by simp
  note init = init_shared_pt_table [OF fit run']
  have "share_walk st' pid p = (if p < sp_local_size sp div 4096 then Some (word_of_nat (p * 4096)) else None)"
    if pid: "pid < 16" and p: "p < sp_size sp div 4096" for pid p
  proof -
    have "sp_size sp div 4096 \<le> 2 ^ 40 div 4096" using fit by (intro div_le_mono) (simp add: share_fits_def)
    then have "p < 2 ^ 28" using p by simp
    then show ?thesis
      using share_walk_level3 [OF init(2) pid p] identity_entry [of p] by (simp add: init(3) pte_valid_def)
  qed
  then show ?thesis using False init by auto
qed


lemma share_ok_cong:
  assumes ok: "share_ok sp st" and "sh_base st' = sh_base st" "sh_level3 st' = sh_level3 st" "sh_ttbr st' = sh_ttbr st"
    and words: "\<And>k. k < sh_level3 st \<Longrightarrow> sh_words st' k = sh_words st k"
  shows "share_ok sp st'"
proof -
  obtain n where n: "sp_size sp = n * 2 ^ 32" using ok by (auto simp: share_ok_def share_fits_def elim!: dvdE)
  have sizes: "sp_size sp div 2 ^ 22 = n * 2 ^ 10" "sp_size sp div 2 ^ 32 = n" by (simp_all add: n)
  have l3: "sh_level3 st = (1 + n) * 1024" using ok unfolding share_ok_def sizes by simp
  have "sh_words st' i = sh_words st i" if "i < n" for i using words [of i] that by (simp add: l3)
  moreover have "sh_words st' (1024 + j) = sh_words st (1024 + j)" if "j < n * 2 ^ 10" for j
    using words [of "1024 + j"] that by (simp add: l3)
  ultimately show ?thesis using ok assms(2-4) unfolding share_ok_def sizes by simp
qed


section \<open>Losing power\<close>

text \<open>
  \<^verbatim>\<open>vidmm_save_e3k\<close> and \<^verbatim>\<open>vidmm_restore_e3k\<close> for the shared table; \<open>copied\<close> is whether there was memory for the
  copy. The other buffer they save is not modelled.
\<close>

definition vidmm_save_e3k :: "bool \<Rightarrow> share_pt \<Rightarrow> share_pt" where
  "vidmm_save_e3k copied st =
     (if sh_backup st = None \<and> copied then st\<lparr> sh_backup := Some (sh_words st) \<rparr> else st)"

definition vidmm_restore_e3k :: "share_space \<Rightarrow> share_pt \<Rightarrow> share_pt" where
  "vidmm_restore_e3k sp st =
     (case sh_backup st of None \<Rightarrow> st
      | Some ws \<Rightarrow>
          let level1_entries = sp_size sp div 2 ^ 32 + (if sp_size sp mod 2 ^ 32 \<noteq> 0 then 1 else 0)
          in st\<lparr> sh_words := ws, sh_backup := None,
                 sh_ttbr := (\<lambda>pid. if pid < 16 then write_entries 0 level1_entries ws (sh_ttbr st pid) else sh_ttbr st pid),
                 sh_dirty := (sh_dirty st)\<lparr> dirty := True \<rparr> \<rparr>)"

text \<open>Local memory and the registers hold anything after the power was off.\<close>

definition power_lost :: "(nat \<Rightarrow> u32) \<Rightarrow> (nat \<Rightarrow> nat \<Rightarrow> u32) \<Rightarrow> share_pt \<Rightarrow> share_pt" where
  "power_lost ws regs st = st\<lparr> sh_words := ws, sh_ttbr := regs \<rparr>"

text \<open>
  C27. The shared table survives a power cycle. Whatever the memory and the registers hold afterwards, what
  was saved comes back: the same walk for every id and every page, with no copy left. If there was no
  memory for the copy, the table stays lost, and nothing tells the caller.
\<close>

theorem vidmm_save_restore:
  assumes ok: "share_ok sp st" and no_copy: "sh_backup st = None"
  shows "let st' = vidmm_restore_e3k sp (power_lost ws regs (vidmm_save_e3k copied st)) in
    sh_backup st' = None \<and>
    (if copied
     then share_ok sp st' \<and> (\<forall>pid < 16. \<forall>p < sp_size sp div 4096. share_walk st' pid p = share_walk st pid p)
     else st' = power_lost ws regs st)"
proof (cases copied)
  case False
  then show ?thesis using no_copy by (simp add: vidmm_save_e3k_def vidmm_restore_e3k_def power_lost_def)
next
  case True
  define st' where "st' = vidmm_restore_e3k sp (power_lost ws regs (vidmm_save_e3k copied st))"
  have "sp_size sp mod 2 ^ 32 = 0" using ok by (simp add: share_ok_def share_fits_def mod_eq_0_iff_dvd)
  then have st': "st' = st\<lparr> sh_words := sh_words st, sh_backup := None,
      sh_ttbr := (\<lambda>pid. if pid < 16 then write_entries 0 (sp_size sp div 2 ^ 32) (sh_words st) (regs pid) else regs pid),
      sh_dirty := (sh_dirty st)\<lparr> dirty := True \<rparr> \<rparr>"
    using True no_copy by (simp add: st'_def vidmm_save_e3k_def vidmm_restore_e3k_def power_lost_def Let_def cong: if_cong)
  have ok': "share_ok sp st'"
    using ok unfolding share_ok_def st' by (simp add: write_entries_at)
  moreover have "share_walk st' pid p = share_walk st pid p" if "pid < 16" "p < sp_size sp div 4096" for pid p
    unfolding share_walk_level3 [OF ok' that] share_walk_level3 [OF ok that] by (simp add: level3_table_def st')
  ultimately show ?thesis unfolding st'_def [symmetric] Let_def using True by (simp add: st')
qed

section \<open>Instances\<close>

definition demo_space :: share_space where
  "demo_space = \<lparr> sp_cover_local = True, sp_offset = 0, sp_local_size = 0x10000000, sp_size = 0x200000000 \<rparr>"

definition demo_start :: share_pt where
  "demo_start = \<lparr> sh_words = (\<lambda>_. 0xDEADBEEF), sh_base = 0, sh_level3 = 0, sh_ttbr = (\<lambda>_ _. 0),
     sh_dirty = \<lparr> dirty = False, dirty_addr = 0, dirty_mask = 0 \<rparr>, sh_backup = None \<rparr>"

definition demo_buffer :: alloc_memory where
  "demo_buffer = \<lparr> al_secured = False, al_snoop = True, al_local = False,
     al_pages = \<lparr> st_sgl =
         [\<lparr> sg_offset = 0, sg_length = 0x4000, sg_dma_len = 0x4000, sg_phys = 0, sg_dma_address = 0x123450000 \<rparr>,
          \<lparr> sg_offset = 0, sg_length = 0x8000, sg_dma_len = 0x8000, sg_phys = 0, sg_dma_address = 0x200000000 \<rparr>],
       has_dma_map = True \<rparr>, al_nodes = [] \<rparr>"

lemma demo_fits: "share_fits demo_space 0x1000000"
  by (simp add: share_fits_def demo_space_def)

lemma demo_init:
  obtains st where "vidmm_init_shared_pt_e3k demo_space (Some 0x1000000) True demo_start = Some (st, S_OK)"
    "share_ok demo_space st" "sh_backup st = None"
proof -
  obtain st r where run: "vidmm_init_shared_pt_e3k demo_space (Some 0x1000000) True demo_start = Some (st, r)"
    and b: "sh_backup st = None"
    by (simp add: vidmm_init_shared_pt_e3k_def demo_space_def demo_start_def Let_def)
  note init = init_shared_pt_table [OF demo_fits run]
  show ?thesis by (rule that [OF run [unfolded init(1)] init(2) b])
qed

theorem vidmm_init_shared_pt_correct_witness:
  "\<exists>st. vidmm_init_shared_pt_e3k demo_space (Some 0x1000000) True demo_start = Some (st, S_OK) \<and>
     share_walk st 9 0xFFFF = Some 0xFFFF000 \<and> share_walk st 9 0x10000 = None"
proof -
  obtain st where run: "vidmm_init_shared_pt_e3k demo_space (Some 0x1000000) True demo_start = Some (st, S_OK)"
    by (rule demo_init)
  have walk: "\<forall>pid < 16. \<forall>p < sp_size demo_space div 4096. share_walk st pid p =
      (if p < sp_local_size demo_space div 4096 then Some (word_of_nat (p * 4096)) else None)"
    using vidmm_init_shared_pt_correct [OF demo_fits _ run] by simp
  have "share_walk st 9 0xFFFF = Some 0xFFFF000" "share_walk st 9 0x10000 = None"
    using walk [rule_format, of 9 "0xFFFF"] walk [rule_format, of 9 "0x10000"] by (simp_all add: demo_space_def)
  then show ?thesis using run by blast
qed

theorem vidmm_save_restore_witness:
  "\<exists>st. share_ok demo_space st \<and>
     share_walk (vidmm_restore_e3k demo_space (power_lost (\<lambda>_. 0x5A) (\<lambda>_ _. 3) (vidmm_save_e3k True st))) 9 0xFFFF =
     share_walk st 9 0xFFFF"
proof -
  obtain st where ok: "share_ok demo_space st" "sh_backup st = None" by (rule demo_init)
  then show ?thesis
    using vidmm_save_restore [OF ok, of "\<lambda>_. 0x5A" "\<lambda>_ _. 3" True]
    by (intro exI [of _ st]) (simp add: Let_def demo_space_def)
qed

lemma demo_buffer_pages:
  "share_memory_ok plain_adapter demo_buffer" "alloc_page_count plain_adapter demo_buffer = 12"
  "k < 12 \<Longrightarrow> share_page plain_adapter demo_buffer k < 2 ^ 40"
  "share_page plain_adapter demo_buffer 4 = 0x200000000"
proof -
  have list: "os_page_list 12 (al_pages demo_buffer) = map (\<lambda>k. 0x123450000 + word_of_nat (k * 4096)) [0..<4] @
      map (\<lambda>k. 0x200000000 + word_of_nat (k * 4096)) [0..<8]"
    by (simp add: os_page_list_def demo_buffer_def sg_page_cnt_def sg_addr_def del: upt_rec_numeral)
  show "share_memory_ok plain_adapter demo_buffer"
    by (simp add: share_memory_ok_def demo_buffer_def plain_adapter_def os_pages_small_def sg_page_cnt_def)
  show "alloc_page_count plain_adapter demo_buffer = 12"
    using list by (simp add: alloc_page_count_def plain_adapter_def demo_buffer_def)
  have "alloc_page plain_adapter demo_buffer k = os_page_list 12 (al_pages demo_buffer) ! k" for k
    by (simp add: alloc_page_def plain_adapter_def demo_buffer_def)
  then have page: "share_page plain_adapter demo_buffer k = push_bit 12 (drop_bit 12 (os_page_list 12 (al_pages demo_buffer) ! k))" for k
    by (simp add: share_page_def page_address_def vidsch_get_pte_value_def plain_adapter_def demo_buffer_def)
  have all: "\<forall>k \<in> set [0..<12]. share_page plain_adapter demo_buffer k < 2 ^ 40"
    unfolding page list by (simp add: upt_rec)
  then show "k < 12 \<Longrightarrow> share_page plain_adapter demo_buffer k < 2 ^ 40" by simp
  show "share_page plain_adapter demo_buffer 4 = 0x200000000" unfolding page list by (simp add: nth_append)
qed


end
