(* ===== verification/Mode_List.thy ===== *)
theory Mode_List
  imports Edid_List
begin

text \<open>
  The list of modes a device offers, \<^verbatim>\<open>cbios/Display/CBiosMode.c\<close>: the timings of \<open>Edid_List\<close> are taken
  largest first, timings that count as one are merged, what the device or the memory cannot do is left
  out, and for a television the mode at 1000/1001 of the rate is offered beside it.

  The memory pool is the parameter \<open>pool\<close>: whether the request with a given number is served.
\<close>

section \<open>Modes\<close>

record mode_info =
  md_Size :: u32
  md_XRes :: u32
  md_YRes :: u32
  md_RefreshRate :: u32
  md_ColorDepthCaps :: u32
  md_XTotal :: u32
  md_YTotal :: u32
  md_PixelClock :: u32
  md_isPreferredMode :: bool
  md_isInterlaceMode :: bool

text \<open>
  The list of a device: the recorded modes, the room in the array, and how many requests for memory there
  were. \<^verbatim>\<open>ValidModeNum\<close> is the number of recorded modes; what the array holds behind them is never read.
\<close>

record mode_list =
  pDeviceModeList :: "mode_info list option"
  ModeListArraySize :: nat
  pool_requests :: nat

section \<open>Comparing timings\<close>

definition prio :: "bool \<Rightarrow> bool \<Rightarrow> bool \<Rightarrow> bool \<Rightarrow> bool \<Rightarrow> bool \<Rightarrow> u8" where
  "prio x y r p i c =
     (if x then 0x80 else 0) OR (if y then 0x40 else 0) OR (if r then 0x20 else 0) OR
     (if p then 0x10 else 0) OR (if i then 0x08 else 0) OR (if c then 0x04 else 0)"

definition cbMode_CompareMode :: "device_timing \<Rightarrow> device_timing \<Rightarrow> int" where
  "cbMode_CompareMode m1 m2 =
     (let t1 = FullTiming m1; t2 = FullTiming m2;
          Priority1 = prio (XRes t1 > XRes t2) (YRes t1 > YRes t2) (RefreshRate t1 > RefreshRate t2)
            (IsPreferMode m1 \<and> \<not> IsPreferMode m2) (\<not> IsInterLaced m1 \<and> IsInterLaced m2) (PixelClock t1 > PixelClock t2);
          Priority2 = prio (XRes t2 > XRes t1) (YRes t2 > YRes t1) (RefreshRate t2 > RefreshRate t1)
            (IsPreferMode m2 \<and> \<not> IsPreferMode m1) (\<not> IsInterLaced m2 \<and> IsInterLaced m1) (PixelClock t2 > PixelClock t1)
      in if Priority1 OR 0x10 = Priority2 OR 0x10 \<or> Priority1 = Priority2 then 0
         else if Priority1 > Priority2 then 1 else -1)"

text \<open>What makes two timings one mode, and the rank by size and rate.\<close>

definition same_mode :: "device_timing \<Rightarrow> device_timing \<Rightarrow> bool" where
  "same_mode m1 m2 \<longleftrightarrow>
     XRes (FullTiming m1) = XRes (FullTiming m2) \<and> YRes (FullTiming m1) = YRes (FullTiming m2) \<and>
     RefreshRate (FullTiming m1) = RefreshRate (FullTiming m2) \<and> IsInterLaced m1 = IsInterLaced m2 \<and>
     PixelClock (FullTiming m1) = PixelClock (FullTiming m2)"

definition mode_rank :: "device_timing \<Rightarrow> nat" where
  "mode_rank m = (unat (XRes (FullTiming m)) * 2 ^ 16 + unat (YRes (FullTiming m))) * 2 ^ 16 +
     unat (RefreshRate (FullTiming m))"

lemma prio_value: "unat (prio x y r p i c) =
    128 * of_bool x + 64 * of_bool y + 32 * of_bool r + 16 * of_bool p + 8 * of_bool i + 4 * of_bool c"
  by (cases x; cases y; cases r; cases p; cases i; cases c; simp add: prio_def)

lemma prio_or: "prio x y r p i c OR 0x10 = prio x y r True i c"
  by (cases x; cases y; cases r; cases p; cases i; cases c; simp add: prio_def)

lemma prio_eq: "prio x y r p i c = prio x' y' r' p' i' c' \<longleftrightarrow>
    128 * of_bool x + 64 * of_bool y + 32 * of_bool r + 16 * of_bool p + 8 * of_bool i + 4 * of_bool c =
    (128 * of_bool x' + 64 * of_bool y' + 32 * of_bool r' + 16 * of_bool p' + 8 * of_bool i' + 4 * of_bool c' :: nat)"
  unfolding prio_value [symmetric] by (simp add: word_unat_eq_iff)

lemma of_bool_sum_eq:
  "128 * of_bool x + 64 * of_bool y + 32 * of_bool r + 16 * of_bool p + 8 * of_bool i + 4 * of_bool c =
   (128 * of_bool x' + 64 * of_bool y' + 32 * of_bool r' + 16 * of_bool p' + 8 * of_bool i' + 4 * of_bool c' :: nat) \<longleftrightarrow>
   x = x' \<and> y = y' \<and> r = r' \<and> p = p' \<and> i = i' \<and> c = c'"
  by (auto simp: of_bool_def split: if_splits)

lemma trichotomy_eq: "((a :: 'a :: linorder) > b) = (b > a) \<longleftrightarrow> a = b"
  by (auto simp: not_less_iff_gr_or_eq)

lemma compare_zero: "cbMode_CompareMode m1 m2 = 0 \<longleftrightarrow> same_mode m1 m2"
  unfolding cbMode_CompareMode_def Let_def prio_or prio_eq of_bool_sum_eq trichotomy_eq same_mode_def by auto

lemma compare_antisym: "cbMode_CompareMode m2 m1 = - cbMode_CompareMode m1 m2"
  unfolding cbMode_CompareMode_def Let_def by auto

lemma lex_rank:
  fixes x y r x' y' r' :: u16
  assumes "128 * of_bool (x > x') + 64 * of_bool (y > y') + 32 * of_bool (r > r') + a \<ge>
    (128 * of_bool (x' > x) + 64 * of_bool (y' > y) + 32 * of_bool (r' > r) :: nat)" "a < 32"
  shows "(unat x' * 2 ^ 16 + unat y') * 2 ^ 16 + unat r' \<le> (unat x * 2 ^ 16 + unat y) * 2 ^ 16 + unat r"
proof -
  have b: "unat y' < 2 ^ 16" "unat r' < 2 ^ 16" using unsigned_less [of y'] unsigned_less [of r'] by simp_all
  consider "x' < x" | "x' = x" "y' < y" | "x' = x" "y' = y" "r' \<le> r" | "x < x'" | "x' = x" "y < y'" | "x' = x" "y' = y" "r < r'"
    by fastforce
  then show ?thesis
    by cases (use assms b in \<open>auto simp: word_less_nat_alt word_le_nat_alt of_bool_def split: if_splits\<close>)
qed

lemma compare_rank:
  assumes "cbMode_CompareMode m1 m2 \<ge> 0"
  shows "mode_rank m2 \<le> mode_rank m1"
proof (cases "cbMode_CompareMode m1 m2 = 0")
  case True
  then show ?thesis by (simp add: compare_zero same_mode_def mode_rank_def)
next
  case False
  let ?t1 = "FullTiming m1" and ?t2 = "FullTiming m2"
  have "unat (prio (XRes ?t2 > XRes ?t1) (YRes ?t2 > YRes ?t1) (RefreshRate ?t2 > RefreshRate ?t1)
      (IsPreferMode m2 \<and> \<not> IsPreferMode m1) (\<not> IsInterLaced m2 \<and> IsInterLaced m1) (PixelClock ?t2 > PixelClock ?t1)) <
    unat (prio (XRes ?t1 > XRes ?t2) (YRes ?t1 > YRes ?t2) (RefreshRate ?t1 > RefreshRate ?t2)
      (IsPreferMode m1 \<and> \<not> IsPreferMode m2) (\<not> IsInterLaced m1 \<and> IsInterLaced m2) (PixelClock ?t1 > PixelClock ?t2))"
    using assms False by (auto simp: cbMode_CompareMode_def Let_def word_less_nat_alt split: if_splits)
  then show ?thesis
    unfolding prio_value mode_rank_def
    by (intro lex_rank [where a = "16 * of_bool (IsPreferMode m1 \<and> \<not> IsPreferMode m2) +
          8 * of_bool (\<not> IsInterLaced m1 \<and> IsInterLaced m2) + 4 * of_bool (PixelClock ?t1 > PixelClock ?t2)"])
       (auto simp: of_bool_def)
qed

section \<open>Adding a mode\<close>

text \<open>A request for memory, and whether it is served.\<close>

definition request :: "(nat \<Rightarrow> bool) \<Rightarrow> mode_list \<Rightarrow> bool \<times> mode_list" where
  "request pool st = (pool (pool_requests st), st\<lparr> pool_requests := pool_requests st + 1 \<rparr>)"

definition mode_key :: "mode_info \<Rightarrow> u32 \<times> u32 \<times> u32 \<times> u32 \<times> u32 \<times> bool" where
  "mode_key m = (md_XRes m, md_YRes m, md_PixelClock m, md_XTotal m, md_YTotal m, md_isInterlaceMode m)"

definition modes :: "mode_list \<Rightarrow> mode_info list" where
  "modes st = (case pDeviceModeList st of None \<Rightarrow> [] | Some ms \<Rightarrow> ms)"

definition create_array :: "(nat \<Rightarrow> bool) \<Rightarrow> nat \<Rightarrow> mode_list \<Rightarrow> mode_list" where
  "create_array pool InitSize st =
     (if pDeviceModeList st = None then
        (case request pool st of (served, st1) \<Rightarrow>
           if served then st1\<lparr> pDeviceModeList := Some [], ModeListArraySize := InitSize \<rparr>
           else st1\<lparr> ModeListArraySize := 0 \<rparr>)
      else st)"

definition enlarge_array :: "(nat \<Rightarrow> bool) \<Rightarrow> nat \<Rightarrow> mode_list \<Rightarrow> mode_list" where
  "enlarge_array pool InitSize st =
     (if ModeListArraySize st \<le> length (modes st) \<and> pDeviceModeList st \<noteq> None then
        (case request pool st of (served, st1) \<Rightarrow>
           if served then st1\<lparr> ModeListArraySize := ModeListArraySize st + InitSize div 2 \<rparr> else st1)
      else st)"

definition cbMode_AddMode :: "(nat \<Rightarrow> bool) \<Rightarrow> nat \<Rightarrow> mode_list \<Rightarrow> mode_info \<Rightarrow> bool \<times> mode_list" where
  "cbMode_AddMode pool InitSize st pMode =
     (if \<exists>m \<in> set (modes st). mode_key m = mode_key pMode then (True, st)
      else let st2 = enlarge_array pool InitSize (create_array pool InitSize st)
           in case pDeviceModeList st2 of
                None \<Rightarrow> (False, st2)
              | Some ms \<Rightarrow>
                  if length ms < ModeListArraySize st2
                  then (True, st2\<lparr> pDeviceModeList := Some (ms @ [pMode]) \<rparr>) else (False, st2))"

text \<open>A mode and, on a television, the one at 1000/1001 of its rate; \<open>vic\<close> is the format of the timing.\<close>

definition cbMode_AddDeviceMode ::
    "(nat \<Rightarrow> bool) \<Rightarrow> nat \<Rightarrow> bool \<Rightarrow> mode_list \<Rightarrow> mode_info \<Rightarrow> device_timing \<Rightarrow> bool \<times> mode_list" where
  "cbMode_AddDeviceMode pool InitSize bCEA861Device st pDeviceMode pTiming =
     (let vic = FormatVIC (FullTiming pTiming);
          equivalent = (if bCEA861Device \<and> vic \<noteq> 0 then cbEdidModule_IsEquivalentModeExist vic else None)
      in case equivalent of
           None \<Rightarrow> cbMode_AddMode pool InitSize st pDeviceMode
         | Some (Refresh, Clock) \<Rightarrow>
             let EquivalentMode = pDeviceMode\<lparr> md_RefreshRate := Refresh, md_PixelClock := Clock, md_isPreferredMode := False \<rparr>
             in if md_isPreferredMode pDeviceMode \<or> md_RefreshRate pDeviceMode > Refresh
                then case cbMode_AddMode pool InitSize st pDeviceMode of (bRet, st1) \<Rightarrow>
                       (bRet, snd (cbMode_AddMode pool InitSize st1 EquivalentMode))
                else cbMode_AddMode pool InitSize (snd (cbMode_AddMode pool InitSize st EquivalentMode)) pDeviceMode)"

section \<open>What is left out\<close>

text \<open>
  Monitors, connectors and ports by their codes, and what the display BIOS knows of the board. The largest
  clock that a display port monitor takes is found by link training; it is a field.
\<close>

definition CHIPID_E3K :: u32 where "CHIPID_E3K = 26"
definition CHIPID_CHX004 :: u32 where "CHIPID_CHX004 = 27"
definition CHIPID_CNE001 :: u32 where "CHIPID_CNE001 = 28"

definition CBIOS_MONITOR_TYPE_CRT :: u32 where "CBIOS_MONITOR_TYPE_CRT = 0x01"
definition CBIOS_MONITOR_TYPE_PANEL :: u32 where "CBIOS_MONITOR_TYPE_PANEL = 0x08"
definition CBIOS_MONITOR_TYPE_DVI :: u32 where "CBIOS_MONITOR_TYPE_DVI = 0x10"
definition CBIOS_MONITOR_TYPE_HDMI :: u32 where "CBIOS_MONITOR_TYPE_HDMI = 0x20"
definition CBIOS_MONITOR_TYPE_DP :: u32 where "CBIOS_MONITOR_TYPE_DP = 0x40"
definition CBIOS_MONITOR_TYPE_MHL :: u32 where "CBIOS_MONITOR_TYPE_MHL = 0x80"

definition CBIOS_NON_CONN :: u8 where "CBIOS_NON_CONN = 0"
definition CBIOS_DP_CONN :: u8 where "CBIOS_DP_CONN = 4"
definition CBIOS_EDP_CONN :: u8 where "CBIOS_EDP_CONN = 5"

definition CBIOS_TYPE_CRT :: u32 where "CBIOS_TYPE_CRT = 0x01"
definition CBIOS_TYPE_DVO :: u32 where "CBIOS_TYPE_DVO = 0x20"
definition CBIOS_TYPE_DP1 :: u32 where "CBIOS_TYPE_DP1 = 0x8000"
definition CBIOS_TYPE_DP2 :: u32 where "CBIOS_TYPE_DP2 = 0x10000"
definition CBIOS_TYPE_DP3 :: u32 where "CBIOS_TYPE_DP3 = 0x20000"
definition CBIOS_TYPE_DP4 :: u32 where "CBIOS_TYPE_DP4 = 0x40000"

record cbios_board =
  ChipID :: u32
  SVID :: u32
  SSID :: u32
  SysBiosVersion :: u32
  Dp1PortConnType :: u8
  Dp2PortConnType :: u8
  Dp3PortConnType :: u8
  FBSize :: u8
  SnoopOnly :: bool
  ulMaxHDMIClock :: u32
  ulMaxMHLClock :: u32
  ulMaxIGAClock :: u32
  DPMaxSupportedDclk :: u32

record mode_filter =
  bFilterInterlace :: bool
  MaxDclk :: u32

definition monitor_clock :: "cbios_board \<Rightarrow> u32 \<Rightarrow> u32" where
  "monitor_clock b MonitorType =
     (if MonitorType = CBIOS_MONITOR_TYPE_DVI then 1650000
      else if MonitorType = CBIOS_MONITOR_TYPE_HDMI then ulMaxHDMIClock b
      else if MonitorType = CBIOS_MONITOR_TYPE_MHL then ulMaxMHLClock b
      else if MonitorType = CBIOS_MONITOR_TYPE_DP \<or> MonitorType = CBIOS_MONITOR_TYPE_PANEL then DPMaxSupportedDclk b
      else if MonitorType = CBIOS_MONITOR_TYPE_CRT then 4000000
      else 3300000)"

definition cbMode_GetFilterPara :: "cbios_board \<Rightarrow> u32 \<Rightarrow> u32 \<Rightarrow> mode_filter" where
  "cbMode_GetFilterPara b Device MonitorType =
     (let clk1 = monitor_clock b MonitorType;
          clk2 = (if SysBiosVersion b \<ge> 0x11 \<and>
                    (Device = CBIOS_TYPE_DP1 \<and> Dp1PortConnType b = CBIOS_DP_CONN \<or>
                     Device = CBIOS_TYPE_DP2 \<and> Dp2PortConnType b = CBIOS_DP_CONN \<or>
                     Device = CBIOS_TYPE_DP3 \<and> Dp3PortConnType b = CBIOS_DP_CONN) \<and>
                    MonitorType = CBIOS_MONITOR_TYPE_HDMI
                  then 3400000 else clk1);
          clk3 = (if clk2 > ulMaxIGAClock b then ulMaxIGAClock b else clk2);
          clk4 = (if SVID b = 0x17AA \<and> SSID b = 0x350B \<and> Device = CBIOS_TYPE_DP1 then 7000000 else clk3)
      in \<lparr> bFilterInterlace = True, MaxDclk = clk4 \<rparr>)"

text \<open>The largest mode for the memory of the board, in pixels, lines and hundredths of a Hertz.\<close>

definition max_mode :: "cbios_board \<Rightarrow> u32 \<Rightarrow> u32 \<Rightarrow> timing_attrib \<Rightarrow> u16 \<times> u16 \<times> u16" where
  "max_mode b Device MonitorType t =
     (let FbSize = push_bit (unat (FBSize b AND 0x0F)) (1 :: u32);
          own = (XRes t, YRes t, RefreshRate t)
      in if FbSize \<le> 64 then (if MonitorType \<noteq> CBIOS_MONITOR_TYPE_PANEL then (1920, 1080, 6000) else own)
         else if \<not> SnoopOnly b then
           (if SVID b = 0x8888 \<and> SSID b = 0x00ED \<and> Device = CBIOS_TYPE_DP2 \<and> MonitorType = CBIOS_MONITOR_TYPE_DP
            then (3840, 2160, 3000)
            else if MonitorType = CBIOS_MONITOR_TYPE_CRT then (2048, 1536, 8500)
            else if MonitorType = CBIOS_MONITOR_TYPE_DVI then (1920, 1200, 6000)
            else (4096, 2160, 6000))
         else if MonitorType \<noteq> CBIOS_MONITOR_TYPE_PANEL then
           (if FbSize \<ge> 2 * 1024 then (4096, 2160, 6000) else (1920, 1080, 6000))
         else own)"

definition cbMode_NeedFilterMode :: "cbios_board \<Rightarrow> device_timing \<Rightarrow> u32 \<Rightarrow> u32 \<Rightarrow> mode_filter \<Rightarrow> bool" where
  "cbMode_NeedFilterMode b pMode Device MonitorType f \<longleftrightarrow>
     (let t = FullTiming pMode
      in if bFilterInterlace f \<and> IsInterLaced pMode then True
         else if PixelClock t > MaxDclk f then True
         else if ChipID b \<ge> CHIPID_CHX004 then
           (case max_mode b Device MonitorType t of (MaxX, MaxY, MaxRR) \<Rightarrow>
              MaxX \<noteq> 0 \<and> MaxY \<noteq> 0 \<and> MaxRR \<noteq> 0 \<and>
              (XRes t > MaxX \<or> YRes t > MaxY \<or> XRes t = MaxX \<and> YRes t = MaxY \<and> RefreshRate t > MaxRR))
         else False)"

lemma filter_same_mode: "same_mode m1 m2 \<Longrightarrow>
    cbMode_NeedFilterMode b m1 Device mon f \<longleftrightarrow> cbMode_NeedFilterMode b m2 Device mon f"
  by (simp add: cbMode_NeedFilterMode_def same_mode_def max_mode_def Let_def)

section \<open>Making the list\<close>

definition merge_at :: "nat \<Rightarrow> device_timing list \<Rightarrow> device_timing list" where
  "merge_at k l = l[k := (l ! k)\<lparr> Merged := True \<rparr>]"

text \<open>One look at every timing: the index of the best that is not merged yet.\<close>

definition scan_step :: "nat \<Rightarrow> nat option \<times> device_timing list \<Rightarrow> nat option \<times> device_timing list" where
  "scan_step Index s =
     (case s of (pTiming, l) \<Rightarrow>
        if Merged (l ! Index) then (pTiming, l)
        else case pTiming of
               None \<Rightarrow> (Some Index, l)
             | Some j \<Rightarrow>
                 let Ret = cbMode_CompareMode (l ! Index) (l ! j)
                 in if Ret > 0 then (Some Index, l)
                    else if Ret = 0 then
                      (if IsPreferMode (l ! Index) then (Some Index, merge_at j l)
                       else (Some j, merge_at Index l))
                    else (Some j, l))"

definition scan_timings :: "device_timing list \<Rightarrow> nat option \<times> device_timing list" where
  "scan_timings l = fold scan_step [0..<length l] (None, l)"

definition mode_of_timing :: "bool \<Rightarrow> device_timing \<Rightarrow> mode_info" where
  "mode_of_timing preferred m =
     (let t = FullTiming m
      in \<lparr> md_Size = 0, md_XRes = ucast (XRes t), md_YRes = ucast (YRes t), md_RefreshRate = ucast (RefreshRate t),
           md_ColorDepthCaps = 0xFB, md_XTotal = ucast (HorTotal t), md_YTotal = ucast (VerTotal t),
           md_PixelClock = PixelClock t, md_isPreferredMode = preferred, md_isInterlaceMode = IsInterLaced m \<rparr>)"

definition unmerged :: "device_timing list \<Rightarrow> nat set" where
  "unmerged l = {k. k < length l \<and> \<not> Merged (l ! k)}"

text \<open>What the making of a list depends on, beside the timings.\<close>

record mode_env =
  me_board :: cbios_board
  me_device :: u32
  me_monitor :: u32
  me_cea861 :: bool
  me_pool :: "nat \<Rightarrow> bool"

definition filtered :: "mode_env \<Rightarrow> device_timing \<Rightarrow> bool" where
  "filtered e m = cbMode_NeedFilterMode (me_board e) m (me_device e) (me_monitor e)
     (cbMode_GetFilterPara (me_board e) (me_device e) (me_monitor e))"

text \<open>What is done with the best timing; the flag is \<^verbatim>\<open>bHasPrefer\<close>.\<close>

definition take_mode :: "mode_env \<Rightarrow> nat \<Rightarrow> device_timing \<Rightarrow> mode_list \<times> bool \<Rightarrow> mode_list \<times> bool" where
  "take_mode e n m s =
     (case s of (st, bHasPrefer) \<Rightarrow>
        if filtered e m then (st, bHasPrefer)
        else let preferred = (IsPreferMode m \<and> \<not> bHasPrefer)
             in (snd (cbMode_AddDeviceMode (me_pool e) n (me_cea861 e) st (mode_of_timing preferred m) m),
                 bHasPrefer \<or> preferred))"

text \<open>Merging changes no timing.\<close>

definition clear :: "device_timing \<Rightarrow> device_timing" where
  "clear m = m\<lparr> Merged := False \<rparr>"

lemma clear_simps [simp]:
  "FullTiming (clear m) = FullTiming m" "IsPreferMode (clear m) = IsPreferMode m"
  "IsInterLaced (clear m) = IsInterLaced m" "clear (m\<lparr> Merged := b \<rparr>) = clear m"
  "same_mode (clear m) m' = same_mode m m'" "same_mode m (clear m') = same_mode m m'" "mode_rank (clear m) = mode_rank m"
  by (simp_all add: clear_def same_mode_def mode_rank_def)

lemma merge_at_simps [simp]:
  "length (merge_at k l) = length l" "unmerged (merge_at k l) = unmerged l - {k}" "map clear (merge_at k l) = map clear l"
proof -
  show "length (merge_at k l) = length l" by (simp add: merge_at_def)
  show "unmerged (merge_at k l) = unmerged l - {k}"
    by (cases "k < length l") (auto simp: merge_at_def unmerged_def nth_list_update)
  show "map clear (merge_at k l) = map clear l"
  proof (rule nth_equalityI)
    fix i assume "i < length (map clear (merge_at k l))"
    then show "map clear (merge_at k l) ! i = map clear l ! i" by (cases "k = i") (simp_all add: merge_at_def)
  qed (simp add: merge_at_def)
qed

lemma same_mode_equiv:
  "same_mode a a" "same_mode a b \<Longrightarrow> same_mode b a" "same_mode a b \<Longrightarrow> same_mode b c \<Longrightarrow> same_mode a c"
  by (auto simp: same_mode_def)

text \<open>
  The state of a scan behind \<open>i\<close> timings: nothing changes but marks, what was marked is the same mode as
  something that is not, and the best is as large as every other.
\<close>

definition scan_inv :: "device_timing list \<Rightarrow> nat \<Rightarrow> nat option \<times> device_timing list \<Rightarrow> bool" where
  "scan_inv l0 i s \<longleftrightarrow>
     (case s of (p, l) \<Rightarrow> map clear l = map clear l0 \<and> unmerged l \<subseteq> unmerged l0 \<and>
        (\<forall>k \<in> unmerged l0 - unmerged l. \<exists>u \<in> unmerged l. same_mode (l0 ! u) (l0 ! k)) \<and>
        (\<forall>k \<in> unmerged l. k < i \<longrightarrow> (\<exists>j. p = Some j \<and> mode_rank (l0 ! k) \<le> mode_rank (l0 ! j))) \<and>
        (\<forall>j. p = Some j \<longrightarrow> j \<in> unmerged l \<and> j < i))"

lemma scan_invI:
  assumes "map clear l = map clear l0" "unmerged l \<subseteq> unmerged l0"
    "\<And>k. k \<in> unmerged l0 - unmerged l \<Longrightarrow> \<exists>u \<in> unmerged l. same_mode (l0 ! u) (l0 ! k)"
    "j \<in> unmerged l" "j < i" "\<And>k. k \<in> unmerged l \<Longrightarrow> k < i \<Longrightarrow> mode_rank (l0 ! k) \<le> mode_rank (l0 ! j)"
  shows "scan_inv l0 i (Some j, l)"
  using assms by (auto simp: scan_inv_def)

lemma clear_nth: "map clear l = map clear l0 \<Longrightarrow> k < length l0 \<Longrightarrow> clear (l ! k) = clear (l0 ! k)"
  by (metis length_map nth_map)

lemma compare_clear:
  assumes "clear m1 = clear m1'" "clear m2 = clear m2'"
  shows "cbMode_CompareMode m1 m2 = cbMode_CompareMode m1' m2'"
proof -
  have "FullTiming m = FullTiming m' \<and> IsPreferMode m = IsPreferMode m' \<and> IsInterLaced m = IsInterLaced m'"
    if "clear m = clear m'" for m m' by (metis that clear_simps(1-3))
  from this [OF assms(1)] this [OF assms(2)] show ?thesis by (simp add: cbMode_CompareMode_def)
qed

text \<open>Marking \<open>a\<close>, which is the same mode as \<open>b\<close>.\<close>

lemma mark_covered:
  assumes cov: "\<And>k. k \<in> U0 - U \<Longrightarrow> \<exists>u \<in> U. same_mode (l0 ! u) (l0 ! k)"
    and ab: "b \<in> U" "a \<noteq> b" "same_mode (l0 ! b) (l0 ! a)" and k: "k \<in> U0 - (U - {a})"
  shows "\<exists>u \<in> U - {a}. same_mode (l0 ! u) (l0 ! k)"
proof (cases "k = a")
  case True
  then show ?thesis using ab by auto
next
  case False
  then obtain u where u: "u \<in> U" "same_mode (l0 ! u) (l0 ! k)" using cov k by blast
  show ?thesis
  proof (cases "u = a")
    case True
    then have "same_mode (l0 ! b) (l0 ! k)" using same_mode_equiv(3) [OF ab(3)] u(2) by simp
    then show ?thesis using ab by auto
  qed (use u in auto)
qed

lemma scan_step_inv:
  assumes inv: "scan_inv l0 i s" and i: "i < length l0"
  shows "scan_inv l0 (Suc i) (scan_step i s)"
proof -
  obtain p l where s: "s = (p, l)" by (cases s)
  have l: "map clear l = map clear l0" "unmerged l \<subseteq> unmerged l0"
    "\<And>k. k \<in> unmerged l0 - unmerged l \<Longrightarrow> \<exists>u \<in> unmerged l. same_mode (l0 ! u) (l0 ! k)"
    "\<And>k. k \<in> unmerged l \<Longrightarrow> k < i \<Longrightarrow> \<exists>j. p = Some j \<and> mode_rank (l0 ! k) \<le> mode_rank (l0 ! j)"
    "\<And>j. p = Some j \<Longrightarrow> j \<in> unmerged l \<and> j < i"
    using inv by (auto simp: scan_inv_def s)
  have len: "length l = length l0" using l(1) by (metis length_map)
  show ?thesis
  proof (cases "Merged (l ! i)")
    case True
    then have "i \<notin> unmerged l" by (simp add: unmerged_def)
    then show ?thesis using inv True unfolding scan_inv_def s scan_step_def by (auto simp: less_Suc_eq)
  next
    case False
    then have ui: "i \<in> unmerged l" using i len by (simp add: unmerged_def)
    show ?thesis
    proof (cases p)
      case None
      then show ?thesis using False l ui unfolding scan_inv_def s scan_step_def by (fastforce simp: less_Suc_eq)
    next
      case (Some j)
      have j: "j \<in> unmerged l" "j < i" using l(5) [OF Some] by simp_all
      define Ret where "Ret = cbMode_CompareMode (l ! i) (l ! j)"
      have Ret: "Ret = cbMode_CompareMode (l0 ! i) (l0 ! j)"
        unfolding Ret_def using i j len by (intro compare_clear clear_nth [OF l(1)]) (auto simp: unmerged_def)
      have rank: "Ret \<ge> 0 \<Longrightarrow> mode_rank (l0 ! j) \<le> mode_rank (l0 ! i)" "Ret \<le> 0 \<Longrightarrow> mode_rank (l0 ! i) \<le> mode_rank (l0 ! j)"
        using compare_rank [of "l0 ! i" "l0 ! j"] compare_rank [of "l0 ! j" "l0 ! i"] compare_antisym [of "l0 ! j" "l0 ! i"]
        by (simp_all add: Ret)
      have le_j: "\<And>k. k \<in> unmerged l \<Longrightarrow> k < i \<Longrightarrow> mode_rank (l0 ! k) \<le> mode_rank (l0 ! j)" using l(4) Some by auto
      have step: "scan_step i s = (if Ret > 0 then (Some i, l)
          else if Ret = 0 then (if IsPreferMode (l ! i) then (Some i, merge_at j l) else (Some j, merge_at i l))
          else (Some j, l))"
        by (simp add: scan_step_def s False Some Ret_def Let_def)
      consider "Ret > 0" | "Ret = 0" "IsPreferMode (l ! i)" | "Ret = 0" "\<not> IsPreferMode (l ! i)" | "Ret < 0" by linarith
      then show ?thesis
      proof cases
        case 1
        have "scan_inv l0 (Suc i) (Some i, l)"
        proof (rule scan_invI [OF l(1-3) ui])
          show "mode_rank (l0 ! k) \<le> mode_rank (l0 ! i)" if "k \<in> unmerged l" "k < Suc i" for k
            using that le_j [of k] rank(1) 1 by (cases "k = i") auto
        qed simp_all
        then show ?thesis using 1 by (simp add: step)
      next
        case 2
        then have same: "same_mode (l0 ! i) (l0 ! j)" using compare_zero Ret by simp
        have "scan_inv l0 (Suc i) (Some i, merge_at j l)"
        proof (rule scan_invI)
          show "\<exists>u \<in> unmerged (merge_at j l). same_mode (l0 ! u) (l0 ! k)" if "k \<in> unmerged l0 - unmerged (merge_at j l)" for k
            unfolding merge_at_simps by (rule mark_covered [OF l(3) ui _ same]) (use that j(2) in auto)
          show "mode_rank (l0 ! k) \<le> mode_rank (l0 ! i)" if "k \<in> unmerged (merge_at j l)" "k < Suc i" for k
            using that le_j [of k] rank(1) 2 by (cases "k = i") auto
        qed (use l(1,2) ui j(2) in auto)
        then show ?thesis using 2 by (simp add: step)
      next
        case 3
        then have same: "same_mode (l0 ! j) (l0 ! i)" using compare_zero Ret same_mode_equiv(2) by simp
        have "scan_inv l0 (Suc i) (Some j, merge_at i l)"
        proof (rule scan_invI)
          show "\<exists>u \<in> unmerged (merge_at i l). same_mode (l0 ! u) (l0 ! k)" if "k \<in> unmerged l0 - unmerged (merge_at i l)" for k
            unfolding merge_at_simps by (rule mark_covered [OF l(3) j(1) _ same]) (use that j(2) in auto)
          show "mode_rank (l0 ! k) \<le> mode_rank (l0 ! j)" if "k \<in> unmerged (merge_at i l)" "k < Suc i" for k
            using that le_j [of k] by auto
        qed (use l(1,2) j in auto)
        then show ?thesis using 3 by (simp add: step)
      next
        case 4
        have "scan_inv l0 (Suc i) (Some j, l)"
        proof (rule scan_invI [OF l(1-3) j(1)])
          show "mode_rank (l0 ! k) \<le> mode_rank (l0 ! j)" if "k \<in> unmerged l" "k < Suc i" for k
            using that le_j [of k] rank(2) 4 by (cases "k = i") auto
        qed (simp_all add: j(2) less_SucI)
        then show ?thesis using 4 by (simp add: step)
      qed
    qed
  qed
qed

lemma scan_timings_inv: "scan_inv l (length l) (scan_timings l)"
proof -
  have "scan_inv l i (fold scan_step [0..<i] (None, l))" if "i \<le> length l" for i
    using that
  proof (induction i)
    case 0
    then show ?case by (auto simp: scan_inv_def)
  next
    case (Suc i)
    then show ?case using scan_step_inv [of l i] by simp
  qed
  then show ?thesis by (simp add: scan_timings_def)
qed

text \<open>One round: nothing is left, or the best is taken.\<close>

lemma scan_timings_cases:
  obtains (empty) "scan_timings l = (None, l)" "unmerged l = {}"
  | (best) j l' where "scan_timings l = (Some j, l')" "map clear l' = map clear l" "j \<in> unmerged l'"
      "unmerged l' \<subseteq> unmerged l" "\<And>k. k \<in> unmerged l' \<Longrightarrow> mode_rank (l ! k) \<le> mode_rank (l ! j)"
      "\<And>k. k \<in> unmerged l \<Longrightarrow> \<exists>u \<in> unmerged l'. same_mode (l ! u) (l ! k)"
proof -
  obtain p l' where s: "scan_timings l = (p, l')" by (cases "scan_timings l")
  have inv: "scan_inv l (length l) (p, l')" using scan_timings_inv [of l] by (simp add: s)
  have f: "map clear l' = map clear l" "unmerged l' \<subseteq> unmerged l"
    "\<And>k. k \<in> unmerged l' \<Longrightarrow> k < length l \<Longrightarrow> \<exists>j. p = Some j \<and> mode_rank (l ! k) \<le> mode_rank (l ! j)"
    "\<And>j. p = Some j \<Longrightarrow> j \<in> unmerged l'"
    using inv by (simp_all add: scan_inv_def)
  have len: "length l' = length l" using f(1) by (metis length_map)
  have lt: "k < length l" if "k \<in> unmerged l'" for k using that len by (simp add: unmerged_def)
  have all: "\<exists>u \<in> unmerged l'. same_mode (l ! u) (l ! k)" if "k \<in> unmerged l" for k
  proof (cases "k \<in> unmerged l'")
    case True
    then show ?thesis using same_mode_equiv(1) by blast
  next
    case False
    then show ?thesis using that inv by (simp add: scan_inv_def)
  qed
  show ?thesis
  proof (cases p)
    case None
    have "unmerged l' = {}" using f(3) lt None by fastforce
    then have e: "unmerged l = {}" using all by blast
    then have "Merged (l ! i)" if "i < length l" for i using that by (auto simp: unmerged_def)
    then have "fold scan_step [0..<i] (None, l) = (None, l)" if "i \<le> length l" for i
      using that by (induction i) (simp_all add: scan_step_def)
    then show ?thesis using empty e by (simp add: scan_timings_def)
  next
    case (Some j)
    show ?thesis
    proof (rule best [OF s [unfolded Some] f(1) f(4) [OF Some] f(2) _ all])
      show "mode_rank (l ! k) \<le> mode_rank (l ! j)" if "k \<in> unmerged l'" for k
        using f(3) [OF that lt [OF that]] Some by simp
    qed
  qed
qed

text \<open>The rounds, until every timing is merged or taken.\<close>

lemma round_smaller:
  assumes "scan_timings l = (Some j, l')"
  shows "card (unmerged (merge_at j l')) < card (unmerged l)"
  using assms
proof (cases l rule: scan_timings_cases)
  case (best j' l'')
  have "finite (unmerged l)" by (simp add: unmerged_def)
  then show ?thesis using assms best(1,3,4) by (intro psubset_card_mono) auto
qed simp

function make_modes :: "mode_env \<Rightarrow> nat \<Rightarrow> device_timing list \<Rightarrow> mode_list \<times> bool \<Rightarrow> mode_list \<times> bool" where
  "make_modes e n l s =
     (case scan_timings l of
        (None, l') \<Rightarrow> s
      | (Some j, l') \<Rightarrow> make_modes e n (merge_at j l') (take_mode e n (l' ! j) s))"
  by pat_completeness auto
termination
  by (relation "measure (\<lambda>(e, n, l, s). card (unmerged l))") (auto dest: round_smaller [OF sym])

declare make_modes.simps [simp del]

definition prefer_first :: "mode_list \<Rightarrow> mode_list" where
  "prefer_first st =
     (case pDeviceModeList st of
        Some (m # ms) \<Rightarrow> st\<lparr> pDeviceModeList := Some (m\<lparr> md_isPreferredMode := True \<rparr> # ms) \<rparr>
      | _ \<Rightarrow> st)"

definition cbMode_MakeDeviceModeList :: "mode_env \<Rightarrow> device_timing list \<Rightarrow> mode_list \<Rightarrow> mode_list" where
  "cbMode_MakeDeviceModeList e ts st =
     (let st0 = st\<lparr> pDeviceModeList := None, ModeListArraySize := 0 \<rparr>
      in if ts = [] then st0
         else case make_modes e (length ts) (map (\<lambda>m. m\<lparr> Merged := False \<rparr>) ts) (st0, False) of (st1, bHasPrefer) \<Rightarrow>
                if \<not> bHasPrefer then prefer_first st1 else st1)"

section \<open>What a list offers\<close>

text \<open>A mode offers a timing as it is, or its equivalent; whether it is preferred aside.\<close>

definition offers :: "mode_env \<Rightarrow> device_timing \<Rightarrow> mode_info \<Rightarrow> bool" where
  "offers e t m \<longleftrightarrow> (\<exists>p. m = mode_of_timing p t \<or>
     (me_cea861 e \<and> FormatVIC (FullTiming t) \<noteq> 0 \<and>
      (\<exists>r c. cbEdidModule_IsEquivalentModeExist (FormatVIC (FullTiming t)) = Some (r, c) \<and>
         m = (mode_of_timing p t)\<lparr> md_RefreshRate := r, md_PixelClock := c \<rparr>)))"

text \<open>Size, clock and scan of a mode are those of a timing.\<close>

definition shows_timing :: "mode_info \<Rightarrow> device_timing \<Rightarrow> bool" where
  "shows_timing m t \<longleftrightarrow> md_XRes m = ucast (XRes (FullTiming t)) \<and> md_YRes m = ucast (YRes (FullTiming t)) \<and>
     md_PixelClock m = PixelClock (FullTiming t) \<and> md_isInterlaceMode m = IsInterLaced t"

definition mode_size :: "mode_info \<Rightarrow> nat" where
  "mode_size m = unat (md_XRes m) * 2 ^ 16 + unat (md_YRes m)"

definition preferred_modes :: "mode_info list \<Rightarrow> nat" where
  "preferred_modes ms = length (filter md_isPreferredMode ms)"

text \<open>A step of adding: what is recorded stays, what comes behind it is new.\<close>

definition adds :: "mode_info set \<Rightarrow> mode_list \<Rightarrow> mode_list \<Rightarrow> bool" where
  "adds M st st' \<longleftrightarrow> (\<exists>xs. modes st' = modes st @ xs \<and> set xs \<subseteq> M \<and>
     (distinct (map mode_key (modes st)) \<longrightarrow> distinct (map mode_key (modes st'))))"

definition room_ok :: "mode_list \<Rightarrow> bool" where
  "room_ok st \<longleftrightarrow> length (modes st) \<le> ModeListArraySize st"

definition has_key :: "mode_list \<Rightarrow> mode_info \<Rightarrow> bool" where
  "has_key st m \<longleftrightarrow> (\<exists>m' \<in> set (modes st). mode_key m' = mode_key m)"

lemma adds_trans: "adds M st st1 \<Longrightarrow> adds M st1 st2 \<Longrightarrow> adds M st st2"
  unfolding adds_def by fastforce

lemma adds_mono: "adds M st st1 \<Longrightarrow> M \<subseteq> M' \<Longrightarrow> adds M' st st1"
  unfolding adds_def by blast

lemma adds_has_key: "adds M st st1 \<Longrightarrow> has_key st m \<Longrightarrow> has_key st1 m"
  unfolding adds_def has_key_def by fastforce

lemma cbMode_AddMode_adds:
  assumes "cbMode_AddMode pool n st m = (b, st')" "room_ok st"
  shows "adds {m} st st'" "room_ok st'" "(\<And>k. pool k) \<Longrightarrow> 2 \<le> n \<Longrightarrow> has_key st' m"
proof -
  define st1 where "st1 = create_array pool n st"
  have 1: "modes st1 = modes st" "room_ok st1" "(\<And>k. pool k) \<Longrightarrow> pDeviceModeList st1 \<noteq> None"
    "pDeviceModeList st = None \<Longrightarrow> pDeviceModeList st1 \<noteq> None \<Longrightarrow> ModeListArraySize st1 = n"
    using assms(2) by (auto simp: st1_def create_array_def request_def modes_def room_ok_def)
  define st2 where "st2 = enlarge_array pool n st1"
  have 2: "modes st2 = modes st1" "room_ok st2" "pDeviceModeList st2 = pDeviceModeList st1"
    "(\<And>k. pool k) \<Longrightarrow> pDeviceModeList st1 \<noteq> None \<Longrightarrow> 2 \<le> n \<Longrightarrow> length (modes st2) < ModeListArraySize st2"
    using 1(2) by (auto simp: st2_def enlarge_array_def request_def modes_def room_ok_def)
  show "adds {m} st st'" "room_ok st'" "(\<And>k. pool k) \<Longrightarrow> 2 \<le> n \<Longrightarrow> has_key st' m"
    using assms 1 2 unfolding cbMode_AddMode_def Let_def st1_def [symmetric] st2_def [symmetric]
    by (auto simp: adds_def room_ok_def has_key_def modes_def split: if_splits option.splits) blast
qed

text \<open>What one timing adds.\<close>

definition timing_modes :: "mode_env \<Rightarrow> bool \<Rightarrow> device_timing \<Rightarrow> mode_info set" where
  "timing_modes e p t = insert (mode_of_timing p t)
     {m. me_cea861 e \<and> FormatVIC (FullTiming t) \<noteq> 0 \<and>
       (\<exists>r c. cbEdidModule_IsEquivalentModeExist (FormatVIC (FullTiming t)) = Some (r, c) \<and>
         m = (mode_of_timing p t)\<lparr> md_RefreshRate := r, md_PixelClock := c, md_isPreferredMode := False \<rparr>)}"

lemma cbMode_AddDeviceMode_adds:
  assumes run: "cbMode_AddDeviceMode (me_pool e) n (me_cea861 e) st (mode_of_timing p t) t = (b, st')" and room: "room_ok st"
  shows "adds (timing_modes e p t) st st'" "room_ok st'"
    "(\<And>k. me_pool e k) \<Longrightarrow> 2 \<le> n \<Longrightarrow> has_key st' (mode_of_timing p t)"
proof -
  let ?m = "mode_of_timing p t"
  define vic where "vic = FormatVIC (FullTiming t)"
  define q where "q = (if me_cea861 e \<and> vic \<noteq> 0 then cbEdidModule_IsEquivalentModeExist vic else None)"
  have m: "{?m} \<subseteq> timing_modes e p t" by (simp add: timing_modes_def)
  have "adds (timing_modes e p t) st st' \<and> room_ok st' \<and> ((\<forall>k. me_pool e k) \<longrightarrow> 2 \<le> n \<longrightarrow> has_key st' ?m)"
  proof (cases q)
    case None
    then have "cbMode_AddMode (me_pool e) n st ?m = (b, st')"
      using run by (simp add: cbMode_AddDeviceMode_def Let_def vic_def [symmetric] q_def [symmetric])
    from cbMode_AddMode_adds [OF this room] show ?thesis using adds_mono [OF _ m] by blast
  next
    case (Some rc)
    obtain r c where rc: "rc = (r, c)" by (cases rc)
    define eq where "eq = ?m\<lparr> md_RefreshRate := r, md_PixelClock := c, md_isPreferredMode := False \<rparr>"
    have eq: "{eq} \<subseteq> timing_modes e p t"
      using Some by (simp add: timing_modes_def eq_def rc q_def vic_def split: if_splits)
    have two: "adds (timing_modes e p t) st st2 \<and> room_ok st2 \<and> ((\<forall>k. me_pool e k) \<longrightarrow> 2 \<le> n \<longrightarrow> has_key st2 ?m)"
      if "cbMode_AddMode (me_pool e) n st m1 = (b1, st1)" "cbMode_AddMode (me_pool e) n st1 m2 = (b2, st2)"
        "m1 = ?m \<and> m2 = eq \<or> m1 = eq \<and> m2 = ?m" for m1 m2 b1 b2 st1 st2
    proof -
      note s1 = cbMode_AddMode_adds [OF that(1) room]
      note s2 = cbMode_AddMode_adds [OF that(2) s1(2)]
      have sub: "{m1} \<subseteq> timing_modes e p t" "{m2} \<subseteq> timing_modes e p t" using m eq that(3) by auto
      have "adds (timing_modes e p t) st st2"
        by (rule adds_trans [OF adds_mono [OF s1(1) sub(1)] adds_mono [OF s2(1) sub(2)]])
      moreover have "has_key st2 ?m" if "\<forall>k. me_pool e k" "2 \<le> n"
        using s1(3) s2(3) adds_has_key [OF s2(1)] \<open>m1 = ?m \<and> m2 = eq \<or> m1 = eq \<and> m2 = ?m\<close> that by auto
      ultimately show ?thesis using s2(2) by blast
    qed
    obtain b1 st1 b2 st2 where r1: "cbMode_AddMode (me_pool e) n st ?m = (b1, st1)" "cbMode_AddMode (me_pool e) n st1 eq = (b2, st2)"
      by (cases "cbMode_AddMode (me_pool e) n st ?m", cases "cbMode_AddMode (me_pool e) n (snd (cbMode_AddMode (me_pool e) n st ?m)) eq") auto
    obtain b3 st3 b4 st4 where r2: "cbMode_AddMode (me_pool e) n st eq = (b3, st3)" "cbMode_AddMode (me_pool e) n st3 ?m = (b4, st4)"
      by (cases "cbMode_AddMode (me_pool e) n st eq", cases "cbMode_AddMode (me_pool e) n (snd (cbMode_AddMode (me_pool e) n st eq)) ?m") auto
    have "st' = st2 \<or> st' = st4"
      using run Some rc r1 r2
      by (auto simp: cbMode_AddDeviceMode_def Let_def vic_def [symmetric] q_def [symmetric] eq_def [symmetric] split: if_splits)
    then show ?thesis using two [OF r1] two [OF r2] by auto
  qed
  then show "adds (timing_modes e p t) st st'" "room_ok st'"
    "(\<And>k. me_pool e k) \<Longrightarrow> 2 \<le> n \<Longrightarrow> has_key st' (mode_of_timing p t)" by auto
qed

text \<open>Every mode of a timing has the size of the timing.\<close>

lemma timing_modes_size:
  assumes "m \<in> timing_modes e p t"
  shows "offers e t m" "mode_size m = mode_rank t div 2 ^ 16" "md_isPreferredMode m \<Longrightarrow> p"
proof -
  have r: "mode_rank t div 2 ^ 16 = unat (XRes (FullTiming t)) * 2 ^ 16 + unat (YRes (FullTiming t))"
  proof -
    have "unat (RefreshRate (FullTiming t)) < 2 ^ 16" using unsigned_less [of "RefreshRate (FullTiming t)"] by simp
    then show ?thesis unfolding mode_rank_def by (subst div_mult_self3) simp_all
  qed
  show "mode_size m = mode_rank t div 2 ^ 16"
    unfolding r using assms by (auto simp: timing_modes_def mode_size_def mode_of_timing_def Let_def unsigned_ucast_eq take_bit_nat_eq_self)
  show "offers e t m"
    using assms unfolding timing_modes_def offers_def
  proof (elim insertE CollectE conjE exE)
    fix r c assume "me_cea861 e" "FormatVIC (FullTiming t) \<noteq> 0"
      "cbEdidModule_IsEquivalentModeExist (FormatVIC (FullTiming t)) = Some (r, c)"
      "m = (mode_of_timing p t)\<lparr> md_RefreshRate := r, md_PixelClock := c, md_isPreferredMode := False \<rparr>"
    moreover have "(mode_of_timing p t)\<lparr> md_RefreshRate := r, md_PixelClock := c, md_isPreferredMode := False \<rparr> =
        (mode_of_timing False t)\<lparr> md_RefreshRate := r, md_PixelClock := c \<rparr>"
      by (simp add: mode_of_timing_def Let_def)
    ultimately show "\<exists>p. m = mode_of_timing p t \<or> me_cea861 e \<and> FormatVIC (FullTiming t) \<noteq> 0 \<and>
        (\<exists>r c. cbEdidModule_IsEquivalentModeExist (FormatVIC (FullTiming t)) = Some (r, c) \<and>
          m = (mode_of_timing p t)\<lparr> md_RefreshRate := r, md_PixelClock := c \<rparr>)" by blast
  qed auto
  show "md_isPreferredMode m \<Longrightarrow> p" using assms by (auto simp: timing_modes_def mode_of_timing_def Let_def)
qed

lemma clear_eq:
  assumes "clear a = clear b"
  shows "FullTiming a = FullTiming b" "IsPreferMode a = IsPreferMode b" "IsInterLaced a = IsInterLaced b"
    "mode_of_timing p a = mode_of_timing p b" "filtered e a = filtered e b" "take_mode e n a s = take_mode e n b s"
proof -
  show f: "FullTiming a = FullTiming b" "IsPreferMode a = IsPreferMode b" "IsInterLaced a = IsInterLaced b"
    by (metis assms clear_simps(1-3))+
  show m: "mode_of_timing p a = mode_of_timing p b" for p by (simp add: mode_of_timing_def f)
  show "filtered e a = filtered e b"
    unfolding filtered_def by (rule filter_same_mode) (simp add: same_mode_def f)
  then show "take_mode e n a s = take_mode e n b s"
    by (simp add: take_mode_def f m cbMode_AddDeviceMode_def split: prod.split)
qed

section \<open>The invariant of the rounds\<close>

definition list_inv :: "mode_env \<Rightarrow> device_timing list \<Rightarrow> device_timing list \<Rightarrow> mode_list \<times> bool \<Rightarrow> bool" where
  "list_inv e ts l s \<longleftrightarrow>
     (case s of (st, bHasPrefer) \<Rightarrow>
        map clear l = map clear ts \<and> room_ok st \<and> distinct (map mode_key (modes st)) \<and>
        (\<forall>m \<in> set (modes st). \<exists>t \<in> set ts. \<not> filtered e t \<and> offers e t m) \<and>
        sorted_wrt (\<lambda>a b. mode_size b \<le> mode_size a) (modes st) \<and>
        (\<forall>m \<in> set (modes st). \<forall>u \<in> unmerged l. mode_rank (ts ! u) div 2 ^ 16 \<le> mode_size m) \<and>
        preferred_modes (modes st) \<le> of_bool bHasPrefer)"

definition served_inv :: "mode_env \<Rightarrow> device_timing list \<Rightarrow> device_timing list \<Rightarrow> mode_list \<Rightarrow> bool" where
  "served_inv e ts l st \<longleftrightarrow>
     (\<forall>k < length ts. filtered e (ts ! k) \<or> (\<exists>m \<in> set (modes st). shows_timing m (ts ! k)) \<or>
        (\<exists>u \<in> unmerged l. same_mode (ts ! u) (ts ! k)))"

lemma distinct_preferred:
  assumes "distinct (map mode_key ms)" "\<And>m. m \<in> set ms \<Longrightarrow> md_isPreferredMode m \<Longrightarrow> mode_key m = k"
  shows "preferred_modes ms \<le> 1"
  using assms
proof (induction ms)
  case (Cons m ms)
  show ?case
  proof (cases "md_isPreferredMode m")
    case True
    then have "\<not> md_isPreferredMode m'" if "m' \<in> set ms" for m'
      using that Cons.prems(1) Cons.prems(2) [of m] Cons.prems(2) [of m'] by (metis distinct.simps(2) image_eqI list.set_intros(1,2) list.simps(9) set_map)
    then show ?thesis by (simp add: preferred_modes_def filter_False)
  next
    case False
    then show ?thesis using Cons by (simp add: preferred_modes_def)
  qed
qed (simp add: preferred_modes_def)

text \<open>Taking the best timing.\<close>

lemma take_mode_spec:
  assumes st: "room_ok st" "distinct (map mode_key (modes st))" and run: "take_mode e n t (st, has) = (st', has')"
  obtains xs where "modes st' = modes st @ xs" "distinct (map mode_key (modes st'))" "room_ok st'"
    "xs \<noteq> [] \<Longrightarrow> \<not> filtered e t" "\<And>m. m \<in> set xs \<Longrightarrow> offers e t m \<and> mode_size m = mode_rank t div 2 ^ 16"
    "preferred_modes xs \<le> of_bool (has' \<and> \<not> has)" "has \<longrightarrow> has'"
    "\<forall>k. me_pool e k \<Longrightarrow> 2 \<le> n \<Longrightarrow> \<not> filtered e t \<Longrightarrow> \<exists>m \<in> set (modes st'). shows_timing m t"
    "has' \<and> \<not> has \<Longrightarrow> IsPreferMode t \<and> \<not> filtered e t"
proof (cases "filtered e t")
  case True
  then show ?thesis using st run by (intro that [of "[]"]) (simp_all add: take_mode_def preferred_modes_def)
next
  case False
  define p where "p = (IsPreferMode t \<and> \<not> has)"
  obtain b where add: "cbMode_AddDeviceMode (me_pool e) n (me_cea861 e) st (mode_of_timing p t) t = (b, st')"
    and has': "has' = (has \<or> p)"
    using run False by (cases "cbMode_AddDeviceMode (me_pool e) n (me_cea861 e) st (mode_of_timing p t) t")
      (simp add: take_mode_def Let_def p_def)
  note a = cbMode_AddDeviceMode_adds [OF add st(1)]
  obtain xs where xs: "modes st' = modes st @ xs" "set xs \<subseteq> timing_modes e p t" "distinct (map mode_key (modes st'))"
    using a(1) st(2) unfolding adds_def by blast
  have pref: "preferred_modes xs \<le> of_bool p"
  proof (cases p)
    case True
    have "mode_key m = mode_key (mode_of_timing p t)" if "m \<in> set xs" "md_isPreferredMode m" for m
      using that xs(2) by (auto simp: timing_modes_def)
    then show ?thesis using True distinct_preferred [of xs] xs(1,3) by auto
  next
    case False
    then have "\<not> md_isPreferredMode m" if "m \<in> set xs" for m using that xs(2) timing_modes_size(3) by blast
    then show ?thesis by (simp add: preferred_modes_def filter_False)
  qed
  show ?thesis
  proof (rule that [OF xs(1,3) a(2)])
    show "preferred_modes xs \<le> of_bool (has' \<and> \<not> has)" using pref by (cases has; cases "IsPreferMode t") (simp_all add: has' p_def)
    show "\<exists>m \<in> set (modes st'). shows_timing m t" if pool: "\<forall>k. me_pool e k" "2 \<le> n"
    proof -
      obtain m where "m \<in> set (modes st')" "mode_key m = mode_key (mode_of_timing p t)"
        using a(3) [OF spec [OF pool(1)] pool(2)] unfolding has_key_def by blast
      then show ?thesis
        by (intro bexI [of _ m]) (auto simp: mode_key_def shows_timing_def mode_of_timing_def Let_def)
    qed
    show "offers e t m \<and> mode_size m = mode_rank t div 2 ^ 16" if "m \<in> set xs" for m
      using timing_modes_size(1,2) that xs(2) by blast
  qed (use False has' in \<open>auto simp: p_def\<close>)
qed

lemma preferred_modes_append: "preferred_modes (ms @ xs) = preferred_modes ms + preferred_modes xs"
  by (simp add: preferred_modes_def)

lemma list_inv_step:
  assumes inv: "list_inv e ts l (st, has)" and scan: "scan_timings l = (Some j, l')"
    and run: "take_mode e n (l' ! j) (st, has) = (st', has')"
  shows "list_inv e ts (merge_at j l') (st', has')"
    "\<forall>k. me_pool e k \<Longrightarrow> 2 \<le> n \<Longrightarrow> served_inv e ts l st \<Longrightarrow> served_inv e ts (merge_at j l') st'"
    "has' \<and> \<not> has \<Longrightarrow> \<exists>t \<in> set ts. IsPreferMode t \<and> \<not> filtered e t"
proof -
  have i: "map clear l = map clear ts" "room_ok st" "distinct (map mode_key (modes st))"
    "\<And>m. m \<in> set (modes st) \<Longrightarrow> \<exists>t \<in> set ts. \<not> filtered e t \<and> offers e t m"
    "sorted_wrt (\<lambda>a b. mode_size b \<le> mode_size a) (modes st)"
    "\<And>m u. m \<in> set (modes st) \<Longrightarrow> u \<in> unmerged l \<Longrightarrow> mode_rank (ts ! u) div 2 ^ 16 \<le> mode_size m"
    "preferred_modes (modes st) \<le> of_bool has"
    using inv by (simp_all add: list_inv_def)
  obtain l1: "map clear l' = map clear l" "j \<in> unmerged l'" "unmerged l' \<subseteq> unmerged l"
    "\<And>k. k \<in> unmerged l' \<Longrightarrow> mode_rank (l ! k) \<le> mode_rank (l ! j)"
    "\<And>k. k \<in> unmerged l \<Longrightarrow> \<exists>u \<in> unmerged l'. same_mode (l ! u) (l ! k)"
    using scan by (cases l rule: scan_timings_cases) auto
  have len: "length l = length ts" "length l' = length ts" using i(1) l1(1) by (metis length_map)+
  have lt: "k < length ts" if "k \<in> unmerged l" for k using that len by (simp add: unmerged_def)
  have lt': "k < length ts" if "k \<in> unmerged l'" for k using that len by (simp add: unmerged_def)
  have cl: "clear (l ! k) = clear (ts ! k)" if "k < length ts" for k by (rule clear_nth [OF i(1) that])
  have cl': "clear (l' ! k) = clear (ts ! k)" if "k < length ts" for k
    using clear_nth [OF l1(1), of k] cl [OF that] that len by simp
  have same: "same_mode (l ! u) (l ! k) = same_mode (ts ! u) (ts ! k)" if "u < length ts" "k < length ts" for u k
    using cl that by (metis clear_simps(5,6))
  have rank: "mode_rank (l ! k) = mode_rank (ts ! k)" if "k < length ts" for k using cl that by (metis clear_simps(7))
  have j: "j < length ts" by (rule lt' [OF l1(2)])
  have run: "take_mode e n (ts ! j) (st, has) = (st', has')"
    using run clear_eq(6) [OF cl' [OF j]] by simp
  obtain xs where xs: "modes st' = modes st @ xs" "distinct (map mode_key (modes st'))" "room_ok st'"
    "xs \<noteq> [] \<Longrightarrow> \<not> filtered e (ts ! j)"
    "\<And>m. m \<in> set xs \<Longrightarrow> offers e (ts ! j) m \<and> mode_size m = mode_rank (ts ! j) div 2 ^ 16"
    "preferred_modes xs \<le> of_bool (has' \<and> \<not> has)" "has \<longrightarrow> has'"
    "\<forall>k. me_pool e k \<Longrightarrow> 2 \<le> n \<Longrightarrow> \<not> filtered e (ts ! j) \<Longrightarrow> \<exists>m \<in> set (modes st'). shows_timing m (ts ! j)"
    "has' \<and> \<not> has \<Longrightarrow> IsPreferMode (ts ! j) \<and> \<not> filtered e (ts ! j)"
    by (rule take_mode_spec [OF i(2,3) run]) (rule that)
  have jl: "j \<in> unmerged l" using l1(2,3) by blast
  show "list_inv e ts (merge_at j l') (st', has')"
    unfolding list_inv_def prod.case
  proof (intro conjI ballI)
    show "map clear (merge_at j l') = map clear ts" using l1(1) i(1) by simp
    show "\<exists>t \<in> set ts. \<not> filtered e t \<and> offers e t m" if "m \<in> set (modes st')" for m
    proof (cases "m \<in> set xs")
      case True
      then have "xs \<noteq> []" by auto
      then show ?thesis using True xs(4,5) j by (intro bexI [of _ "ts ! j"]) auto
    qed (use that i(4) in \<open>auto simp: xs(1)\<close>)
    show "sorted_wrt (\<lambda>a b. mode_size b \<le> mode_size a) (modes st')"
    proof -
      have "sorted_wrt (\<lambda>a b. mode_size b \<le> mode_size a) xs"
        using xs(5) by (intro sorted_wrt_iff_nth_less [THEN iffD2]) auto
      then show ?thesis using i(5,6) xs(5) jl by (auto simp: xs(1) sorted_wrt_append)
    qed
    show "mode_rank (ts ! u) div 2 ^ 16 \<le> mode_size m" if "m \<in> set (modes st')" "u \<in> unmerged (merge_at j l')" for m u
    proof (cases "m \<in> set xs")
      case True
      have u: "u \<in> unmerged l'" using that(2) by simp
      have "mode_rank (ts ! u) \<le> mode_rank (ts ! j)" using l1(4) [OF u] rank lt' [OF u] j by simp
      then show ?thesis using xs(5) [OF True] by (simp add: div_le_mono)
    next
      case False
      then show ?thesis using that i(6) l1(3) by (auto simp: xs(1))
    qed
    show "preferred_modes (modes st') \<le> of_bool has'"
      using i(7) xs(6,7) by (cases has; cases has') (auto simp: xs(1) preferred_modes_append)
  qed (use xs(2,3) in auto)
  show "\<exists>t \<in> set ts. IsPreferMode t \<and> \<not> filtered e t" if "has' \<and> \<not> has"
    using xs(9) that j by (intro bexI [of _ "ts ! j"]) auto
  show "served_inv e ts (merge_at j l') st'" if pool: "\<forall>k. me_pool e k" "2 \<le> n" and served: "served_inv e ts l st"
    unfolding served_inv_def
  proof (intro allI impI)
    fix k assume k: "k < length ts"
    consider "filtered e (ts ! k)" | "\<exists>m \<in> set (modes st). shows_timing m (ts ! k)"
      | u where "u \<in> unmerged l'" "same_mode (ts ! u) (ts ! k)"
    proof -
      have "\<exists>u \<in> unmerged l'. same_mode (ts ! u) (ts ! k)" if u: "u \<in> unmerged l" "same_mode (ts ! u) (ts ! k)" for u
      proof -
        obtain v where v: "v \<in> unmerged l'" "same_mode (l ! v) (l ! u)" using l1(5) [OF u(1)] by blast
        then have "same_mode (ts ! v) (ts ! u)" using same lt' lt u(1) by simp
        then show ?thesis using v(1) same_mode_equiv(3) u(2) by blast
      qed
      then show ?thesis using served k that unfolding served_inv_def by blast
    qed
    then show "filtered e (ts ! k) \<or> (\<exists>m \<in> set (modes st'). shows_timing m (ts ! k)) \<or>
        (\<exists>u \<in> unmerged (merge_at j l'). same_mode (ts ! u) (ts ! k))"
    proof cases
      case 2
      then show ?thesis by (auto simp: xs(1))
    next
      case (3 u)
      show ?thesis
      proof (cases "u = j")
        case True
        have s: "same_mode (ts ! j) (ts ! k)" using 3(2) True by simp
        have "filtered e (ts ! j) = filtered e (ts ! k)" unfolding filtered_def by (rule filter_same_mode [OF s])
        moreover have "shows_timing m (ts ! j) = shows_timing m (ts ! k)" for m
          using s by (simp add: shows_timing_def same_mode_def)
        ultimately show ?thesis using xs(8) [OF pool] by blast
      qed (use 3 in auto)
    qed simp
  qed
qed

lemma make_modes_spec:
  assumes "list_inv e ts l s"
  shows "(\<exists>l'. list_inv e ts l' (make_modes e n l s)) \<and>
    ((\<forall>k. me_pool e k) \<longrightarrow> 2 \<le> n \<longrightarrow> served_inv e ts l (fst s) \<longrightarrow>
       (\<forall>k < length ts. filtered e (ts ! k) \<or> (\<exists>m \<in> set (modes (fst (make_modes e n l s))). shows_timing m (ts ! k)))) \<and>
    (snd (make_modes e n l s) \<longrightarrow> snd s \<or> (\<exists>t \<in> set ts. IsPreferMode t \<and> \<not> filtered e t))"
  using assms
proof (induction e n l s rule: make_modes.induct)
  case (1 e n l s)
  show ?case
  proof (cases l rule: scan_timings_cases)
    case empty
    then have "make_modes e n l s = s" by (simp add: make_modes.simps)
    then show ?thesis using 1(2) empty(2) unfolding served_inv_def by auto
  next
    case (best j l')
    obtain st has where s: "s = (st, has)" by (cases s)
    obtain st' has' where run: "take_mode e n (l' ! j) (st, has) = (st', has')"
      by (cases "take_mode e n (l' ! j) (st, has)")
    note step = list_inv_step [OF 1(2) [unfolded s] best(1) run]
    have unf: "make_modes e n l s = make_modes e n (merge_at j l') (st', has')"
      by (subst make_modes.simps) (simp add: best(1) s run)
    have "list_inv e ts (merge_at j l') (take_mode e n (l' ! j) s)" using step(1) by (simp add: s run)
    note IH = 1(1) [OF best(1) [symmetric] refl this, unfolded s run]
    show ?thesis using IH step(2,3) unfolding unf by (auto simp: s)
  qed
qed

lemma prefer_first_simps:
  "map mode_key (modes (prefer_first st)) = map mode_key (modes st)"
  "map mode_size (modes (prefer_first st)) = map mode_size (modes st)"
  "(\<exists>m \<in> set (modes (prefer_first st)). shows_timing m t) = (\<exists>m \<in> set (modes st). shows_timing m t)"
  by (auto simp: prefer_first_def modes_def mode_key_def mode_size_def shows_timing_def split: option.splits list.splits)

lemma offers_prefer: "offers e t m \<Longrightarrow> offers e t (m\<lparr> md_isPreferredMode := True \<rparr>)"
  unfolding offers_def by (intro exI [of _ True]) (auto simp: mode_of_timing_def Let_def)

lemma prefer_first_offers: "\<forall>m \<in> set (modes st). P m \<Longrightarrow> (\<And>m. P m \<Longrightarrow> P (m\<lparr> md_isPreferredMode := True \<rparr>)) \<Longrightarrow>
    \<forall>m \<in> set (modes (prefer_first st)). P m"
  by (auto simp: prefer_first_def modes_def split: option.splits list.splits)

lemma prefer_first_preferred:
  assumes "preferred_modes (modes st) = 0"
  shows "preferred_modes (modes (prefer_first st)) \<le> 1"
    "modes (prefer_first st) \<noteq> [] \<Longrightarrow> md_isPreferredMode (hd (modes (prefer_first st)))"
  using assms by (auto simp: prefer_first_def modes_def preferred_modes_def split: option.splits list.splits if_splits)

lemma start_inv:
  defines "l0 \<equiv> \<lambda>ts. map (\<lambda>m. m\<lparr> Merged := False \<rparr>) ts"
  assumes "pDeviceModeList st = None" "ModeListArraySize st = 0"
  shows "list_inv e ts (l0 ts) (st, False)" "served_inv e ts (l0 ts) st"
proof -
  show "list_inv e ts (l0 ts) (st, False)"
    using assms by (simp add: list_inv_def room_ok_def modes_def preferred_modes_def l0_def)
  show "served_inv e ts (l0 ts) st"
    unfolding served_inv_def
  proof (intro allI impI disjI2)
    fix k assume "k < length ts"
    then show "\<exists>u \<in> unmerged (l0 ts). same_mode (ts ! u) (ts ! k)"
      by (intro bexI [of _ k]) (simp_all add: l0_def unmerged_def same_mode_equiv(1))
  qed
qed

lemma sorted_by_map: "sorted_wrt (\<lambda>a b. f b \<le> f a) xs \<longleftrightarrow> sorted_wrt (\<lambda>a b. b \<le> a) (map f xs)"
  by (simp add: sorted_wrt_map)

section \<open>Properties\<close>


definition sample_board :: cbios_board where
  "sample_board = \<lparr> ChipID = CHIPID_E3K, SVID = 0, SSID = 0, SysBiosVersion = 0, Dp1PortConnType = CBIOS_DP_CONN,
     Dp2PortConnType = CBIOS_DP_CONN, Dp3PortConnType = CBIOS_NON_CONN, FBSize = 8, SnoopOnly = False,
     ulMaxHDMIClock = 6000000, ulMaxMHLClock = 3000000, ulMaxIGAClock = 6000000, DPMaxSupportedDclk = 5400000 \<rparr>"

definition sample_env :: mode_env where
  "sample_env = \<lparr> me_board = sample_board, me_device = CBIOS_TYPE_DP1, me_monitor = CBIOS_MONITOR_TYPE_HDMI,
     me_cea861 = True, me_pool = (\<lambda>_. True) \<rparr>"

definition empty_mode_list :: mode_list where
  "empty_mode_list = \<lparr> pDeviceModeList = None, ModeListArraySize = 0, pool_requests = 0 \<rparr>"


text \<open>
  A device with a single timing: half of one is no room, so of the two modes that a television's timing
  gives only the first is kept. When that is the equivalent, because its rate is the higher one, the device's
  own timing is not offered.
\<close>

theorem single_timing_replaced:
  assumes "me_pool e 0" "\<not> filtered e t" "\<not> IsPreferMode t" "me_cea861 e" "FormatVIC (FullTiming t) \<noteq> 0"
    "cbEdidModule_IsEquivalentModeExist (FormatVIC (FullTiming t)) = Some (r, c)"
    "ucast (RefreshRate (FullTiming t)) \<le> r" "c \<noteq> PixelClock (FullTiming t)" "pool_requests st = 0"
  shows "modes (cbMode_MakeDeviceModeList e [t] st) =
    [(mode_of_timing True t)\<lparr> md_RefreshRate := r, md_PixelClock := c \<rparr>]"
proof -
  let ?t = "t\<lparr> Merged := False \<rparr>"
  define eq where "eq = (mode_of_timing False t)\<lparr> md_RefreshRate := r, md_PixelClock := c, md_isPreferredMode := False \<rparr>"
  have scan: "scan_timings [?t] = (Some 0, [?t])" by (simp add: scan_timings_def scan_step_def)
  have scan': "scan_timings [t\<lparr> Merged := True \<rparr>] = (None, [t\<lparr> Merged := True \<rparr>])" by (simp add: scan_timings_def scan_step_def)
  have take: "take_mode e 1 ?t s = take_mode e 1 t s" for s by (rule clear_eq(6)) (simp add: clear_def)
  have rounds: "make_modes e 1 [?t] s = take_mode e 1 t s" for s
    by (subst make_modes.simps, simp add: scan take [unfolded One_nat_def] merge_at_def, subst make_modes.simps, simp add: scan')
  define st0 where "st0 = st\<lparr> pDeviceModeList := None, ModeListArraySize := 0 \<rparr>"
  have add1: "cbMode_AddMode (me_pool e) 1 st0 eq =
      (True, st0\<lparr> pDeviceModeList := Some [eq], ModeListArraySize := 1, pool_requests := 1 \<rparr>)"
    using assms(1,9) by (simp add: cbMode_AddMode_def modes_def create_array_def enlarge_array_def request_def st0_def Let_def)
  have key: "mode_key eq \<noteq> mode_key (mode_of_timing False t)"
    using assms(8) by (simp add: mode_key_def eq_def mode_of_timing_def Let_def)
  have add2: "modes (snd (cbMode_AddMode (me_pool e) 1 (st0\<lparr> pDeviceModeList := Some [eq], ModeListArraySize := 1, pool_requests := 1 \<rparr>)
        (mode_of_timing False t))) = [eq]"
    using key by (simp add: cbMode_AddMode_def modes_def create_array_def enlarge_array_def request_def Let_def)
  have "take_mode e 1 t (st0, False) =
      (snd (cbMode_AddMode (me_pool e) 1 (st0\<lparr> pDeviceModeList := Some [eq], ModeListArraySize := 1, pool_requests := 1 \<rparr>)
        (mode_of_timing False t)), False)"
    using assms(2-7) add1
    by (simp add: take_mode_def cbMode_AddDeviceMode_def eq_def [symmetric] Let_def)
       (auto simp: mode_of_timing_def Let_def not_less)
  then show ?thesis
    using rounds add2
    by (simp add: cbMode_MakeDeviceModeList_def st0_def [symmetric] prefer_first_def modes_def split: option.splits)
       (simp add: eq_def mode_of_timing_def Let_def)
qed

lemma single_timing_replaced_witness:
  "modes (cbMode_MakeDeviceModeList sample_env [svd_timing 2 False] empty_mode_list) =
    [(mode_of_timing True (svd_timing 2 False))\<lparr> md_RefreshRate := 6000, md_PixelClock := 270270 \<rparr>]"
proof (rule single_timing_replaced)
  show "me_pool sample_env 0" by (simp add: sample_env_def)
  show "me_cea861 sample_env" by (simp add: sample_env_def)
  show "pool_requests empty_mode_list = 0" by (simp add: empty_mode_list_def)
qed (code_simp)+

definition preferred_100Hz :: device_timing where
  "preferred_100Hz = (svd_timing 77 True)\<lparr> FullTiming := (FullTiming (svd_timing 77 True))\<lparr> FormatVIC := 0, RefreshRate := 10000 \<rparr>,
     IsPreferMode := True \<rparr>"

text \<open>
  A preferred timing can leave a list without a preferred mode: the format 77, labelled with 120 Hz in the
  table, is listed first, the device's preferred timing at 100 Hz with the same clock and totals counts as
  listed already, and yet as the preferred one.
\<close>

theorem preferred_mode_lost:
  "IsPreferMode preferred_100Hz \<and> \<not> filtered sample_env preferred_100Hz \<and>
   length (modes (cbMode_MakeDeviceModeList sample_env [preferred_100Hz, svd_timing 77 False] empty_mode_list)) > 0 \<and>
   preferred_modes (modes (cbMode_MakeDeviceModeList sample_env [preferred_100Hz, svd_timing 77 False] empty_mode_list)) = 0"
  by code_simp

end
