(* ===== verification/Path_Manager.thy ===== *)
theory Path_Manager
  imports Bit_Util Mode_List
begin

text \<open>
  Which display engine drives which device, and which modules lie between them
  (\<^verbatim>\<open>cbios/Display/CBiosPathManager.c\<close>, with \<^verbatim>\<open>cbGetBitsNum\<close> and \<^verbatim>\<open>cbConvertDeviceBit2Index\<close> of
  \<^verbatim>\<open>cbios/Util/CBiosUtil.c\<close> and \<^verbatim>\<open>cbDIU_HDMI_SelectSource\<close> of \<^verbatim>\<open>cbios/Hw/HwBlock/CBiosDIU_HDMI.c\<close>).

  Sets of devices are words with one bit per device. What is done to the hardware is recorded as a list of
  calls in the order they are made.
\<close>

section \<open>Sets of devices\<close>

definition GET_LAST_BIT :: "u32 \<Rightarrow> u32" where
  "GET_LAST_BIT N = NOT (N - 1) AND N"

text \<open>The last bit is the lowest one; taking it away leaves the others.\<close>

lemma minus_one_bit:
  assumes "lowest_bit (N :: u32) k"
  shows "bit (N - 1) i \<longleftrightarrow> i < k \<or> k < i \<and> bit N i"
proof -
  define q where "q = push_bit (Suc k) (drop_bit (Suc k) N)"
  have k: "k < 32" using assms bit_u32_less by (auto simp: lowest_bit_def)
  have "bit (push_bit n (drop_bit n N)) i \<longleftrightarrow> n \<le> i \<and> bit N i" for n i
    using bit_u32_less [of N i] by (auto simp: bit_push_bit_iff bit_drop_bit_eq)
  then have bq: "bit q i \<longleftrightarrow> k < i \<and> bit N i" for i
    unfolding q_def by (simp only: Suc_le_eq)
  have N: "N = q + 2 ^ k"
  proof -
    have "N = q OR 2 ^ k"
    proof (rule bit_word_eqI)
      fix i :: nat assume i: "i < LENGTH(32)"
      consider "i < k" | "i = k" | "k < i" by linarith
      then show "bit N i = bit (q OR 2 ^ k) i"
        by cases (use assms i in \<open>auto simp: lowest_bit_def bit_or_iff bq bit_exp_iff\<close>)
    qed
    moreover have "q AND 2 ^ k = 0" by (rule bit_word_eqI) (auto simp: bit_and_iff bq bit_exp_iff)
    ultimately show ?thesis using disjunctive_add_eq_or [of q "2 ^ k"] by simp
  qed
  have "N - 1 = q + mask k" by (simp add: N mask_eq_exp_minus_1)
  also have "\<dots> = q OR mask k"
    by (rule disjunctive_add_eq_or) (auto intro!: bit_word_eqI simp: bit_and_iff bq bit_mask_iff)
  finally show ?thesis using k bit_u32_less [of N i] by (auto simp: bit_or_iff bq bit_mask_iff)
qed

lemma GET_LAST_BIT_bit:
  assumes "lowest_bit N k"
  shows "bit (GET_LAST_BIT N) i \<longleftrightarrow> i = k"
proof -
  have "k < 32" using assms bit_u32_less by (auto simp: lowest_bit_def)
  then show ?thesis
    using assms bit_u32_less [of N i] unfolding GET_LAST_BIT_def bit_and_iff bit_not_iff minus_one_bit [OF assms]
    by (auto simp: lowest_bit_def)
qed

lemma lowest_bit_exists:
  assumes "(N :: u32) \<noteq> 0" obtains k where "lowest_bit N k"
  using BitScanForward_lowest [OF assms] by blast

lemma GET_LAST_BIT_exp: "lowest_bit N k \<Longrightarrow> GET_LAST_BIT N = 2 ^ k"
  by (rule bit_word_eqI) (auto simp: GET_LAST_BIT_bit bit_exp_iff)

definition bits :: "u32 \<Rightarrow> nat set" where
  "bits N = {i. bit N i}"

lemma bits_finite [simp]: "finite (bits N)"
  by (rule finite_subset [of _ "{..<32}"]) (auto simp: bits_def dest: bit_u32_less)

lemma bits_empty [simp]: "bits N = {} \<longleftrightarrow> N = 0"
  using word_nonzero_bit [of N] bit_u32_less [of N] by (auto simp: bits_def)

lemma bits_clear:
  assumes "lowest_bit N k"
  shows "bits (N AND NOT (GET_LAST_BIT N)) = bits N - {k}"
  using bit_u32_less [of N] by (auto simp: bits_def bit_and_iff bit_not_iff GET_LAST_BIT_bit [OF assms])

lemma bits_clear_less: "N \<noteq> 0 \<Longrightarrow> card (bits (N AND NOT (GET_LAST_BIT N))) < card (bits N)"
  using lowest_bit_exists [of N] bits_clear [of N] by (metis DiffD2 Diff_subset bits_finite insertI1 lowest_bit_def bits_def mem_Collect_eq psubsetI psubset_card_mono)

function cbGetBitsNum :: "u32 \<Rightarrow> u8" where
  "cbGetBitsNum N = (if N \<noteq> 0 then cbGetBitsNum (N AND NOT (GET_LAST_BIT N)) + 1 else 0)"
  by auto
termination by (relation "measure (\<lambda>N. card (bits N))") (use bits_clear_less in auto)

declare cbGetBitsNum.simps [simp del]

lemma cbGetBitsNum_of_nat: "cbGetBitsNum N = of_nat (card (bits N))"
proof (induction N rule: cbGetBitsNum.induct)
  case (1 N)
  show ?case
  proof (cases "N = 0")
    case False
    obtain k where k: "lowest_bit N k" using lowest_bit_exists [OF False] .
    then have "card (bits N) = Suc (card (bits N - {k}))"
      by (metis bits_def bits_finite card.remove lowest_bit_def mem_Collect_eq)
    then show ?thesis using 1 False bits_clear [OF k] by (subst cbGetBitsNum.simps) (simp add: add.commute)
  qed (simp add: cbGetBitsNum.simps [of 0] bits_def)
qed

lemma unat_cbGetBitsNum: "unat (cbGetBitsNum N) = card (bits N)"
proof -
  have "bits N \<subseteq> {..<32}" by (auto simp: bits_def dest: bit_u32_less)
  then have "card (bits N) \<le> 32" using card_mono [of "{..<32}" "bits N"] by simp
  then show ?thesis by (simp add: cbGetBitsNum_of_nat unat_of_nat take_bit_nat_eq_self)
qed

text \<open>The index of a device, and its slot; 32 for a word without a bit, a slot behind the array.\<close>

definition CBIOS_MAX_DISPLAY_DEVICES_NUM :: nat where "CBIOS_MAX_DISPLAY_DEVICES_NUM = 32"

fun convert_loop :: "u32 \<Rightarrow> u32 \<Rightarrow> nat \<Rightarrow> nat \<Rightarrow> nat" where
  "convert_loop DeviceBit DevMask i 0 = i"
| "convert_loop DeviceBit DevMask i (Suc n) =
     (if DeviceBit AND DevMask \<noteq> 0 then i else convert_loop DeviceBit (push_bit 1 DevMask) (i + 1) n)"

definition cbConvertDeviceBit2Index :: "u32 \<Rightarrow> nat" where
  "cbConvertDeviceBit2Index DeviceBit = convert_loop DeviceBit 1 0 CBIOS_MAX_DISPLAY_DEVICES_NUM"

lemma and_exp_zero: "(N :: u32) AND 2 ^ k = 0 \<longleftrightarrow> \<not> bit N k"
proof
  assume "N AND 2 ^ k = 0"
  then have "\<not> bit (N AND 2 ^ k) k" by simp
  then show "\<not> bit N k" using bit_u32_less [of N k] by (auto simp: bit_and_iff bit_exp_iff)
next
  assume "\<not> bit N k"
  then show "N AND 2 ^ k = 0" by (intro bit_word_eqI) (auto simp: bit_and_iff bit_exp_iff)
qed

lemma convert_loop_lowest:
  assumes "lowest_bit N k" "i \<le> k" "k < i + n"
  shows "convert_loop N (2 ^ i) i n = k"
  using assms(2,3)
proof (induction n arbitrary: i)
  case (Suc n)
  show ?case
  proof (cases "i = k")
    case True
    then show ?thesis using assms(1) by (simp add: and_exp_zero lowest_bit_def)
  next
    case False
    then have "i < k" using Suc.prems by simp
    then have "\<not> bit N i" using assms(1) by (simp add: lowest_bit_def)
    moreover have "convert_loop N (2 ^ Suc i) (Suc i) n = k" using Suc \<open>i < k\<close> by (intro Suc.IH) auto
    ultimately show ?thesis by (simp add: and_exp_zero push_bit_eq_mult mult.commute)
  qed
qed simp

lemma cbConvertDeviceBit2Index_lowest: "lowest_bit N k \<Longrightarrow> cbConvertDeviceBit2Index N = k"
  unfolding cbConvertDeviceBit2Index_def
  using convert_loop_lowest [of N k 0] bit_u32_less [of N k] by (simp add: lowest_bit_def CBIOS_MAX_DISPLAY_DEVICES_NUM_def)

lemma convert_loop_zero: "convert_loop 0 m i n = i + n"
  by (induction n arbitrary: m i) simp_all

section \<open>Engines for devices\<close>

datatype cbios_status = CBIOS_OK | CBIOS_ER_INVALID_PARAMETER

definition CBIOS_TYPE_NONE :: u32 where "CBIOS_TYPE_NONE = 0"
definition CBIOS_TYPE_DSI :: u32 where "CBIOS_TYPE_DSI = 0x1000"
definition CBIOS_TYPE_MHL :: u32 where "CBIOS_TYPE_MHL = 0x2000"
definition CBIOS_IGACOUNTS :: u8 where "CBIOS_IGACOUNTS = 4"
definition CBIOS_IGACOUNTS_CHX004 :: u8 where "CBIOS_IGACOUNTS_CHX004 = 3"

definition IGA1 :: nat where "IGA1 = 0"
definition IGA2 :: nat where "IGA2 = 1"
definition IGA3 :: nat where "IGA3 = 2"
definition IGA4 :: nat where "IGA4 = 3"

record get_dev_comb =
  Devices :: u32
  Iga1Dev :: u32
  Iga2Dev :: u32
  Iga3Dev :: u32
  Iga4Dev :: u32
  bSupported :: bool

text \<open>The parts of a combination: each requested port on its own engine, and the analog port by chip.\<close>

definition comb_e3k :: "get_dev_comb \<Rightarrow> get_dev_comb" where
  "comb_e3k c =
     (let D = Devices c;
          c1 = (if D AND CBIOS_TYPE_DP1 \<noteq> 0 then c\<lparr> Iga1Dev := CBIOS_TYPE_DP1 \<rparr> else c);
          c2 = (if D AND CBIOS_TYPE_DP2 \<noteq> 0 then c1\<lparr> Iga2Dev := CBIOS_TYPE_DP2 \<rparr> else c1);
          c3 = (if D AND CBIOS_TYPE_DP3 \<noteq> 0 then c2\<lparr> Iga3Dev := CBIOS_TYPE_DP3 \<rparr> else c2);
          c4 = (if D AND CBIOS_TYPE_DP4 \<noteq> 0 then c3\<lparr> Iga4Dev := CBIOS_TYPE_DP4 \<rparr>
                else if D AND CBIOS_TYPE_CRT \<noteq> 0 then c3\<lparr> Iga4Dev := CBIOS_TYPE_CRT \<rparr> else c3)
      in c4)"

definition comb_chx004 :: "get_dev_comb \<Rightarrow> get_dev_comb" where
  "comb_chx004 c =
     (let D = Devices c;
          c1 = (if D AND CBIOS_TYPE_DP1 \<noteq> 0 then c\<lparr> Iga1Dev := CBIOS_TYPE_DP1 \<rparr> else c);
          c2 = (if D AND CBIOS_TYPE_DP2 \<noteq> 0 then c1\<lparr> Iga2Dev := CBIOS_TYPE_DP2 \<rparr> else c1);
          c3 = (if D AND CBIOS_TYPE_CRT \<noteq> 0 then c2\<lparr> Iga3Dev := CBIOS_TYPE_CRT \<rparr> else c2)
      in c3)"

definition comb_cne001 :: "cbios_board \<Rightarrow> get_dev_comb \<Rightarrow> get_dev_comb" where
  "comb_cne001 b c =
     (let D = Devices c;
          c0 = (if D AND CBIOS_TYPE_CRT \<noteq> 0 then
                  (if Dp3PortConnType b = CBIOS_NON_CONN then c\<lparr> Iga3Dev := CBIOS_TYPE_CRT \<rparr>
                   else if Dp2PortConnType b = CBIOS_NON_CONN then c\<lparr> Iga2Dev := CBIOS_TYPE_CRT \<rparr>
                   else if Dp1PortConnType b = CBIOS_NON_CONN then c\<lparr> Iga1Dev := CBIOS_TYPE_CRT \<rparr>
                   else if Dp3PortConnType b \<noteq> CBIOS_EDP_CONN then c\<lparr> Iga3Dev := CBIOS_TYPE_CRT \<rparr>
                   else if Dp2PortConnType b \<noteq> CBIOS_EDP_CONN then c\<lparr> Iga2Dev := CBIOS_TYPE_CRT \<rparr>
                   else if Dp1PortConnType b \<noteq> CBIOS_EDP_CONN then c\<lparr> Iga1Dev := CBIOS_TYPE_CRT \<rparr>
                   else c\<lparr> Iga3Dev := CBIOS_TYPE_CRT \<rparr>)
                else c);
          c1 = (if D AND CBIOS_TYPE_DP1 \<noteq> 0 then c0\<lparr> Iga1Dev := CBIOS_TYPE_DP1 \<rparr> else c0);
          c2 = (if D AND CBIOS_TYPE_DP2 \<noteq> 0 then c1\<lparr> Iga2Dev := CBIOS_TYPE_DP2 \<rparr> else c1);
          c3 = (if D AND CBIOS_TYPE_DP3 \<noteq> 0 then c2\<lparr> Iga3Dev := CBIOS_TYPE_DP3 \<rparr> else c2)
      in c3)"

definition cbPathMgrGetDevComb :: "bool \<Rightarrow> cbios_board \<Rightarrow> u32 \<Rightarrow> get_dev_comb \<Rightarrow> cbios_status \<times> get_dev_comb" where
  "cbPathMgrGetDevComb bRunOnQT b SupportDevices c0 =
     (let D = Devices c0;
          c = c0\<lparr> Iga1Dev := CBIOS_TYPE_NONE, Iga2Dev := CBIOS_TYPE_NONE, Iga3Dev := CBIOS_TYPE_NONE, Iga4Dev := CBIOS_TYPE_NONE \<rparr>
      in if D = CBIOS_TYPE_NONE then (CBIOS_OK, c)
         else if bRunOnQT then (CBIOS_OK, c\<lparr> Iga1Dev := CBIOS_TYPE_CRT, bSupported := True \<rparr>)
         else if ChipID b = CHIPID_E3K then
           (if cbGetBitsNum D > CBIOS_IGACOUNTS \<or> D AND NOT SupportDevices \<noteq> 0
            then (CBIOS_ER_INVALID_PARAMETER, c\<lparr> bSupported := False \<rparr>)
            else (CBIOS_OK, (comb_e3k c)\<lparr> bSupported := True \<rparr>))
         else
           (if cbGetBitsNum D > CBIOS_IGACOUNTS_CHX004 \<or> D AND NOT SupportDevices \<noteq> 0
            then (CBIOS_ER_INVALID_PARAMETER, c\<lparr> bSupported := False \<rparr>)
            else (CBIOS_OK, (if ChipID b = CHIPID_CHX004 then comb_chx004 c
                             else if ChipID b = CHIPID_CNE001 then comb_cne001 b c else c)\<lparr> bSupported := True \<rparr>)))"

text \<open>The engines a device may use; \<open>IgaMask\<close> is what the mask held before.\<close>

definition iga_bit :: "nat \<Rightarrow> u32" where
  "iga_bit i = push_bit i 1"

definition cbPathMgrGetIgaMask :: "bool \<Rightarrow> cbios_board \<Rightarrow> u32 \<Rightarrow> u32 \<Rightarrow> u32" where
  "cbPathMgrGetIgaMask bRunOnQT b DeviceId IgaMask =
     (if bRunOnQT then iga_bit IGA1
      else if ChipID b = CHIPID_E3K then
        (if DeviceId = CBIOS_TYPE_DP1 then iga_bit IGA1
         else if DeviceId = CBIOS_TYPE_DP2 then iga_bit IGA2
         else if DeviceId = CBIOS_TYPE_DP3 then iga_bit IGA3
         else if DeviceId = CBIOS_TYPE_DP4 then iga_bit IGA4
         else if DeviceId = CBIOS_TYPE_CRT then iga_bit IGA4
         else iga_bit IGA1 OR iga_bit IGA2 OR iga_bit IGA3 OR iga_bit IGA4)
      else if ChipID b = CHIPID_CHX004 then
        (if DeviceId = CBIOS_TYPE_CRT \<or> DeviceId = CBIOS_TYPE_DVO then iga_bit IGA3
         else if DeviceId = CBIOS_TYPE_DP1 then iga_bit IGA1
         else if DeviceId = CBIOS_TYPE_DP2 then iga_bit IGA2
         else iga_bit IGA3 OR iga_bit IGA2)
      else if ChipID b = CHIPID_CNE001 then
        (if DeviceId = CBIOS_TYPE_CRT then
           (if Dp3PortConnType b = CBIOS_NON_CONN then iga_bit IGA3
            else if Dp2PortConnType b = CBIOS_NON_CONN then iga_bit IGA2
            else if Dp1PortConnType b = CBIOS_NON_CONN then iga_bit IGA1
            else if Dp3PortConnType b \<noteq> CBIOS_EDP_CONN then iga_bit IGA3
            else if Dp2PortConnType b \<noteq> CBIOS_EDP_CONN then iga_bit IGA2
            else if Dp1PortConnType b \<noteq> CBIOS_EDP_CONN then iga_bit IGA1
            else iga_bit IGA3)
         else if DeviceId = CBIOS_TYPE_DVO \<or> DeviceId = CBIOS_TYPE_DP3 then iga_bit IGA3
         else if DeviceId = CBIOS_TYPE_DP1 then iga_bit IGA1
         else if DeviceId = CBIOS_TYPE_DP2 then iga_bit IGA2
         else iga_bit IGA3 OR iga_bit IGA2)
      else IgaMask)"

lemmas device_types = CBIOS_TYPE_NONE_def CBIOS_TYPE_CRT_def CBIOS_TYPE_DVO_def CBIOS_TYPE_DSI_def CBIOS_TYPE_MHL_def
  CBIOS_TYPE_DP1_def CBIOS_TYPE_DP2_def CBIOS_TYPE_DP3_def CBIOS_TYPE_DP4_def
lemmas chip_ids = CHIPID_E3K_def CHIPID_CHX004_def CHIPID_CNE001_def
lemmas iga_indices = IGA1_def IGA2_def IGA3_def IGA4_def

text \<open>The device of an engine, and the devices that have one.\<close>

definition iga_dev :: "get_dev_comb \<Rightarrow> nat \<Rightarrow> u32" where
  "iga_dev c i = (if i = IGA1 then Iga1Dev c else if i = IGA2 then Iga2Dev c else if i = IGA3 then Iga3Dev c
     else if i = IGA4 then Iga4Dev c else 0)"

definition driven :: "get_dev_comb \<Rightarrow> u32" where
  "driven c = Iga1Dev c OR Iga2Dev c OR Iga3Dev c OR Iga4Dev c"

text \<open>The ports that win over the analog one on its engine.\<close>

definition crt_rival :: "cbios_board \<Rightarrow> u32" where
  "crt_rival b = (let m = cbPathMgrGetIgaMask False b CBIOS_TYPE_CRT 0
     in if ChipID b = CHIPID_E3K then CBIOS_TYPE_DP4
        else if ChipID b = CHIPID_CHX004 then 0
        else if m = iga_bit IGA1 then CBIOS_TYPE_DP1 else if m = iga_bit IGA2 then CBIOS_TYPE_DP2 else CBIOS_TYPE_DP3)"

text \<open>The ports that have an engine at all.\<close>

definition known_ports :: "cbios_board \<Rightarrow> u32" where
  "known_ports b =
     (if ChipID b = CHIPID_E3K then CBIOS_TYPE_DP1 OR CBIOS_TYPE_DP2 OR CBIOS_TYPE_DP3 OR CBIOS_TYPE_DP4
      else if ChipID b = CHIPID_CHX004 then CBIOS_TYPE_DP1 OR CBIOS_TYPE_DP2
      else if ChipID b = CHIPID_CNE001 then CBIOS_TYPE_DP1 OR CBIOS_TYPE_DP2 OR CBIOS_TYPE_DP3 else 0)"

lemma and_bit: "(D :: u32) AND 2 ^ k = (if bit D k then 2 ^ k else 0)"
  by (rule bit_word_eqI) (auto simp: bit_and_iff bit_exp_iff)

lemma and_ports: "(D :: u32) AND CBIOS_TYPE_CRT = (if bit D 0 then CBIOS_TYPE_CRT else 0)"
  "D AND CBIOS_TYPE_DP1 = (if bit D 15 then CBIOS_TYPE_DP1 else 0)" "D AND CBIOS_TYPE_DP2 = (if bit D 16 then CBIOS_TYPE_DP2 else 0)"
  "D AND CBIOS_TYPE_DP3 = (if bit D 17 then CBIOS_TYPE_DP3 else 0)" "D AND CBIOS_TYPE_DP4 = (if bit D 18 then CBIOS_TYPE_DP4 else 0)"
  using and_bit [of D 0] and_bit [of D 15] and_bit [of D 16] and_bit [of D 17] and_bit [of D 18] by (simp_all add: device_types)

lemma ports_nonzero [simp]: "CBIOS_TYPE_CRT \<noteq> 0" "CBIOS_TYPE_DP1 \<noteq> 0" "CBIOS_TYPE_DP2 \<noteq> 0" "CBIOS_TYPE_DP3 \<noteq> 0" "CBIOS_TYPE_DP4 \<noteq> 0"
  by (simp_all add: device_types)

lemma comb_e3k_devs:
  assumes "Iga1Dev c = 0" "Iga2Dev c = 0" "Iga3Dev c = 0" "Iga4Dev c = 0"
  shows "Iga1Dev (comb_e3k c) = Devices c AND CBIOS_TYPE_DP1" "Iga2Dev (comb_e3k c) = Devices c AND CBIOS_TYPE_DP2"
    "Iga3Dev (comb_e3k c) = Devices c AND CBIOS_TYPE_DP3"
    "Iga4Dev (comb_e3k c) = (if bit (Devices c) 18 then CBIOS_TYPE_DP4 else Devices c AND CBIOS_TYPE_CRT)"
  using assms by (simp_all add: comb_e3k_def Let_def and_ports)

lemma comb_chx004_devs:
  assumes "Iga1Dev c = 0" "Iga2Dev c = 0" "Iga3Dev c = 0" "Iga4Dev c = 0"
  shows "Iga1Dev (comb_chx004 c) = Devices c AND CBIOS_TYPE_DP1" "Iga2Dev (comb_chx004 c) = Devices c AND CBIOS_TYPE_DP2"
    "Iga3Dev (comb_chx004 c) = Devices c AND CBIOS_TYPE_CRT" "Iga4Dev (comb_chx004 c) = 0"
  using assms by (simp_all add: comb_chx004_def Let_def and_ports)

lemma comb_cne001_devs:
  assumes "Iga1Dev c = 0" "Iga2Dev c = 0" "Iga3Dev c = 0" "Iga4Dev c = 0" "ChipID b = CHIPID_CNE001"
  defines "m \<equiv> cbPathMgrGetIgaMask False b CBIOS_TYPE_CRT 0" and "crt \<equiv> Devices c AND CBIOS_TYPE_CRT"
  shows "Iga1Dev (comb_cne001 b c) = (if bit (Devices c) 15 then CBIOS_TYPE_DP1 else if m = iga_bit IGA1 then crt else 0)"
    "Iga2Dev (comb_cne001 b c) = (if bit (Devices c) 16 then CBIOS_TYPE_DP2 else if m = iga_bit IGA2 then crt else 0)"
    "Iga3Dev (comb_cne001 b c) = (if bit (Devices c) 17 then CBIOS_TYPE_DP3 else if m = iga_bit IGA3 then crt else 0)"
    "Iga4Dev (comb_cne001 b c) = 0" "m = iga_bit IGA1 \<or> m = iga_bit IGA2 \<or> m = iga_bit IGA3"
  using assms(1-5) unfolding m_def crt_def comb_cne001_def
  by (simp_all add: Let_def and_ports cbPathMgrGetIgaMask_def iga_bit_def iga_indices chip_ids)

lemma iga_bit_inj: "iga_bit IGA1 \<noteq> iga_bit IGA2" "iga_bit IGA1 \<noteq> iga_bit IGA3" "iga_bit IGA2 \<noteq> iga_bit IGA3"
  "iga_bit IGA2 \<noteq> iga_bit IGA1" "iga_bit IGA3 \<noteq> iga_bit IGA1" "iga_bit IGA3 \<noteq> iga_bit IGA2"
  by (simp_all add: iga_bit_def iga_indices)

lemma supported_bits: "(D :: u32) AND NOT S = 0 \<longleftrightarrow> bits D \<subseteq> bits S"
proof -
  have "bits (D AND NOT S) = bits D - bits S"
    using bit_u32_less [of D] by (auto simp: bits_def bit_and_iff bit_not_iff)
  then show ?thesis using bits_empty [of "D AND NOT S"] by auto
qed

section \<open>Properties\<close>

text \<open>
  C31. What a combination promises. It is refused exactly when there are more devices than engines or one that the
  board does not have. Otherwise it is reported as supported, and the devices that get an engine are the requested
  ports the chip knows, and the analog port unless a requested port wins over it: what else was requested is
  left out silently.
\<close>

theorem cbPathMgrGetDevComb_driven:
  assumes "cbPathMgrGetDevComb False b S c = (r, c')" "Devices c \<noteq> 0" "ChipID b \<in> {CHIPID_E3K, CHIPID_CHX004, CHIPID_CNE001}"
  shows "(r = CBIOS_OK) = (card (bits (Devices c)) \<le> (if ChipID b = CHIPID_E3K then 4 else 3) \<and> bits (Devices c) \<subseteq> bits S) \<and>
    bSupported c' = (r = CBIOS_OK) \<and>
    driven c' = (if r = CBIOS_OK
      then (Devices c AND known_ports b) OR
        (if Devices c AND crt_rival b = 0 then Devices c AND CBIOS_TYPE_CRT else 0)
      else 0)"
proof -
  define c0 where "c0 = c\<lparr> Iga1Dev := 0, Iga2Dev := 0, Iga3Dev := 0, Iga4Dev := 0 \<rparr>"
  have c0: "Iga1Dev c0 = 0" "Iga2Dev c0 = 0" "Iga3Dev c0 = 0" "Iga4Dev c0 = 0" "Devices c0 = Devices c" by (simp_all add: c0_def)
  define n where "n = (if ChipID b = CHIPID_E3K then 4 else 3 :: nat)"
  define ok where "ok \<longleftrightarrow> card (bits (Devices c)) \<le> n \<and> bits (Devices c) \<subseteq> bits S"
  define c1 where "c1 = (if ChipID b = CHIPID_E3K then comb_e3k c0 else if ChipID b = CHIPID_CHX004 then comb_chx004 c0 else comb_cne001 b c0)"
  have chips: "CHIPID_E3K \<noteq> CHIPID_CHX004" "CHIPID_CHX004 \<noteq> CHIPID_CNE001" "CHIPID_E3K \<noteq> CHIPID_CNE001" by (simp_all add: chip_ids)
  have n: "(CBIOS_IGACOUNTS < cbGetBitsNum (Devices c)) = (\<not> card (bits (Devices c)) \<le> 4)"
    "(CBIOS_IGACOUNTS_CHX004 < cbGetBitsNum (Devices c)) = (\<not> card (bits (Devices c)) \<le> 3)"
    by (simp_all add: word_less_nat_alt unat_cbGetBitsNum CBIOS_IGACOUNTS_def CBIOS_IGACOUNTS_CHX004_def not_le)
  have run: "(r, c') = (if ok then (CBIOS_OK, c1\<lparr> bSupported := True \<rparr>) else (CBIOS_ER_INVALID_PARAMETER, c0\<lparr> bSupported := False \<rparr>))"
  proof (cases "ChipID b = CHIPID_E3K")
    case True
    then show ?thesis
      using assms(1,2) unfolding cbPathMgrGetDevComb_def Let_def CBIOS_TYPE_NONE_def c0_def [symmetric] n supported_bits ok_def n_def c1_def
      by (simp split: if_splits)
  next
    case False
    then show ?thesis
      using assms chips unfolding cbPathMgrGetDevComb_def Let_def CBIOS_TYPE_NONE_def c0_def [symmetric] n supported_bits ok_def n_def c1_def
      by (simp split: if_splits)
  qed
  have "driven c1 = (Devices c AND known_ports b) OR (if Devices c AND crt_rival b = 0 then Devices c AND CBIOS_TYPE_CRT else 0)"
  proof -
    consider "ChipID b = CHIPID_E3K" | "ChipID b = CHIPID_CHX004" | "ChipID b = CHIPID_CNE001" using assms(3) by auto
    then show ?thesis
    proof cases
      case 1
      then show ?thesis
        by (simp add: c1_def driven_def comb_e3k_devs [OF c0(1-4)] c0(5) known_ports_def crt_rival_def bit.conj_disj_distrib and_ports)
           (simp add: or.assoc)
    next
      case 2
      then show ?thesis
        using chips by (simp add: c1_def driven_def comb_chx004_devs [OF c0(1-4)] c0(5) known_ports_def crt_rival_def bit.conj_disj_distrib and_ports)
           (simp add: or.assoc)
    next
      case 3
      note m = comb_cne001_devs [OF c0(1-4) 3]
      show ?thesis
        using m(5) chips 3
        by (elim disjE) (auto simp: c1_def driven_def m(1-4) c0(5) known_ports_def crt_rival_def bit.conj_disj_distrib and_ports
          iga_bit_inj or.assoc or.commute or.left_commute)
    qed
  qed
  then show ?thesis using run by (simp add: ok_def n_def [symmetric] c0 driven_def split: if_splits)
qed

lemma cbPathMgrGetDevComb_driven_witness:
  "driven (snd (cbPathMgrGetDevComb False sample_board 0x78001
     \<lparr> Devices = CBIOS_TYPE_DP4 OR CBIOS_TYPE_CRT, Iga1Dev = 0, Iga2Dev = 0, Iga3Dev = 0, Iga4Dev = 0, bSupported = False \<rparr>)) = CBIOS_TYPE_DP4"
proof -
  let ?c = "\<lparr> Devices = CBIOS_TYPE_DP4 OR CBIOS_TYPE_CRT, Iga1Dev = 0, Iga2Dev = 0, Iga3Dev = 0, Iga4Dev = 0, bSupported = False \<rparr>"
  obtain r c' where run: "cbPathMgrGetDevComb False sample_board 0x78001 ?c = (r, c')" by force
  have r: "fst (cbPathMgrGetDevComb False sample_board 0x78001 ?c) = CBIOS_OK" by code_simp
  have "driven c' = (Devices ?c AND known_ports sample_board) OR
      (if Devices ?c AND crt_rival sample_board = 0 then Devices ?c AND CBIOS_TYPE_CRT else 0)"
    using cbPathMgrGetDevComb_driven [OF run] r run by (simp add: device_types sample_board_def)
  also have "\<dots> = CBIOS_TYPE_DP4" by code_simp
  finally show ?thesis using run by simp
qed

definition given :: "(nat \<Rightarrow> u32 \<Rightarrow> bool) \<Rightarrow> get_dev_comb \<Rightarrow> bool" where
  "given P c \<longleftrightarrow> (\<forall>i. iga_dev c i \<noteq> 0 \<longrightarrow> P i (iga_dev c i) \<and> (\<exists>!j. iga_dev c j = iga_dev c i))"

lemma givenI:
  assumes "Iga1Dev c \<noteq> 0 \<Longrightarrow> P IGA1 (Iga1Dev c)" "Iga2Dev c \<noteq> 0 \<Longrightarrow> P IGA2 (Iga2Dev c)"
    "Iga3Dev c \<noteq> 0 \<Longrightarrow> P IGA3 (Iga3Dev c)" "Iga4Dev c \<noteq> 0 \<Longrightarrow> P IGA4 (Iga4Dev c)"
    "Iga1Dev c = Iga2Dev c \<Longrightarrow> Iga1Dev c = 0" "Iga1Dev c = Iga3Dev c \<Longrightarrow> Iga1Dev c = 0" "Iga1Dev c = Iga4Dev c \<Longrightarrow> Iga1Dev c = 0"
    "Iga2Dev c = Iga3Dev c \<Longrightarrow> Iga2Dev c = 0" "Iga2Dev c = Iga4Dev c \<Longrightarrow> Iga2Dev c = 0" "Iga3Dev c = Iga4Dev c \<Longrightarrow> Iga3Dev c = 0"
  shows "given P c"
  unfolding given_def
proof (intro allI impI conjI)
  fix i assume i: "iga_dev c i \<noteq> 0"
  then consider "i = IGA1" | "i = IGA2" | "i = IGA3" | "i = IGA4" by (auto simp: iga_dev_def split: if_splits)
  then show "P i (iga_dev c i)" by cases (use i assms(1-4) in \<open>simp_all add: iga_dev_def iga_indices\<close>)
  show "\<exists>!j. iga_dev c j = iga_dev c i"
  proof (intro ex1I [of _ i] refl)
    fix j assume j: "iga_dev c j = iga_dev c i"
    then show "j = i" using i assms(5-) unfolding iga_dev_def by (simp split: if_splits)
  qed
qed

lemma ports_distinct [simp]: "CBIOS_TYPE_DP1 \<noteq> CBIOS_TYPE_DP2" "CBIOS_TYPE_DP1 \<noteq> CBIOS_TYPE_DP3"
  "CBIOS_TYPE_DP2 \<noteq> CBIOS_TYPE_DP3" "CBIOS_TYPE_DP1 \<noteq> CBIOS_TYPE_DP4" "CBIOS_TYPE_DP2 \<noteq> CBIOS_TYPE_DP4"
  "CBIOS_TYPE_DP3 \<noteq> CBIOS_TYPE_DP4" "CBIOS_TYPE_CRT \<noteq> CBIOS_TYPE_DP1" "CBIOS_TYPE_CRT \<noteq> CBIOS_TYPE_DP2"
  "CBIOS_TYPE_CRT \<noteq> CBIOS_TYPE_DP3" "CBIOS_TYPE_CRT \<noteq> CBIOS_TYPE_DP4" "CBIOS_TYPE_CRT \<noteq> CBIOS_TYPE_DVO"
  "CBIOS_TYPE_DP1 \<noteq> CBIOS_TYPE_CRT" "CBIOS_TYPE_DP2 \<noteq> CBIOS_TYPE_CRT" "CBIOS_TYPE_DP3 \<noteq> CBIOS_TYPE_CRT"
  "CBIOS_TYPE_DP4 \<noteq> CBIOS_TYPE_CRT" "CBIOS_TYPE_DP2 \<noteq> CBIOS_TYPE_DP1" "CBIOS_TYPE_DP3 \<noteq> CBIOS_TYPE_DP1"
  "CBIOS_TYPE_DP4 \<noteq> CBIOS_TYPE_DP1" "CBIOS_TYPE_DP3 \<noteq> CBIOS_TYPE_DP2" "CBIOS_TYPE_DP4 \<noteq> CBIOS_TYPE_DP2"
  "CBIOS_TYPE_DP4 \<noteq> CBIOS_TYPE_DP3" "CBIOS_TYPE_DP1 \<noteq> CBIOS_TYPE_DVO" "CBIOS_TYPE_DP2 \<noteq> CBIOS_TYPE_DVO"
  "CBIOS_TYPE_DP3 \<noteq> CBIOS_TYPE_DVO"
  by (simp_all add: device_types)

lemma iga_bit_bits [simp]: "bit (iga_bit IGA1) IGA1" "bit (iga_bit IGA2) IGA2" "bit (iga_bit IGA3) IGA3" "bit (iga_bit IGA4) IGA4"
  by (simp_all add: iga_bit_def iga_indices)

lemma comb_given:
  fixes m :: u32
  assumes "Iga1Dev c = 0" "Iga2Dev c = 0" "Iga3Dev c = 0" "Iga4Dev c = 0"
  defines "P \<equiv> \<lambda>b i d. bit (cbPathMgrGetIgaMask False b d m) i \<and> d AND Devices c = d"
  shows "ChipID b = CHIPID_E3K \<Longrightarrow> given (P b) (comb_e3k c)" "ChipID b = CHIPID_CHX004 \<Longrightarrow> given (P b) (comb_chx004 c)"
    "ChipID b = CHIPID_CNE001 \<Longrightarrow> given (P b) (comb_cne001 b c)"
proof -
  have chips: "CHIPID_CHX004 \<noteq> CHIPID_E3K" "CHIPID_CNE001 \<noteq> CHIPID_CHX004" "CHIPID_CNE001 \<noteq> CHIPID_E3K" by (simp_all add: chip_ids)
  have sub: "(d AND Devices c = d) = (Devices c AND d = d)" for d by (simp only: and.commute)
  show "given (P b) (comb_e3k c)" if "ChipID b = CHIPID_E3K"
    by (rule givenI) (use that in \<open>auto simp: P_def sub comb_e3k_devs [OF assms(1-4)] and_ports cbPathMgrGetIgaMask_def split: if_splits\<close>)
  show "given (P b) (comb_chx004 c)" if "ChipID b = CHIPID_CHX004"
    by (rule givenI) (use that chips in \<open>auto simp: P_def sub comb_chx004_devs [OF assms(1-4)] and_ports cbPathMgrGetIgaMask_def split: if_splits\<close>)
  show "given (P b) (comb_cne001 b c)" if chip: "ChipID b = CHIPID_CNE001"
  proof -
    note d = comb_cne001_devs [OF assms(1-4) chip]
    have same: "cbPathMgrGetIgaMask False b CBIOS_TYPE_CRT m = cbPathMgrGetIgaMask False b CBIOS_TYPE_CRT 0"
      using chips chip by (simp add: cbPathMgrGetIgaMask_def)
    have ports: "cbPathMgrGetIgaMask False b CBIOS_TYPE_DP1 m = iga_bit IGA1" "cbPathMgrGetIgaMask False b CBIOS_TYPE_DP2 m = iga_bit IGA2"
      "cbPathMgrGetIgaMask False b CBIOS_TYPE_DP3 m = iga_bit IGA3"
      using chips chip by (simp_all add: cbPathMgrGetIgaMask_def)
    show ?thesis
      by (rule givenI) (use d(5) in \<open>auto simp: P_def sub d(1-4) and_ports same ports iga_bit_inj split: if_splits\<close>)
  qed
qed



section \<open>Modules\<close>

datatype module_type = MODULE_NONE | MODULE_DP | MODULE_MHL | MODULE_HDMI | MODULE_HDTV | MODULE_HDCP | MODULE_HDAC | MODULE_IGA

definition CBIOS_MODULE_INDEX_INVALID :: u32 where "CBIOS_MODULE_INDEX_INVALID = 0xFF"
definition CBIOS_MAX_MODULE_NUM :: nat where "CBIOS_MAX_MODULE_NUM = 16"
definition DP_MODU_NUM :: u32 where "DP_MODU_NUM = 4"
definition HDMI_MODU_NUM :: u32 where "HDMI_MODU_NUM = 4"

record cbios_module =
  mod_Type :: module_type
  mod_Index :: u32

record module_list =
  DPModule :: cbios_module
  MHLModule :: cbios_module
  HDCPModule :: cbios_module
  HDMIModule :: cbios_module
  HDACModule :: cbios_module
  HDTVModule :: cbios_module
  IGAModule :: cbios_module

text \<open>
  The path is an array of pointers into the list of modules of the same device; a pointer is the name of
  the field it points to.
\<close>

datatype module_ptr = To_HDCP | To_HDMI | To_HDTV | To_IGA

fun deref :: "module_list \<Rightarrow> module_ptr \<Rightarrow> cbios_module" where
  "deref l To_HDCP = HDCPModule l"
| "deref l To_HDMI = HDMIModule l"
| "deref l To_HDTV = HDTVModule l"
| "deref l To_IGA = IGAModule l"

record display_source =
  ModuleList :: module_list
  ModulePath :: "module_ptr option list"
  bIsSrcChanged :: bool

record device_common =
  DeviceType :: u32
  CurrentMonitorType :: u32
  EdidStruct :: edid_struct
  DispSource :: display_source

record dest_mode =
  dm_XRes :: u32
  dm_YRes :: u32
  InterlaceFlag :: bool

definition cbInitialModuleList :: module_list where
  "cbInitialModuleList =
     (let m = (\<lambda>t. \<lparr> mod_Type = t, mod_Index = CBIOS_MODULE_INDEX_INVALID \<rparr>)
      in \<lparr> DPModule = m MODULE_DP, MHLModule = m MODULE_MHL, HDCPModule = m MODULE_HDCP, HDMIModule = m MODULE_HDMI,
           HDACModule = m MODULE_HDAC, HDTVModule = m MODULE_HDTV, IGAModule = m MODULE_IGA \<rparr>)"

section \<open>Choosing a path\<close>

text \<open>One entry of the path, at the position reached so far.\<close>

definition link :: "module_list \<Rightarrow> module_ptr \<Rightarrow> module_ptr option list \<times> nat \<Rightarrow> module_ptr option list \<times> nat" where
  "link l p s = (case s of (path, index) \<Rightarrow>
     if mod_Index (deref l p) \<noteq> CBIOS_MODULE_INDEX_INVALID then (path[index := Some p], index + 1) else (path, index))"

definition cbPathMgrGeneratePath :: "device_common \<Rightarrow> device_common" where
  "cbPathMgrGeneratePath dev =
     (let l = ModuleList (DispSource dev);
          s1 = link l To_HDCP (replicate CBIOS_MAX_MODULE_NUM None, 0);
          s2 = link l To_HDMI s1;
          s3 = link l To_HDTV s2;
          s4 = link l To_IGA s3
      in dev\<lparr> DispSource := (DispSource dev)\<lparr> ModulePath := fst s4 \<rparr> \<rparr>)"

definition set_index :: "u32 \<Rightarrow> cbios_module \<Rightarrow> cbios_module" where
  "set_index i m = m\<lparr> mod_Index := i \<rparr>"

text \<open>The number of a port among the modules, and the audio module of a port; the fourth port has none.\<close>

definition port_index :: "u32 \<Rightarrow> u32" where
  "port_index Device =
     (if Device = CBIOS_TYPE_DP1 then 0 else if Device = CBIOS_TYPE_DP2 then 1 else if Device = CBIOS_TYPE_DP3 then 2
      else if Device = CBIOS_TYPE_DP4 then 3 else CBIOS_MODULE_INDEX_INVALID)"

definition audio_index :: "u32 \<Rightarrow> u32" where
  "audio_index Device =
     (if Device = CBIOS_TYPE_DP1 then 0 else if Device = CBIOS_TYPE_DP2 then 1 else if Device = CBIOS_TYPE_DP3 then 2
      else CBIOS_MODULE_INDEX_INVALID)"

definition iga_module_index :: "nat \<Rightarrow> u32" where
  "iga_module_index IGAIndex =
     (if IGAIndex = IGA1 then 0 else if IGAIndex = IGA2 then 1 else if IGAIndex = IGA3 then 2
      else if IGAIndex = IGA4 then 3 else CBIOS_MODULE_INDEX_INVALID)"

definition needs_buffer :: "dest_mode \<Rightarrow> bool" where
  "needs_buffer m \<longleftrightarrow> InterlaceFlag m \<or> dm_XRes m = 720 \<and> dm_YRes m = 576"

definition select_port :: "device_common \<Rightarrow> u32 \<Rightarrow> dest_mode \<Rightarrow> module_list \<Rightarrow> module_list" where
  "select_port dev Device m l0 =
     (let ModuleIndex = port_index Device;
          l = l0\<lparr> HDTVModule := set_index CBIOS_MODULE_INDEX_INVALID (HDTVModule l0) \<rparr>;
          buffered = (\<lambda>l. if needs_buffer m then l\<lparr> HDTVModule := set_index ModuleIndex (HDTVModule l) \<rparr> else l)
      in if CurrentMonitorType dev AND (CBIOS_MONITOR_TYPE_HDMI OR CBIOS_MONITOR_TYPE_DVI) \<noteq> 0 then
           (if IsCEA861HDMI (Attribute (EdidStruct dev)) then
              buffered (l\<lparr> HDMIModule := set_index ModuleIndex (HDMIModule l), HDACModule := set_index (audio_index Device) (HDACModule l) \<rparr>)
            else l\<lparr> HDMIModule := set_index ModuleIndex (HDMIModule l), HDACModule := set_index CBIOS_MODULE_INDEX_INVALID (HDACModule l) \<rparr>)
         else buffered (l\<lparr> HDMIModule := set_index CBIOS_MODULE_INDEX_INVALID (HDMIModule l),
                            HDACModule := set_index (audio_index Device) (HDACModule l) \<rparr>))"

definition select_mhl :: "device_common \<Rightarrow> module_list \<Rightarrow> module_list" where
  "select_mhl dev l =
     (let i = (if IsCEA861HDMI (Attribute (EdidStruct dev)) then 0 else CBIOS_MODULE_INDEX_INVALID)
      in l\<lparr> HDCPModule := set_index 0 (HDCPModule l), HDTVModule := set_index CBIOS_MODULE_INDEX_INVALID (HDTVModule l),
            HDMIModule := set_index i (HDMIModule l), HDACModule := set_index i (HDACModule l) \<rparr>)"

definition upd_list :: "(module_list \<Rightarrow> module_list) \<Rightarrow> device_common \<Rightarrow> device_common" where
  "upd_list f dev = dev\<lparr> DispSource := (DispSource dev)\<lparr> ModuleList := f (ModuleList (DispSource dev)) \<rparr> \<rparr>"

definition cbPathMgrSelectDIUPath :: "u32 \<Rightarrow> nat \<Rightarrow> dest_mode \<Rightarrow> device_common \<Rightarrow> device_common" where
  "cbPathMgrSelectDIUPath Device IGAIndex m dev =
     (let dev1 = upd_list (\<lambda>l. l\<lparr> IGAModule := set_index (iga_module_index IGAIndex) (IGAModule l) \<rparr>) dev;
          changed = (\<lambda>dev. dev\<lparr> DispSource := (DispSource dev)\<lparr> bIsSrcChanged := True \<rparr> \<rparr>)
      in if Device \<in> {CBIOS_TYPE_DP1, CBIOS_TYPE_DP2, CBIOS_TYPE_DP3, CBIOS_TYPE_DP4} then
           changed (cbPathMgrGeneratePath (upd_list (select_port dev Device m) dev1))
         else if Device = CBIOS_TYPE_MHL then changed (cbPathMgrGeneratePath (upd_list (select_mhl dev) dev1))
         else if Device \<in> {CBIOS_TYPE_CRT, CBIOS_TYPE_DVO, CBIOS_TYPE_DSI} then changed (cbPathMgrGeneratePath dev1)
         else dev1)"

section \<open>Asking for modules\<close>

text \<open>The device in a slot; the outer \<open>None\<close> is a read behind the array.\<close>

definition cbGetDeviceCommon :: "device_common option list \<Rightarrow> u32 \<Rightarrow> device_common option option" where
  "cbGetDeviceCommon devs Device =
     (let i = cbConvertDeviceBit2Index Device in if i < length devs then Some (devs ! i) else None)"

definition cbGetModuleIndex :: "nat \<Rightarrow> device_common option list \<Rightarrow> u32 \<Rightarrow> module_type \<Rightarrow> u32 option" where
  "cbGetModuleIndex IgaCount devs Device ModuleType =
     (case cbGetDeviceCommon devs Device of
        None \<Rightarrow> None
      | Some None \<Rightarrow> Some CBIOS_MODULE_INDEX_INVALID
      | Some (Some dev) \<Rightarrow>
          let l = ModuleList (DispSource dev);
              bounded = (\<lambda>n i. if n \<le> i then CBIOS_MODULE_INDEX_INVALID else i)
          in Some (case ModuleType of
                MODULE_DP \<Rightarrow> bounded DP_MODU_NUM (mod_Index (DPModule l))
              | MODULE_MHL \<Rightarrow> mod_Index (MHLModule l)
              | MODULE_HDMI \<Rightarrow> bounded HDMI_MODU_NUM (mod_Index (HDMIModule l))
              | MODULE_HDTV \<Rightarrow> mod_Index (HDTVModule l)
              | MODULE_HDCP \<Rightarrow> mod_Index (HDCPModule l)
              | MODULE_HDAC \<Rightarrow> mod_Index (HDACModule l)
              | MODULE_IGA \<Rightarrow> bounded (of_nat IgaCount) (mod_Index (IGAModule l))
              | MODULE_NONE \<Rightarrow> CBIOS_MODULE_INDEX_INVALID))"

function type_loop :: "nat \<Rightarrow> device_common option list \<Rightarrow> u32 \<Rightarrow> module_type \<Rightarrow> u32 \<Rightarrow> u32" where
  "type_loop IgaCount devs ModuleIndex ModuleType TmpDev =
     (if TmpDev \<noteq> 0 then
        let CurDev = GET_LAST_BIT TmpDev
        in if cbGetModuleIndex IgaCount devs CurDev ModuleType = Some ModuleIndex then CurDev
           else type_loop IgaCount devs ModuleIndex ModuleType (TmpDev AND NOT CurDev)
      else CBIOS_TYPE_NONE)"
  by auto
termination by (relation "measure (\<lambda>(_, _, _, _, N). card (bits N))") (use bits_clear_less in auto)

declare type_loop.simps [simp del]

definition cbGetDeviceType :: "nat \<Rightarrow> device_common option list \<Rightarrow> u32 \<Rightarrow> u32 \<Rightarrow> module_type \<Rightarrow> u32" where
  "cbGetDeviceType IgaCount devs SupportDevices ModuleIndex ModuleType =
     (if ModuleIndex = CBIOS_MODULE_INDEX_INVALID \<or> ModuleType = MODULE_NONE then CBIOS_TYPE_NONE
      else type_loop IgaCount devs ModuleIndex ModuleType SupportDevices)"

section \<open>Switching the modules of a path\<close>

datatype diu_call = HDMI_ModuleOnOff u32 bool | HDTV_ModuleOnOff u32 bool | HDTV_LBBypass u32 bool

definition module_call :: "cbios_module \<Rightarrow> bool \<Rightarrow> diu_call list" where
  "module_call m bTurnOn =
     (case mod_Type m of
        MODULE_HDMI \<Rightarrow> [HDMI_ModuleOnOff (mod_Index m) bTurnOn]
      | MODULE_HDTV \<Rightarrow> [HDTV_ModuleOnOff (mod_Index m) bTurnOn]
      | _ \<Rightarrow> [])"

text \<open>The position of the null pointer behind a path; \<open>None\<close> if the array has none.\<close>

fun path_end :: "module_ptr option list \<Rightarrow> nat option" where
  "path_end [] = None"
| "path_end (None # ps) = Some 0"
| "path_end (Some p # ps) = map_option Suc (path_end ps)"

fun off_loop :: "module_list \<Rightarrow> module_ptr option list \<Rightarrow> diu_call list option" where
  "off_loop l [] = None"
| "off_loop l (None # ps) = Some []"
| "off_loop l (Some p # ps) = map_option ((@) (module_call (deref l p) False)) (off_loop l ps)"

primrec on_loop :: "module_list \<Rightarrow> module_ptr option list \<Rightarrow> nat \<Rightarrow> diu_call list" where
  "on_loop l path 0 = (case path ! 0 of None \<Rightarrow> [] | Some p \<Rightarrow> module_call (deref l p) True)"
| "on_loop l path (Suc i) =
     (case path ! Suc i of None \<Rightarrow> [] | Some p \<Rightarrow> module_call (deref l p) True @ on_loop l path i)"

definition cbPathMgrModuleOnOff :: "module_list \<Rightarrow> module_ptr option list \<Rightarrow> bool \<Rightarrow> (bool \<times> diu_call list) option" where
  "cbPathMgrModuleOnOff l path bTurnOn =
     (if path = [] then None
      else if path ! 0 = None then Some (False, [])
      else if bTurnOn then (case path_end path of None \<Rightarrow> None | Some n \<Rightarrow> Some (True, on_loop l path (n - 1)))
      else map_option (Pair True) (off_loop l path))"

definition cbDIU_HDMI_SelectSource :: "u32 \<Rightarrow> cbios_module option \<Rightarrow> cbios_module option \<Rightarrow> diu_call list" where
  "cbDIU_HDMI_SelectSource chip pHDMIModule pNextModule =
     (case (pHDMIModule, pNextModule) of
        (Some h, Some n) \<Rightarrow>
          if chip = CHIPID_E3K \<or> chip = CHIPID_CHX004 \<or> chip = CHIPID_CNE001 then
            (if mod_Type n = MODULE_HDTV then [HDTV_LBBypass (mod_Index h) False]
             else if mod_Type n = MODULE_IGA then [HDTV_LBBypass (mod_Index h) True]
             else [])
          else []
      | _ \<Rightarrow> [])"

fun source_loop :: "u32 \<Rightarrow> module_list \<Rightarrow> module_ptr option list \<Rightarrow> diu_call list option" where
  "source_loop chip l [] = None"
| "source_loop chip l (None # ps) = Some []"
| "source_loop chip l (Some p # ps) =
     (case ps of
        [] \<Rightarrow> None
      | q # _ \<Rightarrow>
          map_option ((@) (case mod_Type (deref l p) of
              MODULE_HDMI \<Rightarrow> cbDIU_HDMI_SelectSource chip (Some (deref l p)) (map_option (deref l) q)
            | _ \<Rightarrow> [])) (source_loop chip l ps))"

definition cbPathMgrSelectDIUSource :: "u32 \<Rightarrow> display_source \<Rightarrow> diu_call list option" where
  "cbPathMgrSelectDIUSource chip src = source_loop chip (ModuleList src) (ModulePath src)"

section \<open>Paths\<close>

text \<open>A path of \<open>ps\<close>, and null pointers behind it.\<close>

definition path_of :: "module_ptr list \<Rightarrow> module_ptr option list" where
  "path_of ps = map Some ps @ replicate (CBIOS_MAX_MODULE_NUM - length ps) None"

lemma path_end_map: "path_end (map Some ps @ None # xs) = Some (length ps)"
  by (induction ps) simp_all

lemma off_loop_map: "off_loop l (map Some ps @ None # xs) = Some (concat (map (\<lambda>p. module_call (deref l p) False) ps))"
  by (induction ps) simp_all

lemma on_loop_map:
  assumes "i < length ps"
  shows "on_loop l (map Some ps @ xs) i = concat (rev (map (\<lambda>p. module_call (deref l p) True) (take (Suc i) ps)))"
  using assms
proof (induction i)
  case 0
  then show ?case by (cases ps) simp_all
next
  case (Suc i)
  then show ?case by (simp add: nth_append take_Suc_conv_app_nth)
qed

text \<open>On in one direction, off in the other, every module once.\<close>

lemma cbPathMgrModuleOnOff_path:
  assumes "ps \<noteq> []" "length ps < CBIOS_MAX_MODULE_NUM"
  shows "cbPathMgrModuleOnOff l (path_of ps) on =
    Some (True, concat ((if on then rev else (\<lambda>xs. xs)) (map (\<lambda>p. module_call (deref l p) on) ps)))"
proof -
  obtain xs where xs: "path_of ps = map Some ps @ None # xs"
    using assms(2) by (cases "CBIOS_MAX_MODULE_NUM - length ps") (auto simp: path_of_def)
  obtain q qs where ps: "ps = q # qs" using assms(1) by (cases ps) auto
  have first: "path_of ps \<noteq> []" "path_of ps ! 0 \<noteq> None" unfolding xs unfolding ps by simp_all
  have last: "length ps - 1 < length ps" "take (Suc (length ps - 1)) ps = ps" by (simp_all add: ps)
  show ?thesis
  proof (cases on)
    case True
    have "on_loop l (path_of ps) (length ps - 1) = concat (rev (map (\<lambda>p. module_call (deref l p) True) ps))"
      unfolding xs on_loop_map [OF last(1)] last(2) ..
    moreover have "path_end (path_of ps) = Some (length ps)" unfolding xs by (rule path_end_map)
    ultimately show ?thesis using first True by (simp add: cbPathMgrModuleOnOff_def)
  next
    case False
    have "off_loop l (path_of ps) = Some (concat (map (\<lambda>p. module_call (deref l p) False) ps))"
      unfolding xs by (rule off_loop_map)
    then show ?thesis using first False by (simp add: cbPathMgrModuleOnOff_def)
  qed
qed

definition linked :: "module_list \<Rightarrow> module_ptr list" where
  "linked l = filter (\<lambda>p. mod_Index (deref l p) \<noteq> CBIOS_MODULE_INDEX_INVALID) [To_HDCP, To_HDMI, To_HDTV, To_IGA]"

lemma link_path:
  fixes qs :: "module_ptr list" and l :: module_list
  assumes "length qs < CBIOS_MAX_MODULE_NUM"
  defines "keep \<equiv> filter (\<lambda>p. mod_Index (deref l p) \<noteq> CBIOS_MODULE_INDEX_INVALID)"
  shows "link l p (path_of (keep qs), length (keep qs)) = (path_of (keep (qs @ [p])), length (keep (qs @ [p])))"
proof -
  have "length (keep qs) \<le> length qs" unfolding keep_def by (rule length_filter_le)
  then obtain n where n: "CBIOS_MAX_MODULE_NUM - length (keep qs) = Suc n"
    using assms(1) by (cases "CBIOS_MAX_MODULE_NUM - length (keep qs)") auto
  have m: "CBIOS_MAX_MODULE_NUM - Suc (length (keep qs)) = n" using n by simp
  have "keep (qs @ [p]) = keep qs @ (if mod_Index (deref l p) \<noteq> CBIOS_MODULE_INDEX_INVALID then [p] else [])"
    by (simp add: keep_def)
  then show ?thesis using n m by (simp add: link_def path_of_def list_update_append)
qed

lemma cbPathMgrGeneratePath_linked:
  "cbPathMgrGeneratePath dev =
     dev\<lparr> DispSource := (DispSource dev)\<lparr> ModulePath := path_of (linked (ModuleList (DispSource dev))) \<rparr> \<rparr>"
proof -
  let ?l = "ModuleList (DispSource dev)"
  let ?keep = "filter (\<lambda>p. mod_Index (deref ?l p) \<noteq> CBIOS_MODULE_INDEX_INVALID)"
  have start: "(replicate CBIOS_MAX_MODULE_NUM None, 0) = (path_of (?keep []), length (?keep []))" by (simp add: path_of_def)
  have len: "length ([] :: module_ptr list) < CBIOS_MAX_MODULE_NUM" "length [To_HDCP] < CBIOS_MAX_MODULE_NUM"
    "length [To_HDCP, To_HDMI] < CBIOS_MAX_MODULE_NUM" "length [To_HDCP, To_HDMI, To_HDTV] < CBIOS_MAX_MODULE_NUM"
    by (simp_all add: CBIOS_MAX_MODULE_NUM_def)
  show ?thesis
    unfolding cbPathMgrGeneratePath_def start Let_def linked_def
      link_path [OF len(1)] append_Nil link_path [OF len(2)] append_Cons link_path [OF len(3)] link_path [OF len(4)] fst_conv ..
qed

text \<open>The modules of a device keep the types they were made with.\<close>

definition types_ok :: "module_list \<Rightarrow> bool" where
  "types_ok l \<longleftrightarrow> mod_Type (DPModule l) = MODULE_DP \<and> mod_Type (MHLModule l) = MODULE_MHL \<and> mod_Type (HDCPModule l) = MODULE_HDCP \<and>
     mod_Type (HDMIModule l) = MODULE_HDMI \<and> mod_Type (HDACModule l) = MODULE_HDAC \<and> mod_Type (HDTVModule l) = MODULE_HDTV \<and>
     mod_Type (IGAModule l) = MODULE_IGA"

lemma types_initial: "types_ok cbInitialModuleList"
  by (simp add: types_ok_def cbInitialModuleList_def Let_def)

text \<open>What the kind of monitor and the mode ask for.\<close>

definition wants_hdmi :: "device_common \<Rightarrow> bool" where
  "wants_hdmi dev \<longleftrightarrow> CurrentMonitorType dev AND (CBIOS_MONITOR_TYPE_HDMI OR CBIOS_MONITOR_TYPE_DVI) \<noteq> 0"

definition wants_buffer :: "device_common \<Rightarrow> dest_mode \<Rightarrow> bool" where
  "wants_buffer dev m \<longleftrightarrow> needs_buffer m \<and> (wants_hdmi dev \<longrightarrow> IsCEA861HDMI (Attribute (EdidStruct dev)))"

definition dp_ports :: "u32 set" where
  "dp_ports = {CBIOS_TYPE_DP1, CBIOS_TYPE_DP2, CBIOS_TYPE_DP3, CBIOS_TYPE_DP4}"

lemma port_valid: "Device \<in> dp_ports \<Longrightarrow> port_index Device \<noteq> CBIOS_MODULE_INDEX_INVALID"
  by (auto simp: dp_ports_def port_index_def CBIOS_MODULE_INDEX_INVALID_def)

lemma iga_valid:
  assumes "i < 4"
  shows "iga_module_index i = of_nat i" "iga_module_index i \<noteq> CBIOS_MODULE_INDEX_INVALID"
proof -
  consider "i = 0" | "i = 1" | "i = 2" | "i = 3" using assms by linarith
  then show "iga_module_index i = of_nat i" "iga_module_index i \<noteq> CBIOS_MODULE_INDEX_INVALID"
    by (cases; simp add: iga_module_index_def iga_indices CBIOS_MODULE_INDEX_INVALID_def)+
qed

lemma select_port_modules:
  assumes "Device \<in> dp_ports"
  defines "l' dev m l \<equiv> select_port dev Device m l"
  shows "mod_Index (HDMIModule (l' dev m l)) = (if wants_hdmi dev then port_index Device else CBIOS_MODULE_INDEX_INVALID)"
    "mod_Index (HDTVModule (l' dev m l)) = (if wants_buffer dev m then port_index Device else CBIOS_MODULE_INDEX_INVALID)"
    "HDCPModule (l' dev m l) = HDCPModule l" "IGAModule (l' dev m l) = IGAModule l" "types_ok l \<Longrightarrow> types_ok (l' dev m l)"
  by (simp_all add: l'_def select_port_def Let_def set_index_def wants_hdmi_def wants_buffer_def types_ok_def)

text \<open>
  C29. The path of a display port. Selecting a mode on an engine leaves a path that ends at that engine; the encoder
  for HDMI and DVI lies on it for such a monitor, and the line buffer behind the encoder exactly for modes that need
  it (interlaced, or 720 by 576; never for a DVI monitor). Switching on takes the modules from the engine outwards,
  switching off the other way round, and choosing the sources bypasses the line buffer exactly when it is not on the path.
\<close>

theorem cbPathMgrSelectDIUPath_correct:
  assumes "Device \<in> dp_ports" "IGAIndex < 4" "types_ok (ModuleList (DispSource dev))"
    "chip \<in> {CHIPID_E3K, CHIPID_CHX004, CHIPID_CNE001}"
  shows "(let src = DispSource (cbPathMgrSelectDIUPath Device IGAIndex m dev); l = ModuleList src; i = port_index Device in
      bIsSrcChanged src \<and> types_ok l \<and> last (linked l) = To_IGA \<and> mod_Index (IGAModule l) = of_nat IGAIndex \<and>
      ModulePath src = path_of (linked l) \<and>
      cbPathMgrModuleOnOff l (ModulePath src) True =
        Some (True, (if wants_buffer dev m then [HDTV_ModuleOnOff i True] else []) @ (if wants_hdmi dev then [HDMI_ModuleOnOff i True] else [])) \<and>
      cbPathMgrModuleOnOff l (ModulePath src) False =
        Some (True, (if wants_hdmi dev then [HDMI_ModuleOnOff i False] else []) @ (if wants_buffer dev m then [HDTV_ModuleOnOff i False] else [])) \<and>
      cbPathMgrSelectDIUSource chip src =
        Some (if wants_hdmi dev then [HDTV_LBBypass i (\<not> wants_buffer dev m)] else []))"
proof -
  define l0 where "l0 = (ModuleList (DispSource dev))\<lparr> IGAModule := set_index (iga_module_index IGAIndex) (IGAModule (ModuleList (DispSource dev))) \<rparr>"
  define l where "l = select_port dev Device m l0"
  define src where "src = DispSource (cbPathMgrSelectDIUPath Device IGAIndex m dev)"
  have src: "ModuleList src = l" "ModulePath src = path_of (linked l)" "bIsSrcChanged src"
    using assms(1) unfolding src_def cbPathMgrSelectDIUPath_def dp_ports_def [symmetric] Let_def cbPathMgrGeneratePath_linked
    by (simp_all add: upd_list_def l_def l0_def)
  note sel = select_port_modules [OF assms(1), where dev = dev and m = m and l = l0, folded l_def]
  have iga: "mod_Index (IGAModule l) = of_nat IGAIndex" "mod_Index (IGAModule l) \<noteq> CBIOS_MODULE_INDEX_INVALID"
    using iga_valid [OF assms(2)] unfolding sel(4) by (simp_all add: l0_def set_index_def)
  have types: "types_ok l" using assms(3) by (intro sel(5)) (simp add: types_ok_def l0_def set_index_def)
  then have ty: "mod_Type (deref l To_HDCP) = MODULE_HDCP" "mod_Type (deref l To_HDMI) = MODULE_HDMI"
    "mod_Type (deref l To_HDTV) = MODULE_HDTV" "mod_Type (deref l To_IGA) = MODULE_IGA" by (simp_all add: types_ok_def)
  define h where "h = (if mod_Index (HDCPModule l) \<noteq> CBIOS_MODULE_INDEX_INVALID then [To_HDCP] else [])"
  have path: "linked l = h @ (if wants_hdmi dev then [To_HDMI] else []) @ (if wants_buffer dev m then [To_HDTV] else []) @ [To_IGA]"
    using sel(1,2) iga(2) port_valid [OF assms(1)] by (simp add: linked_def h_def)
  have len: "length (linked l) < CBIOS_MAX_MODULE_NUM" by (simp add: path h_def CBIOS_MAX_MODULE_NUM_def)
  have ne: "linked l \<noteq> []" by (simp add: path)
  have calls: "module_call (deref l To_IGA) on = []" "module_call (deref l To_HDCP) on = []"
    "wants_hdmi dev \<Longrightarrow> module_call (deref l To_HDMI) on = [HDMI_ModuleOnOff (port_index Device) on]"
    "wants_buffer dev m \<Longrightarrow> module_call (deref l To_HDTV) on = [HDTV_ModuleOnOff (port_index Device) on]" for on
    using ty sel(1,2) by (simp_all add: module_call_def)
  have on_off: "cbPathMgrModuleOnOff l (ModulePath src) True =
        Some (True, (if wants_buffer dev m then [HDTV_ModuleOnOff (port_index Device) True] else []) @
          (if wants_hdmi dev then [HDMI_ModuleOnOff (port_index Device) True] else []))"
    "cbPathMgrModuleOnOff l (ModulePath src) False =
        Some (True, (if wants_hdmi dev then [HDMI_ModuleOnOff (port_index Device) False] else []) @
          (if wants_buffer dev m then [HDTV_ModuleOnOff (port_index Device) False] else []))"
    unfolding src(2) cbPathMgrModuleOnOff_path [OF ne len] by (simp_all add: path h_def calls del: deref.simps)
  have source: "source_loop chip l (path_of (linked l)) =
      Some (if wants_hdmi dev then [HDTV_LBBypass (port_index Device) (\<not> wants_buffer dev m)] else [])"
  proof -
    obtain xs where xs: "path_of (linked l) = map Some (linked l) @ None # None # xs"
    proof -
      have "length (linked l) \<le> 4" by (simp add: path h_def)
      then obtain n where "CBIOS_MAX_MODULE_NUM - length (linked l) = Suc (Suc n)"
        by (cases "CBIOS_MAX_MODULE_NUM - length (linked l)"; cases "CBIOS_MAX_MODULE_NUM - length (linked l) - 1")
          (simp_all add: CBIOS_MAX_MODULE_NUM_def)
      then show ?thesis using that by (simp add: path_of_def)
    qed
    have sel_hdmi: "wants_hdmi dev \<Longrightarrow> mod_Index (deref l To_HDMI) = port_index Device" using sel(1) by simp
    show ?thesis
      unfolding xs unfolding path h_def
      using assms(4) ty sel_hdmi by (auto simp: cbDIU_HDMI_SelectSource_def simp del: deref.simps)
  qed
  have "last (linked l) = To_IGA" by (simp add: path)
  then show ?thesis
    unfolding src_def [symmetric] Let_def src(1) cbPathMgrSelectDIUSource_def
    using src types iga(1) on_off source by simp
qed

lemma cbPathMgrSelectDIUPath_correct_witness:
  "cbPathMgrSelectDIUSource CHIPID_E3K (DispSource (cbPathMgrSelectDIUPath CBIOS_TYPE_DP2 1
     \<lparr> dm_XRes = 720, dm_YRes = 576, InterlaceFlag = False \<rparr>
     \<lparr> DeviceType = CBIOS_TYPE_DP2, CurrentMonitorType = CBIOS_MONITOR_TYPE_DVI, EdidStruct = empty_edid_struct,
       DispSource = \<lparr> ModuleList = cbInitialModuleList, ModulePath = [], bIsSrcChanged = False \<rparr> \<rparr>)) = Some [HDTV_LBBypass 1 True]"
proof -
  let ?m = "\<lparr> dm_XRes = 720, dm_YRes = 576, InterlaceFlag = False \<rparr>"
  let ?dev = "\<lparr> DeviceType = CBIOS_TYPE_DP2, CurrentMonitorType = CBIOS_MONITOR_TYPE_DVI, EdidStruct = empty_edid_struct,
       DispSource = \<lparr> ModuleList = cbInitialModuleList, ModulePath = [], bIsSrcChanged = False \<rparr> \<rparr>"
  have w: "wants_hdmi ?dev" "\<not> wants_buffer ?dev ?m" "port_index CBIOS_TYPE_DP2 = 1" by code_simp+
  have "types_ok (ModuleList (DispSource ?dev))" by (simp add: types_initial)
  from cbPathMgrSelectDIUPath_correct [OF _ _ this, of CBIOS_TYPE_DP2 1 CHIPID_E3K ?m] show ?thesis
    using w by (simp add: dp_ports_def Let_def)
qed

text \<open>
  The device of a module: the lowest supported device that has the module with that index, and none when
  no device has it.
\<close>

theorem cbGetDeviceType_lowest:
  "(let d = cbGetDeviceType n devs S i t; owns = (\<lambda>k. bit S k \<and> cbGetModuleIndex n devs (2 ^ k) t = Some i)
    in if i = CBIOS_MODULE_INDEX_INVALID \<or> t = MODULE_NONE \<or> (\<forall>k. \<not> owns k) then d = CBIOS_TYPE_NONE
       else \<exists>k. d = 2 ^ k \<and> owns k \<and> (\<forall>j<k. \<not> owns j))"
proof -
  have loop: "if \<forall>k. \<not> (bit S k \<and> cbGetModuleIndex n devs (2 ^ k) t = Some i) then type_loop n devs i t S = CBIOS_TYPE_NONE
    else \<exists>k. type_loop n devs i t S = 2 ^ k \<and> (bit S k \<and> cbGetModuleIndex n devs (2 ^ k) t = Some i) \<and>
      (\<forall>j<k. \<not> (bit S j \<and> cbGetModuleIndex n devs (2 ^ j) t = Some i))"
  proof (induction n devs i t S rule: type_loop.induct)
    case (1 n devs i t S)
    show ?case
    proof (cases "S = 0")
      case True
      then show ?thesis by (simp add: type_loop.simps)
    next
      case False
      obtain k where k: "lowest_bit S k" using lowest_bit_exists [OF False] .
      have low: "bit S k" "\<And>j. j < k \<Longrightarrow> \<not> bit S j" using k by (simp_all add: lowest_bit_def)
      define S' where "S' = S AND NOT (GET_LAST_BIT S)"
      have S': "bit S' j = (bit S j \<and> j \<noteq> k)" for j using bits_clear [OF k] unfolding S'_def bits_def by blast
      have unf: "type_loop n devs i t S = (if cbGetModuleIndex n devs (2 ^ k) t = Some i then 2 ^ k else type_loop n devs i t S')"
        using False by (subst type_loop.simps) (simp add: Let_def GET_LAST_BIT_exp [OF k] S'_def)
      show ?thesis
      proof (cases "cbGetModuleIndex n devs (2 ^ k) t = Some i")
        case True
        then have some: "\<not> (\<forall>k. \<not> (bit S k \<and> cbGetModuleIndex n devs (2 ^ k) t = Some i))" using low(1) by blast
        have least: "\<exists>j. type_loop n devs i t S = 2 ^ j \<and> (bit S j \<and> cbGetModuleIndex n devs (2 ^ j) t = Some i) \<and>
            (\<forall>h<j. \<not> (bit S h \<and> cbGetModuleIndex n devs (2 ^ h) t = Some i))"
          using True low unf by (intro exI [of _ k]) simp
        show ?thesis unfolding if_not_P [OF some] by (rule least)
      next
        case False
        then have same: "(bit S j \<and> cbGetModuleIndex n devs (2 ^ j) t = Some i) = (bit S' j \<and> cbGetModuleIndex n devs (2 ^ j) t = Some i)" for j
          using S' by auto
        have "cbGetModuleIndex n devs (GET_LAST_BIT S) t \<noteq> Some i" using False GET_LAST_BIT_exp [OF k] by simp
        note IH = 1 [OF \<open>S \<noteq> 0\<close> refl this, folded S'_def]
        show ?thesis unfolding same unf if_not_P [OF False] by (rule IH)
      qed
    qed
  qed
  show ?thesis
    unfolding Let_def cbGetDeviceType_def using loop by (auto split: if_splits)
qed

lemma cbGetDeviceType_lowest_witness:
  "\<exists>k. cbGetDeviceType 4 (replicate 32 None) 0x8000 0 MODULE_DP = 0 \<and>
     cbGetDeviceType 4 (replicate 16 None @ [Some \<lparr> DeviceType = CBIOS_TYPE_DP2, CurrentMonitorType = CBIOS_MONITOR_TYPE_DP,
       EdidStruct = empty_edid_struct, DispSource = \<lparr> ModuleList = cbInitialModuleList\<lparr> DPModule := \<lparr> mod_Type = MODULE_DP, mod_Index = 1 \<rparr> \<rparr>,
       ModulePath = [], bIsSrcChanged = False \<rparr> \<rparr>] @ replicate 15 None) 0x18000 1 MODULE_DP = 2 ^ k"
proof -
  let ?dev = "\<lparr> DeviceType = CBIOS_TYPE_DP2, CurrentMonitorType = CBIOS_MONITOR_TYPE_DP,
       EdidStruct = empty_edid_struct, DispSource = \<lparr> ModuleList = cbInitialModuleList\<lparr> DPModule := \<lparr> mod_Type = MODULE_DP, mod_Index = 1 \<rparr> \<rparr>,
       ModulePath = [], bIsSrcChanged = False \<rparr> \<rparr>"
  let ?devs = "replicate 16 None @ [Some ?dev] @ replicate 15 None"
  have own: "bit (0x18000 :: u32) 16" "cbGetModuleIndex 4 ?devs (2 ^ 16) MODULE_DP = Some 1" by code_simp+
  have "\<not> (\<forall>k. \<not> (bit (0x18000 :: u32) k \<and> cbGetModuleIndex 4 ?devs (2 ^ k) MODULE_DP = Some 1))" using own by blast
  moreover have "(1 :: u32) \<noteq> CBIOS_MODULE_INDEX_INVALID" "MODULE_DP \<noteq> MODULE_NONE" by (simp_all add: CBIOS_MODULE_INDEX_INVALID_def)
  ultimately have listed: "\<not> ((1 :: u32) = CBIOS_MODULE_INDEX_INVALID \<or> MODULE_DP = MODULE_NONE \<or>
      (\<forall>k. \<not> (bit (0x18000 :: u32) k \<and> cbGetModuleIndex 4 ?devs (2 ^ k) MODULE_DP = Some 1)))" by blast
  have "\<exists>k. cbGetDeviceType 4 ?devs 0x18000 1 MODULE_DP = 2 ^ k"
    using cbGetDeviceType_lowest [of 4 ?devs "0x18000" 1 MODULE_DP, unfolded Let_def if_not_P [OF listed]] by blast
  moreover have "cbGetDeviceType 4 (replicate 32 None) 0x8000 0 MODULE_DP = 0" by code_simp
  ultimately show ?thesis by blast
qed

end
