(* ===== verification/Cea_Block.thy ===== *)
theory Cea_Block
  imports Edid_Svd Monitor_Attrib
begin

text \<open>
  The second pass over the extension blocks (\<^verbatim>\<open>cbEDIDModule_GetCEA861Mode\<close> of
  \<^verbatim>\<open>cbios/Util/CBiosEDID.c\<close>): the data blocks with an extended tag, the walk over all data blocks of an
  extension, and what is done once all extensions have been read. It adds timings to the list of
  \<open>Edid_List\<close> and fills the attributes that the first pass leaves alone.
\<close>

section \<open>Blocks with an extended tag\<close>

definition VIDEO_CAPABILITY_DATA_BLOCK_TAG :: u8 where "VIDEO_CAPABILITY_DATA_BLOCK_TAG = 0x00"
definition COLORIMETRY_DATA_BLOCK_TAG :: u8 where "COLORIMETRY_DATA_BLOCK_TAG = 0x05"
definition HDR_STATIC_META_DATA_BLOCK :: u8 where "HDR_STATIC_META_DATA_BLOCK = 0x06"
definition VIDEO_FMT_PREFERENCE_DATA_BLOCK :: u8 where "VIDEO_FMT_PREFERENCE_DATA_BLOCK = 0x0D"
definition YCBCR420_VIDEO_DATA_BLOCK :: u8 where "YCBCR420_VIDEO_DATA_BLOCK = 0x0E"
definition YCBCR420_CAP_MAP_DATA_BLOCK :: u8 where "YCBCR420_CAP_MAP_DATA_BLOCK = 0x0F"
definition RSVD_HDMI_AUDIO_DATA_BLOCK_TAG :: u8 where "RSVD_HDMI_AUDIO_DATA_BLOCK_TAG = 0x12"
definition INFOFRAME_DATA_BLOCK :: u8 where "INFOFRAME_DATA_BLOCK = 0x20"

lemmas cea_ext_tags = VIDEO_CAPABILITY_DATA_BLOCK_TAG_def COLORIMETRY_DATA_BLOCK_TAG_def HDR_STATIC_META_DATA_BLOCK_def
  VIDEO_FMT_PREFERENCE_DATA_BLOCK_def YCBCR420_VIDEO_DATA_BLOCK_def YCBCR420_CAP_MAP_DATA_BLOCK_def
  RSVD_HDMI_AUDIO_DATA_BLOCK_TAG_def INFOFRAME_DATA_BLOCK_def

definition SVR_FLAG_VIC :: u8 where "SVR_FLAG_VIC = 1"
definition SVR_FLAG_DTD_INDEX :: u8 where "SVR_FLAG_DTD_INDEX = 2"

text \<open>The preferred formats: codes, and numbers of detailed timings.\<close>

definition svr_step :: "u8 list \<Rightarrow> nat \<Rightarrow> (u8 \<times> u8) list \<Rightarrow> (u8 \<times> u8) list" where
  "svr_step d i refs =
     (let SVR = d ! (2 + i)
      in if 1 \<le> SVR \<and> SVR \<le> 127 \<or> 193 \<le> SVR \<and> SVR \<le> 253 then refs[i := (SVR_FLAG_VIC, SVR)]
         else if 129 \<le> SVR \<and> SVR \<le> 144 then refs[i := (SVR_FLAG_DTD_INDEX, SVR - 128)]
         else refs)"

text \<open>Formats that a sink takes in YCbCr 4:2:0 only.\<close>

definition y420_only :: "device_timing \<Rightarrow> device_timing" where
  "y420_only t = t\<lparr>IsSupportYCbCr420 := True, IsSupportOtherFormats := False\<rparr>"

definition y420_step :: "pool \<Rightarrow> u8 \<Rightarrow> edid_struct \<Rightarrow> edid_struct" where
  "y420_step pool svd st =
     (case cbEDIDModule_GetFmtIdxFromSVD svd 0 of
        (Status, VIC, IsNative) \<Rightarrow>
          if \<not> Status then st
          else let (added, st, EntryIndex) = cbEDIDModule_AddSvdFormat pool st (ucast VIC) IsNative
               in if added then upd_timing (unat (the EntryIndex)) y420_only st else st)"

text \<open>Formats that it takes in 4:2:0 as well.\<close>

definition y420_also :: "device_timing \<Rightarrow> device_timing" where
  "y420_also t = t\<lparr>IsSupportYCbCr420 := True, IsSupportOtherFormats := True\<rparr>"

definition cmdb_step :: "u8 \<Rightarrow> edid_struct \<Rightarrow> edid_struct" where
  "cmdb_step svd st =
     (case cbEDIDModule_GetFmtIdxFromSVD svd 0 of
        (Status, VIC, IsNative) \<Rightarrow>
          if \<not> Status then st
          else case cbEDIDModule_isSvdFormatExist st (ucast VIC) of
                 None \<Rightarrow> st
               | Some EntryIndex \<Rightarrow> upd_timing EntryIndex y420_also st)"

definition cap_map_step :: "u8 list \<Rightarrow> cea_svd_data \<Rightarrow> nat \<Rightarrow> nat \<Rightarrow> edid_struct \<Rightarrow> edid_struct" where
  "cap_map_step d svds i j st =
     (if bit (d ! (2 + i)) j \<and> j + 8 * i < unat (SVDCount svds) then cmdb_step (SVD svds ! (j + 8 * i)) st else st)"

definition y420_cap_map :: "u8 list \<Rightarrow> nat \<Rightarrow> cea_svd_data \<Rightarrow> edid_struct \<Rightarrow> edid_struct" where
  "y420_cap_map d PayloadLen svds st =
     (if PayloadLen = 1 then fold (\<lambda>i. cmdb_step (SVD svds ! i)) [0..<unat (SVDCount svds)] st
      else fold (\<lambda>i. fold (cap_map_step d svds i) [0..<8]) [0..<PayloadLen - 1] st)"

text \<open>
  The info frames a sink wants, in the order of their importance: a header with the type and the
  number of bytes that follow; behind the header of a vendor's frame three bytes name the vendor.
\<close>

type_synonym frame_caps = "info_frame \<Rightarrow> info_frame_caps"

definition set_frame :: "info_frame \<Rightarrow> nat \<Rightarrow> frame_caps \<Rightarrow> frame_caps" where
  "set_frame f SupportPriority c = c(f := \<lparr>bSupport = True, Priority = odd SupportPriority\<rparr>)"

definition frame_step :: "u8 list \<Rightarrow> nat \<Rightarrow> nat \<Rightarrow> nat \<Rightarrow> frame_caps \<Rightarrow> nat \<times> frame_caps" where
  "frame_step d TypeCode Index SupportPriority c =
     (if TypeCode = 1 then
        (Index + 3,
         if d ! (Index + 1) = 0x03 \<and> d ! (Index + 2) = 0x0C \<and> d ! (Index + 3) = 0x00 then set_frame HDMISpecific SupportPriority c
         else if d ! (Index + 1) = 0xD8 \<and> d ! (Index + 2) = 0x5D \<and> d ! (Index + 3) = 0xC4 then set_frame HFSpecific SupportPriority c
         else c)
      else if TypeCode = 2 then (Index, set_frame AVI SupportPriority c)
      else if TypeCode = 3 then (Index, set_frame SourceProductDesc SupportPriority c)
      else if TypeCode = 4 then (Index, set_frame Audio SupportPriority c)
      else if TypeCode = 5 then (Index, set_frame MpegSource SupportPriority c)
      else if TypeCode = 6 then (Index, set_frame NTSCVBI SupportPriority c)
      else (Index, c))"

lemma frame_step_index: "Index \<le> fst (frame_step d ty Index p c)"
  by (simp add: frame_step_def)

function frame_loop :: "u8 list \<Rightarrow> nat \<Rightarrow> nat \<Rightarrow> nat \<Rightarrow> frame_caps \<Rightarrow> frame_caps" where
  "frame_loop d PayloadLen Index SupportPriority c =
     (if Index < PayloadLen then
        let SIDHeader = d ! Index; Len = unat (drop_bit 5 SIDHeader AND 0x7); TypeCode = unat (SIDHeader AND 0x1F);
            r = frame_step d TypeCode (Index + 1) SupportPriority c
        in frame_loop d PayloadLen (fst r + Len) (SupportPriority + 1) (snd r)
      else c)"
  by pat_completeness auto
termination
proof (relation "measure (\<lambda>(d, n, i, p, c). n - i)")
  fix d n i p c h len ty and r :: "nat \<times> frame_caps"
  assume "i < n" "r = frame_step d ty (i + 1) p c"
  then show "((d, n, fst r + len, p + 1, snd r), (d, n, i, p, c)) \<in> measure (\<lambda>(d, n, i, p, c). n - i)"
    using frame_step_index [of "i + 1" d ty p c] by simp
qed simp

declare frame_loop.simps [simp del]

definition infoframe_block :: "u8 list \<Rightarrow> nat \<Rightarrow> monitor_attrib \<Rightarrow> monitor_attrib" where
  "infoframe_block d PayloadLen a =
     (let Len = unat (drop_bit 5 (d ! 2) AND 0x7)
      in a\<lparr>NumOfAdditionalVSIFs := d ! 3, InfoFrameSupCaps := frame_loop d PayloadLen (4 + Len) 0 (InfoFrameSupCaps a)\<rparr>)"

definition upd_attrib :: "(monitor_attrib \<Rightarrow> monitor_attrib) \<Rightarrow> edid_struct \<Rightarrow> edid_struct" where
  "upd_attrib f st = st\<lparr>Attribute := f (Attribute st)\<rparr>"

text \<open>The pools are those of the rounds that may add a timing.\<close>

definition cbEDIDModule_ParseCEAExtBlock ::
  "(nat \<Rightarrow> pool) \<Rightarrow> u8 list \<Rightarrow> edid_struct \<Rightarrow> nat \<Rightarrow> edid_struct \<times> nat" where
  "cbEDIDModule_ParseCEAExtBlock pool d st BlockIndex =
     (if block_tag d 0 \<noteq> CEA_EXTENDED_BLOCK_TAG \<or> block_len d 0 = 0 then (st, 1)
      else
        let PayloadLen = block_len d 0; ExtTagCode = d ! 1
        in if ExtTagCode = VIDEO_CAPABILITY_DATA_BLOCK_TAG
           then (upd_attrib (\<lambda>a. a\<lparr>VideoCapabilityData := d ! 2\<rparr>) st, PayloadLen + 1)
           else if ExtTagCode = COLORIMETRY_DATA_BLOCK_TAG
           then (upd_attrib (\<lambda>a. a\<lparr>ColorimetryData := (d ! 2, d ! 3)\<rparr>) st, PayloadLen + 1)
           else if ExtTagCode = HDR_STATIC_META_DATA_BLOCK
           then (if 6 < PayloadLen then st
                 else upd_attrib (\<lambda>a. a\<lparr>HDRStaticMetaData := map (\<lambda>i. d ! (2 + i)) [0..<PayloadLen - 1] @
                        drop (PayloadLen - 1) (HDRStaticMetaData a)\<rparr>) st, PayloadLen + 1)
           else if ExtTagCode = VIDEO_FMT_PREFERENCE_DATA_BLOCK
           then (upd_attrib (\<lambda>a. a\<lparr>ShortVideoRef := fold (svr_step d) [0..<PayloadLen - 1] (ShortVideoRef a)\<rparr>) st, PayloadLen + 1)
           else if ExtTagCode = YCBCR420_VIDEO_DATA_BLOCK
           then (fold (\<lambda>i. y420_step (pool i) (d ! (2 + i))) [0..<PayloadLen - 1] st, PayloadLen + 1)
           else if ExtTagCode = YCBCR420_CAP_MAP_DATA_BLOCK
           then (y420_cap_map d PayloadLen (SVDData (Attribute st) ! (BlockIndex - 1)) st, PayloadLen + 1)
           else if ExtTagCode = RSVD_HDMI_AUDIO_DATA_BLOCK_TAG
           then (upd_attrib (\<lambda>a. a\<lparr>HDMIAudioData := audio_3d_block d (HDMIAudioData a)\<rparr>) st, PayloadLen + 1)
           else if ExtTagCode = INFOFRAME_DATA_BLOCK
           then (upd_attrib (infoframe_block d PayloadLen) st, PayloadLen + 1)
           else if ExtTagCode = HF_SINK_CAPABILITY_DATA_BLOCK
           then (case cbEDIDModule_ParseHFSCDS (Some d) (Some (HFSCDSData (Attribute st))) of
                   (len, v) \<Rightarrow> (upd_attrib (\<lambda>a. a\<lparr>HFSCDSData := the v\<rparr>) st, len))
           else (st, PayloadLen + 1))"

section \<open>The walk over the extensions\<close>

definition cbEDIDModule_GetHDMIAudioFormat :: "u8 list \<Rightarrow> edid_struct \<Rightarrow> edid_struct \<times> u32" where
  "cbEDIDModule_GetHDMIAudioFormat d st =
     (case read_audio_formats d (HDAudioFormat st, HDAudioFormatNum st) of
        ((fs, num), AddedNum) \<Rightarrow> (st\<lparr>HDAudioFormat := fs, HDAudioFormatNum := num\<rparr>, AddedNum))"

definition cbEDIDPatchHDMIAudio :: "edid_struct \<Rightarrow> edid_struct" where
  "cbEDIDPatchHDMIAudio st =
     (case patch_audio_formats (IsCEA861Audio (Attribute st)) (HDAudioFormat st, HDAudioFormatNum st) of
        (fs, num) \<Rightarrow> st\<lparr>HDAudioFormat := fs, HDAudioFormatNum := num\<rparr>)"

definition cbEDIDModule_SADPatch :: "edid_struct \<Rightarrow> edid_struct" where
  "cbEDIDModule_SADPatch st =
     (case patch_sads (CEA_SADs (Attribute st)) (SAD_Count (Attribute st)) (HDAudioFormat st, HDAudioFormatNum st) of
        (sads, fs, num) \<Rightarrow> (upd_attrib (\<lambda>a. a\<lparr>CEA_SADs := sads\<rparr>) st)\<lparr>HDAudioFormat := fs, HDAudioFormatNum := num\<rparr>)"

definition cea_data_block :: "(nat \<Rightarrow> pool) \<Rightarrow> u8 list \<Rightarrow> nat \<Rightarrow> nat \<Rightarrow> edid_struct \<Rightarrow> edid_struct" where
  "cea_data_block pool b BlockIndex i st =
     (if block_tag b i = AUDIO_DATA_BLOCK_TAG then fst (cbEDIDModule_GetHDMIAudioFormat (drop i b) st)
      else if block_tag b i = VIDEO_DATA_BLOCK_TAG then cbEDIDModule_GetSVDMode pool (drop i b) st BlockIndex
      else if block_tag b i = VENDOR_SPECIFIC_DATA_BLOCK_TAG then
        (if b ! (i + 1) = 0x03 \<and> b ! (i + 2) = 0x0C \<and> b ! (i + 3) = 0x00
         then upd_attrib (\<lambda>a. a\<lparr>VSDBData := the (snd (cbEDIDModule_ParseHDMIVSDB (Some (drop i b)) (Some (VSDBData a))))\<rparr>) st
         else if b ! (i + 1) = 0xD8 \<and> b ! (i + 2) = 0x5D \<and> b ! (i + 3) = 0xC4
         then upd_attrib (\<lambda>a. a\<lparr>HFSCDSData := the (snd (cbEDIDModule_ParseHFSCDS (Some (drop i b)) (Some (HFSCDSData a))))\<rparr>) st
         else st)
      else if block_tag b i = CEA_EXTENDED_BLOCK_TAG then fst (cbEDIDModule_ParseCEAExtBlock pool (drop i b) st BlockIndex)
      else st)"

text \<open>The index is a byte in the source; the offset is below 128 and a block at most 32 bytes long, so it never wraps.\<close>

function cea_data_blocks ::
  "(nat \<Rightarrow> nat \<Rightarrow> pool) \<Rightarrow> u8 list \<Rightarrow> nat \<Rightarrow> nat \<Rightarrow> nat \<Rightarrow> edid_struct \<Rightarrow> edid_struct" where
  "cea_data_blocks pool b BlockIndex DtlTimingOffset i st =
     (if i < DtlTimingOffset
      then cea_data_blocks pool b BlockIndex DtlTimingOffset (i + (block_len b i + 1)) (cea_data_block (pool i) b BlockIndex i st)
      else st)"
  by pat_completeness auto
termination
  by (relation "measure (\<lambda>(pool, b, k, off, i, st). off - i)") auto

declare cea_data_blocks.simps [simp del]

definition cea_extension :: "(nat \<Rightarrow> nat \<Rightarrow> nat \<Rightarrow> pool) \<Rightarrow> u8 list \<Rightarrow> nat \<Rightarrow> edid_struct \<Rightarrow> edid_struct" where
  "cea_extension pool e BlockIndex st =
     (let b = ext_block e BlockIndex; DtlTimingOffset = b ! 2
      in if b ! 0 \<noteq> CEA_TAG then st
         else if DtlTimingOffset = 0 \<or> EDID_BLK_SIZE \<le> unat DtlTimingOffset then st
         else cea_data_blocks (pool BlockIndex) b BlockIndex (unat DtlTimingOffset) 4
                (fst (cbEDIDModule_GetCEADetailedMode (pool BlockIndex 0) b DtlTimingOffset st)))"

definition hdmi_vic_step :: "pool \<Rightarrow> u8 \<Rightarrow> edid_struct \<Rightarrow> edid_struct" where
  "hdmi_vic_step pool v st = fst (snd (cbEDIDModule_AddSvdFormat pool st (ucast v + of_nat CBIOS_HDMI_NORMAL_VIC_COUNTS) False))"

definition cbEDIDModule_GetHDMIVICMode :: "(nat \<Rightarrow> pool) \<Rightarrow> edid_struct \<Rightarrow> edid_struct" where
  "cbEDIDModule_GetHDMIVICMode pool st =
     (let v = VSDBData (Attribute st)
      in fold (\<lambda>i. hdmi_vic_step (pool i) (HDMIVIC v ! i)) [0..<unat (HDMIVICLen v)] st)"

text \<open>\<open>pool 0 0\<close> serves the formats of the vendor block.\<close>

definition cbEDIDModule_GetCEA861Mode ::
  "(nat \<Rightarrow> nat \<Rightarrow> nat \<Rightarrow> pool) \<Rightarrow> u8 list option \<Rightarrow> nat \<Rightarrow> edid_struct \<Rightarrow> edid_struct \<times> u32" where
  "cbEDIDModule_GetCEA861Mode pool Buffer BufferSize st =
     (let TotalBlocks = cbEDIDModule_GetTotalBlockNum Buffer BufferSize;
          st' = fold (cea_extension pool (the Buffer)) [1..<TotalBlocks] st;
          st' = cbEDIDModule_GetHDMIVICMode (pool 0 0) (cbEDIDPatchHDMIAudio st')
      in (st', TimingNum st' - TimingNum st))"

section \<open>Marking formats for 4:2:0\<close>

text \<open>The format a short descriptor stands for, as a set of at most one code.\<close>

definition svd_code :: "u8 \<Rightarrow> u16 set" where
  "svd_code svd = {ucast fmt |fmt native. cbEDIDModule_GetFmtIdxFromSVD svd 0 = (True, fmt, native)}"

definition mark_formats :: "u16 set \<Rightarrow> device_timing list \<Rightarrow> device_timing list" where
  "mark_formats V ts = map (\<lambda>t. if vic t \<in> V then y420_also t else t) ts"

lemma mark_vics: "map vic (mark_formats V ts) = map vic ts"
  by (simp add: mark_formats_def y420_also_def)

lemma mark_mark: "mark_formats V (mark_formats W ts) = mark_formats (V \<union> W) ts"
  by (auto simp: mark_formats_def y420_also_def)

lemma mark_none: "mark_formats {} ts = ts"
  by (simp add: mark_formats_def)

lemma vics_length: "map vic ts = map vic us \<Longrightarrow> length ts = length us"
  by (metis length_map)

lemma formats_once_vics: "map vic ts = map vic us \<Longrightarrow> formats_once ts \<Longrightarrow> formats_once us"
proof -
  assume eq: "map vic ts = map vic us" and once: "formats_once ts"
  have "vic (us ! i) = vic (ts ! i)" if "i < length us" for i
    using that eq by (metis length_map nth_map)
  then show ?thesis using once vics_length [OF eq] by (simp add: formats_once_def)
qed

lemma find_unique:
  assumes once: "formats_once ts" and v: "v \<noteq> 0" and f: "find_from (\<lambda>t. vic t = v) ts 0 = Some k"
  shows "k < length ts \<and> vic (ts ! k) = v \<and> (\<forall>i < length ts. vic (ts ! i) = v \<longrightarrow> i = k)"
proof -
  have k: "k < length ts" "vic (ts ! k) = v" using find_from_Some [OF f] by simp_all
  then show ?thesis using once v by (auto simp: formats_once_def)
qed

lemma mark_one:
  assumes "k < length ts" "vic (ts ! k) = v" "\<forall>i < length ts. vic (ts ! i) = v \<longrightarrow> i = k"
  shows "ts[k := y420_also (ts ! k)] = mark_formats {v} ts"
proof (rule nth_equalityI)
  fix i assume i: "i < length (ts[k := y420_also (ts ! k)])"
  show "ts[k := y420_also (ts ! k)] ! i = mark_formats {v} ts ! i"
  proof (cases "i = k")
    case True
    then show ?thesis using assms(1,2) by (simp add: mark_formats_def)
  next
    case False
    then have "vic (ts ! i) \<noteq> v" using assms(3) i by auto
    then show ?thesis using False i by (simp add: mark_formats_def)
  qed
qed (simp add: mark_formats_def)

lemma cmdb_step_spec:
  assumes ok: "edid_ok b st" and once: "formats_once (timings st)"
  shows "edid_ok b (cmdb_step svd st) \<and> timings (cmdb_step svd st) = mark_formats (svd_code svd) (timings st) \<and>
    Attribute (cmdb_step svd st) = Attribute st"
proof -
  obtain status fmt native where dec: "cbEDIDModule_GetFmtIdxFromSVD svd 0 = (status, fmt, native)"
    by (cases "cbEDIDModule_GetFmtIdxFromSVD svd 0")
  show ?thesis
  proof (cases status)
    case False
    then have "svd_code svd = {}" by (auto simp: svd_code_def dec)
    then show ?thesis using False ok by (simp add: cmdb_step_def dec mark_none)
  next
    case True
    note r = svd_fmt_range [OF dec [unfolded eqTrueI [OF True]]]
    let ?v = "ucast fmt :: u16"
    have v: "?v \<noteq> 0" using r(1) by auto
    have code: "svd_code svd = {?v}" using True by (auto simp: svd_code_def dec)
    show ?thesis
    proof (cases "cbEDIDModule_isSvdFormatExist st ?v")
      case None
      then have "?v \<notin> vic ` set (timings st)"
        using v find_from_None [of "\<lambda>t. vic t = ?v" "timings st" 0] ok
        by (auto simp: cbEDIDModule_isSvdFormatExist_def timings_def edid_ok_def split: if_splits option.splits)
      then have "\<forall>t \<in> set (timings st). vic t \<noteq> ?v" by (metis image_eqI)
      then have "mark_formats {?v} (timings st) = timings st" by (simp add: mark_formats_def map_idI)
      then show ?thesis using True None ok code by (simp add: cmdb_step_def dec)
    next
      case (Some k)
      then have f: "find_from (\<lambda>t. vic t = ?v) (timings st) 0 = Some k"
        by (simp add: cbEDIDModule_isSvdFormatExist_def split: if_splits)
      note u = find_unique [OF once v f]
      have "cmdb_step svd st = upd_timing k y420_also st" using True Some by (simp add: cmdb_step_def dec)
      moreover have "timings (upd_timing k y420_also st) = mark_formats {?v} (timings st)"
        using u by (simp add: timings_upd [OF ok] mark_one)
      ultimately show ?thesis using upd_keeps [OF ok] code by (simp add: upd_timing_def)
    qed
  qed
qed

lemma cmdb_steps_spec:
  "edid_ok b st \<Longrightarrow> formats_once (timings st) \<Longrightarrow>
   edid_ok b (fold cmdb_step svds st) \<and> timings (fold cmdb_step svds st) = mark_formats (\<Union>(svd_code ` set svds)) (timings st) \<and>
   Attribute (fold cmdb_step svds st) = Attribute st"
proof (induction svds arbitrary: st)
  case (Cons s svds)
  note step = cmdb_step_spec [OF Cons.prems, of s]
  have "formats_once (timings (cmdb_step s st))"
    using step formats_once_vics [OF _ Cons.prems(2)] by (simp add: mark_vics)
  then show ?case using Cons.IH [of "cmdb_step s st"] step by (simp add: mark_mark Un_commute)
qed (simp add: mark_none)

text \<open>The descriptors that the bits of a capability map select, in the order of the code.\<close>

definition map_selects :: "u8 list \<Rightarrow> nat \<Rightarrow> cea_svd_data \<Rightarrow> nat \<Rightarrow> bool" where
  "map_selects d PayloadLen svds n \<longleftrightarrow> n < unat (SVDCount svds) \<and>
     (PayloadLen = 1 \<or> n div 8 < PayloadLen - 1 \<and> bit (d ! (2 + n div 8)) (n mod 8))"

definition selected :: "u8 list \<Rightarrow> nat \<Rightarrow> cea_svd_data \<Rightarrow> u8 list" where
  "selected d PayloadLen svds =
     (if PayloadLen = 1 then map (\<lambda>i. SVD svds ! i) [0..<unat (SVDCount svds)]
      else concat (map (\<lambda>i. map (\<lambda>j. SVD svds ! (j + 8 * i))
             (filter (\<lambda>j. bit (d ! (2 + i)) j \<and> j + 8 * i < unat (SVDCount svds)) [0..<8])) [0..<PayloadLen - 1]))"

lemma fold_cap_map_step:
  "fold (cap_map_step d svds i) js st =
     fold cmdb_step (map (\<lambda>j. SVD svds ! (j + 8 * i)) (filter (\<lambda>j. bit (d ! (2 + i)) j \<and> j + 8 * i < unat (SVDCount svds)) js)) st"
  by (induction js arbitrary: st) (simp_all add: cap_map_step_def)

lemma fold_concat: "fold (\<lambda>i. fold f (g i)) is st = fold f (concat (map g is)) st"
  by (induction "is" arbitrary: st) simp_all

lemma y420_cap_map_fold: "y420_cap_map d n svds st = fold cmdb_step (selected d n svds) st"
proof (cases "n = 1")
  case True
  then show ?thesis by (simp add: y420_cap_map_def selected_def fold_map comp_def)
next
  case False
  have "fold (cap_map_step d svds i) [0..<8] = fold cmdb_step (map (\<lambda>j. SVD svds ! (j + 8 * i))
      (filter (\<lambda>j. bit (d ! (2 + i)) j \<and> j + 8 * i < unat (SVDCount svds)) [0..<8]))" for i
    by (rule ext) (rule fold_cap_map_step)
  then show ?thesis using False by (simp only: y420_cap_map_def selected_def if_False fold_concat)
qed

lemma selected_set: "set (selected d n svds) = {SVD svds ! k |k. map_selects d n svds k}"
proof (cases "n = 1")
  case True
  then show ?thesis by (auto simp: selected_def map_selects_def)
next
  case False
  have "SVD svds ! k \<in> set (selected d n svds)" if "map_selects d n svds k" for k
  proof -
    have k: "k < unat (SVDCount svds)" "k div 8 < n - 1" "bit (d ! (2 + k div 8)) (k mod 8)" "k mod 8 + 8 * (k div 8) = k" "k mod 8 < 8"
      using that False by (simp_all add: map_selects_def)
    then show ?thesis unfolding selected_def if_not_P [OF False]
      by (auto intro!: bexI [of _ "k div 8"] image_eqI [of _ _ "k mod 8"])
  qed
  moreover have "\<exists>k. x = SVD svds ! k \<and> map_selects d n svds k" if x: "x \<in> set (selected d n svds)" for x
  proof -
    obtain i j where ij: "i < n - 1" "j < 8" "bit (d ! (2 + i)) j" "j + 8 * i < unat (SVDCount svds)" "x = SVD svds ! (j + 8 * i)"
      using x False by (auto simp: selected_def)
    then have "(j + 8 * i) div 8 = i" "(j + 8 * i) mod 8 = j" by simp_all
    then show ?thesis using ij by (intro exI [of _ "j + 8 * i"]) (simp add: map_selects_def)
  qed
  ultimately show ?thesis by blast
qed

text \<open>
  C38. A capability map: bit \<open>n\<close> of its bytes stands for the \<open>n\<close>th descriptor of the video data block,
  an empty map for all of them. Exactly the timings of the formats so selected are marked as possible in
  YCbCr 4:2:0 besides other encodings; no other timing changes, and bits behind the last descriptor are
  ignored.
\<close>

theorem y420_cap_map_correct:
  assumes "edid_ok b st" "formats_once (timings st)"
  shows "timings (y420_cap_map d n svds st) =
    map (\<lambda>t. if \<exists>k. map_selects d n svds k \<and> vic t \<in> svd_code (SVD svds ! k) then y420_also t else t) (timings st)"
proof -
  have "(\<exists>k. map_selects d n svds k \<and> v \<in> svd_code (SVD svds ! k)) \<longleftrightarrow> v \<in> \<Union>(svd_code ` set (selected d n svds))" for v
    unfolding selected_set by blast
  then show ?thesis
    using cmdb_steps_spec [OF assms] unfolding y420_cap_map_fold mark_formats_def by simp
qed

definition sample_two_formats :: edid_struct where
  "sample_two_formats = empty_edid_struct\<lparr>TimingNum := 2, TimingArraySize := 2,
     pDeviceTimingList := Some (map (\<lambda>v. zero_timing\<lparr>FullTiming := zero_attrib\<lparr>FormatVIC := v\<rparr>\<rparr>) [16, 97])\<rparr>"

lemma y420_cap_map_correct_witness:
  "map IsSupportYCbCr420 (timings (y420_cap_map [0xE2, 0x0F, 0x02] 2 \<lparr>SVDCount = 2, SVD = [16, 97]\<rparr> sample_two_formats)) = [False, True]"
proof -
  let ?d = "[0xE2, 0x0F, 0x02] :: u8 list" and ?s = "\<lparr>SVDCount = 2, SVD = [16, 97]\<rparr> :: cea_svd_data"
  have ts: "timings sample_two_formats = map (\<lambda>v. zero_timing\<lparr>FullTiming := zero_attrib\<lparr>FormatVIC := v\<rparr>\<rparr>) [16, 97]"
    by (simp add: sample_two_formats_def timings_def)
  have ok: "edid_ok 0 sample_two_formats" by (simp add: sample_two_formats_def edid_ok_def)
  have once: "formats_once (timings sample_two_formats)"
    unfolding ts by code_simp
  have sel: "map_selects ?d 2 ?s k \<longleftrightarrow> k = 1" for k
  proof -
    have "unat (SVDCount ?s) = 2" by simp
    moreover have "k < 2 \<longleftrightarrow> k = 0 \<or> k = 1" by auto
    ultimately show ?thesis unfolding map_selects_def by auto
  qed
  have code: "svd_code 97 = {97}" by (auto simp: svd_code_def cbEDIDModule_GetFmtIdxFromSVD_def CBIOS_HDMI_NORMAL_VIC_COUNTS_def)
  show ?thesis
    using y420_cap_map_correct [OF ok once, of ?d 2 ?s] unfolding ts sel
    by (simp add: code zero_attrib_def zero_timing_def y420_also_def)
qed

section \<open>Info frames\<close>

text \<open>The frames by the type codes of the specification, and a descriptor as it stands in the block.\<close>

definition frame_of :: "nat \<Rightarrow> info_frame option" where
  "frame_of ty = (if ty = 2 then Some AVI else if ty = 3 then Some SourceProductDesc else if ty = 4 then Some Audio
     else if ty = 5 then Some MpegSource else if ty = 6 then Some NTSCVBI else None)"

definition frame_bytes :: "nat \<times> u8 list \<Rightarrow> u8 list" where
  "frame_bytes = (\<lambda>(ty, pl). (push_bit 5 (of_nat (length pl)) OR of_nat ty) # pl)"

definition frame_valid :: "nat \<times> u8 list \<Rightarrow> bool" where
  "frame_valid = (\<lambda>(ty, pl). ty \<noteq> 1 \<and> ty < 32 \<and> length pl < 8)"

lemma frame_header:
  assumes "frame_valid (ty, pl)"
  shows "unat (drop_bit 5 (push_bit 5 (of_nat (length pl)) OR of_nat ty :: u8) AND 0x7) = length pl"
    "unat ((push_bit 5 (of_nat (length pl)) OR of_nat ty :: u8) AND 0x1F) = ty"
proof -
  have small: "(of_nat (length pl) :: u8) < 2 ^ 3" "(of_nat ty :: u8) < 2 ^ 5"
    and u: "unat (of_nat (length pl) :: u8) = length pl" "unat (of_nat ty :: u8) = ty"
    using assms by (simp_all add: frame_valid_def word_less_nat_alt unat_of_nat)
  have ty: "(0x1F :: u8) = mask 5" and seven: "(0x7 :: u8) = mask 3" by (simp_all add: mask_eq_exp_minus_1)
  show "unat (drop_bit 5 (push_bit 5 (of_nat (length pl)) OR of_nat ty :: u8) AND 0x7) = length pl"
  proof -
    have "drop_bit 5 (push_bit 5 (of_nat (length pl)) OR of_nat ty :: u8) = of_nat (length pl)"
      by (rule split_byte(2) [OF small]) simp
    then show ?thesis unfolding seven using less_mask_eq [OF small(1)] u by simp
  qed
  show "unat ((push_bit 5 (of_nat (length pl)) OR of_nat ty :: u8) AND 0x1F) = ty"
    unfolding ty split_byte(1) [OF small] u ..
qed

text \<open>The loop ends before a header at the last position of the block.\<close>

definition seen_frames :: "(nat \<times> u8 list) list \<Rightarrow> (nat \<times> u8 list) list" where
  "seen_frames fs = (if fs \<noteq> [] \<and> snd (last fs) = [] then butlast fs else fs)"

lemma frame_step_other: "ty \<noteq> 1 \<Longrightarrow> frame_step d ty i p c =
    (i, case frame_of ty of None \<Rightarrow> c | Some f \<Rightarrow> set_frame f p c)"
  by (auto simp: frame_step_def frame_of_def)

lemma frame_loop_listed:
  "drop i d = concat (map frame_bytes fs) @ r \<Longrightarrow> \<forall>f \<in> set fs. frame_valid f \<Longrightarrow> i + length (concat (map frame_bytes fs)) = n + 1 \<Longrightarrow>
   bSupport (frame_loop d n i p c f) \<longleftrightarrow> bSupport (c f) \<or> (\<exists>(ty, pl) \<in> set (seen_frames fs). frame_of ty = Some f)"
proof (induction fs arbitrary: i p c)
  case Nil
  then have "\<not> i < n" by simp
  then show ?case by (simp add: frame_loop.simps [of d n i] seen_frames_def)
next
  case (Cons g fs)
  obtain ty pl where g: "g = (ty, pl)" by (cases g)
  have valid: "frame_valid (ty, pl)" using Cons.prems(2) g by simp
  define tail where "tail = concat (map frame_bytes fs)"
  have d: "drop i d = frame_bytes g @ tail @ r" using Cons.prems(1) by (simp add: tail_def)
  have h: "d ! i = push_bit 5 (of_nat (length pl)) OR of_nat ty"
    using d by (auto simp: g frame_bytes_def dest: drop_step)
  have len: "length (frame_bytes g) = 1 + length pl" by (simp add: g frame_bytes_def)
  have next_drop: "drop (i + 1 + length pl) d = tail @ r" using drop_steps(2) [OF d] len by (simp add: add.assoc)
  show ?case
  proof (cases "i < n")
    case False
    have "i + (1 + length pl + length tail) = n + 1" using Cons.prems(3) len by (simp add: tail_def)
    then have "length pl + length tail = 0" using False by linarith
    then have "fs = []" "pl = []" by (cases fs; auto simp: tail_def frame_bytes_def split: prod.splits)+
    then show ?thesis using False by (simp add: frame_loop.simps [of d n i] seen_frames_def g)
  next
    case True
    have ty: "ty \<noteq> 1" using valid by (simp add: frame_valid_def)
    let ?c = "case frame_of ty of None \<Rightarrow> c | Some f \<Rightarrow> set_frame f p c"
    have "frame_loop d n i p c = frame_loop d n (i + 1 + length pl) (p + 1) ?c"
      using True unfolding frame_loop.simps [of d n i] h frame_header [OF valid] Let_def frame_step_other [OF ty] by simp
    moreover have "bSupport (frame_loop d n (i + 1 + length pl) (p + 1) ?c f) \<longleftrightarrow>
        bSupport (?c f) \<or> (\<exists>(ty, pl) \<in> set (seen_frames fs). frame_of ty = Some f)"
      using Cons.prems next_drop len by (intro Cons.IH) (simp_all add: tail_def)
    moreover have "bSupport (?c f) \<longleftrightarrow> bSupport (c f) \<or> frame_of ty = Some f"
      by (auto simp: set_frame_def split: option.splits)
    moreover have "set (seen_frames (g # fs)) = insert g (set (seen_frames fs))"
    proof -
      have "fs \<noteq> [] \<or> pl \<noteq> []"
        using True Cons.prems(3) len by (auto simp: g)
      then show ?thesis by (auto simp: seen_frames_def g)
    qed
    ultimately show ?thesis by (auto simp: g)
  qed
qed

text \<open>
  The info frames of a sink, those of vendors aside: every frame whose descriptor has the layout of
  the specification is recorded as supported, with one exception: when the last descriptor of the block
  has no bytes behind its header, the loop ends before it and its frame is not recorded.
\<close>

theorem infoframe_block_listed:
  assumes d: "drop 2 d = (push_bit 5 (of_nat (length skip)) OR low) # vsifs # skip @ concat (map frame_bytes fs) @ r"
    and fs: "\<forall>f \<in> set fs. frame_valid f" "length skip < 8" "low < 32"
    and len: "n = 3 + length skip + length (concat (map frame_bytes fs))"
  shows "bSupport (InfoFrameSupCaps (infoframe_block d n a) f) \<longleftrightarrow>
    bSupport (InfoFrameSupCaps a f) \<or> (\<exists>(ty, pl) \<in> set (seen_frames fs). frame_of ty = Some f)"
proof -
  have small: "(of_nat (length skip) :: u8) < 2 ^ 3" "low < 2 ^ 5" and u: "unat (of_nat (length skip) :: u8) = length skip"
    using fs(2,3) by (simp_all add: word_less_nat_alt unat_of_nat)
  have seven: "(0x7 :: u8) = mask 3" by (simp add: mask_eq_exp_minus_1)
  have h: "d ! 2 = push_bit 5 (of_nat (length skip)) OR low" using drop_step [OF d] by simp
  have "drop_bit 5 (d ! 2) = of_nat (length skip)" unfolding h by (rule split_byte(2) [OF small]) simp
  then have l: "unat (drop_bit 5 (d ! 2) AND 0x7) = length skip" unfolding seven using less_mask_eq [OF small(1)] u by simp
  have "drop (2 + length ((push_bit 5 (of_nat (length skip)) OR low) # vsifs # skip)) d = concat (map frame_bytes fs) @ r"
    by (rule drop_steps(2)) (simp add: d)
  moreover have "2 + length ((push_bit 5 (of_nat (length skip)) OR low) # vsifs # skip) = 4 + length skip" by simp
  ultimately have "drop (4 + length skip) d = concat (map frame_bytes fs) @ r" by metis
  then have "bSupport (frame_loop d n (4 + length skip) 0 (InfoFrameSupCaps a) f) \<longleftrightarrow>
      bSupport (InfoFrameSupCaps a f) \<or> (\<exists>(ty, pl) \<in> set (seen_frames fs). frame_of ty = Some f)"
    using fs(1) len by (intro frame_loop_listed) simp_all
  then show ?thesis by (simp add: infoframe_block_def l)
qed

lemma infoframe_block_listed_witness:
  "bSupport (InfoFrameSupCaps (infoframe_block [0xE5, 0x20, 0, 1, 2, 4] 5 zero_monitor) AVI) \<and>
   \<not> bSupport (InfoFrameSupCaps (infoframe_block [0xE5, 0x20, 0, 1, 2, 4] 5 zero_monitor) Audio)"
proof -
  let ?d = "[0xE5, 0x20, 0, 1, 2, 4] :: u8 list" and ?fs = "[(2, []), (4, [])] :: (nat \<times> u8 list) list"
  have d: "drop 2 ?d = (push_bit 5 (of_nat (length ([] :: u8 list))) OR 0) # 1 # [] @ concat (map frame_bytes ?fs) @ []"
    by (simp add: frame_bytes_def)
  have v: "\<forall>f \<in> set ?fs. frame_valid f" "5 = 3 + length ([] :: u8 list) + length (concat (map frame_bytes ?fs))"
    by (simp_all add: frame_valid_def frame_bytes_def)
  have "seen_frames ?fs = [(2, [])]" by (simp add: seen_frames_def)
  then show ?thesis
    using infoframe_block_listed [OF d v(1) _ _ v(2), of zero_monitor]
    by (simp add: frame_of_def zero_monitor_def)
qed

text \<open>
  The frame of HDMI itself: its descriptor names the vendor in the three bytes behind the header, but
  the comparison starts one byte later, so a block that announces exactly this frame as specified
  leaves the capabilities as they were.
\<close>

theorem hdmi_frame_missed:
  assumes d: "drop 2 d = 0 # vsifs # 0x01 # 0x03 # 0x0C # 0x00 # r"
  shows "InfoFrameSupCaps (infoframe_block d 7 a) = InfoFrameSupCaps a"
proof -
  have n: "d ! 2 = 0" "d ! 4 = 0x01" "d ! 6 = 0x0C"
    using drop_steps(1) [of 2 d "[0, vsifs, 0x01, 0x03, 0x0C, 0x00]" r 0] drop_steps(1) [of 2 d "[0, vsifs, 0x01, 0x03, 0x0C, 0x00]" r 2]
      drop_steps(1) [of 2 d "[0, vsifs, 0x01, 0x03, 0x0C, 0x00]" r 4] d by simp_all
  then have "frame_loop d 7 4 0 c = frame_loop d 7 8 1 c" for c
    by (simp add: frame_loop.simps [of d 7 4] frame_step_def)
  moreover have "frame_loop d 7 8 1 c = c" for c by (simp add: frame_loop.simps [of d 7 8])
  ultimately show ?thesis using n by (simp add: infoframe_block_def)
qed

lemma hdmi_frame_missed_witness:
  "\<not> bSupport (InfoFrameSupCaps (infoframe_block [0xE7, 0x20, 0, 1, 0x01, 0x03, 0x0C, 0x00] 7 zero_monitor) HDMISpecific)"
  using hdmi_frame_missed [of "[0xE7, 0x20, 0, 1, 0x01, 0x03, 0x0C, 0x00]" 1 "[]" zero_monitor] by (simp add: zero_monitor_def)

section \<open>The formats a description names\<close>

lemma AddSvdFormat_Attribute: "Attribute (fst (snd (cbEDIDModule_AddSvdFormat pool st v n))) = Attribute st"
proof -
  have "Attribute (snd (cbEDIDModule_AddDeviceTiming pool st t)) = Attribute st" for t
    by (auto simp: cbEDIDModule_AddDeviceTiming_def ensure_array_def grow_array_def Let_def split: option.splits)
  then show ?thesis
    by (auto simp: cbEDIDModule_AddSvdFormat_def Let_def upd_timing_def split: option.splits prod.splits)
      (metis snd_conv)
qed

lemma svd_loop_Attribute: "Attribute (svd_loop pool d j n st) = Attribute st"
proof (induction n arbitrary: j st)
  case (Suc n)
  have "Attribute (svd_step p svd st) = Attribute st" for p svd
    by (auto simp: svd_step_def AddSvdFormat_Attribute split: prod.splits)
  then show ?case using Suc.IH by simp
qed simp

text \<open>A state of the list in order, with a vendor block in shape, that names the formats \<open>V\<close>.\<close>

definition cea_inv :: "nat \<Rightarrow> u16 set \<Rightarrow> edid_struct \<Rightarrow> bool" where
  "cea_inv b V st \<longleftrightarrow> edid_ok b st \<and> formats_once (timings st) \<and> names st = V \<and> vsdb_shape (VSDBData (Attribute st))"

lemma cea_inv_mono: "cea_inv b V st \<Longrightarrow> b \<le> c \<Longrightarrow> cea_inv c V st"
  using edid_ok_mono by (auto simp: cea_inv_def)

lemma cea_inv_attrib:
  "cea_inv b V st \<Longrightarrow> pDeviceTimingList st' = pDeviceTimingList st \<Longrightarrow> TimingNum st' = TimingNum st \<Longrightarrow>
   TimingArraySize st' = TimingArraySize st \<Longrightarrow> vsdb_shape (VSDBData (Attribute st')) \<Longrightarrow> cea_inv b V st'"
  unfolding cea_inv_def edid_ok_def timings_def names_def by (simp only:)

lemma cea_inv_upd_attrib:
  "cea_inv b V st \<Longrightarrow> vsdb_shape (VSDBData (f (Attribute st))) \<Longrightarrow> cea_inv b V (upd_attrib f st)"
  by (rule cea_inv_attrib) (simp_all add: upd_attrib_def)

lemma names_vics: "map vic (timings st) = map vic (timings st') \<Longrightarrow> names st = names st'"
  unfolding names_def by (metis list.set_map)

text \<open>Adding a format of the tables, by whatever way it is named.\<close>

definition offered :: "u16 \<Rightarrow> u16 set" where
  "offered v = (if cea_supported (CEAVideoFormatTable ! (unat v - 1)) \<noteq> 0 then {v} else {})"

lemma cea_inv_add:
  assumes inv: "cea_inv b V st" and pool: "pool_ok pool" "pool_gives pool" and b: "b < 2 ^ 20"
    and v: "1 \<le> unat v" "unat v \<le> 111" and res: "cbEDIDModule_AddSvdFormat pool st v native = (added, st', idx)"
  shows "cea_inv (Suc b) (V \<union> offered v) st'"
proof -
  have S: "edid_ok (Suc b) st' \<and> formats_once (timings st') \<and> names st' = (if added then insert v (names st) else names st) \<and>
      (pool_gives pool \<longrightarrow> (added \<longleftrightarrow> cea_supported (CEAVideoFormatTable ! (unat v - 1)) \<noteq> 0))"
    using inv pool b v by (intro AddSvdFormat_spec [OF _ _ _ _ _ _ res]) (simp_all add: cea_inv_def)
  have "Attribute st' = Attribute st" using AddSvdFormat_Attribute [of pool st v native] res by simp
  then show ?thesis using S pool inv by (auto simp: cea_inv_def offered_def)
qed

lemma wanted_by_offered: "wanted_by svd = (\<Union>v \<in> svd_code svd. offered v)"
proof -
  have "unat (ucast fmt :: u16) = unat fmt" for fmt :: u8
    using unsigned_less [where 'a = nat, of fmt] by (simp add: unsigned_ucast_eq take_bit_nat_eq_self)
  then show ?thesis by (auto simp: wanted_by_def svd_code_def offered_def split: if_splits)
qed

lemma cea_inv_y420:
  assumes inv: "cea_inv b V st" and pool: "pool_ok pool" "pool_gives pool" and b: "b < 2 ^ 20"
  shows "cea_inv (Suc b) (V \<union> wanted_by svd) (y420_step pool svd st)"
proof -
  obtain status fmt native where dec: "cbEDIDModule_GetFmtIdxFromSVD svd 0 = (status, fmt, native)"
    by (cases "cbEDIDModule_GetFmtIdxFromSVD svd 0")
  show ?thesis
  proof (cases status)
    case False
    then have "wanted_by svd = {}" by (auto simp: wanted_by_def dec)
    then show ?thesis using False cea_inv_mono [OF inv, of "Suc b"] by (simp add: y420_step_def dec)
  next
    case True
    note r = svd_fmt_range [OF dec [unfolded eqTrueI [OF True]]]
    obtain added st' idx where add: "cbEDIDModule_AddSvdFormat pool st (ucast fmt) native = (added, st', idx)"
      by (cases "cbEDIDModule_AddSvdFormat pool st (ucast fmt) native")
    have inv': "cea_inv (Suc b) (V \<union> wanted_by svd) st'"
      using cea_inv_add [OF inv pool b r(1,2) add] True by (simp add: wanted_by_offered svd_code_def dec)
    have "cea_inv (Suc b) (V \<union> wanted_by svd) (upd_timing k y420_only st')" for k
    proof -
      have ok: "edid_ok (Suc b) st'" using inv' by (simp add: cea_inv_def)
      have vics: "map vic (timings (upd_timing k y420_only st')) = map vic (timings st')"
      proof (cases "k < length (timings st')")
        case True
        then show ?thesis
          unfolding timings_upd [OF ok True] by (simp add: map_update y420_only_def list_update_same_conv)
      next
        case False
        have "timings (upd_timing k y420_only st') = timings st'"
        proof (cases "pDeviceTimingList st'")
          case (Some l)
          then have "take (unat (TimingNum st')) (l[k := y420_only (l ! k)]) = take (unat (TimingNum st')) l"
            using False by (auto simp: timings_def take_update_swap list_update_beyond)
          then show ?thesis using Some by (simp add: timings_def upd_timing_def)
        qed (simp add: timings_def upd_timing_def)
        then show ?thesis by simp
      qed
      show ?thesis
        using inv' upd_keeps [OF ok] formats_once_vics [OF vics [symmetric]] names_vics [OF vics]
        by (simp add: cea_inv_def upd_timing_def)
    qed
    then show ?thesis using True inv' by (simp add: y420_step_def dec add)
  qed
qed

lemma cea_inv_y420_loop:
  "cea_inv b V st \<Longrightarrow> \<forall>i. pool_ok (pool i) \<and> pool_gives (pool i) \<Longrightarrow> b + length is \<le> 2 ^ 20 \<Longrightarrow>
   cea_inv (b + length is) (V \<union> wanted (map f is)) (fold (\<lambda>i. y420_step (pool i) (f i)) is st)"
proof (induction "is" arbitrary: b V st)
  case Nil
  then show ?case by (simp add: wanted_def)
next
  case (Cons i "is")
  have "cea_inv (Suc b) (V \<union> wanted_by (f i)) (y420_step (pool i) (f i) st)"
    using Cons.prems by (intro cea_inv_y420) simp_all
  then show ?case
    using Cons.IH [of "Suc b" "V \<union> wanted_by (f i)"] Cons.prems by (simp add: wanted_def Un_assoc)
qed

lemma cea_inv_cap_map:
  "cea_inv b V st \<Longrightarrow> cea_inv b V (y420_cap_map d n svds st)"
proof -
  assume inv: "cea_inv b V st"
  have "edid_ok b (y420_cap_map d n svds st)" "timings (y420_cap_map d n svds st) = mark_formats (\<Union>(svd_code ` set (selected d n svds))) (timings st)"
    "Attribute (y420_cap_map d n svds st) = Attribute st"
    using cmdb_steps_spec [of b st "selected d n svds"] inv by (simp_all add: y420_cap_map_fold cea_inv_def)
  moreover from this(2) have vics: "map vic (timings (y420_cap_map d n svds st)) = map vic (timings st)" by (simp add: mark_vics)
  ultimately show ?thesis
    using inv formats_once_vics [OF vics [symmetric]] names_vics [OF vics] by (simp add: cea_inv_def)
qed

lemma cea_inv_SVDMode:
  assumes inv: "cea_inv b V st" and pool: "\<forall>i. pool_ok (pool i) \<and> pool_gives (pool i)" and b: "b + 31 \<le> 2 ^ 20"
  shows "cea_inv (b + 31) (V \<union> wanted (map (\<lambda>j. d ! (1 + j)) [0..<block_len d 0])) (cbEDIDModule_GetSVDMode pool d st k)"
proof -
  let ?n = "block_len d 0"
  have n: "?n \<le> 31" using block_len_less [of d 0] by simp
  obtain a where r: "cbEDIDModule_GetSVDMode pool d st k = svd_loop pool d 0 ?n (st\<lparr>Attribute := a\<rparr>)"
    and a: "VSDBData a = VSDBData (Attribute st)"
    by (simp add: cbEDIDModule_GetSVDMode_def Let_def block_len_def)
  let ?st = "st\<lparr>Attribute := a\<rparr>"
  have start: "cea_inv b V ?st" using inv a by (intro cea_inv_attrib [OF inv]) (simp_all add: cea_inv_def)
  have "edid_ok (b + ?n) (svd_loop pool d 0 ?n ?st) \<and> formats_once (timings (svd_loop pool d 0 ?n ?st)) \<and>
      names (svd_loop pool d 0 ?n ?st) = names ?st \<union> wanted (map (\<lambda>i. d ! (1 + i)) [0..<0 + ?n])"
    using start pool b n by (intro svd_loop_spec) (simp_all add: cea_inv_def)
  then have "cea_inv (b + ?n) (V \<union> wanted (map (\<lambda>i. d ! (1 + i)) [0..<?n])) (svd_loop pool d 0 ?n ?st)"
    using start by (simp add: cea_inv_def svd_loop_Attribute)
  then show ?thesis using cea_inv_mono n unfolding r by force
qed

text \<open>Timings without a code do not change what is named.\<close>

lemma cea_inv_plain:
  assumes inv: "cea_inv b V st" and pool: "pool_ok pool" and b: "b < 2 ^ 20" and t: "vic t = 0"
    and add: "cbEDIDModule_AddDeviceTiming pool st t = (added, st')"
  shows "cea_inv (Suc b) V st'"
proof -
  have "edid_ok b st" using inv by (simp add: cea_inv_def)
  note A = AddDeviceTiming_spec [OF this pool b add]
  have "formats_once (timings st @ [t])"
    using inv t unfolding formats_once_def cea_inv_def by (auto simp: nth_append less_Suc_eq)
  then show ?thesis using A inv t by (auto simp: cea_inv_def names_def)
qed

lemma cea_inv_offer:
  assumes inv: "cea_inv b V (fst s)" and pool: "pool_ok pool" and b: "b < 2 ^ 20" and t: "vic t = 0"
    and mark: "\<And>st t. FullTiming (mark st t) = FullTiming t"
  shows "cea_inv (Suc b) V (fst (offer pool mark t s))"
proof -
  obtain st n where s: "s = (st, n)" by (cases s)
  obtain t1 st1 where tn: "take_native st t = (t1, st1)" by (cases "take_native st t")
  note keep = take_native_keeps [OF tn]
  have inv1: "cea_inv b V st1" using inv keep by (simp add: s cea_inv_def names_def)
  show ?thesis
  proof (cases "cbEDIDModule_ValidateTiming st1 t1")
    case False
    then show ?thesis using cea_inv_mono [OF inv1, of "Suc b"] by (simp add: offer_def s tn)
  next
    case True
    obtain added st2 where add: "cbEDIDModule_AddDeviceTiming pool st1 (mark st1 t1) = (added, st2)"
      by (cases "cbEDIDModule_AddDeviceTiming pool st1 (mark st1 t1)")
    have "vic (mark st1 t1) = 0" using t keep mark by simp
    then show ?thesis using True cea_inv_plain [OF inv1 pool b _ add] by (simp add: offer_def s tn add)
  qed
qed

lemma dtl_no_format: "cbEDIDModule_ParseDtlTiming d t = Some t' \<Longrightarrow> vic t' = 0"
  by (auto simp: cbEDIDModule_ParseDtlTiming_def Let_def split: if_splits)

lemma cea_inv_detailed:
  assumes pool: "\<And>i. pool_ok (pool i)"
  shows "cea_inv b V (fst s) \<Longrightarrow> b + r \<le> 2 ^ 20 \<Longrightarrow> 110 \<le> i + 18 * r \<Longrightarrow>
    cea_inv (b + r) V (fst (cea_detailed_loop pool e i s))"
proof (induction r arbitrary: b i s)
  case 0
  then show ?case by (simp add: cea_detailed_loop.simps EDID_BLK_SIZE_def)
next
  case (Suc r)
  show ?case
  proof (cases "i + 18 < EDID_BLK_SIZE")
    case False
    then show ?thesis using cea_inv_mono [OF Suc.prems(1), of "b + Suc r"] by (simp add: cea_detailed_loop.simps)
  next
    case lt: True
    show ?thesis
    proof (cases "cbEDIDModule_ParseDtlTiming (drop i e) zero_timing")
      case None
      then show ?thesis using cea_inv_mono [OF Suc.prems(1), of "b + Suc r"] by (simp add: cea_detailed_loop.simps)
    next
      case (Some t)
      have "cea_inv (Suc b) V (fst (cea_detailed_step (pool i) t s))"
        unfolding cea_detailed_step_offer using Suc.prems(1,2) dtl_no_format [OF Some] pool
        by (intro cea_inv_offer) simp_all
      then show ?thesis
        using Suc.IH [of "Suc b" "cea_detailed_step (pool i) t s" "i + 18"] Suc.prems lt Some
        by (simp add: cea_detailed_loop.simps [of pool e i])
    qed
  qed
qed

text \<open>One data block, a whole extension, and the formats of the vendor block.\<close>

definition block_svds :: "u8 list \<Rightarrow> u8 list" where
  "block_svds d =
     (if block_tag d 0 = VIDEO_DATA_BLOCK_TAG then map (\<lambda>j. d ! (1 + j)) [0..<block_len d 0]
      else if block_tag d 0 = CEA_EXTENDED_BLOCK_TAG \<and> block_len d 0 \<noteq> 0 \<and> d ! 1 = YCBCR420_VIDEO_DATA_BLOCK
      then map (\<lambda>j. d ! (2 + j)) [0..<block_len d 0 - 1] else [])"

lemma wanted_Nil: "wanted [] = {}"
  by (simp add: wanted_def)

lemma cea_inv_ext_block:
  assumes inv: "cea_inv b V st" and pool: "\<forall>i. pool_ok (pool i) \<and> pool_gives (pool i)" and b: "b + 31 \<le> 2 ^ 20"
    and tag: "block_tag d 0 = CEA_EXTENDED_BLOCK_TAG"
  shows "cea_inv (b + 31) (V \<union> wanted (block_svds d)) (fst (cbEDIDModule_ParseCEAExtBlock pool d st k))"
proof -
  have same: "cea_inv (b + 31) V st" by (rule cea_inv_mono [OF inv]) simp
  have upd: "cea_inv (b + 31) V (upd_attrib f st)" if "\<And>a. VSDBData (f a) = VSDBData a" for f
    using same that by (intro cea_inv_upd_attrib) (simp_all add: cea_inv_def)
  have nv: "CEA_EXTENDED_BLOCK_TAG \<noteq> VIDEO_DATA_BLOCK_TAG" by (simp add: CEA_EXTENDED_BLOCK_TAG_def VIDEO_DATA_BLOCK_TAG_def)
  consider "block_len d 0 = 0" | "block_len d 0 \<noteq> 0" "d ! 1 = YCBCR420_VIDEO_DATA_BLOCK"
    | "block_len d 0 \<noteq> 0" "d ! 1 \<noteq> YCBCR420_VIDEO_DATA_BLOCK" by blast
  then show ?thesis
  proof cases
    case 1
    then show ?thesis using same tag nv by (simp add: cbEDIDModule_ParseCEAExtBlock_def block_svds_def wanted_Nil)
  next
    case 2
    let ?n = "block_len d 0 - 1"
    have n: "?n \<le> 31" using block_len_less [of d 0] by simp
    have "cea_inv (b + ?n) (V \<union> wanted (map (\<lambda>i. d ! (2 + i)) [0..<?n]))
        (fold (\<lambda>i. y420_step (pool i) (d ! (2 + i))) [0..<?n] st)"
      using cea_inv_y420_loop [OF inv, of pool "[0..<?n]" "\<lambda>i. d ! (2 + i)"] pool b n by simp
    then have "cea_inv (b + 31) (V \<union> wanted (map (\<lambda>i. d ! (2 + i)) [0..<?n]))
        (fold (\<lambda>i. y420_step (pool i) (d ! (2 + i))) [0..<?n] st)"
      by (rule cea_inv_mono) (use n in simp)
    then show ?thesis using 2 tag nv
      by (simp add: cbEDIDModule_ParseCEAExtBlock_def block_svds_def Let_def cea_ext_tags)
  next
    case 3
    then have w: "wanted (block_svds d) = {}" using tag nv by (simp add: block_svds_def wanted_Nil)
    have hf: "cea_inv (b + 31) V (fst (case cbEDIDModule_ParseHFSCDS (Some d) (Some (HFSCDSData (Attribute st))) of
        (len, v) \<Rightarrow> (upd_attrib (\<lambda>a. a\<lparr>HFSCDSData := the v\<rparr>) st, len)))"
      by (auto split: prod.splits intro!: upd)
    have "cea_inv (b + 31) V (fst (cbEDIDModule_ParseCEAExtBlock pool d st k))"
      using 3 tag hf same cea_inv_cap_map [OF same]
      by (simp add: cbEDIDModule_ParseCEAExtBlock_def Let_def upd infoframe_block_def)
    then show ?thesis by (simp add: w)
  qed
qed

text \<open>The result of the vendor block parser is in shape whatever it reads.\<close>

lemma parsed_shape: "vsdb_shape (the (snd (cbEDIDModule_ParseHDMIVSDB (Some d) (Some old))))"
  using cbEDIDModule_ParseHDMIVSDB_spec [of d old] by auto

lemma block_tag_drop: "i < length b \<Longrightarrow> block_tag (drop i b) 0 = block_tag b i"
  by (simp add: block_tag_def)

lemma block_svds_other: "block_tag d 0 \<noteq> VIDEO_DATA_BLOCK_TAG \<Longrightarrow> block_tag d 0 \<noteq> CEA_EXTENDED_BLOCK_TAG \<Longrightarrow> block_svds d = []"
  by (simp add: block_svds_def)

lemma cea_inv_block:
  assumes inv: "cea_inv b V st" and pool: "\<forall>i. pool_ok (pool i) \<and> pool_gives (pool i)" and b: "b + 31 \<le> 2 ^ 20" and i: "i < length e"
  shows "cea_inv (b + 31) (V \<union> wanted (block_svds (drop i e))) (cea_data_block pool e k i st)"
proof -
  note tag = block_tag_drop [OF i]
  have same: "cea_inv (b + 31) V st" by (rule cea_inv_mono [OF inv]) simp
  consider (v) "block_tag e i = VIDEO_DATA_BLOCK_TAG" | (x) "block_tag e i = CEA_EXTENDED_BLOCK_TAG"
    | (o) "block_tag e i \<noteq> VIDEO_DATA_BLOCK_TAG" "block_tag e i \<noteq> CEA_EXTENDED_BLOCK_TAG" by blast
  then show ?thesis
  proof cases
    case v
    then have "block_svds (drop i e) = map (\<lambda>j. drop i e ! (1 + j)) [0..<block_len (drop i e) 0]"
      by (simp add: block_svds_def tag)
    then show ?thesis
      using cea_inv_SVDMode [OF inv pool b, of "drop i e" k] v
      by (simp add: cea_data_block_def AUDIO_DATA_BLOCK_TAG_def VIDEO_DATA_BLOCK_TAG_def)
  next
    case x
    then show ?thesis
      using cea_inv_ext_block [OF inv pool b, of "drop i e" k] tag
      by (simp add: cea_data_block_def AUDIO_DATA_BLOCK_TAG_def VIDEO_DATA_BLOCK_TAG_def CEA_EXTENDED_BLOCK_TAG_def
          VENDOR_SPECIFIC_DATA_BLOCK_TAG_def)
  next
    case o
    have aud: "cea_inv (b + 31) V (fst (cbEDIDModule_GetHDMIAudioFormat (drop i e) st))"
      using same by (intro cea_inv_attrib [OF same]) (simp_all add: cbEDIDModule_GetHDMIAudioFormat_def cea_inv_def split: prod.splits)
    have ven: "cea_inv (b + 31) V (upd_attrib (\<lambda>a. a\<lparr>VSDBData := the (snd (cbEDIDModule_ParseHDMIVSDB (Some (drop i e)) (Some (VSDBData a))))\<rparr>) st)"
      by (rule cea_inv_upd_attrib [OF same]) (simp add: parsed_shape)
    have hf: "cea_inv (b + 31) V (upd_attrib (\<lambda>a. a\<lparr>HFSCDSData := the (snd (cbEDIDModule_ParseHFSCDS (Some (drop i e)) (Some (HFSCDSData a))))\<rparr>) st)"
      by (rule cea_inv_upd_attrib [OF same]) (use same in \<open>simp add: cea_inv_def\<close>)
    show ?thesis
      using o tag aud ven hf same by (simp add: cea_data_block_def block_svds_other wanted_Nil)
  qed
qed

definition blocks_names :: "u8 list \<Rightarrow> nat list \<Rightarrow> u16 set" where
  "blocks_names b ss = (\<Union>i \<in> set ss. wanted (block_svds (drop i b)))"

lemma cea_inv_blocks:
  assumes pool: "\<forall>i j. pool_ok (pool i j) \<and> pool_gives (pool i j)" and off: "off \<le> length e"
  shows "cea_inv b V st \<Longrightarrow> b + 31 * (off - i) \<le> 2 ^ 20 \<Longrightarrow>
    cea_inv (b + 31 * (off - i)) (V \<union> blocks_names e (block_starts e off i)) (cea_data_blocks pool e k off i st)"
proof (induction "off - i" arbitrary: b V i st rule: less_induct)
  case less
  show ?case
  proof (cases "i < off")
    case False
    then show ?thesis
      using less.prems by (simp add: cea_data_blocks.simps [of pool e k off i] block_starts.simps [of e off i] blocks_names_def)
  next
    case True
    let ?j = "i + (block_len e i + 1)" and ?st = "cea_data_block (pool i) e k i st"
    have room: "31 + 31 * (off - ?j) \<le> 31 * (off - i)" using True by simp
    have "cea_inv (b + 31) (V \<union> wanted (block_svds (drop i e))) ?st"
      using less.prems pool room True off by (intro cea_inv_block) simp_all
    moreover have "off - ?j < off - i" using True by simp
    ultimately have "cea_inv (b + 31 + 31 * (off - ?j))
        (V \<union> wanted (block_svds (drop i e)) \<union> blocks_names e (block_starts e off ?j)) (cea_data_blocks pool e k off ?j ?st)"
      using less.hyps less.prems(2) room by simp
    then have "cea_inv (b + 31 * (off - i))
        (V \<union> wanted (block_svds (drop i e)) \<union> blocks_names e (block_starts e off ?j)) (cea_data_blocks pool e k off ?j ?st)"
      by (rule cea_inv_mono) (use room in simp)
    moreover have "block_starts e off i = i # block_starts e off ?j"
      using True by (simp add: block_starts.simps [of e off i] add.commute add.left_commute)
    ultimately show ?thesis
      using True by (simp add: cea_data_blocks.simps [of pool e k off i] blocks_names_def Un_assoc)
  qed
qed

definition extension_names :: "u8 list \<Rightarrow> u16 set" where
  "extension_names b =
     (if b ! 0 = CEA_TAG \<and> b ! 2 \<noteq> 0 \<and> unat (b ! 2) < EDID_BLK_SIZE then blocks_names b (starts b) else {})"

lemma cea_inv_extension:
  assumes inv: "cea_inv b V st" and pool: "\<forall>k i j. pool_ok (pool k i j) \<and> pool_gives (pool k i j)"
    and b: "b + 4000 \<le> 2 ^ 20" and k: "EDID_BLK_SIZE * (k + 1) \<le> length e"
  shows "cea_inv (b + 4000) (V \<union> extension_names (ext_block e k)) (cea_extension pool e k st)"
proof (cases "ext_block e k ! 0 = CEA_TAG \<and> ext_block e k ! 2 \<noteq> 0 \<and> unat (ext_block e k ! 2) < EDID_BLK_SIZE")
  case False
  then have "cea_extension pool e k st = st" by (auto simp: cea_extension_def Let_def)
  moreover have "extension_names (ext_block e k) = {}" unfolding extension_names_def by (rule if_not_P [OF False])
  ultimately show ?thesis using cea_inv_mono [OF inv, of "b + 4000"] by simp
next
  case True
  let ?b = "ext_block e k" and ?off = "unat (ext_block e k ! 2)"
  let ?st = "fst (cbEDIDModule_GetCEADetailedMode (pool k 0) ?b (?b ! 2) st)"
  have lt: "?off < 128" using True by (simp add: EDID_BLK_SIZE_def)
  have "128 \<le> length ?b" using k by (simp add: EDID_BLK_SIZE_def)
  then have off: "?off \<le> length ?b" "?off < 128" using lt by linarith+
  have "cea_inv (b + 7) V ?st"
    unfolding cbEDIDModule_GetCEADetailedMode_def
    by (rule cea_inv_detailed) (use pool inv b in simp_all)
  then have "cea_inv (b + 7 + 31 * (?off - 4)) (V \<union> blocks_names ?b (block_starts ?b ?off 4))
      (cea_data_blocks (pool k) ?b k ?off 4 ?st)"
    using pool b off by (intro cea_inv_blocks) simp_all
  then have "cea_inv (b + 4000) (V \<union> blocks_names ?b (block_starts ?b ?off 4)) (cea_data_blocks (pool k) ?b k ?off 4 ?st)"
    by (rule cea_inv_mono) (use off in simp)
  moreover have "cea_extension pool e k st = cea_data_blocks (pool k) ?b k ?off 4 ?st"
    using True by (simp add: cea_extension_def Let_def)
  ultimately show ?thesis using True by (simp add: extension_names_def starts_def)
qed

lemma cea_inv_extensions:
  assumes pool: "\<forall>k i j. pool_ok (pool k i j) \<and> pool_gives (pool k i j)"
  shows "cea_inv b V st \<Longrightarrow> b + 4000 * length ks \<le> 2 ^ 20 \<Longrightarrow> \<forall>k \<in> set ks. EDID_BLK_SIZE * (k + 1) \<le> length e \<Longrightarrow>
    cea_inv (b + 4000 * length ks) (V \<union> (\<Union>k \<in> set ks. extension_names (ext_block e k))) (fold (cea_extension pool e) ks st)"
proof (induction ks arbitrary: b V st)
  case (Cons k ks)
  have "cea_inv (b + 4000) (V \<union> extension_names (ext_block e k)) (cea_extension pool e k st)"
    using Cons.prems pool by (intro cea_inv_extension) simp_all
  then show ?case
    using Cons.IH [of "b + 4000" "V \<union> extension_names (ext_block e k)"] Cons.prems by (simp add: Un_assoc add.assoc)
qed simp

definition hdmi_names :: "hdmi_vsdb \<Rightarrow> u16 set" where
  "hdmi_names v = (\<Union>c \<in> set (take (unat (HDMIVICLen v)) (HDMIVIC v)). offered (ucast c + 107))"

lemma cea_inv_hdmi_step:
  assumes inv: "cea_inv b V st" and pool: "pool_ok pool" "pool_gives pool" and b: "b < 2 ^ 20" and c: "c \<le> CBIOS_HDMI_EXTENED_VIC_COUNTS"
  shows "cea_inv (Suc b) (V \<union> offered (ucast c + 107)) (hdmi_vic_step pool c st)"
    "Attribute (hdmi_vic_step pool c st) = Attribute st"
proof -
  let ?v = "ucast c + 107 :: u16"
  have "unat (ucast c :: u16) = unat c" "unat c \<le> 4"
    using c unsigned_less [where 'a = nat, of c]
    by (simp_all add: unsigned_ucast_eq take_bit_nat_eq_self CBIOS_HDMI_EXTENED_VIC_COUNTS_def word_le_nat_alt)
  then have v: "1 \<le> unat ?v" "unat ?v \<le> 111" by (simp_all add: unat_word_ariths)
  obtain added st' idx where add: "cbEDIDModule_AddSvdFormat pool st ?v False = (added, st', idx)"
    by (cases "cbEDIDModule_AddSvdFormat pool st ?v False")
  have st': "hdmi_vic_step pool c st = st'"
    using add by (simp add: hdmi_vic_step_def CBIOS_HDMI_NORMAL_VIC_COUNTS_def)
  show "cea_inv (Suc b) (V \<union> offered ?v) (hdmi_vic_step pool c st)"
    unfolding st' by (rule cea_inv_add [OF inv pool b v add])
  show "Attribute (hdmi_vic_step pool c st) = Attribute st"
    unfolding hdmi_vic_step_def by (rule AddSvdFormat_Attribute)
qed

lemma cea_inv_hdmi_steps:
  assumes pool: "\<forall>i. pool_ok (pool i) \<and> pool_gives (pool i)" and c: "\<forall>i \<in> set is. f i \<le> CBIOS_HDMI_EXTENED_VIC_COUNTS"
  shows "cea_inv b V st \<Longrightarrow> b + length is \<le> 2 ^ 20 \<Longrightarrow>
    cea_inv (b + length is) (V \<union> (\<Union>i \<in> set is. offered (ucast (f i) + 107))) (fold (\<lambda>i. hdmi_vic_step (pool i) (f i)) is st) \<and>
    Attribute (fold (\<lambda>i. hdmi_vic_step (pool i) (f i)) is st) = Attribute st"
  using c
proof (induction "is" arbitrary: b V st)
  case (Cons i "is")
  have p: "pool_ok (pool i)" "pool_gives (pool i)" and c: "f i \<le> CBIOS_HDMI_EXTENED_VIC_COUNTS"
    using pool Cons.prems(3) by simp_all
  have b: "b < 2 ^ 20" using Cons.prems(2) by simp
  note S = cea_inv_hdmi_step [OF Cons.prems(1) p b c]
  then show ?case using Cons.IH [OF S(1)] Cons.prems by (simp add: Un_assoc)
qed simp

lemma cea_inv_hdmi:
  assumes inv: "cea_inv b V st" and pool: "\<forall>i. pool_ok (pool i) \<and> pool_gives (pool i)" and b: "b + 7 \<le> 2 ^ 20"
  shows "cea_inv (b + 7) (V \<union> hdmi_names (VSDBData (Attribute st))) (cbEDIDModule_GetHDMIVICMode pool st) \<and>
    Attribute (cbEDIDModule_GetHDMIVICMode pool st) = Attribute st"
proof -
  let ?v = "VSDBData (Attribute st)"
  let ?n = "unat (HDMIVICLen ?v)"
  have shape: "vsdb_shape ?v" using inv by (simp add: cea_inv_def)
  then have n: "?n \<le> 7" "length (HDMIVIC ?v) = 7" by (simp_all add: vsdb_shape_def word_le_nat_alt MAX_HDMI_VIC_LEN_def)
  then have codes: "\<forall>i \<in> set [0..<?n]. HDMIVIC ?v ! i \<le> CBIOS_HDMI_EXTENED_VIC_COUNTS"
    using shape by (simp add: vsdb_shape_def)
  have set: "set (take ?n (HDMIVIC ?v)) = (\<lambda>i. HDMIVIC ?v ! i) ` {0..<?n}"
    using n nth_image [of ?n "HDMIVIC ?v"] by simp
  have S: "cea_inv (b + ?n) (V \<union> hdmi_names ?v) (cbEDIDModule_GetHDMIVICMode pool st) \<and>
      Attribute (cbEDIDModule_GetHDMIVICMode pool st) = Attribute st"
    using cea_inv_hdmi_steps [OF pool codes inv] b n
    unfolding cbEDIDModule_GetHDMIVICMode_def Let_def hdmi_names_def set by simp
  moreover have "b + ?n \<le> b + 7" using n by simp
  ultimately show ?thesis using cea_inv_mono by blast
qed

lemma cbEDIDModule_GetCEA861Mode_spec:
  assumes inv: "cea_inv b V st" and b: "b \<le> 2 ^ 14"
    and pool: "\<forall>k i j. pool_ok (pool k i j) \<and> pool_gives (pool k i j)"
    and size: "BufferSize \<le> length e" "BufferSize \<le> EDID_BLK_SIZE * CBIOS_EDID_MAX_BLK_CNT"
    and res: "cbEDIDModule_GetCEA861Mode pool (Some e) BufferSize st = (st', n)"
  shows "cea_inv (b + 28007) (V \<union> (\<Union>k \<in> {1..<BufferSize div 128}. extension_names (ext_block e k)) \<union>
    hdmi_names (VSDBData (Attribute st'))) st'"
proof -
  let ?ks = "[1..<BufferSize div 128]"
  let ?V = "V \<union> (\<Union>k \<in> {1..<BufferSize div 128}. extension_names (ext_block e k))"
  define st1 where "st1 = fold (cea_extension pool e) ?ks st"
  define st2 where "st2 = cbEDIDPatchHDMIAudio st1"
  have len: "length ?ks \<le> 7" using size(2) by (simp add: EDID_BLK_SIZE_def CBIOS_EDID_MAX_BLK_CNT_def)
  have fit: "\<forall>k \<in> set ?ks. EDID_BLK_SIZE * (k + 1) \<le> length e"
    using size(1) by (auto simp: EDID_BLK_SIZE_def)
  have budget: "b + 4000 * length ?ks \<le> b + 28000" using len by simp
  have "cea_inv (b + 4000 * length ?ks) ?V st1"
    using cea_inv_extensions [OF pool inv _ fit] budget b unfolding st1_def by simp
  then have 1: "cea_inv (b + 28000) ?V st1" by (rule cea_inv_mono) (rule budget)
  have 2: "cea_inv (b + 28000) ?V st2"
    using 1 by (intro cea_inv_attrib [OF 1]) (simp_all add: st2_def cbEDIDPatchHDMIAudio_def cea_inv_def split: prod.splits)
  have st': "st' = cbEDIDModule_GetHDMIVICMode (pool 0 0) st2"
    using res by (simp add: cbEDIDModule_GetCEA861Mode_def cbEDIDModule_GetTotalBlockNum_def Let_def st1_def st2_def EDID_BLK_SIZE_def)
  have "cea_inv (b + 28000 + 7) (?V \<union> hdmi_names (VSDBData (Attribute st2))) st' \<and> Attribute st' = Attribute st2"
    unfolding st' using pool b by (intro cea_inv_hdmi [OF 2]) simp_all
  moreover have "b + 28000 + 7 = b + 28007" by simp
  ultimately show ?thesis by metis
qed

text \<open>
  Reading all CEA extensions of a description: no format stands twice in the list of timings, and the
  formats in it are those that were there before, the supported ones among the short descriptors of
  every video and YCbCr 4:2:0 block of every extension, and the supported ones of the vendor block of
  HDMI that was read last. No other format is added, none is forgotten, whatever the rest of the bytes is.
  The last data block may reach behind the extension; what is read there counts as its content.
\<close>

theorem cbEDIDModule_GetCEA861Mode_formats:
  assumes ok: "edid_ok b st" "formats_once (timings st)" "vsdb_shape (VSDBData (Attribute st))" "b \<le> 2 ^ 14"
    and pool: "\<forall>k i j. pool_ok (pool k i j) \<and> pool_gives (pool k i j)"
    and size: "BufferSize \<le> length e" "BufferSize \<le> EDID_BLK_SIZE * CBIOS_EDID_MAX_BLK_CNT"
    and res: "cbEDIDModule_GetCEA861Mode pool (Some e) BufferSize st = (st', n)"
  shows "formats_once (timings st') \<and> length (timings st') = unat (TimingNum st') \<and>
    names st' = names st \<union> (\<Union>k \<in> {1..<BufferSize div 128}. extension_names (ext_block e k)) \<union> hdmi_names (VSDBData (Attribute st'))"
proof -
  have "cea_inv b (names st) st" using ok by (simp add: cea_inv_def)
  from cbEDIDModule_GetCEA861Mode_spec [OF this ok(4) pool size res]
  show ?thesis using length_timings unfolding cea_inv_def by auto
qed

definition sample_formats_edid :: "u8 list" where
  "sample_formats_edid = EDID1header @ replicate 118 0 @ [1, 0] @ [2, 3, 10, 0x40, 0x42, 0x90, 16, 0xE2, 0x0E, 97] @ replicate 118 0"

lemma cbEDIDModule_GetCEA861Mode_formats_witness:
  "\<exists>st' n. cbEDIDModule_GetCEA861Mode (\<lambda>k i j. sample_pool) (Some sample_formats_edid) 256 empty_edid_struct = (st', n) \<and>
     formats_once (timings st') \<and> names st' = {16, 97} \<union> hdmi_names (VSDBData (Attribute st'))"
proof -
  let ?r = "cbEDIDModule_GetCEA861Mode (\<lambda>k i j. sample_pool) (Some sample_formats_edid) 256 empty_edid_struct"
  let ?b = "ext_block sample_formats_edid 1"
  have gives: "pool_gives sample_pool" by (auto simp: pool_gives_def sample_pool_def)
  have sup: "cea_supported (CEAVideoFormatTable ! 15) = 1" "cea_supported (CEAVideoFormatTable ! 96) = 1"
    by (simp_all add: CEAVideoFormatTable_def)
  have dec: "cbEDIDModule_GetFmtIdxFromSVD 0x90 0 = (True, 16, True)" "cbEDIDModule_GetFmtIdxFromSVD 16 0 = (True, 16, False)"
    "cbEDIDModule_GetFmtIdxFromSVD 97 0 = (True, 97, False)"
    by (simp_all add: cbEDIDModule_GetFmtIdxFromSVD_def CBIOS_HDMI_NORMAL_VIC_COUNTS_def)
  have w: "wanted_by 0x90 = {16}" "wanted_by 16 = {16}" "wanted_by 97 = {97}"
    using sup by (auto simp: wanted_by_def dec)
  have "?b ! 0 = CEA_TAG \<and> ?b ! 2 \<noteq> 0 \<and> unat (?b ! 2) < EDID_BLK_SIZE" "starts ?b = [4, 7]"
    "block_svds (drop 4 ?b) = [0x90, 16]" "block_svds (drop 7 ?b) = [97]"
    by code_simp+
  then have ext: "extension_names ?b = {16, 97}"
    by (simp add: extension_names_def blocks_names_def wanted_def w insert_commute)
  have st: "names empty_edid_struct = {}" "formats_once (timings empty_edid_struct)" "edid_ok 0 empty_edid_struct"
    "vsdb_shape (VSDBData (Attribute empty_edid_struct))"
    by (simp_all add: names_def formats_once_def timings_def empty_edid_struct_def edid_ok_def zero_monitor_def vsdb_shape_def zero_vsdb_def)
  have len: "256 \<le> length sample_formats_edid" by code_simp
  have pools: "\<forall>k i j :: nat. pool_ok sample_pool \<and> pool_gives sample_pool" using sample_pool_ok gives by simp
  obtain st' n where r: "?r = (st', n)" by (cases ?r)
  have one: "{1..<256 div 128} = {1 :: nat}" by auto
  show ?thesis
    using cbEDIDModule_GetCEA861Mode_formats [OF st(3,2,4) _ pools len _ r] st(1) ext unfolding one
    by (intro exI [of _ st'] exI [of _ n]) (simp add: r EDID_BLK_SIZE_def CBIOS_EDID_MAX_BLK_CNT_def)
qed

end
