(* ===== verification/Display_Id.thy ===== *)
theory Display_Id
  imports Cea_Block
begin

text \<open>
  Detailed timings in DisplayID extensions (\<^verbatim>\<open>cbios/Util/CBiosEDID.c\<close>). A descriptor has twenty bytes, or a few
  more that are skipped. What a descriptor says is a value, so that the layout can be compared with it.
\<close>

unbundle bit_operations_syntax

section \<open>Descriptors\<close>

definition CBIOS_DISP_ID_TIMING :: u32 where "CBIOS_DISP_ID_TIMING = 0x0020"
definition DISPLAYID_TAG :: u8 where "DISPLAYID_TAG = 0x70"
definition DID_TYPE1_TIMING_DESCRIPTOR_LENGTH :: nat where "DID_TYPE1_TIMING_DESCRIPTOR_LENGTH = 20"
definition VIDEO_TIMING_MODES_DATA_BLOCK_TYPE1_TAG :: u8 where "VIDEO_TIMING_MODES_DATA_BLOCK_TYPE1_TAG = 0x03"
definition VIDEO_TIMING_MODES_DATA_BLOCK2_TYPE7_TAG :: u8 where "VIDEO_TIMING_MODES_DATA_BLOCK2_TYPE7_TAG = 0x22"

definition did_len :: "u8 list \<Rightarrow> nat" where
  "did_len pData =
     (let BlockRevision = pData ! 1 AND 7
      in if pData ! 0 = VIDEO_TIMING_MODES_DATA_BLOCK2_TYPE7_TAG \<and> (BlockRevision = 1 \<or> BlockRevision = 2)
         then DID_TYPE1_TIMING_DESCRIPTOR_LENGTH + unat (drop_bit 4 (pData ! 1 AND 0x70))
         else DID_TYPE1_TIMING_DESCRIPTOR_LENGTH)"

definition le16 :: "u8 \<Rightarrow> u8 \<Rightarrow> u16" where "le16 low high = push_bit 8 (ucast high) + ucast low"

text \<open>The timing at offset \<open>p\<close> of the block; \<open>None\<close> is the first \<^verbatim>\<open>continue\<close>.\<close>

definition did_timing :: "u8 list \<Rightarrow> nat \<Rightarrow> device_timing option" where
  "did_timing pData p =
     (let d = (\<lambda>k. pData ! (k + p)); BlockRevision = pData ! 1 AND 7;
          Clock = push_bit 16 (ucast (d 5)) + push_bit 8 (ucast (d 4)) + (ucast (d 3) + 1) :: u32;
          Clock = (if pData ! 0 = VIDEO_TIMING_MODES_DATA_BLOCK2_TYPE7_TAG then Clock * 10 else Clock * 100);
          X = le16 (d 7) (d 8) + 1; HBlank = le16 (d 9) (d 10) + 1;
          HOffset = le16 (d 11) (d 12 AND 0x7F) + 1; HWidth = le16 (d 13) (d 14) + 1;
          HSync = (if bit (d 12) 7 then HorPOSITIVE else HorNEGATIVE);
          Y = le16 (d 15) (d 16) + 1; VBlank = le16 (d 17) (d 18) + 1;
          VOffset = le16 (d 19) (d 20 AND 0x7F) + 1; VWidth = le16 (d 21) (d 22) + 1;
          VSync = (if bit (d 20) 7 then VerPOSITIVE else VerNEGATIVE);
          Rate = cbCalcRefreshRate Clock (X + HBlank) (Y + VBlank);
          SteroSupport = drop_bit 5 (d 6 AND 0x60)
      in if X = 0 \<or> Y = 0 then None
         else Some (zero_timing\<lparr>
           TimingType := CBIOS_DISP_ID_TIMING,
           IsInterLaced := bit (d 6) 4,
           IsPreferMode := (BlockRevision < 2 \<and> bit (d 6) 7),
           IsSupportYCbCr420 := (BlockRevision = 2 \<and> bit (d 6) 7),
           AspectRatio := ucast (d 6 AND 0xF),
           IsSupportMono := (SteroSupport = 0 \<or> SteroSupport = 2),
           IsSupportStereo := (SteroSupport = 1 \<or> SteroSupport = 2),
           FullTiming := zero_attrib\<lparr>
             FormatVIC := 0, Size := TIMING_ATTRIB_SIZE, PixelClock := Clock,
             XRes := X, HorTotal := X + HBlank, HorDisEnd := X, HorBStart := X, HorBEnd := X + HBlank,
             HorSyncStart := X + HOffset, HorSyncEnd := X + HOffset + HWidth,
             YRes := Y, VerTotal := Y + VBlank, VerDisEnd := Y, VerBStart := Y, VerBEnd := Y + VBlank,
             VerSyncStart := Y + VOffset, VerSyncEnd := Y + VOffset + VWidth,
             HVPolarity := ucast HSync + ucast VSync,
             RefreshRate := ucast (100 * cbRound (ucast Rate) 100 ROUND_NEAREST)\<rparr>\<rparr>))"

definition did_step :: "pool \<Rightarrow> u8 list \<Rightarrow> nat \<Rightarrow> edid_struct \<times> u32 \<Rightarrow> edid_struct \<times> u32" where
  "did_step pool pData p = (\<lambda>(st, ulNumOfModes).
     case did_timing pData p of
       None \<Rightarrow> (st, ulNumOfModes)
     | Some t \<Rightarrow>
         if \<not> cbEDIDModule_ValidateTiming st t then (st, ulNumOfModes)
         else case cbEDIDModule_AddDeviceTiming pool st t of
                (ok, st) \<Rightarrow> (st, if ok then ulNumOfModes + 1 else ulNumOfModes))"

definition cbEDIDModule_GetDisplayIDTiming ::
  "(nat \<Rightarrow> pool) \<Rightarrow> u8 list \<Rightarrow> edid_struct \<Rightarrow> edid_struct \<times> u32" where
  "cbEDIDModule_GetDisplayIDTiming pool pData st =
     (let PayloadLen = unat (pData ! 2); DescriptorLen = did_len pData
      in fold (\<lambda>i. did_step (pool i) pData (i * DescriptorLen)) [0..<PayloadLen div DescriptorLen] (st, 0))"

section \<open>The walk over the blocks\<close>

function did_blocks ::
  "(nat \<Rightarrow> nat \<Rightarrow> pool) \<Rightarrow> u8 list \<Rightarrow> nat \<Rightarrow> edid_struct \<times> u32 \<Rightarrow> edid_struct \<times> u32" where
  "did_blocks pool b i s =
     (if i < 126 then
        did_blocks pool b (i + (unat (b ! (i + 2)) + 3))
          (if b ! i = VIDEO_TIMING_MODES_DATA_BLOCK_TYPE1_TAG \<or> b ! i = VIDEO_TIMING_MODES_DATA_BLOCK2_TYPE7_TAG
           then case cbEDIDModule_GetDisplayIDTiming (pool i) (drop i b) (fst s) of (st, n) \<Rightarrow> (st, snd s + n)
           else s)
      else s)"
  by pat_completeness auto
termination
  by (relation "measure (\<lambda>(pool, b, i, s). 126 - i)") auto

declare did_blocks.simps [simp del]

definition did_extension ::
  "(nat \<Rightarrow> nat \<Rightarrow> nat \<Rightarrow> pool) \<Rightarrow> u8 list \<Rightarrow> nat \<Rightarrow> edid_struct \<times> u32 \<Rightarrow> edid_struct \<times> u32" where
  "did_extension pool e BlockIndex s =
     (let b = ext_block e BlockIndex
      in if b ! 0 \<noteq> DISPLAYID_TAG then s
         else if b ! 2 = 0 then s
         else did_blocks (pool BlockIndex) b 5 s)"

definition cbEDIDModule_GetDisplayIDMode ::
  "(nat \<Rightarrow> nat \<Rightarrow> nat \<Rightarrow> pool) \<Rightarrow> u8 list option \<Rightarrow> nat \<Rightarrow> edid_struct \<Rightarrow> edid_struct \<times> u32" where
  "cbEDIDModule_GetDisplayIDMode pool Buffer BufferSize st =
     fold (did_extension pool (the Buffer)) [1..<cbEDIDModule_GetTotalBlockNum Buffer BufferSize] (st, 0)"

section \<open>What is added\<close>

text \<open>What the reader adds: timings a display can use, of its type and without a code.\<close>

definition did_found :: "device_timing \<Rightarrow> bool" where
  "did_found t \<longleftrightarrow> usable t \<and> TimingType t = CBIOS_DISP_ID_TIMING \<and> FormatVIC (FullTiming t) = 0"

lemma did_timing_type: "did_timing d p = Some t \<Longrightarrow> TimingType t = CBIOS_DISP_ID_TIMING \<and> FormatVIC (FullTiming t) = 0"
  by (auto simp: did_timing_def Let_def split: if_splits)

lemma did_step_spec:
  assumes ok: "edid_ok b (fst s)" "pool_ok pool" and b: "b < 2 ^ 20"
  shows "edid_ok (Suc b) (fst (did_step pool d p s)) \<and> extends did_found s (did_step pool d p s) 1 \<and>
    Attribute (fst (did_step pool d p s)) = Attribute (fst s)"
proof -
  obtain st n where s: "s = (st, n)" by (cases s)
  consider (skip) "did_timing d p = None" | (bad) t where "did_timing d p = Some t" "\<not> cbEDIDModule_ValidateTiming st t"
    | (good) t where "did_timing d p = Some t" "cbEDIDModule_ValidateTiming st t" by blast
  then show ?thesis
  proof cases
    case skip
    then show ?thesis using ok edid_ok_mono [of b st "Suc b"] by (auto simp: did_step_def s extends_def)
  next
    case bad
    then show ?thesis using ok edid_ok_mono [of b st "Suc b"] by (auto simp: did_step_def s extends_def)
  next
    case good
    obtain added st2 where add: "cbEDIDModule_AddDeviceTiming pool st t = (added, st2)"
      by (cases "cbEDIDModule_AddDeviceTiming pool st t")
    have "edid_ok b st" using ok(1) by (simp add: s)
    note A = AddDeviceTiming_spec [OF this ok(2) b add]
    have "usable t" using good(2) by (auto simp: cbEDIDModule_ValidateTiming_def usable_def split: if_splits)
    then have found: "did_found t" using did_timing_type [OF good(1)] by (simp add: did_found_def)
    have step: "did_step pool d p s = (st2, if added then n + 1 else n)"
      using good add by (simp add: did_step_def s)
    show ?thesis
      using A(1,2,4) found unfolding step by (auto simp: extends_def s intro: exI [of _ "[t]"])
  qed
qed

lemma AddDeviceTiming_Attribute: "Attribute (snd (cbEDIDModule_AddDeviceTiming pool st t)) = Attribute st"
proof -
  have "Attribute (ensure_array pool st) = Attribute st" for st by (simp add: ensure_array_def Let_def split: option.splits)
  moreover have "Attribute (grow_array pool st) = Attribute st" for st by (simp add: grow_array_def Let_def split: option.splits)
  ultimately show ?thesis by (simp add: cbEDIDModule_AddDeviceTiming_def Let_def split: option.splits)
qed

lemma did_step_Attribute: "Attribute (fst (did_step pool d p s)) = Attribute (fst s)"
proof -
  obtain st n where s: "s = (st, n)" by (cases s)
  have "Attribute (snd (cbEDIDModule_AddDeviceTiming pool st t)) = Attribute st" for t by (rule AddDeviceTiming_Attribute)
  then show ?thesis by (auto simp: did_step_def s split: option.splits prod.splits) (metis snd_conv)
qed

interpretation did: timing_reader "\<lambda>(pool, d, p). did_step (sound_pool pool) d p" did_found
  using did_step_spec [OF _ sound_pool_ok] by unfold_locales auto

text \<open>The whole reader is one run over the descriptors it meets.\<close>

lemma did_step_shift: "did_step pool d p (st, m + n) = (case did_step pool d p (st, n) of (st', k) \<Rightarrow> (st', m + k))"
  by (auto simp: did_step_def add.assoc split: option.splits prod.splits)

lemma did_run_shift:
  "fold (\<lambda>(pool, d, p). did_step pool d p) is (st, m + n) =
   (case fold (\<lambda>(pool, d, p). did_step pool d p) is (st, n) of (st', k) \<Rightarrow> (st', m + k))"
proof (induction "is" arbitrary: st n)
  case (Cons i "is")
  obtain pool d p where i: "i = (pool, d, p)" by (cases i)
  obtain st' k where s: "did_step pool d p (st, n) = (st', k)" by (cases "did_step pool d p (st, n)")
  show ?case using Cons.IH [of st' k] by (simp add: i did_step_shift s)
qed simp

text \<open>A state that a run over at most \<open>r\<close> descriptors with sound pools leads to.\<close>

definition did_reach :: "nat \<Rightarrow> edid_struct \<times> u32 \<Rightarrow> edid_struct \<times> u32 \<Rightarrow> bool" where
  "did_reach r s s' \<longleftrightarrow>
     (\<exists>is. length is \<le> r \<and> (\<forall>(pool, d, p) \<in> set is. pool_ok pool) \<and> s' = fold (\<lambda>(pool, d, p). did_step pool d p) is s)"

lemma did_reach_refl: "did_reach 0 s s"
  by (auto simp: did_reach_def)

lemma did_reach_mono: "did_reach r s s' \<Longrightarrow> r \<le> q \<Longrightarrow> did_reach q s s'"
  unfolding did_reach_def using order_trans by blast

lemma did_reach_trans: "did_reach r s s' \<Longrightarrow> did_reach q s' s'' \<Longrightarrow> did_reach (r + q) s s''"
proof -
  assume "did_reach r s s'" "did_reach q s' s''"
  then obtain xs ys where "length xs \<le> r" "\<forall>(pool, d, p) \<in> set xs. pool_ok pool" "s' = fold (\<lambda>(pool, d, p). did_step pool d p) xs s"
    "length ys \<le> q" "\<forall>(pool, d, p) \<in> set ys. pool_ok pool" "s'' = fold (\<lambda>(pool, d, p). did_step pool d p) ys s'"
    unfolding did_reach_def by blast
  then show ?thesis unfolding did_reach_def by (intro exI [of _ "xs @ ys"]) auto
qed

lemma did_reach_timing:
  assumes pool: "\<And>i. pool_ok (pool i)" and r: "cbEDIDModule_GetDisplayIDTiming pool d (fst s) = (st, n)"
  shows "did_reach 12 s (st, snd s + n)"
proof -
  let ?n = "unat (d ! 2) div did_len d"
  let ?is = "map (\<lambda>i. (pool i, d, i * did_len d)) [0..<?n]"
  have "unat (d ! 2) < 256" using unsigned_less [where 'a = nat, of "d ! 2"] by simp
  moreover have "20 \<le> did_len d" by (simp add: did_len_def Let_def DID_TYPE1_TIMING_DESCRIPTOR_LENGTH_def)
  ultimately have "?n * 20 < 256" using div_times_less_eq_dividend [of "unat (d ! 2)" "did_len d"]
    mult_le_mono2 [of 20 "did_len d" ?n] by linarith
  then have len: "length ?is \<le> 12" by simp
  have "fold (\<lambda>(pool, d, p). did_step pool d p) ?is (fst s, 0) = (st, n)"
    using r by (simp add: cbEDIDModule_GetDisplayIDTiming_def Let_def fold_map comp_def)
  then have "fold (\<lambda>(pool, d, p). did_step pool d p) ?is s = (st, snd s + n)"
    using did_run_shift [of ?is "fst s" "snd s" 0] by simp
  then show ?thesis unfolding did_reach_def using len pool by (intro exI [of _ ?is]) auto
qed

lemma did_reach_blocks:
  assumes pool: "\<And>i j. pool_ok (pool i j)"
  shows "did_reach (12 * (126 - i)) s (did_blocks pool b i s)"
proof (induction "126 - i" arbitrary: i s rule: less_induct)
  case less
  show ?case
  proof (cases "i < 126")
    case False
    then show ?thesis using did_reach_refl by (simp add: did_blocks.simps [of pool b i])
  next
    case True
    let ?j = "i + (unat (b ! (i + 2)) + 3)"
    let ?s = "if b ! i = VIDEO_TIMING_MODES_DATA_BLOCK_TYPE1_TAG \<or> b ! i = VIDEO_TIMING_MODES_DATA_BLOCK2_TYPE7_TAG
           then case cbEDIDModule_GetDisplayIDTiming (pool i) (drop i b) (fst s) of (st, n) \<Rightarrow> (st, snd s + n) else s"
    have "did_reach 12 s ?s"
      using did_reach_timing [of "pool i" "drop i b" s] pool did_reach_mono [OF did_reach_refl, of 12 s] by (auto split: prod.splits)
    moreover have "did_reach (12 * (126 - ?j)) ?s (did_blocks pool b ?j ?s)"
      by (rule less.hyps) (use True in simp)
    ultimately have "did_reach (12 + 12 * (126 - ?j)) s (did_blocks pool b ?j ?s)" by (rule did_reach_trans)
    moreover have "12 + 12 * (126 - ?j) \<le> 12 * (126 - i)" using True by simp
    ultimately show ?thesis
      using did_reach_mono True by (subst did_blocks.simps) (simp only: if_True)
  qed
qed

lemma did_reach_extensions:
  assumes pool: "\<And>k i j. pool_ok (pool k i j)"
  shows "did_reach (1500 * length ks) s (fold (did_extension pool e) ks s)"
proof (induction ks arbitrary: s)
  case (Cons k ks)
  have "did_reach 1500 s (did_extension pool e k s)"
    using did_reach_mono [OF did_reach_blocks [of "pool k" 5 s "ext_block e k"], of 1500] pool
      did_reach_mono [OF did_reach_refl, of 1500 s]
    by (auto simp: did_extension_def Let_def)
  from did_reach_trans [OF this Cons.IH] show ?case by simp
qed (simp add: did_reach_refl)

lemma did_reach_spec:
  assumes reach: "did_reach r s s'" and ok: "edid_ok b (fst s)" "b + r \<le> 2 ^ 20"
  shows "edid_ok (b + r) (fst s')" "extends did_found s s' r" "Attribute (fst s') = Attribute (fst s)"
proof -
  obtain "is" where len: "length is \<le> r" and sound: "\<forall>(pool, d, p) \<in> set is. pool_ok pool"
    and s': "s' = fold (\<lambda>(pool, d, p). did_step pool d p) is s"
    using reach unfolding did_reach_def by blast
  have "fold (\<lambda>(pool, d, p). did_step pool d p) is s = fold (\<lambda>(pool, d, p). did_step (sound_pool pool) d p) is s"
    by (rule fold_cong) (use sound in \<open>auto simp: sound_pool_id split: prod.splits\<close>)
  then have s': "s' = fold (\<lambda>(pool, d, p). did_step (sound_pool pool) d p) is s" using s' by simp
  have room: "b + length is \<le> 2 ^ 20" using ok(2) len by simp
  show "edid_ok (b + r) (fst s')"
    using edid_ok_mono [OF did.run_ok [OF ok(1) room], of "b + r"] len unfolding s' by simp
  show "extends did_found s s' r"
    using did.run_extends [OF ok(1) room] len unfolding s' extends_def by (metis order_trans)
  have "Attribute (fst (fold (\<lambda>(pool, d, p). did_step (sound_pool pool) d p) is t)) = Attribute (fst t)" for t
    by (induction "is" arbitrary: t) (simp_all add: did_step_Attribute split: prod.splits)
  then show "Attribute (fst s') = Attribute (fst s)" unfolding s' .
qed

section \<open>Reading back what a display says\<close>

text \<open>A timing in the layout of the specification; \<open>tag\<close> fixes the unit of the clock, the revision what the top flag means.\<close>

definition did_unit :: "u8 \<Rightarrow> u32" where
  "did_unit tag = (if tag = VIDEO_TIMING_MODES_DATA_BLOCK2_TYPE7_TAG then 10 else 100)"

definition le_bytes :: "u16 \<Rightarrow> u8 list" where "le_bytes w = [ucast w, ucast (drop_bit 8 w)]"

definition sync_bytes :: "bool \<Rightarrow> u16 \<Rightarrow> u8 list" where
  "sync_bytes pos w = [ucast w, ucast (drop_bit 8 w) OR push_bit 7 (of_bool pos)]"

definition did_flags :: "u8 \<Rightarrow> device_timing \<Rightarrow> u8" where
  "did_flags rv t =
     push_bit 7 (of_bool (if rv = 2 then IsSupportYCbCr420 t else IsPreferMode t)) OR
     push_bit 6 (of_bool (IsSupportMono t \<longleftrightarrow> IsSupportStereo t)) OR
     push_bit 5 (of_bool (\<not> IsSupportMono t)) OR
     push_bit 4 (of_bool (IsInterLaced t)) OR ucast (AspectRatio t)"

definition did_bytes :: "u8 \<Rightarrow> u8 \<Rightarrow> device_timing \<Rightarrow> u8 list" where
  "did_bytes tag rv t =
     (let f = FullTiming t; c = PixelClock f div did_unit tag - 1
      in [ucast c, ucast (drop_bit 8 c), ucast (drop_bit 16 c), did_flags rv t] @
         le_bytes (XRes f - 1) @ le_bytes (HorTotal f - XRes f - 1) @
         sync_bytes (\<not> bit (HVPolarity f) 6) (HorSyncStart f - XRes f - 1) @ le_bytes (HorSyncEnd f - HorSyncStart f - 1) @
         le_bytes (YRes f - 1) @ le_bytes (VerTotal f - YRes f - 1) @
         sync_bytes (\<not> bit (HVPolarity f) 7) (VerSyncStart f - YRes f - 1) @ le_bytes (VerSyncEnd f - VerSyncStart f - 1))"

text \<open>The timings a descriptor can say.\<close>

definition did_valid :: "u8 \<Rightarrow> u8 \<Rightarrow> device_timing \<Rightarrow> bool" where
  "did_valid tag rv t \<longleftrightarrow>
     (let f = FullTiming t; c = unat (PixelClock f) div unat (did_unit tag)
      in t = zero_timing\<lparr>TimingType := CBIOS_DISP_ID_TIMING, IsInterLaced := IsInterLaced t,
               IsPreferMode := IsPreferMode t, IsSupportYCbCr420 := IsSupportYCbCr420 t, AspectRatio := AspectRatio t,
               IsSupportMono := IsSupportMono t, IsSupportStereo := IsSupportStereo t, FullTiming := f\<rparr> \<and>
         rv \<le> 2 \<and> (if rv = 2 then \<not> IsPreferMode t else \<not> IsSupportYCbCr420 t) \<and> AspectRatio t < 16 \<and>
         FormatVIC f = 0 \<and> Size f = TIMING_ATTRIB_SIZE \<and> unat (PixelClock f) = unat (did_unit tag) * c \<and> 1 \<le> c \<and> c \<le> 2 ^ 24 \<and>
         XRes f \<noteq> 0 \<and> HorDisEnd f = XRes f \<and> HorBStart f = XRes f \<and> HorBEnd f = HorTotal f \<and>
         HorSyncStart f - XRes f - 1 < 0x8000 \<and>
         YRes f \<noteq> 0 \<and> VerDisEnd f = YRes f \<and> VerBStart f = YRes f \<and> VerBEnd f = VerTotal f \<and>
         VerSyncStart f - YRes f - 1 < 0x8000 \<and>
         HVPolarity f \<in> {0x00, 0x40, 0x80, 0xC0} \<and>
         RefreshRate f = ucast (100 * cbRound (ucast (cbCalcRefreshRate (PixelClock f) (HorTotal f) (VerTotal f))) 100 ROUND_NEAREST))"

lemma le16_bytes: "le16 (ucast w) (ucast (drop_bit 8 w)) = w"
proof -
  have "push_bit 8 (ucast (ucast (drop_bit 8 w) :: u8)) AND ucast (ucast w :: u8) = (0 :: u16)"
    by (intro bit_word_eqI) (auto simp: bit_simps)
  then have "le16 (ucast w) (ucast (drop_bit 8 w)) = push_bit 8 (ucast (ucast (drop_bit 8 w) :: u8)) OR ucast (ucast w :: u8)"
    unfolding le16_def by (rule disjunctive_add_eq_or)
  also have "\<dots> = w" by (intro bit_word_eqI) (auto simp: bit_simps)
  finally show ?thesis .
qed

lemma sync_byte:
  assumes w: "(w :: u16) < 0x8000"
  shows "(ucast (drop_bit 8 w) OR push_bit 7 (of_bool pos)) AND 0x7F = (ucast (drop_bit 8 w) :: u8)"
    "bit (ucast (drop_bit 8 w) OR push_bit 7 (of_bool pos) :: u8) 7 = pos"
proof -
  have m: "(0x7F :: u8) = mask 7" by (simp add: mask_eq_exp_minus_1)
  have w: "bit w i \<Longrightarrow> i < 15" for i using w low_bits [of w 15 i] by simp
  show "(ucast (drop_bit 8 w) OR push_bit 7 (of_bool pos)) AND 0x7F = (ucast (drop_bit 8 w) :: u8)"
    unfolding m by (intro bit_word_eqI) (use w in \<open>force simp: bit_simps\<close>)
  show "bit (ucast (drop_bit 8 w) OR push_bit 7 (of_bool pos) :: u8) 7 = pos"
    using w [of 15] by (auto simp: bit_simps)
qed

lemma clock_bytes:
  assumes c: "(c :: u32) < 2 ^ 24"
  shows "push_bit 16 (ucast (ucast (drop_bit 16 c) :: u8)) + push_bit 8 (ucast (ucast (drop_bit 8 c) :: u8)) +
    (ucast (ucast c :: u8) + 1) = c + 1"
proof -
  let ?h = "push_bit 16 (ucast (ucast (drop_bit 16 c) :: u8)) :: u32" and ?m = "push_bit 8 (ucast (ucast (drop_bit 8 c) :: u8)) :: u32"
    and ?l = "ucast (ucast c :: u8) :: u32"
  have c: "bit c i \<Longrightarrow> i < 24" for i using low_bits [OF c] .
  have "?h AND ?m = 0" "(?h OR ?m) AND ?l = 0" by (intro bit_word_eqI; auto simp: bit_simps)+
  then have "?h + ?m = ?h OR ?m" "(?h OR ?m) + ?l = (?h OR ?m) OR ?l" by (simp_all add: disjunctive_add_eq_or)
  moreover have "(?h OR ?m) OR ?l = c"
  proof (rule bit_word_eqI)
    fix n
    show "bit ((?h OR ?m) OR ?l) n \<longleftrightarrow> bit c n" if "n < LENGTH(32)" using that c [of n] by (cases "n < 16") (auto simp: bit_simps)
  qed
  ultimately show ?thesis by (simp add: add.assoc [symmetric])
qed

lemma flag_bits:
  assumes "AspectRatio t < 16"
  shows "bit (did_flags rv t) 7 = (if rv = 2 then IsSupportYCbCr420 t else IsPreferMode t)"
    "bit (did_flags rv t) 4 = IsInterLaced t" "ucast (did_flags rv t AND 0xF) = AspectRatio t"
    "drop_bit 5 (did_flags rv t AND 0x60) = of_bool (\<not> IsSupportMono t) + 2 * of_bool (IsSupportMono t \<longleftrightarrow> IsSupportStereo t)"
proof -
  have a: "bit (AspectRatio t) i \<Longrightarrow> i < 4" for i using assms low_bits [of "AspectRatio t" 4 i] by simp
  show "bit (did_flags rv t) 7 = (if rv = 2 then IsSupportYCbCr420 t else IsPreferMode t)" "bit (did_flags rv t) 4 = IsInterLaced t"
    using a [of 7] a [of 4] by (auto simp: did_flags_def bit_simps)
  have m: "(0xF :: u8) = mask 4" by (simp add: mask_eq_exp_minus_1)
  show "ucast (did_flags rv t AND 0xF) = AspectRatio t"
  proof (rule bit_word_eqI)
    fix n assume "n < LENGTH(16)"
    then show "bit (ucast (did_flags rv t AND 0xF) :: u16) n = bit (AspectRatio t) n"
      using a [of n] unfolding m did_flags_def by (auto simp: bit_simps)
  qed
  have b: "bit (did_flags rv t) 5 = (\<not> IsSupportMono t)" "bit (did_flags rv t) 6 = (IsSupportMono t \<longleftrightarrow> IsSupportStereo t)"
    using a [of 5] a [of 6] by (auto simp: did_flags_def bit_simps)
  have "drop_bit 5 (x AND 0x60) = of_bool (bit x 5) + 2 * of_bool (bit x 6)" for x :: u8
  proof -
    have "(0x60 :: u8) = push_bit 5 (mask 2)" by (simp add: mask_eq_exp_minus_1)
    then show ?thesis
      unfolding byte_eq by (cases "bit x 5"; cases "bit x 6") (simp_all add: bit_simps)
  qed
  from this [of "did_flags rv t"]
  show "drop_bit 5 (did_flags rv t AND 0x60) = of_bool (\<not> IsSupportMono t) + 2 * of_bool (IsSupportMono t \<longleftrightarrow> IsSupportStereo t)"
    by (simp only: b)
qed

lemma length_did_bytes: "length (did_bytes tag rv t) = 20"
  by (simp add: did_bytes_def Let_def le_bytes_def sync_bytes_def)

lemma did_clock:
  assumes c: "unat k = unat (did_unit tag) * c" "c = unat k div unat (did_unit tag)" "1 \<le> c" "c \<le> 2 ^ 24"
  shows "k div did_unit tag - 1 < 2 ^ 24" "did_unit tag * (k div did_unit tag) = k"
proof -
  have q: "unat (k div did_unit tag) = c" using c(2) by (simp add: unat_div)
  then have "1 \<le> k div did_unit tag" using c(3) by (simp add: word_le_nat_alt)
  then have "unat (k div did_unit tag - 1) = c - 1" using q by (simp add: unat_sub)
  then show "k div did_unit tag - 1 < 2 ^ 24" using c(3,4) by (simp add: word_less_nat_alt)
  have "of_nat (unat k) = (of_nat (unat (did_unit tag)) * of_nat c :: u32)" using c(1) by (metis of_nat_mult)
  then show "did_unit tag * (k div did_unit tag) = k" by (simp flip: q)
qed

lemma did_timing_bytes:
  assumes v: "did_valid tag rv t" and d: "drop (3 + p) d = did_bytes tag rv t @ r" and h: "d ! 0 = tag" "d ! 1 AND 7 = rv"
  shows "did_timing d p = Some t"
proof -
  let ?f = "FullTiming t"
  have n: "d ! (k + 3 + p) = did_bytes tag rv t ! k" if "k < 20" for k
    using drop_steps(1) [OF d, of k] that by (simp add: length_did_bytes add.commute add.left_commute)
  have shape: "t = zero_timing\<lparr>TimingType := CBIOS_DISP_ID_TIMING, IsInterLaced := IsInterLaced t,
      IsPreferMode := IsPreferMode t, IsSupportYCbCr420 := IsSupportYCbCr420 t, AspectRatio := AspectRatio t,
      IsSupportMono := IsSupportMono t, IsSupportStereo := IsSupportStereo t, FullTiming := ?f\<rparr>"
    and rv: "rv \<le> 2" "if rv = 2 then \<not> IsPreferMode t else \<not> IsSupportYCbCr420 t" and ar: "AspectRatio t < 16"
    and clk: "unat (PixelClock ?f) = unat (did_unit tag) * (unat (PixelClock ?f) div unat (did_unit tag))"
      "1 \<le> unat (PixelClock ?f) div unat (did_unit tag)" "unat (PixelClock ?f) div unat (did_unit tag) \<le> 2 ^ 24"
    and off: "HorSyncStart ?f - XRes ?f - 1 < 0x8000" "VerSyncStart ?f - YRes ?f - 1 < 0x8000"
    and res: "XRes ?f \<noteq> 0" "YRes ?f \<noteq> 0"
    and pol: "HVPolarity ?f \<in> {0x00, 0x40, 0x80, 0xC0}"
    and same: "FormatVIC ?f = 0" "Size ?f = TIMING_ATTRIB_SIZE" "HorDisEnd ?f = XRes ?f" "HorBStart ?f = XRes ?f" "HorBEnd ?f = HorTotal ?f"
      "VerDisEnd ?f = YRes ?f" "VerBStart ?f = YRes ?f" "VerBEnd ?f = VerTotal ?f"
      "RefreshRate ?f = ucast (100 * cbRound (ucast (cbCalcRefreshRate (PixelClock ?f) (HorTotal ?f) (VerTotal ?f))) 100 ROUND_NEAREST)"
    using v unfolding did_valid_def Let_def by blast+
  note bs = did_bytes_def Let_def le_bytes_def sync_bytes_def
  have c: "push_bit 16 (ucast (d ! (5 + p))) + push_bit 8 (ucast (d ! (4 + p))) + (ucast (d ! (3 + p)) + 1) = PixelClock ?f div did_unit tag"
    using n [of 0] n [of 1] n [of 2] clock_bytes [OF did_clock(1) [OF clk(1) refl clk(2,3)]] by (simp add: bs)
  have fl: "d ! (6 + p) = did_flags rv t" using n [of 3] by (simp add: bs)
  have x: "le16 (d ! (7 + p)) (d ! (8 + p)) + 1 = XRes ?f" "le16 (d ! (9 + p)) (d ! (10 + p)) + 1 = HorTotal ?f - XRes ?f"
    "le16 (d ! (11 + p)) (d ! (12 + p) AND 0x7F) + 1 = HorSyncStart ?f - XRes ?f"
    "le16 (d ! (13 + p)) (d ! (14 + p)) + 1 = HorSyncEnd ?f - HorSyncStart ?f" "bit (d ! (12 + p)) 7 = (\<not> bit (HVPolarity ?f) 6)"
    using n [of 4] n [of 5] n [of 6] n [of 7] n [of 8] n [of 9] n [of 10] n [of 11] sync_byte [OF off(1)]
    by (simp_all add: bs le16_bytes)
  have y: "le16 (d ! (15 + p)) (d ! (16 + p)) + 1 = YRes ?f" "le16 (d ! (17 + p)) (d ! (18 + p)) + 1 = VerTotal ?f - YRes ?f"
    "le16 (d ! (19 + p)) (d ! (20 + p) AND 0x7F) + 1 = VerSyncStart ?f - YRes ?f"
    "le16 (d ! (21 + p)) (d ! (22 + p)) + 1 = VerSyncEnd ?f - VerSyncStart ?f" "bit (d ! (20 + p)) 7 = (\<not> bit (HVPolarity ?f) 7)"
    using n [of 12] n [of 13] n [of 14] n [of 15] n [of 16] n [of 17] n [of 18] n [of 19] sync_byte [OF off(2)]
    by (simp_all add: bs le16_bytes)
  have k: "(if tag = VIDEO_TIMING_MODES_DATA_BLOCK2_TYPE7_TAG then (PixelClock ?f div did_unit tag) * 10 else (PixelClock ?f div did_unit tag) * 100) = PixelClock ?f"
    using did_clock(2) [OF clk(1) refl clk(2,3)] by (simp add: did_unit_def mult.commute split: if_splits)
  have p: "ucast (if \<not> bit (HVPolarity ?f) 6 then HorPOSITIVE else HorNEGATIVE) + ucast (if \<not> bit (HVPolarity ?f) 7 then VerPOSITIVE else VerNEGATIVE) = HVPolarity ?f"
    using pol by (auto simp: HorPOSITIVE_def HorNEGATIVE_def VerPOSITIVE_def VerNEGATIVE_def)
  have sums: "a + (b - a) = b" for a b :: u16 by simp
  have ft: "zero_attrib\<lparr>FormatVIC := 0, Size := TIMING_ATTRIB_SIZE, PixelClock := PixelClock ?f,
      XRes := XRes ?f, HorTotal := HorTotal ?f, HorDisEnd := XRes ?f, HorBStart := XRes ?f, HorBEnd := HorTotal ?f,
      HorSyncStart := HorSyncStart ?f, HorSyncEnd := HorSyncEnd ?f,
      YRes := YRes ?f, VerTotal := VerTotal ?f, VerDisEnd := YRes ?f, VerBStart := YRes ?f, VerBEnd := VerTotal ?f,
      VerSyncStart := VerSyncStart ?f, VerSyncEnd := VerSyncEnd ?f, HVPolarity := HVPolarity ?f,
      RefreshRate := ucast (100 * cbRound (ucast (cbCalcRefreshRate (PixelClock ?f) (HorTotal ?f) (VerTotal ?f))) 100 ROUND_NEAREST)\<rparr> = ?f"
    by (rule timing_attrib.equality) (simp_all add: same)
  have flags: "rv < 2 \<and> (if rv = 2 then IsSupportYCbCr420 t else IsPreferMode t) \<longleftrightarrow> IsPreferMode t"
    "rv = 2 \<and> (if rv = 2 then IsSupportYCbCr420 t else IsPreferMode t) \<longleftrightarrow> IsSupportYCbCr420 t"
    using rv(2) rv(1) [unfolded order_le_less] by (auto split: if_splits)
  have st: "of_bool (\<not> m) + 2 * of_bool (m = s) = (0 :: u8) \<or> of_bool (\<not> m) + 2 * of_bool (m = s) = (2 :: u8) \<longleftrightarrow> m"
    "of_bool (\<not> m) + 2 * of_bool (m = s) = (1 :: u8) \<or> of_bool (\<not> m) + 2 * of_bool (m = s) = (2 :: u8) \<longleftrightarrow> s" for m s
    by (cases m; cases s; simp)+
  have "did_timing d p = Some (zero_timing\<lparr>TimingType := CBIOS_DISP_ID_TIMING, IsInterLaced := IsInterLaced t,
      IsPreferMode := IsPreferMode t, IsSupportYCbCr420 := IsSupportYCbCr420 t, AspectRatio := AspectRatio t,
      IsSupportMono := IsSupportMono t, IsSupportStereo := IsSupportStereo t, FullTiming := ?f\<rparr>)"
    unfolding did_timing_def Let_def h c k x y sums p fl flag_bits [OF ar] ft flags st using res by simp
  then show ?thesis by (simp only: shape [symmetric])
qed

text \<open>A whole block, and a reader that lists it.\<close>

definition did_block :: "u8 \<Rightarrow> u8 \<Rightarrow> device_timing list \<Rightarrow> u8 list" where
  "did_block tag rv ts = [tag, rv, of_nat (20 * length ts)] @ concat (map (did_bytes tag rv) ts)"

lemma drop_did_bytes:
  "i < length ts \<Longrightarrow> drop (20 * i) (concat (map (did_bytes tag rv) ts) @ r) =
     did_bytes tag rv (ts ! i) @ concat (map (did_bytes tag rv) (drop (Suc i) ts)) @ r"
proof (induction ts arbitrary: i)
  case (Cons t ts)
  then show ?case by (cases i) (simp_all add: length_did_bytes)
qed simp

lemma did_step_lists:
  assumes ok: "edid_ok b st" "pool_ok pool" "pool_gives pool" "b < 2 ^ 20"
    and t: "did_timing d p = Some t" "usable t" "t \<notin> set (timings st)"
  shows "edid_ok (Suc b) (fst (did_step pool d p (st, n))) \<and> timings (fst (did_step pool d p (st, n))) = timings st @ [t] \<and>
    snd (did_step pool d p (st, n)) = n + 1"
proof -
  obtain added st2 where add: "cbEDIDModule_AddDeviceTiming pool st t = (added, st2)"
    by (cases "cbEDIDModule_AddDeviceTiming pool st t")
  note A = AddDeviceTiming_spec [OF ok(1,2,4) add]
  have "cbEDIDModule_ValidateTiming st t"
    using t did_timing_type [OF t(1)] unfolding cbEDIDModule_ValidateTiming_def usable_def
    by (simp add: CBIOS_DISP_ID_TIMING_def CBIOS_DTD_TIMING_def not_less)
  then have "did_step pool d p (st, n) = (st2, if added then n + 1 else n)" using t(1) add by (simp add: did_step_def)
  then show ?thesis using A ok(3) by simp
qed

lemma did_steps_list:
  "edid_ok b st \<Longrightarrow> (\<And>i. pool_ok (pool i) \<and> pool_gives (pool i)) \<Longrightarrow> b + length ts \<le> 2 ^ 20 \<Longrightarrow>
   (\<And>i. i < length ts \<Longrightarrow> did_timing d ((k + i) * m) = Some (ts ! i)) \<Longrightarrow> \<forall>t \<in> set ts. usable t \<Longrightarrow>
   distinct (timings st @ ts) \<Longrightarrow>
   timings (fst (fold (\<lambda>i. did_step (pool i) d (i * m)) [k..<k + length ts] (st, n))) = timings st @ ts \<and>
   snd (fold (\<lambda>i. did_step (pool i) d (i * m)) [k..<k + length ts] (st, n)) = n + of_nat (length ts)"
proof (induction ts arbitrary: b st k n)
  case (Cons t ts)
  let ?s = "did_step (pool k) d (k * m) (st, n)"
  obtain st' n' where s: "?s = (st', n')" by (cases ?s)
  have "did_timing d (k * m) = Some t" using Cons.prems(4) [of 0] by simp
  then have step: "edid_ok (Suc b) st' \<and> timings st' = timings st @ [t] \<and> n' = n + 1"
    using did_step_lists [OF Cons.prems(1), of "pool k" d "k * m" t n] Cons.prems(2,3,5,6) by (simp add: s)
  have "timings (fst (fold (\<lambda>i. did_step (pool i) d (i * m)) [Suc k..<Suc k + length ts] (st', n'))) = timings st' @ ts \<and>
      snd (fold (\<lambda>i. did_step (pool i) d (i * m)) [Suc k..<Suc k + length ts] (st', n')) = n' + of_nat (length ts)"
    using step Cons.prems(2,3,5,6) Cons.prems(4) [of "Suc i" for i] by (intro Cons.IH [of "Suc b"]) simp_all
  moreover have "[k..<k + length (t # ts)] = k # [Suc k..<Suc k + length ts]" by (simp add: upt_conv_Cons del: upt_Suc)
  ultimately show ?case using step s by (simp add: add.assoc)
qed simp

text \<open>
  C39. A block of DisplayID timings in the layout of the specification, of either type and any revision up to
  two, adds exactly the timings it was made from, in their order and with all their numbers and flags, and
  the result counts them, when they are new and a display can use them.
\<close>

theorem did_block_roundtrip:
  assumes ok: "edid_ok b st" "b < 2 ^ 19" "\<And>i. pool_ok (pool i) \<and> pool_gives (pool i)"
    and ts: "length ts \<le> 12" "\<forall>t \<in> set ts. did_valid tag rv t \<and> usable t" "distinct (timings st @ ts)"
    and tag: "tag = VIDEO_TIMING_MODES_DATA_BLOCK_TYPE1_TAG \<or> tag = VIDEO_TIMING_MODES_DATA_BLOCK2_TYPE7_TAG" "rv \<le> 2"
    and d: "d = did_block tag rv ts @ r"
    and res: "cbEDIDModule_GetDisplayIDTiming pool d st = (st', n)"
  shows "timings st' = timings st @ ts \<and> n = of_nat (length ts)"
proof -
  have len: "unat (of_nat (20 * length ts) :: u8) = 20 * length ts"
    using ts(1) by (simp add: unat_of_nat del: of_nat_mult)
  have h: "d ! 0 = tag" "d ! 1 = rv" "unat (d ! 2) = 20 * length ts" "drop 3 d = concat (map (did_bytes tag rv) ts) @ r"
    using len by (simp_all add: d did_block_def numeral_2_eq_2 numeral_3_eq_3 del: of_nat_mult)
  have rv: "rv AND 7 = rv" "drop_bit 4 (rv AND 0x70) = 0"
  proof -
    have "unat rv \<le> 2" using tag(2) by (simp add: word_le_nat_alt)
    then have "unat rv = 0 \<or> unat rv = 1 \<or> unat rv = 2" by linarith
    then have "rv = 0 \<or> rv = 1 \<or> rv = 2" by (simp add: word_unat_eq_iff)
    then show "rv AND 7 = rv" "drop_bit 4 (rv AND 0x70) = 0" by auto
  qed
  have len: "did_len d = 20" unfolding did_len_def Let_def h rv by (simp add: DID_TYPE1_TIMING_DESCRIPTOR_LENGTH_def)
  have "did_timing d (i * 20) = Some (ts ! i)" if "i < length ts" for i
  proof (rule did_timing_bytes)
    show "did_valid tag rv (ts ! i)" using ts(2) that by simp
    show "d ! 0 = tag" "d ! 1 AND 7 = rv" using h rv by simp_all
    have "drop (3 + i * 20) d = drop (20 * i) (drop 3 d)" by (simp add: mult.commute add.commute)
    then show "drop (3 + i * 20) d = did_bytes tag rv (ts ! i) @ concat (map (did_bytes tag rv) (drop (Suc i) ts)) @ r"
      unfolding h(4) drop_did_bytes [OF that] .
  qed
  then have "timings (fst (fold (\<lambda>i. did_step (pool i) d (i * 20)) [0..<0 + length ts] (st, 0))) = timings st @ ts \<and>
      snd (fold (\<lambda>i. did_step (pool i) d (i * 20)) [0..<0 + length ts] (st, 0)) = 0 + of_nat (length ts)"
    using ok ts by (intro did_steps_list [of b]) simp_all
  then show ?thesis
    using res by (simp add: cbEDIDModule_GetDisplayIDTiming_def Let_def len h)
qed

definition sample_did_timing :: device_timing where
  "sample_did_timing = zero_timing\<lparr>TimingType := CBIOS_DISP_ID_TIMING, IsPreferMode := True, IsSupportMono := True, AspectRatio := 4,
     FullTiming := zero_attrib\<lparr>Size := TIMING_ATTRIB_SIZE, PixelClock := 1540000, XRes := 1920, HorTotal := 2080,
       HorDisEnd := 1920, HorBStart := 1920, HorBEnd := 2080, HorSyncStart := 1968, HorSyncEnd := 2000, YRes := 1200,
       VerTotal := 1235, VerDisEnd := 1200, VerBStart := 1200, VerBEnd := 1235, VerSyncStart := 1203, VerSyncEnd := 1209,
       HVPolarity := 0x80, RefreshRate := 6000\<rparr>\<rparr>"

lemma did_block_roundtrip_witness:
  "timings (fst (cbEDIDModule_GetDisplayIDTiming (\<lambda>i. sample_pool) (did_block 3 0 [sample_did_timing]) empty_edid_struct)) = [sample_did_timing]"
proof -
  have gives: "pool_gives sample_pool" by (auto simp: pool_gives_def sample_pool_def)
  have v: "did_valid 3 0 sample_did_timing" "usable sample_did_timing"
    by (simp_all add: did_valid_def sample_did_timing_def Let_def did_unit_def usable_def cbCalcRefreshRate_def cbRound_def
        zero_timing_def zero_attrib_def VIDEO_TIMING_MODES_DATA_BLOCK2_TYPE7_TAG_def CBIOS_MIN_PIXEL_CLK_def
        CBIOS_MIN_TIMING_X_def CBIOS_MIN_TIMING_Y_def)
  have st: "edid_ok 0 empty_edid_struct" "timings empty_edid_struct = []"
    by (simp_all add: timings_def empty_edid_struct_def edid_ok_def)
  obtain st' n where r: "cbEDIDModule_GetDisplayIDTiming (\<lambda>i. sample_pool) (did_block 3 0 [sample_did_timing]) empty_edid_struct = (st', n)"
    by (cases "cbEDIDModule_GetDisplayIDTiming (\<lambda>i. sample_pool) (did_block 3 0 [sample_did_timing]) empty_edid_struct")
  show ?thesis
    using did_block_roundtrip [OF st(1), of "\<lambda>i. sample_pool" "[sample_did_timing]" 3 0 "did_block 3 0 [sample_did_timing]" "[]" st' n]
      v st(2) sample_pool_ok gives r by (simp add: VIDEO_TIMING_MODES_DATA_BLOCK_TYPE1_TAG_def)
qed

text \<open>The reader over all extensions.\<close>

lemma cbEDIDModule_GetDisplayIDMode_spec:
  assumes ok: "edid_ok b st" "b < 2 ^ 19" and size: "BufferSize \<le> EDID_BLK_SIZE * CBIOS_EDID_MAX_BLK_CNT"
    and pool: "\<And>k i j. pool_ok (pool k i j)" and res: "cbEDIDModule_GetDisplayIDMode pool (Some e) BufferSize st = (st', n)"
  shows "edid_ok (b + 10500) st'" "extends did_found (st, 0) (st', n) 10500" "Attribute st' = Attribute st"
proof -
  let ?ks = "[1..<BufferSize div 128]"
  have len: "length ?ks \<le> 7" using size by (simp add: EDID_BLK_SIZE_def CBIOS_EDID_MAX_BLK_CNT_def)
  have "did_reach (1500 * length ?ks) (st, 0) (st', n)"
    using did_reach_extensions [of pool ?ks "(st, 0)" e] pool res
    by (simp add: cbEDIDModule_GetDisplayIDMode_def cbEDIDModule_GetTotalBlockNum_def EDID_BLK_SIZE_def)
  then have reach: "did_reach 10500 (st, 0) (st', n)" by (rule did_reach_mono) (use len in simp)
  have "edid_ok b (fst (st, 0 :: u32))" "b + 10500 \<le> 2 ^ 20" using ok by simp_all
  from did_reach_spec [OF reach this]
  show "edid_ok (b + 10500) st'" "extends did_found (st, 0) (st', n) 10500" "Attribute st' = Attribute st" by simp_all
qed

end
