(* ===== verification/Cvt.thy ===== *)
theory Cvt
  imports Cea_Format
begin

text \<open>
  Timings that are calculated because no table has them: \<^verbatim>\<open>cbCalcCustomizedTiming\<close> of
  \<^verbatim>\<open>cbios/Util/CBiosUtil.c\<close>, which follows the coordinated video timings of VESA with integers. The
  refresh rate is in hundredths of a Hertz, the line period \<open>HPeriodEst\<close> in hundredths of a microsecond.
\<close>

definition MINVBLANKINGPERIOD :: u32 where "MINVBLANKINGPERIOD = 550"
definition MINVFPORCH :: u32 where "MINVFPORCH = 3"
definition MINVBPORCH :: u32 where "MINVBPORCH = 6"
definition CPRIME :: u32 where "CPRIME = 30"
definition MPRIME :: u32 where "MPRIME = 300"
definition CELLGRAN :: u32 where "CELLGRAN = 8"
definition HSYNCPERCENT :: u32 where "HSYNCPERCENT = 8"
definition CLOCKSTEP :: u32 where "CLOCKSTEP = 25"

lemmas cvt_constants = MINVBLANKINGPERIOD_def MINVFPORCH_def MINVBPORCH_def CPRIME_def MPRIME_def CELLGRAN_def
  HSYNCPERCENT_def CLOCKSTEP_def

definition cbGetVsyncWidth :: "u32 \<Rightarrow> u32 \<Rightarrow> u32" where
  "cbGetVsyncWidth X Y =
     (if Y = 0 then 10
      else let ulTemp = X * 100 div Y
           in if ulTemp = 133 then 4 else if ulTemp = 177 then 5 else if ulTemp = 160 then 6
              else if ulTemp = 166 then 7 else 10)"

text \<open>The parts of the calculation, in the order of the code.\<close>

definition cvt_period :: "u32 \<Rightarrow> u32 \<Rightarrow> u32" where
  "cvt_period Y R =
     (let R' = (if R = 0 then 6000 else R);
          HPeriodEst = 100000000 div R' - MINVBLANKINGPERIOD;
          Temp = Y + MINVFPORCH
      in cbRound (HPeriodEst * 100) Temp ROUND_NEAREST)"

definition cvt_vsync_bp :: "u32 \<Rightarrow> u32 \<Rightarrow> u32" where
  "cvt_vsync_bp HPeriodEst VerticalSyncWidth =
     (let VSyncBP = cbRound (100 * MINVBLANKINGPERIOD) HPeriodEst ROUND_NEAREST + 1
      in if VSyncBP < VerticalSyncWidth + MINVBPORCH then VerticalSyncWidth + MINVBPORCH else VSyncBP)"

definition cvt_hor_blanking :: "u32 \<Rightarrow> u32 \<Rightarrow> u32 option" where
  "cvt_hor_blanking X HPeriodEst =
     (let IdealDutyCycle = 100 * CPRIME - MPRIME * HPeriodEst div 1000
      in if IdealDutyCycle < 2000 then
           Some (cbRound (X * 2000 div (10000 - 2000)) (2 * CELLGRAN) ROUND_NEAREST * 2 * CELLGRAN)
         else if 10000 - IdealDutyCycle = 0 then None
         else Some (cbRound (X * IdealDutyCycle div (10000 - IdealDutyCycle)) (2 * CELLGRAN) ROUND_NEAREST * 2 * CELLGRAN))"

definition cvt_clock :: "u32 \<Rightarrow> u32 \<Rightarrow> u32" where
  "cvt_clock HTotal HPeriodEst =
     cbRound (cbRound (HTotal * 100 * 100) HPeriodEst ROUND_NEAREST) CLOCKSTEP ROUND_NEAREST * CLOCKSTEP"

definition cvt_timing :: "u32 \<Rightarrow> u32 \<Rightarrow> u32 \<Rightarrow> u32 \<Rightarrow> u32 \<Rightarrow> u32 \<Rightarrow> u32 \<Rightarrow> timing_attrib option" where
  "cvt_timing X Y HBlanking VSyncBP VerticalSyncWidth Clock HTotal =
     (let HSync = cbRound (HTotal * HSYNCPERCENT) (CELLGRAN * 100) ROUND_NEAREST * CELLGRAN;
          HBackPorch = HBlanking div 2;
          HFrontPorch = HBlanking - HSync - HBackPorch;
          VFrontPorch = MINVFPORCH;
          VTotal = Y + VSyncBP + MINVFPORCH;
          VBlanking = VTotal - Y
      in if HTotal = 0 then None
         else let HorFreq = 1000 * Clock div HTotal
         in if VTotal = 0 then None
         else let ActualVerFreq = 1000 * HorFreq div VTotal
         in Some (zero_attrib\<lparr> XRes := ucast X, YRes := ucast Y, RefreshRate := ucast ActualVerFreq,
              HVPolarity := ucast VerPOSITIVE + ucast HorNEGATIVE, PixelClock := Clock * 100,
              HorTotal := ucast HTotal, HorDisEnd := ucast X, HorBStart := ucast X, HorBEnd := ucast HTotal,
              HorSyncStart := ucast (X + HFrontPorch), HorSyncEnd := ucast (X + HFrontPorch + HSync),
              VerTotal := ucast VTotal, VerDisEnd := ucast Y, VerBStart := ucast Y, VerBEnd := ucast (Y + VBlanking),
              VerSyncStart := ucast (Y + VFrontPorch),
              VerSyncEnd := ucast (Y + VFrontPorch + VerticalSyncWidth) \<rparr>))"

definition cbCalcCustomizedTiming :: "u32 \<Rightarrow> u32 \<Rightarrow> u32 \<Rightarrow> timing_attrib option" where
  "cbCalcCustomizedTiming X Y R =
     (let VerticalSyncWidth = cbGetVsyncWidth X Y;
          HPeriodEst = cvt_period Y R;
          VSyncBP = cvt_vsync_bp HPeriodEst VerticalSyncWidth
      in case cvt_hor_blanking X HPeriodEst of
           None \<Rightarrow> None
         | Some HBlanking \<Rightarrow>
             let HTotal = X + HBlanking
             in cvt_timing X Y HBlanking VSyncBP VerticalSyncWidth (cvt_clock HTotal HPeriodEst) HTotal)"


section \<open>The calculation without wrap-around\<close>

lemma unat_mult_nowrap: "unat (a :: u32) * unat b < 2 ^ 32 \<Longrightarrow> unat (a * b) = unat a * unat b"
  by (simp add: unat_word_ariths)

lemma nearest_bounds:
  assumes "0 < (d :: nat)" "q = (2 * n + d) div (2 * d)"
  shows "2 * (d * q) \<le> 2 * n + d" "2 * n + d < 2 * (d * q) + 2 * d"
proof -
  have "2 * d * q \<le> 2 * n + d" unfolding assms(2) by (rule times_div_less_eq_dividend)
  then show "2 * (d * q) \<le> 2 * n + d" by (simp add: mult.assoc)
  have "2 * n + d < 2 * d + 2 * d * q"
    unfolding assms(2) using assms(1) by (intro dividend_less_times_div) simp
  then show "2 * n + d < 2 * (d * q) + 2 * d" by (simp add: mult.assoc)
qed

text \<open>Rounding, with the result given by bounds instead of a division.\<close>

lemma cbRound_bounds:
  assumes "0 < unat d" "unat n < 2 ^ 31" "unat d < 2 ^ 31"
  defines "q \<equiv> unat (cbRound n d ROUND_NEAREST)"
  shows "2 * (unat d * q) \<le> 2 * unat n + unat d" "2 * unat n + unat d < 2 * (unat d * q) + 2 * unat d"
  using nearest_bounds [OF assms(1) cbRound_nearest [OF assms(1-3)]] by (simp_all add: q_def)

definition cvt_range :: "u32 \<Rightarrow> u32 \<Rightarrow> u32 \<Rightarrow> bool" where
  "cvt_range X Y R \<longleftrightarrow> 640 \<le> unat X \<and> unat X \<le> 4096 \<and> 480 \<le> unat Y \<and> unat Y \<le> 2304 \<and>
     6000 \<le> unat R \<and> unat R \<le> 12300"

lemma cvt_rangeD:
  assumes "cvt_range X Y R"
  shows "640 \<le> unat X" "unat X \<le> 4096" "480 \<le> unat Y" "unat Y \<le> 2304" "6000 \<le> unat R" "unat R \<le> 12300"
  using assms by (simp_all add: cvt_range_def)

text \<open>The quantities of the calculation as natural numbers.\<close>

definition cvt_q :: "u32 \<Rightarrow> nat" where "cvt_q R = 100000000 div unat R"
definition cvt_n :: "u32 \<Rightarrow> nat" where "cvt_n Y = unat Y + 3"
definition cvt_h :: "u32 \<Rightarrow> u32 \<Rightarrow> nat" where "cvt_h Y R = unat (cvt_period Y R)"
definition cvt_w :: "u32 \<Rightarrow> u32 \<Rightarrow> nat" where "cvt_w X Y = unat (cbGetVsyncWidth X Y)"
definition cvt_v :: "u32 \<Rightarrow> u32 \<Rightarrow> u32 \<Rightarrow> nat" where
  "cvt_v X Y R = unat (cvt_vsync_bp (cvt_period Y R) (cbGetVsyncWidth X Y))"
definition cvt_hb :: "u32 \<Rightarrow> u32 \<Rightarrow> u32 \<Rightarrow> nat" where
  "cvt_hb X Y R = unat (the (cvt_hor_blanking X (cvt_period Y R)))"

lemma q_bounds:
  assumes range: "cvt_range X Y R"
  shows "8130 \<le> cvt_q R" "cvt_q R \<le> 16666" "cvt_q R * unat R \<le> 100000000" "100000000 < cvt_q R * unat R + unat R"
proof -
  note X = cvt_rangeD(1,2) [OF range] and Y = cvt_rangeD(3,4) [OF range] and R = cvt_rangeD(5,6) [OF range]
  show "8130 \<le> cvt_q R" unfolding cvt_q_def using R by (auto simp: less_eq_div_iff_mult_less_eq)
  have "100000000 div unat R \<le> 100000000 div 6000" using R by (intro div_le_mono2) auto
  then show "cvt_q R \<le> 16666" by (simp add: cvt_q_def)
  show "cvt_q R * unat R \<le> 100000000" unfolding cvt_q_def by (rule div_times_less_eq_dividend)
  show "100000000 < cvt_q R * unat R + unat R"
    using dividend_less_times_div [of "unat R" 100000000] R by (simp add: cvt_q_def mult.commute)
qed

lemma period:
  assumes range: "cvt_range X Y R"
  shows "2 * (cvt_n Y * cvt_h Y R) \<le> 200 * (cvt_q R - 550) + cvt_n Y" "200 * (cvt_q R - 550) + cvt_n Y < 2 * (cvt_n Y * cvt_h Y R) + 2 * cvt_n Y"
  "325 \<le> cvt_h Y R" "cvt_h Y R \<le> 3337"
proof -
  note X = cvt_rangeD(1,2) [OF range] and Y = cvt_rangeD(3,4) [OF range] and R = cvt_rangeD(5,6) [OF range]
  note qb = q_bounds [OF range]
  have d: "unat (Y + 3) = cvt_n Y" using Y by (simp add: cvt_n_def unat_word_ariths)
  have "unat (100000000 div R) = cvt_q R" by (simp add: cvt_q_def unat_div)
  then have "unat (100000000 div R - 550) = cvt_q R - 550"
    using qb by (subst unat_sub) (simp_all add: word_le_nat_alt)
  then have t: "unat ((100000000 div R - 550) * 100) = 100 * (cvt_q R - 550)"
    using qb by (subst unat_mult_nowrap) simp_all
  have p: "cvt_period Y R = cbRound ((100000000 div R - 550) * 100) (Y + 3) ROUND_NEAREST"
    using R by (auto simp: cvt_period_def cvt_constants Let_def)
  show b: "2 * (cvt_n Y * cvt_h Y R) \<le> 200 * (cvt_q R - 550) + cvt_n Y" "200 * (cvt_q R - 550) + cvt_n Y < 2 * (cvt_n Y * cvt_h Y R) + 2 * cvt_n Y"
    using cbRound_bounds [of "Y + 3" "(100000000 div R - 550) * 100"] Y qb unfolding cvt_h_def p t d by (simp_all add: cvt_n_def)
  have nb: "483 \<le> cvt_n Y" "cvt_n Y \<le> 2307" using Y by (simp_all add: cvt_n_def)
  show "cvt_h Y R \<le> 3337"
  proof (rule ccontr)
    assume "\<not> cvt_h Y R \<le> 3337"
    then have "cvt_n Y * 3338 \<le> cvt_n Y * cvt_h Y R" by (intro mult_le_mono2) simp
    then show False using b(1) nb qb by linarith
  qed
  show "325 \<le> cvt_h Y R"
  proof (rule ccontr)
    assume "\<not> 325 \<le> cvt_h Y R"
    then have "cvt_n Y * cvt_h Y R \<le> cvt_n Y * 324" by (intro mult_le_mono2) simp
    then show False using b(2) nb qb by linarith
  qed
qed

lemma vsync_width: "0 < cvt_w X Y" "cvt_w X Y \<le> 10"
  by (auto simp: cvt_w_def cbGetVsyncWidth_def Let_def)

lemma vsync:
  assumes range: "cvt_range X Y R"
  shows "2 * (cvt_h Y R * (cvt_v X Y R - 1)) \<le> 110000 + cvt_h Y R" "110000 + cvt_h Y R < 2 * (cvt_h Y R * (cvt_v X Y R - 1)) + 2 * cvt_h Y R" "17 \<le> cvt_v X Y R" "cvt_v X Y R \<le> 170"
proof -
  note X = cvt_rangeD(1,2) [OF range] and Y = cvt_rangeD(3,4) [OF range] and R = cvt_rangeD(5,6) [OF range]
  note qb = q_bounds [OF range]
  note period = period [OF range]
  define v0 where "v0 = unat (cbRound 55000 (cvt_period Y R) ROUND_NEAREST)"
  have b: "2 * (cvt_h Y R * v0) \<le> 110000 + cvt_h Y R" "110000 + cvt_h Y R < 2 * (cvt_h Y R * v0) + 2 * cvt_h Y R"
    using cbRound_bounds [of "cvt_period Y R" 55000] period by (simp_all add: cvt_h_def v0_def)
  have "16 \<le> v0"
  proof (rule ccontr)
    assume "\<not> 16 \<le> v0"
    then have "cvt_h Y R * v0 \<le> cvt_h Y R * 15" by (intro mult_le_mono2) simp
    then show False using b(2) period by linarith
  qed
  moreover have "v0 \<le> 169"
  proof (rule ccontr)
    assume "\<not> v0 \<le> 169"
    then have "cvt_h Y R * 170 \<le> cvt_h Y R * v0" by (intro mult_le_mono2) simp
    then show False using b(1) period by linarith
  qed
  moreover have u: "unat (cbRound 55000 (cvt_period Y R) ROUND_NEAREST + 1) = v0 + 1"
    using \<open>v0 \<le> 169\<close> by (simp add: v0_def unat_word_ariths)
  moreover have "unat (cbGetVsyncWidth X Y + 6) = cvt_w X Y + 6" using vsync_width [of X Y] by (simp add: cvt_w_def unat_word_ariths)
  ultimately have "cvt_vsync_bp (cvt_period Y R) (cbGetVsyncWidth X Y) = cbRound 55000 (cvt_period Y R) ROUND_NEAREST + 1"
    using vsync_width [of X Y] by (simp add: cvt_vsync_bp_def cvt_constants word_less_nat_alt)
  then have "cvt_v X Y R = v0 + 1" by (simp add: cvt_v_def u)
  then show "2 * (cvt_h Y R * (cvt_v X Y R - 1)) \<le> 110000 + cvt_h Y R" "110000 + cvt_h Y R < 2 * (cvt_h Y R * (cvt_v X Y R - 1)) + 2 * cvt_h Y R" "17 \<le> cvt_v X Y R" "cvt_v X Y R \<le> 170"
    using b \<open>16 \<le> v0\<close> \<open>v0 \<le> 169\<close> by simp_all
qed

lemma blanking:
  assumes range: "cvt_range X Y R"
  shows "cvt_hor_blanking X (cvt_period Y R) \<noteq> None" "unat X < 4 * cvt_hb X Y R + 36" "7097 * cvt_hb X Y R \<le> 2903 * unat X + 7097 * 8" "16 dvd cvt_hb X Y R"
proof -
  note X = cvt_rangeD(1,2) [OF range] and Y = cvt_rangeD(3,4) [OF range] and R = cvt_rangeD(5,6) [OF range]
  note qb = q_bounds [OF range]
  note period = period [OF range]
  define d where "d = 3000 - 300 * cvt_period Y R div 1000"
  define D where "D = unat d"
  have ub: "unat (300 * cvt_period Y R div 1000) = 300 * cvt_h Y R div 1000"
    using period by (simp add: cvt_h_def unat_div unat_word_ariths)
  have "300 * cvt_h Y R div 1000 \<le> 1001" using period by (simp add: div_le_mono [of "300 * cvt_h Y R" 1001100 1000, simplified])
  moreover have "97 \<le> 300 * cvt_h Y R div 1000" using period div_le_mono [of 97500 "300 * cvt_h Y R" 1000] by simp
  ultimately have D: "1999 \<le> D" "D \<le> 2903"
    using ub unfolding D_def d_def by (subst unat_sub; simp add: word_le_nat_alt)+
  define e where "e = max 2000 d"
  define E where "E = unat e"
  have E: "2000 \<le> E" "E \<le> 2903"
    using D by (auto simp: E_def e_def D_def max_def word_le_nat_alt)
  define b0 where "b0 = unat (X * e div (10000 - e))"
  have ne: "10000 - e \<noteq> 0" "unat (10000 - e) = 10000 - E"
  proof -
    show "unat (10000 - e) = 10000 - E" using E by (subst unat_sub) (simp_all add: E_def word_le_nat_alt)
    then show "10000 - e \<noteq> 0" using E by auto
  qed
  have xe: "unat (X * e) = unat X * E"
    using X E mult_le_mono [of "unat X" 4096 E 2903] by (simp add: E_def unat_mult_nowrap)
  have b0: "b0 = unat X * E div (10000 - E)" by (simp add: b0_def unat_div xe ne(2))
  have lower: "unat X < 4 * (b0 + 1)"
  proof -
    have "unat X * E < (10000 - E) * (b0 + 1)"
      using dividend_less_times_div [of "10000 - E" "unat X * E"] E unfolding b0 by simp
    moreover have "unat X * 2000 \<le> unat X * E" using E by (intro mult_le_mono2) simp
    moreover have "(10000 - E) * (b0 + 1) \<le> 8000 * (b0 + 1)" using E by (intro mult_le_mono1) simp
    ultimately show ?thesis by linarith
  qed
  have upper: "7097 * b0 \<le> 2903 * unat X"
  proof -
    have "(10000 - E) * b0 \<le> unat X * E" unfolding b0 by (rule times_div_less_eq_dividend)
    moreover have "7097 * b0 \<le> (10000 - E) * b0" using E by (intro mult_le_mono1) simp
    moreover have "unat X * E \<le> unat X * 2903" using E by (intro mult_le_mono2) simp
    ultimately show ?thesis by linarith
  qed
  define c where "c = unat (cbRound (X * e div (10000 - e)) 16 ROUND_NEAREST)"
  have c: "2 * (16 * c) \<le> 2 * b0 + 16" "2 * b0 + 16 < 2 * (16 * c) + 32"
    using cbRound_bounds [of 16 "X * e div (10000 - e)"] upper X by (simp_all add: c_def b0_def)
  have "cvt_hor_blanking X (cvt_period Y R) = Some (cbRound (X * e div (10000 - e)) 16 ROUND_NEAREST * 16)"
    using ne(1) by (auto simp: cvt_hor_blanking_def cvt_constants Let_def d_def [symmetric] e_def max_def not_le mult.assoc)
  moreover have "unat (cbRound (X * e div (10000 - e)) 16 ROUND_NEAREST * 16) = c * 16"
    using c(1) upper X by (simp add: c_def unat_word_ariths)
  ultimately have "cvt_hor_blanking X (cvt_period Y R) \<noteq> None" "cvt_hb X Y R = c * 16" by (simp_all add: cvt_hb_def)
  then show "cvt_hor_blanking X (cvt_period Y R) \<noteq> None" "unat X < 4 * cvt_hb X Y R + 36" "7097 * cvt_hb X Y R \<le> 2903 * unat X + 7097 * 8" "16 dvd cvt_hb X Y R"
    using c lower upper by simp_all
qed


section \<open>The timing\<close>

text \<open>The clock in units of 10 kHz, and how far it is off.\<close>

lemma clock_bounds:
  assumes HT: "unat HTotal \<le> 6000" and H: "325 \<le> unat H" "unat H \<le> 3337"
  defines "pc \<equiv> unat (cvt_clock HTotal H)"
  shows "2 * (unat H * pc) \<le> 20000 * unat HTotal + 26 * unat H" "20000 * unat HTotal \<le> 2 * (unat H * pc) + 26 * unat H"
    "pc \<le> 190000"
proof -
  define p1 where "p1 = unat (cbRound (HTotal * 100 * 100) H ROUND_NEAREST)"
  define p2 where "p2 = unat (cbRound (cbRound (HTotal * 100 * 100) H ROUND_NEAREST) 25 ROUND_NEAREST)"
  have u: "unat (HTotal * 100 * 100) = 10000 * unat HTotal"
  proof -
    have "HTotal * 100 * 100 = 10000 * HTotal" by (simp add: mult.commute)
    moreover have "unat (10000 * HTotal) = 10000 * unat HTotal" using HT by (subst unat_mult_nowrap) simp_all
    ultimately show ?thesis by simp
  qed
  have b1: "2 * (unat H * p1) \<le> 20000 * unat HTotal + unat H" "20000 * unat HTotal + unat H < 2 * (unat H * p1) + 2 * unat H"
    using cbRound_bounds [of H "HTotal * 100 * 100"] H HT unfolding u p1_def by simp_all
  have p1: "p1 \<le> 184617"
  proof (rule ccontr)
    assume "\<not> p1 \<le> 184617"
    then have "325 * 184618 \<le> unat H * p1" using H by (intro mult_le_mono) simp_all
    moreover have "unat H * 2 * 184618 \<le> unat H * p1 * 2" using \<open>\<not> p1 \<le> 184617\<close> by simp
    ultimately show False using b1(1) HT H by linarith
  qed
  have b2: "50 * p2 \<le> 2 * p1 + 25" "2 * p1 + 25 < 50 * p2 + 50"
    using cbRound_bounds [of 25 "cbRound (HTotal * 100 * 100) H ROUND_NEAREST"] p1 by (simp_all add: p1_def p2_def)
  have "pc = p2 * 25"
    using b2(1) p1 by (simp add: pc_def cvt_clock_def CLOCKSTEP_def p2_def unat_word_ariths)
  then have pc: "2 * pc \<le> 2 * p1 + 25" "2 * p1 \<le> 2 * pc + 25" using b2 by simp_all
  have "unat H * (2 * pc) \<le> unat H * (2 * p1 + 25)" "unat H * (2 * p1) \<le> unat H * (2 * pc + 25)"
    using pc by (intro mult_le_mono2; simp)+
  then show "2 * (unat H * pc) \<le> 20000 * unat HTotal + 26 * unat H" "20000 * unat HTotal \<le> 2 * (unat H * pc) + 26 * unat H"
    using b1 by (simp_all add: algebra_simps)
  show "pc \<le> 190000" using pc p1 by simp
qed

text \<open>From the bounds on line period, lines and clock to the refresh rate.\<close>

lemma rate_bounds:
  fixes h n v r q pc ht hf a :: nat
  assumes period: "2 * (n * h) \<le> 200 * (q - 550) + n" "200 * (q - 550) + n < 2 * (n * h) + 2 * n"
    and vsync: "2 * (h * (v - 1)) \<le> 110000 + h" "110000 + h < 2 * (h * (v - 1)) + 2 * h" "17 \<le> v"
    and clock: "2 * (h * pc) \<le> 20000 * ht + 26 * h" "20000 * ht \<le> 2 * (h * pc) + 26 * h"
    and rate: "a * (n + v) \<le> 1000 * hf" "1000 * hf < (a + 1) * (n + v)" "hf * ht \<le> 1000 * pc" "1000 * pc < (hf + 1) * ht"
    and range: "6000 \<le> r" "r \<le> 12300" "q * r \<le> 100000000" "100000000 < q * r + r" "8130 \<le> q" "n \<le> 2307" "h \<le> 3337" "800 \<le> ht"
  shows "98 * r \<le> 100 * a" "100 * a \<le> 102 * r"
proof -
  define W where "W = 2 * (h * (n + v))"
  have "2 * (h * (v - 1)) + 2 * h = 2 * (h * v)" using vsync(3) by (cases v) (simp_all add: algebra_simps)
  moreover have "200 * (q - 550) + 110000 = 200 * q" using range(5) by simp
  moreover have "W = 2 * (n * h) + 2 * (h * v)" by (simp add: W_def algebra_simps)
  ultimately have W: "W \<le> 200 * q + n + 3 * h" "200 * q \<le> W + n"
    using period vsync by linarith+
  have Wr: "W * r \<le> 20000000000 + 12318 * 12300" "20000000000 \<le> W * r + 2507 * 12300"
  proof -
    have "W * r \<le> (200 * q + 12318) * r" using W(1) range(6,7) by (intro mult_le_mono1) linarith
    also have "\<dots> = 200 * (q * r) + 12318 * r" by (simp add: algebra_simps)
    finally show "W * r \<le> 20000000000 + 12318 * 12300" using range(2,3) by linarith
    have "200 * (q * r) \<le> (W + 2307) * r" using W(2) range(6) mult_le_mono1 [of "200 * q" "W + 2307" r] by (simp add: mult.assoc)
    also have "\<dots> = W * r + 2307 * r" by (simp add: algebra_simps)
    finally show "20000000000 \<le> W * r + 2507 * 12300" using range(2,4) by linarith
  qed
  have small: "26 * h \<le> 109 * ht" using range(7,8) by linarith
  have up: "a * W \<le> 20109000000"
  proof -
    have "(a * (n + v)) * ht \<le> 1000 * hf * ht" using rate(1) by (rule mult_le_mono1)
    also have "\<dots> = 1000 * (hf * ht)" by simp
    also have "\<dots> \<le> 1000 * (1000 * pc)" using rate(3) by simp
    finally have "(a * (n + v) * ht) * (2 * h) \<le> (1000000 * pc) * (2 * h)" by (intro mult_le_mono1) simp
    then have "a * W * ht \<le> 1000000 * (2 * (h * pc))" by (simp add: W_def algebra_simps)
    also have "\<dots> \<le> 1000000 * (20000 * ht + 109 * ht)" using clock(1) small by (intro mult_le_mono2) linarith
    also have "\<dots> = 20109000000 * ht" by simp
    finally show ?thesis using range(8) by simp
  qed
  show "100 * a \<le> 102 * r"
  proof -
    have "a * 20000000000 \<le> a * (W * r + 2507 * 12300)" using Wr(2) by (rule mult_le_mono2)
    also have "\<dots> = a * W * r + 30836100 * a" by (simp add: algebra_simps)
    also have "\<dots> \<le> 20109000000 * r + 30836100 * a" using mult_le_mono1 [OF up, of r] by simp
    finally show ?thesis by linarith
  qed
  have low: "19891000000 \<le> (a + 1) * W + 2000 * h"
  proof -
    have "1000 * (1000 * pc) \<le> 1000 * ((hf + 1) * ht)" using rate(4) by simp
    also have "\<dots> = (1000 * hf) * ht + 1000 * ht" by (simp add: algebra_simps)
    also have "\<dots> \<le> ((a + 1) * (n + v)) * ht + 1000 * ht" using rate(2) by (intro add_le_mono mult_le_mono1) simp_all
    finally have "1000000 * pc * (2 * h) \<le> (((a + 1) * (n + v)) * ht + 1000 * ht) * (2 * h)" by (intro mult_le_mono1) simp
    then have "1000000 * (2 * (h * pc)) \<le> ((a + 1) * W + 2000 * h) * ht" by (simp add: W_def algebra_simps)
    moreover have "1000000 * (20000 * ht) \<le> 1000000 * (2 * (h * pc)) + 1000000 * (109 * ht)" using clock(2) small by linarith
    ultimately have "19891000000 * ht \<le> ((a + 1) * W + 2000 * h) * ht" by linarith
    then show ?thesis using range(8) by simp
  qed
  show "98 * r \<le> 100 * a"
  proof (rule ccontr)
    assume "\<not> 98 * r \<le> 100 * a"
    then have a: "100 * (a + 1) \<le> 98 * r + 100" by simp
    have "19891000000 * r \<le> ((a + 1) * W + 2000 * h) * r" using low by (rule mult_le_mono1)
    also have "\<dots> = (a + 1) * (W * r) + 2000 * h * r" by (simp add: algebra_simps)
    also have "\<dots> \<le> (a + 1) * 20151511400 + 6674000 * r"
      using Wr(1) range(7) by (intro add_le_mono mult_le_mono2 mult_le_mono1) simp_all
    finally show False using a range(1) by linarith
  qed
qed

lemma cbCalc_spec:
  assumes range: "cvt_range X Y R"
  shows "\<exists>t. cbCalcCustomizedTiming X Y R = Some t \<and> unat (XRes t) = unat X \<and> unat (YRes t) = unat Y \<and> FormatVIC t = 0 \<and>
    geometry_ok t \<and> 98 * unat R \<le> 100 * unat (RefreshRate t) \<and> 100 * unat (RefreshRate t) \<le> 102 * unat R"
proof -
  note X = cvt_rangeD(1,2) [OF range] and Y = cvt_rangeD(3,4) [OF range] and R = cvt_rangeD(5,6) [OF range]
  note q = q_bounds [OF range] and period = period [OF range] and vsync = vsync [OF range] and blanking = blanking [OF range]
  define H where "H = cvt_period Y R"
  define V where "V = cvt_vsync_bp H (cbGetVsyncWidth X Y)"
  obtain B where B: "cvt_hor_blanking X H = Some B" using blanking(1) by (auto simp: H_def)
  have hb: "unat B = cvt_hb X Y R" by (simp add: cvt_hb_def B [unfolded H_def])
  have h: "unat H = cvt_h Y R" and v: "unat V = cvt_v X Y R" by (simp_all add: H_def cvt_h_def V_def cvt_v_def)
  obtain k where k: "unat B = 16 * k" using blanking(4) unfolding hb by (auto elim: dvdE)
  have b: "160 \<le> unat B" "unat B \<le> 1684" using blanking(2,3) X unfolding hb [symmetric] k by simp_all
  define HT where "HT = X + B"
  have ht: "unat HT = unat X + unat B" using b X by (simp add: HT_def unat_word_ariths)
  define C where "C = cvt_clock HT H"
  have len: "unat HT \<le> 6000" "325 \<le> unat H" "unat H \<le> 3337" using ht b X period(3,4) by (simp_all add: h)
  note clock = clock_bounds [OF len, folded C_def, unfolded h]
  define HS where "HS = cbRound (HT * 8) 800 ROUND_NEAREST * 8"
  have hs: "200 * unat HS \<le> 16 * unat HT + 800" "16 * unat HT < 200 * unat HS + 800"
  proof -
    define s where "s = unat (cbRound (HT * 8) 800 ROUND_NEAREST)"
    have u: "unat (HT * 8) = unat HT * 8" using ht b X by (simp add: unat_word_ariths)
    have "2 * (800 * s) \<le> 16 * unat HT + 800" "16 * unat HT + 800 < 2 * (800 * s) + 1600"
      using cbRound_bounds [of 800 "HT * 8"] ht b X unfolding u s_def by simp_all
    moreover have "unat HS = s * 8" using calculation ht b X by (simp add: HS_def s_def unat_word_ariths)
    ultimately show "200 * unat HS \<le> 16 * unat HT + 800" "16 * unat HT < 200 * unat HS + 800" by simp_all
  qed
  have half: "unat (B div 2) = 8 * k" by (simp add: unat_div k)
  have fits: "unat HS \<le> 8 * k" "0 < unat HS" using hs ht b k blanking(2) unfolding hb [symmetric] by linarith+
  define HFP where "HFP = B - HS - B div 2"
  have hfp: "unat HFP = 8 * k - unat HS"
  proof -
    have "unat (B - HS) = 16 * k - unat HS" using fits k by (subst unat_sub) (simp_all add: word_le_nat_alt)
    then show ?thesis using fits unfolding HFP_def by (subst unat_sub) (simp_all add: word_le_nat_alt half)
  qed
  have vt: "unat (Y + V + 3) = cvt_n Y + cvt_v X Y R" using Y vsync(3,4) v by (simp add: cvt_n_def unat_word_ariths)
  define w where "w = unat (cbGetVsyncWidth X Y)"
  have w: "0 < w" "w \<le> 10" using vsync_width [of X Y] by (simp_all add: w_def cvt_w_def)
  have wide: "unat (ucast x :: u16) = unat x" if "unat x < 65536" for x :: u32
    using that by (simp add: unsigned_ucast_eq take_bit_nat_eq_self)
  define hf where "hf = 1000 * C div HT"
  define a where "a = 1000 * hf div (Y + V + 3)"
  have pc: "unat (1000 * C) = 1000 * unat C" using clock(3) ht b X by (simp add: unat_word_ariths)
  have hf: "unat hf = 1000 * unat C div unat HT" by (simp add: hf_def unat_div pc)
  have hf_le: "unat hf \<le> 237500"
    using div_le_mono2 [of 800 "unat HT" "1000 * unat C"] clock(3) ht b X by (simp add: hf)
  have a: "unat a = 1000 * unat hf div (cvt_n Y + cvt_v X Y R)"
  proof -
    have "unat (1000 * hf) = 1000 * unat hf" using hf_le by (subst unat_mult_nowrap) simp_all
    then show ?thesis by (simp add: a_def unat_div vt)
  qed
  have rate: "98 * unat R \<le> 100 * unat a" "100 * unat a \<le> 102 * unat R"
  proof -
    have "unat a * (cvt_n Y + cvt_v X Y R) \<le> 1000 * unat hf" unfolding a by (rule div_times_less_eq_dividend)
    moreover have "1000 * unat hf < (unat a + 1) * (cvt_n Y + cvt_v X Y R)"
      using dividend_less_div_times [of "cvt_n Y + cvt_v X Y R" "1000 * unat hf"] vsync(3) unfolding a by simp
    moreover have "unat hf * unat HT \<le> 1000 * unat C" unfolding hf by (rule div_times_less_eq_dividend)
    moreover have "1000 * unat C < (unat hf + 1) * unat HT"
      using dividend_less_div_times [of "unat HT" "1000 * unat C"] ht b unfolding hf by simp
    ultimately show "98 * unat R \<le> 100 * unat a" "100 * unat a \<le> 102 * unat R"
      using rate_bounds [OF period(1,2) vsync(1-3) clock(1,2), where a = "unat a" and hf = "unat hf"] R q period(4) ht b X Y
      by (simp_all add: cvt_n_def)
  qed
  define VT where "VT = Y + V + 3"
  have VT: "unat VT = cvt_n Y + cvt_v X Y R" "Y + (VT - Y) = VT" using vt by (simp_all add: VT_def)
  define t where "t = zero_attrib\<lparr> XRes := ucast X, YRes := ucast Y, RefreshRate := ucast a,
      HVPolarity := ucast VerPOSITIVE + ucast HorNEGATIVE, PixelClock := C * 100,
      HorTotal := ucast HT, HorDisEnd := ucast X, HorBStart := ucast X, HorBEnd := ucast HT,
      HorSyncStart := ucast (X + HFP), HorSyncEnd := ucast (X + HFP + HS),
      VerTotal := ucast VT, VerDisEnd := ucast Y, VerBStart := ucast Y, VerBEnd := ucast (Y + (VT - Y)),
      VerSyncStart := ucast (Y + 3), VerSyncEnd := ucast (Y + 3 + cbGetVsyncWidth X Y) \<rparr>"
  have "HT \<noteq> 0" "Y + V + 3 \<noteq> 0" using ht vt vsync(3) X by (auto simp: unat_eq_zero)
  then have run: "cbCalcCustomizedTiming X Y R = Some t"
    unfolding cbCalcCustomizedTiming_def Let_def H_def [symmetric] V_def [symmetric] B option.case HT_def [symmetric] C_def [symmetric]
      cvt_timing_def
    by (simp add: cvt_constants HS_def [symmetric] HFP_def [symmetric] hf_def [symmetric] a_def [symmetric] t_def VT_def)
  have hor: "unat (X + HFP) = unat X + unat HFP" "unat (X + HFP + HS) = unat X + unat HFP + unat HS"
    using X fits k b hfp by (simp_all add: unat_word_ariths)
  have ver: "unat (Y + 3) = unat Y + 3" "unat (Y + 3 + cbGetVsyncWidth X Y) = unat Y + 3 + w"
    using Y w by (simp_all add: unat_word_ariths w_def)
  have "geometry_ok t"
    unfolding geometry_ok_def t_def word_le_nat_alt word_less_nat_alt
    using X Y w fits k b hfp hor ver VT ht vsync(3,4) by (simp add: wide cvt_n_def)
  moreover have "unat (RefreshRate t) = unat a" "unat (XRes t) = unat X" "unat (YRes t) = unat Y" "FormatVIC t = 0"
    using rate R X Y by (simp_all add: t_def wide zero_attrib_def)
  ultimately show ?thesis using run rate by simp
qed



text \<open>
  Few lines. Below 160 lines at 60 Hz the ideal duty cycle wraps around: the smallest wide standard timing, 264
  by 148, gets a line of 421288 pixels, of which the structure keeps 28072, and sync pulses behind the end of it.
\<close>

theorem cbCalcCustomizedTiming_few_lines:
  "cvt_hor_blanking 264 (cvt_period 148 6000) = Some 421024 \<and>
   (\<exists>t. cbCalcCustomizedTiming 264 148 6000 = Some t \<and> HorTotal t = 28072 \<and> HorTotal t < HorSyncStart t)"
proof -
  have "case cbCalcCustomizedTiming 264 148 6000 of None \<Rightarrow> False | Some t \<Rightarrow> HorTotal t = 28072 \<and> HorTotal t < HorSyncStart t"
    by code_simp
  moreover have "cvt_hor_blanking 264 (cvt_period 148 6000) = Some 421024" by code_simp
  ultimately show ?thesis by (auto split: option.splits)
qed

end
