(* ===== verification/Edid_Std.thy ===== *)
theory Edid_Std
  imports Edid_List Cvt
begin

text \<open>
  Timings that a monitor names only by size and rate (\<^verbatim>\<open>cbios/Util/CBiosEDID.c\<close>): the established and the standard
  timings of the base block, and where their numbers come from, the table of the adapter, the table of
  the video formats, or the calculation of \<open>Cvt\<close>.
\<close>

section \<open>The table of the adapter\<close>

definition AdapterTimingTbl :: "timing_attrib list" where
  "AdapterTimingTbl =
    [
     row 0 640 350 8500 128 315000 832 640 640 832 672 736 445 350 350 445 382 385,
     row 0 640 400 8500 64 315000 832 640 640 832 672 736 445 400 400 445 401 404,
     row 0 720 400 8500 64 355000 936 720 720 936 756 828 446 400 400 446 401 404,
     row 0 640 480 6000 192 251750 800 640 648 792 656 752 525 480 489 517 490 492,
     row 0 640 480 7200 192 315000 832 640 648 824 664 704 520 480 488 512 489 492,
     row 0 640 480 7500 192 315000 840 640 640 840 656 720 500 480 480 500 481 484,
     row 0 640 480 8500 192 360000 832 640 640 832 696 752 509 480 480 509 481 484,
     row 0 800 600 5600 0 360000 1024 800 800 1024 824 896 625 600 600 625 601 603,
     row 0 800 600 6000 0 400000 1056 800 800 1056 840 968 628 600 600 628 601 605,
     row 0 800 600 7200 0 500000 1040 800 800 1040 856 976 666 600 600 666 637 643,
     row 0 800 600 7500 0 495000 1056 800 800 1056 816 896 625 600 600 625 601 604,
     row 0 800 600 8500 0 562500 1048 800 800 1048 832 896 631 600 600 631 601 604,
     row 0 800 600 10000 64 672500 1056 800 800 1056 848 928 639 600 600 639 603 607,
     row 0 848 480 6000 0 337500 1088 848 848 1088 864 976 517 480 480 517 486 494,
     row 0 1024 768 6000 192 650000 1344 1024 1024 1344 1048 1184 806 768 768 806 771 777,
     row 0 1024 768 7000 192 750000 1328 1024 1024 1328 1048 1184 806 768 768 806 771 777,
     row 0 1024 768 7500 0 787500 1312 1024 1024 1312 1040 1136 800 768 768 800 769 772,
     row 0 1024 768 8500 0 945000 1376 1024 1024 1376 1072 1168 808 768 768 808 769 772,
     row 0 1024 768 10000 64 1122500 1376 1024 1024 1376 1096 1192 816 768 768 816 771 775,
     row 0 1024 768 12000 64 1390000 1408 1024 1024 1408 1104 1216 823 768 768 823 769 772,
     row 0 1152 864 7500 0 1080000 1600 1152 1152 1600 1216 1344 900 864 864 900 865 868,
     row 0 1280 720 5000 0 742500 1980 1280 1280 1980 1720 1760 750 720 720 750 725 730,
     row 0 1280 720 6000 0 742500 1650 1280 1280 1650 1390 1430 750 720 720 750 725 730,
     row 0 1280 768 6000 64 795000 1664 1280 1280 1664 1344 1472 798 768 768 798 771 778,
     row 0 1280 768 7500 64 1022500 1696 1280 1280 1696 1360 1488 805 768 768 805 771 778,
     row 0 1280 768 8500 64 1175000 1712 1280 1280 1712 1360 1496 809 768 768 809 771 778,
     row 0 1280 800 6000 64 835000 1680 1280 1280 1680 1352 1480 831 800 800 831 803 809,
     row 0 1280 800 7500 64 1065000 1696 1280 1280 1696 1360 1488 838 800 800 838 803 809,
     row 0 1280 800 8500 64 1225000 1712 1280 1280 1712 1360 1496 843 800 800 843 803 809,
     row 0 1280 960 6000 0 1080000 1800 1280 1280 1800 1376 1488 1000 960 960 1000 961 964,
     row 0 1280 960 8500 0 1485000 1728 1280 1280 1728 1344 1504 1011 960 960 1011 961 964,
     row 0 1280 1024 6000 0 1080000 1688 1280 1280 1688 1328 1440 1066 1024 1024 1066 1025 1028,
     row 0 1280 1024 7500 0 1350000 1688 1280 1280 1688 1296 1440 1066 1024 1024 1066 1025 1028,
     row 0 1280 1024 8500 0 1575000 1728 1280 1280 1728 1344 1504 1072 1024 1024 1072 1025 1028,
     row 0 1360 768 6000 0 855000 1792 1360 1360 1792 1424 1536 795 768 768 795 771 777,
     row 0 1366 768 6000 0 855000 1792 1366 1366 1792 1436 1579 798 768 768 798 771 774,
     row 0 1400 1050 6000 64 1217500 1864 1400 1400 1864 1488 1632 1089 1050 1050 1089 1053 1057,
     row 0 1400 1050 7500 64 1560000 1896 1400 1400 1896 1504 1648 1099 1050 1050 1099 1053 1057,
     row 0 1400 1050 8500 64 1795000 1912 1400 1400 1912 1504 1656 1105 1050 1050 1105 1053 1057,
     row 0 1440 900 6000 64 1065000 1904 1440 1440 1904 1520 1672 934 900 900 934 903 909,
     row 0 1440 900 7500 64 1367500 1936 1440 1440 1936 1536 1688 942 900 900 942 903 909,
     row 0 1440 900 8500 64 1570000 1952 1440 1440 1952 1544 1696 948 900 900 948 903 909,
     row 0 1600 900 6000 0 1080000 1800 1600 1600 1800 1624 1704 1000 900 900 1000 901 904,
     row 0 1600 1200 6000 0 1620000 2160 1600 1600 2160 1664 1856 1250 1200 1200 1250 1201 1204,
     row 0 1600 1200 6500 0 1755000 2160 1600 1600 2160 1664 1856 1250 1200 1200 1250 1201 1204,
     row 0 1600 1200 7000 0 1890000 2160 1600 1600 2160 1664 1856 1250 1200 1200 1250 1201 1204,
     row 0 1600 1200 7500 0 2025000 2160 1600 1600 2160 1664 1856 1250 1200 1200 1250 1201 1204,
     row 0 1600 1200 8500 0 2295000 2160 1600 1600 2160 1664 1856 1250 1200 1200 1250 1201 1204,
     row 0 1680 1050 6000 64 1462500 2240 1680 1680 2240 1784 1960 1089 1050 1050 1089 1053 1059,
     row 0 1680 1050 7500 64 1870000 2272 1680 1680 2272 1800 1976 1099 1050 1050 1099 1053 1059,
     row 0 1680 1050 8500 64 2147500 2288 1680 1680 2288 1808 1984 1105 1050 1050 1105 1053 1059,
     row 0 1792 1344 6000 64 2047500 2448 1792 1792 2448 1920 2120 1394 1344 1344 1394 1345 1348,
     row 0 1792 1344 7500 64 2610000 2456 1792 1792 2456 1888 2104 1417 1344 1344 1417 1345 1348,
     row 0 1856 1392 6000 64 2182500 2528 1856 1856 2528 1952 2176 1439 1392 1392 1439 1393 1396,
     row 0 1856 1392 7500 64 2880000 2560 1856 1856 2560 1984 2208 1500 1392 1392 1500 1393 1396,
     row 0 1920 1080 5000 0 1485000 2640 1920 1920 2640 2448 2492 1125 1080 1080 1125 1084 1089,
     row 0 1920 1080 6000 0 1485000 2200 1920 1920 2200 2008 2052 1125 1080 1080 1125 1084 1089,
     row 0 1920 1080 12000 64 3687000 2656 1920 1920 2656 2072 2288 1157 1080 1080 1157 1081 1084,
     row 0 1920 1200 6000 64 1932500 2592 1920 1920 2592 2056 2256 1245 1200 1200 1245 1203 1209,
     row 0 1920 1200 7500 64 2452500 2608 1920 1920 2608 2056 2264 1255 1200 1200 1255 1203 1209,
     row 0 1920 1200 8500 64 2812500 2624 1920 1920 2624 2064 2272 1262 1200 1200 1262 1203 1209,
     row 0 1920 1440 6000 64 2340000 2600 1920 1920 2600 2048 2256 1500 1440 1440 1500 1441 1444,
     row 0 1920 1440 7500 64 2970000 2640 1920 1920 2640 2064 2288 1500 1440 1440 1500 1441 1444,
     row 0 2048 1152 6000 0 1620000 2250 2048 2048 2250 2074 2154 1200 1152 1152 1200 1153 1156,
     row 0 2560 1600 6000 64 3485000 3504 2560 2560 3504 2752 3032 1658 1600 1600 1658 1603 1609,
     row 0 2560 1600 7500 64 4432500 3536 2560 2560 3536 2768 3048 1672 1600 1600 1672 1603 1609,
     row 0 2560 1600 8500 64 5052500 3536 2560 2560 3536 2768 3048 1682 1600 1600 1682 1603 1609
    ]"

text \<open>What a search by size and rate goes by.\<close>

definition timing_name :: "timing_attrib \<Rightarrow> u16 \<times> u16 \<times> u16" where
  "timing_name t = (XRes t, YRes t, RefreshRate t div 100)"

lemma adapter_distinct: "distinct (map timing_name AdapterTimingTbl)"
  unfolding AdapterTimingTbl_def by (simp add: row_def timing_name_def)

lemma adapter_geometry:
  "map timing_name (filter (\<lambda>t. \<not> geometry_ok t) AdapterTimingTbl) = [(640, 480, 60), (640, 480, 72)]"
  unfolding AdapterTimingTbl_def by (simp add: row_def timing_name_def geometry_ok_def)

lemma adapter_rates:
  "map timing_name (filter (\<lambda>t. \<not> rate_ok 1 1 t) AdapterTimingTbl) = [(640, 480, 72), (800, 600, 60)]"
  unfolding AdapterTimingTbl_def by (simp add: row_def timing_name_def rate_ok_def Let_def)

lemma adapter_no_vic: "\<forall>t \<in> set AdapterTimingTbl. FormatVIC t = 0"
  unfolding AdapterTimingTbl_def by (simp add: row_def)

text \<open>
  The table of the adapter. No two rows have the same size and rate, so a search can find only one; the geometry of
  every row is in order, except that two rows of 640 by 480 start the blanking behind and end it before the borders;
  every refresh rate is what the clock gives to within half a percent, except the nominal 72 Hz of 640 by 480 and
  60 Hz of 800 by 600.
\<close>

theorem AdapterTimingTbl_consistent:
  "distinct (map timing_name AdapterTimingTbl) \<and>
   map timing_name (filter (\<lambda>t. \<not> geometry_ok t) AdapterTimingTbl) = [(640, 480, 60), (640, 480, 72)] \<and>
   map timing_name (filter (\<lambda>t. \<not> rate_ok 1 1 t) AdapterTimingTbl) = [(640, 480, 72), (800, 600, 60)] \<and>
   (\<forall>t \<in> set AdapterTimingTbl. FormatVIC t = 0)"
  using adapter_distinct adapter_geometry adapter_rates adapter_no_vic by simp

section \<open>A timing by size and rate\<close>

definition by_size_rate :: "u16 \<Rightarrow> u16 \<Rightarrow> u16 \<Rightarrow> timing_attrib \<Rightarrow> bool" where
  "by_size_rate X Y R t \<longleftrightarrow> XRes t = X \<and> YRes t = Y \<and> (R = 0 \<or> RefreshRate t div 100 = R div 100)"

text \<open>The search among the video formats, and whether the fractional rate is meant.\<close>

definition by_format :: "u16 \<Rightarrow> u16 \<Rightarrow> u16 \<Rightarrow> timing_attrib \<times> hdmi_format_mtx \<Rightarrow> bool" where
  "by_format X Y R tm =
     (case tm of (t, m) \<Rightarrow> cea_supported m \<noteq> 0 \<and> XRes t = X \<and> YRes t = Y \<and> cea_interlace m = 0 \<and>
        (R div 100 = RefreshRate t div 100 \<or>
         (ucast R :: u32) div 100 = cbGetCEAFractRefrate (ucast (RefreshRate t)) div 100))"

definition format_timing :: "u16 \<Rightarrow> timing_attrib \<Rightarrow> timing_attrib" where
  "format_timing R t =
     (if R div 100 = RefreshRate t div 100 then t
      else t\<lparr> RefreshRate := ucast (cbGetCEAFractRefrate (ucast (RefreshRate t))),
              PixelClock := cbGetCEAFractRRClock (PixelClock t) \<rparr>)"

definition cbEDIDModule_GetXYRTiming :: "edid_struct \<Rightarrow> u16 \<Rightarrow> u16 \<Rightarrow> u16 \<Rightarrow> timing_attrib option" where
  "cbEDIDModule_GetXYRTiming st X Y R =
     (let hdmi = (X = 640 \<and> Y = 480 \<and> R = 6000 \<and> IsCEA861HDMI (Attribute st));
          pTimingTbl = (if hdmi then HDMIFormatTimingTbl else AdapterTimingTbl)
      in case find (by_size_rate X Y R) pTimingTbl of
           Some t \<Rightarrow> Some t
         | None \<Rightarrow>
             (case (if hdmi then None else find (by_format X Y R) (zip HDMIFormatTimingTbl CEAVideoFormatTable)) of
                Some (t, m) \<Rightarrow> Some (format_timing R t)
              | None \<Rightarrow> cbCalcCustomizedTiming (ucast X) (ucast Y) (ucast R)))"

section \<open>Established and standard timings\<close>

definition CBIOS_EST_TIMING :: u32 where "CBIOS_EST_TIMING = 0x0001"
definition CBIOS_STD_TIMING :: u32 where "CBIOS_STD_TIMING = 0x0002"
definition ESTABLISH_TIMINGS_INDEX :: nat where "ESTABLISH_TIMINGS_INDEX = 0x23"
definition STANDARD_TIMINGS_INDEX :: nat where "STANDARD_TIMINGS_INDEX = 0x26"
definition CBIOS_ESTABLISHMODECOUNT :: nat where "CBIOS_ESTABLISHMODECOUNT = 17"
definition CBIOS_STDMODECOUNT :: nat where "CBIOS_STDMODECOUNT = 8"

definition EstModeSupportTbl :: "bool list" where
  "EstModeSupportTbl = [True, False, True, True, False, True, False, False, True, True, True, True, False, False, True, True, False]"

definition EstTiming :: "(u16 \<times> u16 \<times> u16) list" where
  "EstTiming =
    [(0x320, 0x258, 6000), (0x320, 0x258, 5600), (0x280, 0x1E0, 7500), (0x280, 0x1E0, 7200), (0x280, 0x1E0, 6700),
     (0x280, 0x1E0, 6000), (0x2D0, 0x190, 8800), (0x2D0, 0x190, 7000),
     (0x500, 0x400, 7500), (0x400, 0x300, 7500), (0x400, 0x300, 7000), (0x400, 0x300, 6000), (0x400, 0x300, 8700),
     (0x340, 0x270, 7500), (0x320, 0x258, 7500), (0x320, 0x258, 7200),
     (0x480, 0x366, 7500)]"

definition est_masks :: "u8 list \<Rightarrow> u32" where
  "est_masks pEDID =
     ucast (pEDID ! ESTABLISH_TIMINGS_INDEX) + push_bit 8 (ucast (pEDID ! (ESTABLISH_TIMINGS_INDEX + 1))) +
     push_bit 9 (ucast (pEDID ! (ESTABLISH_TIMINGS_INDEX + 2)) AND 0x80)"

text \<open>The round that both readers share: look for the timing, else get its numbers and add it.\<close>

definition same_size_rate :: "u16 \<Rightarrow> u16 \<Rightarrow> u16 \<Rightarrow> device_timing \<Rightarrow> bool" where
  "same_size_rate X Y R t \<longleftrightarrow> XRes (FullTiming t) = X \<and> YRes (FullTiming t) = Y \<and> RefreshRate (FullTiming t) = R \<and> \<not> IsInterLaced t"

definition named_timing :: "u32 \<Rightarrow> timing_attrib \<Rightarrow> device_timing" where
  "named_timing ty t = zero_timing\<lparr> FullTiming := t\<lparr> FormatVIC := 0 \<rparr>, TimingType := ty \<rparr>"

definition xyr_step :: "pool \<Rightarrow> u32 \<Rightarrow> u16 \<Rightarrow> u16 \<Rightarrow> u16 \<Rightarrow> edid_struct \<Rightarrow> edid_struct" where
  "xyr_step pool ty X Y R st =
     (if \<exists>t \<in> set (timings st). same_size_rate X Y R t then st
      else case cbEDIDModule_GetXYRTiming st X Y R of
             None \<Rightarrow> st
           | Some t \<Rightarrow> snd (cbEDIDModule_AddDeviceTiming pool st (named_timing ty t)))"

definition est_step :: "(nat \<Rightarrow> pool) \<Rightarrow> u8 list \<Rightarrow> nat \<Rightarrow> edid_struct \<Rightarrow> edid_struct" where
  "est_step pool pEDID i st =
     (if est_masks pEDID AND push_bit i 1 = 0 \<or> \<not> EstModeSupportTbl ! i then st
      else case EstTiming ! i of (X, Y, R) \<Rightarrow> xyr_step (pool i) CBIOS_EST_TIMING X Y R st)"

definition cbEDIDModule_GetEstablishMode :: "(nat \<Rightarrow> pool) \<Rightarrow> u8 list \<Rightarrow> edid_struct \<Rightarrow> edid_struct \<times> u32" where
  "cbEDIDModule_GetEstablishMode pool pEDID st =
     (let st' = fold (est_step pool pEDID) [0..<CBIOS_ESTABLISHMODECOUNT] st in (st', TimingNum st' - TimingNum st))"

text \<open>Size and rate in the two bytes of a standard timing.\<close>

definition std_name :: "u8 \<Rightarrow> u8 \<Rightarrow> u16 \<times> u16 \<times> u16" where
  "std_name b0 b1 =
     (let X = (ucast b0 + 31) * 8 :: u16;
          R = ucast ((ucast (b1 AND 0x3F) + 60) * 100 :: u32);
          ar = drop_bit 6 (b1 AND 0xC0);
          Y = (if ar = 0 then ucast ((ucast X * 10 :: u32) div 16)
               else if ar = 1 then ucast ((ucast X * 3 :: u32) div 4)
               else if ar = 2 then ucast ((ucast X * 4 :: u32) div 5)
               else ucast ((ucast X * 9 :: u32) div 16))
      in (X, Y, R))"

definition std_step :: "(nat \<Rightarrow> pool) \<Rightarrow> u8 list \<Rightarrow> nat \<Rightarrow> edid_struct \<Rightarrow> edid_struct" where
  "std_step pool pEDID i st =
     (let b0 = pEDID ! (STANDARD_TIMINGS_INDEX + i * 2); b1 = pEDID ! (STANDARD_TIMINGS_INDEX + i * 2 + 1)
      in if b0 = 0x01 \<or> b0 = 0x00 then st
         else case std_name b0 b1 of (X, Y, R) \<Rightarrow> xyr_step (pool i) CBIOS_STD_TIMING X Y R st)"

definition cbEDIDModule_GetStandardMode :: "(nat \<Rightarrow> pool) \<Rightarrow> u8 list \<Rightarrow> edid_struct \<Rightarrow> edid_struct \<times> u32" where
  "cbEDIDModule_GetStandardMode pool pEDID st =
     (let st' = fold (std_step pool pEDID) [0..<CBIOS_STDMODECOUNT] st in (st', TimingNum st' - TimingNum st))"

section \<open>The numbers of a named timing\<close>

text \<open>Sizes and rates for which the numbers are right: those of the calculation.\<close>

definition named_range :: "u16 \<Rightarrow> u16 \<Rightarrow> u16 \<Rightarrow> bool" where
  "named_range X Y R \<longleftrightarrow> 640 \<le> unat X \<and> unat X \<le> 4096 \<and> 480 \<le> unat Y \<and> unat Y \<le> 2304 \<and> 6000 \<le> unat R \<and> unat R \<le> 12300"

definition rate_close :: "u16 \<Rightarrow> u16 \<Rightarrow> bool" where
  "rate_close R r \<longleftrightarrow> 98 * unat R \<le> 100 * unat r \<and> 100 * unat r \<le> 102 * unat R"

lemma rate_close_div: "unat r div 100 = unat R div 100 \<Longrightarrow> 6000 \<le> unat R \<Longrightarrow> rate_close R r"
  using mult_div_mod_eq [of 100 "unat r"] mult_div_mod_eq [of 100 "unat R"] mod_less_divisor [of 100 "unat r"] mod_less_divisor [of 100 "unat R"]
  unfolding rate_close_def by linarith

lemma unat_div100: "(a :: u16) div 100 = b div 100 \<Longrightarrow> unat a div 100 = unat b div 100"
  by (drule arg_cong [of _ _ unat]) (simp add: unat_div)

lemma format_timing_rate:
  assumes "by_format X Y R (t, m)" "6000 \<le> unat R"
  shows "XRes (format_timing R t) = X" "YRes (format_timing R t) = Y" "rate_close R (RefreshRate (format_timing R t))"
proof -
  show "XRes (format_timing R t) = X" "YRes (format_timing R t) = Y"
    using assms(1) by (auto simp: by_format_def format_timing_def)
  show "rate_close R (RefreshRate (format_timing R t))"
  proof (cases "R div 100 = RefreshRate t div 100")
    case True
    then show ?thesis using rate_close_div [OF _ assms(2)] unat_div100 [OF True] by (simp add: format_timing_def)
  next
    case False
    define f where "f = cbGetCEAFractRefrate (ucast (RefreshRate t))"
    have d: "(ucast R :: u32) div 100 = f div 100" using assms(1) False by (auto simp: by_format_def f_def)
    then have d': "unat R div 100 = unat f div 100" by (drule_tac arg_cong [of _ _ unat]) (simp add: unat_div)
    have "unat f \<le> unat (RefreshRate t)"
      using ntsc_less [of "unat (RefreshRate t)"] by (auto simp: f_def cbGetCEAFractRefrate_ntsc ntsc_def)
    then have "unat f < 65536" using unsigned_less [where 'a = nat, of "RefreshRate t"] by simp
    then have "unat (ucast f :: u16) = unat f" by (simp add: unsigned_ucast_eq take_bit_nat_eq_self)
    then show ?thesis using rate_close_div [OF _ assms(2), of "ucast f"] d' False by (simp add: format_timing_def f_def)
  qed
qed

lemma cbEDIDModule_GetXYRTiming_spec:
  assumes range: "named_range X Y R"
  shows "\<exists>t. cbEDIDModule_GetXYRTiming st X Y R = Some t \<and> XRes t = X \<and> YRes t = Y \<and> rate_close R (RefreshRate t)"
proof -
  have R: "6000 \<le> unat R" "R \<noteq> 0" using range by (auto simp: named_range_def)
  define hdmi where "hdmi = (X = 640 \<and> Y = 480 \<and> R = 6000 \<and> IsCEA861HDMI (Attribute st))"
  define tbl where "tbl = (if hdmi then HDMIFormatTimingTbl else AdapterTimingTbl)"
  define fmt where "fmt = (if hdmi then None else find (by_format X Y R) (zip HDMIFormatTimingTbl CEAVideoFormatTable))"
  have run: "cbEDIDModule_GetXYRTiming st X Y R =
      (case find (by_size_rate X Y R) tbl of Some t \<Rightarrow> Some t
       | None \<Rightarrow> (case fmt of Some (t, m) \<Rightarrow> Some (format_timing R t) | None \<Rightarrow> cbCalcCustomizedTiming (ucast X) (ucast Y) (ucast R)))"
    unfolding cbEDIDModule_GetXYRTiming_def Let_def hdmi_def [symmetric] tbl_def [symmetric] fmt_def [symmetric] ..
  consider t where "find (by_size_rate X Y R) tbl = Some t" | t m where "find (by_size_rate X Y R) tbl = None" "fmt = Some (t, m)"
    | "find (by_size_rate X Y R) tbl = None" "fmt = None"
    by (cases "find (by_size_rate X Y R) tbl"; cases fmt) auto
  then show ?thesis
  proof cases
    case (1 t)
    then have "by_size_rate X Y R t" by (auto simp: find_Some_iff)
    then have t: "XRes t = X" "YRes t = Y" "RefreshRate t div 100 = R div 100" using R(2) by (auto simp: by_size_rate_def)
    have "rate_close R (RefreshRate t)" by (rule rate_close_div [OF unat_div100 [OF t(3)] R(1)])
    then show ?thesis using 1 t by (simp add: run)
  next
    case (2 t m)
    then have "by_format X Y R (t, m)" by (auto simp: fmt_def find_Some_iff split: if_splits)
    from format_timing_rate [OF this R(1)] show ?thesis using 2 by (simp add: run)
  next
    case 3
    have "cvt_range (ucast X) (ucast Y) (ucast R)" using range by (simp add: cvt_range_def named_range_def)
    from cbCalc_spec [OF this] obtain t where t: "cbCalcCustomizedTiming (ucast X) (ucast Y) (ucast R) = Some t"
      "unat (XRes t) = unat X" "unat (YRes t) = unat Y" "rate_close R (RefreshRate t)"
      by (auto simp: rate_close_def)
    then show ?thesis using 3 by (auto simp: run word_unat_eq_iff)
  qed
qed

text \<open>
  The numbers behind a name. For every size and rate of the range, whatever table they come from or if they are
  calculated, there are numbers, of exactly the size and with a refresh rate within two percent.
\<close>

theorem cbEDIDModule_GetXYRTiming_correct:
  assumes range: "named_range X Y R"
  shows "\<exists>t. cbEDIDModule_GetXYRTiming st X Y R = Some t \<and> XRes t = X \<and> YRes t = Y \<and> rate_close R (RefreshRate t)"
  by (rule cbEDIDModule_GetXYRTiming_spec [OF range])

lemma cbEDIDModule_GetXYRTiming_correct_witness:
  "\<exists>t. cbEDIDModule_GetXYRTiming empty_edid_struct 1600 900 6000 = Some t \<and> XRes t = 1600 \<and> YRes t = 900 \<and> rate_close 6000 (RefreshRate t)"
  by (rule cbEDIDModule_GetXYRTiming_correct) (simp add: named_range_def)

section \<open>The readers\<close>

lemma GetXYR_Attribute: "Attribute st = Attribute st' \<Longrightarrow> cbEDIDModule_GetXYRTiming st = cbEDIDModule_GetXYRTiming st'"
  by (intro ext) (simp add: cbEDIDModule_GetXYRTiming_def)

text \<open>A timing in the list that serves a name.\<close>

definition serves :: "u16 \<Rightarrow> u16 \<Rightarrow> u16 \<Rightarrow> device_timing \<Rightarrow> bool" where
  "serves X Y R t \<longleftrightarrow> XRes (FullTiming t) = X \<and> YRes (FullTiming t) = Y \<and> \<not> IsInterLaced t \<and> rate_close R (RefreshRate (FullTiming t))"

text \<open>What these readers add: timings without a code, progressive, of their type.\<close>

definition by_name :: "u32 \<Rightarrow> device_timing \<Rightarrow> bool" where
  "by_name ty t \<longleftrightarrow> FormatVIC (FullTiming t) = 0 \<and> \<not> IsInterLaced t \<and> TimingType t = ty"

text \<open>A round with the number of timings it added, as the locale of readers has it.\<close>

definition counted :: "(edid_struct \<Rightarrow> edid_struct) \<Rightarrow> edid_struct \<times> u32 \<Rightarrow> edid_struct \<times> u32" where
  "counted f s = (f (fst s), snd s + (TimingNum (f (fst s)) - TimingNum (fst s)))"

lemma xyr_step_spec:
  fixes ty :: u32 and X Y R :: u16
  assumes ok: "edid_ok b st" "pool_ok pool" and b: "b < 2 ^ 20"
  defines "st' \<equiv> xyr_step pool ty X Y R st"
  shows "edid_ok (Suc b) st'" "extends (by_name ty) (st, n) (counted (xyr_step pool ty X Y R) (st, n)) 1"
    "Attribute st' = Attribute st"
    "pool_gives pool \<Longrightarrow> named_range X Y R \<Longrightarrow> \<exists>t \<in> set (timings st'). serves X Y R t"
proof -
  have "edid_ok (Suc b) st' \<and> Attribute st' = Attribute st \<and>
      (\<exists>ts. timings st' = timings st @ ts \<and> length ts \<le> 1 \<and> (\<forall>t \<in> set ts. by_name ty t) \<and> TimingNum st' = TimingNum st + of_nat (length ts)) \<and>
      (pool_gives pool \<longrightarrow> named_range X Y R \<longrightarrow> (\<exists>t \<in> set (timings st'). serves X Y R t))"
  proof (cases "\<exists>t \<in> set (timings st). same_size_rate X Y R t")
    case True
    then have "st' = st" by (simp add: st'_def xyr_step_def)
    moreover obtain t where "t \<in> set (timings st)" "same_size_rate X Y R t" using True by blast
    then have "\<exists>t \<in> set (timings st). serves X Y R t" by (auto simp: same_size_rate_def serves_def rate_close_def)
    ultimately show ?thesis using edid_ok_mono [OF ok(1), of "Suc b"] by simp
  next
    case fresh: False
    show ?thesis
    proof (cases "cbEDIDModule_GetXYRTiming st X Y R")
      case None
      then have "st' = st" using fresh by (simp add: st'_def xyr_step_def)
      moreover have "\<not> named_range X Y R" using cbEDIDModule_GetXYRTiming_spec [of X Y R st] None by auto
      ultimately show ?thesis using edid_ok_mono [OF ok(1), of "Suc b"] by simp
    next
      case (Some t)
      obtain added where add: "cbEDIDModule_AddDeviceTiming pool st (named_timing ty t) = (added, st')"
        using fresh Some by (cases "cbEDIDModule_AddDeviceTiming pool st (named_timing ty t)") (simp add: st'_def xyr_step_def)
      note A = AddDeviceTiming_spec [OF ok b add]
      have "by_name ty (named_timing ty t)" by (simp add: by_name_def named_timing_def zero_timing_def)
      then have "\<exists>ts. timings st' = timings st @ ts \<and> length ts \<le> 1 \<and> (\<forall>t \<in> set ts. by_name ty t) \<and> TimingNum st' = TimingNum st + of_nat (length ts)"
        using A(2,3) by (intro exI [of _ "if added then [named_timing ty t] else []"]) simp
      moreover have "serves X Y R (named_timing ty t)" if "named_range X Y R"
        using cbEDIDModule_GetXYRTiming_spec [OF that, of st] Some by (simp add: serves_def named_timing_def zero_timing_def)
      ultimately show ?thesis using A(1,2,4,6) by auto
    qed
  qed
  then show "edid_ok (Suc b) st'" "Attribute st' = Attribute st"
    "pool_gives pool \<Longrightarrow> named_range X Y R \<Longrightarrow> \<exists>t \<in> set (timings st'). serves X Y R t"
    "extends (by_name ty) (st, n) (counted (xyr_step pool ty X Y R) (st, n)) 1"
    by (auto simp: extends_def counted_def st'_def)
qed

lemma counted_id: "counted (\<lambda>st. st) s = s"
  by (cases s) (simp add: counted_def)

lemma counted_fold: "counted (fold f is) s = fold (\<lambda>i. counted (f i)) is s"
proof (induction "is" arbitrary: s)
  case (Cons i "is")
  show ?case unfolding fold_simps comp_def Cons.IH [symmetric] by (simp add: counted_def)
qed (simp add: counted_id id_def)

text \<open>Both readers, with pools made sound, meet the contract.\<close>

interpretation est: timing_reader "\<lambda>(pool, e, i). counted (est_step (\<lambda>k. sound_pool (pool k)) e i)" "by_name CBIOS_EST_TIMING"
proof
  fix b and s :: "edid_struct \<times> u32" and i :: "(nat \<Rightarrow> pool) \<times> u8 list \<times> nat"
  assume b: "edid_ok b (fst s)" "b < 2 ^ 20"
  obtain pool e k where i: "i = (pool, e, k)" by (cases i)
  obtain st n where s: "s = (st, n)" by (cases s)
  obtain X Y R where est: "EstTiming ! k = (X, Y, R)" by (cases "EstTiming ! k")
  have st: "edid_ok b st" using b(1) by (simp add: s)
  note spec = xyr_step_spec [OF st sound_pool_ok b(2), where ty = CBIOS_EST_TIMING and X = X and Y = Y and R = R]
  have "edid_ok (Suc b) (est_step (\<lambda>k. sound_pool (pool k)) e k st) \<and>
      extends (by_name CBIOS_EST_TIMING) s (counted (est_step (\<lambda>k. sound_pool (pool k)) e k) s) 1"
  proof (cases "est_masks e AND push_bit k 1 = 0 \<or> \<not> EstModeSupportTbl ! k")
    case True
    then have "est_step (\<lambda>k. sound_pool (pool k)) e k st = st" by (simp add: est_step_def)
    then show ?thesis using edid_ok_mono [OF st, of "Suc b"] by (simp add: counted_def s extends_def)
  next
    case False
    then have "est_step (\<lambda>k. sound_pool (pool k)) e k st = xyr_step (sound_pool (pool k)) CBIOS_EST_TIMING X Y R st"
      by (simp add: est_step_def est)
    then show ?thesis using spec(1) spec(2) [of n] by (simp add: counted_def s)
  qed
  then show "edid_ok (Suc b) (fst ((\<lambda>(pool, e, i). counted (est_step (\<lambda>k. sound_pool (pool k)) e i)) i s))"
    "extends (by_name CBIOS_EST_TIMING) s ((\<lambda>(pool, e, i). counted (est_step (\<lambda>k. sound_pool (pool k)) e i)) i s) 1"
    by (simp_all add: i counted_def s)
qed

interpretation std: timing_reader "\<lambda>(pool, e, i). counted (std_step (\<lambda>k. sound_pool (pool k)) e i)" "by_name CBIOS_STD_TIMING"
proof
  fix b and s :: "edid_struct \<times> u32" and i :: "(nat \<Rightarrow> pool) \<times> u8 list \<times> nat"
  assume b: "edid_ok b (fst s)" "b < 2 ^ 20"
  obtain pool e k where i: "i = (pool, e, k)" by (cases i)
  obtain st n where s: "s = (st, n)" by (cases s)
  define b0 where "b0 = e ! (STANDARD_TIMINGS_INDEX + k * 2)"
  define b1 where "b1 = e ! (STANDARD_TIMINGS_INDEX + k * 2 + 1)"
  obtain X Y R where nm: "std_name b0 b1 = (X, Y, R)" by (cases "std_name b0 b1")
  have st: "edid_ok b st" using b(1) by (simp add: s)
  note spec = xyr_step_spec [OF st sound_pool_ok b(2), where ty = CBIOS_STD_TIMING and X = X and Y = Y and R = R]
  have step: "std_step (\<lambda>k. sound_pool (pool k)) e k st =
      (if b0 = 0x01 \<or> b0 = 0x00 then st else xyr_step (sound_pool (pool k)) CBIOS_STD_TIMING X Y R st)"
    unfolding std_step_def Let_def b0_def [symmetric] b1_def [symmetric] by (simp add: nm)
  have "edid_ok (Suc b) (std_step (\<lambda>k. sound_pool (pool k)) e k st) \<and>
      extends (by_name CBIOS_STD_TIMING) s (counted (std_step (\<lambda>k. sound_pool (pool k)) e k) s) 1"
  proof (cases "b0 = 0x01 \<or> b0 = 0x00")
    case True
    then have "std_step (\<lambda>k. sound_pool (pool k)) e k st = st" by (simp add: step)
    then show ?thesis using edid_ok_mono [OF st, of "Suc b"] by (simp add: counted_def s extends_def)
  next
    case False
    then show ?thesis using step spec(1) spec(2) [of n] by (simp add: counted_def s)
  qed
  then show "edid_ok (Suc b) (fst ((\<lambda>(pool, e, i). counted (std_step (\<lambda>k. sound_pool (pool k)) e i)) i s))"
    "extends (by_name CBIOS_STD_TIMING) s ((\<lambda>(pool, e, i). counted (std_step (\<lambda>k. sound_pool (pool k)) e i)) i s) 1"
    by (simp_all add: i counted_def s)
qed

lemma counted_run:
  fixes f :: "(nat \<Rightarrow> pool) \<Rightarrow> u8 list \<Rightarrow> nat \<Rightarrow> edid_struct \<Rightarrow> edid_struct"
  assumes reader: "timing_reader (\<lambda>(pool, e, i). counted (f (\<lambda>k. sound_pool (pool k)) e i)) P"
    and ok: "edid_ok b st" "b + n \<le> 2 ^ 20" "\<And>i. pool_ok (pool i)" and run: "fold (f pool e) [0..<n] st = st'"
  shows "edid_ok (b + n) st'" "extends P (st, 0) (st', TimingNum st' - TimingNum st) n"
    "i < n \<Longrightarrow> (\<And>c s. edid_ok c s \<Longrightarrow> c < 2 ^ 20 \<Longrightarrow> \<exists>t \<in> set (timings (f pool e i s)). Q t) \<Longrightarrow> \<exists>t \<in> set (timings st'). Q t"
proof -
  have sound: "(\<lambda>k. sound_pool (pool k)) = pool" by (rule ext) (simp add: sound_pool_id ok(3))
  define step where "step = (\<lambda>(pool, e, i). counted (f (\<lambda>k. sound_pool (pool k)) e i))"
  let ?is = "map (\<lambda>i. (pool, e, i)) [0..<n]"
  have "fold step ?is (st, 0) = fold (\<lambda>i. counted (f pool e i)) [0..<n] (st, 0)"
    by (simp add: fold_map comp_def sound step_def)
  also have "\<dots> = (st', TimingNum st' - TimingNum st)" unfolding counted_fold [symmetric] using run by (auto simp: counted_def)
  finally have fold: "fold step ?is (st, 0) = (st', TimingNum st' - TimingNum st)" .
  note rd = reader [folded step_def]
  have start: "edid_ok b (fst (st, 0 :: u32))" "b + length ?is \<le> 2 ^ 20" using ok(1,2) by simp_all
  show "edid_ok (b + n) st'" "extends P (st, 0) (st', TimingNum st' - TimingNum st) n"
    using timing_reader.run_ok [OF rd start] timing_reader.run_extends [OF rd start] unfolding fold by simp_all
  show "\<exists>t \<in> set (timings st'). Q t"
    if "i < n" and serve: "\<And>c s. edid_ok c s \<Longrightarrow> c < 2 ^ 20 \<Longrightarrow> \<exists>t \<in> set (timings (f pool e i s)). Q t"
  proof -
    have "\<exists>t \<in> set (timings (fst (fold step ?is (st, 0)))). Q t"
      by (rule timing_reader.run_serves [OF rd _ _ start, of "(pool, e, i)"])
        (use serve \<open>i < n\<close> in \<open>simp_all add: step_def counted_def sound\<close>)
    then show ?thesis unfolding fold by simp
  qed
qed

text \<open>The names that the base block asks for and the driver takes up.\<close>

definition est_named :: "u8 list \<Rightarrow> nat \<Rightarrow> u16 \<times> u16 \<times> u16 \<Rightarrow> bool" where
  "est_named e i nm \<longleftrightarrow> i < CBIOS_ESTABLISHMODECOUNT \<and> bit (est_masks e) i \<and> EstModeSupportTbl ! i \<and> EstTiming ! i = nm"

definition std_named :: "u8 list \<Rightarrow> nat \<Rightarrow> u16 \<times> u16 \<times> u16 \<Rightarrow> bool" where
  "std_named e i nm \<longleftrightarrow> i < CBIOS_STDMODECOUNT \<and> e ! (STANDARD_TIMINGS_INDEX + i * 2) \<notin> {0x00, 0x01} \<and>
     std_name (e ! (STANDARD_TIMINGS_INDEX + i * 2)) (e ! (STANDARD_TIMINGS_INDEX + i * 2 + 1)) = nm"

lemma est_step_named:
  assumes "est_named e i (X, Y, R)"
  shows "est_step pool e i st = xyr_step (pool i) CBIOS_EST_TIMING X Y R st"
proof -
  have "i < 32" using assms by (simp add: est_named_def CBIOS_ESTABLISHMODECOUNT_def)
  then have "bit (est_masks e AND push_bit i 1) i" using assms by (simp add: est_named_def bit_and_iff bit_push_bit_iff bit_exp_iff)
  then have "est_masks e AND push_bit i 1 \<noteq> 0" by (metis bit_0_eq bot_apply bot_bool_def)
  then show ?thesis using assms by (simp add: est_step_def est_named_def)
qed

lemma est_reader_run:
  assumes ok: "edid_ok b st" "b < 2 ^ 19" "\<And>i. pool_ok (pool i)" and run: "cbEDIDModule_GetEstablishMode pool e st = (st', n)"
  shows "edid_ok (b + 17) st'" "extends (by_name CBIOS_EST_TIMING) (st, 0) (st', n) 17"
    "(\<And>i. pool_gives (pool i)) \<Longrightarrow> est_named e i (X, Y, R) \<Longrightarrow> named_range X Y R \<Longrightarrow> \<exists>t \<in> set (timings st'). serves X Y R t"
proof -
  have f: "fold (est_step pool e) [0..<17] st = st'" and n: "n = TimingNum st' - TimingNum st"
    using run by (auto simp: cbEDIDModule_GetEstablishMode_def CBIOS_ESTABLISHMODECOUNT_def Let_def)
  have b: "b + 17 \<le> 2 ^ 20" using ok(2) by simp
  note r = counted_run [OF est.timing_reader_axioms ok(1) b ok(3) f]
  show "edid_ok (b + 17) st'" "extends (by_name CBIOS_EST_TIMING) (st, 0) (st', n) 17" using r(1,2) by (simp_all add: n)
  show "\<exists>t \<in> set (timings st'). serves X Y R t"
    if gives: "\<And>i. pool_gives (pool i)" and named: "est_named e i (X, Y, R)" "named_range X Y R"
    using named(1) by (intro r(3) [of i]) (simp add: est_named_def CBIOS_ESTABLISHMODECOUNT_def,
      unfold est_step_named [OF named(1)], rule xyr_step_spec(4) [OF _ ok(3) _ gives named(2)])
qed

lemma std_step_named:
  assumes "std_named e i (X, Y, R)"
  shows "std_step pool e i st = xyr_step (pool i) CBIOS_STD_TIMING X Y R st"
  using assms by (auto simp: std_step_def std_named_def Let_def)

lemma std_reader_run:
  assumes ok: "edid_ok b st" "b < 2 ^ 19 + 17" "\<And>i. pool_ok (pool i)" and run: "cbEDIDModule_GetStandardMode pool e st = (st', n)"
  shows "edid_ok (b + 8) st'" "extends (by_name CBIOS_STD_TIMING) (st, 0) (st', n) 8"
    "(\<And>i. pool_gives (pool i)) \<Longrightarrow> std_named e i (X, Y, R) \<Longrightarrow> named_range X Y R \<Longrightarrow> \<exists>t \<in> set (timings st'). serves X Y R t"
proof -
  have f: "fold (std_step pool e) [0..<8] st = st'" and n: "n = TimingNum st' - TimingNum st"
    using run by (auto simp: cbEDIDModule_GetStandardMode_def CBIOS_STDMODECOUNT_def Let_def)
  have b: "b + 8 \<le> 2 ^ 20" using ok(2) by simp
  note r = counted_run [OF std.timing_reader_axioms ok(1) b ok(3) f]
  show "edid_ok (b + 8) st'" "extends (by_name CBIOS_STD_TIMING) (st, 0) (st', n) 8" using r(1,2) by (simp_all add: n)
  show "\<exists>t \<in> set (timings st'). serves X Y R t"
    if gives: "\<And>i. pool_gives (pool i)" and named: "std_named e i (X, Y, R)" "named_range X Y R"
    using named(1) by (intro r(3) [of i]) (simp add: std_named_def CBIOS_STDMODECOUNT_def,
      unfold std_step_named [OF named(1)], rule xyr_step_spec(4) [OF _ ok(3) _ gives named(2)])
qed


definition sample_block :: "u8 list" where
  "sample_block = (replicate 128 0)[0x23 := 0x20, 0x26 := 0xA9, 0x27 := 0xC0]"


end
