(* ===== verification/Edid_Parse.thy ===== *)
theory Edid_Parse
  imports Display_Id Edid_Std
begin

text \<open>
  The whole of a description: the replacement of descriptions known to be wrong and the order of the readers
  (\<^verbatim>\<open>cbEDIDModule_ParseEDID\<close> of \<^verbatim>\<open>cbios/Util/CBiosEDID.c\<close>). The memory pools of the readers are one record;
  \<open>alloc n\<close> says whether the pool serves a request for a buffer of \<open>n\<close> bytes.
\<close>

unbundle bit_operations_syntax

section \<open>Descriptions known to be wrong\<close>

definition PHL_24PFL3545_Edid :: "u8 list" where
  "PHL_24PFL3545_Edid =
    [0x00, 0xFF, 0xFF, 0xFF, 0xFF, 0xFF, 0xFF, 0x00, 0x41, 0x0C, 0x10, 0x00, 0x01, 0x01, 0x01, 0x01,
     0x00, 0x17, 0x01, 0x03, 0x80, 0x35, 0x1E, 0x78, 0x2A, 0x47, 0x89, 0xA3, 0x57, 0x47, 0x9F, 0x22,
     0x11, 0x48, 0x4C, 0xBF, 0xEF, 0x80, 0xB3, 0x00, 0x95, 0x00, 0x81, 0x80, 0x81, 0x40, 0x71, 0x4F,
     0x01, 0x01, 0x01, 0x01, 0x01, 0x01, 0x02, 0x3A, 0x80, 0x18, 0x71, 0x38, 0x2D, 0x40, 0x58, 0x2C,
     0x45, 0x00, 0x09, 0x25, 0x21, 0x00, 0x00, 0x1E, 0x66, 0x21, 0x50, 0xB0, 0x51, 0x00, 0x1B, 0x30,
     0x40, 0x70, 0x36, 0x00, 0x09, 0x25, 0x21, 0x00, 0x00, 0x1E, 0x00, 0x00, 0x00, 0xFD, 0x00, 0x37,
     0x4C, 0x1E, 0x52, 0x11, 0x00, 0x0A, 0x20, 0x20, 0x20, 0x20, 0x20, 0x20, 0x00, 0x00, 0x00, 0xFC,
     0x00, 0x42, 0x32, 0x34, 0x50, 0x46, 0x4C, 0x33, 0x35, 0x34, 0x35, 0x2F, 0x54, 0x33, 0x01, 0x31,
     0x02, 0x03, 0x22, 0xF2, 0x4F, 0x9F, 0x14, 0x13, 0x12, 0x11, 0x16, 0x15, 0x90, 0x05, 0x04, 0x03,
     0x02, 0x07, 0x06, 0x01, 0x23, 0x09, 0x07, 0x01, 0x83, 0x01, 0x00, 0x00, 0x65, 0x03, 0x0C, 0x00,
     0x10, 0x00, 0x02, 0x3A, 0x80, 0xD0, 0x72, 0x38, 0x2D, 0x40, 0x10, 0x2C, 0x45, 0x80, 0x09, 0x25,
     0x21, 0x00, 0x00, 0x1E, 0x01, 0x1D, 0x80, 0xD0, 0x72, 0x1C, 0x16, 0x20, 0x10, 0x2C, 0x25, 0x80,
     0x09, 0x25, 0x21, 0x00, 0x00, 0x9E, 0x01, 0x1D, 0x00, 0xBC, 0x52, 0xD0, 0x1E, 0x20, 0xB8, 0x28,
     0x55, 0x40, 0x09, 0x25, 0x21, 0x00, 0x00, 0x18, 0x8C, 0x0A, 0xD0, 0x90, 0x20, 0x40, 0x31, 0x20,
     0x0C, 0x40, 0x55, 0x00, 0x09, 0x25, 0x21, 0x00, 0x00, 0x18, 0x02, 0x3A, 0x80, 0x18, 0x71, 0x38,
     0x2D, 0x40, 0x58, 0x2C, 0x45, 0x00, 0x09, 0x25, 0x21, 0x00, 0x00, 0x1E, 0x00, 0x00, 0x00, 0x26]"

definition AUO_B145QAN01_Edid :: "u8 list" where
  "AUO_B145QAN01_Edid =
    [0x00, 0xFF, 0xFF, 0xFF, 0xFF, 0xFF, 0xFF, 0x00, 0x06, 0xAF, 0xA7, 0x7A, 0x00, 0x00, 0x00, 0x00,
     0x25, 0x20, 0x01, 0x04, 0xB5, 0x1F, 0x14, 0x78, 0x03, 0xEE, 0x95, 0xA3, 0x54, 0x4C, 0x99, 0x26,
     0x0F, 0x50, 0x54, 0x00, 0x00, 0x00, 0x01, 0x01, 0x01, 0x01, 0x01, 0x01, 0x01, 0x01, 0x01, 0x01,
     0x01, 0x01, 0x01, 0x01, 0x01, 0x01, 0xD1, 0x9F, 0x00, 0xA2, 0xA0, 0x40, 0x89, 0x63, 0x30, 0x20,
     0x35, 0x00, 0x38, 0xC3, 0x10, 0x00, 0x00, 0x18, 0xD1, 0x9F, 0x00, 0xA2, 0xA0, 0x40, 0x46, 0x60,
     0x30, 0x20, 0x35, 0x00, 0x38, 0xC3, 0x10, 0x00, 0x00, 0x18, 0x00, 0x00, 0x00, 0xFE, 0x00, 0x41,
     0x55, 0x4F, 0x0A, 0x20, 0x20, 0x20, 0x20, 0x20, 0x20, 0x20, 0x20, 0x20, 0x00, 0x00, 0x00, 0xFE,
     0x00, 0x4C, 0x45, 0x4E, 0x31, 0x34, 0x35, 0x57, 0x51, 0x58, 0x47, 0x41, 0x20, 0x20, 0x00, 0x29]"

definition CSW1473_Edid :: "u8 list" where
  "CSW1473_Edid =
    [0x00, 0xFF, 0xFF, 0xFF, 0xFF, 0xFF, 0xFF, 0x00, 0x0E, 0x77, 0x73, 0x14, 0x00, 0x00, 0x00, 0x00,
     0x27, 0x23, 0x01, 0x04, 0xA5, 0x1F, 0x14, 0x78, 0x07, 0xEE, 0x95, 0xA3, 0x54, 0x4C, 0x99, 0x26,
     0x0F, 0x50, 0x54, 0x00, 0x00, 0x00, 0x01, 0x01, 0x01, 0x01, 0x01, 0x01, 0x01, 0x01, 0x01, 0x01,
     0x01, 0x01, 0x01, 0x01, 0x01, 0x01, 0x67, 0x3E, 0x80, 0xA0, 0x70, 0xB0, 0x50, 0x40, 0x30, 0x20,
     0x36, 0x00, 0x38, 0xC3, 0x10, 0x00, 0x00, 0x1A, 0x9A, 0x5D, 0x80, 0xA0, 0x70, 0xB0, 0x50, 0x40,
     0x30, 0x20, 0x36, 0x00, 0x38, 0xC3, 0x10, 0x00, 0x00, 0x1A, 0x00, 0x00, 0x00, 0xFD, 0x00, 0x30,
     0x5A, 0x74, 0x74, 0x18, 0x01, 0x0A, 0x20, 0x20, 0x20, 0x20, 0x20, 0x20, 0x00, 0x00, 0x00, 0xFC,
     0x00, 0x4D, 0x4E, 0x45, 0x35, 0x30, 0x37, 0x51, 0x53, 0x32, 0x2D, 0x34, 0x0A, 0x20, 0x01, 0x4E,
     0x70, 0x20, 0x79, 0x02, 0x00, 0x81, 0x00, 0x15, 0x74, 0x1A, 0x00, 0x00, 0x03, 0x01, 0x30, 0x5A,
     0x00, 0x00, 0x00, 0x00, 0x00, 0x00, 0x5A, 0x00, 0x00, 0x00, 0x00, 0xAD, 0x00, 0x00, 0x00, 0x00,
     0x00, 0x00, 0x00, 0x00, 0x00, 0x00, 0x00, 0x00, 0x00, 0x00, 0x00, 0x00, 0x00, 0x00, 0x00, 0x00,
     0x00, 0x00, 0x00, 0x00, 0x00, 0x00, 0x00, 0x00, 0x00, 0x00, 0x00, 0x00, 0x00, 0x00, 0x00, 0x00,
     0x00, 0x00, 0x00, 0x00, 0x00, 0x00, 0x00, 0x00, 0x00, 0x00, 0x00, 0x00, 0x00, 0x00, 0x00, 0x00,
     0x00, 0x00, 0x00, 0x00, 0x00, 0x00, 0x00, 0x00, 0x00, 0x00, 0x00, 0x00, 0x00, 0x00, 0x00, 0x00,
     0x00, 0x00, 0x00, 0x00, 0x00, 0x00, 0x00, 0x00, 0x00, 0x00, 0x00, 0x00, 0x00, 0x00, 0x00, 0x00,
     0x00, 0x00, 0x00, 0x00, 0x00, 0x00, 0x00, 0x00, 0x00, 0x00, 0x00, 0x00, 0x00, 0x00, 0xAC, 0x90]"

text \<open>\<open>PHL0010\<close>, \<open>B24PFL3545/T3\<close>, \<open>AUO7AA7\<close>, \<open>B145QAN01.H \<close>, \<open>CSW1473\<close>, \<open>MNE507QS2-4\<close>, \<open>CSW1434\<close>, \<open>MNE507DA1-1\<close>,
  \<open>TMA07E7\<close> and \<open>TL145ADMP010\<close> in ASCII.\<close>

definition STR_PHL0010 :: "u8 list" where
  "STR_PHL0010 = [0x50, 0x48, 0x4C, 0x30, 0x30, 0x31, 0x30, 0]"
definition STR_B24PFL3545 :: "u8 list" where
  "STR_B24PFL3545 = [0x42, 0x32, 0x34, 0x50, 0x46, 0x4C, 0x33, 0x35, 0x34, 0x35, 0x2F, 0x54, 0x33, 0]"
definition STR_AUO7AA7 :: "u8 list" where
  "STR_AUO7AA7 = [0x41, 0x55, 0x4F, 0x37, 0x41, 0x41, 0x37, 0]"
definition STR_B145QAN01_H :: "u8 list" where
  "STR_B145QAN01_H = [0x42, 0x31, 0x34, 0x35, 0x51, 0x41, 0x4E, 0x30, 0x31, 0x2E, 0x48, 0x20, 0]"
definition STR_CSW1473 :: "u8 list" where
  "STR_CSW1473 = [0x43, 0x53, 0x57, 0x31, 0x34, 0x37, 0x33, 0]"
definition STR_MNE507QS2 :: "u8 list" where
  "STR_MNE507QS2 = [0x4D, 0x4E, 0x45, 0x35, 0x30, 0x37, 0x51, 0x53, 0x32, 0x2D, 0x34, 0]"
definition STR_CSW1434 :: "u8 list" where
  "STR_CSW1434 = [0x43, 0x53, 0x57, 0x31, 0x34, 0x33, 0x34, 0]"
definition STR_MNE507DA1 :: "u8 list" where
  "STR_MNE507DA1 = [0x4D, 0x4E, 0x45, 0x35, 0x30, 0x37, 0x44, 0x41, 0x31, 0x2D, 0x31, 0]"
definition STR_TMA07E7 :: "u8 list" where
  "STR_TMA07E7 = [0x54, 0x4D, 0x41, 0x30, 0x37, 0x45, 0x37, 0]"
definition STR_TL145ADMP010 :: "u8 list" where
  "STR_TL145ADMP010 = [0x54, 0x4C, 0x31, 0x34, 0x35, 0x41, 0x44, 0x4D, 0x50, 0x30, 0x31, 0x30, 0]"

text \<open>\<^verbatim>\<open>CBIOS_EDID_DATA\<close>: a buffer, or \<^verbatim>\<open>NULL\<close>, and its size.\<close>

type_synonym edid_data = "u8 list option \<times> nat"

definition cbCopyBuffer2EdidData :: "(nat \<Rightarrow> bool) \<Rightarrow> edid_data \<Rightarrow> u8 list \<Rightarrow> bool \<times> edid_data" where
  "cbCopyBuffer2EdidData alloc pEdidData new =
     (case pEdidData of (Buffer, BufferSize) \<Rightarrow>
        if length new = 0 then (False, pEdidData)
        else if BufferSize \<noteq> length new then
          if alloc (length new) then (True, (Some new, length new)) else (False, pEdidData)
        else (True, (map_option (\<lambda>b. new @ drop (length new) b) Buffer, BufferSize)))"

text \<open>Which description is taken instead.\<close>

definition patch_source :: "monitor_attrib \<Rightarrow> u8 list option" where
  "patch_source a =
     (if cbStrnCmp (MonitorID a) STR_PHL0010 7 = 0 \<and> cbStrnCmp (MonitorName a) STR_B24PFL3545 13 = 0 \<and> IsCEA861HDMI a
      then Some PHL_24PFL3545_Edid
      else if cbStrnCmp (MonitorID a) STR_AUO7AA7 7 = 0 \<and> cbStrnCmp (Alphanumeric a) STR_B145QAN01_H 12 = 0
      then Some AUO_B145QAN01_Edid
      else if cbStrnCmp (MonitorID a) STR_CSW1473 7 = 0 \<and> cbStrnCmp (MonitorName a) STR_MNE507QS2 11 = 0
      then Some CSW1473_Edid
      else None)"

text \<open>The panels on which the refresh rate may vary.\<close>

definition free_sync_panel :: "monitor_attrib \<Rightarrow> bool" where
  "free_sync_panel a \<longleftrightarrow>
     cbStrnCmp (MonitorID a) STR_CSW1434 7 = 0 \<and> cbStrnCmp (Alphanumeric a) STR_MNE507DA1 11 = 0 \<or>
     cbStrnCmp (MonitorID a) STR_TMA07E7 7 = 0 \<and> cbStrnCmp (Alphanumeric a) STR_TL145ADMP010 12 = 0"

definition cbEDIDModule_Patch :: "(nat \<Rightarrow> bool) \<Rightarrow> edid_data \<Rightarrow> monitor_attrib \<Rightarrow> bool \<times> edid_data \<times> monitor_attrib" where
  "cbEDIDModule_Patch alloc pEdidData a =
     (let (bPatched, pEdidData) =
            (case patch_source a of
               None \<Rightarrow> (False, pEdidData)
             | Some new \<Rightarrow> (True, snd (cbCopyBuffer2EdidData alloc pEdidData new)));
          a = (if \<not> free_sync_panel a \<and> bSupportFreeSync (MRLData a)
               then a\<lparr>MRLData := (MRLData a)\<lparr>bSupportFreeSync := False\<rparr>\<rparr> else a)
      in (bPatched, pEdidData, a))"

section \<open>The order of the readers\<close>

record edid_pools =
  dtl_pool :: "nat \<Rightarrow> pool"
  cea_pool :: "nat \<Rightarrow> nat \<Rightarrow> nat \<Rightarrow> pool"
  did_pool :: "nat \<Rightarrow> nat \<Rightarrow> nat \<Rightarrow> pool"
  est_pool :: "nat \<Rightarrow> pool"
  std_pool :: "nat \<Rightarrow> pool"

text \<open>The attributes, read over what \<open>a\<close> holds; an invalid description leaves them.\<close>

definition read_attrib :: "edid_data \<Rightarrow> monitor_attrib \<Rightarrow> monitor_attrib" where
  "read_attrib pEdidData a = (case cbEDIDModule_GetMonitorAttrib (fst pEdidData) (snd pEdidData) a of None \<Rightarrow> a | Some a' \<Rightarrow> a')"

definition edid_timings :: "edid_pools \<Rightarrow> edid_data \<Rightarrow> edid_struct \<Rightarrow> edid_struct" where
  "edid_timings P pEdidData st =
     (let (Buffer, BufferSize) = pEdidData;
          st = fst (cbEDIDModule_GetDetailedMode (dtl_pool P) (the Buffer) st);
          st = (if 128 < BufferSize
                then fst (cbEDIDModule_GetDisplayIDMode (did_pool P) Buffer BufferSize
                       (fst (cbEDIDModule_GetCEA861Mode (cea_pool P) Buffer BufferSize st)))
                else st);
          st = fst (cbEDIDModule_GetEstablishMode (est_pool P) (the Buffer) st)
      in fst (cbEDIDModule_GetStandardMode (std_pool P) (the Buffer) st))"

text \<open>The structure is cleared first, so what it held before does not matter.\<close>

definition cbEDIDModule_ParseEDID ::
  "edid_pools \<Rightarrow> (nat \<Rightarrow> bool) \<Rightarrow> edid_data \<Rightarrow> bool \<times> edid_data \<times> edid_struct" where
  "cbEDIDModule_ParseEDID P alloc pEdidData =
     (if \<not> cbEDIDModule_IsEDIDValid (fst pEdidData) (snd pEdidData) then (False, pEdidData, empty_edid_struct)
      else
        let (bPatched, pEdidData, a) = cbEDIDModule_Patch alloc pEdidData (read_attrib pEdidData zero_monitor);
            a = (if bPatched then read_attrib pEdidData zero_monitor else a)
        in (True, pEdidData, edid_timings P pEdidData (empty_edid_struct\<lparr>Attribute := a\<rparr>)))"

section \<open>What every reader keeps\<close>

lemma offer_Attribute: "Attribute (fst (offer pool mark t s)) = Attribute (fst s)"
proof -
  obtain st n where s: "s = (st, n)" by (cases s)
  obtain t1 st1 where tn: "take_native st t = (t1, st1)" by (cases "take_native st t")
  obtain added st2 where add: "cbEDIDModule_AddDeviceTiming pool st1 (mark st1 t1) = (added, st2)"
    by (cases "cbEDIDModule_AddDeviceTiming pool st1 (mark st1 t1)")
  have "Attribute st2 = Attribute st1" using AddDeviceTiming_Attribute [of pool st1 "mark st1 t1"] add by simp
  then show ?thesis using take_native_keeps [OF tn] by (simp add: offer_def s tn add)
qed

lemma mark_first_timing: "FullTiming (mark_first i st t) = FullTiming t"
  by (simp add: mark_first_def)

lemma detailed_step_inv:
  assumes "cea_inv b V (fst s)" "pool_ok pool" "b < 2 ^ 20"
  shows "cea_inv (Suc b) V (fst (detailed_step pool e i s)) \<and> Attribute (fst (detailed_step pool e i s)) = Attribute (fst s)"
proof (cases "cbEDIDModule_ParseDtlTiming (drop (0x36 + 18 * i) e) zero_timing")
  case None
  then show ?thesis using cea_inv_mono [OF assms(1), of "Suc b"] by (simp add: detailed_step_offer)
next
  case (Some t)
  then show ?thesis
    using cea_inv_offer [OF assms, of "t\<lparr>TimingType := CBIOS_DTL_TIMING\<rparr>" "mark_first i"] dtl_no_format [OF Some]
    by (simp add: detailed_step_offer offer_Attribute mark_first_timing)
qed

lemma detailed_mode_inv:
  assumes inv: "cea_inv b V st" and pool: "\<And>i. pool_ok (pool i)" and b: "b + 4 \<le> 2 ^ 20"
    and res: "cbEDIDModule_GetDetailedMode pool e st = (st', n)"
  shows "cea_inv (b + 4) V st' \<and> Attribute st' = Attribute st"
proof -
  have "cea_inv (c + length is) V (fst (detailed_loop pool e is s)) \<and> Attribute (fst (detailed_loop pool e is s)) = Attribute (fst s)"
    if "cea_inv c V (fst s)" "c + length is \<le> 2 ^ 20" for c "is" s
    using that
  proof (induction "is" arbitrary: c s)
    case (Cons i "is")
    have step: "cea_inv (Suc c) V (fst (detailed_step (pool i) e i s)) \<and> Attribute (fst (detailed_step (pool i) e i s)) = Attribute (fst s)"
      using Cons.prems pool by (intro detailed_step_inv) simp_all
    show ?case
    proof (cases "128 \<le> 0x36 + 18 * i + 18")
      case True
      then show ?thesis using cea_inv_mono [OF Cons.prems(1), of "c + length (i # is)"] by simp
    next
      case False
      then show ?thesis using Cons.IH [of "Suc c" "detailed_step (pool i) e i s"] step Cons.prems(2) by simp
    qed
  qed simp
  note run = this
  have "cea_inv b V (fst (st, 0 :: u32))" "b + length [0, 1, 2, 3 :: nat] \<le> 2 ^ 20" "b + length [0, 1, 2, 3 :: nat] = b + 4"
    using inv b by simp_all
  with run [OF this(1,2)] res show ?thesis
    unfolding cbEDIDModule_GetDetailedMode_def by (metis fst_conv)
qed

text \<open>A reader that only appends timings without a code.\<close>

lemma cea_inv_extends:
  assumes inv: "cea_inv b V st" and ok: "edid_ok c st'" and ext: "extends P (st, n) (st', m) k"
    and P: "\<And>t. P t \<Longrightarrow> vic t = 0" and att: "Attribute st' = Attribute st"
  shows "cea_inv c V st'"
proof -
  obtain ts where ts: "timings st' = timings st @ ts" "\<forall>t \<in> set ts. vic t = 0"
    using ext P by (auto simp: extends_def)
  have "formats_once (us @ ts)" if "formats_once us" for us
    unfolding formats_once_def
  proof (intro allI impI)
    fix i j assume ij: "i < length (us @ ts)" "j < length (us @ ts)" "vic ((us @ ts) ! i) \<noteq> 0 \<and> vic ((us @ ts) ! i) = vic ((us @ ts) ! j)"
    have "l < length us" if "l < length (us @ ts)" "vic ((us @ ts) ! l) \<noteq> 0" for l
      using that ts(2) nth_mem [of "l - length us" ts] by (auto simp: nth_append split: if_splits)
    then have l: "i < length us" "j < length us" using ij by metis+
    then have "(us @ ts) ! i = us ! i" "(us @ ts) ! j = us ! j" by (simp_all add: nth_append)
    note ij(3) [unfolded this]
    then show "i = j" using that l unfolding formats_once_def by blast
  qed
  moreover have "names st' = names st" unfolding names_def ts(1) using ts(2) by auto
  ultimately show ?thesis using inv ok att ts(1) by (simp add: cea_inv_def)
qed

lemma xyr_step_Attribute: "Attribute (xyr_step pool ty X Y R st) = Attribute st"
  by (simp add: xyr_step_def AddDeviceTiming_Attribute split: option.splits)

lemma fold_Attribute: "(\<And>i st. Attribute (f i st) = Attribute st) \<Longrightarrow> Attribute (fold f is st) = Attribute st"
  by (induction "is" arbitrary: st) simp_all

lemma named_Attribute:
  "Attribute (fst (cbEDIDModule_GetEstablishMode pool e st)) = Attribute st"
  "Attribute (fst (cbEDIDModule_GetStandardMode pool e st)) = Attribute st"
proof -
  have "Attribute (est_step pool e i st) = Attribute st" "Attribute (std_step pool e i st) = Attribute st" for i st
    by (auto simp: est_step_def std_step_def Let_def xyr_step_Attribute split: prod.splits)
  then show "Attribute (fst (cbEDIDModule_GetEstablishMode pool e st)) = Attribute st"
    "Attribute (fst (cbEDIDModule_GetStandardMode pool e st)) = Attribute st"
    by (simp_all add: cbEDIDModule_GetEstablishMode_def cbEDIDModule_GetStandardMode_def Let_def fold_Attribute)
qed

section \<open>The attributes\<close>

text \<open>The first pass does not touch the vendor block.\<close>

lemma attrib_block_VSDB: "VSDBData (snd (snd (attrib_block b i s))) = VSDBData (snd (snd s))"
  by (cases s) (simp add: attrib_block_def attrib_audio_def Let_def)

lemma attrib_blocks_VSDB: "VSDBData (snd (snd (attrib_blocks b off i s))) = VSDBData (snd (snd s))"
proof (induction b off i s rule: attrib_blocks.induct)
  case (1 b off i s)
  then show ?case by (simp add: attrib_blocks.simps [of b off i s] attrib_block_VSDB)
qed

lemma attrib_extension_VSDB: "VSDBData (snd (snd (attrib_extension e k s))) = VSDBData (snd (snd s))"
proof -
  obtain cnt hdmi a where s: "s = (cnt, hdmi, a)" by (cases s)
  show ?thesis
  proof (cases "is_cea (ext_block e k)")
    case False
    then show ?thesis by (auto simp: s attrib_extension_def Let_def is_cea_def)
  next
    case True
    let ?b = "ext_block e k"
    let ?a = "a\<lparr>IsCEA861Monitor := True, IsCEA861RGB := True, CeaTag := ?b ! 0, RevisionNumber := ?b ! 1,
                    OffsetOfDetailedTimingBlock := ?b ! 2, NativeFormatNum := ucast (?b ! 3 AND 0x0F),
                    IsCEA861UnderScan := bit (?b ! 3) 7, IsCEA861Audio := bit (?b ! 3) 6,
                    IsCEA861YCbCr444 := bit (?b ! 3) 5, IsCEA861YCbCr422 := bit (?b ! 3) 4\<rparr>"
    obtain cnt2 hdmi2 a2 where r: "attrib_blocks ?b (unat (?b ! 2)) 4 (cnt, hdmi, ?a) = (cnt2, hdmi2, a2)"
      by (cases "attrib_blocks ?b (unat (?b ! 2)) 4 (cnt, hdmi, ?a)")
    have "VSDBData a2 = VSDBData a" using attrib_blocks_VSDB [of ?b "unat (?b ! 2)" 4 "(cnt, hdmi, ?a)"] r by simp
    then show ?thesis using True r by (simp add: s attrib_extension_def is_cea_def Let_def)
  qed
qed

lemma read_attrib_VSDB: "VSDBData (read_attrib d a) = VSDBData a"
proof (cases "cbEDIDModule_GetMonitorAttrib (fst d) (snd d) a")
  case None
  then show ?thesis by (simp add: read_attrib_def)
next
  case (Some a')
  have ext: "VSDBData (snd (snd (fold (attrib_extension e) ks s))) = VSDBData (snd (snd s))" for e ks s
    by (induction ks arbitrary: s) (simp_all add: attrib_extension_VSDB)
  have scan: "VSDBData (fold (scan_descriptor e) is m) = VSDBData m" for e "is" m
    by (induction "is" arbitrary: m)
      (simp_all add: scan_descriptor_def scan_alpha_def scan_range_def scan_name_def scan_stereo_def Let_def split: option.splits)
  have base: "VSDBData (base_caps e (cbEDIDModule_GetMonitorSize e m)) = VSDBData m" for e m
    by (simp add: base_caps_def cbEDIDModule_GetMonitorSize_def Let_def)
  let ?e = "the (fst d)"
  let ?m = "a\<lparr>ManufactureName := [?e ! 0x08, ?e ! 0x09], ProductCode := [?e ! 0x0A, ?e ! 0x0B],
                  Chromaticity := cbEDIDModule_GetChromaticity ?e, MonitorID := snd (cbEDIDModule_GetMonitorID ?e (MonitorID a))\<rparr>"
  have "a' = snd (snd (fold (attrib_extension ?e) [1..<cbEDIDModule_GetTotalBlockNum (fst d) (snd d)]
      (0, False, base_caps ?e (cbEDIDModule_GetMonitorSize ?e (fold (scan_descriptor ?e) [0..<4] ?m)))))"
    using Some by (simp add: cbEDIDModule_GetMonitorAttrib_def Let_def split: if_splits prod.splits)
  then show ?thesis using Some by (simp add: read_attrib_def ext scan base)
qed

text \<open>What the first pass finds and the readers of timings leave alone.\<close>

definition found_attrib :: "monitor_attrib \<Rightarrow> u8 list \<times> bool \<times> bool \<times> u8 \<times> mrl" where
  "found_attrib a = (MonitorID a, IsCEA861HDMI a, IsCEA861Audio a, SAD_Count a, MRLData a)"

lemma y420_step_Attribute: "Attribute (y420_step pool svd st) = Attribute st"
proof -
  obtain status fmt native where dec: "cbEDIDModule_GetFmtIdxFromSVD svd 0 = (status, fmt, native)"
    by (cases "cbEDIDModule_GetFmtIdxFromSVD svd 0")
  obtain added st' idx where add: "cbEDIDModule_AddSvdFormat pool st (ucast fmt) native = (added, st', idx)"
    by (cases "cbEDIDModule_AddSvdFormat pool st (ucast fmt) native")
  have "Attribute st' = Attribute st" using AddSvdFormat_Attribute [of pool st "ucast fmt" native] add by simp
  then show ?thesis by (simp add: y420_step_def dec add upd_timing_def)
qed

lemma cmdb_step_Attribute: "Attribute (cmdb_step svd st) = Attribute st"
  by (auto simp: cmdb_step_def upd_timing_def split: prod.splits option.splits)

lemma found_ext_block: "found_attrib (Attribute (fst (cbEDIDModule_ParseCEAExtBlock pool d st k))) = found_attrib (Attribute st)"
proof -
  have y: "Attribute (fold (\<lambda>i. y420_step (pool i) (d ! (2 + i))) is st) = Attribute st" for "is"
    by (rule fold_Attribute) (rule y420_step_Attribute)
  have c: "Attribute (y420_cap_map d n svds st) = Attribute st" for n svds
    unfolding y420_cap_map_fold by (rule fold_Attribute) (rule cmdb_step_Attribute)
  show ?thesis
    by (simp add: cbEDIDModule_ParseCEAExtBlock_def Let_def y [simplified] c upd_attrib_def found_attrib_def infoframe_block_def
        split: prod.splits)
qed

lemma found_block: "found_attrib (Attribute (cea_data_block pool b k i st)) = found_attrib (Attribute st)"
  by (simp add: cea_data_block_def found_ext_block [unfolded found_attrib_def prod.inject] cbEDIDModule_GetHDMIAudioFormat_def
      cbEDIDModule_GetSVDMode_def Let_def svd_loop_Attribute upd_attrib_def found_attrib_def split: prod.splits)

lemma found_blocks: "found_attrib (Attribute (cea_data_blocks pool b k off i st)) = found_attrib (Attribute st)"
proof (induction pool b k off i st rule: cea_data_blocks.induct)
  case (1 pool b k off i st)
  then show ?case by (simp add: cea_data_blocks.simps [of pool b k off i st] found_block)
qed

lemma cea_detailed_Attribute: "Attribute (fst (cea_detailed_loop pool b i s)) = Attribute (fst s)"
proof (induction pool b i s rule: cea_detailed_loop.induct)
  case (1 pool b i s)
  then show ?case
    by (auto simp: cea_detailed_loop.simps [of pool b i s] cea_detailed_step_offer offer_Attribute split: option.splits)
qed

lemma found_cea: "found_attrib (Attribute (fst (cbEDIDModule_GetCEA861Mode pool B n st))) = found_attrib (Attribute st)"
proof -
  have "found_attrib (Attribute (cea_extension pool e k st)) = found_attrib (Attribute st)" for e k st
    by (simp add: cea_extension_def Let_def found_blocks cbEDIDModule_GetCEADetailedMode_def cea_detailed_Attribute)
  then have "found_attrib (Attribute (fold (cea_extension pool e) ks st)) = found_attrib (Attribute st)" for e ks st
    by (induction ks arbitrary: st) simp_all
  moreover have "Attribute (cbEDIDModule_GetHDMIVICMode pool st) = Attribute st" for pool st
    unfolding cbEDIDModule_GetHDMIVICMode_def Let_def
    by (rule fold_Attribute) (simp add: hdmi_vic_step_def AddSvdFormat_Attribute)
  moreover have "Attribute (cbEDIDPatchHDMIAudio st) = Attribute st" for st
    by (simp add: cbEDIDPatchHDMIAudio_def split: prod.splits)
  ultimately show ?thesis by (simp add: cbEDIDModule_GetCEA861Mode_def Let_def)
qed

section \<open>The whole list\<close>

definition pools_ok :: "edid_pools \<Rightarrow> bool" where
  "pools_ok P \<longleftrightarrow> (\<forall>i. pool_ok (dtl_pool P i)) \<and> (\<forall>k i j. pool_ok (cea_pool P k i j) \<and> pool_gives (cea_pool P k i j)) \<and>
     (\<forall>k i j. pool_ok (did_pool P k i j)) \<and> (\<forall>i. pool_ok (est_pool P i) \<and> pool_gives (est_pool P i)) \<and>
     (\<forall>i. pool_ok (std_pool P i) \<and> pool_gives (std_pool P i))"

text \<open>The formats that a description names: those of its CEA extensions, and those of the vendor block read last.\<close>

definition edid_formats :: "u8 list \<Rightarrow> nat \<Rightarrow> u16 set" where
  "edid_formats e n = (\<Union>k \<in> {1..<n div 128}. extension_names (ext_block e k))"

lemma edid_timings_spec:
  assumes inv: "cea_inv 0 {} st" and vsdb: "HDMIVICLen (VSDBData (Attribute st)) = 0" and P: "pools_ok P"
    and size: "n \<le> length e" "n \<le> EDID_BLK_SIZE * CBIOS_EDID_MAX_BLK_CNT"
  defines "st' \<equiv> edid_timings P (Some e, n) st"
  shows "cea_inv 38536 (edid_formats e n \<union> hdmi_names (VSDBData (Attribute st'))) st'"
    "found_attrib (Attribute st') = found_attrib (Attribute st)"
    "(est_named e i (X, Y, R) \<or> std_named e i (X, Y, R)) \<Longrightarrow> named_range X Y R \<Longrightarrow> \<exists>t \<in> set (timings st'). serves X Y R t"
proof -
  note Q = P [unfolded pools_ok_def]
  obtain st1 n1 where r1: "cbEDIDModule_GetDetailedMode (dtl_pool P) e st = (st1, n1)"
    by (cases "cbEDIDModule_GetDetailedMode (dtl_pool P) e st")
  have 1: "cea_inv 4 {} st1" "Attribute st1 = Attribute st"
    using detailed_mode_inv [OF inv _ _ r1] Q by simp_all
  obtain st2 n2 where r2: "cbEDIDModule_GetCEA861Mode (cea_pool P) (Some e) n st1 = (st2, n2)"
    by (cases "cbEDIDModule_GetCEA861Mode (cea_pool P) (Some e) n st1")
  obtain st3 n3 where r3: "cbEDIDModule_GetDisplayIDMode (did_pool P) (Some e) n st2 = (st3, n3)"
    by (cases "cbEDIDModule_GetDisplayIDMode (did_pool P) (Some e) n st2")
  define st4 where "st4 = (if 128 < n then st3 else st1)"
  have c2: "found_attrib (Attribute st2) = found_attrib (Attribute st)"
    using found_cea [of "cea_pool P" "Some e" n st1] r2 1(2) by simp
  have 4: "cea_inv 38511 (edid_formats e n \<union> hdmi_names (VSDBData (Attribute st4))) st4 \<and>
      found_attrib (Attribute st4) = found_attrib (Attribute st)"
  proof (cases "128 < n")
    case True
    have "cea_inv (4 + 28007) ({} \<union> edid_formats e n \<union> hdmi_names (VSDBData (Attribute st2))) st2"
      unfolding edid_formats_def using Q by (intro cbEDIDModule_GetCEA861Mode_spec [OF 1(1) _ _ size r2]) simp_all
    then have 2: "cea_inv 28011 (edid_formats e n \<union> hdmi_names (VSDBData (Attribute st2))) st2" by simp
    then have ok: "edid_ok 28011 st2" by (simp add: cea_inv_def)
    have D: "edid_ok (28011 + 10500) st3" "extends did_found (st2, 0) (st3, n3) 10500" "Attribute st3 = Attribute st2"
      using cbEDIDModule_GetDisplayIDMode_spec [OF ok _ size(2) _ r3] Q by simp_all
    have "cea_inv 38511 (edid_formats e n \<union> hdmi_names (VSDBData (Attribute st2))) st3"
      using cea_inv_extends [OF 2 D(1,2) _ D(3)] by (simp add: did_found_def)
    then show ?thesis using True D(3) c2 by (simp add: st4_def)
  next
    case False
    then have none: "{1..<n div 128} = {}" by auto
    have "hdmi_names (VSDBData (Attribute st1)) = {}" using vsdb 1(2) by (simp add: hdmi_names_def)
    then show ?thesis
      using cea_inv_mono [OF 1(1), of 38511] False 1(2) by (simp add: st4_def edid_formats_def none)
  qed
  obtain st5 n5 where r5: "cbEDIDModule_GetEstablishMode (est_pool P) e st4 = (st5, n5)"
    by (cases "cbEDIDModule_GetEstablishMode (est_pool P) e st4")
  obtain st6 n6 where r6: "cbEDIDModule_GetStandardMode (std_pool P) e st5 = (st6, n6)"
    by (cases "cbEDIDModule_GetStandardMode (std_pool P) e st5")
  have st': "st' = st6"
    using r1 r2 r3 r5 r6 by (simp add: st'_def edid_timings_def Let_def st4_def split: if_splits)
  have ok4: "edid_ok 38511 st4" using 4 by (simp add: cea_inv_def)
  have E: "edid_ok (38511 + 17) st5" "extends (by_name CBIOS_EST_TIMING) (st4, 0) (st5, n5) 17"
    using est_reader_run(1,2) [OF ok4 _ _ r5] Q by simp_all
  have E3: "\<exists>t \<in> set (timings st5). serves X Y R t" if "est_named e i (X, Y, R)" "named_range X Y R"
    using est_reader_run(3) [OF ok4 _ _ r5 _ that] Q by simp
  have S: "edid_ok (38511 + 17 + 8) st6" "extends (by_name CBIOS_STD_TIMING) (st5, 0) (st6, n6) 8"
    using std_reader_run(1,2) [OF E(1) _ _ r6] Q by simp_all
  have S3: "\<exists>t \<in> set (timings st6). serves X Y R t" if "std_named e i (X, Y, R)" "named_range X Y R"
    using std_reader_run(3) [OF E(1) _ _ r6 _ that] Q by simp
  have att: "Attribute st5 = Attribute st4" "Attribute st6 = Attribute st5"
    using named_Attribute(1) [of "est_pool P" e st4] named_Attribute(2) [of "std_pool P" e st5] r5 r6 by simp_all
  have by_name_vic: "by_name ty t \<Longrightarrow> vic t = 0" for ty t by (simp add: by_name_def)
  show "found_attrib (Attribute st') = found_attrib (Attribute st)" using 4 att by (simp add: st')
  have "cea_inv (38511 + 17) (edid_formats e n \<union> hdmi_names (VSDBData (Attribute st4))) st5"
    by (rule cea_inv_extends [OF conjunct1 [OF 4] E(1,2) by_name_vic att(1)])
  from cea_inv_extends [OF this S(1,2) by_name_vic att(2)]
  show "cea_inv 38536 (edid_formats e n \<union> hdmi_names (VSDBData (Attribute st'))) st'"
    by (simp add: st' att)
  show "\<exists>t \<in> set (timings st'). serves X Y R t"
    if "est_named e i (X, Y, R) \<or> std_named e i (X, Y, R)" "named_range X Y R"
    using that(1)
  proof
    assume "est_named e i (X, Y, R)"
    then show ?thesis using E3 that(2) S(2) unfolding st' extends_def by auto
  next
    assume "std_named e i (X, Y, R)"
    then show ?thesis using S3 that(2) unfolding st' by blast
  qed
qed

text \<open>The description that is read: the one given, or its replacement when there is memory for it.\<close>

definition edid_read :: "(nat \<Rightarrow> bool) \<Rightarrow> u8 list \<Rightarrow> u8 list" where
  "edid_read alloc e =
     (case patch_source (read_attrib (Some e, length e) zero_monitor) of
        None \<Rightarrow> e
      | Some new \<Rightarrow> if length new = length e \<or> alloc (length new) then new else e)"

lemma patch_sources:
  "patch_source a = Some new \<Longrightarrow> new \<in> {PHL_24PFL3545_Edid, AUO_B145QAN01_Edid, CSW1473_Edid}"
  by (auto simp: patch_source_def split: if_splits)

lemma table_lengths:
  "length PHL_24PFL3545_Edid = 256" "length AUO_B145QAN01_Edid = 128" "length CSW1473_Edid = 256"
  by (simp_all add: PHL_24PFL3545_Edid_def AUO_B145QAN01_Edid_def CSW1473_Edid_def)

lemma patch_length: "patch_source a = Some new \<Longrightarrow> length new \<in> {128, 256}"
  using patch_sources [of a new] table_lengths by auto

lemma patched_data:
  assumes patch: "cbEDIDModule_Patch alloc (Some e, length e) (read_attrib (Some e, length e) zero_monitor) = (p, d, a')"
  shows "d = (Some (edid_read alloc e), length (edid_read alloc e))" "VSDBData a' = zero_vsdb"
    "p \<longleftrightarrow> patch_source (read_attrib (Some e, length e) zero_monitor) \<noteq> None"
proof -
  let ?a = "read_attrib (Some e, length e) zero_monitor"
  have "VSDBData a' = VSDBData ?a" using patch by (auto simp: cbEDIDModule_Patch_def Let_def split: prod.splits)
  then show "VSDBData a' = zero_vsdb" by (simp add: read_attrib_VSDB zero_monitor_def)
  have "d = (Some (edid_read alloc e), length (edid_read alloc e)) \<and> (p \<longleftrightarrow> patch_source ?a \<noteq> None)"
  proof (cases "patch_source ?a")
    case None
    then show ?thesis using patch by (auto simp: cbEDIDModule_Patch_def Let_def edid_read_def)
  next
    case (Some new)
    have "length new \<noteq> 0" using patch_length [OF Some] by auto
    then have "snd (cbCopyBuffer2EdidData alloc (Some e, length e) new) = (Some (edid_read alloc e), length (edid_read alloc e))"
      using Some by (simp add: cbCopyBuffer2EdidData_def edid_read_def)
    then show ?thesis using patch Some by (simp add: cbEDIDModule_Patch_def Let_def split: prod.splits)
  qed
  then show "d = (Some (edid_read alloc e), length (edid_read alloc e))" "p \<longleftrightarrow> patch_source ?a \<noteq> None" by blast+
qed

lemma edid_read_length: "length e \<le> EDID_BLK_SIZE * CBIOS_EDID_MAX_BLK_CNT \<Longrightarrow> length (edid_read alloc e) \<le> EDID_BLK_SIZE * CBIOS_EDID_MAX_BLK_CNT"
  using patch_length [of "read_attrib (Some e, length e) zero_monitor"]
  by (auto simp: edid_read_def EDID_BLK_SIZE_def CBIOS_EDID_MAX_BLK_CNT_def split: option.splits)


definition sample_edid :: "u8 list" where
  "sample_edid = EDID1header @ replicate 27 0 @ [0x20] @ replicate 90 0 @ [1, 0xE5] @
     [2, 3, 10, 0x40, 0x42, 0x90, 16, 0xE2, 0x0E, 97] @ replicate 117 0 @ [0x7E]"

definition sample_pools :: edid_pools where
  "sample_pools = \<lparr>dtl_pool = \<lambda>i. sample_pool, cea_pool = \<lambda>k i j. sample_pool, did_pool = \<lambda>k i j. sample_pool,
     est_pool = \<lambda>i. sample_pool, std_pool = \<lambda>i. sample_pool\<rparr>"

lemma sample_pools_ok: "pools_ok sample_pools"
proof -
  have "pool_gives sample_pool" by (auto simp: pool_gives_def sample_pool_def)
  then show ?thesis by (simp add: pools_ok_def sample_pools_def sample_pool_ok)
qed


section \<open>What a replacement does to the attributes\<close>

text \<open>The attributes that a replaced description leaves behind are those of the replacement, read over nothing.\<close>

lemma replaced_attrib:
  assumes valid: "cbEDIDModule_IsEDIDValid (Some e) (length e)" and size: "length e \<le> EDID_BLK_SIZE * CBIOS_EDID_MAX_BLK_CNT"
    and P: "pools_ok P" and src: "patch_source (read_attrib (Some e, length e) zero_monitor) = Some new"
    and room: "length new = length e \<or> alloc (length new)"
    and res: "cbEDIDModule_ParseEDID P alloc (Some e, length e) = (ok, d, st')"
  shows "d = (Some new, length new) \<and> found_attrib (Attribute st') = found_attrib (read_attrib (Some new, length new) zero_monitor)"
proof -
  let ?a = "read_attrib (Some e, length e) zero_monitor"
  obtain p d0 a where patch: "cbEDIDModule_Patch alloc (Some e, length e) ?a = (p, d0, a)"
    by (cases "cbEDIDModule_Patch alloc (Some e, length e) ?a")
  have e': "edid_read alloc e = new" using src room by (simp add: edid_read_def)
  note D = patched_data [OF patch, unfolded e']
  define st where "st = empty_edid_struct\<lparr>Attribute := read_attrib (Some new, length new) zero_monitor\<rparr>"
  have r: "d = (Some new, length new)" "st' = edid_timings P (Some new, length new) st"
    using res valid patch D(1,3) src by (auto simp: cbEDIDModule_ParseEDID_def Let_def st_def)
  have v: "VSDBData (Attribute st) = zero_vsdb" by (simp add: st_def read_attrib_VSDB zero_monitor_def)
  have inv: "cea_inv 0 {} st"
    using v by (simp add: st_def cea_inv_def edid_ok_def empty_edid_struct_def names_def timings_def formats_once_def
        vsdb_shape_def zero_vsdb_def)
  have len: "HDMIVICLen (VSDBData (Attribute st)) = 0" by (simp add: v zero_vsdb_def)
  show ?thesis
    using edid_timings_spec(2) [OF inv len P order_refl edid_read_length [OF size, of alloc, unfolded e']] r by (simp add: st_def)
qed

text \<open>
  C40. A television of the first kind known to be wrong: its replacement has a wrong checksum in the second block, so the
  attributes are not read again. Parsing succeeds, but the monitor has no id, no audio descriptors and does not
  count as HDMI, although the description given says all of that.
\<close>

theorem philips_attributes_lost:
  assumes valid: "cbEDIDModule_IsEDIDValid (Some e) (length e)" and size: "length e \<le> EDID_BLK_SIZE * CBIOS_EDID_MAX_BLK_CNT"
    and P: "pools_ok P" and src: "patch_source (read_attrib (Some e, length e) zero_monitor) = Some PHL_24PFL3545_Edid"
    and room: "length e = 256 \<or> alloc 256"
    and res: "cbEDIDModule_ParseEDID P alloc (Some e, length e) = (ok, d, st')"
  shows "IsCEA861HDMI (read_attrib (Some e, length e) zero_monitor) \<and>
    \<not> IsCEA861HDMI (Attribute st') \<and> \<not> IsCEA861Audio (Attribute st') \<and> SAD_Count (Attribute st') = 0 \<and>
    MonitorID (Attribute st') = replicate 8 0"
proof -
  have ne: "AUO_B145QAN01_Edid \<noteq> PHL_24PFL3545_Edid" "CSW1473_Edid \<noteq> PHL_24PFL3545_Edid"
    by (simp_all add: PHL_24PFL3545_Edid_def AUO_B145QAN01_Edid_def CSW1473_Edid_def)
  then have hdmi: "IsCEA861HDMI (read_attrib (Some e, length e) zero_monitor)"
    using src by (auto simp: patch_source_def split: if_splits)
  have "\<not> cbEDIDModule_IsEDIDValid (Some PHL_24PFL3545_Edid) 256" by code_simp
  then have "read_attrib (Some PHL_24PFL3545_Edid, 256) zero_monitor = zero_monitor"
    by (simp add: read_attrib_def cbEDIDModule_GetMonitorAttrib_def)
  moreover have "length PHL_24PFL3545_Edid = length e \<or> alloc (length PHL_24PFL3545_Edid)" using room table_lengths by auto
  ultimately have "found_attrib (Attribute st') = found_attrib zero_monitor"
    using replaced_attrib [OF valid size P src _ res] table_lengths by simp
  then show ?thesis using hdmi by (simp add: found_attrib_def zero_monitor_def)
qed

text \<open>The replacement with its checksum put right is a description of such a television.\<close>

definition sample_philips :: "u8 list" where "sample_philips = PHL_24PFL3545_Edid[255 := 0xA6]"

lemma philips_attributes_lost_witness:
  "SAD_Count (read_attrib (Some sample_philips, 256) zero_monitor) = 1 \<and>
   SAD_Count (Attribute (snd (snd (cbEDIDModule_ParseEDID sample_pools (\<lambda>n. True) (Some sample_philips, 256))))) = 0"
proof -
  obtain ok d st' where r: "cbEDIDModule_ParseEDID sample_pools (\<lambda>n. True) (Some sample_philips, 256) = (ok, d, st')"
    by (cases "cbEDIDModule_ParseEDID sample_pools (\<lambda>n. True) (Some sample_philips, 256)")
  have valid: "cbEDIDModule_IsEDIDValid (Some sample_philips) 256" by code_simp
  have len: "length sample_philips = 256" by code_simp
  have sads: "SAD_Count (read_attrib (Some sample_philips, 256) zero_monitor) = 1" by code_simp
  have match: "cbStrnCmp (MonitorID (read_attrib (Some sample_philips, 256) zero_monitor)) STR_PHL0010 7 = 0"
    "cbStrnCmp (MonitorName (read_attrib (Some sample_philips, 256) zero_monitor)) STR_B24PFL3545 13 = 0"
    "IsCEA861HDMI (read_attrib (Some sample_philips, 256) zero_monitor)" by code_simp+
  have src: "patch_source (read_attrib (Some sample_philips, 256) zero_monitor) = Some PHL_24PFL3545_Edid"
    using match by (simp add: patch_source_def)
  have "length sample_philips \<le> EDID_BLK_SIZE * CBIOS_EDID_MAX_BLK_CNT" by (simp add: len EDID_BLK_SIZE_def CBIOS_EDID_MAX_BLK_CNT_def)
  from philips_attributes_lost [OF valid [folded len] this sample_pools_ok src [folded len] _ r [folded len]]
  show ?thesis using sads r len by simp
qed

text \<open>A panel of the third kind: its varying refresh rate is switched off and comes back with the replacement.\<close>

lemma csw_free_sync_back:
  assumes "cbEDIDModule_IsEDIDValid (Some e) (length e)" "length e \<le> EDID_BLK_SIZE * CBIOS_EDID_MAX_BLK_CNT" "pools_ok P"
    and "patch_source (read_attrib (Some e, length e) zero_monitor) = Some CSW1473_Edid" and "length e = 256 \<or> alloc 256"
    and "cbEDIDModule_ParseEDID P alloc (Some e, length e) = (ok, d, st')"
  shows "bSupportFreeSync (MRLData (Attribute st')) \<and> \<not> free_sync_panel (read_attrib (Some CSW1473_Edid, 256) zero_monitor)"
proof -
  have csw: "bSupportFreeSync (MRLData (read_attrib (Some CSW1473_Edid, 256) zero_monitor))"
    "\<not> free_sync_panel (read_attrib (Some CSW1473_Edid, 256) zero_monitor)" by code_simp+
  have "length CSW1473_Edid = length e \<or> alloc (length CSW1473_Edid)" using assms(5) table_lengths by auto
  from replaced_attrib [OF assms(1-4) this assms(6)] show ?thesis
    using csw table_lengths by (simp add: found_attrib_def)
qed

section \<open>Three dimensional modes\<close>

record monitor_3d =
  td_bIsSupport3DVideo :: bool
  td_Monitor3DModeNum :: u32
  td_bStereoViewSupport :: bool
  td_StereoViewType :: u32

text \<open>The loop over the timings has an empty body, so no mode is ever counted.\<close>

definition cbEDIDModule_GetMonitor3DCaps :: "edid_struct \<Rightarrow> monitor_3d \<Rightarrow> bool \<Rightarrow> monitor_3d" where
  "cbEDIDModule_GetMonitor3DCaps st p IsHWSupportHDMI3DVideo =
     (let Monitor3DModeNum = 0;
          p = p\<lparr>td_bStereoViewSupport := bStereoViewSupport (Attribute st), td_StereoViewType := StereoViewType (Attribute st)\<rparr>;
          p = (if IsHWSupportHDMI3DVideo \<and> bit (HDMI3DPresentFlags (VSDBData (Attribute st))) 7
               then p\<lparr>td_bIsSupport3DVideo := True\<rparr> else p);
          p = p\<lparr>td_Monitor3DModeNum := Monitor3DModeNum\<rparr>
      in p\<lparr>td_bIsSupport3DVideo := Monitor3DModeNum \<noteq> 0\<rparr>)"

lemma monitor_3d_never: "\<not> td_bIsSupport3DVideo (cbEDIDModule_GetMonitor3DCaps st p hw)"
  by (simp add: cbEDIDModule_GetMonitor3DCaps_def Let_def)

end
