(* ===== verification/Spec2Isabelle.thy ===== *)
theory Spec2Isabelle
  imports Ring_Buffer Fb_Memory Fence Task_Queue Linked_List Bit_Util Vm_Id Perf_Event Edid_Svd Page_Release Gart
    Path_Manager Edid_Parse
begin

text \<open>
  A verification development for the kernel driver of the Zhaoxin CX4 graphics adapter.

  The driver has three layers. \<^verbatim>\<open>src/linux\<close> registers it with the kernel and forwards the callbacks
  of the graphics framework; \<^verbatim>\<open>src/core\<close> is the operating system independent part, with a memory
  manager (\<^verbatim>\<open>vidmm\<close>), a scheduler (\<^verbatim>\<open>vidsch\<close>) and the code of the chip (\<^verbatim>\<open>e3k\<close>); \<^verbatim>\<open>src/cbios\<close> is the
  display BIOS, which finds the monitors, reads their descriptions and programs the display engines.
  A client asks the memory manager for memory and for GPU addresses; it hands a context batches of
  commands, which become tasks in the queue of an engine; a worker thread takes the tasks by
  priority, picks an address space id whose page tables the engine has loaded, writes the commands
  into the ring of the engine and gives the task the next fence; when the engine reports the fence
  back, the task is complete and what it used may be reused.

  The theories follow this path.

  \<^item> \<open>Prelude\<close>: machine integers, result codes, the collections and lemmas shared by all.
  \<^item> \<open>Range_Allocator\<close> (\<^verbatim>\<open>linux/os_interface.c\<close>) hands out disjoint ranges of an address space.
    The kernel's \<^verbatim>\<open>drm_mm\<close> under it is the parameter \<open>pool\<close>, what it hands out the hypothesis; local
    memory, GPU addresses and DMA space all come from it. \<open>Fb_Memory\<close> (\<^verbatim>\<open>core/vidmm/vidmm_allocate.c\<close>)
    splits a request for local memory into such ranges. The locale of the allocator states what its
    client relies on, and the model of the code is its interpretation.
  \<^item> \<open>Ring_Buffer\<close> (\<^verbatim>\<open>core/util/ring_buffer.c\<close>): the command ring. The engine is the parameter that
    reports its read position; the driver's wait loop has as many rounds as the parameter gives.
  \<^item> \<open>Fence\<close> (\<^verbatim>\<open>core/vidsch/vidsch.c\<close>, \<^verbatim>\<open>vidsch_task.c\<close>): the fence counters of an engine, the slots of
    the fence buffer, and which submitted tasks are complete.
  \<^item> \<open>Task_Queue\<close> (\<^verbatim>\<open>core/vidsch/vidsch_task_queue.c\<close>, \<^verbatim>\<open>vidsch_workerthread.c\<close>): the queues, the
    active lists per priority and the loops of the worker. Queues are shared, so they live in a store
    of numbered objects; the steps of all threads form an \<open>inductive\<close> relation, and the invariant is
    proved for every reachable state.
  \<^item> \<open>Vm_Id\<close> (\<^verbatim>\<open>core/vidsch/vidsch_vm_id.c\<close>): which process owns which address space id of an engine.
    The loop that waits for an id to become idle runs while the engine's returned fences, a parameter,
    say so; that it ends is a theorem under the hypothesis that the engine makes progress.
  \<^item> \<open>Perf_Event\<close> (\<^verbatim>\<open>core/perfevent/perfevent.c\<close>): bounded event lists, the byte ring that is filled by
    interrupts, and the usage accounting, whose 64 bit division truncates its divisor.
  \<^item> \<open>Linked_List\<close> (\<^verbatim>\<open>core/util/list.h\<close>): the intrusive lists on a store of pointers, related to lists
    of the logic by an abstraction; \<open>Bit_Util\<close> (\<^verbatim>\<open>core/util/util.c\<close>, \<^verbatim>\<open>bit_op.h\<close>): scans and logarithms.
  \<^item> \<open>Edid\<close>, \<open>Cea_Table\<close>, \<open>Cea_Format\<close>, \<open>Edid_List\<close>, \<open>Edid_Svd\<close>, \<open>Edid_Std\<close> and \<open>Cvt\<close>
    (\<^verbatim>\<open>cbios/Util/CBiosEDID.c\<close>, \<^verbatim>\<open>CBiosUtil.c\<close>): the
    description of a monitor as bytes, the table of the standard video formats, and the list of
    timings built from both. Every reader of the list is an interpretation of one locale, whose
    lemmas say that the list is only extended, by timings of one kind, and that what a round adds stays. Timings
    that are given by size and rate come from tables or are calculated; the calculation is shown to stay in 32 bits
    for sizes from 640 by 480 to 4096 by 2304 and rates from 60 to 123 Hz, which are the rates a standard timing can name.
  \<^item> \<open>Cea_Vendor\<close>, \<open>Cea_Audio\<close> and \<open>Cea_Block\<close> (\<^verbatim>\<open>cbios/Util/CBiosEDID.c\<close>): the data blocks of an extension. The
    vendor block is a chain of stages, each of which may be the last; its round trip is proved stage by stage.
    \<open>Cea_Block\<close> walks over the extensions; \<open>cea_inv\<close> says which formats the list names so far and every block
    keeps it. \<open>Monitor_Attrib\<close> is the second walk over the same bytes, for the attributes of the monitor.
    \<open>Display_Id\<close> reads the other kind of extension; \<open>Edid_Parse\<close> replaces descriptions known to be wrong and puts all
    readers in their order, so that its theorem speaks about the whole list.
    Bytes behind the end of what the caller gave are unspecified values of the logic, as they are in the code.
  \<^item> \<open>Mode_List\<close> (\<^verbatim>\<open>cbios/Display/CBiosMode.c\<close>) makes the list of modes a device offers from the
    timings of \<open>Edid_List\<close>. The rounds of the code are a recursion over the timings not yet merged; its
    invariant \<open>list_inv\<close> says what the list holds so far, \<open>served_inv\<close> that nothing was lost.
  \<^item> \<open>Path_Manager\<close> (\<^verbatim>\<open>cbios/Display/CBiosPathManager.c\<close>) gives display engines to devices and links the
    modules between them. What is done to the modules is the list of the calls, in order.
  \<^item> \<open>Page_Table\<close>, \<open>Page_Map\<close> and \<open>Page_Release\<close> (\<^verbatim>\<open>core/vidmm/vidmm_vm.c\<close>): the page tables of an
    address space as a tree, beside it what the engine reads from memory. Creating directories, telling
    the engine about them, filling tables and releasing them are functions on both; what the engine
    finds is its own walk over the memory. Segment memory and the memory of the kernel are the
    parameter \<open>pt_env\<close>, of which only is assumed that a new buffer is not one in use; the instance
    \<open>ample_env\<close> meets that. The invariant \<open>vma_ok\<close> says that the tree has its shape and that
    no buffer is used twice, and every operation is shown to keep it.
  \<^item> \<open>Pte_E3k\<close> and \<open>Page_Phys\<close> (\<^verbatim>\<open>core/e3k/vidmm/vidmm_e3k.c\<close>): the same one level down. The calls of
    \<open>Page_Map\<close> become the words of the chip, and \<open>memory_rel\<close> says when words stand for what \<open>Page_Map\<close>
    takes memory to hold; every call refines the call of \<open>Page_Map\<close>, so that the engine's walk over words
    ends at physical pages. Beside them the dirty ranges and the registers that announce them.
  \<^item> \<open>Gart\<close> (the same file): the page table of the shared space, with \<open>share_ok\<close> as its invariant.

  Integers are words of the width of the source where wrap-around can be reached, and natural
  numbers otherwise, with the bound that justifies it as a hypothesis or a lemma. Pointers are
  numbers into explicit stores where sharing matters and values otherwise. Results are the codes of
  \<^verbatim>\<open>core/include/core_errno.h\<close> or options for null pointers. Loops are structural or have a measure; where a
  loop waits for hardware it takes a list of observations or a fuel, and that enough of them is
  available is a hypothesis that the witness of the theorem meets. The forced wait of
  \<^verbatim>\<open>vidschi_fini_vm_id_mgr\<close> for a fence is its postcondition: the fence is back afterwards.

  The properties state, in this order, that work of different processes is never mixed under one
  address space id; that no queued task is lost; that local memory is handed out exactly once and
  completely; that mapping an allocation makes the engine find its pages and no others, down to the bits of the
  entries and the translations it has to forget, and that releasing frees exactly the tables without use; that completion is reported exactly when it has happened; that the ring is not overrun;
  the order of submission; that lists are lists; and that descriptions of monitors survive the round
  trip through their byte format, give usable timings and a sound and complete list of modes, and that a display
  path holds what the mode needs. Several properties fix the branches on
  which the code does not do what it means to: they are stated as theorems about the code as it is.

  Not modelled: register and packet programming (\<^verbatim>\<open>core/e3k\<close> beyond what is named above, \<^verbatim>\<open>cbios/Hw\<close>,
  the ports and panels of \<^verbatim>\<open>cbios/Device\<close>), because its meaning lies in the hardware; the callbacks
  of \<^verbatim>\<open>src/linux\<close>, whose contracts belong to a kernel that is not in the repository; text output;
  locking, which is taken to make every operation atomic. Not modelled yet: paging of allocations,
  segments, the zones of GPU addresses, task objects and batches, contexts and the setting of modes (\<^verbatim>\<open>CBiosDisplayManager.c\<close>).
\<close>

end
